(* ===== verification/Prelude.thy ===== *)
theory Prelude
  imports Main "HOL-Library.Multiset"
begin

text \<open>
  Shared by every theory of the development: the arithmetic macros of
  source/core/Macro.h, C's truncating division, the error codes of
  include/MNN/ErrorCode.hpp, generic facts on lists and options, and the
  ordered multi-index interface (\<open>std::multiset\<close> and \<open>std::multimap\<close> keyed by a
  size) that both buffer allocators use for their free lists.
\<close>

named_theorems alloc_defs \<open>definitions of the allocator operations\<close>
named_theorems shape_defs \<open>definitions of the shape computers\<close>
named_theorems raster_simps \<open>rewriting facts on regions\<close>

section \<open>Macros and integer arithmetic\<close>

text \<open>\<open>size_t\<close> instances of the macros; the int instances are below.\<close>

definition UP_DIV :: "nat \<Rightarrow> nat \<Rightarrow> nat" where
  "UP_DIV x y = (x + y - 1) div y"

definition ROUND_UP :: "nat \<Rightarrow> nat \<Rightarrow> nat" where
  "ROUND_UP x y = (x + y - 1) div y * y"

text \<open>C's \<open>/\<close> and \<open>%\<close> on signed integers truncate towards zero.\<close>

definition cdiv :: "int \<Rightarrow> int \<Rightarrow> int" where
  "cdiv a b = sgn a * sgn b * (\<bar>a\<bar> div \<bar>b\<bar>)"

definition crem :: "int \<Rightarrow> int \<Rightarrow> int" where
  "crem a b = a - cdiv a b * b"

definition UP_DIV_i :: "int \<Rightarrow> int \<Rightarrow> int" where
  "UP_DIV_i x y = cdiv (x + y - 1) y"

definition ROUND_UP_i :: "int \<Rightarrow> int \<Rightarrow> int" where
  "ROUND_UP_i x y = cdiv (x + y - 1) y * y"

definition ALIMIN :: "'a::linorder \<Rightarrow> 'a \<Rightarrow> 'a" where
  "ALIMIN x y = (if x < y then x else y)"

definition ALIMAX :: "'a::linorder \<Rightarrow> 'a \<Rightarrow> 'a" where
  "ALIMAX x y = (if x > y then x else y)"

lemma ALIMIN_min [simp]: "ALIMIN x y = min x y"
  by (auto simp: ALIMIN_def min_def)

lemma ALIMAX_max [simp]: "ALIMAX x y = max x y"
  by (auto simp: ALIMAX_def max_def)

lemma ROUND_UP_eq: "ROUND_UP x y = UP_DIV x y * y"
  by (simp add: ROUND_UP_def UP_DIV_def)

lemma UP_DIV_ge: "0 < y \<Longrightarrow> x \<le> UP_DIV x y * y"
proof -
  assume y: "0 < y"
  have "x + y - 1 = (x + y - 1) div y * y + (x + y - 1) mod y" by simp
  moreover have "(x + y - 1) mod y < y" using y by simp
  ultimately show ?thesis unfolding UP_DIV_def using y by linarith
qed

lemma UP_DIV_lt: "0 < y \<Longrightarrow> UP_DIV x y * y < x + y"
proof -
  assume y: "0 < y"
  have "(x + y - 1) div y * y \<le> x + y - 1" by (simp add: div_times_less_eq_dividend)
  with y show ?thesis unfolding UP_DIV_def by linarith
qed

lemma UP_DIV_pos: "0 < y \<Longrightarrow> 0 < x \<Longrightarrow> 0 < UP_DIV x y"
  by (simp add: UP_DIV_def div_greater_zero_iff)

lemma UP_DIV_exact: "0 < y \<Longrightarrow> y dvd x \<Longrightarrow> UP_DIV x y * y = x"
proof -
  assume y: "0 < y" and "y dvd x"
  then obtain k where x: "x = y * k" by (auto simp: dvd_def)
  have "(y - 1 + y * k) div y = k" by (rule div_nat_eqI) (use y in auto)
  moreover have "y * k + y - 1 = y - 1 + y * k" using y by simp
  ultimately show ?thesis by (simp add: UP_DIV_def x)
qed

lemma cdiv_nonneg: "0 \<le> a \<Longrightarrow> 0 < b \<Longrightarrow> cdiv a b = a div b"
  by (cases "a = 0") (simp_all add: cdiv_def)

lemma crem_nonneg: "0 \<le> a \<Longrightarrow> 0 < b \<Longrightarrow> crem a b = a mod b"
  by (simp add: crem_def cdiv_nonneg minus_div_mult_eq_mod)

section \<open>Error codes\<close>

datatype ErrorCode = NO_ERROR | OUT_OF_MEMORY | NOT_SUPPORT | COMPUTE_SIZE_ERROR
  | NO_EXECUTION | INVALID_VALUE | INPUT_DATA_ERROR | CALL_BACK_STOP
  | TENSOR_NOT_SUPPORT | TENSOR_NEED_DIVIDE | FILE_CREATE_FAILED | FILE_REMOVE_FAILED
  | FILE_OPEN_FAILED | FILE_CLOSE_FAILED | FILE_RESIZE_FAILED | FILE_SEEK_FAILED
  | FILE_NOT_EXIST | FILE_UNMAP_FAILED

section \<open>The ordered multi-index interface\<close>

text \<open>
  What the allocators ask of \<open>std::multiset\<close>/\<open>std::multimap\<close>: an insertion that
  keeps the entries ordered by key (equal keys in insertion order), \<open>lower_bound\<close>
  as the position of the first entry whose key is not smaller, and the erasure of
  one entry. The key of an entry is read through \<open>key\<close> at the time of the call,
  as \<open>ChunkBySize::operator<\<close> reads \<open>chunk->size\<close> through the pointer.
\<close>

locale ordered_index =
  fixes ins :: "('a \<Rightarrow> nat) \<Rightarrow> 'a \<Rightarrow> 'a list \<Rightarrow> 'a list"
    and lb :: "('a \<Rightarrow> nat) \<Rightarrow> nat \<Rightarrow> 'a list \<Rightarrow> nat"
    and del :: "nat \<Rightarrow> 'a list \<Rightarrow> 'a list"
  assumes mset_ins: "mset (ins k x xs) = add_mset x (mset xs)"
    and sorted_ins: "sorted (map k xs) \<Longrightarrow> sorted (map k (ins k x xs))"
    and lb_le: "lb k n xs \<le> length xs"
    and lb_first: "i < lb k n xs \<Longrightarrow> k (xs ! i) < n"
    and lb_key: "lb k n xs < length xs \<Longrightarrow> n \<le> k (xs ! lb k n xs)"
    and mset_del: "i < length xs \<Longrightarrow> mset xs = add_mset (xs ! i) (mset (del i xs))"
    and sorted_del: "sorted (map k xs) \<Longrightarrow> sorted (map k (del i xs))"
begin

lemma set_ins [simp]: "set (ins k x xs) = insert x (set xs)"
  by (metis mset_ins set_mset_add_mset_insert set_mset_mset)

lemma length_ins [simp]: "length (ins k x xs) = Suc (length xs)"
  by (metis mset_ins size_add_mset size_mset)

lemma distinct_ins: "distinct (ins k x xs) \<longleftrightarrow> x \<notin> set xs \<and> distinct xs"
  by (metis distinct.simps(2) mset_eq_imp_distinct_iff mset.simps(2) mset_ins)

lemma set_del: "distinct xs \<Longrightarrow> i < length xs \<Longrightarrow> set (del i xs) = set xs - {xs ! i}"
proof -
  assume d: "distinct xs" and i: "i < length xs"
  have "mset xs = mset (xs ! i # del i xs)" using mset_del [OF i] by simp
  then have "distinct (xs ! i # del i xs)" "set xs = set (xs ! i # del i xs)"
    using d mset_eq_imp_distinct_iff mset_eq_setD by blast+
  then show ?thesis by auto
qed

lemma distinct_del: "distinct xs \<Longrightarrow> i < length xs \<Longrightarrow> distinct (del i xs)"
  by (metis distinct.simps(2) mset.simps(2) mset_del mset_eq_imp_distinct_iff)

lemma length_del: "i < length xs \<Longrightarrow> Suc (length (del i xs)) = length xs"
  by (metis mset_del size_add_mset size_mset)

text \<open>With the entries in order, the entry found is a smallest one that is large enough.\<close>

lemma lb_best_fit:
  assumes "lb k n xs < length xs" and "x \<in> set xs" and "n \<le> k x" and "sorted (map k xs)"
  shows "k (xs ! lb k n xs) \<le> k x"
proof -
  from assms(2) obtain i where i: "i < length xs" "xs ! i = x" by (auto simp: in_set_conv_nth)
  have "\<not> i < lb k n xs" using lb_first [of i k n xs] i(2) assms(3) by auto
  then have "lb k n xs \<le> i" by simp
  then have "map k xs ! lb k n xs \<le> map k xs ! i"
    using assms(4) i(1) by (intro sorted_nth_mono) simp_all
  then show ?thesis using i assms(1) by simp
qed

text \<open>If nothing is large enough, \<open>lower_bound\<close> is \<open>end()\<close>.\<close>

lemma lb_end: "lb k n xs = length xs \<Longrightarrow> x \<in> set xs \<Longrightarrow> k x < n"
  by (metis in_set_conv_nth lb_first)

end

fun multi_insert :: "('a \<Rightarrow> nat) \<Rightarrow> 'a \<Rightarrow> 'a list \<Rightarrow> 'a list" where
  "multi_insert k x [] = [x]"
| "multi_insert k x (y # ys) = (if k x < k y then x # y # ys else y # multi_insert k x ys)"

fun lower_bound :: "('a \<Rightarrow> nat) \<Rightarrow> nat \<Rightarrow> 'a list \<Rightarrow> nat" where
  "lower_bound k n [] = 0"
| "lower_bound k n (y # ys) = (if k y < n then Suc (lower_bound k n ys) else 0)"

definition erase_at :: "nat \<Rightarrow> 'a list \<Rightarrow> 'a list" where
  "erase_at i xs = take i xs @ drop (Suc i) xs"

lemma mset_multi_insert: "mset (multi_insert k x xs) = add_mset x (mset xs)"
  by (induction xs) auto

lemma set_multi_insert: "set (multi_insert k x xs) = insert x (set xs)"
  by (induction xs) auto

lemma sorted_multi_insert: "sorted (map k xs) \<Longrightarrow> sorted (map k (multi_insert k x xs))"
  by (induction xs) (auto simp: set_multi_insert)

lemma lower_bound_le: "lower_bound k n xs \<le> length xs"
  by (induction xs) auto

lemma lower_bound_first: "i < lower_bound k n xs \<Longrightarrow> k (xs ! i) < n"
  by (induction xs arbitrary: i) (auto simp: nth_Cons split: nat.splits if_splits)

lemma lower_bound_key: "lower_bound k n xs < length xs \<Longrightarrow> n \<le> k (xs ! lower_bound k n xs)"
  by (induction xs) auto

lemma mset_erase_at: "i < length xs \<Longrightarrow> mset xs = add_mset (xs ! i) (mset (erase_at i xs))"
proof -
  assume "i < length xs"
  then have "xs = take i xs @ xs ! i # drop (Suc i) xs" by (simp add: id_take_nth_drop)
  then have "mset xs = mset (take i xs @ xs ! i # drop (Suc i) xs)" by simp
  then show ?thesis by (simp add: erase_at_def)
qed

lemma sorted_erase_at: "sorted (map k xs) \<Longrightarrow> sorted (map k (erase_at i xs))"
proof -
  assume s: "sorted (map k xs)"
  have "sorted (take i (map k xs) @ drop (Suc i) (map k xs))"
  proof -
    have "sorted (take (Suc i) (map k xs) @ drop (Suc i) (map k xs))" using s by simp
    then have "\<forall>x\<in>set (take (Suc i) (map k xs)). \<forall>y\<in>set (drop (Suc i) (map k xs)). x \<le> y"
      unfolding sorted_append by blast
    moreover have "set (take i (map k xs)) \<subseteq> set (take (Suc i) (map k xs))"
      by (rule set_take_subset_set_take) simp
    ultimately show ?thesis using s by (auto simp: sorted_append sorted_wrt_take)
  qed
  then show ?thesis by (simp add: erase_at_def take_map drop_map)
qed

interpretation fidx: ordered_index multi_insert lower_bound erase_at
  by unfold_locales
    (auto simp: mset_multi_insert sorted_multi_insert lower_bound_le sorted_erase_at
      intro: lower_bound_first lower_bound_key mset_erase_at)

section \<open>Generic facts\<close>

lemma nth_list_update_if: "xs[i := y] ! j = (if i = j \<and> j < length xs then y else xs ! j)"
  by (cases "i = j"; cases "j < length xs") (auto simp: list_update_beyond)

lemma distinct_mid: "distinct (xs @ a # ys) \<Longrightarrow> a \<notin> set xs \<and> a \<notin> set ys"
  by auto

lemma sum_list_update_nat:
  "i < length (xs::nat list) \<Longrightarrow> sum_list (xs[i := y]) + xs ! i = sum_list xs + y"
proof -
  assume i: "i < length xs"
  have "mset (xs[i := y]) + {#xs ! i#} = mset xs + {#y#}"
    using i by (simp add: mset_update)
  then have "sum_mset (mset (xs[i := y]) + {#xs ! i#}) = sum_mset (mset xs + {#y#})" by simp
  then show ?thesis by (simp add: sum_mset_sum_list)
qed

end
