(* ===== verification/Defer_Model.thy ===== *)
theory Defer_Model
  imports Prelude
begin

text \<open>
  \<open>DeferBufferAllocator\<close> and \<open>SingleBufferWithAllocator\<close> of
  source/core/BufferAllocator.cpp. The deferred allocator hands out chunks whose
  addresses are not known yet: it keeps them in a doubly linked list in address
  order, reuses freed ones, and \<open>compute\<close> assigns all offsets at once and places
  them in the parent's single buffer.

  \<open>MemNode*\<close> is an index into \<open>mChunks\<close> (which only grows between two resets),
  \<open>nullptr\<close> is \<open>None\<close>; the list is the \<open>left\<close>/\<open>right\<close> fields, as in the code.
  Addresses (\<open>void*\<close>) are numbers with 0 for \<open>nullptr\<close>. \<open>Tensor*\<close> is a number;
  what \<open>mApplyFunction\<close> writes (\<open>t->buffer().host\<close>) is the map \<open>hosts\<close>.
  \<open>size_t\<close> values are naturals: \<open>Defer_Props\<close> bounds every size and offset by the
  sum of the requested sizes, so nothing wraps while that sum fits a \<open>size_t\<close>.
\<close>

section \<open>Data\<close>

type_synonym ptr = nat

abbreviation (input) nullptr :: ptr where "nullptr \<equiv> 0"

record MemNode =
  nsize :: nat
  noffset :: nat
  nbase :: ptr
  usage :: bool
  left :: "nat option"
  right :: "nat option"
  children :: "nat list"
  tensors :: "nat list"

definition new_MemNode :: "nat \<Rightarrow> MemNode" where
  "new_MemNode s = \<lparr>nsize = s, noffset = 0, nbase = nullptr, usage = True, left = None,
     right = None, children = [], tensors = []\<rparr>"

record MemChunk =
  first :: ptr
  second :: nat
  mNode :: "nat option"

definition null_chunk :: MemChunk where
  "null_chunk = \<lparr>first = nullptr, second = 0, mNode = None\<rparr>"

definition chunk_of_pointer :: "ptr \<Rightarrow> nat \<Rightarrow> MemChunk" where
  "chunk_of_pointer p off = \<lparr>first = p, second = off, mNode = None\<rparr>"

definition chunk_of_node :: "nat \<Rightarrow> MemChunk" where
  "chunk_of_node n = \<lparr>first = nullptr, second = 0, mNode = Some n\<rparr>"

text \<open>The accessors of \<open>MemChunk\<close>; those that read the node take the node store.\<close>

definition chunk_invalid :: "MemChunk \<Rightarrow> bool" where
  "chunk_invalid c \<longleftrightarrow> mNode c = None \<and> first c = nullptr"

definition chunk_base :: "MemNode list \<Rightarrow> MemChunk \<Rightarrow> ptr" where
  "chunk_base h c = (case mNode c of Some n \<Rightarrow> nbase (h ! n) | None \<Rightarrow> first c)"

definition chunk_plus :: "MemChunk \<Rightarrow> nat \<Rightarrow> MemChunk" where
  "chunk_plus c offset = c\<lparr>second := second c + offset\<rparr>"

definition chunk_offset :: "MemNode list \<Rightarrow> MemChunk \<Rightarrow> nat" where
  "chunk_offset h c = (case mNode c of Some n \<Rightarrow> noffset (h ! n) + second c | None \<Rightarrow> second c)"

definition chunk_ptr :: "MemNode list \<Rightarrow> MemChunk \<Rightarrow> ptr" where
  "chunk_ptr h c = (case mNode c of
     Some n \<Rightarrow> nbase (h ! n) + noffset (h ! n) + second c
   | None \<Rightarrow> first c + second c)"

text \<open>
  \<open>BufferAllocator::Allocator\<close> is an abstract class: a record of its two operations
  over a state \<open>'w\<close> of the memory behind it (the heap of \<open>malloc\<close>, another allocator).
\<close>

record 'w Allocator =
  onAlloc :: "nat \<Rightarrow> nat \<Rightarrow> 'w \<Rightarrow> MemChunk \<times> 'w"
  onRelease :: "MemChunk \<Rightarrow> 'w \<Rightarrow> 'w"

section \<open>The single buffer\<close>

record SingleBuffer =
  current :: MemChunk
  currentSize :: nat

definition new_SingleBuffer :: SingleBuffer where
  "new_SingleBuffer = \<lparr>current = null_chunk, currentSize = 0\<rparr>"

definition single_release ::
  "'w Allocator \<Rightarrow> SingleBuffer \<Rightarrow> 'w \<Rightarrow> SingleBuffer \<times> 'w" where
  "single_release root b w =
     (if first (current b) \<noteq> nullptr
      then (b\<lparr>current := (current b)\<lparr>first := nullptr, second := 0\<rparr>, currentSize := 0\<rparr>,
            onRelease root (current b) w)
      else (b, w))"

definition single_realloc ::
  "'w Allocator \<Rightarrow> nat \<Rightarrow> nat \<Rightarrow> SingleBuffer \<Rightarrow> 'w \<Rightarrow> ErrorCode \<times> SingleBuffer \<times> 'w" where
  "single_realloc root sz align b w =
     (if currentSize b < sz then
        let w1 = (if first (current b) \<noteq> nullptr then onRelease root (current b) w else w);
            (c, w2) = onAlloc root sz align w1;
            b1 = b\<lparr>current := c\<rparr>
        in if first c = nullptr then (OUT_OF_MEMORY, b1, w2)
           else (NO_ERROR, b1\<lparr>currentSize := sz\<rparr>, w2)
      else (NO_ERROR, b, w))"

section \<open>The deferred allocator's state and its list of chunks\<close>

record Defer =
  mChunks :: "MemNode list"
  mHead :: "nat option"
  mTail :: "nat option"
  mFreeList :: "nat list"
  mPtr :: MemChunk
  mTotalSize :: nat
  mAlign :: nat
  mBarrrier :: bool
  mBarrrierFreeChunks :: "MemChunk list"
  hosts :: "nat \<Rightarrow> ptr option"

definition new_Defer :: "nat \<Rightarrow> Defer" where
  "new_Defer align = \<lparr>mChunks = [], mHead = None, mTail = None, mFreeList = [],
     mPtr = null_chunk, mTotalSize = 0, mAlign = align, mBarrrier = False,
     mBarrrierFreeChunks = [], hosts = Map.empty\<rparr>"

abbreviation node_at :: "Defer \<Rightarrow> nat \<Rightarrow> MemNode" where
  "node_at s i \<equiv> mChunks s ! i"

definition upd_node :: "nat \<Rightarrow> (MemNode \<Rightarrow> MemNode) \<Rightarrow> Defer \<Rightarrow> Defer" where
  "upd_node i f s = s\<lparr>mChunks := (mChunks s)[i := f (mChunks s ! i)]\<rparr>"

definition createMemNode :: "nat \<Rightarrow> Defer \<Rightarrow> nat \<times> Defer" where
  "createMemNode sz s =
     (length (mChunks s), s\<lparr>mChunks := mChunks s @ [new_MemNode sz]\<rparr>)"

definition insertFree :: "nat \<Rightarrow> Defer \<Rightarrow> Defer" where
  "insertFree chunk s =
     s\<lparr>mFreeList := multi_insert (\<lambda>i. nsize (node_at s i)) chunk (mFreeList s)\<rparr>"

text \<open>
  \<open>eraseFree\<close> scans the entries of equal size for the chunk itself. The multiset is
  ordered by size, so the scanned range is exactly the entries whose size equals the
  chunk's.
\<close>

definition eraseFree :: "nat \<Rightarrow> Defer \<Rightarrow> Defer" where
  "eraseFree chunk s =
     (let lo = lower_bound (\<lambda>i. nsize (node_at s i)) (nsize (node_at s chunk)) (mFreeList s);
          range = takeWhile (\<lambda>i. nsize (node_at s i) = nsize (node_at s chunk))
                    (drop lo (mFreeList s));
          k = length (takeWhile (\<lambda>i. i \<noteq> chunk) range)
      in if k < length range then s\<lparr>mFreeList := erase_at (lo + k) (mFreeList s)\<rparr> else s)"

definition insert_after :: "nat \<Rightarrow> nat option \<Rightarrow> Defer \<Rightarrow> Defer" where
  "insert_after chunk pos s =
     (case pos of
        Some p \<Rightarrow>
          let r = right (node_at s p);
              s1 = (case r of Some q \<Rightarrow> upd_node q (\<lambda>n. n\<lparr>left := Some chunk\<rparr>) s | None \<Rightarrow> s);
              s2 = upd_node chunk (\<lambda>n. n\<lparr>right := r, left := Some p\<rparr>) s1;
              s3 = upd_node p (\<lambda>n. n\<lparr>right := Some chunk\<rparr>) s2
          in if mTail s3 = Some p then s3\<lparr>mTail := Some chunk\<rparr> else s3
      | None \<Rightarrow>
         (case mTail s of
            Some t \<Rightarrow>
              (upd_node chunk (\<lambda>n. n\<lparr>left := Some t\<rparr>)
                (upd_node t (\<lambda>n. n\<lparr>right := Some chunk\<rparr>) s))\<lparr>mTail := Some chunk\<rparr>
          | None \<Rightarrow> s\<lparr>mHead := Some chunk, mTail := Some chunk\<rparr>))"

definition erase_node :: "nat \<Rightarrow> Defer \<Rightarrow> Defer" where
  "erase_node chunk s =
     (case (left (node_at s chunk), right (node_at s chunk)) of
        (Some l, Some r) \<Rightarrow>
          upd_node r (\<lambda>n. n\<lparr>left := Some l\<rparr>) (upd_node l (\<lambda>n. n\<lparr>right := Some r\<rparr>) s)
      | (Some l, None) \<Rightarrow> (upd_node l (\<lambda>n. n\<lparr>right := None\<rparr>) s)\<lparr>mTail := Some l\<rparr>
      | (None, Some r) \<Rightarrow> (upd_node r (\<lambda>n. n\<lparr>left := None\<rparr>) s)\<lparr>mHead := Some r\<rparr>
      | (None, None) \<Rightarrow> s\<lparr>mHead := None, mTail := None\<rparr>)"

definition fuse_to_left :: "nat \<Rightarrow> nat \<Rightarrow> Defer \<Rightarrow> nat \<times> Defer" where
  "fuse_to_left l r s =
     (let s1 = upd_node r (\<lambda>n. n\<lparr>noffset := nsize (node_at s l)\<rparr>) s;
          s2 = upd_node l (\<lambda>n. n\<lparr>nsize := nsize n + nsize (node_at s1 r)\<rparr>) s1;
          s3 = upd_node l (\<lambda>n. n\<lparr>children := children n @ [r]\<rparr>) s2
      in (l, erase_node r s3))"

section \<open>Allocation and release\<close>

definition defer_alloc :: "nat \<Rightarrow> bool \<Rightarrow> nat \<Rightarrow> Defer \<Rightarrow> MemChunk \<times> Defer" where
  "defer_alloc sz separate align s =
     (let align = (if align = 0 then mAlign s else align);
          sz = UP_DIV sz align * align
      in if mFreeList s = [] \<or> separate then
           let (newChunk, s1) = createMemNode sz s
           in (chunk_of_node newChunk, insert_after newChunk None s1)
         else
           let iter = lower_bound (\<lambda>i. nsize (node_at s i)) sz (mFreeList s);
               iter = (if iter = length (mFreeList s) then iter - 1 else iter);
               selectChunk = mFreeList s ! iter;
               s1 = s\<lparr>mFreeList := erase_at iter (mFreeList s)\<rparr>;
               s2 = upd_node selectChunk (\<lambda>n. n\<lparr>usage := True\<rparr>) s1;
               s3 = (if nsize (node_at s2 selectChunk) > sz then
                       let (restChunk, t1) = createMemNode (nsize (node_at s2 selectChunk) - sz) s2;
                           t2 = upd_node restChunk (\<lambda>n. n\<lparr>usage := False\<rparr>) t1;
                           t3 = insert_after restChunk (Some selectChunk) t2
                       in insertFree restChunk t3
                     else s2);
               s4 = upd_node selectChunk (\<lambda>n. n\<lparr>nsize := sz\<rparr>) s3
           in (chunk_of_node selectChunk, s4))"

text \<open>The part of \<open>free\<close> below the barrier test, on the chunk's node.\<close>

definition free_node :: "nat \<Rightarrow> Defer \<Rightarrow> Defer" where
  "free_node node s =
     (let l = left (node_at s node);
          r = right (node_at s node);
          (node1, s1) = (case l of
             Some a \<Rightarrow> if \<not> usage (node_at s a) then fuse_to_left a node (eraseFree a s)
                       else (node, s)
           | None \<Rightarrow> (node, s));
          (node2, s2) = (case r of
             Some b \<Rightarrow> if \<not> usage (node_at s1 b) then fuse_to_left node1 b (eraseFree b s1)
                       else (node1, s1)
           | None \<Rightarrow> (node1, s1))
      in insertFree node2 (upd_node node2 (\<lambda>n. n\<lparr>usage := False\<rparr>) s2))"

definition defer_free :: "MemChunk \<Rightarrow> Defer \<Rightarrow> bool \<times> Defer" where
  "defer_free chunk s =
     (if mBarrrier s then
        (True, s\<lparr>mBarrrierFreeChunks := mBarrrierFreeChunks s @ [chunk]\<rparr>)
      else (case mNode chunk of
              None \<Rightarrow> (False, s)
            | Some node \<Rightarrow> (True, free_node node s)))"

definition defer_barrierBegin :: "Defer \<Rightarrow> Defer" where
  "defer_barrierBegin s = s\<lparr>mBarrrier := True\<rparr>"

definition defer_barrierEnd :: "Defer \<Rightarrow> Defer" where
  "defer_barrierEnd s =
     (let s1 = s\<lparr>mBarrrier := False\<rparr>;
          s2 = foldl (\<lambda>t chunk. snd (defer_free chunk t)) s1 (mBarrrierFreeChunks s1)
      in s2\<lparr>mBarrrierFreeChunks := []\<rparr>)"

definition defer_beginGroup :: "Defer \<Rightarrow> Defer" where
  "defer_beginGroup s = s"

definition defer_endGroup :: "Defer \<Rightarrow> Defer" where
  "defer_endGroup s = s"

definition defer_reset :: "Defer \<Rightarrow> Defer" where
  "defer_reset s = s\<lparr>mTotalSize := 0, mChunks := [], mFreeList := [],
     mPtr := (mPtr s)\<lparr>first := nullptr, second := 0\<rparr>, mHead := None, mTail := None,
     mBarrrier := False, mBarrrierFreeChunks := []\<rparr>"

definition defer_release :: "bool \<Rightarrow> Defer \<Rightarrow> Defer" where
  "defer_release allRelease s = (if allRelease then defer_reset s else s)"

definition chunk_attach :: "MemChunk \<Rightarrow> nat \<Rightarrow> Defer \<Rightarrow> Defer" where
  "chunk_attach c t s = (case mNode c of
     Some n \<Rightarrow> upd_node n (\<lambda>m. m\<lparr>tensors := tensors m @ [t]\<rparr>) s
   | None \<Rightarrow> s)"

section \<open>Placing the chunks\<close>

definition CPUMemChunkApplyToTensor ::
  "ptr \<Rightarrow> nat \<Rightarrow> nat \<Rightarrow> (nat \<Rightarrow> ptr option) \<Rightarrow> (nat \<Rightarrow> ptr option)" where
  "CPUMemChunkApplyToTensor p offset t hs = hs(t \<mapsto> p + offset)"

definition defer_apply ::
  "'w Allocator \<Rightarrow> Defer \<Rightarrow> SingleBuffer \<Rightarrow> 'w \<Rightarrow> ErrorCode \<times> Defer \<times> SingleBuffer \<times> 'w" where
  "defer_apply root s b w =
     (if mFreeList s = [] then (NO_ERROR, s, b, w)
      else
        let place = (\<lambda>chunk t.
              t\<lparr>mPtr := chunk,
                mChunks := map (\<lambda>c. c\<lparr>nbase := chunk_ptr (mChunks t) chunk\<rparr>) (mChunks t),
                hosts := fold (\<lambda>c. fold (CPUMemChunkApplyToTensor (chunk_base (mChunks t) chunk)
                                     (noffset c + chunk_offset (mChunks t) chunk)) (tensors c))
                              (mChunks t) (hosts t)\<rparr>)
        in if currentSize b < mTotalSize s then
             (case single_realloc root (mTotalSize s) (mAlign s) b w of
                (code, b1, w1) \<Rightarrow>
                  if code \<noteq> NO_ERROR then (code, s, b1, w1)
                  else (NO_ERROR, place (current b1) s, b1, w1))
           else if first (mPtr s) \<noteq> first (current b) \<or> second (mPtr s) \<noteq> second (current b) then
             (NO_ERROR, place (current b) s, b, w)
           else (NO_ERROR, s, b, w))"

text \<open>
  \<open>visiChildren\<close> recurses over the tree of fused chunks, \<open>compute\<close> loops along the
  \<open>right\<close> pointers; both take a fuel (the call depth), and \<open>None\<close> is "out of fuel".
  One unit per chunk is enough in every reachable state (\<open>Defer_Refine\<close>).
\<close>

fun visiChildren :: "nat \<Rightarrow> nat \<Rightarrow> Defer \<Rightarrow> Defer option"
  and visi_list :: "nat \<Rightarrow> nat list \<Rightarrow> nat \<Rightarrow> Defer \<Rightarrow> Defer option" where
  "visiChildren 0 chunk s = None"
| "visiChildren (Suc fuel) chunk s = visi_list fuel (children (node_at s chunk)) chunk s"
| "visi_list fuel [] chunk s = Some s"
| "visi_list fuel (child # cs) chunk s =
     (case visiChildren fuel child
             (upd_node child (\<lambda>n. n\<lparr>noffset := noffset n + noffset (node_at s chunk)\<rparr>) s) of
        None \<Rightarrow> None
      | Some s' \<Rightarrow> visi_list fuel cs chunk s')"

fun compute_loop :: "nat \<Rightarrow> nat option \<Rightarrow> Defer \<Rightarrow> Defer option" where
  "compute_loop fuel None s = Some s"
| "compute_loop 0 (Some chunk) s = None"
| "compute_loop (Suc fuel) (Some chunk) s =
     (let s1 = upd_node chunk (\<lambda>n. n\<lparr>noffset := mTotalSize s\<rparr>) s
      in case visiChildren (length (mChunks s)) chunk s1 of
           None \<Rightarrow> None
         | Some s2 \<Rightarrow>
             let s3 = s2\<lparr>mTotalSize := mTotalSize s2 + nsize (node_at s2 chunk)\<rparr>
             in compute_loop fuel (right (node_at s3 chunk)) s3)"

definition defer_compute ::
  "'w Allocator \<Rightarrow> Defer \<Rightarrow> SingleBuffer \<Rightarrow> 'w \<Rightarrow> (ErrorCode \<times> Defer \<times> SingleBuffer \<times> 'w) option"
  where
  "defer_compute root s b w =
     (if mTotalSize s > 0 then Some (NO_ERROR, s, b, w)
      else let s = s\<lparr>mTotalSize := 0\<rparr>
      in if mFreeList s = [] then Some (NO_ERROR, s, b, w)
      else if length (mFreeList s) \<noteq> 1 \<or> mHead s \<noteq> mTail s then Some (INVALID_VALUE, s, b, w)
      else (case compute_loop (length (mChunks s)) (mHead s) s of
              None \<Rightarrow> None
            | Some s1 \<Rightarrow> Some (defer_apply root s1 b w)))"

lemmas [alloc_defs] = createMemNode_def insert_after_def erase_node_def fuse_to_left_def
  defer_alloc_def free_node_def defer_free_def defer_barrierBegin_def defer_barrierEnd_def
  defer_beginGroup_def defer_endGroup_def defer_reset_def defer_release_def

end
