(* ===== verification/Defer_Chain.thy ===== *)
theory Defer_Chain
  imports Prelude
begin

text \<open>
  The abstract view of the deferred allocator: a sequence of blocks in address
  order. A block carries the tree of chunks that were fused into it, with the offset
  each had inside its parent when it was fused. The layout gives every chunk the
  position it would get if the offsets were assigned now. \<open>shifts\<close> is the relation
  between two layouts that the whole allocator rests on: chunks only move towards
  higher addresses, and a chunk never overtakes one that was placed after it.
\<close>

section \<open>Trees of fused chunks and blocks\<close>

datatype mtree = MT (tid: nat) (toff: nat) (tkids: "mtree list")

datatype block = Block (btree: mtree) (bsize: nat) (bused: bool)

abbreviation bid :: "block \<Rightarrow> nat" where
  "bid B \<equiv> tid (btree B)"

fun tids :: "mtree \<Rightarrow> nat list" where
  "tids (MT i off ks) = i # concat (map tids ks)"

fun tplace :: "nat \<Rightarrow> mtree \<Rightarrow> (nat \<times> nat) list" where
  "tplace p (MT i off ks) = (i, p) # concat (map (\<lambda>k. tplace (p + toff k) k) ks)"

fun lay :: "nat \<Rightarrow> nat \<Rightarrow> block list \<Rightarrow> (nat \<times> nat \<times> nat) list" where
  "lay k p [] = []"
| "lay k p (B # Bs) = map (\<lambda>(i, q). (i, k, q)) (tplace p (btree B)) @ lay (Suc k) (p + bsize B) Bs"

definition chain_size :: "block list \<Rightarrow> nat" where
  "chain_size bs = sum_list (map bsize bs)"

lemma chain_size_simps [simp]:
  "chain_size [] = 0" "chain_size (B # bs) = bsize B + chain_size bs" "chain_size (bs @ cs) = chain_size bs + chain_size cs"
  by (simp_all add: chain_size_def)

text \<open>The abstract operations on the sequence.\<close>

definition new_block :: "nat \<Rightarrow> nat \<Rightarrow> bool \<Rightarrow> block" where
  "new_block i n u = Block (MT i 0 []) n u"

definition fuse_blocks :: "block \<Rightarrow> block \<Rightarrow> block" where
  "fuse_blocks A B = (case (btree A, btree B) of (MT i off ks, MT j _ ls) \<Rightarrow>
     Block (MT i off (ks @ [MT j (bsize A) ls])) (bsize A + bsize B) (bused A))"

lemma bid_fuse [simp]: "bid (fuse_blocks A B) = bid A"
  by (cases "btree A"; cases "btree B") (simp add: fuse_blocks_def)

lemma bsize_fuse [simp]: "bsize (fuse_blocks A B) = bsize A + bsize B"
  by (cases "btree A"; cases "btree B") (simp add: fuse_blocks_def)

lemma bused_fuse [simp]: "bused (fuse_blocks A B) = bused A"
  by (cases "btree A"; cases "btree B") (simp add: fuse_blocks_def)

lemma tids_fuse [simp]:
  "tids (btree (fuse_blocks A B)) = tids (btree A) @ tids (btree B)"
  by (cases "btree A"; cases "btree B") (simp add: fuse_blocks_def)

lemma tid_in_tids [simp]: "tid t \<in> set (tids t)"
  by (cases t) simp

lemma tids_Cons: "tids t = tid t # concat (map tids (tkids t))"
  by (cases t) simp

lemma fst_tplace: "map fst (tplace p t) = tids t"
proof (induction p t rule: tplace.induct)
  case (1 p i off ks)
  have "map fst (concat (map (\<lambda>k. tplace (p + toff k) k) ks)) = concat (map tids ks)"
    using 1 by (induction ks) auto
  then show ?case by simp
qed

lemma tplace_fuse:
  "tplace p (btree (fuse_blocks A B)) = tplace p (btree A) @ tplace (p + bsize A) (btree B)"
  by (cases "btree A"; cases "btree B") (simp add: fuse_blocks_def)

lemma tplace_shift: "tplace (p + d) t = map (\<lambda>(i, q). (i, q + d)) (tplace p t)"
proof (induction p t rule: tplace.induct)
  case (1 p i off ks)
  have "tplace (p + d + toff k) k = map (\<lambda>(i, q). (i, q + d)) (tplace (p + toff k) k)"
    if "k \<in> set ks" for k
    using 1 [OF that] by (simp add: add_ac)
  then have "concat (map (\<lambda>k. tplace (p + d + toff k) k) ks)
     = map (\<lambda>(i, q). (i, q + d)) (concat (map (\<lambda>k. tplace (p + toff k) k) ks))"
    by (simp add: map_concat comp_def cong: map_cong)
  then show ?case by simp
qed

lemma tplace_root: "(tid t, p) \<in> set (tplace p t)"
  by (cases t) simp

section \<open>Layouts\<close>

lemma lay_append: "lay k p (xs @ ys) = lay k p xs @ lay (k + length xs) (p + chain_size xs) ys"
  by (induction xs arbitrary: k p) (auto simp: add_ac)

lemma lay_index: "(i, j, q) \<in> set (lay k p bs) \<Longrightarrow> k \<le> j \<and> j < k + length bs"
  by (induction bs arbitrary: k p) fastforce+

lemma lay_shift:
  "lay (k + dk) (p + dp) bs = map (\<lambda>(i, j, q). (i, j + dk, q + dp)) (lay k p bs)"
proof (induction bs arbitrary: k p)
  case (Cons B bs)
  have "lay (Suc k + dk) (p + bsize B + dp) bs
      = map (\<lambda>(i, j, q). (i, j + dk, q + dp)) (lay (Suc k) (p + bsize B) bs)"
    by (rule Cons)
  moreover have "tplace (p + dp) (btree B) = map (\<lambda>(i, q). (i, q + dp)) (tplace p (btree B))"
    by (rule tplace_shift)
  ultimately show ?case by (simp add: comp_def split_def add.commute add.left_commute)
qed simp

lemma lay_shift_mem:
  "(i, j, q) \<in> set (lay k p bs) \<Longrightarrow> (i, j + dk, q + dp) \<in> set (lay (k + dk) (p + dp) bs)"
  by (auto simp: lay_shift image_iff split: prod.splits intro: bexI [rotated])

lemma lay_ids: "map fst (lay k p bs) = concat (map (tids \<circ> btree) bs)"
proof (induction bs arbitrary: k p)
  case (Cons B bs)
  have "map (fst \<circ> (\<lambda>(i, q). (i, k, q))) (tplace p (btree B)) = map fst (tplace p (btree B))"
    by (rule map_cong) auto
  with Cons show ?case by (simp add: fst_tplace)
qed simp

lemma lay_unique:
  assumes "distinct (concat (map (tids \<circ> btree) bs))"
    and "(i, j, q) \<in> set (lay k p bs)" and "(i, j', q') \<in> set (lay k p bs)"
  shows "j = j' \<and> q = q'"
  using assms eq_key_imp_eq_value [of "lay k p bs" i "(j, q)" "(j', q')"] by (simp add: lay_ids)

lemma lay_block:
  "n < length bs \<Longrightarrow> (bid (bs ! n), k + n, p + chain_size (take n bs)) \<in> set (lay k p bs)"
proof (induction bs arbitrary: k p n)
  case (Cons B bs)
  show ?case
  proof (cases n)
    case 0
    then show ?thesis using tplace_root [of "btree B" p] by (force simp: image_iff)
  next
    case (Suc m)
    with Cons.prems Cons.IH [of m "Suc k" "p + bsize B"] show ?thesis by (simp add: add_ac)
  qed
qed simp

lemma chain_size_take_mono: "m \<le> n \<Longrightarrow> chain_size (take m bs) \<le> chain_size (take n bs)"
proof -
  assume "m \<le> n"
  then have "take n bs = take m bs @ take (n - m) (drop m bs)"
    by (metis le_add_diff_inverse take_add)
  then show ?thesis by simp
qed

lemma chain_size_take_Suc: "n < length bs \<Longrightarrow> chain_size (take (Suc n) bs) = chain_size (take n bs) + bsize (bs ! n)"
  by (simp add: take_Suc_conv_app_nth)

section \<open>Shifts\<close>

text \<open>
  Every chunk of \<open>bs\<close> is still placed in \<open>bs'\<close>; how far it moved, and by how many
  blocks, depends monotonically on the block it was in.
\<close>

definition shifts :: "block list \<Rightarrow> block list \<Rightarrow> bool" where
  "shifts bs bs' \<longleftrightarrow> (\<exists>f d. mono f \<and> mono d \<and> (\<forall>k::nat. chain_size bs + d k \<le> chain_size bs') \<and>
     (\<forall>(i, k, q) \<in> set (lay 0 0 bs). (i, (f k :: nat), q + (d k :: nat)) \<in> set (lay 0 0 bs')))"

lemma shiftsI:
  assumes "mono f" "mono d" "\<And>k::nat. chain_size bs + d k \<le> chain_size bs'"
    and "\<And>i k q. (i, k, q) \<in> set (lay 0 0 bs) \<Longrightarrow> (i, f k :: nat, q + d k) \<in> set (lay 0 0 bs')"
  shows "shifts bs bs'"
  unfolding shifts_def using assms by (intro exI [of _ f] exI [of _ d]) auto

lemma shifts_refl [simp]: "shifts bs bs"
  by (rule shiftsI [where f = "\<lambda>k. k" and d = "\<lambda>k. 0"]) (auto simp: mono_def)

lemma shifts_trans:
  assumes "shifts as bs" and "shifts bs cs" shows "shifts as cs"
proof -
  from assms(1) obtain f d where 1: "mono f" "mono d" "\<And>k. chain_size as + d k \<le> chain_size bs"
    "\<And>i k q. (i, k, q) \<in> set (lay 0 0 as) \<Longrightarrow> (i, f k, q + d k) \<in> set (lay 0 0 bs)"
    unfolding shifts_def by fast
  from assms(2) obtain g e where 2: "mono g" "mono e" "\<And>k. chain_size bs + e k \<le> chain_size cs"
    "\<And>i k q. (i, k, q) \<in> set (lay 0 0 bs) \<Longrightarrow> (i, g k, q + e k) \<in> set (lay 0 0 cs)"
    unfolding shifts_def by fast
  show ?thesis
  proof (rule shiftsI [where f = "\<lambda>k. g (f k)" and d = "\<lambda>k. d k + e (f k)"])
    show "mono (\<lambda>k. g (f k))" using 1(1) 2(1) by (simp add: mono_def)
    show "mono (\<lambda>k. d k + e (f k))" using 1(1,2) 2(2) by (simp add: mono_def add_mono)
    show "chain_size as + (d k + e (f k)) \<le> chain_size cs" for k
      using 1(3) [of k] 2(3) [of "f k"] by linarith
    show "(i, g (f k), q + (d k + e (f k))) \<in> set (lay 0 0 cs)"
      if "(i, k, q) \<in> set (lay 0 0 as)" for i k q
      using 2(4) [OF 1(4) [OF that]] by (simp add: add_ac)
  qed
qed

lemma shifts_append: "shifts bs (bs @ cs)"
  by (rule shiftsI [where f = "\<lambda>k. k" and d = "\<lambda>k. 0"]) (auto simp: mono_def lay_append)

text \<open>Only the chunks of the blocks matter, not which blocks are in use.\<close>

lemma lay_cong: "map btree bs = map btree cs \<Longrightarrow> map bsize bs = map bsize cs \<Longrightarrow> lay k p bs = lay k p cs"
proof (induction bs arbitrary: cs k p)
  case (Cons B bs)
  then obtain C cs' where "cs = C # cs'" "btree B = btree C" "bsize B = bsize C"
    "map btree bs = map btree cs'" "map bsize bs = map bsize cs'"
    by (cases cs) auto
  then show ?case using Cons.IH [of cs'] by simp
qed simp

lemma chain_size_cong: "map bsize bs = map bsize cs \<Longrightarrow> chain_size bs = chain_size cs"
  by (simp add: chain_size_def)

text \<open>A block is cut in two, the second part a new chunk.\<close>

lemma shifts_split:
  assumes "btree A' = btree A" and "bsize A' + bsize R = bsize A"
  shows "shifts (xs @ A # ys) (xs @ A' # R # ys)"
proof (rule shiftsI [where f = "\<lambda>k. if k \<le> length xs then k else Suc k" and d = "\<lambda>k. 0"])
  fix i k q assume "(i, k, q) \<in> set (lay 0 0 (xs @ A # ys))"
  then consider "(i, k, q) \<in> set (lay 0 0 xs)"
    | "k = length xs" "(i, q) \<in> set (tplace (chain_size xs) (btree A))"
    | "(i, k, q) \<in> set (lay (Suc (length xs)) (chain_size xs + bsize A) ys)"
    by (auto simp: lay_append)
  then show "(i, if k \<le> length xs then k else Suc k, q + 0) \<in> set (lay 0 0 (xs @ A' # R # ys))"
  proof cases
    case 1
    with lay_index [OF 1] show ?thesis by (simp add: lay_append)
  next
    case 2
    then show ?thesis using assms by (force simp: lay_append)
  next
    case 3
    from lay_shift_mem [OF 3, of 1 0] lay_index [OF 3] show ?thesis
      using assms by (auto simp: lay_append add.assoc)
  qed
qed (use assms in \<open>auto simp: mono_def\<close>)

text \<open>A block is enlarged: everything behind it moves up by the same amount.\<close>

lemma shifts_expand:
  assumes "btree A' = btree A" and "bsize A' = bsize A + n"
  shows "shifts (xs @ A # ys) (xs @ A' # ys)"
proof (rule shiftsI [where f = "\<lambda>k. k" and d = "\<lambda>k. if k \<le> length xs then 0 else n"])
  fix i k q assume "(i, k, q) \<in> set (lay 0 0 (xs @ A # ys))"
  then consider "(i, k, q) \<in> set (lay 0 0 xs)"
    | "k = length xs" "(i, q) \<in> set (tplace (chain_size xs) (btree A))"
    | "(i, k, q) \<in> set (lay (Suc (length xs)) (chain_size xs + bsize A) ys)"
    by (auto simp: lay_append)
  then show "(i, k, q + (if k \<le> length xs then 0 else n)) \<in> set (lay 0 0 (xs @ A' # ys))"
  proof cases
    case 1
    with lay_index [OF 1] show ?thesis by (simp add: lay_append)
  next
    case 2
    then show ?thesis using assms by (force simp: lay_append)
  next
    case 3
    from lay_shift_mem [OF 3, of 0 n] lay_index [OF 3] show ?thesis
      using assms by (auto simp: lay_append add_ac)
  qed
qed (use assms in \<open>auto simp: mono_def\<close>)

text \<open>A block is fused into its left neighbour: nothing moves.\<close>

lemma shifts_fuse: "shifts (xs @ A # B # ys) (xs @ fuse_blocks A B # ys)"
proof (rule shiftsI [where f = "\<lambda>k. if k \<le> length xs then k else k - 1" and d = "\<lambda>k. 0"])
  fix i k q assume "(i, k, q) \<in> set (lay 0 0 (xs @ A # B # ys))"
  then consider "(i, k, q) \<in> set (lay 0 0 xs)"
    | "k = length xs" "(i, q) \<in> set (tplace (chain_size xs) (btree A))"
    | "k = Suc (length xs)" "(i, q) \<in> set (tplace (chain_size xs + bsize A) (btree B))"
    | "(i, k, q) \<in> set (lay (Suc (Suc (length xs))) (chain_size xs + bsize A + bsize B) ys)"
    by (auto simp: lay_append)
  then show "(i, if k \<le> length xs then k else k - 1, q + 0)
      \<in> set (lay 0 0 (xs @ fuse_blocks A B # ys))"
  proof cases
    case 1
    with lay_index [OF 1] show ?thesis by (simp add: lay_append)
  next
    case 2
    then show ?thesis by (force simp: lay_append tplace_fuse)
  next
    case 3
    then show ?thesis by (force simp: lay_append tplace_fuse)
  next
    case 4
    have "lay (Suc (Suc (length xs))) (chain_size xs + bsize A + bsize B) ys
        = map (\<lambda>(i, j, q). (i, j + 1, q + 0)) (lay (Suc (length xs)) (chain_size xs + (bsize A + bsize B)) ys)"
      using lay_shift [of "Suc (length xs)" 1 "chain_size xs + bsize A + bsize B" 0 ys] by (simp add: add_ac)
    with 4 lay_index [OF 4] show ?thesis by (auto simp: lay_append)
  qed
qed (auto simp: mono_def)

section \<open>Separation\<close>

text \<open>
  Chunk \<open>a\<close>, of which \<open>n\<close> bytes count, is placed before chunk \<open>b\<close>. The block
  indices make the property stable under \<open>shifts\<close>.
\<close>

definition placed_before :: "block list \<Rightarrow> nat \<Rightarrow> nat \<Rightarrow> nat \<Rightarrow> bool" where
  "placed_before bs a n b \<longleftrightarrow> (\<exists>ka pa kb pb. (a, ka, pa) \<in> set (lay 0 0 bs) \<and>
     (b, kb, pb) \<in> set (lay 0 0 bs) \<and> ka \<le> kb \<and> pa + n \<le> pb)"

definition placed_within :: "block list \<Rightarrow> nat \<Rightarrow> nat \<Rightarrow> bool" where
  "placed_within bs a n \<longleftrightarrow> (\<exists>ka pa. (a, ka, pa) \<in> set (lay 0 0 bs) \<and> pa + n \<le> chain_size bs)"

lemma placed_before_shifts:
  assumes "shifts bs bs'" and "placed_before bs a n b" shows "placed_before bs' a n b"
proof -
  from assms(1) obtain f d where s: "mono f" "mono d"
    "\<And>i k q. (i, k, q) \<in> set (lay 0 0 bs) \<Longrightarrow> (i, f k, q + d k) \<in> set (lay 0 0 bs')"
    unfolding shifts_def by fast
  from assms(2) obtain ka pa kb pb where p: "(a, ka, pa) \<in> set (lay 0 0 bs)"
    "(b, kb, pb) \<in> set (lay 0 0 bs)" "ka \<le> kb" "pa + n \<le> pb"
    unfolding placed_before_def by blast
  have "f ka \<le> f kb" "d ka \<le> d kb" using s(1,2) p(3) by (auto simp: mono_def)
  moreover from this p(4) have "pa + d ka + n \<le> pb + d kb" by linarith
  ultimately show ?thesis
    unfolding placed_before_def using s(3) [OF p(1)] s(3) [OF p(2)] by blast
qed

lemma placed_within_shifts:
  assumes "shifts bs bs'" and "placed_within bs a n" shows "placed_within bs' a n"
proof -
  from assms(1) obtain f d where s: "\<And>k. chain_size bs + d k \<le> chain_size bs'"
    "\<And>i k q. (i, k, q) \<in> set (lay 0 0 bs) \<Longrightarrow> (i, f k, q + d k) \<in> set (lay 0 0 bs')"
    unfolding shifts_def by fast
  from assms(2) obtain k p where p: "(a, k, p) \<in> set (lay 0 0 bs)" "p + n \<le> chain_size bs"
    unfolding placed_within_def by blast
  have "p + d k + n \<le> chain_size bs'" using s(1) [of k] p(2) by linarith
  with s(2) [OF p(1)] show ?thesis unfolding placed_within_def by blast
qed

lemma blocks_placed_before:
  assumes "m < n" and "n < length bs"
  shows "placed_before bs (bid (bs ! m)) (bsize (bs ! m)) (bid (bs ! n))"
proof -
  have "chain_size (take m bs) + bsize (bs ! m) \<le> chain_size (take n bs)"
    using assms chain_size_take_Suc [of m bs] chain_size_take_mono [of "Suc m" n bs] by simp
  moreover have "(bid (bs ! m), m, chain_size (take m bs)) \<in> set (lay 0 0 bs)"
    "(bid (bs ! n), n, chain_size (take n bs)) \<in> set (lay 0 0 bs)"
    using assms lay_block [of m bs 0 0] lay_block [of n bs 0 0] by simp_all
  ultimately show ?thesis unfolding placed_before_def
    using assms(1) less_imp_le by blast
qed

lemma blocks_placed_within:
  assumes "n < length bs" shows "placed_within bs (bid (bs ! n)) (bsize (bs ! n))"
proof -
  have "chain_size (take n bs) + bsize (bs ! n) \<le> chain_size bs"
    using assms chain_size_take_Suc [of n bs] chain_size_take_mono [of "Suc n" "length bs" bs] by simp
  then show ?thesis unfolding placed_within_def using lay_block [OF assms, of 0 0] by auto
qed

end
