(* ===== verification/Defer_Refine.thy ===== *)
theory Defer_Refine
  imports Defer_Model Defer_Chain
begin

text \<open>
  The pointer-level allocator of \<open>Defer_Model\<close> implements the abstract sequence of
  blocks of \<open>Defer_Chain\<close>: \<open>core s bs F\<close> relates a state to a sequence of blocks and
  to the set \<open>F\<close> of chunks in the free index, and each helper of the allocator is
  shown to act on it as the corresponding abstract operation. \<open>wf_defer\<close> adds what
  holds between two calls: the index holds exactly the unused blocks and no two
  neighbours are unused.
\<close>

section \<open>Node updates\<close>

lemma upd_node_simps [simp]:
  "length (mChunks (upd_node i f s)) = length (mChunks s)"
  "mHead (upd_node i f s) = mHead s" "mTail (upd_node i f s) = mTail s"
  "mFreeList (upd_node i f s) = mFreeList s" "mTotalSize (upd_node i f s) = mTotalSize s"
  "mBarrrier (upd_node i f s) = mBarrrier s" "mAlign (upd_node i f s) = mAlign s"
  "mBarrrierFreeChunks (upd_node i f s) = mBarrrierFreeChunks s" "mPtr (upd_node i f s) = mPtr s"
  "hosts (upd_node i f s) = hosts s"
  by (simp_all add: upd_node_def)

lemma node_upd_node:
  "i < length (mChunks s) \<Longrightarrow>
    node_at (upd_node i f s) j = (if i = j then f (node_at s i) else node_at s j)"
  by (simp add: upd_node_def nth_list_update_if)

section \<open>The doubly linked list\<close>

fun hd_opt :: "'a list \<Rightarrow> 'a option \<Rightarrow> 'a option" where
  "hd_opt [] n = n"
| "hd_opt (x # xs) n = Some x"

fun last_opt :: "'a option \<Rightarrow> 'a list \<Rightarrow> 'a option" where
  "last_opt p [] = p"
| "last_opt p (x # xs) = last_opt (Some x) xs"

fun dseg :: "MemNode list \<Rightarrow> nat option \<Rightarrow> nat list \<Rightarrow> nat option \<Rightarrow> bool" where
  "dseg h p [] n = True"
| "dseg h p (x # xs) n \<longleftrightarrow> left (h ! x) = p \<and> right (h ! x) = hd_opt xs n \<and> dseg h (Some x) xs n"

lemma hd_opt_append [simp]: "hd_opt (xs @ ys) n = hd_opt xs (hd_opt ys n)"
  by (cases xs) auto

lemma last_opt_append [simp]: "last_opt p (xs @ ys) = last_opt (last_opt p xs) ys"
  by (induction xs arbitrary: p) auto

lemma dseg_append [simp]:
  "dseg h p (xs @ ys) n \<longleftrightarrow> dseg h p xs (hd_opt ys n) \<and> dseg h (last_opt p xs) ys n"
  by (induction xs arbitrary: p) auto

lemma dseg_cong:
  "(\<And>x. x \<in> set xs \<Longrightarrow> left (h' ! x) = left (h ! x) \<and> right (h' ! x) = right (h ! x)) \<Longrightarrow>
    dseg h' p xs n = dseg h p xs n"
  by (induction xs arbitrary: p) auto

lemma dseg_upd_notin [simp]:
  "i \<notin> set xs \<Longrightarrow> dseg (mChunks (upd_node i f s)) p xs n = dseg (mChunks s) p xs n"
proof (rule dseg_cong)
  fix x assume "i \<notin> set xs" and "x \<in> set xs"
  then have "i \<noteq> x" by blast
  then show "left (node_at (upd_node i f s) x) = left (node_at s x) \<and>
      right (node_at (upd_node i f s) x) = right (node_at s x)"
    by (simp add: upd_node_def)
qed

lemma last_opt_in: "last_opt None xs = Some x \<Longrightarrow> x \<in> set xs"
  by (induction xs rule: rev_induct) auto

lemma last_opt_mem: "last_opt p xs = Some x \<Longrightarrow> x \<in> set xs \<or> p = Some x"
  by (induction xs arbitrary: p) auto

lemma last_opt_None [simp]: "last_opt None xs = None \<longleftrightarrow> xs = []"
  by (induction xs rule: rev_induct) auto

definition links_ok :: "Defer \<Rightarrow> nat list \<Rightarrow> bool" where
  "links_ok s ids \<longleftrightarrow> dseg (mChunks s) None ids None \<and> mHead s = hd_opt ids None \<and>
     mTail s = last_opt None ids \<and> distinct ids \<and> (\<forall>i\<in>set ids. i < length (mChunks s))"

text \<open>What the link operations leave alone.\<close>

definition same_data :: "Defer \<Rightarrow> Defer \<Rightarrow> bool" where
  "same_data s t \<longleftrightarrow> length (mChunks t) = length (mChunks s) \<and> mFreeList t = mFreeList s \<and>
     mTotalSize t = mTotalSize s \<and> mAlign t = mAlign s \<and> mBarrrier t = mBarrrier s \<and>
     mBarrrierFreeChunks t = mBarrrierFreeChunks s \<and> mPtr t = mPtr s \<and> hosts t = hosts s \<and>
     (\<forall>i. nsize (node_at t i) = nsize (node_at s i) \<and> noffset (node_at t i) = noffset (node_at s i) \<and>
          usage (node_at t i) = usage (node_at s i) \<and> children (node_at t i) = children (node_at s i) \<and>
          tensors (node_at t i) = tensors (node_at s i))"

lemma insert_after_links:
  assumes "links_ok s (xs @ p # ys)" and "c \<notin> set (xs @ p # ys)" and "c < length (mChunks s)"
  shows "links_ok (insert_after c (Some p) s) (xs @ p # c # ys)"
    and "same_data s (insert_after c (Some p) s)"
proof -
  show "links_ok (insert_after c (Some p) s) (xs @ p # c # ys)"
    using assms unfolding links_ok_def insert_after_def
    by (cases ys rule: list.exhaust; cases xs rule: rev_cases)
      (auto simp: node_upd_node Let_def dest: last_opt_mem split: if_splits)
  show "same_data s (insert_after c (Some p) s)"
    using assms unfolding links_ok_def insert_after_def same_data_def
    by (cases ys) (auto simp: node_upd_node Let_def split: if_splits)
qed

lemma insert_last_links:
  assumes "links_ok s xs" and "c \<notin> set xs" and "c < length (mChunks s)"
    and "left (node_at s c) = None" and "right (node_at s c) = None"
  shows "links_ok (insert_after c None s) (xs @ [c])"
    and "same_data s (insert_after c None s)"
proof -
  show "links_ok (insert_after c None s) (xs @ [c])"
    using assms unfolding links_ok_def insert_after_def
    by (cases xs rule: rev_cases) (auto simp: node_upd_node split: if_splits)
  show "same_data s (insert_after c None s)"
    using assms unfolding links_ok_def insert_after_def same_data_def
    by (cases xs rule: rev_cases) (auto simp: node_upd_node split: if_splits)
qed

lemma erase_node_links:
  assumes "links_ok s (xs @ c # ys)"
  shows "links_ok (erase_node c s) (xs @ ys)" and "same_data s (erase_node c s)"
proof -
  show "links_ok (erase_node c s) (xs @ ys)"
    using assms unfolding links_ok_def erase_node_def
    by (cases ys rule: list.exhaust; cases xs rule: rev_cases)
      (auto simp: node_upd_node split: if_splits)
  show "same_data s (erase_node c s)"
    using assms unfolding links_ok_def erase_node_def same_data_def
    by (cases ys rule: list.exhaust; cases xs rule: rev_cases)
      (auto simp: node_upd_node split: if_splits)
qed

section \<open>Trees in the heap\<close>

fun rep_tree :: "MemNode list \<Rightarrow> mtree \<Rightarrow> bool" where
  "rep_tree h (MT i off ks) \<longleftrightarrow> children (h ! i) = map tid ks \<and>
     (\<forall>k\<in>set ks. noffset (h ! tid k) = toff k \<and> rep_tree h k)"

lemma rep_tree_cong:
  assumes "\<And>i. i \<in> set (tids t) \<Longrightarrow> children (h' ! i) = children (h ! i)"
    and "\<And>i. i \<in> set (tl (tids t)) \<Longrightarrow> noffset (h' ! i) = noffset (h ! i)"
  shows "rep_tree h' t = rep_tree h t"
  using assms
proof (induction t)
  case (MT i off ks)
  have "rep_tree h' k = rep_tree h k \<and> noffset (h' ! tid k) = noffset (h ! tid k)" if k: "k \<in> set ks" for k
  proof
    have sub: "set (tids k) \<subseteq> set (tl (tids (MT i off ks)))" using k by auto
    show "rep_tree h' k = rep_tree h k"
    proof (rule MT.IH [OF k])
      fix j assume "j \<in> set (tids k)"
      then show "children (h' ! j) = children (h ! j)" using sub MT.prems(1) by force
    next
      fix j assume "j \<in> set (tl (tids k))"
      then have "j \<in> set (tids k)" by (cases k) simp
      then show "noffset (h' ! j) = noffset (h ! j)" using sub MT.prems(2) by blast
    qed
    show "noffset (h' ! tid k) = noffset (h ! tid k)"
      using MT.prems(2) sub tid_in_tids [of k] by blast
  qed
  moreover have "children (h' ! i) = children (h ! i)" using MT.prems(1) by simp
  ultimately show ?case by auto
qed

definition block_ok :: "MemNode list \<Rightarrow> block \<Rightarrow> bool" where
  "block_ok h B \<longleftrightarrow> rep_tree h (btree B) \<and> nsize (h ! bid B) = bsize B \<and> usage (h ! bid B) = bused B"

lemma block_ok_cong:
  assumes "\<And>i. i \<in> set (tids (btree B)) \<Longrightarrow> children (h' ! i) = children (h ! i)"
    and "\<And>i. i \<in> set (tl (tids (btree B))) \<Longrightarrow> noffset (h' ! i) = noffset (h ! i)"
    and "nsize (h' ! bid B) = nsize (h ! bid B)" and "usage (h' ! bid B) = usage (h ! bid B)"
  shows "block_ok h' B = block_ok h B"
  using rep_tree_cong [of "btree B" h' h] assms by (simp add: block_ok_def)

definition all_ids :: "block list \<Rightarrow> nat list" where
  "all_ids bs = concat (map (tids \<circ> btree) bs)"

lemma all_ids_simps [simp]:
  "all_ids [] = []" "all_ids (B # bs) = tids (btree B) @ all_ids bs"
  "all_ids (bs @ cs) = all_ids bs @ all_ids cs"
  by (simp_all add: all_ids_def)

lemma set_all_ids: "set (all_ids bs) = (\<Union>B\<in>set bs. set (tids (btree B)))"
  by (simp add: all_ids_def)

lemma bid_in_all_ids: "B \<in> set bs \<Longrightarrow> bid B \<in> set (all_ids bs)"
  using tid_in_tids unfolding set_all_ids by blast

lemma distinct_bids: "distinct (all_ids bs) \<Longrightarrow> distinct (map bid bs)"
proof (induction bs)
  case (Cons B bs)
  have "bid B \<noteq> bid C" if "C \<in> set bs" for C
    using Cons.prems bid_in_all_ids [OF that] tid_in_tids [of "btree B"]
    by (metis all_ids_simps(2) disjoint_iff distinct_append)
  with Cons show ?case by auto
qed simp

section \<open>The refinement relation\<close>

definition index_ok :: "Defer \<Rightarrow> nat set \<Rightarrow> bool" where
  "index_ok s F \<longleftrightarrow> distinct (mFreeList s) \<and> set (mFreeList s) = F \<and>
     sorted (map (\<lambda>i. nsize (node_at s i)) (mFreeList s)) \<and> (\<forall>i\<in>F. i < length (mChunks s))"

definition core :: "Defer \<Rightarrow> block list \<Rightarrow> nat set \<Rightarrow> bool" where
  "core s bs F \<longleftrightarrow> links_ok s (map bid bs) \<and> (\<forall>B\<in>set bs. block_ok (mChunks s) B) \<and>
     distinct (all_ids bs) \<and> set (all_ids bs) = {..<length (mChunks s)} \<and> index_ok s F"

definition free_ids :: "block list \<Rightarrow> nat set" where
  "free_ids bs = {bid B |B. B \<in> set bs \<and> \<not> bused B}"

definition apart :: "block list \<Rightarrow> bool" where
  "apart bs \<longleftrightarrow> successively (\<lambda>A B. bused A \<or> bused B) bs"

definition wf_defer :: "Defer \<Rightarrow> block list \<Rightarrow> bool" where
  "wf_defer s bs \<longleftrightarrow> core s bs (free_ids bs) \<and> apart bs"

lemma coreD:
  assumes "core s bs F"
  shows "links_ok s (map bid bs)" "B \<in> set bs \<Longrightarrow> block_ok (mChunks s) B" "distinct (all_ids bs)"
    "set (all_ids bs) = {..<length (mChunks s)}" "index_ok s F" "distinct (map bid bs)"
    "B \<in> set bs \<Longrightarrow> bid B < length (mChunks s)" "B \<in> set bs \<Longrightarrow> nsize (node_at s (bid B)) = bsize B"
    "B \<in> set bs \<Longrightarrow> usage (node_at s (bid B)) = bused B"
proof -
  show 1: "links_ok s (map bid bs)" "distinct (all_ids bs)"
    "set (all_ids bs) = {..<length (mChunks s)}" "index_ok s F"
    "B \<in> set bs \<Longrightarrow> block_ok (mChunks s) B"
    using assms by (simp_all add: core_def)
  show "distinct (map bid bs)" using 1(2) by (rule distinct_bids)
  show "bid B < length (mChunks s)" if "B \<in> set bs"
    using bid_in_all_ids [OF that] 1(3) by simp
  show "nsize (node_at s (bid B)) = bsize B" "usage (node_at s (bid B)) = bused B" if "B \<in> set bs"
    using assms that by (simp_all add: core_def block_ok_def)
qed

lemma index_ok_cong:
  assumes "index_ok s F" and "mFreeList t = mFreeList s" and "length (mChunks s) \<le> length (mChunks t)"
    and "\<And>i. i \<in> F \<Longrightarrow> nsize (node_at t i) = nsize (node_at s i)"
  shows "index_ok t F"
proof -
  have "map (\<lambda>i. nsize (node_at t i)) (mFreeList s) = map (\<lambda>i. nsize (node_at s i)) (mFreeList s)"
    using assms(1,4) by (intro map_cong) (auto simp: index_ok_def)
  moreover have "sorted (map (\<lambda>i. nsize (node_at s i)) (mFreeList s))" "distinct (mFreeList s)"
    "set (mFreeList s) = F" "\<forall>i\<in>F. i < length (mChunks s)"
    using assms(1) by (simp_all add: index_ok_def)
  ultimately have "sorted (map (\<lambda>i. nsize (node_at t i)) (mFreeList s))" "distinct (mFreeList s)"
    "set (mFreeList s) = F" "\<forall>i\<in>F. i < length (mChunks t)"
    using assms(3) by (simp_all only:) (auto dest: less_le_trans)
  then show ?thesis by (simp add: index_ok_def assms(2))
qed

lemma core_same_data:
  assumes "core s bs F" and "same_data s t" and "links_ok t (map bid cs)"
    and "\<And>B. B \<in> set cs \<Longrightarrow> block_ok (mChunks s) B" and "distinct (all_ids cs)"
    and "set (all_ids cs) = set (all_ids bs)"
  shows "core t cs F"
proof -
  have "block_ok (mChunks t) B" if "B \<in> set cs" for B
    using assms(4) [OF that] assms(2) block_ok_cong [of B "mChunks t" "mChunks s"]
    by (simp add: same_data_def)
  moreover have "index_ok t F"
    by (rule index_ok_cong [OF coreD(5) [OF assms(1)]]) (use assms(2) in \<open>auto simp: same_data_def\<close>)
  ultimately show ?thesis using assms unfolding core_def by (simp add: same_data_def)
qed

section \<open>The helpers as abstract operations\<close>

lemma erase_scan:
  assumes "sorted (map k xs)" and "a \<in> set xs"
  defines "lo \<equiv> lower_bound k (k a) xs"
  defines "rng \<equiv> takeWhile (\<lambda>i. k i = k a) (drop lo xs)"
  defines "n \<equiv> length (takeWhile (\<lambda>i. i \<noteq> a) rng)"
  shows "n < length rng" and "lo + n < length xs" and "xs ! (lo + n) = a"
proof -
  from assms(2) obtain j where j: "j < length xs" "xs ! j = a" by (auto simp: in_set_conv_nth)
  have lo: "lo \<le> j" using fidx.lb_first [of j k "k a" xs] j unfolding lo_def by (metis less_irrefl not_le)
  have eq: "k (xs ! i) = k a" if "lo \<le> i" "i \<le> j" for i
  proof (rule antisym)
    show "k (xs ! i) \<le> k a" using sorted_nth_mono [OF assms(1), of i j] that j by simp
    have "k a \<le> k (xs ! lo)" using fidx.lb_key [of k "k a" xs] lo j unfolding lo_def by linarith
    also have "\<dots> \<le> k (xs ! i)" using sorted_nth_mono [OF assms(1), of lo i] that j by simp
    finally show "k a \<le> k (xs ! i)" .
  qed
  have "j - lo < length rng"
  proof (rule ccontr)
    assume "\<not> j - lo < length rng"
    then have l: "length rng \<le> j - lo" by simp
    then have "length rng < length (drop lo xs)" using j lo by simp
    then have "k (drop lo xs ! length rng) \<noteq> k a"
      unfolding rng_def by (rule nth_length_takeWhile)
    moreover have "k (drop lo xs ! length rng) = k a"
      using eq [of "lo + length rng"] l lo j by simp
    ultimately show False by simp
  qed
  moreover from this have "rng ! (j - lo) = a"
    unfolding rng_def using lo j by (simp add: takeWhile_nth)
  ultimately have mem: "a \<in> set rng" by (metis nth_mem)
  then show n: "n < length rng" unfolding n_def
    by (metis (mono_tags, lifting) length_takeWhile_le nat_less_le takeWhile_eq_all_conv
        takeWhile_eq_take take_all_iff)
  have "rng ! n = a" using nth_length_takeWhile [of "\<lambda>i. i \<noteq> a" rng] n by (simp add: n_def)
  moreover have "rng ! n = drop lo xs ! n" using n unfolding rng_def by (simp add: takeWhile_nth)
  moreover have "length rng \<le> length (drop lo xs)" unfolding rng_def by (rule length_takeWhile_le)
  ultimately show "lo + n < length xs" "xs ! (lo + n) = a" using n lo j by simp_all
qed

lemma core_eraseFree:
  assumes "core s bs F" and "a \<in> F"
  shows "core (eraseFree a s) bs (F - {a})" and "mChunks (eraseFree a s) = mChunks s"
proof -
  let ?k = "\<lambda>i. nsize (node_at s i)"
  have i: "index_ok s F" using assms(1) by (rule coreD)
  then have srt: "sorted (map ?k (mFreeList s))" and d: "distinct (mFreeList s)"
    and mem: "a \<in> set (mFreeList s)"
    using assms(2) by (simp_all add: index_ok_def)
  obtain j where j: "j < length (mFreeList s)" "mFreeList s ! j = a"
    "eraseFree a s = s\<lparr>mFreeList := erase_at j (mFreeList s)\<rparr>"
    using erase_scan [OF srt mem] unfolding eraseFree_def Let_def by auto
  have "index_ok (eraseFree a s) (F - {a})"
    using i j fidx.set_del [OF d j(1)] fidx.distinct_del [OF d j(1)] fidx.sorted_del [OF srt, of j]
    unfolding index_ok_def by auto
  moreover have "links_ok (eraseFree a s) ids = links_ok s ids" for ids
    by (simp add: links_ok_def j(3))
  ultimately show "core (eraseFree a s) bs (F - {a})" using assms(1) j(3) by (simp add: core_def)
  show "mChunks (eraseFree a s) = mChunks s" by (simp add: j(3))
qed

lemma core_insertFree:
  assumes "core s bs F" and "a \<notin> F" and "a < length (mChunks s)"
  shows "core (insertFree a s) bs (insert a F)"
proof -
  have i: "index_ok s F" using assms(1) by (rule coreD)
  then have "index_ok (insertFree a s) (insert a F)"
    using assms(2,3) unfolding index_ok_def insertFree_def
    by (auto simp: fidx.distinct_ins intro: fidx.sorted_ins)
  moreover have "links_ok (insertFree a s) ids = links_ok s ids" for ids
    by (simp add: links_ok_def insertFree_def)
  ultimately show ?thesis using assms(1) by (simp add: core_def insertFree_def)
qed

text \<open>Changing the size or the use flag of one block's own node.\<close>

lemma links_ok_upd:
  assumes "links_ok s ids" and "\<And>n. left (f n) = left n" and "\<And>n. right (f n) = right n"
  shows "links_ok (upd_node i f s) ids"
proof -
  have "left (node_at (upd_node i f s) x) = left (node_at s x) \<and>
        right (node_at (upd_node i f s) x) = right (node_at s x)" for x
  proof (cases "i < length (mChunks s)")
    case True
    then show ?thesis using assms(2,3) by (simp add: node_upd_node)
  next
    case False
    then show ?thesis by (simp add: upd_node_def list_update_beyond)
  qed
  then have "dseg (mChunks (upd_node i f s)) None ids None = dseg (mChunks s) None ids None"
    by (intro dseg_cong) simp
  with assms(1) show ?thesis by (simp add: links_ok_def)
qed

lemma core_upd_block:
  assumes "core s (xs @ A # ys) F" and "A' = Block (btree A) n u" and "bid A \<notin> F"
    and "\<And>m. left (f m) = left m \<and> right (f m) = right m \<and> children (f m) = children m \<and>
           noffset (f m) = noffset m"
    and "nsize (f (node_at s (bid A))) = n" and "usage (f (node_at s (bid A))) = u"
  shows "core (upd_node (bid A) f s) (xs @ A' # ys) F"
proof -
  let ?t = "upd_node (bid A) f s"
  have lt: "bid A < length (mChunks s)" using coreD(7) [OF assms(1), of A] by simp
  have mid: "bid A \<notin> set (map bid xs) \<and> bid A \<notin> set (map bid ys)"
    using coreD(6) [OF assms(1)] distinct_mid [of "map bid xs" "bid A" "map bid ys"] by simp
  have eqs: "children (node_at ?t i) = children (node_at s i)" "noffset (node_at ?t i) = noffset (node_at s i)" for i
    using assms(4) by (simp_all add: node_upd_node [OF lt])
  have "block_ok (mChunks ?t) B" if "B \<in> set (xs @ A' # ys)" for B
  proof (cases "B \<in> set (xs @ ys)")
    case True
    then have "bid B \<in> set (map bid xs) \<or> bid B \<in> set (map bid ys)" by auto
    then have "bid B \<noteq> bid A" using mid by metis
    then have "block_ok (mChunks ?t) B = block_ok (mChunks s) B"
      by (intro block_ok_cong) (simp_all add: node_upd_node [OF lt] assms(4))
    then show ?thesis using coreD(2) [OF assms(1), of B] True by auto
  next
    case False
    then have B: "B = A'" using that by auto
    have "rep_tree (mChunks ?t) (btree A) = rep_tree (mChunks s) (btree A)"
      by (rule rep_tree_cong) (simp_all only: eqs)
    then show ?thesis using coreD(2) [OF assms(1), of A] assms(2,5,6)
      by (simp add: B block_ok_def node_upd_node [OF lt])
  qed
  moreover have "links_ok ?t (map bid (xs @ A' # ys))"
    using links_ok_upd [OF coreD(1) [OF assms(1)], of f] assms(2,4) by simp
  moreover have "index_ok ?t F"
    by (rule index_ok_cong [OF coreD(5) [OF assms(1)]]) (use assms(3) lt in \<open>auto simp: node_upd_node\<close>)
  ultimately show ?thesis using coreD(3,4) [OF assms(1)] assms(2) unfolding core_def by simp
qed

text \<open>A fresh chunk is linked in, behind a block or at the end.\<close>

definition grown :: "Defer \<Rightarrow> Defer \<Rightarrow> nat \<Rightarrow> bool \<Rightarrow> bool" where
  "grown s t n u \<longleftrightarrow> length (mChunks t) = Suc (length (mChunks s)) \<and>
     (\<forall>i<length (mChunks s). node_at t i = node_at s i) \<and>
     node_at t (length (mChunks s)) = (new_MemNode n)\<lparr>usage := u\<rparr> \<and>
     mFreeList t = mFreeList s \<and> mHead t = mHead s \<and> mTail t = mTail s"

lemma grown_create: "createMemNode n s = (c, t) \<Longrightarrow> c = length (mChunks s) \<and> grown s t n True"
  by (auto simp: createMemNode_def grown_def nth_append new_MemNode_def)

lemma grown_unused:
  "grown s t n v \<Longrightarrow> grown s (upd_node (length (mChunks s)) (\<lambda>m. m\<lparr>usage := u\<rparr>) t) n u"
  by (auto simp: grown_def node_upd_node)

lemma core_grown:
  assumes "core s bs F" and g: "grown s t n u"
  defines "c \<equiv> length (mChunks s)"
  shows "links_ok t (map bid bs)" and "\<And>B. B \<in> set bs \<Longrightarrow> block_ok (mChunks t) B"
    and "index_ok t F" and "c \<notin> set (map bid bs)" and "c < length (mChunks t)"
    and "left (node_at t c) = None" and "right (node_at t c) = None"
proof -
  have old: "\<And>i. i < c \<Longrightarrow> node_at t i = node_at s i" and fl: "mFreeList t = mFreeList s"
    and len: "length (mChunks t) = Suc c"
    using g by (simp_all add: grown_def c_def)
  show "c < length (mChunks t)" "left (node_at t c) = None" "right (node_at t c) = None"
    using g by (simp_all add: grown_def c_def new_MemNode_def)
  have lk: "links_ok s (map bid bs)" using assms(1) by (rule coreD)
  then have "dseg (mChunks t) None (map bid bs) None = dseg (mChunks s) None (map bid bs) None"
    using old by (intro dseg_cong) (auto simp: links_ok_def c_def)
  then show "links_ok t (map bid bs)" using lk g
    by (auto simp: links_ok_def grown_def)
  show "block_ok (mChunks t) B" if "B \<in> set bs" for B
  proof -
    have "i < c" if "i \<in> set (tids (btree B))" for i
      using that \<open>B \<in> set bs\<close> coreD(4) [OF assms(1)] by (auto simp: set_all_ids c_def)
    moreover have "set (tl (tids (btree B))) \<subseteq> set (tids (btree B))" by (cases "btree B") auto
    ultimately have "block_ok (mChunks t) B = block_ok (mChunks s) B"
      by (intro block_ok_cong) (auto simp: old)
    then show ?thesis using coreD(2) [OF assms(1) that] by simp
  qed
  show "index_ok t F"
    by (rule index_ok_cong [OF coreD(5) [OF assms(1)] fl])
      (use len old coreD(5) [OF assms(1)] in \<open>auto simp: index_ok_def c_def\<close>)
  show "c \<notin> set (map bid bs)" by (auto simp: c_def dest: coreD(7) [OF assms(1)])
qed

lemma core_linked:
  assumes "core s bs F" and g: "grown s t n u" and "links_ok v (map bid cs)"
    and "same_data t v" and "mset cs = add_mset (new_block (length (mChunks s)) n u) (mset bs)"
  shows "core v cs F"
proof -
  let ?c = "length (mChunks s)"
  note cr = core_grown [OF assms(1,2)]
  have ids: "mset (all_ids cs) = add_mset ?c (mset (all_ids bs))"
  proof -
    have "mset (all_ids zs) = \<Sum>\<^sub># (image_mset (\<lambda>B. mset (tids (btree B))) (mset zs))" for zs
      by (induction zs) simp_all
    then show ?thesis by (simp add: assms(5) new_block_def)
  qed
  have "?c \<notin> set (all_ids bs)" using coreD(4) [OF assms(1)] by simp
  then have d: "distinct (all_ids cs)" using coreD(3) [OF assms(1)] ids
    by (metis distinct.simps(2) mset.simps(2) mset_eq_imp_distinct_iff)
  have st: "set (all_ids cs) = {..<length (mChunks t)}"
    using ids coreD(4) [OF assms(1)] g unfolding grown_def
    by (metis lessThan_Suc set_mset_add_mset_insert set_mset_mset)
  have new: "block_ok (mChunks t) (new_block ?c n u)"
    using g by (simp add: block_ok_def new_block_def new_MemNode_def grown_def)
  have "set cs = insert (new_block ?c n u) (set bs)"
    using assms(5) by (metis set_mset_add_mset_insert set_mset_mset)
  then have ok: "block_ok (mChunks t) B" if "B \<in> set cs" for B
    using that cr(2) new by auto
  have "block_ok (mChunks v) B" if "B \<in> set cs" for B
    using ok [OF that] assms(4) block_ok_cong [of B "mChunks v" "mChunks t"]
    by (simp add: same_data_def)
  moreover have "index_ok v F"
    by (rule index_ok_cong [OF cr(3)]) (use assms(4) in \<open>auto simp: same_data_def\<close>)
  ultimately show ?thesis using d st assms(3,4) unfolding core_def by (simp add: same_data_def)
qed

lemma core_new_last:
  assumes "core s bs F" and "grown s t n u"
  shows "core (insert_after (length (mChunks s)) None t) (bs @ [new_block (length (mChunks s)) n u]) F"
proof -
  note cr = core_grown [OF assms]
  from insert_last_links [OF cr(1,4,5,6,7)] show ?thesis
    by (intro core_linked [OF assms]) (simp_all add: new_block_def)
qed

lemma core_new_after:
  assumes "core s (xs @ A # ys) F" and "grown s t n u"
  shows "core (insert_after (length (mChunks s)) (Some (bid A)) t)
    (xs @ A # new_block (length (mChunks s)) n u # ys) F"
proof -
  note cr = core_grown [OF assms]
  from insert_after_links [of t "map bid xs" "bid A" "map bid ys" "length (mChunks s)"] cr(1,4,5)
  show ?thesis by (intro core_linked [OF assms]) (simp_all add: new_block_def)
qed

text \<open>Fusing a block into its left neighbour.\<close>

lemma fuse_to_left_nodes:
  assumes "a \<noteq> b" and "a < length (mChunks s)" and "b < length (mChunks s)"
  obtains u where "snd (fuse_to_left a b s) = erase_node b u" and "fst (fuse_to_left a b s) = a"
    and "length (mChunks u) = length (mChunks s)" and "mFreeList u = mFreeList s"
    and "\<And>ids. links_ok s ids \<Longrightarrow> links_ok u ids"
    and "\<And>i. node_at u i = (if i = a then (node_at s a)\<lparr>nsize := nsize (node_at s a) + nsize (node_at s b),
             children := children (node_at s a) @ [b]\<rparr>
           else if i = b then (node_at s b)\<lparr>noffset := nsize (node_at s a)\<rparr> else node_at s i)"
proof
  let ?s1 = "upd_node b (\<lambda>n. n\<lparr>noffset := nsize (node_at s a)\<rparr>) s"
  let ?s2 = "upd_node a (\<lambda>n. n\<lparr>nsize := nsize n + nsize (node_at ?s1 b)\<rparr>) ?s1"
  let ?u = "upd_node a (\<lambda>n. n\<lparr>children := children n @ [b]\<rparr>) ?s2"
  show "snd (fuse_to_left a b s) = erase_node b ?u" "fst (fuse_to_left a b s) = a"
    by (simp_all add: fuse_to_left_def Let_def)
  show "length (mChunks ?u) = length (mChunks s)" "mFreeList ?u = mFreeList s" by simp_all
  show "links_ok ?u ids" if "links_ok s ids" for ids
    using that by (intro links_ok_upd) simp_all
  show "node_at ?u i = (if i = a then (node_at s a)\<lparr>nsize := nsize (node_at s a) + nsize (node_at s b),
             children := children (node_at s a) @ [b]\<rparr>
           else if i = b then (node_at s b)\<lparr>noffset := nsize (node_at s a)\<rparr> else node_at s i)" for i
    using assms by (simp add: node_upd_node)
qed

lemma rep_tree_fuse:
  assumes "rep_tree h (btree A)" and "rep_tree h (btree B)"
    and "distinct (tids (btree A) @ tids (btree B))"
    and g: "\<And>i. g ! i = (if i = bid A then (h ! bid A)\<lparr>nsize := n, children := children (h ! bid A) @ [bid B]\<rparr>
           else if i = bid B then (h ! bid B)\<lparr>noffset := bsize A\<rparr> else h ! i)"
  shows "rep_tree g (btree (fuse_blocks A B))"
proof -
  obtain i off ks where A: "btree A = MT i off ks" by (cases "btree A")
  obtain j off' ls where B: "btree B = MT j off' ls" by (cases "btree B")
  have kid: "rep_tree g k \<and> noffset (g ! tid k) = toff k"
    if k: "k \<in> set ks \<union> set ls" for k
  proof -
    have "i \<notin> set (tids k)" "j \<notin> set (tids k)" using assms(3) k by (auto simp: A B)
    moreover have "set (tl (tids k)) \<subseteq> set (tids k)" by (cases k) auto
    ultimately have "rep_tree g k = rep_tree h k"
      by (intro rep_tree_cong) (auto simp: g A B)
    moreover have "tid k \<noteq> i" "tid k \<noteq> j"
      using \<open>i \<notin> set (tids k)\<close> \<open>j \<notin> set (tids k)\<close> tid_in_tids by metis+
    moreover have "rep_tree h k \<and> noffset (h ! tid k) = toff k"
      using assms(1,2) k by (auto simp: A B)
    ultimately show ?thesis by (simp add: g A B)
  qed
  have ij: "i \<noteq> j" using assms(3) by (auto simp: A B)
  have "children (g ! i) = map tid ks @ [j]" using assms(1) by (simp add: g A B)
  moreover have "children (g ! j) = map tid ls" using assms(2) ij by (simp add: g A B)
  moreover have "noffset (g ! j) = bsize A" using ij by (simp add: g A B)
  ultimately show ?thesis using kid by (simp add: fuse_blocks_def A B)
qed

lemma core_fuse:
  assumes "core s (xs @ A # B # ys) F" and "bid A \<notin> F"
  shows "fst (fuse_to_left (bid A) (bid B) s) = bid A"
    and "core (snd (fuse_to_left (bid A) (bid B) s)) (xs @ fuse_blocks A B # ys) F"
proof -
  let ?a = "bid A" and ?b = "bid B" and ?cs = "xs @ fuse_blocks A B # ys"
  have d: "distinct (all_ids (xs @ A # B # ys))" using assms(1) by (rule coreD)
  have lt: "?a < length (mChunks s)" "?b < length (mChunks s)"
    using coreD(7) [OF assms(1)] by simp_all
  have "distinct (map bid (xs @ A # B # ys))" using assms(1) by (rule coreD)
  then have ab: "?a \<noteq> ?b" by simp
  obtain u where u: "snd (fuse_to_left ?a ?b s) = erase_node ?b u" "fst (fuse_to_left ?a ?b s) = ?a"
    "length (mChunks u) = length (mChunks s)" "mFreeList u = mFreeList s"
    "\<And>ids. links_ok s ids \<Longrightarrow> links_ok u ids"
    "\<And>i. node_at u i = (if i = ?a then (node_at s ?a)\<lparr>nsize := nsize (node_at s ?a) + nsize (node_at s ?b),
             children := children (node_at s ?a) @ [?b]\<rparr>
           else if i = ?b then (node_at s ?b)\<lparr>noffset := nsize (node_at s ?a)\<rparr> else node_at s i)"
    by (rule fuse_to_left_nodes [OF ab lt]) blast
  show "fst (fuse_to_left ?a ?b s) = ?a" by (rule u)
  have lk: "links_ok u (map bid (xs @ [A]) @ ?b # map bid ys)"
    using u(5) [OF coreD(1) [OF assms(1)]] by simp
  have sz: "nsize (node_at s ?a) = bsize A" "nsize (node_at s ?b) = bsize B"
    "usage (node_at s ?a) = bused A"
    using coreD(8,9) [OF assms(1)] by simp_all
  have ok: "block_ok (mChunks u) C" if C: "C \<in> set ?cs" for C
  proof (cases "C = fuse_blocks A B")
    case True
    have "rep_tree (mChunks u) (btree (fuse_blocks A B))"
      by (rule rep_tree_fuse [where h = "mChunks s" and n = "bsize A + bsize B"])
        (use coreD(2) [OF assms(1)] d u(6) sz in \<open>auto simp: block_ok_def\<close>)
    then show ?thesis using True sz by (simp add: block_ok_def u(6))
  next
    case False
    then have C: "C \<in> set (xs @ ys)" using C by auto
    have "set (tids (btree C)) \<subseteq> set (all_ids xs) \<union> set (all_ids ys)"
      using C by (auto simp: set_all_ids)
    moreover have "set (tids (btree A)) \<inter> (set (all_ids xs) \<union> set (all_ids ys)) = {}"
      "set (tids (btree B)) \<inter> (set (all_ids xs) \<union> set (all_ids ys)) = {}"
      using d by auto
    moreover have "?a \<in> set (tids (btree A))" "?b \<in> set (tids (btree B))" by (rule tid_in_tids)+
    ultimately have "?a \<notin> set (tids (btree C))" "?b \<notin> set (tids (btree C))" by blast+
    moreover have "set (tl (tids (btree C))) \<subseteq> set (tids (btree C))" by (cases "btree C") auto
    moreover have "bid C \<noteq> ?a" "bid C \<noteq> ?b"
      using \<open>?a \<notin> set (tids (btree C))\<close> \<open>?b \<notin> set (tids (btree C))\<close> tid_in_tids by metis+
    ultimately have "block_ok (mChunks u) C = block_ok (mChunks s) C"
      by (intro block_ok_cong) (auto simp: u(6))
    then show ?thesis using coreD(2) [OF assms(1), of C] C by auto
  qed
  have "index_ok u F"
    by (rule index_ok_cong [OF coreD(5) [OF assms(1)] u(4)]) (use assms(2) in \<open>auto simp: u(3,6)\<close>)
  moreover have "set (all_ids ?cs) = {..<length (mChunks u)}" "distinct (all_ids ?cs)"
    using coreD(4) [OF assms(1)] d u(3) by simp_all
  ultimately have mid: "links_ok t (map bid ?cs) \<Longrightarrow> same_data u t \<Longrightarrow> core t ?cs F" for t
  proof -
    assume t: "links_ok t (map bid ?cs)" "same_data u t"
    have "block_ok (mChunks t) C" if "C \<in> set ?cs" for C
      using ok [OF that] t(2) block_ok_cong [of C "mChunks t" "mChunks u"]
      by (simp add: same_data_def)
    moreover have "index_ok t F"
      by (rule index_ok_cong [OF \<open>index_ok u F\<close>]) (use t(2) in \<open>auto simp: same_data_def\<close>)
    ultimately show ?thesis using t \<open>set (all_ids ?cs) = _\<close> \<open>distinct (all_ids ?cs)\<close>
      unfolding core_def by (simp add: same_data_def)
  qed
  from erase_node_links [OF lk] mid show "core (snd (fuse_to_left ?a ?b s)) ?cs F"
    by (simp add: u(1))
qed

section \<open>Allocation\<close>

lemma free_ids_simps [simp]:
  "free_ids [] = {}"
  "free_ids (B # bs) = (if bused B then free_ids bs else insert (bid B) (free_ids bs))"
  "free_ids (bs @ cs) = free_ids bs \<union> free_ids cs"
  by (auto simp: free_ids_def)

lemma free_ids_sub: "free_ids bs \<subseteq> bid ` set bs"
  by (auto simp: free_ids_def)

lemma core_free_notin:
  assumes "core s (xs @ A # ys) F" shows "bid A \<notin> free_ids xs" "bid A \<notin> free_ids ys"
proof -
  have "bid A \<notin> set (map bid xs) \<and> bid A \<notin> set (map bid ys)"
    using coreD(6) [OF assms] distinct_mid [of "map bid xs" "bid A" "map bid ys"] by simp
  then show "bid A \<notin> free_ids xs" "bid A \<notin> free_ids ys" using free_ids_sub by fastforce+
qed

text \<open>The size the request is rounded to.\<close>

definition rounded :: "nat \<Rightarrow> nat \<Rightarrow> Defer \<Rightarrow> nat" where
  "rounded sz align s = (let a = (if align = 0 then mAlign s else align) in UP_DIV sz a * a)"

text \<open>
  \<open>alloc\<close>, first case: the free index is empty or reuse is forbidden; a new chunk is
  appended.
\<close>

lemma alloc_fresh:
  assumes "wf_defer s bs" and "mFreeList s = [] \<or> separate"
    and "defer_alloc sz separate align s = (c, t)"
  shows "mNode c = Some (length (mChunks s))"
    and "wf_defer t (bs @ [new_block (length (mChunks s)) (rounded sz align s) True])"
proof -
  let ?n = "rounded sz align s"
  obtain k u where cm: "createMemNode ?n s = (k, u)" by (cases "createMemNode ?n s")
  then have k: "k = length (mChunks s)" and gr: "grown s u ?n True"
    using grown_create by blast+
  have res: "c = chunk_of_node k" "t = insert_after k None u"
    using assms(2,3) cm by (auto simp: defer_alloc_def rounded_def Let_def)
  show "mNode c = Some (length (mChunks s))" by (simp add: res k chunk_of_node_def)
  have "core t (bs @ [new_block k ?n True]) (free_ids bs)"
    using core_new_last [OF _ gr] assms(1) by (simp add: wf_defer_def res k)
  moreover have "apart (bs @ [new_block k ?n True])"
    using assms(1) by (simp add: wf_defer_def apart_def successively_append_iff new_block_def)
  ultimately show "wf_defer t (bs @ [new_block (length (mChunks s)) ?n True])"
    by (simp add: wf_defer_def k new_block_def)
qed

text \<open>
  \<open>alloc\<close>, second case: the best fitting free block is taken, and its rest, if any,
  becomes a new free block behind it; if none fits, the largest one is enlarged.
\<close>

lemma core_take_free:
  assumes "core s bs F" and "i < length (mFreeList s)"
  shows "core (s\<lparr>mFreeList := erase_at i (mFreeList s)\<rparr>) bs (F - {mFreeList s ! i})"
proof -
  have i: "index_ok s F" using assms(1) by (rule coreD)
  then have "index_ok (s\<lparr>mFreeList := erase_at i (mFreeList s)\<rparr>) (F - {mFreeList s ! i})"
    using assms(2) fidx.set_del [of "mFreeList s" i] fidx.distinct_del [of "mFreeList s" i]
      fidx.sorted_del [of "\<lambda>i. nsize (node_at s i)" "mFreeList s" i]
    by (auto simp: index_ok_def)
  with assms(1) show ?thesis by (simp add: core_def links_ok_def)
qed

lemma alloc_reuse:
  assumes "wf_defer s bs" and "mFreeList s \<noteq> []" and "defer_alloc sz False align s = (c, t)"
  obtains xs A ys where "bs = xs @ A # ys" and "\<not> bused A" and "mNode c = Some (bid A)"
    and "rounded sz align s < bsize A \<Longrightarrow>
          wf_defer t (xs @ Block (btree A) (rounded sz align s) True #
            new_block (length (mChunks s)) (bsize A - rounded sz align s) False # ys)"
    and "bsize A \<le> rounded sz align s \<Longrightarrow>
          wf_defer t (xs @ Block (btree A) (rounded sz align s) True # ys)"
    and "\<And>B. B \<in> set bs \<Longrightarrow> \<not> bused B \<Longrightarrow> rounded sz align s \<le> bsize B \<Longrightarrow>
          rounded sz align s \<le> bsize A \<and> bsize A \<le> bsize B"
proof -
  let ?n = "rounded sz align s" and ?k = "\<lambda>i. nsize (node_at s i)" and ?fl = "mFreeList s"
  let ?lb = "lower_bound ?k ?n ?fl"
  define it where "it = (if ?lb = length ?fl then ?lb - 1 else ?lb)"
  define sel where "sel = ?fl ! it"
  have it: "it < length ?fl" using assms(2) fidx.lb_le [of ?k ?n ?fl] by (auto simp: it_def)
  have co: "core s bs (free_ids bs)" and ap: "apart bs" using assms(1) by (simp_all add: wf_defer_def)
  have idx: "set ?fl = free_ids bs" "sorted (map ?k ?fl)"
    using coreD(5) [OF co] by (simp_all add: index_ok_def)
  have "sel \<in> free_ids bs" unfolding sel_def idx(1) [symmetric] using it by (rule nth_mem)
  then obtain A where A: "A \<in> set bs" "\<not> bused A" "bid A = sel" by (auto simp: free_ids_def)
  then obtain xs ys where bs: "bs = xs @ A # ys" by (auto simp: in_set_conv_decomp)
  have szA: "nsize (node_at s sel) = bsize A" using coreD(8) [OF co A(1)] A(3) by simp
  define s1 where "s1 = s\<lparr>mFreeList := erase_at it ?fl\<rparr>"
  define s2 where "s2 = upd_node sel (\<lambda>n. n\<lparr>usage := True\<rparr>) s1"
  have F: "free_ids bs - {sel} = free_ids xs \<union> free_ids ys"
    using core_free_notin [OF co [unfolded bs]] A(2,3) by (auto simp: bs)
  have c1: "core s1 bs (free_ids xs \<union> free_ids ys)"
    using core_take_free [OF co it] F by (simp add: s1_def sel_def)
  have nin: "bid A \<notin> free_ids xs \<union> free_ids ys" using core_free_notin [OF co [unfolded bs]] by simp
  have sz1: "nsize (node_at s1 (bid A)) = bsize A" using szA A(3) by (simp add: s1_def)
  have c2: "core s2 (xs @ Block (btree A) (bsize A) True # ys) (free_ids xs \<union> free_ids ys)"
    unfolding s2_def A(3) [symmetric]
    by (rule core_upd_block [OF c1 [unfolded bs] refl nin]) (simp_all add: sz1)
  have sz2: "nsize (node_at s2 sel) = bsize A"
    using coreD(8) [OF c2, of "Block (btree A) (bsize A) True"] A(3) by simp
  have len2: "length (mChunks s2) = length (mChunks s)" by (simp add: s2_def s1_def)
  have res: "c = chunk_of_node sel" "t = upd_node sel (\<lambda>n. n\<lparr>nsize := ?n\<rparr>)
     (if bsize A > ?n then
        let (r, t1) = createMemNode (bsize A - ?n) s2;
            t2 = upd_node r (\<lambda>n. n\<lparr>usage := False\<rparr>) t1
        in insertFree r (insert_after r (Some sel) t2)
      else s2)"
    using assms(2,3) sz2 by (auto simp: defer_alloc_def rounded_def Let_def it_def sel_def s1_def s2_def split: prod.splits)
  show thesis
  proof (rule that [OF bs A(2)])
    show "mNode c = Some (bid A)" by (simp add: res A(3) chunk_of_node_def)
    have apx: "apart xs" "apart ys" "ys \<noteq> [] \<Longrightarrow> bused (hd ys)"
      using ap A(2) unfolding bs apart_def
      by (cases ys; simp add: successively_append_iff successively_Cons)+
    show "wf_defer t (xs @ Block (btree A) ?n True # ys)" if "bsize A \<le> ?n"
    proof -
      have "core t (xs @ Block (btree A) ?n True # ys) (free_ids xs \<union> free_ids ys)"
        using that nin sz2 core_upd_block [OF c2 _, of "Block (btree A) ?n True" ?n True "\<lambda>n. n\<lparr>nsize := ?n\<rparr>"]
          coreD(9) [OF c2, of "Block (btree A) (bsize A) True"] A(3)
        by (simp add: res)
      moreover have "apart (xs @ Block (btree A) ?n True # ys)"
        using apx unfolding apart_def by (simp add: successively_append_iff successively_Cons)
      ultimately show ?thesis by (simp add: wf_defer_def)
    qed
    show "wf_defer t (xs @ Block (btree A) ?n True # new_block (length (mChunks s)) (bsize A - ?n) False # ys)"
      if less: "?n < bsize A"
    proof -
      let ?r = "length (mChunks s)" and ?A = "Block (btree A) (bsize A) True"
      let ?R = "new_block ?r (bsize A - ?n) False" and ?F = "free_ids xs \<union> free_ids ys"
      obtain k t1 where cm: "createMemNode (bsize A - ?n) s2 = (k, t1)"
        by (cases "createMemNode (bsize A - ?n) s2")
      then have k: "k = ?r" and g1: "grown s2 t1 (bsize A - ?n) True"
        using grown_create len2 by metis+
      define t3 where "t3 = insert_after ?r (Some (bid A)) (upd_node ?r (\<lambda>n. n\<lparr>usage := False\<rparr>) t1)"
      have c3: "core t3 (xs @ ?A # ?R # ys) ?F"
        using core_new_after [OF c2 grown_unused [OF g1, of False]] by (simp add: t3_def len2)
      have lt3: "?r < length (mChunks t3)" using coreD(7) [OF c3, of ?R] by (simp add: new_block_def)
      have rF: "?r \<notin> ?F" using coreD(5) [OF c2] len2 by (auto simp: index_ok_def)
      have c4: "core (insertFree ?r t3) (xs @ ?A # ?R # ys) (insert ?r ?F)"
        by (rule core_insertFree [OF c3 rF lt3])
      have nin4: "bid ?A \<notin> insert ?r ?F" using nin coreD(7) [OF co A(1)] by auto
      have us: "usage (node_at (insertFree ?r t3) (bid ?A)) = True"
        using coreD(9) [OF c4, of ?A] by simp
      have "core (upd_node (bid ?A) (\<lambda>n. n\<lparr>nsize := ?n\<rparr>) (insertFree ?r t3))
          (xs @ Block (btree ?A) ?n True # ?R # ys) (insert ?r ?F)"
        by (rule core_upd_block [OF c4 refl nin4]) (use us in simp_all)
      then have "core t (xs @ Block (btree A) ?n True # ?R # ys) (insert ?r ?F)"
        using less cm by (simp add: res k t3_def A(3))
      moreover have "apart (xs @ Block (btree A) ?n True # ?R # ys)"
        using apx unfolding apart_def
        by (cases ys) (simp_all add: successively_append_iff successively_Cons new_block_def)
      ultimately show ?thesis by (simp add: wf_defer_def new_block_def Un_insert_right)
    qed
    show "?n \<le> bsize A \<and> bsize A \<le> bsize B" if "B \<in> set bs" "\<not> bused B" "?n \<le> bsize B" for B
    proof -
      have B: "bid B \<in> set ?fl" "?k (bid B) = bsize B"
        using that idx(1) coreD(8) [OF co] by (auto simp: free_ids_def)
      then have "?lb < length ?fl"
        using fidx.lb_end [of ?k ?n ?fl "bid B"] fidx.lb_le [of ?k ?n ?fl] that(3) by fastforce
      then show ?thesis using fidx.lb_best_fit [OF _ B(1) _ idx(2), of ?n] fidx.lb_key [of ?k ?n ?fl]
          that(3) B(2) szA by (simp add: it_def sel_def)
    qed
  qed
qed

section \<open>Release\<close>

definition used_blocks :: "block list \<Rightarrow> (nat \<times> nat) set" where
  "used_blocks bs = {(bid B, bsize B) |B. B \<in> set bs \<and> bused B}"

lemma used_blocks_simps [simp]:
  "used_blocks [] = {}"
  "used_blocks (B # bs) = (if bused B then insert (bid B, bsize B) (used_blocks bs) else used_blocks bs)"
  "used_blocks (bs @ cs) = used_blocks bs \<union> used_blocks cs"
  by (auto simp: used_blocks_def)

lemma links_neighbours:
  assumes "core s (xs @ A # ys) F"
  shows "left (node_at s (bid A)) = last_opt None (map bid xs)"
    and "right (node_at s (bid A)) = hd_opt (map bid ys) None"
  using coreD(1) [OF assms] by (simp_all add: links_ok_def)

lemma free_left:
  assumes "core s (xs @ A # ys) (free_ids xs \<union> free_ids ys)" and "bused A"
    and "apart (xs @ A # ys)"
  obtains xs1 A1 s1 where "(case left (node_at s (bid A)) of
       Some a \<Rightarrow> if \<not> usage (node_at s a) then fuse_to_left a (bid A) (eraseFree a s) else (bid A, s)
     | None \<Rightarrow> (bid A, s)) = (bid A1, s1)"
    and "core s1 (xs1 @ A1 # ys) (free_ids xs1 \<union> free_ids ys)"
    and "shifts (xs @ A # ys) (xs1 @ A1 # ys)" and "used_blocks xs1 = used_blocks xs"
    and "apart xs1" and "xs1 = [] \<or> bused (last xs1)"
    and "chain_size (xs1 @ A1 # ys) = chain_size (xs @ A # ys)"
proof (cases xs rule: rev_cases)
  case Nil
  show thesis by (rule that [of A s "[]"]) (use assms links_neighbours [OF assms(1)] Nil in \<open>simp_all add: apart_def\<close>)
next
  case (snoc xs1 L)
  note nb = links_neighbours(1) [OF assms(1)]
  have uL: "usage (node_at s (bid L)) = bused L" by (rule coreD(9) [OF assms(1)]) (simp add: snoc)
  have apL: "apart xs" using assms(3) by (simp add: apart_def successively_append_iff)
  show thesis
  proof (cases "bused L")
    case True
    show thesis by (rule that [of A s xs]) (use True apL assms(1) nb uL snoc in simp_all)
  next
    case False
    let ?F = "free_ids xs1 \<union> free_ids ys"
    have co: "core s (xs1 @ L # A # ys) (free_ids xs \<union> free_ids ys)" using assms(1) by (simp add: snoc)
    have ni: "bid L \<notin> free_ids xs1" "bid L \<notin> free_ids ys"
      using core_free_notin [OF co] assms(2) by simp_all
    have "free_ids xs \<union> free_ids ys - {bid L} = ?F" using ni False by (auto simp: snoc)
    then have ce: "core (eraseFree (bid L) s) (xs1 @ L # A # ys) ?F"
      using core_eraseFree(1) [OF co, of "bid L"] False by (simp add: snoc)
    have cf: "fst (fuse_to_left (bid L) (bid A) (eraseFree (bid L) s)) = bid L"
      "core (snd (fuse_to_left (bid L) (bid A) (eraseFree (bid L) s))) (xs1 @ fuse_blocks L A # ys) ?F"
      using core_fuse [OF ce] ni by simp_all
    show thesis
    proof (rule that [of "fuse_blocks L A" "snd (fuse_to_left (bid L) (bid A) (eraseFree (bid L) s))" xs1])
      show "core (snd (fuse_to_left (bid L) (bid A) (eraseFree (bid L) s))) (xs1 @ fuse_blocks L A # ys) ?F"
        by (rule cf)
      show "shifts (xs @ A # ys) (xs1 @ fuse_blocks L A # ys)"
        using shifts_fuse [of xs1 L A ys] by (simp add: snoc)
      show "xs1 = [] \<or> bused (last xs1)" "apart xs1"
        using apL False by (auto simp: snoc apart_def successively_append_iff)
    qed (use False nb uL cf(1) snoc in \<open>simp_all add: prod_eq_iff\<close>)
  qed
qed

lemma free_right:
  assumes "core s (xs @ A # ys) (free_ids xs \<union> free_ids ys)"
    and "\<not> (xs \<noteq> [] \<and> \<not> bused (last xs))" and "apart xs" and "apart ys"
  obtains ys1 A1 s1 where "(case hd_opt (map bid ys) None of
       Some b \<Rightarrow> if \<not> usage (node_at s b) then fuse_to_left (bid A) b (eraseFree b s) else (bid A, s)
     | None \<Rightarrow> (bid A, s)) = (bid A1, s1)"
    and "core s1 (xs @ A1 # ys1) (free_ids xs \<union> free_ids ys1)"
    and "shifts (xs @ A # ys) (xs @ A1 # ys1)" and "used_blocks ys1 = used_blocks ys"
    and "apart ys1" and "ys1 = [] \<or> bused (hd ys1)"
    and "chain_size (xs @ A1 # ys1) = chain_size (xs @ A # ys)"
proof (cases ys)
  case Nil
  show thesis by (rule that [of A s "[]"]) (use assms Nil in \<open>simp_all add: apart_def\<close>)
next
  case (Cons R ys1)
  have uR: "usage (node_at s (bid R)) = bused R" by (rule coreD(9) [OF assms(1)]) (simp add: Cons)
  show thesis
  proof (cases "bused R")
    case True
    show thesis by (rule that [of A s ys]) (use True assms(1,4) uR Cons in simp_all)
  next
    case False
    let ?F = "free_ids xs \<union> free_ids ys1"
    have co: "core s (xs @ A # R # ys1) (free_ids xs \<union> free_ids ys)" using assms(1) by (simp add: Cons)
    have "core s ((xs @ [A]) @ R # ys1) (free_ids xs \<union> free_ids ys)" using co by simp
    from core_free_notin [OF this] have ni: "bid R \<notin> free_ids xs" "bid R \<notin> free_ids ys1"
      by (auto split: if_splits)
    have na: "bid A \<notin> ?F" using core_free_notin [OF co] by (auto split: if_splits)
    have "free_ids xs \<union> free_ids ys - {bid R} = ?F" using ni False by (auto simp: Cons)
    then have ce: "core (eraseFree (bid R) s) (xs @ A # R # ys1) ?F"
      using core_eraseFree(1) [OF co, of "bid R"] False by (simp add: Cons)
    have cf: "fst (fuse_to_left (bid A) (bid R) (eraseFree (bid R) s)) = bid A"
      "core (snd (fuse_to_left (bid A) (bid R) (eraseFree (bid R) s))) (xs @ fuse_blocks A R # ys1) ?F"
      using core_fuse [OF ce na] by simp_all
    show thesis
    proof (rule that [of "fuse_blocks A R" "snd (fuse_to_left (bid A) (bid R) (eraseFree (bid R) s))" ys1])
      show "core (snd (fuse_to_left (bid A) (bid R) (eraseFree (bid R) s))) (xs @ fuse_blocks A R # ys1) ?F"
        by (rule cf)
      show "shifts (xs @ A # ys) (xs @ fuse_blocks A R # ys1)"
        using shifts_fuse [of xs A R ys1] by (simp add: Cons)
      show "ys1 = [] \<or> bused (hd ys1)" "apart ys1"
        using assms(4) False by (cases ys1; auto simp: Cons apart_def successively_Cons)+
    qed (use False uR cf(1) Cons in \<open>simp_all add: prod_eq_iff\<close>)
  qed
qed

text \<open>
  \<open>free\<close> makes the chunk's block unused, fused with unused neighbours; nothing moves
  and no other block in use is touched.
\<close>

lemma free_effect:
  assumes "wf_defer s (xs @ A # ys)" and "bused A"
  obtains bs' where "wf_defer (free_node (bid A) s) bs'" and "shifts (xs @ A # ys) bs'"
    and "used_blocks bs' = used_blocks (xs @ ys)"
    and "chain_size bs' = chain_size (xs @ A # ys)"
proof -
  have co: "core s (xs @ A # ys) (free_ids xs \<union> free_ids ys)" and ap: "apart (xs @ A # ys)"
    using assms by (simp_all add: wf_defer_def)
  have apy: "apart ys" using ap by (cases ys) (simp_all add: apart_def successively_append_iff successively_Cons)
  obtain xs1 A1 s1 where L: "(case left (node_at s (bid A)) of
       Some a \<Rightarrow> if \<not> usage (node_at s a) then fuse_to_left a (bid A) (eraseFree a s) else (bid A, s)
     | None \<Rightarrow> (bid A, s)) = (bid A1, s1)"
    "core s1 (xs1 @ A1 # ys) (free_ids xs1 \<union> free_ids ys)"
    "shifts (xs @ A # ys) (xs1 @ A1 # ys)" "used_blocks xs1 = used_blocks xs"
    "apart xs1" "xs1 = [] \<or> bused (last xs1)"
    "chain_size (xs1 @ A1 # ys) = chain_size (xs @ A # ys)"
    by (rule free_left [OF co assms(2) ap]) (rule that)
  have "\<not> (xs1 \<noteq> [] \<and> \<not> bused (last xs1))" using L(6) by blast
  then obtain ys1 A2 s2 where R: "(case hd_opt (map bid ys) None of
       Some b \<Rightarrow> if \<not> usage (node_at s1 b) then fuse_to_left (bid A1) b (eraseFree b s1) else (bid A1, s1)
     | None \<Rightarrow> (bid A1, s1)) = (bid A2, s2)"
    "core s2 (xs1 @ A2 # ys1) (free_ids xs1 \<union> free_ids ys1)"
    "shifts (xs1 @ A1 # ys) (xs1 @ A2 # ys1)" "used_blocks ys1 = used_blocks ys"
    "apart ys1" "ys1 = [] \<or> bused (hd ys1)"
    "chain_size (xs1 @ A2 # ys1) = chain_size (xs1 @ A1 # ys)"
    by (rule free_right [OF L(2) _ L(5) apy]) (rule that)
  let ?A = "Block (btree A2) (bsize A2) False" and ?F = "free_ids xs1 \<union> free_ids ys1"
  let ?u = "upd_node (bid A2) (\<lambda>n. n\<lparr>usage := False\<rparr>) s2"
  have eq: "free_node (bid A) s = insertFree (bid A2) ?u"
    using L(1) R(1) by (simp add: free_node_def links_neighbours(2) [OF co])
  have nF: "bid A2 \<notin> ?F" using core_free_notin [OF R(2)] by simp
  have cu: "core ?u (xs1 @ ?A # ys1) ?F"
    by (rule core_upd_block [OF R(2) refl nF]) (use coreD(8) [OF R(2), of A2] in simp_all)
  have "core (insertFree (bid A2) ?u) (xs1 @ ?A # ys1) (insert (bid A2) ?F)"
    by (rule core_insertFree [OF cu nF]) (use coreD(7) [OF cu, of ?A] in simp)
  moreover have "apart (xs1 @ ?A # ys1)"
    using L(5,6) R(5,6) unfolding apart_def
    by (cases ys1) (auto simp: successively_append_iff successively_Cons)
  ultimately have wf: "wf_defer (free_node (bid A) s) (xs1 @ ?A # ys1)"
    by (simp add: wf_defer_def eq)
  have "shifts (xs1 @ A2 # ys1) (xs1 @ ?A # ys1)"
    using shifts_expand [of ?A A2 0 xs1 ys1] by simp
  with L(3) R(3) have sh: "shifts (xs @ A # ys) (xs1 @ ?A # ys1)"
    by (blast intro: shifts_trans)
  show thesis by (rule that [OF wf sh]) (use L(4,7) R(4,7) in simp_all)
qed

end
