(* ===== verification/Defer_Compute.thy ===== *)
theory Defer_Compute
  imports Defer_Refine
begin

text \<open>
  \<open>compute\<close>: with one block left, the walk over the tree of fused chunks gives every
  chunk the position it has in the abstract layout, and \<open>apply\<close> writes the base
  address plus that position into the tensors.
\<close>

section \<open>Walking the tree\<close>

fun mdepth :: "mtree \<Rightarrow> nat" where
  "mdepth (MT i off ks) = Suc (Max (insert 0 (set (map mdepth ks))))"

lemma mdepth_kid: "k \<in> set ks \<Longrightarrow> mdepth k < mdepth (MT i off ks)"
  by (simp add: less_Suc_eq_le)

lemma mdepth_le: "mdepth t \<le> length (tids t)"
proof (induction t)
  case (MT i off ks)
  have "mdepth k \<le> length (concat (map tids ks))" if k: "k \<in> set ks" for k
  proof -
    have "length (tids k) \<le> sum_list (map (length \<circ> tids) ks)"
      using member_le_sum_list [of "length (tids k)" "map (length \<circ> tids) ks"] k by auto
    with MT [OF k] show ?thesis by (simp add: length_concat comp_def)
  qed
  then have "Max (insert 0 (set (map mdepth ks))) \<le> length (concat (map tids ks))"
    by (subst Max_le_iff) auto
  then show ?case by simp
qed

text \<open>Everything but the offsets of the chunks in \<open>I\<close> is left alone.\<close>

definition only_offsets :: "nat set \<Rightarrow> Defer \<Rightarrow> Defer \<Rightarrow> bool" where
  "only_offsets I s t \<longleftrightarrow> length (mChunks t) = length (mChunks s) \<and> mTotalSize t = mTotalSize s \<and>
     mFreeList t = mFreeList s \<and> mAlign t = mAlign s \<and> mPtr t = mPtr s \<and> hosts t = hosts s \<and>
     mHead t = mHead s \<and> mTail t = mTail s \<and>
     (\<forall>i. children (node_at t i) = children (node_at s i) \<and> nsize (node_at t i) = nsize (node_at s i) \<and>
          right (node_at t i) = right (node_at s i) \<and> tensors (node_at t i) = tensors (node_at s i) \<and>
          (i \<notin> I \<longrightarrow> noffset (node_at t i) = noffset (node_at s i)))"

lemma only_offsets_refl: "only_offsets I s s"
  by (simp add: only_offsets_def)

lemma only_offsets_trans:
  "only_offsets I s t \<Longrightarrow> only_offsets J t u \<Longrightarrow> I \<subseteq> K \<Longrightarrow> J \<subseteq> K \<Longrightarrow> only_offsets K s u"
  unfolding only_offsets_def by simp (metis subsetD)

lemma only_offsets_upd:
  "i \<in> I \<Longrightarrow> only_offsets I s (upd_node i (\<lambda>n. n\<lparr>noffset := x\<rparr>) s)"
  unfolding only_offsets_def upd_node_def by (auto simp: nth_list_update_if)

lemma only_offsets_rep_tree:
  assumes "only_offsets I s t" and "set (tl (tids k)) \<inter> I = {}"
  shows "rep_tree (mChunks t) k = rep_tree (mChunks s) k"
  by (rule rep_tree_cong) (use assms in \<open>auto simp: only_offsets_def\<close>)

lemma visi_correct:
  assumes "rep_tree (mChunks s) t" and "distinct (tids t)"
    and "\<forall>i\<in>set (tids t). i < length (mChunks s)" and "mdepth t \<le> fuel"
  shows "\<exists>u. visiChildren fuel (tid t) s = Some u \<and> only_offsets (set (tl (tids t))) s u \<and>
    (\<forall>(i, q)\<in>set (tplace (noffset (node_at s (tid t))) t). noffset (node_at u i) = q)"
  using assms
proof (induction t arbitrary: s fuel)
  case (MT r off ks)
  let ?p = "noffset (node_at s r)"
  from MT.prems(4) obtain f where f: "fuel = Suc f" by (cases fuel) auto
  have depth: "mdepth k \<le> f" if "k \<in> set ks" for k
    using mdepth_kid [OF that, of r off] MT.prems(4) unfolding f by linarith
  have kids: "\<exists>u. visi_list f (map tid ls) r w = Some u \<and>
      only_offsets (set (concat (map tids ls))) w u \<and>
      (\<forall>k\<in>set ls. \<forall>(i, q)\<in>set (tplace (?p + toff k) k). noffset (node_at u i) = q)"
    if "set ls \<subseteq> set ks" "distinct (concat (map tids ls))"
      "noffset (node_at w r) = ?p" "length (mChunks w) = length (mChunks s)"
      "\<And>k. k \<in> set ls \<Longrightarrow> rep_tree (mChunks w) k \<and> noffset (node_at w (tid k)) = toff k" for ls w
    using that
  proof (induction ls arbitrary: w)
    case Nil
    then show ?case by (simp add: only_offsets_refl)
  next
    case (Cons k ls)
    have kin: "k \<in> set ks" using Cons.prems(1) by simp
    let ?w1 = "upd_node (tid k) (\<lambda>n. n\<lparr>noffset := noffset n + noffset (node_at w r)\<rparr>) w"
    have lt: "\<forall>i\<in>set (tids k). i < length (mChunks w)"
      using MT.prems(3) kin Cons.prems(4) by auto
    then have ltk: "tid k < length (mChunks w)" by simp
    have w1: "only_offsets {tid k} w ?w1" "noffset (node_at ?w1 (tid k)) = ?p + toff k"
      using ltk Cons.prems(3,5) by (auto simp: only_offsets_def node_upd_node)
    have dk: "distinct (tids k)" using Cons.prems(2) by simp
    then have "tid k \<notin> set (tl (tids k))" by (cases k) auto
    then have "rep_tree (mChunks ?w1) k"
      using only_offsets_rep_tree [OF w1(1)] Cons.prems(5) [of k] by simp
    from MT.IH [OF kin this dk _ depth [OF kin]] lt
    obtain u1 where u1: "visiChildren f (tid k) ?w1 = Some u1"
      "only_offsets (set (tl (tids k))) ?w1 u1"
      "\<forall>(i, q)\<in>set (tplace (?p + toff k) k). noffset (node_at u1 i) = q"
      using w1(2) by auto
    have sub: "set (tl (tids k)) \<subseteq> set (tids k)" by (cases k) auto
    have o1: "only_offsets (set (tids k)) w u1"
      by (rule only_offsets_trans [OF w1(1) u1(2) _ sub]) simp
    have rk: "r \<notin> set (tids k)" using MT.prems(2) kin by auto
    have "\<exists>u. visi_list f (map tid ls) r u1 = Some u \<and>
      only_offsets (set (concat (map tids ls))) u1 u \<and>
      (\<forall>k\<in>set ls. \<forall>(i, q)\<in>set (tplace (?p + toff k) k). noffset (node_at u i) = q)"
    proof (rule Cons.IH)
      show "set ls \<subseteq> set ks" "distinct (concat (map tids ls))" using Cons.prems(1,2) by auto
      show "noffset (node_at u1 r) = ?p" "length (mChunks u1) = length (mChunks s)"
        using o1 rk Cons.prems(3,4) by (auto simp: only_offsets_def)
      show "rep_tree (mChunks u1) l \<and> noffset (node_at u1 (tid l)) = toff l" if l: "l \<in> set ls" for l
      proof -
        have dis: "set (tids l) \<inter> set (tids k) = {}" using Cons.prems(2) l by auto
        moreover have "set (tl (tids l)) \<subseteq> set (tids l)" by (cases l) auto
        moreover have "tid l \<notin> set (tids k)" using dis tid_in_tids [of l] by blast
        ultimately show ?thesis
          using only_offsets_rep_tree [OF o1, of l] Cons.prems(5) [of l] l o1
          by (auto simp: only_offsets_def)
      qed
    qed
    then obtain u where u: "visi_list f (map tid ls) r u1 = Some u"
      "only_offsets (set (concat (map tids ls))) u1 u"
      "\<forall>k\<in>set ls. \<forall>(i, q)\<in>set (tplace (?p + toff k) k). noffset (node_at u i) = q"
      by blast
    have "noffset (node_at u i) = q" if iq: "(i, q) \<in> set (tplace (?p + toff k) k)" for i q
    proof -
      have "i \<in> set (map fst (tplace (?p + toff k) k))" using iq by force
      then have "i \<in> set (tids k)" by (simp only: fst_tplace)
      then have "i \<notin> set (concat (map tids ls))" using Cons.prems(2) by auto
      then show ?thesis using u(2) u1(3) iq by (auto simp: only_offsets_def)
    qed
    moreover have "only_offsets (set (concat (map tids (k # ls)))) w u"
      by (rule only_offsets_trans [OF o1 u(2)]) auto
    ultimately show ?case using u u1(1) by auto
  qed
  have "distinct (concat (map tids ks))" using MT.prems(2) by simp
  from kids [OF subset_refl this refl refl] MT.prems(1)
  obtain u where u: "visi_list f (map tid ks) r s = Some u"
    "only_offsets (set (concat (map tids ks))) s u"
    "\<forall>k\<in>set ks. \<forall>(i, q)\<in>set (tplace (?p + toff k) k). noffset (node_at u i) = q" by auto
  have "r \<notin> set (concat (map tids ks))" using MT.prems(2) by simp
  then have "noffset (node_at u r) = ?p" using u(2) by (simp add: only_offsets_def)
  moreover have "children (node_at s r) = map tid ks" using MT.prems(1) by simp
  ultimately show ?case using u by (intro exI [of _ u]) (auto simp: f)
qed

section \<open>One block left\<close>

lemma distinct_singleton_list: "distinct xs \<Longrightarrow> set xs = {a} \<Longrightarrow> xs = [a]"
proof -
  assume d: "distinct xs" and s: "set xs = {a}"
  have "length xs = Suc 0" using distinct_card [OF d] s by simp
  then obtain y where "xs = [y]" by (auto simp: length_Suc_conv)
  with s show ?thesis by simp
qed

lemma wf_single:
  assumes "wf_defer s bs" and "used_blocks bs = {}"
  shows "bs = [] \<or> (\<exists>B. bs = [B] \<and> \<not> bused B)"
proof (cases bs)
  case (Cons B cs)
  have free: "\<not> bused C" if "C \<in> set bs" for C
    using assms(2) that by (auto simp: used_blocks_def)
  have "cs = []"
  proof (rule ccontr)
    assume "cs \<noteq> []"
    then obtain C ds where "cs = C # ds" by (cases cs) auto
    then show False using assms(1) free [of B] free [of C] Cons by (simp add: wf_defer_def apart_def)
  qed
  then show ?thesis using free Cons by simp
qed simp

lemma compute_loop_single:
  assumes "wf_defer s [B]" and "mTotalSize s = 0"
  obtains t where "compute_loop (length (mChunks s)) (mHead s) s = Some t"
    and "mTotalSize t = bsize B" and "only_offsets UNIV s (t\<lparr>mTotalSize := 0\<rparr>)"
    and "\<And>i q. (i, q) \<in> set (tplace 0 (btree B)) \<Longrightarrow> noffset (node_at t i) = q"
proof -
  have co: "core s [B] (free_ids [B])" using assms(1) by (simp add: wf_defer_def)
  have lk: "mHead s = Some (bid B)" "right (node_at s (bid B)) = None"
    using coreD(1) [OF co] by (simp_all add: links_ok_def)
  have lt: "bid B < length (mChunks s)" by (rule coreD(7) [OF co]) simp
  then obtain n where n: "length (mChunks s) = Suc n" by (cases "length (mChunks s)") auto
  let ?s1 = "upd_node (bid B) (\<lambda>m. m\<lparr>noffset := mTotalSize s\<rparr>) s"
  have s1: "only_offsets {bid B} s ?s1" "noffset (node_at ?s1 (bid B)) = 0"
    using lt assms(2) by (auto simp: only_offsets_upd node_upd_node)
  have ids: "distinct (tids (btree B))" "set (tids (btree B)) = {..<length (mChunks s)}"
    using coreD(3,4) [OF co] by simp_all
  have "bid B \<notin> set (tl (tids (btree B)))" using ids(1) by (cases "btree B") auto
  then have "rep_tree (mChunks ?s1) (btree B)"
    using only_offsets_rep_tree [OF s1(1)] coreD(2) [OF co, of B] by (simp add: block_ok_def)
  moreover have "mdepth (btree B) \<le> length (mChunks s)"
    using mdepth_le [of "btree B"] ids distinct_card [of "tids (btree B)"] by simp
  ultimately obtain u where u: "visiChildren (length (mChunks s)) (bid B) ?s1 = Some u"
    "only_offsets (set (tl (tids (btree B)))) ?s1 u"
    "\<forall>(i, q)\<in>set (tplace 0 (btree B)). noffset (node_at u i) = q"
    using visi_correct [of ?s1 "btree B" "length (mChunks s)"] ids s1(2) by auto
  have o: "only_offsets UNIV s u" by (rule only_offsets_trans [OF s1(1) u(2)]) simp_all
  let ?t = "u\<lparr>mTotalSize := mTotalSize u + nsize (node_at u (bid B))\<rparr>"
  have "nsize (node_at u (bid B)) = bsize B" "right (node_at u (bid B)) = None" "mTotalSize u = 0"
    using o coreD(8) [OF co, of B] lk assms(2) by (simp_all add: only_offsets_def)
  moreover from this have "compute_loop (length (mChunks s)) (mHead s) s = Some ?t"
    using u(1) by (simp add: lk n Let_def)
  ultimately show thesis
    by (intro that [of ?t]) (use o u(3) assms(2) in \<open>auto simp: only_offsets_def\<close>)
qed

section \<open>The result of compute\<close>

text \<open>
  When every chunk has been freed, \<open>compute\<close> returns within its fuel and never with
  \<open>INVALID_VALUE\<close>; the only failure left is the parent's.
\<close>

lemma compute_all_free:
  assumes "wf_defer s [B]" and "\<not> bused B" and "mTotalSize s = 0"
  obtains t where "defer_compute root s b w = Some (defer_apply root t b w)"
    and "mTotalSize t = bsize B" and "only_offsets UNIV s (t\<lparr>mTotalSize := 0\<rparr>)"
    and "\<And>i q. (i, q) \<in> set (tplace 0 (btree B)) \<Longrightarrow> noffset (node_at t i) = q"
proof -
  have co: "core s [B] (free_ids [B])" using assms(1) by (simp add: wf_defer_def)
  have "distinct (mFreeList s)" "set (mFreeList s) = {bid B}"
    using coreD(5) [OF co] assms(2) by (simp_all add: index_ok_def)
  then have fl: "mFreeList s = [bid B]" by (rule distinct_singleton_list)
  have ht: "mHead s = mTail s" using coreD(1) [OF co] by (simp add: links_ok_def)
  have same: "s\<lparr>mTotalSize := 0\<rparr> = s" using assms(3) by simp
  obtain t where t: "compute_loop (length (mChunks s)) (mHead s) s = Some t"
    "mTotalSize t = bsize B" "only_offsets UNIV s (t\<lparr>mTotalSize := 0\<rparr>)"
    "\<And>i q. (i, q) \<in> set (tplace 0 (btree B)) \<Longrightarrow> noffset (node_at t i) = q"
    by (rule compute_loop_single [OF assms(1,3)]) (rule that)
  have "defer_compute root s b w = Some (defer_apply root t b w)"
    using t(1) assms(3) ht by (simp add: defer_compute_def Let_def fl same)
  then show thesis by (rule that) (use t in auto)
qed

end
