(* ===== verification/Defer_Runs.thy ===== *)
theory Defer_Runs
  imports Defer_Compute
begin

text \<open>
  Sequences of calls to the deferred allocator by a client that keeps its contract:
  it frees or attaches to chunks it holds, once each. \<open>L\<close> records the chunks the
  client holds, with the sizes it asked for.
\<close>

section \<open>Calls\<close>

datatype DeferCall = Alloc nat bool nat | Free MemChunk | Attach MemChunk nat
  | BarrierBegin | BarrierEnd | BeginGroup | EndGroup | Release bool

inductive defer_step ::
  "Defer \<times> (nat \<Rightarrow> nat option) \<Rightarrow> DeferCall \<Rightarrow> Defer \<times> (nat \<Rightarrow> nat option) \<Rightarrow> bool" where
  alloc: "defer_alloc sz sep al s = (c, t) \<Longrightarrow> mNode c = Some n \<Longrightarrow>
    0 < (if al = 0 then mAlign s else al) \<Longrightarrow>
    defer_step (s, L) (Alloc sz sep al) (t, L(n \<mapsto> sz))"
| free: "mNode c = Some n \<Longrightarrow> n \<in> dom L \<Longrightarrow> defer_free c s = (r, t) \<Longrightarrow>
    defer_step (s, L) (Free c) (t, L(n := None))"
| attach: "mNode c = Some n \<Longrightarrow> n \<in> dom L \<Longrightarrow>
    defer_step (s, L) (Attach c x) (chunk_attach c x s, L)"
| barrier_begin: "\<not> mBarrrier s \<Longrightarrow> defer_step (s, L) BarrierBegin (defer_barrierBegin s, L)"
| barrier_end: "defer_step (s, L) BarrierEnd (defer_barrierEnd s, L)"
| begin_group: "defer_step (s, L) BeginGroup (defer_beginGroup s, L)"
| end_group: "defer_step (s, L) EndGroup (defer_endGroup s, L)"
| release_all: "defer_step (s, L) (Release True) (defer_release True s, Map.empty)"
| release_idle: "defer_step (s, L) (Release False) (defer_release False s, L)"

inductive_cases defer_step_E: "defer_step (s, L) op (t, M)"
inductive_simps defer_step_simps [simp]:
  "defer_step (s, L) BarrierBegin cfg" "defer_step (s, L) BarrierEnd cfg"
  "defer_step (s, L) BeginGroup cfg" "defer_step (s, L) EndGroup cfg"
  "defer_step (s, L) (Alloc sz sep al) cfg" "defer_step (s, L) (Free c) cfg"
  "defer_step (s, L) (Attach c x) cfg"

inductive defer_run ::
  "Defer \<times> (nat \<Rightarrow> nat option) \<Rightarrow> DeferCall list \<Rightarrow> Defer \<times> (nat \<Rightarrow> nat option) \<Rightarrow> bool" where
  stop: "defer_run c [] c"
| more: "defer_step c op d \<Longrightarrow> defer_run d ops e \<Longrightarrow> defer_run c (op # ops) e"

text \<open>The bytes a sequence of calls asks for, each request rounded to its alignment.\<close>

fun requested :: "nat \<Rightarrow> DeferCall list \<Rightarrow> nat" where
  "requested al [] = 0"
| "requested al (Alloc sz sep a # ops) =
     (let a' = (if a = 0 then al else a) in UP_DIV sz a' * a') + requested al ops"
| "requested al (op # ops) = requested al ops"

section \<open>The invariant\<close>

definition pending :: "Defer \<Rightarrow> nat list" where
  "pending s = map (\<lambda>c. the (mNode c)) (mBarrrierFreeChunks s)"

definition client_inv :: "Defer \<Rightarrow> (nat \<Rightarrow> nat option) \<Rightarrow> block list \<Rightarrow> bool" where
  "client_inv s L bs \<longleftrightarrow> wf_defer s bs \<and> mTotalSize s = 0 \<and> first (mPtr s) = nullptr \<and>
     (\<forall>c\<in>set (mBarrrierFreeChunks s). mNode c \<noteq> None) \<and> distinct (pending s) \<and>
     fst ` used_blocks bs = dom L \<union> set (pending s) \<and> dom L \<inter> set (pending s) = {} \<and>
     (\<forall>n k. L n = Some k \<longrightarrow> (\<exists>m\<ge>k. (n, m) \<in> used_blocks bs)) \<and>
     (\<not> mBarrrier s \<longrightarrow> mBarrrierFreeChunks s = [])"

lemma client_inv_used: "client_inv s L bs \<Longrightarrow> L n = Some k \<Longrightarrow> \<exists>m\<ge>k. (n, m) \<in> used_blocks bs"
  by (simp only: client_inv_def)

lemma client_inv_unheld: "client_inv s L bs \<Longrightarrow> n \<notin> fst ` used_blocks bs \<Longrightarrow> L n = None"
  unfolding client_inv_def by (simp add: domIff)

text \<open>The control fields, which the list operations do not touch.\<close>

definition ctl :: "Defer \<Rightarrow> nat \<times> nat \<times> bool \<times> MemChunk list \<times> MemChunk \<times> (nat \<Rightarrow> ptr option)" where
  "ctl s = (mTotalSize s, mAlign s, mBarrrier s, mBarrrierFreeChunks s, mPtr s, hosts s)"

lemma ctl_fields [simp]:
  "ctl (s\<lparr>mChunks := h\<rparr>) = ctl s" "ctl (s\<lparr>mFreeList := fl\<rparr>) = ctl s"
  "ctl (s\<lparr>mHead := p\<rparr>) = ctl s" "ctl (s\<lparr>mTail := p\<rparr>) = ctl s"
  by (simp_all add: ctl_def)

lemma ctl_basic [simp]:
  "ctl (upd_node i f s) = ctl s" "ctl (insertFree i s) = ctl s" "ctl (eraseFree i s) = ctl s"
  "ctl (erase_node i s) = ctl s" "ctl (insert_after i p s) = ctl s"
  "ctl (snd (createMemNode n s)) = ctl s" "ctl (snd (fuse_to_left l r s)) = ctl s"
  by (simp_all add: upd_node_def insertFree_def eraseFree_def erase_node_def insert_after_def
      createMemNode_def fuse_to_left_def Let_def split: option.splits)

lemma ctl_alloc: "defer_alloc sz sep al s = (c, t) \<Longrightarrow> ctl t = ctl s"
  by (auto simp: defer_alloc_def createMemNode_def Let_def split: if_splits)

lemma ctl_fuse: "fuse_to_left l r s = (c, t) \<Longrightarrow> ctl t = ctl s"
  using ctl_basic(7) [of l r s] by simp

lemma ctl_free_node: "ctl (free_node n s) = ctl s"
  by (auto simp: free_node_def Let_def dest!: ctl_fuse split: prod.splits option.splits if_splits)

section \<open>Every call keeps the invariant\<close>

lemma used_split:
  assumes "n \<in> fst ` used_blocks bs"
  obtains xs A ys where "bs = xs @ A # ys" "bused A" "bid A = n"
proof -
  from assms obtain A where "A \<in> set bs" "bused A" "bid A = n" by (auto simp: used_blocks_def)
  then show thesis using that by (auto simp: in_set_conv_decomp)
qed

lemma used_not_mid:
  assumes "wf_defer s (xs @ A # ys)"
  shows "bid A \<notin> fst ` used_blocks (xs @ ys)"
proof -
  have "core s (xs @ A # ys) (free_ids (xs @ A # ys))" using assms by (simp add: wf_defer_def)
  then have "bid A \<notin> set (map bid xs) \<and> bid A \<notin> set (map bid ys)"
    using coreD(6) distinct_mid [of "map bid xs" "bid A" "map bid ys"] by fastforce
  then show ?thesis by (auto simp: used_blocks_def)
qed

lemma used_without:
  assumes "wf_defer s (xs @ A # ys)" and "bused A"
  shows "used_blocks (xs @ ys) = {p \<in> used_blocks (xs @ A # ys). fst p \<noteq> bid A}"
  using used_not_mid [OF assms(1)] assms(2) by force

lemma free_node_wf:
  assumes "wf_defer s bs" and "n \<in> fst ` used_blocks bs"
  obtains bs' where "wf_defer (free_node n s) bs'" and "shifts bs bs'"
    and "used_blocks bs' = {p \<in> used_blocks bs. fst p \<noteq> n}" and "chain_size bs' = chain_size bs"
proof -
  obtain xs A ys where bs: "bs = xs @ A # ys" "bused A" "bid A = n"
    by (rule used_split [OF assms(2)])
  have wf: "wf_defer s (xs @ A # ys)" using assms(1) by (simp only: bs(1))
  obtain bs' where r: "wf_defer (free_node (bid A) s) bs'" "shifts (xs @ A # ys) bs'"
    "used_blocks bs' = used_blocks (xs @ ys)" "chain_size bs' = chain_size (xs @ A # ys)"
    by (rule free_effect [OF wf bs(2)]) (rule that)
  show thesis
    by (rule that [of bs']) (use r used_without [OF wf bs(2)] in \<open>simp_all only: bs\<close>)
qed

text \<open>A block behind all others.\<close>

lemma placed_last:
  assumes "placed_within bs m k" shows "placed_before (bs @ [new_block n r u]) m k n"
proof -
  obtain ka pa where a: "(m, ka, pa) \<in> set (lay 0 0 bs)" "pa + k \<le> chain_size bs"
    using assms unfolding placed_within_def by blast
  then have "ka \<le> length bs" using lay_index [OF a(1)] by simp
  then show ?thesis using a unfolding placed_before_def lay_append
    by (intro exI [of _ ka] exI [of _ pa] exI [of _ "length bs"] exI [of _ "chain_size bs"]) (simp add: new_block_def)
qed

lemma alloc_wf:
  assumes "wf_defer s bs" and "defer_alloc sz sep al s = (c, t)" and "mNode c = Some n"
  obtains bs' where "wf_defer t bs'" and "shifts bs bs'"
    and "used_blocks bs' = insert (n, rounded sz al s) (used_blocks bs)"
    and "n \<notin> fst ` used_blocks bs" and "chain_size bs' \<le> chain_size bs + rounded sz al s"
    and "\<And>m k. sep \<Longrightarrow> placed_within bs m k \<Longrightarrow> placed_before bs' m k n"
proof (cases "mFreeList s = [] \<or> sep")
  case True
  note fr = alloc_fresh [OF assms(1) True assms(2)]
  have n: "n = length (mChunks s)" using fr(1) assms(3) by simp
  have "n \<notin> fst ` used_blocks bs" using assms(1) coreD(7) unfolding n wf_defer_def used_blocks_def by fastforce
  then show thesis
    by (intro that [OF fr(2)]) (auto simp: shifts_append n new_block_def intro: placed_last [unfolded new_block_def])
next
  case False
  let ?r = "rounded sz al s"
  have al: "defer_alloc sz False al s = (c, t)" and ne: "mFreeList s \<noteq> []" and ns: "\<not> sep" using assms(2) False by auto
  obtain xs A ys where R: "bs = xs @ A # ys" "\<not> bused A" "mNode c = Some (bid A)"
    "?r < bsize A \<Longrightarrow> wf_defer t (xs @ Block (btree A) ?r True #
            new_block (length (mChunks s)) (bsize A - ?r) False # ys)"
    "bsize A \<le> ?r \<Longrightarrow> wf_defer t (xs @ Block (btree A) ?r True # ys)"
    by (rule alloc_reuse [OF assms(1) ne al]) (rule that)
  have n: "n = bid A" using R(3) assms(3) by simp
  have ni: "n \<notin> fst ` used_blocks bs" using used_not_mid [of s xs A ys] assms(1) R(1,2) by (simp add: n)
  show thesis
  proof (cases "?r < bsize A")
    case True
    show thesis
      by (rule that [OF R(4) [OF True] _ _ ni])
        (use ns True R(1,2) shifts_split [of "Block (btree A) ?r True" A "new_block (length (mChunks s)) (bsize A - ?r) False" xs ys]
          in \<open>auto simp: n new_block_def\<close>)
  next
    case False
    then have le: "bsize A \<le> ?r" by simp
    show thesis
      by (rule that [OF R(5) [OF le] _ _ ni])
        (use ns le R(1,2) shifts_expand [of "Block (btree A) ?r True" A "?r - bsize A" xs ys] in \<open>auto simp: n\<close>)
  qed
qed

lemma free_all_wf:
  assumes "wf_defer s bs" and "\<not> mBarrrier s" and "\<forall>c\<in>set cs. mNode c \<noteq> None"
    and "distinct (map (\<lambda>c. the (mNode c)) cs)"
    and "(\<lambda>c. the (mNode c)) ` set cs \<subseteq> fst ` used_blocks bs"
  shows "\<exists>bs'. wf_defer (foldl (\<lambda>t chunk. snd (defer_free chunk t)) s cs) bs' \<and> shifts bs bs' \<and>
    used_blocks bs' = {p \<in> used_blocks bs. fst p \<notin> (\<lambda>c. the (mNode c)) ` set cs} \<and>
    chain_size bs' = chain_size bs \<and> ctl (foldl (\<lambda>t chunk. snd (defer_free chunk t)) s cs) = ctl s"
  using assms
proof (induction cs arbitrary: s bs)
  case Nil
  then show ?case by auto
next
  case (Cons c cs)
  obtain n where n: "mNode c = Some n" using Cons.prems(3) by auto
  have fr: "snd (defer_free c s) = free_node n s" using Cons.prems(2) n by (simp add: defer_free_def)
  have "n \<in> fst ` used_blocks bs" using Cons.prems(5) n by simp
  then obtain bs1 where b1: "wf_defer (free_node n s) bs1" "shifts bs bs1"
    "used_blocks bs1 = {p \<in> used_blocks bs. fst p \<noteq> n}" "chain_size bs1 = chain_size bs"
    using free_node_wf [OF Cons.prems(1)] by blast
  have ct: "ctl (free_node n s) = ctl s" by (rule ctl_free_node)
  then have nb: "\<not> mBarrrier (free_node n s)" using Cons.prems(2) by (simp add: ctl_def)
  have nin: "n \<notin> (\<lambda>c. the (mNode c)) ` set cs" using Cons.prems(4) n by simp
  have "(\<lambda>c. the (mNode c)) ` set cs \<subseteq> fst ` used_blocks bs1"
  proof
    fix m assume m: "m \<in> (\<lambda>c. the (mNode c)) ` set cs"
    then have "m \<in> fst ` used_blocks bs" "m \<noteq> n" using Cons.prems(5) nin by auto
    then show "m \<in> fst ` used_blocks bs1" unfolding b1(3) by auto
  qed
  from Cons.IH [OF b1(1) nb _ _ this] Cons.prems(3,4)
  obtain bs2 where b2: "wf_defer (foldl (\<lambda>t chunk. snd (defer_free chunk t)) (free_node n s) cs) bs2"
    "shifts bs1 bs2" "used_blocks bs2 = {p \<in> used_blocks bs1. fst p \<notin> (\<lambda>c. the (mNode c)) ` set cs}"
    "chain_size bs2 = chain_size bs1"
    "ctl (foldl (\<lambda>t chunk. snd (defer_free chunk t)) (free_node n s) cs) = ctl (free_node n s)"
    by auto
  have "shifts bs bs2" by (rule shifts_trans [OF b1(2) b2(2)])
  then show ?case using b2 b1(3,4) ct n by (intro exI [of _ bs2]) (auto simp: fr)
qed

lemma wf_used_fun:
  assumes "wf_defer s bs" and "(n, m) \<in> used_blocks bs" and "(n, m') \<in> used_blocks bs"
  shows "m = m'"
proof -
  have "core s bs (free_ids bs)" using assms(1) by (simp add: wf_defer_def)
  from assms(2,3) coreD(8) [OF this] show ?thesis unfolding used_blocks_def
    by clarsimp metis
qed

lemma client_inv_new: "client_inv (new_Defer al) Map.empty []"
  by (simp add: client_inv_def new_Defer_def null_chunk_def pending_def wf_defer_def core_def
      links_ok_def index_ok_def apart_def)

lemma client_inv_alloc:
  assumes "client_inv s L bs" and "defer_alloc sz sep al s = (c, t)" and "mNode c = Some n"
    and "0 < (if al = 0 then mAlign s else al)"
  obtains bs' where "client_inv t (L(n \<mapsto> sz)) bs'" and "shifts bs bs'" and "n \<notin> dom L"
    and "chain_size bs' \<le> chain_size bs + rounded sz al s"
    and "\<And>m k. sep \<Longrightarrow> placed_within bs m k \<Longrightarrow> placed_before bs' m k n"
proof -
  have wf: "wf_defer s bs" using assms(1) by (simp add: client_inv_def)
  obtain bs' where b: "wf_defer t bs'" "shifts bs bs'"
    "used_blocks bs' = insert (n, rounded sz al s) (used_blocks bs)"
    "n \<notin> fst ` used_blocks bs" "chain_size bs' \<le> chain_size bs + rounded sz al s"
    "\<And>m k. sep \<Longrightarrow> placed_within bs m k \<Longrightarrow> placed_before bs' m k n"
    by (rule alloc_wf [OF wf assms(2,3)]) (rule that)
  have ct: "ctl t = ctl s" using assms(2) by (rule ctl_alloc)
  have ge: "sz \<le> rounded sz al s" using UP_DIV_ge [OF assms(4)] by (simp add: rounded_def Let_def)
  have pe: "pending t = pending s" using ct by (simp add: ctl_def pending_def)
  have nin: "n \<notin> dom L" "n \<notin> set (pending s)" using b(4) assms(1) by (auto simp: client_inv_def)
  have ex: "\<exists>m'\<ge>k. (m, m') \<in> used_blocks bs'" if "(L(n \<mapsto> sz)) m = Some k" for m k
    using that ge assms(1) b(3) by (cases "m = n") (auto simp: client_inv_def)
  have "client_inv t (L(n \<mapsto> sz)) bs'"
    using assms(1) ct b(1) ex nin pe unfolding client_inv_def ctl_def by (simp add: b(3))
  then show thesis by (rule that) (use b nin in auto)
qed

lemma client_inv_free:
  assumes "client_inv s L bs" and "mNode c = Some n" and "n \<in> dom L" and "defer_free c s = (r, t)"
  obtains bs' where "client_inv t (L(n := None)) bs'" and "shifts bs bs'" and "r"
    and "chain_size bs' = chain_size bs"
proof (cases "mBarrrier s")
  case True
  then have t: "r" "t = s\<lparr>mBarrrierFreeChunks := mBarrrierFreeChunks s @ [c]\<rparr>"
    using assms(4) by (auto simp: defer_free_def)
  have "n \<notin> set (pending s)" using assms(1,3) by (auto simp: client_inv_def)
  moreover have "wf_defer t bs = wf_defer s bs"
    by (simp add: t wf_defer_def core_def links_ok_def index_ok_def)
  moreover have "pending t = pending s @ [n]" using assms(2) by (simp add: t pending_def)
  moreover have "dom L = insert n (dom (L(n := None)))" using assms(3) by auto
  ultimately have "client_inv t (L(n := None)) bs"
    using assms(1,2) True unfolding client_inv_def by (auto simp: t)
  then show thesis by (rule that) (simp_all add: t)
next
  case False
  then have t: "r" "t = free_node n s" using assms(2,4) by (auto simp: defer_free_def)
  have wf: "wf_defer s bs" and nu: "n \<in> fst ` used_blocks bs"
    using assms(1,3) by (auto simp: client_inv_def)
  obtain bs' where b: "wf_defer (free_node n s) bs'" "shifts bs bs'"
    "used_blocks bs' = {p \<in> used_blocks bs. fst p \<noteq> n}" "chain_size bs' = chain_size bs"
    by (rule free_node_wf [OF wf nu]) (rule that)
  have ct: "ctl t = ctl s" by (simp add: t ctl_free_node)
  have pe: "pending s = []" "pending t = []" using False assms(1) ct
    by (simp_all add: client_inv_def pending_def ctl_def)
  have "fst ` used_blocks bs' = fst ` used_blocks bs - {n}" unfolding b(3) by force
  moreover have "fst ` used_blocks bs = dom L" using assms(1) pe(1) by (simp add: client_inv_def)
  ultimately have dom: "fst ` used_blocks bs' = dom (L(n := None))" by simp
  have ex: "\<exists>m\<ge>k. (i, m) \<in> used_blocks bs'" if "(L(n := None)) i = Some k" for i k
  proof -
    have "i \<noteq> n" "L i = Some k" using that by (auto split: if_splits)
    then show ?thesis using assms(1) unfolding client_inv_def b(3) by simp
  qed
  have "wf_defer t bs'" using b(1) by (simp add: t)
  then have "client_inv t (L(n := None)) bs'"
    using assms(1) ct pe dom ex unfolding client_inv_def ctl_def by simp
  then show thesis by (rule that) (use b t in simp_all)
qed

lemma client_inv_barrierEnd:
  assumes "client_inv s L bs"
  obtains bs' where "client_inv (defer_barrierEnd s) L bs'" and "shifts bs bs'"
    and "chain_size bs' = chain_size bs" and "mAlign (defer_barrierEnd s) = mAlign s"
proof -
  let ?s = "s\<lparr>mBarrrier := False\<rparr>" and ?cs = "mBarrrierFreeChunks s"
  let ?u = "foldl (\<lambda>t chunk. snd (defer_free chunk t)) ?s ?cs"
  have wf: "wf_defer ?s bs" using assms
    by (simp add: client_inv_def wf_defer_def core_def links_ok_def index_ok_def)
  have P: "(\<lambda>c. the (mNode c)) ` set ?cs = set (pending s)" by (simp add: pending_def)
  have 1: "\<forall>c\<in>set ?cs. mNode c \<noteq> None" using assms unfolding client_inv_def by blast
  have 2: "distinct (map (\<lambda>c. the (mNode c)) ?cs)"
    using assms unfolding client_inv_def pending_def by blast
  have 3: "(\<lambda>c. the (mNode c)) ` set ?cs \<subseteq> fst ` used_blocks bs"
    unfolding P using assms unfolding client_inv_def by blast
  from free_all_wf [OF wf _ 1 2 3] obtain bs' where b: "wf_defer ?u bs'" "shifts bs bs'"
    "used_blocks bs' = {p \<in> used_blocks bs. fst p \<notin> set (pending s)}"
    "chain_size bs' = chain_size bs" "ctl ?u = ctl ?s"
    unfolding P by auto
  have t: "defer_barrierEnd s = ?u\<lparr>mBarrrierFreeChunks := []\<rparr>" by (simp add: defer_barrierEnd_def Let_def)
  have wt: "wf_defer (defer_barrierEnd s) bs'" using b(1)
    by (simp add: t wf_defer_def core_def links_ok_def index_ok_def)
  have "fst ` used_blocks bs' = fst ` used_blocks bs - set (pending s)" unfolding b(3) by force
  then have dom: "fst ` used_blocks bs' = dom L" using assms by (auto simp: client_inv_def)
  have "\<exists>m\<ge>k. (n, m) \<in> used_blocks bs'" if "L n = Some k" for n k
  proof -
    have "n \<notin> set (pending s)" "\<exists>m\<ge>k. (n, m) \<in> used_blocks bs"
      using assms that by (auto simp: client_inv_def)
    then show ?thesis by (auto simp: b(3))
  qed
  then have "client_inv (defer_barrierEnd s) L bs'"
    using assms b(5) wt dom unfolding client_inv_def by (simp add: t ctl_def pending_def)
  then show thesis by (rule that) (use b in \<open>simp_all add: t ctl_def\<close>)
qed

lemma wf_attach: "wf_defer (chunk_attach c x s) bs = wf_defer s bs"
proof (cases "mNode c")
  case (Some n)
  let ?t = "upd_node n (\<lambda>m. m\<lparr>tensors := tensors m @ [x]\<rparr>) s"
  have eq: "left (node_at ?t i) = left (node_at s i)" "right (node_at ?t i) = right (node_at s i)"
    "nsize (node_at ?t i) = nsize (node_at s i)" "usage (node_at ?t i) = usage (node_at s i)"
    "children (node_at ?t i) = children (node_at s i)" "noffset (node_at ?t i) = noffset (node_at s i)" for i
    unfolding upd_node_def by (simp_all add: nth_list_update_if)
  have "dseg (mChunks ?t) None ids None = dseg (mChunks s) None ids None" for ids
    by (rule dseg_cong) (simp add: eq)
  moreover have "block_ok (mChunks ?t) B = block_ok (mChunks s) B" for B
    by (rule block_ok_cong) (simp_all add: eq)
  ultimately show ?thesis
    by (simp add: chunk_attach_def Some wf_defer_def core_def links_ok_def index_ok_def eq)
qed (simp add: chunk_attach_def)

lemma ctl_attach [simp]: "ctl (chunk_attach c x s) = ctl s"
  by (simp add: chunk_attach_def split: option.splits)

lemma client_inv_cong:
  assumes "client_inv s L bs" and "wf_defer t bs" and "ctl t = ctl s" shows "client_inv t L bs"
  using assms by (simp add: client_inv_def ctl_def pending_def)

lemma client_inv_step:
  assumes "client_inv s L bs" and "defer_step (s, L) op (t, M)"
  obtains bs' where "client_inv t M bs'" and "op = Release True \<or> shifts bs bs'"
    and "chain_size bs' \<le> chain_size bs + requested (mAlign s) [op]" and "mAlign t = mAlign s"
  using assms(2)
proof (cases rule: defer_step.cases)
  case (alloc sz sep al c n)
  obtain bs' where "client_inv t (L(n \<mapsto> sz)) bs'" "shifts bs bs'" "n \<notin> dom L"
    "chain_size bs' \<le> chain_size bs + rounded sz al s"
    by (rule client_inv_alloc [OF assms(1) alloc(3,4,5)]) (rule that)
  moreover have "mAlign t = mAlign s" using ctl_alloc [OF alloc(3)] by (simp add: ctl_def)
  ultimately show thesis using alloc(1,2) by (intro that [of bs']) (auto simp: rounded_def Let_def)
next
  case (free c n r)
  obtain bs' where "client_inv t (L(n := None)) bs'" "shifts bs bs'" "r"
    "chain_size bs' = chain_size bs"
    by (rule client_inv_free [OF assms(1) free(3,4,5)]) (rule that)
  moreover have "ctl t = ctl s \<or> t = s\<lparr>mBarrrierFreeChunks := mBarrrierFreeChunks s @ [c]\<rparr>"
    using free(3,5) by (auto simp: defer_free_def ctl_free_node split: if_splits)
  then have "mAlign t = mAlign s" by (auto simp: ctl_def)
  ultimately show thesis using free(1,2) by (intro that [of bs']) auto
next
  case (attach c n x)
  have "wf_defer t bs" "ctl t = ctl s"
    using assms(1) attach(2) by (simp_all add: client_inv_def wf_attach)
  then show thesis using client_inv_cong [OF assms(1)] attach
    by (intro that [of bs]) (auto simp: ctl_def)
next
  case barrier_begin
  then have "client_inv t L bs" using assms(1)
    by (simp add: client_inv_def defer_barrierBegin_def pending_def wf_defer_def core_def
        links_ok_def index_ok_def)
  then show thesis using barrier_begin by (intro that [of bs]) (auto simp: defer_barrierBegin_def)
next
  case barrier_end
  obtain bs' where "client_inv (defer_barrierEnd s) L bs'" "shifts bs bs'"
    "chain_size bs' = chain_size bs" "mAlign (defer_barrierEnd s) = mAlign s"
    by (rule client_inv_barrierEnd [OF assms(1)]) (rule that)
  then show thesis using barrier_end by (intro that [of bs']) auto
next
  case release_all
  have "client_inv t M []"
    by (simp add: release_all defer_release_def defer_reset_def client_inv_def pending_def wf_defer_def
        core_def links_ok_def index_ok_def apart_def)
  then show thesis using release_all
    by (intro that [of "[]"]) (auto simp: defer_release_def defer_reset_def)
qed (use assms(1) that [of bs] in \<open>auto simp: defer_beginGroup_def defer_endGroup_def defer_release_def\<close>)

lemma client_inv_run:
  assumes "defer_run (s, L) ops (t, M)" and "client_inv s L bs"
  shows "\<exists>bs'. client_inv t M bs' \<and> (Release True \<notin> set ops \<longrightarrow> shifts bs bs') \<and>
    chain_size bs' \<le> chain_size bs + requested (mAlign s) ops \<and> mAlign t = mAlign s"
  using assms
proof (induction "(s, L)" ops "(t, M)" arbitrary: s L bs rule: defer_run.induct)
  case stop
  then show ?case by auto
next
  case (more op d ops)
  obtain u K where d: "d = (u, K)" by (cases d)
  from more.hyps(1) have st: "defer_step (s, L) op (u, K)" by (simp only: d)
  obtain bs1 where b1: "client_inv u K bs1" "op = Release True \<or> shifts bs bs1"
    "chain_size bs1 \<le> chain_size bs + requested (mAlign s) [op]" "mAlign u = mAlign s"
    by (rule client_inv_step [OF more.prems st]) (rule that)
  from more.hyps(3) [OF d b1(1)] obtain bs2 where b2: "client_inv t M bs2"
    "Release True \<notin> set ops \<Longrightarrow> shifts bs1 bs2"
    "chain_size bs2 \<le> chain_size bs1 + requested (mAlign u) ops" "mAlign t = mAlign u" by blast
  have "requested (mAlign s) (op # ops) = requested (mAlign s) [op] + requested (mAlign s) ops"
    by (cases op) (simp_all add: Let_def)
  then have "chain_size bs2 \<le> chain_size bs + requested (mAlign s) (op # ops)"
    using b1(3,4) b2(3) by simp
  moreover have "Release True \<notin> set (op # ops) \<Longrightarrow> shifts bs bs2"
    using b1(2) b2(2) by (auto intro: shifts_trans)
  ultimately show ?case using b2(1,4) b1(4) by (intro exI [of _ bs2]) auto
qed

end
