(* ===== verification/Defer_Props.thy ===== *)
theory Defer_Props
  imports Defer_Runs
begin

text \<open>
  What the deferred allocator promises its clients: chunks held at the same time get
  disjoint memory, the buffer is no larger than the requests, reuse is best fit, and
  \<open>compute\<close> succeeds exactly when everything has been given back. The last part is
  about the single buffer behind it.
\<close>

section \<open>Runs by evaluation\<close>

fun defer_exec1 :: "DeferCall \<Rightarrow> Defer \<times> (nat \<Rightarrow> nat option) \<Rightarrow> Defer \<times> (nat \<Rightarrow> nat option)" where
  "defer_exec1 (Alloc sz sep al) (s, L) =
     (let (c, t) = defer_alloc sz sep al s in (t, L(the (mNode c) \<mapsto> sz)))"
| "defer_exec1 (Free c) (s, L) = (snd (defer_free c s), L(the (mNode c) := None))"
| "defer_exec1 (Attach c x) (s, L) = (chunk_attach c x s, L)"
| "defer_exec1 BarrierBegin (s, L) = (defer_barrierBegin s, L)"
| "defer_exec1 BarrierEnd (s, L) = (defer_barrierEnd s, L)"
| "defer_exec1 BeginGroup (s, L) = (defer_beginGroup s, L)"
| "defer_exec1 EndGroup (s, L) = (defer_endGroup s, L)"
| "defer_exec1 (Release r) (s, L) = (defer_release r s, if r then Map.empty else L)"

fun defer_ok1 :: "DeferCall \<Rightarrow> Defer \<times> (nat \<Rightarrow> nat option) \<Rightarrow> bool" where
  "defer_ok1 (Alloc sz sep al) (s, L) = (0 < (if al = 0 then mAlign s else al))"
| "defer_ok1 (Free c) (s, L) = (mNode c \<noteq> None \<and> L (the (mNode c)) \<noteq> None)"
| "defer_ok1 (Attach c x) (s, L) = (mNode c \<noteq> None \<and> L (the (mNode c)) \<noteq> None)"
| "defer_ok1 BarrierBegin (s, L) = (\<not> mBarrrier s)"
| "defer_ok1 op (s, L) = True"

fun defer_exec where
  "defer_exec [] cfg = cfg"
| "defer_exec (op # ops) cfg = defer_exec ops (defer_exec1 op cfg)"

fun defer_ok where
  "defer_ok [] cfg = True"
| "defer_ok (op # ops) cfg = (defer_ok1 op cfg \<and> defer_ok ops (defer_exec1 op cfg))"

lemma alloc_node: "\<exists>n. mNode (fst (defer_alloc sz sep al s)) = Some n"
  by (auto simp: defer_alloc_def Let_def chunk_of_node_def split: prod.splits)

lemma defer_exec1_step:
  assumes "defer_ok1 op cfg" shows "defer_step cfg op (defer_exec1 op cfg)"
proof -
  obtain s L where cfg: "cfg = (s, L)" by (cases cfg)
  show ?thesis
  proof (cases op)
    case (Alloc sz sep al)
    then show ?thesis using assms alloc_node [of sz sep al s] by (auto simp: cfg split: prod.splits)
  next
    case (Free c)
    then show ?thesis using assms by (auto simp: cfg domI prod_eq_iff)
  next
    case (Release r)
    then show ?thesis by (cases r) (simp_all add: cfg defer_step.intros)
  qed (use assms in \<open>auto simp: cfg\<close>)
qed

lemma defer_exec_run: "defer_ok ops cfg \<Longrightarrow> defer_run cfg ops (defer_exec ops cfg)"
proof (induction ops arbitrary: cfg)
  case (Cons op ops)
  then have "defer_step cfg op (defer_exec1 op cfg)"
    "defer_run (defer_exec1 op cfg) ops (defer_exec ops (defer_exec1 op cfg))"
    by (simp_all add: defer_exec1_step)
  then show ?case by (simp add: defer_run.more)
qed (simp add: defer_run.stop)

section \<open>Placement\<close>

lemma client_inv_reach:
  assumes "defer_run (new_Defer al, Map.empty) ops (s, L)"
  obtains bs where "client_inv s L bs" and "chain_size bs \<le> requested al ops" and "mAlign s = al"
  using client_inv_run [OF assms client_inv_new] by (auto simp: new_Defer_def)

lemma apply_keeps:
  assumes "defer_apply root t b w = (code, u, b', w')"
  shows "mTotalSize u = mTotalSize t" and "length (mChunks u) = length (mChunks t)"
    and "i < length (mChunks t) \<Longrightarrow> noffset (node_at u i) = noffset (node_at t i)"
  using assms by (auto simp: defer_apply_def Let_def split: if_splits prod.splits)

lemma apply_code: "defer_apply root t b w = (code, u, b', w') \<Longrightarrow> code = NO_ERROR \<or> code = OUT_OF_MEMORY"
  by (auto simp: defer_apply_def single_realloc_def Let_def split: if_splits prod.splits)

text \<open>The final offsets of chunks that are separated in the layout.\<close>

definition disjoint_at :: "Defer \<Rightarrow> nat \<Rightarrow> nat \<Rightarrow> nat \<Rightarrow> nat \<Rightarrow> bool" where
  "disjoint_at t a na b nb \<longleftrightarrow> noffset (node_at t a) + na \<le> noffset (node_at t b) \<or>
     noffset (node_at t b) + nb \<le> noffset (node_at t a)"

lemma live_placed:
  assumes "client_inv s L bs" and "L a = Some na" and "L b = Some nb" and "a \<noteq> b"
  shows "placed_before bs a na b \<or> placed_before bs b nb a" and "placed_within bs a na"
proof -
  have P: "\<exists>i<length bs. bid (bs ! i) = x \<and> nx \<le> bsize (bs ! i)" if "L x = Some nx" for x nx
  proof -
    from assms(1) that obtain m where m: "nx \<le> m" "(x, m) \<in> used_blocks bs"
      unfolding client_inv_def by blast
    then obtain B where "B \<in> set bs" "bid B = x" "bsize B = m" by (auto simp: used_blocks_def)
    with m(1) show ?thesis by (auto simp: in_set_conv_nth)
  qed
  obtain i where i: "i < length bs" "bid (bs ! i) = a" "na \<le> bsize (bs ! i)" using P [OF assms(2)] by blast
  obtain j where j: "j < length bs" "bid (bs ! j) = b" "nb \<le> bsize (bs ! j)" using P [OF assms(3)] by blast
  have mono: "placed_before bs x n y \<Longrightarrow> m \<le> n \<Longrightarrow> placed_before bs x m y"
    "placed_within bs x n \<Longrightarrow> m \<le> n \<Longrightarrow> placed_within bs x m" for x n m y
    by (fastforce simp: placed_before_def placed_within_def)+
  show "placed_within bs a na" using mono(2) [OF blocks_placed_within [OF i(1)]] i by simp
  have "i \<noteq> j" using i j assms(4) by auto
  then consider "i < j" | "j < i" by linarith
  then show "placed_before bs a na b \<or> placed_before bs b nb a"
  proof cases
    case 1
    then show ?thesis using mono(1) [OF blocks_placed_before [OF 1 j(1)]] i j by simp
  next
    case 2
    then show ?thesis using mono(1) [OF blocks_placed_before [OF 2 i(1)]] i j by simp
  qed
qed

lemma compute_placement:
  assumes "client_inv s Map.empty bs" and "\<not> mBarrrier s" and "bs \<noteq> []"
  obtains code t b' w' where "defer_compute root s b w = Some (code, t, b', w')"
    and "code = NO_ERROR \<or> code = OUT_OF_MEMORY" and "mTotalSize t = chain_size bs"
    and "\<And>x n y. placed_before bs x n y \<Longrightarrow> noffset (node_at t x) + n \<le> noffset (node_at t y)"
    and "\<And>x n. placed_within bs x n \<Longrightarrow> noffset (node_at t x) + n \<le> mTotalSize t"
proof -
  have wf: "wf_defer s bs" and z: "mTotalSize s = 0" and "mBarrrierFreeChunks s = []"
    using assms(1,2) by (auto simp: client_inv_def)
  then have ub: "used_blocks bs = {}" using assms(1) by (simp add: client_inv_def pending_def)
  obtain B where B: "bs = [B]" "\<not> bused B" using wf_single [OF wf ub] assms(3) by blast
  obtain t1 where t1: "defer_compute root s b w = Some (defer_apply root t1 b w)"
    "mTotalSize t1 = bsize B" "only_offsets UNIV s (t1\<lparr>mTotalSize := 0\<rparr>)"
    "\<And>i q. (i, q) \<in> set (tplace 0 (btree B)) \<Longrightarrow> noffset (node_at t1 i) = q"
    by (rule compute_all_free [OF wf [unfolded B(1)] B(2) z]) (rule that)
  obtain code t b' w' where ap: "defer_apply root t1 b w = (code, t, b', w')"
    by (cases "defer_apply root t1 b w") auto
  have co: "core s [B] (free_ids [B])" using wf B by (simp add: wf_defer_def)
  have off: "noffset (node_at t i) = q" if "(i, k, q) \<in> set (lay 0 0 bs)" for i k q
  proof -
    have m: "(i, q) \<in> set (tplace 0 (btree B))" using that by (auto simp: B)
    then have "i \<in> set (map fst (tplace 0 (btree B)))" by force
    then have "i < length (mChunks s)" using coreD(4) [OF co] by (simp only: fst_tplace) simp
    then have "i < length (mChunks t1)" using t1(3) by (simp add: only_offsets_def)
    then show ?thesis using apply_keeps(3) [OF ap] t1(4) [OF m] by simp
  qed
  show thesis
  proof (rule that [of code t b' w'])
    show "defer_compute root s b w = Some (code, t, b', w')" using t1(1) ap by simp
    show "code = NO_ERROR \<or> code = OUT_OF_MEMORY" by (rule apply_code [OF ap])
    show ts: "mTotalSize t = chain_size bs" using apply_keeps(1) [OF ap] t1(2) by (simp add: B)
    show "noffset (node_at t x) + n \<le> noffset (node_at t y)" if "placed_before bs x n y" for x n y
      using that off unfolding placed_before_def by metis
    show "noffset (node_at t x) + n \<le> mTotalSize t" if "placed_within bs x n" for x n
      using that off unfolding placed_within_def ts by metis
  qed
qed

section \<open>Properties\<close>

text \<open>
  C1. Memory safety of deferred reuse. Two chunks that a client held at the same time
  (\<open>s1\<close>) get disjoint byte ranges, inside the buffer, once everything has been given
  back and \<open>compute\<close> has run, whatever calls came in between; \<open>compute\<close> always
  returns, and its only possible failure is the parent's \<open>OUT_OF_MEMORY\<close>.
\<close>

theorem defer_live_chunks_disjoint:
  assumes "defer_run (new_Defer al, Map.empty) ops1 (s1, L1)"
    and "L1 a = Some na" and "L1 b = Some nb" and "a \<noteq> b"
    and "defer_run (s1, L1) ops2 (s2, Map.empty)" and "Release True \<notin> set ops2"
    and "\<not> mBarrrier s2"
  shows "\<exists>code t buf' w'. defer_compute root s2 buf w = Some (code, t, buf', w') \<and>
    (code = NO_ERROR \<or> code = OUT_OF_MEMORY) \<and> disjoint_at t a na b nb \<and>
    noffset (node_at t a) + na \<le> mTotalSize t \<and> noffset (node_at t b) + nb \<le> mTotalSize t"
proof -
  obtain bs1 where i1: "client_inv s1 L1 bs1" by (rule client_inv_reach [OF assms(1)])
  obtain bs2 where i2: "client_inv s2 Map.empty bs2" "shifts bs1 bs2"
    using client_inv_run [OF assms(5) i1] assms(6) by blast
  have ab: "placed_before bs2 a na b \<or> placed_before bs2 b nb a"
    using live_placed(1) [OF i1 assms(2-4)] placed_before_shifts [OF i2(2)] by blast
  have wa: "placed_within bs2 a na" "placed_within bs2 b nb"
    using live_placed(2) [OF i1 assms(2,3,4)] live_placed(2) [OF i1 assms(3,2) assms(4) [symmetric]]
      placed_within_shifts [OF i2(2)] by blast+
  then have "bs2 \<noteq> []" by (auto simp: placed_within_def)
  then obtain code t b' w' where c: "defer_compute root s2 buf w = Some (code, t, b', w')"
    "code = NO_ERROR \<or> code = OUT_OF_MEMORY"
    "\<And>x n y. placed_before bs2 x n y \<Longrightarrow> noffset (node_at t x) + n \<le> noffset (node_at t y)"
    "\<And>x n. placed_within bs2 x n \<Longrightarrow> noffset (node_at t x) + n \<le> mTotalSize t"
    using compute_placement [OF i2(1) assms(7)] by metis
  have "disjoint_at t a na b nb" using ab c(3) by (auto simp: disjoint_at_def)
  with c(1,2) c(4) [OF wa(1)] c(4) [OF wa(2)] show ?thesis by blast
qed

definition demo_ops1 :: "DeferCall list" where
  "demo_ops1 = [Alloc 10 False 0, Alloc 70 False 0]"

definition demo_ops2 :: "DeferCall list" where
  "demo_ops2 = [Free (chunk_of_node 0), Alloc 200 False 0, Free (chunk_of_node 1), Free (chunk_of_node 0)]"

lemmas exec_simps = defer_alloc_def defer_free_def free_node_def createMemNode_def insert_after_def
  insertFree_def eraseFree_def fuse_to_left_def erase_node_def upd_node_def chunk_of_node_def
  new_Defer_def new_MemNode_def null_chunk_def UP_DIV_def erase_at_def Let_def

lemma demo_held1: "snd (defer_exec demo_ops1 (new_Defer 64, Map.empty)) = [0 \<mapsto> 10, 1 \<mapsto> 70]"
  by (simp add: demo_ops1_def exec_simps)

lemma demo_held2: "snd (defer_exec (demo_ops1 @ demo_ops2) (new_Defer 64, Map.empty)) = Map.empty"
  by (simp add: demo_ops1_def demo_ops2_def exec_simps)

lemma defer_exec_append: "defer_exec (xs @ ys) cfg = defer_exec ys (defer_exec xs cfg)"
  by (induction xs arbitrary: cfg) simp_all

definition demo_s1 :: Defer where
  "demo_s1 = fst (defer_exec demo_ops1 (new_Defer 64, Map.empty))"

definition demo_s2 :: Defer where
  "demo_s2 = fst (defer_exec demo_ops2 (demo_s1, [0 \<mapsto> 10, 1 \<mapsto> 70]))"

text \<open>A parent that always places its buffer at address 4096.\<close>

definition demo_root :: "unit Allocator" where
  "demo_root = \<lparr>onAlloc = (\<lambda>sz al w. (chunk_of_pointer 4096 0, w)), onRelease = (\<lambda>c w. w)\<rparr>"

lemma demo_cfg1: "defer_exec demo_ops1 (new_Defer 64, Map.empty) = (demo_s1, [0 \<mapsto> 10, 1 \<mapsto> 70])"
  using demo_held1 by (simp add: demo_s1_def prod_eq_iff)

lemma demo_cfg2: "defer_exec demo_ops2 (demo_s1, [0 \<mapsto> 10, 1 \<mapsto> 70]) = (demo_s2, Map.empty)"
  using demo_held2 by (simp add: demo_s2_def prod_eq_iff defer_exec_append demo_cfg1)

lemma demo_run1: "defer_run (new_Defer 64, Map.empty) demo_ops1 (demo_s1, [0 \<mapsto> 10, 1 \<mapsto> 70])"
proof -
  have "defer_ok demo_ops1 (new_Defer 64, Map.empty)" by code_simp
  from defer_exec_run [OF this] show ?thesis by (simp add: demo_cfg1)
qed

lemma demo_run2: "defer_run (demo_s1, [0 \<mapsto> 10, 1 \<mapsto> 70]) demo_ops2 (demo_s2, Map.empty)"
proof -
  have "defer_ok demo_ops2 (demo_s1, [0 \<mapsto> 10, 1 \<mapsto> 70])" by code_simp
  from defer_exec_run [OF this] show ?thesis by (simp only: demo_cfg2)
qed

lemma defer_run_append: "defer_run c xs d \<Longrightarrow> defer_run d ys e \<Longrightarrow> defer_run c (xs @ ys) e"
  by (induction rule: defer_run.induct) (auto intro: defer_run.more)

lemma demo_run: "defer_run (new_Defer 64, Map.empty) (demo_ops1 @ demo_ops2) (demo_s2, Map.empty)"
  by (rule defer_run_append [OF demo_run1 demo_run2])

lemma demo_s2_idle: "\<not> mBarrrier demo_s2" "Release True \<notin> set demo_ops2"
  by code_simp+

theorem defer_live_chunks_disjoint_witness:
  "\<exists>code t buf' w'. defer_compute demo_root demo_s2 new_SingleBuffer () = Some (code, t, buf', w') \<and>
    (code = NO_ERROR \<or> code = OUT_OF_MEMORY) \<and> disjoint_at t 0 10 1 70 \<and>
    noffset (node_at t 0) + 10 \<le> mTotalSize t \<and> noffset (node_at t 1) + 70 \<le> mTotalSize t"
  by (rule defer_live_chunks_disjoint [OF demo_run1 _ _ _ demo_run2 demo_s2_idle(2,1)]) simp_all

text \<open>
  C2. The buffer never exceeds the sum of the requests, each rounded to its alignment;
  so no size or offset of the allocator exceeds it either.
\<close>

theorem defer_total_bounded:
  assumes "defer_run (new_Defer al, Map.empty) ops (s, Map.empty)" and "\<not> mBarrrier s"
    and "defer_compute root s buf w = Some (code, t, buf', w')"
  shows "mTotalSize t \<le> requested al ops"
proof -
  obtain bs where i: "client_inv s Map.empty bs" "chain_size bs \<le> requested al ops"
    by (rule client_inv_reach [OF assms(1)])
  show ?thesis
  proof (cases "bs = []")
    case True
    then have "mFreeList s = []" "mTotalSize s = 0"
      using i(1) by (auto simp: client_inv_def wf_defer_def core_def index_ok_def)
    then have "mTotalSize t = 0" using assms(3) by (auto simp: defer_compute_def Let_def)
    then show ?thesis by simp
  next
    case False
    obtain code2 t2 b2 w2 where "defer_compute root s buf w = Some (code2, t2, b2, w2)"
      "mTotalSize t2 = chain_size bs"
      by (rule compute_placement [OF i(1) assms(2) False]) (rule that)
    then show ?thesis using assms(3) i(2) by simp
  qed
qed

lemma demo_computes: "\<not> Option.is_none (defer_compute demo_root demo_s2 new_SingleBuffer ())"
  by code_simp

theorem defer_total_bounded_witness:
  "\<exists>code t buf' w'. defer_compute demo_root demo_s2 new_SingleBuffer () = Some (code, t, buf', w') \<and>
     mTotalSize t \<le> requested 64 (demo_ops1 @ demo_ops2)"
proof -
  obtain code t b w where c: "defer_compute demo_root demo_s2 new_SingleBuffer () = Some (code, t, b, w)"
    using demo_computes by (auto simp: Option.is_none_def)
  with defer_total_bounded [OF demo_run demo_s2_idle(1) c] show ?thesis by blast
qed

text \<open>
  C3. What one \<open>alloc\<close> does in any reachable state: it hands out a chunk no client
  holds, at least as large as asked and less than one alignment unit larger, and leaves
  the chunks that are held alone.
\<close>

theorem defer_alloc_correct:
  assumes "defer_run (new_Defer al, Map.empty) ops (s, L)"
    and "a' = (if a = 0 then al else a)" and "0 < a'" and "defer_alloc sz sep a s = (c, t)"
  shows "\<exists>n. mNode c = Some n \<and> L n = None \<and> usage (node_at t n) \<and> nsize (node_at t n) = UP_DIV sz a' * a' \<and>
    sz \<le> nsize (node_at t n) \<and> nsize (node_at t n) < sz + a' \<and>
    (\<forall>m k. L m = Some k \<longrightarrow> usage (node_at t m) \<and> nsize (node_at t m) = nsize (node_at s m))"
proof -
  obtain bs where i: "client_inv s L bs" "mAlign s = al" by (rule client_inv_reach [OF assms(1)])
  have wf: "wf_defer s bs" using i(1) by (simp add: client_inv_def)
  obtain n where n: "mNode c = Some n" using alloc_node [of sz sep a s] assms(4) by auto
  obtain bs' where b: "wf_defer t bs'" "used_blocks bs' = insert (n, rounded sz a s) (used_blocks bs)"
    "n \<notin> fst ` used_blocks bs"
    by (rule alloc_wf [OF wf assms(4) n]) (rule that)
  have r: "rounded sz a s = UP_DIV sz a' * a'" using assms(2) i(2) by (simp add: rounded_def Let_def)
  have us: "usage (node_at u m) \<and> nsize (node_at u m) = k" if "wf_defer u cs" "(m, k) \<in> used_blocks cs" for u cs m k
    using that coreD(8,9) [of u cs "free_ids cs"] by (auto simp: wf_defer_def used_blocks_def)
  have "usage (node_at t m) \<and> nsize (node_at t m) = nsize (node_at s m)" if Lm: "L m = Some k" for m k
  proof -
    obtain k' where "(m, k') \<in> used_blocks bs" using client_inv_used [OF i(1) Lm] by blast
    then show ?thesis using us [OF wf] us [OF b(1)] b(2) by (metis insertI2)
  qed
  moreover have "L n = None" by (rule client_inv_unheld [OF i(1) b(3)])
  moreover have "usage (node_at t n) \<and> nsize (node_at t n) = UP_DIV sz a' * a'"
    using us [OF b(1), of n "rounded sz a s"] b(2) r by (simp only: insert_iff simp_thms)
  ultimately show ?thesis using n UP_DIV_ge [OF assms(3), of sz] UP_DIV_lt [OF assms(3), of sz]
    by (intro exI [of _ n]) simp
qed

theorem defer_alloc_correct_witness:
  "\<exists>n. mNode (fst (defer_alloc 30 False 0 demo_s1)) = Some n \<and> [0 \<mapsto> 10, 1 \<mapsto> 70 :: nat] n = None \<and>
    usage (node_at (snd (defer_alloc 30 False 0 demo_s1)) n) \<and>
    nsize (node_at (snd (defer_alloc 30 False 0 demo_s1)) n) = UP_DIV 30 64 * 64"
proof -
  have "(0::nat) < (if (0::nat) = 0 then 64 else 0)" by simp
  from defer_alloc_correct [OF demo_run1 refl this surjective_pairing, of 30 False]
  show ?thesis by (simp only: simp_thms if_True) blast
qed

text \<open>
  C4. Best fit: if some free chunk is large enough, \<open>alloc\<close> takes a free chunk that
  is large enough and none that is large enough is smaller.
\<close>

theorem defer_alloc_best_fit:
  assumes "defer_run (new_Defer al, Map.empty) ops (s, L)"
    and "a' = (if a = 0 then al else a)" and "f \<in> set (mFreeList s)"
    and "UP_DIV sz a' * a' \<le> nsize (node_at s f)" and "defer_alloc sz False a s = (c, t)"
  shows "\<exists>n \<in> set (mFreeList s). mNode c = Some n \<and> UP_DIV sz a' * a' \<le> nsize (node_at s n) \<and>
    nsize (node_at s n) \<le> nsize (node_at s f)"
proof -
  obtain bs where i: "client_inv s L bs" "mAlign s = al" by (rule client_inv_reach [OF assms(1)])
  have wf: "wf_defer s bs" using i(1) by (simp add: client_inv_def)
  then have co: "core s bs (free_ids bs)" by (simp add: wf_defer_def)
  have fl: "set (mFreeList s) = free_ids bs" using coreD(5) [OF co] by (simp add: index_ok_def)
  have r: "rounded sz a s = UP_DIV sz a' * a'" using assms(2) i(2) by (simp add: rounded_def Let_def)
  obtain B where B: "B \<in> set bs" "\<not> bused B" "bid B = f" using assms(3) fl by (auto simp: free_ids_def)
  have "mFreeList s \<noteq> []" using assms(3) by auto
  then obtain xs A ys where R: "bs = xs @ A # ys" "\<not> bused A" "mNode c = Some (bid A)"
    "\<And>B. B \<in> set bs \<Longrightarrow> \<not> bused B \<Longrightarrow> rounded sz a s \<le> bsize B \<Longrightarrow>
          rounded sz a s \<le> bsize A \<and> bsize A \<le> bsize B"
    using alloc_reuse [OF wf _ assms(5)] by metis
  have A: "A \<in> set bs" using R(1) by simp
  then have "bid A \<in> set (mFreeList s)" using R(2) fl by (auto simp: free_ids_def)
  moreover have "nsize (node_at s (bid A)) = bsize A" "nsize (node_at s f) = bsize B"
    using coreD(8) [OF co A] coreD(8) [OF co B(1)] B(3) by simp_all
  ultimately show ?thesis using R(3) R(4) [OF B(1,2)] assms(4) r by (intro bexI [of _ "bid A"]) simp_all
qed

definition demo_s3 :: Defer where
  "demo_s3 = snd (defer_free (chunk_of_node 0) demo_s1)"

lemma demo_run3:
  "defer_run (new_Defer 64, Map.empty) (demo_ops1 @ [Free (chunk_of_node 0)]) (demo_s3, [1 \<mapsto> 70])"
proof -
  have "defer_ok [Free (chunk_of_node 0)] (demo_s1, [0 \<mapsto> 10, 1 \<mapsto> 70])" by code_simp
  from defer_exec_run [OF this] have "defer_run (demo_s1, [0 \<mapsto> 10, 1 \<mapsto> 70]) [Free (chunk_of_node 0)]
      (demo_s3, ([0 \<mapsto> 10, 1 \<mapsto> 70])(0 := None))"
    by (simp only: defer_exec.simps defer_exec1.simps demo_s3_def)
      (simp add: chunk_of_node_def)
  moreover have "([0::nat \<mapsto> 10, 1 \<mapsto> 70 :: nat])(0 := None) = [1 \<mapsto> 70]" by (rule ext) simp
  ultimately show ?thesis using defer_run_append [OF demo_run1] by simp
qed

theorem defer_alloc_best_fit_witness:
  "\<exists>n \<in> set (mFreeList demo_s3). mNode (fst (defer_alloc 30 False 0 demo_s3)) = Some n"
proof -
  have "0 \<in> set (mFreeList demo_s3)" "UP_DIV 30 64 * 64 \<le> nsize (node_at demo_s3 0)" by code_simp+
  with defer_alloc_best_fit [OF demo_run3 refl, of 0 30 0 "fst (defer_alloc 30 False 0 demo_s3)"
      "snd (defer_alloc 30 False 0 demo_s3)"] show ?thesis by auto
qed

text \<open>
  \<open>compute\<close> refuses to place the buffer while a chunk is still held and another has
  been given back: \<open>INVALID_VALUE\<close>, with nothing changed.
\<close>

theorem defer_compute_refuses:
  assumes "defer_run (new_Defer al, Map.empty) ops (s, L)" and "L n = Some k"
    and "mFreeList s \<noteq> []"
  shows "defer_compute root s buf w = Some (INVALID_VALUE, s, buf, w)"
proof -
  obtain bs where i: "client_inv s L bs" by (rule client_inv_reach [OF assms(1)])
  have wf: "wf_defer s bs" and z: "mTotalSize s = 0" using i by (simp_all add: client_inv_def)
  then have co: "core s bs (free_ids bs)" by (simp add: wf_defer_def)
  obtain m where m: "(n, m) \<in> used_blocks bs" using client_inv_used [OF i assms(2)] by blast
  have "free_ids bs \<noteq> {}" using assms(3) coreD(5) [OF co] by (auto simp: index_ok_def)
  then obtain A B where AB: "A \<in> set bs" "bused A" "B \<in> set bs" "\<not> bused B"
    using m by (auto simp: used_blocks_def free_ids_def)
  obtain C cs where bs: "bs = C # cs" using AB(1) by (cases bs) auto
  have "cs \<noteq> []" using AB bs by auto
  then obtain ds D where cs: "cs = ds @ [D]" by (cases cs rule: rev_cases) auto
  have "bid C \<noteq> bid D" using coreD(6) [OF co] by (auto simp: bs cs)
  then have "mHead s \<noteq> mTail s" using coreD(1) [OF co] by (simp add: links_ok_def bs cs)
  moreover have "s\<lparr>mTotalSize := 0\<rparr> = s" using z by simp
  ultimately show ?thesis using assms(3) z by (simp add: defer_compute_def Let_def)
qed

theorem defer_compute_refuses_witness:
  "defer_compute demo_root demo_s3 new_SingleBuffer () = Some (INVALID_VALUE, demo_s3, new_SingleBuffer, ())"
proof -
  have "mFreeList demo_s3 \<noteq> []" by code_simp
  from defer_compute_refuses [OF demo_run3 _ this, of 1 70] show ?thesis by simp
qed

section \<open>Tensors\<close>

lemma fold_apply_tensors:
  "fold (CPUMemChunkApplyToTensor p off) ts h x = (if x \<in> set ts then Some (p + off) else h x)"
  by (induction ts arbitrary: h) (auto simp: CPUMemChunkApplyToTensor_def)

lemma fold_apply_chunks:
  assumes "\<forall>c\<in>set cs. x \<in> set (tensors c) \<longrightarrow> p + (f c) = v"
  shows "fold (\<lambda>c. fold (CPUMemChunkApplyToTensor p (f c)) (tensors c)) cs h x =
    (if \<exists>c\<in>set cs. x \<in> set (tensors c) then Some v else h x)"
  using assms by (induction cs arbitrary: h) (auto simp: fold_apply_tensors)

lemma compute_hosts:
  assumes i: "client_inv s Map.empty bs" and "\<not> mBarrrier s"
    and "defer_compute root s buf w = Some (NO_ERROR, t, buf', w')" and "0 < mTotalSize t"
    and "currentSize buf = 0 \<or> first (current buf) \<noteq> nullptr" and "mNode (current buf) = None"
    and "\<And>n a v. mNode (fst (onAlloc root n a v)) = None"
    and "a < length (mChunks s)" and "x \<in> set (tensors (node_at s a))"
    and "\<And>i. i < length (mChunks s) \<Longrightarrow> x \<in> set (tensors (node_at s i)) \<Longrightarrow> i = a"
  shows "hosts t x = Some (first (current buf') + second (current buf') + noffset (node_at t a)) \<and>
    first (current buf') \<noteq> nullptr \<and> mTotalSize t \<le> currentSize buf'"
proof -
  have wf: "wf_defer s bs" and z: "mTotalSize s = 0" "first (mPtr s) = 0" and "mBarrrierFreeChunks s = []"
    using i assms(2) by (auto simp: client_inv_def)
  then have ub: "used_blocks bs = {}" using i by (simp add: client_inv_def pending_def)
  have ne: "bs \<noteq> []" using wf assms(8) by (auto simp: wf_defer_def core_def)
  then obtain B where B: "bs = [B]" "\<not> bused B" using wf_single [OF wf ub] by blast
  obtain t1 where t1: "defer_compute root s buf w = Some (defer_apply root t1 buf w)"
    "only_offsets UNIV s (t1\<lparr>mTotalSize := 0\<rparr>)"
    by (rule compute_all_free [OF wf [unfolded B(1)] B(2) z(1)]) (rule that)
  have ap: "defer_apply root t1 buf w = (NO_ERROR, t, buf', w')" using t1(1) assms(3) by simp
  have fl: "mFreeList t1 \<noteq> []" "first (mPtr t1) = 0"
    using t1(2) wf B z(2) by (auto simp: only_offsets_def wf_defer_def core_def index_ok_def)
  have ts: "mTotalSize t = mTotalSize t1" by (rule apply_keeps(1) [OF ap])
  have P: "t = t1\<lparr>mPtr := current buf',
      mChunks := map (\<lambda>c. c\<lparr>nbase := chunk_ptr (mChunks t1) (current buf')\<rparr>) (mChunks t1),
      hosts := fold (\<lambda>c. fold (CPUMemChunkApplyToTensor (chunk_base (mChunks t1) (current buf'))
                   (noffset c + chunk_offset (mChunks t1) (current buf'))) (tensors c))
                 (mChunks t1) (hosts t1)\<rparr> \<and> mNode (current buf') = None \<and>
      first (current buf') \<noteq> 0 \<and> mTotalSize t1 \<le> currentSize buf'"
  proof (cases "currentSize buf < mTotalSize t1")
    case True
    have "mNode (current buf') = None"
      using ap True fl assms(7) by (auto simp: defer_apply_def single_realloc_def Let_def
          split: if_splits prod.splits) (metis fst_conv)+
    then show ?thesis using ap True fl
      by (auto simp: defer_apply_def single_realloc_def Let_def split: if_splits prod.splits)
  next
    case False
    then have "first (current buf) \<noteq> 0" using assms(4,5) ts by auto
    then show ?thesis using ap False fl assms(6)
      by (auto simp: defer_apply_def Let_def split: if_splits)
  qed
  let ?p = "first (current buf')" and ?o = "second (current buf')"
  have eqs: "length (mChunks t1) = length (mChunks s)" "tensors (node_at t1 j) = tensors (node_at s j)" for j
    using t1(2) by (simp_all add: only_offsets_def)
  have only: "\<forall>c\<in>set (mChunks t1). x \<in> set (tensors c) \<longrightarrow> ?p + (noffset c + ?o) = ?p + (noffset (node_at t1 a) + ?o)"
  proof (intro ballI impI)
    fix c assume "c \<in> set (mChunks t1)" and x: "x \<in> set (tensors c)"
    then obtain j where j: "j < length (mChunks s)" "c = node_at t1 j"
      using eqs(1) by (auto simp: in_set_conv_nth)
    then have "j = a" using assms(10) x eqs(2) by simp
    then show "?p + (noffset c + ?o) = ?p + (noffset (node_at t1 a) + ?o)" using j by simp
  qed
  have ex: "\<exists>c\<in>set (mChunks t1). x \<in> set (tensors c)" using assms(8,9) eqs by (metis nth_mem)
  have "hosts t x = Some (?p + (noffset (node_at t1 a) + ?o))"
    using P fold_apply_chunks [OF only] ex by (simp add: chunk_base_def chunk_offset_def)
  moreover have "noffset (node_at t a) = noffset (node_at t1 a)"
    using apply_keeps(3) [OF ap] assms(8) eqs(1) by simp
  ultimately show ?thesis using P ts by (simp add: add_ac)
qed

text \<open>
  C6. \<open>apply\<close> gives every tensor the address of the chunk it was attached to: the
  buffer's base plus the chunk's offset; and the buffer is as large as the layout.
\<close>

theorem defer_tensor_hosts:
  assumes "defer_run (new_Defer al, Map.empty) ops (s, Map.empty)" and "\<not> mBarrrier s"
    and "defer_compute root s buf w = Some (NO_ERROR, t, buf', w')" and "0 < mTotalSize t"
    and "currentSize buf = 0 \<or> first (current buf) \<noteq> nullptr" and "mNode (current buf) = None"
    and "\<And>n a v. mNode (fst (onAlloc root n a v)) = None"
    and "a < length (mChunks s)" and "x \<in> set (tensors (node_at s a))"
    and "\<And>i. i < length (mChunks s) \<Longrightarrow> x \<in> set (tensors (node_at s i)) \<Longrightarrow> i = a"
  shows "hosts t x = Some (first (current buf') + second (current buf') + noffset (node_at t a)) \<and>
    first (current buf') \<noteq> nullptr \<and> mTotalSize t \<le> currentSize buf'"
proof -
  obtain bs where i: "client_inv s Map.empty bs" by (rule client_inv_reach [OF assms(1)])
  show ?thesis by (rule compute_hosts [OF i assms(2-10)])
qed

definition demo_ops4 :: "DeferCall list" where
  "demo_ops4 = [Alloc 10 False 0, Attach (chunk_of_node 0) 7, Alloc 70 False 0,
     Attach (chunk_of_node 1) 8, Free (chunk_of_node 0), Free (chunk_of_node 1)]"

definition demo_s4 :: Defer where
  "demo_s4 = fst (defer_exec demo_ops4 (new_Defer 64, Map.empty))"

lemma demo_run4: "defer_run (new_Defer 64, Map.empty) demo_ops4 (demo_s4, Map.empty)"
proof -
  have "defer_ok demo_ops4 (new_Defer 64, Map.empty)" by code_simp
  moreover have "snd (defer_exec demo_ops4 (new_Defer 64, Map.empty)) = Map.empty"
    by (simp add: demo_ops4_def exec_simps chunk_attach_def)
  ultimately show ?thesis using defer_exec_run [of demo_ops4] by (metis demo_s4_def prod.collapse)
qed

theorem defer_tensor_hosts_witness:
  "\<exists>t buf'. defer_compute demo_root demo_s4 new_SingleBuffer () = Some (NO_ERROR, t, buf', ()) \<and>
    hosts t 8 = Some (first (current buf') + second (current buf') + noffset (node_at t 1))"
proof -
  have c: "case defer_compute demo_root demo_s4 new_SingleBuffer () of None \<Rightarrow> False
    | Some (code, t, b, w) \<Rightarrow> code = NO_ERROR \<and> 0 < mTotalSize t" by code_simp
  then obtain t b where t: "defer_compute demo_root demo_s4 new_SingleBuffer () = Some (NO_ERROR, t, b, ())"
    "0 < mTotalSize t" by (auto split: option.splits)
  have l: "length (mChunks demo_s4) = 2" "tensors (node_at demo_s4 0) = [7]"
    "tensors (node_at demo_s4 1) = [8]" "\<not> mBarrrier demo_s4" by code_simp+
  have "i = 1" if "i < length (mChunks demo_s4)" "8 \<in> set (tensors (node_at demo_s4 i))" for i
    using that l by (cases i) (auto simp: less_Suc_eq numeral_2_eq_2)
  from defer_tensor_hosts [OF demo_run4 l(4) t _ _ _ _ _ this] l t(1) show ?thesis
    by (fastforce simp: new_SingleBuffer_def null_chunk_def demo_root_def chunk_of_pointer_def)
qed

section \<open>The single buffer\<close>

text \<open>
  A failed growth loses the buffer but not its recorded size: the old memory is
  released, \<open>current\<close> is the null chunk and \<open>currentSize\<close> still says the old size, so
  every later request up to that size reports success with a null buffer.
\<close>

theorem single_realloc_failure_is_forgotten:
  assumes "currentSize b < sz" and "\<And>v. first (fst (onAlloc root sz al v)) = nullptr"
    and "sz' \<le> currentSize b"
  shows "\<exists>b1 w1. single_realloc root sz al b w = (OUT_OF_MEMORY, b1, w1) \<and> first (current b1) = nullptr \<and>
    single_realloc root sz' al b1 w1 = (NO_ERROR, b1, w1)"
proof -
  obtain c w2 where c: "onAlloc root sz al (if first (current b) \<noteq> nullptr then onRelease root (current b) w else w) = (c, w2)"
    by (cases "onAlloc root sz al (if first (current b) \<noteq> nullptr then onRelease root (current b) w else w)")
  then have "first c = nullptr" using assms(2) by (metis fst_conv)
  then show ?thesis using assms(1,3) c by (auto simp: single_realloc_def Let_def)
qed

text \<open>A parent that can give 64 bytes at most.\<close>

definition small_root :: "unit Allocator" where
  "small_root = \<lparr>onAlloc = (\<lambda>sz al w. (if sz \<le> 64 then chunk_of_pointer 4096 0 else null_chunk, w)),
     onRelease = (\<lambda>c w. w)\<rparr>"

theorem single_realloc_failure_is_forgotten_witness:
  "\<exists>b1 w1. single_realloc small_root 128 64 \<lparr>current = chunk_of_pointer 4096 0, currentSize = 64\<rparr> () =
      (OUT_OF_MEMORY, b1, w1) \<and> first (current b1) = nullptr \<and>
    single_realloc small_root 32 64 b1 w1 = (NO_ERROR, b1, w1)"
  by (rule single_realloc_failure_is_forgotten) (simp_all add: small_root_def null_chunk_def)

end
