(* ===== verification/Float32.thy ===== *)
theory Float32
  imports Prelude Complex_Main
begin

text \<open>
  Single precision arithmetic, as far as the shape computers use it: a \<open>float\<close> is a
  rational, an operation rounds the exact result to 24 significant bits, ties to even.
  Overflow, infinities and subnormals are not modelled. The shape code divides extents
  as floats and takes \<open>ceil\<close>; the lemmas say when that is the exact quotient.
\<close>

section \<open>Rounding\<close>

function flog2 :: "int \<Rightarrow> int" where
  "flog2 n = (if n < 2 then 0 else 1 + flog2 (n div 2))"
  by pat_completeness auto
termination by (relation "measure nat") auto

declare flog2.simps [simp del]

definition pow2 :: "int \<Rightarrow> rat" where
  "pow2 k = (if k < 0 then 1 / 2 ^ nat (- k) else 2 ^ nat k)"

definition round_half_even :: "rat \<Rightarrow> int" where
  "round_half_even x =
     (let f = \<lfloor>x\<rfloor>; d = x - of_int f
      in if d < 1 / 2 then f else if d > 1 / 2 then f + 1 else if even f then f else f + 1)"

text \<open>The exponent \<open>k\<close> with \<open>2^k \<le> x < 2^(k+1)\<close>, for positive \<open>x\<close>.\<close>

definition f32_exp :: "rat \<Rightarrow> int" where
  "f32_exp x = (case quotient_of x of (a, b) \<Rightarrow>
     let k = flog2 a - flog2 b in if x < pow2 k then k - 1 else k)"

definition f32 :: "rat \<Rightarrow> rat" where
  "f32 x = (if x = 0 then 0
     else let u = pow2 (f32_exp \<bar>x\<bar> - 23) in of_int (round_half_even (x / u)) * u)"

definition f32_div :: "rat \<Rightarrow> rat \<Rightarrow> rat" where
  "f32_div x y = f32 (x / y)"

definition f32_mul :: "rat \<Rightarrow> rat \<Rightarrow> rat" where
  "f32_mul x y = f32 (x * y)"

definition f32_sub :: "rat \<Rightarrow> rat \<Rightarrow> rat" where
  "f32_sub x y = f32 (x - y)"

text \<open>The conversion of a \<open>float\<close> to \<open>int\<close> drops the fraction.\<close>

definition f32_to_int :: "rat \<Rightarrow> int" where
  "f32_to_int x = (if x < 0 then \<lceil>x\<rceil> else \<lfloor>x\<rfloor>)"

text \<open>\<open>ceil((float)a / (float)b)\<close>\<close>

definition ceil_div_f :: "int \<Rightarrow> int \<Rightarrow> int" where
  "ceil_div_f a b = \<lceil>f32_div (f32 (of_int a)) (f32 (of_int b))\<rceil>"

section \<open>Exactness\<close>

lemma pow2_pos [simp]: "0 < pow2 k"
  by (simp add: pow2_def)

lemma pow2_add: "pow2 (i + j) = pow2 i * pow2 j"
proof -
  have *: "pow2 k = 2 powi k" for k
    by (simp add: pow2_def power_int_def field_simps)
  show ?thesis unfolding * by (rule power_int_add) simp
qed

lemma pow2_Suc: "pow2 (k + 1) = 2 * pow2 k"
  by (simp add: pow2_add pow2_def [of 1])

lemma flog2_nonneg: "0 \<le> flog2 n"
  by (induction n rule: flog2.induct) (subst flog2.simps, simp)

lemma flog2_bounds: "0 < n \<Longrightarrow> pow2 (flog2 n) \<le> of_int n \<and> of_int n < pow2 (flog2 n + 1)"
proof (induction n rule: flog2.induct)
  case (1 n)
  show ?case
  proof (cases "n < 2")
    case True
    then have "n = 1" using 1(2) by simp
    then show ?thesis by (simp add: flog2.simps pow2_def)
  next
    case False
    then have IH: "pow2 (flog2 (n div 2)) \<le> of_int (n div 2)" "of_int (n div 2) < pow2 (flog2 (n div 2) + 1)"
      using 1 by auto
    have f: "flog2 n = flog2 (n div 2) + 1" using False by (simp add: flog2.simps [of n])
    have "2 * (n div 2) \<le> n" "n \<le> 2 * (n div 2) + 1" by presburger+
    then have "(of_int (2 * (n div 2)) :: rat) \<le> of_int n" "of_int n \<le> (of_int (2 * (n div 2) + 1) :: rat)"
      by (simp_all only: of_int_le_iff)
    then have a: "2 * of_int (n div 2) \<le> (of_int n :: rat)" and b: "of_int n \<le> (2 * of_int (n div 2) + 1 :: rat)"
      by simp_all
    have "\<exists>p :: int. pow2 (flog2 (n div 2) + 1) = of_int p"
      using flog2_nonneg [of "n div 2"] by (intro exI [of _ "2 ^ nat (flog2 (n div 2) + 1)"]) (simp add: pow2_def)
    then obtain p :: int where p: "pow2 (flog2 (n div 2) + 1) = of_int p" by blast
    then have "n div 2 < p" using IH(2) by simp
    then have "n div 2 + 1 \<le> p" by simp
    then have "(of_int (n div 2 + 1) :: rat) \<le> of_int p" by (simp only: of_int_le_iff)
    then have "of_int (n div 2) + 1 \<le> pow2 (flog2 (n div 2) + 1)" unfolding p by simp
    then show ?thesis using IH(1) a b unfolding f pow2_Suc by linarith
  qed
qed

lemma f32_exp_bounds: "0 < x \<Longrightarrow> pow2 (f32_exp x) \<le> x \<and> x < pow2 (f32_exp x + 1)"
proof -
  assume x: "0 < x"
  obtain a b where q: "quotient_of x = (a, b)" by force
  have b: "0 < b" using quotient_of_denom_pos [OF q] .
  have xe: "x = of_int a / of_int b" using quotient_of_div [OF q] .
  have a: "0 < a" using x b unfolding xe by (simp add: zero_less_divide_iff)
  define k where "k = flog2 a - flog2 b"
  note A = flog2_bounds [OF a] and B = flog2_bounds [OF b]
  have s: "pow2 k * pow2 (flog2 b) = pow2 (flog2 a)" unfolding k_def pow2_add [symmetric] by simp
  have "x < pow2 (k + 1)"
  proof -
    have "of_int a < 2 * (pow2 k * pow2 (flog2 b))" using A by (simp add: s pow2_Suc)
    also have "\<dots> \<le> 2 * (pow2 k * of_int b)" using B by (intro mult_left_mono) (auto simp: less_imp_le)
    finally show ?thesis unfolding xe using b by (simp add: pow2_Suc divide_less_eq mult_ac)
  qed
  moreover have "pow2 (k - 1) \<le> x"
  proof -
    have h: "2 * pow2 (k - 1) = pow2 k" using pow2_Suc [of "k - 1"] by simp
    have "pow2 (k - 1) * of_int b \<le> pow2 (k - 1) * (2 * pow2 (flog2 b))"
      using B by (intro mult_left_mono) (auto simp: pow2_Suc less_imp_le)
    also have "\<dots> = pow2 (flog2 a)" using s h by (simp add: mult_ac)
    also have "\<dots> \<le> of_int a" using A by simp
    finally show ?thesis unfolding xe using b by (simp add: le_divide_eq)
  qed
  ultimately show ?thesis unfolding f32_exp_def q by (simp add: k_def [symmetric] Let_def)
qed

lemma round_half_even_error: "\<bar>of_int (round_half_even x) - x\<bar> \<le> 1 / 2"
proof -
  have "of_int \<lfloor>x\<rfloor> \<le> x" "x < of_int \<lfloor>x\<rfloor> + 1" by linarith+
  then show ?thesis by (auto simp: round_half_even_def Let_def abs_le_iff)
qed

lemma round_half_even_int [simp]: "round_half_even (of_int n) = n"
  by (simp add: round_half_even_def)

lemma f32_error: "\<bar>f32 x - x\<bar> \<le> \<bar>x\<bar> / 2 ^ 24"
proof (cases "x = 0")
  case True
  then show ?thesis by (simp add: f32_def)
next
  case False
  define u where "u = pow2 (f32_exp \<bar>x\<bar> - 23)"
  have u: "0 < u" by (simp add: u_def)
  have "pow2 (f32_exp \<bar>x\<bar>) \<le> \<bar>x\<bar>" using f32_exp_bounds [of "\<bar>x\<bar>"] False by simp
  moreover have "u * 2 ^ 23 = pow2 (f32_exp \<bar>x\<bar>)"
    using pow2_add [of "f32_exp \<bar>x\<bar> - 23" 23] by (simp add: u_def pow2_def [of 23])
  ultimately have ub: "u * 2 ^ 23 \<le> \<bar>x\<bar>" by simp
  have "f32 x - x = (of_int (round_half_even (x / u)) - x / u) * u"
    using False u by (simp add: f32_def u_def [symmetric] Let_def algebra_simps)
  then have "\<bar>f32 x - x\<bar> = \<bar>of_int (round_half_even (x / u)) - x / u\<bar> * u"
    using u by (simp add: abs_mult)
  also have "\<dots> \<le> 1 / 2 * u" using round_half_even_error u by (intro mult_right_mono) (auto simp: less_imp_le)
  finally show ?thesis using ub by simp
qed

lemma f32_int: "\<bar>n\<bar> < 2 ^ 24 \<Longrightarrow> f32 (of_int n) = of_int n"
proof (cases "n = 0")
  case True
  then show ?thesis by (simp add: f32_def)
next
  case False
  assume n: "\<bar>n\<bar> < 2 ^ 24"
  define k where "k = f32_exp \<bar>of_int n\<bar>"
  have p: "0 < \<bar>of_int n :: rat\<bar>" using False by simp
  have "pow2 k \<le> of_int \<bar>n\<bar>" using f32_exp_bounds [OF p] by (simp add: k_def)
  also have "\<dots> < of_int (2 ^ 24)" using n by (simp only: of_int_less_iff)
  finally have "pow2 k < 2 ^ 24" by simp
  then have k: "k \<le> 23"
  proof -
    { assume "k > 23"
      then have "pow2 k = 2 ^ nat k" by (simp add: pow2_def)
      moreover have "(2::rat) ^ 24 \<le> 2 ^ nat k" using \<open>k > 23\<close> by (intro power_increasing) auto
      ultimately have False using \<open>pow2 k < 2 ^ 24\<close> by simp }
    then show ?thesis by force
  qed
  have "pow2 (23 - k) * pow2 (k - 23) = 1" by (simp add: pow2_add [symmetric] pow2_def)
  then have "1 / pow2 (k - 23) = pow2 (23 - k)"
    using pow2_pos [of "k - 23"] by (subst divide_eq_eq) (simp_all add: less_le)
  then have "of_int n / pow2 (k - 23) = of_int n * pow2 (23 - k)"
    by (metis mult.right_neutral times_divide_eq_right)
  also have "\<dots> = of_int (n * 2 ^ nat (23 - k))" using k by (simp add: pow2_def)
  finally have "round_half_even (of_int n / pow2 (k - 23)) = n * 2 ^ nat (23 - k)"
    by (simp only: round_half_even_int)
  moreover have "(2 :: rat) ^ nat (23 - k) * pow2 (k - 23) = 1"
    using \<open>pow2 (23 - k) * pow2 (k - 23) = 1\<close> k by (simp add: pow2_def)
  ultimately show ?thesis using False
    by (simp add: f32_def Let_def k_def [symmetric] mult.assoc)
qed

text \<open>A quotient that is not an integer is at least one denominator away from every integer.\<close>

lemma quotient_gap:
  fixes a b z :: int
  assumes "0 < b" and "of_int a / of_int b \<noteq> (of_int z :: rat)"
  shows "1 / of_int b \<le> \<bar>of_int a / of_int b - (of_int z :: rat)\<bar>"
proof -
  have "a - z * b \<noteq> 0" using assms by auto
  then have "1 \<le> \<bar>a - z * b\<bar>" by simp
  then have "(1::rat) \<le> of_int \<bar>a - z * b\<bar>" by (metis of_int_1 of_int_le_iff)
  moreover have "\<bar>of_int a / of_int b - (of_int z :: rat)\<bar> = of_int \<bar>a - z * b\<bar> / of_int b"
  proof -
    have "of_int a / of_int b - (of_int z :: rat) = of_int (a - z * b) / of_int b"
      using assms(1) by (simp add: field_simps)
    then show ?thesis using assms(1) by (simp add: abs_divide)
  qed
  ultimately show ?thesis using assms(1) by (simp add: divide_right_mono)
qed

lemma ceil_div_f_exact:
  assumes "\<bar>a\<bar> < 2 ^ 24" and "0 < b" and "b < 2 ^ 24"
  shows "ceil_div_f a b = - ((- a) div b)"
proof -
  define q :: rat where "q = of_int a / of_int b"
  have f: "ceil_div_f a b = \<lceil>f32 q\<rceil>"
    using assms by (simp add: ceil_div_f_def f32_div_def f32_int q_def)
  have c: "\<lceil>q\<rceil> = - ((- a) div b)"
    unfolding q_def ceiling_def
    by (metis floor_divide_of_int_eq of_int_minus minus_divide_left)
  have "\<lceil>f32 q\<rceil> = \<lceil>q\<rceil>"
  proof (cases "q = of_int \<lceil>q\<rceil>")
    case True
    have "\<bar>q\<bar> \<le> of_int \<bar>a\<bar>"
    proof -
      have "\<bar>q\<bar> = of_int \<bar>a\<bar> / of_int b" using assms(2) by (simp add: q_def abs_divide)
      also have "\<dots> \<le> of_int \<bar>a\<bar> / 1" using assms(2) by (intro divide_left_mono) auto
      finally show ?thesis by simp
    qed
    then have "(of_int \<bar>\<lceil>q\<rceil>\<bar> :: rat) \<le> of_int \<bar>a\<bar>" using True by (metis of_int_abs)
    then have "\<bar>\<lceil>q\<rceil>\<bar> < 2 ^ 24" using assms(1) by (simp only: of_int_le_iff)
    then have "f32 q = q" using f32_int True by metis
    then show ?thesis by simp
  next
    case False
    have a0: "a \<noteq> 0" using False by (auto simp: q_def)
    have err: "\<bar>f32 q - q\<bar> < 1 / of_int b"
    proof -
      have "\<bar>q\<bar> / 2 ^ 24 = of_int \<bar>a\<bar> / 2 ^ 24 / of_int b" using assms(2) by (simp add: q_def abs_divide)
      moreover have "of_int \<bar>a\<bar> / 2 ^ 24 < (1::rat)"
      proof -
        have "(of_int \<bar>a\<bar> :: rat) < of_int (2 ^ 24)" using assms(1) by (simp only: of_int_less_iff)
        then show ?thesis by simp
      qed
      moreover have "of_int \<bar>a\<bar> / 2 ^ 24 / of_int b < (1::rat) / of_int b"
        by (rule divide_strict_right_mono [OF calculation(2)]) (use assms(2) in simp)
      ultimately have "\<bar>q\<bar> / 2 ^ 24 < 1 / of_int b" by (simp only:)
      then show ?thesis using f32_error [of q] by linarith
    qed
    have ni: "q \<noteq> of_int z" for z using False by auto
    have g1: "1 / of_int b \<le> \<bar>q - of_int \<lceil>q\<rceil>\<bar>" and g2: "1 / of_int b \<le> \<bar>q - of_int (\<lceil>q\<rceil> - 1)\<bar>"
      using quotient_gap [OF assms(2)] ni unfolding q_def by blast+
    have "of_int \<lceil>q\<rceil> - 1 < q" "q \<le> of_int \<lceil>q\<rceil>" by linarith+
    then have "of_int \<lceil>q\<rceil> - 1 < f32 q \<and> f32 q < of_int \<lceil>q\<rceil>"
      using g1 g2 err unfolding of_int_diff of_int_1 by linarith
    then show ?thesis by (intro ceiling_unique) auto
  qed
  with f c show ?thesis by simp
qed

lemma ceil_div_f_pos:
  assumes "0 \<le> a" and "a < 2 ^ 24" and "0 < b" and "b < 2 ^ 24"
  shows "ceil_div_f a b = UP_DIV_i a b"
proof -
  have "- ((- a) div b) = (a + b - 1) div b"
  proof -
    have "(a + b - 1) div b = (a - 1) div b + 1"
      using div_add_self2 [of b "a - 1"] assms(3) by (simp add: algebra_simps)
    moreover have "- a = b * (- ((a - 1) div b) - 1) + (b - 1 - (a - 1) mod b)"
      using mult_div_mod_eq [of b "a - 1"] by (simp add: algebra_simps)
    then have "(- a) div b = - ((a - 1) div b) - 1"
      using pos_mod_bound [OF assms(3), of "a - 1"] pos_mod_sign [OF assms(3), of "a - 1"]
      by (intro int_div_pos_eq [of _ _ _ "b - 1 - (a - 1) mod b"]) linarith+
    ultimately show ?thesis by simp
  qed
  then show ?thesis using assms ceil_div_f_exact [of a b] by (simp add: UP_DIV_i_def cdiv_nonneg)
qed

end
