(* ===== verification/Tensor_Model.thy ===== *)
theory Tensor_Model
  imports Float32
begin

text \<open>
  \<open>Tensor\<close> as the shape computers see it: \<open>halide_buffer_t\<close>'s \<open>dimensions\<close>, \<open>dim\<close>
  and \<open>type\<close> (include/MNN/HalideRuntime.h), the format and the tensor array attribute
  of \<open>NativeInsideDescribe\<close> (source/core/TensorUtils.hpp), and the content behind
  \<open>host<int32_t>()\<close> and \<open>host<float>()\<close>.

  \<open>dim\<close> is a fixed array of \<open>MNN_MAX_TENSOR_DIM\<close> entries of which the first
  \<open>dimensions\<close> count; entries beyond keep whatever was written before. Here it is a
  function of the index (an access outside the array is undefined in C++ and is not
  given a meaning by any lemma), with \<open>extent\<close> and \<open>stride\<close> as separate fields; the
  unused \<open>min\<close> and \<open>flags\<close> are left out. C's \<open>int\<close> is \<open>int\<close>: extents and element
  counts are assumed to fit, as signed overflow is undefined in C++.
\<close>

section \<open>Types\<close>

datatype MNN_DATA_FORMAT = FMT_NCHW | FMT_NHWC | FMT_NC4HW4 | FMT_NHWC4 | FMT_UNKNOWN

datatype halide_type_code = halide_type_int | halide_type_uint | halide_type_float
  | halide_type_handle | halide_type_bfloat

record halide_type =
  tcode :: halide_type_code
  tbits :: int

definition halide_type_t :: "halide_type_code \<Rightarrow> int \<Rightarrow> halide_type" where
  "halide_type_t c b = \<lparr>tcode = c, tbits = b\<rparr>"

abbreviation "type_float \<equiv> halide_type_t halide_type_float 32"
abbreviation "type_int32 \<equiv> halide_type_t halide_type_int 32"
abbreviation "type_int8 \<equiv> halide_type_t halide_type_int 8"
abbreviation "type_uint8 \<equiv> halide_type_t halide_type_uint 8"

definition type_bytes :: "halide_type \<Rightarrow> int" where
  "type_bytes t = cdiv (tbits t + 7) 8"

datatype DataType = DT_INVALID | DT_FLOAT | DT_DOUBLE | DT_INT32 | DT_UINT8 | DT_INT16
  | DT_INT8 | DT_STRING | DT_COMPLEX64 | DT_INT64 | DT_BOOL | DT_QINT8 | DT_QUINT8
  | DT_QINT32 | DT_BFLOAT16 | DT_QINT16 | DT_QUINT16 | DT_UINT16 | DT_COMPLEX128
  | DT_HALF | DT_RESOURCE | DT_VARIANT

record TensorArrayAttr =
  isDynamicSize :: bool
  isIdenticalShape :: bool
  arraySize :: int
  elemShape :: "int list list"

record Tensor =
  dimensions :: int
  extent :: "int \<Rightarrow> int"
  stride :: "int \<Rightarrow> int"
  ttype :: halide_type
  dimensionFormat :: MNN_DATA_FORMAT
  ihost :: "int list option"
  fhost :: "rat list option"
  tensorArrayAttr :: "TensorArrayAttr option"

definition MNN_MAX_TENSOR_DIM :: int where
  "MNN_MAX_TENSOR_DIM = 9"

text \<open>A tensor with the given extents, for examples.\<close>

definition tensor_of :: "MNN_DATA_FORMAT \<Rightarrow> int list \<Rightarrow> Tensor" where
  "tensor_of f ds = \<lparr>dimensions = int (length ds), extent = (\<lambda>i. if 0 \<le> i \<and> i < int (length ds) then ds ! nat i else 0),
     stride = (\<lambda>i. 0), ttype = type_float, dimensionFormat = f, ihost = None, fhost = None,
     tensorArrayAttr = None\<rparr>"

definition int_tensor :: "int list \<Rightarrow> Tensor" where
  "int_tensor vs = (tensor_of FMT_NCHW [int (length vs)])\<lparr>ttype := type_int32, ihost := Some vs\<rparr>"

section \<open>Accessors\<close>

text \<open>\<open>shape()\<close>: the extents that count, in order.\<close>

definition shape :: "Tensor \<Rightarrow> int list" where
  "shape t = map (extent t) [0..dimensions t - 1]"

definition setLength :: "int \<Rightarrow> int \<Rightarrow> Tensor \<Rightarrow> Tensor" where
  "setLength i v t = t\<lparr>extent := (extent t)(i := v)\<rparr>"

definition setDimensions :: "int \<Rightarrow> Tensor \<Rightarrow> Tensor" where
  "setDimensions n t = t\<lparr>dimensions := n\<rparr>"

definition setFormat :: "MNN_DATA_FORMAT \<Rightarrow> Tensor \<Rightarrow> Tensor" where
  "setFormat f t = t\<lparr>dimensionFormat := f\<rparr>"

definition setHalideType :: "halide_type \<Rightarrow> Tensor \<Rightarrow> Tensor" where
  "setHalideType h t = t\<lparr>ttype := h\<rparr>"

text \<open>\<open>getDimensionType() == TENSORFLOW\<close> exactly for NHWC.\<close>

definition width :: "Tensor \<Rightarrow> int" where
  "width t = (if dimensionFormat t = FMT_NHWC then extent t 2 else extent t 3)"

definition height :: "Tensor \<Rightarrow> int" where
  "height t = (if dimensionFormat t = FMT_NHWC then extent t 1 else extent t 2)"

definition channel :: "Tensor \<Rightarrow> int" where
  "channel t = (if dimensionFormat t = FMT_NHWC then extent t 3 else extent t 1)"

definition batch :: "Tensor \<Rightarrow> int" where
  "batch t = extent t 0"

definition setType :: "DataType \<Rightarrow> Tensor \<Rightarrow> Tensor" where
  "setType d t = (case d of
     DT_DOUBLE \<Rightarrow> setHalideType type_float t
   | DT_FLOAT \<Rightarrow> setHalideType type_float t
   | DT_BFLOAT16 \<Rightarrow> setHalideType (halide_type_t halide_type_bfloat 16) t
   | DT_QINT32 \<Rightarrow> setHalideType type_int32 t
   | DT_INT32 \<Rightarrow> setHalideType type_int32 t
   | DT_BOOL \<Rightarrow> setHalideType type_int32 t
   | DT_INT64 \<Rightarrow> setHalideType type_int32 t
   | DT_QINT8 \<Rightarrow> setHalideType type_int8 t
   | DT_INT8 \<Rightarrow> setHalideType type_int8 t
   | DT_QUINT8 \<Rightarrow> setHalideType type_uint8 t
   | DT_UINT8 \<Rightarrow> setHalideType type_uint8 t
   | DT_QUINT16 \<Rightarrow> setHalideType (halide_type_t halide_type_uint 16) t
   | DT_UINT16 \<Rightarrow> setHalideType (halide_type_t halide_type_uint 16) t
   | DT_QINT16 \<Rightarrow> setHalideType (halide_type_t halide_type_int 16) t
   | DT_INT16 \<Rightarrow> setHalideType (halide_type_t halide_type_int 16) t
   | _ \<Rightarrow> t)"

section \<open>Loops\<close>

text \<open>
  \<open>for (int i = a; i < b; ++i) body\<close>, with the variables the body assigns as the state;
  \<open>for_check\<close> is a loop whose body may \<open>return false\<close>.
\<close>

definition for_loop :: "int \<Rightarrow> int \<Rightarrow> (int \<Rightarrow> 's \<Rightarrow> 's) \<Rightarrow> 's \<Rightarrow> 's" where
  "for_loop a b f s = fold f [a..b - 1] s"

primrec foldM :: "('a \<Rightarrow> 's \<Rightarrow> 's option) \<Rightarrow> 'a list \<Rightarrow> 's \<Rightarrow> 's option" where
  "foldM f [] s = Some s"
| "foldM f (x # xs) s = (case f x s of None \<Rightarrow> None | Some s' \<Rightarrow> foldM f xs s')"

definition for_check :: "int \<Rightarrow> int \<Rightarrow> (int \<Rightarrow> 's \<Rightarrow> 's option) \<Rightarrow> 's \<Rightarrow> 's option" where
  "for_check a b f s = foldM f [a..b - 1] s"

text \<open>\<open>output.dim[j++].extent = v\<close>, with \<open>j\<close> and the output as the state.\<close>

definition push_dim :: "int \<Rightarrow> int \<times> Tensor \<Rightarrow> int \<times> Tensor" where
  "push_dim v = (\<lambda>(j, t). (j + 1, setLength j v t))"

definition usize :: "Tensor \<Rightarrow> int" where
  "usize t = for_loop 0 (dimensions t)
     (\<lambda>i dataSize. dataSize *
        (if dimensionFormat t = FMT_NC4HW4 \<and> i = 1 then ROUND_UP_i (extent t i) 4 else extent t i))
     (type_bytes (ttype t))"

definition elementSize :: "Tensor \<Rightarrow> int" where
  "elementSize t = cdiv (usize t) (type_bytes (ttype t))"

definition host_int :: "Tensor \<Rightarrow> int \<Rightarrow> int" where
  "host_int t i = the (ihost t) ! nat i"

definition host_float :: "Tensor \<Rightarrow> int \<Rightarrow> rat" where
  "host_float t i = the (fhost t) ! nat i"

section \<open>Shape utilities of \<open>TensorUtils\<close>\<close>

text \<open>\<open>memcpy(output.dim, input.dim, n * sizeof(halide_dimension_t))\<close>\<close>

definition copy_dims :: "int \<Rightarrow> Tensor \<Rightarrow> Tensor \<Rightarrow> Tensor" where
  "copy_dims n src dst = dst\<lparr>extent := (\<lambda>i. if 0 \<le> i \<and> i < n then extent src i else extent dst i),
     stride := (\<lambda>i. if 0 \<le> i \<and> i < n then stride src i else stride dst i)\<rparr>"

definition adjustTensorForCompability :: "Tensor \<Rightarrow> Tensor" where
  "adjustTensorForCompability t =
     (if dimensions t < 4 then for_loop (dimensions t) 4 (\<lambda>n. setLength n 1) t else t)"

text \<open>With \<open>copyRef = false\<close>, the only way the shape computers call it.\<close>

definition copyShape :: "Tensor \<Rightarrow> Tensor \<Rightarrow> bool \<Rightarrow> Tensor" where
  "copyShape source dest copyFormat =
     (let d1 = setDimensions (dimensions source) dest;
          d2 = copy_dims (dimensions source) source d1;
          d3 = (if copyFormat then setFormat (dimensionFormat source) d2 else d2)
      in adjustTensorForCompability d3)"

definition setShape :: "Tensor \<Rightarrow> int list \<Rightarrow> Tensor" where
  "setShape dest alldims =
     snd (fold (\<lambda>i (st, t). (st * (alldims ! nat i),
              setLength i (alldims ! nat i) (t\<lparr>stride := (stride t)(i := st)\<rparr>)))
            (rev [0..int (length alldims) - 1])
            (1, setDimensions (int (length alldims)) dest))"

definition setLinearLayout :: "Tensor \<Rightarrow> Tensor" where
  "setLinearLayout tensor =
     snd (for_loop 0 (dimensions tensor)
       (\<lambda>i (sz, t). let index = dimensions t - i - 1;
                        ext = (if index = 1 \<and> dimensionFormat t = FMT_NC4HW4
                               then ROUND_UP_i (extent t index) 4 else extent t index)
                    in (sz * ext, t\<lparr>stride := (stride t)(index := sz)\<rparr>))
       (1, tensor))"

definition getRawSize :: "Tensor \<Rightarrow> int" where
  "getRawSize t = for_loop 0 (dimensions t) (\<lambda>i len. len * extent t i) 1"

section \<open>Facts on extents\<close>

lemma foldM_append: "foldM f (xs @ ys) s = (case foldM f xs s of None \<Rightarrow> None | Some t \<Rightarrow> foldM f ys t)"
  by (induction xs arbitrary: s) (auto split: option.splits)

lemmas tensor_defs = setLength_def setDimensions_def setFormat_def setHalideType_def copy_dims_def

lemma setLength_sel [simp]:
  "extent (setLength i v t) = (extent t)(i := v)" "dimensions (setLength i v t) = dimensions t"
  "ttype (setLength i v t) = ttype t" "dimensionFormat (setLength i v t) = dimensionFormat t"
  "ihost (setLength i v t) = ihost t" "stride (setLength i v t) = stride t"
  "tensorArrayAttr (setLength i v t) = tensorArrayAttr t"
  by (simp_all add: setLength_def)

lemma setDimensions_sel [simp]:
  "extent (setDimensions n t) = extent t" "dimensions (setDimensions n t) = n"
  "ttype (setDimensions n t) = ttype t" "dimensionFormat (setDimensions n t) = dimensionFormat t"
  "ihost (setDimensions n t) = ihost t" "stride (setDimensions n t) = stride t"
  "tensorArrayAttr (setDimensions n t) = tensorArrayAttr t"
  by (simp_all add: setDimensions_def)

lemma setFormat_sel [simp]:
  "extent (setFormat f t) = extent t" "dimensions (setFormat f t) = dimensions t"
  "ttype (setFormat f t) = ttype t" "dimensionFormat (setFormat f t) = f"
  "ihost (setFormat f t) = ihost t" "stride (setFormat f t) = stride t"
  "tensorArrayAttr (setFormat f t) = tensorArrayAttr t"
  by (simp_all add: setFormat_def)

lemma setHalideType_sel [simp]:
  "extent (setHalideType h t) = extent t" "dimensions (setHalideType h t) = dimensions t"
  "ttype (setHalideType h t) = h" "dimensionFormat (setHalideType h t) = dimensionFormat t"
  "ihost (setHalideType h t) = ihost t" "stride (setHalideType h t) = stride t"
  "tensorArrayAttr (setHalideType h t) = tensorArrayAttr t"
  by (simp_all add: setHalideType_def)

lemma setType_sel [simp]:
  "extent (setType d t) = extent t" "dimensions (setType d t) = dimensions t"
  "dimensionFormat (setType d t) = dimensionFormat t" "ihost (setType d t) = ihost t"
  "tensorArrayAttr (setType d t) = tensorArrayAttr t"
  by (cases d; simp add: setType_def)+

lemma copy_dims_sel [simp]:
  "extent (copy_dims n s t) = (\<lambda>i. if 0 \<le> i \<and> i < n then extent s i else extent t i)"
  "dimensions (copy_dims n s t) = dimensions t" "ttype (copy_dims n s t) = ttype t"
  "dimensionFormat (copy_dims n s t) = dimensionFormat t" "ihost (copy_dims n s t) = ihost t"
  by (simp_all add: copy_dims_def)

text \<open>Two tensors have the same shape when the extents that count agree.\<close>

lemma shape_eqI:
  "dimensions t = dimensions u \<Longrightarrow> (\<And>i. 0 \<le> i \<Longrightarrow> i < dimensions u \<Longrightarrow> extent t i = extent u i) \<Longrightarrow> shape t = shape u"
  by (simp add: shape_def)

lemma length_shape [simp]: "length (shape t) = nat (dimensions t)"
  by (simp add: shape_def)

lemma nth_shape: "0 \<le> i \<Longrightarrow> i < dimensions t \<Longrightarrow> shape t ! nat i = extent t i"
  by (simp add: shape_def nth_upto)

lemma shape_of_map: "dimensions t = int (length vs) \<Longrightarrow>
    (\<And>i. i < length vs \<Longrightarrow> extent t (int i) = vs ! i) \<Longrightarrow> shape t = vs"
  by (rule nth_equalityI) (simp_all add: shape_def nth_upto)

lemma shape_tensor_of [simp]: "shape (tensor_of f ds) = ds"
  by (rule shape_of_map) (simp_all add: tensor_of_def)

lemma tensor_of_sel [simp]: "extent (tensor_of f ds) i = (if 0 \<le> i \<and> i < int (length ds) then ds ! nat i else 0)"
    "dimensions (tensor_of f ds) = int (length ds)"
    "dimensionFormat (tensor_of f ds) = f" "ttype (tensor_of f ds) = type_float"
  by (simp_all add: tensor_of_def)

section \<open>Facts on loops\<close>

lemma for_loop_empty [simp]: "b \<le> a \<Longrightarrow> for_loop a b f s = s"
  by (simp add: for_loop_def)

lemma for_loop_step: "a < b \<Longrightarrow> for_loop a b f s = for_loop (a + 1) b f (f a s)"
  by (simp add: for_loop_def upto_rec1)

lemma for_check_empty [simp]: "b \<le> a \<Longrightarrow> for_check a b f s = Some s"
  by (simp add: for_check_def)

lemma for_check_step:
  "a < b \<Longrightarrow> for_check a b f s = (case f a s of None \<Rightarrow> None | Some t \<Rightarrow> for_check (a + 1) b f t)"
  unfolding for_check_def by (subst upto_rec1) (simp_all split: option.splits)

text \<open>A loop that sets the extent \<open>i\<close> at step \<open>i\<close>.\<close>

lemma fold_setLength:
  "fold (\<lambda>i. setLength i (f i)) xs t = t\<lparr>extent := \<lambda>j. if j \<in> set xs then f j else extent t j\<rparr>"
  by (induction xs arbitrary: t) (auto simp: setLength_def fun_eq_iff)

lemma for_setLength [simp]:
  "for_loop a b (\<lambda>i. setLength i (f i)) t = t\<lparr>extent := \<lambda>j. if a \<le> j \<and> j < b then f j else extent t j\<rparr>"
  by (auto simp: for_loop_def fold_setLength)

text \<open>A loop of \<open>return false\<close> tests and updates that never look at each other.\<close>

lemma foldM_guard:
  "foldM (\<lambda>i s. if P i then Some (f i s) else None) xs s =
     (if \<forall>i\<in>set xs. P i then Some (fold f xs s) else None)"
  by (induction xs arbitrary: s) auto

lemma for_check_guard:
  "for_check a b (\<lambda>i s. if P i then Some (f i s) else None) s =
     (if \<forall>i. a \<le> i \<and> i < b \<longrightarrow> P i then Some (for_loop a b f s) else None)"
  unfolding for_check_def for_loop_def foldM_guard by (rule if_cong) auto

lemma foldM_cong:
  "(\<And>x s. x \<in> set xs \<Longrightarrow> f x s = g x s) \<Longrightarrow> foldM f xs s = foldM g xs s"
  by (induction xs arbitrary: s) (auto split: option.splits)

text \<open>The appended extents of a loop of \<open>push_dim\<close>s, as one list.\<close>

definition push_dims :: "int list \<Rightarrow> int \<times> Tensor \<Rightarrow> int \<times> Tensor" where
  "push_dims vs s = fold push_dim vs s"

lemma push_dims_Nil [simp]: "push_dims [] s = s"
  by (simp add: push_dims_def)

lemma push_dim_push_dims: "push_dim v s = push_dims [v] s"
  by (simp add: push_dims_def)

lemma push_dims_append: "push_dims vs (push_dims us s) = push_dims (us @ vs) s"
  by (simp add: push_dims_def)

lemma fold_push_dims: "fold (\<lambda>i. push_dims (g i)) xs s = push_dims (concat (map g xs)) s"
  by (induction xs arbitrary: s) (simp_all add: push_dims_append)

lemma for_push_dims: "for_loop a b (\<lambda>i. push_dims (g i)) s = push_dims (concat (map g [a..b - 1])) s"
  by (simp add: for_loop_def fold_push_dims)

lemma push_dims_eq:
  "push_dims vs (j, t) = (j + int (length vs),
     t\<lparr>extent := \<lambda>i. if j \<le> i \<and> i < j + int (length vs) then vs ! nat (i - j) else extent t i\<rparr>)"
proof (induction vs arbitrary: j t)
  case Nil
  have "(\<lambda>i. if j \<le> i \<and> i < j + int (length []) then [] ! nat (i - j) else extent t i) = extent t" by auto
  then show ?case by simp
next
  case (Cons v vs)
  have "push_dims (v # vs) (j, t) = push_dims vs (j + 1, setLength j v t)"
    by (simp add: push_dims_def push_dim_def)
  also have "\<dots> = (j + 1 + int (length vs), (setLength j v t)\<lparr>extent := \<lambda>i. if j + 1 \<le> i \<and> i < j + 1 + int (length vs)
      then vs ! nat (i - (j + 1)) else extent (setLength j v t) i\<rparr>)"
    by (rule Cons.IH)
  also have "\<dots> = (j + int (length (v # vs)), t\<lparr>extent := \<lambda>i. if j \<le> i \<and> i < j + int (length (v # vs))
      then (v # vs) ! nat (i - j) else extent t i\<rparr>)"
  proof -
    have "(v # vs) ! nat (i - j) = vs ! nat (i - (j + 1))" if "j < i" for i
    proof -
      have "nat (i - j) = Suc (nat (i - (j + 1)))" using that by simp
      then show ?thesis by simp
    qed
    then show ?thesis by (auto simp: setLength_def fun_eq_iff)
  qed
  finally show ?case .
qed

lemma shape_push_dims:
  "push_dims vs (0, t) = (n, u) \<Longrightarrow> shape (u\<lparr>dimensions := n\<rparr>) = vs"
  unfolding push_dims_eq by (rule shape_of_map) auto

text \<open>Products: \<open>getRawSize\<close>, and \<open>elementSize\<close> outside NC4HW4.\<close>

lemma fold_times: "fold (\<lambda>i acc. acc * f i) xs (c::int) = c * prod_list (map f xs)"
  by (induction xs arbitrary: c) (simp_all add: mult_ac)

lemma for_times: "for_loop a b (\<lambda>i acc. acc * f i) (c::int) = c * prod_list (map f [a..b - 1])"
  by (simp add: for_loop_def fold_times)

lemma getRawSize_prod: "getRawSize t = prod_list (shape t)"
  by (simp add: getRawSize_def for_times shape_def)

lemma cdiv_mult_self [simp]: "b \<noteq> 0 \<Longrightarrow> cdiv (b * a) b = a"
  by (simp add: cdiv_def abs_mult sgn_mult) (cases "0 < b"; cases "0 < a"; cases "a = 0"; simp)

lemma elementSize_prod:
  "dimensionFormat t \<noteq> FMT_NC4HW4 \<Longrightarrow> type_bytes (ttype t) \<noteq> 0 \<Longrightarrow> elementSize t = prod_list (shape t)"
  by (simp add: elementSize_def usize_def for_times shape_def)

lemma int_tensor_sel [simp]:
  "dimensions (int_tensor vs) = 1" "ihost (int_tensor vs) = Some vs" "extent (int_tensor vs) 0 = int (length vs)"
  "ttype (int_tensor vs) = type_int32" "dimensionFormat (int_tensor vs) = FMT_NCHW"
  by (simp_all add: int_tensor_def tensor_of_def)

lemma elementSize_int_tensor [simp]: "elementSize (int_tensor vs) = int (length vs)"
  by (subst elementSize_prod)
    (simp_all add: shape_def type_bytes_def halide_type_t_def cdiv_def)

lemma adjust_sel [simp]:
  "dimensions (adjustTensorForCompability t) = dimensions t" "ttype (adjustTensorForCompability t) = ttype t"
  "dimensionFormat (adjustTensorForCompability t) = dimensionFormat t"
  "i < dimensions t \<Longrightarrow> extent (adjustTensorForCompability t) i = extent t i"
  by (simp_all add: adjustTensorForCompability_def)

lemma copyShape_sel [simp]:
  "dimensions (copyShape s d f) = dimensions s" "ttype (copyShape s d f) = ttype d"
  "dimensionFormat (copyShape s d f) = (if f then dimensionFormat s else dimensionFormat d)"
  by (simp_all add: copyShape_def Let_def)

lemma shape_copyShape [simp]: "shape (copyShape s d f) = shape s"
  by (rule shape_eqI) (simp_all add: copyShape_def Let_def)

lemma shape_cong_sel [simp]:
  "shape (setFormat f t) = shape t" "shape (setHalideType h t) = shape t" "shape (setType d t) = shape t"
  "shape (t\<lparr>ttype := h\<rparr>) = shape t" "shape (t\<lparr>dimensionFormat := f\<rparr>) = shape t"
  by (simp_all add: shape_def)

end
