(* ===== verification/Shape_Broadcast.thy ===== *)
theory Shape_Broadcast
  imports Tensor_Model
begin

text \<open>
  Broadcasting: \<open>SizeComputer::computeBroadCastDims\<close> (source/shape/SizeComputer.cpp),
  its clients ShapeBinaryOp.cpp and ShapeSelect.cpp, ShapeBroadcastTo.cpp, and the batch
  dimensions of ShapeMatMul.cpp with \<open>OpCommonUtils::computeMatMulSize\<close>.

  A computer takes the fields of the op's parameter table it reads, the inputs and the
  outputs as they are, and returns the outputs as it leaves them; \<open>None\<close> is
  \<open>return false\<close>, after which the caller reports \<open>COMPUTE_SIZE_ERROR\<close> and uses no output.
  Inputs and outputs are different tensors. \<open>MNN_ASSERT\<close> is empty in a release build and
  not modelled.
\<close>

section \<open>Invariants of loops that may fail\<close>

lemma foldM_invariant:
  assumes "foldM f xs s = Some t" and "P [] s"
    and "\<And>ys x u v. f x u = Some v \<Longrightarrow> x \<in> set xs \<Longrightarrow> P ys u \<Longrightarrow> P (ys @ [x]) v"
  shows "P xs t"
proof -
  have "P (ps @ xs) t" if "P ps s" "foldM f xs s = Some t"
    "\<And>ys x u v. f x u = Some v \<Longrightarrow> x \<in> set xs \<Longrightarrow> P ys u \<Longrightarrow> P (ys @ [x]) v" for ps
    using that
  proof (induction xs arbitrary: s ps)
    case Nil
    then show ?case by simp
  next
    case (Cons x xs)
    then obtain s' where s': "f x s = Some s'" "foldM f xs s' = Some t" by (auto split: option.splits)
    have "P (ps @ [x]) s'" using Cons.prems(3) [OF s'(1)] Cons.prems(1) by simp
    from Cons.IH [OF this s'(2)] Cons.prems(3) show ?case by simp
  qed
  from this [of "[]"] show ?thesis using assms by simp
qed

lemma foldM_fails:
  assumes "foldM f xs s = None" and "P [] s"
    and "\<And>ys x u v. f x u = Some v \<Longrightarrow> x \<in> set xs \<Longrightarrow> P ys u \<Longrightarrow> P (ys @ [x]) v"
  shows "\<exists>ys x u. x \<in> set xs \<and> set ys \<subseteq> set xs \<and> P ys u \<and> f x u = None"
proof -
  have "\<exists>ys x u. x \<in> set xs \<and> set ys \<subseteq> set ps \<union> set xs \<and> P ys u \<and> f x u = None"
    if "P ps s" "foldM f xs s = None"
      "\<And>ys x u v. f x u = Some v \<Longrightarrow> x \<in> set xs \<Longrightarrow> P ys u \<Longrightarrow> P (ys @ [x]) v" for ps
    using that
  proof (induction xs arbitrary: s ps)
    case Nil
    then show ?case by simp
  next
    case (Cons x xs)
    show ?case
    proof (cases "f x s")
      case None
      then show ?thesis using Cons.prems(1) by (intro exI [of _ ps] exI [of _ x] exI [of _ s]) auto
    next
      case (Some s')
      have "P (ps @ [x]) s'" using Cons.prems(3) [OF Some] Cons.prems(1) by simp
      moreover have "foldM f xs s' = None" using Cons.prems(2) Some by simp
      ultimately obtain ys y u where "y \<in> set xs" "set ys \<subseteq> set (ps @ [x]) \<union> set xs" "P ys u" "f y u = None"
        using Cons.IH [of "ps @ [x]" s'] Cons.prems(3) by (meson list.set_intros(2))
      then show ?thesis by (intro exI [of _ ys] exI [of _ y] exI [of _ u]) auto
    qed
  qed
  from this [of "[]"] show ?thesis using assms by simp
qed

text \<open>A loop whose step \<open>i\<close> reads and writes entry \<open>i\<close> of an array only.\<close>

lemma foldM_pointwise:
  assumes "distinct xs"
  shows "foldM (\<lambda>i a. case g i (a i) of None \<Rightarrow> None | Some v \<Rightarrow> Some (a(i := v))) xs (a :: 'i \<Rightarrow> 'v) =
    (if \<forall>i\<in>set xs. g i (a i) \<noteq> None
     then Some (\<lambda>i. if i \<in> set xs then the (g i (a i)) else a i) else None)"
  using assms
proof (induction xs arbitrary: a)
  case Nil
  then show ?case by simp
next
  case (Cons x xs)
  then have x: "x \<notin> set xs" "distinct xs" by auto
  show ?case
  proof (cases "g x (a x)")
    case None
    then show ?thesis by simp
  next
    case (Some v)
    have "(\<forall>i\<in>set xs. g i ((a(x := v)) i) \<noteq> None) = (\<forall>i\<in>set xs. g i (a i) \<noteq> None)"
      using x(1) by (intro ball_cong) auto
    moreover have "(\<lambda>i. if i \<in> set xs then the (g i ((a(x := v)) i)) else (a(x := v)) i) =
        (\<lambda>i. if i \<in> set (x # xs) then the (g i (a i)) else a i)"
      using x(1) Some by (auto simp: fun_eq_iff)
    moreover have "foldM (\<lambda>i a. case g i (a i) of None \<Rightarrow> None | Some v \<Rightarrow> Some (a(i := v))) (x # xs) a =
        foldM (\<lambda>i a. case g i (a i) of None \<Rightarrow> None | Some v \<Rightarrow> Some (a(i := v))) xs (a(x := v))"
      using Some by simp
    moreover have "(\<forall>i\<in>set (x # xs). g i (a i) \<noteq> None) = (\<forall>i\<in>set xs. g i (a i) \<noteq> None)"
      using Some by simp
    ultimately show ?thesis using Cons.IH [OF x(2), of "a(x := v)"] by presburger
  qed
qed

section \<open>Broadcasting two extents\<close>

definition broadcast_dim :: "int \<Rightarrow> int \<Rightarrow> int option" where
  "broadcast_dim dim1 out =
     (if dim1 \<noteq> out \<and> (dim1 \<noteq> 1 \<and> out \<noteq> 1) then None
      else if dim1 = out then Some out
      else if dim1 \<noteq> out \<and> (dim1 = 1 \<or> out = 1) then Some (out * dim1)
      else None)"

lemma broadcast_dim_eq:
  "broadcast_dim a b = (if a = b \<or> a = 1 then Some b else if b = 1 then Some a else None)"
  by (auto simp: broadcast_dim_def)

section \<open>\<open>computeBroadCastDims\<close>\<close>

definition computeBroadCastDims :: "Tensor list \<Rightarrow> Tensor list \<Rightarrow> Tensor list option" where
  "computeBroadCastDims inputs outputs =
     (let n = int (length inputs);
          (maxDimensions, maxIndex) = for_loop 1 n
            (\<lambda>index (md, mi). if dimensions (inputs ! nat index) > md
                              then (dimensions (inputs ! nat index), index) else (md, mi))
            (dimensions (inputs ! 0), 0);
          outputDims = for_loop 0 maxDimensions
            (\<lambda>i d. d(i := extent (inputs ! nat maxIndex) i)) (\<lambda>i. 0)
      in case for_check 0 n
            (\<lambda>index d. if index = maxIndex then Some d
               else let input1 = inputs ! nat index;
                        diffDimension = maxDimensions - dimensions input1
                    in for_check diffDimension maxDimensions
                         (\<lambda>i d. case broadcast_dim (extent input1 (i - diffDimension)) (d i) of
                                  None \<Rightarrow> None
                                | Some v \<Rightarrow> Some (d(i := v))) d)
            outputDims of
          None \<Rightarrow> None
        | Some d \<Rightarrow> Some (outputs[0 := for_loop 0 maxDimensions (\<lambda>i. setLength i (d i))
                                        (setDimensions maxDimensions (outputs ! 0))]))"

subsection \<open>The rule it implements\<close>

text \<open>
  Extents aligned at the last dimension, missing leading ones read as 1. A result
  position takes an extent that occurs there, and every other extent there is that or 1.
\<close>

definition aligned :: "int \<Rightarrow> Tensor \<Rightarrow> int \<Rightarrow> int" where
  "aligned n t i = (if i < n - dimensions t then 1 else extent t (i - (n - dimensions t)))"

definition broadcast_at :: "int \<Rightarrow> Tensor set \<Rightarrow> int \<Rightarrow> int \<Rightarrow> bool" where
  "broadcast_at n T i v \<longleftrightarrow> (\<forall>u\<in>T. aligned n u i = 1 \<or> aligned n u i = v) \<and> (\<exists>u\<in>T. aligned n u i = v)"

definition conflict_at :: "int \<Rightarrow> Tensor set \<Rightarrow> int \<Rightarrow> bool" where
  "conflict_at n T i \<longleftrightarrow> (\<exists>u\<in>T. \<exists>v\<in>T. aligned n u i \<noteq> aligned n v i \<and> aligned n u i \<noteq> 1 \<and> aligned n v i \<noteq> 1)"

lemma broadcast_at_conflict: "broadcast_at n T i v \<Longrightarrow> \<not> conflict_at n T i"
  unfolding broadcast_at_def conflict_at_def by metis

lemma broadcast_at_insert:
  assumes "broadcast_at n T i v"
  shows "broadcast_dim (aligned n t i) v = Some w \<Longrightarrow> broadcast_at n (insert t T) i w"
    and "broadcast_dim (aligned n t i) v = None \<Longrightarrow> conflict_at n (insert t T) i"
proof -
  have v: "\<forall>u\<in>T. aligned n u i = 1 \<or> aligned n u i = v" "\<exists>u\<in>T. aligned n u i = v"
    using assms by (simp_all add: broadcast_at_def)
  show "broadcast_dim (aligned n t i) v = Some w \<Longrightarrow> broadcast_at n (insert t T) i w"
    using v by (cases "v = 1") (auto simp: broadcast_at_def broadcast_dim_eq split: if_splits)
  show "broadcast_dim (aligned n t i) v = None \<Longrightarrow> conflict_at n (insert t T) i"
    using v(2) by (auto simp: conflict_at_def broadcast_dim_eq split: if_splits)
qed

lemma max_loop:
  assumes "inputs \<noteq> []"
  defines "r \<equiv> for_loop 1 (int (length inputs))
            (\<lambda>index (md, mi). if dimensions (inputs ! nat index) > md
                              then (dimensions (inputs ! nat index), index) else (md, mi))
            (dimensions (inputs ! 0), 0)"
  shows "0 \<le> snd r" "snd r < int (length inputs)" "fst r = dimensions (inputs ! nat (snd r))"
    "\<And>u. u \<in> set inputs \<Longrightarrow> dimensions u \<le> fst r"
proof -
  let ?f = "\<lambda>index (md, mi). if dimensions (inputs ! nat index) > md
                              then (dimensions (inputs ! nat index), index) else (md, mi :: int)"
  have "(\<forall>x\<in>set xs. 0 \<le> x \<and> x < int (length inputs)) \<Longrightarrow> 0 \<le> mi \<and> mi < int (length inputs) \<Longrightarrow>
      md = dimensions (inputs ! nat mi) \<Longrightarrow>
      (let r = fold ?f xs (md, mi) in 0 \<le> snd r \<and> snd r < int (length inputs) \<and>
         fst r = dimensions (inputs ! nat (snd r)) \<and> md \<le> fst r \<and>
         (\<forall>x\<in>set xs. dimensions (inputs ! nat x) \<le> fst r))" for xs md mi
  proof (induction xs arbitrary: md mi)
    case Nil
    then show ?case by simp
  next
    case (Cons x xs)
    show ?case
    proof (cases "dimensions (inputs ! nat x) > md")
      case True
      then show ?thesis using Cons.IH [of x "dimensions (inputs ! nat x)"] Cons.prems
        by (auto simp: Let_def)
    next
      case False
      then show ?thesis using Cons.IH [of mi md] Cons.prems by (auto simp: Let_def)
    qed
  qed
  note gen = this
  have rr: "r = fold ?f [1..int (length inputs) - 1] (dimensions (inputs ! 0), 0)"
    by (simp only: r_def for_loop_def)
  have *: "0 \<le> snd r \<and> snd r < int (length inputs) \<and> fst r = dimensions (inputs ! nat (snd r)) \<and>
      dimensions (inputs ! 0) \<le> fst r \<and>
      (\<forall>x\<in>set [1..int (length inputs) - 1]. dimensions (inputs ! nat x) \<le> fst r)"
    by (rule gen [of "[1..int (length inputs) - 1]" 0 "dimensions (inputs ! 0)", unfolded Let_def, folded rr])
      (use assms(1) in simp_all)
  then show "0 \<le> snd r" "snd r < int (length inputs)" "fst r = dimensions (inputs ! nat (snd r))" by auto
  show "dimensions u \<le> fst r" if u: "u \<in> set inputs" for u
  proof -
    obtain k where k: "k < length inputs" "u = inputs ! k" using u by (metis in_set_conv_nth)
    show ?thesis
    proof (cases k)
      case 0
      then show ?thesis using * k by simp
    next
      case (Suc j)
      then have "int k \<in> set [1..int (length inputs) - 1]" using k by simp
      then have "dimensions (inputs ! nat (int k)) \<le> fst r" using * by blast
      then show ?thesis using k by simp
    qed
  qed
qed

lemma for_array [simp]: "for_loop a b (\<lambda>i d. d(i := f i)) d = (\<lambda>i. if a \<le> i \<and> i < b then f i else d i)"
proof -
  have "fold (\<lambda>i d. d(i := f i)) xs d = (\<lambda>i. if i \<in> set xs then f i else d i)" for xs d
    by (induction xs arbitrary: d) (auto simp: fun_eq_iff)
  then show ?thesis by (auto simp: for_loop_def fun_eq_iff)
qed

lemma inner_loop:
  fixes f :: "int \<Rightarrow> int" and d :: "int \<Rightarrow> int"
  shows "for_check a b (\<lambda>i d. case broadcast_dim (f i) (d i) of None \<Rightarrow> None | Some v \<Rightarrow> Some (d(i := v))) d =
    (if \<forall>i. a \<le> i \<and> i < b \<longrightarrow> broadcast_dim (f i) (d i) \<noteq> None
     then Some (\<lambda>i. if a \<le> i \<and> i < b then the (broadcast_dim (f i) (d i)) else d i) else None)"
  unfolding for_check_def by (subst foldM_pointwise) (auto intro!: if_cong)

text \<open>The invariant of the outer loop: entry \<open>i\<close> is the broadcast of the tensors seen.\<close>

lemma outer_step:
  assumes "\<forall>i. 0 \<le> i \<and> i < n \<longrightarrow> broadcast_at n T i (d i)" and "0 \<le> dimensions t" and "dimensions t \<le> n"
  defines "r \<equiv> for_check (n - dimensions t) n (\<lambda>i d. case broadcast_dim (extent t (i - (n - dimensions t))) (d i) of
      None \<Rightarrow> None | Some v \<Rightarrow> Some (d(i := v))) d"
  shows "r = Some e \<Longrightarrow> 0 \<le> i \<and> i < n \<Longrightarrow> broadcast_at n (insert t T) i (e i)"
    and "r = None \<Longrightarrow> \<exists>i. 0 \<le> i \<and> i < n \<and> conflict_at n (insert t T) i"
proof -
  have al: "aligned n t i = extent t (i - (n - dimensions t))" if "n - dimensions t \<le> i" for i
    using that by (simp add: aligned_def)
  show "broadcast_at n (insert t T) i (e i)" if r: "r = Some e" and i: "0 \<le> i \<and> i < n"
  proof (cases "n - dimensions t \<le> i")
    case True
    then obtain v where v: "broadcast_dim (aligned n t i) (d i) = Some v" "e i = v"
      using r i by (auto simp: r_def inner_loop al split: if_splits)
    then show ?thesis using broadcast_at_insert(1) assms(1) i by blast
  next
    case False
    then have "e i = d i" "aligned n t i = 1" using r by (auto simp: r_def inner_loop aligned_def split: if_splits)
    then show ?thesis using broadcast_at_insert(1) [of n T i "d i" t "d i"] assms(1) i
      by (simp add: broadcast_dim_eq)
  qed
  show "\<exists>i. 0 \<le> i \<and> i < n \<and> conflict_at n (insert t T) i" if "r = None"
  proof -
    have "\<not> (\<forall>i. n - dimensions t \<le> i \<and> i < n \<longrightarrow> broadcast_dim (extent t (i - (n - dimensions t))) (d i) \<noteq> None)"
      using that unfolding r_def inner_loop by (simp split: if_splits)
    then obtain i where i: "n - dimensions t \<le> i" "i < n" "broadcast_dim (extent t (i - (n - dimensions t))) (d i) = None"
      by blast
    then show ?thesis using broadcast_at_insert(2) [of n T i "d i" t] assms(1,3) al by (intro exI [of _ i]) auto
  qed
qed

definition max_rank :: "Tensor list \<Rightarrow> int" where
  "max_rank ts = Max (dimensions ` set ts)"

lemma computeBroadCastDims_spec:
  assumes "inputs \<noteq> []" and "outputs \<noteq> []" and "\<forall>u\<in>set inputs. 0 \<le> dimensions u"
  shows "case computeBroadCastDims inputs outputs of
      Some outs \<Rightarrow> \<exists>t. outs = outputs[0 := t] \<and> dimensions t = max_rank inputs \<and>
        ttype t = ttype (outputs ! 0) \<and> dimensionFormat t = dimensionFormat (outputs ! 0) \<and>
        (\<forall>i. 0 \<le> i \<and> i < max_rank inputs \<longrightarrow> broadcast_at (max_rank inputs) (set inputs) i (extent t i))
    | None \<Rightarrow> \<exists>i. 0 \<le> i \<and> i < max_rank inputs \<and> conflict_at (max_rank inputs) (set inputs) i"
proof -
  define r where "r = for_loop 1 (int (length inputs))
            (\<lambda>index (md, mi). if dimensions (inputs ! nat index) > md
                              then (dimensions (inputs ! nat index), index) else (md, mi))
            (dimensions (inputs ! 0), 0)"
  obtain n m where r: "r = (n, m)" by force
  note mx = max_loop [OF assms(1), folded r_def, unfolded r fst_conv snd_conv]
  define M where "M = inputs ! nat m"
  have M: "M \<in> set inputs" "dimensions M = n" using mx(1-3) by (auto simp: M_def)
  have n: "max_rank inputs = n" unfolding max_rank_def
    by (rule Max_eqI) (use mx(4) M in auto)
  define d0 where "d0 = (\<lambda>i. if 0 \<le> i \<and> i < n then extent M i else 0)"
  define body where "body = (\<lambda>index d. if index = m then Some d
               else let input1 = inputs ! nat index; diffDimension = n - dimensions input1
                    in for_check diffDimension n
                         (\<lambda>i d. case broadcast_dim (extent input1 (i - diffDimension)) (d i) of
                                  None \<Rightarrow> None | Some v \<Rightarrow> Some (d(i := v))) d)"
  define P where "P = (\<lambda>ys d. \<forall>i. 0 \<le> i \<and> i < n \<longrightarrow>
      broadcast_at n (insert M ((\<lambda>k. inputs ! nat k) ` set ys)) i (d i))"
  let ?ks = "[0..int (length inputs) - 1]"
  have cb: "computeBroadCastDims inputs outputs = (case foldM body ?ks d0 of None \<Rightarrow> None
      | Some d \<Rightarrow> Some (outputs[0 := for_loop 0 n (\<lambda>i. setLength i (d i)) (setDimensions n (outputs ! 0))]))"
    unfolding computeBroadCastDims_def Let_def r_def [symmetric] r prod.case
    by (simp only: body_def d0_def M_def for_check_def Let_def for_array)
  have P0: "P [] d0"
    using M by (auto simp: P_def d0_def broadcast_at_def aligned_def)
  have in_range: "inputs ! nat k \<in> set inputs" if "k \<in> set ?ks" for k
    using that by auto
  have ins: "(\<lambda>k. inputs ! nat k) ` set (ys @ [x]) = insert (inputs ! nat x) ((\<lambda>k. inputs ! nat k) ` set ys)" for ys x
    by auto
  have step: "P (ys @ [x]) v" if "body x u = Some v" "x \<in> set ?ks" "P ys u" for ys x u v
  proof (cases "x = m")
    case True
    then have "v = u" "inputs ! nat x = M" using that by (auto simp: body_def M_def)
    then show ?thesis using that(3) unfolding P_def ins by (simp add: insert_absorb)
  next
    case False
    have "0 \<le> dimensions (inputs ! nat x)" "dimensions (inputs ! nat x) \<le> n"
      using assms(3) mx(4) in_range that(2) by blast+
    from outer_step(1) [OF that(3) [unfolded P_def] this, of v] show ?thesis
      using that(1) False unfolding P_def ins by (auto simp: body_def Let_def insert_commute)
  qed
  show ?thesis
  proof (cases "foldM body ?ks d0")
    case None
    obtain ys x u where f: "x \<in> set ?ks" "set ys \<subseteq> set ?ks" "P ys u" "body x u = None"
      using foldM_fails [OF None, of P] P0 step by blast
    then have "x \<noteq> m" by (auto simp: body_def)
    have "0 \<le> dimensions (inputs ! nat x)" "dimensions (inputs ! nat x) \<le> n"
      using assms(3) mx(4) in_range f(1) by blast+
    from outer_step(2) [OF f(3) [unfolded P_def] this] f(4) \<open>x \<noteq> m\<close>
    obtain i where i: "0 \<le> i" "i < n"
      "conflict_at n (insert (inputs ! nat x) (insert M ((\<lambda>k. inputs ! nat k) ` set ys))) i"
      by (auto simp: body_def Let_def)
    moreover have "insert (inputs ! nat x) (insert M ((\<lambda>k. inputs ! nat k) ` set ys)) \<subseteq> set inputs"
      using in_range f(1,2) M(1) by blast
    ultimately have "conflict_at n (set inputs) i" unfolding conflict_at_def by blast
    then show ?thesis using None i(1,2) by (auto simp: cb n)
  next
    case (Some d)
    have Pd: "P ?ks d" by (rule foldM_invariant [OF Some]) (use P0 step in blast)+
    have "set inputs = (\<lambda>k. inputs ! nat k) ` set ?ks"
    proof
      show "set inputs \<subseteq> (\<lambda>k. inputs ! nat k) ` set ?ks"
      proof
        fix u assume "u \<in> set inputs"
        then obtain k where "k < length inputs" "u = inputs ! k" by (auto simp: in_set_conv_nth)
        then show "u \<in> (\<lambda>k. inputs ! nat k) ` set ?ks" by (intro image_eqI [of _ _ "int k"]) auto
      qed
      show "(\<lambda>k. inputs ! nat k) ` set ?ks \<subseteq> set inputs" using in_range by blast
    qed
    then have "insert M ((\<lambda>k. inputs ! nat k) ` set ?ks) = set inputs" using M(1) by auto
    then show ?thesis using Pd by (auto simp: cb Some n P_def)
  qed
qed

section \<open>Binary operations and select\<close>

abbreviation (input) "BinaryOpOperation_GREATER \<equiv> 10 :: int"
abbreviation (input) "BinaryOpOperation_GREATER_EQUAL \<equiv> 11 :: int"
abbreviation (input) "BinaryOpOperation_LESS \<equiv> 12 :: int"
abbreviation (input) "BinaryOpOperation_EQUAL \<equiv> 15 :: int"
abbreviation (input) "BinaryOpOperation_LESS_EQUAL \<equiv> 16 :: int"
abbreviation (input) "BinaryOpOperation_NOTEQUAL \<equiv> 22 :: int"

definition outputBool :: "int \<Rightarrow> bool" where
  "outputBool operation =
     (if operation = BinaryOpOperation_GREATER_EQUAL then True
      else if operation = BinaryOpOperation_GREATER then True
      else if operation = BinaryOpOperation_LESS then True
      else if operation = BinaryOpOperation_LESS_EQUAL then True
      else if operation = BinaryOpOperation_EQUAL then True
      else if operation = BinaryOpOperation_NOTEQUAL then True
      else False)"

definition BinaryOpComputer :: "int \<Rightarrow> Tensor list \<Rightarrow> Tensor list \<Rightarrow> Tensor list option" where
  "BinaryOpComputer opType inputs outputs =
     (let input0 = inputs ! 0; input1 = inputs ! 1; output = outputs ! 0;
          output = setHalideType (if outputBool opType then type_int32 else ttype input0) output
      in if tcode (ttype input0) \<noteq> tcode (ttype input1) then None
         else let input0 = (if dimensions input0 < dimensions input1 then input1 else input0);
                  output = setFormat (dimensionFormat input0) output
              in computeBroadCastDims inputs (outputs[0 := output]))"

definition SelectSizeComputer :: "Tensor list \<Rightarrow> Tensor list \<Rightarrow> Tensor list option" where
  "SelectSizeComputer inputs outputs =
     (let output = setHalideType (ttype (inputs ! 1)) (outputs ! 0)
      in case computeBroadCastDims inputs (outputs[0 := output]) of
           None \<Rightarrow> None
         | Some outs \<Rightarrow> Some (outs[0 := setFormat (dimensionFormat (inputs ! 1)) (outs ! 0)]))"

section \<open>\<open>BroadcastTo\<close>\<close>

text \<open>\<open>axisAttr\<close> is \<open>op->main_as_Axis()->axis()\<close>, 0 when the op has no parameter.\<close>

definition ShapeBroadcastTo :: "int \<Rightarrow> Tensor list \<Rightarrow> Tensor list \<Rightarrow> Tensor list option" where
  "ShapeBroadcastTo axisAttr inputs outputs =
     (let input = inputs ! 0; shp = inputs ! 1;
          inputDims = dimensions input; shapeDims = elementSize shp;
          output = setDimensions (if inputDims > shapeDims then inputDims else shapeDims) (outputs ! 0);
          dimension = dimensions output;
          shapeData = host_int shp;
          finish = (\<lambda>o'. Some (outputs[0 := setFormat (dimensionFormat input) (setHalideType (ttype input) o')]))
      in if axisAttr \<noteq> 0 then
           finish (for_loop 0 dimension (\<lambda>i. setLength i (shapeData i)) output)
         else
           let (output, alignShape, offset) =
             (if inputDims > shapeDims then
                (for_loop 0 inputDims (\<lambda>i. setLength i (extent input i)) output,
                 for_loop 0 shapeDims (\<lambda>i a. a(i := shapeData i)) (\<lambda>i. 0), inputDims - shapeDims)
              else
                (for_loop 0 shapeDims (\<lambda>i. setLength i (shapeData i)) output,
                 for_loop 0 inputDims (\<lambda>i a. a(i := extent input i)) (\<lambda>i. 0), shapeDims - inputDims))
           in case for_check offset dimension
                (\<lambda>i o'. let dim1 = alignShape (i - offset); dim2 = extent o' i
                        in if dim1 \<noteq> dim2 \<and> (dim1 \<noteq> 1 \<and> dim2 \<noteq> 1) then None
                           else if dim1 = dim2 then Some o'
                           else if dim1 \<noteq> 1 then Some (setLength i dim1 o') else Some o') output of
                None \<Rightarrow> None
              | Some o' \<Rightarrow> finish o')"

section \<open>\<open>MatMul\<close>\<close>

text \<open>The sizes \<open>(e, l, h)\<close> of the product, \<open>None\<close> for \<open>false\<close>.\<close>

definition computeMatMulSize :: "bool \<Rightarrow> bool \<Rightarrow> Tensor \<Rightarrow> Tensor \<Rightarrow> (int \<times> int \<times> int) option" where
  "computeMatMulSize transposeA transposeB A B =
     (let i0Dim = dimensions A; i1Dim = dimensions B
      in if i0Dim < 1 \<or> i1Dim < 1 then None
         else let (w0, h0, transposeA) = (if i0Dim = 1 then (extent A 0, 1, False)
                  else (extent A (i0Dim - 1), extent A (i0Dim - 2), transposeA));
                  (w1, h1, transposeB) = (if i1Dim = 1 then (1, extent B 0, False)
                  else (extent B (i1Dim - 1), extent B (i1Dim - 2), transposeB));
                  (w0, h0) = (if transposeA then (h0, w0) else (w0, h0));
                  (w1, h1) = (if transposeB then (h1, w1) else (w1, h1))
              in if w0 \<noteq> h1 then None else Some (h0, w0, w1))"

definition MatMulSizeComputer :: "bool \<Rightarrow> bool \<Rightarrow> Tensor list \<Rightarrow> Tensor list \<Rightarrow> Tensor list option" where
  "MatMulSizeComputer transposeA transposeB inputs outputs =
     (let output = setHalideType (ttype (inputs ! 0)) (outputs ! 0)
      in case computeMatMulSize transposeA transposeB (inputs ! 0) (inputs ! 1) of
           None \<Rightarrow> None
         | Some (e, l, h) \<Rightarrow>
             let i0Dim = dimensions (inputs ! 0); i1Dim = dimensions (inputs ! 1);
                 (o0Dim, input0, input1) = (if i1Dim > i0Dim then (i1Dim, inputs ! 1, inputs ! 0)
                                            else (i0Dim, inputs ! 0, inputs ! 1));
                 maxDimensions = o0Dim - 2;
                 output = setDimensions o0Dim output;
                 diffDimension = dimensions input0 - dimensions input1;
                 output = for_loop 0 maxDimensions (\<lambda>i. setLength i (extent input0 i)) output
             in case for_check diffDimension maxDimensions
                       (\<lambda>i o'. case broadcast_dim (extent input1 (i - diffDimension)) (extent o' i) of
                                 None \<Rightarrow> None | Some v \<Rightarrow> Some (setLength i v o')) output of
                  None \<Rightarrow> None
                | Some output \<Rightarrow>
                    let output = setLength (o0Dim - 1) h (setLength (o0Dim - 2) e output);
                        eValid = i0Dim > 1; hValid = i1Dim > 1;
                        (squeezeDim, output) = (if \<not> eValid then (1, setLength (o0Dim - 2) h output)
                                                else (0, output));
                        (squeezeDim, output) = (if \<not> hValid then (squeezeDim + 1, setLength (o0Dim - 1) e output)
                                                else (squeezeDim, output));
                        output = (if squeezeDim > 0 then setDimensions (o0Dim - squeezeDim) output else output)
                    in Some (outputs[0 := setFormat (dimensionFormat (inputs ! 0)) output]))"

lemmas [shape_defs] = BinaryOpComputer_def SelectSizeComputer_def ShapeBroadcastTo_def
  MatMulSizeComputer_def computeMatMulSize_def

end
