(* ===== verification/Broadcast_Props.thy ===== *)
theory Broadcast_Props
  imports Shape_Broadcast
begin

text \<open>What broadcasting and matrix products promise about their result's shape.\<close>

section \<open>Broadcasting\<close>

text \<open>
  C8. The broadcast rule. The result has the largest rank; at every position, counted
  from the last dimension, it takes an extent that occurs there and every other extent
  there is that one or 1. It fails exactly when two extents different from 1 disagree.
\<close>

theorem broadcast_rule:
  assumes "inputs \<noteq> []" and "outputs \<noteq> []" and "\<forall>u\<in>set inputs. 0 \<le> dimensions u"
  shows "(computeBroadCastDims inputs outputs = None \<longleftrightarrow>
           (\<exists>i. 0 \<le> i \<and> i < max_rank inputs \<and> conflict_at (max_rank inputs) (set inputs) i)) \<and>
    (\<forall>outs. computeBroadCastDims inputs outputs = Some outs \<longrightarrow>
       dimensions (outs ! 0) = max_rank inputs \<and>
       (\<forall>i. 0 \<le> i \<and> i < max_rank inputs \<longrightarrow>
          broadcast_at (max_rank inputs) (set inputs) i (extent (outs ! 0) i)))"
proof -
  have "0 < length outputs" using assms(2) by simp
  with computeBroadCastDims_spec [OF assms] show ?thesis
    by (auto split: option.splits dest: broadcast_at_conflict)
qed

theorem broadcast_rule_witness:
  "\<exists>t. computeBroadCastDims [tensor_of FMT_NCHW [2, 1, 3], tensor_of FMT_NCHW [4, 1]] [tensor_of FMT_NCHW []] = Some [t] \<and>
     shape t = [2, 4, 3] \<and> dimensions t = max_rank [tensor_of FMT_NCHW [2, 1, 3], tensor_of FMT_NCHW [4, 1]]"
proof -
  let ?ins = "[tensor_of FMT_NCHW [2, 1, 3], tensor_of FMT_NCHW [4, 1]]"
  have v: "(case computeBroadCastDims ?ins [tensor_of FMT_NCHW []] of
      Some outs \<Rightarrow> length outs = 1 \<and> shape (outs ! 0) = [2, 4, 3] | None \<Rightarrow> False)" by code_simp
  then obtain t where t: "computeBroadCastDims ?ins [tensor_of FMT_NCHW []] = Some [t]" "shape t = [2, 4, 3]"
    by (auto split: option.splits simp: length_Suc_conv)
  have "dimensions ([t] ! 0) = max_rank ?ins"
    using broadcast_rule [of ?ins "[tensor_of FMT_NCHW []]"] t(1) by auto
  then show ?thesis using t by auto
qed

section \<open>Matrix products\<close>

lemma for_check_extents:
  "for_check a b (\<lambda>i o'. case broadcast_dim (f i) (extent o' i) of None \<Rightarrow> None | Some v \<Rightarrow> Some (setLength i v o')) t =
   map_option (\<lambda>d. t\<lparr>extent := d\<rparr>)
     (for_check a b (\<lambda>i d. case broadcast_dim (f i) (d i) of None \<Rightarrow> None | Some v \<Rightarrow> Some (d(i := v))) (extent t))"
proof -
  have "foldM (\<lambda>i o'. case broadcast_dim (f i) (extent o' i) of None \<Rightarrow> None | Some v \<Rightarrow> Some (setLength i v o')) xs t =
     map_option (\<lambda>d. t\<lparr>extent := d\<rparr>)
       (foldM (\<lambda>i d. case broadcast_dim (f i) (d i) of None \<Rightarrow> None | Some v \<Rightarrow> Some (d(i := v))) xs (extent t))" for xs
    by (induction xs arbitrary: t) (auto simp: setLength_def split: option.splits)
  then show ?thesis by (simp add: for_check_def)
qed

text \<open>
  Matrix product of two tensors of rank 2 or more: it fails exactly when the inner
  extents differ or two batch extents conflict; otherwise the result has the larger rank,
  broadcast batch extents, and the outer extents of the two (transposed) matrices last.
\<close>

theorem matmul_shape:
  fixes a b out :: Tensor and tA tB :: bool
  defines "R \<equiv> max (dimensions a) (dimensions b)"
  defines "e \<equiv> extent a (dimensions a - (if tA then 1 else 2))"
    and "l \<equiv> extent a (dimensions a - (if tA then 2 else 1))"
    and "l' \<equiv> extent b (dimensions b - (if tB then 1 else 2))"
    and "h \<equiv> extent b (dimensions b - (if tB then 2 else 1))"
  assumes "2 \<le> dimensions a" and "2 \<le> dimensions b"
  shows "case MatMulSizeComputer tA tB [a, b] [out] of
      None \<Rightarrow> l \<noteq> l' \<or> (\<exists>i. 0 \<le> i \<and> i < R - 2 \<and> conflict_at R {a, b} i)
    | Some outs \<Rightarrow> l = l' \<and> (\<exists>t. outs = [t] \<and> dimensions t = R \<and> extent t (R - 2) = e \<and> extent t (R - 1) = h \<and>
        ttype t = ttype a \<and> (\<forall>i. 0 \<le> i \<and> i < R - 2 \<longrightarrow> broadcast_at R {a, b} i (extent t i)))"
proof (cases "l = l'")
  case False
  then have "computeMatMulSize tA tB a b = None" using assms(6,7)
    by (cases tA; cases tB; simp add: computeMatMulSize_def l_def l'_def Let_def)
  then show ?thesis using False by (simp add: MatMulSizeComputer_def)
next
  case True
  define x where "x = (if dimensions b > dimensions a then b else a)"
  define y where "y = (if dimensions b > dimensions a then a else b)"
  have xy: "{a, b} = insert y {x}" "dimensions x = R" "dimensions y \<le> R" "2 \<le> dimensions y"
    using assms(6,7) by (auto simp: x_def y_def R_def)
  have sz: "computeMatMulSize tA tB a b = Some (e, l, h)"
    using assms(6,7) True by (cases tA; cases tB; simp add: computeMatMulSize_def e_def l_def l'_def h_def Let_def)
  define d0 where "d0 = (\<lambda>j. if 0 \<le> j \<and> j < R - 2 then extent x j else extent out j)"
  define r where "r = for_check (R - dimensions y) (R - 2)
      (\<lambda>i d. case broadcast_dim (extent y (i - (R - dimensions y))) (d i) of None \<Rightarrow> None | Some v \<Rightarrow> Some (d(i := v))) d0"
  have mm: "MatMulSizeComputer tA tB [a, b] [out] = (case r of None \<Rightarrow> None
      | Some d \<Rightarrow> Some [setFormat (dimensionFormat a) (setLength (R - 1) h (setLength (R - 2) e
          ((setDimensions R (setHalideType (ttype a) out))\<lparr>extent := d\<rparr>)))])"
    using assms(6,7)
    by (cases "dimensions b > dimensions a")
      (simp_all add: MatMulSizeComputer_def sz Let_def for_check_extents r_def d0_def x_def y_def R_def
        split: option.splits cong: if_cong)
  have b0: "broadcast_at R {x} i (d0 i)" if "0 \<le> i" "i < R - 2" for i
    using that xy(2) by (simp add: broadcast_at_def aligned_def d0_def)
  have al: "aligned R y i = extent y (i - (R - dimensions y))" if "R - dimensions y \<le> i" for i
    using that by (simp add: aligned_def)
  show ?thesis
  proof (cases r)
    case None
    then obtain i where i: "R - dimensions y \<le> i" "i < R - 2" "broadcast_dim (aligned R y i) (d0 i) = None"
      using al unfolding r_def inner_loop by (auto split: if_splits)
    then have "conflict_at R (insert y {x}) i"
      using broadcast_at_insert(2) [OF b0] xy(3) by simp
    then show ?thesis using None i(1,2) xy(3) True by (simp add: mm xy(1)) (rule exI [of _ i], simp)
  next
    case (Some d)
    have bc: "broadcast_at R (insert y {x}) i (d i)" if i: "0 \<le> i" "i < R - 2" for i
    proof (cases "R - dimensions y \<le> i")
      case True
      then obtain v where "broadcast_dim (aligned R y i) (d0 i) = Some v" "d i = v"
        using Some i al unfolding r_def inner_loop by (auto split: if_splits)
      then show ?thesis using broadcast_at_insert(1) [OF b0 [OF i]] by simp
    next
      case False
      then have "d i = d0 i" "aligned R y i = 1"
        using Some unfolding r_def inner_loop by (auto simp: aligned_def split: if_splits)
      then show ?thesis using broadcast_at_insert(1) [OF b0 [OF i], of y "d0 i"] by (simp add: broadcast_dim_eq)
    qed
    then show ?thesis using True Some by (simp add: mm xy(1))
  qed
qed

theorem matmul_shape_witness:
  "\<exists>t. MatMulSizeComputer False True [tensor_of FMT_NCHW [5, 2, 3], tensor_of FMT_NCHW [4, 3]] [tensor_of FMT_NCHW []] = Some [t] \<and>
     shape t = [5, 2, 4]"
proof -
  let ?r = "MatMulSizeComputer False True [tensor_of FMT_NCHW [5, 2, 3], tensor_of FMT_NCHW [4, 3]] [tensor_of FMT_NCHW []]"
  have s: "(case ?r of Some outs \<Rightarrow> shape (outs ! 0) = [5, 2, 4] | None \<Rightarrow> False)" by code_simp
  have "2 \<le> dimensions (tensor_of FMT_NCHW [5, 2, 3])" "2 \<le> dimensions (tensor_of FMT_NCHW [4, 3])" by simp_all
  from matmul_shape [OF this, of False True "tensor_of FMT_NCHW []"] s show ?thesis
    by (auto split: option.splits)
qed

text \<open>
  The product of two vectors of the same length succeeds with rank \<open>-1\<close>: both unit
  dimensions are removed from a rank of 1 (and extent \<open>-1\<close> has been written on the way).
\<close>

theorem matmul_vectors_rank:
  assumes "dimensions a = 1" and "dimensions b = 1" and "extent a 0 = extent b 0"
  shows "\<exists>t. MatMulSizeComputer tA tB [a, b] [out] = Some [t] \<and> dimensions t = -1"
  using assms by (simp add: MatMulSizeComputer_def computeMatMulSize_def Let_def)

theorem matmul_vectors_rank_witness:
  "\<exists>t. MatMulSizeComputer False False [tensor_of FMT_NCHW [7], tensor_of FMT_NCHW [7]] [tensor_of FMT_NCHW []] = Some [t] \<and>
     dimensions t = -1"
  by (rule matmul_vectors_rank) (simp_all add: tensor_of_def)

end
