(* ===== verification/Shape_Layout.thy ===== *)
theory Shape_Layout
  imports Shape_Broadcast
begin

text \<open>
  The computers that only rearrange extents: source/shape/ShapeConcat.cpp, ShapeSlice,
  ShapeSliceTf, ShapePack, ShapeUnpack, ShapePermute, ShapeTranspose, ShapeReshape
  (reshape and flatten), ShapeSqueeze (squeeze and unsqueeze), ShapeExpandDims,
  ShapeTensorConvert, ShapeTile, ShapePadding, ShapeCrop, ShapeDepthToSpace,
  ShapeSpaceToDepth, ShapeBatchToSpaceND, ShapeSpaceToBatchND, ShapeCast,
  ShapeDequantize, ShapeShape (shape and raster) and ShapeSize. The conventions are
  those of \<open>Shape_Broadcast\<close>; a parameter vector that may be null is an option.
\<close>

section \<open>Concatenation and slicing\<close>

definition ConcatSizeComputer :: "int \<Rightarrow> Tensor list \<Rightarrow> Tensor list \<Rightarrow> Tensor list option" where
  "ConcatSizeComputer basicAxis inputs outputs =
     (let (axis, ob) = (case inputs of
            [] \<Rightarrow> (basicAxis, outputs ! 0)
          | input # _ \<Rightarrow>
              (if basicAxis < 0 then dimensions input + basicAxis else basicAxis,
               setHalideType (ttype input)
                 (setDimensions (dimensions input) (copy_dims (dimensions input) input (outputs ! 0)))))
      in case foldM (\<lambda>t (acc, ob).
                let acc = acc + extent t axis; ob = setHalideType (ttype t) ob
                in case for_check 0 (dimensions t)
                          (\<lambda>i ob. if axis = i then Some ob
                                   else if extent t i \<noteq> extent ob i then None else Some ob) ob of
                     None \<Rightarrow> None
                   | Some ob \<Rightarrow> Some (acc, ob)) inputs (0, ob) of
           None \<Rightarrow> None
         | Some (acc, ob) \<Rightarrow>
             Some (outputs[0 := setFormat (dimensionFormat (inputs ! 0)) (setLength axis acc ob)]))"

datatype NetSource = NetSource_CAFFE | NetSource_TENSORFLOW | NetSource_TFLITE | NetSource_ONNX | NetSource_TORCH

record SliceParam =
  slice_axis :: int
  slicePoints :: "int list option"
  sourceType :: NetSource

text \<open>One output as every branch starts it: the input's rank, type and extents.\<close>

definition slice_output :: "Tensor \<Rightarrow> Tensor \<Rightarrow> Tensor" where
  "slice_output input output =
     setHalideType (ttype input) (copy_dims (dimensions input) input (setDimensions (dimensions input) output))"

definition SliceComputer :: "SliceParam \<Rightarrow> Tensor list \<Rightarrow> Tensor list \<Rightarrow> Tensor list option" where
  "SliceComputer slice inputs outputs =
     (let outputSize = int (length outputs);
          input = inputs ! 0;
          axis = (if slice_axis slice < 0 then slice_axis slice + dimensions input else slice_axis slice);
          fmt = map (setFormat (dimensionFormat input))
      in if sourceType slice = NetSource_CAFFE then
           let points = the (slicePoints slice);
               (previous, outs) = for_loop 0 (int (length points))
                 (\<lambda>i (previous, outs). let sliceIndex = points ! nat i in
                    (sliceIndex, outs[nat i := setLength axis (sliceIndex - previous) (slice_output input (outs ! nat i))]))
                 (0, outputs);
               k = length outputs - 1
           in Some (fmt (outs[k := setLength axis (extent input axis - previous) (slice_output input (outs ! k))]))
         else if length inputs = 1 \<and> (case slicePoints slice of None \<Rightarrow> True | Some p \<Rightarrow> length p = 1) then
           let splitDim = cdiv (extent input axis) outputSize;
               splitDim = (if sourceType slice = NetSource_TORCH then
                             (case slicePoints slice of Some p \<Rightarrow> p ! 0 | None \<Rightarrow> splitDim)
                           else if sourceType slice = NetSource_TENSORFLOW then
                             let numSplits = (case slicePoints slice of
                                   Some p \<Rightarrow> if p ! 0 \<noteq> outputSize then p ! 0 else outputSize
                                 | None \<Rightarrow> outputSize)
                             in cdiv (extent input axis) numSplits
                           else splitDim)
           in Some (fmt (for_loop 0 outputSize
                (\<lambda>i outs. outs[nat i := setLength axis splitDim (slice_output input (outs ! nat i))]) outputs))
         else
           let points = (if length inputs = 2
                         then take (nat (elementSize (inputs ! 1))) (the (ihost (inputs ! 1)))
                         else case slicePoints slice of Some p \<Rightarrow> p | None \<Rightarrow> []);
               totalLen = sum_list points
           in if totalLen > extent input axis then None
              else
                let numberSplits = min (int (length points)) outputSize
                in case for_check 0 numberSplits
                     (\<lambda>i (determineTensorIndex, maxSize, outs).
                        let output = slice_output input (outs ! nat i); len = points ! nat i
                        in if len \<noteq> -1 then
                             Some (determineTensorIndex, maxSize + len, outs[nat i := setLength axis len output])
                           else if determineTensorIndex \<ge> 0 then None
                           else Some (i, maxSize, outs[nat i := output]))
                     (-1, 0, outputs) of
                     None \<Rightarrow> None
                   | Some (determineTensorIndex, maxSize, outs) \<Rightarrow>
                       Some (fmt (if determineTensorIndex \<ge> 0
                         then outs[nat determineTensorIndex :=
                           setLength axis (extent input axis - maxSize) (outs ! nat determineTensorIndex)]
                         else outs)))"

definition SliceTfComputer :: "Tensor list \<Rightarrow> Tensor list \<Rightarrow> Tensor list option" where
  "SliceTfComputer inputs outputs =
     (let input = inputs ! 0; begin_tensor = inputs ! 1; size_tensor = inputs ! 2;
          output = setHalideType (ttype input) (setDimensions (dimensions input) (outputs ! 0));
          output = for_loop 0 (dimensions input)
            (\<lambda>i. setLength i
               (let dim = host_int size_tensor i
                in if dim = -1 then
                     let begin = host_int begin_tensor i;
                         begin = (if begin < 0 then begin + extent input i else begin)
                     in extent input i - begin
                   else dim)) output
      in Some (map (setFormat (dimensionFormat input)) (outputs[0 := output])))"

section \<open>Stacking\<close>

definition PackComputer :: "int \<Rightarrow> Tensor list \<Rightarrow> Tensor list \<Rightarrow> Tensor list option" where
  "PackComputer packAxis inputs outputs =
     (let input = inputs ! 0;
          output = setHalideType (ttype input) (setDimensions (dimensions input + 1) (outputs ! 0));
          axis = (if packAxis < 0 then packAxis + dimensions output else packAxis);
          (j, output) = for_loop 0 (dimensions output)
            (\<lambda>i (j, o'). if i = axis then (j, setLength i (int (length inputs)) o')
                         else (j + 1, setLength i (extent input j) o')) (0, output)
      in Some (outputs[0 := setFormat (dimensionFormat input) output]))"

definition UnpackComputer :: "int \<Rightarrow> Tensor list \<Rightarrow> Tensor list \<Rightarrow> Tensor list option" where
  "UnpackComputer unpackAxis inputs outputs =
     (if inputs = [] \<or> outputs = [] then None
      else
        let input = inputs ! 0;
            axis = (if unpackAxis < 0 then unpackAxis + dimensions input else unpackAxis);
            inputDimensions = dimensions input
        in if int (length outputs) > extent input axis then None
           else
             let outDims = for_loop 0 axis (\<lambda>i d. d(i := extent input i)) (\<lambda>i. 0);
                 outDims = for_loop (axis + 1) inputDimensions (\<lambda>i d. d(i - 1 := extent input i)) outDims;
                 outputDimensions = inputDimensions - 1
             in Some (map (\<lambda>output.
                  setFormat (dimensionFormat input)
                    (for_loop 0 outputDimensions (\<lambda>j. setLength j (outDims j))
                      (setHalideType (ttype input) (setDimensions outputDimensions output)))) outputs))"

section \<open>Permutations\<close>

definition PermuteComputer :: "int list option \<Rightarrow> Tensor list \<Rightarrow> Tensor list \<Rightarrow> Tensor list option" where
  "PermuteComputer dims inputs outputs =
     (let input = inputs ! 0;
          dimSize = dimensions input;
          output = setDimensions dimSize (outputs ! 0);
          output = (case dims of
             Some shp \<Rightarrow> for_loop 0 dimSize (\<lambda>i. setLength i (extent input (shp ! nat i))) output
           | None \<Rightarrow> for_loop 0 dimSize (\<lambda>i. setLength i (extent input (dimSize - i - 1))) output)
      in Some (outputs[0 := setHalideType (ttype input) (setFormat (dimensionFormat input) output)]))"

definition TransposeComputer :: "Tensor list \<Rightarrow> Tensor list \<Rightarrow> Tensor list option" where
  "TransposeComputer inputs outputs =
     (let input = inputs ! 0; perm = inputs ! 1; dims = dimensions input
      in if tcode (ttype perm) \<noteq> halide_type_int \<or> 32 \<noteq> tbits (ttype perm) \<or> dims \<noteq> extent perm 0 then None
         else
           let output = setHalideType (ttype input) (setDimensions dims (outputs ! 0))
           in case for_check 0 dims
                (\<lambda>i o'. let d = host_int perm i
                        in if d < 0 \<or> d \<ge> dims then None else Some (setLength i (extent input d) o')) output of
                None \<Rightarrow> None
              | Some output \<Rightarrow> Some (outputs[0 := setFormat (dimensionFormat input) output]))"

definition TensorConvertSizeComputer :: "MNN_DATA_FORMAT \<Rightarrow> Tensor list \<Rightarrow> Tensor list \<Rightarrow> Tensor list option" where
  "TensorConvertSizeComputer dest inputs outputs =
     (let ib = inputs ! 0;
          sourceFmt = (if dimensionFormat ib = FMT_NC4HW4 then FMT_NCHW else dimensionFormat ib);
          ob = setFormat dest (outputs ! 0);
          destFmt = (if dest = FMT_NC4HW4 then FMT_NCHW else dest);
          ob = setDimensions (dimensions ib) (setHalideType (ttype ib) ob)
      in if dimensions ib = 2 \<or> sourceFmt = destFmt then
           Some (outputs[0 := for_loop 0 (dimensions ib) (\<lambda>i. setLength i (extent ib i)) ob])
         else
           let ob = setLength 0 (extent ib 0) ob;
               ob = (if sourceFmt = FMT_NCHW \<and> destFmt = FMT_NHWC then
                       for_loop 1 (dimensions ob - 1) (\<lambda>i. setLength i (extent ib (i + 1)))
                         (setLength (dimensions ob - 1) (extent ib 1) ob)
                     else if destFmt = FMT_NCHW \<and> sourceFmt = FMT_NHWC then
                       for_loop 2 (dimensions ob) (\<lambda>i. setLength i (extent ib (i - 1)))
                         (setLength 1 (extent ib (dimensions ib - 1)) ob)
                     else ob)
           in Some (outputs[0 := ob]))"

section \<open>Reshape and flatten\<close>

text \<open>
  \<open>dims\<close> is the parameter's vector (Reshape's or QuantizedReshape's, read with one
  input); \<open>dimType\<close> is \<open>Reshape.dimType\<close>, \<open>None\<close> for another parameter type.
\<close>

definition reshape_shapes :: "int list \<Rightarrow> MNN_DATA_FORMAT option \<Rightarrow> Tensor list \<Rightarrow> int \<times> bool \<times> (int \<Rightarrow> int)" where
  "reshape_shapes dims dimType inputs =
     (if length inputs = 1 then
        (int (length dims), False,
         for_loop 0 (int (length dims)) (\<lambda>i s. s(i := dims ! nat i)) (\<lambda>i. 0))
      else
        let inputShape = inputs ! 1;
            fromTf = (dimensionFormat inputShape = FMT_NHWC);
            dimSize = elementSize inputShape;
            dim = host_int inputShape;
            dt = (case dimType of Some t \<Rightarrow> t | None \<Rightarrow> FMT_NHWC)
        in (dimSize, fromTf,
            if dimensionFormat (inputs ! 0) = FMT_NC4HW4 \<and> dt = FMT_NHWC then
              (\<lambda>i. 0)(0 := dim 0, 1 := dim 3, 2 := dim 1, 3 := dim 2)
            else for_loop 0 dimSize (\<lambda>i s. s(i := dim i)) (\<lambda>i. 0)))"

definition ReshapeComputer ::
  "int list \<Rightarrow> MNN_DATA_FORMAT option \<Rightarrow> Tensor list \<Rightarrow> Tensor list \<Rightarrow> Tensor list option" where
  "ReshapeComputer dims dimType inputs outputs =
     (let input = inputs ! 0;
          output = setHalideType (ttype input) (outputs ! 0);
          (dimSize, fromTf, shapes) = reshape_shapes dims dimType inputs;
          output = setDimensions dimSize output;
          totalSizeInput = for_loop 0 (dimensions input) (\<lambda>i acc. acc * extent input i) 1;
          (determinAxis, output) = for_loop 0 dimSize
            (\<lambda>i (da, o'). let reshapeDim = shapes i
               in if reshapeDim = -1 then (i, setLength i 1 o')
                  else if reshapeDim = 0 \<and> \<not> fromTf then (da, setLength i (extent input i) o')
                  else (da, setLength i reshapeDim o')) (-1, output);
          totalSizeOutput = for_loop 0 dimSize (\<lambda>i acc. acc * extent output i) 1;
          (totalSizeOutput, output) =
            (if determinAxis \<ge> 0 then
               let o' = setLength determinAxis
                     (if totalSizeOutput \<noteq> 0 then cdiv totalSizeInput totalSizeOutput else 0) output
               in (totalSizeOutput * extent o' determinAxis, o')
             else (totalSizeOutput, output))
      in if totalSizeInput \<noteq> totalSizeOutput then None
         else Some (outputs[0 := setFormat (dimensionFormat input) output]))"

definition FlattenComputer :: "(int \<times> int) option \<Rightarrow> Tensor list \<Rightarrow> Tensor list \<Rightarrow> Tensor list option" where
  "FlattenComputer flatten inputs outputs =
     (case flatten of None \<Rightarrow> None | Some (axis, endAxis) \<Rightarrow>
      if inputs = [] \<or> outputs = [] then None
      else
        let input = inputs ! 0; output = outputs ! 0;
            dim = dimensions input;
            axis = (if axis < 0 then axis + dim else axis);
            endAxis = (if endAxis < 0 then endAxis + dim else endAxis);
            output =
              (if endAxis = 0 then
                 let outside = for_loop 0 axis (\<lambda>i acc. acc * extent input i) 1;
                     inside = for_loop axis dim (\<lambda>i acc. acc * extent input i) 1
                 in setLength 1 inside (setLength 0 outside (setDimensions 2 output))
               else
                 let output = setDimensions (dim - endAxis + axis) output;
                     output = for_loop 0 axis (\<lambda>i. setLength i (extent input i)) output;
                     outside = for_loop axis (endAxis + 1) (\<lambda>i acc. acc * extent input i) 1;
                     output = setLength axis outside output
                 in if dim > endAxis + 1
                    then for_loop (endAxis + 1) dim (\<lambda>i. setLength i (extent input i)) output
                    else output)
        in Some (outputs[0 := setFormat (dimensionFormat input) (setHalideType (ttype input) output)]))"

section \<open>Unit dimensions\<close>

text \<open>The axes: the parameter's, or the second input's content.\<close>

definition squeeze_dims :: "int list option \<Rightarrow> Tensor list \<Rightarrow> int list" where
  "squeeze_dims squeezeDims inputs = (case squeezeDims of
     Some ds \<Rightarrow> ds
   | None \<Rightarrow> if length inputs > 1
             then take (nat (elementSize (inputs ! 1))) (the (ihost (inputs ! 1))) else [])"

definition UnSqueezeSizeComputer :: "int list option \<Rightarrow> Tensor list \<Rightarrow> Tensor list \<Rightarrow> Tensor list option" where
  "UnSqueezeSizeComputer squeezeDims inputs outputs =
     (let squeezeDim = squeeze_dims squeezeDims inputs;
          ib = inputs ! 0;
          ob = setDimensions (dimensions ib + int (length squeezeDim)) (outputs ! 0);
          msk = fold (\<lambda>axis m. m((if axis < 0 then axis + dimensions ob else axis) := 1)) squeezeDim (\<lambda>i. 0 :: int);
          (oDim, ob) = for_loop 0 (dimensions ob)
            (\<lambda>i (oDim, o'). let o' = setLength i 1 o'
               in if msk i = 0 then (oDim + 1, setLength i (extent ib oDim) o') else (oDim, o')) (0, ob)
      in Some (outputs[0 := setFormat (dimensionFormat ib) (setHalideType (ttype ib) ob)]))"

definition SqueezeSizeComputer :: "int list option \<Rightarrow> Tensor list \<Rightarrow> Tensor list \<Rightarrow> Tensor list option" where
  "SqueezeSizeComputer squeezeDims inputs outputs =
     (let squeezeDim = squeeze_dims squeezeDims inputs;
          ib = inputs ! 0; ob = outputs ! 0
      in case foldM (\<lambda>axis msk. let axis = (if axis < 0 then axis + dimensions ib else axis)
                in if 1 \<noteq> extent ib axis then None else Some (msk(axis := 1))) squeezeDim (\<lambda>i. 0 :: int) of
           None \<Rightarrow> None
         | Some msk \<Rightarrow>
             let squeezeDimSize = int (length squeezeDim);
                 (msk, squeezeDimSize) =
                   (if squeezeDimSize = 0 then
                      for_loop 0 (dimensions ib)
                        (\<lambda>i (m, k). if extent ib i = 1 then (m(i := 1), k + 1) else (m, k)) (msk, squeezeDimSize)
                    else (msk, squeezeDimSize));
                 ob = setDimensions (dimensions ib - squeezeDimSize) ob;
                 (oDim, ob) = for_loop 0 (dimensions ib)
                   (\<lambda>i. if msk i = 0 then push_dim (extent ib i) else id) (0, ob)
             in Some (outputs[0 := setFormat (dimensionFormat ib) (setHalideType (ttype ib) ob)]))"

definition ExpandDimsComputer :: "int \<Rightarrow> Tensor list \<Rightarrow> Tensor list \<Rightarrow> Tensor list option" where
  "ExpandDimsComputer paramAxis inputs outputs =
     (let input = inputs ! 0;
          dim = (if length inputs = 2 then host_int (inputs ! 1) 0 else paramAxis);
          dim = (if dim < 0 then dimensions input + 1 + dim else dim);
          output = setHalideType (ttype input) (outputs ! 0);
          st = for_loop 0 (dimensions input)
            (\<lambda>i st. push_dim (extent input i) (if i = dim then push_dim 1 st else st)) (0, output);
          (outputShapeDims, output) = (if dim = dimensions input then push_dim 1 st else st)
      in Some (outputs[0 := setFormat (dimensionFormat input) (setDimensions outputShapeDims output)]))"

section \<open>Tiling, padding, cropping\<close>

definition TileComputer :: "Tensor list \<Rightarrow> Tensor list \<Rightarrow> Tensor list option" where
  "TileComputer inputs outputs =
     (let input = inputs ! 0; multiples = inputs ! 1;
          output = setHalideType (ttype input)
            (setDimensions (dimensions input) (copy_dims (dimensions input) input (outputs ! 0)));
          output = for_loop 0 (dimensions input) (\<lambda>i. setLength i (extent input i * host_int multiples i)) output
      in Some (outputs[0 := setFormat (dimensionFormat input) output]))"

definition PaddingComputer :: "Tensor list \<Rightarrow> Tensor list \<Rightarrow> Tensor list option" where
  "PaddingComputer inputs outputs =
     (if (2 \<noteq> length inputs \<and> 3 \<noteq> length inputs) \<or> 1 \<noteq> length outputs then None
      else
        let input = inputs ! 0; paddings = inputs ! 1;
            output = copyShape input (setHalideType (ttype input) (outputs ! 0)) True;
            sz = elementSize paddings
        in if sz < dimensions output * 2 then None
           else Some (outputs[0 := for_loop 0 (dimensions input)
                (\<lambda>i. setLength i (extent input i + host_int paddings (2 * i) + host_int paddings (2 * i + 1))) output]))"

definition CropSizeComputer :: "int \<Rightarrow> Tensor list \<Rightarrow> Tensor list \<Rightarrow> Tensor list option" where
  "CropSizeComputer axis inputs outputs =
     (let ibInput0 = inputs ! 0; ibInput1 = inputs ! 1;
          ob = copy_dims (dimensions ibInput1) ibInput1 (setDimensions (dimensions ibInput1) (outputs ! 0));
          ob = for_loop 0 (dimensions ibInput1)
            (\<lambda>i o'. if i < axis then setLength i (extent ibInput0 i) o' else o') ob
      in Some (outputs[0 := setFormat (dimensionFormat ibInput0) (setHalideType (ttype ibInput0) ob)]))"

section \<open>Blocks\<close>

definition DepthToSpaceSizeComputer :: "int \<Rightarrow> Tensor list \<Rightarrow> Tensor list \<Rightarrow> Tensor list option" where
  "DepthToSpaceSizeComputer blockSize inputs outputs =
     (let ib = inputs ! 0;
          ob = setHalideType (ttype ib) (setDimensions (dimensions ib) (outputs ! 0));
          ob = (if dimensionFormat ib = FMT_NHWC then
                  setLength 3 (cdiv (extent ib 3) (blockSize * blockSize))
                    (setLength 2 (extent ib 2 * blockSize)
                      (setLength 1 (extent ib 1 * blockSize) (setLength 0 (extent ib 0) ob)))
                else
                  setLength 1 (cdiv (extent ib 1) (blockSize * blockSize))
                    (setLength 2 (extent ib 2 * blockSize)
                      (setLength 3 (extent ib 3 * blockSize) (setLength 0 (extent ib 0) ob))))
      in Some (outputs[0 := setFormat (dimensionFormat ib) ob]))"

definition SpaceToDepthSizeComputer :: "int \<Rightarrow> Tensor list \<Rightarrow> Tensor list \<Rightarrow> Tensor list option" where
  "SpaceToDepthSizeComputer blockSize inputs outputs =
     (let ib = inputs ! 0;
          ob = setHalideType (ttype ib) (setDimensions (dimensions ib) (outputs ! 0));
          ob = setLength 0 (extent ib 0) ob;
          ob = (if FMT_NHWC = dimensionFormat ib then
                  setLength 3 (extent ib 3 * (blockSize * blockSize))
                    (setLength 2 (cdiv (extent ib 2) blockSize)
                      (setLength 1 (cdiv (extent ib 1) blockSize) ob))
                else
                  setLength 1 (extent ib 1 * (blockSize * blockSize))
                    (setLength 2 (cdiv (extent ib 2) blockSize)
                      (setLength 3 (cdiv (extent ib 3) blockSize) ob)))
      in Some (outputs[0 := setFormat (dimensionFormat ib) ob]))"

text \<open>
  The block shape and paddings: inputs 1 and 2, or the parameter's two blobs
  (\<open>blockShape\<close>'s first extent is the number of blocks).
\<close>

record SpaceBatch =
  blockCount :: int
  blockShape :: "int list"
  sbPadding :: "int list"

definition space_batch :: "SpaceBatch \<Rightarrow> Tensor list \<Rightarrow> int \<times> (int \<Rightarrow> int) \<times> (int \<Rightarrow> int)" where
  "space_batch param inputs =
     (if length inputs = 3 then (extent (inputs ! 1) 0, host_int (inputs ! 1), host_int (inputs ! 2))
      else (blockCount param, \<lambda>i. blockShape param ! nat i, \<lambda>i. sbPadding param ! nat i))"

definition BatchToSpaceNDSizeComputer :: "SpaceBatch \<Rightarrow> Tensor list \<Rightarrow> Tensor list \<Rightarrow> Tensor list option" where
  "BatchToSpaceNDSizeComputer param inputs outputs =
     (let input = inputs ! 0;
          (blockSize, blockData, paddingData) = space_batch param inputs;
          b = for_loop 0 blockSize (\<lambda>i b. cdiv b (blockData i)) (batch input);
          output = setDimensions (dimensions input) (setLength 0 b (outputs ! 0));
          output = setFormat (dimensionFormat input) (setHalideType (ttype input) output);
          output = (if FMT_NHWC \<noteq> dimensionFormat input then
              for_loop 0 blockSize
                (\<lambda>i. setLength (i + 2) (extent input (2 + i) * blockData i - paddingData (2 * i) - paddingData (2 * i + 1)))
                (setLength 1 (extent input 1) output)
            else
              for_loop 0 blockSize
                (\<lambda>i. setLength (i + 1) (extent input (1 + i) * blockData i - paddingData (2 * i) - paddingData (2 * i + 1)))
                (setLength (1 + blockSize) (extent input (1 + blockSize)) output))
      in Some (outputs[0 := output]))"

definition SpaceToBatchNDSizeComputer :: "SpaceBatch \<Rightarrow> Tensor list \<Rightarrow> Tensor list \<Rightarrow> Tensor list option" where
  "SpaceToBatchNDSizeComputer param inputs outputs =
     (let input = inputs ! 0;
          (blockSize, blockData, paddingData) = space_batch param inputs;
          b = for_loop 0 blockSize (\<lambda>i b. b * blockData i) (batch input);
          output = setDimensions (dimensions input) (setHalideType (ttype input) (outputs ! 0));
          output = setFormat (dimensionFormat input) (setLength 0 b output);
          output = (if FMT_NHWC \<noteq> dimensionFormat input then
              for_loop 0 blockSize
                (\<lambda>i. setLength (i + 2) (cdiv (extent input (2 + i) + paddingData (2 * i) + paddingData (2 * i + 1)) (blockData i)))
                (setLength 1 (extent input 1) output)
            else
              setLength (1 + blockSize) (extent input (1 + blockSize))
                (for_loop 0 blockSize
                  (\<lambda>i. setLength (i + 1) (cdiv (extent input (1 + i) + paddingData (2 * i) + paddingData (2 * i + 1)) (blockData i)))
                  output))
      in Some (outputs[0 := output]))"

section \<open>Types and shape queries\<close>

datatype CastKind = OpType_Cast DataType | OpType_CastLike | OpType_FloatToInt8 | OpType_Int8ToFloat

definition CastSizeComputer :: "CastKind \<Rightarrow> Tensor list \<Rightarrow> Tensor list \<Rightarrow> Tensor list option" where
  "CastSizeComputer kind inputs outputs =
     (let output = copyShape (inputs ! 0) (outputs ! 0) True
      in Some (outputs[0 := (case kind of
           OpType_CastLike \<Rightarrow> setHalideType (ttype (inputs ! 1)) output
         | OpType_FloatToInt8 \<Rightarrow> setHalideType type_int8 output
         | OpType_Int8ToFloat \<Rightarrow> setHalideType type_float output
         | OpType_Cast dstT \<Rightarrow> setType dstT output)]))"

definition ShapeDequantize :: "Tensor list \<Rightarrow> Tensor list \<Rightarrow> Tensor list option" where
  "ShapeDequantize inputs outputs =
     Some (outputs[0 := setHalideType type_float (copyShape (inputs ! 0) (outputs ! 0) True)])"

definition ShapeSizeComputer :: "MNN_DATA_FORMAT \<Rightarrow> Tensor list \<Rightarrow> Tensor list \<Rightarrow> Tensor list option" where
  "ShapeSizeComputer defaultFormat inputs outputs =
     (let ib = inputs ! 0;
          ob = setFormat defaultFormat (setType DT_INT32 (setDimensions 1 (outputs ! 0)))
      in Some (outputs[0 :=
           if dimensionFormat ib = FMT_NC4HW4 \<and> defaultFormat = FMT_NHWC
           then setLength 0 4 ob else setLength 0 (dimensions ib) ob]))"

text \<open>The attributes \<open>ShapeRasterComputer\<close> reads, by key; the enum casts are given decoded.\<close>

datatype RasterAttr = AttrShape "int list option" | AttrCode halide_type_code | AttrBits int
  | AttrFormat MNN_DATA_FORMAT | AttrOther

definition ShapeRasterComputer :: "RasterAttr list option \<Rightarrow> Tensor list \<Rightarrow> Tensor list \<Rightarrow> Tensor list option" where
  "ShapeRasterComputer extra inputs outputs =
     (let output = outputs ! 0 in
      case extra of
        None \<Rightarrow> Some (outputs[0 := copyShape (inputs ! 0) (setHalideType (ttype (inputs ! 0)) output) True])
      | Some attrs \<Rightarrow>
          let output = (if length inputs > 0
                        then setFormat (dimensionFormat (inputs ! 0)) (setHalideType (ttype (inputs ! 0)) output)
                        else output)
          in Some (outputs[0 := fold (\<lambda>attr o'. case attr of
                 AttrShape None \<Rightarrow> setDimensions 0 o'
               | AttrShape (Some ds) \<Rightarrow>
                   for_loop 0 (int (length ds)) (\<lambda>j. setLength j (ds ! nat j)) (setDimensions (int (length ds)) o')
               | AttrCode c \<Rightarrow> setHalideType ((ttype o')\<lparr>tcode := c\<rparr>) o'
               | AttrBits b \<Rightarrow> setHalideType ((ttype o')\<lparr>tbits := b\<rparr>) o'
               | AttrFormat f \<Rightarrow> setFormat f o'
               | AttrOther \<Rightarrow> o') attrs output]))"

definition SizeOpComputer :: "MNN_DATA_FORMAT \<Rightarrow> Tensor list \<Rightarrow> Tensor list \<Rightarrow> Tensor list option" where
  "SizeOpComputer defaultFormat inputs outputs =
     Some (outputs[0 := setFormat defaultFormat (setType DT_INT32 (setDimensions 0 (outputs ! 0)))])"

lemmas [shape_defs] = ConcatSizeComputer_def SliceComputer_def SliceTfComputer_def PackComputer_def
  UnpackComputer_def PermuteComputer_def TransposeComputer_def TensorConvertSizeComputer_def
  ReshapeComputer_def FlattenComputer_def UnSqueezeSizeComputer_def SqueezeSizeComputer_def
  ExpandDimsComputer_def TileComputer_def PaddingComputer_def CropSizeComputer_def
  DepthToSpaceSizeComputer_def SpaceToDepthSizeComputer_def BatchToSpaceNDSizeComputer_def
  SpaceToBatchNDSizeComputer_def CastSizeComputer_def ShapeDequantize_def ShapeSizeComputer_def
  ShapeRasterComputer_def SizeOpComputer_def

end
