(* ===== verification/Shape_Suite.thy ===== *)
theory Shape_Suite
  imports Shape_Layout
begin

text \<open>
  \<open>SizeComputerSuite\<close> and the two static entry points of \<open>SizeComputer\<close>
  (source/shape/SizeComputer.cpp): \<open>computeOutputSize\<close>, which dispatches on the op, and
  \<open>needInputContent\<close>, which says whose content a computer reads; with
  \<open>computeShapeForBlob\<close> of source/utils/InitNet.cpp. The registry maps an op type to a
  registered computer; the computers themselves are in the other theories.
\<close>

section \<open>Ops and the registry\<close>

datatype OpType = OpType_While | OpType_If | OpType_Deconvolution | OpType_Squeeze
  | OpType_Unsqueeze | OpType_ReverseSequence | OpType_Reverse | OpType_CumSum
  | OpType_StridedSlice | OpType_Other nat

record Blob =
  blobDims :: "int list option"
  dataType :: DataType
  dataFormat :: MNN_DATA_FORMAT

text \<open>
  The op's parameter, as far as the dispatcher looks into it: a constant's blob, a
  loop's \<open>extraTensorInfos\<close> (each one's blob), a convolution's \<open>hasOutputShape\<close>
  (\<open>None\<close> without \<open>common\<close>), a strided slice's \<open>fromType\<close>.
\<close>

datatype OpMain = Main_Blob Blob | Main_LoopParam "Blob list option"
  | Main_Convolution2D "bool option" | Main_StridedSliceParam int | Main_None

record Op =
  otype :: OpType
  main :: OpMain

record SizeComputer =
  onComputeSize :: "Op \<Rightarrow> Tensor list \<Rightarrow> Tensor list \<Rightarrow> Tensor list option"
  mNeedContentInputIndex :: "int list"

type_synonym Suite = "OpType \<Rightarrow> SizeComputer option"

definition suite_insert :: "SizeComputer \<Rightarrow> OpType \<Rightarrow> Suite \<Rightarrow> Suite" where
  "suite_insert t ty reg = reg(ty := Some t)"

definition suite_search :: "OpType \<Rightarrow> Suite \<Rightarrow> SizeComputer option" where
  "suite_search name reg = reg name"

section \<open>Shapes from blobs\<close>

definition computeShapeForBlob :: "Blob \<Rightarrow> Tensor \<Rightarrow> bool \<times> Tensor" where
  "computeShapeForBlob parameter output =
     (let (zeroShape, output) = (case blobDims parameter of
            Some ds \<Rightarrow> for_loop 0 (int (length ds))
              (\<lambda>i (z, o'). (z \<or> ds ! nat i \<le> 0, setLength i (ds ! nat i) o'))
              (False, setDimensions (int (length ds)) output)
          | None \<Rightarrow> (False, setDimensions 0 output));
          output = (if dataType parameter = DT_HALF then setType DT_FLOAT output
                    else setType (dataType parameter) output)
      in (zeroShape, setLinearLayout (setFormat (dataFormat parameter) output)))"

definition loop_output :: "Blob \<Rightarrow> Tensor \<Rightarrow> Tensor" where
  "loop_output blob output =
     (let output = setType (dataType blob) (setFormat (dataFormat blob) output)
      in case blobDims blob of
           Some ds \<Rightarrow> for_loop 0 (int (length ds)) (\<lambda>j. setLength j (ds ! nat j))
                        (setDimensions (int (length ds)) output)
         | None \<Rightarrow> setDimensions 0 output)"

section \<open>\<open>computeOutputSize\<close>\<close>

text \<open>Without a computer the outputs get the inputs' shapes; \<open>same\<close>: \<open>inputs[0] == outputs[0]\<close>.\<close>

definition default_size :: "bool \<Rightarrow> Tensor list \<Rightarrow> Tensor list \<Rightarrow> Tensor list option" where
  "default_size same inputs outputs =
     (if length inputs \<ge> 1 \<and> (length outputs = 1 \<or> length outputs = length inputs) then
        if same then Some outputs
        else Some (for_loop 0 (int (length outputs))
          (\<lambda>i outs. let ib = inputs ! nat i in
             outs[nat i := setFormat (dimensionFormat ib) (setHalideType (ttype ib)
               (setDimensions (dimensions ib) (copy_dims (dimensions ib) ib (outs ! nat i))))]) outputs)
      else None)"

definition computeOutputSize ::
  "Suite \<Rightarrow> Op option \<Rightarrow> bool \<Rightarrow> Tensor list \<Rightarrow> Tensor list \<Rightarrow> Tensor list option" where
  "computeOutputSize reg opOpt same inputs outputs =
     (case opOpt of
        None \<Rightarrow> default_size same inputs outputs
      | Some op \<Rightarrow>
          (case (main op, otype op) of
             (Main_Blob b, _) \<Rightarrow> Some (outputs[0 := snd (computeShapeForBlob b (outputs ! 0))])
           | (Main_LoopParam infos, OpType_While) \<Rightarrow>
               (case infos of
                  None \<Rightarrow> None
                | Some bs \<Rightarrow> Some (for_loop 0 (int (length outputs))
                    (\<lambda>i outs. outs[nat i := loop_output (bs ! nat i) (outs ! nat i)]) outputs))
           | _ \<Rightarrow>
               if otype op = OpType_While \<or> otype op = OpType_If then None
               else if \<exists>t\<in>set inputs. \<exists>i\<in>set [0..dimensions t - 1]. extent t i < 0 then None
               else (case suite_search (otype op) reg of
                       Some computer \<Rightarrow> onComputeSize computer op inputs outputs
                     | None \<Rightarrow> default_size same inputs outputs)))"

section \<open>\<open>needInputContent\<close>\<close>

text \<open>(The branch compiled with \<open>MNN_SUPPORT_RENDER\<close> is left out.)\<close>

definition needInputContent :: "Suite \<Rightarrow> Op option \<Rightarrow> int \<Rightarrow> int list" where
  "needInputContent reg opOpt inputSize =
     (case opOpt of
        None \<Rightarrow> []
      | Some op \<Rightarrow>
          if otype op = OpType_Deconvolution \<and> main op = Main_Convolution2D (Some True) then [inputSize - 1]
          else if inputSize > 1 \<and> (otype op = OpType_Squeeze \<or> otype op = OpType_Unsqueeze
                  \<or> otype op = OpType_ReverseSequence \<or> otype op = OpType_Reverse) then [1]
          else if otype op = OpType_CumSum then [1]
          else (case (otype op, main op) of
                  (OpType_StridedSlice, Main_StridedSliceParam ft) \<Rightarrow>
                    (if ft = 0 then (if 5 = inputSize then [] else [1, 2, 3]) else [1, 2, 3, 4])
                | _ \<Rightarrow> (case suite_search (otype op) reg of
                          Some computer \<Rightarrow> mNeedContentInputIndex computer
                        | None \<Rightarrow> [])))"

section \<open>The contract between the dispatcher and a computer\<close>

text \<open>
  What the caller relies on: as many outputs come back as were given. The dispatcher
  keeps it when every registered computer does.
\<close>

locale size_computer =
  fixes compute :: "Tensor list \<Rightarrow> Tensor list \<Rightarrow> Tensor list option"
  assumes length_compute: "compute inputs outputs = Some outs \<Longrightarrow> length outs = length outputs"
begin

lemma outputs_nonempty: "compute inputs outputs = Some outs \<Longrightarrow> outputs \<noteq> [] \<Longrightarrow> outs \<noteq> []"
  using length_compute by fastforce

text \<open>An invariant of the outputs' number survives a chain of calls.\<close>

lemma length_chain:
  "foldM (\<lambda>ins outs. compute ins outs) inss outputs = Some outs \<Longrightarrow> length outs = length outputs"
  by (induction inss arbitrary: outputs) (auto split: option.splits dest: length_compute)

end

lemma length_for_update:
  "length (for_loop a b (\<lambda>i outs. outs[nat i := f i outs]) outs) = length outs"
proof -
  have "length (fold (\<lambda>i outs. outs[nat i := f i outs]) ks outs) = length outs" for ks
    by (induction ks arbitrary: outs) simp_all
  then show ?thesis by (simp add: for_loop_def)
qed

lemma length_default_size: "default_size same inputs outputs = Some outs \<Longrightarrow> length outs = length outputs"
  by (auto simp: default_size_def Let_def length_for_update split: if_splits)

interpretation default_sz: size_computer "default_size same"
  by unfold_locales (rule length_default_size)

interpretation reshape_sz: size_computer "ReshapeComputer dims dimType"
  by unfold_locales (auto simp: ReshapeComputer_def Let_def split: prod.splits if_splits)

interpretation transpose_sz: size_computer TransposeComputer
  by unfold_locales (auto simp: TransposeComputer_def Let_def split: if_splits option.splits)

interpretation concat_sz: size_computer "ConcatSizeComputer axis"
  by unfold_locales (auto simp: ConcatSizeComputer_def Let_def split: prod.splits if_splits option.splits)

lemma computeOutputSize_length:
  assumes "\<And>ty c op. reg ty = Some c \<Longrightarrow> size_computer (onComputeSize c op)"
    and "computeOutputSize reg op same inputs outputs = Some outs"
  shows "length outs = length outputs"
proof -
  have reg: "onComputeSize c op inputs outputs = Some outs \<Longrightarrow> length outs = length outputs"
    if "suite_search ty reg = Some c" for ty c op
    using assms(1) that by (auto simp: suite_search_def size_computer_def)
  show ?thesis using assms(2) reg
    by (auto simp: computeOutputSize_def length_default_size length_for_update
        split: option.splits OpMain.splits OpType.splits if_splits)
qed

lemmas [shape_defs] = default_size_def computeOutputSize_def needInputContent_def

end
