(* ===== verification/Layout_Props.thy ===== *)
theory Layout_Props
  imports Shape_Suite
begin

text \<open>What the rearranging computers promise: element counts, round trips, failures.\<close>

section \<open>Shapes as lists\<close>

lemma shape_setLength: "0 \<le> i \<Longrightarrow> i < dimensions t \<Longrightarrow> shape (setLength i v t) = (shape t)[nat i := v]"
proof (rule nth_equalityI)
  show "length (shape (setLength i v t)) = length ((shape t)[nat i := v])" by simp
  fix k assume "0 \<le> i" "i < dimensions t" "k < length (shape (setLength i v t))"
  then show "shape (setLength i v t) ! k = (shape t)[nat i := v] ! k"
    by (auto simp: shape_def nth_upto nth_list_update_if nat_eq_iff)
qed

lemma shape_setLength_out: "dimensions t \<le> i \<Longrightarrow> shape (setLength i v t) = shape t"
  by (rule shape_eqI) auto

lemma prod_list_update:
  fixes xs :: "int list"
  shows "k < length xs \<Longrightarrow> xs ! k = 1 \<Longrightarrow> prod_list (xs[k := v]) = prod_list xs * v"
  by (induction xs arbitrary: k) (auto simp: nth_Cons split: nat.splits)

lemma prod_list_mset: "mset xs = mset ys \<Longrightarrow> prod_list xs = prod_list (ys :: int list)"
  by (metis prod_mset_prod_list)

lemma fmt_type_sel [simp]:
  "shape (t\<lparr>tensorArrayAttr := a\<rparr>) = shape t" "shape (t\<lparr>stride := s\<rparr>) = shape t"
  by (simp_all add: shape_def)

section \<open>Reshape\<close>

lemma reshape_loop:
  fixes shapes :: "int \<Rightarrow> int" and input out :: Tensor and fromTf :: bool
  defines "body \<equiv> (\<lambda>i (da, o'). if shapes i = -1 then (i, setLength i 1 o')
                  else if shapes i = 0 \<and> \<not> fromTf then (da, setLength i (extent input i) o')
                  else (da, setLength i (shapes i) o'))"
  assumes "for_loop 0 n body (-1, out) = (da, o1)"
  shows "dimensions o1 = dimensions out" "ttype o1 = ttype out"
    "0 \<le> da \<Longrightarrow> da < n \<and> extent o1 da = 1"
    "0 \<le> i \<Longrightarrow> i < n \<Longrightarrow> shapes i \<noteq> -1 \<Longrightarrow> extent o1 i = (if shapes i = 0 \<and> \<not> fromTf then extent input i else shapes i)"
proof -
  define J where "J = (\<lambda>ks (s :: int \<times> Tensor). dimensions (snd s) = dimensions out \<and> ttype (snd s) = ttype out \<and>
      (0 \<le> fst s \<longrightarrow> fst s \<in> set ks \<and> extent (snd s) (fst s) = 1) \<and>
      (\<forall>i\<in>set ks. shapes i \<noteq> -1 \<longrightarrow>
         extent (snd s) i = (if shapes i = 0 \<and> \<not> fromTf then extent input i else shapes i)))"
  have gen: "distinct (ps @ ks) \<Longrightarrow> J ps s \<Longrightarrow> J (ps @ ks) (fold body ks s)" for ps ks s
  proof (induction ks arbitrary: ps s)
    case Nil
    then show ?case by simp
  next
    case (Cons k ks)
    obtain da t where s: "s = (da, t)" by force
    have "k \<notin> set ps" using Cons.prems(1) by auto
    then have "J (ps @ [k]) (body k s)"
      using Cons.prems(2) by (auto simp: J_def body_def s)
    from Cons.IH [OF _ this] Cons.prems(1) show ?case by simp
  qed
  have "J ([] @ [0..n - 1]) (fold body [0..n - 1] (-1, out))"
    by (rule gen) (simp_all add: J_def)
  then have J: "J [0..n - 1] (da, o1)" using assms(2) by (simp add: for_loop_def)
  then show "dimensions o1 = dimensions out" "ttype o1 = ttype out" by (simp_all add: J_def)
  show "0 \<le> da \<Longrightarrow> da < n \<and> extent o1 da = 1" using J by (simp add: J_def)
  show "0 \<le> i \<Longrightarrow> i < n \<Longrightarrow> shapes i \<noteq> -1 \<Longrightarrow> extent o1 i = (if shapes i = 0 \<and> \<not> fromTf then extent input i else shapes i)"
    using J by (simp add: J_def)
qed

text \<open>
  A reshape that succeeds keeps the number of elements, whatever the requested
  dimensions (with \<open>-1\<close> and \<open>0\<close> among them), and has the requested rank and the input's
  type.
\<close>

theorem reshape_preserves_count:
  assumes "ReshapeComputer dims dimType inputs outputs = Some outs" and "outputs \<noteq> []"
  shows "prod_list (shape (outs ! 0)) = prod_list (shape (inputs ! 0)) \<and>
    dimensions (outs ! 0) = fst (reshape_shapes dims dimType inputs) \<and> ttype (outs ! 0) = ttype (inputs ! 0)"
proof -
  obtain n fromTf shapes where sh: "reshape_shapes dims dimType inputs = (n, fromTf, shapes)" by (cases "reshape_shapes dims dimType inputs")
  define body where "body = (\<lambda>i (da, o'). if shapes i = -1 then (i, setLength i 1 o')
                  else if shapes i = 0 \<and> \<not> fromTf then (da, setLength i (extent (inputs ! 0) i) o')
                  else (da, setLength i (shapes i) o'))"
  define out where "out = setDimensions n (setHalideType (ttype (inputs ! 0)) (outputs ! 0))"
  obtain da o1 where L: "for_loop 0 n body (-1, out) = (da, o1)" by force
  note R = reshape_loop [OF L [unfolded body_def]]
  have d: "dimensions o1 = n" "ttype o1 = ttype (inputs ! 0)" using R(1,2) by (simp_all add: out_def)
  let ?tin = "prod_list (shape (inputs ! 0))" and ?t1 = "prod_list (shape o1)"
  have tin: "for_loop 0 (dimensions (inputs ! 0)) (\<lambda>i acc. acc * extent (inputs ! 0) i) 1 = ?tin"
    by (simp add: for_times shape_def)
  have t1: "for_loop 0 n (\<lambda>i acc. acc * extent o1 i) 1 = ?t1" by (simp add: for_times shape_def d)
  define v where "v = (if ?t1 \<noteq> 0 then cdiv ?tin ?t1 else 0)"
  have eq: "ReshapeComputer dims dimType inputs outputs =
      (if ?tin \<noteq> (if da \<ge> 0 then ?t1 * v else ?t1) then None
       else Some (outputs[0 := setFormat (dimensionFormat (inputs ! 0)) (if da \<ge> 0 then setLength da v o1 else o1)]))"
    unfolding ReshapeComputer_def sh Let_def prod.case out_def [symmetric] body_def [symmetric] L tin t1
    by (simp add: v_def)
  have len: "0 < length outputs" using assms(2) by simp
  show ?thesis
  proof (cases "da \<ge> 0")
    case True
    then have da: "da < n" "extent o1 da = 1" using R(3) by auto
    have "shape o1 ! nat da = 1" using nth_shape [of da o1] True da d by simp
    then have "prod_list (shape (setLength da v o1)) = ?t1 * v"
      using True da d by (simp add: shape_setLength prod_list_update)
    then show ?thesis using assms(1) True len d by (auto simp: eq sh split: if_splits)
  next
    case False
    then show ?thesis using assms(1) len d by (auto simp: eq sh split: if_splits)
  qed
qed

theorem reshape_preserves_count_witness:
  "\<exists>outs. ReshapeComputer [0, -1, 2] None [tensor_of FMT_NCHW [2, 3, 4]] [tensor_of FMT_NCHW []] = Some outs \<and>
     shape (outs ! 0) = [2, 6, 2] \<and> prod_list (shape (outs ! 0)) = 24"
proof -
  let ?r = "ReshapeComputer [0, -1, 2] None [tensor_of FMT_NCHW [2, 3, 4]] [tensor_of FMT_NCHW []]"
  have "(case ?r of Some outs \<Rightarrow> shape (outs ! 0) = [2, 6, 2] | None \<Rightarrow> False)" by code_simp
  then obtain outs where o: "?r = Some outs" "shape (outs ! 0) = [2, 6, 2]" by (auto split: option.splits)
  from reshape_preserves_count [OF o(1)] o show ?thesis by auto
qed

text \<open>
  Flattening the middle dimensions of a tensor leaves an extent of the result
  unwritten: with \<open>axis < endAxis < rank - 1\<close> the trailing extents are stored at their
  old positions, so position \<open>axis + 1\<close> keeps whatever the output tensor held before.
\<close>

theorem flatten_middle_keeps_stale_extent:
  assumes "0 \<le> axis" and "axis < endAxis" and "endAxis < dimensions t - 1"
  shows "\<exists>u. FlattenComputer (Some (axis, endAxis)) [t] [out] = Some [u] \<and>
    axis + 1 < dimensions u \<and> extent u (axis + 1) = extent out (axis + 1)"
  using assms by (auto simp: FlattenComputer_def Let_def)

theorem flatten_middle_keeps_stale_extent_witness:
  "\<exists>u. FlattenComputer (Some (1, 2)) [tensor_of FMT_NCHW [2, 3, 4, 5]] [tensor_of FMT_NCHW [9, 9, 77]] = Some [u] \<and>
     2 < dimensions u \<and> extent u 2 = 77"
proof -
  have "(1::int) < 2" "(2::int) < dimensions (tensor_of FMT_NCHW [2, 3, 4, 5]) - 1" "extent (tensor_of FMT_NCHW [9, 9, 77]) 2 = 77"
    by (simp_all add: tensor_of_def)
  with flatten_middle_keeps_stale_extent [of 1 2 "tensor_of FMT_NCHW [2, 3, 4, 5]" "tensor_of FMT_NCHW [9, 9, 77]"]
  show ?thesis by simp
qed

section \<open>Concatenation\<close>

definition agree_off :: "int \<Rightarrow> Tensor \<Rightarrow> Tensor \<Rightarrow> bool" where
  "agree_off axis t u \<longleftrightarrow> dimensions t = dimensions u \<and>
     (\<forall>i. 0 \<le> i \<and> i < dimensions t \<and> i \<noteq> axis \<longrightarrow> extent t i = extent u i)"

lemma concat_check:
  "for_check 0 n (\<lambda>i ob. if axis = i then Some ob else if extent t i \<noteq> extent ob i then None else Some ob) ob =
     (if \<forall>i. 0 \<le> i \<and> i < n \<and> i \<noteq> axis \<longrightarrow> extent t i = extent ob i then Some ob else None)"
proof -
  have "foldM (\<lambda>i ob. if axis = i then Some ob else if extent t i \<noteq> extent ob i then None else Some ob) ks ob =
      (if \<forall>i\<in>set ks. i \<noteq> axis \<longrightarrow> extent t i = extent ob i then Some ob else None)" for ks
    by (induction ks) auto
  then show ?thesis unfolding for_check_def by (auto intro!: if_cong)
qed


lemma concat_loop:
  "foldM (\<lambda>t (acc, ob). let acc = acc + extent t axis; ob = setHalideType (ttype t) ob
                in case for_check 0 (dimensions t)
                          (\<lambda>i ob. if axis = i then Some ob
                                   else if extent t i \<noteq> extent ob i then None else Some ob) ob of
                     None \<Rightarrow> None | Some ob \<Rightarrow> Some (acc, ob)) us (acc, ob) =
    (if \<forall>u\<in>set us. \<forall>i. 0 \<le> i \<and> i < dimensions u \<and> i \<noteq> axis \<longrightarrow> extent u i = extent ob i
     then Some (acc + sum_list (map (\<lambda>u. extent u axis) us), fold (\<lambda>u. setHalideType (ttype u)) us ob) else None)"
  unfolding Let_def concat_check setHalideType_sel
  by (induction us arbitrary: acc ob) (auto simp: add.assoc)

lemma fold_types_sel:
  "extent (fold (\<lambda>u. setHalideType (ttype u)) us ob) = extent ob"
  "dimensions (fold (\<lambda>u. setHalideType (ttype u)) us ob) = dimensions ob"
  by (induction us arbitrary: ob) simp_all

lemma shape_fold_types: "shape (fold (\<lambda>u. setHalideType (ttype u)) us ob) = shape ob"
  by (rule shape_eqI) (simp_all add: fold_types_sel)

lemma concat_spec:
  fixes t out :: Tensor and ts :: "Tensor list" and basicAxis :: int
  defines "axis \<equiv> (if basicAxis < 0 then dimensions t + basicAxis else basicAxis)"
  assumes "0 \<le> axis" and "axis < dimensions t" and "\<forall>u\<in>set ts. dimensions u = dimensions t"
  shows "case ConcatSizeComputer basicAxis (t # ts) [out] of
      None \<Rightarrow> \<exists>u\<in>set ts. \<not> agree_off axis u t
    | Some outs \<Rightarrow> (\<forall>u\<in>set ts. agree_off axis u t) \<and>
        (\<exists>v. outs = [v] \<and> shape v = (shape t)[nat axis := sum_list (map (\<lambda>u. extent u axis) (t # ts))])"
proof -
  define ob where "ob = setHalideType (ttype t) (setDimensions (dimensions t) (copy_dims (dimensions t) t out))"
  have ob: "dimensions ob = dimensions t" "\<And>i. 0 \<le> i \<Longrightarrow> i < dimensions t \<Longrightarrow> extent ob i = extent t i"
    by (simp_all add: ob_def)
  then have sob: "shape ob = shape t" by (intro shape_eqI) simp_all
  have chk: "(\<forall>u\<in>set (t # ts). \<forall>i. 0 \<le> i \<and> i < dimensions u \<and> i \<noteq> axis \<longrightarrow> extent u i = extent ob i) =
      (\<forall>u\<in>set ts. agree_off axis u t)"
    using assms(4) ob by (auto simp: agree_off_def)
  let ?ob2 = "fold (\<lambda>u. setHalideType (ttype u)) (t # ts) ob"
  let ?s = "sum_list (map (\<lambda>u. extent u axis) (t # ts))"
  have ax: "(if basicAxis < 0 then dimensions t + basicAxis else basicAxis) = axis" by (simp add: axis_def)
  have eq: "ConcatSizeComputer basicAxis (t # ts) [out] =
      (if \<forall>u\<in>set ts. agree_off axis u t
       then Some [setFormat (dimensionFormat t) (setLength axis ?s ?ob2)] else None)"
    unfolding ConcatSizeComputer_def Let_def list.case nth_Cons_0 ax ob_def [symmetric] prod.case
    unfolding concat_loop [unfolded Let_def] chk by simp
  have "shape (setLength axis ?s ?ob2) = (shape t)[nat axis := ?s]"
    using assms(2,3) by (subst shape_setLength) (simp_all only: fold_types_sel shape_fold_types ob sob)
  then show ?thesis unfolding eq by (auto split: option.splits)
qed

text \<open>
  Concatenation of tensors of the first one's rank, along an axis of that rank
  (negative ones count from the end): it fails exactly when some input disagrees with the
  first one off the axis, and else gives the first one's shape with the sum of the axis
  extents at the axis.
\<close>

theorem concat_shape:
  fixes t out :: Tensor and ts :: "Tensor list" and basicAxis :: int
  defines "axis \<equiv> (if basicAxis < 0 then dimensions t + basicAxis else basicAxis)"
  assumes "0 \<le> axis" and "axis < dimensions t" and "\<forall>u\<in>set ts. dimensions u = dimensions t"
  shows "case ConcatSizeComputer basicAxis (t # ts) [out] of
      None \<Rightarrow> \<exists>u\<in>set ts. \<not> agree_off axis u t
    | Some outs \<Rightarrow> (\<forall>u\<in>set ts. agree_off axis u t) \<and>
        (\<exists>v. outs = [v] \<and> shape v = (shape t)[nat axis := sum_list (map (\<lambda>u. extent u axis) (t # ts))])"
  unfolding axis_def by (rule concat_spec) (use assms in \<open>simp_all add: axis_def\<close>)

theorem concat_shape_witness:
  "\<exists>v. ConcatSizeComputer (-1) [tensor_of FMT_NCHW [2, 3], tensor_of FMT_NCHW [2, 5]] [tensor_of FMT_NCHW []] = Some [v] \<and>
     shape v = [2, 8]"
proof -
  let ?r = "ConcatSizeComputer (-1) [tensor_of FMT_NCHW [2, 3], tensor_of FMT_NCHW [2, 5]] [tensor_of FMT_NCHW []]"
  have "?r \<noteq> None" by code_simp
  then show ?thesis
    using concat_shape [of "-1" "tensor_of FMT_NCHW [2, 3]" "[tensor_of FMT_NCHW [2, 5]]" "tensor_of FMT_NCHW []"]
    by (auto split: option.splits)
qed

end
