(* ===== verification/Roundtrip_Props.thy ===== *)
theory Roundtrip_Props
  imports Layout_Props
begin

text \<open>
  Round trips: a computer followed by the one of the inverse operation gives the first
  input's shape back.
\<close>

section \<open>Slice and concat\<close>

lemma upto_Suc: "[0..int (Suc k) - 1] = [0..int k - 1] @ [int k]"
  by (simp add: upto_rec2)

definition cut :: "Tensor \<Rightarrow> int \<Rightarrow> int \<Rightarrow> Tensor \<Rightarrow> Tensor" where
  "cut t axis len o' = setLength axis len (slice_output t o')"

lemma cut_sel: "dimensions (cut t axis n o') = dimensions t"
    "extent (cut t axis n o') i = (if i = axis then n else if 0 \<le> i \<and> i < dimensions t then extent t i else extent o' i)"
  by (simp_all add: cut_def slice_output_def)

lemma shape_cut: "0 \<le> axis \<Longrightarrow> axis < dimensions t \<Longrightarrow> shape (cut t axis n o') = (shape t)[nat axis := n]"
proof -
  assume "0 \<le> axis" "axis < dimensions t"
  moreover have "shape (slice_output t o') = shape t" by (rule shape_eqI) (simp_all add: slice_output_def)
  ultimately show ?thesis by (simp add: cut_def shape_setLength slice_output_def del: shape_cong_sel)
qed

lemma slice_loop:
  assumes "k \<le> length points" and "length points = length outs" and "\<forall>p\<in>set points. p \<noteq> -1"
  shows "for_check 0 (int k)
     (\<lambda>i (dt, ms, os). let o' = slice_output t (os ! nat i); len = points ! nat i
        in if len \<noteq> -1 then Some (dt, ms + len, os[nat i := setLength axis len o'])
           else if dt \<ge> 0 then None else Some (i, ms, os[nat i := o'])) (-1, 0, outs) =
    Some (-1, sum_list (take k points), map2 (cut t axis) (take k points) (take k outs) @ drop k outs)"
  using assms(1)
proof (induction k)
  case 0
  then show ?case by simp
next
  case (Suc k)
  have k: "k < length points" "k < length outs" "points ! k \<noteq> -1" using Suc.prems assms(2,3) by auto
  have len: "length (map2 (cut t axis) (take k points) (take k outs)) = k" using k by simp
  have "(map2 (cut t axis) (take k points) (take k outs) @ drop k outs)[k := cut t axis (points ! k) (outs ! k)] =
      map2 (cut t axis) (take (Suc k) points) (take (Suc k) outs) @ drop (Suc k) outs"
    using k len by (simp add: list_update_append take_Suc_conv_app_nth Cons_nth_drop_Suc [symmetric])
  moreover have "(map2 (cut t axis) (take k points) (take k outs) @ drop k outs) ! k = outs ! k"
    using k len by (simp add: nth_append)
  ultimately show ?case using Suc k
    by (simp add: for_check_def upto_Suc foldM_append Let_def cut_def take_Suc_conv_app_nth del: of_nat_Suc)
qed

text \<open>
  Splitting along an axis into pieces that add up to its extent (the rule of every
  source but Caffe) gives pieces with those extents, and concatenating them along the
  axis gives the shape back.
\<close>

theorem slice_then_concat:
  assumes "0 \<le> axis" and "axis < dimensions t" and "\<forall>p\<in>set points. 0 \<le> p"
    and "sum_list points = extent t axis" and "2 \<le> length points" and "length outs = length points"
  shows "\<exists>parts v. SliceComputer \<lparr>slice_axis = axis, slicePoints = Some points, sourceType = NetSource_ONNX\<rparr> [t] outs = Some parts \<and>
    map shape parts = map (\<lambda>p. (shape t)[nat axis := p]) points \<and>
    (\<forall>p\<in>set parts. dimensions p = dimensions t \<and> ttype p = ttype t \<and> dimensionFormat p = dimensionFormat t) \<and>
    ConcatSizeComputer axis parts [out] = Some [v] \<and> shape v = shape t"
proof -
  have np: "\<forall>p\<in>set points. p \<noteq> -1" using assms(3) by force
  define parts where "parts = map (setFormat (dimensionFormat t)) (map2 (cut t axis) points outs)"
  have s: "SliceComputer \<lparr>slice_axis = axis, slicePoints = Some points, sourceType = NetSource_ONNX\<rparr> [t] outs = Some parts"
    using assms slice_loop [OF order.refl assms(6) [symmetric] np, of t axis]
    by (simp add: SliceComputer_def Let_def parts_def)
  have sh: "map shape parts = map (\<lambda>p. (shape t)[nat axis := p]) points"
    using assms(1,2,6) by (intro nth_equalityI) (simp_all add: parts_def shape_cut)
  obtain q qs where q: "parts = q # qs" using assms(5,6) by (cases parts) (auto simp: parts_def)
  have el: "dimensions u = dimensions t \<and> (\<forall>i. 0 \<le> i \<and> i < dimensions t \<and> i \<noteq> axis \<longrightarrow> extent u i = extent t i)"
    if "u \<in> set parts" for u
    using that by (auto simp: parts_def cut_sel)
  have dq: "dimensions q = dimensions t" using el [of q, THEN conjunct1] unfolding q by simp
  have dims: "\<forall>u\<in>set qs. dimensions u = dimensions q"
  proof
    fix u assume "u \<in> set qs"
    then have "u \<in> set parts" by (simp add: q)
    from el [OF this, THEN conjunct1] show "dimensions u = dimensions q" by (simp only: dq)
  qed
  have "agree_off axis u q" if u: "u \<in> set qs" for u
  proof -
    have "u \<in> set parts" "q \<in> set parts" using u by (simp_all add: q)
    from el [OF this(1)] el [OF this(2)] show ?thesis by (simp add: agree_off_def)
  qed
  then have ag: "\<forall>u\<in>set qs. agree_off axis u q" by blast
  have sums: "map (\<lambda>u. extent u axis) parts = points"
    using assms(6) by (intro nth_equalityI) (simp_all add: parts_def cut_sel)
  obtain v where v: "ConcatSizeComputer axis (q # qs) [out] = Some [v]"
    "shape v = (shape q)[nat axis := sum_list (map (\<lambda>u. extent u axis) (q # qs))]"
    using concat_spec [of axis q qs out] assms(1,2) dq dims ag by (auto split: option.splits)
  have "shape q = (shape t)[nat axis := points ! 0]"
    using sh q assms(5) by (cases points) auto
  moreover have "extent t axis = shape t ! nat axis" using assms(1,2) by (simp add: nth_shape)
  ultimately have "shape v = shape t"
    unfolding v(2) q [symmetric] sums assms(4) by simp
  moreover have "\<forall>p\<in>set parts. dimensions p = dimensions t \<and> ttype p = ttype t \<and> dimensionFormat p = dimensionFormat t"
  proof
    fix p assume "p \<in> set parts"
    then obtain n o' where "p = setFormat (dimensionFormat t) (cut t axis n o')" by (auto simp: parts_def)
    then show "dimensions p = dimensions t \<and> ttype p = ttype t \<and> dimensionFormat p = dimensionFormat t"
      by (simp add: cut_def slice_output_def)
  qed
  ultimately show ?thesis using s sh v(1) q by blast
qed

theorem slice_then_concat_witness:
  "\<exists>parts v. SliceComputer \<lparr>slice_axis = 1, slicePoints = Some [3, 5, 2], sourceType = NetSource_ONNX\<rparr>
      [tensor_of FMT_NCHW [2, 10]] (replicate 3 (tensor_of FMT_NCHW [])) = Some parts \<and>
    map shape parts = [[2, 3], [2, 5], [2, 2]] \<and> ConcatSizeComputer 1 parts [tensor_of FMT_NCHW []] = Some [v] \<and> shape v = [2, 10]"
  using slice_then_concat [of 1 "tensor_of FMT_NCHW [2, 10]" "[3, 5, 2]" "replicate 3 (tensor_of FMT_NCHW [])" "tensor_of FMT_NCHW []"]
  by (simp add: eval_nat_numeral) (erule ex_forward, elim conjE, intro conjI)

text \<open>
  With Caffe's slice points the pieces are the differences of the points, and the
  last output gets what remains behind the last point. So points that end with the axis
  extent, as the comment in the code gives them, leave the last output empty.
\<close>

theorem slice_caffe_last_remainder:
  assumes "0 \<le> axis" and "axis < dimensions t" and "outs \<noteq> []" and "points \<noteq> []"
    and "length points = length outs" and "last points = extent t axis"
  shows "\<exists>parts. SliceComputer \<lparr>slice_axis = axis, slicePoints = Some points, sourceType = NetSource_CAFFE\<rparr> [t] outs = Some parts \<and>
    length parts = length outs \<and> extent (last parts) axis = 0"
proof -
  define body where "body = (\<lambda>i (previous, os). let sliceIndex = points ! nat i in
                    (sliceIndex, os[nat i := setLength axis (sliceIndex - previous) (slice_output t (os ! nat i))]))"
  have L: "fst (for_loop 0 (int k) body (0, outs)) = (if k = 0 then 0 else points ! (k - 1)) \<and>
      length (snd (for_loop 0 (int k) body (0, outs))) = length outs" for k
  proof (induction k)
    case 0
    then show ?case by simp
  next
    case (Suc k)
    have "for_loop 0 (int (Suc k)) body (0, outs) = body (int k) (for_loop 0 (int k) body (0, outs))"
      unfolding for_loop_def upto_Suc by simp
    moreover have "fst (body (int k) st) = points ! k" "length (snd (body (int k) st)) = length (snd st)" for st
      by (simp_all add: body_def case_prod_beta Let_def)
    ultimately show ?case using Suc by (simp del: of_nat_Suc)
  qed
  obtain os where os: "for_loop 0 (int (length points)) body (0, outs) = (extent t axis, os)" "length os = length outs"
    using L [of "length points"] assms(4,6) by (metis last_conv_nth length_0_conv prod.collapse)
  define new where "new = setLength axis (extent t axis - extent t axis) (slice_output t (os ! (length outs - 1)))"
  have "SliceComputer \<lparr>slice_axis = axis, slicePoints = Some points, sourceType = NetSource_CAFFE\<rparr> [t] outs =
      Some (map (setFormat (dimensionFormat t)) (os[length outs - 1 := new]))"
    using assms(1) os(1) by (simp add: SliceComputer_def Let_def body_def new_def)
  moreover have "extent (last (map (setFormat (dimensionFormat t)) (os[length outs - 1 := new]))) axis = 0"
  proof -
    have "os \<noteq> []" using assms(3) os(2) by auto
    then show ?thesis by (simp add: last_map last_conv_nth new_def os(2) [symmetric])
  qed
  ultimately show ?thesis using os(2) by simp
qed

theorem slice_caffe_last_remainder_witness:
  "\<exists>parts. SliceComputer \<lparr>slice_axis = 1, slicePoints = Some [3, 8, 10], sourceType = NetSource_CAFFE\<rparr>
      [tensor_of FMT_NCHW [2, 10]] (replicate 3 (tensor_of FMT_NCHW [])) = Some parts \<and> extent (last parts) 1 = 0"
  using slice_caffe_last_remainder [of 1 "tensor_of FMT_NCHW [2, 10]" "replicate 3 (tensor_of FMT_NCHW [])" "[3, 8, 10]"]
  by auto

section \<open>Transpose\<close>

lemma mset_upto_perm:
  assumes "distinct p" and "\<forall>d\<in>set p. 0 \<le> d \<and> d < n" and "length p = nat n"
  shows "mset p = mset [0..n - 1]"
proof -
  have "set p \<subseteq> {0..n - 1}" using assms(2) by auto
  moreover have "card (set p) = card {0..n - 1}" using assms(1,3) by (simp add: distinct_card)
  ultimately have "set p = set [0..n - 1]" by (simp add: card_subset_eq)
  then show ?thesis using assms(1) set_eq_iff_mset_eq_distinct [of p "[0..n - 1]"] by simp
qed

text \<open>
  Transpose by a permutation given as an int32 tensor: it fails exactly when an entry is not
  a dimension; else the result's extents are the input's in the given order, and all of
  them when the entries are distinct.
\<close>

theorem transpose_permutes:
  assumes "int (length p) = dimensions t"
  shows "case TransposeComputer [t, int_tensor p] [out] of
      None \<Rightarrow> \<exists>d\<in>set p. d < 0 \<or> dimensions t \<le> d
    | Some outs \<Rightarrow> (\<forall>d\<in>set p. 0 \<le> d \<and> d < dimensions t) \<and>
        (\<exists>u. outs = [u] \<and> shape u = map (extent t) p \<and> (distinct p \<longrightarrow> mset (shape u) = mset (shape t)))"
proof -
  let ?o = "setHalideType (ttype t) (setDimensions (dimensions t) out)"
  have host: "host_int (int_tensor p) i = p ! nat i" for i by (simp add: host_int_def)
  have swap: "(if A then None else Some x) = (if \<not> A then Some x else None)" for A and x :: Tensor by simp
  note fc = for_check_guard [of 0 "dimensions t" "\<lambda>i. \<not> (p ! nat i < 0 \<or> dimensions t \<le> p ! nat i)"
      "\<lambda>i. setLength i (extent t (p ! nat i))" ?o]
  have all: "(\<forall>i. 0 \<le> i \<and> i < dimensions t \<longrightarrow> \<not> (p ! nat i < 0 \<or> dimensions t \<le> p ! nat i)) =
      (\<forall>d\<in>set p. 0 \<le> d \<and> d < dimensions t)"
  proof
    assume L: "\<forall>i. 0 \<le> i \<and> i < dimensions t \<longrightarrow> \<not> (p ! nat i < 0 \<or> dimensions t \<le> p ! nat i)"
    show "\<forall>d\<in>set p. 0 \<le> d \<and> d < dimensions t"
    proof
      fix d assume "d \<in> set p"
      then obtain k where k: "k < length p" "p ! k = d" by (metis in_set_conv_nth)
      then show "0 \<le> d \<and> d < dimensions t" using L [rule_format, of "int k"] assms by auto
    qed
  next
    assume R: "\<forall>d\<in>set p. 0 \<le> d \<and> d < dimensions t"
    show "\<forall>i. 0 \<le> i \<and> i < dimensions t \<longrightarrow> \<not> (p ! nat i < 0 \<or> dimensions t \<le> p ! nat i)"
    proof (intro allI impI)
      fix i assume "0 \<le> i \<and> i < dimensions t"
      then have "p ! nat i \<in> set p" using assms by (intro nth_mem) linarith
      then show "\<not> (p ! nat i < 0 \<or> dimensions t \<le> p ! nat i)" using R by force
    qed
  qed
  have sh: "shape (setFormat f (?o\<lparr>extent := \<lambda>j. if 0 \<le> j \<and> j < dimensions t then extent t (p ! nat j) else extent ?o j\<rparr>)) =
      map (extent t) p" for f
    using assms by (intro shape_of_map) simp_all
  have ms: "distinct p \<Longrightarrow> \<forall>d\<in>set p. 0 \<le> d \<and> d < dimensions t \<Longrightarrow> mset (map (extent t) p) = mset (shape t)"
    using mset_upto_perm [of p "dimensions t"] assms by (simp add: shape_def)
  have eq: "TransposeComputer [t, int_tensor p] [out] =
      (if \<forall>d\<in>set p. 0 \<le> d \<and> d < dimensions t
       then Some [setFormat (dimensionFormat t) (?o\<lparr>extent := \<lambda>j. if 0 \<le> j \<and> j < dimensions t then extent t (p ! nat j) else extent ?o j\<rparr>)]
       else None)"
    unfolding TransposeComputer_def Let_def nth_Cons_0 nth_Cons_Suc One_nat_def host swap fc all for_setLength
    using assms by (simp add: halide_type_t_def)
  show ?thesis
  proof (cases "\<forall>d\<in>set p. 0 \<le> d \<and> d < dimensions t")
    case True
    then show ?thesis unfolding eq using sh ms by simp
  next
    case False
    then obtain d where "d \<in> set p" "d < 0 \<or> dimensions t \<le> d" by force
    then show ?thesis unfolding eq using False by auto
  qed
qed

theorem transpose_permutes_witness:
  "\<exists>u. TransposeComputer [tensor_of FMT_NHWC [1, 7, 9, 3], int_tensor [0, 3, 1, 2]] [tensor_of FMT_NCHW []] = Some [u] \<and>
     shape u = [1, 3, 7, 9]"
proof -
  have "TransposeComputer [tensor_of FMT_NHWC [1, 7, 9, 3], int_tensor [0, 3, 1, 2]] [tensor_of FMT_NCHW []] \<noteq> None"
    by code_simp
  with transpose_permutes [of "[0, 3, 1, 2]" "tensor_of FMT_NHWC [1, 7, 9, 3]" "tensor_of FMT_NCHW []"]
  show ?thesis by (auto split: option.splits)
qed

end
