(* ===== verification/Units_Props.thy ===== *)
theory Units_Props
  imports Roundtrip_Props
begin

text \<open>
  More round trips: a unit dimension added and removed, a layout changed and changed
  back, blocks moved between the spatial, channel and batch extents and back.
\<close>

section \<open>Unit dimensions\<close>

lemma push_loop:
  assumes "\<And>i st. a \<le> i \<Longrightarrow> i < b \<Longrightarrow> f i st = push_dims (g i) st"
  shows "for_loop a b f st = push_dims (concat (map g [a..b - 1])) st"
proof -
  have "fold f ks st = push_dims (concat (map g ks)) st" if "\<forall>k\<in>set ks. a \<le> k \<and> k < b" for ks
    using that by (induction ks arbitrary: st) (simp_all add: assms push_dims_append)
  then show ?thesis by (simp add: for_loop_def)
qed

lemma push_dims_sel:
  "push_dims vs (j, t) = (n, u) \<Longrightarrow> n = j + int (length vs) \<and> dimensions u = dimensions t \<and> ttype u = ttype t"
  unfolding push_dims_eq by auto

lemma concat_insert:
  assumes "0 \<le> d" and "d < n"
  shows "concat (map (\<lambda>i. if i = d then [v, f i] else [f i]) [0..n - 1]) = map f [0..d - 1] @ v # map f [d..n - 1]"
proof -
  have s: "[0..n - 1] = [0..d - 1] @ d # [d + 1..n - 1]" "[d..n - 1] = d # [d + 1..n - 1]"
    using assms upto_split2 [of 0 d "n - 1"] upto_rec1 [of d "n - 1"] by (simp_all add: upto_split3)
  have "concat (map (\<lambda>i. if i = d then [v, f i] else [f i]) ks) = map f ks" if "d \<notin> set ks" for ks
    using that by (induction ks) auto
  then show ?thesis by (simp add: s)
qed

lemma take_drop_shape:
  assumes "0 \<le> d" and "d \<le> dimensions t"
  shows "take (nat d) (shape t) = map (extent t) [0..d - 1]" "drop (nat d) (shape t) = map (extent t) [d..dimensions t - 1]"
proof -
  have "shape t = map (extent t) [0..d - 1] @ map (extent t) [d..dimensions t - 1]"
    using assms by (cases "d = dimensions t") (simp_all add: shape_def upto_split1 [of 0 d] flip: map_append)
  then show "take (nat d) (shape t) = map (extent t) [0..d - 1]" "drop (nat d) (shape t) = map (extent t) [d..dimensions t - 1]"
    by simp_all
qed

lemma expand_dims_spec:
  assumes "d = (if axis < 0 then dimensions t + 1 + axis else axis)" and "0 \<le> d" and "d \<le> dimensions t"
  shows "\<exists>u. ExpandDimsComputer axis [t] [out] = Some [u] \<and> dimensions u = dimensions t + 1 \<and>
    ttype u = ttype t \<and> dimensionFormat u = dimensionFormat t \<and>
    shape u = take (nat d) (shape t) @ 1 # drop (nat d) (shape t)"
proof -
  let ?o = "setHalideType (ttype t) out"
  have L: "for_loop 0 (dimensions t) (\<lambda>i st. push_dim (extent t i) (if i = d then push_dim 1 st else st)) (0, ?o) =
      push_dims (concat (map (\<lambda>i. if i = d then [1, extent t i] else [extent t i]) [0..dimensions t - 1])) (0, ?o)"
    by (rule push_loop) (simp add: push_dim_push_dims push_dims_append)
  let ?vs = "take (nat d) (shape t) @ 1 # drop (nat d) (shape t)"
  have P: "(if d = dimensions t then push_dim 1 (push_dims (concat (map (\<lambda>i. if i = d then [1, extent t i] else [extent t i]) [0..dimensions t - 1])) (0, ?o))
      else push_dims (concat (map (\<lambda>i. if i = d then [1, extent t i] else [extent t i]) [0..dimensions t - 1])) (0, ?o)) = push_dims ?vs (0, ?o)"
  proof (cases "d = dimensions t")
    case True
    have "concat (map (\<lambda>i. if i = d then [1, extent t i] else [extent t i]) [0..dimensions t - 1]) = concat (map (\<lambda>i. [extent t i]) [0..dimensions t - 1])"
      using True by (intro arg_cong [of _ _ concat] map_cong) auto
    then show ?thesis using True by (simp add: push_dim_push_dims push_dims_append shape_def)
  next
    case False
    then show ?thesis using assms concat_insert [of d "dimensions t" 1 "extent t"] by (simp add: take_drop_shape)
  qed
  have one_input: "(length [t] = 2) = False" by simp
  obtain n u where u: "push_dims ?vs (0, ?o) = (n, u)" by force
  have "int (length ?vs) = dimensions t + 1" using assms(2,3) by (simp add: min_def nat_le_eq_zle)
  then have "n = dimensions t + 1" "ttype u = ttype t" using push_dims_sel [OF u] by (simp_all only: setHalideType_sel add_0)
  moreover have "ExpandDimsComputer axis [t] [out] = Some [setFormat (dimensionFormat t) (setDimensions n u)]"
    unfolding ExpandDimsComputer_def Let_def nth_Cons_0 one_input if_False assms(1) [symmetric] L P u prod.case by simp
  moreover have "shape (setFormat (dimensionFormat t) (setDimensions n u)) = ?vs"
    using shape_push_dims [OF u] by (simp add: setDimensions_def)
  ultimately show ?thesis by simp
qed

lemma squeeze_one_spec:
  assumes "d = (if axis < 0 then dimensions t + axis else axis)" and "0 \<le> d" and "d < dimensions t" and "extent t d = 1"
  shows "\<exists>v. SqueezeSizeComputer (Some [axis]) [t] [out] = Some [v] \<and> dimensions v = dimensions t - 1 \<and>
    ttype v = ttype t \<and> shape v = take (nat d) (shape t) @ drop (nat d + 1) (shape t)"
proof -
  let ?m = "(\<lambda>i. 0 :: int)(d := 1)"
  let ?vs = "take (nat d) (shape t) @ drop (nat d + 1) (shape t)"
  let ?o = "setDimensions (dimensions t - 1) out"
  have "for_loop 0 (dimensions t) (\<lambda>i. if ?m i = 0 then push_dim (extent t i) else id) (0, ?o) =
      push_dims (concat (map (\<lambda>i. if i = d then [] else [extent t i]) [0..dimensions t - 1])) (0, ?o)"
    by (rule push_loop) (simp add: push_dim_push_dims)
  also have "concat (map (\<lambda>i. if i = d then [] else [extent t i]) [0..dimensions t - 1]) = ?vs"
  proof -
    have s: "[0..dimensions t - 1] = [0..d - 1] @ d # [d + 1..dimensions t - 1]" using assms by (simp add: upto_split3)
    have *: "concat (map (\<lambda>i. if i = d then [] else [extent t i]) ks) = map (extent t) ks" if "d \<notin> set ks" for ks
      using that by (induction ks) auto
    have "nat d + 1 = nat (d + 1)" using assms(2) by simp
    then show ?thesis using assms(2,3) by (simp add: s * take_drop_shape del: nat_add_distrib)
  qed
  finally obtain n u where u: "for_loop 0 (dimensions t) (\<lambda>i. if ?m i = 0 then push_dim (extent t i) else id) (0, ?o) = (n, u)"
    "push_dims ?vs (0, ?o) = (n, u)" by (cases "push_dims ?vs (0, ?o)") simp
  have n: "n = dimensions t - 1" "dimensions u = dimensions t - 1"
  proof -
    have "nat d < nat (dimensions t)" using assms(2,3) by simp
    then have "length ?vs = nat (dimensions t) - 1" by (simp only: length_append length_take length_drop length_shape) linarith
    then have "int (length ?vs) = dimensions t - 1" using assms(2,3) by linarith
    then show "n = dimensions t - 1" "dimensions u = dimensions t - 1"
      using push_dims_sel [OF u(2)] by (simp_all only: setDimensions_sel add_0)
  qed
  have ax: "(if axis < 0 then axis + dimensions t else axis) = d" using assms(1) by simp
  have "SqueezeSizeComputer (Some [axis]) [t] [out] = Some [setFormat (dimensionFormat t) (setHalideType (ttype t) u)]"
    unfolding SqueezeSizeComputer_def squeeze_dims_def Let_def option.case foldM.simps nth_Cons_0 ax
    using u(1) assms(4) by simp
  moreover have "shape u = ?vs" using shape_push_dims [OF u(2)] by (simp add: shape_def n)
  ultimately show ?thesis using n by simp
qed

text \<open>
  A unit dimension put at a position (from the front, or counted from the end when
  negative) and squeezed away at the same position leaves the shape as it was; in between
  the shape has a 1 there.
\<close>

theorem expand_dims_then_squeeze:
  assumes "d = (if axis < 0 then dimensions t + 1 + axis else axis)" and "0 \<le> d" and "d \<le> dimensions t"
  shows "\<exists>u v. ExpandDimsComputer axis [t] [o1] = Some [u] \<and>
    shape u = take (nat d) (shape t) @ 1 # drop (nat d) (shape t) \<and>
    SqueezeSizeComputer (Some [axis]) [u] [o2] = Some [v] \<and> shape v = shape t \<and> ttype v = ttype t"
proof -
  obtain u where u: "ExpandDimsComputer axis [t] [o1] = Some [u]" "dimensions u = dimensions t + 1"
    "ttype u = ttype t" "shape u = take (nat d) (shape t) @ 1 # drop (nat d) (shape t)"
    using expand_dims_spec [OF assms] by blast
  have "extent u d = shape u ! nat d" using u(2) assms by (simp add: nth_shape)
  also have "\<dots> = 1" using assms by (simp add: u(4) nth_append min_def nat_le_eq_zle)
  finally have "extent u d = 1" .
  moreover have "d = (if axis < 0 then dimensions u + axis else axis)" "d < dimensions u" using assms u(2) by auto
  ultimately obtain v where v: "SqueezeSizeComputer (Some [axis]) [u] [o2] = Some [v]" "ttype v = ttype u"
      "shape v = take (nat d) (shape u) @ drop (nat d + 1) (shape u)"
    using squeeze_one_spec [of d axis u o2] assms(2) by blast
  have "shape v = shape t" using assms by (simp add: v(3) u(4) min_def nat_le_eq_zle)
  then show ?thesis using u v by auto
qed

theorem expand_dims_then_squeeze_witness:
  "\<exists>u v. ExpandDimsComputer (-2) [tensor_of FMT_NCHW [4, 5]] [tensor_of FMT_NCHW []] = Some [u] \<and> shape u = [4, 1, 5] \<and>
     SqueezeSizeComputer (Some [-2]) [u] [tensor_of FMT_NCHW []] = Some [v] \<and> shape v = [4, 5] \<and> ttype v = type_float"
  using expand_dims_then_squeeze [of 1 "-2" "tensor_of FMT_NCHW [4, 5]" "tensor_of FMT_NCHW []" "tensor_of FMT_NCHW []"] by simp

end
