(* ===== verification/Blocks_Props.thy ===== *)
theory Blocks_Props
  imports Units_Props
begin

text \<open>Round trips that permute extents or move blocks between extents.\<close>

section \<open>Layouts\<close>

lemma upto_shift: "map (\<lambda>i. f (i + 1)) [a..b] = map f [a + 1..b + 1 :: int]"
  by (rule nth_equalityI) (simp_all add: nth_upto algebra_simps)

lemma shape_head:
  assumes "0 < dimensions t"
  shows "shape t = extent t 0 # map (extent t) [1..dimensions t - 1]"
  using assms upto_rec1 [of 0 "dimensions t - 1"] by (simp add: shape_def)

lemma shape_two:
  assumes "2 \<le> dimensions t"
  shows "shape t = extent t 0 # extent t 1 # map (extent t) [2..dimensions t - 1]"
  using assms upto_rec1 [of 0 "dimensions t - 1"] upto_rec1 [of 1 "dimensions t - 1"] by (simp add: shape_def)

lemma shape_last:
  assumes "2 \<le> dimensions t"
  shows "shape t = extent t 0 # map (extent t) [1..dimensions t - 2] @ [extent t (dimensions t - 1)]"
  using assms upto_rec1 [of 0 "dimensions t - 1"] upto_rec2 [of 1 "dimensions t - 1"] by (simp add: shape_def)

text \<open>The two conversions between channel-first and channel-last layouts.\<close>

lemma convert_to_nhwc:
  assumes "dimensionFormat t \<in> {FMT_NCHW, FMT_NC4HW4}" and "3 \<le> dimensions t"
  shows "\<exists>u. TensorConvertSizeComputer FMT_NHWC [t] [out] = Some [u] \<and> dimensionFormat u = FMT_NHWC \<and>
    dimensions u = dimensions t \<and> ttype u = ttype t \<and>
    shape u = extent t 0 # map (extent t) [2..dimensions t - 1] @ [extent t 1]"
proof -
  let ?u = "(setLength (dimensions t - 1) (extent t 1) (setLength 0 (extent t 0)
      (setDimensions (dimensions t) (setHalideType (ttype t) (setFormat FMT_NHWC out)))))"
  let ?v = "?u\<lparr>extent := \<lambda>j. if 1 \<le> j \<and> j < dimensions t - 1 then extent t (j + 1) else extent ?u j\<rparr>"
  have "TensorConvertSizeComputer FMT_NHWC [t] [out] = Some [?v]"
    using assms by (auto simp: TensorConvertSizeComputer_def Let_def)
  moreover have "shape ?v = extent t 0 # map (extent t) [2..dimensions t - 1] @ [extent t 1]"
  proof -
    have "map (extent ?v) [1..dimensions t - 2] = map (\<lambda>i. extent t (i + 1)) [1..dimensions t - 2]" by simp
    also have "\<dots> = map (extent t) [2..dimensions t - 1]" by (simp add: upto_shift)
    finally show ?thesis using assms by (simp add: shape_last)
  qed
  ultimately show ?thesis by simp
qed

lemma convert_to_nchw:
  assumes "dimensionFormat t = FMT_NHWC" and "3 \<le> dimensions t" and "f \<in> {FMT_NCHW, FMT_NC4HW4}"
  shows "\<exists>u. TensorConvertSizeComputer f [t] [out] = Some [u] \<and> dimensionFormat u = f \<and>
    dimensions u = dimensions t \<and> ttype u = ttype t \<and>
    shape u = extent t 0 # extent t (dimensions t - 1) # map (extent t) [1..dimensions t - 2]"
proof -
  let ?u = "(setLength 1 (extent t (dimensions t - 1)) (setLength 0 (extent t 0)
      (setDimensions (dimensions t) (setHalideType (ttype t) (setFormat f out)))))"
  let ?v = "?u\<lparr>extent := \<lambda>j. if 2 \<le> j \<and> j < dimensions t then extent t (j - 1) else extent ?u j\<rparr>"
  have "TensorConvertSizeComputer f [t] [out] = Some [?v]"
    using assms by (auto simp: TensorConvertSizeComputer_def Let_def)
  moreover have "shape ?v = extent t 0 # extent t (dimensions t - 1) # map (extent t) [1..dimensions t - 2]"
  proof -
    have "map (extent ?v) [2..dimensions t - 1] = map (\<lambda>i. extent t (i - 1)) [2..dimensions t - 1]" by simp
    also have "\<dots> = map (extent t) [1..dimensions t - 2]" using upto_shift [of "\<lambda>i. extent t (i - 1)" 1 "dimensions t - 2"] by simp
    finally show ?thesis using assms by (simp add: shape_two)
  qed
  ultimately show ?thesis by simp
qed

text \<open>
  Converting a tensor of rank 3 or more from a channel-first layout (NCHW, or its
  packed form NC4HW4) to NHWC moves the channel extent to the end, and converting back
  gives the shape, type and layout back.
\<close>

theorem convert_round_trip:
  assumes "dimensionFormat t \<in> {FMT_NCHW, FMT_NC4HW4}" and "3 \<le> dimensions t"
  shows "\<exists>u v. TensorConvertSizeComputer FMT_NHWC [t] [o1] = Some [u] \<and>
    shape u = extent t 0 # map (extent t) [2..dimensions t - 1] @ [extent t 1] \<and>
    TensorConvertSizeComputer (dimensionFormat t) [u] [o2] = Some [v] \<and>
    shape v = shape t \<and> ttype v = ttype t \<and> dimensionFormat v = dimensionFormat t"
proof -
  obtain u where u: "TensorConvertSizeComputer FMT_NHWC [t] [o1] = Some [u]" "dimensionFormat u = FMT_NHWC"
    "dimensions u = dimensions t" "ttype u = ttype t" "shape u = extent t 0 # map (extent t) [2..dimensions t - 1] @ [extent t 1]"
    using convert_to_nhwc [OF assms] by blast
  obtain v where v: "TensorConvertSizeComputer (dimensionFormat t) [u] [o2] = Some [v]" "dimensionFormat v = dimensionFormat t"
    "ttype v = ttype u" "shape v = extent u 0 # extent u (dimensions u - 1) # map (extent u) [1..dimensions u - 2]"
    using convert_to_nchw [OF u(2) _ assms(1)] u(3) assms(2) by auto
  have "extent t 0 # map (extent t) [2..dimensions t - 1] @ [extent t 1] =
      extent u 0 # map (extent u) [1..dimensions t - 2] @ [extent u (dimensions t - 1)]"
    using u(5) shape_last [of u] u(3) assms(2) by simp
  then have "shape v = extent t 0 # extent t 1 # map (extent t) [2..dimensions t - 1]" by (simp add: v(4) u(3))
  then show ?thesis using u v assms(2) by (auto simp: shape_two)
qed

theorem convert_round_trip_witness:
  "\<exists>u v. TensorConvertSizeComputer FMT_NHWC [tensor_of FMT_NCHW [1, 3, 7, 9]] [tensor_of FMT_NCHW []] = Some [u] \<and>
    shape u = [1, 7, 9, 3] \<and> TensorConvertSizeComputer FMT_NCHW [u] [tensor_of FMT_NCHW []] = Some [v] \<and> shape v = [1, 3, 7, 9]"
proof -
  have "[2..3::int] = [2, 3]" by (simp add: upto.simps)
  with convert_round_trip [of "tensor_of FMT_NCHW [1, 3, 7, 9]" "tensor_of FMT_NCHW []" "tensor_of FMT_NCHW []"]
  show ?thesis by auto
qed

section \<open>Blocks of space in the channel\<close>

lemma shape4: "dimensions t = 4 \<Longrightarrow> shape t = [extent t 0, extent t 1, extent t 2, extent t 3]"
  by (simp add: shape_def upto.simps)

text \<open>
  Moving \<open>b * b\<close> blocks of a 4-dimensional tensor into the channel keeps the number
  of elements when \<open>b\<close> divides height and width, and moving them back gives the shape back,
  in either layout.
\<close>

theorem space_to_depth_round_trip:
  assumes "dimensions t = 4" and "0 < b" and "b dvd height t" and "b dvd width t"
  shows "\<exists>u v. SpaceToDepthSizeComputer b [t] [o1] = Some [u] \<and> prod_list (shape u) = prod_list (shape t) \<and>
    channel u = channel t * (b * b) \<and>
    DepthToSpaceSizeComputer b [u] [o2] = Some [v] \<and> shape v = shape t \<and> ttype v = ttype t"
proof -
  obtain h w where hw: "height t = b * h" "width t = b * w" using assms(3,4) by (auto elim!: dvdE)
  have c: "cdiv (b * (b * c)) (b * b) = c" for c
    using cdiv_mult_self [of "b * b" c] assms(2) by (simp add: mult.assoc)
  show ?thesis
  proof (cases "dimensionFormat t = FMT_NHWC")
    case True
    then have "extent t 1 = b * h" "extent t 2 = b * w" using hw by (simp_all add: height_def width_def)
    then show ?thesis using True assms(1,2)
      by (simp add: SpaceToDepthSizeComputer_def DepthToSpaceSizeComputer_def Let_def shape4 channel_def mult_ac c)
  next
    case False
    then have "extent t 2 = b * h" "extent t 3 = b * w" using hw by (simp_all add: height_def width_def)
    then show ?thesis using False assms(1,2)
      by (simp add: SpaceToDepthSizeComputer_def DepthToSpaceSizeComputer_def Let_def shape4 channel_def mult_ac c)
  qed
qed

theorem space_to_depth_round_trip_witness:
  "\<exists>u v. SpaceToDepthSizeComputer 2 [tensor_of FMT_NCHW [1, 3, 4, 6]] [tensor_of FMT_NCHW []] = Some [u] \<and> channel u = 12 \<and>
    DepthToSpaceSizeComputer 2 [u] [tensor_of FMT_NCHW []] = Some [v] \<and> shape v = [1, 3, 4, 6]"
  using space_to_depth_round_trip [of "tensor_of FMT_NCHW [1, 3, 4, 6]" 2 "tensor_of FMT_NCHW []" "tensor_of FMT_NCHW []"]
  by (auto simp: height_def width_def channel_def)

end
