(* ===== verification/Shape_Conv.thy ===== *)
theory Shape_Conv
  imports Shape_Broadcast
begin

text \<open>
  Convolution, pooling, image and recurrent ops: source/shape/ShapeConvolution.cpp,
  ShapeConvolution3D, ShapeConvTranspose3D, ShapeDeconvolution, ShapePool, ShapePool3D,
  ShapeQuantizedAvgPool, ShapeQuantizedMaxPool, ShapeInterp, ShapeResize (resize and image
  process), ShapeCropAndResize, ShapeGridSample, ShapeROIAlign, ShapeROIPooling,
  ShapeProposal, ShapeDetectionOutput, ShapeDetectionPostProcess,
  ShapeLSTM, ShapeRNNSequenceGRU. Division of ints is C's (\<open>cdiv\<close>), \<open>ceil\<close> of a float
  quotient is \<open>ceil_div_f\<close> (theory \<open>Float32\<close>).
\<close>

section \<open>Two-dimensional convolution\<close>

datatype PadMode = PadMode_CAFFE | PadMode_VALID | PadMode_SAME

record Convolution2DCommon =
  padX :: int
  padY :: int
  kernelX :: int
  kernelY :: int
  strideX :: int
  strideY :: int
  dilateX :: int
  dilateY :: int
  padMode :: PadMode
  group :: int
  outputCount :: int
  inputCount :: int
  pads :: "int list option"
  outPads :: "int list option"
  hasOutputShape :: bool

text \<open>The output width and height for a padding mode.\<close>

definition conv_output_hw :: "Convolution2DCommon \<Rightarrow> Tensor \<Rightarrow> int \<Rightarrow> int \<Rightarrow> int \<times> int" where
  "conv_output_hw layer input kernel_height kernel_width =
     (case padMode layer of
        PadMode_SAME \<Rightarrow>
          (ceil_div_f (height input) (strideY layer), ceil_div_f (width input) (strideX layer))
      | PadMode_VALID \<Rightarrow>
          (ceil_div_f (height input - kernel_height + 1) (strideY layer),
           ceil_div_f (width input - kernel_width + 1) (strideX layer))
      | PadMode_CAFFE \<Rightarrow>
          (case pads layer of
             Some p \<Rightarrow>
               let input_width = width input + p ! 1 + p ! 3;
                   input_height = height input + p ! 0 + p ! 2
               in (if input_height < kernel_height then 0
                   else cdiv (input_height - kernel_height) (strideY layer) + 1,
                   if input_width < kernel_width then 0
                   else cdiv (input_width - kernel_width) (strideX layer) + 1)
           | None \<Rightarrow>
               let input_width = width input + padX layer * 2;
                   input_height = height input + padY layer * 2
               in (cdiv (input_height - kernel_height) (strideY layer) + 1,
                   cdiv (input_width - kernel_width) (strideX layer) + 1)))"

text \<open>
  \<open>isConv\<close>: the op type is \<open>OpType_Convolution\<close>; \<open>quanType\<close>: the output type of the
  op's \<open>symmetricQuan\<close>, if it has one.
\<close>

definition ConvolutionSizeComputer ::
  "Convolution2DCommon \<Rightarrow> bool \<Rightarrow> DataType option \<Rightarrow> Tensor list \<Rightarrow> Tensor list \<Rightarrow> Tensor list option" where
  "ConvolutionSizeComputer layer isConv quanType inputs outputs =
     (let input = inputs ! 0;
          (outCount, kX, kY) =
            (if length inputs > 1 \<and> outputCount layer = 0
             then (extent (inputs ! 1) 0, extent (inputs ! 1) 3, extent (inputs ! 1) 2)
             else (outputCount layer, kernelX layer, kernelY layer));
          kernel_width = dilateX layer * (kX - 1) + 1;
          kernel_height = dilateY layer * (kY - 1) + 1
      in if dimensions input \<le> 1 then None
         else
           let inCount = inputCount layer;
               depthwiseMatch = (inCount = outputCount layer \<and> inCount = group layer \<and> inCount = channel input);
               commonChannelMatch = (inCount = channel input \<or> inCount * group layer = channel input);
               valid = (inCount = 0 \<or> depthwiseMatch \<or> commonChannelMatch)
           in if length inputs = 1 \<and> \<not> valid \<and> isConv then None
              else
                let (output_height, output_width) = conv_output_hw layer input kernel_height kernel_width;
                    out = setHalideType (ttype input) (setDimensions (dimensions input) (outputs ! 0));
                    out = (case quanType of
                       Some d \<Rightarrow> if d \<noteq> DT_INT8 then setType d out else out
                     | None \<Rightarrow> out);
                    out = setLength 0 (extent input 0) out;
                    out = (if FMT_NHWC = dimensionFormat input
                           then setLength 2 output_width (setLength 1 output_height (setLength 3 outCount out))
                           else setLength 3 output_width (setLength 2 output_height (setLength 1 outCount out)))
                in Some (outputs[0 := setFormat (dimensionFormat input) out]))"

definition Dilation2DSizeComputer ::
  "Convolution2DCommon \<Rightarrow> DataType option \<Rightarrow> Tensor list \<Rightarrow> Tensor list \<Rightarrow> Tensor list option" where
  "Dilation2DSizeComputer layer quanType inputs outputs =
     ConvolutionSizeComputer layer False quanType inputs outputs"

definition Conv2DBackpropFilterSizeComputer ::
  "Convolution2DCommon \<Rightarrow> Tensor list \<Rightarrow> Tensor list \<Rightarrow> Tensor list option" where
  "Conv2DBackpropFilterSizeComputer common inputs outputs =
     (let kernel = setFormat FMT_NCHW (setHalideType type_float (setDimensions 4 (outputs ! 0)))
      in Some (outputs[0 := setLength 3 (kernelX common) (setLength 2 (kernelY common)
           (setLength 1 (cdiv (channel (inputs ! 0)) (group common))
             (setLength 0 (channel (inputs ! 1)) kernel)))]))"

text \<open>The result of the convolution's computer is ignored, its output is not.\<close>

definition Im2ColSizeComputer ::
  "Convolution2DCommon \<Rightarrow> DataType option \<Rightarrow> Tensor list \<Rightarrow> Tensor list \<Rightarrow> Tensor list option" where
  "Im2ColSizeComputer layer quanType inputs outputs =
     (let output = (case ConvolutionSizeComputer layer False quanType inputs outputs of
            Some outs \<Rightarrow> outs ! 0 | None \<Rightarrow> outputs ! 0);
          oh = height output; ow = width output;
          input = inputs ! 0
      in Some (outputs[0 := setLength 1 (batch input * oh * ow)
           (setLength 0 (channel input * kernelY layer * kernelX layer) (setDimensions 2 output))]))"

definition Col2ImSizeComputer ::
  "Convolution2DCommon \<Rightarrow> Tensor list \<Rightarrow> Tensor list \<Rightarrow> Tensor list option" where
  "Col2ImSizeComputer layer inputs outputs =
     (let input = inputs ! 0; outputShape = inputs ! 1;
          (oh, ow) = (if elementSize outputShape = 2 then (host_int outputShape 0, host_int outputShape 1) else (1, 1));
          iDim = shape input;
          (b, colSize) = (if length iDim = 3 then (iDim ! 0, iDim ! 1)
                          else if length iDim = 2 then (1, iDim ! 0) else (1, iDim ! 0))
      in Some (outputs[0 := setLength 3 ow (setLength 2 oh
           (setLength 1 (cdiv colSize (kernelY layer * kernelX layer)) (setLength 0 b
             (setDimensions 4 (outputs ! 0)))))]))"

definition DeconvolutionSizeComputer ::
  "Convolution2DCommon \<Rightarrow> Tensor list \<Rightarrow> Tensor list \<Rightarrow> Tensor list option" where
  "DeconvolutionSizeComputer layer inputs outputs =
     (let inputTensor = inputs ! 0;
          (outputHeight, outputWidth) =
            (if hasOutputShape layer then (host_int (last inputs) 1, host_int (last inputs) 2) else (0, 0));
          input_width = width inputTensor; input_height = height inputTensor;
          sH = strideY layer; sW = strideX layer; kH = kernelY layer; kW = kernelX layer;
          pH = padY layer; pW = padX layer; dH = dilateY layer; dW = dilateX layer;
          (output_height, output_width) =
            (if outputHeight > 0 \<and> outputWidth > 0 then (outputHeight, outputWidth)
             else if padMode layer = PadMode_SAME then (input_height * sH, input_width * sW)
             else
               let (oh, ow) = (case pads layer of
                     Some p \<Rightarrow> ((input_height - 1) * sH + dH * (kH - 1) + 1 - p ! 0 - p ! 2,
                                (input_width - 1) * sW + dW * (kW - 1) + 1 - p ! 1 - p ! 3)
                   | None \<Rightarrow> ((input_height - 1) * sH + dH * (kH - 1) + 1 - pH * 2,
                              (input_width - 1) * sW + dW * (kW - 1) + 1 - pW * 2))
               in (case outPads layer of Some op \<Rightarrow> (oh + op ! 0, ow + op ! 1) | None \<Rightarrow> (oh, ow)));
          out = setLength 0 (extent inputTensor 0) (setDimensions (dimensions inputTensor)
            (setHalideType (ttype inputTensor) (outputs ! 0)));
          out = (if FMT_NHWC = dimensionFormat inputTensor
                 then setLength 2 output_width (setLength 1 output_height (setLength 3 (outputCount layer) out))
                 else setLength 3 output_width (setLength 2 output_height (setLength 1 (outputCount layer) out)))
      in Some (outputs[0 := setFormat (dimensionFormat inputTensor) out]))"

section \<open>Three-dimensional convolution\<close>

record Convolution3DCommon =
  dilates3 :: "int list option"
  strides3 :: "int list"
  kernels3 :: "int list"
  pads3 :: "int list option"
  padMode3 :: PadMode
  outputCount3 :: int
  outPads3 :: "int list option"

definition Convolution3DSizeComputer ::
  "Convolution3DCommon \<Rightarrow> Tensor list \<Rightarrow> Tensor list \<Rightarrow> Tensor list option" where
  "Convolution3DSizeComputer layer inputs outputs =
     (let input = inputs ! 0
      in if dimensions input \<noteq> 5 then None
         else
           let out = setLength 1 (outputCount3 layer) (setLength 0 (extent input 0)
                 (setDimensions (dimensions input) (outputs ! 0)))
           in case for_check 0 3
                (\<lambda>i o'. let inputLength = extent input (i + 2); stride = strides3 layer ! nat i
                   in if inputLength \<le> 0 then None
                      else
                        let outputLength = (if padMode3 layer = PadMode_SAME then UP_DIV_i inputLength stride
                              else
                                let p = the (pads3 layer); padl = p ! nat i; kernel = kernels3 layer ! nat i;
                                    dialate = the (dilates3 layer) ! nat i;
                                    padr = (if length p = 6 then p ! nat (i + 3) else padl);
                                    dialatedKernel = (kernel - 1) * dialate + 1
                                in cdiv (inputLength + padl + padr - dialatedKernel) stride + 1)
                        in Some (setLength (i + 2) outputLength o')) out of
                None \<Rightarrow> None
              | Some out \<Rightarrow> Some (outputs[0 := setFormat (dimensionFormat input) (setHalideType (ttype input) out)]))"

definition ConvTranspose3DSizeComputer ::
  "Convolution3DCommon \<Rightarrow> Tensor list \<Rightarrow> Tensor list \<Rightarrow> Tensor list option" where
  "ConvTranspose3DSizeComputer layer inputs outputs =
     (let input = inputs ! 0;
          convolutinDim = dimensions input - 2;
          out = setLength 1 (outputCount3 layer) (setLength 0 (extent input 0)
            (setDimensions (dimensions input) (outputs ! 0)))
      in case for_check 0 convolutinDim
           (\<lambda>i o'. let inputLength = extent input (i + 2); stride = strides3 layer ! nat i
              in if inputLength \<le> 0 then None
                 else
                   let outputLength = (if padMode3 layer = PadMode_SAME then inputLength * stride
                         else
                           let kernel = kernels3 layer ! nat i;
                               (padL, padR) = (case pads3 layer of
                                   Some p \<Rightarrow> (p ! nat i, if length p = 6 then p ! nat (i + 3) else p ! nat i)
                                 | None \<Rightarrow> (0, 0));
                               dialate = (case dilates3 layer of Some d \<Rightarrow> d ! nat i | None \<Rightarrow> 1);
                               dialatedKernel = (kernel - 1) * dialate + 1;
                               ol = (inputLength - 1) * stride + dialatedKernel - padR - padL
                           in (case outPads3 layer of Some op \<Rightarrow> ol + op ! nat i | None \<Rightarrow> ol))
                   in Some (setLength (i + 2) outputLength o')) out of
           None \<Rightarrow> None
         | Some out \<Rightarrow> Some (outputs[0 := setFormat (dimensionFormat input) (setHalideType (ttype input) out)]))"

section \<open>Pooling\<close>

datatype PoolPadType = PoolPadType_CAFFE | PoolPadType_VALID | PoolPadType_SAME

record PoolParam =
  poolPadX :: int
  poolPadY :: int
  isGlobal :: bool
  poolKernelX :: int
  poolKernelY :: int
  poolStrideX :: int
  poolStrideY :: int
  padType :: PoolPadType
  ceilModel :: bool
  poolPads :: "int list option"

text \<open>\<open>(outh, outw)\<close>, \<open>None\<close> when explicit pads come with a TensorFlow mode.\<close>

definition pool_output_hw :: "PoolParam \<Rightarrow> Tensor \<Rightarrow> (int \<times> int) option" where
  "pool_output_hw layer input =
     (if isGlobal layer then Some (1, 1)
      else if (padType layer = PoolPadType_VALID \<or> padType layer = PoolPadType_SAME)
              \<and> (poolPadX layer \<noteq> 0 \<or> poolPadY layer \<noteq> 0) then None
      else
        let (w, h) = (case poolPads layer of
               Some p \<Rightarrow>
                 (if length p = 4 then width input + (p ! 1 + p ! 3) else width input,
                  if length p = 2 then height input + (p ! 0 + p ! 1)
                  else if length p = 4 then height input + (p ! 0 + p ! 2) else height input)
             | None \<Rightarrow> (width input + poolPadX layer * 2, height input + poolPadY layer * 2));
            kernelWidth = min (poolKernelX layer) w;
            kernelHeight = min (poolKernelY layer) h
        in Some (case padType layer of
             PoolPadType_SAME \<Rightarrow> (ceil_div_f h (poolStrideY layer), ceil_div_f w (poolStrideX layer))
           | PoolPadType_VALID \<Rightarrow>
               (ceil_div_f (h - kernelHeight + 1) (poolStrideY layer),
                ceil_div_f (w - kernelWidth + 1) (poolStrideX layer))
           | PoolPadType_CAFFE \<Rightarrow>
               if ceilModel layer then
                 (UP_DIV_i (h - kernelHeight) (poolStrideY layer) + 1,
                  UP_DIV_i (w - kernelWidth) (poolStrideX layer) + 1)
               else
                 (cdiv (h - kernelHeight) (poolStrideY layer) + 1,
                  cdiv (w - kernelWidth) (poolStrideX layer) + 1)))"

definition PoolSizeComputer :: "PoolParam \<Rightarrow> Tensor list \<Rightarrow> Tensor list \<Rightarrow> Tensor list option" where
  "PoolSizeComputer layer inputs outputs =
     (let input = inputs ! 0;
          returnRedice = (length outputs = 2);
          start = (\<lambda>t. setDimensions (dimensions input) (copy_dims (dimensions input) input t))
      in case pool_output_hw layer input of
           None \<Rightarrow> None
         | Some (outh, outw) \<Rightarrow>
             if outw \<le> 0 \<or> outh \<le> 0 then None
             else
               let put = (\<lambda>t. setFormat (dimensionFormat input)
                     (if dimensionFormat input = FMT_NHWC
                      then setLength 1 outh (setLength 2 outw t)
                      else setLength 2 outh (setLength 3 outw t)));
                   outs = outputs[0 := setHalideType (ttype input) (put (start (outputs ! 0)))]
               in Some (if returnRedice
                        then outs[1 := setHalideType type_int32 (put (start (outputs ! 1)))] else outs))"

record Pool3DParam =
  pool3Strides :: "int list"
  pool3Kernels :: "int list"
  pool3Pads :: "int list"
  pool3PadType :: PoolPadType
  pool3Global :: bool

definition Pool3DSizeComputer :: "Pool3DParam \<Rightarrow> Tensor list \<Rightarrow> Tensor list \<Rightarrow> Tensor list option" where
  "Pool3DSizeComputer layer inputs outputs =
     (let input = inputs ! 0; format = dimensionFormat input;
          maxCheckDim = (if pool3Global layer then 1 else dimensions input - 1)
      in if \<exists>i\<in>set [1..maxCheckDim]. extent input i \<le> 0 then None
         else
           let output = copy_dims (dimensions input) input (setDimensions (dimensions input) (outputs ! 0));
               r = (if pool3Global layer then
                      Some (if format = FMT_NHWC
                            then for_loop 1 (dimensions output - 1) (\<lambda>d. setLength d 1) output
                            else for_loop 2 (dimensions output) (\<lambda>d. setLength d 1) output)
                    else
                      let offset = (if format = FMT_NHWC then 1 else 2)
                      in for_check 0 (dimensions input - 2)
                        (\<lambda>i o'. let inputLength = extent input (i + 2);
                                    kernel = pool3Kernels layer ! nat i; stride = pool3Strides layer ! nat i;
                                    outputLength = (case pool3PadType layer of
                                        PoolPadType_CAFFE \<Rightarrow>
                                          cdiv (inputLength + 2 * (pool3Pads layer ! nat i) - kernel) stride + 1
                                      | PoolPadType_SAME \<Rightarrow> UP_DIV_i inputLength stride
                                      | PoolPadType_VALID \<Rightarrow> cdiv (inputLength - kernel) stride + 1)
                                in if outputLength \<le> 0 then None
                                   else Some (setLength (i + offset) outputLength o')) output)
           in case r of None \<Rightarrow> None
              | Some output \<Rightarrow> Some (outputs[0 := setHalideType (ttype input) (setFormat format output)]))"

text \<open>
  The quantized pools share the output size; another pad type than SAME and VALID (an
  assertion in a debug build) leaves it at 1.
\<close>

definition quantized_pool_hw :: "PoolParam \<Rightarrow> Tensor \<Rightarrow> int \<times> int" where
  "quantized_pool_hw layer input = (case padType layer of
       PoolPadType_SAME \<Rightarrow>
         (ceil_div_f (height input) (poolStrideY layer), ceil_div_f (width input) (poolStrideX layer))
     | PoolPadType_VALID \<Rightarrow>
         (ceil_div_f (height input - poolKernelY layer + 1) (poolStrideY layer),
          ceil_div_f (width input - poolKernelX layer + 1) (poolStrideX layer))
     | PoolPadType_CAFFE \<Rightarrow> (1, 1))"

definition QuantizedAvgPoolComputer :: "PoolParam \<Rightarrow> Tensor list \<Rightarrow> Tensor list \<Rightarrow> Tensor list option" where
  "QuantizedAvgPoolComputer layer inputs outputs =
     (let input = inputs ! 0;
          (output_height, output_width) = quantized_pool_hw layer input;
          out = setType DT_UINT8 (setDimensions (dimensions input) (outputs ! 0));
          out = setLength 1 (extent input 1) (setLength 3 output_width (setLength 2 output_height
            (setLength 0 (extent input 0) out)));
          out = (if dimensionFormat input = FMT_NHWC
                 then setLength 3 (channel input) (setLength 2 output_width (setLength 1 output_height out))
                 else out)
      in Some (outputs[0 := setFormat (dimensionFormat input) out]))"

definition QuantizedMaxPoolComputer :: "PoolParam \<Rightarrow> Tensor list \<Rightarrow> Tensor list \<Rightarrow> Tensor list option" where
  "QuantizedMaxPoolComputer layer inputs outputs =
     (let input = inputs ! 0;
          (output_height, output_width) = quantized_pool_hw layer input
      in if output_width \<le> 0 \<or> output_height \<le> 0 then None
         else Some (outputs[0 := setFormat (dimensionFormat input) (setType DT_UINT8
                (setLength 3 (extent input 3) (setLength 2 output_width (setLength 1 output_height
                  (setLength 0 (extent input 0) (setDimensions (dimensions input) (outputs ! 0)))))))]))"

section \<open>Resizing\<close>

record InterpParam =
  interpWidth :: int
  interpHeight :: int
  widthScale :: rat
  heightScale :: rat

definition InterpComputer :: "InterpParam \<Rightarrow> Tensor list \<Rightarrow> Tensor list \<Rightarrow> Tensor list option" where
  "InterpComputer interp inputs outputs =
     (let input = inputs ! 0; iw = width input; ih = height input; format = dimensionFormat input;
          output = setFormat format (setHalideType (ttype input) (setDimensions (dimensions input)
            (copy_dims (dimensions input) input (outputs ! 0))))
      in if length inputs = 2 \<and> extent (inputs ! 1) 0 = dimensions input then
           let shp = inputs ! 1
           in Some (outputs[0 :=
                if tcode (ttype shp) = halide_type_int
                then for_loop 0 (dimensions input) (\<lambda>i. setLength i (host_int shp i)) output
                else for_loop 0 (dimensions input)
                  (\<lambda>i. setLength i (f32_to_int (f32_mul (host_float shp i) (f32 (of_int (extent input i)))))) output])
         else
           case (if length inputs = 1 then
                   (if interpWidth interp = 0 \<or> interpHeight interp = 0
                    then Some (f32_to_int (f32_mul (f32 (of_int iw)) (widthScale interp)),
                               f32_to_int (f32_mul (f32 (of_int ih)) (heightScale interp)))
                    else Some (interpWidth interp, interpHeight interp))
                 else
                   let shp = inputs ! 1
                   in if 2 \<noteq> extent shp 0 then None
                      else if tcode (ttype shp) = halide_type_float
                      then Some (f32_to_int (host_float shp 1), f32_to_int (host_float shp 0))
                      else Some (host_int shp 1, host_int shp 0)) of
             None \<Rightarrow> None
           | Some (w, h) \<Rightarrow>
               if 0 = w \<and> 0 = h then None
               else Some (outputs[0 := if FMT_NHWC = format then setLength 1 h (setLength 2 w output)
                                       else setLength 2 h (setLength 3 w output)]))"

definition ResizeComputer :: "rat \<Rightarrow> rat \<Rightarrow> Tensor list \<Rightarrow> Tensor list \<Rightarrow> Tensor list option" where
  "ResizeComputer xScale yScale inputs outputs =
     (let input = inputs ! 0; output = copyShape input (outputs ! 0) True;
          scaled = (\<lambda>i s. f32_to_int (f32_mul (f32 (of_int (extent input i))) s))
      in Some (outputs[0 := setHalideType (ttype input)
           (setLength 2 (scaled 2 yScale) (setLength 3 (scaled 3 xScale) output))]))"

definition ImageProcessComputer :: "int list \<Rightarrow> DataType \<Rightarrow> Tensor list \<Rightarrow> Tensor list \<Rightarrow> Tensor list option" where
  "ImageProcessComputer shp outputType inputs outputs =
     (if length inputs = 3 then Some (outputs[0 := setLength 0 1 (setDimensions 1 (outputs ! 0))])
      else
        let output = copyShape (inputs ! 0) (outputs ! 0) True;
            c = shp ! 1; h = shp ! 2; w = shp ! 3
        in Some (outputs[0 := setType outputType
             (if FMT_NHWC = dimensionFormat (inputs ! 0)
              then setLength 3 c (setLength 2 w (setLength 1 h output))
              else setLength 3 w (setLength 2 h (setLength 1 c output)))]))"

definition CropAndResizeComputer :: "Tensor list \<Rightarrow> Tensor list \<Rightarrow> Tensor list option" where
  "CropAndResizeComputer inputs outputs =
     (let image = inputs ! 0; boxes = inputs ! 1; box_index = inputs ! 2; crop_size = inputs ! 3;
          depth = extent image 3;
          num_boxes = (if extent boxes 0 = 0 \<and> extent box_index 0 = 0 then 0 else extent boxes 0)
      in Some (outputs[0 := setHalideType (ttype image) (setFormat (dimensionFormat image)
           (setLength 3 depth (setLength 2 (host_int crop_size 1) (setLength 1 (host_int crop_size 0)
             (setLength 0 num_boxes (setDimensions 4 (outputs ! 0)))))))]))"

definition GridSampleSizeComputer :: "Tensor list \<Rightarrow> Tensor list \<Rightarrow> Tensor list option" where
  "GridSampleSizeComputer inputs outputs =
     (let i0 = inputs ! 0; i1 = inputs ! 1;
          ob = setFormat (dimensionFormat i0) (setHalideType (ttype i0) (outputs ! 0))
      in if length inputs > 2 then
           let n = extent (inputs ! 2) 0
           in Some (outputs[0 := for_loop 0 n (\<lambda>i. setLength i (host_int (inputs ! 2) i)) (setDimensions n ob)])
         else
           let grid_dim = dimensions i1
           in if extent i0 0 \<noteq> extent i1 0 then None
              else
                let ob = setLength 3 (extent i1 2) (setLength 2 (extent i1 1)
                      (setLength 1 (extent i0 1) (setLength 0 (extent i0 0) (setDimensions (dimensions i1) ob))))
                in Some (outputs[0 := if grid_dim = 5 then setLength 4 (extent i1 3) ob else ob]))"

text \<open>Region of interest ops: pooled width and height from the parameter.\<close>

definition roi_pooled :: "int \<Rightarrow> int \<Rightarrow> Tensor list \<Rightarrow> Tensor \<Rightarrow> Tensor" where
  "roi_pooled pooledWidth pooledHeight inputs output =
     setFormat (dimensionFormat (inputs ! 0))
       (setLength 0 (batch (inputs ! 1)) (setLength 2 pooledHeight (setLength 3 pooledWidth
         (setHalideType type_float (copy_dims (dimensions (inputs ! 0)) (inputs ! 0) output)))))"

definition ROIAlignComputer :: "int \<Rightarrow> int \<Rightarrow> Tensor list \<Rightarrow> Tensor list \<Rightarrow> Tensor list option" where
  "ROIAlignComputer pooledWidth pooledHeight inputs outputs =
     Some (if length inputs = 2 \<or> length inputs = 3
           then outputs[0 := roi_pooled pooledWidth pooledHeight inputs (outputs ! 0)]
           else if length inputs = 4
           then outputs[0 := setHalideType (ttype (inputs ! 0)) (copyShape (inputs ! 0) (outputs ! 0) True)]
           else outputs)"

definition ROIPoolingComputer :: "int \<Rightarrow> int \<Rightarrow> Tensor list \<Rightarrow> Tensor list \<Rightarrow> Tensor list option" where
  "ROIPoolingComputer pooledWidth pooledHeight inputs outputs =
     Some (if length inputs = 2
           then outputs[0 := roi_pooled pooledWidth pooledHeight inputs (outputs ! 0)]
           else if length inputs = 3
           then outputs[0 := setHalideType (ttype (inputs ! 0)) (copyShape (inputs ! 0) (outputs ! 0) True)]
           else outputs)"

section \<open>Detection\<close>

definition ProposalComputer :: "int \<Rightarrow> Tensor list \<Rightarrow> Tensor list \<Rightarrow> Tensor list option" where
  "ProposalComputer afterNmsTopN inputs outputs =
     (let n = afterNmsTopN * extent (inputs ! 0) 0;
          output = setLength 0 n (setLength 1 5 (setLength 2 1 (setLength 3 1 (outputs ! 0))));
          outs = (if length outputs > 1
                  then outputs[1 := setLength 0 n (setLength 1 1 (setLength 2 1 (setLength 3 1 (outputs ! 1))))]
                  else outputs)
      in Some (outs[0 := setFormat (dimensionFormat (inputs ! 0)) (setHalideType type_float output)]))"

definition DetectionOutputComputer :: "int \<Rightarrow> Tensor list \<Rightarrow> Tensor list \<Rightarrow> Tensor list option" where
  "DetectionOutputComputer keepTopK inputs outputs =
     Some (outputs[0 := setHalideType type_float (setFormat FMT_NC4HW4
       (setLength 3 6 (setLength 2 keepTopK (setLength 1 1 (setLength 0 1 (outputs ! 0))))))])"

definition DetectionPostProcessSize :: "int \<Rightarrow> int \<Rightarrow> Tensor list \<Rightarrow> Tensor list \<Rightarrow> Tensor list option" where
  "DetectionPostProcessSize maxDetections maxClassesPerDetection inputs outputs =
     (let numDetectedBoxes = maxDetections * maxClassesPerDetection;
          batchSize = batch (inputs ! 0);
          two = (\<lambda>t. setHalideType type_float (setLength 1 numDetectedBoxes (setLength 0 batchSize (setDimensions 2 t))))
      in Some (outputs[0 := setHalideType type_float (setLength 2 4 (setLength 1 numDetectedBoxes
                         (setLength 0 batchSize (setDimensions 3 (outputs ! 0))))),
                       1 := two (outputs ! 1),
                       2 := two (outputs ! 2),
                       3 := setHalideType type_float (setLength 0 1 (setDimensions 1 (outputs ! 3)))]))"

section \<open>Recurrent ops\<close>

text \<open>\<open>Y\<close>, \<open>ht\<close> and \<open>ct\<close> of LSTM and RNN.\<close>

definition rnn_Y :: "int \<Rightarrow> Tensor list \<Rightarrow> Tensor \<Rightarrow> Tensor" where
  "rnn_Y hiddenSize inputs Y =
     (let X = inputs ! 0
      in setFormat (dimensionFormat X) (setLength 3 hiddenSize (setLength 2 (extent X 1)
           (setLength 1 (extent (inputs ! 1) 0) (setLength 0 (extent X 0) (setDimensions 4 Y))))))"

definition rnn_state :: "int \<Rightarrow> Tensor list \<Rightarrow> Tensor \<Rightarrow> Tensor" where
  "rnn_state hiddenSize inputs h =
     (let X = inputs ! 0
      in setFormat (dimensionFormat X) (setLength 2 hiddenSize (setLength 1 (extent X 1)
           (setLength 0 (extent (inputs ! 1) 0) (setDimensions 3 h)))))"

definition LSTMComputer :: "int \<Rightarrow> Tensor list \<Rightarrow> Tensor list \<Rightarrow> Tensor list option" where
  "LSTMComputer lstmOutputCount inputs outputs =
     (if 1 = length outputs then
        Some (outputs[0 := setFormat (dimensionFormat (inputs ! 0)) (setHalideType type_float
          (setLength 2 1 (setLength 3 lstmOutputCount (setDimensions 4
            (copy_dims (dimensions (inputs ! 0)) (inputs ! 0) (outputs ! 0))))))])
      else
        Some (outputs[0 := rnn_Y lstmOutputCount inputs (outputs ! 0),
                      1 := rnn_state lstmOutputCount inputs (outputs ! 1),
                      2 := rnn_state lstmOutputCount inputs (outputs ! 2)]))"

definition LSTMBlockCellComputer :: "Tensor list \<Rightarrow> Tensor list \<Rightarrow> Tensor list option" where
  "LSTMBlockCellComputer inputs outputs = Some (map (\<lambda>o'. copyShape (inputs ! 1) o' False) outputs)"

definition RNNComputer :: "int \<Rightarrow> Tensor list \<Rightarrow> Tensor list \<Rightarrow> Tensor list option" where
  "RNNComputer rnnOutputCount inputs outputs =
     Some (outputs[0 := rnn_Y rnnOutputCount inputs (outputs ! 0),
                   1 := rnn_state rnnOutputCount inputs (outputs ! 1)])"

definition RNNSequenceGRUComputer :: "int \<Rightarrow> bool \<Rightarrow> bool \<Rightarrow> Tensor list \<Rightarrow> Tensor list \<Rightarrow> Tensor list option" where
  "RNNSequenceGRUComputer numUnits keepAllOutputs isBidirectionalRNN inputs outputs =
     (let input = inputs ! 0;
          dirs = (if isBidirectionalRNN then 2 else 1);
          output = setFormat (dimensionFormat input) (setHalideType type_float (outputs ! 0))
      in if keepAllOutputs then
           let outs = outputs[0 := setHalideType (ttype input)
                 (setShape output [extent input 0, dirs, extent input 1, numUnits])]
           in Some (if length outputs > 1
                then outs[1 := setFormat (dimensionFormat input) (setHalideType (ttype input)
                       (setShape (outputs ! 1) [dirs, extent input 1, numUnits]))]
                else outs)
         else Some (outputs[0 := setHalideType (ttype input)
                (setShape output [dirs, extent input 1, numUnits])]))"

lemmas [shape_defs] = ConvolutionSizeComputer_def Dilation2DSizeComputer_def
  Conv2DBackpropFilterSizeComputer_def Im2ColSizeComputer_def Col2ImSizeComputer_def
  DeconvolutionSizeComputer_def Convolution3DSizeComputer_def ConvTranspose3DSizeComputer_def
  PoolSizeComputer_def Pool3DSizeComputer_def QuantizedAvgPoolComputer_def
  QuantizedMaxPoolComputer_def InterpComputer_def ResizeComputer_def ImageProcessComputer_def
  CropAndResizeComputer_def GridSampleSizeComputer_def ROIAlignComputer_def ROIPoolingComputer_def
  ProposalComputer_def DetectionOutputComputer_def DetectionPostProcessSize_def LSTMComputer_def
  LSTMBlockCellComputer_def RNNComputer_def RNNSequenceGRUComputer_def

end
