(* ===== verification/Window_Props.thy ===== *)
theory Window_Props
  imports Shape_Conv
begin

text \<open>Convolution and pooling: the output extents count the positions of the window.\<close>

section \<open>Window positions\<close>

text \<open>The positions at which a window of extent \<open>K\<close>, moved by \<open>s\<close>, fits into extent \<open>L\<close>.\<close>

definition windows :: "int \<Rightarrow> int \<Rightarrow> int \<Rightarrow> int set" where
  "windows L K s = {p. 0 \<le> p \<and> p * s + K \<le> L}"

lemma le_div_iff_mult_le_int: "0 < (s::int) \<Longrightarrow> p \<le> x div s \<longleftrightarrow> p * s \<le> x"
proof
  assume s: "0 < s"
  { assume "p \<le> x div s"
    then have "p * s \<le> x div s * s" using s by (intro mult_right_mono) auto
    also have "\<dots> \<le> x" using pos_mod_sign [OF s, of x] unfolding minus_mod_eq_div_mult [symmetric] by linarith
    finally show "p * s \<le> x" . }
  { assume "p * s \<le> x"
    then have "p * s div s \<le> x div s" using s by (rule zdiv_mono1)
    then show "p \<le> x div s" using s by simp }
qed

lemma windows_interval: "0 < s \<Longrightarrow> K \<le> L \<Longrightarrow> windows L K s = {0..(L - K) div s}"
proof -
  assume s: "0 < s" and "K \<le> L"
  have "p * s + K \<le> L \<longleftrightarrow> p \<le> (L - K) div s" for p
    using le_div_iff_mult_le_int [OF s, of p "L - K"] by auto
  then show ?thesis by (intro set_eqI) (simp only: windows_def mem_Collect_eq atLeastAtMost_iff)
qed

lemma card_windows: "0 < s \<Longrightarrow> K \<le> L \<Longrightarrow> int (card (windows L K s)) = (L - K) div s + 1"
  by (simp add: windows_interval div_int_pos_iff)

lemma cdiv_windows: "0 < s \<Longrightarrow> K \<le> L \<Longrightarrow> cdiv (L - K) s + 1 = int (card (windows L K s))"
  by (simp add: card_windows cdiv_nonneg)


section \<open>Convolution\<close>



lemma conv_hw_same:
  assumes "padMode layer = PadMode_SAME" and "0 < strideY layer" and "0 < strideX layer"
    and "strideY layer < 2 ^ 24" and "strideX layer < 2 ^ 24"
    and "0 \<le> height t" "height t < 2 ^ 24" and "0 \<le> width t" "width t < 2 ^ 24"
  shows "conv_output_hw layer t kh kw = (UP_DIV_i (height t) (strideY layer), UP_DIV_i (width t) (strideX layer))"
  using assms by (simp add: conv_output_hw_def ceil_div_f_pos)


definition conv_3x3 :: Convolution2DCommon where
  "conv_3x3 = \<lparr>padX = 1, padY = 1, kernelX = 3, kernelY = 3, strideX = 2, strideY = 2, dilateX = 1, dilateY = 1,
     padMode = PadMode_CAFFE, group = 1, outputCount = 8, inputCount = 3, pads = None, outPads = None, hasOutputShape = False\<rparr>"


text \<open>
  In the mode SAME the extents are the input's divided by the stride, rounded up:
  the quotient of single precision floats the code takes is exact for extents and
  strides below \<open>2 ^ 24\<close>.
\<close>

theorem conv_same_rounds_up:
  assumes "dimensions t = 4" and "padMode layer = PadMode_SAME" and "inputCount layer = 0"
    and "0 < strideY layer" and "0 < strideX layer" and "strideY layer < 2 ^ 24" and "strideX layer < 2 ^ 24"
    and "0 \<le> height t" "height t < 2 ^ 24" and "0 \<le> width t" "width t < 2 ^ 24"
  shows "\<exists>u. ConvolutionSizeComputer layer True None [t] [out] = Some [u] \<and>
    (height u - 1) * strideY layer < height t \<and> height t \<le> height u * strideY layer \<and>
    (width u - 1) * strideX layer < width t \<and> width t \<le> width u * strideX layer \<and> channel u = outputCount layer"
proof -
  have up: "(UP_DIV_i x s - 1) * s < x \<and> x \<le> UP_DIV_i x s * s" if "0 \<le> x" "0 < s" for x s
  proof -
    have u: "UP_DIV_i x s = (x - 1) div s + 1" using that div_add_self2 [of s "x - 1"]
      by (simp add: UP_DIV_i_def cdiv_nonneg algebra_simps)
    have "0 \<le> (x - 1) mod s" "(x - 1) mod s < s" using that by simp_all
    moreover have "(x - 1) div s * s = x - 1 - (x - 1) mod s" by (simp add: minus_mod_eq_div_mult)
    ultimately show ?thesis by (simp add: u distrib_right)
  qed
  note hw = conv_hw_same [OF assms(2,4-11)]
  show ?thesis using assms(1,3) up [OF assms(8,4)] up [OF assms(10,5)]
    by (cases "dimensionFormat t = FMT_NHWC")
      (auto simp: ConvolutionSizeComputer_def Let_def hw height_def width_def channel_def)
qed

theorem conv_same_rounds_up_witness:
  "\<exists>u. ConvolutionSizeComputer (conv_3x3\<lparr>padMode := PadMode_SAME, inputCount := 0\<rparr>) True None
      [tensor_of FMT_NHWC [1, 7, 8, 3]] [tensor_of FMT_NCHW []] = Some [u] \<and>
     (height u - 1) * 2 < 7 \<and> 7 \<le> height u * 2 \<and> channel u = 8"
  using conv_same_rounds_up [of "tensor_of FMT_NHWC [1, 7, 8, 3]" "conv_3x3\<lparr>padMode := PadMode_SAME, inputCount := 0\<rparr>" "tensor_of FMT_NCHW []"]
  by (auto simp: conv_3x3_def height_def width_def channel_def)

text \<open>
  Deconvolution undoes convolution's extents: with the explicit paddings (none given
  as a vector), the convolution of the deconvolved shape, with the same layer and the
  channels exchanged, has the height and width of the original.
\<close>

theorem deconv_then_conv:
  assumes "dimensions t = 4" and "0 < height t" and "0 < width t" and "hasOutputShape layer = False"
    and "padMode layer = PadMode_CAFFE" and "pads layer = None" and "outPads layer = None"
    and "0 < strideY layer" and "0 < strideX layer"
  shows "\<exists>u v. DeconvolutionSizeComputer layer [t] [o1] = Some [u] \<and> channel u = outputCount layer \<and>
    ConvolutionSizeComputer (layer\<lparr>inputCount := outputCount layer, outputCount := channel t\<rparr>) True None [u] [o2] = Some [v] \<and>
    height v = height t \<and> width v = width t \<and> channel v = channel t \<and> shape v = shape t"
proof -
  have c: "cdiv ((x - 1) * s) s + 1 = x" if "0 < s" for x s using cdiv_mult_self [of s "x - 1"] that by (simp add: mult.commute)
  have e: "(x - 1) * s + d * (k - 1) + 1 - p * 2 + p * 2 - (d * (k - 1) + 1) = (x - 1) * s" for x s d k p :: int by simp
  have sh: "shape v = shape t" if "dimensions v = 4" "dimensionFormat v = dimensionFormat t" "height v = height t" "width v = width t"
    "channel v = channel t" "batch v = batch t" for v
    using that assms(1) by (auto simp: shape_def upto.simps height_def width_def channel_def batch_def split: if_splits)
  show ?thesis
  proof (cases "dimensionFormat t = FMT_NHWC")
    case True
    then show ?thesis using assms
      by (simp add: DeconvolutionSizeComputer_def ConvolutionSizeComputer_def conv_output_hw_def Let_def e c
          height_def width_def channel_def shape_def upto.simps)
  next
    case False
    then show ?thesis using assms
      by (simp add: DeconvolutionSizeComputer_def ConvolutionSizeComputer_def conv_output_hw_def Let_def e c
          height_def width_def channel_def shape_def upto.simps)
  qed
qed

theorem deconv_then_conv_witness:
  "\<exists>u v. DeconvolutionSizeComputer conv_3x3 [tensor_of FMT_NCHW [1, 3, 7, 8]] [tensor_of FMT_NCHW []] = Some [u] \<and> channel u = 8 \<and>
     ConvolutionSizeComputer (conv_3x3\<lparr>inputCount := 8, outputCount := 3\<rparr>) True None [u] [tensor_of FMT_NCHW []] = Some [v] \<and>
     shape v = [1, 3, 7, 8]"
  using deconv_then_conv [of "tensor_of FMT_NCHW [1, 3, 7, 8]" conv_3x3 "tensor_of FMT_NCHW []" "tensor_of FMT_NCHW []"]
  by (auto simp: conv_3x3_def height_def width_def channel_def)

section \<open>Pooling\<close>

text \<open>The padded extents, as the code sums them up.\<close>

definition pool_padded :: "PoolParam \<Rightarrow> Tensor \<Rightarrow> int \<times> int" where
  "pool_padded layer input = (case poolPads layer of
     Some p \<Rightarrow> (if length p = 2 then height input + (p ! 0 + p ! 1)
                else if length p = 4 then height input + (p ! 0 + p ! 2) else height input,
                if length p = 4 then width input + (p ! 1 + p ! 3) else width input)
   | None \<Rightarrow> (height input + poolPadY layer * 2, width input + poolPadX layer * 2))"

lemma ceil_cover:
  assumes "0 < s" and "K \<le> L"
  shows "L \<le> (UP_DIV_i (L - K) s + 1 - 1) * s + K \<and> (UP_DIV_i (L - K) s + 1 - 2) * s + K < L"
proof -
  have u: "UP_DIV_i (L - K) s = (L - K - 1) div s + 1" using assms div_add_self2 [of s "L - K - 1"]
    by (simp add: UP_DIV_i_def cdiv_nonneg algebra_simps)
  have "0 \<le> (L - K - 1) mod s" "(L - K - 1) mod s < s" using assms by simp_all
  moreover have "(L - K - 1) div s * s = L - K - 1 - (L - K - 1) mod s" by (simp add: minus_mod_eq_div_mult)
  ultimately show ?thesis by (simp add: u distrib_right left_diff_distrib)
qed

text \<open>
  Pooling in the mode CAFFE, with the kernel clipped to the padded extent. Rounding
  down, height and width count the positions at which the kernel fits; rounding up, they are
  the least for which the windows reach the end of the padded extent. Batch and channel are the input's.
\<close>

theorem pool_covers:
  fixes layer :: PoolParam and t :: Tensor
  defines "H \<equiv> fst (pool_padded layer t)" and "W \<equiv> snd (pool_padded layer t)"
  defines "kh \<equiv> min (poolKernelY layer) H" and "kw \<equiv> min (poolKernelX layer) W"
  assumes "dimensions t = 4" and "\<not> isGlobal layer" and "padType layer = PoolPadType_CAFFE"
    and "0 < poolStrideY layer" and "0 < poolStrideX layer"
  shows "\<exists>u. PoolSizeComputer layer [t] [out] = Some [u] \<and> batch u = batch t \<and> channel u = channel t \<and>
    (if ceilModel layer then
       H \<le> (height u - 1) * poolStrideY layer + kh \<and> (height u - 2) * poolStrideY layer + kh < H \<and>
       W \<le> (width u - 1) * poolStrideX layer + kw \<and> (width u - 2) * poolStrideX layer + kw < W
     else height u = int (card (windows H kh (poolStrideY layer))) \<and>
          width u = int (card (windows W kw (poolStrideX layer))))"
proof -
  have k: "kh \<le> H" "kw \<le> W" by (simp_all add: kh_def kw_def)
  define hw where "hw = (if ceilModel layer then (UP_DIV_i (H - kh) (poolStrideY layer) + 1, UP_DIV_i (W - kw) (poolStrideX layer) + 1)
      else (cdiv (H - kh) (poolStrideY layer) + 1, cdiv (W - kw) (poolStrideX layer) + 1))"
  have o: "pool_output_hw layer t = Some hw" using assms(6,7)
    by (cases "poolPads layer") (simp_all add: pool_output_hw_def Let_def hw_def kh_def kw_def H_def W_def pool_padded_def split: prod.splits)
  have pos: "0 < fst hw" "0 < snd hw" using k assms(8,9)
    by (simp_all add: hw_def UP_DIV_i_def cdiv_nonneg pos_imp_zdiv_nonneg_iff add_nonneg_pos zle_add1_eq_le flip: add_le_same_cancel2)
  have u: "\<exists>u. PoolSizeComputer layer [t] [out] = Some [u] \<and> batch u = batch t \<and> channel u = channel t \<and>
      height u = fst hw \<and> width u = snd hw" using pos assms(5)
    by (cases hw; cases "dimensionFormat t = FMT_NHWC")
      (simp_all add: PoolSizeComputer_def o Let_def height_def width_def channel_def batch_def)
  then show ?thesis using ceil_cover [OF assms(8) k(1)] ceil_cover [OF assms(9) k(2)]
    cdiv_windows [OF assms(8) k(1)] cdiv_windows [OF assms(9) k(2)] by (auto simp: hw_def)
qed

definition pool_2x2 :: PoolParam where
  "pool_2x2 = \<lparr>poolPadX = 0, poolPadY = 0, isGlobal = False, poolKernelX = 2, poolKernelY = 2, poolStrideX = 2,
     poolStrideY = 2, padType = PoolPadType_CAFFE, ceilModel = True, poolPads = None\<rparr>"

theorem pool_covers_witness:
  "\<exists>u. PoolSizeComputer pool_2x2 [tensor_of FMT_NCHW [1, 3, 7, 7]] [tensor_of FMT_NCHW []] = Some [u] \<and>
     channel u = 3 \<and> 7 \<le> (height u - 1) * 2 + 2 \<and> (height u - 2) * 2 + 2 < 7"
  using pool_covers [of "tensor_of FMT_NCHW [1, 3, 7, 7]" pool_2x2 "tensor_of FMT_NCHW []"]
  by (auto simp: pool_2x2_def pool_padded_def height_def width_def channel_def)

text \<open>
  3D pooling of a channel-last tensor takes each output extent from the input extent
  one further: an identity pooling (kernel 1, stride 1, no padding) of
  \<open>[n, d, h, w, c]\<close> gives \<open>[n, h, w, c, c]\<close>, where the channel-first layout gives the input's shape.
\<close>

theorem pool3d_channel_last_shifted:
  assumes "dimensions t = 5" and "\<forall>i\<in>{1..4}. 0 < extent t i"
  defines "p \<equiv> \<lparr>pool3Strides = [1, 1, 1], pool3Kernels = [1, 1, 1], pool3Pads = [0, 0, 0],
      pool3PadType = PoolPadType_CAFFE, pool3Global = False\<rparr>"
  shows "\<exists>u. Pool3DSizeComputer p [t] [out] = Some [u] \<and>
    shape u = (if dimensionFormat t = FMT_NHWC
      then [extent t 0, extent t 2, extent t 3, extent t 4, extent t 4] else shape t)"
proof -
  have e: "0 < extent t 1" "0 < extent t 2" "0 < extent t 3" "0 < extent t 4" using assms(2) by auto
  have n: "\<forall>i\<in>{1..4}. \<not> extent t i \<le> 0" using assms(2) by (simp add: not_le)
  have c: "cdiv (x - 1) 1 + 1 = x" for x using cdiv_mult_self [of 1 "x - 1"] by simp
  have r: "[1..4::int] = [1, 2, 3, 4]" "[0..4::int] = [0, 1, 2, 3, 4]" "[0..2::int] = [0, 1, 2]" by (simp_all add: upto.simps)
  show ?thesis using e n assms(1)
    by (cases "dimensionFormat t = FMT_NHWC")
      (simp_all add: p_def Pool3DSizeComputer_def for_check_def r c shape_def Let_def)
qed

theorem pool3d_channel_last_shifted_witness:
  "\<exists>u. Pool3DSizeComputer \<lparr>pool3Strides = [1, 1, 1], pool3Kernels = [1, 1, 1], pool3Pads = [0, 0, 0],
      pool3PadType = PoolPadType_CAFFE, pool3Global = False\<rparr> [tensor_of FMT_NHWC [1, 4, 8, 16, 3]] [tensor_of FMT_NCHW []] = Some [u] \<and>
     shape u = [1, 8, 16, 3, 3]"
proof -
  have "{1..4::int} = {1, 2, 3, 4}" by auto
  with pool3d_channel_last_shifted [of "tensor_of FMT_NHWC [1, 4, 8, 16, 3]" "tensor_of FMT_NCHW []"] show ?thesis by auto
qed

end
