(* ===== verification/Shape_Index.thy ===== *)
theory Shape_Index
  imports Shape_Broadcast
begin

text \<open>
  The computers that index, select, generate and reduce: source/shape/ShapeGatherV2.cpp,
  ShapeGatherND (gather-nd and gather-elements), ShapeScatterNd, ShapeOneHot, ShapeTopKV2,
  ShapeArgMax, ShapeUnique, ShapeWhere, ShapeSetDiff1D, ShapeRange, ShapeLinSpace,
  ShapeFill, ShapeRandomUniform, ShapeReduction, ShapeMoments, ShapeHistogram,
  ShapeUnravelIndex, ShapeSegmentMean, ShapeNonMaxSuppressionV2, ShapeCosineSimilarity,
  ShapeDet, ShapeSvd, ShapeStft, ShapeDynamicQuant, ShapeInnerProduct, ShapeAttention and
  ShapeSplitGelu.
\<close>

section \<open>Gather and scatter\<close>

definition GatherV2Computer :: "int option \<Rightarrow> Tensor list \<Rightarrow> Tensor list \<Rightarrow> Tensor list option" where
  "GatherV2Computer axisParam inputs outputs =
     (let params = inputs ! 0; indices = inputs ! 1
      in if tcode (ttype indices) \<noteq> halide_type_int then None
         else
           let axis = (if length inputs = 3 then host_int (inputs ! 2) 0 else 0);
               axis = (case axisParam of Some a \<Rightarrow> a | None \<Rightarrow> axis)
           in if axis \<le> - dimensions params \<or> axis \<ge> dimensions params then None
              else
                let axis = (if axis < 0 then dimensions params + axis else axis);
                    result_shape = map (extent params) [0..axis - 1]
                      @ map (extent indices) [0..dimensions indices - 1]
                      @ map (extent params) [axis + 1..dimensions params - 1];
                    output = setHalideType (ttype params)
                      (setDimensions (int (length result_shape)) (outputs ! 0));
                    output = for_loop 0 (int (length result_shape)) (\<lambda>i. setLength i (result_shape ! nat i)) output
                in Some (outputs[0 := setFormat (dimensionFormat params) output]))"

definition GatherNDComputer :: "int option \<Rightarrow> Tensor list \<Rightarrow> Tensor list \<Rightarrow> Tensor list option" where
  "GatherNDComputer axisParam inputs outputs =
     (let params = inputs ! 0; indices = inputs ! 1; out = outputs ! 0
      in if tcode (ttype indices) \<noteq> halide_type_int then None
         else if dimensions params < 1 \<or> dimensions indices < 1 then None
         else
           let batchDim = (case axisParam of Some a \<Rightarrow> a | None \<Rightarrow> 0)
           in if elementSize indices = 0 then
                Some (outputs[0 := setLength 1 (last (shape params)) (setLength 0 0 (setDimensions 2
                       (setFormat (dimensionFormat params) (setHalideType (ttype params) out))))])
              else
                let indiceNd = extent indices (dimensions indices - 1)
                in if indiceNd > dimensions params then None
                   else
                     let out = setDimensions (dimensions params + dimensions indices - indiceNd - 1 - batchDim)
                           (setHalideType (ttype params) out);
                         out = setFormat (dimensionFormat params) out;
                         st = for_loop 0 (dimensions indices - 1) (\<lambda>i. push_dim (extent indices i)) (0, out);
                         (outputIndex, out) = for_loop (indiceNd + batchDim) (dimensions params)
                           (\<lambda>i. push_dim (extent params i)) st
                     in Some (outputs[0 := out]))"

definition GatherElementsComputer :: "Tensor list \<Rightarrow> Tensor list \<Rightarrow> Tensor list option" where
  "GatherElementsComputer inputs outputs =
     (let out = setDimensions (dimensions (inputs ! 1)) (outputs ! 0);
          out = for_loop 0 (dimensions (inputs ! 1)) (\<lambda>i. setLength i (extent (inputs ! 1) i)) out
      in Some (outputs[0 := setHalideType (ttype (inputs ! 0)) (setFormat (dimensionFormat (inputs ! 0)) out)]))"

definition ShapeScatterNd :: "Tensor list \<Rightarrow> Tensor list \<Rightarrow> Tensor list option" where
  "ShapeScatterNd inputs outputs =
     (let updates = inputs ! 1; shp = inputs ! 2;
          dimension = extent shp 0;
          output = for_loop 0 dimension (\<lambda>i. setLength i (host_int shp i)) (setDimensions dimension (outputs ! 0))
      in Some (outputs[0 := setFormat (dimensionFormat updates) (setHalideType (ttype updates) output)]))"

definition ShapeOneHot :: "int \<Rightarrow> Tensor list \<Rightarrow> Tensor list \<Rightarrow> Tensor list option" where
  "ShapeOneHot paramAxis inputs outputs =
     (let indices = inputs ! 0; depth = host_int (inputs ! 1) 0
      in if depth < 0 then None
         else
           let outputDimension = dimensions indices + 1;
               axis = (if paramAxis < 0 then outputDimension + paramAxis else paramAxis);
               output = setHalideType (ttype (inputs ! 2)) (setDimensions outputDimension (outputs ! 0));
               output = for_loop 0 outputDimension
                 (\<lambda>i. setLength i (if i < axis then extent indices i
                                   else if i = axis then depth else extent indices (i - 1))) output
           in Some (outputs[0 := setFormat (dimensionFormat indices) output]))"

definition TopKV2SizeComputer :: "Tensor list \<Rightarrow> Tensor list \<Rightarrow> Tensor list option" where
  "TopKV2SizeComputer inputs outputs =
     (let input = inputs ! 0; k = host_int (inputs ! 1) 0;
          inputDimension = dimensions input;
          axis = (if length inputs = 3 then host_int (inputs ! 2) 0 else inputDimension - 1);
          axis = (if axis < 0 then axis + dimensions input else axis);
          outputData = setHalideType (ttype input) (setLength axis k
            (copy_dims inputDimension input (setDimensions inputDimension (outputs ! 0))));
          outputIndices = setType DT_INT32 (setLength axis k
            (copy_dims inputDimension input (setDimensions inputDimension (outputs ! 1))))
      in Some (outputs[0 := setFormat (dimensionFormat input) outputData,
                       1 := setFormat (dimensionFormat (inputs ! 1)) outputIndices]))"

section \<open>ArgMax\<close>

record ArgMaxParam =
  argAxis :: int
  topK :: int
  outMaxVal :: int

definition ArgMaxComputer :: "ArgMaxParam \<Rightarrow> Tensor list \<Rightarrow> Tensor list \<Rightarrow> Tensor list option" where
  "ArgMaxComputer argMax inputs outputs =
     (let input = inputs ! 0;
          output = setFormat (dimensionFormat input)
            (copy_dims (dimensions input) input (setDimensions (dimensions input) (outputs ! 0)))
      in Some (outputs[0 :=
           if dimensionFormat input \<noteq> FMT_NC4HW4 then
             let axis = (if argAxis argMax < 0 then dimensions input + argAxis argMax else argAxis argMax);
                 output = setDimensions (dimensions input - 1) output;
                 (j, output) = for_loop 0 (dimensions input)
                   (\<lambda>i. if i = axis then id else push_dim (extent input i)) (0, output)
             in setHalideType type_int32 (setLength (dimensions input - 1) 0 output)
           else if argAxis argMax = 0 then
             let keyExtent = (if outMaxVal argMax \<noteq> 0 then topK argMax * 2 else topK argMax);
                 output = setHalideType type_float output
             in if extent input 3 > 1 then setLength 3 keyExtent output
                else if extent input 2 > 1 then setLength 2 keyExtent output
                else setLength 1 keyExtent output
           else
             let output = setHalideType type_float output; axis = argAxis argMax
             in if axis \<noteq> 10000 then
                  setLength axis (if outMaxVal argMax \<noteq> 0 then topK argMax * 2 else topK argMax) output
                else
                  let outputShape = replicate (nat (dimensions input)) 1;
                      outputShape = outputShape[0 := extent input 0, 2 := topK argMax];
                      outputShape = (if outMaxVal argMax \<noteq> 0 then outputShape[1 := 2] else outputShape)
                  in for_loop 0 (int (length outputShape)) (\<lambda>ii. setLength ii (outputShape ! nat ii)) output]))"

section \<open>Outputs that depend on content\<close>

definition content_int :: "Tensor \<Rightarrow> int list" where
  "content_int t = take (nat (elementSize t)) (the (ihost t))"

definition content_float :: "Tensor \<Rightarrow> rat list" where
  "content_float t = take (nat (elementSize t)) (the (fhost t))"

definition ShapeUnique :: "Tensor list \<Rightarrow> Tensor list \<Rightarrow> Tensor list option" where
  "ShapeUnique inputs outputs =
     (let ib = inputs ! 0
      in if type_bytes (ttype ib) \<noteq> 4 then None
         else
           let ob = setHalideType (ttype ib) (setFormat (dimensionFormat ib) (setDimensions 1 (outputs ! 0)))
           in if ihost ib = None then None
              else
                let eleSize = elementSize ib;
                    values = int (length (remdups (content_int ib)));
                    ob = setLength 0 values ob;
                    outs = outputs[0 := ob];
                    outs = (if length outs > 1
                            then outs[1 := setHalideType type_int32 (copyShape ob (outs ! 1) True)] else outs);
                    outs = (if length outs > 2
                            then outs[2 := setHalideType type_int32 (setFormat (dimensionFormat ib)
                                       (setLength 0 eleSize (setDimensions 1 (outs ! 2))))] else outs);
                    outs = (if length outs > 3
                            then outs[3 := setHalideType type_int32 (setFormat (dimensionFormat ib)
                                       (setLength 0 values (setDimensions 1 (outs ! 3))))] else outs)
                in Some outs)"

text \<open>\<open>hasParam\<close>: the op has an \<open>Extra\<close> parameter, i.e. is not from an old converter.\<close>

definition WhereSizeComputer :: "bool \<Rightarrow> Tensor list \<Rightarrow> Tensor list \<Rightarrow> Tensor list option" where
  "WhereSizeComputer hasParam inputs outputs =
     (let ib = inputs ! 0;
          ob = setLength 1 (dimensions ib) (setLength 0 (elementSize ib) (setDimensions 2 (outputs ! 0)));
          ob = setHalideType type_int32 (setFormat (dimensionFormat ib) ob)
      in if \<not> hasParam then Some (outputs[0 := ob])
         else if ihost ib = None \<and> fhost ib = None then Some (outputs[0 := setLength 0 0 ob])
         else
           let finish = (\<lambda>count. Some (outputs[0 :=
                 if count > 0 then setLength 0 count ob
                 else setLength 1 (dimensions ib) (setLength 0 0 (setDimensions 2 ob))]))
           in if ttype ib = type_float then finish (int (length (filter (\<lambda>v. v > 0) (content_float ib))))
              else if ttype ib = type_int32 then finish (int (length (filter (\<lambda>v. v > 0) (content_int ib))))
              else if ttype ib = type_uint8 then finish (int (length (filter (\<lambda>v. v > 0) (content_int ib))))
              else None)"

definition ShapeSetDiff1D :: "Tensor list \<Rightarrow> Tensor list \<Rightarrow> Tensor list option" where
  "ShapeSetDiff1D inputs outputs =
     (if tcode (ttype (inputs ! 0)) \<noteq> halide_type_int \<or> tcode (ttype (inputs ! 1)) \<noteq> halide_type_int then None
      else
        let ib = inputs ! 0;
            ob = setHalideType (ttype ib) (setFormat (dimensionFormat ib) (setDimensions 1 (outputs ! 0)))
        in if ihost (inputs ! 0) = None \<or> ihost (inputs ! 1) = None then None
           else
             let outputNum = int (length (filter (\<lambda>v. v \<notin> set (content_int (inputs ! 1))) (content_int (inputs ! 0))))
             in Some (outputs[0 := setLength 0 outputNum ob]))"

definition range_size :: "rat \<Rightarrow> rat \<Rightarrow> rat \<Rightarrow> int" where
  "range_size start limit delta =
     (if delta > 0 \<and> limit < start then 0
      else if \<not> delta > 0 \<and> limit > start then 0
      else \<lceil>\<bar>f32_div (f32_sub limit start) delta\<bar>\<rceil>)"

definition RangeComputer :: "Tensor list \<Rightarrow> Tensor list \<Rightarrow> Tensor list option" where
  "RangeComputer inputs outputs =
     (let out = outputs ! 0;
          (output_size, out) = (case tcode (ttype (inputs ! 0)) of
             halide_type_int \<Rightarrow>
               (range_size (f32 (of_int (host_int (inputs ! 0) 0))) (f32 (of_int (host_int (inputs ! 1) 0)))
                  (f32 (of_int (host_int (inputs ! 2) 0))), setType DT_INT32 out)
           | halide_type_float \<Rightarrow>
               (range_size (host_float (inputs ! 0) 0) (host_float (inputs ! 1) 0) (host_float (inputs ! 2) 0),
                setType DT_FLOAT out)
           | _ \<Rightarrow> (0, out))
      in Some (outputs[0 := setFormat (dimensionFormat (inputs ! 0)) (setLength 0 output_size (setDimensions 1 out))]))"

definition LinSpaceSizeComputer :: "Tensor list \<Rightarrow> Tensor list \<Rightarrow> Tensor list option" where
  "LinSpaceSizeComputer inputs outputs =
     Some (outputs[0 := setFormat (dimensionFormat (inputs ! 0)) (setType DT_FLOAT
       (setLength 0 (host_int (inputs ! 2) 0) (setDimensions 1 (outputs ! 0))))])"

definition FillComputer :: "Tensor list \<Rightarrow> Tensor list \<Rightarrow> Tensor list option" where
  "FillComputer inputs outputs =
     (let input0 = inputs ! 0;
          output0 = setFormat (dimensionFormat (inputs ! 1)) (setHalideType (ttype (inputs ! 1))
            (setDimensions (extent input0 0) (outputs ! 0)))
      in Some (outputs[0 := for_loop 0 (extent input0 0) (\<lambda>i. setLength i (host_int input0 i)) output0]))"

definition RandomUniformComputer :: "DataType \<Rightarrow> Tensor list \<Rightarrow> Tensor list \<Rightarrow> Tensor list option" where
  "RandomUniformComputer paramType inputs outputs =
     (let output = setDimensions (elementSize (inputs ! 0)) (setType paramType (outputs ! 0));
          output = for_loop 0 (dimensions output) (\<lambda>i. setLength i (host_int (inputs ! 0) i)) output
      in Some (outputs[0 := setLinearLayout output]))"

section \<open>Reductions\<close>

definition getRealAxis :: "int \<Rightarrow> int \<Rightarrow> int" where
  "getRealAxis axis n = (if axis < 0 then axis + n else axis)"

definition ReductionComputer :: "int list option \<Rightarrow> bool \<Rightarrow> Tensor list \<Rightarrow> Tensor list \<Rightarrow> Tensor list option" where
  "ReductionComputer reduceDim keepDims inputs outputs =
     (let input = inputs ! 0;
          output = setHalideType (ttype input) (setFormat (dimensionFormat input) (outputs ! 0))
      in if reduceDim = None \<and> length inputs = 1 then
           Some (outputs[0 := if keepDims
             then for_loop 0 (dimensions input) (\<lambda>i. setLength i 1) (setDimensions (dimensions input) output)
             else setDimensions 0 output])
         else
           let axes = (case reduceDim of Some ds \<Rightarrow> ds | None \<Rightarrow> content_int (inputs ! 1));
               reduceMask = fold (\<lambda>a m. m(getRealAxis a (dimensions input) := 1)) axes (\<lambda>i. 0 :: int);
               (offset, output) = for_loop 0 (dimensions input)
                 (\<lambda>i. if 1 = reduceMask i then (if keepDims then push_dim 1 else id)
                      else push_dim (extent input i)) (0, output)
           in Some (outputs[0 := setDimensions offset output]))"

text \<open>Compiled with \<open>MNN_SUPPORT_DEPRECATED_OP\<close>; without it the computer only returns true.\<close>

definition MomentsComputer :: "int list option \<Rightarrow> bool \<Rightarrow> Tensor list \<Rightarrow> Tensor list \<Rightarrow> Tensor list option" where
  "MomentsComputer momentsDim keepDims inputs outputs =
     (let input = inputs ! 0;
          mean = setHalideType (ttype input) (outputs ! 0);
          variance = setHalideType (ttype input) (outputs ! 1)
      in case momentsDim of
           None \<Rightarrow> Some (outputs[0 := setFormat FMT_NCHW (setDimensions 0 mean),
                                  1 := setFormat FMT_NCHW (setDimensions 0 variance)])
         | Some ds \<Rightarrow>
             let outputShape = concat (map (\<lambda>i. if i \<notin> set ds then [extent input i]
                                              else if keepDims then [1] else []) [0..dimensions input - 1]);
                 put = (\<lambda>t. setFormat FMT_NC4HW4 (for_loop 0 (int (length outputShape))
                         (\<lambda>i. setLength i (outputShape ! nat i)) (setDimensions (int (length outputShape)) t)))
             in Some (outputs[0 := put mean, 1 := put variance]))"

definition ShapeHistogram :: "int \<Rightarrow> Tensor list \<Rightarrow> Tensor list \<Rightarrow> Tensor list option" where
  "ShapeHistogram outMax inputs outputs =
     Some (outputs[0 := setFormat (dimensionFormat (inputs ! 0)) (setHalideType type_float
       (setLength 0 outMax (setDimensions 1 (outputs ! 0))))])"

definition UnravelIndexSize :: "Tensor list \<Rightarrow> Tensor list \<Rightarrow> Tensor list option" where
  "UnravelIndexSize inputs outputs =
     (let indices = inputs ! 0; dims = inputs ! 1; output = setType DT_INT32 (outputs ! 0)
      in Some (outputs[0 :=
           if dimensions indices = 0 then setLength 0 (extent dims 0) (setDimensions 1 output)
           else setLength 1 (elementSize indices) (setLength 0 (extent dims 0) (setDimensions 2 output))]))"

definition SegmentMeanSizeComputer :: "Tensor list \<Rightarrow> Tensor list \<Rightarrow> Tensor list option" where
  "SegmentMeanSizeComputer inputs outputs =
     (let dataDim = dimensions (inputs ! 0);
          S = extent (inputs ! 0) 0;
          output = setLength 0 (host_int (inputs ! 1) (S - 1) + 1) (setDimensions dataDim (outputs ! 0));
          output = for_loop 1 dataDim (\<lambda>i. setLength i (extent (inputs ! 0) i)) output
      in Some (outputs[0 := setFormat (dimensionFormat (inputs ! 0)) output]))"

definition NonMaxSuppressionV2Computer :: "Tensor list \<Rightarrow> Tensor list \<Rightarrow> Tensor list option" where
  "NonMaxSuppressionV2Computer inputs outputs =
     (let num_boxes = extent (inputs ! 0) 0;
          output_size = (if length inputs > 2 \<and> ihost (inputs ! 2) \<noteq> None
                         then min (host_int (inputs ! 2) 0) num_boxes else num_boxes)
      in Some (outputs[0 := setFormat (dimensionFormat (inputs ! 0))
           (setLength 0 output_size (setType DT_INT32 (setDimensions 1 (outputs ! 0))))]))"

definition CosineSimilaritySize :: "Tensor list \<Rightarrow> Tensor list \<Rightarrow> Tensor list option" where
  "CosineSimilaritySize inputs outputs =
     (let x1 = inputs ! 0; dim = host_int (inputs ! 2) 0;
          dimensions0 = dimensions x1;
          output = for_loop 0 dimensions0
            (\<lambda>i o'. if i = dim then o' else setLength (if i > dim then i - 1 else i) (extent x1 i) o')
            (setDimensions (dimensions0 - 1) (outputs ! 0))
      in Some (outputs[0 := setFormat FMT_NCHW (setHalideType (ttype x1) output)]))"

section \<open>Linear algebra\<close>

definition DetComputer :: "Tensor list \<Rightarrow> Tensor list \<Rightarrow> Tensor list option" where
  "DetComputer inputs outputs =
     (if length inputs \<noteq> 1 then None
      else
        let ib = inputs ! 0; dim = dimensions ib
        in if dim < 2 \<or> extent ib (dim - 1) \<noteq> extent ib (dim - 2) then None
           else
             let ob = setDimensions (dim - 2) (outputs ! 0);
                 ob = (if dim > 2 then copy_dims (dim - 2) ib ob else ob)
             in Some (outputs[0 := setFormat (dimensionFormat ib) (setHalideType (ttype ib) ob)]))"

definition SvdComputer :: "Tensor list \<Rightarrow> Tensor list \<Rightarrow> Tensor list option" where
  "SvdComputer inputs outputs =
     (let row = extent (inputs ! 0) 0; col = extent (inputs ! 0) 1; single_num = col;
          fin = (\<lambda>t. setFormat (dimensionFormat (inputs ! 0)) (setHalideType (ttype (inputs ! 0)) t))
      in Some (outputs[0 := fin (setLength 0 single_num (setDimensions 1 (outputs ! 0))),
                       1 := fin (setLength 1 single_num (setLength 0 row (setDimensions 2 (outputs ! 1)))),
                       2 := fin (setLength 1 col (setLength 0 single_num (setDimensions 2 (outputs ! 2))))]))"

definition StftOpComputer :: "bool \<Rightarrow> Tensor list \<Rightarrow> Tensor list \<Rightarrow> Tensor list option" where
  "StftOpComputer absParam inputs outputs =
     (let batch_size = extent (inputs ! 0) 0; signal_length = extent (inputs ! 0) 1;
          frame_length = extent (inputs ! 2) 0;
          nstfts = cdiv (signal_length - frame_length) (host_int (inputs ! 1) 0) + 1;
          dft_unique_bins = (if absParam then cdiv frame_length 2 + 1 else frame_length)
      in Some (outputs[0 := setFormat (dimensionFormat (inputs ! 0))
           (setLength 2 dft_unique_bins (setLength 1 nstfts (setLength 0 batch_size
             (setLength 3 2 (setDimensions 4 (outputs ! 0))))))]))"

definition DynamicQuantComputer :: "Tensor list \<Rightarrow> Tensor list \<Rightarrow> Tensor list option" where
  "DynamicQuantComputer inputs outputs =
     (if length inputs \<noteq> 1 then None
      else
        let input = inputs ! 0;
            output = setHalideType type_int8 (setFormat (dimensionFormat input)
              (for_loop 0 (dimensions input) (\<lambda>i. setLength i (extent input i))
                (setDimensions (dimensions input) (outputs ! 0))));
            scale = setHalideType type_float (setFormat (dimensionFormat input)
              (setLength 0 1 (setDimensions 1 (outputs ! 1))));
            zeroPoint = setHalideType type_float (setLength 0 1 (setDimensions 1 (outputs ! 2)))
        in Some (outputs[0 := output, 1 := scale, 2 := zeroPoint]))"

definition InnerProductComputer :: "int \<Rightarrow> Tensor list \<Rightarrow> Tensor list \<Rightarrow> Tensor list option" where
  "InnerProductComputer outputCount inputs outputs =
     (let input = inputs ! 0
      in Some (outputs[0 := setFormat (dimensionFormat input) (setHalideType type_float
           (setLength 1 outputCount (setLength 0 (extent input 0) (setDimensions (dimensions input) (outputs ! 0)))))]))"

definition FmhaV2SizeComputer :: "Tensor list \<Rightarrow> Tensor list \<Rightarrow> Tensor list option" where
  "FmhaV2SizeComputer inputs outputs =
     (let input0 = inputs ! 0
      in Some (outputs[0 := setFormat (dimensionFormat input0) (setHalideType (ttype input0) (setDimensions 3
           (setLength 2 (cdiv (extent input0 2) 3) (setLength 1 (extent input0 1)
             (setLength 0 (extent input0 0) (outputs ! 0))))))]))"

definition FmhcaSizeComputer :: "Tensor list \<Rightarrow> Tensor list \<Rightarrow> Tensor list option" where
  "FmhcaSizeComputer inputs outputs =
     (let input0 = inputs ! 0
      in Some (outputs[0 := setFormat (dimensionFormat input0) (setHalideType (ttype input0) (setDimensions 3
           (setLength 2 (extent input0 2) (setLength 1 (extent input0 1)
             (setLength 0 (extent input0 0) (outputs ! 0))))))]))"

definition AttentionSizeComputer :: "Tensor list \<Rightarrow> Tensor list \<Rightarrow> Tensor list option" where
  "AttentionSizeComputer inputs outputs =
     (let input = inputs ! 0
      in Some (outputs[0 := setFormat (dimensionFormat input) (setHalideType (ttype input) (setDimensions 3
           (setLength 2 (extent input 2 * extent input 3) (setLength 1 (extent input 1)
             (setLength 0 (extent input 0) (outputs ! 0))))))]))"

definition SplitGeLUSizeComputer :: "Tensor list \<Rightarrow> Tensor list \<Rightarrow> Tensor list option" where
  "SplitGeLUSizeComputer inputs outputs =
     (let input0 = inputs ! 0
      in Some (outputs[0 := setFormat (dimensionFormat input0) (setHalideType (ttype input0)
           (setLength 2 (cdiv (extent input0 2) 2) (setLength 1 (extent input0 1)
             (setLength 0 (extent input0 0) (setDimensions 3 (outputs ! 0))))))]))"

definition SeqLen2SpatialSizeComputer :: "Tensor list \<Rightarrow> Tensor list \<Rightarrow> Tensor list option" where
  "SeqLen2SpatialSizeComputer inputs outputs =
     (let input3 = inputs ! 0
      in Some (outputs[0 := setFormat (dimensionFormat input3) (setHalideType (ttype input3)
           (for_loop 0 (dimensions input3) (\<lambda>i. setLength i (extent input3 i))
             (setDimensions (dimensions input3) (outputs ! 0))))]))"

lemmas [shape_defs] = GatherV2Computer_def GatherNDComputer_def GatherElementsComputer_def
  ShapeScatterNd_def ShapeOneHot_def TopKV2SizeComputer_def ArgMaxComputer_def ShapeUnique_def
  WhereSizeComputer_def ShapeSetDiff1D_def RangeComputer_def LinSpaceSizeComputer_def
  FillComputer_def RandomUniformComputer_def ReductionComputer_def MomentsComputer_def
  ShapeHistogram_def UnravelIndexSize_def SegmentMeanSizeComputer_def
  NonMaxSuppressionV2Computer_def CosineSimilaritySize_def DetComputer_def SvdComputer_def
  StftOpComputer_def DynamicQuantComputer_def InnerProductComputer_def FmhaV2SizeComputer_def
  FmhcaSizeComputer_def AttentionSizeComputer_def SplitGeLUSizeComputer_def
  SeqLen2SpatialSizeComputer_def

end
