(* ===== verification/Shape_Strided.thy ===== *)
theory Shape_Strided
  imports Shape_Broadcast
begin

text \<open>
  source/shape/ShapeStridedSlice.cpp. The local arrays of \<open>MNN_MAX_TENSOR_DIM\<close> ints,
  zero at the start, are functions; \<open>outputShapeShrinked\<close> with its counter is the list
  of the extents it has received. (\<open>outputShape\<close> is written and never read.)
\<close>

unbundle bit_operations_syntax

record StridedSliceParam =
  beginMask :: int
  endMask :: int
  ellipsisMask :: int
  newAxisMask :: int
  shrinkAxisMask :: int
  fromType :: int

text \<open>\<open>mask & (1 << i)\<close>\<close>

definition mask_bit :: "int \<Rightarrow> int \<Rightarrow> int" where
  "mask_bit m i = m AND push_bit (nat i) 1"

section \<open>One dimension\<close>

definition beginAndEndShapeLimit :: "int \<Rightarrow> int \<Rightarrow> bool \<Rightarrow> int" where
  "beginAndEndShapeLimit shp dimSize exclusive =
     (let maxShape = (if exclusive then dimSize else dimSize - 1);
          minShape = (if exclusive then - dimSize - 1 else - dimSize);
          shp = (if shp > maxShape then maxShape else shp);
          shp = (if shp < minShape then minShape else shp)
      in if shp < 0 then shp + dimSize else shp)"

text \<open>
  The bounds and stride of dimension \<open>i\<close> after clipping, as (begin, end, stride): the
  body of the last loop down to the swap.
\<close>

definition strided_bounds ::
  "int \<Rightarrow> int \<Rightarrow> int \<Rightarrow> int \<Rightarrow> int \<Rightarrow> int \<Rightarrow> int \<Rightarrow> int \<times> int \<times> int" where
  "strided_bounds inputDim begin end strd beginM endM shrinkM =
     (let strided = (if shrinkM > 0 then 1 else strd);
          b = (if beginM > 0 then (if strided < 0 then inputDim - 1 else 0)
               else if strided < 0 then beginAndEndShapeLimit begin inputDim False
               else min inputDim begin);
          b = (if b < 0 then UP_DIV_i (- b) inputDim * inputDim + b else b);
          e = (if endM > 0 then (if strided < 0 then -1 else inputDim)
               else if strided < 0 then max (-1) (min inputDim end)
               else beginAndEndShapeLimit end inputDim True)
      in if e < b then
           (if strided < 0 then (e, b, - strided) else (b, b, strided))
         else (b, e, strided))"

definition strided_size :: "int \<times> int \<times> int \<Rightarrow> int" where
  "strided_size = (\<lambda>(b, e, s). cdiv (e - b - 1) s + 1)"

section \<open>The computer\<close>

record StridedState =
  begins :: "int \<Rightarrow> int"
  ends :: "int \<Rightarrow> int"
  strides :: "int \<Rightarrow> int"
  beginMasks :: "int \<Rightarrow> int"
  endMasks :: "int \<Rightarrow> int"
  shrinkMasks :: "int \<Rightarrow> int"
  newAxisMasks :: "int \<Rightarrow> int"

definition strided_start :: "StridedSliceParam \<Rightarrow> Tensor \<Rightarrow> int \<Rightarrow> StridedState" where
  "strided_start p input strideSize =
     (let upto_bits = (\<lambda>m. for_loop 0 strideSize (\<lambda>i a. a(i := mask_bit m i)) (\<lambda>i. 0))
      in \<lparr>begins = (\<lambda>i. 0),
          ends = for_loop 0 (dimensions input) (\<lambda>i a. a(i := extent input i)) (\<lambda>i. 0),
          strides = for_loop 0 (dimensions input) (\<lambda>i a. a(i := 1)) (\<lambda>i. 0),
          beginMasks = upto_bits (beginMask p), endMasks = upto_bits (endMask p),
          shrinkMasks = upto_bits (shrinkAxisMask p), newAxisMasks = upto_bits (newAxisMask p)\<rparr>)"

text \<open>\<open>fromType == 1\<close> (ONNX): the axes and steps are inputs 3 and 4.\<close>

definition strided_onnx :: "Tensor list \<Rightarrow> int \<Rightarrow> StridedState \<Rightarrow> StridedState" where
  "strided_onnx inputs strideSize st =
     (let input = inputs ! 0; inputDim = dimensions input;
          axis = (if length inputs \<ge> 4 then Some (inputs ! 3) else None);
          step = (if length inputs = 5 then Some (inputs ! 4) else None)
      in for_loop 0 strideSize
           (\<lambda>i st.
              let temp_axis = (case axis of None \<Rightarrow> i
                    | Some a \<Rightarrow> let v = host_int a i in if v < 0 then v + inputDim else v);
                  strd = (case step of None \<Rightarrow> strides st | Some s \<Rightarrow> (strides st)(temp_axis := host_int s i));
                  shp = extent input temp_axis;
                  b = host_int (inputs ! 1) i; b = (if b < 0 then b + shp else b);
                  e = host_int (inputs ! 2) i; e = (if e < 0 then e + shp else e)
              in st\<lparr>strides := strd, begins := (begins st)(temp_axis := b), ends := (ends st)(temp_axis := e)\<rparr>) st)"

text \<open>\<open>fromType == 0\<close> (TensorFlow) with an ellipsis: entries right of it move up.\<close>

definition ellipsis_pos :: "int \<Rightarrow> int \<Rightarrow> int" where
  "ellipsis_pos em strideSize =
     (case List.find (\<lambda>i. mask_bit em i \<noteq> 0) [0..strideSize - 1] of Some i \<Rightarrow> i | None \<Rightarrow> -1)"

definition strided_ellipsis :: "int \<Rightarrow> Tensor list \<Rightarrow> int \<Rightarrow> StridedState \<Rightarrow> StridedState" where
  "strided_ellipsis em inputs strideSize st =
     (let input = inputs ! 0; inputDim = dimensions input;
          strided = (if length inputs \<ge> 4 then Some (inputs ! 3) else None);
          ellipsisPos = ellipsis_pos em strideSize;
          ellpsisSize = inputDim - strideSize;
          tmp0 = st\<lparr>beginMasks := (\<lambda>i. 0), endMasks := (\<lambda>i. 0), shrinkMasks := (\<lambda>i. 0), newAxisMasks := (\<lambda>i. 0)\<rparr>;
          (strideIdx, tmp) = for_loop 0 inputDim
            (\<lambda>i (strideIdx, t).
               let strideIdx = (if i = ellipsisPos then strideIdx + 1 else strideIdx)
               in if i \<ge> ellipsisPos \<and> i \<le> ellipsisPos + ellpsisSize then
                    (strideIdx, t\<lparr>begins := (begins t)(i := 0), ends := (ends t)(i := extent input i),
                       strides := (strides t)(i := 1), beginMasks := (beginMasks t)(i := 0),
                       endMasks := (endMasks t)(i := 0), shrinkMasks := (shrinkMasks t)(i := 0)\<rparr>)
                  else
                    (strideIdx + 1, t\<lparr>begins := (begins t)(i := host_int (inputs ! 1) strideIdx),
                       ends := (ends t)(i := host_int (inputs ! 2) strideIdx),
                       strides := (case strided of Some s \<Rightarrow> (strides t)(i := host_int s strideIdx) | None \<Rightarrow> strides t),
                       beginMasks := (beginMasks t)(i := beginMasks st strideIdx),
                       endMasks := (endMasks t)(i := endMasks st strideIdx),
                       shrinkMasks := (shrinkMasks t)(i := shrinkMasks st strideIdx),
                       newAxisMasks := (newAxisMasks t)(i := newAxisMasks st strideIdx)\<rparr>)) (0, tmp0);
          copy = (\<lambda>new old. for_loop 0 inputDim (\<lambda>i a. a(i := new i)) old)
      in tmp\<lparr>beginMasks := copy (beginMasks tmp) (beginMasks st), endMasks := copy (endMasks tmp) (endMasks st),
             shrinkMasks := copy (shrinkMasks tmp) (shrinkMasks st),
             newAxisMasks := copy (newAxisMasks tmp) (newAxisMasks st)\<rparr>)"

definition strided_plain :: "Tensor list \<Rightarrow> int \<Rightarrow> StridedState \<Rightarrow> StridedState" where
  "strided_plain inputs strideSize st =
     for_loop 0 strideSize
       (\<lambda>i t. t\<lparr>begins := (begins t)(i := host_int (inputs ! 1) i), ends := (ends t)(i := host_int (inputs ! 2) i),
                strides := (strides t)(i := host_int (inputs ! 3) i)\<rparr>) st"

definition strided_shape :: "Tensor \<Rightarrow> int \<Rightarrow> StridedState \<Rightarrow> int list" where
  "strided_shape input strideSize st =
     (let (shrinked, strideDealDims, inputDimOffset) = for_loop 0 strideSize
        (\<lambda>i (shrinked, strideDealDims, inputDimOffset).
           if newAxisMasks st i > 0 then (shrinked @ [1], strideDealDims, inputDimOffset)
           else
             let inputDim = extent input inputDimOffset;
                 r = strided_bounds inputDim (begins st i) (ends st i) (strides st i)
                       (beginMasks st i) (endMasks st i) (shrinkMasks st i)
             in (if shrinkMasks st i = 0 then shrinked @ [strided_size r] else shrinked,
                 strideDealDims + 1, inputDimOffset + 1)) ([], 0, 0)
      in shrinked @ map (\<lambda>i. extent input (strideDealDims + i)) [0..dimensions input - strideDealDims - 1])"

definition StridedSliceComputer :: "StridedSliceParam \<Rightarrow> Tensor list \<Rightarrow> Tensor list \<Rightarrow> Tensor list option" where
  "StridedSliceComputer p inputs outputs =
     (let input = inputs ! 0; output = outputs ! 0; inputDim = dimensions input
      in if inputDim \<le> 0 \<or> inputDim > MNN_MAX_TENSOR_DIM then None
         else if fromType p = 0 \<and> length inputs = 5 then
           Some (outputs[0 := setFormat (dimensionFormat input)
             (setHalideType (ttype input) (copyShape input output True))])
         else if ellipsisMask p \<noteq> 0 \<and> (ellipsisMask p AND (ellipsisMask p - 1)) \<noteq> 0 then None
         else
           let strideSize = extent (inputs ! 1) 0;
               st = strided_start p input strideSize;
               (strideSize, st) =
                 (if fromType p = 1 then (inputDim, strided_onnx inputs strideSize st)
                  else if fromType p = 0 then
                    (if ellipsisMask p > 0 then (inputDim, strided_ellipsis (ellipsisMask p) inputs strideSize st)
                     else (strideSize, strided_plain inputs strideSize st))
                  else (strideSize, st));
               shp = strided_shape input strideSize st;
               output = setHalideType (ttype input) (setDimensions (int (length shp)) output);
               output = for_loop 0 (int (length shp)) (\<lambda>i. setLength i (shp ! nat i)) output
           in Some (outputs[0 := setFormat (dimensionFormat input) output]))"

lemmas [shape_defs] = StridedSliceComputer_def

section \<open>The extent of one dimension\<close>

text \<open>The indices a slice with a positive stride takes.\<close>

definition slice_indices :: "int \<Rightarrow> int \<Rightarrow> int \<Rightarrow> int set" where
  "slice_indices b e s = {k. b \<le> k \<and> k < e \<and> s dvd (k - b)}"

lemma slice_indices_image:
  assumes "0 < s"
  shows "slice_indices b e s = (\<lambda>j. b + j * s) ` {0..<(e - b + s - 1) div s}"
proof
  show "slice_indices b e s \<subseteq> (\<lambda>j. b + j * s) ` {0..<(e - b + s - 1) div s}"
  proof
    fix k assume "k \<in> slice_indices b e s"
    then obtain j where j: "b \<le> k" "k < e" "k - b = s * j" by (auto simp: slice_indices_def dvd_def)
    have "0 \<le> j" using j(1,3) assms by (metis diff_ge_0_iff_ge zero_le_mult_iff less_le_not_le)
    moreover have "(j + 1) * s \<le> e - b + s - 1" using j(2,3) by (simp add: algebra_simps)
    then have "(j + 1) * s div s \<le> (e - b + s - 1) div s" using assms by (rule zdiv_mono1)
    then have "j + 1 \<le> (e - b + s - 1) div s" using assms by simp
    ultimately show "k \<in> (\<lambda>j. b + j * s) ` {0..<(e - b + s - 1) div s}"
      using j(3) by (intro image_eqI [of _ _ j]) (auto simp: algebra_simps)
  qed
  show "(\<lambda>j. b + j * s) ` {0..<(e - b + s - 1) div s} \<subseteq> slice_indices b e s"
  proof
    fix k assume "k \<in> (\<lambda>j. b + j * s) ` {0..<(e - b + s - 1) div s}"
    then obtain j where j: "0 \<le> j" "j + 1 \<le> (e - b + s - 1) div s" "k = b + j * s" by auto
    have "(j + 1) * s \<le> (e - b + s - 1) div s * s" using j(2) assms by (intro mult_right_mono) auto
    also have "\<dots> \<le> e - b + s - 1" using pos_mod_sign [OF assms, of "e - b + s - 1"]
      unfolding minus_mod_eq_div_mult [symmetric] by linarith
    finally have "k < e" using j(3) by (simp add: algebra_simps)
    then show "k \<in> slice_indices b e s" using j assms by (auto simp: slice_indices_def)
  qed
qed

lemma card_slice_indices:
  assumes "0 < s" and "b \<le> e"
  shows "int (card (slice_indices b e s)) = (e - b + s - 1) div s"
proof -
  have "inj_on (\<lambda>j. b + j * s) {0..<(e - b + s - 1) div s}" using assms(1) by (auto simp: inj_on_def)
  then show ?thesis using assms by (simp add: slice_indices_image card_image div_int_pos_iff)
qed

lemma strided_size_pos:
  assumes "0 < s" and "b < e"
  shows "strided_size (b, e, s) = int (card (slice_indices b e s))"
proof -
  have "(e - b + s - 1) div s = (e - b - 1) div s + 1"
    using div_add_self2 [of s "e - b - 1"] assms(1) by (simp add: algebra_simps)
  then show ?thesis using assms by (simp add: card_slice_indices strided_size_def cdiv_nonneg)
qed

text \<open>An empty range: extent 0 for stride 1 only.\<close>

lemma strided_size_empty:
  assumes "0 < s"
  shows "strided_size (b, b, s) = (if s = 1 then 0 else 1)"
  using assms by (auto simp: strided_size_def cdiv_def div_pos_pos_trivial)

end
