(* ===== verification/Shape_TensorArray.thy ===== *)
theory Shape_TensorArray
  imports Shape_Broadcast
begin

text \<open>
  source/shape/ShapeTensorArray.cpp: the shapes of a sequence of tensors, kept in the
  tensor array attribute of a handle tensor and changed by write, scatter, split,
  insert and erase. The indices read from \<open>uint32_t\<close> contents are below \<open>2^31\<close>.
\<close>

record TensorArrayParam =
  dynamic_size :: bool
  identical_element_shapes :: bool
  element_shape :: "int list option"
  elemType :: DataType
  taAxis :: int
  keepdims :: bool
  new_axis :: bool

abbreviation attr_of :: "Tensor \<Rightarrow> TensorArrayAttr" where
  "attr_of t \<equiv> the (tensorArrayAttr t)"

definition upd_attr :: "(TensorArrayAttr \<Rightarrow> TensorArrayAttr) \<Rightarrow> Tensor \<Rightarrow> Tensor" where
  "upd_attr f t = t\<lparr>tensorArrayAttr := Some (f (attr_of t))\<rparr>"

definition copyTensorArrayAttribute :: "Tensor \<Rightarrow> Tensor \<Rightarrow> Tensor" where
  "copyTensorArrayAttribute src dst =
     dst\<lparr>dimensionFormat := dimensionFormat src, tensorArrayAttr := Some (attr_of src)\<rparr>"

definition updateTensorArrayDims :: "Tensor \<Rightarrow> Tensor" where
  "updateTensorArrayDims t =
     (let a = attr_of t;
          totalSize = sum_list (map prod_list (elemShape a));
          totalSize = (if length (elemShape a) = 1 \<and> arraySize a > 1 then totalSize * arraySize a
                       else if totalSize = 0 then 1 else totalSize)
      in setLength 3 1 (setLength 2 1 (setLength 1 1 (setLength 0 totalSize (setDimensions 1 t)))))"

definition TensorArrayComputer :: "TensorArrayParam \<Rightarrow> MNN_DATA_FORMAT \<Rightarrow> Tensor list \<Rightarrow> Tensor list \<Rightarrow> Tensor list option" where
  "TensorArrayComputer param defaultFormat inputs outputs =
     (let make = (\<lambda>output.
            let shapes = (case element_shape param of
                   Some es \<Rightarrow> if length es > 0 then [map (\<lambda>v. if v < 0 then 0 else v) es] else []
                 | None \<Rightarrow> [])
            in updateTensorArrayDims (setFormat defaultFormat (setType (elemType param)
                 (output\<lparr>tensorArrayAttr := Some \<lparr>isDynamicSize = dynamic_size param,
                    isIdenticalShape = identical_element_shapes param,
                    arraySize = host_int (inputs ! 0) 0, elemShape = shapes\<rparr>\<rparr>))))
      in Some (outputs[0 := make (outputs ! 0), 1 := make (outputs ! 1)]))"

definition TensorArraySizeComputer :: "Tensor list \<Rightarrow> Tensor list \<Rightarrow> Tensor list option" where
  "TensorArraySizeComputer inputs outputs =
     Some (outputs[0 := setFormat (dimensionFormat (inputs ! 1))
       (setLength 0 1 (setDimensions 1 (setType DT_INT32 (outputs ! 0))))])"

definition TensorArrayReadComputer :: "Tensor list \<Rightarrow> Tensor list \<Rightarrow> Tensor list option" where
  "TensorArrayReadComputer inputs outputs =
     (if tensorArrayAttr (inputs ! 2) = None then None
      else
        let des = attr_of (inputs ! 2); readIndex = host_int (inputs ! 1) 0;
            readElemShape = (if \<not> isIdenticalShape des \<and> int (length (elemShape des)) > readIndex
                             then elemShape des ! nat readIndex
                             else if length (elemShape des) \<ge> 1 then elemShape des ! 0 else []);
            output = setDimensions (int (length readElemShape)) (setHalideType (ttype (inputs ! 2)) (outputs ! 0));
            output = for_loop 0 (int (length readElemShape)) (\<lambda>i. setLength i (readElemShape ! nat i)) output
        in Some (outputs[0 := setFormat (dimensionFormat (inputs ! 2)) output]))"

text \<open>\<open>arraySize\<close> after a write at the index: only a dynamic array grows.\<close>

definition grow_array :: "TensorArrayAttr \<Rightarrow> int \<Rightarrow> TensorArrayAttr \<Rightarrow> TensorArrayAttr" where
  "grow_array inAttr writeIndex a =
     (if \<not> isDynamicSize inAttr then a
      else if writeIndex \<ge> arraySize inAttr then a\<lparr>arraySize := writeIndex + 1\<rparr> else a)"

definition write_shape :: "int \<Rightarrow> int list \<Rightarrow> TensorArrayAttr \<Rightarrow> TensorArrayAttr" where
  "write_shape writeIndex writeShape a =
     (if isIdenticalShape a then
        (if elemShape a = [] then a\<lparr>elemShape := [writeShape]\<rparr>
         else a\<lparr>elemShape := (elemShape a)[0 := writeShape]\<rparr>)
      else
        let padded = for_loop (int (length (elemShape a))) (writeIndex + 1) (\<lambda>i es. es @ [writeShape]) (elemShape a)
        in a\<lparr>elemShape := padded[nat writeIndex := writeShape]\<rparr>)"

definition TensorArrayWriteComputer :: "Tensor list \<Rightarrow> Tensor list \<Rightarrow> Tensor list option" where
  "TensorArrayWriteComputer inputs outputs =
     (if tensorArrayAttr (inputs ! 3) = None then None
      else if dimensionFormat (inputs ! 2) \<noteq> dimensionFormat (inputs ! 3) then None
      else
        let output = setHalideType (ttype (inputs ! 2)) (copyTensorArrayAttribute (inputs ! 3) (outputs ! 0));
            writeIndex = host_int (inputs ! 1) 0;
            output = upd_attr (grow_array (attr_of (inputs ! 3)) writeIndex) output;
            output = upd_attr (write_shape writeIndex (shape (inputs ! 2))) output
        in Some (outputs[0 := updateTensorArrayDims output]))"

definition TensorArrayGatherComputer :: "TensorArrayParam \<Rightarrow> Tensor list \<Rightarrow> Tensor list \<Rightarrow> Tensor list option" where
  "TensorArrayGatherComputer param inputs outputs =
     (if tensorArrayAttr (inputs ! 2) = None then None
      else
        let a = attr_of (inputs ! 2);
            output = setFormat (dimensionFormat (inputs ! 2)) (setType (elemType param) (outputs ! 0));
            output = setLength 0 (extent (inputs ! 1) 0) (setDimensions (dimensions (inputs ! 2)) output)
        in Some (outputs[0 :=
             case element_shape param of
               Some es \<Rightarrow>
                 if length es > 0 then
                   for_loop 0 (int (length es))
                     (\<lambda>i. setLength (1 + i) (if es ! nat i < 0 then elemShape a ! 0 ! nat i else es ! nat i))
                     (setDimensions (int (length es) + 1) output)
                 else if length (elemShape a) = 1 then
                   for_loop 0 (int (length (elemShape a ! 0))) (\<lambda>i. setLength (1 + i) (elemShape a ! 0 ! nat i)) output
                 else output
             | None \<Rightarrow>
                 if length (elemShape a) = 1 then
                   for_loop 0 (int (length (elemShape a ! 0))) (\<lambda>i. setLength (1 + i) (elemShape a ! 0 ! nat i)) output
                 else output]))"

definition TensorArrayScatterComputer :: "Tensor list \<Rightarrow> Tensor list \<Rightarrow> Tensor list option" where
  "TensorArrayScatterComputer inputs outputs =
     (if tensorArrayAttr (inputs ! 3) = None then None
      else if dimensionFormat (inputs ! 2) \<noteq> dimensionFormat (inputs ! 3) then None
      else
        let output = copyTensorArrayAttribute (inputs ! 3) (outputs ! 0);
            output = for_loop 0 (extent (inputs ! 1) 0)
              (\<lambda>i o'.
                 let o' = upd_attr (grow_array (attr_of (inputs ! 3)) (host_int (inputs ! 1) i)) o';
                     writeElemShape = tl (shape (inputs ! 2))
                 in upd_attr (\<lambda>a. if elemShape a = [] then a\<lparr>elemShape := [writeElemShape]\<rparr>
                                  else a\<lparr>elemShape := (elemShape a)[0 := writeElemShape]\<rparr>) o') output
        in Some (outputs[0 := updateTensorArrayDims (setHalideType (ttype (inputs ! 3)) output)]))"

text \<open>\<open>v.erase(v.begin() + k)\<close> and \<open>v.insert(v.begin() + k, x)\<close>\<close>

definition insert_at :: "nat \<Rightarrow> 'a \<Rightarrow> 'a list \<Rightarrow> 'a list" where
  "insert_at k x xs = take k xs @ x # drop k xs"

definition TensorArraySplitComputer :: "TensorArrayParam \<Rightarrow> Tensor list \<Rightarrow> Tensor list \<Rightarrow> Tensor list option" where
  "TensorArraySplitComputer taParam inputs outputs =
     (if tensorArrayAttr (inputs ! 3) = None then None
      else
        let value = inputs ! 1; lengths = inputs ! 2;
            splitAxis = nat (crem (taAxis taParam + dimensions value) (dimensions value));
            output = setType (elemType taParam) (copyTensorArrayAttribute (inputs ! 3) (outputs ! 0));
            output = upd_attr (\<lambda>a.
              if isIdenticalShape a then
                let vs = shape value
                in a\<lparr>arraySize := vs ! splitAxis,
                     elemShape := elemShape a @ [if keepdims taParam then vs[splitAxis := 1] else erase_at splitAxis vs]\<rparr>
              else
                let scalarSplit = (elementSize lengths = 1);
                    vShape = shape value; totalLen = vShape ! splitAxis;
                    splitNum = (if scalarSplit then UP_DIV_i totalLen (host_int lengths 0) else extent lengths 0);
                    elem = (\<lambda>i. if scalarSplit then
                                  (if \<not> keepdims taParam then erase_at splitAxis vShape
                                   else let splitLen = host_int lengths 0
                                        in vShape[splitAxis := ALIMIN splitLen (totalLen - i * splitLen)])
                                else vShape[splitAxis := host_int lengths i])
                in a\<lparr>arraySize := splitNum, elemShape := elemShape a @ map elem [0..splitNum - 1]\<rparr>) output
        in Some (outputs[0 := updateTensorArrayDims output]))"

text \<open>\<open>std::equal(xs.begin(), xs.end(), ys.begin())\<close>, with \<open>ys\<close> at least as long.\<close>

definition std_equal :: "'a list \<Rightarrow> 'a list \<Rightarrow> bool" where
  "std_equal xs ys \<longleftrightarrow> take (length xs) ys = xs"

definition TensorArrayConcatComputer :: "TensorArrayParam \<Rightarrow> Tensor list \<Rightarrow> Tensor list \<Rightarrow> Tensor list option" where
  "TensorArrayConcatComputer tpParam inputs outputs =
     (if tensorArrayAttr (inputs ! 1) = None \<or> arraySize (attr_of (inputs ! 1)) = 0 then None
      else
        let a = attr_of (inputs ! 1);
            output = setHalideType (ttype (inputs ! 1)) (copyTensorArrayAttribute (inputs ! 1) (outputs ! 0));
            concatAxis = nat (taAxis tpParam);
            elemShapes = elemShape a;
            (valid, outShape) = for_loop 1 (int (length elemShapes))
              (\<lambda>i (valid, outShape).
                 if \<not> valid then (valid, outShape)
                 else
                   let es = elemShapes ! (if isIdenticalShape a then 0 else nat i);
                       valid = (length outShape = length es)
                   in if new_axis tpParam then (valid \<and> std_equal outShape es, outShape)
                      else (valid \<and> std_equal (take concatAxis outShape) es
                              \<and> std_equal (drop (concatAxis + 1) outShape) (drop (concatAxis + 1) es),
                            outShape[concatAxis := outShape ! concatAxis + es ! concatAxis])) (True, elemShapes ! 0)
        in if \<not> valid then None
           else
             let outShape = (if new_axis tpParam then insert_at concatAxis (arraySize a) outShape else outShape)
             in Some (outputs[0 := for_loop 0 (int (length outShape)) (\<lambda>i. setLength i (outShape ! nat i))
                                     (setDimensions (int (length outShape)) output)]))"

definition TensorArrayInsertComputer :: "Tensor list \<Rightarrow> Tensor list \<Rightarrow> Tensor list option" where
  "TensorArrayInsertComputer inputs outputs =
     (if tensorArrayAttr (inputs ! 3) = None then None
      else if dimensionFormat (inputs ! 2) \<noteq> dimensionFormat (inputs ! 3) then None
      else
        let output = setHalideType (ttype (inputs ! 3)) (copyTensorArrayAttribute (inputs ! 3) (outputs ! 0));
            inSeqSize = arraySize (attr_of (inputs ! 3));
            insertIndex = host_int (inputs ! 1) 0;
            insertIndex = insertIndex + (if insertIndex < 0 then inSeqSize else 0);
            output = upd_attr (\<lambda>a. a\<lparr>arraySize := arraySize a + 1\<rparr>) output;
            output = upd_attr (\<lambda>a.
              if isIdenticalShape a \<and> elemShape a \<noteq> [] then a
              else a\<lparr>elemShape := insert_at (nat insertIndex) (shape (inputs ! 2)) (elemShape a)\<rparr>) output
        in Some (outputs[0 := updateTensorArrayDims output]))"

definition TensorArrayEraseComputer :: "Tensor list \<Rightarrow> Tensor list \<Rightarrow> Tensor list option" where
  "TensorArrayEraseComputer inputs outputs =
     (if tensorArrayAttr (inputs ! 2) = None then None
      else
        let output = setHalideType (ttype (inputs ! 2)) (copyTensorArrayAttribute (inputs ! 2) (outputs ! 0));
            inSeqSize = arraySize (attr_of output);
            eraseIndex = host_int (inputs ! 1) 0;
            eraseIndex = eraseIndex + (if eraseIndex < 0 then inSeqSize else 0);
            output = upd_attr (\<lambda>a. a\<lparr>arraySize := arraySize a - 1\<rparr>) output;
            output = upd_attr (\<lambda>a. if \<not> isIdenticalShape a
              then a\<lparr>elemShape := erase_at (nat eraseIndex) (elemShape a)\<rparr> else a) output
        in Some (outputs[0 := updateTensorArrayDims output]))"

lemmas [shape_defs] = TensorArrayComputer_def TensorArraySizeComputer_def TensorArrayReadComputer_def
  TensorArrayWriteComputer_def TensorArrayGatherComputer_def TensorArrayScatterComputer_def
  TensorArraySplitComputer_def TensorArrayConcatComputer_def TensorArrayInsertComputer_def
  TensorArrayEraseComputer_def

section \<open>Facts\<close>

lemma updateTensorArrayDims_sel [simp]:
  "tensorArrayAttr (updateTensorArrayDims t) = tensorArrayAttr t" "dimensions (updateTensorArrayDims t) = 1"
  "dimensionFormat (updateTensorArrayDims t) = dimensionFormat t" "ttype (updateTensorArrayDims t) = ttype t"
  by (simp_all add: updateTensorArrayDims_def Let_def)

lemma upd_attr_sel [simp]:
  "tensorArrayAttr (upd_attr f t) = Some (f (attr_of t))" "dimensionFormat (upd_attr f t) = dimensionFormat t"
  "ttype (upd_attr f t) = ttype t"
  by (simp_all add: upd_attr_def)

lemma copyAttr_sel [simp]:
  "tensorArrayAttr (copyTensorArrayAttribute s t) = Some (attr_of s)"
  "dimensionFormat (copyTensorArrayAttribute s t) = dimensionFormat s"
  by (simp_all add: copyTensorArrayAttribute_def)

lemma for_snoc: "for_loop a b (\<lambda>i es. es @ [x]) es = es @ replicate (nat (b - a)) x"
proof -
  have "fold (\<lambda>i es. es @ [x]) is es = es @ replicate (length is) x" for "is" :: "int list"
    by (induction "is" arbitrary: es) (simp_all add: replicate_append_same)
  then show ?thesis by (simp add: for_loop_def)
qed

text \<open>A write at an index of an array with its own shape per element.\<close>

lemma write_shape_elem:
  assumes "\<not> isIdenticalShape a" and "0 \<le> w"
  shows "elemShape (write_shape w s a) ! nat w = s"
    and "w < int (length (elemShape (write_shape w s a)))"
    and "k \<noteq> nat w \<Longrightarrow> k < length (elemShape a) \<Longrightarrow> elemShape (write_shape w s a) ! k = elemShape a ! k"
  using assms by (simp_all add: write_shape_def for_snoc Let_def nth_append)

end
