(* ===== verification/Index_Props.thy ===== *)
theory Index_Props
  imports Units_Props Shape_Index Shape_Strided Shape_TensorArray
begin

text \<open>Slicing with strides, gathering, reducing, and tensor arrays.\<close>

section \<open>Strided slices\<close>

text \<open>
  The bounds of Python's \<open>x[b:e:s]\<close> for a positive stride: negative bounds count from the
  end, then both are clipped to the extent.
\<close>

definition py_bound :: "int \<Rightarrow> int \<Rightarrow> int" where
  "py_bound n b = max 0 (min n (if b < 0 then b + n else b))"

definition py_slice :: "int \<Rightarrow> int \<Rightarrow> int \<Rightarrow> int \<Rightarrow> int set" where
  "py_slice n b e s = slice_indices (py_bound n b) (py_bound n e) s"

text \<open>No masks: every dimension of the two vectors is sliced, none added or dropped.\<close>

definition plain_slice :: StridedSliceParam where
  "plain_slice = \<lparr>beginMask = 0, endMask = 0, ellipsisMask = 0, newAxisMask = 0, shrinkAxisMask = 0, fromType = 0\<rparr>"

lemma mask_bit_0 [simp]: "mask_bit 0 i = 0"
  by (simp add: mask_bit_def)

text \<open>Where the code starts: a negative begin counts from the end, as often as it takes to get to an index. And the
  extent it gives: the number of indices, with 1 for an empty slice of a stride above 1.\<close>

definition slice_begin :: "int \<Rightarrow> int \<Rightarrow> int" where
  "slice_begin n b = (if b < 0 then b mod n else min n b)"

definition slice_extent :: "int \<Rightarrow> int \<Rightarrow> int \<Rightarrow> int \<Rightarrow> int" where
  "slice_extent n b e s =
     (if slice_begin n b < py_bound n e then int (card (slice_indices (slice_begin n b) (py_bound n e) s)) else if s = 1 then 0 else 1)"

lemma slice_begin_py: "0 < n \<Longrightarrow> - n \<le> b \<Longrightarrow> slice_begin n b = py_bound n b"
proof -
  assume a: "0 < n" "- n \<le> b"
  have "(b + n) mod n = b + n" if "b < 0" using a that by (intro mod_pos_pos_trivial) simp_all
  then have "b < 0 \<Longrightarrow> b mod n = b + n" by simp
  then show ?thesis using a by (auto simp: slice_begin_def py_bound_def)
qed

lemma slice_extent_py:
  assumes "0 < n" and "- n \<le> b" and "py_slice n b e s \<noteq> {}"
  shows "slice_extent n b e s = int (card (py_slice n b e s))"
proof -
  have "py_bound n b < py_bound n e" using assms(3) by (auto simp: py_slice_def slice_indices_def)
  then show ?thesis by (simp add: slice_extent_def slice_begin_py [OF assms(1,2)] py_slice_def)
qed

lemma strided_bounds_size:
  assumes "0 < s" and "0 < n"
  shows "strided_size (strided_bounds n b e s 0 0 0) = slice_extent n b e s"
proof -
  let ?B = "slice_begin n b" and ?E = "py_bound n e" and ?l = "beginAndEndShapeLimit e n True"
  have B: "0 \<le> ?B" using assms by (simp add: slice_begin_def)
  have "b < 0 \<Longrightarrow> UP_DIV_i (- b) n * n + b = b mod n"
  proof -
    assume "b < 0"
    then have "UP_DIV_i (- b) n = (- b + n - 1) div n" using assms by (simp add: UP_DIV_i_def cdiv_nonneg)
    also have "\<dots> = - (b div n)"
    proof -
      have "b = n * (b div n) + b mod n" "0 \<le> b mod n" "b mod n < n" using assms by simp_all
      then have "- b + n - 1 = n * (- (b div n)) + (n - 1 - b mod n)" "0 \<le> n - 1 - b mod n" "n - 1 - b mod n < n"
        by (simp_all add: algebra_simps)
      then show ?thesis by (metis div_pos_pos_trivial div_mult_self4 assms(2) add.commute add_cancel_right_right less_irrefl)
    qed
    finally show ?thesis by (simp add: minus_div_mult_eq_mod [symmetric])
  qed
  then have bb: "(if min n b < 0 then UP_DIV_i (- min n b) n * n + min n b else min n b) = ?B"
    using assms by (auto simp: slice_begin_def min_def)
  have sf: "(s < 0) = False" "((0 :: int) < 0) = False" using assms(1) by simp_all
  have lim: "?l = (if e < - n then -1 else ?E)" "e < - n \<Longrightarrow> ?E = 0"
    using assms by (auto simp: beginAndEndShapeLimit_def Let_def py_bound_def)
  have "strided_bounds n b e s 0 0 0 = (if ?l < ?B then (?B, ?B, s) else (?B, ?l, s))"
    unfolding strided_bounds_def Let_def sf if_False bb by (rule refl)
  also have "strided_size \<dots> = (if ?B < ?E then strided_size (?B, ?E, s) else strided_size (?B, ?B, s))"
    using lim B by auto
  finally show ?thesis using assms(1) by (simp add: strided_size_pos strided_size_empty slice_extent_def)
qed

lemma strided_plain_loop:
  "for_loop 0 (int k)
     (\<lambda>i t. t\<lparr>begins := (begins t)(i := f i), ends := (ends t)(i := g i), strides := (strides t)(i := h i)\<rparr>) st =
   st\<lparr>begins := \<lambda>i. if 0 \<le> i \<and> i < int k then f i else begins st i,
      ends := \<lambda>i. if 0 \<le> i \<and> i < int k then g i else ends st i,
      strides := \<lambda>i. if 0 \<le> i \<and> i < int k then h i else strides st i\<rparr>"
proof (induction k)
  case 0
  have e: "(0 \<le> i \<and> i < (0::int)) = False" for i by auto
  show ?case by (simp add: e)
next
  case (Suc k)
  then show ?case unfolding for_loop_def upto_Suc by (simp add: fun_eq_iff)
qed

lemma strided_shape_plain:
  assumes "\<And>i. newAxisMasks st i = 0" "\<And>i. shrinkMasks st i = 0"
  shows "strided_shape t (int k) st =
    map (\<lambda>i. strided_size (strided_bounds (extent t i) (begins st i) (ends st i) (strides st i) (beginMasks st i) (endMasks st i) 0)) [0..int k - 1]
    @ map (extent t) [int k..dimensions t - 1]"
proof -
  let ?g = "\<lambda>i. strided_size (strided_bounds (extent t i) (begins st i) (ends st i) (strides st i) (beginMasks st i) (endMasks st i) 0)"
  have L: "for_loop 0 (int k)
        (\<lambda>i (shrinked, strideDealDims, inputDimOffset).
           if newAxisMasks st i > 0 then (shrinked @ [1], strideDealDims, inputDimOffset)
           else
             let inputDim = extent t inputDimOffset;
                 r = strided_bounds inputDim (begins st i) (ends st i) (strides st i)
                       (beginMasks st i) (endMasks st i) (shrinkMasks st i)
             in (if shrinkMasks st i = 0 then shrinked @ [strided_size r] else shrinked,
                 strideDealDims + 1, inputDimOffset + 1)) ([], 0, 0) = (map ?g [0..int k - 1], int k, int k)"
  proof (induction k)
    case 0
    then show ?case by simp
  next
    case (Suc k)
    then show ?case unfolding for_loop_def upto_Suc by (simp add: assms)
  qed
  have "map (\<lambda>i. extent t (int k + i)) [0..dimensions t - int k - 1] = map (extent t) [int k..dimensions t - 1]"
    by (rule nth_equalityI) (simp_all add: nth_upto)
  then show ?thesis unfolding strided_shape_def L by simp
qed

text \<open>
  C25. A strided slice in the TensorFlow form, without masks, with positive strides and any begins and ends, of a
  tensor without zero extents: the computed extents are \<open>slice_extent\<close>'s, and dimensions behind the vectors
  keep theirs. Where the begin is not below \<open>- n\<close> for an extent of \<open>n\<close> and Python's slice \<open>b:e:s\<close> is not empty,
  the extent is the number of Python's indices. (Below \<open>- n\<close> the code wraps around where Python starts at 0,
  and an empty slice gets extent 1 for every stride above 1: \<open>strided_begin_wraps\<close>, \<open>strided_empty_slice_extent\<close>.)
\<close>

theorem strided_slice_counts:
  assumes "length b = k" and "length e = k" and "length s = k" and "int k \<le> dimensions t" and "dimensions t \<le> MNN_MAX_TENSOR_DIM" and "0 < k"
    and "\<forall>i<k. 0 < s ! i \<and> 0 < extent t (int i)"
  shows "\<exists>u. StridedSliceComputer plain_slice [t, int_tensor b, int_tensor e, int_tensor s] [out] = Some [u] \<and>
    ttype u = ttype t \<and>
    shape u = map (\<lambda>i. slice_extent (shape t ! i) (b ! i) (e ! i) (s ! i)) [0..<k] @ drop k (shape t) \<and>
    (\<forall>i<k. - (shape t ! i) \<le> b ! i \<and> py_slice (shape t ! i) (b ! i) (e ! i) (s ! i) \<noteq> {} \<longrightarrow>
      shape u ! i = int (card (py_slice (shape t ! i) (b ! i) (e ! i) (s ! i))))"
proof -
  let ?ins = "[t, int_tensor b, int_tensor e, int_tensor s]"
  let ?st = "strided_plain ?ins (int k) (strided_start plain_slice t (int k))"
  have host: "host_int (int_tensor v) i = v ! nat i" for v i by (simp add: host_int_def)
  have z: "for_loop 0 n (\<lambda>i a. a(i := mask_bit 0 i)) (\<lambda>i. 0) = (\<lambda>i. 0)" for n
  proof -
    have "fold (\<lambda>i a. a(i := 0)) ks (\<lambda>i. 0) = (\<lambda>i. 0 :: int)" for ks :: "int list" by (induction ks) (simp_all add: fun_upd_idem)
    then show ?thesis by (simp add: for_loop_def)
  qed
  have m: "beginMasks ?st i = 0" "endMasks ?st i = 0" "newAxisMasks ?st i = 0" "shrinkMasks ?st i = 0" for i
    unfolding strided_plain_def strided_plain_loop by (simp_all add: strided_start_def plain_slice_def z Let_def)
  have bes: "begins ?st i = b ! nat i" "ends ?st i = e ! nat i" "strides ?st i = s ! nat i" if "0 \<le> i" "i < int k" for i
    using that unfolding strided_plain_def strided_plain_loop by (simp_all add: host)
  have ext: "shape t ! i = extent t (int i)" "0 < shape t ! i" if "i < k" for i
    using that assms(4) assms(7) nth_shape [of "int i" t] by simp_all
  have one: "strided_size (strided_bounds (extent t i) (begins ?st i) (ends ?st i) (strides ?st i) (beginMasks ?st i) (endMasks ?st i) 0) =
      slice_extent (shape t ! nat i) (b ! nat i) (e ! nat i) (s ! nat i)" if i: "0 \<le> i" "i < int k" for i
  proof -
    have "nat i < k" using i by linarith
    then show ?thesis unfolding m bes [OF i] using assms(7) [rule_format, of "nat i"] ext(1) [of "nat i"] i
      by (simp add: strided_bounds_size)
  qed
  let ?vs = "map (\<lambda>i. slice_extent (shape t ! i) (b ! i) (e ! i) (s ! i)) [0..<k] @ drop k (shape t)"
  have "strided_shape t (int k) ?st = ?vs"
  proof -
    have "map (\<lambda>i. strided_size (strided_bounds (extent t i) (begins ?st i) (ends ?st i) (strides ?st i) (beginMasks ?st i) (endMasks ?st i) 0)) [0..int k - 1] =
        map (\<lambda>i. slice_extent (shape t ! i) (b ! i) (e ! i) (s ! i)) [0..<k]"
      by (rule nth_equalityI) (simp_all add: nth_upto one)
    then show ?thesis unfolding strided_shape_plain [OF m(3,4)] using assms(4) take_drop_shape(2) [of "int k" t] by simp
  qed
  moreover have "StridedSliceComputer plain_slice ?ins [out] = Some [setFormat (dimensionFormat t)
      (for_loop 0 (int (length (strided_shape t (int k) ?st))) (\<lambda>i. setLength i (strided_shape t (int k) ?st ! nat i))
        (setHalideType (ttype t) (setDimensions (int (length (strided_shape t (int k) ?st))) out)))]"
    using assms(1,4-6) by (simp add: StridedSliceComputer_def Let_def plain_slice_def)
  ultimately have eq: "StridedSliceComputer plain_slice ?ins [out] = Some [setFormat (dimensionFormat t)
      (for_loop 0 (int (length ?vs)) (\<lambda>i. setLength i (?vs ! nat i)) (setHalideType (ttype t) (setDimensions (int (length ?vs)) out)))]"
    by (simp only:)
  have sh: "shape (setFormat (dimensionFormat t) (for_loop 0 (int (length vs)) (\<lambda>i. setLength i (vs ! nat i))
      (setHalideType (ttype t) (setDimensions (int (length vs)) out)))) = vs" for vs
    by (rule shape_of_map) simp_all
  have py: "?vs ! i = int (card (py_slice (shape t ! i) (b ! i) (e ! i) (s ! i)))"
    if "i < k" "- (shape t ! i) \<le> b ! i" "py_slice (shape t ! i) (b ! i) (e ! i) (s ! i) \<noteq> {}" for i
    using slice_extent_py [OF ext(2) [OF that(1)] that(2,3)] that(1) by (simp add: nth_append)
  show ?thesis by (intro exI conjI, rule eq) (use py in \<open>simp_all only: sh setFormat_sel, simp, blast\<close>)
qed

theorem strided_slice_counts_witness:
  "\<exists>u. StridedSliceComputer plain_slice [tensor_of FMT_NCHW [10, 5, 4], int_tensor [-7, 1], int_tensor [100, -1], int_tensor [2, 1]]
      [tensor_of FMT_NCHW []] = Some [u] \<and>
    shape u ! 0 = int (card (py_slice 10 (-7) 100 2)) \<and> shape u ! 1 = int (card (py_slice 5 1 (-1) 1)) \<and> drop 2 (shape u) = [4]"
proof -
  let ?t = "tensor_of FMT_NCHW [10, 5, 4]"
  have t: "shape ?t = [10, 5, 4]" by simp
  have "3 \<in> py_slice 10 (-7) 100 2" "1 \<in> py_slice 5 1 (-1) 1" by (simp_all add: py_slice_def slice_indices_def py_bound_def)
  then have ne: "py_slice 10 (-7) 100 2 \<noteq> {}" "py_slice 5 1 (-1) 1 \<noteq> {}" by blast+
  have two: "(\<forall>i<2. P i) \<longleftrightarrow> P 0 \<and> P (1 :: nat)" for P by (auto simp: less_Suc_eq numeral_2_eq_2)
  show ?thesis using strided_slice_counts [of "[-7, 1]" 2 "[100, -1]" "[2, 1]" ?t "tensor_of FMT_NCHW []"] ne
    by (auto simp: MNN_MAX_TENSOR_DIM_def two t)
qed

text \<open>
  A begin below \<open>- n\<close>, which Python clips to 0, is taken modulo \<open>n\<close>: slicing 10 elements from -15 gives 5 of them.
\<close>

lemma strided_begin_wraps: "slice_extent 10 (-15) 10 1 = 5 \<and> int (card (py_slice 10 (-15) 10 1)) = 10"
proof -
  have "slice_indices a 10 1 = {a..<10}" for a :: int by (auto simp: slice_indices_def)
  then show ?thesis by (simp add: slice_extent_def slice_begin_def py_slice_def py_bound_def)
qed

text \<open>
  An empty slice (Python gives extent 0) gets extent 1 for every stride above 1: the
  code computes \<open>(end - begin - 1) / stride + 1\<close>, and C's division truncates \<open>-1 / stride\<close> to 0.
\<close>

theorem strided_empty_slice_extent:
  assumes "dimensions t = 1" and "0 < s" and "- extent t 0 \<le> b" and "b < extent t 0"
    and "py_slice (extent t 0) b e s = {}"
  shows "\<exists>u. StridedSliceComputer plain_slice [t, int_tensor [b], int_tensor [e], int_tensor [s]] [out] = Some [u] \<and>
    shape u = [if s = 1 then 0 else 1]"
proof -
  have host: "host_int (int_tensor [v]) 0 = v" for v by (simp add: host_int_def)
  have ne: "\<not> py_bound (extent t 0) b < py_bound (extent t 0) e"
  proof
    assume "py_bound (extent t 0) b < py_bound (extent t 0) e"
    then have "py_bound (extent t 0) b \<in> py_slice (extent t 0) b e s" by (simp add: py_slice_def slice_indices_def)
    then show False using assms(5) by simp
  qed
  then have sz: "strided_size (strided_bounds (extent t 0) b e s 0 0 0) = (if s = 1 then 0 else 1)"
    using assms by (simp add: strided_bounds_size slice_extent_def slice_begin_py)
  have u0: "[0..0::int] = [0]" by simp
  show ?thesis using assms(1) sz
    by (simp add: StridedSliceComputer_def Let_def plain_slice_def MNN_MAX_TENSOR_DIM_def strided_plain_def strided_start_def
        strided_shape_def for_loop_def u0 host shape_def)
qed

theorem strided_empty_slice_extent_witness:
  "\<exists>u. StridedSliceComputer plain_slice [tensor_of FMT_NCHW [10], int_tensor [3], int_tensor [1], int_tensor [2]]
      [tensor_of FMT_NCHW []] = Some [u] \<and> shape u = [1]"
  using strided_empty_slice_extent [of "tensor_of FMT_NCHW [10]" 2 3 1 "tensor_of FMT_NCHW []"]
  by (simp add: py_slice_def slice_indices_def py_bound_def)

section \<open>Gathering\<close>

text \<open>
  Gathering along an axis (given as a parameter) replaces the axis extent by the whole
  shape of the indices. Every axis from the front and every negative one is accepted
  but \<open>- rank\<close>, the first dimension counted from the end, which is rejected.
\<close>

theorem gather_shape:
  assumes "tcode (ttype idx) = halide_type_int" and "- dimensions t \<le> axis" and "axis < dimensions t"
    and "0 \<le> dimensions idx"
  defines "d \<equiv> nat (if axis < 0 then dimensions t + axis else axis)"
  shows "case GatherV2Computer (Some axis) [t, idx] [out] of
      None \<Rightarrow> axis = - dimensions t
    | Some outs \<Rightarrow> axis \<noteq> - dimensions t \<and> (\<exists>u. outs = [u] \<and> ttype u = ttype t \<and>
        shape u = take d (shape t) @ shape idx @ drop (d + 1) (shape t))"
proof (cases "axis = - dimensions t")
  case True
  then show ?thesis using assms(1) by (simp add: GatherV2Computer_def)
next
  case False
  let ?a = "if axis < 0 then dimensions t + axis else axis"
  let ?vs = "map (extent t) [0..?a - 1] @ map (extent idx) [0..dimensions idx - 1] @ map (extent t) [?a + 1..dimensions t - 1]"
  let ?u = "setFormat (dimensionFormat t) (for_loop 0 (int (length ?vs)) (\<lambda>i. setLength i (?vs ! nat i))
      (setHalideType (ttype t) (setDimensions (int (length ?vs)) out)))"
  have g: "(axis \<le> - dimensions t \<or> axis \<ge> dimensions t) = False" using assms(2,3) False by auto
  have eq: "GatherV2Computer (Some axis) [t, idx] [out] = Some [?u]"
    unfolding GatherV2Computer_def Let_def option.case nth_Cons_0 nth_Cons_Suc One_nat_def g using assms(1) by simp
  have sh: "shape (setFormat f (for_loop 0 (int (length vs)) (\<lambda>i. setLength i (vs ! nat i))
      (setHalideType h (setDimensions (int (length vs)) out)))) = vs" for vs f h
    by (rule shape_of_map) simp_all
  have a: "0 \<le> ?a" "?a < dimensions t" using assms(2,3) by auto
  have "?vs = take d (shape t) @ shape idx @ drop (d + 1) (shape t)"
  proof -
    have "d + 1 = nat (?a + 1)" unfolding d_def using a by linarith
    then have "drop (d + 1) (shape t) = map (extent t) [?a + 1..dimensions t - 1]"
      using take_drop_shape(2) [of "?a + 1" t] a by simp
    moreover have "take d (shape t) = map (extent t) [0..?a - 1]"
      unfolding d_def using take_drop_shape(1) [of ?a t] a by simp
    ultimately show ?thesis by (simp add: shape_def)
  qed
  moreover have "shape ?u = ?vs" by (rule sh)
  moreover have "ttype ?u = ttype t" by simp
  ultimately show ?thesis unfolding eq using False by auto
qed

theorem gather_shape_witness:
  "\<exists>u. GatherV2Computer (Some (-2)) [tensor_of FMT_NCHW [2, 3, 4], (tensor_of FMT_NCHW [5, 6])\<lparr>ttype := type_int32\<rparr>] [tensor_of FMT_NCHW []] = Some [u] \<and>
     shape u = [2, 5, 6, 4]"
  using gather_shape [of "(tensor_of FMT_NCHW [5, 6])\<lparr>ttype := type_int32\<rparr>" "tensor_of FMT_NCHW [2, 3, 4]" "-2" "tensor_of FMT_NCHW []"]
  by (auto simp: halide_type_t_def split: option.splits)

section \<open>Reductions\<close>

lemma mask_fold:
  "fold (\<lambda>a m. m(getRealAxis a n := 1)) axes m0 i = (if i \<in> (\<lambda>a. getRealAxis a n) ` set axes then 1 else (m0 i :: int))"
  by (induction axes arbitrary: m0) auto

text \<open>
  A reduction over the given axes (negative ones count from the end, repeated ones count once)
  turns their extents into 1, or removes them, and keeps the others in order.
\<close>

theorem reduction_shape:
  fixes t out :: Tensor and axes :: "int list" and keepDims :: bool
  defines "R \<equiv> (\<lambda>a. getRealAxis a (dimensions t)) ` set axes"
  shows "\<exists>u. ReductionComputer (Some axes) keepDims [t] [out] = Some [u] \<and> ttype u = ttype t \<and>
    dimensionFormat u = dimensionFormat t \<and>
    shape u = (if keepDims then map (\<lambda>i. if i \<in> R then 1 else extent t i) [0..dimensions t - 1]
               else map (extent t) (filter (\<lambda>i. i \<notin> R) [0..dimensions t - 1]))"
proof -
  let ?o = "setHalideType (ttype t) (setFormat (dimensionFormat t) out)"
  let ?m = "fold (\<lambda>a m. m(getRealAxis a (dimensions t) := 1)) axes (\<lambda>i. 0 :: int)"
  have m: "?m i = (if i \<in> R then 1 else 0)" for i unfolding mask_fold by (simp add: R_def)
  let ?g = "\<lambda>i. if i \<in> R then (if keepDims then [1] else []) else [extent t i]"
  have L: "for_loop 0 (dimensions t) (\<lambda>i. if 1 = ?m i then (if keepDims then push_dim 1 else id) else push_dim (extent t i)) (0, ?o) =
      push_dims (concat (map ?g [0..dimensions t - 1])) (0, ?o)"
    by (rule push_loop) (simp add: m push_dim_push_dims)
  have v: "concat (map ?g ks) = (if keepDims then map (\<lambda>i. if i \<in> R then 1 else extent t i) ks
      else map (extent t) (filter (\<lambda>i. i \<notin> R) ks))" for ks
    by (induction ks) auto
  obtain n u where u: "push_dims (concat (map ?g [0..dimensions t - 1])) (0, ?o) = (n, u)" by force
  have "dimensionFormat u = dimensionFormat t" using u unfolding push_dims_eq by auto
  moreover have "ttype u = ttype t" using push_dims_sel [OF u] by simp
  moreover have "ReductionComputer (Some axes) keepDims [t] [out] = Some [setDimensions n u]"
    unfolding ReductionComputer_def Let_def option.case nth_Cons_0 using L u by simp
  moreover have "shape (setDimensions n u) = concat (map ?g [0..dimensions t - 1])"
    using shape_push_dims [OF u] by (simp add: setDimensions_def)
  ultimately show ?thesis by (simp only: v setDimensions_sel) simp
qed

theorem reduction_shape_witness:
  "\<exists>u. ReductionComputer (Some [-1, 0, 2]) False [tensor_of FMT_NCHW [2, 3, 4]] [tensor_of FMT_NCHW []] = Some [u] \<and> shape u = [3]"
  using reduction_shape [of "[-1, 0, 2]" False "tensor_of FMT_NCHW [2, 3, 4]" "tensor_of FMT_NCHW []"]
  by (auto simp: getRealAxis_def upto.simps)

section \<open>Tensor arrays\<close>







end
