(* ===== verification/Dispatch_Props.thy ===== *)
theory Dispatch_Props
  imports Units_Props
begin

text \<open>The dispatcher of shape inference, and the linear layout of a constant's tensor.\<close>

section \<open>Dispatch\<close>

lemma for_update_each:
  assumes "int n = int (length outs)"
  shows "for_loop 0 (int n) (\<lambda>i outs. outs[nat i := f i (outs ! nat i)]) outs = map (\<lambda>k. f (int k) (outs ! k)) [0..<n]"
proof -
  have "k \<le> length outs \<Longrightarrow> for_loop 0 (int k) (\<lambda>i outs. outs[nat i := f i (outs ! nat i)]) outs =
      map (\<lambda>k. f (int k) (outs ! k)) [0..<k] @ drop k outs" for k
  proof (induction k)
    case 0
    then show ?case by simp
  next
    case (Suc k)
    then have k: "k < length outs" by simp
    let ?done = "map (\<lambda>k. f (int k) (outs ! k)) [0..<k]"
    have "(?done @ drop k outs)[k := f (int k) ((?done @ drop k outs) ! k)] = ?done @ f (int k) (outs ! k) # drop (Suc k) outs"
      using k by (simp add: list_update_append nth_append Cons_nth_drop_Suc [symmetric])
    then show ?case using Suc k unfolding for_loop_def upto_Suc by simp
  qed
  then show ?thesis using assms by simp
qed

text \<open>
  Dispatch of an op that is neither a constant nor control flow. An input with
  a negative extent (a shape not known yet) is always refused; otherwise a registered
  computer decides, and an op without one gives every output the shape, type and layout of the
  input at its position, and is refused when their numbers do not fit.
\<close>

theorem dispatch_decides:
  assumes "otype op \<notin> {OpType_While, OpType_If}" and "\<nexists>b. main op = Main_Blob b"
  shows "computeOutputSize reg (Some op) False inputs outputs =
      (if \<exists>t\<in>set inputs. \<exists>x\<in>set (shape t). x < 0 then None
       else case reg (otype op) of
         Some c \<Rightarrow> onComputeSize c op inputs outputs
       | None \<Rightarrow> computeOutputSize reg None False inputs outputs) \<and>
    (case computeOutputSize reg None False inputs outputs of
       None \<Rightarrow> inputs = [] \<or> length outputs \<notin> {1, length inputs}
     | Some outs \<Rightarrow> map shape outs = map shape (take (length outputs) inputs) \<and> map ttype outs = map ttype (take (length outputs) inputs) \<and>
         map dimensionFormat outs = map dimensionFormat (take (length outputs) inputs))"
proof -
  have none: "computeOutputSize reg None False inputs outputs = default_size False inputs outputs" by (simp add: computeOutputSize_def)
  have neg: "(\<exists>t\<in>set inputs. \<exists>i\<in>set [0..dimensions t - 1]. extent t i < 0) = (\<exists>t\<in>set inputs. \<exists>x\<in>set (shape t). x < 0)"
    by (simp add: shape_def)
  let ?copy = "\<lambda>ib ob. setFormat (dimensionFormat ib) (setHalideType (ttype ib) (setDimensions (dimensions ib) (copy_dims (dimensions ib) ib ob)))"
  have sh: "shape (?copy ib ob) = shape ib" for ib ob by (rule shape_eqI) simp_all
  have d: "default_size False inputs outputs = (if inputs \<noteq> [] \<and> length outputs \<in> {1, length inputs}
      then Some (map (\<lambda>k. ?copy (inputs ! k) (outputs ! k)) [0..<length outputs]) else None)"
    using for_update_each [of "length outputs" outputs "\<lambda>i. ?copy (inputs ! nat i)"]
    by (auto simp: default_size_def Let_def Suc_le_eq)
  have tk: "map f (take (length outputs) inputs) = map (\<lambda>k. f (inputs ! k)) [0..<length outputs]"
    if "inputs \<noteq> []" "length outputs \<in> {1, length inputs}" for f :: "Tensor \<Rightarrow> 'c"
  proof (cases "length outputs = length inputs")
    case True
    then show ?thesis by (intro nth_equalityI) simp_all
  next
    case False
    then show ?thesis using that by (cases inputs) simp_all
  qed
  have "computeOutputSize reg (Some op) False inputs outputs =
      (if \<exists>t\<in>set inputs. \<exists>x\<in>set (shape t). x < 0 then None
       else case reg (otype op) of
         Some c \<Rightarrow> onComputeSize c op inputs outputs
       | None \<Rightarrow> computeOutputSize reg None False inputs outputs)"
    using assms unfolding none unfolding computeOutputSize_def neg suite_search_def option.case
    by (cases "main op"; cases "otype op") simp_all
  moreover have "case computeOutputSize reg None False inputs outputs of
       None \<Rightarrow> inputs = [] \<or> length outputs \<notin> {1, length inputs}
     | Some outs \<Rightarrow> map shape outs = map shape (take (length outputs) inputs) \<and> map ttype outs = map ttype (take (length outputs) inputs) \<and>
         map dimensionFormat outs = map dimensionFormat (take (length outputs) inputs)"
  proof (cases "inputs \<noteq> [] \<and> length outputs \<in> {1, length inputs}")
    case True
    then have c: "inputs \<noteq> []" "length outputs \<in> {1, length inputs}" by auto
    show ?thesis unfolding none d if_P [OF True] option.case tk [OF c] map_map comp_def sh
      by (intro conjI) simp_all
  next
    case False
    then show ?thesis unfolding none d by auto
  qed
  ultimately show ?thesis by (rule conjI)
qed

theorem dispatch_decides_witness:
  "computeOutputSize (\<lambda>_. None) (Some \<lparr>otype = OpType_Other 7, main = Main_None\<rparr>) False [tensor_of FMT_NCHW [2, -1]] [tensor_of FMT_NCHW []] = None \<and>
   (\<exists>u. computeOutputSize (\<lambda>_. None) (Some \<lparr>otype = OpType_Other 7, main = Main_None\<rparr>) False [tensor_of FMT_NHWC [2, 5]] [tensor_of FMT_NCHW []] = Some [u] \<and>
     shape u = [2, 5])"
proof -
  let ?op = "\<lparr>otype = OpType_Other 7, main = Main_None\<rparr>"
  note D = dispatch_decides [of ?op "\<lambda>_. None"]
  have "computeOutputSize (\<lambda>_. None) (Some ?op) False [tensor_of FMT_NCHW [2, -1]] [tensor_of FMT_NCHW []] = None"
    using D [of "[tensor_of FMT_NCHW [2, -1]]" "[tensor_of FMT_NCHW []]"] by simp
  moreover have "\<exists>u. computeOutputSize (\<lambda>_. None) (Some ?op) False [tensor_of FMT_NHWC [2, 5]] [tensor_of FMT_NCHW []] = Some [u] \<and> shape u = [2, 5]"
    using D [of "[tensor_of FMT_NHWC [2, 5]]" "[tensor_of FMT_NCHW []]"] by (auto split: option.splits)
  ultimately show ?thesis by blast
qed

section \<open>Linear layout\<close>

text \<open>Row-major offsets over a list of extents.\<close>

fun row_major :: "int list \<Rightarrow> int list \<Rightarrow> int" where
  "row_major (d # ds) (i # is) = i * prod_list ds + row_major ds is"
| "row_major _ _ = 0"

lemma row_major_bounds:
  "list_all2 (\<lambda>i d. 0 \<le> i \<and> i < d) idx ds \<Longrightarrow> 0 \<le> row_major ds idx \<and> row_major ds idx < prod_list ds"
proof (induction ds arbitrary: idx)
  case Nil
  then show ?case by simp
next
  case (Cons d ds)
  obtain i js where idx: "idx = i # js" "0 \<le> i" "i < d" "list_all2 (\<lambda>i d. 0 \<le> i \<and> i < d) js ds"
    using Cons.prems by (cases idx) auto
  have r: "0 \<le> row_major ds js" "row_major ds js < prod_list ds" using Cons.IH [OF idx(4)] by auto
  have "(i + 1) * prod_list ds \<le> d * prod_list ds" using idx(3) r by (intro mult_right_mono) linarith+
  then show ?case using r idx(1,2) by (simp add: algebra_simps)
qed

lemma row_major_inj:
  "list_all2 (\<lambda>i d. 0 \<le> i \<and> i < d) idx ds \<Longrightarrow> list_all2 (\<lambda>i d. 0 \<le> i \<and> i < d) idx' ds \<Longrightarrow>
   row_major ds idx = row_major ds idx' \<Longrightarrow> idx = idx'"
proof (induction ds arbitrary: idx idx')
  case Nil
  then show ?case by simp
next
  case (Cons d ds)
  obtain i js where idx: "idx = i # js" "list_all2 (\<lambda>i d. 0 \<le> i \<and> i < d) js ds"
    using Cons.prems(1) by (cases idx) auto
  obtain i' js' where idx': "idx' = i' # js'" "list_all2 (\<lambda>i d. 0 \<le> i \<and> i < d) js' ds"
    using Cons.prems(2) by (cases idx') auto
  note r = row_major_bounds [OF idx(2)] row_major_bounds [OF idx'(2)]
  have e: "i * prod_list ds + row_major ds js = i' * prod_list ds + row_major ds js'"
    using Cons.prems(3) by (simp add: idx(1) idx'(1))
  have "(i * prod_list ds + row_major ds js) div prod_list ds = i" using r by simp
  moreover have "(i' * prod_list ds + row_major ds js') div prod_list ds = i'" using r by simp
  ultimately have "i = i'" using e by simp
  then show ?case using Cons.IH [OF idx(2) idx'(2)] e by (simp add: idx(1) idx'(1))
qed

lemma for_loop_Suc: "for_loop 0 (int (Suc k)) f s = f (int k) (for_loop 0 (int k) f s)"
  unfolding for_loop_def upto_Suc by simp

lemma layout_loop:
  fixes t :: Tensor
  defines "e \<equiv> \<lambda>i. if i = 1 \<and> dimensionFormat t = FMT_NC4HW4 then ROUND_UP_i (extent t i) 4 else extent t i"
  assumes "int k \<le> dimensions t"
  shows "for_loop 0 (int k)
       (\<lambda>i (sz, t). let index = dimensions t - i - 1;
                        ext = (if index = 1 \<and> dimensionFormat t = FMT_NC4HW4
                               then ROUND_UP_i (extent t index) 4 else extent t index)
                    in (sz * ext, t\<lparr>stride := (stride t)(index := sz)\<rparr>)) (1, t) =
    (prod_list (map e [dimensions t - int k..dimensions t - 1]),
     t\<lparr>stride := \<lambda>i. if dimensions t - int k \<le> i \<and> i < dimensions t then prod_list (map e [i + 1..dimensions t - 1]) else stride t i\<rparr>)"
  using assms(2)
proof (induction k)
  case 0
  have f: "(dimensions t \<le> i \<and> i < dimensions t) = False" for i by auto
  show ?case by (simp add: f)
next
  case (Suc k)
  let ?i = "dimensions t - int k - 1"
  have r: "[?i..dimensions t - 1] = ?i # [dimensions t - int k..dimensions t - 1]"
    using Suc.prems by (simp add: upto_rec1)
  have b: "dimensions t - int (Suc k) = ?i" by simp
  have st: "(\<lambda>i. if dimensions t - int k \<le> i \<and> i < dimensions t then prod_list (map e [i + 1..dimensions t - 1]) else stride t i)
      (?i := prod_list (map e [dimensions t - int k..dimensions t - 1])) =
      (\<lambda>i. if ?i \<le> i \<and> i < dimensions t then prod_list (map e [i + 1..dimensions t - 1]) else stride t i)"
    using Suc.prems by (auto simp: fun_eq_iff)
  have k: "int k \<le> dimensions t" using Suc.prems by simp
  show ?case unfolding for_loop_Suc Suc.IH [OF k] b r
    by (simp add: Let_def st mult.commute) (auto simp: e_def)
qed

text \<open>The extents the layout counts: a packed channel is rounded up to a multiple of 4.\<close>

definition layout_dims :: "Tensor \<Rightarrow> int list" where
  "layout_dims t = map (\<lambda>i. if i = 1 \<and> dimensionFormat t = FMT_NC4HW4 then ROUND_UP_i (extent t i) 4 else extent t i)
     [0..dimensions t - 1]"

definition address :: "Tensor \<Rightarrow> int list \<Rightarrow> int" where
  "address t idx = sum_list (map2 (*) idx (map (stride t) [0..dimensions t - 1]))"

lemma address_row_major:
  assumes "length idx = nat (dimensions t)"
  shows "address (setLinearLayout t) idx = row_major (layout_dims t) idx"
proof -
  let ?e = "\<lambda>i. if i = 1 \<and> dimensionFormat t = FMT_NC4HW4 then ROUND_UP_i (extent t i) 4 else extent t i"
  let ?n = "dimensions t"
  have gen: "a \<le> ?n \<Longrightarrow> length js = nat (?n - a) \<Longrightarrow>
      sum_list (map2 (*) js (map (\<lambda>i. prod_list (map ?e [i + 1..?n - 1])) [a..?n - 1])) = row_major (map ?e [a..?n - 1]) js" for a js
  proof (induction js arbitrary: a)
    case Nil
    then have "a = ?n" by simp
    then show ?case by simp
  next
    case (Cons j js)
    then have a: "a < ?n" by (cases "a < ?n") auto
    have len: "length js = nat (?n - (a + 1))" using Cons.prems by auto
    have r: "[a..?n - 1] = a # [a + 1..?n - 1]" using a by (simp add: upto_rec1)
    show ?case using Cons.IH [of "a + 1"] a len unfolding r by simp
  qed
  show ?thesis
  proof (cases "0 \<le> ?n")
    case True
    have L: "setLinearLayout t = t\<lparr>stride := \<lambda>i. if 0 \<le> i \<and> i < ?n then prod_list (map ?e [i + 1..?n - 1]) else stride t i\<rparr>"
      using layout_loop [of "nat ?n" t] True by (simp add: setLinearLayout_def)
    have "map (stride (setLinearLayout t)) [0..?n - 1] = map (\<lambda>i. prod_list (map ?e [i + 1..?n - 1])) [0..?n - 1]"
      by (intro map_cong refl) (simp add: L)
    moreover have "dimensions (setLinearLayout t) = ?n" by (simp add: L)
    moreover have "sum_list (map2 (*) idx (map (\<lambda>i. prod_list (map ?e [i + 1..?n - 1])) [0..?n - 1])) = row_major (map ?e [0..?n - 1]) idx"
      using gen [of 0 idx] assms True by simp
    ultimately show ?thesis unfolding address_def layout_dims_def by (simp only:)
  next
    case False
    then show ?thesis using assms by (simp add: address_def layout_dims_def)
  qed
qed

text \<open>
  C31. The linear layout of a constant's tensor gives different elements different places,
  all inside the product of its extents (with the channel of the packed layout rounded up): for
  any two index vectors inside the extents.
\<close>

theorem linear_layout_injective:
  assumes "list_all2 (\<lambda>i d. 0 \<le> i \<and> i < d) idx (layout_dims t)" and "list_all2 (\<lambda>i d. 0 \<le> i \<and> i < d) idx' (layout_dims t)"
  shows "0 \<le> address (setLinearLayout t) idx \<and> address (setLinearLayout t) idx < prod_list (layout_dims t) \<and>
    (address (setLinearLayout t) idx = address (setLinearLayout t) idx' \<longleftrightarrow> idx = idx')"
proof -
  have "length idx = nat (dimensions t)" "length idx' = nat (dimensions t)"
    using assms [THEN list_all2_lengthD] by (simp_all add: layout_dims_def)
  then show ?thesis
    using row_major_bounds [OF assms(1)] row_major_inj [OF assms] by (auto simp: address_row_major)
qed

theorem linear_layout_injective_witness:
  "address (setLinearLayout (tensor_of FMT_NC4HW4 [2, 3, 5])) [1, 3, 4] < 40 \<and>
   address (setLinearLayout (tensor_of FMT_NC4HW4 [2, 3, 5])) [1, 3, 4] \<noteq> address (setLinearLayout (tensor_of FMT_NC4HW4 [2, 3, 5])) [1, 2, 4]"
proof -
  have "layout_dims (tensor_of FMT_NC4HW4 [2, 3, 5]) = [2, 4, 5]"
    by (simp add: layout_dims_def upto.simps ROUND_UP_i_def cdiv_def)
  with linear_layout_injective [of "[1, 3, 4]" "tensor_of FMT_NC4HW4 [2, 3, 5]" "[1, 2, 4]"] show ?thesis by simp
qed

end
