(* ===== verification/Eager_Model.thy ===== *)
theory Eager_Model
  imports Defer_Model
begin

text \<open>
  \<open>EagerBufferAllocator\<close> of source/core/BufferAllocator.cpp: it takes blocks from a parent
  allocator, splits them, reuses what is freed and merges the parts of a block again when
  all of them are free. Between \<open>beginGroup\<close> and \<open>endGroup\<close> freed memory goes to the list
  of the group, which only that group reuses until \<open>barrierEnd\<close>.

  A \<open>Node\<close> is an index into \<open>enodes\<close>, which only grows; a \<open>SharedPtr\<close> is the index. The
  destructor of a node without parent gives its block back (\<open>Node::~Node\<close>): it runs in
  \<open>release\<close>, the only operation that drops the last reference to such a node.
  \<open>mUsedList\<close> is a list of (key, node) pairs with different keys, a free list
  is kept in the order of the node sizes. \<open>size_t\<close> is \<open>nat\<close>; the two places where the code
  can go below zero are written out modulo \<open>2 ^ 64\<close>.
\<close>

section \<open>State\<close>

record ENode =
  pointer :: "ptr \<times> nat"
  eparent :: "nat option"
  esize :: nat
  useCount :: nat

record Eager =
  enodes :: "ENode list"
  mUsedList :: "((ptr \<times> nat) \<times> nat) list"
  eFreeList :: "nat list"
  mCurrentFreeList :: "nat option"
  mGroups :: "nat list list"
  eAlign :: nat
  mMinAllocSize :: nat
  eTotalSize :: nat

definition new_Eager :: "nat \<Rightarrow> nat \<Rightarrow> Eager" where
  "new_Eager align minAllocSize = \<lparr>enodes = [], mUsedList = [], eFreeList = [], mCurrentFreeList = None,
     mGroups = [], eAlign = align, mMinAllocSize = minAllocSize, eTotalSize = 0\<rparr>"

abbreviation enode :: "Eager \<Rightarrow> nat \<Rightarrow> ENode" where
  "enode s i \<equiv> enodes s ! i"

abbreviation size_of :: "Eager \<Rightarrow> nat \<Rightarrow> nat" where
  "size_of s \<equiv> \<lambda>i. esize (enode s i)"

text \<open>\<open>FREELIST*\<close>: the allocator's own list or the list of a group.\<close>

datatype WhichList = MainList | GroupList nat

definition get_list :: "WhichList \<Rightarrow> Eager \<Rightarrow> nat list" where
  "get_list l s = (case l of MainList \<Rightarrow> eFreeList s | GroupList g \<Rightarrow> mGroups s ! g)"

definition set_list :: "WhichList \<Rightarrow> nat list \<Rightarrow> Eager \<Rightarrow> Eager" where
  "set_list l xs s = (case l of MainList \<Rightarrow> s\<lparr>eFreeList := xs\<rparr> | GroupList g \<Rightarrow> s\<lparr>mGroups := (mGroups s)[g := xs]\<rparr>)"

definition upd_enode :: "nat \<Rightarrow> (ENode \<Rightarrow> ENode) \<Rightarrow> Eager \<Rightarrow> Eager" where
  "upd_enode i f s = s\<lparr>enodes := (enodes s)[i := f (enode s i)]\<rparr>"

definition new_enode :: "ENode \<Rightarrow> Eager \<Rightarrow> nat \<times> Eager" where
  "new_enode n s = (length (enodes s), s\<lparr>enodes := enodes s @ [n]\<rparr>)"

text \<open>\<open>std::map::insert\<close> keeps an entry that is there; \<open>operator[]\<close> replaces it.\<close>

definition used_insert :: "ptr \<times> nat \<Rightarrow> nat \<Rightarrow> Eager \<Rightarrow> Eager" where
  "used_insert k n s = (if map_of (mUsedList s) k = None then s\<lparr>mUsedList := (k, n) # mUsedList s\<rparr> else s)"

definition used_erase :: "ptr \<times> nat \<Rightarrow> Eager \<Rightarrow> Eager" where
  "used_erase k s = s\<lparr>mUsedList := filter (\<lambda>e. fst e \<noteq> k) (mUsedList s)\<rparr>"

definition used_set :: "ptr \<times> nat \<Rightarrow> nat \<Rightarrow> Eager \<Rightarrow> Eager" where
  "used_set k n s = (let s1 = used_erase k s in s1\<lparr>mUsedList := (k, n) # mUsedList s1\<rparr>)"

definition inc_use :: "nat \<Rightarrow> Eager \<Rightarrow> Eager" where
  "inc_use p = upd_enode p (\<lambda>n. n\<lparr>useCount := useCount n + 1\<rparr>)"

definition dec_use :: "nat \<Rightarrow> Eager \<Rightarrow> Eager" where
  "dec_use p = upd_enode p (\<lambda>n. n\<lparr>useCount := (useCount n + 2 ^ 64 - 1) mod 2 ^ 64\<rparr>)"

section \<open>Taking memory from a free list\<close>

definition getFromFreeList ::
  "WhichList \<Rightarrow> nat \<Rightarrow> bool \<Rightarrow> nat \<Rightarrow> Eager \<Rightarrow> (ptr \<times> nat) \<times> Eager" where
  "getFromFreeList l sz permiteSplit align s =
     (let needExtraSize = (eAlign s mod align \<noteq> 0);
          realSize = (if needExtraSize then sz + align - 1 else sz);
          flist = get_list l s;
          x = lower_bound (size_of s) realSize flist
      in if x = length flist then ((nullptr, 0), s)
         else
           let xn = flist ! x;
               p0 = pointer (enode s xn);
               p = (if needExtraSize then (fst p0, UP_DIV (snd p0) align * align) else p0);
               realSize = (if needExtraSize then sz + snd p - snd p0 else realSize);
               s1 = (case eparent (enode s xn) of
                       Some q \<Rightarrow> if permiteSplit then inc_use q s else s
                     | None \<Rightarrow> s);
               sizeAlign = UP_DIV realSize (eAlign s) * eAlign s
           in if sizeAlign \<ge> size_of s xn \<or> \<not> permiteSplit then
                (p, set_list l (erase_at x flist) (used_insert p xn s1))
              else
                let (first, s2) = new_enode \<lparr>pointer = p0, eparent = Some xn, esize = sizeAlign, useCount = 0\<rparr> s1;
                    s3 = inc_use xn (used_insert p first s2);
                    (second, s4) = new_enode \<lparr>pointer = (fst p0, snd p0 + sizeAlign), eparent = Some xn,
                                     esize = size_of s xn - sizeAlign, useCount = 0\<rparr> s3
                in (p, set_list l (multi_insert (size_of s4) second (erase_at x flist)) s4))"

section \<open>Allocation\<close>

text \<open>The part of \<open>alloc\<close> that asks the parent allocator.\<close>

definition eager_alloc_new ::
  "'w Allocator \<Rightarrow> nat \<Rightarrow> nat \<Rightarrow> Eager \<Rightarrow> 'w \<Rightarrow> MemChunk \<times> Eager \<times> 'w" where
  "eager_alloc_new root sz align s w =
     (let allocSize = (if mMinAllocSize s \<noteq> 0 then ALIMAX (mMinAllocSize s) sz else sz);
          (chunk, w1) = onAlloc root allocSize align w;
          p = (first chunk, second chunk)
      in if first chunk = nullptr then (chunk, s, w1)
         else
           let s1 = s\<lparr>eTotalSize := eTotalSize s + allocSize\<rparr>;
               (node, s2) = new_enode \<lparr>pointer = p, eparent = None, esize = allocSize, useCount = 0\<rparr> s1
           in if allocSize > sz then
                let sz = UP_DIV sz (eAlign s) * eAlign s;
                    (first, s3) = new_enode \<lparr>pointer = p, eparent = Some node, esize = sz, useCount = 0\<rparr> s2;
                    s4 = upd_enode node (\<lambda>n. n\<lparr>useCount := 1\<rparr>) (used_insert p first s3);
                    (second, s5) = new_enode \<lparr>pointer = (fst p, snd p + sz), eparent = Some node,
                                     esize = (allocSize + 2 ^ 64 - sz) mod 2 ^ 64, useCount = 0\<rparr> s4;
                    l = (case mCurrentFreeList s of Some g \<Rightarrow> GroupList g | None \<Rightarrow> MainList)
                in (chunk_of_pointer (fst p) (snd p), set_list l (multi_insert (size_of s5) second (get_list l s5)) s5, w1)
              else (chunk_of_pointer (fst p) (snd p), used_set p node s2, w1))"

definition eager_alloc ::
  "'w Allocator \<Rightarrow> nat \<Rightarrow> bool \<Rightarrow> nat \<Rightarrow> Eager \<Rightarrow> 'w \<Rightarrow> MemChunk \<times> Eager \<times> 'w" where
  "eager_alloc root sz separate align s w =
     (let align = (if 0 = align then eAlign s else align)
      in if separate then eager_alloc_new root sz align s w
         else
           let (p, s1) = (case mCurrentFreeList s of
                 Some g \<Rightarrow> getFromFreeList (GroupList g) sz False align s
               | None \<Rightarrow> ((nullptr, 0), s))
           in if fst p \<noteq> nullptr then (chunk_of_pointer (fst p) (snd p), s1, w)
              else
                let (p, s2) = getFromFreeList MainList sz True align s1
                in if fst p \<noteq> nullptr then (chunk_of_pointer (fst p) (snd p), s2, w)
                   else eager_alloc_new root sz align s2 w)"

section \<open>Giving memory back\<close>

text \<open>The loop of \<open>returnMemory\<close>; a parent chain has no more nodes than there are.\<close>

fun merge_up :: "nat \<Rightarrow> WhichList \<Rightarrow> nat \<Rightarrow> Eager \<Rightarrow> Eager" where
  "merge_up 0 l p s = s"
| "merge_up (Suc k) l p s =
     (let flist = filter (\<lambda>i. eparent (enode s i) \<noteq> Some p) (get_list l s);
          s1 = set_list l (multi_insert (size_of s) p flist) s
      in case eparent (enode s1 p) of
           None \<Rightarrow> s1
         | Some q \<Rightarrow>
             let s2 = dec_use q s1
             in if useCount (enode s2 q) = 0 then merge_up k l q s2 else s2)"

definition returnMemory :: "WhichList \<Rightarrow> nat \<Rightarrow> bool \<Rightarrow> Eager \<Rightarrow> Eager" where
  "returnMemory l node permitMerge s =
     (let s1 = set_list l (multi_insert (size_of s) node (get_list l s)) s
      in case eparent (enode s1 node) of
           Some p \<Rightarrow>
             if permitMerge then
               let s2 = dec_use p s1
               in if useCount (enode s2 p) = 0 then merge_up (length (enodes s2)) l p s2 else s2
             else s1
         | None \<Rightarrow> s1)"

definition eager_free :: "MemChunk \<Rightarrow> Eager \<Rightarrow> bool \<times> Eager" where
  "eager_free chunk s =
     (case map_of (mUsedList s) (first chunk, second chunk) of
        None \<Rightarrow> (False, s)
      | Some node \<Rightarrow>
          let s1 = used_erase (first chunk, second chunk) s
          in (True, case mCurrentFreeList s1 of
                Some g \<Rightarrow> returnMemory (GroupList g) node False s1
              | None \<Rightarrow> returnMemory MainList node True s1))"

section \<open>Groups and release\<close>

definition eager_barrierBegin :: "Eager \<Rightarrow> Eager" where
  "eager_barrierBegin s = s"

definition eager_barrierEnd :: "Eager \<Rightarrow> Eager" where
  "eager_barrierEnd s =
     (let s1 = fold (\<lambda>freeList s. fold (\<lambda>n s. returnMemory MainList n True s) freeList s) (mGroups s) s
      in s1\<lparr>mGroups := []\<rparr>)"

definition eager_beginGroup :: "Eager \<Rightarrow> Eager" where
  "eager_beginGroup s = s\<lparr>mCurrentFreeList := Some (length (mGroups s)), mGroups := mGroups s @ [[]]\<rparr>"

definition eager_endGroup :: "Eager \<Rightarrow> Eager" where
  "eager_endGroup s = s\<lparr>mCurrentFreeList := None\<rparr>"

text \<open>The block a node is a part of; the destructors of the blocks nobody refers to any more.\<close>

primrec root_of :: "nat \<Rightarrow> ENode list \<Rightarrow> nat \<Rightarrow> nat" where
  "root_of 0 ns i = i"
| "root_of (Suc k) ns i = (case eparent (ns ! i) of None \<Rightarrow> i | Some p \<Rightarrow> root_of k ns p)"

definition destroy :: "'w Allocator \<Rightarrow> ENode list \<Rightarrow> nat list \<Rightarrow> 'w \<Rightarrow> 'w" where
  "destroy root ns rs w = fold (\<lambda>r. onRelease root (chunk_of_pointer (fst (pointer (ns ! r))) (snd (pointer (ns ! r))))) rs w"

definition eager_release :: "'w Allocator \<Rightarrow> bool \<Rightarrow> Eager \<Rightarrow> 'w \<Rightarrow> Eager \<times> 'w" where
  "eager_release root allRelease s w =
     (let ns = enodes s; block = root_of (length ns) ns
      in if allRelease then
           let rs = remdups (map block (map snd (mUsedList s) @ eFreeList s));
               kept = map block (concat (mGroups s))
           in (s\<lparr>mUsedList := [], eFreeList := [], eTotalSize := 0\<rparr>,
               destroy root ns (filter (\<lambda>r. r \<notin> set kept) rs) w)
         else
           let rs = filter (\<lambda>n. eparent (ns ! n) = None) (eFreeList s)
           in (s\<lparr>eFreeList := filter (\<lambda>n. eparent (ns ! n) \<noteq> None) (eFreeList s),
                 eTotalSize := eTotalSize s - sum_list (map (size_of s) rs)\<rparr>,
               destroy root ns rs w))"

section \<open>An eager allocator as the parent of another\<close>

definition RecurseAllocator :: "'w Allocator \<Rightarrow> (Eager \<times> 'w) Allocator" where
  "RecurseAllocator root = \<lparr>onAlloc = (\<lambda>sz align (s, w). let (c, s', w') = eager_alloc root sz False align s w in (c, (s', w'))),
     onRelease = (\<lambda>c (s, w). (snd (eager_free c s), w))\<rparr>"

end
