(* ===== verification/Eager_Forest.thy ===== *)
theory Eager_Forest
  imports Eager_Model
begin

text \<open>
  The invariant of the eager allocator's nodes. \<open>A\<close> are the nodes in use as parts of the
  partition of the blocks, \<open>F\<close> those in the main free list, \<open>H\<close> the others that are held (by a client
  or in a group's list). Every node of \<open>A\<close> is a leaf (in \<open>F\<close> or \<open>H\<close>) or was split into two
  nodes of \<open>A\<close> that share its memory; its use count says how many of the two are not in \<open>F\<close>.
\<close>

section \<open>The partition into parts\<close>

definition kids :: "ENode list \<Rightarrow> nat set \<Rightarrow> nat \<Rightarrow> nat set" where
  "kids ns A p = {n \<in> A. eparent (ns ! n) = Some p}"

definition splits :: "ENode list \<Rightarrow> nat \<Rightarrow> nat \<Rightarrow> nat \<Rightarrow> bool" where
  "splits ns p a b \<longleftrightarrow> pointer (ns ! a) = pointer (ns ! p) \<and>
     pointer (ns ! b) = (fst (pointer (ns ! p)), snd (pointer (ns ! p)) + esize (ns ! a)) \<and>
     esize (ns ! p) = esize (ns ! a) + esize (ns ! b)"

record parts =
  active :: "nat set"
  held :: "nat set"
  freed :: "nat set"

definition leaves :: "parts \<Rightarrow> nat set" where
  "leaves P = held P \<union> freed P"

definition partition_ok :: "ENode list \<Rightarrow> parts \<Rightarrow> bool" where
  "partition_ok ns P \<longleftrightarrow>
     active P \<subseteq> {..<length ns} \<and> held P \<inter> freed P = {} \<and> leaves P \<subseteq> active P \<and>
     (\<forall>n\<in>active P. 0 < esize (ns ! n)) \<and>
     (\<forall>n\<in>active P. \<forall>p. eparent (ns ! n) = Some p \<longrightarrow> p \<in> active P - leaves P \<and> p < n) \<and>
     (\<forall>p\<in>active P - leaves P. \<exists>a b. a \<noteq> b \<and> kids ns (active P) p = {a, b} \<and> splits ns p a b)"

definition counts_ok :: "ENode list \<Rightarrow> parts \<Rightarrow> bool" where
  "counts_ok ns P \<longleftrightarrow> (\<forall>p\<in>active P. useCount (ns ! p) = card (kids ns (active P) p - freed P))"

definition forest :: "ENode list \<Rightarrow> parts \<Rightarrow> bool" where
  "forest ns P \<longleftrightarrow> partition_ok ns P \<and> counts_ok ns P"

lemma forestD:
  assumes "forest ns P"
  shows "active P \<subseteq> {..<length ns}" "held P \<inter> freed P = {}" "leaves P \<subseteq> active P"
    "n \<in> active P \<Longrightarrow> 0 < esize (ns ! n)"
    "n \<in> active P \<Longrightarrow> eparent (ns ! n) = Some p \<Longrightarrow> p \<in> active P \<and> p \<notin> leaves P \<and> p < n"
    "p \<in> active P \<Longrightarrow> p \<notin> leaves P \<Longrightarrow> \<exists>a b. a \<noteq> b \<and> kids ns (active P) p = {a, b} \<and> splits ns p a b"
    "p \<in> active P \<Longrightarrow> useCount (ns ! p) = card (kids ns (active P) p - freed P)"
  using assms unfolding forest_def partition_ok_def counts_ok_def by blast+

lemma kids_leaf: "forest ns P \<Longrightarrow> p \<in> leaves P \<Longrightarrow> kids ns (active P) p = {}"
  by (auto simp: kids_def dest: forestD(5))

lemma finite_kids: "forest ns P \<Longrightarrow> finite (kids ns (active P) p)"
  using forestD(1) by (auto simp: kids_def intro!: finite_subset [of _ "{..<length ns}"])

section \<open>Regions\<close>

definition region :: "ENode list \<Rightarrow> nat \<Rightarrow> nat set" where
  "region ns n = {fst (pointer (ns ! n)) + snd (pointer (ns ! n)) ..<
                  fst (pointer (ns ! n)) + snd (pointer (ns ! n)) + esize (ns ! n)}"

lemma region_splits:
  "splits ns p a b \<Longrightarrow> region ns p = region ns a \<union> region ns b \<and> region ns a \<inter> region ns b = {}"
  by (auto simp: splits_def region_def)

definition roots :: "ENode list \<Rightarrow> nat set \<Rightarrow> nat set" where
  "roots ns A = {n \<in> A. eparent (ns ! n) = None}"

definition roots_disjoint :: "ENode list \<Rightarrow> nat set \<Rightarrow> bool" where
  "roots_disjoint ns A \<longleftrightarrow> (\<forall>r\<in>roots ns A. \<forall>q\<in>roots ns A. r \<noteq> q \<longrightarrow> region ns r \<inter> region ns q = {})"

text \<open>\<open>ancestor\<close>: the ancestors of a node, itself among them.\<close>

definition ancestor :: "ENode list \<Rightarrow> nat set \<Rightarrow> (nat \<times> nat) set" where
  "ancestor ns A = {(p, n). n \<in> A \<and> eparent (ns ! n) = Some p}\<^sup>*"

lemma region_parent:
  assumes "forest ns P" and "n \<in> active P" and "eparent (ns ! n) = Some p"
  shows "region ns n \<subseteq> region ns p"
proof -
  have p: "p \<in> active P" "p \<notin> leaves P" using forestD(5) [OF assms] by auto
  then obtain a b where ab: "kids ns (active P) p = {a, b}" "splits ns p a b" using forestD(6) [OF assms(1)] by blast
  have "n \<in> {a, b}" using assms(2,3) ab(1) by (auto simp: kids_def)
  then show ?thesis using region_splits [OF ab(2)] by auto
qed

lemma ancestor_region:
  assumes "forest ns P" and "(p, n) \<in> ancestor ns (active P)"
  shows "region ns n \<subseteq> region ns p"
  using assms(2) unfolding ancestor_def
  by (induction rule: rtrancl_induct) (auto dest: region_parent [OF assms(1)])

lemma ancestor_le:
  assumes "forest ns P" and "(p, n) \<in> ancestor ns (active P)"
  shows "p \<le> n"
  using assms(2) unfolding ancestor_def
  by (induction rule: rtrancl_induct) (auto dest: forestD(5) [OF assms(1)])

lemma ancestor_leaf:
  assumes "forest ns P" and "(p, n) \<in> ancestor ns (active P)" and "p \<in> leaves P"
  shows "p = n"
  using assms(2,3) unfolding ancestor_def
  by (cases rule: converse_rtranclE) (auto dest: forestD(5) [OF assms(1)])

text \<open>Two parts are nested or apart; so two leaves are apart.\<close>

lemma nested_or_apart:
  assumes F: "forest ns P" and R: "roots_disjoint ns (active P)"
  shows "b \<in> active P \<Longrightarrow> a \<in> active P \<Longrightarrow> a \<le> b \<Longrightarrow>
    (a, b) \<in> ancestor ns (active P) \<or> region ns a \<inter> region ns b = {}"
proof (induction b arbitrary: a rule: less_induct)
  case (less b)
  let ?R = "{(p, n). n \<in> active P \<and> eparent (ns ! n) = Some p}"
  show ?case
  proof (cases "eparent (ns ! b)")
    case None
    have top: "(q, b) \<in> ancestor ns (active P) \<Longrightarrow> q = b" for q
      unfolding ancestor_def by (erule rtranclE) (auto simp: None)
    show ?thesis using less.prems(2,3)
    proof (induction a rule: less_induct)
      case (less a)
      show ?case
      proof (cases "a = b \<or> eparent (ns ! a) = None")
        case True
        then show ?thesis using None R \<open>b \<in> active P\<close> \<open>a \<in> active P\<close>
          by (auto simp: ancestor_def roots_disjoint_def roots_def)
      next
        case False
        then obtain q where q: "eparent (ns ! a) = Some q" by blast
        have q': "q \<in> active P" "q < a" using forestD(5) [OF F less.prems(1) q] by auto
        have "(q, b) \<notin> ancestor ns (active P)" using top [of q] q'(2) less.prems(2) by fastforce
        then have "region ns q \<inter> region ns b = {}" using less.IH [OF q'(2,1)] q'(2) less.prems(2) by simp
        then show ?thesis using region_parent [OF F less.prems(1) q] by blast
      qed
    qed
  next
    case (Some p)
    have p: "p \<in> active P" "p < b" "p \<notin> leaves P" using forestD(5) [OF F less.prems(1) Some] by auto
    have bp: "region ns b \<subseteq> region ns p" by (rule region_parent [OF F less.prems(1) Some])
    consider "a = b" | "a \<le> p" | "p < a" "a < b" using less.prems(3) by linarith
    then show ?thesis
    proof cases
      case 1
      then show ?thesis by (simp add: ancestor_def)
    next
      case 2
      from less.IH [OF p(2,1) less.prems(2) 2] show ?thesis
      proof
        assume "(a, p) \<in> ancestor ns (active P)"
        moreover have "(p, b) \<in> ?R" using Some less.prems(1) by simp
        ultimately show ?thesis unfolding ancestor_def by (auto intro: rtrancl_into_rtrancl)
      qed (use bp in blast)
    next
      case 3
      from less.IH [OF 3(2) less.prems(2) p(1)] 3(1) consider "(p, a) \<in> ancestor ns (active P)" | "region ns p \<inter> region ns a = {}"
        by auto
      then show ?thesis
      proof cases
        case 1
        then obtain c where c: "c \<in> active P" "eparent (ns ! c) = Some p" "(c, a) \<in> ancestor ns (active P)"
        proof -
          from 1 have "(p, a) \<in> ?R\<^sup>*" by (simp add: ancestor_def)
          then show ?thesis
            by (rule converse_rtranclE) (use 3(1) that in \<open>auto simp: ancestor_def\<close>)
        qed
        obtain x y where xy: "kids ns (active P) p = {x, y}" "splits ns p x y" using forestD(6) [OF F p(1,3)] by blast
        have "c \<noteq> b" using ancestor_le [OF F c(3)] 3(2) by auto
        moreover have "c \<in> {x, y}" "b \<in> {x, y}" using c(1,2) Some less.prems(1) xy(1) by (auto simp: kids_def)
        ultimately have "region ns c \<inter> region ns b = {}" using region_splits [OF xy(2)] by auto
        then show ?thesis using ancestor_region [OF F c(3)] by blast
      qed (use bp in blast)
    qed
  qed
qed

lemma leaves_apart:
  assumes F: "forest ns P" and "roots_disjoint ns (active P)" and "a \<in> leaves P" and "b \<in> leaves P" and "a \<noteq> b"
  shows "region ns a \<inter> region ns b = {}"
proof -
  have act: "a \<in> active P" "b \<in> active P" using forestD(3) [OF F] assms(3,4) by auto
  have *: "region ns x \<inter> region ns y = {}" if "x \<le> y" "x \<in> leaves P" "y \<in> active P" "x \<in> active P" "x \<noteq> y" for x y
    using nested_or_apart [OF assms(1,2) that(3,4,1)] ancestor_leaf [OF F _ that(2)] that(5) by blast
  show ?thesis
  proof (cases "a \<le> b")
    case True
    then show ?thesis using * [OF True assms(3) act(2,1) assms(5)] by simp
  next
    case False
    then have "b \<le> a" by simp
    from * [OF this assms(4) act] assms(5) show ?thesis by auto
  qed
qed

section \<open>Steps\<close>

text \<open>Nodes that differ in their use counts only, behind which new ones may have been added.\<close>

definition same_data :: "ENode list \<Rightarrow> ENode list \<Rightarrow> bool" where
  "same_data ns ms \<longleftrightarrow> length ns \<le> length ms \<and>
     (\<forall>i<length ns. pointer (ms ! i) = pointer (ns ! i) \<and> eparent (ms ! i) = eparent (ns ! i) \<and> esize (ms ! i) = esize (ns ! i))"

lemma same_dataD:
  assumes "same_data ns ms" and "A \<subseteq> {..<length ns}"
  shows "n \<in> A \<Longrightarrow> pointer (ms ! n) = pointer (ns ! n)" "n \<in> A \<Longrightarrow> eparent (ms ! n) = eparent (ns ! n)"
    "n \<in> A \<Longrightarrow> esize (ms ! n) = esize (ns ! n)"
    "kids ms A p = kids ns A p" "n \<in> A \<Longrightarrow> region ms n = region ns n" "roots ms A = roots ns A"
  using assms by (auto simp: same_data_def kids_def region_def roots_def subset_iff)

lemma same_data_refl [simp]: "same_data ns ns"
  by (simp add: same_data_def)

lemma same_data_trans: "same_data ns ms \<Longrightarrow> same_data ms ls \<Longrightarrow> same_data ns ls"
  by (auto simp: same_data_def)

lemma same_data_append [simp]: "same_data ns (ns @ ms)"
  by (simp add: same_data_def nth_append)

lemma same_data_use [simp]: "same_data ns (ns[i := (ns ! i)\<lparr>useCount := c\<rparr>])"
  by (cases "i < length ns") (auto simp: same_data_def nth_list_update_if)

lemma same_data_roots: "same_data ns ms \<Longrightarrow> A \<subseteq> {..<length ns} \<Longrightarrow> roots_disjoint ns A \<Longrightarrow> roots_disjoint ms A"
  using same_dataD(5,6) [of ns ms A] unfolding roots_disjoint_def by (auto simp: roots_def)

lemma same_data_partition:
  assumes "same_data ns ms" and "partition_ok ns P"
  shows "partition_ok ms P"
proof -
  have A: "active P \<subseteq> {..<length ns}" using assms(2) by (simp add: partition_ok_def)
  note d = same_dataD [OF assms(1) A]
  have l: "length ns \<le> length ms" using assms(1) by (simp add: same_data_def)
  have sp: "splits ms p a b" if "splits ns p a b" "kids ns (active P) p = {a, b}" "p \<in> active P" for p a b
  proof -
    have "a \<in> active P" "b \<in> active P" using that(2) by (auto simp: kids_def)
    then show ?thesis using that(1,3) by (simp add: splits_def d(1,3))
  qed
  have "active P \<subseteq> {..<length ms}" using A l by auto
  moreover have "\<forall>p\<in>active P - leaves P. \<exists>a b. a \<noteq> b \<and> kids ms (active P) p = {a, b} \<and> splits ms p a b"
    using assms(2) sp unfolding partition_ok_def d(4) by (metis DiffD1)
  ultimately show ?thesis using assms(2) by (simp add: partition_ok_def d(2,3))
qed

text \<open>A use count changed by one.\<close>

definition count_up :: "nat option \<Rightarrow> ENode list \<Rightarrow> ENode list" where
  "count_up q ns = (case q of None \<Rightarrow> ns | Some p \<Rightarrow> ns[p := (ns ! p)\<lparr>useCount := useCount (ns ! p) + 1\<rparr>])"

definition count_down :: "nat option \<Rightarrow> ENode list \<Rightarrow> ENode list" where
  "count_down q ns = (case q of None \<Rightarrow> ns
     | Some p \<Rightarrow> ns[p := (ns ! p)\<lparr>useCount := (useCount (ns ! p) + 2 ^ 64 - 1) mod 2 ^ 64\<rparr>])"

lemma count_same [simp]: "same_data ns (count_up q ns)" "same_data ns (count_down q ns)"
    "length (count_up q ns) = length ns" "length (count_down q ns) = length ns"
  by (simp_all add: count_up_def count_down_def split: option.splits)

lemma use_count_up: "p < length ns \<Longrightarrow> useCount (count_up q ns ! p) = useCount (ns ! p) + (if q = Some p then 1 else 0)"
  by (auto simp: count_up_def nth_list_update_if split: option.splits)

lemma dec64: "0 < c \<Longrightarrow> c < 2 ^ 64 \<Longrightarrow> (c + 2 ^ 64 - 1) mod 2 ^ 64 + 1 = (c :: nat)"
  by (cases c) simp_all

lemma use_count_down:
  "p < length ns \<Longrightarrow> useCount (ns ! p) < 2 ^ 64 \<Longrightarrow> (q = Some p \<Longrightarrow> 0 < useCount (ns ! p)) \<Longrightarrow>
   useCount (count_down q ns ! p) + (if q = Some p then 1 else 0) = useCount (ns ! p)"
proof (cases "q = Some p")
  case True
  assume a: "p < length ns" "useCount (ns ! p) < 2 ^ 64" "q = Some p \<Longrightarrow> 0 < useCount (ns ! p)"
  then show ?thesis using True dec64 [of "useCount (ns ! p)"] by (simp add: count_down_def nth_list_update_if del: power_numeral)
qed (auto simp: count_down_def nth_list_update_if split: option.splits)

lemma use_count_le: "forest ns P \<Longrightarrow> p \<in> active P \<Longrightarrow> useCount (ns ! p) \<le> 2"
proof -
  assume F: "forest ns P" and p: "p \<in> active P"
  have "card (kids ns (active P) p) \<le> 2"
  proof (cases "p \<in> leaves P")
    case True
    then show ?thesis using kids_leaf [OF F] by simp
  next
    case False
    then obtain a b where "a \<noteq> b" "kids ns (active P) p = {a, b}" using forestD(6) [OF F p] by blast
    then show ?thesis by simp
  qed
  moreover have "card (kids ns (active P) p - freed P) \<le> card (kids ns (active P) p)"
    using finite_kids [OF F] by (simp add: card_mono)
  ultimately show ?thesis using forestD(7) [OF F p] by simp
qed

text \<open>A free part is taken, a held part given back: the count of the node above follows.\<close>

lemma kids_unique: "n \<in> kids ns A p \<Longrightarrow> n \<in> kids ns A q \<Longrightarrow> p = q"
  by (simp add: kids_def)

lemma forest_take:
  assumes F: "forest ns P" and x: "x \<in> freed P"
  shows "forest (count_up (eparent (ns ! x)) ns) (P\<lparr>freed := freed P - {x}, held := insert x (held P)\<rparr>)"
proof -
  let ?ms = "count_up (eparent (ns ! x)) ns" and ?P = "P\<lparr>freed := freed P - {x}, held := insert x (held P)\<rparr>"
  have A: "active P \<subseteq> {..<length ns}" by (rule forestD(1) [OF F])
  have xa: "x \<in> active P" using forestD(3) [OF F] x by (auto simp: leaves_def)
  have lv: "leaves ?P = leaves P" using x by (auto simp: leaves_def)
  have "partition_ok ns ?P" using F x unfolding forest_def partition_ok_def lv by auto
  then have p: "partition_ok ?ms ?P" by (rule same_data_partition [rotated]) simp
  have "useCount (?ms ! p) = card (kids ?ms (active P) p - (freed P - {x}))" if pa: "p \<in> active P" for p
  proof -
    have pl: "p < length ns" using pa A by auto
    have k: "kids ?ms (active P) p = kids ns (active P) p" by (rule same_dataD(4) [OF count_same(1) A])
    show ?thesis
    proof (cases "eparent (ns ! x) = Some p")
      case True
      then have "x \<in> kids ns (active P) p" using xa by (simp add: kids_def)
      then have "kids ns (active P) p - (freed P - {x}) = insert x (kids ns (active P) p - freed P)" by auto
      moreover have "card (insert x (kids ns (active P) p - freed P)) = Suc (card (kids ns (active P) p - freed P))"
        using x finite_kids [OF F, of p] by simp
      ultimately show ?thesis unfolding k use_count_up [OF pl] using True forestD(7) [OF F pa] by simp
    next
      case False
      then have "x \<notin> kids ns (active P) p" by (simp add: kids_def)
      then have "kids ns (active P) p - (freed P - {x}) = kids ns (active P) p - freed P" by auto
      then show ?thesis unfolding k use_count_up [OF pl] using False forestD(7) [OF F pa] by simp
    qed
  qed
  then show ?thesis using p by (simp add: forest_def counts_ok_def)
qed

lemma forest_give:
  assumes F: "forest ns P" and x: "x \<in> held P"
  shows "forest (count_down (eparent (ns ! x)) ns) (P\<lparr>freed := insert x (freed P), held := held P - {x}\<rparr>)"
proof -
  let ?ms = "count_down (eparent (ns ! x)) ns" and ?P = "P\<lparr>freed := insert x (freed P), held := held P - {x}\<rparr>"
  have A: "active P \<subseteq> {..<length ns}" by (rule forestD(1) [OF F])
  have xa: "x \<in> active P" "x \<notin> freed P" using forestD(2,3) [OF F] x by (auto simp: leaves_def)
  have lv: "leaves ?P = leaves P" using x by (auto simp: leaves_def)
  have "partition_ok ns ?P" using F x unfolding forest_def partition_ok_def lv by auto
  then have p: "partition_ok ?ms ?P" by (rule same_data_partition [rotated]) simp
  have "useCount (?ms ! p) = card (kids ?ms (active P) p - insert x (freed P))" if pa: "p \<in> active P" for p
  proof -
    have pl: "p < length ns" using pa A by auto
    have k: "kids ?ms (active P) p = kids ns (active P) p" by (rule same_dataD(4) [OF count_same(2) A])
    have lt: "useCount (ns ! p) < 2 ^ 64" using use_count_le [OF F pa] by simp
    show ?thesis
    proof (cases "eparent (ns ! x) = Some p")
      case True
      then have xk: "x \<in> kids ns (active P) p - freed P" using xa by (simp add: kids_def)
      have "kids ns (active P) p - insert x (freed P) = (kids ns (active P) p - freed P) - {x}" by auto
      then have c: "card (kids ns (active P) p - insert x (freed P)) + 1 = useCount (ns ! p)"
        using card.remove [OF _ xk] finite_kids [OF F, of p] forestD(7) [OF F pa] by simp
      then show ?thesis unfolding k using use_count_down [OF pl lt, of "eparent (ns ! x)"] True by simp
    next
      case False
      then have "x \<notin> kids ns (active P) p" by (simp add: kids_def)
      then have "kids ns (active P) p - insert x (freed P) = kids ns (active P) p - freed P" by auto
      then show ?thesis unfolding k using False forestD(7) [OF F pa] use_count_down [OF pl lt, of "eparent (ns ! x)"] by simp
    qed
  qed
  then show ?thesis using p by (simp add: forest_def counts_ok_def)
qed

text \<open>A split node all of whose parts are free becomes a free part itself.\<close>

lemma kids_free: "forest ns P \<Longrightarrow> p \<in> active P \<Longrightarrow> useCount (ns ! p) = 0 \<Longrightarrow> kids ns (active P) p \<subseteq> freed P"
proof -
  assume F: "forest ns P" and p: "p \<in> active P" "useCount (ns ! p) = 0"
  have "card (kids ns (active P) p - freed P) = 0" using forestD(7) [OF F p(1)] p(2) by simp
  moreover have "finite (kids ns (active P) p - freed P)" using finite_kids [OF F, of p] by simp
  ultimately show ?thesis by auto
qed

lemma forest_merge:
  assumes F: "forest ns P" and p: "p \<in> active P" "p \<notin> leaves P" and z: "useCount (ns ! p) = 0"
  defines "K \<equiv> kids ns (active P) p"
  shows "forest (count_down (eparent (ns ! p)) ns)
    (P\<lparr>active := active P - K, freed := insert p (freed P - K)\<rparr>)"
proof -
  let ?ms = "count_down (eparent (ns ! p)) ns" and ?P = "P\<lparr>active := active P - K, freed := insert p (freed P - K)\<rparr>"
  have A: "active P \<subseteq> {..<length ns}" by (rule forestD(1) [OF F])
  have Kf: "K \<subseteq> freed P" unfolding K_def by (rule kids_free [OF F p(1) z])
  have pK: "p \<notin> K" using Kf p(2) by (auto simp: leaves_def)
  have lv: "leaves ?P = insert p (leaves P - K)" using forestD(2) [OF F] Kf by (auto simp: leaves_def)
  have kn: "kids ns (active P - K) q = (if q = p then {} else kids ns (active P) q)" if "q \<in> active P" for q
  proof (cases "q = p")
    case False
    have "n \<notin> K" if "n \<in> kids ns (active P) q" for n using that False by (auto simp: K_def kids_def)
    then show ?thesis using False by (auto simp: kids_def)
  qed (auto simp: K_def kids_def)
  have "partition_ok ns ?P"
    unfolding partition_ok_def lv
  proof (intro conjI ballI allI impI)
    fix n q assume n: "n \<in> active ?P" "eparent (ns ! n) = Some q"
    then have na: "n \<in> active P" "n \<notin> K" by auto
    note q = forestD(5) [OF F na(1) n(2)]
    have "q \<noteq> p" using na n(2) by (auto simp: K_def kids_def)
    moreover have "q \<notin> K" using q Kf by (auto simp: leaves_def)
    ultimately show "q \<in> active ?P - insert p (leaves P - K)" "q < n" using q by auto
  next
    fix q assume "q \<in> active ?P - insert p (leaves P - K)"
    then have q: "q \<in> active P" "q \<notin> leaves P" "q \<noteq> p" by auto
    then show "\<exists>a b. a \<noteq> b \<and> kids ns (active ?P) q = {a, b} \<and> splits ns q a b"
      using forestD(6) [OF F q(1,2)] kn [OF q(1)] by simp
  qed (use F p pK A Kf in \<open>auto simp: forest_def partition_ok_def leaves_def\<close>)
  then have po: "partition_ok ?ms ?P" by (rule same_data_partition [rotated]) simp
  have "useCount (?ms ! q) = card (kids ?ms (active P - K) q - insert p (freed P - K))" if q: "q \<in> active P - K" for q
  proof -
    have qa: "q \<in> active P" and ql: "q < length ns" using q A by auto
    have lt: "useCount (ns ! q) < 2 ^ 64" using use_count_le [OF F qa] by simp
    have "active P - K \<subseteq> {..<length ns}" using A by auto
    then have k: "kids ?ms (active P - K) q = (if q = p then {} else kids ns (active P) q)"
      using same_dataD(4) [OF count_same(2)] kn [OF qa] by metis
    show ?thesis
    proof (cases "q = p")
      case True
      have "eparent (ns ! p) \<noteq> Some p" using forestD(5) [OF F p(1)] by blast
      then show ?thesis using use_count_down [OF ql lt, of "eparent (ns ! p)"] True z k by simp
    next
      case False
      then have k: "kids ?ms (active P - K) q = kids ns (active P) q" using k by simp
      have Kq: "kids ns (active P) q \<inter> K = {}" using False by (auto simp: K_def kids_def)
      show ?thesis
      proof (cases "eparent (ns ! p) = Some q")
        case True
        have pk: "p \<in> kids ns (active P) q - freed P" using True p by (auto simp: kids_def leaves_def)
        have "kids ns (active P) q - insert p (freed P - K) = (kids ns (active P) q - freed P) - {p}" using Kq by auto
        then have "card (kids ns (active P) q - insert p (freed P - K)) + 1 = useCount (ns ! q)"
          using card.remove [OF _ pk] finite_kids [OF F, of q] forestD(7) [OF F qa] by simp
        then show ?thesis unfolding k using use_count_down [OF ql lt, of "eparent (ns ! p)"] True by simp
      next
        case n: False
        then have "kids ns (active P) q - insert p (freed P - K) = kids ns (active P) q - freed P"
          using Kq by (auto simp: kids_def)
        then show ?thesis unfolding k using use_count_down [OF ql lt, of "eparent (ns ! p)"] n forestD(7) [OF F qa] by simp
      qed
    qed
  qed
  then show ?thesis using po by (simp add: forest_def counts_ok_def)
qed

text \<open>A held part is split in two: the first stays held, the second is free.\<close>

lemma forest_split:
  assumes F: "forest ns P" and x: "x \<in> held P" and ab: "a = length ns" "b = Suc (length ns)"
    and m: "m < esize (ns ! x)" "0 < m"
  defines "p \<equiv> pointer (ns ! x)"
  shows "forest (count_up (Some x) (ns @ [\<lparr>pointer = p, eparent = Some x, esize = m, useCount = 0\<rparr>,
        \<lparr>pointer = (fst p, snd p + m), eparent = Some x, esize = esize (ns ! x) - m, useCount = 0\<rparr>]))
    \<lparr>active = active P \<union> {a, b}, held = insert a (held P - {x}), freed = insert b (freed P)\<rparr>"
proof -
  let ?new = "[\<lparr>pointer = p, eparent = Some x, esize = m, useCount = 0\<rparr>,
        \<lparr>pointer = (fst p, snd p + m), eparent = Some x, esize = esize (ns ! x) - m, useCount = 0\<rparr>]"
  let ?ms = "ns @ ?new" and ?P = "\<lparr>active = active P \<union> {a, b}, held = insert a (held P - {x}), freed = insert b (freed P)\<rparr>"
  have A: "active P \<subseteq> {..<length ns}" by (rule forestD(1) [OF F])
  have xa: "x \<in> active P" "x \<notin> freed P" "x < length ns" using forestD(2,3) [OF F] x A by (auto simp: leaves_def)
  have fresh: "a \<notin> active P" "b \<notin> active P" "a \<noteq> b" using A ab by auto
  have fl: "a \<notin> leaves P" "b \<notin> leaves P" using fresh forestD(3) [OF F] by auto
  have lv: "leaves ?P = insert a (insert b (leaves P - {x}))" using xa(2) by (auto simp: leaves_def)
  have old: "?ms ! n = ns ! n" if "n \<in> active P" for n using that A by (auto simp: nth_append)
  have na: "?ms ! a = ?new ! 0" "?ms ! b = ?new ! 1" using ab by (simp_all add: nth_append)
  have kn: "kids ?ms (active P \<union> {a, b}) q = (if q = x then {a, b} else kids ns (active P) q)" for q
  proof -
    have "kids ns (active P) x = {}" using kids_leaf [OF F, of x] x by (simp add: leaves_def)
    then show ?thesis using fresh na old by (auto simp: kids_def)
  qed
  have "partition_ok ?ms ?P"
    unfolding partition_ok_def lv
  proof (intro conjI ballI allI impI)
    fix n q assume n: "n \<in> active ?P" "eparent (?ms ! n) = Some q"
    have "q \<in> active ?P - insert a (insert b (leaves P - {x})) \<and> q < n"
    proof (cases "n \<in> active P")
      case True
      then show ?thesis using forestD(5) [OF F True] n(2) old [OF True] fresh by auto
    next
      case False
      then have "n = a \<or> n = b" using n(1) by auto
      then have "q = x" using n(2) na by auto
      then show ?thesis using xa False n(1) fresh ab by auto
    qed
    then show "q \<in> active ?P - insert a (insert b (leaves P - {x}))" "q < n" by simp_all
  next
    fix q assume q: "q \<in> active ?P - insert a (insert b (leaves P - {x}))"
    show "\<exists>c d. c \<noteq> d \<and> kids ?ms (active ?P) q = {c, d} \<and> splits ?ms q c d"
    proof (cases "q = x")
      case True
      have "splits ?ms x a b" using na old [OF xa(1)] m by (simp add: splits_def p_def)
      then show ?thesis using fresh(3) True kn [of x] by auto
    next
      case False
      then have q': "q \<in> active P" "q \<notin> leaves P" using q by auto
      obtain c d where cd: "c \<noteq> d" "kids ns (active P) q = {c, d}" "splits ns q c d" using forestD(6) [OF F q'] by blast
      have "c \<in> active P" "d \<in> active P" using cd(2) by (auto simp: kids_def)
      then have "splits ?ms q c d" using cd(3) old q'(1) by (simp add: splits_def)
      then show ?thesis using cd(1,2) False kn [of q] by auto
    qed
  next
    show "active ?P \<subseteq> {..<length ?ms}" using A ab by auto
    show "held ?P \<inter> freed ?P = {}" using forestD(2,3) [OF F] fresh by (auto simp: leaves_def)
    show "insert a (insert b (leaves P - {x})) \<subseteq> active ?P" using forestD(3) [OF F] by auto
    fix n assume "n \<in> active ?P"
    then show "0 < esize (?ms ! n)" using old na m forestD(4) [OF F] by auto
  qed
  then have po: "partition_ok (count_up (Some x) ?ms) ?P" by (rule same_data_partition [rotated]) simp
  have "useCount (count_up (Some x) ?ms ! q) = card (kids (count_up (Some x) ?ms) (active ?P) q - insert b (freed P))"
    if q: "q \<in> active ?P" for q
  proof -
    have sub: "active ?P \<subseteq> {..<length ?ms}" using A ab by auto
    have ql: "q < length ?ms" using q sub by blast
    have k: "kids (count_up (Some x) ?ms) (active ?P) q = (if q = x then {a, b} else kids ns (active P) q)"
      using same_dataD(4) [OF count_same(1) sub] kn by simp
    show ?thesis
    proof (cases "q = x")
      case True
      have "a \<notin> freed P" using fl by (auto simp: leaves_def)
      then have e: "{a, b} - insert b (freed P) = {a}" using fresh(3) by auto
      have "useCount (ns ! x) = 0" using forestD(7) [OF F xa(1)] kids_leaf [OF F, of x] x by (simp add: leaves_def)
      then show ?thesis unfolding k use_count_up [OF ql] using True old [OF xa(1)] by (simp add: e)
    next
      case False
      have "b \<notin> kids ns (active P) q" using fresh by (simp add: kids_def)
      then have e: "kids ns (active P) q - insert b (freed P) = kids ns (active P) q - freed P" by auto
      show ?thesis
      proof (cases "q \<in> active P")
        case True
        then show ?thesis unfolding k use_count_up [OF ql] using False forestD(7) [OF F True] old [OF True] by (simp add: e)
      next
        case n: False
        have "kids ns (active P) q = {}"
        proof -
          have "kids ns (active P) q = {}" if "q \<notin> active P"
            using forestD(5) [OF F] that by (auto simp: kids_def)
          then show ?thesis using n by simp
        qed
        then show ?thesis unfolding k use_count_up [OF ql] using False n q na by auto
      qed
    qed
  qed
  then show ?thesis using po by (simp add: forest_def counts_ok_def)
qed

text \<open>A block comes in as one held part; a free block that was not split goes out.\<close>

lemma forest_new_root:
  assumes F: "forest ns P" and m: "0 < m" and r: "r = length ns"
  shows "forest (ns @ [\<lparr>pointer = p, eparent = None, esize = m, useCount = 0\<rparr>])
    (P\<lparr>active := insert r (active P), held := insert r (held P)\<rparr>)"
proof -
  let ?ms = "ns @ [\<lparr>pointer = p, eparent = None, esize = m, useCount = 0\<rparr>]"
    and ?P = "P\<lparr>active := insert r (active P), held := insert r (held P)\<rparr>"
  have A: "active P \<subseteq> {..<length ns}" by (rule forestD(1) [OF F])
  have lv: "leaves ?P = insert r (leaves P)" by (auto simp: leaves_def)
  have fresh: "r \<notin> active P" "r \<notin> leaves P" using A r forestD(3) [OF F] by auto
  have old: "?ms ! n = ns ! n" if "n \<in> active P" for n using that A by (auto simp: nth_append)
  have new: "?ms ! r = \<lparr>pointer = p, eparent = None, esize = m, useCount = 0\<rparr>" using r by simp
  have kn: "kids ?ms (active ?P) q = kids ns (active P) q" for q
    using old new by (auto simp: kids_def)
  have k0: "kids ns (active P) r = {}" using forestD(5) [OF F] fresh by (auto simp: kids_def)
  have "partition_ok ?ms ?P"
    unfolding partition_ok_def lv kn
  proof (intro conjI ballI allI impI)
    fix n q assume n: "n \<in> active ?P" "eparent (?ms ! n) = Some q"
    then have "n \<in> active P" using new by auto
    then show "q \<in> active ?P - insert r (leaves P)" "q < n"
      using forestD(5) [OF F, of n q] old n(2) fresh by auto
  next
    fix q assume "q \<in> active ?P - insert r (leaves P)"
    then have q: "q \<in> active P" "q \<notin> leaves P" by auto
    obtain c d where cd: "c \<noteq> d" "kids ns (active P) q = {c, d}" "splits ns q c d" using forestD(6) [OF F q] by blast
    have "c \<in> active P" "d \<in> active P" using cd(2) by (auto simp: kids_def)
    then have "splits ?ms q c d" using cd(3) old q(1) by (simp add: splits_def)
    then show "\<exists>a b. a \<noteq> b \<and> kids ns (active P) q = {a, b} \<and> splits ?ms q a b" using cd(1,2) by blast
  next
    fix n assume "n \<in> active ?P"
    then show "0 < esize (?ms ! n)" using old new m forestD(4) [OF F] by auto
  qed (use F A r fresh in \<open>auto simp: forest_def partition_ok_def leaves_def\<close>)
  moreover have "counts_ok ?ms ?P"
    unfolding counts_ok_def kn using F old new k0 by (auto simp: forest_def counts_ok_def)
  ultimately show ?thesis by (simp add: forest_def)
qed

lemma forest_drop:
  assumes F: "forest ns P" and r: "r \<in> freed P" "eparent (ns ! r) = None"
  shows "forest ns (P\<lparr>active := active P - {r}, freed := freed P - {r}\<rparr>)"
proof -
  let ?P = "P\<lparr>active := active P - {r}, freed := freed P - {r}\<rparr>"
  have rl: "r \<in> leaves P" "r \<notin> held P" using r(1) forestD(2) [OF F] by (auto simp: leaves_def)
  have lv: "leaves ?P = leaves P - {r}" using rl by (auto simp: leaves_def)
  have kn: "kids ns (active P - {r}) q = kids ns (active P) q" for q
    using r(2) by (auto simp: kids_def)
  have nk: "kids ns (active P) q - (freed P - {r}) = kids ns (active P) q - freed P" for q
    using r(2) by (auto simp: kids_def)
  have "partition_ok ns ?P"
    unfolding partition_ok_def lv
  proof (intro conjI ballI allI impI)
    fix n q assume "n \<in> active ?P" "eparent (ns ! n) = Some q"
    then show "q \<in> active ?P - (leaves P - {r})" "q < n" using forestD(5) [OF F, of n q] rl by auto
  next
    fix q assume "q \<in> active ?P - (leaves P - {r})"
    then show "\<exists>a b. a \<noteq> b \<and> kids ns (active ?P) q = {a, b} \<and> splits ns q a b"
      using forestD(6) [OF F, of q] kn [of q] by auto
  qed (use F in \<open>auto simp: forest_def partition_ok_def leaves_def\<close>)
  moreover have "counts_ok ns ?P"
    using F kn nk by (simp add: forest_def counts_ok_def)
  ultimately show ?thesis by (simp add: forest_def)
qed

text \<open>What the steps do to the blocks.\<close>

lemma roots_merge [simp]: "roots ns (A - kids ns B p) = roots ns A"
  by (auto simp: roots_def kids_def)

lemma roots_drop: "roots ns (A - {r}) = roots ns A - {r}"
  by (auto simp: roots_def)

lemma roots_add: "eparent (ns ! n) \<noteq> None \<Longrightarrow> roots ns (insert n A) = roots ns A"
  by (auto simp: roots_def)

lemma roots_disjoint_mono: "roots ns B \<subseteq> roots ns A \<Longrightarrow> roots_disjoint ns A \<Longrightarrow> roots_disjoint ns B"
  by (auto simp: roots_disjoint_def)

text \<open>Every part lies in a block.\<close>

lemma in_some_root:
  assumes F: "forest ns P" and "n \<in> active P"
  shows "\<exists>r\<in>roots ns (active P). region ns n \<subseteq> region ns r"
  using assms(2)
proof (induction n rule: less_induct)
  case (less n)
  show ?case
  proof (cases "eparent (ns ! n)")
    case None
    then show ?thesis using less.prems by (auto simp: roots_def)
  next
    case (Some p)
    note p = forestD(5) [OF F less.prems Some]
    show ?thesis using less.IH [of p] p region_parent [OF F less.prems Some] by blast
  qed
qed

end
