(* ===== verification/Eager_Steps.thy ===== *)
theory Eager_Steps
  imports Eager_Forest
begin

text \<open>
  The allocator's state over the partition of its blocks (\<open>core\<close>), and what taking a part from the
  main free list and giving one back (with the merging of \<open>returnMemory\<close>) do to it.
\<close>

section \<open>The invariant of the nodes and the main free list\<close>

text \<open>\<open>settled\<close>: no split node has all its parts free, except those of \<open>X\<close>.\<close>

definition settled :: "ENode list \<Rightarrow> parts \<Rightarrow> nat set \<Rightarrow> bool" where
  "settled ns P X \<longleftrightarrow> (\<forall>p\<in>active P - leaves P - X. useCount (ns ! p) \<noteq> 0)"

definition core :: "Eager \<Rightarrow> parts \<Rightarrow> nat set \<Rightarrow> bool" where
  "core s P X \<longleftrightarrow> forest (enodes s) P \<and> roots_disjoint (enodes s) (active P) \<and> settled (enodes s) P X \<and>
     distinct (eFreeList s) \<and> set (eFreeList s) = freed P"

lemma ecoreD:
  assumes "core s P X"
  shows "forest (enodes s) P" "roots_disjoint (enodes s) (active P)" "settled (enodes s) P X"
    "distinct (eFreeList s)" "set (eFreeList s) = freed P" "active P \<subseteq> {..<length (enodes s)}"
  using assms forestD(1) by (simp_all add: core_def)

lemma enodes_inc [simp]: "inc_use p s = s\<lparr>enodes := count_up (Some p) (enodes s)\<rparr>"
  by (simp add: inc_use_def upd_enode_def count_up_def)

lemma enodes_dec [simp]: "dec_use p s = s\<lparr>enodes := count_down (Some p) (enodes s)\<rparr>"
  by (simp add: dec_use_def upd_enode_def count_down_def)

lemma update_order [simp]: "s\<lparr>eFreeList := xs, enodes := ns\<rparr> = s\<lparr>enodes := ns, eFreeList := xs\<rparr>"
  by (cases s) simp

lemma main_list [simp]: "get_list MainList s = eFreeList s" "set_list MainList xs s = s\<lparr>eFreeList := xs\<rparr>"
  by (simp_all add: get_list_def set_list_def)

lemma group_list [simp]: "get_list (GroupList g) s = mGroups s ! g"
    "set_list (GroupList g) xs s = s\<lparr>mGroups := (mGroups s)[g := xs]\<rparr>"
  by (simp_all add: get_list_def set_list_def)

lemma distinct_multi_insert: "distinct (multi_insert k x xs) \<longleftrightarrow> x \<notin> set xs \<and> distinct xs"
  by (induction xs) (auto simp: set_multi_insert)

lemma erase_at_set: "distinct xs \<Longrightarrow> i < length xs \<Longrightarrow> distinct (erase_at i xs) \<and> set (erase_at i xs) = set xs - {xs ! i}"
proof -
  assume d: "distinct xs" and i: "i < length xs"
  have "mset xs = add_mset (xs ! i) (mset (erase_at i xs))" by (rule mset_erase_at [OF i])
  then have "mset xs = mset (xs ! i # erase_at i xs)" by simp
  then have "distinct (xs ! i # erase_at i xs)" "set xs = set (xs ! i # erase_at i xs)"
    using d mset_eq_imp_distinct_iff mset_eq_setD by metis+
  then show ?thesis by auto
qed

text \<open>A use count only changes for the node named.\<close>

lemma count_down_other: "q \<noteq> Some p \<Longrightarrow> useCount (count_down q ns ! p) = useCount (ns ! p)"
  by (auto simp: count_down_def nth_list_update_if split: option.splits)

lemma count_up_ge: "useCount (ns ! p) \<noteq> 0 \<Longrightarrow> useCount (count_up q ns ! p) \<noteq> 0"
  by (auto simp: count_up_def nth_list_update_if split: option.splits)

lemma roots_insert: "eparent (ns ! n) = None \<Longrightarrow> roots ns (insert n A) = insert n (roots ns A)"
  by (auto simp: roots_def)

lemma settled_up:
  assumes "settled ns P X" and "active Q - leaves Q \<subseteq> active P - leaves P - X"
  shows "settled (count_up q ns) Q {}"
  unfolding settled_def
proof
  fix p assume "p \<in> active Q - leaves Q - {}"
  then have "useCount (ns ! p) \<noteq> 0" using assms by (auto simp: settled_def)
  then show "useCount (count_up q ns ! p) \<noteq> 0" by (rule count_up_ge)
qed

lemma settled_down:
  assumes "settled ns P X" and "active Q - leaves Q - set_option q \<subseteq> active P - leaves P - X"
  shows "settled (count_down q ns) Q (set_option q)"
  unfolding settled_def
proof
  fix p assume p: "p \<in> active Q - leaves Q - set_option q"
  then have "q \<noteq> Some p" by auto
  then show "useCount (count_down q ns ! p) \<noteq> 0"
    using assms p by (auto simp: settled_def count_down_other)
qed

section \<open>Merging\<close>

lemma core_merge:
  fixes k :: "nat \<Rightarrow> nat"
  assumes C: "core s P {p}" and p: "p \<in> active P" "p \<notin> leaves P" and z: "useCount (enode s p) = 0"
  defines "s' \<equiv> s\<lparr>enodes := count_down (eparent (enode s p)) (enodes s),
      eFreeList := multi_insert k p (filter (\<lambda>i. eparent (enode s i) \<noteq> Some p) (eFreeList s))\<rparr>"
    and "P' \<equiv> P\<lparr>active := active P - kids (enodes s) (active P) p, freed := insert p (freed P - kids (enodes s) (active P) p)\<rparr>"
  shows "core s' P' (set_option (eparent (enode s p)))"
proof -
  let ?K = "kids (enodes s) (active P) p"
  note F = ecoreD(1) [OF C] and A = ecoreD(6) [OF C]
  have Kf: "?K \<subseteq> freed P" by (rule kids_free [OF F p(1) z])
  have pf: "p \<notin> freed P" using p(2) by (auto simp: leaves_def)
  have fl: "set (filter (\<lambda>i. eparent (enode s i) \<noteq> Some p) (eFreeList s)) = freed P - ?K"
    using ecoreD(5) [OF C] forestD(3) [OF F] by (auto simp: kids_def leaves_def)
  have "forest (enodes s') P'" unfolding s'_def P'_def using forest_merge [OF F p z] by simp
  moreover have "roots_disjoint (enodes s') (active P')"
  proof -
    have "active P' \<subseteq> {..<length (enodes s)}" using A by (auto simp: P'_def)
    moreover have "roots_disjoint (enodes s) (active P')"
      by (rule roots_disjoint_mono [OF _ ecoreD(2) [OF C]]) (simp add: P'_def)
    ultimately show ?thesis unfolding s'_def by (auto intro: same_data_roots [of "enodes s"])
  qed
  moreover have "settled (enodes s') P' (set_option (eparent (enode s p)))"
  proof -
    have "leaves P' = insert p (leaves P - ?K)"
      using Kf forestD(2) [OF F] by (auto simp: P'_def leaves_def)
    then have "active P' - leaves P' - set_option (eparent (enode s p)) \<subseteq> active P - leaves P - {p}"
      by (auto simp: P'_def)
    then show ?thesis using settled_down [OF ecoreD(3) [OF C]] by (simp add: s'_def)
  qed
  ultimately show ?thesis using ecoreD(4) [OF C] fl pf
    by (auto simp: core_def s'_def P'_def distinct_multi_insert set_multi_insert)
qed

text \<open>
  What a step leaves alone: it changes nodes and the main list only, keeps the nodes' data and the
  blocks and, but for \<open>G\<close>, what is held.
\<close>

definition quiet :: "Eager \<Rightarrow> parts \<Rightarrow> Eager \<Rightarrow> parts \<Rightarrow> bool" where
  "quiet s P s' P' \<longleftrightarrow> s' = s\<lparr>enodes := enodes s', eFreeList := eFreeList s'\<rparr> \<and>
     same_data (enodes s) (enodes s') \<and> length (enodes s') = length (enodes s) \<and>
     roots (enodes s') (active P') = roots (enodes s) (active P)"

lemma quiet_refl [simp]: "quiet s P s P"
  by (simp add: quiet_def)

lemma quiet_trans: "quiet s P t Q \<Longrightarrow> quiet t Q u R \<Longrightarrow> quiet s P u R"
  by (cases s; cases t; cases u) (auto simp: quiet_def intro: same_data_trans)

lemma merge_up_core:
  assumes "core s P {p}" and "p \<in> active P" and "p \<notin> leaves P" and "useCount (enode s p) = 0" and "p < k"
  shows "\<exists>P'. core (merge_up k MainList p s) P' {} \<and> held P' = held P \<and> quiet s P (merge_up k MainList p s) P'"
  using assms
proof (induction k arbitrary: s P p)
  case 0
  then show ?case by simp
next
  case (Suc k)
  note C = Suc.prems(1) and p = Suc.prems(2,3) and F = ecoreD(1) [OF Suc.prems(1)]
  let ?K = "kids (enodes s) (active P) p"
  let ?fl = "multi_insert (size_of s) p (filter (\<lambda>i. eparent (enode s i) \<noteq> Some p) (eFreeList s))"
  let ?s = "s\<lparr>enodes := count_down (eparent (enode s p)) (enodes s), eFreeList := ?fl\<rparr>"
  let ?P = "P\<lparr>active := active P - ?K, freed := insert p (freed P - ?K)\<rparr>"
  have C': "core ?s ?P (set_option (eparent (enode s p)))" by (rule core_merge [OF C p Suc.prems(4)])
  have Q: "quiet s P ?s ?P"
  proof -
    have "active ?P \<subseteq> {..<length (enodes s)}" using ecoreD(6) [OF C] by auto
    then have "roots (enodes ?s) (active ?P) = roots (enodes s) (active ?P)"
      using same_dataD(6) [OF count_same(2)] by simp
    then show ?thesis by (simp add: quiet_def)
  qed
  show ?case
  proof (cases "eparent (enode s p)")
    case None
    then have "merge_up (Suc k) MainList p s = ?s" by (simp add: count_down_def)
    then show ?thesis using C' Q None by auto
  next
    case (Some q)
    have m: "merge_up (Suc k) MainList p s = (if useCount (enode ?s q) = 0 then merge_up k MainList q ?s else ?s)"
      using Some by (simp add: Let_def)
    note q = forestD(5) [OF F p(1) Some]
    have Kf: "?K \<subseteq> freed P" by (rule kids_free [OF F p(1) Suc.prems(4)])
    have q': "q \<in> active ?P" "q \<notin> leaves ?P" using q Kf by (auto simp: leaves_def)
    show ?thesis
    proof (cases "useCount (enode ?s q) = 0")
      case True
      have "core ?s ?P {q}" using C' Some by simp
      moreover have "q < k" using q Suc.prems(5) by simp
      ultimately obtain P' where "core (merge_up k MainList q ?s) P' {}" "held P' = held ?P" "quiet ?s ?P (merge_up k MainList q ?s) P'"
        using Suc.IH [of ?s ?P q] q' True by blast
      then show ?thesis using m True quiet_trans [OF Q] by auto
    next
      case False
      then have "core ?s ?P {}" using C' Some by (auto simp: core_def settled_def)
      then show ?thesis using m False Q by auto
    qed
  qed
qed

text \<open>A held part given back to the main list, with the merges it makes possible.\<close>

lemma core_give:
  fixes k :: "nat \<Rightarrow> nat"
  assumes C: "core s P {}" and n: "n \<in> held P"
  shows "core (s\<lparr>enodes := count_down (eparent (enode s n)) (enodes s), eFreeList := multi_insert k n (eFreeList s)\<rparr>)
    (P\<lparr>freed := insert n (freed P), held := held P - {n}\<rparr>) (set_option (eparent (enode s n)))"
proof -
  let ?P = "P\<lparr>freed := insert n (freed P), held := held P - {n}\<rparr>"
  let ?ms = "count_down (eparent (enode s n)) (enodes s)"
  have lv: "leaves ?P = leaves P" using n by (auto simp: leaves_def)
  have nf: "n \<notin> freed P" using forestD(2) [OF ecoreD(1) [OF C]] n by auto
  have st: "settled ?ms ?P (set_option (eparent (enode s n)))"
    by (rule settled_down [OF ecoreD(3) [OF C]]) (auto simp: lv)
  have "roots_disjoint ?ms (active ?P)"
    using same_data_roots [OF count_same(2) ecoreD(6) [OF C] ecoreD(2) [OF C]] by simp
  then show ?thesis using forest_give [OF ecoreD(1) [OF C] n] st ecoreD(4,5) [OF C] nf
    by (auto simp: core_def distinct_multi_insert set_multi_insert)
qed

lemma core_return:
  assumes C: "core s P {}" and n: "n \<in> held P"
  shows "\<exists>P'. core (returnMemory MainList n True s) P' {} \<and> held P' = held P - {n} \<and>
    quiet s P (returnMemory MainList n True s) P'"
proof -
  let ?s = "s\<lparr>enodes := count_down (eparent (enode s n)) (enodes s), eFreeList := multi_insert (size_of s) n (eFreeList s)\<rparr>"
  let ?P = "P\<lparr>freed := insert n (freed P), held := held P - {n}\<rparr>"
  have C': "core ?s ?P (set_option (eparent (enode s n)))" by (rule core_give [OF C n])
  have Q: "quiet s P ?s ?P" using same_dataD(6) [OF count_same(2) ecoreD(6) [OF C]] by (simp add: quiet_def)
  note F = ecoreD(1) [OF C]
  show ?thesis
  proof (cases "eparent (enode s n)")
    case None
    then have "returnMemory MainList n True s = ?s" by (simp add: returnMemory_def count_down_def)
    then show ?thesis using C' Q None by auto
  next
    case (Some q)
    have na: "n \<in> active P" using forestD(3) [OF F] n by (auto simp: leaves_def)
    note q = forestD(5) [OF F na Some]
    have r: "returnMemory MainList n True s =
        (if useCount (enode ?s q) = 0 then merge_up (length (enodes ?s)) MainList q ?s else ?s)"
      using Some by (simp add: returnMemory_def)
    show ?thesis
    proof (cases "useCount (enode ?s q) = 0")
      case True
      have ql: "q < length (enodes ?s)" using q ecoreD(6) [OF C] by auto
      have "core ?s ?P {q}" using C' Some by simp
      moreover have "q \<in> active ?P" "q \<notin> leaves ?P" using q n by (auto simp: leaves_def)
      ultimately obtain P' where P': "core (merge_up (length (enodes ?s)) MainList q ?s) P' {}" "held P' = held ?P"
          "quiet ?s ?P (merge_up (length (enodes ?s)) MainList q ?s) P'"
        using merge_up_core [of ?s ?P q] True ql by blast
      have "returnMemory MainList n True s = merge_up (length (enodes ?s)) MainList q ?s" using r True by argo
      then show ?thesis using P' quiet_trans [OF Q P'(3)] by auto
    next
      case False
      then have "core ?s ?P {}" using C' Some by (auto simp: core_def settled_def)
      then show ?thesis using r False Q by auto
    qed
  qed
qed

section \<open>Taking and splitting\<close>

lemma core_take:
  assumes C: "core s P {}" and i: "i < length (eFreeList s)" and x: "x = eFreeList s ! i"
  shows "core (s\<lparr>enodes := count_up (eparent (enode s x)) (enodes s), eFreeList := erase_at i (eFreeList s)\<rparr>)
    (P\<lparr>freed := freed P - {x}, held := insert x (held P)\<rparr>) {}"
proof -
  let ?P = "P\<lparr>freed := freed P - {x}, held := insert x (held P)\<rparr>" and ?ms = "count_up (eparent (enode s x)) (enodes s)"
  have xf: "x \<in> freed P" unfolding x ecoreD(5) [OF C, symmetric] by (rule nth_mem [OF i])
  have lv: "leaves ?P = leaves P" using xf by (auto simp: leaves_def)
  have "settled ?ms ?P {}" by (rule settled_up [OF ecoreD(3) [OF C]]) (auto simp: lv)
  moreover have "roots_disjoint ?ms (active ?P)"
    using same_data_roots [OF count_same(1) ecoreD(6) [OF C] ecoreD(2) [OF C]] by simp
  moreover have "distinct (erase_at i (eFreeList s))" "set (erase_at i (eFreeList s)) = freed P - {x}"
    using erase_at_set [OF ecoreD(4) [OF C] i] by (simp_all add: x ecoreD(5) [OF C])
  moreover have "forest ?ms ?P" by (rule forest_take [OF ecoreD(1) [OF C] xf])
  ultimately show ?thesis unfolding core_def by (intro conjI) simp_all
qed

lemma count_up_append: "p < length ns \<Longrightarrow> count_up (Some p) (ns @ ms) = count_up (Some p) ns @ ms"
  by (simp add: count_up_def nth_append list_update_append)

lemma core_split:
  fixes k :: "nat \<Rightarrow> nat"
  assumes C: "core s P {}" and x: "x \<in> held P" and m: "0 < m" "m < esize (enode s x)"
    and a: "a = length (enodes s)" and b: "b = Suc (length (enodes s))"
  defines "p \<equiv> pointer (enode s x)"
  defines "ms \<equiv> count_up (Some x) (enodes s @ [\<lparr>pointer = p, eparent = Some x, esize = m, useCount = 0\<rparr>,
        \<lparr>pointer = (fst p, snd p + m), eparent = Some x, esize = esize (enode s x) - m, useCount = 0\<rparr>])"
    and "P' \<equiv> \<lparr>active = active P \<union> {a, b}, held = insert a (held P - {x}), freed = insert b (freed P)\<rparr>"
  shows "core (s\<lparr>enodes := ms, eFreeList := multi_insert k b (eFreeList s)\<rparr>) P' {}"
    and "same_data (enodes s) ms" and "roots ms (active P') = roots (enodes s) (active P)"
proof -
  note F = ecoreD(1) [OF C] and A = ecoreD(6) [OF C]
  have xl: "x < length (enodes s)" using x forestD(3) [OF F] A by (auto simp: leaves_def)
  show sd: "same_data (enodes s) ms" unfolding ms_def by (rule same_data_trans [OF same_data_append count_same(1)])
  have nb: "eparent (ms ! a) = Some x" "eparent (ms ! b) = Some x"
    using xl a b by (simp_all add: ms_def count_up_append nth_append)
  show rt: "roots ms (active P') = roots (enodes s) (active P)"
    using same_dataD(6) [OF sd A] nb by (simp add: P'_def roots_add)
  have bl: "b \<notin> freed P" using forestD(3) [OF F] A b by (auto simp: leaves_def)
  have fo: "forest ms P'" unfolding ms_def P'_def p_def by (rule forest_split [OF F x a b m(2,1)])
  have rd: "roots_disjoint ms (active P')"
    by (rule roots_disjoint_mono [of _ _ "active P"]) (use rt same_dataD(6) [OF sd A] same_data_roots [OF sd A ecoreD(2) [OF C]] in simp_all)
  have "settled ms P' {}"
    unfolding settled_def
  proof
    fix q assume q: "q \<in> active P' - leaves P' - {}"
    then have qa: "q \<in> active P" "q = x \<or> q \<notin> leaves P" by (auto simp: P'_def leaves_def)
    have ql: "q < length (enodes s)" using qa(1) A by auto
    then have u: "useCount (ms ! q) = useCount (enode s q) + (if q = x then 1 else 0)"
      using xl use_count_up [of q "enodes s" "Some x"] by (simp add: ms_def count_up_append nth_append)
    show "useCount (ms ! q) \<noteq> 0" using u qa ecoreD(3) [OF C] by (auto simp: settled_def)
  qed
  then show "core (s\<lparr>enodes := ms, eFreeList := multi_insert k b (eFreeList s)\<rparr>) P' {}"
    using fo rd ecoreD(4,5) [OF C] bl by (auto simp: core_def P'_def distinct_multi_insert set_multi_insert)
qed

section \<open>Blocks coming and going\<close>

lemma core_new_root:
  assumes C: "core s P {}" and m: "0 < m" and r: "r = length (enodes s)"
    and ap: "\<And>q. q \<in> roots (enodes s) (active P) \<Longrightarrow> {fst p + snd p..<fst p + snd p + m} \<inter> region (enodes s) q = {}"
  defines "ms \<equiv> enodes s @ [\<lparr>pointer = p, eparent = None, esize = m, useCount = 0\<rparr>]"
    and "P' \<equiv> P\<lparr>active := insert r (active P), held := insert r (held P)\<rparr>"
  shows "core (s\<lparr>enodes := ms\<rparr>) P' {}" and "same_data (enodes s) ms"
    and "roots ms (active P') = insert r (roots (enodes s) (active P))"
proof -
  note F = ecoreD(1) [OF C] and A = ecoreD(6) [OF C]
  show sd: "same_data (enodes s) ms" by (simp add: ms_def)
  show rt: "roots ms (active P') = insert r (roots (enodes s) (active P))"
    using same_dataD(6) [OF sd A] r by (simp add: P'_def roots_insert ms_def)
  have "region ms r = {fst p + snd p..<fst p + snd p + m}" using r by (simp add: region_def ms_def)
  then have "roots_disjoint ms (active P')"
    using ap ecoreD(2) [OF C] same_dataD(5) [OF sd A] unfolding roots_disjoint_def rt by (auto simp: roots_def)
  moreover have "settled ms P' {}"
    unfolding settled_def
  proof
    fix q assume "q \<in> active P' - leaves P' - {}"
    then have q: "q \<in> active P" "q \<notin> leaves P" by (auto simp: P'_def leaves_def)
    then have "q < length (enodes s)" using A by auto
    then show "useCount (ms ! q) \<noteq> 0" using q ecoreD(3) [OF C] by (simp add: settled_def ms_def nth_append)
  qed
  moreover have "forest ms P'" unfolding ms_def P'_def by (rule forest_new_root [OF F m r])
  ultimately show "core (s\<lparr>enodes := ms\<rparr>) P' {}" using ecoreD(4,5) [OF C] by (simp add: core_def P'_def)
qed

end
