(* ===== verification/Memory_Source.thy ===== *)
theory Memory_Source
  imports Defer_Model
begin

text \<open>
  The contract of \<open>BufferAllocator::Allocator\<close> (source/core/BufferAllocator.hpp), the interface an
  allocator takes its blocks from. \<open>blocks w\<close> are the blocks handed out and not given back, with the
  number of bytes that may be used in each; a request is less than \<open>2 ^ 63\<close> bytes. \<open>Eager_Refine\<close> shows that an eager allocator over such
  a source is such a source again (\<open>RecurseAllocator\<close>), \<open>Malloc_Source\<close> that the default allocator
  is one.
\<close>

definition span :: "MemChunk \<Rightarrow> nat \<Rightarrow> nat set" where
  "span c n = {first c + second c..<first c + second c + n}"

locale memory_source =
  fixes A :: "'w Allocator" and ok :: "'w \<Rightarrow> bool" and blocks :: "'w \<Rightarrow> (MemChunk \<times> nat) set"
  assumes block: "ok w \<Longrightarrow> (c, n) \<in> blocks w \<Longrightarrow> first c \<noteq> nullptr \<and> mNode c = None \<and> 0 < n"
    and apart: "ok w \<Longrightarrow> (c, n) \<in> blocks w \<Longrightarrow> (d, m) \<in> blocks w \<Longrightarrow> (c, n) \<noteq> (d, m) \<Longrightarrow> span c n \<inter> span d m = {}"
    and alloc: "ok w \<Longrightarrow> 0 < sz \<Longrightarrow> sz < 2 ^ 63 \<Longrightarrow> onAlloc A sz align w = (c, w') \<Longrightarrow> ok w' \<and>
      (if first c = nullptr then blocks w' = blocks w
       else \<exists>n\<ge>sz. (c, n) \<notin> blocks w \<and> blocks w' = insert (c, n) (blocks w))"
    and release: "ok w \<Longrightarrow> (c, n) \<in> blocks w \<Longrightarrow>
      ok (onRelease A c w) \<and> blocks (onRelease A c w) = blocks w - {(c, n)}"
begin

lemma fresh_block:
  assumes "ok w" and "0 < sz" and "sz < 2 ^ 63" and "onAlloc A sz align w = (c, w')" and "first c \<noteq> nullptr"
  shows "\<exists>n\<ge>sz. blocks w' = insert (c, n) (blocks w) \<and> mNode c = None \<and> (\<forall>(d, m)\<in>blocks w. span c n \<inter> span d m = {})"
proof -
  obtain n where n: "sz \<le> n" "(c, n) \<notin> blocks w" "blocks w' = insert (c, n) (blocks w)" "ok w'"
    using alloc [OF assms(1-4)] assms(5) by auto
  have "span c n \<inter> span d m = {}" if "(d, m) \<in> blocks w" for d m
    by (rule apart [OF n(4)]) (use n that in auto)
  then show ?thesis using n block [OF n(4), of c n] by auto
qed

text \<open>A source that gives back a set of its blocks, in any order.\<close>

lemma release_all:
  assumes "ok w" and "distinct bs" and "set bs \<subseteq> blocks w"
  shows "ok (fold (\<lambda>b. onRelease A (fst b)) bs w) \<and> blocks (fold (\<lambda>b. onRelease A (fst b)) bs w) = blocks w - set bs"
  using assms
proof (induction bs arbitrary: w)
  case (Cons b bs)
  then have r: "ok (onRelease A (fst b) w)" "blocks (onRelease A (fst b) w) = blocks w - {b}"
    using release [of w "fst b" "snd b"] by auto
  have "set bs \<subseteq> blocks (onRelease A (fst b) w)" using r(2) Cons.prems(2,3) by auto
  from Cons.IH [OF r(1) _ this] Cons.prems(2) r(2) show ?case by auto
qed simp

end

end
