(* ===== verification/Eager_Refine.thy ===== *)
theory Eager_Refine
  imports Eager_Steps Memory_Source
begin

text \<open>
  The eager allocator as a source of memory: the invariant of its state together with its parent's,
  and every operation against the contract of \<open>Memory_Source\<close>.
\<close>

section \<open>The invariant\<close>

text \<open>A key of \<open>mUsedList\<close> is an address in its node; it may lie behind the start of the node to be aligned.\<close>

definition key_in :: "ENode list \<Rightarrow> ptr \<times> nat \<Rightarrow> nat \<Rightarrow> bool" where
  "key_in ns k n \<longleftrightarrow> fst k = fst (pointer (ns ! n)) \<and> snd (pointer (ns ! n)) \<le> snd k \<and>
     snd k < snd (pointer (ns ! n)) + esize (ns ! n)"

definition room :: "ENode list \<Rightarrow> ptr \<times> nat \<Rightarrow> nat \<Rightarrow> nat" where
  "room ns k n = snd (pointer (ns ! n)) + esize (ns ! n) - snd k"

definition clients :: "Eager \<Rightarrow> nat set \<Rightarrow> bool" where
  "clients s H \<longleftrightarrow> mset (map snd (mUsedList s)) + mset (concat (mGroups s)) = mset_set H \<and>
     (\<forall>(k, n)\<in>set (mUsedList s). key_in (enodes s) k n) \<and>
     (\<forall>g. mCurrentFreeList s = Some g \<longrightarrow> g < length (mGroups s))"

definition rooted :: "(MemChunk \<times> nat) set \<Rightarrow> Eager \<Rightarrow> parts \<Rightarrow> bool" where
  "rooted B s P \<longleftrightarrow> (\<forall>r\<in>roots (enodes s) (active P). \<exists>n\<ge>size_of s r.
     (chunk_of_pointer (fst (pointer (enode s r))) (snd (pointer (enode s r))), n) \<in> B) \<and>
     eTotalSize s = sum (size_of s) (roots (enodes s) (active P))"

definition eager_inv :: "(MemChunk \<times> nat) set \<Rightarrow> Eager \<Rightarrow> parts \<Rightarrow> bool" where
  "eager_inv B s P \<longleftrightarrow> core s P {} \<and> clients s (held P) \<and> rooted B s P \<and> 0 < eAlign s \<and> mMinAllocSize s = 0"

definition eager_ok :: "('w \<Rightarrow> bool) \<Rightarrow> ('w \<Rightarrow> (MemChunk \<times> nat) set) \<Rightarrow> Eager \<times> 'w \<Rightarrow> bool" where
  "eager_ok ok blk sw \<longleftrightarrow> ok (snd sw) \<and> (\<exists>P. eager_inv (blk (snd sw)) (fst sw) P)"

definition eager_blocks :: "Eager \<times> 'w \<Rightarrow> (MemChunk \<times> nat) set" where
  "eager_blocks sw = (\<lambda>(k, n). (chunk_of_pointer (fst k) (snd k), room (enodes (fst sw)) k n)) ` set (mUsedList (fst sw))"

lemma eager_invD:
  assumes "eager_inv B s P"
  shows "core s P {}" "clients s (held P)" "rooted B s P" "0 < eAlign s" "mMinAllocSize s = 0"
  using assms by (simp_all add: eager_inv_def)

lemma finite_held: "core s P X \<Longrightarrow> finite (held P)"
  using forestD(3) ecoreD(1,6) by (metis finite_lessThan finite_subset leaves_def sup_ge1)

lemma mset_part:
  assumes "mset xs + M = mset_set H" and "finite H"
  shows "distinct xs" and "set xs \<subseteq> H"
proof -
  have c: "count (mset xs) a \<le> (if a \<in> H then 1 else 0)" for a
  proof -
    have "count (mset xs + M) a = (if a \<in> H then 1 else 0)" using assms by simp
    then show ?thesis by (simp split: if_splits)
  qed
  show "set xs \<subseteq> H"
  proof
    fix a assume "a \<in> set xs"
    then have "0 < count (mset xs) a" by (simp add: count_greater_zero_iff)
    then show "a \<in> H" using c [of a] by (simp split: if_splits)
  qed
  have "count (mset xs) a = (if a \<in> set xs then 1 else 0)" for a
  proof (cases "a \<in> set xs")
    case True
    then have "0 < count (mset xs) a" by (simp add: count_greater_zero_iff)
    moreover have "count (mset xs) a \<le> 1" by (rule order_trans [OF c]) simp
    ultimately have "count (mset xs) a = 1" by linarith
    then show ?thesis using True by simp
  qed simp
  then show "distinct xs" by (simp add: distinct_count_atmost_1)
qed

lemma used_held: "core s P X \<Longrightarrow> clients s (held P) \<Longrightarrow> snd ` set (mUsedList s) \<subseteq> held P"
  unfolding clients_def set_map [symmetric] by (elim conjE) (rule mset_part(2) [OF _ finite_held])

lemma used_distinct: "core s P X \<Longrightarrow> clients s (held P) \<Longrightarrow> distinct (map snd (mUsedList s))"
  unfolding clients_def by (elim conjE) (rule mset_part(1) [OF _ finite_held])

lemma key_region: "key_in ns k n \<Longrightarrow> fst k + snd k \<in> region ns n"
  by (auto simp: key_in_def region_def)

lemma key_same: "same_data ns ms \<Longrightarrow> n < length ns \<Longrightarrow> key_in ms k n = key_in ns k n"
  by (simp add: same_data_def key_in_def)

lemma room_same: "same_data ns ms \<Longrightarrow> n < length ns \<Longrightarrow> room ms k n = room ns k n"
  by (simp add: same_data_def room_def)

lemma fresh_key:
  assumes "forest ns P" and "roots_disjoint ns (active P)" and "n \<in> leaves P" and "key_in ns k n"
    and "\<And>e. e \<in> set us \<Longrightarrow> key_in ns (fst e) (snd e) \<and> snd e \<in> leaves P \<and> snd e \<noteq> n"
  shows "map_of us k = None"
proof -
  have "k \<notin> fst ` set us"
  proof
    assume "k \<in> fst ` set us"
    then obtain m where "(k, m) \<in> set us" by auto
    with assms(5) have "key_in ns k m" "m \<in> leaves P" "m \<noteq> n" by fastforce+
    then show False using leaves_apart [OF assms(1,2,3)] key_region assms(4) by blast
  qed
  then show ?thesis by (simp add: map_of_eq_None_iff)
qed

lemma keys_unique:
  assumes "core s P X" and "clients s (held P)" and "(k, n) \<in> set (mUsedList s)" and "(k, m) \<in> set (mUsedList s)"
  shows "n = m"
proof (rule ccontr)
  assume "n \<noteq> m"
  have "n \<in> leaves P" "m \<in> leaves P" using used_held [OF assms(1,2)] assms(3,4) by (force simp: leaves_def)+
  then have "region (enodes s) n \<inter> region (enodes s) m = {}"
    using leaves_apart [OF ecoreD(1,2) [OF assms(1)]] \<open>n \<noteq> m\<close> by simp
  moreover have "key_in (enodes s) k n" "key_in (enodes s) k m" using assms(2-4) by (auto simp: clients_def)
  ultimately show False using key_region by blast
qed

lemma keys_distinct:
  assumes "core s P X" and "clients s (held P)"
  shows "distinct (map fst (mUsedList s))"
proof -
  have "inj_on fst (set (mUsedList s))"
  proof (rule inj_onI)
    fix x y assume "x \<in> set (mUsedList s)" "y \<in> set (mUsedList s)" "fst x = fst y"
    then have "snd x = snd y" by (metis keys_unique [OF assms] prod.collapse)
    then show "x = y" using \<open>fst x = fst y\<close> by (rule prod_eqI [rotated])
  qed
  then show ?thesis using used_distinct [OF assms] by (simp add: distinct_map)
qed

section \<open>Taking a part from the main list\<close>

text \<open>The padding that \<open>getFromFreeList\<close> adds when the requested alignment does not divide its own.\<close>

definition aligned_start :: "nat \<Rightarrow> Eager \<Rightarrow> nat \<Rightarrow> nat" where
  "aligned_start align s x = (if eAlign s mod align \<noteq> 0 then UP_DIV (snd (pointer (enode s x))) align * align
     else snd (pointer (enode s x)))"

definition part_size :: "nat \<Rightarrow> nat \<Rightarrow> Eager \<Rightarrow> nat \<Rightarrow> nat" where
  "part_size sz align s x = UP_DIV (sz + aligned_start align s x - snd (pointer (enode s x))) (eAlign s) * eAlign s"

lemma aligned_start_ge: "0 < align \<Longrightarrow> snd (pointer (enode s x)) \<le> aligned_start align s x"
  by (simp add: aligned_start_def UP_DIV_ge)

lemma aligned_start_fits:
  "0 < align \<Longrightarrow> 0 < sz \<Longrightarrow> (if eAlign s mod align \<noteq> 0 then sz + align - 1 else sz) \<le> size_of s x \<Longrightarrow>
   aligned_start align s x + sz \<le> snd (pointer (enode s x)) + size_of s x"
  using UP_DIV_lt [of align "snd (pointer (enode s x))"] by (auto simp: aligned_start_def)

lemma part_size_fits:
  "0 < align \<Longrightarrow> 0 < sz \<Longrightarrow> 0 < eAlign s \<Longrightarrow>
   aligned_start align s x + sz \<le> snd (pointer (enode s x)) + part_size sz align s x \<and> 0 < part_size sz align s x"
proof -
  assume a: "0 < align" "0 < sz" "0 < eAlign s"
  have "sz + aligned_start align s x - snd (pointer (enode s x)) \<le> part_size sz align s x"
    unfolding part_size_def by (rule UP_DIV_ge [OF a(3)])
  then show ?thesis using aligned_start_ge [OF a(1), of s x] a(2) by linarith
qed

lemma getFromFreeList_main:
  "getFromFreeList MainList sz True align s =
     (let i = lower_bound (size_of s) (if eAlign s mod align \<noteq> 0 then sz + align - 1 else sz) (eFreeList s)
      in if i = length (eFreeList s) then ((nullptr, 0), s)
         else
           let x = eFreeList s ! i; m = part_size sz align s x; p0 = pointer (enode s x);
               p = (fst p0, aligned_start align s x);
               s1 = s\<lparr>enodes := count_up (eparent (enode s x)) (enodes s)\<rparr>
           in if m \<ge> size_of s x then (p, (used_insert p x s1)\<lparr>eFreeList := erase_at i (eFreeList s)\<rparr>)
              else
                let (first, s2) = new_enode \<lparr>pointer = p0, eparent = Some x, esize = m, useCount = 0\<rparr> s1;
                    s3 = inc_use x (used_insert p first s2);
                    (second, s4) = new_enode \<lparr>pointer = (fst p0, snd p0 + m), eparent = Some x,
                                     esize = size_of s x - m, useCount = 0\<rparr> s3
                in (p, s4\<lparr>eFreeList := multi_insert (size_of s4) second (erase_at i (eFreeList s))\<rparr>))"
proof -
  have "(case eparent (enode s x) of Some q \<Rightarrow> if True then inc_use q s else s | None \<Rightarrow> s) =
      s\<lparr>enodes := count_up (eparent (enode s x)) (enodes s)\<rparr>" for x
    by (simp add: count_up_def split: option.splits)
  note s1 = this
  show ?thesis
  proof (cases "eAlign s mod align \<noteq> 0")
    case True
    then show ?thesis unfolding getFromFreeList_def Let_def s1 by (simp add: part_size_def aligned_start_def)
  next
    case False
    then show ?thesis unfolding getFromFreeList_def Let_def s1 by (simp add: part_size_def aligned_start_def)
  qed
qed

lemma used_insert_enodes [simp]: "used_insert p x (s\<lparr>enodes := ns\<rparr>) = (used_insert p x s)\<lparr>enodes := ns\<rparr>"
    "enodes (used_insert p x s) = enodes s"
  by (cases s; simp add: used_insert_def)+

lemma main_cases:
  assumes "getFromFreeList MainList sz True align s = (p, s')" and "0 < sz" and "0 < align" and "0 < eAlign s"
  obtains (none) "p = (nullptr, 0)" "s' = s"
  | (whole) i x where "i < length (eFreeList s)" "x = eFreeList s ! i"
      "p = (fst (pointer (enode s x)), aligned_start align s x)"
      "aligned_start align s x + sz \<le> snd (pointer (enode s x)) + size_of s x"
      "s' = (used_insert p x s)\<lparr>enodes := count_up (eparent (enode s x)) (enodes s), eFreeList := erase_at i (eFreeList s)\<rparr>"
  | (split) i x where "i < length (eFreeList s)" "x = eFreeList s ! i"
      "p = (fst (pointer (enode s x)), aligned_start align s x)"
      "part_size sz align s x < size_of s x"
      "\<exists>k. s' = (used_insert p (length (enodes s)) s)\<lparr>enodes := count_up (Some x) (count_up (eparent (enode s x)) (enodes s) @
          [\<lparr>pointer = pointer (enode s x), eparent = Some x, esize = part_size sz align s x, useCount = 0\<rparr>]) @
          [\<lparr>pointer = (fst (pointer (enode s x)), snd (pointer (enode s x)) + part_size sz align s x), eparent = Some x,
            esize = size_of s x - part_size sz align s x, useCount = 0\<rparr>],
        eFreeList := multi_insert k (Suc (length (enodes s))) (erase_at i (eFreeList s))\<rparr>"
proof -
  define real where "real = (if eAlign s mod align \<noteq> 0 then sz + align - 1 else sz)"
  define i where "i = lower_bound (size_of s) real (eFreeList s)"
  define x where "x = eFreeList s ! i"
  note g = assms(1) [unfolded getFromFreeList_main, folded real_def, unfolded Let_def, folded i_def, folded x_def]
  show ?thesis
  proof (cases "i = length (eFreeList s)")
    case True
    then show ?thesis using g none by simp
  next
    case False
    then have i: "i < length (eFreeList s)" using lower_bound_le le_neq_implies_less unfolding i_def by blast
    have "real \<le> size_of s x" using lower_bound_key i unfolding x_def i_def by blast
    then have fit: "aligned_start align s x + sz \<le> snd (pointer (enode s x)) + size_of s x"
      using aligned_start_fits [OF assms(3,2)] unfolding real_def by blast
    show ?thesis
    proof (cases "size_of s x \<le> part_size sz align s x")
      case True
      show ?thesis by (rule whole [OF i x_def _ fit]) (use g False True in auto)
    next
      case m: False
      have p: "p = (fst (pointer (enode s x)), aligned_start align s x)"
        using g False m by (simp add: new_enode_def)
      show ?thesis by (rule split [OF i x_def p]) (use g False m in \<open>auto simp: new_enode_def\<close>)
    qed
  qed
qed

lemma core_cong: "enodes s = enodes t \<Longrightarrow> eFreeList s = eFreeList t \<Longrightarrow> core s P X = core t P X"
  by (simp add: core_def)

lemma used_insert_simps [simp]: "eFreeList (used_insert p x s) = eFreeList s" "mGroups (used_insert p x s) = mGroups s"
    "mCurrentFreeList (used_insert p x s) = mCurrentFreeList s" "eAlign (used_insert p x s) = eAlign s"
    "mMinAllocSize (used_insert p x s) = mMinAllocSize s" "eTotalSize (used_insert p x s) = eTotalSize s"
    "map_of (mUsedList s) p = None \<Longrightarrow> mUsedList (used_insert p x s) = (p, x) # mUsedList s"
  by (simp_all add: used_insert_def)

lemma used_facts:
  assumes "core s P X" and "clients s (held P)" and "e \<in> set (mUsedList s)"
  shows "key_in (enodes s) (fst e) (snd e)" and "snd e \<in> held P" and "snd e < length (enodes s)"
proof -
  show h: "snd e \<in> held P" using used_held [OF assms(1,2)] assms(3) by auto
  show "key_in (enodes s) (fst e) (snd e)" using assms(2,3) by (auto simp: clients_def)
  show "snd e < length (enodes s)" using h forestD(3) [OF ecoreD(1) [OF assms(1)]] ecoreD(6) [OF assms(1)]
    by (auto simp: leaves_def)
qed

lemma rooted_same:
  assumes "rooted B s P" and "same_data (enodes s) (enodes s')" and "active P \<subseteq> {..<length (enodes s)}"
    and "roots (enodes s') (active P') = roots (enodes s) (active P)" and "eTotalSize s' = eTotalSize s"
  shows "rooted B s' P'"
proof -
  have r: "r \<in> active P" if "r \<in> roots (enodes s) (active P)" for r using that by (simp add: roots_def)
  have "sum (size_of s') (roots (enodes s) (active P)) = sum (size_of s) (roots (enodes s) (active P))"
    by (rule sum.cong) (use r same_dataD(3) [OF assms(2,3)] in auto)
  then show ?thesis
    using assms(1,5) r same_dataD(1,3) [OF assms(2,3)] unfolding rooted_def assms(4) by (metis (no_types, lifting))
qed

text \<open>What both kinds of list give: a part for the key \<open>p\<close> with room for \<open>sz\<close> bytes behind it.\<close>

definition taken :: "(MemChunk \<times> nat) set \<Rightarrow> Eager \<Rightarrow> nat \<Rightarrow> ptr \<times> nat \<Rightarrow> Eager \<Rightarrow> bool" where
  "taken B s sz p s' \<longleftrightarrow> (\<exists>P' n. eager_inv B s' P' \<and> mUsedList s' = (p, n) # mUsedList s \<and>
     sz \<le> room (enodes s') p n \<and> key_in (enodes s') p n \<and> same_data (enodes s) (enodes s'))"

text \<open>A new entry of \<open>mUsedList\<close>: its key is new because its node is apart from the others.\<close>

lemma new_key:
  assumes I: "eager_inv B s P" and C: "core s' P' {}" and H: "held P' = insert n (held P)" "n \<notin> held P"
    and sd: "same_data (enodes s) (enodes s')" and k: "key_in (enodes s') p n"
  shows "map_of (mUsedList s) p = None"
proof (rule fresh_key [OF ecoreD(1,2) [OF C] _ k])
  note c = eager_invD(1,2) [OF I]
  show "n \<in> leaves P'" using H(1) by (simp add: leaves_def)
  fix e assume "e \<in> set (mUsedList s)"
  note e = used_facts [OF c this]
  show "key_in (enodes s') (fst e) (snd e) \<and> snd e \<in> leaves P' \<and> snd e \<noteq> n"
    using e key_same [OF sd e(3)] H by (auto simp: leaves_def)
qed

lemma add_used:
  assumes I: "eager_inv B s P" and C: "core s' P' {}" and H: "held P' = insert n (held P)" "n \<notin> held P"
    and sd: "same_data (enodes s) (enodes s')" and k: "key_in (enodes s') p n"
    and s': "mUsedList s' = mUsedList (used_insert p n s)" "mGroups s' = mGroups s" "mCurrentFreeList s' = mCurrentFreeList s"
  shows "clients s' (held P')" and "mUsedList s' = (p, n) # mUsedList s"
proof -
  note c = eager_invD(1,2) [OF I]
  show u: "mUsedList s' = (p, n) # mUsedList s" using s'(1) new_key [OF I C H sd k] by simp
  have "mset_set (held P') = add_mset n (mset_set (held P))" using H finite_held [OF c(1)] by simp
  moreover have "\<forall>(k, m)\<in>set (mUsedList s). key_in (enodes s') k m"
    using used_facts(1,3) [OF c] key_same [OF sd] by fastforce
  ultimately show "clients s' (held P')" using c(2) k s'(2,3) u by (auto simp: clients_def)
qed

lemma free_part:
  assumes "eager_inv B s P" and "i < length (eFreeList s)" and "x = eFreeList s ! i"
  shows "x \<in> freed P" and "x \<notin> held P" and "x < length (enodes s)"
proof -
  note c = ecoreD [OF eager_invD(1) [OF assms(1)]]
  show f: "x \<in> freed P" unfolding assms(3) c(5) [symmetric] by (rule nth_mem [OF assms(2)])
  show "x \<notin> held P" "x < length (enodes s)" using f forestD(2,3) [OF c(1)] c(6) by (auto simp: leaves_def)
qed

lemma take_whole:
  assumes I: "eager_inv B s P" and i: "i < length (eFreeList s)" and x: "x = eFreeList s ! i" and sz: "0 < sz" and al: "0 < align"
    and p: "p = (fst (pointer (enode s x)), aligned_start align s x)"
    and fit: "aligned_start align s x + sz \<le> snd (pointer (enode s x)) + size_of s x"
    and s': "s' = (used_insert p x s)\<lparr>enodes := count_up (eparent (enode s x)) (enodes s), eFreeList := erase_at i (eFreeList s)\<rparr>"
  shows "taken B s sz p s'"
proof -
  note c = eager_invD(1,2) [OF I]
  let ?P = "P\<lparr>freed := freed P - {x}, held := insert x (held P)\<rparr>"
  have sd: "same_data (enodes s) (enodes s')" using s' by simp
  note xf = free_part(1) [OF I i x] and xl = free_part(3) [OF I i x]
  note xh = free_part(2) [OF I i x]
  have C: "core s' ?P {}"
    using core_take [OF c(1) i x] by (rule core_cong [THEN iffD1, rotated -1]) (simp_all add: s')
  have "key_in (enodes s) p x" "sz \<le> room (enodes s) p x"
    using p fit sz aligned_start_ge [OF al, of s x] by (auto simp: key_in_def room_def)
  then have k: "key_in (enodes s') p x" "sz \<le> room (enodes s') p x" using key_same [OF sd xl] room_same [OF sd xl] by simp_all
  have cl: "clients s' (held ?P)" "mUsedList s' = (p, x) # mUsedList s"
    by (rule add_used [OF I C _ xh sd k(1)]; simp add: s')+
  have "rooted B s' ?P" by (rule rooted_same [OF eager_invD(3) [OF I] sd ecoreD(6) [OF c(1)]])
      (use same_dataD(6) [OF sd ecoreD(6) [OF c(1)]] in \<open>simp_all add: s'\<close>)
  then have "eager_inv B s' ?P" using C cl(1) eager_invD(4,5) [OF I] by (simp add: eager_inv_def s')
  then show ?thesis unfolding taken_def using cl(2) k sd by blast
qed

lemma take_split:
  assumes I: "eager_inv B s P" and i: "i < length (eFreeList s)" and x: "x = eFreeList s ! i" and sz: "0 < sz" and al: "0 < align"
    and p: "p = (fst (pointer (enode s x)), aligned_start align s x)" and m0: "part_size sz align s x < size_of s x"
    and ex: "\<exists>k. s' = (used_insert p (length (enodes s)) s)\<lparr>enodes := count_up (Some x) (count_up (eparent (enode s x)) (enodes s) @
          [\<lparr>pointer = pointer (enode s x), eparent = Some x, esize = part_size sz align s x, useCount = 0\<rparr>]) @
          [\<lparr>pointer = (fst (pointer (enode s x)), snd (pointer (enode s x)) + part_size sz align s x), eparent = Some x,
            esize = size_of s x - part_size sz align s x, useCount = 0\<rparr>],
        eFreeList := multi_insert k (Suc (length (enodes s))) (erase_at i (eFreeList s))\<rparr>"
  shows "taken B s sz p s'"
proof -
  note c = eager_invD(1,2) [OF I]
  let ?P1 = "P\<lparr>freed := freed P - {x}, held := insert x (held P)\<rparr>" and ?m = "part_size sz align s x"
  let ?a = "length (enodes s)" and ?b = "Suc (length (enodes s))"
  let ?s1 = "s\<lparr>enodes := count_up (eparent (enode s x)) (enodes s), eFreeList := erase_at i (eFreeList s)\<rparr>"
  have sd1: "same_data (enodes s) (enodes ?s1)" by simp
  note xf = free_part(1) [OF I i x] and xl = free_part(3) [OF I i x]
  have x1: "pointer (enode ?s1 x) = pointer (enode s x)" "size_of ?s1 x = size_of s x"
    using sd1 xl by (simp_all add: same_data_def)
  obtain k where s': "s' = (used_insert p ?a s)\<lparr>enodes := count_up (Some x) (count_up (eparent (enode s x)) (enodes s) @
          [\<lparr>pointer = pointer (enode s x), eparent = Some x, esize = ?m, useCount = 0\<rparr>]) @
          [\<lparr>pointer = (fst (pointer (enode s x)), snd (pointer (enode s x)) + ?m), eparent = Some x,
            esize = size_of s x - ?m, useCount = 0\<rparr>], eFreeList := multi_insert k ?b (erase_at i (eFreeList s))\<rparr>"
    using ex by blast
  have C1: "core ?s1 ?P1 {}" by (rule core_take [OF c(1) i x])
  have m: "0 < ?m" "?m < size_of ?s1 x"
    using part_size_fits [OF al sz eager_invD(4) [OF I]] m0 x1(2) by auto
  have xh: "x \<in> held ?P1" by simp
  have l1: "?a = length (enodes ?s1)" "?b = Suc (length (enodes ?s1))" by simp_all
  note sp = core_split [OF C1 xh m l1, unfolded x1]
  let ?P2 = "\<lparr>active = active ?P1 \<union> {?a, ?b}, held = insert ?a (held ?P1 - {x}), freed = insert ?b (freed ?P1)\<rparr>"
  have e: "enodes s' = count_up (Some x) (enodes ?s1 @ [\<lparr>pointer = pointer (enode s x), eparent = Some x, esize = ?m, useCount = 0\<rparr>,
        \<lparr>pointer = (fst (pointer (enode s x)), snd (pointer (enode s x)) + ?m), eparent = Some x, esize = size_of s x - ?m, useCount = 0\<rparr>])"
    using xl by (simp add: s' count_up_append)
  have C: "core s' ?P2 {}"
    using sp(1) by (rule core_cong [THEN iffD1, rotated -1]) (use e in \<open>simp_all add: s'\<close>)
  have sd: "same_data (enodes s) (enodes s')" using same_data_trans [OF sd1] sp(2) e by simp
  note xo = free_part(2) [OF I i x]
  have ao: "?a \<notin> held P" using forestD(3) [OF ecoreD(1) [OF c(1)]] ecoreD(6) [OF c(1)] by (auto simp: leaves_def)
  have na: "pointer (enode s' ?a) = pointer (enode s x)" "size_of s' ?a = ?m"
    using xl unfolding e by (simp_all add: count_up_append nth_append)
  have k: "key_in (enodes s') p ?a" "sz \<le> room (enodes s') p ?a"
    using p sz aligned_start_ge [OF al, of s x] part_size_fits [OF al sz eager_invD(4) [OF I], of x]
    by (auto simp: key_in_def room_def na)
  have h: "held ?P2 = insert ?a (held P)" using xo by auto
  have cl: "clients s' (held ?P2)" "mUsedList s' = (p, ?a) # mUsedList s"
    by (rule add_used [OF I C h ao sd k(1)]; simp add: s')+
  have "rooted B s' ?P2"
  proof (rule rooted_same [OF eager_invD(3) [OF I] sd ecoreD(6) [OF c(1)]])
    show "roots (enodes s') (active ?P2) = roots (enodes s) (active P)"
      using sp(3) same_dataD(6) [OF sd1 ecoreD(6) [OF c(1)]] unfolding e by simp
  qed (simp add: s')
  then have "eager_inv B s' ?P2" using C cl(1) eager_invD(4,5) [OF I] by (simp add: eager_inv_def s')
  then show ?thesis unfolding taken_def using cl(2) k sd by blast
qed

lemma main_take:
  assumes I: "eager_inv B s P" and g: "getFromFreeList MainList sz True align s = (p, s')" and sz: "0 < sz" and al: "0 < align"
  shows "p = (nullptr, 0) \<and> s' = s \<or> taken B s sz p s'"
  using g sz al eager_invD(4) [OF I]
proof (cases rule: main_cases)
  case (whole i x)
  then show ?thesis using take_whole [OF I whole(1,2) sz al whole(3-5)] by simp
next
  case (split i x)
  then show ?thesis using take_split [OF I split(1,2) sz al split(3-5)] by simp
qed simp

section \<open>Taking a whole part from the list of a group\<close>

lemma getFromFreeList_group:
  "getFromFreeList (GroupList g) sz False align s =
     (let i = lower_bound (size_of s) (if eAlign s mod align \<noteq> 0 then sz + align - 1 else sz) (mGroups s ! g)
      in if i = length (mGroups s ! g) then ((nullptr, 0), s)
         else
           let x = mGroups s ! g ! i; p = (fst (pointer (enode s x)), aligned_start align s x)
           in (p, (used_insert p x s)\<lparr>mGroups := (mGroups s)[g := erase_at i (mGroups s ! g)]\<rparr>))"
proof -
  have s1: "(case eparent (enode s x) of Some q \<Rightarrow> if False then inc_use q s else s | None \<Rightarrow> s) = s" for x
    by (simp split: option.splits)
  show ?thesis
  proof (cases "eAlign s mod align \<noteq> 0")
    case True
    then show ?thesis unfolding getFromFreeList_def Let_def s1 by (simp add: aligned_start_def)
  next
    case False
    then show ?thesis unfolding getFromFreeList_def Let_def s1 by (simp add: aligned_start_def)
  qed
qed

lemma mset_concat_update: "g < length gs \<Longrightarrow> mset (concat (gs[g := ys])) + mset (gs ! g) = mset (concat gs) + mset ys"
proof (induction gs arbitrary: g)
  case (Cons x gs)
  then show ?case by (cases g) (auto simp: ac_simps)
qed simp

lemma client_nodes:
  assumes "core s P X" and "clients s (held P)"
  shows "distinct (map snd (mUsedList s) @ concat (mGroups s))" and "set (map snd (mUsedList s) @ concat (mGroups s)) = held P"
proof -
  have m: "mset (map snd (mUsedList s) @ concat (mGroups s)) + {#} = mset_set (held P)" using assms(2) by (simp add: clients_def)
  show "distinct (map snd (mUsedList s) @ concat (mGroups s))" by (rule mset_part(1) [OF m finite_held [OF assms(1)]])
  have "set_mset (mset (map snd (mUsedList s) @ concat (mGroups s))) = set_mset (mset_set (held P))" using m by simp
  then show "set (map snd (mUsedList s) @ concat (mGroups s)) = held P"
    using finite_held [OF assms(1)] by (simp only: set_mset_mset finite_set_mset_mset_set)
qed

lemma group_take:
  assumes I: "eager_inv B s P" and g: "getFromFreeList (GroupList g) sz False align s = (p, s')" and sz: "0 < sz" and al: "0 < align"
    and cur: "mCurrentFreeList s = Some g"
  shows "p = (nullptr, 0) \<and> s' = s \<or> taken B s sz p s'"
proof -
  define real where "real = (if eAlign s mod align \<noteq> 0 then sz + align - 1 else sz)"
  define i where "i = lower_bound (size_of s) real (mGroups s ! g)"
  define x where "x = mGroups s ! g ! i"
  note u = g [unfolded getFromFreeList_group, folded real_def, unfolded Let_def, folded i_def, folded x_def]
  note c = eager_invD(1,2) [OF I]
  have gl: "g < length (mGroups s)" using c(2) cur by (simp add: clients_def)
  show ?thesis
  proof (cases "i = length (mGroups s ! g)")
    case True
    then show ?thesis using u by simp
  next
    case False
    then have i: "i < length (mGroups s ! g)" using lower_bound_le le_neq_implies_less unfolding i_def by blast
    have "real \<le> size_of s x" using lower_bound_key i unfolding x_def i_def by blast
    then have fit: "aligned_start align s x + sz \<le> snd (pointer (enode s x)) + size_of s x"
      using aligned_start_fits [OF al sz] unfolding real_def by blast
    have p: "p = (fst (pointer (enode s x)), aligned_start align s x)"
      and s': "s' = (used_insert p x s)\<lparr>mGroups := (mGroups s)[g := erase_at i (mGroups s ! g)]\<rparr>" using u False by auto
    have k: "key_in (enodes s) p x" "sz \<le> room (enodes s) p x"
      using p fit sz aligned_start_ge [OF al, of s x] by (auto simp: key_in_def room_def)
    have xg: "x \<in> set (concat (mGroups s))" using nth_mem [OF i] nth_mem [OF gl] by (auto simp: x_def)
    have xu: "x \<notin> snd ` set (mUsedList s)" "x \<in> held P" using client_nodes [OF c] xg by auto
    have "map_of (mUsedList s) p = None"
    proof (rule fresh_key [OF ecoreD(1,2) [OF c(1)] _ k(1)])
      show "x \<in> leaves P" using xu by (simp add: leaves_def)
      fix e assume e: "e \<in> set (mUsedList s)"
      show "key_in (enodes s) (fst e) (snd e) \<and> snd e \<in> leaves P \<and> snd e \<noteq> x"
        using used_facts [OF c e] xu e by (auto simp: leaves_def)
    qed
    then have ul: "mUsedList s' = (p, x) # mUsedList s" by (simp add: s')
    have "mset (concat (mGroups s')) + mset (mGroups s ! g) = mset (concat (mGroups s)) + mset (erase_at i (mGroups s ! g))"
      using mset_concat_update [OF gl, of "erase_at i (mGroups s ! g)"] by (simp add: s')
    then have "add_mset x (mset (concat (mGroups s'))) = mset (concat (mGroups s))"
      using mset_erase_at [OF i] by (simp add: x_def)
    then have "mset (map snd (mUsedList s')) + mset (concat (mGroups s')) = mset_set (held P)"
      using c(2) ul by (simp add: clients_def) (metis union_mset_add_mset_right)
    then have cl: "clients s' (held P)" using c(2) ul k(1) by (auto simp: clients_def s')
    have "core s' P {}" using c(1) by (rule core_cong [THEN iffD1, rotated -1]) (simp_all add: s')
    moreover have "rooted B s' P" using eager_invD(3) [OF I] by (simp add: rooted_def s')
    ultimately have "eager_inv B s' P" using cl eager_invD(4,5) [OF I] by (simp add: eager_inv_def s')
    then have "taken B s sz p s'" unfolding taken_def using ul k by (intro exI [of _ P] exI [of _ x]) (simp add: s')
    then show ?thesis by simp
  qed
qed

section \<open>Giving a part back\<close>

text \<open>\<open>barrierEnd\<close>'s loop: the held parts \<open>ns\<close> go to the main list one after the other.\<close>

lemma return_all:
  assumes "core s P {}" and "distinct ns" and "set ns \<subseteq> held P"
  shows "\<exists>P'. core (fold (\<lambda>n s. returnMemory MainList n True s) ns s) P' {} \<and> held P' = held P - set ns \<and>
    quiet s P (fold (\<lambda>n s. returnMemory MainList n True s) ns s) P'"
  using assms
proof (induction ns arbitrary: s P)
  case (Cons n ns)
  then obtain Q where Q: "core (returnMemory MainList n True s) Q {}" "held Q = held P - {n}" "quiet s P (returnMemory MainList n True s) Q"
    using core_return [of s P n] by auto
  have "distinct ns" "set ns \<subseteq> held Q" using Cons.prems(2,3) Q(2) by auto
  from Cons.IH [OF Q(1) this] obtain P' where "core (fold (\<lambda>n s. returnMemory MainList n True s) (n # ns) s) P' {}"
      "held P' = held Q - set ns" "quiet (returnMemory MainList n True s) Q (fold (\<lambda>n s. returnMemory MainList n True s) (n # ns) s) P'"
    by auto
  then show ?case using Q(2) quiet_trans [OF Q(3)] by (intro exI [of _ P']) auto
qed auto

lemma used_erase_simps [simp]: "enodes (used_erase k s) = enodes s" "eFreeList (used_erase k s) = eFreeList s"
    "mGroups (used_erase k s) = mGroups s" "mCurrentFreeList (used_erase k s) = mCurrentFreeList s"
    "eAlign (used_erase k s) = eAlign s" "eTotalSize (used_erase k s) = eTotalSize s" "mMinAllocSize (used_erase k s) = mMinAllocSize s"
    "mUsedList (used_erase k s) = filter (\<lambda>e. fst e \<noteq> k) (mUsedList s)"
  by (simp_all add: used_erase_def)

lemma filter_key: "distinct (map fst us) \<Longrightarrow> (k, n) \<in> set us \<Longrightarrow> add_mset (k, n) (mset (filter (\<lambda>e. fst e \<noteq> k) us)) = mset us"
proof (induction us)
  case (Cons e us)
  show ?case
  proof (cases "fst e = k")
    case True
    then have "\<forall>y\<in>set us. fst y \<noteq> k" using Cons.prems(1) by (auto simp: image_iff)
    then have "filter (\<lambda>e. fst e \<noteq> k) us = us" by (rule filter_True)
    then show ?thesis using True Cons.prems by (force simp: image_iff)
  qed (use Cons in auto)
qed simp

lemma return_group: "returnMemory (GroupList g) n False s =
    s\<lparr>mGroups := (mGroups s)[g := multi_insert (size_of s) n (mGroups s ! g)]\<rparr>"
  by (simp add: returnMemory_def Let_def split: option.splits)

lemma quiet_fields:
  assumes "quiet s P s' P'"
  shows "mUsedList s' = mUsedList s" "mGroups s' = mGroups s" "mCurrentFreeList s' = mCurrentFreeList s"
    "eAlign s' = eAlign s" "mMinAllocSize s' = mMinAllocSize s" "eTotalSize s' = eTotalSize s" "same_data (enodes s) (enodes s')"
proof -
  obtain ns fl where "s' = s\<lparr>enodes := ns, eFreeList := fl\<rparr>" using assms unfolding quiet_def by blast
  then show "mUsedList s' = mUsedList s" "mGroups s' = mGroups s" "mCurrentFreeList s' = mCurrentFreeList s"
    "eAlign s' = eAlign s" "mMinAllocSize s' = mMinAllocSize s" "eTotalSize s' = eTotalSize s" by simp_all
  show "same_data (enodes s) (enodes s')" using assms by (simp add: quiet_def)
qed

lemma quiet_rooted: "rooted B s P \<Longrightarrow> core s P X \<Longrightarrow> quiet s P s' P' \<Longrightarrow> rooted B s' P'"
  using rooted_same [of B s P s' P'] ecoreD(6) [of s P X] quiet_fields(6) [of s P s' P'] by (simp add: quiet_def)

lemma free_step:
  assumes I: "eager_inv B s P" and e: "(k, n) \<in> set (mUsedList s)"
  defines "r \<equiv> eager_free (chunk_of_pointer (fst k) (snd k)) s"
  shows "fst r \<and> (\<exists>P'. eager_inv B (snd r) P') \<and> same_data (enodes s) (enodes (snd r)) \<and>
    add_mset (k, n) (mset (mUsedList (snd r))) = mset (mUsedList s)"
proof -
  note c = eager_invD(1,2) [OF I]
  let ?s1 = "used_erase k s"
  have kd: "distinct (map fst (mUsedList s))" by (rule keys_distinct [OF c])
  then have "map_of (mUsedList s) k = Some n" using e by simp
  then have r: "r = (True, case mCurrentFreeList s of Some g \<Rightarrow> returnMemory (GroupList g) n False ?s1
      | None \<Rightarrow> returnMemory MainList n True ?s1)"
    by (simp add: r_def eager_free_def chunk_of_pointer_def Let_def)
  have um: "add_mset (k, n) (mset (mUsedList ?s1)) = mset (mUsedList s)" using filter_key [OF kd e] by simp
  have nh: "n \<in> held P" using used_held [OF c] e by force
  have C1: "core ?s1 P {}" using c(1) by (rule core_cong [THEN iffD1, rotated -1]) simp_all
  have keys: "\<forall>(k', m)\<in>set (mUsedList ?s1). key_in (enodes s) k' m" using c(2) by (auto simp: clients_def)
  have h: "add_mset n (mset (map snd (mUsedList ?s1))) + mset (concat (mGroups s)) = mset_set (held P)"
    using c(2) arg_cong [OF um, of "image_mset snd"] by (simp add: clients_def)
  show ?thesis
  proof (cases "mCurrentFreeList s")
    case (Some g)
    have g: "g < length (mGroups s)" using c(2) Some by (simp add: clients_def)
    let ?s2 = "returnMemory (GroupList g) n False ?s1"
    have s2: "?s2 = ?s1\<lparr>mGroups := (mGroups s)[g := multi_insert (size_of s) n (mGroups s ! g)]\<rparr>" by (simp add: return_group)
    have "mset (concat (mGroups ?s2)) + mset (mGroups s ! g) = mset (concat (mGroups s)) + add_mset n (mset (mGroups s ! g))"
      using mset_concat_update [OF g, of "multi_insert (size_of s) n (mGroups s ! g)"] by (simp add: s2 mset_multi_insert)
    then have "mset (concat (mGroups ?s2)) = add_mset n (mset (concat (mGroups s)))" by simp
    then have "clients ?s2 (held P)" using h keys c(2) by (auto simp: clients_def s2)
    moreover have "core ?s2 P {}" using c(1) by (rule core_cong [THEN iffD1, rotated -1]) (simp_all add: s2)
    moreover have "rooted B ?s2 P" using eager_invD(3) [OF I] by (simp add: rooted_def s2)
    ultimately have "eager_inv B ?s2 P" using eager_invD(4,5) [OF I] by (simp add: eager_inv_def s2)
    then show ?thesis using r Some um s2 by auto
  next
    case None
    let ?s2 = "returnMemory MainList n True ?s1"
    obtain P' where P': "core ?s2 P' {}" "held P' = held P - {n}" "quiet ?s1 P ?s2 P'" using core_return [OF C1 nh] by blast
    note q = quiet_fields [OF P'(3), simplified]
    have "mset_set (held P) = add_mset n (mset_set (held P'))"
      using P'(2) nh finite_held [OF c(1)] by (simp add: mset_set.remove)
    then have m: "mset (map snd (mUsedList ?s1)) + mset (concat (mGroups s)) = mset_set (held P')" using h by simp
    have "\<forall>(k', m)\<in>set (mUsedList ?s1). key_in (enodes ?s2) k' m"
      using keys used_facts(3) [OF c] key_same [OF q(7)] by fastforce
    then have "clients ?s2 (held P')" using m c(2) None by (simp add: clients_def q)
    moreover have "rooted B ?s2 P'"
      by (rule quiet_rooted [OF _ C1 P'(3)]) (use eager_invD(3) [OF I] in \<open>simp add: rooted_def\<close>)
    ultimately have "eager_inv B ?s2 P'" using P'(1) eager_invD(4,5) [OF I] by (simp add: eager_inv_def q)
    then show ?thesis using r None um q(1,7) by auto
  qed
qed

section \<open>A new block\<close>

lemma same_base:
  assumes F: "forest ns P" and "n \<in> active P"
  shows "\<exists>r\<in>roots ns (active P). fst (pointer (ns ! n)) = fst (pointer (ns ! r))"
  using assms(2)
proof (induction n rule: less_induct)
  case (less n)
  show ?case
  proof (cases "eparent (ns ! n)")
    case None
    then show ?thesis using less.prems by (auto simp: roots_def)
  next
    case (Some p)
    have p: "p \<in> active P" "p \<notin> leaves P" "p < n" using forestD(5) [OF F less.prems Some] by auto
    obtain a b where ab: "kids ns (active P) p = {a, b}" "splits ns p a b" using forestD(6) [OF F p(1,2)] by blast
    have "n \<in> {a, b}" using less.prems Some ab(1) by (auto simp: kids_def)
    then have "fst (pointer (ns ! n)) = fst (pointer (ns ! p))" using ab(2) by (auto simp: splits_def)
    then show ?thesis using less.IH [OF p(3,1)] by simp
  qed
qed

lemma rooted_mono: "rooted B s P \<Longrightarrow> B \<subseteq> C \<Longrightarrow> rooted C s P"
  unfolding rooted_def by blast

definition alloc_result :: "Eager \<Rightarrow> Eager \<Rightarrow> nat \<Rightarrow> MemChunk \<Rightarrow> bool" where
  "alloc_result s s' sz c \<longleftrightarrow> (\<exists>k n. c = chunk_of_pointer (fst k) (snd k) \<and> mUsedList s' = (k, n) # mUsedList s \<and>
     sz \<le> room (enodes s') k n \<and> key_in (enodes s') k n \<and> same_data (enodes s) (enodes s'))"

context memory_source
begin

lemma used_nonnull:
  assumes "ok w" and "eager_inv (blocks w) s P" and "(k, n) \<in> set (mUsedList s)"
  shows "fst k \<noteq> nullptr"
proof -
  note c = eager_invD(1,2) [OF assms(2)]
  have "n \<in> active P" using used_facts(2) [OF c assms(3)] forestD(3) [OF ecoreD(1) [OF c(1)]] by (auto simp: leaves_def)
  then obtain r where r: "r \<in> roots (enodes s) (active P)" "fst (pointer (enode s n)) = fst (pointer (enode s r))"
    using same_base [OF ecoreD(1) [OF c(1)]] by blast
  have "fst (pointer (enode s r)) \<noteq> nullptr"
    using eager_invD(3) [OF assms(2)] r(1) block [OF assms(1)] by (fastforce simp: rooted_def chunk_of_pointer_def)
  then show ?thesis using used_facts(1) [OF c assms(3)] r(2) by (simp add: key_in_def)
qed

lemma alloc_new_step:
  assumes w: "ok w" and I: "eager_inv (blocks w) s P" and sz: "0 < sz" "sz < 2 ^ 63"
    and al: "eager_alloc_new A sz align s w = (c, s', w')"
  shows "ok w' \<and> (if first c = nullptr then s' = s \<and> blocks w' = blocks w
     else (\<exists>P'. eager_inv (blocks w') s' P') \<and> alloc_result s s' sz c)"
proof -
  obtain chunk w1 where oa: "onAlloc A sz align w = (chunk, w1)" by fastforce
  note a = alloc [OF w sz oa] and mm = eager_invD(5) [OF I]
  show ?thesis
  proof (cases "first chunk = nullptr")
    case True
    then show ?thesis using al a oa mm by (auto simp: eager_alloc_new_def Let_def)
  next
    case False
    let ?p = "(first chunk, second chunk)" and ?r = "length (enodes s)"
    let ?ms = "enodes s @ [\<lparr>pointer = ?p, eparent = None, esize = sz, useCount = 0\<rparr>]"
    let ?P = "P\<lparr>active := insert ?r (active P), held := insert ?r (held P)\<rparr>"
    have s': "s' = used_set ?p ?r (s\<lparr>eTotalSize := eTotalSize s + sz, enodes := ?ms\<rparr>)" "w' = w1"
        "c = chunk_of_pointer (first chunk) (second chunk)"
      using al oa mm False by (auto simp: eager_alloc_new_def new_enode_def Let_def)
    obtain n where n: "sz \<le> n" "blocks w1 = insert (chunk, n) (blocks w)" "mNode chunk = None"
        "\<forall>(d, m)\<in>blocks w. span chunk n \<inter> span d m = {}"
      using fresh_block [OF w sz oa False] by blast
    have ap: "{fst ?p + snd ?p..<fst ?p + snd ?p + sz} \<inter> region (enodes s) q = {}"
      if q: "q \<in> roots (enodes s) (active P)" for q
    proof -
      obtain m where m: "size_of s q \<le> m" "(chunk_of_pointer (fst (pointer (enode s q))) (snd (pointer (enode s q))), m) \<in> blocks w"
        using eager_invD(3) [OF I] q by (auto simp: rooted_def)
      have "span chunk n \<inter> span (chunk_of_pointer (fst (pointer (enode s q))) (snd (pointer (enode s q)))) m = {}"
        using n(4) m(2) by blast
      moreover have "region (enodes s) q \<subseteq> span (chunk_of_pointer (fst (pointer (enode s q))) (snd (pointer (enode s q)))) m"
        using m(1) by (auto simp: region_def span_def chunk_of_pointer_def)
      moreover have "{fst ?p + snd ?p..<fst ?p + snd ?p + sz} \<subseteq> span chunk n" using n(1) by (auto simp: span_def)
      ultimately show ?thesis by blast
    qed
    note c = eager_invD(1,2) [OF I]
    note nr = core_new_root [OF c(1) sz(1) refl ap]
    have rh: "?r \<notin> held P" using forestD(3) [OF ecoreD(1) [OF c(1)]] ecoreD(6) [OF c(1)] by (auto simp: leaves_def)
    have k: "key_in ?ms ?p ?r" "sz \<le> room ?ms ?p ?r" using sz(1) by (simp_all add: key_in_def room_def)
    have nk: "map_of (mUsedList s) ?p = None"
      by (rule new_key [OF I nr(1) _ rh]) (use k(1) in simp_all)
    then have "filter (\<lambda>e. fst e \<noteq> ?p) (mUsedList s) = mUsedList s"
      by (force simp: map_of_eq_None_iff filter_id_conv image_iff)
    then have s2: "s' = s\<lparr>eTotalSize := eTotalSize s + sz, enodes := ?ms, mUsedList := (?p, ?r) # mUsedList s\<rparr>"
      by (simp add: s' used_set_def used_erase_def)
    have C: "core s' ?P {}" using nr(1) by (rule core_cong [THEN iffD1, rotated -1]) (simp_all add: s2)
    have cl: "clients s' (held ?P)"
    proof (rule add_used(1) [OF I C _ rh])
      show "mUsedList s' = mUsedList (used_insert ?p ?r s)" using nk by (simp add: s2 used_insert_def)
    qed (use k(1) in \<open>simp_all add: s2\<close>)
    have rt: "roots (enodes s') (active ?P) = insert ?r (roots (enodes s) (active P))" using nr(3) by (simp add: s2)
    have old: "enode s' q = enode s q" "q \<noteq> ?r" if "q \<in> roots (enodes s) (active P)" for q
      using that ecoreD(6) [OF c(1)] by (auto simp: roots_def s2 nth_append)
    have "finite (roots (enodes s) (active P))"
      using ecoreD(6) [OF c(1)] by (auto simp: roots_def intro: finite_subset [of _ "{..<length (enodes s)}"])
    moreover have "?r \<notin> roots (enodes s) (active P)" using old(2) by blast
    moreover have "sum (size_of s') (roots (enodes s) (active P)) = sum (size_of s) (roots (enodes s) (active P))"
      by (rule sum.cong) (use old(1) in auto)
    ultimately have "eTotalSize s' = sum (size_of s') (roots (enodes s') (active ?P))"
      unfolding rt using eager_invD(3) [OF I] by (simp add: rooted_def s2)
    moreover have "chunk_of_pointer (first chunk) (second chunk) = chunk" using n(3) by (simp add: chunk_of_pointer_def)
    then have "\<exists>n\<ge>size_of s' ?r. (chunk_of_pointer (fst (pointer (enode s' ?r))) (snd (pointer (enode s' ?r))), n) \<in> blocks w1"
      using n(1,2) by (auto simp: s2)
    ultimately have "rooted (blocks w1) s' ?P"
      using eager_invD(3) [OF I] n(2) old(1) unfolding rooted_def rt by auto
    then have "eager_inv (blocks w1) s' ?P" using C cl eager_invD(4,5) [OF I] by (simp add: eager_inv_def s2)
    moreover have "alloc_result s s' sz c"
      unfolding alloc_result_def using k by (intro exI [of _ ?p] exI [of _ ?r]) (simp add: s'(3) s2)
    ultimately show ?thesis using a False s'(2,3) by (auto simp: chunk_of_pointer_def)
  qed
qed

section \<open>Allocation as a whole\<close>

lemma alloc_step:
  assumes w: "ok w" and I: "eager_inv (blocks w) s P" and sz: "0 < sz" "sz < 2 ^ 63"
    and al: "eager_alloc A sz separate align s w = (c, s', w')"
  shows "ok w' \<and> (if first c = nullptr then s' = s \<and> blocks w' = blocks w
     else (\<exists>P'. eager_inv (blocks w') s' P') \<and> alloc_result s s' sz c)"
proof -
  define al where "al = (if 0 = align then eAlign s else align)"
  have apos: "0 < al" using eager_invD(4) [OF I] by (simp add: al_def)
  have res: "ok w \<and> (if first (chunk_of_pointer (fst p) (snd p)) = nullptr then t = s \<and> blocks w = blocks w
     else (\<exists>P'. eager_inv (blocks w) t P') \<and> alloc_result s t sz (chunk_of_pointer (fst p) (snd p)))"
    if "p = (nullptr, 0) \<and> t = s \<or> taken (blocks w) s sz p t" and "fst p \<noteq> nullptr" for p t
    using that w by (auto simp: chunk_of_pointer_def alloc_result_def taken_def)
  have null: "t = s" if "p = (nullptr, 0) \<and> t = s \<or> taken (blocks w) s sz p t" and "fst p = nullptr" for p t
    using that used_nonnull [OF w, of t] unfolding taken_def by (metis list.set_intros(1))
  note u = al [unfolded eager_alloc_def Let_def, folded al_def]
  show ?thesis
  proof (cases separate)
    case True
    then show ?thesis using alloc_new_step [OF w I sz] u by simp
  next
    case False
    obtain p1 s1 where g1: "(case mCurrentFreeList s of Some g \<Rightarrow> getFromFreeList (GroupList g) sz False al s
        | None \<Rightarrow> ((nullptr, 0), s)) = (p1, s1)" by fastforce
    have t1: "p1 = (nullptr, 0) \<and> s1 = s \<or> taken (blocks w) s sz p1 s1"
      using g1 group_take [OF I _ sz(1) apos] by (auto split: option.splits)
    show ?thesis
    proof (cases "fst p1 = nullptr")
      case False
      have "c = chunk_of_pointer (fst p1) (snd p1)" "s' = s1" "w' = w"
        using u \<open>\<not> separate\<close> g1 False by auto
      then show ?thesis using res [OF t1 False] by simp
    next
      case True
      then have s1: "s1 = s" using null [OF t1] by simp
      obtain p2 s2 where g2: "getFromFreeList MainList sz True al s = (p2, s2)" by fastforce
      note t2 = main_take [OF I g2 sz(1) apos]
      show ?thesis
      proof (cases "fst p2 = nullptr")
        case n2: False
        have "c = chunk_of_pointer (fst p2) (snd p2)" "s' = s2" "w' = w"
          using u False g1 True s1 g2 n2 by auto
        then show ?thesis using res [OF t2 n2] by simp
      next
        case n2: True
        then have "s2 = s" using null [OF t2] by simp
        then show ?thesis using u False g1 True s1 g2 n2 alloc_new_step [OF w I sz, of al c s' w'] by simp
      qed
    qed
  qed
qed

end

end
