(* ===== verification/Eager_Source.thy ===== *)
theory Eager_Source
  imports Eager_Refine
begin

text \<open>
  An eager allocator over a source of memory is a source of memory (\<open>recurse_source\<close>, the composition
  that \<open>RecurseAllocator\<close> builds), and what groups and \<open>release\<close> do to the invariant and to the parent.
\<close>

section \<open>The chunks handed out\<close>

lemma eager_blocksE:
  assumes "(c, m) \<in> eager_blocks (s, w)"
  obtains k n where "(k, n) \<in> set (mUsedList s)" "c = chunk_of_pointer (fst k) (snd k)" "m = room (enodes s) k n"
  using assms by (auto simp: eager_blocks_def)

lemma chunk_key [simp]: "chunk_of_pointer a b = chunk_of_pointer c d \<longleftrightarrow> a = c \<and> b = d"
  by (simp add: chunk_of_pointer_def)

lemma chunk_fields [simp]: "first (chunk_of_pointer p q) = p" "second (chunk_of_pointer p q) = q" "mNode (chunk_of_pointer p q) = None"
  by (simp_all add: chunk_of_pointer_def)

lemma span_region: "key_in ns k n \<Longrightarrow> span (chunk_of_pointer (fst k) (snd k)) (room ns k n) \<subseteq> region ns n"
  by (auto simp: key_in_def span_def room_def region_def)

lemma chunks_apart:
  assumes I: "eager_inv B s P" and "(c, n) \<in> eager_blocks (s, w)" and "(d, m) \<in> eager_blocks (s, w)" and "(c, n) \<noteq> (d, m)"
  shows "span c n \<inter> span d m = {}"
proof -
  note C = eager_invD(1,2) [OF I]
  obtain k x where x: "(k, x) \<in> set (mUsedList s)" "c = chunk_of_pointer (fst k) (snd k)" "n = room (enodes s) k x"
    using assms(2) by (rule eager_blocksE)
  obtain l y where y: "(l, y) \<in> set (mUsedList s)" "d = chunk_of_pointer (fst l) (snd l)" "m = room (enodes s) l y"
    using assms(3) by (rule eager_blocksE)
  have "(k, x) \<noteq> (l, y)" using assms(4) x y by auto
  moreover have "inj_on snd (set (mUsedList s))" using used_distinct [OF C] by (simp add: distinct_map)
  ultimately have "x \<noteq> y" using x(1) y(1) by (metis inj_onD snd_conv)
  moreover have "x \<in> leaves P" "y \<in> leaves P"
    using used_facts(2) [OF C x(1)] used_facts(2) [OF C y(1)] by (simp_all add: leaves_def)
  ultimately have "region (enodes s) x \<inter> region (enodes s) y = {}" using leaves_apart [OF ecoreD(1,2) [OF C(1)]] by simp
  moreover have "span c n \<subseteq> region (enodes s) x" "span d m \<subseteq> region (enodes s) y"
    using span_region used_facts(1) [OF C x(1)] used_facts(1) [OF C y(1)] x(2,3) y(2,3) by auto
  ultimately show ?thesis by blast
qed

text \<open>Each chunk lies in a block that the parent handed out.\<close>

lemma chunk_in_block:
  assumes I: "eager_inv B s P" and "(c, n) \<in> eager_blocks (s, w)"
  shows "\<exists>(d, m)\<in>B. span c n \<subseteq> span d m"
proof -
  note C = eager_invD(1,2) [OF I]
  obtain k x where x: "(k, x) \<in> set (mUsedList s)" "c = chunk_of_pointer (fst k) (snd k)" "n = room (enodes s) k x"
    using assms(2) by (rule eager_blocksE)
  have "x \<in> active P" using used_facts(2) [OF C x(1)] forestD(3) [OF ecoreD(1) [OF C(1)]] by (auto simp: leaves_def)
  then obtain r where r: "r \<in> roots (enodes s) (active P)" "region (enodes s) x \<subseteq> region (enodes s) r"
    using in_some_root [OF ecoreD(1) [OF C(1)]] by blast
  obtain m where m: "size_of s r \<le> m" "(chunk_of_pointer (fst (pointer (enode s r))) (snd (pointer (enode s r))), m) \<in> B"
    using eager_invD(3) [OF I] r(1) by (auto simp: rooted_def)
  have "region (enodes s) r \<subseteq> span (chunk_of_pointer (fst (pointer (enode s r))) (snd (pointer (enode s r)))) m"
    using m(1) by (auto simp: region_def span_def)
  moreover have "span c n \<subseteq> region (enodes s) x" using span_region used_facts(1) [OF C x(1)] x(2,3) by auto
  ultimately show ?thesis using m(2) r(2) by blast
qed

lemma eager_blocks_same:
  assumes "core s P X" and "clients s (held P)" and "same_data (enodes s) ns" and "us \<subseteq> set (mUsedList s)"
  shows "(\<lambda>(k, n). (chunk_of_pointer (fst k) (snd k), room ns k n)) ` us =
    (\<lambda>(k, n). (chunk_of_pointer (fst k) (snd k), room (enodes s) k n)) ` us"
proof (rule image_cong [OF refl])
  fix e assume "e \<in> us"
  then have "snd e < length (enodes s)" using used_facts(3) [OF assms(1,2)] assms(4) by blast
  then show "(\<lambda>(k, n). (chunk_of_pointer (fst k) (snd k), room ns k n)) e =
      (\<lambda>(k, n). (chunk_of_pointer (fst k) (snd k), room (enodes s) k n)) e"
    using room_same [OF assms(3)] by (simp add: case_prod_beta)
qed

lemma alloc_blocks:
  assumes I: "eager_inv B s P" and I': "eager_inv B' s' P'" and r: "alloc_result s s' sz c"
  shows "\<exists>n\<ge>sz. (c, n) \<notin> eager_blocks (s, w) \<and> eager_blocks (s', w') = insert (c, n) (eager_blocks (s, w))"
proof -
  note C = eager_invD(1,2) [OF I] and C' = eager_invD(1,2) [OF I']
  obtain k n where kn: "c = chunk_of_pointer (fst k) (snd k)" "mUsedList s' = (k, n) # mUsedList s"
      "sz \<le> room (enodes s') k n" "same_data (enodes s) (enodes s')" using r unfolding alloc_result_def by blast
  have "k \<notin> fst ` set (mUsedList s)" using keys_distinct [OF C'] kn(2) by simp
  then have "(c, room (enodes s') k n) \<notin> eager_blocks (s, w)"
    by (auto simp: kn(1) image_iff prod_eq_iff elim!: eager_blocksE)
  moreover have "eager_blocks (s', w') = insert (c, room (enodes s') k n) (eager_blocks (s, w))"
    using eager_blocks_same [OF C kn(4) subset_refl] by (simp add: eager_blocks_def kn(1,2))
  ultimately show ?thesis using kn(3) by blast
qed

lemma free_blocks:
  assumes I: "eager_inv B s P" and c: "(c, m) \<in> eager_blocks (s, w)"
  shows "fst (eager_free c s) \<and> (\<exists>P'. eager_inv B (snd (eager_free c s)) P') \<and>
    eager_blocks (snd (eager_free c s), w) = eager_blocks (s, w) - {(c, m)}"
proof -
  note C = eager_invD(1,2) [OF I]
  obtain k n where kn: "(k, n) \<in> set (mUsedList s)" "c = chunk_of_pointer (fst k) (snd k)" "m = room (enodes s) k n"
    using c by (rule eager_blocksE)
  let ?s = "snd (eager_free c s)"
  have f: "fst (eager_free c s)" "\<exists>P'. eager_inv B ?s P'" "same_data (enodes s) (enodes ?s)"
      "add_mset (k, n) (mset (mUsedList ?s)) = mset (mUsedList s)"
    using free_step [OF I kn(1)] by (simp_all add: kn(2))
  have "distinct (mUsedList s)" using used_distinct [OF C] by (simp add: distinct_map)
  moreover have "mset ((k, n) # mUsedList ?s) = mset (mUsedList s)" using f(4) by simp
  ultimately have d: "(k, n) \<notin> set (mUsedList ?s)" "set (mUsedList s) = insert (k, n) (set (mUsedList ?s))"
    by (metis distinct.simps(2) mset_eq_imp_distinct_iff, metis list.simps(15) mset_eq_setD)
  have u: "set (mUsedList ?s) = set (mUsedList s) - {(k, n)}" using d by auto
  have "eager_blocks (?s, w) = (\<lambda>(k, n). (chunk_of_pointer (fst k) (snd k), room (enodes s) k n)) ` (set (mUsedList s) - {(k, n)})"
    using eager_blocks_same [OF C f(3), of "set (mUsedList s) - {(k, n)}"] by (simp add: eager_blocks_def u)
  also have "\<dots> = eager_blocks (s, w) - {(c, m)}"
    using keys_unique [OF C kn(1)] by (auto simp: eager_blocks_def kn(2,3) image_iff prod_eq_iff)
  finally show ?thesis using f(1,2) by simp
qed

section \<open>The composition\<close>

context memory_source
begin

lemma recurse_memory_source: "memory_source (RecurseAllocator A) (eager_ok ok blocks) eager_blocks"
proof
  fix sw c n assume ok: "eager_ok ok blocks sw" and "(c, n) \<in> eager_blocks sw"
  then obtain P k x where P: "eager_inv (blocks (snd sw)) (fst sw) P" and x: "(k, x) \<in> set (mUsedList (fst sw))"
      "c = chunk_of_pointer (fst k) (snd k)" "n = room (enodes (fst sw)) k x"
    by (cases sw) (auto simp: eager_ok_def elim!: eager_blocksE)
  have "fst k \<noteq> nullptr" using used_nonnull [OF _ P x(1)] ok by (simp add: eager_ok_def)
  moreover have "0 < n" using used_facts(1) [OF eager_invD(1,2) [OF P] x(1)] by (simp add: x(3) key_in_def room_def)
  ultimately show "first c \<noteq> nullptr \<and> mNode c = None \<and> 0 < n" by (simp add: x(2))
next
  fix sw c n d m
  assume "eager_ok ok blocks sw" "(c, n) \<in> eager_blocks sw" "(d, m) \<in> eager_blocks sw" "(c, n) \<noteq> (d, m)"
  then show "span c n \<inter> span d m = {}"
    using chunks_apart [of _ "fst sw" _ c n "snd sw" d m] by (auto simp: eager_ok_def)
next
  fix sw sz align c sw'
  assume ok: "eager_ok ok blocks sw" and sz: "0 < (sz :: nat)" "sz < 2 ^ 63" and al: "onAlloc (RecurseAllocator A) sz align sw = (c, sw')"
  obtain s w s' w' where sw: "sw = (s, w)" "sw' = (s', w')" by fastforce
  obtain P where P: "eager_inv (blocks w) s P" and w: "ok w" using ok by (auto simp: eager_ok_def sw)
  have e: "eager_alloc A sz False align s w = (c, s', w')"
    using al by (auto simp: RecurseAllocator_def sw split: prod.splits)
  note st = alloc_step [OF w P sz e]
  show "eager_ok ok blocks sw' \<and> (if first c = nullptr then eager_blocks sw' = eager_blocks sw
      else \<exists>n\<ge>sz. (c, n) \<notin> eager_blocks sw \<and> eager_blocks sw' = insert (c, n) (eager_blocks sw))"
  proof (cases "first c = nullptr")
    case True
    then show ?thesis using st P by (auto simp: eager_ok_def sw eager_blocks_def)
  next
    case False
    then obtain P' where P': "eager_inv (blocks w') s' P'" "alloc_result s s' sz c" using st by auto
    show ?thesis using alloc_blocks [OF P P'] st False P'(1) by (auto simp: eager_ok_def sw)
  qed
next
  fix sw c n assume "eager_ok ok blocks sw" "(c, n) \<in> eager_blocks sw"
  then show "eager_ok ok blocks (onRelease (RecurseAllocator A) c sw) \<and>
      eager_blocks (onRelease (RecurseAllocator A) c sw) = eager_blocks sw - {(c, n)}"
    using free_blocks [of _ "fst sw" _ c n "snd sw"] by (cases sw) (auto simp: eager_ok_def RecurseAllocator_def)
qed

end

section \<open>Groups\<close>

lemma group_begin: "eager_inv B s P \<Longrightarrow> eager_inv B (eager_beginGroup s) P"
  by (auto simp: eager_inv_def eager_beginGroup_def clients_def rooted_def core_def)

lemma group_end: "eager_inv B s P \<Longrightarrow> eager_inv B (eager_endGroup s) P"
  by (auto simp: eager_inv_def eager_endGroup_def clients_def rooted_def core_def)

lemma fold_concat: "fold (\<lambda>xs s. fold f xs s) xss s = fold f (concat xss) s"
  by (induction xss arbitrary: s) simp_all

text \<open>\<open>barrierEnd\<close> gives all that the groups hold back to the main list; it needs \<open>endGroup\<close> before it.\<close>

lemma barrier_end:
  assumes I: "eager_inv B s P" and e: "mCurrentFreeList s = None"
  shows "\<exists>P'. eager_inv B (eager_barrierEnd s) P' \<and> mUsedList (eager_barrierEnd s) = mUsedList s \<and>
    mGroups (eager_barrierEnd s) = [] \<and> mCurrentFreeList (eager_barrierEnd s) = None \<and> same_data (enodes s) (enodes (eager_barrierEnd s))"
proof -
  note C = eager_invD(1,2) [OF I]
  let ?ns = "concat (mGroups s)" and ?s1 = "fold (\<lambda>n s. returnMemory MainList n True s) (concat (mGroups s)) s"
  have b: "eager_barrierEnd s = ?s1\<lparr>mGroups := []\<rparr>" by (simp add: eager_barrierEnd_def fold_concat)
  have d: "distinct ?ns" "set ?ns \<subseteq> held P" "set ?ns \<inter> set (map snd (mUsedList s)) = {}"
    "held P - set ?ns = set (map snd (mUsedList s))"
    using client_nodes [OF C] by auto
  obtain P' where P': "core ?s1 P' {}" "held P' = held P - set ?ns" "quiet s P ?s1 P'"
    using return_all [OF C(1) d(1,2)] by blast
  note q = quiet_fields [OF P'(3)]
  have "mset (map snd (mUsedList s)) = mset_set (held P')"
    unfolding P'(2) d(4) using used_distinct [OF C] by (simp only: mset_set_set)
  moreover have "\<forall>(k, n)\<in>set (mUsedList s). key_in (enodes ?s1) k n"
    using used_facts(1,3) [OF C] key_same [OF q(7)] by fastforce
  ultimately have "clients (eager_barrierEnd s) (held P')" using e by (simp add: clients_def b q)
  moreover have "core (eager_barrierEnd s) P' {}"
    using P'(1) by (rule core_cong [THEN iffD1, rotated -1]) (simp_all add: b)
  moreover have "rooted B (eager_barrierEnd s) P'"
    using quiet_rooted [OF eager_invD(3) [OF I] C(1) P'(3)] by (simp add: rooted_def b)
  ultimately have "eager_inv B (eager_barrierEnd s) P'" using eager_invD(4,5) [OF I] by (simp add: eager_inv_def b q)
  then show ?thesis using e q by (auto simp: b)
qed

section \<open>Release\<close>

definition node_chunk :: "ENode list \<Rightarrow> nat \<Rightarrow> MemChunk" where
  "node_chunk ns r = chunk_of_pointer (fst (pointer (ns ! r))) (snd (pointer (ns ! r)))"

text \<open>Dropping free blocks that were not split.\<close>

lemma settled_sub: "settled ns P X \<Longrightarrow> active Q - leaves Q - Y \<subseteq> active P - leaves P - X \<Longrightarrow> settled ns Q Y"
  unfolding settled_def by blast

lemma core_drop:
  assumes "core s P {}" and "set rs \<subseteq> freed P" and "\<forall>r\<in>set rs. eparent (enode s r) = None" and "distinct rs"
  shows "core (s\<lparr>eFreeList := filter (\<lambda>n. n \<notin> set rs) (eFreeList s)\<rparr>)
    (P\<lparr>active := active P - set rs, freed := freed P - set rs\<rparr>) {}"
  using assms
proof (induction rs arbitrary: s P)
  case Nil
  then show ?case by simp
next
  case (Cons r rs)
  let ?s = "s\<lparr>eFreeList := filter (\<lambda>n. n \<noteq> r) (eFreeList s)\<rparr>" and ?P = "P\<lparr>active := active P - {r}, freed := freed P - {r}\<rparr>"
  note C = Cons.prems(1)
  have r: "r \<in> freed P" "eparent (enode s r) = None" using Cons.prems(2,3) by auto
  have "roots_disjoint (enodes s) (active P - {r})"
    by (rule roots_disjoint_mono [OF _ ecoreD(2) [OF C]]) (simp add: roots_drop)
  moreover have "settled (enodes s) ?P {}"
    by (rule settled_sub [OF ecoreD(3) [OF C]]) (use r(1) forestD(2) [OF ecoreD(1) [OF C]] in \<open>auto simp: leaves_def\<close>)
  ultimately have C1: "core ?s ?P {}" using forest_drop [OF ecoreD(1) [OF C] r] ecoreD(4,5) [OF C] by (auto simp: core_def)
  have "set rs \<subseteq> freed ?P" "\<forall>q\<in>set rs. eparent (enode ?s q) = None" "distinct rs" using Cons.prems(2-4) by auto
  from Cons.IH [OF C1 this]
  have "core (?s\<lparr>eFreeList := filter (\<lambda>n. n \<notin> set rs) (eFreeList ?s)\<rparr>)
     (?P\<lparr>active := active ?P - set rs, freed := freed ?P - set rs\<rparr>) {}" .
  moreover have "active P - {r} - set rs = active P - set (r # rs)" "freed P - {r} - set rs = freed P - set (r # rs)" by auto
  ultimately show ?case by (simp add: filter_filter conj_commute)
qed

lemma node_chunk_inj:
  assumes F: "forest ns P" and R: "roots_disjoint ns (active P)" and "r \<in> roots ns (active P)" and "q \<in> roots ns (active P)"
    and e: "node_chunk ns r = node_chunk ns q"
  shows "r = q"
proof (rule ccontr)
  assume "r \<noteq> q"
  then have "region ns r \<inter> region ns q = {}" "q \<in> active P" "r \<in> active P"
    using R assms(3,4) by (auto simp: roots_disjoint_def roots_def)
  then show False using e forestD(4) [OF F, of q] forestD(4) [OF F, of r] by (auto simp: node_chunk_def region_def)
qed

text \<open>The block of a part: every block is the block of one of its leaves.\<close>

lemma root_of_root:
  assumes F: "forest ns P"
  shows "i \<in> active P \<Longrightarrow> i < k \<Longrightarrow> root_of k ns i \<in> roots ns (active P)"
proof (induction k arbitrary: i)
  case (Suc k)
  show ?case
  proof (cases "eparent (ns ! i)")
    case None
    then show ?thesis using Suc.prems(1) by (simp add: roots_def)
  next
    case (Some p)
    have "p \<in> active P" "p < k" using forestD(5) [OF F Suc.prems(1) Some] Suc.prems(2) by auto
    then show ?thesis using Suc.IH Some by simp
  qed
qed simp

lemma root_of_above:
  assumes F: "forest ns P" and r: "r \<in> roots ns (active P)"
  shows "(r, i) \<in> ancestor ns (active P) \<Longrightarrow> i < k \<Longrightarrow> root_of k ns i = r"
proof (induction k arbitrary: i)
  case (Suc k)
  from Suc.prems(1) show ?case
    unfolding ancestor_def
  proof (cases rule: rtranclE)
    case base
    then show ?thesis using r by (simp add: roots_def)
  next
    case (step p)
    then have i: "i \<in> active P" "eparent (ns ! i) = Some p" by auto
    have "(r, p) \<in> ancestor ns (active P)" using step(1) by (simp add: ancestor_def)
    moreover have "p < k" using forestD(5) [OF F i] Suc.prems(2) by auto
    ultimately show ?thesis using Suc.IH i(2) by simp
  qed
qed simp

lemma leaf_below:
  assumes F: "forest ns P"
  shows "n \<in> active P \<Longrightarrow> \<exists>l\<in>leaves P. (n, l) \<in> ancestor ns (active P)"
proof (induction "length ns - n" arbitrary: n rule: less_induct)
  case less
  show ?case
  proof (cases "n \<in> leaves P")
    case True
    then show ?thesis by (auto simp: ancestor_def)
  next
    case False
    obtain a b where "kids ns (active P) n = {a, b}" using forestD(6) [OF F less.prems False] by blast
    then have a: "a \<in> active P" "eparent (ns ! a) = Some n" by (auto simp: kids_def)
    have "n < a" "a < length ns" using forestD(5) [OF F a] forestD(1) [OF F] a(1) by auto
    then obtain l where "l \<in> leaves P" "(a, l) \<in> ancestor ns (active P)" using less.hyps [OF diff_less_mono2 a(1)] by auto
    then show ?thesis using a unfolding ancestor_def by (auto intro: converse_rtrancl_into_rtrancl)
  qed
qed

lemma blocks_of_leaves:
  assumes F: "forest ns P"
  shows "root_of (length ns) ns ` leaves P = roots ns (active P)"
proof
  show "root_of (length ns) ns ` leaves P \<subseteq> roots ns (active P)"
    using root_of_root [OF F] forestD(1,3) [OF F] by fastforce
  show "roots ns (active P) \<subseteq> root_of (length ns) ns ` leaves P"
  proof
    fix r assume r: "r \<in> roots ns (active P)"
    then obtain l where l: "l \<in> leaves P" "(r, l) \<in> ancestor ns (active P)" using leaf_below [OF F, of r] by (auto simp: roots_def)
    then have "root_of (length ns) ns l = r" using root_of_above [OF F r l(2)] forestD(1,3) [OF F] by auto
    then show "r \<in> root_of (length ns) ns ` leaves P" using l(1) by auto
  qed
qed

text \<open>When nothing is held every block is whole again.\<close>

lemma all_free_roots:
  assumes C: "core s P {}" and h: "held P = {}"
  shows "active P = freed P" and "freed P = roots (enodes s) (active P)"
proof -
  note F = ecoreD(1) [OF C]
  have lf: "leaves P = freed P" using h by (simp add: leaves_def)
  have "n \<in> freed P" if "n \<in> active P" for n
    using that
  proof (induction "length (enodes s) - n" arbitrary: n rule: less_induct)
    case less
    show ?case
    proof (rule ccontr)
      assume n: "n \<notin> freed P"
      then have "useCount (enode s n) \<noteq> 0" using ecoreD(3) [OF C] less.prems lf by (auto simp: settled_def)
      then have "kids (enodes s) (active P) n - freed P \<noteq> {}" unfolding forestD(7) [OF F less.prems] by force
      then obtain a where "a \<in> kids (enodes s) (active P) n" "a \<notin> freed P" by blast
      then have a: "a \<in> active P" "eparent (enode s a) = Some n" "a \<notin> freed P" by (auto simp: kids_def)
      have "n < a" "a < length (enodes s)" using forestD(5) [OF F a(1,2)] ecoreD(6) [OF C] a(1) by auto
      then show False using less.hyps [OF diff_less_mono2 a(1)] a(3) by auto
    qed
  qed
  then show act: "active P = freed P" using forestD(3) [OF F] lf by auto
  then show "freed P = roots (enodes s) (active P)"
  proof (intro equalityI subsetI)
    fix n assume n: "n \<in> freed P"
    have "eparent (enode s n) \<noteq> Some p" for p using forestD(5) [OF F, of n p] n lf unfolding act by blast
    then have "eparent (enode s n) = None" by blast
    then show "n \<in> roots (enodes s) (active P)" using n act by (simp add: roots_def)
  qed (simp add: roots_def act)
qed

context memory_source
begin

text \<open>Giving blocks back takes exactly their chunks from the parent's.\<close>

lemma destroy_blocks:
  assumes "ok w" and F: "forest (enodes s) P" and R: "roots_disjoint (enodes s) (active P)"
    and "distinct rs" and "set rs \<subseteq> roots (enodes s) (active P)"
    and "\<forall>r\<in>set rs. \<exists>n\<ge>size_of s r. (node_chunk (enodes s) r, n) \<in> blocks w"
  shows "ok (destroy A (enodes s) rs w) \<and>
    blocks (destroy A (enodes s) rs w) = {b \<in> blocks w. fst b \<notin> node_chunk (enodes s) ` set rs}"
  using assms(1,4-6)
proof (induction rs arbitrary: w)
  case Nil
  then show ?case by (auto simp: destroy_def)
next
  case (Cons r rs)
  let ?ns = "enodes s"
  let ?w = "onRelease A (node_chunk ?ns r) w"
  obtain n where n: "size_of s r \<le> n" "(node_chunk ?ns r, n) \<in> blocks w" using Cons.prems(4) by auto
  have only: "m = n" if "(node_chunk ?ns r, m) \<in> blocks w" for m
  proof (rule ccontr)
    assume "m \<noteq> n"
    then have "span (node_chunk ?ns r) m \<inter> span (node_chunk ?ns r) n = {}" using apart [OF Cons.prems(1) that n(2)] by simp
    moreover have "0 < m" "0 < n" using block [OF Cons.prems(1) that] block [OF Cons.prems(1) n(2)] by simp_all
    ultimately show False by (auto simp: span_def)
  qed
  have w: "ok ?w" "blocks ?w = blocks w - {(node_chunk ?ns r, n)}" using release [OF Cons.prems(1) n(2)] by simp_all
  have ne: "node_chunk ?ns q \<noteq> node_chunk ?ns r" if "q \<in> set rs" for q
    using node_chunk_inj [OF F R, of q r] Cons.prems(2,3) that by auto
  have "\<forall>q\<in>set rs. \<exists>n\<ge>size_of s q. (node_chunk ?ns q, n) \<in> blocks ?w"
  proof
    fix q assume q: "q \<in> set rs"
    then obtain m where "size_of s q \<le> m" "(node_chunk ?ns q, m) \<in> blocks w" using Cons.prems(4) by auto
    then show "\<exists>n\<ge>size_of s q. (node_chunk ?ns q, n) \<in> blocks ?w" using ne [OF q] w(2) by auto
  qed
  moreover have "distinct rs" "set rs \<subseteq> roots ?ns (active P)" using Cons.prems(2,3) by auto
  ultimately have "ok (destroy A ?ns rs ?w) \<and> blocks (destroy A ?ns rs ?w) = {b \<in> blocks ?w. fst b \<notin> node_chunk ?ns ` set rs}"
    using Cons.IH [OF w(1)] by blast
  moreover have "destroy A ?ns (r # rs) w = destroy A ?ns rs ?w" by (simp add: destroy_def node_chunk_def)
  moreover have "b \<in> blocks ?w \<longleftrightarrow> b \<in> blocks w \<and> fst b \<noteq> node_chunk ?ns r" for b
    using only [of "snd b"] by (cases b) (auto simp: w(2))
  then have "{b \<in> blocks ?w. fst b \<notin> node_chunk ?ns ` set rs} = {b \<in> blocks w. fst b \<notin> node_chunk ?ns ` set (r # rs)}"
    by auto
  ultimately show ?case by simp
qed

lemma rooted_chunks: "rooted B s P \<Longrightarrow> rs \<subseteq> roots (enodes s) (active P) \<Longrightarrow>
    \<forall>r\<in>rs. \<exists>n\<ge>size_of s r. (node_chunk (enodes s) r, n) \<in> B"
  unfolding rooted_def node_chunk_def by blast

text \<open>\<open>release(false)\<close>: the blocks that are free as a whole.\<close>

lemma release_free_step:
  assumes w: "ok w" and I: "eager_inv (blocks w) s P" and r: "eager_release A False s w = (s', w')"
  defines "R \<equiv> {r \<in> freed P. eparent (enode s r) = None}"
  shows "ok w' \<and> blocks w' = {b \<in> blocks w. fst b \<notin> node_chunk (enodes s) ` R} \<and>
    eager_inv (blocks w') s' (P\<lparr>active := active P - R, freed := freed P - R\<rparr>) \<and>
    mUsedList s' = mUsedList s \<and> mGroups s' = mGroups s \<and> enodes s' = enodes s"
proof -
  let ?P = "P\<lparr>active := active P - R, freed := freed P - R\<rparr>"
  let ?rs = "filter (\<lambda>n. eparent (enode s n) = None) (eFreeList s)"
  note C = eager_invD(1,2) [OF I] and F = ecoreD(1) [OF eager_invD(1) [OF I]]
  have rs: "set ?rs = R" "distinct ?rs" using ecoreD(4,5) [OF C(1)] by (auto simp: R_def)
  have sub: "R \<subseteq> roots (enodes s) (active P)" using forestD(3) [OF F] by (auto simp: R_def roots_def leaves_def)
  have fe: "filter (\<lambda>n. eparent (enode s n) \<noteq> None) (eFreeList s) = filter (\<lambda>n. n \<notin> set ?rs) (eFreeList s)"
    by (rule filter_cong) auto
  have s': "s' = s\<lparr>eFreeList := filter (\<lambda>n. n \<notin> set ?rs) (eFreeList s), eTotalSize := eTotalSize s - sum_list (map (size_of s) ?rs)\<rparr>"
    and w': "w' = destroy A (enodes s) ?rs w"
    using r unfolding eager_release_def Let_def fe if_False prod.inject by blast+
  have D: "ok w' \<and> blocks w' = {b \<in> blocks w. fst b \<notin> node_chunk (enodes s) ` set ?rs}"
    unfolding w' by (rule destroy_blocks [OF w F ecoreD(2) [OF C(1)] rs(2)])
      (use sub rs(1) rooted_chunks [OF eager_invD(3) [OF I] sub] in auto)
  note D = D [unfolded rs(1)]
  have "core (s\<lparr>eFreeList := filter (\<lambda>n. n \<notin> set ?rs) (eFreeList s)\<rparr>) (P\<lparr>active := active P - set ?rs, freed := freed P - set ?rs\<rparr>) {}"
    by (rule core_drop [OF C(1) _ _ rs(2)]) (use rs(1) in \<open>auto simp: R_def\<close>)
  then have C': "core (s\<lparr>eFreeList := filter (\<lambda>n. n \<notin> R) (eFreeList s)\<rparr>) ?P {}" unfolding rs(1) .
  note s' = s' [unfolded rs(1)]
  have "core s' ?P {}" using C' by (rule core_cong [THEN iffD1, rotated -1]) (simp_all add: s')
  moreover have "clients s' (held ?P)" using C(2) by (simp add: clients_def s')
  moreover have "rooted (blocks w') s' ?P"
    unfolding rooted_def
  proof (intro conjI ballI)
    have rt: "roots (enodes s') (active ?P) = roots (enodes s) (active P) - R" by (auto simp: s' roots_def)
    fix q assume "q \<in> roots (enodes s') (active ?P)"
    then have q: "q \<in> roots (enodes s) (active P)" "q \<notin> R" using rt by auto
    then have "node_chunk (enodes s) q \<notin> node_chunk (enodes s) ` R"
      using node_chunk_inj [OF F ecoreD(2) [OF C(1)]] sub by blast
    then show "\<exists>n\<ge>size_of s' q. (chunk_of_pointer (fst (pointer (enode s' q))) (snd (pointer (enode s' q))), n) \<in> blocks w'"
      using eager_invD(3) [OF I] q(1) D unfolding rooted_def by (auto simp: s' node_chunk_def)
  next
    have "finite R" using rs(1) by (metis List.finite_set)
    then have "sum (size_of s) (roots (enodes s) (active P) - R) = eTotalSize s - sum (size_of s) R"
      using eager_invD(3) [OF I] sub by (simp add: rooted_def sum_diff_nat)
    moreover have "sum_list (map (size_of s) ?rs) = sum (size_of s) R"
      using sum.distinct_set_conv_list [OF rs(2), of "size_of s"] rs(1) by simp
    moreover have "roots (enodes s') (active ?P) = roots (enodes s) (active P) - R" by (auto simp: s' roots_def)
    ultimately show "eTotalSize s' = sum (size_of s') (roots (enodes s') (active ?P))" by (simp add: s')
  qed
  ultimately show ?thesis using D eager_invD(4,5) [OF I] by (simp add: eager_inv_def s')
qed

text \<open>\<open>release(true)\<close>: every block, whatever is still in use.\<close>

lemma release_all_step:
  assumes w: "ok w" and I: "eager_inv (blocks w) s P" and g: "mGroups s = []" and r: "eager_release A True s w = (s', w')"
  shows "ok w' \<and> blocks w' = {b \<in> blocks w. fst b \<notin> node_chunk (enodes s) ` roots (enodes s) (active P)} \<and>
    eager_inv (blocks w') s' \<lparr>active = {}, held = {}, freed = {}\<rparr> \<and> mUsedList s' = [] \<and> eFreeList s' = [] \<and> eTotalSize s' = 0"
proof -
  note C = eager_invD(1,2) [OF I] and F = ecoreD(1) [OF eager_invD(1) [OF I]]
  let ?rs = "remdups (map (root_of (length (enodes s)) (enodes s)) (map snd (mUsedList s) @ eFreeList s))"
  have "set (map snd (mUsedList s)) = held P" using client_nodes(2) [OF C] g by simp
  then have "set (map snd (mUsedList s) @ eFreeList s) = leaves P" using ecoreD(5) [OF C(1)] by (simp add: leaves_def)
  then have rs: "set ?rs = roots (enodes s) (active P)"
    using blocks_of_leaves [OF F] by (simp only: set_remdups set_map)
  have s': "s' = s\<lparr>mUsedList := [], eFreeList := [], eTotalSize := 0\<rparr>" and w': "w' = destroy A (enodes s) ?rs w"
    using r g by (auto simp: eager_release_def Let_def)
  have D: "ok w' \<and> blocks w' = {b \<in> blocks w. fst b \<notin> node_chunk (enodes s) ` set ?rs}"
    unfolding w' by (rule destroy_blocks [OF w F ecoreD(2) [OF C(1)]])
      (use rs rooted_chunks [OF eager_invD(3) [OF I] subset_refl] in auto)
  have "forest (enodes s') \<lparr>active = {}, held = {}, freed = {}\<rparr>"
    by (simp add: forest_def partition_ok_def counts_ok_def leaves_def)
  then have "core s' \<lparr>active = {}, held = {}, freed = {}\<rparr> {}"
    by (simp add: core_def settled_def roots_disjoint_def roots_def s')
  moreover have "clients s' {}" using C(2) g by (simp add: clients_def s')
  moreover have "rooted (blocks w') s' \<lparr>active = {}, held = {}, freed = {}\<rparr>" by (simp add: rooted_def roots_def s')
  ultimately show ?thesis using D rs eager_invD(4,5) [OF I] by (simp add: eager_inv_def s')
qed

end

end
