(* ===== verification/Memory_Align.thy ===== *)
theory Memory_Align
  imports Memory_Source "HOL-Library.Word"
begin

unbundle bit_operations_syntax

text \<open>
  source/core/MNNMemoryUtils.cpp on 64-bit words: a block of \<open>malloc\<close> is made a block whose address
  is a multiple of the alignment, with the address \<open>malloc\<close> returned kept in the word before it.
  \<open>DefaultAllocator\<close> of source/core/BufferAllocator.cpp is built on it. \<open>malloc\<close> and \<open>free\<close> are a
  parameter, \<open>malloc_contract\<close> states what the C library promises of them.
\<close>

section \<open>The code\<close>

record 'm Libc =
  malloc :: "64 word \<Rightarrow> 'm \<Rightarrow> 64 word \<times> 'm"
  cfree :: "64 word \<Rightarrow> 'm \<Rightarrow> 'm"

text \<open>The memory is the C library's state and what \<open>aligned[-1]\<close> cells hold.\<close>

type_synonym 'm memory = "'m \<times> (64 word \<Rightarrow> 64 word)"

definition alignPointer :: "64 word \<Rightarrow> 64 word \<Rightarrow> 64 word" where
  "alignPointer p alignment = (p + alignment - 1) AND (- alignment)"

definition MNNMemoryAllocAlign :: "'m Libc \<Rightarrow> 64 word \<Rightarrow> 64 word \<Rightarrow> 'm memory \<Rightarrow> 64 word \<times> 'm memory" where
  "MNNMemoryAllocAlign L sz alignment h =
     (let (origin, m) = malloc L (sz + 8 + alignment) (fst h)
      in if origin = 0 then (0, (m, snd h))
         else let aligned = alignPointer (origin + 8) alignment
              in (aligned, (m, (snd h)(aligned - 8 := origin))))"

definition MNNMemoryFreeAlign :: "'m Libc \<Rightarrow> 64 word \<Rightarrow> 'm memory \<Rightarrow> 'm memory" where
  "MNNMemoryFreeAlign L aligned h = (if aligned \<noteq> 0 then (cfree L (snd h (aligned - 8)) (fst h), snd h) else h)"

definition DefaultAllocator :: "'m Libc \<Rightarrow> 'm memory Allocator" where
  "DefaultAllocator L = \<lparr>onAlloc = (\<lambda>sz align h. let (p, h') = MNNMemoryAllocAlign L (word_of_nat sz) 64 h
       in (chunk_of_pointer (unat p) 0, h')),
     onRelease = (\<lambda>c h. MNNMemoryFreeAlign L (word_of_nat (first c)) h)\<rparr>"

section \<open>Alignment\<close>

lemma and_not_mask_nat: "unat (x AND NOT (mask k) :: 64 word) = unat x div 2 ^ k * 2 ^ k"
proof -
  have "unat (x AND NOT (mask k)) = push_bit k (drop_bit k (unat x))"
    by (rule bit_eqI) (auto simp: bit_unsigned_iff bit_and_iff bit_not_iff bit_mask_iff bit_push_bit_iff bit_drop_bit_eq dest: bit_imp_le_length)
  then show ?thesis by (simp add: push_bit_eq_mult drop_bit_eq_div)
qed

lemma alignPointer_nat:
  assumes "k < 64" and "unat p + 2 ^ k \<le> 2 ^ 64"
  shows "unat (alignPointer p (2 ^ k)) = (unat p + 2 ^ k - 1) div 2 ^ k * 2 ^ k"
proof -
  have "unat (word_of_nat (2 ^ k) :: 64 word) = 2 ^ k" by (subst unsigned_of_nat) (use assms(1) in \<open>simp add: take_bit_nat_eq_self\<close>)
  then have u: "unat (2 ^ k :: 64 word) = 2 ^ k" by simp
  define x :: "64 word" where "x = 2 ^ k - 1"
  have x: "unat x = 2 ^ k - 1"
    unfolding x_def
  proof (subst unat_minus_one)
    show "(2 :: 64 word) ^ k \<noteq> 0" using u by (metis power_not_zero unat_0 zero_neq_numeral)
  qed (simp add: u)
  have "unat p + unat x < 2 ^ LENGTH(64)" unfolding x using assms(2) by simp
  then have "unat (p + x) = unat p + unat x" by (simp only: unat_add_lem)
  moreover have "p + x = p + 2 ^ k - 1" by (simp add: x_def)
  ultimately have "unat (p + 2 ^ k - 1) = unat p + 2 ^ k - 1" unfolding x by simp
  then show ?thesis by (simp add: alignPointer_def minus_exp_eq_not_mask and_not_mask_nat)
qed

section \<open>The C library's promise\<close>

text \<open>
  \<open>live m\<close> are the blocks of \<open>malloc\<close> not yet freed. A block does not wrap around the address space,
  is apart from the other ones and is not at address 0; \<open>free\<close> takes the block of that address away.
\<close>

definition bytes :: "64 word \<Rightarrow> 64 word \<Rightarrow> nat set" where
  "bytes p n = {unat p..<unat p + unat n}"

definition malloc_contract :: "'m Libc \<Rightarrow> ('m \<Rightarrow> bool) \<Rightarrow> ('m \<Rightarrow> (64 word \<times> 64 word) set) \<Rightarrow> bool" where
  "malloc_contract L valid live \<longleftrightarrow>
     (\<forall>m p n. valid m \<longrightarrow> (p, n) \<in> live m \<longrightarrow> p \<noteq> 0 \<and> unat p + unat n < 2 ^ 64) \<and>
     (\<forall>m p n q k. valid m \<longrightarrow> (p, n) \<in> live m \<longrightarrow> (q, k) \<in> live m \<longrightarrow> (p, n) \<noteq> (q, k) \<longrightarrow> bytes p n \<inter> bytes q k = {}) \<and>
     (\<forall>m n p m'. valid m \<longrightarrow> malloc L n m = (p, m') \<longrightarrow> valid m' \<and>
        (if p = 0 then live m' = live m else (p, n) \<notin> live m \<and> live m' = insert (p, n) (live m))) \<and>
     (\<forall>m p n. valid m \<longrightarrow> (p, n) \<in> live m \<longrightarrow> valid (cfree L p m) \<and> live (cfree L p m) = live m - {(p, n)})"

lemma malloc_contractD:
  assumes "malloc_contract L valid live" and "valid m"
  shows "(p, n) \<in> live m \<Longrightarrow> p \<noteq> 0 \<and> unat p + unat n < 2 ^ 64"
    "(p, n) \<in> live m \<Longrightarrow> (q, k) \<in> live m \<Longrightarrow> (p, n) \<noteq> (q, k) \<Longrightarrow> bytes p n \<inter> bytes q k = {}"
    "malloc L n m = (p, m') \<Longrightarrow> valid m' \<and>
        (if p = 0 then live m' = live m else (p, n) \<notin> live m \<and> live m' = insert (p, n) (live m))"
    "(p, n) \<in> live m \<Longrightarrow> valid (cfree L p m) \<and> live (cfree L p m) = live m - {(p, n)}"
proof -
  note c = assms(1) [unfolded malloc_contract_def]
  show "(p, n) \<in> live m \<Longrightarrow> p \<noteq> 0 \<and> unat p + unat n < 2 ^ 64" using conjunct1 [OF c] assms(2) by blast
  show "(p, n) \<in> live m \<Longrightarrow> (q, k) \<in> live m \<Longrightarrow> (p, n) \<noteq> (q, k) \<Longrightarrow> bytes p n \<inter> bytes q k = {}"
    using conjunct1 [OF conjunct2 [OF c]] assms(2) by blast
  show "malloc L n m = (p, m') \<Longrightarrow> valid m' \<and>
        (if p = 0 then live m' = live m else (p, n) \<notin> live m \<and> live m' = insert (p, n) (live m))"
    using conjunct1 [OF conjunct2 [OF conjunct2 [OF c]]] assms(2) by blast
  show "(p, n) \<in> live m \<Longrightarrow> valid (cfree L p m) \<and> live (cfree L p m) = live m - {(p, n)}"
    using conjunct2 [OF conjunct2 [OF conjunct2 [OF c]]] assms(2) by blast
qed

text \<open>The state of \<open>DefaultAllocator\<close>: every block has its header, which only this block's header cell holds.\<close>

definition header_of :: "64 word \<Rightarrow> 64 word" where
  "header_of p = alignPointer (p + 8) 64 - 8"

definition aligned_ok :: "('m \<Rightarrow> bool) \<Rightarrow> ('m \<Rightarrow> (64 word \<times> 64 word) set) \<Rightarrow> 'm memory \<Rightarrow> bool" where
  "aligned_ok valid live h \<longleftrightarrow> valid (fst h) \<and>
     (\<forall>(p, n)\<in>live (fst h). 72 < unat n \<and> snd h (header_of p) = p)"

definition aligned_blocks :: "('m \<Rightarrow> (64 word \<times> 64 word) set) \<Rightarrow> 'm memory \<Rightarrow> (MemChunk \<times> nat) set" where
  "aligned_blocks live h = (\<lambda>(p, n). (chunk_of_pointer (unat (alignPointer (p + 8) 64)) 0,
     unat p + unat n - unat (alignPointer (p + 8) 64))) ` live (fst h)"

text \<open>Where the aligned block lies in the block of \<open>malloc\<close>.\<close>

lemma aligned_place:
  assumes "unat p + unat n < 2 ^ 64" and "72 \<le> unat n"
  defines "a \<equiv> unat (alignPointer (p + 8) 64)"
  shows "unat p + 8 \<le> a" and "a < unat p + 72" and "64 dvd a"
proof -
  have u8: "unat (p + 8) = unat p + 8" using assms(1,2) by (simp add: unat_word_ariths)
  then have "a = (unat p + 8 + 63) div 64 * 64"
    using alignPointer_nat [of 6 "p + 8"] assms(1,2) by (simp add: a_def)
  then show "unat p + 8 \<le> a" "a < unat p + 72" "64 dvd a" by simp_all
qed

section \<open>The default allocator is a source of memory\<close>

lemma image_remove: "(\<And>y. y \<in> A \<Longrightarrow> y \<noteq> x \<Longrightarrow> f y \<noteq> f x) \<Longrightarrow> f ` (A - {x}) = f ` A - {f x}"
  by auto

locale c_heap =
  fixes L :: "'m Libc" and valid :: "'m \<Rightarrow> bool" and live :: "'m \<Rightarrow> (64 word \<times> 64 word) set"
  assumes contract: "malloc_contract L valid live"
begin

lemma place:
  assumes "aligned_ok valid live h" and "(p, n) \<in> live (fst h)"
  shows "p \<noteq> 0" "72 < unat n" "unat p + unat n < 2 ^ 64" "snd h (header_of p) = p"
    "unat p + 8 \<le> unat (alignPointer (p + 8) 64)" "unat (alignPointer (p + 8) 64) < unat p + 72"
    "unat (header_of p) \<in> bytes p n" "unat (alignPointer (p + 8) 64) \<in> bytes p n"
proof -
  have v: "valid (fst h)" and n: "72 < unat n" and c: "snd h (header_of p) = p" using assms by (auto simp: aligned_ok_def)
  note b = malloc_contractD(1) [OF contract v assms(2)]
  then show "p \<noteq> 0" "72 < unat n" "unat p + unat n < 2 ^ 64" "snd h (header_of p) = p" using n c by auto
  note a = aligned_place [of p n, OF conjunct2 [OF b]]
  show l: "unat p + 8 \<le> unat (alignPointer (p + 8) 64)" "unat (alignPointer (p + 8) 64) < unat p + 72" using a n by simp_all
  then show "unat (alignPointer (p + 8) 64) \<in> bytes p n" using n by (simp add: bytes_def)
  have "unat (8 :: 64 word) = 8" by simp
  then have "unat (header_of p) = unat (alignPointer (p + 8) 64) - 8"
    unfolding header_of_def using l(1) by (subst unat_sub) (simp_all add: word_le_nat_alt)
  then show "unat (header_of p) \<in> bytes p n" using l n by (auto simp: bytes_def)
qed

lemma addresses_differ:
  assumes "aligned_ok valid live h" and "(p, n) \<in> live (fst h)" and "(q, k) \<in> live (fst h)" and "(p, n) \<noteq> (q, k)"
  shows "header_of p \<noteq> header_of q" and "unat (alignPointer (p + 8) 64) \<noteq> unat (alignPointer (q + 8) 64)"
proof -
  have "valid (fst h)" using assms(1) by (simp add: aligned_ok_def)
  then have "bytes p n \<inter> bytes q k = {}" using malloc_contractD(2) [OF contract] assms(2-4) by blast
  then show "header_of p \<noteq> header_of q" "unat (alignPointer (p + 8) 64) \<noteq> unat (alignPointer (q + 8) 64)"
    using place(7,8) [OF assms(1,2)] place(7,8) [OF assms(1,3)] by auto
qed

lemma default_alloc_step:
  assumes ok: "aligned_ok valid live h" and sz: "0 < sz" "sz < 2 ^ 63" and al: "onAlloc (DefaultAllocator L) sz align h = (c, h')"
  shows "aligned_ok valid live h' \<and> (if first c = nullptr then aligned_blocks live h' = aligned_blocks live h
    else \<exists>n\<ge>sz. (c, n) \<notin> aligned_blocks live h \<and> aligned_blocks live h' = insert (c, n) (aligned_blocks live h))"
proof -
  define n :: "64 word" where "n = word_of_nat sz + 8 + 64"
  obtain p m where m: "malloc L n (fst h) = (p, m)" by fastforce
  have v: "valid (fst h)" using ok by (simp add: aligned_ok_def)
  note st = malloc_contractD(3) [OF contract v m]
  have un: "unat n = sz + 72"
  proof -
    have "unat (word_of_nat sz :: 64 word) = sz" using sz by (simp add: unsigned_of_nat take_bit_nat_eq_self)
    then show ?thesis using sz by (simp add: n_def unat_word_ariths)
  qed
  show ?thesis
  proof (cases "p = 0")
    case True
    then have "c = chunk_of_pointer 0 0" "h' = (m, snd h)"
      using al m [unfolded n_def] by (auto simp: DefaultAllocator_def MNNMemoryAllocAlign_def)
    then show ?thesis using st True ok by (auto simp: aligned_ok_def aligned_blocks_def chunk_of_pointer_def)
  next
    case False
    let ?a = "alignPointer (p + 8) 64"
    have c: "c = chunk_of_pointer (unat ?a) 0" and h': "h' = (m, (snd h)(header_of p := p))"
      using al m [unfolded n_def] False by (auto simp: DefaultAllocator_def MNNMemoryAllocAlign_def header_of_def Let_def)
    have lv: "(p, n) \<notin> live (fst h)" "live m = insert (p, n) (live (fst h))" "valid m" using st False by auto
    have pn: "unat p + unat n < 2 ^ 64" using malloc_contractD(1) [OF contract lv(3), of p n] lv(2) by simp
    note a = aligned_place [OF pn, unfolded un]
    have hp: "unat (header_of p) \<in> bytes p n"
    proof -
      have "unat (8 :: 64 word) = 8" by simp
      then have "unat (header_of p) = unat ?a - 8"
        unfolding header_of_def using a(1) by (subst unat_sub) (simp_all add: word_le_nat_alt)
      then show ?thesis using a un by (auto simp: bytes_def)
    qed
    have apart: "header_of q \<noteq> header_of p" "unat (alignPointer (q + 8) 64) \<noteq> unat ?a" if q: "(q, k) \<in> live (fst h)" for q k
    proof -
      have "bytes q k \<inter> bytes p n = {}" using malloc_contractD(2) [OF contract lv(3), of q k p n] lv(1,2) q by auto
      then show "header_of q \<noteq> header_of p" "unat (alignPointer (q + 8) 64) \<noteq> unat ?a"
        using place(7,8) [OF ok q] hp a un by (auto simp: bytes_def)
    qed
    have "aligned_ok valid live h'" using ok lv(2,3) un sz apart(1) by (auto simp: aligned_ok_def h')
    moreover have "aligned_blocks live h' = insert (c, unat p + unat n - unat ?a) (aligned_blocks live h)"
      by (simp add: aligned_blocks_def h' lv(2) c)
    moreover have "(c, unat p + unat n - unat ?a) \<notin> aligned_blocks live h"
      using apart(2) by (auto simp: aligned_blocks_def c chunk_of_pointer_def) blast
    moreover have "sz \<le> unat p + unat n - unat ?a" "0 < unat ?a" using a un by simp_all
    ultimately show ?thesis by (auto simp: c chunk_of_pointer_def)
  qed
qed

lemma default_memory_source: "memory_source (DefaultAllocator L) (aligned_ok valid live) (aligned_blocks live)"
proof
  fix h c n assume ok: "aligned_ok valid live h" and "(c, n) \<in> aligned_blocks live h"
  then obtain p k where "(p, k) \<in> live (fst h)" "c = chunk_of_pointer (unat (alignPointer (p + 8) 64)) 0"
      "n = unat p + unat k - unat (alignPointer (p + 8) 64)" by (auto simp: aligned_blocks_def)
  then show "first c \<noteq> nullptr \<and> mNode c = None \<and> 0 < n" using place [OF ok, of p k] by (simp add: chunk_of_pointer_def)
next
  fix h c n d m
  assume ok: "aligned_ok valid live h" and "(c, n) \<in> aligned_blocks live h" "(d, m) \<in> aligned_blocks live h" and ne: "(c, n) \<noteq> (d, m)"
  then obtain p k q l where p: "(p, k) \<in> live (fst h)" "c = chunk_of_pointer (unat (alignPointer (p + 8) 64)) 0"
      "n = unat p + unat k - unat (alignPointer (p + 8) 64)"
    and q: "(q, l) \<in> live (fst h)" "d = chunk_of_pointer (unat (alignPointer (q + 8) 64)) 0"
      "m = unat q + unat l - unat (alignPointer (q + 8) 64)" by (auto simp: aligned_blocks_def)
  have "valid (fst h)" using ok by (simp add: aligned_ok_def)
  moreover have "(p, k) \<noteq> (q, l)" using ne p(2,3) q(2,3) by auto
  ultimately have "bytes p k \<inter> bytes q l = {}" using malloc_contractD(2) [OF contract] p(1) q(1) by blast
  moreover have "span c n \<subseteq> bytes p k" "span d m \<subseteq> bytes q l"
    using place(5) [OF ok p(1)] place(5) [OF ok q(1)] by (auto simp: span_def bytes_def p(2,3) q(2,3) chunk_of_pointer_def)
  ultimately show "span c n \<inter> span d m = {}" by blast
next
  fix h sz align c h'
  assume "aligned_ok valid live h" "0 < sz" "sz < 2 ^ 63" "onAlloc (DefaultAllocator L) sz align h = (c, h')"
  then show "aligned_ok valid live h' \<and> (if first c = nullptr then aligned_blocks live h' = aligned_blocks live h
      else \<exists>n\<ge>sz. (c, n) \<notin> aligned_blocks live h \<and> aligned_blocks live h' = insert (c, n) (aligned_blocks live h))"
    by (rule default_alloc_step)
next
  fix h c n assume ok: "aligned_ok valid live h" and "(c, n) \<in> aligned_blocks live h"
  then obtain p k where p: "(p, k) \<in> live (fst h)" "c = chunk_of_pointer (unat (alignPointer (p + 8) 64)) 0"
      "n = unat p + unat k - unat (alignPointer (p + 8) 64)" by (auto simp: aligned_blocks_def)
  have v: "valid (fst h)" using ok by (simp add: aligned_ok_def)
  let ?a = "alignPointer (p + 8) 64"
  have "?a \<noteq> 0" using place(5) [OF ok p(1)] by auto
  moreover have "snd h (?a - 8) = p" using place(4) [OF ok p(1)] by (simp add: header_of_def)
  ultimately have r: "onRelease (DefaultAllocator L) c h = (cfree L p (fst h), snd h)"
    by (simp add: DefaultAllocator_def MNNMemoryFreeAlign_def p(2) chunk_of_pointer_def)
  note f = malloc_contractD(4) [OF contract v p(1)]
  have "aligned_ok valid live (onRelease (DefaultAllocator L) c h)" using ok f by (auto simp: aligned_ok_def r)
  moreover have "aligned_blocks live (onRelease (DefaultAllocator L) c h) = aligned_blocks live h - {(c, n)}"
  proof -
    let ?f = "\<lambda>(p, n). (chunk_of_pointer (unat (alignPointer (p + 8) 64)) 0, unat p + unat n - unat (alignPointer (p + 8) 64))"
    have "?f ` (live (fst h) - {(p, k)}) = ?f ` live (fst h) - {?f (p, k)}"
      by (rule image_remove) (use addresses_differ(2) [OF ok _ p(1)] in \<open>auto simp: chunk_of_pointer_def\<close>)
    then show ?thesis unfolding aligned_blocks_def r fst_conv conjunct2 [OF f] by (simp add: p(2,3))
  qed
  ultimately show "aligned_ok valid live (onRelease (DefaultAllocator L) c h) \<and>
      aligned_blocks live (onRelease (DefaultAllocator L) c h) = aligned_blocks live h - {(c, n)}" by simp
qed

end

end
