(* ===== verification/Eager_Runs.thy ===== *)
theory Eager_Runs
  imports Eager_Source Memory_Align
begin

text \<open>
  Runs of an eager allocator: the operations as a step function, the states that runs reach from a
  new allocator, and what holds in all of them. A small instance of the C library (\<open>bump_libc\<close>)
  serves the witnesses of \<open>Eager_Props\<close>.
\<close>

section \<open>Runs\<close>

datatype EagerOp =
    EAlloc nat bool nat
  | EFree MemChunk
  | EBarrierBegin
  | EBarrierEnd
  | EBeginGroup
  | EEndGroup
  | ERelease bool

primrec eager_step :: "'w Allocator \<Rightarrow> EagerOp \<Rightarrow> Eager \<times> 'w \<Rightarrow> Eager \<times> 'w" where
  "eager_step A (EAlloc sz separate align) sw = snd (eager_alloc A sz separate align (fst sw) (snd sw))"
| "eager_step A (EFree c) sw = (snd (eager_free c (fst sw)), snd sw)"
| "eager_step A EBarrierBegin sw = (eager_barrierBegin (fst sw), snd sw)"
| "eager_step A EBarrierEnd sw = (eager_barrierEnd (fst sw), snd sw)"
| "eager_step A EBeginGroup sw = (eager_beginGroup (fst sw), snd sw)"
| "eager_step A EEndGroup sw = (eager_endGroup (fst sw), snd sw)"
| "eager_step A (ERelease allRelease) sw = eager_release A allRelease (fst sw) (snd sw)"

text \<open>
  What the code asks of its callers: sizes that are sizes of something, \<open>endGroup\<close> before \<open>barrierEnd\<close> (the
  pointer to the group's list would dangle), \<open>MNN_ASSERT(mGroups.empty())\<close> in \<open>release\<close>.
\<close>

primrec allowed :: "EagerOp \<Rightarrow> Eager \<Rightarrow> bool" where
  "allowed (EAlloc sz separate align) s \<longleftrightarrow> 0 < sz \<and> sz < 2 ^ 63"
| "allowed (EFree c) s \<longleftrightarrow> True"
| "allowed EBarrierBegin s \<longleftrightarrow> True"
| "allowed EBarrierEnd s \<longleftrightarrow> mCurrentFreeList s = None"
| "allowed EBeginGroup s \<longleftrightarrow> True"
| "allowed EEndGroup s \<longleftrightarrow> True"
| "allowed (ERelease allRelease) s \<longleftrightarrow> mGroups s = []"

inductive eager_reach :: "'w Allocator \<Rightarrow> Eager \<times> 'w \<Rightarrow> Eager \<times> 'w \<Rightarrow> bool" for A sw0 where
  start: "eager_reach A sw0 sw0"
| step: "eager_reach A sw0 sw \<Longrightarrow> allowed op (fst sw) \<Longrightarrow> eager_reach A sw0 (eager_step A op sw)"

lemma free_unknown: "map_of (mUsedList s) (first c, second c) = None \<Longrightarrow> eager_free c s = (False, s)"
  by (simp add: eager_free_def)

lemma new_inv: "0 < align \<Longrightarrow> eager_inv B (new_Eager align 0) \<lparr>active = {}, held = {}, freed = {}\<rparr>"
  by (simp add: eager_inv_def new_Eager_def core_def forest_def partition_ok_def counts_ok_def leaves_def
      roots_disjoint_def roots_def settled_def clients_def rooted_def)

context memory_source
begin

lemma step_ok:
  assumes "eager_ok ok blocks sw" and "allowed op (fst sw)"
  shows "eager_ok ok blocks (eager_step A op sw)"
proof -
  obtain P where w: "ok (snd sw)" and I: "eager_inv (blocks (snd sw)) (fst sw) P" using assms(1) by (auto simp: eager_ok_def)
  show ?thesis
  proof (cases op)
    case (EAlloc sz separate align)
    obtain c s' w' where a: "eager_alloc A sz separate align (fst sw) (snd sw) = (c, s', w')" by (rule prod_cases3)
    have sz: "0 < sz" "sz < 2 ^ 63" using assms(2) EAlloc by simp_all
    show ?thesis using alloc_step [OF w I sz a] I by (auto simp: EAlloc a eager_ok_def split: if_splits)
  next
    case (EFree c)
    show ?thesis
    proof (cases "map_of (mUsedList (fst sw)) (first c, second c)")
      case None
      then show ?thesis using assms(1) by (simp add: EFree free_unknown)
    next
      case (Some n)
      have "eager_free c (fst sw) = eager_free (chunk_of_pointer (first c) (second c)) (fst sw)"
        using Some by (simp add: eager_free_def chunk_of_pointer_def)
      then show ?thesis using free_step [OF I map_of_SomeD [OF Some]] w by (auto simp: EFree eager_ok_def)
    qed
  next
    case EBarrierEnd
    then show ?thesis using barrier_end [OF I] assms(2) w by (auto simp: eager_ok_def)
  next
    case (ERelease al)
    then have g: "mGroups (fst sw) = []" using assms(2) by simp
    obtain s' w' where r: "eager_release A al (fst sw) (snd sw) = (s', w')" by fastforce
    show ?thesis
      using release_all_step [OF w I g, of s' w'] release_free_step [OF w I, of s' w'] r
      by (cases al) (auto simp: ERelease eager_ok_def)
  qed (use I w group_begin [OF I] group_end [OF I] in \<open>auto simp: eager_ok_def eager_barrierBegin_def\<close>)
qed

lemma reach_ok: "eager_reach A sw0 sw \<Longrightarrow> eager_ok ok blocks sw0 \<Longrightarrow> eager_ok ok blocks sw"
  by (induction rule: eager_reach.induct) (auto intro: step_ok)

lemma new_ok: "ok w \<Longrightarrow> 0 < align \<Longrightarrow> eager_ok ok blocks (new_Eager align 0, w)"
  unfolding eager_ok_def fst_conv snd_conv by (blast intro: new_inv)

end

section \<open>An instance of the C library\<close>

text \<open>It hands out ascending addresses below \<open>2 ^ 47\<close>; what is freed is not used again.\<close>

definition bump_libc :: "(nat \<times> (64 word \<times> 64 word) list) Libc" where
  "bump_libc = \<lparr>malloc = (\<lambda>n (next, bs). if n = 0 \<or> 2 ^ 47 \<le> next + unat n then (0, (next, bs))
       else (word_of_nat next, (next + unat n, (word_of_nat next, n) # bs))),
     cfree = (\<lambda>p (next, bs). (next, filter (\<lambda>b. fst b \<noteq> p) bs))\<rparr>"

definition bump_valid :: "nat \<times> (64 word \<times> 64 word) list \<Rightarrow> bool" where
  "bump_valid m \<longleftrightarrow> 0 < fst m \<and> fst m < 2 ^ 47 \<and>
     (\<forall>p n. (p, n) \<in> set (snd m) \<longrightarrow> 0 < unat p \<and> 0 < unat n \<and> unat p + unat n \<le> fst m) \<and>
     (\<forall>p n q k. (p, n) \<in> set (snd m) \<longrightarrow> (q, k) \<in> set (snd m) \<longrightarrow> (p, n) \<noteq> (q, k) \<longrightarrow> bytes p n \<inter> bytes q k = {})"

lemma bump_validD:
  assumes "bump_valid m"
  shows "0 < fst m" "fst m < 2 ^ 47" "(p, n) \<in> set (snd m) \<Longrightarrow> 0 < unat p \<and> 0 < unat n \<and> unat p + unat n \<le> fst m"
    "(p, n) \<in> set (snd m) \<Longrightarrow> (q, k) \<in> set (snd m) \<Longrightarrow> (p, n) \<noteq> (q, k) \<Longrightarrow> bytes p n \<inter> bytes q k = {}"
  using assms unfolding bump_valid_def by blast+

definition bump_live :: "nat \<times> (64 word \<times> 64 word) list \<Rightarrow> (64 word \<times> 64 word) set" where
  "bump_live m = set (snd m)"

lemma bump_malloc:
  assumes v: "bump_valid m" and al: "malloc bump_libc n m = (p, m')"
  shows "bump_valid m' \<and> (if p = 0 then bump_live m' = bump_live m
     else (p, n) \<notin> bump_live m \<and> bump_live m' = insert (p, n) (bump_live m))"
proof (cases "n = 0 \<or> 2 ^ 47 \<le> fst m + unat n")
  case True
  then have "p = 0" "m' = m" using al by (cases m; auto simp: bump_libc_def)+
  then show ?thesis using v by simp
next
  case False
  then have p: "p = word_of_nat (fst m)" and m': "m' = (fst m + unat n, (p, n) # snd m)"
    using al by (cases m; auto simp: bump_libc_def split: if_splits)+
  have up: "unat p = fst m" using bump_validD(2) [OF v] by (simp add: p unsigned_of_nat take_bit_nat_eq_self)
  have n0: "0 < unat n" using False by (simp add: unat_gt_0)
  have old: "bytes q k \<inter> bytes p n = {} \<and> q \<noteq> p" if "(q, k) \<in> set (snd m)" for q k
    using bump_validD(3) [OF v that] up by (auto simp: bytes_def)
  have "0 < fst m'" "fst m' < 2 ^ 47" using False bump_validD(1) [OF v] by (auto simp: m')
  moreover have "0 < unat q \<and> 0 < unat k \<and> unat q + unat k \<le> fst m'" if "(q, k) \<in> set (snd m')" for q k
    using that bump_validD(1) [OF v] bump_validD(3) [OF v, of q k] up n0 by (auto simp: m')
  moreover have "bytes q k \<inter> bytes r l = {}" if "(q, k) \<in> set (snd m')" "(r, l) \<in> set (snd m')" "(q, k) \<noteq> (r, l)" for q k r l
    using that bump_validD(4) [OF v, of q k r l] old [of q k] old [of r l] by (auto simp: m')
  ultimately have "bump_valid m'" unfolding bump_valid_def by blast
  moreover have "p \<noteq> 0" using up bump_validD(1) [OF v] by auto
  ultimately show ?thesis using old by (auto simp: bump_live_def m')
qed

lemma bump_free:
  assumes v: "bump_valid m" and p: "(p, n) \<in> bump_live m"
  shows "bump_valid (cfree bump_libc p m)" and "bump_live (cfree bump_libc p m) = bump_live m - {(p, n)}"
proof -
  have f: "fst (cfree bump_libc p m) = fst m" "set (snd (cfree bump_libc p m)) = {b \<in> set (snd m). fst b \<noteq> p}"
    by (cases m; simp add: bump_libc_def)+
  show "bump_valid (cfree bump_libc p m)"
    unfolding bump_valid_def f
  proof (intro conjI allI impI)
    show "0 < fst m" "fst m < 2 ^ 47" by (rule bump_validD(1) [OF v], rule bump_validD(2) [OF v])
    fix q k assume q: "(q, k) \<in> {b \<in> set (snd m). fst b \<noteq> p}"
    then show "0 < unat q" "0 < unat k" "unat q + unat k \<le> fst m" using bump_validD(3) [OF v, of q k] by auto
    fix r l assume "(r, l) \<in> {b \<in> set (snd m). fst b \<noteq> p}" "(q, k) \<noteq> (r, l)"
    then show "bytes q k \<inter> bytes r l = {}" using bump_validD(4) [OF v, of q k r l] q by auto
  qed
  have "k = n" if k: "(p, k) \<in> set (snd m)" for k
  proof (rule ccontr)
    assume "k \<noteq> n"
    then have "bytes p n \<inter> bytes p k = {}" using bump_validD(4) [OF v _ k] p by (simp add: bump_live_def)
    moreover have "0 < unat k" "0 < unat n" using bump_validD(3) [OF v] k p by (auto simp: bump_live_def)
    ultimately show False by (auto simp: bytes_def)
  qed
  note only = this
  have "(q, k) \<in> bump_live (cfree bump_libc p m) \<longleftrightarrow> (q, k) \<in> bump_live m - {(p, n)}" for q k
    using only [of k] p by (cases "q = p") (auto simp: bump_live_def f)
  then show "bump_live (cfree bump_libc p m) = bump_live m - {(p, n)}" by (intro set_eqI) (simp only: split_paired_all)
qed

lemma bump_contract: "malloc_contract bump_libc bump_valid bump_live"
  unfolding malloc_contract_def
proof (intro conjI allI impI)
  fix m p n assume m: "bump_valid m" "(p, n) \<in> bump_live m"
  then have "0 < unat p \<and> 0 < unat n \<and> unat p + unat n \<le> fst m" "fst m < 2 ^ 47"
    using bump_validD(2,3) by (auto simp: bump_live_def)
  then show "p \<noteq> 0" "unat p + unat n < 2 ^ 64" by auto
  show "bump_valid (cfree bump_libc p m)" "bump_live (cfree bump_libc p m) = bump_live m - {(p, n)}"
    by (rule bump_free [OF m])+
next
  fix m p n q k assume "bump_valid m" "(p, n) \<in> bump_live m" "(q, k) \<in> bump_live m" "(p, n) \<noteq> (q, k)"
  then show "bytes p n \<inter> bytes q k = {}" unfolding bump_live_def by (rule bump_validD(4))
next
  fix m n p m' assume "bump_valid m" "malloc bump_libc n m = (p, m')"
  note b = bump_malloc [OF this]
  then show "bump_valid m'" by blast
  show "if p = 0 then bump_live m' = bump_live m else (p, n) \<notin> bump_live m \<and> bump_live m' = insert (p, n) (bump_live m)"
    using b by blast
qed

interpretation bump: c_heap bump_libc bump_valid bump_live
  by unfold_locales (rule bump_contract)

text \<open>The default allocator on it, and an eager allocator on that, are sources of memory.\<close>

definition bump_start :: "(nat \<times> (64 word \<times> 64 word) list) memory" where
  "bump_start = ((4096, []), (\<lambda>_. 0))"

lemma bump_start_ok: "aligned_ok bump_valid bump_live bump_start"
  by (simp add: aligned_ok_def bump_start_def bump_valid_def bump_live_def)

interpretation default: memory_source "DefaultAllocator bump_libc" "aligned_ok bump_valid bump_live" "aligned_blocks bump_live"
  by (rule bump.default_memory_source)

interpretation recursive: memory_source "RecurseAllocator (DefaultAllocator bump_libc)"
    "eager_ok (aligned_ok bump_valid bump_live) (aligned_blocks bump_live)" eager_blocks
  by (rule default.recurse_memory_source)

end
