(* ===== verification/Eager_Nodes.thy ===== *)
theory Eager_Nodes
  imports Eager_Runs
begin

text \<open>
  What holds of all nodes an eager allocator ever made: their offsets are multiples of its alignment when
  the parent's blocks start at offset 0, and a node's parent was made before it. The first gives the
  assertions \<open>pointer.second % align == 0\<close> of the code, the second the end of the loop of \<open>returnMemory\<close>.
\<close>

definition nodes_ok :: "Eager \<Rightarrow> bool" where
  "nodes_ok s \<longleftrightarrow> (\<forall>i<length (enodes s). snd (pointer (enode s i)) mod eAlign s = 0 \<and>
     (\<forall>q. eparent (enode s i) = Some q \<longrightarrow> q < i))"

section \<open>Merging leaves the nodes' places and parents alone\<close>

definition shape_of :: "Eager \<Rightarrow> ((ptr \<times> nat) \<times> nat option) list" where
  "shape_of s = map (\<lambda>n. (pointer n, eparent n)) (enodes s)"

lemma nodes_ok_shape: "shape_of s' = shape_of s \<Longrightarrow> eAlign s' = eAlign s \<Longrightarrow> nodes_ok s' = nodes_ok s"
proof -
  assume sh: "shape_of s' = shape_of s" and a: "eAlign s' = eAlign s"
  have l: "length (enodes s') = length (enodes s)" using arg_cong [OF sh, of length] by (simp add: shape_of_def)
  have "pointer (enode s' i) = pointer (enode s i) \<and> eparent (enode s' i) = eparent (enode s i)" if "i < length (enodes s)" for i
    using arg_cong [OF sh, of "\<lambda>xs. xs ! i"] that l by (simp add: shape_of_def)
  then show ?thesis using l a by (simp add: nodes_ok_def)
qed

lemma shape_of_use: "map (\<lambda>n. (pointer n, eparent n)) (ns[p := (ns ! p)\<lparr>useCount := c\<rparr>]) = map (\<lambda>n. (pointer n, eparent n)) ns"
  by (cases "p < length ns") (simp_all add: map_update list_update_same_conv list_update_beyond)

lemma shape_of_simps [simp]:
  "shape_of (set_list l xs s) = shape_of s" "eAlign (set_list l xs s) = eAlign s"
  "shape_of (s\<lparr>enodes := count_down q (enodes s)\<rparr>) = shape_of s"
  "shape_of (s\<lparr>enodes := count_up q (enodes s)\<rparr>) = shape_of s"
  "shape_of (used_erase k s) = shape_of s" "shape_of (s\<lparr>mGroups := gs\<rparr>) = shape_of s"
  by (auto simp: shape_of_def set_list_def count_down_def count_up_def shape_of_use split: WhichList.splits option.splits)

lemma shape_merge_up [simp]: "shape_of (merge_up k l p s) = shape_of s \<and> eAlign (merge_up k l p s) = eAlign s"
proof (induction k arbitrary: p s)
  case (Suc k)
  then show ?case by (simp add: Let_def split: option.splits)
qed simp

lemma shape_return [simp]: "shape_of (returnMemory l n m s) = shape_of s \<and> eAlign (returnMemory l n m s) = eAlign s"
  by (simp add: returnMemory_def Let_def split: option.splits)

lemma shape_return_all: "shape_of (fold (\<lambda>n s. returnMemory l n m s) ns s) = shape_of s \<and>
    eAlign (fold (\<lambda>n s. returnMemory l n m s) ns s) = eAlign s"
  by (induction ns arbitrary: s) simp_all

section \<open>New nodes\<close>

lemma nodes_ok_append:
  assumes "nodes_ok s" and "snd p mod eAlign s = 0" and "\<And>q. e = Some q \<Longrightarrow> q < length (enodes s)"
    and "shape_of s' = shape_of s @ [(p, e)]" and "eAlign s' = eAlign s"
  shows "nodes_ok s'"
proof -
  have l: "length (enodes s') = Suc (length (enodes s))" using arg_cong [OF assms(4), of length] by (simp add: shape_of_def)
  have sh: "(pointer (enode s' i), eparent (enode s' i)) =
      (if i < length (enodes s) then (pointer (enode s i), eparent (enode s i)) else (p, e))" if "i < length (enodes s')" for i
    using arg_cong [OF assms(4), of "\<lambda>xs. xs ! i"] that l by (auto simp: shape_of_def nth_append)
  show ?thesis
    unfolding nodes_ok_def
  proof (intro allI impI)
    fix i assume i: "i < length (enodes s')"
    show "snd (pointer (enode s' i)) mod eAlign s' = 0 \<and> (\<forall>q. eparent (enode s' i) = Some q \<longrightarrow> q < i)"
    proof (cases "i < length (enodes s)")
      case True
      then show ?thesis using sh [OF i] assms(1,5) by (simp add: nodes_ok_def)
    next
      case False
      then have "i = length (enodes s)" using i l by simp
      then show ?thesis using sh [OF i] assms(2,3,5) by auto
    qed
  qed
qed

lemma aligned_start_mod:
  "0 < align \<Longrightarrow> snd (pointer (enode s x)) mod eAlign s = 0 \<Longrightarrow> aligned_start align s x mod align = 0"
  by (auto simp: aligned_start_def mod_eq_0_iff_dvd intro: dvd_trans)

lemma part_size_mod: "part_size sz align s x mod eAlign s = 0"
  by (simp add: part_size_def)

lemma main_nodes:
  assumes N: "nodes_ok s" and f: "set (eFreeList s) \<subseteq> {..<length (enodes s)}"
    and g: "getFromFreeList MainList sz True align s = (p, s')" and sz: "0 < sz" and al: "0 < align" "0 < eAlign s"
  shows "nodes_ok s' \<and> snd p mod align = 0"
  using g sz al
proof (cases rule: main_cases)
  case none
  then show ?thesis using N by simp
next
  case (whole i x)
  have "x < length (enodes s)" using nth_mem [OF whole(1)] f by (auto simp: whole(2))
  then have "snd p mod align = 0" using aligned_start_mod [OF al(1)] N by (simp add: whole(3) nodes_ok_def)
  moreover have "shape_of s' = shape_of s" by (simp add: whole(5) shape_of_def count_up_def shape_of_use split: option.splits)
  ultimately show ?thesis using nodes_ok_shape [of s' s] N by (simp add: whole(5))
next
  case (split i x)
  have xl: "x < length (enodes s)" using nth_mem [OF split(1)] f by (auto simp: split(2))
  then have x0: "snd (pointer (enode s x)) mod eAlign s = 0" using N by (simp add: nodes_ok_def)
  obtain k where s': "s' = (used_insert p (length (enodes s)) s)\<lparr>enodes := count_up (Some x) (count_up (eparent (enode s x)) (enodes s) @
          [\<lparr>pointer = pointer (enode s x), eparent = Some x, esize = part_size sz align s x, useCount = 0\<rparr>]) @
          [\<lparr>pointer = (fst (pointer (enode s x)), snd (pointer (enode s x)) + part_size sz align s x), eparent = Some x,
            esize = size_of s x - part_size sz align s x, useCount = 0\<rparr>],
        eFreeList := multi_insert k (Suc (length (enodes s))) (erase_at i (eFreeList s))\<rparr>" using split(5) by blast
  define t where "t = s\<lparr>enodes := count_up (Some x) (count_up (eparent (enode s x)) (enodes s) @
          [\<lparr>pointer = pointer (enode s x), eparent = Some x, esize = part_size sz align s x, useCount = 0\<rparr>])\<rparr>"
  have sh1: "shape_of t = shape_of s @ [(pointer (enode s x), Some x)]"
    by (simp add: t_def shape_of_def count_up_def shape_of_use split: option.splits)
  have t: "nodes_ok t" by (rule nodes_ok_append [OF N x0 _ sh1]) (use xl in \<open>simp_all add: t_def\<close>)
  have "nodes_ok s'"
  proof (rule nodes_ok_append [OF t, of "(fst (pointer (enode s x)), snd (pointer (enode s x)) + part_size sz align s x)" "Some x"])
    show "snd (fst (pointer (enode s x)), snd (pointer (enode s x)) + part_size sz align s x) mod eAlign t = 0"
      using x0 part_size_mod by (simp add: t_def mod_add_eq [symmetric])
  qed (use xl in \<open>simp_all add: t_def s' shape_of_def\<close>)
  then show ?thesis using aligned_start_mod [OF al(1) x0] by (simp add: split(3))
qed

lemma group_nodes:
  assumes N: "nodes_ok s" and f: "set (mGroups s ! g) \<subseteq> {..<length (enodes s)}"
    and u: "getFromFreeList (GroupList g) sz False align s = (p, s')" and al: "0 < align"
  shows "nodes_ok s' \<and> snd p mod align = 0"
proof -
  define i where "i = lower_bound (size_of s) (if eAlign s mod align \<noteq> 0 then sz + align - 1 else sz) (mGroups s ! g)"
  define x where "x = mGroups s ! g ! i"
  note u = u [unfolded getFromFreeList_group Let_def, folded i_def, folded x_def]
  show ?thesis
  proof (cases "i = length (mGroups s ! g)")
    case True
    then show ?thesis using u N by auto
  next
    case False
    then have "i < length (mGroups s ! g)" using lower_bound_le le_neq_implies_less unfolding i_def by blast
    then have "x < length (enodes s)" using f nth_mem unfolding x_def by blast
    then have "aligned_start align s x mod align = 0" using aligned_start_mod [OF al] N by (simp add: nodes_ok_def)
    moreover have "shape_of s' = shape_of s" "eAlign s' = eAlign s" using u False by (auto simp: shape_of_def)
    ultimately show ?thesis using u False nodes_ok_shape [of s' s] N by auto
  qed
qed

section \<open>Operations and runs\<close>

lemma list_indices:
  assumes "eager_inv B s P"
  shows "set (eFreeList s) \<subseteq> {..<length (enodes s)}" and "g < length (mGroups s) \<Longrightarrow> set (mGroups s ! g) \<subseteq> {..<length (enodes s)}"
proof -
  note C = eager_invD(1,2) [OF assms] and F = ecoreD(1) [OF eager_invD(1) [OF assms]]
  have l: "leaves P \<subseteq> {..<length (enodes s)}" using forestD(1,3) [OF F] by blast
  then show "set (eFreeList s) \<subseteq> {..<length (enodes s)}" using ecoreD(5) [OF C(1)] by (simp add: leaves_def)
  assume "g < length (mGroups s)"
  then have "set (mGroups s ! g) \<subseteq> set (concat (mGroups s))" by (auto intro!: bexI [OF _ nth_mem])
  then show "set (mGroups s ! g) \<subseteq> {..<length (enodes s)}" using client_nodes(2) [OF C] l by (auto simp: leaves_def)
qed

definition at_offset_0 :: "'w Allocator \<Rightarrow> bool" where
  "at_offset_0 A \<longleftrightarrow> (\<forall>sz align w. second (fst (onAlloc A sz align w)) = 0)"

lemma new_nodes:
  assumes N: "nodes_ok s" and z: "at_offset_0 A" and mm: "mMinAllocSize s = 0" and al: "eager_alloc_new A sz align s w = (c, s', w')"
  shows "nodes_ok s' \<and> second c mod align = 0"
proof -
  obtain chunk w1 where oa: "onAlloc A sz align w = (chunk, w1)" by fastforce
  have z0: "second chunk = 0" using z oa unfolding at_offset_0_def by (metis fst_conv)
  show ?thesis
  proof (cases "first chunk = nullptr")
    case True
    then show ?thesis using al oa mm N z0 by (auto simp: eager_alloc_new_def Let_def)
  next
    case False
    then have c: "c = chunk_of_pointer (first chunk) 0"
      and s': "s' = used_set (first chunk, 0) (length (enodes s)) (s\<lparr>eTotalSize := eTotalSize s + sz,
        enodes := enodes s @ [\<lparr>pointer = (first chunk, 0), eparent = None, esize = sz, useCount = 0\<rparr>]\<rparr>)"
      using al oa mm z0 by (auto simp: eager_alloc_new_def new_enode_def Let_def)
    have "nodes_ok s'"
      by (rule nodes_ok_append [OF N, of "(first chunk, 0)" None]) (simp_all add: s' used_set_def used_erase_def shape_of_def)
    then show ?thesis by (simp add: c)
  qed
qed

lemma alloc_nodes:
  assumes N: "nodes_ok s" and I: "eager_inv B s P" and z: "at_offset_0 A" and sz: "0 < sz"
    and al: "eager_alloc A sz separate align s w = (c, s', w')"
  shows "nodes_ok s' \<and> second c mod (if align = 0 then eAlign s else align) = 0"
proof -
  define al where "al = (if 0 = align then eAlign s else align)"
  have apos: "0 < al" using eager_invD(4) [OF I] by (simp add: al_def)
  note u = al [unfolded eager_alloc_def Let_def, folded al_def] and mm = eager_invD(5) [OF I]
  have "nodes_ok s' \<and> second c mod al = 0"
  proof (cases separate)
    case True
    then show ?thesis using new_nodes [OF N z mm] u by simp
  next
    case False
    obtain p1 s1 where g1: "(case mCurrentFreeList s of Some g \<Rightarrow> getFromFreeList (GroupList g) sz False al s
        | None \<Rightarrow> ((nullptr, 0), s)) = (p1, s1)" by fastforce
    have gl: "g < length (mGroups s)" if "mCurrentFreeList s = Some g" for g
      using eager_invD(2) [OF I] that by (simp add: clients_def)
    have n1: "nodes_ok s1 \<and> snd p1 mod al = 0"
      using g1 N group_nodes [OF N list_indices(2) [OF I gl] _ apos] by (auto split: option.splits)
    obtain p2 s2 where g2: "getFromFreeList MainList sz True al s1 = (p2, s2)" by fastforce
    show ?thesis
    proof (cases "fst p1 = nullptr")
      case n: False
      have "c = chunk_of_pointer (fst p1) (snd p1)" "s' = s1" using u False g1 n by auto
      then show ?thesis using n1 by simp
    next
      case True
      have "\<exists>P1. eager_inv B s1 P1"
      proof (cases "mCurrentFreeList s")
        case (Some g)
        then show ?thesis using g1 group_take [OF I _ sz apos Some, of p1 s1] I unfolding taken_def by auto
      qed (use g1 I in auto)
      then obtain P1 where I1: "eager_inv B s1 P1" by blast
      have n2: "nodes_ok s2 \<and> snd p2 mod al = 0"
        by (rule main_nodes [OF _ list_indices(1) [OF I1] g2 sz apos eager_invD(4) [OF I1]]) (use n1 in simp)
      show ?thesis
      proof (cases "fst p2 = nullptr")
        case n: False
        have "c = chunk_of_pointer (fst p2) (snd p2)" "s' = s2" using u False g1 True g2 n by auto
        then show ?thesis using n2 by simp
      next
        case n: True
        obtain P2 where "eager_inv B s2 P2" using main_take [OF I1 g2 sz apos] I1 by (auto simp: taken_def)
        then have "mMinAllocSize s2 = 0" by (rule eager_invD(5))
        moreover have "eager_alloc_new A sz al s2 w = (c, s', w')" using u False g1 True g2 n by simp
        ultimately show ?thesis using new_nodes [OF conjunct1 [OF n2] z] by simp
      qed
    qed
  qed
  then show ?thesis by (simp add: al_def split: if_splits)
qed

lemma free_nodes: "nodes_ok s \<Longrightarrow> nodes_ok (snd (eager_free c s))"
proof -
  assume N: "nodes_ok s"
  have "shape_of (snd (eager_free c s)) = shape_of s \<and> eAlign (snd (eager_free c s)) = eAlign s"
    by (simp add: eager_free_def Let_def split: option.splits)
  then show ?thesis using N nodes_ok_shape by blast
qed

lemma barrier_nodes: "nodes_ok s \<Longrightarrow> nodes_ok (eager_barrierEnd s)"
proof -
  assume N: "nodes_ok s"
  have "shape_of (eager_barrierEnd s) = shape_of s \<and> eAlign (eager_barrierEnd s) = eAlign s"
    using shape_return_all by (simp add: eager_barrierEnd_def fold_concat)
  then show ?thesis using N nodes_ok_shape by blast
qed

lemma step_nodes:
  assumes N: "nodes_ok (fst sw)" and I: "eager_inv B (fst sw) P" and z: "at_offset_0 A" and al: "allowed op (fst sw)"
  shows "nodes_ok (fst (eager_step A op sw))"
proof (cases op)
  case (EAlloc sz separate align)
  obtain c s' w' where a: "eager_alloc A sz separate align (fst sw) (snd sw) = (c, s', w')" by (rule prod_cases3)
  show ?thesis using alloc_nodes [OF N I z _ a] al by (simp add: EAlloc a)
next
  case (ERelease r)
  then show ?thesis using N by (cases r) (simp_all add: eager_release_def Let_def nodes_ok_def)
next
  case (EFree c)
  then show ?thesis using free_nodes [OF N] by simp
next
  case EBarrierEnd
  then show ?thesis using barrier_nodes [OF N] by simp
qed (use N in \<open>simp_all add: eager_barrierBegin_def eager_beginGroup_def eager_endGroup_def nodes_ok_def\<close>)

context memory_source
begin

lemma reach_nodes:
  assumes "eager_reach A (new_Eager align 0, w) sw" and "ok w" and "0 < align" and z: "at_offset_0 A"
  shows "nodes_ok (fst sw)"
  using assms(1)
proof (induction rule: eager_reach.induct)
  case start
  then show ?case by (simp add: nodes_ok_def new_Eager_def)
next
  case (step sw op)
  obtain P where "eager_inv (blocks (snd sw)) (fst sw) P"
    using reach_ok [OF step.hyps(1) new_ok [OF assms(2,3)]] by (auto simp: eager_ok_def)
  then show ?case using step_nodes [OF step.IH _ z step.hyps(2)] by blast
qed

end

section \<open>The end of the loop of \<open>returnMemory\<close>\<close>

lemma merge_up_fuel: "nodes_ok s \<Longrightarrow> p < length (enodes s) \<Longrightarrow> p < j \<Longrightarrow> p < k \<Longrightarrow> merge_up j l p s = merge_up k l p s"
proof (induction j arbitrary: p k s)
  case (Suc j)
  obtain k' where k: "k = Suc k'" using Suc.prems(4) by (cases k) auto
  let ?s1 = "set_list l (multi_insert (size_of s) p (filter (\<lambda>i. eparent (enode s i) \<noteq> Some p) (get_list l s))) s"
  have e: "enodes ?s1 = enodes s" by (simp add: set_list_def split: WhichList.splits)
  show ?case
  proof (cases "eparent (enode s p)")
    case None
    then show ?thesis by (simp add: k Let_def e)
  next
    case (Some q)
    have q: "q < p" using Suc.prems(1,2) Some by (simp add: nodes_ok_def)
    let ?s2 = "dec_use q ?s1"
    have "nodes_ok ?s2" using Suc.prems(1) nodes_ok_shape [of ?s2 s] by simp
    moreover have "length (enodes ?s2) = length (enodes s)" by (simp add: e)
    ultimately have "merge_up j l q ?s2 = merge_up k' l q ?s2"
      using Suc.IH [of ?s2 q k'] q Suc.prems(2-4) k by simp
    then show ?thesis using Some by (simp add: k Let_def e)
  qed
qed simp

end
