(* ===== verification/Eager_Props.thy ===== *)
theory Eager_Props
  imports Eager_Nodes
begin

text \<open>
  The properties of the default allocator and of the eager allocator: each is a source of memory, the
  runs of the second keep chunks apart, aligned and accounted for, and what is free is one again.
\<close>

section \<open>Runs over the instance of the C library\<close>

definition bump_run :: "EagerOp list \<Rightarrow> Eager \<times> (nat \<times> (64 word \<times> 64 word) list) memory" where
  "bump_run ops = fold (eager_step (DefaultAllocator bump_libc)) ops (new_Eager 32 0, bump_start)"

lemma bump_reach:
  "\<forall>op\<in>set ops. \<forall>s. allowed op s \<Longrightarrow> eager_reach (DefaultAllocator bump_libc) (new_Eager 32 0, bump_start) (bump_run ops)"
proof (induction ops rule: rev_induct)
  case (snoc op ops)
  then show ?case by (auto simp: bump_run_def intro: eager_reach.step)
qed (simp add: bump_run_def eager_reach.start)

lemma bump_at_offset_0: "at_offset_0 (DefaultAllocator bump_libc)"
  by (simp add: at_offset_0_def DefaultAllocator_def chunk_of_pointer_def split: prod.splits)

lemmas run_simps = bump_run_def bump_start_def new_Eager_def eager_alloc_def DefaultAllocator_def getFromFreeList_def Let_def
  eager_alloc_new_def new_enode_def MNNMemoryAllocAlign_def bump_libc_def alignPointer_def used_set_def used_erase_def
  used_insert_def eager_beginGroup_def eager_endGroup_def chunk_of_pointer_def

section \<open>Properties\<close>

text \<open>
  C32. \<open>DefaultAllocator\<close> with \<open>MNNMemoryAllocAlign\<close> and \<open>MNNMemoryFreeAlign\<close> is a source of memory on
  every C library that keeps the promise of \<open>malloc\<close> and \<open>free\<close>: null or a new block of at least the size asked
  for, apart from all blocks not given back; giving a block back frees the address that \<open>malloc\<close> returned
  for it. All its blocks start at multiples of 64.
\<close>

theorem default_allocator_source:
  assumes "malloc_contract L valid live"
  shows "memory_source (DefaultAllocator L) (aligned_ok valid live) (aligned_blocks live) \<and>
    (\<forall>h c n. aligned_ok valid live h \<longrightarrow> (c, n) \<in> aligned_blocks live h \<longrightarrow> 64 dvd first c \<and> second c = 0)"
proof -
  have H: "c_heap L valid live" using assms by unfold_locales
  have "64 dvd first c \<and> second c = 0" if "aligned_ok valid live h" "(c, n) \<in> aligned_blocks live h" for h c n
    using that aligned_place(3) c_heap.place(2,3) [OF H that(1)] by (fastforce simp: aligned_blocks_def)
  then show ?thesis using c_heap.default_memory_source [OF H] by blast
qed

theorem default_allocator_source_witness:
  "memory_source (DefaultAllocator bump_libc) (aligned_ok bump_valid bump_live) (aligned_blocks bump_live)"
  using default_allocator_source [OF bump_contract] by blast

text \<open>
  C33. The composition \<open>RecurseAllocator\<close> builds: an eager allocator over any source of memory, taken as
  the parent of another allocator, is a source of memory again. So whatever holds of an eager allocator over
  the default allocator holds over any tower of them.
\<close>

theorem recurse_allocator_source:
  assumes "memory_source A ok blk"
  shows "memory_source (RecurseAllocator A) (eager_ok ok blk) eager_blocks"
  by (rule memory_source.recurse_memory_source [OF assms])

theorem recurse_allocator_source_witness:
  "memory_source (RecurseAllocator (RecurseAllocator (DefaultAllocator bump_libc)))
     (eager_ok (eager_ok (aligned_ok bump_valid bump_live) (aligned_blocks bump_live)) eager_blocks) eager_blocks"
  by (rule recurse_allocator_source [OF recursive.memory_source_axioms])

text \<open>
  C34. In every state a run of an eager allocator with minimal block size 0 reaches, groups and releases included:
  the chunks in use are apart from each other, each lies in a block the parent handed out, and \<open>mTotalSize\<close> is the size of
  the blocks that the used, free and group lists refer to.
\<close>

theorem eager_runs_keep_chunks_apart:
  assumes "memory_source A ok blk" and "ok w0" and "0 < align" and "eager_reach A (new_Eager align 0, w0) (s, w)"
  shows "(\<forall>(c, n)\<in>eager_blocks (s, w). \<forall>(d, m)\<in>eager_blocks (s, w). (c, n) \<noteq> (d, m) \<longrightarrow> span c n \<inter> span d m = {}) \<and>
    (\<forall>(c, n)\<in>eager_blocks (s, w). \<exists>(d, m)\<in>blk w. span c n \<subseteq> span d m) \<and>
    eTotalSize s = sum (size_of s) (root_of (length (enodes s)) (enodes s) `
      set (map snd (mUsedList s) @ concat (mGroups s) @ eFreeList s))"
proof -
  have "eager_ok ok blk (s, w)"
    using memory_source.reach_ok [OF assms(1,4)] memory_source.new_ok [OF assms(1-3)] by blast
  then obtain P where I: "eager_inv (blk w) s P" by (auto simp: eager_ok_def)
  note C = eager_invD(1,2) [OF I]
  have "set (map snd (mUsedList s) @ concat (mGroups s) @ eFreeList s) = leaves P"
    using client_nodes(2) [OF C] ecoreD(5) [OF C(1)] by (auto simp: leaves_def)
  then have "eTotalSize s = sum (size_of s) (root_of (length (enodes s)) (enodes s) `
      set (map snd (mUsedList s) @ concat (mGroups s) @ eFreeList s))"
    using eager_invD(3) [OF I] blocks_of_leaves [OF ecoreD(1) [OF C(1)]] by (simp only: rooted_def)
  moreover have "\<forall>(c, n)\<in>eager_blocks (s, w). \<forall>(d, m)\<in>eager_blocks (s, w). (c, n) \<noteq> (d, m) \<longrightarrow> span c n \<inter> span d m = {}"
  proof -
    have "span (fst x) (snd x) \<inter> span (fst y) (snd y) = {}" if "x \<in> eager_blocks (s, w)" "y \<in> eager_blocks (s, w)" "x \<noteq> y" for x y
      using chunks_apart [OF I, of "fst x" "snd x" w "fst y" "snd y"] that by simp
    then show ?thesis unfolding case_prod_beta prod.collapse by blast
  qed
  moreover have "\<forall>(c, n)\<in>eager_blocks (s, w). \<exists>(d, m)\<in>blk w. span c n \<subseteq> span d m"
  proof -
    have "\<exists>b\<in>blk w. span (fst x) (snd x) \<subseteq> span (fst b) (snd b)" if "x \<in> eager_blocks (s, w)" for x
      using chunk_in_block [OF I, of "fst x" "snd x" w] that unfolding case_prod_beta prod.collapse by blast
    then show ?thesis unfolding case_prod_beta by blast
  qed
  ultimately show ?thesis by blast
qed

theorem eager_runs_keep_chunks_apart_witness:
  "let (s, w) = bump_run [EAlloc 100 False 0, EBeginGroup, EAlloc 40 False 0, EEndGroup] in
     length (mUsedList s) = 2 \<and>
     (\<forall>(c, n)\<in>eager_blocks (s, w). \<exists>(d, m)\<in>aligned_blocks bump_live w. span c n \<subseteq> span d m)"
proof -
  let ?ops = "[EAlloc 100 False 0, EBeginGroup, EAlloc 40 False 0, EEndGroup]"
  obtain s w where sw: "bump_run ?ops = (s, w)" by (rule prod.exhaust)
  have r: "eager_reach (DefaultAllocator bump_libc) (new_Eager 32 0, bump_start) (s, w)"
    unfolding sw [symmetric] by (rule bump_reach) auto
  have "length (mUsedList (fst (bump_run ?ops))) = 2" by (simp add: run_simps)
  then show ?thesis
    using eager_runs_keep_chunks_apart [OF default.memory_source_axioms bump_start_ok _ r] by (simp add: sw)
qed

text \<open>
  C35. What \<open>MNN_ASSERT(pointer.second % align == 0)\<close> asserts in \<open>alloc\<close> and in \<open>getFromFreeList\<close> holds for an
  allocator with minimal block size 0 over a parent whose blocks start at offset 0 (the default allocator's do,
  those of an allocator behind \<open>RecurseAllocator\<close> need not): every chunk's offset is a multiple of the
  alignment asked for, or of the allocator's own where none is asked for; and the chunk has the size asked for.
\<close>

theorem eager_alloc_aligned:
  assumes "memory_source A ok blk" and "ok w0" and "0 < al" and "eager_reach A (new_Eager al 0, w0) (s, w)"
    and "at_offset_0 A" and "0 < sz" "sz < 2 ^ 63" and "eager_alloc A sz separate align s w = (c, s', w')"
  shows "second c mod (if align = 0 then eAlign s else align) = 0 \<and>
    (first c \<noteq> nullptr \<longrightarrow> (\<exists>n\<ge>sz. (c, n) \<notin> eager_blocks (s, w) \<and> eager_blocks (s', w') = insert (c, n) (eager_blocks (s, w))))"
proof -
  have "eager_ok ok blk (s, w)"
    using memory_source.reach_ok [OF assms(1,4)] memory_source.new_ok [OF assms(1-3)] by blast
  then obtain P where w: "ok w" and I: "eager_inv (blk w) s P" by (auto simp: eager_ok_def)
  have "nodes_ok s" using memory_source.reach_nodes [OF assms(1,4,2,3,5)] by simp
  then have "second c mod (if align = 0 then eAlign s else align) = 0" using alloc_nodes [OF _ I assms(5,6,8)] by blast
  moreover have "\<exists>n\<ge>sz. (c, n) \<notin> eager_blocks (s, w) \<and> eager_blocks (s', w') = insert (c, n) (eager_blocks (s, w))"
    if "first c \<noteq> nullptr"
  proof -
    have "(\<exists>P'. eager_inv (blk w') s' P') \<and> alloc_result s s' sz c"
      using memory_source.alloc_step [OF assms(1) w I assms(6-8)] that by simp
    then obtain P' where P': "eager_inv (blk w') s' P'" "alloc_result s s' sz c" by blast
    show ?thesis by (rule alloc_blocks [OF I P'])
  qed
  ultimately show ?thesis by blast
qed

theorem eager_alloc_aligned_witness:
  "case eager_alloc (DefaultAllocator bump_libc) 100 False 0 (new_Eager 32 0) bump_start of
     (c, s', w') \<Rightarrow> first c = 4160 \<and> second c mod 32 = 0 \<and> (\<exists>n\<ge>100. eager_blocks (s', w') = {(c, n)})"
proof -
  obtain c s' w' where a: "eager_alloc (DefaultAllocator bump_libc) 100 False 0 (new_Eager 32 0) bump_start = (c, s', w')"
    by (rule prod_cases3)
  have "first (fst (eager_alloc (DefaultAllocator bump_libc) 100 False 0 (new_Eager 32 0) bump_start)) = 4160"
    by (simp add: run_simps)
  moreover have "eager_blocks (new_Eager 32 0, bump_start) = {}" by (simp add: eager_blocks_def new_Eager_def)
  moreover have "eAlign (new_Eager 32 0) = 32" by (simp add: new_Eager_def)
  ultimately show ?thesis
    using eager_alloc_aligned [OF default.memory_source_axioms bump_start_ok _ eager_reach.start bump_at_offset_0 _ _ a]
    by (simp add: a)
qed

text \<open>
  C36. Release, with minimal block size 0 and outside of groups. \<open>release(true)\<close> gives every block back to the parent, whatever is still in use, and leaves an empty
  allocator. When nothing is in use any more, all parts have been merged: the main free list holds whole blocks
  only, and \<open>release(false)\<close> gives all of them back too.
\<close>

theorem eager_release_returns_blocks:
  assumes "memory_source A ok blk" and "ok w0" and "0 < al" and "eager_reach A (new_Eager al 0, w0) (s, w)"
    and "mGroups s = []" and "eager_release A allRelease s w = (s', w')" and "allRelease \<or> mUsedList s = []"
  shows "blk w' = {b \<in> blk w. fst b \<notin> node_chunk (enodes s) ` root_of (length (enodes s)) (enodes s) `
      set (map snd (mUsedList s) @ eFreeList s)} \<and>
    mUsedList s' = [] \<and> eFreeList s' = [] \<and> eTotalSize s' = 0 \<and>
    (mUsedList s = [] \<longrightarrow> (\<forall>n\<in>set (eFreeList s). eparent (enode s n) = None))"
proof -
  have "eager_ok ok blk (s, w)"
    using memory_source.reach_ok [OF assms(1,4)] memory_source.new_ok [OF assms(1-3)] by blast
  then obtain P where w: "ok w" and I: "eager_inv (blk w) s P" by (auto simp: eager_ok_def)
  note C = eager_invD(1,2) [OF I] and F = ecoreD(1) [OF eager_invD(1) [OF I]]
  have "set (map snd (mUsedList s) @ eFreeList s) = leaves P"
    using client_nodes(2) [OF C] ecoreD(5) [OF C(1)] assms(5) by (auto simp: leaves_def)
  then have R: "root_of (length (enodes s)) (enodes s) ` set (map snd (mUsedList s) @ eFreeList s) = roots (enodes s) (active P)"
    using blocks_of_leaves [OF F] by simp
  have whole: "active P = freed P" "freed P = roots (enodes s) (active P)" if "mUsedList s = []"
  proof -
    have "held P = {}" using client_nodes(2) [OF C] that assms(5) by simp
    then show "active P = freed P" "freed P = roots (enodes s) (active P)" using all_free_roots [OF C(1)] by blast+
  qed
  then have last: "mUsedList s = [] \<longrightarrow> (\<forall>n\<in>set (eFreeList s). eparent (enode s n) = None)"
    using ecoreD(5) [OF C(1)] by (auto simp: roots_def)
  show ?thesis
  proof (cases allRelease)
    case True
    then have "eager_release A True s w = (s', w')" using assms(6) by simp
    note st = memory_source.release_all_step [OF assms(1) w I assms(5) this]
    show ?thesis unfolding R using st last by (intro conjI) simp_all
  next
    case False
    then have u: "mUsedList s = []" using assms(7) by simp
    have Q: "{r \<in> freed P. eparent (enode s r) = None} = roots (enodes s) (active P)"
      using whole [OF u] by (auto simp: roots_def)
    have r: "eager_release A False s w = (s', w')" using assms(6) False by simp
    note st = memory_source.release_free_step [OF assms(1) w I r, unfolded Q]
    then have I': "eager_inv (blk w') s' (P\<lparr>active := active P - roots (enodes s) (active P), freed := freed P - roots (enodes s) (active P)\<rparr>)"
      by blast
    have e: "active P - roots (enodes s) (active P) = {}" "freed P - roots (enodes s) (active P) = {}"
      using whole [OF u] by auto
    have a: "active (P\<lparr>active := active P - roots (enodes s) (active P), freed := freed P - roots (enodes s) (active P)\<rparr>) = {}"
      using e by simp
    have "set (eFreeList s') = {}" using ecoreD(5) [OF eager_invD(1) [OF I']] by (simp add: e)
    moreover have "eTotalSize s' = 0" using eager_invD(3) [OF I'] unfolding rooted_def a by (simp add: roots_def)
    moreover have "blk w' = {b \<in> blk w. fst b \<notin> node_chunk (enodes s) ` roots (enodes s) (active P)}" "mUsedList s' = []"
      using st u by simp_all
    ultimately show ?thesis using last unfolding R by (intro conjI) simp_all
  qed
qed

theorem eager_release_returns_blocks_witness:
  "let (s, w) = bump_run [EAlloc 100 False 0]; (s', w') = eager_release (DefaultAllocator bump_libc) True s w in
     mUsedList s \<noteq> [] \<and> mUsedList s' = [] \<and> eTotalSize s' = 0"
proof -
  obtain s w where sw: "bump_run [EAlloc 100 False 0] = (s, w)" by (rule prod.exhaust)
  have r: "eager_reach (DefaultAllocator bump_libc) (new_Eager 32 0, bump_start) (s, w)"
    unfolding sw [symmetric] by (rule bump_reach) auto
  obtain s' w' where e: "eager_release (DefaultAllocator bump_libc) True s w = (s', w')" by (rule prod.exhaust)
  have "mUsedList (fst (bump_run [EAlloc 100 False 0])) \<noteq> [] \<and> mGroups (fst (bump_run [EAlloc 100 False 0])) = []"
    by (simp add: run_simps)
  then show ?thesis
    using eager_release_returns_blocks [OF default.memory_source_axioms bump_start_ok _ r _ e] by (simp add: sw e)
qed

text \<open>
  C37. The loop of \<open>returnMemory\<close> ends, in every state that an allocator with minimal block size 0 reaches over a
  parent whose blocks start at offset 0: it goes from a node to a node made before it, so it takes at most as many
  rounds as there are nodes, and any larger bound gives the same result.
\<close>

theorem return_memory_loop_ends:
  assumes "memory_source A ok blk" and "ok w0" and "0 < al" and "eager_reach A (new_Eager al 0, w0) (s, w)"
    and "at_offset_0 A" and "p < length (enodes s)" and "length (enodes s) \<le> fuel"
  shows "merge_up fuel l p s = merge_up (length (enodes s)) l p s"
proof (rule merge_up_fuel)
  show "nodes_ok s" using memory_source.reach_nodes [OF assms(1,4,2,3,5)] by simp
qed (use assms(6,7) in simp_all)

theorem return_memory_loop_ends_witness:
  "let s = fst (bump_run [EAlloc 100 False 0]) in
     length (enodes s) = 1 \<and> merge_up 5 MainList 0 s = merge_up (length (enodes s)) MainList 0 s"
proof -
  obtain s w where sw: "bump_run [EAlloc 100 False 0] = (s, w)" by (rule prod.exhaust)
  have r: "eager_reach (DefaultAllocator bump_libc) (new_Eager 32 0, bump_start) (s, w)"
    unfolding sw [symmetric] by (rule bump_reach) auto
  have "length (enodes (fst (bump_run [EAlloc 100 False 0]))) = 1" by (simp add: run_simps)
  then show ?thesis
    using return_memory_loop_ends [OF default.memory_source_axioms bump_start_ok _ r bump_at_offset_0, of 0 5 MainList]
    by (simp add: sw)
qed

text \<open>
  C38. With a minimal block size the eager allocator hands the same memory out twice. In a group, \<open>alloc\<close> puts the
  rest of a new block into the group's list, but counts only the first part as in use; \<open>barrierEnd\<close> returns the
  rest, which brings the count to 0, so the block is merged and free while its first part is in use.
\<close>

theorem min_size_group_hands_out_twice:
  assumes "onAlloc A m al w = (chunk_of_pointer p 0, w1)" and "p \<noteq> nullptr" and "0 < al" and "0 < sz" and "UP_DIV sz al * al < m"
    and "m < 2 ^ 63"
    and "eager_alloc A sz False 0 (eager_beginGroup (new_Eager al m)) w = (c1, s1, w2)"
    and "s2 = eager_barrierEnd (eager_endGroup s1)" and "eager_alloc A m False 0 s2 w2 = (c2, s3, w3)"
  shows "c2 = c1 \<and> map_of (mUsedList s2) (first c1, second c1) \<noteq> None"
proof -
  have szm: "sz < m" using UP_DIV_ge [OF assms(3), of sz] assms(5) by linarith
  define cs where "cs = UP_DIV sz al * al"
  let ?n0 = "\<lparr>pointer = (p, 0), eparent = None, esize = m, useCount = 1\<rparr>"
  let ?n1 = "\<lparr>pointer = (p, 0), eparent = Some 0, esize = cs, useCount = 0\<rparr>"
  let ?n2 = "\<lparr>pointer = (p, cs), eparent = Some 0, esize = (m + 2 ^ 64 - cs) mod 2 ^ 64, useCount = 0\<rparr>"
  have c1: "c1 = chunk_of_pointer p 0" and s1: "s1 = (new_Eager al m)\<lparr>enodes := [?n0, ?n1, ?n2], mUsedList := [((p, 0), 1)],
      mCurrentFreeList := Some 0, mGroups := [[2]], eTotalSize := m\<rparr>"
    using assms(1,2,3,4,7) szm
    by (simp_all add: eager_alloc_def eager_beginGroup_def new_Eager_def getFromFreeList_def Let_def eager_alloc_new_def
      new_enode_def used_insert_def upd_enode_def cs_def [symmetric] numeral_2_eq_2)
  have s2: "s2 = (new_Eager al m)\<lparr>enodes := [?n0\<lparr>useCount := 0\<rparr>, ?n1, ?n2], mUsedList := [((p, 0), 1)],
      eFreeList := [0], eTotalSize := m\<rparr>"
    using assms(8) by (simp add: s1 eager_endGroup_def eager_barrierEnd_def returnMemory_def new_Eager_def count_down_def numeral_2_eq_2)
  have "m \<le> UP_DIV m al * al" by (rule UP_DIV_ge [OF assms(3)])
  then have "c2 = chunk_of_pointer p 0"
    using assms(2,3,9) by (auto simp: s2 eager_alloc_def getFromFreeList_main aligned_start_def part_size_def new_Eager_def Let_def)
  then show ?thesis by (simp add: c1 s2)
qed

theorem min_size_group_hands_out_twice_witness:
  "let A = DefaultAllocator bump_libc;
     (c1, s1, w2) = eager_alloc A 100 False 0 (eager_beginGroup (new_Eager 32 1024)) bump_start;
     s2 = eager_barrierEnd (eager_endGroup s1);
     (c2, s3, w3) = eager_alloc A 1024 False 0 s2 w2
   in c2 = c1 \<and> map_of (mUsedList s2) (first c1, second c1) \<noteq> None"
proof -
  let ?A = "DefaultAllocator bump_libc"
  obtain w1 where w1: "onAlloc ?A 1024 32 bump_start = (chunk_of_pointer 4160 0, w1)" by (simp add: run_simps)
  obtain c1 s1 w2 where a1: "eager_alloc ?A 100 False 0 (eager_beginGroup (new_Eager 32 1024)) bump_start = (c1, s1, w2)"
    by (rule prod_cases3)
  obtain c2 s3 w3 where a2: "eager_alloc ?A 1024 False 0 (eager_barrierEnd (eager_endGroup s1)) w2 = (c2, s3, w3)"
    by (rule prod_cases3)
  show ?thesis
    using min_size_group_hands_out_twice [OF w1 _ _ _ _ _ a1 refl a2] by (simp add: a1 a2 UP_DIV_def)
qed

end
