(* ===== verification/Region_Model.thy ===== *)
theory Region_Model
  imports Tensor_Model
begin

text \<open>
  Regions: a tensor without memory of its own is described by regions, boxes of up to three dimensions
  that say which elements of another tensor it consists of. source/core/TensorUtils.hpp (\<open>View\<close>,
  \<open>Region\<close>) and the functions on them in source/core/TensorUtils.cpp, with \<open>FuseRegionStatus\<close>, which
  replaces a region of a region by one region.

  \<open>int[3]\<close> is a list of length 3, \<open>Tensor*\<close> a number. \<open>FuseRegionStatus\<close> keeps its arrays from one call
  to the next, so they are state: what a call does not write is what an earlier one left there.
\<close>

section \<open>Regions\<close>

record View =
  voffset :: int
  vstride :: "int list"

record Region =
  rsrc :: View
  rdst :: View
  rsize :: "int list"
  rorigin :: "nat option"

definition new_View :: View where
  "new_View = \<lparr>voffset = 0, vstride = [1, 1, 1]\<rparr>"

definition new_Region :: Region where
  "new_Region = \<lparr>rsrc = new_View, rdst = new_View, rsize = [1, 1, 1], rorigin = None\<rparr>"

definition regionIsFull :: "Tensor \<Rightarrow> Region list \<Rightarrow> bool" where
  "regionIsFull input regions =
     (let sz = for_loop 0 (dimensions input) (\<lambda>i sz. sz * extent input i) 1;
          regionSize = fold (\<lambda>r n. n + rsize r ! 1 * rsize r ! 0 * rsize r ! 2) regions 0
      in regionSize = sz)"

definition makeFullSlice :: "nat \<Rightarrow> Tensor \<Rightarrow> Region" where
  "makeFullSlice tensor input =
     (let n = for_loop 0 (dimensions input) (\<lambda>i sz. sz * extent input i) 1;
          view = \<lparr>voffset = 0, vstride = [n, n, 1]\<rparr>
      in \<lparr>rsrc = view, rdst = view, rsize = [1, 1, n], rorigin = Some tensor\<rparr>)"

definition reshapeSlice :: "Region \<Rightarrow> int \<Rightarrow> int \<Rightarrow> int \<Rightarrow> bool \<times> Region" where
  "reshapeSlice slice outside inside axis =
     (if rsize slice ! 1 = 1 \<and> rsize slice ! 0 = 1 \<and> rsize slice ! 2 = outside * inside * axis then
        let originStride = vstride (rsrc slice) ! 2
        in (True, slice\<lparr>rsize := (rsize slice)[0 := outside, 2 := inside, 1 := axis],
              rdst := (rdst slice)\<lparr>vstride := (vstride (rdst slice))[0 := inside * axis, 1 := inside]\<rparr>,
              rsrc := (rsrc slice)\<lparr>vstride := (vstride (rsrc slice))[0 := originStride * inside * axis, 1 := originStride * inside]\<rparr>\<rparr>)
      else if rsize slice ! 0 = outside \<and> rsize slice ! 1 = axis \<and> rsize slice ! 2 = inside then (True, slice)
      else (False, slice))"

definition isCopyRegion :: "Region \<Rightarrow> bool" where
  "isCopyRegion region \<longleftrightarrow> fold (\<lambda>i eq. eq \<and> (vstride (rsrc region) ! i = vstride (rdst region) ! i \<or> rsize region ! i \<le> 1)) [0, 1, 2] True"

definition isTransposeRegion :: "Region \<Rightarrow> bool" where
  "isTransposeRegion region =
     (let one = \<lambda>v. filter (\<lambda>i. vstride v ! i = 1 \<and> rsize region ! i \<noteq> 1) [0, 1, 2];
          srcOne = one (rsrc region); dstOne = one (rdst region)
      in length srcOne \<le> 1 \<and> length dstOne \<le> 1 \<and> srcOne \<noteq> [] \<and> dstOne \<noteq> [] \<and> srcOne \<noteq> dstOne)"

definition isTileRegion :: "Region \<Rightarrow> bool" where
  "isTileRegion region \<longleftrightarrow> fold (\<lambda>i res. if vstride (rsrc region) ! i \<noteq> 0 \<and> rsize region ! i > 1
     then res \<and> vstride (rsrc region) ! i = vstride (rdst region) ! i else res) [0, 1, 2] True"

text \<open>What a region does: the pairs of target and source offset in the order of the loops, and the copy itself.\<close>

definition region_elements :: "Region \<Rightarrow> (int \<times> int) list" where
  "region_elements reg =
     [(voffset (rdst reg) + z * vstride (rdst reg) ! 0 + y * vstride (rdst reg) ! 1 + x * vstride (rdst reg) ! 2,
       voffset (rsrc reg) + z * vstride (rsrc reg) ! 0 + y * vstride (rsrc reg) ! 1 + x * vstride (rsrc reg) ! 2).
      z \<leftarrow> [0..rsize reg ! 0 - 1], y \<leftarrow> [0..rsize reg ! 1 - 1], x \<leftarrow> [0..rsize reg ! 2 - 1]]"

definition computeRaw :: "(int \<Rightarrow> 'v) \<Rightarrow> (int \<Rightarrow> 'v) \<Rightarrow> Region \<Rightarrow> int \<Rightarrow> 'v" where
  "computeRaw dst src reg = fold (\<lambda>(d, s) m. m(d := src s)) (region_elements reg) dst"

section \<open>Helpers of the fusion\<close>

definition offsetCompute :: "Region \<Rightarrow> int \<Rightarrow> int \<Rightarrow> bool \<Rightarrow> int" where
  "offsetCompute reg srcOffset dstOffset backward =
     (let src = (if backward then rdst reg else rsrc reg);
          dst = (if backward then rsrc reg else rdst reg)
      in fst (fold (\<lambda>i (res, s, d).
           if rsize reg ! i > 1 then
             (res + (cdiv s (vstride src ! i) - cdiv d (vstride src ! i)) * vstride dst ! i,
              crem s (vstride src ! i), crem d (vstride src ! i))
           else (res, s, d)) [0, 1, 2] (0, srcOffset, dstOffset)))"

text \<open>\<open>MNN_3_INT_INSERT\<close> and the loop of \<open>expandStrideSize\<close>, from the last index down.\<close>

definition insert3 :: "nat \<Rightarrow> int \<Rightarrow> int list \<Rightarrow> int list option" where
  "insert3 i y x =
     (if i = 2 then Some (x[2 := y])
      else if i = 1 then Some (x[2 := x ! 1, 1 := y])
      else if i = 0 then Some (x[2 := x ! 1, 1 := x ! 0, 0 := y])
      else None)"

type_synonym axes = "int list \<times> int list \<times> int list \<times> nat"

fun expandStrideSize :: "nat \<Rightarrow> int \<Rightarrow> axes \<Rightarrow> bool \<times> axes" where
  "expandStrideSize 0 expandValue ax = (False, ax)"
| "expandStrideSize (Suc i) expandValue (src, dst, sz, num) =
     (let splitSize = cdiv expandValue (src ! i)
      in if crem expandValue (src ! i) = 0 \<and> crem (sz ! i) splitSize = 0 then
           case insert3 i expandValue src of None \<Rightarrow> (False, src, dst, sz, num)
         | Some src \<Rightarrow>
             (case insert3 i (splitSize * dst ! i) dst of None \<Rightarrow> (False, src, dst, sz, num)
              | Some dst \<Rightarrow>
                  let sz = sz[i := cdiv (sz ! i) splitSize]
                  in case insert3 (i + 1) splitSize sz of None \<Rightarrow> (False, src, dst, sz, num)
                     | Some sz \<Rightarrow> (num + 1 \<le> 3, src, dst, sz, num + 1))
         else expandStrideSize i expandValue (src, dst, sz, num))"

text \<open>\<open>_ClipDst\<close>: the indices by falling stride, the offsets along them, the range of indices that hit the source.\<close>

definition validIndex :: "int list \<Rightarrow> nat \<Rightarrow> nat list" where
  "validIndex strides sizeNum =
     (if sizeNum = 2 then (if strides ! 0 < strides ! 1 then [1, 0, 2] else [0, 1, 2])
      else if sizeNum > 2 then
        let maxi = fold (\<lambda>i m. if strides ! i > strides ! m then i else m) [1..<sizeNum] 0;
            mini = fold (\<lambda>i m. if strides ! i < strides ! m then i else m) [1..<sizeNum] 0;
            mid = (case filter (\<lambda>i. i \<noteq> maxi \<and> i \<noteq> mini) [0..<sizeNum] of i # _ \<Rightarrow> i | [] \<Rightarrow> 1)
        in [maxi, mid, mini]
      else [0, 1, 2])"

definition clip_offsets :: "int list \<Rightarrow> nat \<Rightarrow> int \<Rightarrow> int \<Rightarrow> int list \<times> int \<times> int" where
  "clip_offsets strides sizeNum srcOffset dstOffset =
     fold (\<lambda>i (ofs, s, d).
       let v = validIndex strides sizeNum ! i; st = strides ! v
       in (ofs[v := cdiv d st - cdiv s st], crem s st, crem d st)) [0..<sizeNum] ([0, 0, 0], srcOffset, dstOffset)"

definition clip_range ::
  "int list \<Rightarrow> int \<Rightarrow> int \<Rightarrow> int list \<Rightarrow> int list \<Rightarrow> nat \<Rightarrow> int list \<times> int list \<Rightarrow> bool \<times> int list \<times> int list" where
  "clip_range strides srcOffset dstOffset srcSize dstSize sizeNum mm =
     (if sizeNum = 0 then (dstOffset - srcOffset = 0, mm)
      else
        let (ofs, s, d) = clip_offsets strides sizeNum srcOffset dstOffset
        in if 0 \<noteq> s \<or> 0 \<noteq> d then (False, mm)
           else (True, fold (\<lambda>i (dstMax, dstMin). (dstMax[i := ALIMIN (srcSize ! i - ofs ! i) (dstSize ! i)], dstMin[i := ALIMAX 0 (- ofs ! i)]))
                  [0..<sizeNum] mm))"

definition clip_needs_more ::
  "int list \<Rightarrow> int \<Rightarrow> int \<Rightarrow> int list \<Rightarrow> int list \<Rightarrow> nat \<Rightarrow> int list \<Rightarrow> bool" where
  "clip_needs_more strides srcOffset dstOffset srcSize dstSize sizeNum dstMax =
     (let srcMax = fold (\<lambda>i m. m + srcSize ! i * strides ! i) [0..<sizeNum] 0;
          srcMin = fold (\<lambda>i m. if dstMax ! i < srcSize ! i then (if m = -1 then strides ! i else ALIMIN (strides ! i) m) else m) [0..<sizeNum] (-1)
      in srcMin \<ge> 0 \<and>
         list_ex (\<lambda>i. dstMax ! i \<noteq> dstSize ! i \<and>
           (let bias = dstOffset - srcOffset + dstMax ! i * strides ! i
            in bias < srcMax \<and> bias \<ge> srcMin \<and>
               list_ex (\<lambda>k. dstMax ! k < srcSize ! k \<and>
                 (let (status, mx, mn) = clip_range strides (srcOffset + dstMax ! k * strides ! k) (dstOffset + dstMax ! i * strides ! i)
                        (srcSize[k := srcSize ! k - dstMax ! k]) (dstSize[i := dstSize ! i - dstMax ! i]) sizeNum ([0, 0, 0], [0, 0, 0])
                  in status \<and> list_all (\<lambda>j. mx ! j > mn ! j) [0..<sizeNum])) [0..<sizeNum])) [0..<sizeNum])"

definition ClipDst ::
  "int list \<Rightarrow> int \<Rightarrow> int \<Rightarrow> int list \<Rightarrow> int list \<Rightarrow> nat \<Rightarrow> int list \<times> int list \<Rightarrow> bool \<times> int list \<times> int list" where
  "ClipDst strides srcOffset dstOffset srcSize dstSize sizeNum mm =
     (let (status, dstMax, dstMin) = clip_range strides srcOffset dstOffset srcSize dstSize sizeNum mm
      in (status \<and> \<not> (sizeNum \<noteq> 0 \<and> clip_needs_more strides srcOffset dstOffset srcSize dstSize sizeNum dstMax), dstMax, dstMin))"

section \<open>Fusing two regions\<close>

datatype FuseStatus = FUSE_SRC_COPY | FUSE_REGION_COMPUTE

record FuseRegionStatus =
  mStatus :: FuseStatus
  srcDst :: "int list"
  srcSrc :: "int list"
  dstSrc :: "int list"
  dstDst :: "int list"
  srcSize :: "int list"
  dstSize :: "int list"
  newSrc :: "int list"
  newSrcSize :: "int list"
  dstMin :: "int list"
  dstMax :: "int list"
  srcNum :: nat
  dstNum :: nat
  sizeNum :: nat
  newSrcOffset :: int
  newDstOffset :: int
  expandIdx :: int

text \<open>The guard at the start, and the conditions for a plain shift of the source.\<close>

definition strides_positive :: "Region \<Rightarrow> bool" where
  "strides_positive reg \<longleftrightarrow> list_all (\<lambda>i. \<not> (rsize reg ! i > 1 \<and> (vstride (rsrc reg) ! i \<le> 0 \<or> vstride (rdst reg) ! i \<le> 0))) [0, 1, 2]"

definition copyValid :: "Region \<Rightarrow> Region \<Rightarrow> bool" where
  "copyValid srcReg dstReg =
     (let total = \<lambda>r. fold (\<lambda>i n. if rsize r ! i > 1 then n * rsize r ! i else n) [0, 1, 2] 1;
          span = \<lambda>v r. fold (\<lambda>i m. m + vstride v ! i * (rsize r ! i - 1)) [0, 1, 2] (voffset v);
          dstSrcMin = voffset (rsrc dstReg); srcDstMin = voffset (rdst srcReg);
          dstSrcMax = span (rsrc dstReg) dstReg; srcDstMax = span (rdst srcReg) srcReg
      in \<not> (voffset (rdst srcReg) > voffset (rsrc dstReg) \<or> vstride (rdst srcReg) ! 1 > rsize srcReg ! 2 \<or>
             vstride (rdst srcReg) ! 2 > rsize srcReg ! 1 * rsize srcReg ! 2) \<and>
         \<not> total dstReg > total srcReg \<and>
         \<not> (srcDstMin > dstSrcMin \<or> srcDstMax < dstSrcMax))"

text \<open>The loop that gathers the dimensions of more than one element.\<close>

definition gather_axes :: "Region \<Rightarrow> Region \<Rightarrow> FuseRegionStatus \<Rightarrow> FuseRegionStatus" where
  "gather_axes srcReg dstReg st =
     (let st = fold (\<lambda>i st.
        let st = (if rsize srcReg ! i > 1 then
              st\<lparr>srcDst := (srcDst st)[srcNum st := vstride (rdst srcReg) ! i],
                 srcSrc := (srcSrc st)[srcNum st := vstride (rsrc srcReg) ! i],
                 srcSize := (srcSize st)[srcNum st := rsize srcReg ! i], srcNum := srcNum st + 1\<rparr>
            else st)
        in if rsize dstReg ! i > 1 then
              st\<lparr>dstDst := (dstDst st)[dstNum st := vstride (rdst dstReg) ! i],
                 dstSrc := (dstSrc st)[dstNum st := vstride (rsrc dstReg) ! i],
                 dstSize := (dstSize st)[dstNum st := rsize dstReg ! i], dstNum := dstNum st + 1\<rparr>
            else st) [0, 1, 2] (st\<lparr>expandIdx := -1, srcNum := 0, dstNum := 0\<rparr>)
      in st\<lparr>sizeNum := dstNum st\<rparr>)"

text \<open>\<open>srcStride\<close> and \<open>dstStride\<close> are the gathered strides with -1 behind them; \<open>MNN_3_INT_DIFF\<close> finds the odd one.\<close>

definition padded :: "int list \<Rightarrow> nat \<Rightarrow> int list" where
  "padded xs n = map (\<lambda>i. if i < n then xs ! i else -1) [0, 1, 2]"

definition int_diff :: "int list \<Rightarrow> int list \<Rightarrow> int option" where
  "int_diff x y = fold (\<lambda>i r. case r of None \<Rightarrow> None
     | Some r \<Rightarrow> if x ! i \<noteq> y ! 0 \<and> x ! i \<noteq> y ! 1 \<and> x ! i \<noteq> y ! 2 then (if r > 0 then None else Some (x ! i)) else Some r)
     [0, 1, 2] (Some (-1))"

definition expand_src :: "int \<Rightarrow> FuseRegionStatus \<Rightarrow> bool \<times> FuseRegionStatus" where
  "expand_src e st = (if e > 0 then
     let (b, a1, a2, a3, n) = expandStrideSize (srcNum st) e (srcDst st, srcSrc st, srcSize st, srcNum st)
     in (b, st\<lparr>srcDst := a1, srcSrc := a2, srcSize := a3, srcNum := n\<rparr>) else (True, st))"

definition expand_dst :: "int \<Rightarrow> FuseRegionStatus \<Rightarrow> bool \<times> FuseRegionStatus" where
  "expand_dst e st = (if e > 0 then
     let (b, a1, a2, a3, n) = expandStrideSize (dstNum st) e (dstSrc st, dstDst st, dstSize st, dstNum st)
     in (b, st\<lparr>dstSrc := a1, dstDst := a2, dstSize := a3, dstNum := n\<rparr>) else (True, st))"

text \<open>The reordering of the source's axes along the target's.\<close>

definition reorder_axes :: "FuseRegionStatus \<Rightarrow> bool \<times> FuseRegionStatus" where
  "reorder_axes st = fold (\<lambda>i (ok, st).
     if \<not> ok then (False, st)
     else case filter (\<lambda>j. dstSrc st ! j = srcDst st ! i) [0..<dstNum st] of
       [] \<Rightarrow> (False, st)
     | index # _ \<Rightarrow> (True, st\<lparr>newSrc := (newSrc st)[index := srcSrc st ! i], newSrcSize := (newSrcSize st)[index := srcSize st ! i]\<rparr>))
     [0..<srcNum st] (True, st)"

text \<open>The end: the ranges of indices, and the offsets moved to their start; the loop stops at an empty range.\<close>

primrec shift_offsets :: "nat list \<Rightarrow> FuseRegionStatus \<Rightarrow> FuseRegionStatus" where
  "shift_offsets [] st = st"
| "shift_offsets (i # is) st =
     (if dstMax st ! i \<le> dstMin st ! i then st\<lparr>dstSize := [0, 0, 0]\<rparr>
      else shift_offsets is (if dstMin st ! i > 0 then
        st\<lparr>newDstOffset := newDstOffset st + dstMin st ! i * dstDst st ! i,
           newSrcOffset := newSrcOffset st + dstMin st ! i * newSrc st ! i\<rparr> else st))"

definition fuse_compute :: "Region \<Rightarrow> Region \<Rightarrow> FuseRegionStatus \<Rightarrow> bool \<times> FuseRegionStatus" where
  "fuse_compute srcReg dstReg st =
     (let st = st\<lparr>newSrcOffset := offsetCompute srcReg (voffset (rsrc dstReg)) (voffset (rdst srcReg)) True + voffset (rsrc srcReg)\<rparr>;
          (valid, mx, mn) = ClipDst (dstSrc st) (voffset (rdst srcReg)) (voffset (rsrc dstReg)) (newSrcSize st) (dstSize st) (dstNum st) (dstMax st, dstMin st);
          st = st\<lparr>dstMax := mx, dstMin := mn\<rparr>
      in if \<not> valid then (False, st)
         else (True, (shift_offsets [0..<dstNum st] (st\<lparr>newDstOffset := voffset (rdst dstReg)\<rparr>))\<lparr>mStatus := FUSE_REGION_COMPUTE\<rparr>))"

definition fuse_match :: "Region \<Rightarrow> Region \<Rightarrow> FuseRegionStatus \<Rightarrow> bool \<times> FuseRegionStatus" where
  "fuse_match srcReg dstReg st =
     (if \<not> (strides_positive srcReg \<and> strides_positive dstReg) then (False, st)
      else if isCopyRegion srcReg \<and> copyValid srcReg dstReg then (True, st\<lparr>mStatus := FUSE_SRC_COPY\<rparr>)
      else
        let st = gather_axes srcReg dstReg st;
            srcStride = padded (srcDst st) (srcNum st); dstStride = padded (dstSrc st) (dstNum st)
        in case int_diff srcStride dstStride of None \<Rightarrow> (False, st)
           | Some srcExtra \<Rightarrow>
               (case int_diff dstStride srcStride of None \<Rightarrow> (False, st)
                | Some dstExtra \<Rightarrow>
                    let (ok, st) = expand_src dstExtra st
                    in if \<not> ok then (False, st)
                       else let (ok, st) = expand_dst srcExtra st
                            in if \<not> ok then (False, st)
                               else let (ok, st) = reorder_axes st
                                    in if \<not> ok then (False, st) else fuse_compute srcReg dstReg st))"

text \<open>\<open>apply\<close>; \<open>expandIdx\<close> is a member, so \<open>apply\<close> may change the state as well.\<close>

definition apply_compute :: "Region \<Rightarrow> Region \<Rightarrow> FuseRegionStatus \<Rightarrow> Region \<times> FuseRegionStatus" where
  "apply_compute srcReg dstReg st =
     (let ofs = 3 - dstNum st;
          ext = (\<lambda>i. dstMax st ! i - dstMin st ! i);
          sz = fold (\<lambda>i sz. sz[i + ofs := ext i]) [0..<dstNum st] [1, 1, 1];
          valid = (\<lambda>i. i < dstNum st \<and> dstSize st ! i > 1);
          e = (if dstNum st > sizeNum st then
                 fold (\<lambda>i e. if dstSize st ! i = 1 then int i else e) (rev [0..<dstNum st]) (expandIdx st)
               else expandIdx st);
          (_, ss, ds) = fold (\<lambda>i (idx, ss, ds). if valid i \<or> int i = e
               then (idx + 1, ss[i + ofs := newSrc st ! idx], ds[i + ofs := dstDst st ! idx]) else (idx, ss, ds))
             [0, 1, 2] (0, [0, 0, 0], [0, 0, 0])
      in (\<lparr>rsrc = \<lparr>voffset = newSrcOffset st, vstride = ss\<rparr>, rdst = \<lparr>voffset = newDstOffset st, vstride = ds\<rparr>,
           rsize = sz, rorigin = rorigin srcReg\<rparr>, st\<lparr>expandIdx := e\<rparr>))"

definition fuse_apply :: "Region \<Rightarrow> Region \<Rightarrow> FuseRegionStatus \<Rightarrow> Region \<times> FuseRegionStatus" where
  "fuse_apply srcReg dstReg st =
     (case mStatus st of
        FUSE_SRC_COPY \<Rightarrow>
          (dstReg\<lparr>rorigin := rorigin srcReg,
             rsrc := (rsrc dstReg)\<lparr>voffset := voffset (rsrc dstReg) + (voffset (rsrc srcReg) - voffset (rdst srcReg))\<rparr>\<rparr>, st)
      | FUSE_REGION_COMPUTE \<Rightarrow>
          if dstSize st ! 0 = 0 then (dstReg\<lparr>rsize := (rsize dstReg)[0 := 0], rorigin := None\<rparr>, st)
          else apply_compute srcReg dstReg st)"

end
