(* ===== verification/Region_Fuse.thy ===== *)
theory Region_Fuse
  imports Region_Model
begin

text \<open>
  Regions as sets of pairs of offsets: a box of indices with two linear maps. \<open>box\<close> does not depend on the
  order of its axes nor on axes of one element, and the composition of two boxes along equal strides
  is a box again; from this the fusion of regions is correct where the ranges are not clipped.
\<close>

section \<open>Boxes\<close>

definition box :: "nat \<Rightarrow> (nat \<Rightarrow> int) \<Rightarrow> (nat \<Rightarrow> int) \<Rightarrow> (nat \<Rightarrow> int) \<Rightarrow> (int \<times> int) set" where
  "box n sz dd ss = {(\<Sum>j<n. f j * dd j, \<Sum>j<n. f j * ss j) |f. \<forall>j<n. 0 \<le> f j \<and> f j < sz j}"

definition shift :: "int \<Rightarrow> int \<Rightarrow> (int \<times> int) set \<Rightarrow> (int \<times> int) set" where
  "shift p q B = (\<lambda>(x, y). (p + x, q + y)) ` B"

lemma boxI: "(\<And>j. j < n \<Longrightarrow> 0 \<le> f j \<and> f j < sz j) \<Longrightarrow> x = (\<Sum>j<n. f j * dd j) \<Longrightarrow> y = (\<Sum>j<n. f j * ss j) \<Longrightarrow> (x, y) \<in> box n sz dd ss"
  unfolding box_def by blast

lemma shift_box: "(d, m) \<in> shift b p (box n k dd w) \<longleftrightarrow>
    (\<exists>f. (\<forall>j<n. 0 \<le> f j \<and> f j < k j) \<and> d = b + (\<Sum>j<n. f j * dd j) \<and> m = p + (\<Sum>j<n. f j * w j))"
proof
  assume "(d, m) \<in> shift b p (box n k dd w)"
  then obtain e where e: "e \<in> box n k dd w" "(d, m) = (b + fst e, p + snd e)" by (auto simp: shift_def)
  then show "\<exists>f. (\<forall>j<n. 0 \<le> f j \<and> f j < k j) \<and> d = b + (\<Sum>j<n. f j * dd j) \<and> m = p + (\<Sum>j<n. f j * w j)"
    unfolding box_def by auto
next
  assume "\<exists>f. (\<forall>j<n. 0 \<le> f j \<and> f j < k j) \<and> d = b + (\<Sum>j<n. f j * dd j) \<and> m = p + (\<Sum>j<n. f j * w j)"
  then obtain f where f: "\<forall>j<n. 0 \<le> f j \<and> f j < k j" "d = b + (\<Sum>j<n. f j * dd j)" "m = p + (\<Sum>j<n. f j * w j)" by blast
  have "(\<Sum>j<n. f j * dd j, \<Sum>j<n. f j * w j) \<in> box n k dd w" by (rule boxI) (use f(1) in simp_all)
  then show "(d, m) \<in> shift b p (box n k dd w)" unfolding f(2,3) shift_def by force
qed

lemma box_cong:
  assumes "\<And>j. j < n \<Longrightarrow> sz j = sz' j \<and> dd j = dd' j \<and> ss j = ss' j"
  shows "box n sz dd ss = box n sz' dd' ss'"
proof -
  have "(\<Sum>j<n. f j * dd j) = (\<Sum>j<n. f j * dd' j)" "(\<Sum>j<n. f j * ss j) = (\<Sum>j<n. f j * ss' j)" for f :: "nat \<Rightarrow> int"
    by (rule sum.cong; use assms in simp)+
  moreover have "(\<forall>j<n. 0 \<le> f j \<and> f j < sz j) \<longleftrightarrow> (\<forall>j<n. 0 \<le> f j \<and> f j < sz' j)" for f using assms by auto
  ultimately show ?thesis unfolding box_def by simp
qed

lemma box_reindex:
  assumes h: "bij_betw h {..<m} I" and I: "I \<subseteq> {..<n}" and one: "\<And>i. i < n \<Longrightarrow> i \<notin> I \<Longrightarrow> sz i = 1"
  shows "box n sz dd ss = box m (\<lambda>j. sz (h j)) (\<lambda>j. dd (h j)) (\<lambda>j. ss (h j))"
proof
  have sum_I: "(\<Sum>i<n. f i * w i) = (\<Sum>j<m. f (h j) * w (h j))" if "\<And>i. i < n \<Longrightarrow> i \<notin> I \<Longrightarrow> f i = 0" for f w :: "nat \<Rightarrow> int"
  proof -
    have "(\<Sum>i<n. f i * w i) = (\<Sum>i\<in>I. f i * w i)" by (rule sum.mono_neutral_right) (use I that in auto)
    then show ?thesis using sum.reindex_bij_betw [OF h, of "\<lambda>i. f i * w i"] by simp
  qed
  have hI: "h j \<in> I" if "j < m" for j using h that by (auto simp: bij_betw_def)
  show "box n sz dd ss \<subseteq> box m (\<lambda>j. sz (h j)) (\<lambda>j. dd (h j)) (\<lambda>j. ss (h j))"
  proof
    fix e assume "e \<in> box n sz dd ss"
    then obtain f where f: "\<And>j. j < n \<Longrightarrow> 0 \<le> f j \<and> f j < sz j" and e: "e = (\<Sum>j<n. f j * dd j, \<Sum>j<n. f j * ss j)"
      unfolding box_def by blast
    have "f i = 0" if "i < n" "i \<notin> I" for i using f [OF that(1)] one [OF that] by simp
    then show "e \<in> box m (\<lambda>j. sz (h j)) (\<lambda>j. dd (h j)) (\<lambda>j. ss (h j))"
      unfolding e using f hI I by (intro boxI [of _ "\<lambda>j. f (h j)"] sum_I) auto
  qed
  show "box m (\<lambda>j. sz (h j)) (\<lambda>j. dd (h j)) (\<lambda>j. ss (h j)) \<subseteq> box n sz dd ss"
  proof
    fix e assume "e \<in> box m (\<lambda>j. sz (h j)) (\<lambda>j. dd (h j)) (\<lambda>j. ss (h j))"
    then obtain g where g: "\<And>j. j < m \<Longrightarrow> 0 \<le> g j \<and> g j < sz (h j)"
      and e: "e = (\<Sum>j<m. g j * dd (h j), \<Sum>j<m. g j * ss (h j))" unfolding box_def by blast
    define f where "f i = (if i \<in> I then g (the_inv_into {..<m} h i) else 0)" for i
    have inv: "the_inv_into {..<m} h (h j) = j" if "j < m" for j
      using h that by (intro the_inv_into_f_f) (auto simp: bij_betw_def)
    have fh: "f (h j) = g j" if "j < m" for j using hI [OF that] inv [OF that] by (simp add: f_def)
    have "(\<Sum>i<n. f i * w i) = (\<Sum>j<m. g j * w (h j))" for w
      using sum_I [of f w] fh by (simp add: f_def)
    moreover have "0 \<le> f i \<and> f i < sz i" if "i < n" for i
    proof (cases "i \<in> I")
      case True
      then obtain j where "j < m" "i = h j" using h by (auto simp: bij_betw_def)
      then show ?thesis using g fh by simp
    next
      case False
      then show ?thesis using one [OF that False] by (simp add: f_def)
    qed
    ultimately show "e \<in> box n sz dd ss" unfolding e by (intro boxI [of _ f]) auto
  qed
qed

text \<open>The composition: what the second box reads, moved by \<open>o\<close> along the axes, lies in the first one.\<close>

lemma box_compose:
  assumes fit: "\<And>j. j < n \<Longrightarrow> 0 \<le> ofs j \<and> ofs j + k j \<le> sz j"
    and start: "q + (\<Sum>j<n. ofs j * w j) = p'"
  shows "(d, m) \<in> shift b p' (box n k dd w) \<Longrightarrow>
      \<exists>s. (m, s) \<in> shift q r (box n sz w ss) \<and> (d, s) \<in> shift b (r + (\<Sum>j<n. ofs j * ss j)) (box n k dd ss)"
    and "(d, s) \<in> shift b (r + (\<Sum>j<n. ofs j * ss j)) (box n k dd ss) \<Longrightarrow>
      \<exists>m. (d, m) \<in> shift b p' (box n k dd w) \<and> (m, s) \<in> shift q r (box n sz w ss)"
proof -
  have inner: "(p' + (\<Sum>j<n. f j * w j), r + (\<Sum>j<n. ofs j * ss j) + (\<Sum>j<n. f j * ss j)) \<in> shift q r (box n sz w ss)"
    if f: "\<forall>j<n. 0 \<le> f j \<and> f j < k j" for f
    unfolding shift_box
  proof (intro exI [of _ "\<lambda>j. ofs j + f j"] conjI allI impI)
    fix j assume "j < n"
    then show "0 \<le> ofs j + f j" "ofs j + f j < sz j" using fit f by fastforce+
  qed (use start in \<open>simp_all add: distrib_right sum.distrib\<close>)
  show "\<exists>s. (m, s) \<in> shift q r (box n sz w ss) \<and> (d, s) \<in> shift b (r + (\<Sum>j<n. ofs j * ss j)) (box n k dd ss)"
    if dm: "(d, m) \<in> shift b p' (box n k dd w)"
  proof -
    obtain f where f: "\<forall>j<n. 0 \<le> f j \<and> f j < k j" "d = b + (\<Sum>j<n. f j * dd j)" "m = p' + (\<Sum>j<n. f j * w j)"
      using dm unfolding shift_box by blast
    have "(d, r + (\<Sum>j<n. ofs j * ss j) + (\<Sum>j<n. f j * ss j)) \<in> shift b (r + (\<Sum>j<n. ofs j * ss j)) (box n k dd ss)"
      unfolding shift_box using f(1,2) by blast
    then show ?thesis using inner [OF f(1)] f(3) by blast
  qed
  show "\<exists>m. (d, m) \<in> shift b p' (box n k dd w) \<and> (m, s) \<in> shift q r (box n sz w ss)"
    if ds: "(d, s) \<in> shift b (r + (\<Sum>j<n. ofs j * ss j)) (box n k dd ss)"
  proof -
    obtain f where f: "\<forall>j<n. 0 \<le> f j \<and> f j < k j" "d = b + (\<Sum>j<n. f j * dd j)"
        "s = r + (\<Sum>j<n. ofs j * ss j) + (\<Sum>j<n. f j * ss j)"
      using ds unfolding shift_box by blast
    have "(d, p' + (\<Sum>j<n. f j * w j)) \<in> shift b p' (box n k dd w)" unfolding shift_box using f(1,2) by blast
    then show ?thesis using inner [OF f(1)] f(3) by blast
  qed
qed

section \<open>The elements of a region\<close>

lemma set_loops: "(d, s) \<in> set [(D z y x, S z y x). z \<leftarrow> [0..a - 1], y \<leftarrow> [0..b - 1], x \<leftarrow> [0..c - 1]] \<longleftrightarrow>
    (\<exists>z y x. 0 \<le> z \<and> z < (a :: int) \<and> 0 \<le> y \<and> y < (b :: int) \<and> 0 \<le> x \<and> x < (c :: int) \<and> d = D z y x \<and> s = S z y x)"
  by (auto simp: image_iff) (metis atLeastAtMost_iff zle_diff1_eq)+

lemma region_elements_iff: "(d, s) \<in> set (region_elements r) \<longleftrightarrow>
    (\<exists>z y x. 0 \<le> z \<and> z < rsize r ! 0 \<and> 0 \<le> y \<and> y < rsize r ! 1 \<and> 0 \<le> x \<and> x < rsize r ! 2 \<and>
      d = voffset (rdst r) + z * vstride (rdst r) ! 0 + y * vstride (rdst r) ! 1 + x * vstride (rdst r) ! 2 \<and>
      s = voffset (rsrc r) + z * vstride (rsrc r) ! 0 + y * vstride (rsrc r) ! 1 + x * vstride (rsrc r) ! 2)"
  unfolding region_elements_def set_loops ..

lemma region_elements_box:
  "(d, s) \<in> set (region_elements r) \<longleftrightarrow> (d, s) \<in> shift (voffset (rdst r)) (voffset (rsrc r))
     (box 3 (\<lambda>i. rsize r ! i) (\<lambda>i. vstride (rdst r) ! i) (\<lambda>i. vstride (rsrc r) ! i))"
proof -
  have sum3: "(\<Sum>j<3. g j) = g 0 + g 1 + g 2" for g :: "nat \<Rightarrow> int" by (simp add: numeral_3_eq_3 numeral_2_eq_2)
  have all3: "(\<forall>j<3. P j) \<longleftrightarrow> P 0 \<and> P 1 \<and> P 2" for P :: "nat \<Rightarrow> bool"
    by (auto simp: numeral_3_eq_3 numeral_2_eq_2 less_Suc_eq)
  show ?thesis
  proof
    assume "(d, s) \<in> set (region_elements r)"
    then obtain z y x where "0 \<le> z" "z < rsize r ! 0" "0 \<le> y" "y < rsize r ! 1" "0 \<le> x" "x < rsize r ! 2"
      "d = voffset (rdst r) + z * vstride (rdst r) ! 0 + y * vstride (rdst r) ! 1 + x * vstride (rdst r) ! 2"
      "s = voffset (rsrc r) + z * vstride (rsrc r) ! 0 + y * vstride (rsrc r) ! 1 + x * vstride (rsrc r) ! 2"
      unfolding region_elements_iff by blast
    then show "(d, s) \<in> shift (voffset (rdst r)) (voffset (rsrc r))
        (box 3 (\<lambda>i. rsize r ! i) (\<lambda>i. vstride (rdst r) ! i) (\<lambda>i. vstride (rsrc r) ! i))"
      unfolding shift_box all3 sum3 by (intro exI [of _ "\<lambda>j. if j = 0 then z else if j = 1 then y else x"]) simp
  next
    assume "(d, s) \<in> shift (voffset (rdst r)) (voffset (rsrc r))
        (box 3 (\<lambda>i. rsize r ! i) (\<lambda>i. vstride (rdst r) ! i) (\<lambda>i. vstride (rsrc r) ! i))"
    then obtain f :: "nat \<Rightarrow> int" where f: "(0 \<le> f 0 \<and> f 0 < rsize r ! 0) \<and> (0 \<le> f 1 \<and> f 1 < rsize r ! 1) \<and> 0 \<le> f 2 \<and> f 2 < rsize r ! 2"
      "d = voffset (rdst r) + (f 0 * vstride (rdst r) ! 0 + f 1 * vstride (rdst r) ! 1 + f 2 * vstride (rdst r) ! 2) \<and>
      s = voffset (rsrc r) + (f 0 * vstride (rsrc r) ! 0 + f 1 * vstride (rsrc r) ! 1 + f 2 * vstride (rsrc r) ! 2)"
      unfolding shift_box all3 sum3 by (elim exE conjE) (rule that; intro conjI; assumption)
    then show "(d, s) \<in> set (region_elements r)"
      unfolding region_elements_iff by (intro exI [of _ "f 0"] exI [of _ "f 1"] exI [of _ "f 2"]) simp
  qed
qed

definition put :: "(int \<Rightarrow> 'v) \<Rightarrow> int \<times> int \<Rightarrow> (int \<Rightarrow> 'v) \<Rightarrow> int \<Rightarrow> 'v" where
  "put S e m = m(fst e := S (snd e))"

lemma computeRaw_fold: "computeRaw D S r = fold (put S) (region_elements r) D"
proof -
  have "(\<lambda>(d, s) m. m(d := S s)) = put S" by (auto simp: put_def fun_eq_iff)
  then show ?thesis unfolding computeRaw_def by (rule arg_cong)
qed

lemma put_at: "put S e m d = (if fst e = d then S (snd e) else m d)"
  by (simp add: put_def)

lemma fold_put:
  "(d, s) \<in> set es \<Longrightarrow> (\<And>s'. (d, s') \<in> set es \<Longrightarrow> S s' = S s) \<Longrightarrow> fold (put S) es D d = S s"
proof (induction es rule: rev_induct)
  case (snoc e es)
  have u: "fold (put S) (es @ [e]) D d = (if fst e = d then S (snd e) else fold (put S) es D d)"
    unfolding put_at [symmetric] by simp
  show ?case
  proof (cases "fst e = d")
    case True
    then have "S (snd e) = S s" by (intro snoc.prems(2)) (cases e; simp)
    then show ?thesis unfolding u using True by simp
  next
    case False
    then have "(d, s) \<in> set es" using snoc.prems(1) by auto
    moreover have "S s' = S s" if "(d, s') \<in> set es" for s' using snoc.prems(2) [of s'] that by simp
    ultimately have "fold (put S) es D d = S s" by (rule snoc.IH)
    then show ?thesis unfolding u using False by simp
  qed
qed simp

lemma computeRaw_write:
  "(d, s) \<in> set (region_elements r) \<Longrightarrow> (\<And>s'. (d, s') \<in> set (region_elements r) \<Longrightarrow> S s' = S s) \<Longrightarrow>
   computeRaw D S r d = S s"
  unfolding computeRaw_fold by (rule fold_put)

lemma computeRaw_keep: "d \<notin> fst ` set (region_elements r) \<Longrightarrow> computeRaw D S r d = D d"
proof -
  assume a: "d \<notin> fst ` set (region_elements r)"
  have "fold (put S) es D d = D d" if "d \<notin> fst ` set es" for es
    using that
  proof (induction es rule: rev_induct)
    case (snoc e es)
    have "fold (put S) (es @ [e]) D d = (if fst e = d then S (snd e) else fold (put S) es D d)"
      unfolding put_at [symmetric] by simp
    then show ?case using snoc by auto
  qed simp
  then show ?thesis using a unfolding computeRaw_fold by blast
qed

end
