(* ===== verification/Region_Steps.thy ===== *)
theory Region_Steps
  imports Region_Fuse
begin

text \<open>The steps of \<open>FuseRegionStatus\<close> on regions of which nothing is expanded or clipped.\<close>

section \<open>Shifting the source\<close>

lemma isCopyRegion_iff: "isCopyRegion r \<longleftrightarrow> (\<forall>i\<in>{0, 1, 2}. rsize r ! i > 1 \<longrightarrow> vstride (rsrc r) ! i = vstride (rdst r) ! i)"
  by (auto simp: isCopyRegion_def)

lemma axis_bound: "0 \<le> z \<Longrightarrow> z < n \<Longrightarrow> (1 < n \<Longrightarrow> 0 < t) \<Longrightarrow> 0 \<le> z * t \<and> z * t \<le> t * (n - 1)" for z n t :: int
proof (cases "1 < n")
  case True
  assume "0 \<le> z" "z < n" "1 < n \<Longrightarrow> 0 < t"
  then have "0 < t" "z \<le> n - 1" using True by auto
  then have "z * t \<le> (n - 1) * t" using mult_right_mono [of z "n - 1" t] by simp
  then show ?thesis using \<open>0 \<le> z\<close> \<open>0 < t\<close> by (simp add: mult.commute)
next
  case False
  assume "0 \<le> z" "z < n"
  then have "z = 0" "n = 1" using False by auto
  then show ?thesis by simp
qed

lemma copy_shift:
  assumes "isCopyRegion r" and "(d, s) \<in> set (region_elements r)"
  shows "s = d + (voffset (rsrc r) - voffset (rdst r))"
proof -
  obtain z y x where i: "0 \<le> z" "z < rsize r ! 0" "0 \<le> y" "y < rsize r ! 1" "0 \<le> x" "x < rsize r ! 2"
    and e: "d = voffset (rdst r) + z * vstride (rdst r) ! 0 + y * vstride (rdst r) ! 1 + x * vstride (rdst r) ! 2"
      "s = voffset (rsrc r) + z * vstride (rsrc r) ! 0 + y * vstride (rsrc r) ! 1 + x * vstride (rsrc r) ! 2"
    using assms(2) unfolding region_elements_iff by blast
  have eq: "k * vstride (rsrc r) ! j = k * vstride (rdst r) ! j" if "0 \<le> k" "k < rsize r ! j" "j \<in> {0, 1, 2}" for k j
  proof (cases "1 < rsize r ! j")
    case True
    then have "vstride (rsrc r) ! j = vstride (rdst r) ! j" using assms(1) that(3) unfolding isCopyRegion_iff by blast
    then show ?thesis by simp
  next
    case False
    then show ?thesis using that(1,2) by simp
  qed
  have "z * vstride (rsrc r) ! 0 = z * vstride (rdst r) ! 0" by (rule eq [OF i(1,2)]) simp
  moreover have "y * vstride (rsrc r) ! 1 = y * vstride (rdst r) ! 1" by (rule eq [OF i(3,4)]) simp
  moreover have "x * vstride (rsrc r) ! 2 = x * vstride (rdst r) ! 2" by (rule eq [OF i(5,6)]) simp
  ultimately show ?thesis unfolding e by presburger
qed

lemma source_range:
  assumes "strides_positive r" and "(d, s) \<in> set (region_elements r)"
  shows "voffset (rsrc r) \<le> s \<and> s \<le> fold (\<lambda>i m. m + vstride (rsrc r) ! i * (rsize r ! i - 1)) [0, 1, 2] (voffset (rsrc r))"
proof -
  obtain z y x where i: "0 \<le> z" "z < rsize r ! 0" "0 \<le> y" "y < rsize r ! 1" "0 \<le> x" "x < rsize r ! 2"
    and e: "s = voffset (rsrc r) + z * vstride (rsrc r) ! 0 + y * vstride (rsrc r) ! 1 + x * vstride (rsrc r) ! 2"
    using assms(2) unfolding region_elements_iff by blast
  have p: "1 < rsize r ! j \<Longrightarrow> 0 < vstride (rsrc r) ! j" if "j \<in> {0, 1, 2}" for j
    using assms(1) that by (auto simp: strides_positive_def)
  have "0 \<le> z * vstride (rsrc r) ! 0 \<and> z * vstride (rsrc r) ! 0 \<le> vstride (rsrc r) ! 0 * (rsize r ! 0 - 1)"
    by (rule axis_bound [OF i(1,2)]) (rule p; simp)
  moreover have "0 \<le> y * vstride (rsrc r) ! 1 \<and> y * vstride (rsrc r) ! 1 \<le> vstride (rsrc r) ! 1 * (rsize r ! 1 - 1)"
    by (rule axis_bound [OF i(3,4)]) (rule p; simp)
  moreover have "0 \<le> x * vstride (rsrc r) ! 2 \<and> x * vstride (rsrc r) ! 2 \<le> vstride (rsrc r) ! 2 * (rsize r ! 2 - 1)"
    by (rule axis_bound [OF i(5,6)]) (rule p; simp)
  ultimately show ?thesis unfolding e by simp
qed

text \<open>What the source region fills between its first and its last target offset.\<close>

definition dense :: "Region \<Rightarrow> bool" where
  "dense r \<longleftrightarrow> (\<forall>m. voffset (rdst r) \<le> m \<longrightarrow>
     m \<le> fold (\<lambda>i m. m + vstride (rdst r) ! i * (rsize r ! i - 1)) [0, 1, 2] (voffset (rdst r)) \<longrightarrow>
     m \<in> fst ` set (region_elements r))"

lemma computeRaw_copy:
  assumes "isCopyRegion r" and "m \<in> fst ` set (region_elements r)"
  shows "computeRaw M S r m = S (m + (voffset (rsrc r) - voffset (rdst r)))"
proof -
  obtain s where s: "(m, s) \<in> set (region_elements r)" using assms(2) by auto
  have "computeRaw M S r m = S s" by (rule computeRaw_write [OF s]) (use copy_shift [OF assms(1)] s in blast)
  then show ?thesis using copy_shift [OF assms(1) s] by simp
qed

lemma fold_put_map:
  assumes "\<And>d s. (d, s) \<in> set es \<Longrightarrow> S s = S' (s + k)"
  shows "fold (put S) es D = fold (put S') (map (\<lambda>(d, s). (d, s + k)) es) D"
  using assms
proof (induction es arbitrary: D)
  case (Cons e es)
  have "put S e D = put S' (fst e, snd e + k) D" using Cons.prems [of "fst e" "snd e"] by (simp add: put_def)
  moreover have "fold (put S) es D = fold (put S') (map (\<lambda>(d, s). (d, s + k)) es) D" for D
    
  proof (rule Cons.IH)
    show "S s = S' (s + k)" if "(d, s) \<in> set es" for d s by (rule Cons.prems [of d]) (use that in simp)
  qed
  ultimately show ?case by (cases e) simp
qed simp

lemma region_elements_move:
  "region_elements (r\<lparr>rorigin := t, rsrc := (rsrc r)\<lparr>voffset := voffset (rsrc r) + k\<rparr>\<rparr>) = map (\<lambda>(d, s). (d, s + k)) (region_elements r)"
  by (simp add: region_elements_def map_concat comp_def algebra_simps)

lemma fuse_match_copy:
  assumes "fuse_match srcReg dstReg st = (True, st')" and "mStatus st' = FUSE_SRC_COPY"
  shows "strides_positive dstReg \<and> isCopyRegion srcReg \<and> copyValid srcReg dstReg"
  using assms by (auto simp: fuse_match_def fuse_compute_def Let_def split: if_splits option.splits prod.splits)

end
