(* ===== verification/Region_Gather.thy ===== *)
theory Region_Gather
  imports Region_Steps "HOL-Library.Multiset"
begin

text \<open>
  The other way of fusing: the strides of the two regions are matched, the axes of the source put in the
  order of the target's, and the offsets and ranges computed along them. The lemmas here follow
  \<open>fuse_match\<close> step by step where no stride has to be expanded (\<open>aligned\<close>).
\<close>

section \<open>Regions that match without expansion\<close>

definition wide :: "Region \<Rightarrow> nat list" where
  "wide r = filter (\<lambda>i. rsize r ! i > 1) [0, 1, 2]"

abbreviation along :: "View \<Rightarrow> Region \<Rightarrow> int list" where
  "along v r \<equiv> map (\<lambda>i. vstride v ! i) (wide r)"

definition aligned :: "Region \<Rightarrow> Region \<Rightarrow> bool" where
  "aligned srcReg dstReg \<longleftrightarrow> sorted_wrt (>) (along (rdst srcReg) srcReg) \<and>
     mset (along (rsrc dstReg) dstReg) = mset (along (rdst srcReg) srcReg) \<and>
     list_all (\<lambda>i. rsize srcReg ! i \<ge> 1 \<and> rsize dstReg ! i \<ge> 1) [0, 1, 2]"

definition arrays3 :: "FuseRegionStatus \<Rightarrow> bool" where
  "arrays3 st \<longleftrightarrow> list_all (\<lambda>xs. length xs = 3)
     [srcDst st, srcSrc st, dstSrc st, dstDst st, srcSize st, dstSize st, newSrc st, newSrcSize st, dstMin st, dstMax st]"

lemma wide_props: "distinct (wide r)" "set (wide r) \<subseteq> {..<3}" "length (wide r) \<le> 3"
  "\<And>k. k < length (wide r) \<Longrightarrow> wide r ! k < 3 \<and> rsize r ! (wide r ! k) > 1"
proof -
  show "distinct (wide r)" "set (wide r) \<subseteq> {..<3}" by (auto simp: wide_def)
  show "length (wide r) \<le> 3" using length_filter_le [of _ "[0, 1, 2::nat]"] by (simp add: wide_def)
  show "wide r ! k < 3 \<and> rsize r ! (wide r ! k) > 1" if "k < length (wide r)" for k
    using nth_mem [OF that] unfolding wide_def set_filter by auto
qed

section \<open>Gathering the axes\<close>

definition gathered :: "Region \<Rightarrow> Region \<Rightarrow> FuseRegionStatus \<Rightarrow> bool" where
  "gathered srcReg dstReg st \<longleftrightarrow> arrays3 st \<and> srcNum st = length (wide srcReg) \<and> dstNum st = length (wide dstReg) \<and>
     sizeNum st = dstNum st \<and> expandIdx st = -1 \<and>
     take (srcNum st) (srcDst st) = along (rdst srcReg) srcReg \<and> take (srcNum st) (srcSrc st) = along (rsrc srcReg) srcReg \<and>
     take (srcNum st) (srcSize st) = map ((!) (rsize srcReg)) (wide srcReg) \<and>
     take (dstNum st) (dstSrc st) = along (rsrc dstReg) dstReg \<and> take (dstNum st) (dstDst st) = along (rdst dstReg) dstReg \<and>
     take (dstNum st) (dstSize st) = map ((!) (rsize dstReg)) (wide dstReg)"

lemma length3E: "length xs = 3 \<Longrightarrow> (\<And>a b c. xs = [a, b, c] \<Longrightarrow> P) \<Longrightarrow> P"
  by (auto simp: numeral_3_eq_3 length_Suc_conv)

lemma gather_axes_gathered:
  assumes "arrays3 st"
  shows "gathered srcReg dstReg (gather_axes srcReg dstReg st)"
proof -
  have len: "length (srcDst st) = 3" "length (srcSrc st) = 3" "length (srcSize st) = 3"
    "length (dstSrc st) = 3" "length (dstDst st) = 3" "length (dstSize st) = 3"
    using assms by (simp_all add: arrays3_def)
  show ?thesis
    by (rule length3E [OF len(1)], rule length3E [OF len(2)], rule length3E [OF len(3)],
        rule length3E [OF len(4)], rule length3E [OF len(5)], rule length3E [OF len(6)],
        cases "rsize srcReg ! 0 > 1"; cases "rsize srcReg ! 1 > 1"; cases "rsize srcReg ! 2 > 1";
        cases "rsize dstReg ! 0 > 1"; cases "rsize dstReg ! 1 > 1"; cases "rsize dstReg ! 2 > 1")
      (use assms in \<open>simp_all add: gathered_def gather_axes_def wide_def arrays3_def\<close>)
qed

lemma take_nth: "take n xs = map f ys \<Longrightarrow> n = length ys \<Longrightarrow> k < n \<Longrightarrow> xs ! k = f (ys ! k)"
  by (metis nth_map nth_take)

lemma gathered_nth:
  assumes "gathered srcReg dstReg st"
  shows "k < srcNum st \<Longrightarrow> srcDst st ! k = vstride (rdst srcReg) ! (wide srcReg ! k)"
    and "k < srcNum st \<Longrightarrow> srcSrc st ! k = vstride (rsrc srcReg) ! (wide srcReg ! k)"
    and "k < srcNum st \<Longrightarrow> srcSize st ! k = rsize srcReg ! (wide srcReg ! k)"
    and "k < dstNum st \<Longrightarrow> dstSrc st ! k = vstride (rsrc dstReg) ! (wide dstReg ! k)"
    and "k < dstNum st \<Longrightarrow> dstDst st ! k = vstride (rdst dstReg) ! (wide dstReg ! k)"
    and "k < dstNum st \<Longrightarrow> dstSize st ! k = rsize dstReg ! (wide dstReg ! k)"
  using assms unfolding gathered_def by (auto elim!: take_nth)

text \<open>Aligned regions: an order \<open>\<pi>\<close> of the target's axes that follows the source's strides.\<close>

lemma aligned_order:
  assumes g: "gathered srcReg dstReg st" and al: "aligned srcReg dstReg"
  shows "srcNum st = dstNum st" "dstNum st \<le> 3" "distinct (take (dstNum st) (dstSrc st))"
    "sorted_wrt (>) (take (dstNum st) (srcDst st))" "mset (take (dstNum st) (dstSrc st)) = mset (take (dstNum st) (srcDst st))"
proof -
  have "length (along (rsrc dstReg) dstReg) = length (along (rdst srcReg) srcReg)"
    using al unfolding aligned_def by (metis size_mset)
  then show eq: "srcNum st = dstNum st" using g by (simp add: gathered_def)
  show "dstNum st \<le> 3" using g wide_props(3) by (simp add: gathered_def)
  have t: "take (dstNum st) (dstSrc st) = along (rsrc dstReg) dstReg" "take (dstNum st) (srcDst st) = along (rdst srcReg) srcReg"
    using g unfolding gathered_def eq by blast+
  show "sorted_wrt (>) (take (dstNum st) (srcDst st))" "mset (take (dstNum st) (dstSrc st)) = mset (take (dstNum st) (srcDst st))"
    using al unfolding t aligned_def by blast+
  note s = this
  have "distinct xs" if "sorted_wrt (>) xs" for xs :: "int list" using that by (induction xs) auto
  then have "distinct (take (dstNum st) (srcDst st))" using s(1) by blast
  then show "distinct (take (dstNum st) (dstSrc st))" using s(2) by (metis mset_eq_imp_distinct_iff)
qed

end
