(* ===== verification/Region_Compute.thy ===== *)
theory Region_Compute
  imports Region_Gather
begin

text \<open>
  The steps of \<open>fuse_match\<close> after the gathering, for aligned regions: no stride is left over, the source's
  axes go to the target's places \<open>vs ! i\<close>, and both \<open>offsetCompute\<close> and \<open>_ClipDst\<close> divide the two offsets by
  the falling strides one after the other (\<open>greedy\<close>).
\<close>

section \<open>The order of the axes\<close>

lemma sorted_desc_unique:
  fixes xs ys :: "int list"
  assumes "sorted_wrt (>) xs" "sorted_wrt (>) ys" "mset xs = mset ys"
  shows "xs = ys"
proof -
  have "sorted (rev zs)" if "sorted_wrt (>) zs" for zs :: "int list"
    using that by (induction zs) (auto simp: sorted_append less_imp_le)
  then have "sort (rev ys) = rev xs" "sort (rev ys) = rev ys" using assms by (auto intro!: properties_for_sort)
  then show ?thesis by simp
qed

lemma validIndex_sorts:
  assumes "n \<le> 3" and "length xs = 3" and "distinct (take n xs)"
  shows "mset (take n (validIndex xs n)) = mset [0..<n] \<and> sorted_wrt (>) (map ((!) xs) (take n (validIndex xs n)))"
proof (rule length3E [OF assms(2)])
  fix a b c assume xs: "xs = [a, b, c]"
  have "n = 0 \<or> n = 1 \<or> n = 2 \<or> n = 3" using assms(1) by auto
  then show ?thesis
  proof (elim disjE)
    assume n: "n = 3"
    then have "a \<noteq> b" "a \<noteq> c" "b \<noteq> c" using assms(3) xs by auto
    then show ?thesis unfolding n xs by (auto simp: validIndex_def upt_rec numeral_3_eq_3)
  qed (use assms(3) in \<open>auto simp: xs validIndex_def upt_rec numeral_2_eq_2\<close>)
qed

lemma validIndex_order:
  assumes g: "gathered srcReg dstReg st" and al: "aligned srcReg dstReg" and n: "n = dstNum st"
  defines "vs \<equiv> take n (validIndex (dstSrc st) n)"
  shows "distinct vs" "set vs = {..<n}" "length vs = n" "\<And>i. i < n \<Longrightarrow> validIndex (dstSrc st) n ! i = vs ! i"
    "\<And>i. i < n \<Longrightarrow> vs ! i < n \<and> dstSrc st ! (vs ! i) = srcDst st ! i"
proof -
  note o = aligned_order [OF g al, folded n]
  have len: "length (dstSrc st) = 3" "length (srcDst st) = 3" using g by (simp_all add: gathered_def arrays3_def)
  have v: "mset vs = mset [0..<n]" "sorted_wrt (>) (map ((!) (dstSrc st)) vs)"
    using validIndex_sorts [OF o(2) len(1) o(3)] unfolding vs_def by blast+
  show d: "distinct vs" "set vs = {..<n}" "length vs = n"
    using v(1) by (metis distinct_upt mset_eq_imp_distinct_iff, metis atLeast_upt mset_eq_setD, metis diff_zero length_upt size_mset)
  show "validIndex (dstSrc st) n ! i = vs ! i" if "i < n" for i using that by (simp add: vs_def)
  have "mset (map ((!) (dstSrc st)) vs) = mset (map ((!) (dstSrc st)) [0..<n])" using v(1) by simp
  also have "map ((!) (dstSrc st)) [0..<n] = take n (dstSrc st)" using o(2) len by (simp add: take_map map_nth list_eq_iff_nth_eq)
  finally have "map ((!) (dstSrc st)) vs = take n (srcDst st)" using sorted_desc_unique v(2) o(4,5) by metis
  then have "dstSrc st ! (vs ! i) = srcDst st ! i" if "i < n" for i using that d(3) by (metis nth_map nth_take)
  then show "vs ! i < n \<and> dstSrc st ! (vs ! i) = srcDst st ! i" if "i < n" for i using that d(2,3) nth_mem by fastforce
qed

section \<open>No stride is left over\<close>

lemma int_diff_none:
  assumes "list_all (\<lambda>i. x ! i = y ! 0 \<or> x ! i = y ! 1 \<or> x ! i = y ! 2) [0, 1, 2]"
  shows "int_diff x y = Some (-1)"
  using assms by (auto simp: int_diff_def)

lemma padded_diff:
  assumes "n \<le> 3" and "set (take n xs) \<subseteq> set (take n ys)" and "length xs = 3" "length ys = 3"
  shows "int_diff (padded xs n) (padded ys n) = Some (-1)"
proof (rule length3E [OF assms(3)], rule length3E [OF assms(4)])
  fix a b c a' b' c' assume e: "xs = [a, b, c]" "ys = [a', b', c']"
  have "n = 0 \<or> n = 1 \<or> n = 2 \<or> n = 3" using assms(1) by auto
  then show ?thesis
    by (elim disjE; intro int_diff_none) (use assms(2) in \<open>auto simp: padded_def e numeral_2_eq_2 numeral_3_eq_3\<close>)
qed

section \<open>Reordering\<close>

lemma filter_single: "k < n \<Longrightarrow> (\<And>j. j < n \<Longrightarrow> P j \<longleftrightarrow> j = k) \<Longrightarrow> filter P [0..<n] = [k]"
  by (induction n) (auto simp: less_Suc_eq filter_empty_conv)

text \<open>One turn of the loop, for an axis of the source with one partner among the target's.\<close>

definition reorder_step :: "nat \<Rightarrow> bool \<times> FuseRegionStatus \<Rightarrow> bool \<times> FuseRegionStatus" where
  "reorder_step = (\<lambda>i (ok, st).
     if \<not> ok then (False, st)
     else case filter (\<lambda>j. dstSrc st ! j = srcDst st ! i) [0..<dstNum st] of
       [] \<Rightarrow> (False, st)
     | index # _ \<Rightarrow> (True, st\<lparr>newSrc := (newSrc st)[index := srcSrc st ! i], newSrcSize := (newSrcSize st)[index := srcSize st ! i]\<rparr>))"

lemma reorder_loop:
  assumes pick: "\<And>i. i < n \<Longrightarrow> filter (\<lambda>j. dstSrc st ! j = srcDst st ! i) [0..<dstNum st] = [vs ! i]"
    and vs: "distinct vs" "length vs = n" "set vs \<subseteq> {..<3}" and len: "length (newSrc st) = 3" "length (newSrcSize st) = 3"
  shows "m \<le> n \<Longrightarrow> \<exists>ns nz. fold reorder_step [0..<m] (True, st) = (True, st\<lparr>newSrc := ns, newSrcSize := nz\<rparr>) \<and>
     length ns = 3 \<and> length nz = 3 \<and> (\<forall>i<m. ns ! (vs ! i) = srcSrc st ! i \<and> nz ! (vs ! i) = srcSize st ! i)"
proof (induction m)
  case 0
  have "fold reorder_step [0..<0] (True, st) = (True, st\<lparr>newSrc := newSrc st, newSrcSize := newSrcSize st\<rparr>)" by simp
  then show ?case using len by blast
next
  case (Suc m)
  then obtain ns nz where IH: "fold reorder_step [0..<m] (True, st) = (True, st\<lparr>newSrc := ns, newSrcSize := nz\<rparr>)" "length ns = 3" "length nz = 3"
    "\<forall>i<m. ns ! (vs ! i) = srcSrc st ! i \<and> nz ! (vs ! i) = srcSize st ! i" by auto
  have m: "m < n" using Suc.prems by simp
  have "fold reorder_step [0..<Suc m] (True, st) =
      (True, st\<lparr>newSrc := ns[vs ! m := srcSrc st ! m], newSrcSize := nz[vs ! m := srcSize st ! m]\<rparr>)"
    using IH(1) pick [OF m] by (simp add: reorder_step_def)
  moreover have "vs ! m < 3" using vs(2,3) m nth_mem by fastforce
  moreover have "vs ! m \<noteq> vs ! i" if "i < m" for i using vs(1,2) m that by (simp add: nth_eq_iff_index_eq)
  ultimately show ?case using IH(2-4)
    by (intro exI [of _ "ns[vs ! m := srcSrc st ! m]"] exI [of _ "nz[vs ! m := srcSize st ! m]"]) (auto simp: less_Suc_eq)
qed

lemma reorder_axes_result:
  assumes g: "gathered srcReg dstReg st" and al: "aligned srcReg dstReg" and n: "n = dstNum st"
  defines "vs \<equiv> take n (validIndex (dstSrc st) n)"
  obtains ns nz where "reorder_axes st = (True, st\<lparr>newSrc := ns, newSrcSize := nz\<rparr>)" "length ns = 3" "length nz = 3"
    "\<forall>i<n. ns ! (vs ! i) = srcSrc st ! i \<and> nz ! (vs ! i) = srcSize st ! i"
proof -
  note v = validIndex_order [OF g al n, folded vs_def] and o = aligned_order [OF g al, folded n]
  have len: "length (newSrc st) = 3" "length (newSrcSize st) = 3" "length (dstSrc st) = 3" using g by (simp_all add: gathered_def arrays3_def)
  have only: "dstSrc st ! j = srcDst st ! i \<longleftrightarrow> j = vs ! i" if "j < n" "i < n" for i j
    using v(5) [OF that(2)] o(2) that nth_eq_iff_index_eq [OF o(3), of j "vs ! i"] len by auto
  have pick: "filter (\<lambda>j. dstSrc st ! j = srcDst st ! i) [0..<dstNum st] = [vs ! i]" if "i < n" for i
    unfolding n [symmetric] by (rule filter_single) (use v(5) [OF that] only that in simp_all)
  have sub: "set vs \<subseteq> {..<3}" unfolding v(2) using o(2) by simp
  obtain ns nz where "fold reorder_step [0..<n] (True, st) = (True, st\<lparr>newSrc := ns, newSrcSize := nz\<rparr>)"
    "length ns = 3" "length nz = 3" "\<forall>i<n. ns ! (vs ! i) = srcSrc st ! i \<and> nz ! (vs ! i) = srcSize st ! i"
    using reorder_loop [OF pick v(1,3) sub len(1,2) order_refl] by blast
  moreover have "reorder_axes st = fold reorder_step [0..<n] (True, st)" unfolding reorder_axes_def reorder_step_def o(1) ..
  ultimately show thesis using that by simp
qed

section \<open>Dividing the offsets by the strides\<close>

text \<open>The quotients of the second offset less those of the first, and what is left of the two.\<close>

primrec greedy :: "int list \<Rightarrow> int \<Rightarrow> int \<Rightarrow> int list \<times> int \<times> int" where
  "greedy [] s d = ([], s, d)"
| "greedy (t # ts) s d = (let (qs, r) = greedy ts (crem s t) (crem d t) in ((cdiv d t - cdiv s t) # qs, r))"

lemma greedy_length: "length (fst (greedy ts s d)) = length ts"
  by (induction ts arbitrary: s d) (simp_all add: case_prod_beta)

lemma greedy_sum: "greedy ts s d = (qs, s', d') \<Longrightarrow> (\<Sum>i<length ts. qs ! i * ts ! i) = (d - d') - (s - s')"
proof (induction ts arbitrary: s d qs)
  case (Cons t ts)
  obtain qs' where g: "greedy ts (crem s t) (crem d t) = (qs', s', d')" and qs: "qs = (cdiv d t - cdiv s t) # qs'"
    using Cons.prems by (cases "greedy ts (crem s t) (crem d t)") auto
  have "s = cdiv s t * t + crem s t" "d = cdiv d t * t + crem d t" by (simp_all add: crem_def)
  then show ?case using Cons.IH [OF g] unfolding qs length_Cons sum.lessThan_Suc_shift nth_Cons_0 nth_Cons_Suc left_diff_distrib by linarith
qed simp

lemma offset_loop:
  "fst (fold (\<lambda>i (res, s, d). if P i then (res + (cdiv s (T i) - cdiv d (T i)) * w i, crem s (T i), crem d (T i)) else (res, s, d)) xs (r, d, s)) =
   r + (\<Sum>k<length (filter P xs). fst (greedy (map T (filter P xs)) s d) ! k * w (filter P xs ! k))"
  by (induction xs arbitrary: r s d) (simp_all add: case_prod_beta sum.lessThan_Suc_shift del: sum.lessThan_Suc)

lemma offsetCompute_greedy:
  "offsetCompute reg d s True = (\<Sum>k<length (wide reg). fst (greedy (along (rdst reg) reg) s d) ! k * vstride (rsrc reg) ! (wide reg ! k))"
  unfolding offsetCompute_def wide_def Let_def if_True
  using offset_loop [where r = 0 and T = "\<lambda>i. vstride (rdst reg) ! i" and w = "\<lambda>i. vstride (rsrc reg) ! i"] by simp

definition clip_step :: "(nat \<Rightarrow> int) \<Rightarrow> nat \<Rightarrow> int list \<times> int \<times> int \<Rightarrow> int list \<times> int \<times> int" where
  "clip_step T v = (\<lambda>(ofs, s, d). (ofs[v := cdiv d (T v) - cdiv s (T v)], crem s (T v), crem d (T v)))"

lemma clip_step_simp: "clip_step T v (ofs, s, d) = (ofs[v := cdiv d (T v) - cdiv s (T v)], crem s (T v), crem d (T v))"
  by (simp add: clip_step_def)

lemma clip_loop:
  "distinct vs \<Longrightarrow> list_all (\<lambda>v. v < length ofs) vs \<Longrightarrow>
   \<exists>ofs'. fold (clip_step T) vs (ofs, s, d) = (ofs', snd (greedy (map T vs) s d)) \<and>
     (\<forall>i<length vs. ofs' ! (vs ! i) = fst (greedy (map T vs) s d) ! i) \<and> (\<forall>v. v \<notin> set vs \<longrightarrow> ofs' ! v = ofs ! v)"
proof (induction vs arbitrary: ofs s d)
  case (Cons v vs)
  have "list_all (\<lambda>u. u < length (ofs[v := cdiv d (T v) - cdiv s (T v)])) vs" using Cons.prems(2) by simp
  from Cons.IH [OF _ this, of "crem s (T v)" "crem d (T v)"] Cons.prems(1)
  obtain ofs' where o: "fold (clip_step T) vs (ofs[v := cdiv d (T v) - cdiv s (T v)], crem s (T v), crem d (T v)) =
        (ofs', snd (greedy (map T vs) (crem s (T v)) (crem d (T v))))"
    "\<forall>i<length vs. ofs' ! (vs ! i) = fst (greedy (map T vs) (crem s (T v)) (crem d (T v))) ! i"
    "\<forall>u. u \<notin> set vs \<longrightarrow> ofs' ! u = ofs[v := cdiv d (T v) - cdiv s (T v)] ! u" by auto
  have "ofs' ! ((v # vs) ! i) = fst (greedy (map T (v # vs)) s d) ! i" if "i < length (v # vs)" for i
    using that o(2,3) Cons.prems by (cases i) (simp_all add: case_prod_beta)
  moreover have "ofs' ! u = ofs ! u" if "u \<notin> set (v # vs)" for u using that o(3) by simp
  moreover have "fold (clip_step T) (v # vs) (ofs, s, d) = (ofs', snd (greedy (map T (v # vs)) s d))"
    using o(1) by (simp add: clip_step_simp case_prod_beta)
  ultimately show ?case by blast
qed simp

lemma clip_offsets_greedy:
  assumes vs: "distinct vs" "set vs = {..<n}" "length vs = n" "\<And>i. i < n \<Longrightarrow> validIndex T n ! i = vs ! i" and n: "n \<le> 3"
  obtains ofs where "clip_offsets T n s d = (ofs, snd (greedy (map ((!) T) vs) s d))"
    "\<forall>i<n. ofs ! (vs ! i) = fst (greedy (map ((!) T) vs) s d) ! i"
proof -
  have "clip_offsets T n s d = fold (\<lambda>i. clip_step ((!) T) (vs ! i)) [0..<n] ([0, 0, 0], s, d)"
    unfolding clip_offsets_def clip_step_def by (rule fold_cong) (simp_all add: vs(4) Let_def)
  also have "\<dots> = fold (clip_step ((!) T)) (map ((!) vs) [0..<n]) ([0, 0, 0], s, d)" by (simp add: fold_map comp_def)
  also have "map ((!) vs) [0..<n] = vs" using map_nth [of vs] vs(3) by simp
  finally have "clip_offsets T n s d = fold (clip_step ((!) T)) vs ([0, 0, 0], s, d)" .
  moreover have "list_all (\<lambda>v. v < length [0, 0, 0 :: int]) vs" using vs(2) n by (auto simp: list_all_iff)
  note clip_loop [OF vs(1) this, of "(!) T" s d, unfolded vs(3)]
  ultimately show thesis using that by metis
qed

section \<open>The ranges and the offsets of their start\<close>

lemma range_loop:
  "n \<le> length a \<Longrightarrow> n \<le> length b \<Longrightarrow>
   \<exists>a' b'. fold (\<lambda>i (a, b). (a[i := f i], b[i := g i])) [0..<n] (a, b) = (a', b') \<and> length a' = length a \<and> length b' = length b \<and>
     (\<forall>i<n. a' ! i = f i \<and> b' ! i = g i)"
proof (induction n)
  case (Suc n)
  then obtain a' b' where "fold (\<lambda>i (a, b). (a[i := f i], b[i := g i])) [0..<n] (a, b) = (a', b')" "length a' = length a" "length b' = length b"
    "\<forall>i<n. a' ! i = f i \<and> b' ! i = g i" by auto
  then show ?case using Suc.prems by (intro exI [of _ "a'[n := f n]"] exI [of _ "b'[n := g n]"]) (auto simp: less_Suc_eq)
qed simp

lemma shift_offsets_empty: "i \<in> set is \<Longrightarrow> dstMax st ! i \<le> dstMin st ! i \<Longrightarrow> dstSize (shift_offsets is st) = [0, 0, 0]"
  by (induction "is" arbitrary: st) auto

lemma shift_offsets_sum:
  "list_all (\<lambda>i. dstMin st ! i < dstMax st ! i \<and> 0 \<le> dstMin st ! i) is \<Longrightarrow>
   shift_offsets is st = st\<lparr>newDstOffset := newDstOffset st + (\<Sum>i\<leftarrow>is. dstMin st ! i * dstDst st ! i),
     newSrcOffset := newSrcOffset st + (\<Sum>i\<leftarrow>is. dstMin st ! i * newSrc st ! i)\<rparr>"
proof (induction "is" arbitrary: st)
  case (Cons i "is")
  let ?st = "if dstMin st ! i > 0 then st\<lparr>newDstOffset := newDstOffset st + dstMin st ! i * dstDst st ! i,
           newSrcOffset := newSrcOffset st + dstMin st ! i * newSrc st ! i\<rparr> else st"
  have st: "?st = st\<lparr>newDstOffset := newDstOffset st + dstMin st ! i * dstDst st ! i,
           newSrcOffset := newSrcOffset st + dstMin st ! i * newSrc st ! i\<rparr>"
    using Cons.prems by auto
  have "shift_offsets (i # is) st = shift_offsets is ?st" using Cons.prems by auto
  also have "\<dots> = st\<lparr>newDstOffset := newDstOffset st + (\<Sum>i\<leftarrow>i # is. dstMin st ! i * dstDst st ! i),
     newSrcOffset := newSrcOffset st + (\<Sum>i\<leftarrow>i # is. dstMin st ! i * newSrc st ! i)\<rparr>"
    unfolding st by (subst Cons.IH) (use Cons.prems in \<open>simp_all add: add.assoc\<close>)
  finally show ?case .
qed simp

section \<open>The fused region\<close>

lemma apply_compute_box:
  fixes srcReg dstReg :: Region
  assumes n: "n = dstNum st" "sizeNum st = n" "n \<le> 3" "expandIdx st = -1" and wide: "\<forall>i<n. dstSize st ! i > 1"
  defines "r \<equiv> fst (apply_compute srcReg dstReg st)"
  shows "\<forall>j<n. rsize r ! (3 - n + j) = dstMax st ! j - dstMin st ! j \<and> vstride (rsrc r) ! (3 - n + j) = newSrc st ! j \<and>
      vstride (rdst r) ! (3 - n + j) = dstDst st ! j" "\<forall>i<3 - n. rsize r ! i = 1"
    and "voffset (rsrc r) = newSrcOffset st" "voffset (rdst r) = newDstOffset st"
proof -
  have "n = 0 \<or> n = 1 \<or> n = 2 \<or> n = 3" using n(3) by auto
  then show "\<forall>j<n. rsize r ! (3 - n + j) = dstMax st ! j - dstMin st ! j \<and> vstride (rsrc r) ! (3 - n + j) = newSrc st ! j \<and>
      vstride (rdst r) ! (3 - n + j) = dstDst st ! j" "\<forall>i<3 - n. rsize r ! i = 1"
    using wide n by (elim disjE; simp add: r_def apply_compute_def upt_rec numeral_2_eq_2 numeral_3_eq_3 All_less_Suc)+
  show "voffset (rsrc r) = newSrcOffset st" "voffset (rdst r) = newDstOffset st"
    unfolding r_def apply_compute_def Let_def case_prod_beta by (simp_all only: fst_conv Region.simps View.simps)
qed

end
