(* ===== verification/Region_Compose.thy ===== *)
theory Region_Compose
  imports Region_Compute
begin

text \<open>
  What a successful match of aligned regions leaves in the status, and that the region made of it is the
  composition of the two.
\<close>

section \<open>The status after a match\<close>

lemma fuse_match_steps:
  assumes st: "arrays3 st" and al: "aligned srcReg dstReg"
    and m: "fuse_match srcReg dstReg st = (True, st')" "mStatus st' = FUSE_REGION_COMPUTE"
  obtains g ns nz where "gathered srcReg dstReg g" "length ns = 3" "length nz = 3"
    "\<forall>i<dstNum g. ns ! (validIndex (dstSrc g) (dstNum g) ! i) = srcSrc g ! i \<and> nz ! (validIndex (dstSrc g) (dstNum g) ! i) = srcSize g ! i"
    "fuse_compute srcReg dstReg (g\<lparr>newSrc := ns, newSrcSize := nz\<rparr>) = (True, st')"
proof -
  define g where "g = gather_axes srcReg dstReg st"
  have g: "gathered srcReg dstReg g" unfolding g_def by (rule gather_axes_gathered [OF st])
  have len: "length (dstSrc g) = 3" "length (srcDst g) = 3" using g by (simp_all add: gathered_def arrays3_def)
  note o = aligned_order [OF g al]
  have "set (take (dstNum g) (dstSrc g)) = set (take (dstNum g) (srcDst g))" using o(5) by (rule mset_eq_setD)
  then have d: "int_diff (padded (srcDst g) (srcNum g)) (padded (dstSrc g) (dstNum g)) = Some (-1)"
      "int_diff (padded (dstSrc g) (dstNum g)) (padded (srcDst g) (srcNum g)) = Some (-1)"
    unfolding o(1) using o(2) len by (auto intro!: padded_diff)
  obtain ns nz where r: "reorder_axes g = (True, g\<lparr>newSrc := ns, newSrcSize := nz\<rparr>)" "length ns = 3" "length nz = 3"
    "\<forall>i<dstNum g. ns ! (take (dstNum g) (validIndex (dstSrc g) (dstNum g)) ! i) = srcSrc g ! i \<and>
       nz ! (take (dstNum g) (validIndex (dstSrc g) (dstNum g)) ! i) = srcSize g ! i"
    by (rule reorder_axes_result [OF g al refl])
  have "fuse_match srcReg dstReg st = fuse_compute srcReg dstReg (g\<lparr>newSrc := ns, newSrcSize := nz\<rparr>)"
    using m d r(1) unfolding fuse_match_def Let_def g_def [symmetric]
    by (auto simp: expand_src_def expand_dst_def split: if_splits)
  then show thesis using that [OF g r(2,3)] r(4) m(1) by simp
qed

text \<open>
  The quotients \<open>q\<close> of the difference of the offsets by the falling strides: the ranges are the overlap of
  the source's sizes moved by them with the target's, and the offsets start at the ranges' beginning.
\<close>

definition fused :: "Region \<Rightarrow> Region \<Rightarrow> nat \<Rightarrow> nat list \<Rightarrow> int list \<Rightarrow> FuseRegionStatus \<Rightarrow> bool" where
  "fused srcReg dstReg n vs q st \<longleftrightarrow>
     n \<le> 3 \<and> distinct vs \<and> set vs = {..<n} \<and> length (wide srcReg) = n \<and> length (wide dstReg) = n \<and>
     dstNum st = n \<and> sizeNum st = n \<and> expandIdx st = -1 \<and>
     (\<forall>i<n. vstride (rsrc dstReg) ! (wide dstReg ! (vs ! i)) = vstride (rdst srcReg) ! (wide srcReg ! i) \<and>
       dstDst st ! (vs ! i) = vstride (rdst dstReg) ! (wide dstReg ! (vs ! i)) \<and>
       newSrc st ! (vs ! i) = vstride (rsrc srcReg) ! (wide srcReg ! i) \<and>
       dstMin st ! (vs ! i) = ALIMAX 0 (- q ! i) \<and>
       dstMax st ! (vs ! i) = ALIMIN (rsize srcReg ! (wide srcReg ! i) - q ! i) (rsize dstReg ! (wide dstReg ! (vs ! i)))) \<and>
     (\<Sum>i<n. q ! i * vstride (rdst srcReg) ! (wide srcReg ! i)) = voffset (rsrc dstReg) - voffset (rdst srcReg)"

definition offsets_at :: "Region \<Rightarrow> Region \<Rightarrow> nat \<Rightarrow> nat list \<Rightarrow> int list \<Rightarrow> FuseRegionStatus \<Rightarrow> bool" where
  "offsets_at srcReg dstReg n vs q st \<longleftrightarrow>
     (\<forall>i<n. dstMin st ! i < dstMax st ! i \<and> dstSize st ! i = rsize dstReg ! (wide dstReg ! i)) \<and>
     newSrcOffset st = voffset (rsrc srcReg) + (\<Sum>i<n. (q ! i + ALIMAX 0 (- q ! i)) * vstride (rsrc srcReg) ! (wide srcReg ! i)) \<and>
     newDstOffset st = voffset (rdst dstReg) + (\<Sum>i<n. ALIMAX 0 (- q ! i) * vstride (rdst dstReg) ! (wide dstReg ! (vs ! i)))"

lemma sum_order: "distinct vs \<Longrightarrow> set vs = {..<n} \<Longrightarrow> (\<Sum>j\<leftarrow>[0..<n]. f j) = (\<Sum>i<n. f (vs ! i))" for f :: "nat \<Rightarrow> int"
proof -
  assume vs: "distinct vs" "set vs = {..<n}"
  have "length vs = n" using distinct_card [OF vs(1)] unfolding vs(2) by simp
  then have "bij_betw ((!) vs) {..<n} {..<n}" by (intro bij_betw_nth [OF vs(1)]) (simp, rule vs(2) [symmetric])
  then have "(\<Sum>i<n. f (vs ! i)) = (\<Sum>j<n. f j)" by (rule sum.reindex_bij_betw)
  then show ?thesis by (simp add: interv_sum_list_conv_sum_set_nat atLeast0LessThan)
qed

lemma clip_range_ok:
  assumes "clip_range T s d sz dz n (mx, mn) = (True, mx', mn')" and "clip_offsets T n s d = (ofs, s', d')"
    and "n \<le> 3" "length mx = 3" "length mn = 3"
  shows "n \<noteq> 0 \<longrightarrow> s' = 0 \<and> d' = 0" "n = 0 \<longrightarrow> d = s" "\<forall>i<n. mx' ! i = ALIMIN (sz ! i - ofs ! i) (dz ! i) \<and> mn' ! i = ALIMAX 0 (- ofs ! i)"
proof -
  show "n \<noteq> 0 \<longrightarrow> s' = 0 \<and> d' = 0" "n = 0 \<longrightarrow> d = s" using assms(1,2) by (auto simp: clip_range_def split: if_splits)
  obtain a b where "fold (\<lambda>i (a, b). (a[i := ALIMIN (sz ! i - ofs ! i) (dz ! i)], b[i := ALIMAX 0 (- ofs ! i)])) [0..<n] (mx, mn) = (a, b)"
      "\<forall>i<n. a ! i = ALIMIN (sz ! i - ofs ! i) (dz ! i) \<and> b ! i = ALIMAX 0 (- ofs ! i)"
    using range_loop [of n mx mn "\<lambda>i. ALIMIN (sz ! i - ofs ! i) (dz ! i)" "\<lambda>i. ALIMAX 0 (- ofs ! i)"] assms(3-5) by auto
  then show "\<forall>i<n. mx' ! i = ALIMIN (sz ! i - ofs ! i) (dz ! i) \<and> mn' ! i = ALIMAX 0 (- ofs ! i)"
    using assms(1,2) by (cases "n = 0") (auto simp: clip_range_def split: if_splits)
qed

lemma shift_offsets_keep:
  "dstNum (shift_offsets is st) = dstNum st \<and> sizeNum (shift_offsets is st) = sizeNum st \<and> expandIdx (shift_offsets is st) = expandIdx st \<and>
   dstDst (shift_offsets is st) = dstDst st \<and> newSrc (shift_offsets is st) = newSrc st \<and>
   dstMin (shift_offsets is st) = dstMin st \<and> dstMax (shift_offsets is st) = dstMax st"
  by (induction "is" arbitrary: st) simp_all

lemma fuse_compute_fused:
  assumes g: "gathered srcReg dstReg g" and al: "aligned srcReg dstReg" and n: "n = dstNum g"
    and vs: "vs = take n (validIndex (dstSrc g) n)"
    and new: "length ns = 3" "length nz = 3" "\<forall>i<n. ns ! (validIndex (dstSrc g) n ! i) = srcSrc g ! i \<and> nz ! (validIndex (dstSrc g) n ! i) = srcSize g ! i"
    and c: "fuse_compute srcReg dstReg (g\<lparr>newSrc := ns, newSrcSize := nz\<rparr>) = (True, st')"
  obtains q where "fused srcReg dstReg n vs q st'"
    "dstSize st' \<noteq> [0, 0, 0] \<Longrightarrow> offsets_at srcReg dstReg n vs q st'"
    "(\<exists>i<n. dstMax st' ! i \<le> dstMin st' ! i) \<Longrightarrow> dstSize st' = [0, 0, 0]"
proof -
  note o = aligned_order [OF g al, folded n] and v = validIndex_order [OF g al n, folded vs]
  define T s d where "T = dstSrc g" and "s = voffset (rdst srcReg)" and "d = voffset (rsrc dstReg)"
  define q where "q = fst (greedy (map ((!) T) vs) s d)"
  let ?st1 = "g\<lparr>newSrc := ns, newSrcSize := nz, newSrcOffset := offsetCompute srcReg d s True + voffset (rsrc srcReg)\<rparr>"
  have len: "length (srcDst g) = 3" "length (dstMax g) = 3" "length (dstMin g) = 3" using g by (simp_all add: gathered_def arrays3_def)
  have "map ((!) T) vs = take n (srcDst g)" using v(3,5) o(2) len by (simp add: T_def list_eq_iff_nth_eq)
  also have "\<dots> = along (rdst srcReg) srcReg" using g unfolding gathered_def n o(1) [unfolded n] by blast
  finally have T: "map ((!) T) vs = along (rdst srcReg) srcReg" .
  have wn: "length (wide srcReg) = n" "length (wide dstReg) = n" using g o(1) n by (simp_all add: gathered_def)
  obtain ofs where ofs: "clip_offsets T n s d = (ofs, snd (greedy (map ((!) T) vs) s d))" "\<forall>i<n. ofs ! (vs ! i) = q ! i"
    unfolding q_def by (rule clip_offsets_greedy [OF v(1-4) o(2), unfolded T_def [symmetric]])
  from c obtain mx mn where clip: "clip_range T s d nz (dstSize g) n (dstMax g, dstMin g) = (True, mx, mn)"
    and st': "st' = (shift_offsets [0..<n] (?st1\<lparr>dstMax := mx, dstMin := mn, newDstOffset := voffset (rdst dstReg)\<rparr>))\<lparr>mStatus := FUSE_REGION_COMPUTE\<rparr>"
    unfolding fuse_compute_def ClipDst_def Let_def T_def s_def d_def n by (auto split: prod.splits if_splits)
  let ?st2 = "?st1\<lparr>dstMax := mx, dstMin := mn, newDstOffset := voffset (rdst dstReg)\<rparr>"
  obtain s' d' where gr: "greedy (along (rdst srcReg) srcReg) s d = (q, s', d')" unfolding q_def T by (metis prod.collapse)
  then have r: "snd (greedy (map ((!) T) vs) s d) = (s', d')" unfolding T by simp
  note rg = clip_range_ok [OF clip ofs(1) [unfolded r] o(2) len(2,3)]
  have sum: "(\<Sum>i<n. q ! i * vstride (rdst srcReg) ! (wide srcReg ! i)) = d - s"
    using greedy_sum [OF gr] rg(1,2) wn(1) by (cases "n = 0") simp_all
  have at: "vs ! i < n \<and> T ! (vs ! i) = srcDst g ! i \<and> ns ! (vs ! i) = srcSrc g ! i \<and> nz ! (vs ! i) = srcSize g ! i \<and>
      mx ! (vs ! i) = ALIMIN (nz ! (vs ! i) - q ! i) (dstSize g ! (vs ! i)) \<and> mn ! (vs ! i) = ALIMAX 0 (- q ! i)" if "i < n" for i
    using that v(5) [OF that] new(3) [rule_format, OF that, unfolded v(4) [OF that]] rg(3) ofs(2) unfolding T_def by simp
  have nth: "srcDst g ! i = vstride (rdst srcReg) ! (wide srcReg ! i)" "srcSrc g ! i = vstride (rsrc srcReg) ! (wide srcReg ! i)"
      "srcSize g ! i = rsize srcReg ! (wide srcReg ! i)" "T ! i = vstride (rsrc dstReg) ! (wide dstReg ! i)"
      "dstDst g ! i = vstride (rdst dstReg) ! (wide dstReg ! i)" "dstSize g ! i = rsize dstReg ! (wide dstReg ! i)" if "i < n" for i
    unfolding T_def by (rule gathered_nth [OF g]; use that o(1) n in simp)+
  have keep: "dstNum st' = n" "sizeNum st' = n" "expandIdx st' = -1" "dstDst st' = dstDst g" "newSrc st' = ns" "dstMin st' = mn" "dstMax st' = mx"
    using g unfolding st' by (simp_all add: shift_offsets_keep n gathered_def)
  have "vstride (rsrc dstReg) ! (wide dstReg ! (vs ! i)) = vstride (rdst srcReg) ! (wide srcReg ! i)" if "i < n" for i
    using at [OF that] nth(1) [OF that] nth(4) [of "vs ! i"] by simp
  then have f: "fused srcReg dstReg n vs q st'"
    unfolding fused_def keep using o(2) v(1,2) wn sum at nth by (simp add: s_def d_def)
  have e: "dstSize st' = [0, 0, 0]" if "i < n" "mx ! i \<le> mn ! i" for i
    unfolding st' by (simp add: shift_offsets_empty [of i "[0..<n]" ?st2] that)
  moreover have "offsets_at srcReg dstReg n vs q st'" if ne: "dstSize st' \<noteq> [0, 0, 0]"
  proof -
    have lt: "mn ! i < mx ! i" if "i < n" for i using e [OF that] ne by fastforce
    have pos: "0 \<le> mn ! i" if "i < n" for i using rg(3) that by (simp add: ALIMAX_def)
    have "list_all (\<lambda>i. dstMin ?st2 ! i < dstMax ?st2 ! i \<and> 0 \<le> dstMin ?st2 ! i) [0..<n]" using lt pos by (simp add: list_all_iff)
    note sh = shift_offsets_sum [OF this]
    have "newSrcOffset st' = voffset (rsrc srcReg) + ((\<Sum>i<n. q ! i * vstride (rsrc srcReg) ! (wide srcReg ! i)) + (\<Sum>i<n. mn ! (vs ! i) * ns ! (vs ! i)))"
      unfolding st' sh using gr by (simp add: offsetCompute_greedy wn sum_order [OF v(1,2)])
    also have "\<dots> = voffset (rsrc srcReg) + (\<Sum>i<n. (q ! i + ALIMAX 0 (- q ! i)) * vstride (rsrc srcReg) ! (wide srcReg ! i))"
      unfolding sum.distrib [symmetric] using at nth by (simp add: distrib_right)
    finally have "newSrcOffset st' = voffset (rsrc srcReg) + (\<Sum>i<n. (q ! i + ALIMAX 0 (- q ! i)) * vstride (rsrc srcReg) ! (wide srcReg ! i))" .
    moreover have "newDstOffset st' = voffset (rdst dstReg) + (\<Sum>i<n. ALIMAX 0 (- q ! i) * vstride (rdst dstReg) ! (wide dstReg ! (vs ! i)))"
      unfolding st' sh using at nth by (simp add: sum_order [OF v(1,2)])
    moreover have "dstMin st' ! i < dstMax st' ! i \<and> dstSize st' ! i = rsize dstReg ! (wide dstReg ! i)" if "i < n" for i
      unfolding keep using lt [OF that] nth(6) [OF that] unfolding st' sh by simp
    ultimately show ?thesis unfolding offsets_at_def by blast
  qed
  ultimately show thesis using that [OF f] unfolding keep by blast
qed

section \<open>The region of a match\<close>

lemma sub_box:
  assumes lo: "\<And>j. j < n \<Longrightarrow> 0 \<le> lo j \<and> hi j \<le> k j"
    and e: "(d, m) \<in> shift (b + (\<Sum>j<n. lo j * dd j)) (p + (\<Sum>j<n. lo j * w j)) (box n (\<lambda>j. hi j - lo j) dd w)"
  shows "(d, m) \<in> shift b p (box n k dd w)"
proof -
  obtain f where f: "\<forall>j<n. 0 \<le> f j \<and> f j < hi j - lo j" "d = b + (\<Sum>j<n. lo j * dd j) + (\<Sum>j<n. f j * dd j)"
      "m = p + (\<Sum>j<n. lo j * w j) + (\<Sum>j<n. f j * w j)"
    using e unfolding shift_box by blast
  show ?thesis
    unfolding shift_box
  proof (intro exI [of _ "\<lambda>j. lo j + f j"] conjI allI impI)
    fix j assume "j < n"
    then show "0 \<le> lo j + f j" "lo j + f j < k j" using lo [of j] f(1) by fastforce+
  qed (simp_all add: f(2,3) distrib_right sum.distrib)
qed

lemma region_box:
  assumes "bij_betw h {..<n} I" "I \<subseteq> {..<3}" "\<And>i. i < 3 \<Longrightarrow> i \<notin> I \<Longrightarrow> rsize r ! i = 1"
  shows "(d, s) \<in> set (region_elements r) \<longleftrightarrow> (d, s) \<in> shift (voffset (rdst r)) (voffset (rsrc r))
     (box n (\<lambda>j. rsize r ! h j) (\<lambda>j. vstride (rdst r) ! h j) (\<lambda>j. vstride (rsrc r) ! h j))"
  unfolding region_elements_box by (subst box_reindex [OF assms]) simp_all

lemma wide_bij: "length (wide r) = n \<Longrightarrow> bij_betw ((!) (wide r)) {..<n} (set (wide r))"
  by (rule bij_betw_nth [OF wide_props(1)]) simp_all

lemma wide_else: "aligned a b \<Longrightarrow> i < 3 \<Longrightarrow> i \<notin> set (wide a) \<Longrightarrow> rsize a ! i = 1"
  "aligned a b \<Longrightarrow> i < 3 \<Longrightarrow> i \<notin> set (wide b) \<Longrightarrow> rsize b ! i = 1"
proof -
  have i: "j = 0 \<or> j = 1 \<or> j = 2" if "j < 3" for j :: nat using that by auto
  have "rsize r ! i = 1" if "list_all (\<lambda>i. rsize r ! i \<ge> 1) [0, 1, 2]" "i < 3" "i \<notin> set (wide r)" for r
    using i [OF that(2)] that(1,3) unfolding wide_def set_filter by auto
  then show "aligned a b \<Longrightarrow> i < 3 \<Longrightarrow> i \<notin> set (wide a) \<Longrightarrow> rsize a ! i = 1"
    "aligned a b \<Longrightarrow> i < 3 \<Longrightarrow> i \<notin> set (wide b) \<Longrightarrow> rsize b ! i = 1" by (simp_all add: aligned_def)
qed

text \<open>The three boxes over the source's axes: strides \<open>dd\<close> of the target, \<open>w\<close> between the two, \<open>ss\<close> of the source.\<close>

definition matched :: "Region \<Rightarrow> Region \<Rightarrow> nat \<Rightarrow> nat list \<Rightarrow> int list \<Rightarrow> FuseRegionStatus \<Rightarrow> bool" where
  "matched srcReg dstReg n vs q st' \<longleftrightarrow> aligned srcReg dstReg \<and> fused srcReg dstReg n vs q st' \<and> offsets_at srcReg dstReg n vs q st' \<and>
     dstSize st' ! 0 \<noteq> 0 \<and> mStatus st' = FUSE_REGION_COMPUTE"

abbreviation wide_at :: "int list \<Rightarrow> Region \<Rightarrow> nat \<Rightarrow> int" where
  "wide_at xs r i \<equiv> xs ! (wide r ! i)"

lemma vs_bij: "fused srcReg dstReg n vs q st' \<Longrightarrow> bij_betw ((!) vs) {..<n} {..<n}"
proof -
  assume fu: "fused srcReg dstReg n vs q st'"
  have vs: "distinct vs" "set vs = {..<n}" using fu by (simp_all add: fused_def)
  then have "length vs = n" using distinct_card [OF vs(1)] unfolding vs(2) by simp
  then show ?thesis by (intro bij_betw_nth [OF vs(1)]) (simp, rule vs(2) [symmetric])
qed

lemma vs_less: "fused srcReg dstReg n vs q st' \<Longrightarrow> i < n \<Longrightarrow> vs ! i < n"
  using vs_bij [of srcReg dstReg n vs q st'] by (auto simp: bij_betw_def)

lemma matched_axis:
  assumes "matched srcReg dstReg n vs q st'" and "i < n"
  shows "vs ! i < n" "dstMin st' ! (vs ! i) = ALIMAX 0 (- q ! i)" "dstSize st' ! (vs ! i) = wide_at (rsize dstReg) dstReg (vs ! i)"
    "dstMax st' ! (vs ! i) = ALIMIN (wide_at (rsize srcReg) srcReg i - q ! i) (wide_at (rsize dstReg) dstReg (vs ! i))"
proof -
  have fu: "fused srcReg dstReg n vs q st'" and at: "offsets_at srcReg dstReg n vs q st'" using assms(1) by (simp_all add: matched_def)
  show v: "vs ! i < n" by (rule vs_less [OF fu assms(2)])
  show "dstMin st' ! (vs ! i) = ALIMAX 0 (- q ! i)"
    "dstMax st' ! (vs ! i) = ALIMIN (wide_at (rsize srcReg) srcReg i - q ! i) (wide_at (rsize dstReg) dstReg (vs ! i))"
    using fu assms(2) unfolding fused_def by blast+
  show "dstSize st' ! (vs ! i) = wide_at (rsize dstReg) dstReg (vs ! i)" using at v unfolding offsets_at_def by blast
qed

lemma src_box:
  assumes "matched srcReg dstReg n vs q st'"
  shows "(m, s) \<in> set (region_elements srcReg) \<longleftrightarrow>
    (m, s) \<in> shift (voffset (rdst srcReg)) (voffset (rsrc srcReg)) (box n (wide_at (rsize srcReg) srcReg) (wide_at (vstride (rdst srcReg)) srcReg) (wide_at (vstride (rsrc srcReg)) srcReg))"
proof -
  have al: "aligned srcReg dstReg" and fu: "fused srcReg dstReg n vs q st'" and at: "offsets_at srcReg dstReg n vs q st'"
    and ne: "dstSize st' ! 0 \<noteq> 0" and st: "mStatus st' = FUSE_REGION_COMPUTE" using assms by (simp_all add: matched_def)
  have "length (wide srcReg) = n" using fu by (simp add: fused_def)
  from region_box [OF wide_bij [OF this] wide_props(2) wide_else(1) [OF al]] show ?thesis
    by simp
qed

lemma dst_box:
  assumes "matched srcReg dstReg n vs q st'"
  shows "(d, m) \<in> set (region_elements dstReg) \<longleftrightarrow>
    (d, m) \<in> shift (voffset (rdst dstReg)) (voffset (rsrc dstReg)) (box n (\<lambda>i. wide_at (rsize dstReg) dstReg (vs ! i)) (\<lambda>i. wide_at (vstride (rdst dstReg)) dstReg (vs ! i)) (wide_at (vstride (rdst srcReg)) srcReg))"
proof -
  have al: "aligned srcReg dstReg" and fu: "fused srcReg dstReg n vs q st'" and at: "offsets_at srcReg dstReg n vs q st'"
    and ne: "dstSize st' ! 0 \<noteq> 0" and st: "mStatus st' = FUSE_REGION_COMPUTE" using assms by (simp_all add: matched_def)
  have n: "length (wide dstReg) = n" using fu by (simp add: fused_def)
  have "bij_betw ((!) (wide dstReg) \<circ> (!) vs) {..<n} (set (wide dstReg))" by (rule bij_betw_trans [OF vs_bij [OF fu] wide_bij [OF n]])
  from region_box [OF this wide_props(2) wide_else(2) [OF al]]
  have "(d, m) \<in> set (region_elements dstReg) \<longleftrightarrow> (d, m) \<in> shift (voffset (rdst dstReg)) (voffset (rsrc dstReg))
      (box n (\<lambda>i. wide_at (rsize dstReg) dstReg (vs ! i)) (\<lambda>i. wide_at (vstride (rdst dstReg)) dstReg (vs ! i)) (\<lambda>i. vstride (rsrc dstReg) ! (wide dstReg ! (vs ! i))))" unfolding comp_def by simp
  also have "box n (\<lambda>i. wide_at (rsize dstReg) dstReg (vs ! i)) (\<lambda>i. wide_at (vstride (rdst dstReg)) dstReg (vs ! i)) (\<lambda>i. vstride (rsrc dstReg) ! (wide dstReg ! (vs ! i))) = box n (\<lambda>i. wide_at (rsize dstReg) dstReg (vs ! i)) (\<lambda>i. wide_at (vstride (rdst dstReg)) dstReg (vs ! i)) (wide_at (vstride (rdst srcReg)) srcReg)"
    by (rule box_cong) (use fu in \<open>simp add: fused_def\<close>)
  finally show ?thesis .
qed

lemma fused_box:
  assumes "matched srcReg dstReg n vs q st'"
  shows "(d, s) \<in> set (region_elements (fst (fuse_apply srcReg dstReg st'))) \<longleftrightarrow>
    (d, s) \<in> shift (voffset (rdst dstReg) + (\<Sum>i<n. ALIMAX 0 (- q ! i) * wide_at (vstride (rdst dstReg)) dstReg (vs ! i))) (voffset (rsrc srcReg) + (\<Sum>i<n. (q ! i + ALIMAX 0 (- q ! i)) * wide_at (vstride (rsrc srcReg)) srcReg i))
      (box n (\<lambda>i. ALIMIN (wide_at (rsize srcReg) srcReg i - q ! i) (wide_at (rsize dstReg) dstReg (vs ! i)) - ALIMAX 0 (- q ! i)) (\<lambda>i. wide_at (vstride (rdst dstReg)) dstReg (vs ! i)) (wide_at (vstride (rsrc srcReg)) srcReg))"
proof -
  have al: "aligned srcReg dstReg" and fu: "fused srcReg dstReg n vs q st'" and at: "offsets_at srcReg dstReg n vs q st'"
    and ne: "dstSize st' ! 0 \<noteq> 0" and st: "mStatus st' = FUSE_REGION_COMPUTE" using assms by (simp_all add: matched_def)
  have n: "n = dstNum st'" "sizeNum st' = n" "n \<le> 3" "expandIdx st' = -1" and wn: "length (wide dstReg) = n" using fu by (simp_all add: fused_def)
  have one: "\<forall>i<n. dstSize st' ! i > 1"
    using at wide_props(4) [of _ dstReg] wn unfolding offsets_at_def by simp
  define r where "r = fst (fuse_apply srcReg dstReg st')"
  have r: "r = fst (apply_compute srcReg dstReg st')" using st ne by (simp add: r_def fuse_apply_def)
  note b = apply_compute_box [OF n one, where srcReg = srcReg and dstReg = dstReg, folded r]
  have "bij_betw (\<lambda>j. 3 - n + j) {..<n} {3 - n..<3}"
  proof (rule bij_betw_imageI)
    show "(\<lambda>j. 3 - n + j) ` {..<n} = {3 - n..<3}"
      unfolding lessThan_atLeast0 image_add_atLeastLessThan using n(3) by simp
  qed (simp add: inj_on_def)
  then have h: "bij_betw ((\<lambda>j. 3 - n + j) \<circ> (!) vs) {..<n} {3 - n..<3}" by (rule bij_betw_trans [OF vs_bij [OF fu]])
  have "(d, s) \<in> set (region_elements r) \<longleftrightarrow> (d, s) \<in> shift (voffset (rdst r)) (voffset (rsrc r))
     (box n (\<lambda>j. rsize r ! (3 - n + vs ! j)) (\<lambda>j. vstride (rdst r) ! (3 - n + vs ! j)) (\<lambda>j. vstride (rsrc r) ! (3 - n + vs ! j)))"
    using region_box [OF h, of r d s] b(2) unfolding comp_def by (simp add: subset_iff)
  also have "box n (\<lambda>j. rsize r ! (3 - n + vs ! j)) (\<lambda>j. vstride (rdst r) ! (3 - n + vs ! j)) (\<lambda>j. vstride (rsrc r) ! (3 - n + vs ! j)) =
      box n (\<lambda>i. ALIMIN (wide_at (rsize srcReg) srcReg i - q ! i) (wide_at (rsize dstReg) dstReg (vs ! i)) - ALIMAX 0 (- q ! i)) (\<lambda>i. wide_at (vstride (rdst dstReg)) dstReg (vs ! i)) (wide_at (vstride (rsrc srcReg)) srcReg)"
    by (rule box_cong) (use b(1) vs_less [OF fu] fu in \<open>simp add: fused_def\<close>)
  finally have e: "(d, s) \<in> set (region_elements r) \<longleftrightarrow> (d, s) \<in> shift (voffset (rdst r)) (voffset (rsrc r))
      (box n (\<lambda>i. ALIMIN (wide_at (rsize srcReg) srcReg i - q ! i) (wide_at (rsize dstReg) dstReg (vs ! i)) - ALIMAX 0 (- q ! i))
        (\<lambda>i. wide_at (vstride (rdst dstReg)) dstReg (vs ! i)) (wide_at (vstride (rsrc srcReg)) srcReg))" .
  note a = at [unfolded offsets_at_def, THEN conjunct2, THEN conjunct1] at [unfolded offsets_at_def, THEN conjunct2, THEN conjunct2]
  show ?thesis unfolding r_def [symmetric] e b(3,4) a ..
qed

text \<open>Every element of the fused region is read through both, clipped or not.\<close>

lemma fused_sound:
  assumes m: "matched srcReg dstReg n vs q st'" and e: "(d, s) \<in> set (region_elements (fst (fuse_apply srcReg dstReg st')))"
  shows "\<exists>x. (d, x) \<in> set (region_elements dstReg) \<and> (x, s) \<in> set (region_elements srcReg)"
proof -
  let ?dd = "\<lambda>i. wide_at (vstride (rdst dstReg)) dstReg (vs ! i)" and ?w = "wide_at (vstride (rdst srcReg)) srcReg"
    and ?ss = "wide_at (vstride (rsrc srcReg)) srcReg" and ?sz = "wide_at (rsize srcReg) srcReg"
    and ?k = "\<lambda>i. wide_at (rsize dstReg) dstReg (vs ! i)" and ?lo = "\<lambda>i. ALIMAX 0 (- q ! i)"
  let ?hi = "\<lambda>i. ALIMIN (?sz i - q ! i) (?k i)"
  have sum: "(\<Sum>i<n. q ! i * ?w i) = voffset (rsrc dstReg) - voffset (rdst srcReg)" using m by (simp add: matched_def fused_def)
  have start: "voffset (rdst srcReg) + (\<Sum>j<n. (q ! j + ?lo j) * ?w j) = voffset (rsrc dstReg) + (\<Sum>j<n. ?lo j * ?w j)"
    using sum by (simp add: distrib_right sum.distrib)
  have fit: "0 \<le> q ! j + ?lo j \<and> (q ! j + ?lo j) + (?hi j - ?lo j) \<le> ?sz j" if "j < n" for j
    unfolding ALIMAX_max ALIMIN_min by linarith
  obtain x where x: "(d, x) \<in> shift (voffset (rdst dstReg) + (\<Sum>i<n. ?lo i * ?dd i)) (voffset (rsrc dstReg) + (\<Sum>j<n. ?lo j * ?w j))
        (box n (\<lambda>i. ?hi i - ?lo i) ?dd ?w)" "(x, s) \<in> shift (voffset (rdst srcReg)) (voffset (rsrc srcReg)) (box n ?sz ?w ?ss)"
    using box_compose(2) [OF fit start e [unfolded fused_box [OF m]]] by blast
  have "0 \<le> ?lo j \<and> ?hi j \<le> ?k j" for j by (simp add: ALIMAX_def ALIMIN_def)
  from sub_box [OF this x(1)] show ?thesis using x(2) unfolding src_box [OF m] dst_box [OF m] by blast
qed

text \<open>Where nothing is clipped every element of the target is in the fused region.\<close>

definition unclipped :: "FuseRegionStatus \<Rightarrow> bool" where
  "unclipped st \<longleftrightarrow> list_all (\<lambda>i. dstMin st ! i = 0 \<and> dstMax st ! i = dstSize st ! i) [0..<dstNum st]"

lemma fused_complete:
  assumes m: "matched srcReg dstReg n vs q st'" and u: "unclipped st'" and e: "(d, x) \<in> set (region_elements dstReg)"
  shows "\<exists>s. (x, s) \<in> set (region_elements srcReg) \<and> (d, s) \<in> set (region_elements (fst (fuse_apply srcReg dstReg st')))"
proof -
  let ?dd = "\<lambda>i. wide_at (vstride (rdst dstReg)) dstReg (vs ! i)" and ?w = "wide_at (vstride (rdst srcReg)) srcReg"
    and ?ss = "wide_at (vstride (rsrc srcReg)) srcReg" and ?sz = "wide_at (rsize srcReg) srcReg"
    and ?k = "\<lambda>i. wide_at (rsize dstReg) dstReg (vs ! i)" and ?lo = "\<lambda>i. ALIMAX 0 (- q ! i)"
  let ?hi = "\<lambda>i. ALIMIN (?sz i - q ! i) (?k i)"
  have full: "?lo i = 0 \<and> ?hi i = ?k i" if "i < n" for i
  proof -
    have "dstMin st' ! (vs ! i) = 0 \<and> dstMax st' ! (vs ! i) = dstSize st' ! (vs ! i)"
      using u m matched_axis(1) [OF m that] by (simp add: unclipped_def list_all_iff matched_def fused_def)
    then show ?thesis using matched_axis(2-4) [OF m that] by presburger
  qed
  have start: "voffset (rdst srcReg) + (\<Sum>j<n. q ! j * ?w j) = voffset (rsrc dstReg)" using m by (simp add: matched_def fused_def)
  have fit: "0 \<le> q ! j \<and> q ! j + ?k j \<le> ?sz j" if "j < n" for j 
    using full [OF that] unfolding ALIMAX_max ALIMIN_min by linarith
  obtain s where s: "(x, s) \<in> shift (voffset (rdst srcReg)) (voffset (rsrc srcReg)) (box n ?sz ?w ?ss)"
      "(d, s) \<in> shift (voffset (rdst dstReg)) (voffset (rsrc srcReg) + (\<Sum>j<n. q ! j * ?ss j)) (box n ?k ?dd ?ss)"
    using box_compose(1) [OF fit start e [unfolded dst_box [OF m]]] by blast
  have "box n (\<lambda>i. ?hi i - ?lo i) ?dd ?ss = box n ?k ?dd ?ss" by (rule box_cong) (use full in simp)
  moreover have "(\<Sum>i<n. ?lo i * ?dd i) = 0" "(\<Sum>i<n. (q ! i + ?lo i) * ?ss i) = (\<Sum>i<n. q ! i * ?ss i)"
    by (rule sum.neutral; use full in simp) (rule sum.cong; use full in simp)
  ultimately show ?thesis using s unfolding src_box [OF m] fused_box [OF m] by (intro exI [of _ s]) simp
qed

lemma match_matched:
  assumes "arrays3 st" and al: "aligned srcReg dstReg"
    and "fuse_match srcReg dstReg st = (True, st')" and c: "mStatus st' = FUSE_REGION_COMPUTE" and ne: "dstSize st' ! 0 \<noteq> 0"
  obtains n vs q where "matched srcReg dstReg n vs q st'"
proof -
  obtain g ns nz where g: "gathered srcReg dstReg g" and new: "length ns = 3" "length nz = 3"
    "\<forall>i<dstNum g. ns ! (validIndex (dstSrc g) (dstNum g) ! i) = srcSrc g ! i \<and> nz ! (validIndex (dstSrc g) (dstNum g) ! i) = srcSize g ! i"
    and f: "fuse_compute srcReg dstReg (g\<lparr>newSrc := ns, newSrcSize := nz\<rparr>) = (True, st')"
    by (rule fuse_match_steps [OF assms(1-4)])
  obtain q where "fused srcReg dstReg (dstNum g) (take (dstNum g) (validIndex (dstSrc g) (dstNum g))) q st'"
    "dstSize st' \<noteq> [0, 0, 0] \<Longrightarrow> offsets_at srcReg dstReg (dstNum g) (take (dstNum g) (validIndex (dstSrc g) (dstNum g))) q st'"
    by (rule fuse_compute_fused [OF g al refl refl new f]) (rule that; blast)
  moreover have "dstSize st' \<noteq> [0, 0, 0]" using ne by auto
  ultimately show thesis using al c ne that unfolding matched_def by blast
qed

end
