(* ===== verification/Region_Props.thy ===== *)
theory Region_Props
  imports Region_Compose
begin

text \<open>The properties of the fusion of regions: C39 and C40.\<close>

definition status0 :: FuseRegionStatus where
  "status0 = \<lparr>mStatus = FUSE_REGION_COMPUTE, srcDst = [0, 0, 0], srcSrc = [0, 0, 0], dstSrc = [0, 0, 0], dstDst = [0, 0, 0],
     srcSize = [0, 0, 0], dstSize = [0, 0, 0], newSrc = [0, 0, 0], newSrcSize = [0, 0, 0], dstMin = [0, 0, 0], dstMax = [0, 0, 0],
     srcNum = 0, dstNum = 0, sizeNum = 0, newSrcOffset = 0, newDstOffset = 0, expandIdx = 0\<rparr>"

definition region3 :: "int list \<Rightarrow> int \<Rightarrow> int list \<Rightarrow> int \<Rightarrow> int list \<Rightarrow> Region" where
  "region3 sz so ss do ds = \<lparr>rsrc = \<lparr>voffset = so, vstride = ss\<rparr>, rdst = \<lparr>voffset = do, vstride = ds\<rparr>, rsize = sz, rorigin = Some 0\<rparr>"

text \<open>C39: fusing by moving the source copies what the two regions copy one after the other, when the
  first region fills its target between its first and its last element: every fused element is read
  from where the first region would have taken it.\<close>

theorem copy_fusion_correct:
  assumes m: "fuse_match srcReg dstReg st = (True, st')" "mStatus st' = FUSE_SRC_COPY"
    and dense: "dense srcReg"
  shows "computeRaw D S (fst (fuse_apply srcReg dstReg st')) = computeRaw D (computeRaw M S srcReg) dstReg"
proof -
  let ?k = "voffset (rsrc srcReg) - voffset (rdst srcReg)"
  have c: "strides_positive dstReg" "isCopyRegion srcReg" "copyValid srcReg dstReg" using fuse_match_copy [OF m] by auto
  have "computeRaw M S srcReg s = S (s + ?k)" if "(d, s) \<in> set (region_elements dstReg)" for d s
    by (rule computeRaw_copy [OF c(2)]) (use dense source_range [OF c(1) that] c(3) in \<open>simp add: dense_def copyValid_def\<close>)
  then have "fold (put (computeRaw M S srcReg)) (region_elements dstReg) D =
      fold (put S) (map (\<lambda>(d, s). (d, s + ?k)) (region_elements dstReg)) D"
    by (rule fold_put_map)
  then show ?thesis unfolding computeRaw_fold fuse_apply_def m(2) by (simp add: region_elements_move)
qed

lemma copy_fusion_correct_witness:
  "\<forall>D S M :: int \<Rightarrow> int. let a = region3 [1, 1, 4] 8 [4, 4, 1] 0 [4, 4, 1]; b = region3 [1, 2, 2] 0 [4, 1, 2] 0 [4, 2, 1]
   in computeRaw D S (fst (fuse_apply a b (status0\<lparr>mStatus := FUSE_SRC_COPY\<rparr>))) = computeRaw D (computeRaw M S a) b"
proof (intro allI)
  fix D S M :: "int \<Rightarrow> int"
  let ?a = "region3 [1, 1, 4] 8 [4, 4, 1] 0 [4, 4, 1]" and ?b = "region3 [1, 2, 2] 0 [4, 1, 2] 0 [4, 2, 1]"
  have m: "fuse_match ?a ?b status0 = (True, status0\<lparr>mStatus := FUSE_SRC_COPY\<rparr>)"
    by (simp add: fuse_match_def strides_positive_def isCopyRegion_def copyValid_def region3_def)
  have d: "dense ?a" by (auto simp: dense_def region3_def region_elements_def upto_rec1)
  show "let a = region3 [1, 1, 4] 8 [4, 4, 1] 0 [4, 4, 1]; b = region3 [1, 2, 2] 0 [4, 1, 2] 0 [4, 2, 1]
       in computeRaw D S (fst (fuse_apply a b (status0\<lparr>mStatus := FUSE_SRC_COPY\<rparr>))) = computeRaw D (computeRaw M S a) b"
    unfolding Let_def by (rule copy_fusion_correct [OF m _ d]) simp
qed



text \<open>Without falling strides: a transposed tensor of 3 by 4 elements of which a part is read, through strides 1 and 3: the
  match succeeds, yet the fused region reads from offset 16, behind the 12 elements, where the two
  regions read offset 5.\<close>

lemma transposed_slice_reads_elsewhere:
  "let a = region3 [1, 3, 4] 0 [12, 4, 1] 0 [12, 1, 3]; b = region3 [1, 2, 2] 4 [1, 3, 1] 0 [1, 2, 1];
       st' = snd (fuse_match a b status0)
   in fst (fuse_match a b status0) \<and> computeRaw D S (fst (fuse_apply a b st')) 0 = S 16 \<and>
      computeRaw D (computeRaw M S a) b 0 = S 5 \<and> list_all (\<lambda>(d, s). 0 \<le> s \<and> s < 12) (region_elements a)"
proof -
  let ?a = "region3 [1, 3, 4] 0 [12, 4, 1] 0 [12, 1, 3]" and ?b = "region3 [1, 2, 2] 4 [1, 3, 1] 0 [1, 2, 1]"
  have "map_prod id (\<lambda>st. region_elements (fst (fuse_apply ?a ?b st))) (fuse_match ?a ?b status0) = (True, [(0, 16), (1, 20), (2, 17), (3, 21)])" by code_simp
  then have m: "fst (fuse_match ?a ?b status0)" "region_elements (fst (fuse_apply ?a ?b (snd (fuse_match ?a ?b status0)))) = [(0, 16), (1, 20), (2, 17), (3, 21)]"
    by (simp_all add: map_prod_def prod_eq_iff case_prod_beta)
  have a: "region_elements ?a = [(0, 0), (3, 1), (6, 2), (9, 3), (1, 4), (4, 5), (7, 6), (10, 7), (2, 8), (5, 9), (8, 10), (11, 11)]" by code_simp
  have b: "region_elements ?b = [(0, 4), (1, 5), (2, 7), (3, 8)]" by code_simp
  show ?thesis using m by (simp add: Let_def computeRaw_def a b)
qed

text \<open>The condition for moving the source compares strides 1 and 2 of the target with extents, stride 0 with
  none: with unit strides on the unit axes a copy with gaps counts as full, and the fused region reads an
  element the first region never wrote.\<close>

lemma copy_with_gaps_fused:
  "let a = region3 [1, 1, 4] 0 [1, 1, 3] 0 [1, 1, 3]; b = region3 [1, 1, 2] 0 [1, 1, 4] 0 [1, 1, 1];
       st' = snd (fuse_match a b status0)
   in fst (fuse_match a b status0) \<and> \<not> dense a \<and> computeRaw D S (fst (fuse_apply a b st')) 1 = S 4 \<and>
      computeRaw D (computeRaw M S a) b 1 = M 4"
proof -
  let ?a = "region3 [1, 1, 4] 0 [1, 1, 3] 0 [1, 1, 3]" and ?b = "region3 [1, 1, 2] 0 [1, 1, 4] 0 [1, 1, 1]"
  have m: "fuse_match ?a ?b status0 = (True, status0\<lparr>mStatus := FUSE_SRC_COPY\<rparr>)" by code_simp
  have a: "region_elements ?a = [(0, 0), (3, 3), (6, 6), (9, 9)]" by code_simp
  have "\<not> dense ?a"
  proof
    assume "dense ?a"
    then have "1 \<in> fst ` set (region_elements ?a)" unfolding dense_def by (auto simp: region3_def)
    then show False by (simp add: a)
  qed
  moreover have b: "region_elements ?b = [(0, 0), (1, 4)]" by code_simp
  have "computeRaw D (computeRaw M S ?a) ?b 1 = M 4" by (simp add: computeRaw_def a b)
  moreover have "region_elements (fst (fuse_apply ?a ?b (status0\<lparr>mStatus := FUSE_SRC_COPY\<rparr>))) = [(0, 0), (1, 4)]" by code_simp
  then have "computeRaw D S (fst (fuse_apply ?a ?b (status0\<lparr>mStatus := FUSE_SRC_COPY\<rparr>))) 1 = S 4" by (simp add: computeRaw_def)
  ultimately show ?thesis unfolding Let_def m by simp
qed

end
