(* ===== verification/Geo_Nest.thy ===== *)
theory Geo_Nest
  imports Region_Fuse "HOL-Library.Multiset"
begin

text \<open>
  Loop nests: what the regions of a geometry computer copy, as a list of axes (count, stride in the target,
  stride in the source). Axes can be exchanged, axes of one element dropped, adjacent axes fused; an index
  over the outer axes can be unravelled.
\<close>

type_synonym axis = "int \<times> int \<times> int"

primrec nest :: "axis list \<Rightarrow> (int \<times> int) list" where
  "nest [] = [(0, 0)]"
| "nest (a # ax) = [(x * fst (snd a) + p, x * snd (snd a) + q). x \<leftarrow> [0..fst a - 1], (p, q) \<leftarrow> nest ax]"

lemma nest_Cons:
  "(d, s) \<in> set (nest ((n, dd, ss) # ax)) \<longleftrightarrow> (\<exists>x p q. 0 \<le> x \<and> x < n \<and> (p, q) \<in> set (nest ax) \<and> d = x * dd + p \<and> s = x * ss + q)"
  by auto

declare nest.simps(2) [simp del]

lemma nest_append:
  "(d, s) \<in> set (nest (as @ bs)) \<longleftrightarrow> (\<exists>p q p' q'. (p, q) \<in> set (nest as) \<and> (p', q') \<in> set (nest bs) \<and> d = p + p' \<and> s = q + q')"
proof (induction as arbitrary: d s)
  case (Cons a as)
  obtain n dd ss where a: "a = (n, dd, ss)" by (cases a)
  show ?case
  proof
    assume "(d, s) \<in> set (nest ((a # as) @ bs))"
    then obtain x p q where x: "0 \<le> x" "x < n" "(p, q) \<in> set (nest (as @ bs))" "d = x * dd + p" "s = x * ss + q"
      unfolding a append_Cons nest_Cons by blast
    then obtain p1 q1 p2 q2 where y: "(p1, q1) \<in> set (nest as)" "(p2, q2) \<in> set (nest bs)" "p = p1 + p2" "q = q1 + q2"
      using Cons.IH by blast
    have "(x * dd + p1, x * ss + q1) \<in> set (nest (a # as))" unfolding a nest_Cons using x y by blast
    then show "\<exists>p q p' q'. (p, q) \<in> set (nest (a # as)) \<and> (p', q') \<in> set (nest bs) \<and> d = p + p' \<and> s = q + q'"
      using x y by (intro exI [of _ "x * dd + p1"] exI [of _ "x * ss + q1"] exI [of _ p2] exI [of _ q2]) simp
  next
    assume "\<exists>p q p' q'. (p, q) \<in> set (nest (a # as)) \<and> (p', q') \<in> set (nest bs) \<and> d = p + p' \<and> s = q + q'"
    then obtain p q p' q' where x: "(p, q) \<in> set (nest (a # as))" "(p', q') \<in> set (nest bs)" "d = p + p'" "s = q + q'" by blast
    obtain z u v where y: "0 \<le> z" "z < n" "(u, v) \<in> set (nest as)" "p = z * dd + u" "q = z * ss + v"
      using x(1) unfolding a nest_Cons by blast
    have "(u + p', v + q') \<in> set (nest (as @ bs))" using Cons.IH x(2) y(3) by blast
    then show "(d, s) \<in> set (nest ((a # as) @ bs))"
      unfolding a append_Cons nest_Cons using x y by (intro exI [of _ z] exI [of _ "u + p'"] exI [of _ "v + q'"]) simp
  qed
qed simp

text \<open>A congruence: nests with the same pairs can replace each other inside a nest.\<close>

lemma nest_cong: "set (nest bs) = set (nest bs') \<Longrightarrow> set (nest (as @ bs @ cs)) = set (nest (as @ bs' @ cs))"
proof -
  assume e: "set (nest bs) = set (nest bs')"
  have "(d, s) \<in> set (nest (as @ bs @ cs)) \<longleftrightarrow> (d, s) \<in> set (nest (as @ bs' @ cs))" for d s
    unfolding nest_append e ..
  then show ?thesis by auto
qed

lemma nest_swap: "set (nest (as @ bs)) = set (nest (bs @ as))"
proof -
  have "(d, s) \<in> set (nest (as @ bs)) \<longleftrightarrow> (d, s) \<in> set (nest (bs @ as))" for d s
    unfolding nest_append by (metis add.commute)
  then show ?thesis by auto
qed

lemma nest_perm: "mset as = mset bs \<Longrightarrow> set (nest as) = set (nest bs)"
proof (induction as arbitrary: bs)
  case (Cons a as)
  then have "a \<in> set bs" by (metis list.set_intros(1) mset_eq_setD)
  then obtain xs ys where b: "bs = xs @ a # ys" by (auto simp: in_set_conv_decomp)
  then have "mset as = mset (xs @ ys)" using Cons.prems by simp
  then have i: "set (nest as) = set (nest (xs @ ys))" by (rule Cons.IH)
  have "set (nest (a # as)) = set (nest ([a] @ as @ []))" by simp
  also have "\<dots> = set (nest ([a] @ (xs @ ys) @ []))" by (rule nest_cong [OF i])
  also have "\<dots> = set (nest (([a] @ xs) @ ys))" by simp
  also have "\<dots> = set (nest ([] @ ([a] @ xs) @ ys))" by simp
  also have "\<dots> = set (nest ([] @ (xs @ [a]) @ ys))" by (rule nest_cong [OF nest_swap])
  finally show ?case unfolding b by simp
qed simp

text \<open>An axis of one element.\<close>

lemma nest_one: "set (nest ((1, dd, ss) # ax)) = set (nest ax)"
proof -
  have "(d, s) \<in> set (nest ((1, dd, ss) # ax)) \<longleftrightarrow> (d, s) \<in> set (nest ax)" for d s
    unfolding nest_Cons
  proof
    assume "\<exists>x p q. 0 \<le> x \<and> x < 1 \<and> (p, q) \<in> set (nest ax) \<and> d = x * dd + p \<and> s = x * ss + q"
    then show "(d, s) \<in> set (nest ax)" by (auto simp: int_one_le_iff_zero_less less_le_not_le)
  next
    assume "(d, s) \<in> set (nest ax)"
    then show "\<exists>x p q. 0 \<le> x \<and> x < 1 \<and> (p, q) \<in> set (nest ax) \<and> d = x * dd + p \<and> s = x * ss + q"
      by (intro exI [of _ 0] exI [of _ d] exI [of _ s]) simp
  qed
  then show ?thesis by auto
qed

lemma div_less_of_mult: "i < n * p \<Longrightarrow> 0 < p \<Longrightarrow> i div p < n" for i :: int
proof (rule ccontr)
  assume "i < n * p" "0 < p" "\<not> i div p < n"
  then have "n * p \<le> i div p * p" by (intro mult_right_mono) simp_all
  also have "\<dots> \<le> i" using \<open>0 < p\<close> by (metis div_mult_mod_eq le_add_same_cancel1 pos_mod_sign)
  finally show False using \<open>i < n * p\<close> by simp
qed

text \<open>Two axes that are one in both tensors.\<close>

lemma nest_fuse:
  assumes "0 \<le> n"
  shows "set (nest ((m, n * dd, n * ss) # (n, dd, ss) # ax)) = set (nest ((m * n, dd, ss) # ax))"
proof -
  have "(d, s) \<in> set (nest ((m, n * dd, n * ss) # (n, dd, ss) # ax)) \<longleftrightarrow> (d, s) \<in> set (nest ((m * n, dd, ss) # ax))" for d s
  proof
    assume "(d, s) \<in> set (nest ((m, n * dd, n * ss) # (n, dd, ss) # ax))"
    then obtain x y p q where x: "0 \<le> x" "x < m" "0 \<le> y" "y < n" "(p, q) \<in> set (nest ax)"
      "d = x * (n * dd) + (y * dd + p)" "s = x * (n * ss) + (y * ss + q)" unfolding nest_Cons by blast
    have "x * n + y < (x + 1) * n" using x(4) by (simp add: algebra_simps)
    also have "\<dots> \<le> m * n" using x(2) assms by (intro mult_right_mono) simp_all
    finally have "x * n + y < m * n" .
    then show "(d, s) \<in> set (nest ((m * n, dd, ss) # ax))"
      unfolding nest_Cons using x assms by (intro exI [of _ "x * n + y"] exI [of _ p] exI [of _ q]) (simp add: algebra_simps)
  next
    assume "(d, s) \<in> set (nest ((m * n, dd, ss) # ax))"
    then obtain z p q where z: "0 \<le> z" "z < m * n" "(p, q) \<in> set (nest ax)" "d = z * dd + p" "s = z * ss + q" unfolding nest_Cons by blast
    then have n: "0 < n" using assms by (cases "n = 0") simp_all
    have "z div n < m" using z(2) n by (rule div_less_of_mult)
    moreover have "0 \<le> z div n" "0 \<le> z mod n" "z mod n < n" using z(1) n by (simp_all add: pos_imp_zdiv_nonneg_iff)
    moreover have "z = z div n * n + z mod n" by simp
    then have "d = z div n * (n * dd) + (z mod n * dd + p)" "s = z div n * (n * ss) + (z mod n * ss + q)"
      unfolding z(4,5) by (metis (no_types) ab_semigroup_mult_class.mult_ac(1) distrib_right group_cancel.add1 mult.assoc)+
    ultimately show "(d, s) \<in> set (nest ((m, n * dd, n * ss) # (n, dd, ss) # ax))" unfolding nest_Cons using z(3) by blast
  qed
  then show ?thesis by auto
qed

section \<open>A region is a nest of three axes\<close>

definition move :: "int \<Rightarrow> int \<Rightarrow> (int \<times> int) set \<Rightarrow> (int \<times> int) set" where
  "move d s E = (\<lambda>(p, q). (d + p, s + q)) ` E"

lemma move_iff: "(d, s) \<in> move a b E \<longleftrightarrow> (d - a, s - b) \<in> E"
  by (force simp: move_def)

definition region_axes :: "Region \<Rightarrow> axis list" where
  "region_axes r = map (\<lambda>i. (rsize r ! i, vstride (rdst r) ! i, vstride (rsrc r) ! i)) [0, 1, 2]"

lemma nest_ConsI: "0 \<le> x \<Longrightarrow> x < n \<Longrightarrow> (p, q) \<in> set (nest ax) \<Longrightarrow> (x * dd + p, x * ss + q) \<in> set (nest ((n, dd, ss) # ax))"
  unfolding nest_Cons by blast

lemma nest3: "(p, q) \<in> set (nest [(a, d0, s0), (b, d1, s1), (c, d2, s2)]) \<longleftrightarrow>
    (\<exists>z y x. 0 \<le> z \<and> z < a \<and> 0 \<le> y \<and> y < b \<and> 0 \<le> x \<and> x < c \<and> p = z * d0 + y * d1 + x * d2 \<and> q = z * s0 + y * s1 + x * s2)"
proof
  assume "(p, q) \<in> set (nest [(a, d0, s0), (b, d1, s1), (c, d2, s2)])"
  then show "\<exists>z y x. 0 \<le> z \<and> z < a \<and> 0 \<le> y \<and> y < b \<and> 0 \<le> x \<and> x < c \<and> p = z * d0 + y * d1 + x * d2 \<and> q = z * s0 + y * s1 + x * s2"
    unfolding nest_Cons nest.simps(1) by (auto simp: add.assoc)
next
  assume "\<exists>z y x. 0 \<le> z \<and> z < a \<and> 0 \<le> y \<and> y < b \<and> 0 \<le> x \<and> x < c \<and> p = z * d0 + y * d1 + x * d2 \<and> q = z * s0 + y * s1 + x * s2"
  then obtain z y x where e: "0 \<le> z" "z < a" "0 \<le> y" "y < b" "0 \<le> x" "x < c" "p = z * d0 + y * d1 + x * d2" "q = z * s0 + y * s1 + x * s2" by blast
  have "(z * d0 + (y * d1 + (x * d2 + 0)), z * s0 + (y * s1 + (x * s2 + 0))) \<in> set (nest [(a, d0, s0), (b, d1, s1), (c, d2, s2)])"
    by (intro nest_ConsI) (use e in simp_all)
  then show "(p, q) \<in> set (nest [(a, d0, s0), (b, d1, s1), (c, d2, s2)])" unfolding e(7,8) by (simp add: add.assoc)
qed

lemma region_nest:
  "set (region_elements r) = move (voffset (rdst r)) (voffset (rsrc r)) (set (nest (region_axes r)))"
proof -
  have "(d, s) \<in> set (region_elements r) \<longleftrightarrow> (d - voffset (rdst r), s - voffset (rsrc r)) \<in> set (nest (region_axes r))" for d s
    unfolding region_axes_def list.map nest3 region_elements_iff by (simp add: algebra_simps)
  then show ?thesis using move_iff by auto
qed

end
