(* ===== verification/Geo_Model.thy ===== *)
theory Geo_Model
  imports Region_Model Shape_Layout
begin

text \<open>
  Geometry computers (source/geometry): ops that only move elements leave no command; they describe their
  outputs by regions of their inputs (\<open>MEMORY_VIRTUAL\<close>), which the raster copies. A computer takes the
  tensors with their numbers, which the regions name as origin, and the description of each output.
  Every field of a region that is not new is assigned, so what a \<open>resize\<close> leaves does not matter.
\<close>

record Describe =
  memory_virtual :: bool
  regions :: "Region list"

definition describe :: "Region list \<Rightarrow> Describe \<Rightarrow> Describe" where
  "describe rs des = des\<lparr>memory_virtual := True, regions := rs\<rparr>"

lemma regions_describe [simp]: "regions (describe rs des) = rs"
  by (simp add: describe_def)

definition mk_region :: "nat \<Rightarrow> int \<Rightarrow> int list \<Rightarrow> int \<Rightarrow> int list \<Rightarrow> int list \<Rightarrow> Region" where
  "mk_region origin dstOffset dstStride srcOffset srcStride sz =
     \<lparr>rsrc = \<lparr>voffset = srcOffset, vstride = srcStride\<rparr>, rdst = \<lparr>voffset = dstOffset, vstride = dstStride\<rparr>,
      rsize = sz, rorigin = Some origin\<rparr>"

text \<open>The product of the extents from \<open>a\<close> up to \<open>b\<close>.\<close>

definition extents_product :: "Tensor \<Rightarrow> int \<Rightarrow> int \<Rightarrow> int" where
  "extents_product t a b = for_loop a b (\<lambda>i v. v * extent t i) 1"

section \<open>Strides and coordinates (\<open>OpCommonUtils\<close>)\<close>

definition computeStride :: "int list \<Rightarrow> int list \<times> int" where
  "computeStride ns = foldr (\<lambda>n (strides, stride). (stride # strides, stride * n)) ns ([], 1)"

fun unravelIndexHelper :: "int list \<Rightarrow> int \<Rightarrow> int list" where
  "unravelIndexHelper [] value = []"
| "unravelIndexHelper (m # ms) value = cdiv value m # unravelIndexHelper ms (crem value m)"

definition dot :: "int list \<Rightarrow> int list \<Rightarrow> int" where
  "dot cs ss = fold (\<lambda>(c, s) v. v + c * s) (zip cs ss) 0"

section \<open>Permute and transpose\<close>

text \<open>The axes of the output in order: adjacent ones of the input are fused, those of one element left out.\<close>

definition stride_behind :: "Tensor \<Rightarrow> int \<Rightarrow> int" where
  "stride_behind input a = extents_product input (a + 1) (dimensions input)"

definition fuse_axis :: "Tensor \<Rightarrow> int \<Rightarrow> int list \<times> int list \<times> int \<Rightarrow> int list \<times> int list \<times> int" where
  "fuse_axis input axis s =
     (let (inputShape, inputStrides, preAxis) = s; len = extent input axis
      in if len = 1 then s
         else if axis - preAxis = 1 then
           (inputShape[length inputShape - 1 := inputShape ! (length inputShape - 1) * len], inputStrides, axis)
         else
           (inputShape @ [len], if preAxis \<ge> 0 then inputStrides @ [stride_behind input preAxis] else inputStrides, axis))"

definition fused_axes :: "Tensor \<Rightarrow> int list \<Rightarrow> int list \<times> int list" where
  "fused_axes input axes =
     (let (inputShape, inputStrides, preAxis) = fold (fuse_axis input) axes ([], [], -2)
      in (inputShape, if preAxis \<ge> 0 then inputStrides @ [stride_behind input preAxis] else inputStrides))"

text \<open>The three largest counts are moved to the end (counts, input strides and output strides alike).\<close>

definition max_three :: "int list \<Rightarrow> int \<times> int \<times> int" where
  "max_three inputShape =
     fold (\<lambda>n (max1, max2, max3).
         if n > max1 then (n, max1, max2) else if n > max2 then (max1, n, max2)
         else if n > max3 then (max1, max2, n) else (max1, max2, max3))
       (tl inputShape) (hd inputShape, -1, -1)"

definition swap_at :: "nat \<Rightarrow> nat \<Rightarrow> 'a list \<Rightarrow> 'a list" where
  "swap_at i j xs = (if i \<noteq> j then xs[i := xs ! j, j := xs ! i] else xs)"

type_synonym triples = "(int \<times> int \<times> int) list"

primrec move_largest :: "nat \<Rightarrow> int \<times> int \<times> int \<Rightarrow> nat \<Rightarrow> triples \<Rightarrow> triples" where
  "move_largest 0 maxs lastIndex xs = xs"
| "move_largest (Suc i) maxs lastIndex xs =
     (let (max1, max2, max3) = maxs; n = fst (xs ! i)
      in if n = max1 then
           (let xs = swap_at i lastIndex xs
            in if lastIndex - 1 < length xs - 3 then xs else move_largest i (-1, max2, max3) (lastIndex - 1) xs)
         else if n = max2 then
           (let xs = swap_at i lastIndex xs
            in if lastIndex - 1 < length xs - 3 then xs else move_largest i (max1, -1, max3) (lastIndex - 1) xs)
         else if n = max3 then
           (let xs = swap_at i lastIndex xs
            in if lastIndex - 1 < length xs - 3 then xs else move_largest i (max1, max2, -1) (lastIndex - 1) xs)
         else if lastIndex < length xs - 3 then xs else move_largest i maxs lastIndex xs)"

definition reorder_axes3 :: "triples \<Rightarrow> triples" where
  "reorder_axes3 xs =
     (let n = length xs
      in if n > 4 \<or> n = 4 \<and> fst (xs ! 0) > fst (xs ! 1) + fst (xs ! 2) + fst (xs ! 3) then
           move_largest n (max_three (map fst xs)) (n - 1) xs
         else xs)"

text \<open>One region for every index over the axes before the last three.\<close>

definition last_axis :: "nat \<Rightarrow> triples \<Rightarrow> int \<times> int \<times> int" where
  "last_axis k xs = (if length xs \<ge> k then xs ! (length xs - k) else (1, 0, 0))"

definition permute_regions :: "nat \<Rightarrow> triples \<Rightarrow> Region list" where
  "permute_regions origin xs =
     (let breakAxis = length xs - 3;
          remainSize = fold (\<lambda>x v. v * fst x) (take breakAxis xs) 1;
          mods = map (\<lambda>i. fold (\<lambda>x v. v * fst x) (drop (i + 1) (take breakAxis xs)) 1) [0..<breakAxis];
          inside = last_axis 1 xs; axis = last_axis 2 xs; outside = last_axis 3 xs
      in map (\<lambda>indice.
             let coordinate = unravelIndexHelper mods indice
             in mk_region origin
                  (dot coordinate (map (snd \<circ> snd) (take breakAxis xs))) [snd (snd outside), snd (snd axis), snd (snd inside)]
                  (dot coordinate (map (fst \<circ> snd) (take breakAxis xs))) [fst (snd outside), fst (snd axis), fst (snd inside)]
                  [fst outside, fst axis, fst inside])
           [0..remainSize - 1])"

definition ComputePermuteRegion :: "nat \<Rightarrow> Tensor \<Rightarrow> int list option \<Rightarrow> Describe \<Rightarrow> Describe" where
  "ComputePermuteRegion origin input newshape des =
     (let dims = dimensions input;
          neworder = (case newshape of Some ns \<Rightarrow> take (nat dims) ns | None \<Rightarrow> map (\<lambda>i. dims - i - 1) [0..dims - 1]);
          (inputShape, inputStrides) = fused_axes input neworder
      in if inputShape = [] then describe [makeFullSlice origin input] des
         else
           let outputStrides = fst (computeStride inputShape)
           in describe (permute_regions origin (reorder_axes3 (zip inputShape (zip inputStrides outputStrides)))) des)"

datatype PermuteOp = OpType_Permute "int list option" | OpType_Transpose

definition permute_order :: "PermuteOp \<Rightarrow> Tensor list \<Rightarrow> int list" where
  "permute_order op inputs =
     (let dims = dimensions (inputs ! 0)
      in case op of
           OpType_Permute (Some shapeValue) \<Rightarrow> take (nat dims) shapeValue
         | OpType_Permute None \<Rightarrow> map (\<lambda>i. dims - i - 1) [0..dims - 1]
         | OpType_Transpose \<Rightarrow> map (host_int (inputs ! 1)) [0..dims - 1])"

definition GeometryPermute :: "PermuteOp \<Rightarrow> nat \<Rightarrow> Tensor list \<Rightarrow> Describe \<Rightarrow> Describe" where
  "GeometryPermute op origin inputs des = ComputePermuteRegion origin (inputs ! 0) (Some (permute_order op inputs)) des"

section \<open>Concat and pack, slice and unpack\<close>

definition concat_region :: "bool \<Rightarrow> int \<Rightarrow> int \<Rightarrow> int \<Rightarrow> int \<Rightarrow> Tensor \<Rightarrow> nat \<Rightarrow> int \<Rightarrow> Region" where
  "concat_region inputFix axis outside inside axisLength t origin offset =
     (let n = (if inputFix then 1 else extent t axis)
      in mk_region origin (offset * inside) [inside * axisLength, inside, 1] 0 [n * inside, inside, 1] [outside, n, inside])"

definition GeometryConcat :: "bool \<Rightarrow> int \<Rightarrow> (nat \<times> Tensor) list \<Rightarrow> Tensor \<Rightarrow> Describe \<Rightarrow> Describe" where
  "GeometryConcat inputFix basicAxis inputs output des =
     (let axis = (if basicAxis < 0 then dimensions output + basicAxis else basicAxis);
          outside = extents_product output 0 axis;
          inside = extents_product output (axis + 1) (dimensions output);
          axisLength = extent output axis
      in if outside \<le> 0 \<or> inside \<le> 0 \<or> axisLength \<le> 0 then describe [] des
         else
           describe (snd (fold (\<lambda>(origin, t) (offset, rs).
               if elementSize t = 0 then (offset, rs)
               else let r = concat_region inputFix axis outside inside axisLength t origin offset in (offset + rsize r ! 1, rs @ [r]))
             inputs (0, []))) des)"

definition slice_region :: "int \<Rightarrow> int \<Rightarrow> int \<Rightarrow> nat \<Rightarrow> int \<Rightarrow> int \<Rightarrow> Region" where
  "slice_region outside inside axisLength origin offset n =
     mk_region origin 0 [inside * n, inside, 1] (offset * inside) [axisLength * inside, inside, 1] [outside, n, inside]"

definition GeometrySlice :: "bool \<Rightarrow> int \<Rightarrow> nat \<Rightarrow> Tensor \<Rightarrow> (Tensor \<times> Describe) list \<Rightarrow> Describe list" where
  "GeometrySlice inputFix axis0 origin input outputs =
     (let axis = (if axis0 < 0 then axis0 + dimensions input else axis0);
          outside = extents_product input 0 axis;
          inside = extents_product input (axis + 1) (dimensions input);
          inputZero = (elementSize input \<le> 0)
      in snd (fold (\<lambda>(output, des) (offset, dess).
           if inputZero then (offset, dess @ [describe [] des])
           else
             let n = (if inputFix then 1 else extent output axis)
             in (offset + n, dess @ [describe [slice_region outside inside (extent input axis) origin offset n] des]))
         outputs (0, [])))"

definition GeometrySliceTF :: "nat \<Rightarrow> Tensor \<Rightarrow> (int \<Rightarrow> int) \<Rightarrow> Tensor \<Rightarrow> Describe \<Rightarrow> Describe" where
  "GeometrySliceTF origin input beginPtr output des =
     (let dims = dimensions input;
          outputStrides = (\<lambda>i. extents_product input (i + 1) dims);
          srcOffset = for_loop 0 dims (\<lambda>i v. v +
             (let begin = beginPtr i in if begin < 0 then begin + extent input i else begin) * outputStrides i) 0;
          seperateDimIndexes = filter (\<lambda>i. 1 \<noteq> extent output i) [0..dimensions output - 1];
          xs = map (\<lambda>i. (extent output i, outputStrides i)) seperateDimIndexes;
          axis_of = (\<lambda>k. if length xs \<ge> k then xs ! (length xs - k) else (1, 0));
          inside = axis_of 1; axis = axis_of 2; outside = axis_of 3;
          breakAxis = length xs - 3;
          remainSize = fold (\<lambda>x v. v * fst x) (take breakAxis xs) 1;
          mods = map (\<lambda>i. fold (\<lambda>x v. v * fst x) (drop (i + 1) (take breakAxis xs)) 1) [0..<breakAxis];
          rs = map (\<lambda>indice.
             mk_region origin (indice * fst outside * fst axis * fst inside) [fst axis * fst inside, fst inside, 1]
               (dot (unravelIndexHelper mods indice) (map snd (take breakAxis xs)) + srcOffset) [snd outside, snd axis, snd inside]
               [fst outside, fst axis, fst inside]) [0..remainSize - 1]
      in if remainSize \<le> 0 then des\<lparr>regions := []\<rparr> else describe rs des)"

end
