(* ===== verification/Geo_Split.thy ===== *)
theory Geo_Split
  imports Geo_Nest Geo_Model
begin

text \<open>
  Row-major nests, the split of a nest into regions, and what copying a list of regions does.
\<close>

section \<open>Products and strides\<close>

lemma extents_product_eq: "extents_product t a b = prod_list (map (extent t) [a..b - 1])"
proof -
  have "fold (\<lambda>i v. v * f i) xs c = c * prod_list (map f xs)" for f :: "int \<Rightarrow> int" and xs c
    by (induction xs arbitrary: c) (simp_all add: mult.assoc)
  then show ?thesis by (simp add: extents_product_def for_loop_def)
qed

lemma extents_product_step: "a < b \<Longrightarrow> extents_product t a b = extent t a * extents_product t (a + 1) b"
  by (simp add: extents_product_eq upto_rec1)

lemma extents_product_split: "a \<le> b \<Longrightarrow> b \<le> c \<Longrightarrow> extents_product t a c = extents_product t a b * extents_product t b c"
proof (cases "b = c")
  case False
  assume "a \<le> b" "b \<le> c"
  then have "[a..c - 1] = [a..b - 1] @ [b..c - 1]" using False by (intro upto_split1) simp_all
  then show ?thesis unfolding extents_product_eq by simp
qed (simp add: extents_product_eq)

fun suffix_products :: "int list \<Rightarrow> int list" where
  "suffix_products [] = []"
| "suffix_products (n # ns) = prod_list ns # suffix_products ns"

lemma computeStride_eq: "computeStride ns = (suffix_products ns, prod_list ns)"
proof -
  have "foldr (\<lambda>n (strides, stride). (stride # strides, stride * n)) ns ([], 1) = (suffix_products ns, prod_list ns)"
    by (induction ns) (simp_all add: mult.commute)
  then show ?thesis by (simp add: computeStride_def)
qed

lemma dot_simps [simp]: "dot [] ss = 0" "dot cs [] = 0" "dot (c # cs) (s # ss) = c * s + dot cs ss"
proof -
  have "fold (\<lambda>(c, s) v. v + c * s) xs a = a + fold (\<lambda>(c, s) v. v + c * s) xs (0 :: int)" for xs a
  proof (induction xs arbitrary: a)
    case (Cons x xs)
    obtain c s where x: "x = (c, s)" by (cases x)
    show ?case unfolding x using Cons [of "a + c * s"] Cons [of "c * s"] by simp
  qed simp
  from this [of "zip cs ss" "c * s"] show "dot [] ss = 0" "dot cs [] = 0" "dot (c # cs) (s # ss) = c * s + dot cs ss" by (simp_all add: dot_def)
qed

section \<open>Indices of a nest\<close>

lemma nest_dotI: "list_all2 (\<lambda>x a. 0 \<le> x \<and> x < fst a) xs ax \<Longrightarrow> (dot xs (map (fst \<circ> snd) ax), dot xs (map (snd \<circ> snd) ax)) \<in> set (nest ax)"
proof (induction xs ax rule: list_all2_induct)
  case (Cons x xs a ax)
  obtain n dd ss where a: "a = (n, dd, ss)" by (cases a)
  show ?case unfolding a using Cons a by (auto intro!: nest_ConsI)
qed simp

lemma nest_dotD: "(d, s) \<in> set (nest ax) \<Longrightarrow>
    \<exists>xs. list_all2 (\<lambda>x a. 0 \<le> x \<and> x < fst a) xs ax \<and> d = dot xs (map (fst \<circ> snd) ax) \<and> s = dot xs (map (snd \<circ> snd) ax)"
proof (induction ax arbitrary: d s)
  case (Cons a ax)
  obtain n dd ss where a: "a = (n, dd, ss)" by (cases a)
  obtain x p q where x: "0 \<le> x" "x < n" "(p, q) \<in> set (nest ax)" "d = x * dd + p" "s = x * ss + q" using Cons.prems unfolding a nest_Cons by blast
  from Cons.IH [OF x(3)] obtain xs where "list_all2 (\<lambda>x a. 0 \<le> x \<and> x < fst a) xs ax" "p = dot xs (map (fst \<circ> snd) ax)" "q = dot xs (map (snd \<circ> snd) ax)" by blast
  then show ?case unfolding a using x by (intro exI [of _ "x # xs"]) (simp add: comp_def)
qed simp

section \<open>Row-major targets\<close>

text \<open>The target strides of counts that are stored row by row, \<open>k\<close> elements each.\<close>

primrec row_major :: "int \<Rightarrow> (int \<times> int) list \<Rightarrow> axis list" where
  "row_major k [] = []"
| "row_major k (a # ax) = (fst a, prod_list (map fst ax) * k, snd a) # row_major k ax"

lemma row_major_append: "row_major k (as @ bs) = row_major (prod_list (map fst bs) * k) as @ row_major k bs"
  by (induction as) (simp_all add: mult.assoc)

lemma row_major_bound:
  "list_all (\<lambda>a. 0 \<le> fst a) ax \<Longrightarrow> (d, s) \<in> set (nest (row_major 1 ax)) \<Longrightarrow> 0 \<le> d \<and> d < prod_list (map fst ax)"
proof (induction ax arbitrary: d s)
  case (Cons a ax)
  let ?P = "prod_list (map fst ax)"
  obtain x p q where x: "0 \<le> x" "x < fst a" "(p, q) \<in> set (nest (row_major 1 ax))" "d = x * ?P + p"
    using Cons.prems(2) unfolding row_major.simps nest_Cons by (auto simp: mult.assoc)
  have p: "0 \<le> p" "p < ?P" using Cons x(3) by auto
  have "d < (x + 1) * ?P" using x(4) p(2) by (simp add: algebra_simps)
  also have "\<dots> \<le> fst a * ?P" using x(2) p by (intro mult_right_mono) simp_all
  finally show ?case using x(1,4) p by simp
qed simp

lemma row_unique: "0 \<le> p \<Longrightarrow> p < n \<Longrightarrow> 0 \<le> u \<Longrightarrow> u < n \<Longrightarrow> x * n + p = y * n + u \<Longrightarrow> x = y \<and> p = u" for n :: int
proof -
  assume b: "0 \<le> p" "p < n" "0 \<le> u" "u < n" and e: "x * n + p = y * n + u"
  have "(x * n + p) div n = x" "(y * n + u) div n = y" using b by simp_all
  then have "x = y" unfolding e by (rule trans [OF sym])
  then show ?thesis using e by simp
qed

text \<open>No target is written twice.\<close>

lemma row_major_unique:
  "list_all (\<lambda>a. 0 \<le> fst a) ax \<Longrightarrow> (d, s) \<in> set (nest (row_major 1 ax)) \<Longrightarrow> (d, t) \<in> set (nest (row_major 1 ax)) \<Longrightarrow> s = t"
proof (induction ax arbitrary: d s t)
  case (Cons a ax)
  let ?P = "prod_list (map fst ax)"
  obtain x p q where x: "(p, q) \<in> set (nest (row_major 1 ax))" "d = x * ?P + p" "s = x * snd a + q"
    using Cons.prems(2) unfolding row_major.simps nest_Cons by auto
  obtain y u v where y: "(u, v) \<in> set (nest (row_major 1 ax))" "d = y * ?P + u" "t = y * snd a + v"
    using Cons.prems(3) unfolding row_major.simps nest_Cons by auto
  have l: "list_all (\<lambda>a. 0 \<le> fst a) ax" using Cons.prems(1) by simp
  have "0 \<le> p" "p < ?P" "0 \<le> u" "u < ?P" using row_major_bound [OF l x(1)] row_major_bound [OF l y(1)] by auto
  then have "x = y \<and> p = u" using x(2) y(2) by (intro row_unique [of p ?P u]) simp_all
  then show ?case using Cons.IH [OF l x(1)] y(1,3) x(3) by blast
qed simp

text \<open>Two lists of axes that stand for the same nest whatever comes behind.\<close>

definition same_nest :: "(int \<times> int) list \<Rightarrow> (int \<times> int) list \<Rightarrow> bool" where
  "same_nest as bs \<longleftrightarrow> prod_list (map fst as) = prod_list (map fst bs) \<and> (\<forall>k. set (nest (row_major k as)) = set (nest (row_major k bs)))"

lemma same_nest_refl [simp]: "same_nest as as"
  by (simp add: same_nest_def)

lemma same_nest_trans: "same_nest as bs \<Longrightarrow> same_nest bs cs \<Longrightarrow> same_nest as cs"
  by (simp add: same_nest_def)

lemma same_nest_append:
  assumes "same_nest as bs"
  shows "same_nest (xs @ as @ ys) (xs @ bs @ ys)"
proof -
  have p: "prod_list (map fst as) = prod_list (map fst bs)" and n: "set (nest (row_major k as)) = set (nest (row_major k bs))" for k
    using assms unfolding same_nest_def by blast+
  have "set (nest (row_major k (xs @ as @ ys))) = set (nest (row_major k (xs @ bs @ ys)))" for k
    unfolding row_major_append map_append prod_list.append p by (rule nest_cong [OF n])
  then show ?thesis unfolding same_nest_def map_append prod_list.append p by blast
qed

lemma same_nest_one: "same_nest [(1, s)] []"
  by (simp add: same_nest_def nest_one)

lemma same_nest_fuse: "0 \<le> n \<Longrightarrow> same_nest [(m, n * s), (n, s)] [(m * n, s)]"
  using nest_fuse [of n m] by (simp add: same_nest_def)

end
