(* ===== verification/Geo_Raster.thy ===== *)
theory Geo_Raster
  imports Geo_Split
begin

text \<open>
  What the raster does with the regions of a tensor, and the regions of a nest of more than three axes:
  one for every index over the outer axes, which \<open>unravelIndexHelper\<close> turns into coordinates.
\<close>

section \<open>Copying a list of regions\<close>

definition raster :: "(nat \<Rightarrow> int \<Rightarrow> 'v) \<Rightarrow> Region list \<Rightarrow> (int \<Rightarrow> 'v) \<Rightarrow> int \<Rightarrow> 'v" where
  "raster mem rs out = fold (\<lambda>r m. computeRaw m (mem (the (rorigin r))) r) rs out"

lemma raster_snoc: "raster mem (rs @ [r]) out = computeRaw (raster mem rs out) (mem (the (rorigin r))) r"
  by (simp add: raster_def)

lemma raster_write:
  assumes "r \<in> set rs" and "(d, s) \<in> set (region_elements r)"
    and "\<And>r' s'. r' \<in> set rs \<Longrightarrow> (d, s') \<in> set (region_elements r') \<Longrightarrow> mem (the (rorigin r')) s' = mem (the (rorigin r)) s"
  shows "raster mem rs out d = mem (the (rorigin r)) s"
  using assms(1,3)
proof (induction rs rule: rev_induct)
  case (snoc x rs)
  show ?case
  proof (cases "d \<in> fst ` set (region_elements x)")
    case True
    then obtain t where t: "(d, t) \<in> set (region_elements x)" by auto
    have x: "mem (the (rorigin x)) s' = mem (the (rorigin r)) s" if "(d, s') \<in> set (region_elements x)" for s'
      by (rule snoc.prems(2) [OF _ that]) simp
    have "computeRaw (raster mem rs out) (mem (the (rorigin x))) x d = mem (the (rorigin x)) t"
      by (rule computeRaw_write [OF t]) (simp add: x t)
    then show ?thesis unfolding raster_snoc using x [OF t] by simp
  next
    case False
    then have "r \<in> set rs" using snoc.prems(1) assms(2) by force
    then have "raster mem rs out d = mem (the (rorigin r)) s" by (rule snoc.IH) (rule snoc.prems(2); simp)
    then show ?thesis unfolding raster_snoc computeRaw_keep [OF False] .
  qed
qed simp

lemma raster_keep: "(\<And>r. r \<in> set rs \<Longrightarrow> d \<notin> fst ` set (region_elements r)) \<Longrightarrow> raster mem rs out d = out d"
proof (induction rs rule: rev_induct)
  case (snoc r rs)
  then have h: "raster mem rs out d = out d" and k: "d \<notin> fst ` set (region_elements r)" by simp_all
  show ?case unfolding raster_snoc computeRaw_keep [OF k] by (rule h)
qed (simp add: raster_def)

text \<open>All pairs of the regions, when they come from one tensor.\<close>

definition copies :: "Region list \<Rightarrow> (int \<times> int) set" where
  "copies rs = (\<Union>r\<in>set rs. set (region_elements r))"

lemma raster_copies:
  assumes o: "\<And>r. r \<in> set rs \<Longrightarrow> rorigin r = Some k" and e: "(d, s) \<in> copies rs"
    and u: "\<And>s'. (d, s') \<in> copies rs \<Longrightarrow> s' = s"
  shows "raster mem rs out d = mem k s"
proof -
  obtain r where r: "r \<in> set rs" "(d, s) \<in> set (region_elements r)" using e by (auto simp: copies_def)
  have "raster mem rs out d = mem (the (rorigin r)) s"
  proof (rule raster_write [OF r])
    fix r' s' assume "r' \<in> set rs" "(d, s') \<in> set (region_elements r')"
    then have "s' = s" "rorigin r' = Some k" using u o by (auto simp: copies_def)
    then show "mem (the (rorigin r')) s' = mem (the (rorigin r)) s" using o [OF r(1)] by simp
  qed
  then show ?thesis using o [OF r(1)] by simp
qed

lemma move_0 [simp]: "move 0 0 E = E"
  by (simp add: move_def)

lemma mk_region_nest:
  "set (region_elements (mk_region k d [d0, d1, d2] s [s0, s1, s2] [n0, n1, n2])) = move d s (set (nest [(n0, d0, s0), (n1, d1, s1), (n2, d2, s2)]))"
  unfolding region_nest by (simp add: region_axes_def mk_region_def)

section \<open>Unravelling an index\<close>

lemma unravel_bound:
  "list_all (\<lambda>n. 0 < n) ns \<Longrightarrow> 0 \<le> i \<Longrightarrow> i < prod_list ns \<Longrightarrow>
   list_all2 (\<lambda>x n. 0 \<le> x \<and> x < n) (unravelIndexHelper (suffix_products ns) i) ns"
proof (induction ns arbitrary: i)
  case (Cons n ns)
  have p: "0 < prod_list ns" using Cons.prems(1) by (induction ns) simp_all
  have "i div prod_list ns < n" using Cons.prems(3) p by (auto intro: div_less_of_mult)
  moreover have "0 \<le> i div prod_list ns" using Cons.prems(2) p by (simp add: pos_imp_zdiv_nonneg_iff)
  moreover have "list_all2 (\<lambda>x n. 0 \<le> x \<and> x < n) (unravelIndexHelper (suffix_products ns) (i mod prod_list ns)) ns"
    by (rule Cons.IH) (use Cons.prems(1) p in simp_all)
  ultimately show ?case using Cons.prems(2) p by (simp add: cdiv_nonneg crem_nonneg)
qed simp

lemma unravel_dot:
  "list_all2 (\<lambda>x n. 0 \<le> x \<and> x < n) xs ns \<Longrightarrow>
   0 \<le> dot xs (suffix_products ns) \<and> dot xs (suffix_products ns) < prod_list ns \<and>
   unravelIndexHelper (suffix_products ns) (dot xs (suffix_products ns)) = xs"
proof (induction xs ns rule: list_all2_induct)
  case (Cons x xs n ns)
  let ?P = "prod_list ns" and ?d = "dot xs (suffix_products ns)"
  have d: "0 \<le> ?d" "?d < ?P" using Cons by simp_all
  have "x * ?P + ?d < (x + 1) * ?P" using d by (simp add: algebra_simps)
  also have "\<dots> \<le> n * ?P" using Cons(1) d by (intro mult_right_mono) simp_all
  finally have "x * ?P + ?d < n * ?P" .
  moreover have "0 \<le> x * ?P + ?d" using Cons(1) d by simp
  moreover have "(x * ?P + ?d) div ?P = x" "(x * ?P + ?d) mod ?P = ?d" using d by simp_all
  ultimately show ?case using Cons d by (simp add: cdiv_nonneg crem_nonneg)
qed simp

section \<open>One region for every index over the outer axes\<close>

lemma fold_prod: "fold (\<lambda>x v. v * fst x) ys c = c * prod_list (map fst ys)" for ys :: "(int \<times> 'a) list" and c
  by (induction ys arbitrary: c) (simp_all add: mult.assoc)

lemma suffix_products_mods: "map (\<lambda>i. fold (\<lambda>x v. v * fst x) (drop (i + 1) xs) 1) [0..<length xs] = suffix_products (map fst xs)"
  for xs :: "(int \<times> 'a) list"
proof (induction xs)
  case (Cons x xs)
  have "[0..<length (x # xs)] = 0 # map Suc [0..<length xs]" by (simp add: upt_conv_Cons map_Suc_upt del: upt_Suc)
  then show ?case using Cons by (simp add: fold_prod comp_def)
qed simp

lemma prod_list_pos: "list_all2 (\<lambda>x n. 0 \<le> x \<and> x < n) xs ns \<Longrightarrow> list_all (\<lambda>n. 0 < n) ns" for xs ns :: "int list"
  by (induction xs ns rule: list_all2_induct) simp_all

text \<open>The pairs of the regions are those of the nest of all axes.\<close>

lemma outer_copies:
  fixes as :: "axis list"
  assumes n: "list_all (\<lambda>a. 0 \<le> fst a) as"
    and c: "\<And>i. set (region_elements (f i)) =
      move (d + dot (unravelIndexHelper (suffix_products (map fst as)) i) (map (fst \<circ> snd) as))
           (s + dot (unravelIndexHelper (suffix_products (map fst as)) i) (map (snd \<circ> snd) as)) (set (nest bs))"
  shows "copies (map f [0..prod_list (map fst as) - 1]) = move d s (set (nest (as @ bs)))" (is "?L = ?R")
proof -
  let ?ns = "map fst as"
  have "(p, q) \<in> ?L \<longleftrightarrow> (p, q) \<in> ?R" for p q
  proof
    assume "(p, q) \<in> ?L"
    then obtain i where i: "0 \<le> i" "i < prod_list ?ns" "(p, q) \<in> set (region_elements (f i))" by (auto simp: copies_def)
    have "\<not> 0 \<in> set ?ns" using i(1,2) by (metis not_less prod_list_zero_iff)
    then have pos: "list_all (\<lambda>n. 0 < n) ?ns" using n by (force simp: list_all_iff)
    define xs where "xs = unravelIndexHelper (suffix_products ?ns) i"
    obtain u v where u: "(u, v) \<in> set (nest bs)" "p = d + dot xs (map (fst \<circ> snd) as) + u" "q = s + dot xs (map (snd \<circ> snd) as) + v"
      using i(3) unfolding c move_def xs_def by auto
    have "list_all2 (\<lambda>x a. 0 \<le> x \<and> x < fst a) xs as"
      using unravel_bound [OF pos i(1,2)] unfolding xs_def by (simp add: list_all2_map2)
    then have "(dot xs (map (fst \<circ> snd) as) + u, dot xs (map (snd \<circ> snd) as) + v) \<in> set (nest (as @ bs))"
      unfolding nest_append using nest_dotI u(1) by blast
    then show "(p, q) \<in> ?R" unfolding u(2,3) move_def by (force simp: add.assoc)
  next
    assume "(p, q) \<in> ?R"
    then obtain e e' where e: "(e, e') \<in> set (nest (as @ bs))" "p = d + e" "q = s + e'" by (auto simp: move_def)
    obtain u v u' v' where u: "(u, v) \<in> set (nest as)" "(u', v') \<in> set (nest bs)" "e = u + u'" "e' = v + v'"
      using e(1) unfolding nest_append by blast
    from nest_dotD [OF u(1)] obtain xs where xs: "list_all2 (\<lambda>x a. 0 \<le> x \<and> x < fst a) xs as"
      "u = dot xs (map (fst \<circ> snd) as)" "v = dot xs (map (snd \<circ> snd) as)" by blast
    define i where "i = dot xs (suffix_products ?ns)"
    have "list_all2 (\<lambda>x n. 0 \<le> x \<and> x < n) xs ?ns" using xs(1) by (simp add: list_all2_map2)
    from unravel_dot [OF this] have i: "0 \<le> i" "i < prod_list ?ns" "unravelIndexHelper (suffix_products ?ns) i = xs"
      unfolding i_def by blast+
    have "(p, q) \<in> set (region_elements (f i))" unfolding c i(3) move_def using u xs(2,3) e(2,3) by force
    then show "(p, q) \<in> ?L" using i(1,2) by (auto simp: copies_def)
  qed
  then show ?thesis by auto
qed

section \<open>Regions that fill a tensor row by row\<close>

lemma row_major_fields:
  "map fst (row_major k ax) = map fst ax" "map (fst \<circ> snd) (row_major 1 ax) = suffix_products (map fst ax)"
  "map (snd \<circ> snd) (row_major k ax) = map snd ax"
  by (induction ax) simp_all

lemma row_major_at:
  assumes "list_all2 (\<lambda>x a. 0 \<le> x \<and> x < fst a) xs ax"
  shows "(dot xs (suffix_products (map fst ax)), dot xs (map snd ax)) \<in> set (nest (row_major 1 ax))"
proof -
  have "list_all2 (\<lambda>x n. 0 \<le> x \<and> x < n) xs (map fst (row_major 1 ax))"
    unfolding row_major_fields using assms by (simp add: list_all2_map2)
  then have "list_all2 (\<lambda>x a. 0 \<le> x \<and> x < fst a) xs (row_major 1 ax)" by (simp add: list_all2_map2)
  from nest_dotI [OF this] show ?thesis unfolding row_major_fields .
qed

text \<open>The element at the coordinates \<open>xs\<close> comes from the source at the same coordinates along the source's strides.\<close>

lemma raster_row_major:
  assumes o: "\<And>r. r \<in> set rs \<Longrightarrow> rorigin r = Some k" and c: "copies rs = set (nest (row_major 1 ax))"
    and xs: "list_all2 (\<lambda>x a. 0 \<le> x \<and> x < fst a) xs ax"
  shows "raster mem rs out (dot xs (suffix_products (map fst ax))) = mem k (dot xs (map snd ax))"
proof (rule raster_copies [OF o])
  show e: "(dot xs (suffix_products (map fst ax)), dot xs (map snd ax)) \<in> copies rs" unfolding c by (rule row_major_at [OF xs])
  have "list_all (\<lambda>a. 0 \<le> fst a) ax" using xs by (induction xs ax rule: list_all2_induct) simp_all
  then show "s' = dot xs (map snd ax)" if "(dot xs (suffix_products (map fst ax)), s') \<in> copies rs" for s'
    using that e unfolding c by (rule row_major_unique)
qed

end
