(* ===== verification/Geo_Permute.thy ===== *)
theory Geo_Permute
  imports Geo_Raster
begin

text \<open>Permute: the fused, reordered and split axes stand for the permuted tensor.\<close>

section \<open>Fusing the axes\<close>

definition axis_in :: "Tensor \<Rightarrow> int \<Rightarrow> int \<times> int" where
  "axis_in input a = (extent input a, stride_behind input a)"

text \<open>What the loop has gathered after the axes \<open>as\<close>: the last stride is filled in later.\<close>

definition gathered :: "Tensor \<Rightarrow> int list \<times> int list \<times> int \<Rightarrow> (int \<times> int) list" where
  "gathered input s = (case s of (shp, st, pre) \<Rightarrow> zip shp (if pre \<ge> 0 then st @ [stride_behind input pre] else st))"

definition fuse_state :: "Tensor \<Rightarrow> int list \<Rightarrow> int list \<times> int list \<times> int \<Rightarrow> bool" where
  "fuse_state input as s = (case s of (shp, st, pre) \<Rightarrow>
     same_nest (map (axis_in input) as) (gathered input s) \<and> list_all (\<lambda>n. 0 \<le> n) shp \<and>
     (shp = [] \<and> st = [] \<and> pre = -2 \<or> length shp = Suc (length st) \<and> 0 \<le> pre \<and> pre < dimensions input))"

lemma stride_behind_step:
  "a + 1 < dimensions t \<Longrightarrow> stride_behind t a = extent t (a + 1) * stride_behind t (a + 1)"
  unfolding stride_behind_def by (rule extents_product_step)

lemma same_nest_snoc: "same_nest as bs \<Longrightarrow> same_nest cs ds \<Longrightarrow> same_nest (as @ cs) (bs @ ds)"
  using same_nest_trans same_nest_append [of as bs "[]" cs] same_nest_append [of cs ds bs "[]"] by simp

lemma fuse_axis_step:
  assumes s: "fuse_state input as s" and a: "0 \<le> a" "a < dimensions input" and n: "0 \<le> extent input a"
  shows "fuse_state input (as @ [a]) (fuse_axis input a s)"
proof -
  obtain shp st pre where s_def: "s = (shp, st, pre)" by (cases s)
  have same: "same_nest (map (axis_in input) as) (gathered input s)" using s by (simp add: fuse_state_def s_def)
  consider "extent input a = 1" | "extent input a \<noteq> 1" "a - pre = 1" | "extent input a \<noteq> 1" "a - pre \<noteq> 1" by blast
  then show ?thesis
  proof cases
    case 1
    have "same_nest (map (axis_in input) as @ [axis_in input a]) (gathered input s @ [])"
      using same same_nest_one by (intro same_nest_snoc) (simp_all add: axis_in_def 1)
    then show ?thesis using s 1 by (simp add: fuse_state_def fuse_axis_def s_def)
  next
    case 2
    then have pre: "0 \<le> pre" "a = pre + 1" and l: "length shp = Suc (length st)" using s a by (auto simp: fuse_state_def s_def)
    define shp' m where "shp' = butlast shp" and "m = last shp"
    have shp: "shp = shp' @ [m]" "length shp' = length st" using l unfolding shp'_def m_def by (cases shp rule: rev_cases; simp)+
    have g: "gathered input s = zip shp' st @ [(m, extent input a * stride_behind input a)]"
      using pre shp stride_behind_step [of pre input] a by (simp add: gathered_def s_def)
    have f: "fuse_axis input a s = (shp' @ [m * extent input a], st, a)"
      using 2 unfolding fuse_axis_def s_def shp(1) by (simp add: Let_def shp(2) [symmetric])
    have "same_nest (map (axis_in input) as @ [axis_in input a]) (zip shp' st @ [(m, extent input a * stride_behind input a)] @ [axis_in input a])"
      using same_nest_snoc [OF same same_nest_refl [of "[axis_in input a]"]] unfolding g by simp
    moreover have "same_nest (zip shp' st @ [(m, extent input a * stride_behind input a), axis_in input a] @ []) (zip shp' st @ [(m * extent input a, stride_behind input a)] @ [])"
      unfolding axis_in_def by (rule same_nest_append [OF same_nest_fuse [OF n]])
    ultimately have "same_nest (map (axis_in input) as @ [axis_in input a]) (zip shp' st @ [(m * extent input a, stride_behind input a)])"
      using same_nest_trans by simp
    moreover have "list_all (\<lambda>n. 0 \<le> n) (shp' @ [m])" using s by (simp add: fuse_state_def s_def shp(1))
    ultimately show ?thesis using a shp n unfolding f by (simp add: fuse_state_def gathered_def)
  next
    case 3
    let ?st = "if pre \<ge> 0 then st @ [stride_behind input pre] else st"
    have f: "fuse_axis input a s = (shp @ [extent input a], ?st, a)" using 3 by (simp add: fuse_axis_def s_def)
    have l: "length shp = length ?st" using s by (auto simp: fuse_state_def s_def)
    have "same_nest (map (axis_in input) as @ [axis_in input a]) (gathered input s @ [axis_in input a])"
      by (rule same_nest_snoc [OF same same_nest_refl])
    moreover have "list_all (\<lambda>n. 0 \<le> n) shp" using s by (simp add: fuse_state_def s_def)
    ultimately show ?thesis using a l n unfolding f by (simp add: fuse_state_def gathered_def s_def axis_in_def)
  qed
qed

lemma fused_axes_same:
  assumes a: "list_all (\<lambda>a. 0 \<le> a \<and> a < dimensions input) order" and n: "\<And>a. 0 \<le> a \<Longrightarrow> a < dimensions input \<Longrightarrow> 0 \<le> extent input a"
  shows "same_nest (map (axis_in input) order) (zip (fst (fused_axes input order)) (snd (fused_axes input order))) \<and>
    list_all (\<lambda>n. 0 \<le> n) (fst (fused_axes input order)) \<and> length (fst (fused_axes input order)) = length (snd (fused_axes input order))"
proof -
  have "fuse_state input order (fold (fuse_axis input) order ([], [], -2))" using a
  proof (induction order rule: rev_induct)
    case Nil
    then show ?case by (simp add: fuse_state_def gathered_def)
  next
    case (snoc x xs)
    then show ?case using fuse_axis_step [of input xs _ x] n by simp
  qed
  then show ?thesis
    by (cases "fold (fuse_axis input) order ([], [], -2)")
      (auto simp: fuse_state_def gathered_def fused_axes_def)
qed

section \<open>Reordering the axes\<close>

lemma swap_at_mset: "i < length xs \<Longrightarrow> j < length xs \<Longrightarrow> mset (swap_at i j xs) = mset xs"
  by (simp add: swap_at_def mset_swap)

lemma swap_at_length [simp]: "length (swap_at i j xs) = length xs"
  by (simp add: swap_at_def)

lemma move_largest_mset: "i \<le> length xs \<Longrightarrow> l < length xs \<Longrightarrow> mset (move_largest i maxs l xs) = mset xs"
proof (induction i arbitrary: maxs l xs)
  case (Suc i)
  have s: "mset (swap_at i l xs) = mset xs" using Suc.prems by (intro swap_at_mset) simp_all
  have r: "mset (move_largest i ms (l - Suc 0) (swap_at i l xs)) = mset xs" for ms
    using Suc.IH [of "swap_at i l xs" "l - 1" ms] Suc.prems s by simp
  have k: "mset (move_largest i ms l xs) = mset xs" for ms using Suc.IH [of xs l ms] Suc.prems by simp
  show ?case by (cases maxs) (simp add: s r k Let_def)
qed simp

lemma reorder_axes3_mset: "mset (reorder_axes3 xs) = mset xs"
  by (auto simp: reorder_axes3_def Let_def intro!: move_largest_mset)

section \<open>The regions\<close>

text \<open>A triple of the code is count, input stride, output stride.\<close>

definition axis_of :: "int \<times> int \<times> int \<Rightarrow> axis" where
  "axis_of x = (fst x, snd (snd x), fst (snd x))"

lemma nest_ones: "set (nest (replicate k (1, 0, 0) @ ax)) = set (nest ax)"
  by (induction k) (simp_all add: nest_one)

lemma last_three:
  "set (nest (map axis_of [last_axis 3 xs, last_axis 2 xs, last_axis 1 xs])) = set (nest (map axis_of (drop (length xs - 3) xs)))"
proof -
  consider "xs = []" | a where "xs = [a]" | a b where "xs = [a, b]" | ys a b c where "xs = ys @ [a, b, c]"
    by (metis append_butlast_last_id append_assoc append_Cons append_Nil)
  then show ?thesis
  proof cases
    case 4
    then show ?thesis by (simp add: last_axis_def nth_append)
  qed (simp_all add: last_axis_def axis_of_def nest_one)
qed

lemma permute_regions_copies:
  assumes "list_all (\<lambda>x. 0 \<le> fst x) xs"
  shows "copies (permute_regions k xs) = set (nest (map axis_of xs))"
proof -
  let ?as = "take (length xs - 3) xs" and ?bs = "[last_axis 3 xs, last_axis 2 xs, last_axis 1 xs]"
  have m: "map (\<lambda>i. fold (\<lambda>x v. v * fst x) (drop (i + 1) ?as) 1) [0..<length xs - 3] = suffix_products (map fst ?as)"
    using suffix_products_mods [of ?as] by simp
  have p: "fold (\<lambda>x v. v * fst x) ?as 1 = prod_list (map fst (map axis_of ?as))"
    using fold_prod [of ?as 1] by (simp add: axis_of_def comp_def)
  have "copies (permute_regions k xs) = move 0 0 (set (nest (map axis_of ?as @ map axis_of ?bs)))"
    unfolding permute_regions_def Let_def p m
  proof (rule outer_copies)
    show "list_all (\<lambda>a. 0 \<le> fst a) (map axis_of ?as)" using assms by (auto simp: list_all_iff axis_of_def dest: in_set_takeD)
  qed (simp add: mk_region_nest axis_of_def comp_def)
  also have "\<dots> = set (nest (map axis_of ?as @ map axis_of (drop (length xs - 3) xs) @ []))"
    unfolding move_0 using nest_cong [OF last_three, of "map axis_of ?as" xs "[]"] by simp
  also have "\<dots> = set (nest (map axis_of xs))" by (simp flip: map_append)
  finally show ?thesis .
qed

lemma row_major_zip:
  "length ns = length ss \<Longrightarrow> map axis_of (zip ns (zip ss (suffix_products ns))) = row_major 1 (zip ns ss)"
  by (induction ns ss rule: list_induct2) (simp_all add: axis_of_def)

lemma full_slice_copies:
  "copies [makeFullSlice k t] = (\<lambda>x. (x, x)) ` {0..<extents_product t 0 (dimensions t)}" (is "_ = (\<lambda>x. (x, x)) ` {0..<?n}")
proof -
  have "makeFullSlice k t = mk_region k 0 [?n, ?n, 1] 0 [?n, ?n, 1] [1, 1, ?n]"
    by (simp add: makeFullSlice_def mk_region_def Let_def extents_product_def)
  then have "copies [makeFullSlice k t] = set (nest [(?n, 1, 1)])"
    unfolding copies_def by (simp add: mk_region_nest nest_one)
  moreover have "(d, s) \<in> set (nest [(?n, 1, 1)]) \<longleftrightarrow> (d, s) \<in> (\<lambda>x. (x, x)) ` {0..<?n}" for d s
    unfolding nest_Cons by auto
  ultimately show ?thesis by auto
qed

lemma extents_product_mset: "mset order = mset [0..dimensions t - 1] \<Longrightarrow> extents_product t 0 (dimensions t) = prod_list (map (extent t) order)"
  unfolding extents_product_eq by (metis mset_map prod_mset_prod_list)

lemma permute_copies:
  assumes o: "mset order = mset [0..dimensions input - 1]" and n: "\<And>a. 0 \<le> a \<Longrightarrow> a < dimensions input \<Longrightarrow> 0 \<le> extent input a"
  shows "copies (regions (ComputePermuteRegion k input (Some order) des)) = set (nest (row_major 1 (map (axis_in input) order)))"
proof -
  obtain ns ss where f: "fused_axes input order = (ns, ss)" by (cases "fused_axes input order")
  have mem: "set order = {0..dimensions input - 1}" using o by (metis set_mset_mset set_upto)
  then have a: "list_all (\<lambda>a. 0 \<le> a \<and> a < dimensions input) order" by (simp add: list_all_iff)
  have s: "same_nest (map (axis_in input) order) (zip ns ss)" and pos: "list_all (\<lambda>n. 0 \<le> n) ns" and l: "length ns = length ss"
    using fused_axes_same [OF a n] unfolding f by simp_all
  have set_eq: "set (nest (row_major 1 (map (axis_in input) order))) = set (nest (row_major 1 (zip ns ss)))"
    and prod_eq: "prod_list (map (extent input) order) = prod_list ns"
    using s l unfolding same_nest_def by (simp_all add: comp_def axis_in_def)
  have len: "length order = nat (dimensions input)" using o by (metis length_upto size_mset diff_add_cancel diff_0_right)
  show ?thesis
  proof (cases "ns = []")
    case True
    have "copies [makeFullSlice k input] = {(0, 0)}"
      unfolding full_slice_copies extents_product_mset [OF o] prod_eq True by (auto simp: image_def)
    then show ?thesis unfolding set_eq using len l by (simp add: ComputePermuteRegion_def f True describe_def Let_def)
  next
    case False
    let ?xs = "zip ns (zip ss (suffix_products ns))"
    have "set (reorder_axes3 ?xs) = set ?xs" by (rule mset_eq_setD [OF reorder_axes3_mset])
    then have nn: "list_all (\<lambda>x. 0 \<le> fst x) (reorder_axes3 ?xs)"
      using pos by (auto simp: list_all_iff dest: set_zip_leftD)
    have "copies (permute_regions k (reorder_axes3 ?xs)) = set (nest (map axis_of (reorder_axes3 ?xs)))"
      by (rule permute_regions_copies [OF nn])
    also have "\<dots> = set (nest (map axis_of ?xs))" by (rule nest_perm) (simp add: reorder_axes3_mset)
    finally show ?thesis unfolding set_eq row_major_zip [OF l] using False len
      by (simp add: ComputePermuteRegion_def f describe_def Let_def computeStride_eq)
  qed
qed

lemma dot_map: "dot (map f xs) (map g xs) = sum_list (map (\<lambda>x. f x * g x) xs)"
  by (induction xs) simp_all

lemma suffix_products_strides: "0 \<le> a \<Longrightarrow> suffix_products (map (extent t) [a..dimensions t - 1]) = map (stride_behind t) [a..dimensions t - 1]"
proof (induction "nat (dimensions t - a)" arbitrary: a)
  case (Suc m)
  then have "[a..dimensions t - 1] = a # [a + 1..dimensions t - 1]" by (intro upto_rec1) simp
  then show ?case using Suc by (simp add: stride_behind_def extents_product_eq)
qed simp

text \<open>The offset of an element of a tensor stored row by row.\<close>

definition row_offset :: "int list \<Rightarrow> int list \<Rightarrow> int" where
  "row_offset ns xs = dot xs (fst (computeStride ns))"

lemma permute_origin: "r \<in> set (regions (ComputePermuteRegion k input order des)) \<Longrightarrow> rorigin r = Some k"
  by (auto simp: ComputePermuteRegion_def Let_def describe_def permute_regions_def mk_region_def makeFullSlice_def split: prod.splits if_splits)

lemma permute_moves:
  assumes o: "mset order = mset [0..dimensions input - 1]"
    and y: "\<And>a. 0 \<le> a \<Longrightarrow> a < dimensions input \<Longrightarrow> 0 \<le> y a \<and> y a < extent input a"
  shows "raster mem (regions (ComputePermuteRegion k input (Some order) des)) out (row_offset (map (extent input) order) (map y order)) =
    mem k (row_offset (map (extent input) [0..dimensions input - 1]) (map y [0..dimensions input - 1]))" (is "raster _ ?rs _ ?d = mem k ?s")
proof -
  have n: "0 \<le> extent input a" if "0 \<le> a" "a < dimensions input" for a using y [OF that] by simp
  let ?ax = "map (axis_in input) order"
  have mem: "set order = {0..dimensions input - 1}" using o by (metis set_mset_mset set_upto)
  have xs: "list_all2 (\<lambda>x a. 0 \<le> x \<and> x < fst a) (map y order) ?ax"
    using mem y by (auto simp: list_all2_conv_all_nth axis_in_def dest: nth_mem)
  have "raster mem ?rs out (dot (map y order) (suffix_products (map fst ?ax))) = mem k (dot (map y order) (map snd ?ax))"
    by (rule raster_row_major [OF permute_origin permute_copies [OF o] xs]) (assumption | rule n)+
  then have "raster mem ?rs out ?d = mem k (sum_list (map (\<lambda>a. y a * stride_behind input a) order))"
    by (simp add: row_offset_def computeStride_eq comp_def axis_in_def dot_map)
  moreover have "sum_list (map (\<lambda>a. y a * stride_behind input a) order) = ?s"
    using suffix_products_strides [of 0 input] sum_mset_sum_list [of "map (\<lambda>a. y a * stride_behind input a) order"] o
    by (simp add: row_offset_def computeStride_eq dot_map flip: sum_mset_sum_list)
  ultimately show ?thesis by simp
qed

end
