(* ===== verification/Geo_Ops.thy ===== *)
theory Geo_Ops
  imports Geo_Model
begin

text \<open>
  Geometry computers of the ops that convert, reshape, repeat and rearrange blocks
  (source/geometry: ConvertUtils, GeometryReshape, GeometryBroadcastTo, GeometryTile,
  GeometryDepthToSpace, GeometrySpaceToBatchND).
\<close>

section \<open>Converting the format\<close>

definition swap_axes :: "Region \<Rightarrow> Region" where
  "swap_axes inp =
     (let st = vstride (rsrc inp); sz = rsize inp; sz' = sz[2 := sz ! 1, 1 := sz ! 2]
      in inp\<lparr>rsrc := (rsrc inp)\<lparr>vstride := st[2 := st ! 1, 1 := st ! 2]\<rparr>, rsize := sz',
             rdst := (rdst inp)\<lparr>vstride := (vstride (rdst inp))[2 := 1, 1 := sz' ! 2]\<rparr>\<rparr>)"

definition ConvertUtils_compute :: "nat \<Rightarrow> Tensor \<Rightarrow> Tensor \<Rightarrow> Describe \<Rightarrow> Describe" where
  "ConvertUtils_compute origin input output des =
     (let plain = (\<lambda>f. if f = FMT_NC4HW4 then FMT_NCHW else f);
          inputFormat = plain (dimensionFormat input); outputFormat = plain (dimensionFormat output);
          slice = makeFullSlice origin input
      in if inputFormat = outputFormat \<or> 2 = dimensions input then describe [slice] des
         else
           let inside = width input * height input; axis = channel input; outside = batch input;
               (canReshape, inp) = (if inputFormat = FMT_NCHW then reshapeSlice slice outside inside axis
                                    else reshapeSlice slice outside axis inside)
           in if canReshape then describe [swap_axes inp] des else describe [swap_axes inp] des)"

text \<open>\<open>ConvertTensor\<close>; \<open>CastLike\<close> leaves a cast command instead of regions.\<close>

definition GeometryConvert :: "nat \<Rightarrow> Tensor list \<Rightarrow> Tensor \<Rightarrow> Describe \<Rightarrow> Describe" where
  "GeometryConvert origin inputs output des = ConvertUtils_compute origin (inputs ! 0) output des"

section \<open>Reshaping\<close>

text \<open>The wrapping tensor is a new one: four dimensions.\<close>

definition setupTensorInfo :: "Tensor \<Rightarrow> Tensor \<Rightarrow> MNN_DATA_FORMAT \<Rightarrow> Tensor" where
  "setupTensorInfo tensor wrap mMidFormat =
     (let wrapTensor = setFormat mMidFormat wrap; tensorFormat = dimensionFormat tensor;
          caffe = (\<lambda>f. f = FMT_NCHW \<or> f = FMT_NC4HW4); tf = (\<lambda>f. f = FMT_NHWC \<or> f = FMT_NHWC4);
          wrapTensor =
            (if caffe tensorFormat \<and> caffe mMidFormat \<or> tf tensorFormat \<and> tf mMidFormat then copyShape tensor wrapTensor False
             else if caffe tensorFormat \<and> tf mMidFormat then
               setLength (dimensions wrapTensor - 1) (extent tensor 1)
                 (setLength 0 (extent tensor 0)
                   (for_loop 1 (dimensions wrapTensor - 1) (\<lambda>i. setLength i (extent tensor (i + 1))) wrapTensor))
             else if tf tensorFormat \<and> caffe mMidFormat then
               setLength 1 (extent tensor (dimensions tensor - 1))
                 (setLength 0 (extent tensor 0)
                   (for_loop 2 (dimensions wrapTensor) (\<lambda>i. setLength i (extent tensor (i - 1))) wrapTensor))
             else wrapTensor)
      in setHalideType (ttype tensor) (setLinearLayout wrapTensor))"

text \<open>The description of the output, behind those of the tensors made on the way (numbers \<open>nhwc\<close> and \<open>nhwc2\<close>).\<close>

definition GeometryReshape ::
  "MNN_DATA_FORMAT \<Rightarrow> nat \<times> nat \<Rightarrow> Describe \<times> Tensor \<Rightarrow> nat \<Rightarrow> Tensor \<Rightarrow> Tensor \<Rightarrow> Describe \<Rightarrow> (nat \<times> Tensor \<times> Describe) list \<times> Describe" where
  "GeometryReshape midFormat fresh new origin input output des =
     (if dimensionFormat input = FMT_NC4HW4 \<and> midFormat = FMT_NHWC then
        let (nhwc, nhwc2) = fresh; (newDes, newTensor) = new;
            t = setupTensorInfo input newTensor FMT_NHWC;
            tdes = ConvertUtils_compute origin input t newDes;
            t2 = setupTensorInfo output newTensor FMT_NHWC;
            inputSlice = (if regions tdes = [] then [makeFullSlice nhwc t] else regions tdes);
            t2des = describe inputSlice newDes
        in ([(nhwc, t, tdes), (nhwc2, t2, t2des)], ConvertUtils_compute nhwc2 t2 output des)
      else ([], describe [makeFullSlice origin input] des))"

definition SingleGeometryComputer :: "nat \<Rightarrow> Tensor \<Rightarrow> Describe \<Rightarrow> Describe" where
  "SingleGeometryComputer origin input des = describe [makeFullSlice origin input] des"

definition SingleGeometryComputer_onRecompute :: "nat \<Rightarrow> Tensor \<Rightarrow> Describe \<Rightarrow> Describe \<Rightarrow> bool \<times> Describe" where
  "SingleGeometryComputer_onRecompute origin input inputDes des =
     (if length (regions des) \<noteq> 1 \<or> length (regions inputDes) > 0 then (False, des)
      else
        let r = regions des ! 0;
            n = for_loop 0 (dimensions input) (\<lambda>i v. v * extent input i) 1;
            view = (\<lambda>v. v\<lparr>voffset := 0, vstride := (vstride v)[2 := 1]\<rparr>)
        in (True, describe [r\<lparr>rorigin := Some origin, rsize := [1, 1, n], rsrc := view (rsrc r), rdst := view (rdst r)\<rparr>] des))"

text \<open>\<open>Identity\<close>: a tensor array is passed on and ends the loop.\<close>

fun CopyGeometryComputer :: "(nat \<times> Tensor) list \<Rightarrow> (Tensor \<times> Describe) list \<Rightarrow> (Tensor \<times> Describe) list" where
  "CopyGeometryComputer ((origin, input) # inputs) ((output, des) # outputs) =
     (if tensorArrayAttr input \<noteq> None then (output\<lparr>tensorArrayAttr := tensorArrayAttr input\<rparr>, des) # outputs
      else (output, describe [makeFullSlice origin input] des) # CopyGeometryComputer inputs outputs)"
| "CopyGeometryComputer inputs outputs = outputs"

section \<open>Repeating\<close>

text \<open>Axes as (count, source stride, target stride): a region for every index before the last three axes.\<close>

definition split_regions :: "nat \<Rightarrow> triples \<Rightarrow> Region list" where
  "split_regions origin xs =
     (let n = length xs - 3; remain = take n xs; last3 = drop n xs;
          (mods, remainSize) = computeStride (map fst remain)
      in map (\<lambda>u.
           let cords = unravelIndexHelper mods u
           in mk_region origin (dot cords (map (snd \<circ> snd) remain)) (map (snd \<circ> snd) last3)
                (dot cords (map (fst \<circ> snd) remain)) (map (fst \<circ> snd) last3) (map fst last3))
         [0..remainSize - 1])"

text \<open>The loops of \<open>broadcastto\<close> on pairs (input extent, output extent).\<close>

fun squeeze_pass :: "(int \<times> int) list \<Rightarrow> (int \<times> int) list" where
  "squeeze_pass ((a, b) # (c, d) # xs) =
     (if a = 1 \<and> c = 1 then squeeze_pass ((a, b * d) # xs) else (a, b) # squeeze_pass ((c, d) # xs))"
| "squeeze_pass xs = xs"

lemma squeeze_pass_length: "length (squeeze_pass xs) \<le> length xs"
  by (induction xs rule: squeeze_pass.induct) (auto intro: le_SucI)

function squeeze_ones :: "(int \<times> int) list \<Rightarrow> (int \<times> int) list" where
  "squeeze_ones xs =
     (if length xs < 2 then xs
      else let ys = squeeze_pass xs in if length ys = length xs then ys else squeeze_ones ys)"
  by pat_completeness auto
termination
  by (relation "measure length") (use squeeze_pass_length in \<open>auto simp: le_neq_implies_less\<close>)

declare squeeze_ones.simps [simp del]

definition separate_axes :: "(int \<times> int) list \<Rightarrow> (int \<times> int) list" where
  "separate_axes xs =
     (let (sep, currentInput, currentOutput) = fold (\<lambda>(i, o') (sep, currentInput, currentOutput).
            if i \<noteq> o' then ((if 1 < currentOutput then sep @ [(currentInput, currentOutput)] else sep) @ [(i, o')], 1, 1)
            else (sep, currentInput * i, currentOutput * o')) xs ([], 1, 1)
      in if currentOutput \<noteq> 1 \<or> currentInput \<noteq> 1 then sep @ [(currentInput, currentOutput)] else sep)"

definition broadcast_axes :: "(int \<times> int) list \<Rightarrow> triples" where
  "broadcast_axes sep =
     (let outputStrides = fst (computeStride (map snd sep)); inputStrides = fst (computeStride (map fst sep))
      in map (\<lambda>((i, o'), s, d). (o', if 1 = i then 0 else s, d)) (zip sep (zip inputStrides outputStrides)))"

definition broadcastto :: "nat \<Rightarrow> Tensor \<Rightarrow> Tensor \<Rightarrow> bool \<Rightarrow> Describe \<Rightarrow> Describe" where
  "broadcastto origin input output forward des =
     (if getRawSize input = getRawSize output then describe [makeFullSlice origin input] des
      else if forward then
        let srcSize = extent input 0;
            multipler = for_loop 2 (dimensions output) (\<lambda>i m. m * extent output i) (extent output 1)
        in describe [mk_region origin 0 [srcSize * multipler, multipler, 1] 0 [srcSize, 1, 0] [1, srcSize, multipler]] des
      else
        let offset = dimensions output - dimensions input;
            inputShape = (\<lambda>i. if i < offset then 1 else extent input (i - offset));
            xs = broadcast_axes (separate_axes (squeeze_ones (map (\<lambda>i. (inputShape i, extent output i)) [0..dimensions output - 1])))
        in describe (split_regions origin (replicate (3 - length xs) (1, 1, 1) @ xs)) des)"

definition GeometryBroadcastTo :: "int option \<Rightarrow> nat \<Rightarrow> Tensor list \<Rightarrow> Tensor \<Rightarrow> Describe \<Rightarrow> Describe" where
  "GeometryBroadcastTo axis origin inputs output des =
     (let forward = (case axis of Some a \<Rightarrow> a \<noteq> 0 | None \<Rightarrow> False) in broadcastto origin (inputs ! 0) output forward des)"

text \<open>
  Tile: \<open>tstatus\<close> says what is still to be exported, 1 a repetition of axes of one element (their product),
  2 axes that are not repeated (their product, and the last of them).
\<close>

record TileState =
  tstatus :: nat
  prevInput :: int
  prevMulti :: int
  prevIndex :: int
  taxes :: triples

definition export_input :: "(int \<Rightarrow> int) \<Rightarrow> (int \<Rightarrow> int) \<Rightarrow> TileState \<Rightarrow> TileState" where
  "export_input inputStrides outputStrides st =
     st\<lparr>taxes := taxes st @ [(prevInput st, inputStrides (prevIndex st), outputStrides (prevIndex st))]\<rparr>"

definition export_multi :: "Tensor \<Rightarrow> (int \<Rightarrow> int) \<Rightarrow> TileState \<Rightarrow> TileState" where
  "export_multi input outputStrides st =
     st\<lparr>taxes := taxes st @ [(prevMulti st, 0, extent input (prevIndex st) * outputStrides (prevIndex st))]\<rparr>"

text \<open>The body of the loop behind the test for a zero; and the body, which ends the loop there, or writes behind the
  arrays of \<open>MNN_MAX_TENSOR_DIM\<close> entries.\<close>

definition tile_next :: "Tensor \<Rightarrow> (int \<Rightarrow> int) \<Rightarrow> (int \<Rightarrow> int) \<Rightarrow> (int \<Rightarrow> int) \<Rightarrow> int \<Rightarrow> TileState \<Rightarrow> TileState" where
  "tile_next input inputStrides outputStrides mulPtr i st =
     (let il = extent input i; ml = mulPtr i
      in if il = 1 \<and> ml = 1 then st
         else if il = 1 \<and> ml > 1 then
           (if tstatus st = 0 then st\<lparr>prevMulti := ml, prevIndex := i\<rparr>
            else if tstatus st = 1 then st\<lparr>prevMulti := prevMulti st * ml, prevIndex := i\<rparr>
            else (export_input inputStrides outputStrides st)\<lparr>prevIndex := i, prevMulti := ml\<rparr>)\<lparr>tstatus := 1\<rparr>
         else if il > 1 \<and> ml = 1 then
           (if tstatus st = 0 then st\<lparr>prevInput := il, prevIndex := i\<rparr>
            else if tstatus st = 2 then st\<lparr>prevInput := prevInput st * il, prevIndex := i\<rparr>
            else (export_multi input outputStrides st)\<lparr>prevIndex := i, prevInput := il\<rparr>)\<lparr>tstatus := 2\<rparr>
         else
           let ml = (if tstatus st = 1 then ml * prevMulti st else ml);
               st = (if tstatus st = 2 then export_input inputStrides outputStrides st else st)
           in st\<lparr>taxes := taxes st @ [(ml, 0, il * outputStrides i), (il, inputStrides i, outputStrides i)], tstatus := 0\<rparr>)"

datatype TileStop = Zero_shape | Out_of_bounds

definition tile_step :: "Tensor \<Rightarrow> (int \<Rightarrow> int) \<Rightarrow> (int \<Rightarrow> int) \<Rightarrow> (int \<Rightarrow> int) \<Rightarrow> int \<Rightarrow> TileState \<Rightarrow> TileStop + TileState" where
  "tile_step input inputStrides outputStrides mulPtr i st =
     (if extent input i = 0 \<or> mulPtr i = 0 then Inl Zero_shape
      else
        let st = tile_next input inputStrides outputStrides mulPtr i st
        in if int (length (taxes st)) > MNN_MAX_TENSOR_DIM then Inl Out_of_bounds else Inr st)"

primrec tile_loop :: "(int \<Rightarrow> TileState \<Rightarrow> TileStop + TileState) \<Rightarrow> int list \<Rightarrow> TileState \<Rightarrow> TileStop + TileState" where
  "tile_loop f [] st = Inr st"
| "tile_loop f (i # is) st = (case f i st of Inl stop \<Rightarrow> Inl stop | Inr st \<Rightarrow> tile_loop f is st)"

definition tile_start :: TileState where
  "tile_start = \<lparr>tstatus = 0, prevInput = 1, prevMulti = 1, prevIndex = 0, taxes = []\<rparr>"

definition tile_rest :: "Tensor \<Rightarrow> (int \<Rightarrow> int) \<Rightarrow> (int \<Rightarrow> int) \<Rightarrow> TileState \<Rightarrow> triples" where
  "tile_rest input inputStrides outputStrides st =
     taxes (if tstatus st = 1 then export_multi input outputStrides st
            else if tstatus st = 2 then export_input inputStrides outputStrides st else st)"

text \<open>\<open>None\<close>: an entry is written behind the arrays.\<close>

definition GeometryTile :: "nat \<Rightarrow> Tensor list \<Rightarrow> Tensor \<Rightarrow> Describe \<Rightarrow> Describe option" where
  "GeometryTile origin inputs output des =
     (let input = inputs ! 0; n = dimensions input;
          inputStrides = (\<lambda>i. fst (computeStride (map (extent input) [0..n - 1])) ! nat i);
          shapes = (\<lambda>i. if i < dimensions output then extent output i else extent input i);
          outputStrides = (\<lambda>i. fst (computeStride (map shapes [0..n - 1])) ! nat i)
      in case tile_loop (tile_step input inputStrides outputStrides (host_int (inputs ! 1))) [0..n - 1] tile_start of
           Inl Zero_shape \<Rightarrow> Some (describe [] des)
         | Inl Out_of_bounds \<Rightarrow> None
         | Inr st \<Rightarrow>
             let xs = tile_rest input inputStrides outputStrides st
             in if int (length xs) > MNN_MAX_TENSOR_DIM then None
                else Some (describe (split_regions origin (xs @ replicate (3 - length xs) (1, 0, 0))) des))"

section \<open>Blocks\<close>

datatype DepthToSpaceMode = DepthToSpaceMode_DCR | DepthToSpaceMode_CRD

text \<open>Batch, channel, row, column.\<close>

definition image_strides :: "bool \<Rightarrow> int \<Rightarrow> int \<Rightarrow> int \<Rightarrow> int list" where
  "image_strides nhwc h w c = (if nhwc then [w * h * c, 1, w * c, c] else [w * h * c, w * h, w, 1])"

definition GeometryDepthToSpace :: "bool \<Rightarrow> DepthToSpaceMode \<Rightarrow> int \<Rightarrow> nat \<Rightarrow> Tensor \<Rightarrow> Tensor \<Rightarrow> Describe \<Rightarrow> Describe" where
  "GeometryDepthToSpace spaceToDepth mode blockSize origin input0 output0 des =
     (let input = (if spaceToDepth then output0 else input0);
          output = (if spaceToDepth then input0 else output0);
          nhwc = (dimensionFormat output0 = FMT_NHWC);
          inputStride = image_strides nhwc (height input) (width input) (channel input);
          outputStride = image_strides nhwc (height output) (width output) (channel output)
      in describe
           [let dst = \<lparr>voffset = b * outputStride ! 0 + hb * outputStride ! 2 + wb * outputStride ! 3,
                  vstride = [outputStride ! 2 * blockSize, outputStride ! 3 * blockSize, outputStride ! 1]\<rparr>;
                offsetC = (if mode = DepthToSpaceMode_DCR then (hb * blockSize + wb) * channel output else hb * blockSize + wb);
                src = \<lparr>voffset = b * inputStride ! 0 + offsetC * inputStride ! 1,
                  vstride = [inputStride ! 2, inputStride ! 3,
                    if mode = DepthToSpaceMode_CRD then inputStride ! 1 * (blockSize * blockSize) else inputStride ! 1]\<rparr>
            in \<lparr>rsrc = if spaceToDepth then dst else src, rdst = if spaceToDepth then src else dst,
                rsize = [height input, width input, channel output], rorigin = Some origin\<rparr>.
            b \<leftarrow> [0..batch input - 1], hb \<leftarrow> [0..blockSize - 1], wb \<leftarrow> [0..blockSize - 1]] des)"

text \<open>The column where the source starts is computed from the row where the target starts.\<close>

definition GeometrySpaceToBatchND :: "bool \<Rightarrow> SpaceBatch \<Rightarrow> nat \<Rightarrow> Tensor list \<Rightarrow> Tensor \<Rightarrow> Describe \<Rightarrow> Describe" where
  "GeometrySpaceToBatchND batchToSpace param origin inputs output0 des =
     (let (blockSize, blockData, paddingData) = space_batch param inputs;
          padTop = paddingData 0; padLeft = (if blockSize > 1 then paddingData 2 else 0);
          blockShapeHeight = blockData 0; blockShapeWidth = (if blockSize > 1 then blockData 1 else 1);
          input = (if batchToSpace then output0 else inputs ! 0);
          output = (if batchToSpace then inputs ! 0 else output0);
          regionSize = cdiv (batch output) (batch input); chan = channel output;
          nhwc = (dimensionFormat output0 = FMT_NHWC);
          inputStride = image_strides nhwc (height input) (width input) chan;
          outputStride = image_strides nhwc (height output) (width output) chan
      in describe (map (\<lambda>r.
           let strideW = crem r blockShapeWidth; strideH = cdiv r blockShapeWidth;
               validHStart = ALIMAX 0 (cdiv (padTop - strideH + blockShapeHeight - 1) blockShapeHeight);
               validHEnd = ALIMIN (height output) (cdiv (height input + padTop - strideH + blockShapeHeight - 1) blockShapeHeight);
               validWStart = ALIMAX 0 (cdiv (padLeft - strideW + blockShapeWidth - 1) blockShapeWidth);
               validWEnd = ALIMIN (width output) (cdiv (width input + padLeft - strideW + blockShapeWidth - 1) blockShapeWidth);
               inHeightStart = validHStart * blockShapeHeight + strideH - padTop;
               inWidthStart = validHStart * blockShapeWidth + strideW - padLeft;
               src = \<lparr>voffset = inHeightStart * inputStride ! 2 + inWidthStart * inputStride ! 3,
                 vstride = [inputStride ! 1, blockShapeHeight * inputStride ! 2, blockShapeWidth * inputStride ! 3]\<rparr>;
               dst = \<lparr>voffset = outputStride ! 2 * validHStart + outputStride ! 3 * validWStart + r * batch input * outputStride ! 0,
                 vstride = [outputStride ! 1, outputStride ! 2, outputStride ! 3]\<rparr>
           in \<lparr>rsrc = if batchToSpace then dst else src, rdst = if batchToSpace then src else dst,
               rsize = [batch input * chan, validHEnd - validHStart, validWEnd - validWStart], rorigin = Some origin\<rparr>)
         [0..regionSize - 1]) des)"

end
