(* ===== verification/Geo_Inverse.thy ===== *)
theory Geo_Inverse
  imports Geo_Permute Geo_Ops
begin

text \<open>
  Geometry computers that undo each other: when the pairs of one are those of the other turned round, and both
  fill their tensors row by row, copying there and back gives the data again.
\<close>

section \<open>There and back\<close>

lemma row_major_cover:
  "list_all (\<lambda>a. 0 \<le> fst a) ax \<Longrightarrow> 0 \<le> d \<Longrightarrow> d < prod_list (map fst ax) \<Longrightarrow> \<exists>s. (d, s) \<in> set (nest (row_major 1 ax))"
proof (induction ax arbitrary: d)
  case (Cons a ax)
  let ?P = "prod_list (map fst ax)"
  have p: "0 < ?P"
  proof (rule ccontr)
    assume "\<not> 0 < ?P"
    moreover have "0 \<le> ?P" using Cons.prems(1) by (induction ax) simp_all
    ultimately show False using Cons.prems(2,3) by simp
  qed
  obtain s where s: "(d mod ?P, s) \<in> set (nest (row_major 1 ax))" using Cons.IH [of "d mod ?P"] Cons.prems(1) p by auto
  have "(d div ?P * ?P + d mod ?P, d div ?P * snd a + s) \<in> set (nest ((fst a, ?P, snd a) # row_major 1 ax))"
    using Cons.prems p by (intro nest_ConsI s div_less_of_mult) (simp_all add: pos_imp_zdiv_nonneg_iff)
  then show ?case by auto
qed simp

definition flip :: "axis list \<Rightarrow> axis list" where
  "flip ax = map (\<lambda>(n, d, s). (n, s, d)) ax"

lemma nest_flip: "set (nest (flip ax)) = (set (nest ax))\<inverse>"
proof -
  have "(d, s) \<in> set (nest (flip ax)) \<longleftrightarrow> (s, d) \<in> set (nest ax)" for d s
  proof (induction ax arbitrary: d s)
    case (Cons a ax)
    obtain n p q where a: "a = (n, p, q)" by (cases a)
    have f: "flip (a # ax) = (n, q, p) # flip ax" by (simp add: flip_def a)
    show ?case unfolding f unfolding a nest_Cons using Cons.IH by blast
  qed (auto simp: flip_def)
  then show ?thesis by auto
qed

text \<open>The pairs of a list of regions fill the \<open>n\<close> elements of the target one by one.\<close>

definition fills :: "int \<Rightarrow> (int \<times> int) set \<Rightarrow> bool" where
  "fills n E \<longleftrightarrow> (\<exists>ax. E = set (nest (row_major 1 ax)) \<and> list_all (\<lambda>a. 0 \<le> fst a) ax \<and> prod_list (map fst ax) = n)"

lemma fillsI:
  "mset ax = mset (row_major 1 as) \<Longrightarrow> list_all (\<lambda>a. 0 \<le> fst a) as \<Longrightarrow> prod_list (map fst as) = n \<Longrightarrow> fills n (set (nest ax))"
  unfolding fills_def using nest_perm by blast

lemma fills_cover: "fills n E \<Longrightarrow> 0 \<le> d \<Longrightarrow> d < n \<Longrightarrow> \<exists>s. (d, s) \<in> E"
  unfolding fills_def using row_major_cover by blast

lemma fills_unique: "fills n E \<Longrightarrow> (d, s) \<in> E \<Longrightarrow> (d, t) \<in> E \<Longrightarrow> s = t"
  unfolding fills_def using row_major_unique by blast

lemma there_and_back:
  assumes o: "\<And>r. r \<in> set rs \<Longrightarrow> rorigin r = Some k" "\<And>r. r \<in> set rs' \<Longrightarrow> rorigin r = Some k'"
    and f: "fills n (copies rs)" "fills n' (copies rs')" and turned: "copies rs' = (copies rs)\<inverse>"
    and m: "mem' k' = raster mem rs out" and i: "0 \<le> i" "i < n'"
  shows "raster mem' rs' out' i = mem k i"
proof -
  obtain s where s: "(i, s) \<in> copies rs'" using fills_cover [OF f(2) i] by blast
  then have t: "(s, i) \<in> copies rs" unfolding turned by simp
  have "raster mem' rs' out' i = mem' k' s" 
    by (rule raster_copies [OF o(2) s]) (assumption | rule fills_unique [OF f(2) _ s])+
  also have "\<dots> = mem k i" unfolding m
    by (rule raster_copies [OF o(1) t]) (assumption | rule fills_unique [OF f(1) _ t])+
  finally show ?thesis .
qed

section \<open>Conversion between NCHW and NHWC\<close>

definition plane :: "Tensor \<Rightarrow> int" where
  "plane t = width t * height t"

lemma extents_product_end: "extents_product t a a = 1"
  by (simp add: extents_product_eq)

lemma full_slice_size:
  assumes "dimensions t = 4"
  shows "for_loop 0 (dimensions t) (\<lambda>i v. v * extent t i) 1 = batch t * plane t * channel t"
proof -
  have "for_loop 0 (dimensions t) (\<lambda>i v. v * extent t i) 1 = extents_product t 0 4" by (simp add: extents_product_def assms)
  then show ?thesis
    by (simp add: extents_product_step extents_product_end plane_def batch_def width_def height_def channel_def)
qed

definition caffe :: "Tensor \<Rightarrow> bool" where
  "caffe t \<longleftrightarrow> dimensionFormat t = FMT_NCHW \<or> dimensionFormat t = FMT_NC4HW4"

lemma convert_copies:
  assumes d: "dimensions t = 4"
  shows "caffe t \<Longrightarrow> dimensionFormat u = FMT_NHWC \<Longrightarrow> copies (regions (ConvertUtils_compute k t u des)) =
      set (nest (row_major 1 [(batch t, plane t * channel t), (plane t, 1), (channel t, plane t)]))"
    and "dimensionFormat t = FMT_NHWC \<Longrightarrow> caffe u \<Longrightarrow> copies (regions (ConvertUtils_compute k t u des)) =
      set (nest (row_major 1 [(batch t, plane t * channel t), (channel t, 1), (plane t, channel t)]))"
proof -
  have s: "makeFullSlice k t = mk_region k 0 [n, n, 1] 0 [n, n, 1] [1, 1, n]" if "n = batch t * plane t * channel t" for n
    unfolding that full_slice_size [OF d, symmetric] by (simp add: makeFullSlice_def mk_region_def Let_def)
  have c: "copies [mk_region k 0 [d0, d1, d2] 0 [s0, s1, s2] [n0, n1, n2]] = set (nest [(n0, d0, s0), (n1, d1, s1), (n2, d2, s2)])"
    for d0 d1 d2 s0 s1 s2 n0 n1 n2 by (simp add: copies_def mk_region_nest)
  have r: "reshapeSlice (makeFullSlice k t) (batch t) i a = (True, mk_region k 0 [i * a, i, 1] 0 [i * a, i, 1] [batch t, a, i])"
    if "i * a = plane t * channel t" for i a
    using that by (simp add: s [OF refl] reshapeSlice_def mk_region_def mult.assoc)
  show "copies (regions (ConvertUtils_compute k t u des)) =
      set (nest (row_major 1 [(batch t, plane t * channel t), (plane t, 1), (channel t, plane t)]))"
    if "caffe t" "dimensionFormat u = FMT_NHWC"
  proof -
    have "regions (ConvertUtils_compute k t u des) =
        [mk_region k 0 [plane t * channel t, channel t, 1] 0 [plane t * channel t, 1, plane t] [batch t, plane t, channel t]]"
      using that d r [of "plane t" "channel t"]
      by (auto simp: ConvertUtils_compute_def caffe_def plane_def describe_def swap_axes_def mk_region_def)
    then show ?thesis by (simp add: c)
  qed
  show "copies (regions (ConvertUtils_compute k t u des)) =
      set (nest (row_major 1 [(batch t, plane t * channel t), (channel t, 1), (plane t, channel t)]))"
    if "dimensionFormat t = FMT_NHWC" "caffe u"
  proof -
    have "regions (ConvertUtils_compute k t u des) =
        [mk_region k 0 [plane t * channel t, plane t, 1] 0 [plane t * channel t, 1, channel t] [batch t, channel t, plane t]]"
      using that d r [of "channel t" "plane t"]
      by (auto simp: ConvertUtils_compute_def caffe_def plane_def describe_def swap_axes_def mk_region_def mult.commute)
    then show ?thesis by (simp add: c mult.commute)
  qed
qed

lemma convert_origin: "r \<in> set (regions (ConvertUtils_compute k t u des)) \<Longrightarrow> rorigin r = Some k"
  by (auto simp: ConvertUtils_compute_def describe_def swap_axes_def makeFullSlice_def reshapeSlice_def Let_def split: if_splits)

lemma convert_extents:
  assumes "dimensions t = 4" "caffe t" "TensorConvertSizeComputer FMT_NHWC [t] [o'] = Some [u]"
  shows "dimensions u = 4 \<and> dimensionFormat u = FMT_NHWC \<and> batch u = batch t \<and> plane u = plane t \<and> channel u = channel t"
proof -
  have l: "[1..2] = [1, 2 :: int]" by (simp add: upto_rec1)
  show ?thesis
    using assms by (auto simp: TensorConvertSizeComputer_def Let_def caffe_def plane_def batch_def width_def height_def channel_def for_loop_def l)
qed

lemma fills_row_major: "list_all (\<lambda>a. 0 \<le> fst a) ax \<Longrightarrow> prod_list (map fst ax) = n \<Longrightarrow> fills n (set (nest (row_major 1 ax)))"
  unfolding fills_def by blast

lemma convert_there_and_back:
  assumes d: "dimensions t = 4" "caffe t" "dimensions u = 4" "dimensionFormat u = FMT_NHWC" "caffe v"
    and e: "batch u = batch t" "plane u = plane t" "channel u = channel t"
    and pos: "0 \<le> batch t" "0 \<le> plane t" "0 \<le> channel t" and i: "0 \<le> i" "i < batch t * plane t * channel t"
    and m: "mem' k' = raster mem (regions (ConvertUtils_compute k t u des)) out"
  shows "raster mem' (regions (ConvertUtils_compute k' u v des')) out' i = mem k i"
proof -
  let ?b = "batch t" and ?p = "plane t" and ?c = "channel t"
  let ?there = "[(?b, ?p * ?c, ?p * ?c), (?p, ?c, 1), (?c, 1, ?p)]" and ?backward = "[(?b, ?p * ?c, ?p * ?c), (?c, ?p, 1), (?p, 1, ?c)]"
  have c: "copies (regions (ConvertUtils_compute k t u des)) = set (nest ?there)"
    "copies (regions (ConvertUtils_compute k' u v des')) = set (nest ?backward)"
    using convert_copies(1) [OF d(1,2,4), of k des] convert_copies(2) [OF d(3,4,5), of k' des'] by (simp_all add: e mult.commute)
  have "set (nest ?backward) = set (nest (flip ?there))" by (rule nest_perm) (simp add: flip_def)
  then have turned: "set (nest ?backward) = (set (nest ?there))\<inverse>" unfolding nest_flip .
  have f1: "fills (?b * ?p * ?c) (set (nest ?there))"
    by (rule fillsI [of _ "[(?b, ?p * ?c), (?p, 1), (?c, ?p)]"]) (use pos in \<open>simp_all add: mult.commute\<close>)
  have f2: "fills (?b * ?p * ?c) (set (nest ?backward))"
    by (rule fillsI [of _ "[(?b, ?p * ?c), (?c, 1), (?p, ?c)]"]) (use pos in \<open>simp_all add: mult.commute mult.left_commute\<close>)
  show ?thesis
  proof (rule there_and_back [of "regions (ConvertUtils_compute k t u des)" k "regions (ConvertUtils_compute k' u v des')" k'])
  qed (use f1 f2 turned m i in \<open>auto simp: c dest: convert_origin\<close>)
qed

section \<open>Blocks into the channel and out of it\<close>

text \<open>The axes: batch, row and column in the block, rows, columns, channels.\<close>

definition block_axes :: "bool \<Rightarrow> DepthToSpaceMode \<Rightarrow> int \<Rightarrow> int \<Rightarrow> int \<Rightarrow> int \<Rightarrow> int \<Rightarrow> axis list" where
  "block_axes nhwc mode N H W C s =
     (let d = image_strides nhwc (H * s) (W * s) C; e = image_strides nhwc H W (C * (s * s)); dcr = (mode = DepthToSpaceMode_DCR)
      in [(N, d ! 0, e ! 0), (s, d ! 2, s * (if dcr then C else 1) * e ! 1), (s, d ! 3, (if dcr then C else 1) * e ! 1),
          (H, d ! 2 * s, e ! 2), (W, d ! 3 * s, e ! 3), (C, d ! 1, if dcr then e ! 1 else e ! 1 * (s * s))])"

lemmas mult_ac' = mult.assoc mult.commute mult.left_commute

lemma block_axes_fill_dst:
  assumes "0 \<le> N" "0 \<le> H" "0 \<le> W" "0 \<le> C" "0 \<le> s"
  shows "fills (N * (C * (s * s)) * (H * W)) (set (nest (block_axes nhwc mode N H W C s)))"
proof -
  obtain x0 x1 x2 x3 x4 x5 where ax: "block_axes nhwc mode N H W C s = (let d = image_strides nhwc (H * s) (W * s) C in
      [(N, d ! 0, x0), (s, d ! 2, x1), (s, d ! 3, x2), (H, d ! 2 * s, x3), (W, d ! 3 * s, x4), (C, d ! 1, x5)])"
    unfolding block_axes_def Let_def by blast
  show ?thesis
  proof (cases nhwc)
    case True
    show ?thesis unfolding ax
      by (rule fillsI [of _ "[(N, x0), (H, x3), (s, x1), (W, x4), (s, x2), (C, x5)]"])
        (use assms True in \<open>simp_all add: image_strides_def mult_ac'\<close>)
  next
    case False
    show ?thesis unfolding ax
      by (rule fillsI [of _ "[(N, x0), (C, x5), (H, x3), (s, x1), (W, x4), (s, x2)]"])
        (use assms False in \<open>simp_all add: image_strides_def mult_ac'\<close>)
  qed
qed

lemma block_axes_fill_src:
  assumes "0 \<le> N" "0 \<le> H" "0 \<le> W" "0 \<le> C" "0 \<le> s"
  shows "fills (N * (C * (s * s)) * (H * W)) (set (nest (flip (block_axes nhwc mode N H W C s))))"
proof -
  obtain x0 x1 x2 x3 x4 x5 where ax: "flip (block_axes nhwc mode N H W C s) =
      (let e = image_strides nhwc H W (C * (s * s)); dcr = (mode = DepthToSpaceMode_DCR) in
      [(N, e ! 0, x0), (s, s * (if dcr then C else 1) * e ! 1, x1), (s, (if dcr then C else 1) * e ! 1, x2),
       (H, e ! 2, x3), (W, e ! 3, x4), (C, if dcr then e ! 1 else e ! 1 * (s * s), x5)])"
    unfolding block_axes_def Let_def flip_def by (simp only: list.map case_prod_conv)
  consider "nhwc" "mode = DepthToSpaceMode_DCR" | "nhwc" "mode \<noteq> DepthToSpaceMode_DCR"
    | "\<not> nhwc" "mode = DepthToSpaceMode_DCR" | "\<not> nhwc" "mode \<noteq> DepthToSpaceMode_DCR" by blast
  then show ?thesis
  proof cases
    case 1
    show ?thesis unfolding ax
      by (rule fillsI [of _ "[(N, x0), (H, x3), (W, x4), (s, x1), (s, x2), (C, x5)]"])
        (use assms 1 in \<open>simp_all add: image_strides_def mult_ac'\<close>)
  next
    case 2
    show ?thesis unfolding ax
      by (rule fillsI [of _ "[(N, x0), (H, x3), (W, x4), (C, x5), (s, x1), (s, x2)]"])
        (use assms 2 in \<open>simp_all add: image_strides_def mult_ac'\<close>)
  next
    case 3
    show ?thesis unfolding ax
      by (rule fillsI [of _ "[(N, x0), (s, x1), (s, x2), (C, x5), (H, x3), (W, x4)]"])
        (use assms 3 in \<open>simp_all add: image_strides_def mult_ac'\<close>)
  next
    case 4
    show ?thesis unfolding ax
      by (rule fillsI [of _ "[(N, x0), (C, x5), (s, x1), (s, x2), (H, x3), (W, x4)]"])
        (use assms 4 in \<open>simp_all add: image_strides_def mult_ac'\<close>)
  qed
qed

text \<open>The regions of depth to space are these axes, those of space to depth the same turned round.\<close>

lemma nest_block3:
  "(p, q) \<in> set (nest ((N, d0, s0) # (B, d1, s1) # (B', d2, s2) # ax)) \<longleftrightarrow>
   (\<exists>b\<in>{0..N - 1}. \<exists>h\<in>{0..B - 1}. \<exists>w\<in>{0..B' - 1}. (p, q) \<in> move (b * d0 + h * d1 + w * d2) (b * s0 + h * s1 + w * s2) (set (nest ax)))"
proof -
  have mv: "(p, q) \<in> move a b E \<longleftrightarrow> (\<exists>u v. (u, v) \<in> E \<and> p = a + u \<and> q = b + v)" for p q a b E by (force simp: move_def)
  have r: "x \<in> {0..n - 1} \<longleftrightarrow> 0 \<le> x \<and> x < n" for x n :: int by auto
  show ?thesis unfolding nest_Cons mv r Bex_def by (auto simp: add.assoc; fastforce)
qed

lemma set_blocks: "set [f b h w. b \<leftarrow> xs, h \<leftarrow> ys, w \<leftarrow> zs] = {f b h w |b h w. b \<in> set xs \<and> h \<in> set ys \<and> w \<in> set zs}"
  by auto

definition block_region :: "bool \<Rightarrow> bool \<Rightarrow> DepthToSpaceMode \<Rightarrow> nat \<Rightarrow> int \<Rightarrow> int \<Rightarrow> int \<Rightarrow> int \<Rightarrow> int \<Rightarrow> int \<Rightarrow> int \<Rightarrow> Region" where
  "block_region turned nhwc mode k H W C s b hb wb =
     (let d = image_strides nhwc (H * s) (W * s) C; e = image_strides nhwc H W (C * (s * s));
          dst = \<lparr>voffset = b * d ! 0 + hb * d ! 2 + wb * d ! 3, vstride = [d ! 2 * s, d ! 3 * s, d ! 1]\<rparr>;
          offsetC = (if mode = DepthToSpaceMode_DCR then (hb * s + wb) * C else hb * s + wb);
          src = \<lparr>voffset = b * e ! 0 + offsetC * e ! 1,
            vstride = [e ! 2, e ! 3, if mode = DepthToSpaceMode_CRD then e ! 1 * (s * s) else e ! 1]\<rparr>
      in \<lparr>rsrc = if turned then dst else src, rdst = if turned then src else dst, rsize = [H, W, C], rorigin = Some k\<rparr>)"

lemma block_region_move:
  "set (region_elements (block_region False nhwc mode k H W C s b hb wb)) =
     (case block_axes nhwc mode N H W C s of (_, d0, s0) # (_, d1, s1) # (_, d2, s2) # ax \<Rightarrow>
        move (b * d0 + hb * d1 + wb * d2) (b * s0 + hb * s1 + wb * s2) (set (nest ax)))"
  "set (region_elements (block_region True nhwc mode k H W C s b hb wb)) =
     (case flip (block_axes nhwc mode N H W C s) of (_, d0, s0) # (_, d1, s1) # (_, d2, s2) # ax \<Rightarrow>
        move (b * d0 + hb * d1 + wb * d2) (b * s0 + hb * s1 + wb * s2) (set (nest ax)))"
proof -
  have st: "\<exists>d0 d1 d2 d3. image_strides n h w c = [d0, d1, d2, d3]" for n h w c by (simp add: image_strides_def)
  obtain d0 d1 d2 d3 where d: "image_strides nhwc (H * s) (W * s) C = [d0, d1, d2, d3]" using st by blast
  obtain e0 e1 e2 e3 where e: "image_strides nhwc H W (C * (s * s)) = [e0, e1, e2, e3]" using st by blast
  have o: "(if mode = DepthToSpaceMode_DCR then (hb * s + wb) * C else hb * s + wb) * e1 =
      hb * (s * (if mode = DepthToSpaceMode_DCR then C else 1) * e1) + wb * ((if mode = DepthToSpaceMode_DCR then C else 1) * e1)"
    by (simp add: algebra_simps)
  have m: "mode = DepthToSpaceMode_CRD \<longleftrightarrow> mode \<noteq> DepthToSpaceMode_DCR" by (cases mode) simp_all
  show "set (region_elements (block_region False nhwc mode k H W C s b hb wb)) =
     (case block_axes nhwc mode N H W C s of (_, d0, s0) # (_, d1, s1) # (_, d2, s2) # ax \<Rightarrow>
        move (b * d0 + hb * d1 + wb * d2) (b * s0 + hb * s1 + wb * s2) (set (nest ax)))"
   "set (region_elements (block_region True nhwc mode k H W C s b hb wb)) =
     (case flip (block_axes nhwc mode N H W C s) of (_, d0, s0) # (_, d1, s1) # (_, d2, s2) # ax \<Rightarrow>
        move (b * d0 + hb * d1 + wb * d2) (b * s0 + hb * s1 + wb * s2) (set (nest ax)))"
    unfolding region_nest block_axes_def flip_def block_region_def Let_def d e by (simp_all add: region_axes_def o m add.assoc)
qed

lemma block_regions_copies:
  fixes ax :: "axis list"
  assumes "ax = (N, d0, s0) # (n1, d1, s1) # (n2, d2, s2) # ax'"
    and "\<And>b hb wb. set (region_elements (f b hb wb)) = move (b * d0 + hb * d1 + wb * d2) (b * s0 + hb * s1 + wb * s2) (set (nest ax'))"
  shows "copies [f b hb wb. b \<leftarrow> [0..N - 1], hb \<leftarrow> [0..n1 - 1], wb \<leftarrow> [0..n2 - 1]] = set (nest ax)"
proof -
  have "(p, q) \<in> copies [f b hb wb. b \<leftarrow> [0..N - 1], hb \<leftarrow> [0..n1 - 1], wb \<leftarrow> [0..n2 - 1]] \<longleftrightarrow> (p, q) \<in> set (nest ax)" for p q
    unfolding assms(1) nest_block3 by (simp add: copies_def assms(2))
  then show ?thesis by auto
qed

lemma depth_to_space_regions:
  assumes "channel t = C * (s * s)" "height t = H" "width t = W" "batch t = N" "channel u = C" "height u = H * s" "width u = W * s"
  shows "dimensionFormat u = f \<Longrightarrow> regions (GeometryDepthToSpace False mode s k t u des) =
      [block_region False (f = FMT_NHWC) mode k H W C s b hb wb. b \<leftarrow> [0..N - 1], hb \<leftarrow> [0..s - 1], wb \<leftarrow> [0..s - 1]]"
    and "dimensionFormat t = f \<Longrightarrow> regions (GeometryDepthToSpace True mode s k u t des) =
      [block_region True (f = FMT_NHWC) mode k H W C s b hb wb. b \<leftarrow> [0..N - 1], hb \<leftarrow> [0..s - 1], wb \<leftarrow> [0..s - 1]]"
  unfolding GeometryDepthToSpace_def block_region_def Let_def by (simp_all only: if_True if_False assms regions_describe)

text \<open>The pairs of the two ops, between tensors of the extents the shape computers give.\<close>

definition block_shapes :: "int \<Rightarrow> Tensor \<Rightarrow> Tensor \<Rightarrow> bool" where
  "block_shapes s t u \<longleftrightarrow> channel t = channel u * (s * s) \<and> height u = height t * s \<and> width u = width t * s \<and>
     batch u = batch t \<and> dimensionFormat u = dimensionFormat t"

abbreviation blocks_of :: "DepthToSpaceMode \<Rightarrow> int \<Rightarrow> Tensor \<Rightarrow> Tensor \<Rightarrow> axis list" where
  "blocks_of mode s t u \<equiv> block_axes (dimensionFormat u = FMT_NHWC) mode (batch t) (height t) (width t) (channel u) s"

lemma depth_to_space_copies:
  assumes "block_shapes s t u"
  shows "copies (regions (GeometryDepthToSpace False mode s k t u des)) = set (nest (blocks_of mode s t u))"
    and "copies (regions (GeometryDepthToSpace True mode s k u t des)) = (set (nest (blocks_of mode s t u)))\<inverse>"
proof -
  have a: "channel t = channel u * (s * s)" "height t = height t" "width t = width t" "batch t = batch t" "channel u = channel u"
    "height u = height t * s" "width u = width t * s" and f: "dimensionFormat t = dimensionFormat u"
    using assms by (simp_all add: block_shapes_def)
  obtain N d0 s0 n1 d1 s1 n2 d2 s2 ax where ax: "blocks_of mode s t u = (N, d0, s0) # (n1, d1, s1) # (n2, d2, s2) # ax"
    and n: "N = batch t" "n1 = s" "n2 = s" by (auto simp: block_axes_def Let_def)
  have fl: "flip (blocks_of mode s t u) = (N, s0, d0) # (n1, s1, d1) # (n2, s2, d2) # flip ax" unfolding ax by (simp add: flip_def)
  show "copies (regions (GeometryDepthToSpace False mode s k t u des)) = set (nest (blocks_of mode s t u))"
    unfolding depth_to_space_regions(1) [OF a refl] using n block_region_move(1) [of "dimensionFormat u = FMT_NHWC" mode k "height t" "width t" "channel u" s _ _ _ "batch t"]
    by (intro block_regions_copies [OF ax, unfolded n]) (simp add: ax)
  have "copies (regions (GeometryDepthToSpace True mode s k u t des)) = set (nest (flip (blocks_of mode s t u)))"
    unfolding depth_to_space_regions(2) [OF a f] using n block_region_move(2) [of "dimensionFormat u = FMT_NHWC" mode k "height t" "width t" "channel u" s _ _ _ "batch t"]
    by (intro block_regions_copies [OF fl, unfolded n]) (simp add: fl)
  then show "copies (regions (GeometryDepthToSpace True mode s k u t des)) = (set (nest (blocks_of mode s t u)))\<inverse>" unfolding nest_flip .
qed

lemma depth_to_space_origin: "r \<in> set (regions (GeometryDepthToSpace turned mode s k t u des)) \<Longrightarrow> rorigin r = Some k"
  unfolding GeometryDepthToSpace_def Let_def by auto

definition extents_pos :: "Tensor \<Rightarrow> bool" where
  "extents_pos t \<longleftrightarrow> 0 \<le> batch t \<and> 0 \<le> channel t \<and> 0 \<le> height t \<and> 0 \<le> width t"

lemma blocks_fill:
  assumes "block_shapes s t u" "0 < s" "extents_pos t"
  shows "fills (batch t * channel t * (height t * width t)) (set (nest (blocks_of mode s t u)))" (is ?there)
    and "fills (batch t * channel t * (height t * width t)) ((set (nest (blocks_of mode s t u)))\<inverse>)" (is ?backward)
proof -
  have c: "channel t = channel u * (s * s)" using assms(1) by (simp add: block_shapes_def)
  have "0 < s * s" "0 \<le> channel u * (s * s)" using assms(2,3) c by (simp_all add: extents_pos_def)
  then have "0 \<le> channel u" by (meson mult_neg_pos not_less)
  then show ?there ?backward
    using block_axes_fill_dst [of "batch t" "height t" "width t" "channel u" s] block_axes_fill_src [of "batch t" "height t" "width t" "channel u" s] assms(2,3)
    unfolding c by (simp_all add: extents_pos_def nest_flip)
qed

text \<open>Into the channel and out of it: \<open>u\<close> is the tensor with the blocks in the channel.\<close>

lemma blocks_there_and_back:
  assumes b: "block_shapes s u t" "block_shapes s u v" and pos: "0 < s" "extents_pos u"
    and i: "0 \<le> i" "i < batch u * channel u * (height u * width u)"
    and m: "mem' k' = raster mem (regions (GeometryDepthToSpace True mode s k t u des)) out"
  shows "raster mem' (regions (GeometryDepthToSpace False mode s k' u v des')) out' i = mem k i"
proof -
  have "channel t * (s * s) = channel v * (s * s)" "dimensionFormat t = dimensionFormat v" using b unfolding block_shapes_def by argo+
  then have vt: "blocks_of mode s u v = blocks_of mode s u t" using pos(1) by simp
  show ?thesis
  proof (rule there_and_back [of "regions (GeometryDepthToSpace True mode s k t u des)" k "regions (GeometryDepthToSpace False mode s k' u v des')" k'])
  qed (use blocks_fill [OF b(1) pos] m i depth_to_space_copies(2) [OF b(1), of mode k des] depth_to_space_copies(1) [OF b(2), of mode k' des'] vt in
    \<open>auto dest: depth_to_space_origin\<close>)
qed

end
