(* ===== verification/Geo_Concat.thy ===== *)
theory Geo_Concat
  imports Geo_Inverse
begin

text \<open>Cutting a tensor along an axis and joining the pieces again.\<close>

section \<open>The regions with their offsets along the axis\<close>

fun concat_at :: "bool \<Rightarrow> int \<Rightarrow> int \<Rightarrow> int \<Rightarrow> int \<Rightarrow> int \<Rightarrow> (nat \<times> Tensor) list \<Rightarrow> Region list" where
  "concat_at fix axis outside inside len off [] = []"
| "concat_at fix axis outside inside len off ((k, t) # ts) =
     (if elementSize t = 0 then concat_at fix axis outside inside len off ts
      else concat_region fix axis outside inside len t k off #
        concat_at fix axis outside inside len (off + (if fix then 1 else extent t axis)) ts)"

lemma concat_fold:
  "snd (fold (\<lambda>(origin, t) (offset, rs). if elementSize t = 0 then (offset, rs)
      else let r = concat_region fix axis outside inside len t origin offset in (offset + rsize r ! 1, rs @ [r])) ts (off, acc)) =
   acc @ concat_at fix axis outside inside len off ts"
proof (induction ts arbitrary: off acc)
  case (Cons a ts)
  obtain k t where a: "a = (k, t)" by (cases a)
  show ?case by (simp add: a Cons.IH Let_def concat_region_def mk_region_def)
qed simp

fun slice_at :: "bool \<Rightarrow> int \<Rightarrow> int \<Rightarrow> int \<Rightarrow> int \<Rightarrow> nat \<Rightarrow> int \<Rightarrow> Tensor list \<Rightarrow> Region list" where
  "slice_at fix axis outside inside len k off [] = []"
| "slice_at fix axis outside inside len k off (t # ts) =
     (let n = (if fix then 1 else extent t axis)
      in slice_region outside inside len k off n # slice_at fix axis outside inside len k (off + n) ts)"

lemma slice_fold:
  "map regions (snd (fold (\<lambda>(output, des) (offset, dess). let n = (if fix then 1 else extent output axis)
      in (offset + n, dess @ [describe [slice_region outside inside len k offset n] des])) outs (off, acc))) =
   map regions acc @ map (\<lambda>r. [r]) (slice_at fix axis outside inside len k off (map fst outs))"
proof (induction outs arbitrary: off acc)
  case (Cons a outs)
  obtain t d where a: "a = (t, d)" by (cases a)
  show ?case using Cons.IH unfolding Let_def by (cases "fix") (simp_all add: a Let_def)
qed simp

section \<open>A piece and its place\<close>

definition piece :: "int \<Rightarrow> int \<Rightarrow> int \<Rightarrow> int \<Rightarrow> axis list" where
  "piece outside inside len n = [(outside, inside * n, len * inside), (n, inside, inside), (inside, 1, 1)]"

lemma slice_region_copies: "set (region_elements (slice_region outside inside len k off n)) = move 0 (off * inside) (set (nest (piece outside inside len n)))"
  by (simp add: slice_region_def mk_region_nest piece_def)

lemma concat_region_copies:
  "set (region_elements (concat_region fix axis outside inside len t k off)) =
     move (off * inside) 0 ((set (nest (piece outside inside len (if fix then 1 else extent t axis))))\<inverse>)"
proof -
  have "set (region_elements (concat_region fix axis outside inside len t k off)) =
      move (off * inside) 0 (set (nest (flip (piece outside inside len (if fix then 1 else extent t axis)))))"
    by (simp add: concat_region_def mk_region_nest piece_def flip_def Let_def mult.commute)
  then show ?thesis unfolding nest_flip .
qed

lemma move_converse: "(p, q) \<in> move d s (E\<inverse>) \<longleftrightarrow> (q, p) \<in> move s d E"
  by (force simp: move_def)

lemma piece_row_major: "piece outside inside len n = row_major 1 [(outside, len * inside), (n, inside), (inside, 1)]"
  by (simp add: piece_def mult.commute)

text \<open>What a slice reads for a pair of the concatenation.\<close>

lemma slice_then_read:
  assumes pos: "0 \<le> outside" "0 \<le> inside" "0 \<le> n"
    and e: "(d, s) \<in> move (off * inside) 0 ((set (nest (piece outside inside len n)))\<inverse>)"
  shows "raster mem [slice_region outside inside len k off n] out s = mem k d"
proof (rule raster_copies)
  have c: "copies [slice_region outside inside len k off n] = move 0 (off * inside) (set (nest (piece outside inside len n)))"
    by (simp add: copies_def slice_region_copies)
  show "(s, d) \<in> copies [slice_region outside inside len k off n]" using e unfolding c move_converse .
  then show "d' = d" if "(s, d') \<in> copies [slice_region outside inside len k off n]" for d'
  proof -
    have "d' - off * inside = d - off * inside"
      by (rule row_major_unique [of "[(outside, len * inside), (n, inside), (inside, 1)]" s])
        (use that \<open>(s, d) \<in> _\<close> pos in \<open>simp_all only: c move_iff piece_row_major diff_zero list.pred_inject fst_conv simp_thms zero_le_one\<close>)
    then show "d' = d" by simp
  qed
qed (simp add: slice_region_def mk_region_def)

lemma concat_covers:
  assumes "0 \<le> o'" "o' < outside" "0 \<le> x" "x < inside" "0 \<le> a" "a < n"
  shows "((o' * len + (off + a)) * inside + x, (o' * n + a) * inside + x) \<in> move (off * inside) 0 ((set (nest (piece outside inside len n)))\<inverse>)"
proof -
  have "((o' * n + a) * inside + x, (o' * len + a) * inside + x) \<in> set (nest (piece outside inside len n))"
    unfolding piece_def nest3 using assms by (intro exI [of _ o'] exI [of _ a] exI [of _ x]) (simp add: algebra_simps)
  then show ?thesis by (simp add: move_iff algebra_simps)
qed

section \<open>All pieces\<close>

abbreviation step_of :: "bool \<Rightarrow> int \<Rightarrow> Tensor \<Rightarrow> int" where
  "step_of fix axis t \<equiv> (if fix then 1 else extent t axis)"

text \<open>Every piece holds what its slice copied.\<close>

definition pieces_of :: "(nat \<Rightarrow> int \<Rightarrow> 'v) \<Rightarrow> (nat \<Rightarrow> int \<Rightarrow> 'v) \<Rightarrow> (nat \<times> Tensor) list \<Rightarrow> Region list \<Rightarrow> bool" where
  "pieces_of mem mem0 ts rs \<longleftrightarrow> list_all2 (\<lambda>(k, t) r. \<exists>out. mem k = raster mem0 [r] out) ts rs"

lemma concat_reads:
  assumes "0 \<le> outside" "0 \<le> inside" "\<forall>(k, t)\<in>set ts. 0 \<le> step_of fix axis t \<and> (elementSize t = 0 \<longrightarrow> step_of fix axis t = 0)"
    and "pieces_of mem mem0 ts (slice_at fix axis outside inside len k off (map snd ts))"
    and "r \<in> set (concat_at fix axis outside inside len off ts)" "(d, s) \<in> set (region_elements r)"
  shows "mem (the (rorigin r)) s = mem0 k d"
  using assms(3-5)
proof (induction ts arbitrary: off)
  case (Cons a ts)
  obtain K t where a: "a = (K, t)" by (cases a)
  let ?n = "step_of fix axis t"
  have p: "\<exists>out. mem K = raster mem0 [slice_region outside inside len k off ?n] out"
    "pieces_of mem mem0 ts (slice_at fix axis outside inside len k (off + ?n) (map snd ts))"
    using Cons.prems(2) by (simp_all add: a pieces_of_def Let_def)
  have h: "\<forall>(k, t)\<in>set ts. 0 \<le> step_of fix axis t \<and> (elementSize t = 0 \<longrightarrow> step_of fix axis t = 0)" "0 \<le> ?n" "elementSize t = 0 \<Longrightarrow> ?n = 0"
    using Cons.prems(1) by (simp_all add: a)
  show ?case
  proof (cases "elementSize t \<noteq> 0 \<and> r = concat_region fix axis outside inside len t K off")
    case True
    then have "(d, s) \<in> move (off * inside) 0 ((set (nest (piece outside inside len ?n)))\<inverse>)"
      using assms(6) by (simp only: concat_region_copies)
    note rd = slice_then_read [OF assms(1,2) h(2) this]
    have "rorigin r = Some K" using True by (simp add: concat_region_def mk_region_def Let_def)
    moreover obtain out where "mem K = raster mem0 [slice_region outside inside len k off ?n] out" using p(1) by blast
    ultimately show ?thesis by (simp only: option.sel rd)
  next
    case False
    then have "r \<in> set (concat_at fix axis outside inside len (off + ?n) ts)" using Cons.prems(3) h(3) by (auto simp: a split: if_splits)
    then show ?thesis using Cons.IH [OF h(1) p(2)] by blast
  qed
qed simp

lemma concat_fills:
  assumes "0 \<le> o'" "o' < outside" "0 \<le> x" "x < inside"
    and "\<forall>(k, t)\<in>set ts. 0 \<le> step_of fix axis t \<and> (elementSize t = 0 \<longrightarrow> step_of fix axis t = 0)"
    and "0 \<le> a" "a < sum_list (map (\<lambda>(k, t). step_of fix axis t) ts)"
  shows "\<exists>r\<in>set (concat_at fix axis outside inside len off ts). \<exists>s. ((o' * len + (off + a)) * inside + x, s) \<in> set (region_elements r)"
  using assms(5-7)
proof (induction ts arbitrary: off a)
  case (Cons b ts)
  obtain K t where b: "b = (K, t)" by (cases b)
  let ?n = "step_of fix axis t"
  have h: "\<forall>(k, t)\<in>set ts. 0 \<le> step_of fix axis t \<and> (elementSize t = 0 \<longrightarrow> step_of fix axis t = 0)" "elementSize t = 0 \<Longrightarrow> ?n = 0"
    using Cons.prems(1) by (simp_all add: b)
  show ?case
  proof (cases "a < ?n")
    case True
    then have "elementSize t \<noteq> 0" using h(2) Cons.prems(2) by auto
    moreover have "((o' * len + (off + a)) * inside + x, (o' * ?n + a) * inside + x) \<in> set (region_elements (concat_region fix axis outside inside len t K off))"
      unfolding concat_region_copies using assms(1-4) Cons.prems(2) True by (rule concat_covers)
    ultimately show ?thesis by (intro bexI [of _ "concat_region fix axis outside inside len t K off"] exI) (simp_all add: b)
  next
    case False
    have "\<exists>r\<in>set (concat_at fix axis outside inside len (off + ?n) ts). \<exists>s. ((o' * len + (off + ?n + (a - ?n))) * inside + x, s) \<in> set (region_elements r)"
      by (rule Cons.IH [OF h(1)]) (use False Cons.prems(3) in \<open>simp_all add: b\<close>)
    moreover have "off + ?n + (a - ?n) = off + a" by simp
    ultimately have "\<exists>r\<in>set (concat_at fix axis outside inside len (off + ?n) ts). \<exists>s. ((o' * len + (off + a)) * inside + x, s) \<in> set (region_elements r)"
      by (simp only:)
    then show ?thesis using h(2) by (auto simp: b)
  qed
qed simp

text \<open>Joining the pieces gives every element of the tensor that was cut.\<close>

lemma concat_of_slices:
  assumes pos: "0 \<le> outside" "0 \<le> inside" "\<forall>(k, t)\<in>set ts. 0 \<le> step_of fix axis t \<and> (elementSize t = 0 \<longrightarrow> step_of fix axis t = 0)"
    and len: "sum_list (map (\<lambda>(k, t). step_of fix axis t) ts) = len"
    and p: "pieces_of mem mem0 ts (slice_at fix axis outside inside len k 0 (map snd ts))"
    and i: "0 \<le> i" "i < outside * len * inside"
  shows "raster mem (concat_at fix axis outside inside len 0 ts) out i = mem0 k i"
proof -
  have n: "0 < inside" "0 < len"
  proof -
    have l: "0 \<le> len" unfolding len [symmetric] using pos(3) by (intro sum_list_nonneg) auto
    have "inside \<noteq> 0" "len \<noteq> 0" using i by auto
    then show "0 < inside" "0 < len" using pos(2) l by simp_all
  qed
  define q where "q = i div inside"
  have q: "0 \<le> q" "q < outside * len" using i n by (simp_all add: q_def pos_imp_zdiv_nonneg_iff div_less_of_mult)
  have e: "(q div len * len + (0 + q mod len)) * inside + i mod inside = i" by (simp add: q_def)
  have "\<exists>r\<in>set (concat_at fix axis outside inside len 0 ts).
      \<exists>s. ((q div len * len + (0 + q mod len)) * inside + i mod inside, s) \<in> set (region_elements r)"
    by (rule concat_fills [OF _ _ _ _ pos(3)]) (use q n len in \<open>simp_all add: pos_imp_zdiv_nonneg_iff div_less_of_mult\<close>)
  then obtain r s where r: "r \<in> set (concat_at fix axis outside inside len 0 ts)" "(i, s) \<in> set (region_elements r)" unfolding e by blast
  have "raster mem (concat_at fix axis outside inside len 0 ts) out i = mem (the (rorigin r)) s"
    by (rule raster_write [OF r]) (rule trans [OF concat_reads [OF pos p] concat_reads [OF pos p r, symmetric]])
  then show ?thesis using concat_reads [OF pos p r] by simp
qed

end
