(* ===== verification/Geo_Repeat.thy ===== *)
theory Geo_Repeat
  imports Geo_Inverse
begin

text \<open>Broadcasting and tiling: the axes the two computers make stand for the axes of the tensors one by one.\<close>

section \<open>Splitting the axes behind the last three\<close>

lemma nest_ones_any: "set (nest (replicate k (1, d, s) @ ax)) = set (nest ax)"
  by (induction k) (simp_all add: nest_one)

lemma split_regions_copies:
  assumes n: "list_all (\<lambda>x. 0 \<le> fst x) xs" and l: "3 \<le> length xs"
  shows "copies (split_regions k xs) = set (nest (map axis_of xs))"
proof -
  let ?as = "take (length xs - 3) xs"
  obtain a b c where last3: "drop (length xs - 3) xs = [a, b, c]"
  proof -
    have "length (drop (length xs - 3) xs) = 3" using l by simp
    moreover have "length ys = 3 \<Longrightarrow> \<exists>a b c. ys = [a, b, c]" for ys :: triples by (auto simp: numeral_3_eq_3 length_Suc_conv)
    ultimately show ?thesis using that by blast
  qed
  have "copies (split_regions k xs) = move 0 0 (set (nest (map axis_of ?as @ map axis_of [a, b, c])))"
  proof -
    have "fst \<circ> axis_of = fst" by (auto simp: axis_of_def)
    then have m: "map fst (map axis_of ?as) = map fst ?as" by simp
    show ?thesis unfolding split_regions_def Let_def computeStride_eq prod.case last3 m [symmetric]
    proof (rule outer_copies)
      show "list_all (\<lambda>a. 0 \<le> fst a) (map axis_of ?as)" using n by (auto simp: list_all_iff axis_of_def dest: in_set_takeD)
    qed (simp add: mk_region_nest axis_of_def comp_def)
  qed
  also have "\<dots> = set (nest (map axis_of (?as @ drop (length xs - 3) xs)))" unfolding last3 by simp
  finally show ?thesis by simp
qed

lemma split_regions_origin: "r \<in> set (split_regions k xs) \<Longrightarrow> rorigin r = Some k"
  by (auto simp: split_regions_def Let_def mk_region_def split: prod.splits)

section \<open>Broadcasting\<close>

text \<open>The counts and the source strides of pairs (input extent, output extent), \<open>k\<close> input elements behind them.\<close>

fun broadcast_from :: "int \<Rightarrow> (int \<times> int) list \<Rightarrow> (int \<times> int) list" where
  "broadcast_from k [] = []"
| "broadcast_from k ((i, n) # ps) = (n, if 1 = i then 0 else prod_list (map fst ps) * k) # broadcast_from k ps"

lemma broadcast_from_append: "broadcast_from k (as @ bs) = broadcast_from (prod_list (map fst bs) * k) as @ broadcast_from k bs"
  by (induction as rule: broadcast_from.induct) (simp_all add: mult.assoc)

lemma broadcast_from_counts [simp]: "map fst (broadcast_from k ps) = map snd ps"
  by (induction k ps rule: broadcast_from.induct) simp_all

lemma broadcast_axes_eq: "map axis_of (broadcast_axes ps) = row_major 1 (broadcast_from 1 ps)"
proof (induction ps)
  case (Cons p ps)
  obtain i n where p: "p = (i, n)" by (cases p)
  show ?case using Cons by (simp add: p broadcast_axes_def computeStride_eq axis_of_def)
qed (simp add: broadcast_axes_def computeStride_eq)

lemma squeeze_pass_same:
  "list_all (\<lambda>p. 0 \<le> snd p) ps \<Longrightarrow> prod_list (map fst (squeeze_pass ps)) = prod_list (map fst ps) \<and>
     list_all (\<lambda>p. 0 \<le> snd p) (squeeze_pass ps) \<and> same_nest (broadcast_from k ps) (broadcast_from k (squeeze_pass ps))"
proof (induction ps rule: squeeze_pass.induct)
  case (1 a b c d xs)
  show ?case
  proof (cases "a = 1 \<and> c = 1")
    case True
    have "same_nest ([] @ [(b, d * 0), (d, 0)] @ broadcast_from k xs) ([] @ [(b * d, 0)] @ broadcast_from k xs)"
      using 1(3) by (intro same_nest_append same_nest_fuse) simp
    then have "same_nest (broadcast_from k ((1, b) # (1, d) # xs)) (broadcast_from k ((1, b * d) # xs))" by simp
    then show ?thesis using 1(1) [OF True] 1(3) True same_nest_trans by fastforce
  next
    case False
    let ?ys = "squeeze_pass ((c, d) # xs)"
    have ih: "prod_list (map fst ?ys) = prod_list (map fst ((c, d) # xs))" "list_all (\<lambda>p. 0 \<le> snd p) ?ys"
      "same_nest (broadcast_from k ((c, d) # xs)) (broadcast_from k ?ys)" using 1(2) [OF False] 1(3) by auto
    have "same_nest ([(b, e)] @ broadcast_from k ((c, d) # xs) @ []) ([(b, e)] @ broadcast_from k ?ys @ [])" for e
      by (rule same_nest_append [OF ih(3)])
    then have "same_nest (broadcast_from k ((a, b) # (c, d) # xs)) (broadcast_from k ((a, b) # ?ys))" using ih(1) by simp
    moreover have "squeeze_pass ((a, b) # (c, d) # xs) = (a, b) # ?ys" by (simp only: squeeze_pass.simps False if_False)
    ultimately show ?thesis using ih(1,2) 1(3) by (simp del: squeeze_pass.simps)
  qed
qed simp_all

lemma squeeze_ones_same:
  "list_all (\<lambda>p. 0 \<le> snd p) ps \<Longrightarrow>
     list_all (\<lambda>p. 0 \<le> snd p) (squeeze_ones ps) \<and> same_nest (broadcast_from k ps) (broadcast_from k (squeeze_ones ps))"
proof (induction ps rule: squeeze_ones.induct)
  case (1 xs)
  note p = squeeze_pass_same [OF 1(2), of k]
  show ?case
  proof (cases "length xs < 2 \<or> length (squeeze_pass xs) = length xs")
    case True
    then have "squeeze_ones xs = xs \<or> squeeze_ones xs = squeeze_pass xs" by (subst (1 2) squeeze_ones.simps) auto
    then show ?thesis using p 1(2) by auto
  next
    case False
    then have "squeeze_ones xs = squeeze_ones (squeeze_pass xs)" by (subst squeeze_ones.simps) (simp add: Let_def)
    moreover have "list_all (\<lambda>p. 0 \<le> snd p) (squeeze_ones (squeeze_pass xs)) \<and>
        same_nest (broadcast_from k (squeeze_pass xs)) (broadcast_from k (squeeze_ones (squeeze_pass xs)))"
      using False p by (intro 1(1)) simp_all
    ultimately show ?thesis using p same_nest_trans by metis
  qed
qed

text \<open>What the loop over the axes has gathered: the separate axes and the run of equal extents behind them.\<close>

definition run_axes :: "int \<Rightarrow> (int \<times> int) list" where
  "run_axes c = (if c = 1 then [] else [(c, c)])"

definition separated :: "(int \<times> int) list \<Rightarrow> (int \<times> int) list \<times> int \<times> int \<Rightarrow> bool" where
  "separated ps s = (case s of (sep, ci, co) \<Rightarrow> ci = co \<and> 0 < co \<and> list_all (\<lambda>p. 0 < snd p) sep \<and>
     prod_list (map fst (sep @ run_axes co)) = prod_list (map fst ps) \<and>
     (\<forall>k. same_nest (broadcast_from k ps) (broadcast_from k (sep @ run_axes co))))"

definition separate_step :: "int \<times> int \<Rightarrow> (int \<times> int) list \<times> int \<times> int \<Rightarrow> (int \<times> int) list \<times> int \<times> int" where
  "separate_step = (\<lambda>(i, n) (sep, ci, co). if i \<noteq> n then ((if 1 < co then sep @ [(ci, co)] else sep) @ [(i, n)], 1, 1)
     else (sep, ci * i, co * n))"

lemma run_axes_step: "0 < c \<Longrightarrow> 0 < n \<Longrightarrow> same_nest (broadcast_from k (run_axes c @ [(n, n)])) (broadcast_from k (run_axes (c * n)))"
proof -
  assume p: "0 < c" "0 < n"
  have m: "c * n = 1 \<longleftrightarrow> c = 1 \<and> n = 1" using p pos_zmult_eq_1_iff [of c n] by auto
  consider "c = 1" "n = 1" | "c = 1" "n \<noteq> 1" | "c \<noteq> 1" "n = 1" | "c \<noteq> 1" "n \<noteq> 1" by blast
  then show ?thesis
  proof cases
    case 1
    then show ?thesis using same_nest_one by (simp add: run_axes_def)
  next
    case 2
    then show ?thesis by (simp add: run_axes_def)
  next
    case 3
    have "same_nest ([(c, k)] @ [(1, 0)] @ []) ([(c, k)] @ [] @ [])" by (rule same_nest_append [OF same_nest_one])
    then show ?thesis using 3 by (simp add: run_axes_def)
  next
    case 4
    have "same_nest [(c, n * k), (n, k)] [(c * n, k)]" using p by (intro same_nest_fuse) simp
    then show ?thesis using 4 m by (simp add: run_axes_def)
  qed
qed

lemma separate_step_keeps:
  assumes s: "separated ps s" and p: "0 < snd p"
  shows "separated (ps @ [p]) (separate_step p s)"
proof -
  obtain sep ci co where s_def: "s = (sep, ci, co)" by (cases s)
  obtain i n where p_def: "p = (i, n)" by (cases p)
  have co: "ci = co" "0 < co" and sep: "list_all (\<lambda>p. 0 < snd p) sep"
    and pr: "prod_list (map fst (sep @ run_axes co)) = prod_list (map fst ps)"
    and same: "same_nest (broadcast_from k ps) (broadcast_from k (sep @ run_axes co))" for k
    using s by (auto simp: separated_def s_def)
  have snoc: "same_nest (broadcast_from k (ps @ [p])) (broadcast_from k (sep @ run_axes co @ [p]))" for k
  proof -
    have "same_nest (broadcast_from (fst p * k) ps @ broadcast_from k [p]) (broadcast_from (fst p * k) (sep @ run_axes co) @ broadcast_from k [p])"
      by (rule same_nest_snoc [OF same same_nest_refl])
    then show ?thesis using broadcast_from_append [of k ps "[p]"] broadcast_from_append [of k "sep @ run_axes co" "[p]"] by simp
  qed
  show ?thesis
  proof (cases "i = n")
    case True
    have f: "separate_step p s = (sep, ci * n, co * n)" using True by (simp add: separate_step_def s_def p_def)
    have r: "same_nest (broadcast_from k (run_axes co @ [p])) (broadcast_from k (run_axes (co * n)))" for k
      using run_axes_step [OF co(2), of n k] p True by (simp add: p_def)
    have pn: "prod_list (map fst (run_axes co @ [p])) = prod_list (map fst (run_axes (co * n)))"
      using co(2) p True pos_zmult_eq_1_iff [of co n] by (auto simp: run_axes_def p_def)
    have "same_nest (broadcast_from k (sep @ run_axes co @ [p])) (broadcast_from k (sep @ run_axes (co * n)))" for k
      unfolding broadcast_from_append [of k sep] pn by (rule same_nest_snoc [OF same_nest_refl r])
    then have "same_nest (broadcast_from k (ps @ [p])) (broadcast_from k (sep @ run_axes (co * n)))" for k using snoc same_nest_trans by blast
    moreover have "prod_list (map fst (sep @ run_axes (co * n))) = prod_list (map fst (ps @ [p]))"
      using pn [symmetric] pr [symmetric] by simp
    ultimately show ?thesis unfolding f using co sep p True by (simp add: separated_def p_def)
  next
    case False
    have e: "(if 1 < co then sep @ [(ci, co)] else sep) = sep @ run_axes co" using co by (auto simp: run_axes_def)
    have f: "separate_step p s = (sep @ run_axes co @ [p], 1, 1)" using False e by (simp add: separate_step_def s_def p_def)
    have "list_all (\<lambda>p. 0 < snd p) (sep @ run_axes co @ [p])" using sep co p by (auto simp: run_axes_def)
    then show ?thesis unfolding f using snoc pr by (simp add: separated_def run_axes_def mult.assoc)
  qed
qed

lemma separate_axes_same:
  assumes "list_all (\<lambda>p. 0 < snd p) ps"
  shows "list_all (\<lambda>p. 0 < snd p) (separate_axes ps) \<and> same_nest (broadcast_from 1 ps) (broadcast_from 1 (separate_axes ps))"
proof -
  have s: "separated ps (fold separate_step ps ([], 1, 1))" using assms
  proof (induction ps rule: rev_induct)
    case Nil
    then show ?case by (simp add: separated_def run_axes_def)
  next
    case (snoc p ps)
    then show ?case using separate_step_keeps [of ps _ p] by simp
  qed
  obtain sep ci co where f: "fold separate_step ps ([], 1, 1) = (sep, ci, co)" by (cases "fold separate_step ps ([], 1, 1)")
  have "separate_axes ps = sep @ run_axes co" using f s
    by (auto simp: separate_axes_def separate_step_def separated_def run_axes_def)
  then show ?thesis using s f by (auto simp: separated_def run_axes_def)
qed

text \<open>The extents of the two tensors, the input's behind ones.\<close>

definition broadcast_pairs :: "Tensor \<Rightarrow> Tensor \<Rightarrow> (int \<times> int) list" where
  "broadcast_pairs input output = map (\<lambda>i. (if i < dimensions output - dimensions input then 1 else extent input (i - (dimensions output - dimensions input)), extent output i)) [0..dimensions output - 1]"

lemma broadcast_pairs_zip:
  assumes "0 \<le> dimensions input" "dimensions input \<le> dimensions output"
  shows "broadcast_pairs input output = zip (replicate (nat (dimensions output - dimensions input)) 1 @ shape input) (shape output)"
  by (rule nth_equalityI)
    (use assms in \<open>auto simp: broadcast_pairs_def nth_append shape_def nth_upto nat_diff_distrib' intro!: arg_cong [of _ _ "extent input"]\<close>)

lemma prod_members_pos: "list_all (\<lambda>p. 0 \<le> snd p) ps \<Longrightarrow> prod_list (map snd ps) \<noteq> 0 \<Longrightarrow> list_all (\<lambda>p. 0 < snd p) ps"
  for ps :: "(int \<times> int) list"
  by (induction ps) auto

lemma prod_members_nonzero: "list_all (\<lambda>p. 0 < snd p) ps \<Longrightarrow> prod_list (map snd ps) \<noteq> 0" for ps :: "(int \<times> int) list"
  by (induction ps) auto

lemma broadcast_copies:
  assumes d: "getRawSize input \<noteq> getRawSize output" and p: "list_all (\<lambda>n. 0 < n) (shape output)"
  shows "copies (regions (broadcastto k input output False des)) = set (nest (row_major 1 (broadcast_from 1 (broadcast_pairs input output))))"
proof -
  let ?pairs = "broadcast_pairs input output"
  let ?sq = "squeeze_ones ?pairs"
  let ?xs = "broadcast_axes (separate_axes ?sq)"
  let ?pad = "replicate (3 - length ?xs) (1, 1, 1) @ ?xs"
  have p0: "list_all (\<lambda>p. 0 < snd p) ?pairs" using p by (simp add: broadcast_pairs_def list_all_iff shape_def)
  then have q: "list_all (\<lambda>p. 0 \<le> snd p) ?pairs" by (auto simp: list_all_iff)
  have sq: "same_nest (broadcast_from 1 ?pairs) (broadcast_from 1 ?sq)" using squeeze_ones_same [OF q] by simp
  have "list_all (\<lambda>p. 0 < snd p) ?sq"
  proof -
    have "prod_list (map snd ?sq) = prod_list (map snd ?pairs)" "list_all (\<lambda>p. 0 \<le> snd p) ?sq"
      using sq squeeze_ones_same [OF q, of 1] by (simp_all add: same_nest_def)
    moreover have "prod_list (map snd ?pairs) \<noteq> 0" using p0 by (rule prod_members_nonzero)
    ultimately show ?thesis using prod_members_pos by metis
  qed
  from separate_axes_same [OF this] have sep: "list_all (\<lambda>p. 0 < snd p) (separate_axes ?sq)"
    "same_nest (broadcast_from 1 ?sq) (broadcast_from 1 (separate_axes ?sq))" by simp_all
  have r: "regions (broadcastto k input output False des) = split_regions k ?pad"
    using d by (simp add: broadcastto_def Let_def broadcast_pairs_def)
  have n: "list_all (\<lambda>x. 0 \<le> fst x) ?pad"
  proof -
    have "map fst ?xs = map fst (map axis_of ?xs)" by (simp add: axis_of_def)
    also have "\<dots> = map snd (separate_axes ?sq)" unfolding broadcast_axes_eq row_major_fields by simp
    finally have "set (map fst ?xs) = set (map snd (separate_axes ?sq))" by (rule arg_cong)
    then have "0 < fst x" if "x \<in> set ?xs" for x
      using sep(1) that unfolding list_all_iff by (metis (no_types, lifting) image_iff list.set_map)
    then show ?thesis by (auto simp: list_all_iff less_imp_le)
  qed
  have "copies (split_regions k ?pad) = set (nest (map axis_of ?pad))" by (rule split_regions_copies [OF n]) simp
  also have "\<dots> = set (nest (map axis_of ?xs))" using nest_ones_any by (simp add: axis_of_def)
  also have "\<dots> = set (nest (row_major 1 (broadcast_from 1 ?pairs)))"
    unfolding broadcast_axes_eq using sq sep(2) by (simp add: same_nest_def)
  finally show ?thesis unfolding r .
qed

text \<open>The coordinate in the input: 0 along an extent of 1.\<close>

definition clip :: "int list \<Rightarrow> int list \<Rightarrow> int list" where
  "clip ns xs = map2 (\<lambda>n x. if n = 1 then 0 else x) ns xs"

lemma broadcast_strides:
  "length ns = length ms \<Longrightarrow> dot xs (map snd (broadcast_from 1 (zip ns ms))) = row_offset ns (clip ns xs)"
proof (induction ns ms arbitrary: xs rule: list_induct2)
  case (Cons n ns m ms)
  then show ?case by (cases xs) (simp_all add: row_offset_def computeStride_eq clip_def)
qed (simp add: row_offset_def computeStride_eq)

lemma row_offset_ones: "row_offset (replicate k 1 @ ns) (clip (replicate k 1 @ ns) xs) = row_offset ns (clip ns (drop k xs))"
proof (induction k arbitrary: xs)
  case (Suc k)
  then show ?case by (cases xs) (simp_all add: row_offset_def computeStride_eq clip_def)
qed simp

lemma same_product:
  "list_all2 (\<lambda>i n. i = 1 \<or> i = n) ns ms \<Longrightarrow> list_all (\<lambda>n. 0 < n) ms \<Longrightarrow>
   0 < prod_list ns \<and> prod_list ns \<le> prod_list ms \<and> (prod_list ns = prod_list ms \<longrightarrow> ns = ms)" for ns ms :: "int list"
proof (induction ns ms rule: list_all2_induct)
  case (Cons n ns m ms)
  let ?p = "prod_list ns" and ?q = "prod_list ms"
  have ih: "0 < ?p" "?p \<le> ?q" "?p = ?q \<longrightarrow> ns = ms" and m: "0 < m" using Cons by simp_all
  have "n \<le> m" "0 < n" using Cons(1) m by auto
  then have np: "n * ?p \<le> m * ?p" "m * ?p \<le> m * ?q" using ih m by simp_all
  moreover have "n = m \<and> ?p = ?q" if "n * ?p = m * ?q"
  proof -
    have "m * ?p = m * ?q" "n * ?p = m * ?p" using that np by linarith+
    then show ?thesis using ih m by simp
  qed
  moreover have "n * ?p \<le> m * ?q" using np by (rule order.trans)
  ultimately show ?case using ih \<open>0 < n\<close> by auto
qed simp

lemma row_offset_bound: "list_all2 (\<lambda>x n. 0 \<le> x \<and> x < n) xs ns \<Longrightarrow> 0 \<le> row_offset ns xs \<and> row_offset ns xs < prod_list ns"
  using unravel_dot by (simp add: row_offset_def computeStride_eq)

lemma clip_same: "list_all2 (\<lambda>x n. 0 \<le> x \<and> x < n) xs ns \<Longrightarrow> clip ns xs = xs"
  unfolding clip_def by (induction xs ns rule: list_all2_induct) auto

lemma getRawSize_product: "getRawSize t = extents_product t 0 (dimensions t)"
  by (simp add: getRawSize_def extents_product_def)

lemma getRawSize_shape: "getRawSize t = prod_list (shape t)"
  unfolding getRawSize_product extents_product_eq shape_def ..

lemma broadcast_reads:
  assumes d: "0 \<le> dimensions input" "dimensions input \<le> dimensions output"
    and b: "list_all2 (\<lambda>i n. i = 1 \<or> i = n) (replicate (nat (dimensions output - dimensions input)) 1 @ shape input) (shape output)"
    and xs: "list_all2 (\<lambda>x n. 0 \<le> x \<and> x < n) xs (shape output)"
  shows "raster mem (regions (broadcastto k input output False des)) out (row_offset (shape output) xs) =
    mem k (row_offset (shape input) (clip (shape input) (drop (nat (dimensions output - dimensions input)) xs)))"
proof -
  let ?off = "nat (dimensions output - dimensions input)"
  let ?ns = "replicate ?off 1 @ shape input" and ?ms = "shape output"
  have p: "list_all (\<lambda>n. 0 < n) ?ms" by (rule prod_list_pos [OF xs])
  have len: "length ?ns = length ?ms" using b by (rule list_all2_lengthD)
  show ?thesis unfolding row_offset_ones [symmetric]
  proof (cases "getRawSize input = getRawSize output")
    case True
    have "prod_list ?ns = prod_list ?ms" using True by (simp add: getRawSize_shape)
    then have e: "?ns = ?ms" using same_product [OF b p] by blast
    have "regions (broadcastto k input output False des) = [makeFullSlice k input]" using True by (simp add: broadcastto_def)
    moreover have "raster mem [makeFullSlice k input] out (row_offset ?ms xs) = mem k (row_offset ?ms xs)"
    proof (rule raster_copies)
      have c: "copies [makeFullSlice k input] = (\<lambda>x. (x, x)) ` {0..<prod_list ?ms}"
        unfolding full_slice_copies getRawSize_product [symmetric] True by (simp add: getRawSize_shape)
      show "(row_offset ?ms xs, row_offset ?ms xs) \<in> copies [makeFullSlice k input]" unfolding c using row_offset_bound [OF xs] by auto
      show "s' = row_offset ?ms xs" if "(row_offset ?ms xs, s') \<in> copies [makeFullSlice k input]" for s' using that unfolding c by auto
    qed (simp add: makeFullSlice_def Let_def)
    ultimately show "raster mem (regions (broadcastto k input output False des)) out (row_offset ?ms xs) = mem k (row_offset ?ns (clip ?ns xs))"
      unfolding e using clip_same [OF xs] by simp
  next
    case False
    note c = broadcast_copies [OF False p, of k des, unfolded broadcast_pairs_zip [OF d]]
    have f: "map fst (broadcast_from 1 (zip ?ns ?ms)) = ?ms" using len by simp
    have o: "rorigin r = Some k" if "r \<in> set (regions (broadcastto k input output False des))" for r
      using that False by (auto simp: broadcastto_def Let_def dest: split_regions_origin)
    have "list_all2 (\<lambda>x a. 0 \<le> x \<and> x < fst a) xs (broadcast_from 1 (zip ?ns ?ms))"
    proof -
      have "list_all2 (\<lambda>x n. 0 \<le> x \<and> x < n) xs (map fst (broadcast_from 1 (zip ?ns ?ms)))" unfolding f by (rule xs)
      then show ?thesis by (simp only: list_all2_map2)
    qed
    from raster_row_major [OF o c this]
    show "raster mem (regions (broadcastto k input output False des)) out (row_offset ?ms xs) = mem k (row_offset ?ns (clip ?ns xs))"
      unfolding f broadcast_strides [OF len] by (simp add: row_offset_def computeStride_eq)
  qed
qed

end
