(* ===== verification/Geo_Tile.thy ===== *)
theory Geo_Tile
  imports Geo_Repeat
begin

text \<open>Tile: the axes that the status machine exports stand for the pairs (repetition, extent) of all axes.\<close>

section \<open>The status machine\<close>

text \<open>
  What is still to be exported when \<open>S\<close> input elements lie behind the axes so far, and the state after axes
  that stand for \<open>A\<close>, with \<open>K\<close> output elements behind them.
\<close>

definition pending :: "int \<Rightarrow> TileState \<Rightarrow> (int \<times> int) list" where
  "pending S st = (if tstatus st = 1 then [(prevMulti st, 0)] else if tstatus st = 2 then [(prevInput st, S)] else [])"

definition tile_inv :: "Tensor \<Rightarrow> (int \<Rightarrow> int) \<Rightarrow> (int \<Rightarrow> int) \<Rightarrow> int \<Rightarrow> int \<Rightarrow> (int \<times> int) list \<Rightarrow> TileState \<Rightarrow> bool" where
  "tile_inv t inS outS K S A st \<longleftrightarrow>
     (\<exists>M. map axis_of (taxes st) = row_major (prod_list (map fst (pending S st)) * K) M \<and> same_nest A (M @ pending S st) \<and>
       list_all (\<lambda>a. 0 < fst a) (M @ pending S st)) \<and>
     tstatus st \<le> 2 \<and>
     (tstatus st = 1 \<longrightarrow> extent t (prevIndex st) * outS (prevIndex st) = K) \<and>
     (tstatus st = 2 \<longrightarrow> outS (prevIndex st) = K \<and> inS (prevIndex st) = S)"

text \<open>Everything pending exported: nothing is left out.\<close>

lemma tile_rest_axes:
  assumes "tile_inv t inS outS K S A st"
  shows "\<exists>M. map axis_of (tile_rest t inS outS st) = row_major K M \<and> same_nest A M \<and> list_all (\<lambda>a. 0 < fst a) M"
proof -
  obtain M where m: "map axis_of (taxes st) = row_major (prod_list (map fst (pending S st)) * K) M" "same_nest A (M @ pending S st)"
    "list_all (\<lambda>a. 0 < fst a) (M @ pending S st)"
    using assms unfolding tile_inv_def by blast
  have "map axis_of (tile_rest t inS outS st) = row_major K (M @ pending S st)"
    using assms m(1) by (auto simp: tile_inv_def tile_rest_def pending_def export_input_def export_multi_def row_major_append axis_of_def)
  then show ?thesis using m by blast
qed

lemma same_nest_snoc1: "same_nest A (M @ [p]) \<Longrightarrow> same_nest (p # q) r \<Longrightarrow> same_nest (A @ q) (M @ r)"
proof -
  assume a: "same_nest A (M @ [p])" "same_nest (p # q) r"
  have "same_nest (A @ q) ((M @ [p]) @ q)" by (rule same_nest_snoc [OF a(1) same_nest_refl])
  moreover have "same_nest (M @ (p # q)) (M @ r)" by (rule same_nest_snoc [OF same_nest_refl a(2)])
  ultimately show ?thesis using same_nest_trans by simp
qed

lemma same_nest_ones: "same_nest [(1, s), p] [p]" "same_nest [p, (1, s)] [p]" "same_nest [(1, s), (1, s')] []"
proof -
  show p: "same_nest [(1, s), p] [p]" for p using same_nest_append [OF same_nest_one, of "[]" s "[p]"] by simp
  show "same_nest [p, (1, s)] [p]" using same_nest_append [OF same_nest_one, of "[p]" s "[]"] by simp
  show "same_nest [(1, s), (1, s')] []" using p same_nest_one same_nest_trans by blast
qed

lemma same_nest_fuse_one: "0 \<le> n \<Longrightarrow> same_nest [(m, n * s), (n, s), (1, r)] [(m * n, s)]"
  using same_nest_append [OF same_nest_ones(2), of "[(m, n * s)]" "(n, s)" r "[]"] same_nest_fuse [of n m s] same_nest_trans by simp

lemma same_nest_one_fuse: "0 \<le> n \<Longrightarrow> same_nest [(m, n * s), (1, r), (n, s)] [(m * n, s)]"
  using same_nest_append [OF same_nest_ones(1), of "[(m, n * s)]" r "(n, s)" "[]"] same_nest_fuse [of n m s] same_nest_trans by simp

text \<open>The pairs that an axis adds: repetition and extent.\<close>

abbreviation tile_pairs :: "int \<Rightarrow> int \<Rightarrow> int \<Rightarrow> (int \<times> int) list" where
  "tile_pairs ml il S \<equiv> [(ml, 0), (il, S)]"

definition tile_axis :: "Tensor \<Rightarrow> (int \<Rightarrow> int) \<Rightarrow> (int \<Rightarrow> int) \<Rightarrow> (int \<Rightarrow> int) \<Rightarrow> int \<Rightarrow> int \<Rightarrow> int \<Rightarrow> int \<Rightarrow> int \<Rightarrow> bool" where
  "tile_axis t inS outS mulPtr i il ml K S \<longleftrightarrow>
     extent t i = il \<and> mulPtr i = ml \<and> 0 < il \<and> 0 < ml \<and> outS i = K \<and> inS i = S"

lemma tile_axisD: "tile_axis t inS outS mulPtr i il ml K S \<Longrightarrow> extent t i = il"
  "tile_axis t inS outS mulPtr i il ml K S \<Longrightarrow> mulPtr i = ml" "tile_axis t inS outS mulPtr i il ml K S \<Longrightarrow> 0 < il"
  "tile_axis t inS outS mulPtr i il ml K S \<Longrightarrow> 0 < ml" "tile_axis t inS outS mulPtr i il ml K S \<Longrightarrow> outS i = K"
  "tile_axis t inS outS mulPtr i il ml K S \<Longrightarrow> inS i = S"
  by (simp_all add: tile_axis_def)

lemma tile_invI:
  assumes "map axis_of (taxes st) = row_major (prod_list (map fst (pending S st)) * K) M" "same_nest A (M @ pending S st)"
    "list_all (\<lambda>a. 0 < fst a) (M @ pending S st)" "tstatus st \<le> 2"
    "tstatus st = 1 \<Longrightarrow> extent t (prevIndex st) * outS (prevIndex st) = K" "tstatus st = 2 \<Longrightarrow> outS (prevIndex st) = K \<and> inS (prevIndex st) = S"
  shows "tile_inv t inS outS K S A st"
  using assms unfolding tile_inv_def by blast

lemma tile_invE:
  assumes "tile_inv t inS outS K S A st"
    and "\<And>M. map axis_of (taxes st) = row_major (prod_list (map fst (pending S st)) * K) M \<Longrightarrow> same_nest A (M @ pending S st) \<Longrightarrow>
      list_all (\<lambda>a. 0 < fst a) (M @ pending S st) \<Longrightarrow> tstatus st = 0 \<or> tstatus st = 1 \<or> tstatus st = 2 \<Longrightarrow>
      (tstatus st = 1 \<Longrightarrow> extent t (prevIndex st) * outS (prevIndex st) = K) \<Longrightarrow>
      (tstatus st = 2 \<Longrightarrow> outS (prevIndex st) = K \<and> inS (prevIndex st) = S) \<Longrightarrow> P"
  shows P
proof -
  have "tstatus st \<le> 2" using assms(1) by (simp add: tile_inv_def)
  then have "tstatus st = 0 \<or> tstatus st = 1 \<or> tstatus st = 2" by linarith
  then show P using assms unfolding tile_inv_def by blast
qed

lemma tile_next_multi:
  assumes inv: "tile_inv t inS outS (il * ml * K) (il * S) A st" and e: "tile_axis t inS outS mulPtr i il ml K S" and c: "il = 1" "1 < ml"
  shows "tile_inv t inS outS K S (A @ tile_pairs ml il S) (tile_next t inS outS mulPtr i st)"
proof -
  obtain M where m: "map axis_of (taxes st) = row_major (prod_list (map fst (pending (il * S) st)) * (il * ml * K)) M" "same_nest A (M @ pending (il * S) st)"
    "list_all (\<lambda>a. 0 < fst a) (M @ pending (il * S) st)" and st: "tstatus st = 0 \<or> tstatus st = 1 \<or> tstatus st = 2"
    and i1: "tstatus st = 1 \<Longrightarrow> extent t (prevIndex st) * outS (prevIndex st) = il * ml * K"
    and i2: "tstatus st = 2 \<Longrightarrow> outS (prevIndex st) = il * ml * K \<and> inS (prevIndex st) = il * S"
    using inv by (rule tile_invE) blast
  consider "tstatus st = 0" | "tstatus st = 1" | "tstatus st = 2" using st by metis
  then show ?thesis
  proof cases
    case 1
    let ?st = "st\<lparr>prevMulti := ml, prevIndex := i, tstatus := 1\<rparr>"
    have "same_nest (A @ tile_pairs ml il S) (M @ [(ml, 0)])"
      using same_nest_snoc [OF m(2) same_nest_ones(2), of "(ml, 0)" S] c 1 by (simp add: pending_def)
    then have "tile_inv t inS outS K S (A @ tile_pairs ml il S) ?st"
      by (intro tile_invI [where M = M]) (use m c 1 tile_axisD [OF e] in \<open>simp_all add: pending_def\<close>)
    then show ?thesis using c tile_axisD [OF e] 1 by (simp add: tile_next_def)
  next
    case 2
    let ?st = "st\<lparr>prevMulti := prevMulti st * ml, prevIndex := i, tstatus := 1\<rparr>"
    have "same_nest ((prevMulti st, 0) # tile_pairs ml il S) [(prevMulti st * ml, 0)]"
      using same_nest_fuse_one [of ml "prevMulti st" 0 S] c by simp
    then have "same_nest (A @ tile_pairs ml il S) (M @ [(prevMulti st * ml, 0)])"
      using m(2) 2 by (intro same_nest_snoc1) (simp_all add: pending_def)
    then have "tile_inv t inS outS K S (A @ tile_pairs ml il S) ?st"
      by (intro tile_invI [where M = M]) (use m c 2 tile_axisD [OF e] in \<open>simp_all add: pending_def mult.assoc\<close>)
    then show ?thesis using c tile_axisD [OF e] 2 by (simp add: tile_next_def)
  next
    case 3
    let ?st = "(export_input inS outS st)\<lparr>prevIndex := i, prevMulti := ml, tstatus := 1\<rparr>" and ?M = "M @ [(prevInput st, il * S)]"
    have "same_nest (A @ tile_pairs ml il S) (?M @ [(ml, 0)])"
      using same_nest_snoc [OF m(2) same_nest_ones(2), of "(ml, 0)" S] c 3 by (simp add: pending_def)
    then have "tile_inv t inS outS K S (A @ tile_pairs ml il S) ?st"
      by (intro tile_invI [where M = ?M]) (use m c 3 tile_axisD [OF e] i2 in \<open>simp_all add: pending_def export_input_def row_major_append axis_of_def\<close>)
    then show ?thesis using c tile_axisD [OF e] 3 by (simp add: tile_next_def)
  qed
qed

lemma tile_next_extent:
  assumes inv: "tile_inv t inS outS (il * ml * K) (il * S) A st" and e: "tile_axis t inS outS mulPtr i il ml K S" and c: "1 < il" "ml = 1"
  shows "tile_inv t inS outS K S (A @ tile_pairs ml il S) (tile_next t inS outS mulPtr i st)"
proof -
  obtain M where m: "map axis_of (taxes st) = row_major (prod_list (map fst (pending (il * S) st)) * (il * ml * K)) M" "same_nest A (M @ pending (il * S) st)"
    "list_all (\<lambda>a. 0 < fst a) (M @ pending (il * S) st)" and st: "tstatus st = 0 \<or> tstatus st = 1 \<or> tstatus st = 2"
    and i1: "tstatus st = 1 \<Longrightarrow> extent t (prevIndex st) * outS (prevIndex st) = il * ml * K"
    and i2: "tstatus st = 2 \<Longrightarrow> outS (prevIndex st) = il * ml * K \<and> inS (prevIndex st) = il * S"
    using inv by (rule tile_invE) blast
  consider "tstatus st = 0" | "tstatus st = 1" | "tstatus st = 2" using st by metis
  then show ?thesis
  proof cases
    case 1
    let ?st = "st\<lparr>prevInput := il, prevIndex := i, tstatus := 2\<rparr>"
    have "same_nest (A @ tile_pairs ml il S) (M @ [(il, S)])"
      using same_nest_snoc [OF m(2) same_nest_ones(1), of 0 "(il, S)"] c 1 by (simp add: pending_def)
    then have "tile_inv t inS outS K S (A @ tile_pairs ml il S) ?st"
      by (intro tile_invI [where M = M]) (use m c 1 tile_axisD [OF e] in \<open>simp_all add: pending_def\<close>)
    then show ?thesis using c tile_axisD [OF e] 1 by (simp add: tile_next_def)
  next
    case 2
    let ?st = "(export_multi t outS st)\<lparr>prevIndex := i, prevInput := il, tstatus := 2\<rparr>" and ?M = "M @ [(prevMulti st, 0)]"
    have "same_nest (A @ tile_pairs ml il S) (?M @ [(il, S)])"
      using same_nest_snoc [OF m(2) same_nest_ones(1), of 0 "(il, S)"] c 2 by (simp add: pending_def)
    then have "tile_inv t inS outS K S (A @ tile_pairs ml il S) ?st"
      by (intro tile_invI [where M = ?M]) (use m c 2 tile_axisD [OF e] i1 in \<open>simp_all add: pending_def export_multi_def row_major_append axis_of_def\<close>)
    then show ?thesis using c tile_axisD [OF e] 2 by (simp add: tile_next_def)
  next
    case 3
    let ?st = "st\<lparr>prevInput := prevInput st * il, prevIndex := i, tstatus := 2\<rparr>"
    have "same_nest ((prevInput st, il * S) # tile_pairs ml il S) [(prevInput st * il, S)]"
      using same_nest_one_fuse [of il "prevInput st" S 0] c by simp
    then have "same_nest (A @ tile_pairs ml il S) (M @ [(prevInput st * il, S)])"
      using m(2) 3 by (intro same_nest_snoc1) (simp_all add: pending_def)
    then have "tile_inv t inS outS K S (A @ tile_pairs ml il S) ?st"
      by (intro tile_invI [where M = M]) (use m c 3 tile_axisD [OF e] in \<open>simp_all add: pending_def mult.assoc\<close>)
    then show ?thesis using c tile_axisD [OF e] 3 by (simp add: tile_next_def)
  qed
qed

lemma tile_next_both:
  assumes inv: "tile_inv t inS outS (il * ml * K) (il * S) A st" and e: "tile_axis t inS outS mulPtr i il ml K S" and c: "1 < il" "1 < ml"
  shows "tile_inv t inS outS K S (A @ tile_pairs ml il S) (tile_next t inS outS mulPtr i st)"
proof -
  obtain M where m: "map axis_of (taxes st) = row_major (prod_list (map fst (pending (il * S) st)) * (il * ml * K)) M" "same_nest A (M @ pending (il * S) st)"
    "list_all (\<lambda>a. 0 < fst a) (M @ pending (il * S) st)" and st: "tstatus st = 0 \<or> tstatus st = 1 \<or> tstatus st = 2"
    and i1: "tstatus st = 1 \<Longrightarrow> extent t (prevIndex st) * outS (prevIndex st) = il * ml * K"
    and i2: "tstatus st = 2 \<Longrightarrow> outS (prevIndex st) = il * ml * K \<and> inS (prevIndex st) = il * S"
    using inv by (rule tile_invE) blast
  consider "tstatus st = 0" | "tstatus st = 1" | "tstatus st = 2" using st by metis
  then show ?thesis
  proof cases
    case 1
    let ?st = "st\<lparr>taxes := taxes st @ [(ml, 0, il * K), (il, S, K)], tstatus := 0\<rparr>" and ?M = "M @ tile_pairs ml il S"
    have "same_nest (A @ tile_pairs ml il S) ?M" using same_nest_snoc [OF m(2) same_nest_refl, of "tile_pairs ml il S"] 1 by (simp add: pending_def)
    then have "tile_inv t inS outS K S (A @ tile_pairs ml il S) ?st"
      by (intro tile_invI [where M = ?M]) (use m c 1 in \<open>simp_all add: pending_def row_major_append axis_of_def mult_ac'\<close>)
    then show ?thesis using c tile_axisD [OF e] 1 by (simp add: tile_next_def)
  next
    case 2
    let ?st = "st\<lparr>taxes := taxes st @ [(ml * prevMulti st, 0, il * K), (il, S, K)], tstatus := 0\<rparr>" and ?M = "M @ tile_pairs (ml * prevMulti st) il S"
    have "same_nest ((prevMulti st, 0) # tile_pairs ml il S) (tile_pairs (ml * prevMulti st) il S)"
      using same_nest_append [OF same_nest_fuse [of ml "prevMulti st" 0], of "[]" "[(il, S)]"] c by (simp add: mult.commute)
    then have "same_nest (A @ tile_pairs ml il S) ?M"
      using m(2) 2 by (intro same_nest_snoc1) (simp_all add: pending_def)
    then have "tile_inv t inS outS K S (A @ tile_pairs ml il S) ?st"
      by (intro tile_invI [where M = ?M]) (use m c 2 in \<open>simp_all add: pending_def row_major_append axis_of_def mult_ac'\<close>)
    then show ?thesis using c tile_axisD [OF e] 2 by (simp add: tile_next_def)
  next
    case 3
    let ?st = "st\<lparr>taxes := (taxes st @ [(prevInput st, (il * S), il * ml * K)]) @ [(ml, 0, il * K), (il, S, K)], tstatus := 0\<rparr>"
      and ?M = "M @ (prevInput st, il * S) # tile_pairs ml il S"
    have "same_nest (A @ tile_pairs ml il S) ?M" using same_nest_snoc [OF m(2) same_nest_refl, of "tile_pairs ml il S"] 3 by (simp add: pending_def)
    then have "tile_inv t inS outS K S (A @ tile_pairs ml il S) ?st"
      by (intro tile_invI [where M = ?M]) (use m c 3 in \<open>simp_all add: pending_def row_major_append axis_of_def mult_ac'\<close>)
    then show ?thesis using c tile_axisD [OF e] 3 i2 by (simp add: tile_next_def export_input_def)
  qed
qed

lemma tile_next_keeps:
  assumes inv: "tile_inv t inS outS (il * ml * K) (il * S) A st" and e: "tile_axis t inS outS mulPtr i il ml K S"
  shows "tile_inv t inS outS K S (A @ tile_pairs ml il S) (tile_next t inS outS mulPtr i st)"
proof -
  consider (same) "il = 1" "ml = 1" | (multi) "il = 1" "1 < ml" | (extent) "1 < il" "ml = 1" | (both) "1 < il" "1 < ml"
    using tile_axisD(3,4) [OF e] by linarith
  then show ?thesis
  proof cases
    case same
    have inv': "tile_inv t inS outS K S A st" using inv same by simp
    then obtain M where "same_nest A (M @ pending S st)" "map axis_of (taxes st) = row_major (prod_list (map fst (pending S st)) * K) M"
      "list_all (\<lambda>a. 0 < fst a) (M @ pending S st)" unfolding tile_inv_def by blast
    then have "tile_inv t inS outS K S (A @ tile_pairs ml il S) st"
      using inv' same_nest_snoc [OF _ same_nest_ones(3), of A "M @ pending S st" 0 S] same unfolding tile_inv_def by auto
    then show ?thesis using same tile_axisD [OF e] by (simp add: tile_next_def)
  qed (use tile_next_multi [OF inv e] tile_next_extent [OF inv e] tile_next_both [OF inv e] in blast)+
qed

section \<open>All axes\<close>

text \<open>The output has the extents of \<open>TileComputer\<close>: the input's times the multiples.\<close>

definition tiled :: "Tensor \<Rightarrow> (int \<Rightarrow> int) \<Rightarrow> Tensor \<Rightarrow> bool" where
  "tiled t mul u \<longleftrightarrow> 0 \<le> dimensions t \<and> dimensions u = dimensions t \<and>
     (\<forall>i. 0 \<le> i \<and> i < dimensions t \<longrightarrow> 0 < extent t i \<and> 0 < mul i \<and> extent u i = extent t i * mul i)"

definition all_pairs :: "Tensor \<Rightarrow> (int \<Rightarrow> int) \<Rightarrow> int \<Rightarrow> (int \<times> int) list" where
  "all_pairs t mul n = concat (map (\<lambda>i. tile_pairs (mul i) (extent t i) (stride_behind t i)) [0..n - 1])"

lemma nth_strides: "0 \<le> i \<Longrightarrow> i < dimensions t \<Longrightarrow> suffix_products (map (extent t) [0..dimensions t - 1]) ! nat i = stride_behind t i"
  by (simp add: suffix_products_strides nth_upto)

lemma tile_axes:
  assumes t: "tiled t mul u" and i: "0 \<le> i" "i < dimensions t" "\<And>i. 0 \<le> i \<Longrightarrow> i < dimensions t \<Longrightarrow> outS i = stride_behind u i \<and> inS i = stride_behind t i"
  shows "tile_axis t inS outS mul i (extent t i) (mul i) (extents_product u (i + 1) (dimensions u)) (extents_product t (i + 1) (dimensions t))"
  using t i unfolding tile_axis_def tiled_def stride_behind_def by simp

lemma tile_fold:
  assumes t: "tiled t mul u" and s: "\<And>i. 0 \<le> i \<Longrightarrow> i < dimensions t \<Longrightarrow> outS i = stride_behind u i \<and> inS i = stride_behind t i"
    and n: "int j \<le> dimensions t"
  shows "tile_inv t inS outS (extents_product u (int j) (dimensions u)) (extents_product t (int j) (dimensions t)) (all_pairs t mul (int j))
    (fold (tile_next t inS outS mul) [0..int j - 1] tile_start)"
  using n
proof (induction j)
  case 0
  then show ?case by (auto simp: tile_start_def tile_inv_def pending_def all_pairs_def intro!: exI [of _ "[]"])
next
  case (Suc j)
  let ?st = "fold (tile_next t inS outS mul) [0..int j - 1] tile_start"
  have inv: "tile_inv t inS outS (extents_product u (int j) (dimensions u)) (extents_product t (int j) (dimensions t)) (all_pairs t mul (int j)) ?st"
    using Suc by simp
  have j: "0 \<le> int j" "int j < dimensions t" using Suc.prems by simp_all
  have du: "dimensions u = dimensions t" "extent u (int j) = extent t (int j) * mul (int j)" using t j by (simp_all add: tiled_def)
  have inv': "tile_inv t inS outS (extent t (int j) * mul (int j) * extents_product u (int j + 1) (dimensions u))
      (extent t (int j) * extents_product t (int j + 1) (dimensions t)) (all_pairs t mul (int j)) ?st"
    using inv extents_product_step [of "int j" "dimensions u" u] extents_product_step [of "int j" "dimensions t" t] j du by simp
  have up: "[0..int (Suc j) - 1] = [0..int j - 1] @ [int j]" by (simp add: upto_rec2)
  have "all_pairs t mul (int (Suc j)) = all_pairs t mul (int j) @ tile_pairs (mul (int j)) (extent t (int j)) (extents_product t (int j + 1) (dimensions t))"
    unfolding all_pairs_def up by (simp add: stride_behind_def)
  then show ?case using tile_next_keeps [OF inv' tile_axes [OF t j s]] unfolding up by (simp add: add.commute)
qed

section \<open>The arrays of the axes\<close>

text \<open>What the arrays hold and what is still to be exported; an axis adds an entry for its extent and one for its repetition.\<close>

definition tile_used :: "TileState \<Rightarrow> nat" where
  "tile_used st = length (taxes st) + (if tstatus st = 0 then 0 else 1)"

definition axis_entries :: "Tensor \<Rightarrow> (int \<Rightarrow> int) \<Rightarrow> int list \<Rightarrow> nat" where
  "axis_entries t mul is = length (filter (\<lambda>i. 1 < extent t i) is) + length (filter (\<lambda>i. 1 < mul i) is)"

lemma tile_next_used:
  assumes "0 < extent t i" and "0 < mul i" and "tstatus st \<le> 2"
  shows "tile_used (tile_next t inS outS mul i st) \<le> tile_used st + axis_entries t mul [i]" "tstatus (tile_next t inS outS mul i st) \<le> 2"
proof -
  consider (same) "extent t i = 1" "mul i = 1" | (multi) "extent t i = 1" "1 < mul i" | (ext) "1 < extent t i" "mul i = 1" | (both) "1 < extent t i" "1 < mul i"
    using assms(1,2) by linarith
  note c = this
  have st: "tstatus st = 0 \<or> tstatus st = 1 \<or> tstatus st = 2" using assms(3) by linarith
  show "tile_used (tile_next t inS outS mul i st) \<le> tile_used st + axis_entries t mul [i]"
    by (cases rule: c) (use st in \<open>auto simp: tile_next_def tile_used_def axis_entries_def export_input_def export_multi_def Let_def\<close>)
  show "tstatus (tile_next t inS outS mul i st) \<le> 2"
    by (cases rule: c) (use st in \<open>auto simp: tile_next_def export_input_def export_multi_def Let_def\<close>)
qed

lemma tile_loop_result:
  "\<forall>i\<in>set is. 0 < extent t i \<and> 0 < mul i \<Longrightarrow> tstatus st \<le> 2 \<Longrightarrow>
   (case tile_loop (tile_step t inS outS mul) is st of
      Inl stop \<Rightarrow> stop = Out_of_bounds \<and> MNN_MAX_TENSOR_DIM < int (tile_used st + axis_entries t mul is)
    | Inr st' \<Rightarrow> st' = fold (tile_next t inS outS mul) is st \<and> tile_used st' \<le> tile_used st + axis_entries t mul is)"
proof (induction "is" arbitrary: st)
  case Nil
  then show ?case by simp
next
  case (Cons i "is")
  let ?st = "tile_next t inS outS mul i st"
  have i: "0 < extent t i" "0 < mul i" using Cons.prems by simp_all
  note u = tile_next_used [where t = t and mul = mul and i = i, OF i Cons.prems(2), of inS outS]
  have e: "axis_entries t mul (i # is) = axis_entries t mul [i] + axis_entries t mul is" by (simp add: axis_entries_def)
  show ?case
  proof (cases "int (length (taxes ?st)) > MNN_MAX_TENSOR_DIM")
    case True
    have "length (taxes ?st) \<le> tile_used ?st" by (simp add: tile_used_def)
    then have "int (length (taxes ?st)) \<le> int (tile_used st + axis_entries t mul (i # is))" using u(1) e by linarith
    then show ?thesis using True i by (simp add: tile_step_def)
  next
    case False
    then show ?thesis using Cons.IH [of ?st] Cons.prems u e i by (force simp: tile_step_def split: sum.splits)
  qed
qed

lemma tile_rest_used: "tstatus st \<le> 2 \<Longrightarrow> length (tile_rest t inS outS st) = tile_used st"
  by (auto simp: tile_rest_def tile_used_def export_input_def export_multi_def)

text \<open>Coordinates of the output as pairs (copy, coordinate in the input).\<close>

fun split_coords :: "int list \<Rightarrow> int list \<Rightarrow> int list" where
  "split_coords (n # ns) (x # xs) = x div n # x mod n # split_coords ns xs"
| "split_coords _ _ = []"

definition wrap :: "int list \<Rightarrow> int list \<Rightarrow> int list" where
  "wrap ns xs = map2 (\<lambda>n x. x mod n) ns xs"

lemma all_pairs_coords:
  assumes t: "tiled t mul u" and a: "0 \<le> a" and xs: "list_all2 (\<lambda>x n. 0 \<le> x \<and> x < n) xs (map (extent u) [a..dimensions t - 1])"
  defines "ax \<equiv> concat (map (\<lambda>i. tile_pairs (mul i) (extent t i) (stride_behind t i)) [a..dimensions t - 1])"
    and "ns \<equiv> map (extent t) [a..dimensions t - 1]"
  shows "list_all2 (\<lambda>x p. 0 \<le> x \<and> x < fst p) (split_coords ns xs) ax \<and>
    prod_list (map fst ax) = prod_list (map (extent u) [a..dimensions t - 1]) \<and>
    dot (split_coords ns xs) (suffix_products (map fst ax)) = dot xs (suffix_products (map (extent u) [a..dimensions t - 1])) \<and>
    dot (split_coords ns xs) (map snd ax) = dot (wrap ns xs) (map (stride_behind t) [a..dimensions t - 1])"
  using a xs unfolding ax_def ns_def
proof (induction "nat (dimensions t - a)" arbitrary: a xs)
  case 0
  then show ?case by (simp add: wrap_def)
next
  case (Suc m)
  then have up: "[a..dimensions t - 1] = a # [a + 1..dimensions t - 1]" by (intro upto_rec1) simp
  obtain y ys where ys: "xs = y # ys" "0 \<le> y" "y < extent u a" "list_all2 (\<lambda>x n. 0 \<le> x \<and> x < n) ys (map (extent u) [a + 1..dimensions t - 1])"
    using Suc.prems(2) unfolding up by (auto simp: list_all2_Cons2)
  have e: "0 < extent t a" "0 < mul a" "extent u a = extent t a * mul a" using t Suc.prems(1) Suc.hyps(2) by (simp_all add: tiled_def)
  have y: "0 \<le> y div extent t a" "y div extent t a < mul a" "0 \<le> y mod extent t a" "y mod extent t a < extent t a"
    using ys(2,3) e by (simp_all add: pos_imp_zdiv_nonneg_iff div_less_of_mult mult.commute)
  have v: "y div extent t a * (extent t a * P) + y mod extent t a * P = y * P" for P
  proof -
    have "y div extent t a * (extent t a * P) + y mod extent t a * P = (y div extent t a * extent t a + y mod extent t a) * P"
      by (simp only: distrib_right mult.assoc)
    then show ?thesis by (simp only: div_mult_mod_eq)
  qed
  have "m = nat (dimensions t - (a + 1))" "0 \<le> a + 1" using Suc.hyps(2) Suc.prems(1) by simp_all
  note ih = Suc.hyps(1) [OF this ys(4)]
  have "mul a * (extent t a * prod_list (map (extent u) [a + 1..dimensions t - 1])) = extent u a * prod_list (map (extent u) [a + 1..dimensions t - 1])"
    unfolding e(3) by (simp only: mult.assoc mult.left_commute)
  then show ?case unfolding up ys(1) using y ih by (simp add: wrap_def v)
qed

text \<open>The tiling: either an entry is written behind the arrays, and then the axes have more entries than there are, or
  the regions copy every element to all its places.\<close>

lemma tile_reads:
  assumes t: "tiled t (host_int m) u"
  shows "case GeometryTile k [t, m] u des of
      None \<Rightarrow> MNN_MAX_TENSOR_DIM < int (axis_entries t (host_int m) [0..dimensions t - 1])
    | Some des' \<Rightarrow> \<forall>xs. list_all2 (\<lambda>x n. 0 \<le> x \<and> x < n) xs (shape u) \<longrightarrow>
        raster mem (regions des') out (row_offset (shape u) xs) = mem k (row_offset (shape t) (wrap (shape t) xs))"
proof -
  let ?n = "dimensions t" and ?mul = "host_int m"
  define inS where "inS = (\<lambda>i. fst (computeStride (map (extent t) [0..?n - 1])) ! nat i)"
  define outS where "outS = (\<lambda>i. fst (computeStride (map (\<lambda>i. if i < dimensions u then extent u i else extent t i) [0..?n - 1])) ! nat i)"
  let ?loop = "tile_loop (tile_step t inS outS ?mul) [0..?n - 1] tile_start" and ?st = "fold (tile_next t inS outS ?mul) [0..?n - 1] tile_start"
  have d: "dimensions u = ?n" "0 \<le> ?n" using t by (simp_all add: tiled_def)
  have me: "map (\<lambda>i. if i < dimensions u then extent u i else extent t i) [0..?n - 1] = map (extent u) [0..dimensions u - 1]" by (simp add: d)
  have s: "outS i = stride_behind u i \<and> inS i = stride_behind t i" if "0 \<le> i" "i < ?n" for i
    unfolding outS_def inS_def computeStride_eq fst_conv me using nth_strides [of i u] nth_strides [of i t] that d by simp
  have g: "GeometryTile k [t, m] u des = (case ?loop of Inl Zero_shape \<Rightarrow> Some (describe [] des) | Inl Out_of_bounds \<Rightarrow> None
      | Inr st \<Rightarrow> let xs = tile_rest t inS outS st in if int (length xs) > MNN_MAX_TENSOR_DIM then None
          else Some (describe (split_regions k (xs @ replicate (3 - length xs) (1, 0, 0))) des))"
    unfolding GeometryTile_def Let_def inS_def outS_def nth_Cons_0 One_nat_def nth_Cons_Suc ..
  have u0: "tstatus tile_start \<le> 2" "tile_used tile_start = 0" by (simp_all add: tile_start_def tile_used_def)
  have "\<forall>i\<in>set [0..?n - 1]. 0 < extent t i \<and> 0 < ?mul i" using t by (simp add: tiled_def)
  from tile_loop_result [OF this u0(1), of inS outS, unfolded u0(2) add_0]
  have l: "case ?loop of Inl stop \<Rightarrow> stop = Out_of_bounds \<and> MNN_MAX_TENSOR_DIM < int (axis_entries t ?mul [0..?n - 1])
      | Inr st \<Rightarrow> st = ?st \<and> tile_used st \<le> axis_entries t ?mul [0..?n - 1]" .
  have inv: "tile_inv t inS outS 1 1 (all_pairs t ?mul ?n) ?st"
    using tile_fold [OF t s, of "nat ?n"] d by (simp add: extents_product_end)
  let ?xs = "tile_rest t inS outS ?st" and ?A = "all_pairs t ?mul ?n"
  let ?pad = "?xs @ replicate (3 - length ?xs) (1, 0, 0)"
  have "tstatus ?st \<le> 2" using inv by (simp add: tile_inv_def)
  note len = tile_rest_used [OF this, of t inS outS]
  have copied: "raster mem (split_regions k ?pad) out (row_offset (shape u) xs) = mem k (row_offset (shape t) (wrap (shape t) xs))"
    if xs: "list_all2 (\<lambda>x n. 0 \<le> x \<and> x < n) xs (shape u)" for xs
  proof -
    obtain M where M: "map axis_of ?xs = row_major 1 M" "same_nest ?A M" "list_all (\<lambda>a. 0 < fst a) M"
      using tile_rest_axes [OF inv] by blast
    have "map fst ?xs = map fst M"
    proof -
      have "map fst ?xs = map fst (map axis_of ?xs)" by (simp add: axis_of_def)
      then show ?thesis unfolding M(1) row_major_fields .
    qed
    then have "set (map fst ?xs) = set (map fst M)" by (rule arg_cong)
    then have "0 < fst x" if "x \<in> set ?xs" for x using M(3) that unfolding list_all_iff by (metis (no_types, lifting) image_iff list.set_map)
    then have n: "list_all (\<lambda>x. 0 \<le> fst x) ?pad" by (auto simp: list_all_iff less_imp_le)
    have "copies (split_regions k ?pad) = set (nest (map axis_of ?pad))" by (rule split_regions_copies [OF n]) simp
    also have "\<dots> = set (nest (replicate (3 - length ?xs) (1, 0, 0) @ map axis_of ?xs))"
      using nest_swap by (simp add: axis_of_def)
    also have "\<dots> = set (nest (row_major 1 ?A))" unfolding nest_ones_any M(1) using M(2) by (simp add: same_nest_def)
    finally have c: "copies (split_regions k ?pad) = set (nest (row_major 1 ?A))" .
    have o: "rorigin r = Some k" if "r \<in> set (split_regions k ?pad)" for r
      using that by (rule split_regions_origin)
    note co = all_pairs_coords [OF t order.refl xs [unfolded shape_def d(1)], folded all_pairs_def]
    show ?thesis using raster_row_major [OF o c co [THEN conjunct1]] co suffix_products_strides [of 0 t]
      by (simp add: row_offset_def computeStride_eq shape_def d(1))
  qed
  show ?thesis
  proof (cases ?loop)
    case (Inl stop)
    then show ?thesis using l by (simp add: g)
  next
    case (Inr st)
    then have st: "st = ?st" "tile_used ?st \<le> axis_entries t ?mul [0..?n - 1]" using l by auto
    show ?thesis
    proof (cases "int (length ?xs) > MNN_MAX_TENSOR_DIM")
      case True
      then show ?thesis using Inr st len by (simp add: g Let_def)
    next
      case False
      then show ?thesis using Inr st copied by (simp add: g Let_def)
    qed
  qed
qed

text \<open>
  A tensor of rank 5 that is repeated along every axis needs ten entries, one more than the arrays have.
\<close>

lemma tile_rank_five_out_of_bounds:
  "GeometryTile 0 [tensor_of FMT_NCHW [2, 2, 2, 2, 2], int_tensor [2, 2, 2, 2, 2]] (tensor_of FMT_NCHW [4, 4, 4, 4, 4])
     \<lparr>memory_virtual = False, regions = []\<rparr> = None"
  by code_simp

end
