(* ===== verification/Geo_Space.thy ===== *)
theory Geo_Space
  imports Geo_Inverse
begin

text \<open>
  Space to batch and batch to space: which elements the regions pair, in both directions. \<open>t\<close> is the tensor with the
  blocks in space, \<open>u\<close> the one with the blocks in the batch.
\<close>

section \<open>Places of the elements\<close>

definition element_place :: "Tensor \<Rightarrow> int \<Rightarrow> int \<Rightarrow> int \<Rightarrow> int \<Rightarrow> int" where
  "element_place t b c y x = row_offset (shape t) (if dimensionFormat t = FMT_NHWC then [b, y, x, c] else [b, c, y, x])"

lemma four_axes: "dimensions t = 4 \<Longrightarrow> shape t = (if dimensionFormat t = FMT_NHWC then [batch t, height t, width t, channel t] else [batch t, channel t, height t, width t])"
  by (simp add: shape_def upto.simps batch_def channel_def height_def width_def)

lemma element_place_strides:
  assumes "dimensions t = 4" and "i = image_strides (dimensionFormat t = FMT_NHWC) (height t) (width t) (channel t)"
  shows "element_place t b c y x = b * i ! 0 + c * i ! 1 + y * i ! 2 + x * i ! 3"
  unfolding element_place_def row_offset_def computeStride_eq four_axes [OF assms(1)] assms(2)
  by (simp add: image_strides_def algebra_simps)

definition coords_in :: "Tensor \<Rightarrow> int \<Rightarrow> int \<Rightarrow> int \<Rightarrow> int \<Rightarrow> bool" where
  "coords_in t b c y x \<longleftrightarrow> 0 \<le> b \<and> b < batch t \<and> 0 \<le> c \<and> c < channel t \<and> 0 \<le> y \<and> y < height t \<and> 0 \<le> x \<and> x < width t"

lemma element_place_inj:
  assumes "dimensions t = 4" and "coords_in t b c y x" and "coords_in t b' c' y' x'" and "element_place t b c y x = element_place t b' c' y' x'"
  shows "b = b' \<and> c = c' \<and> y = y' \<and> x = x'"
proof -
  let ?f = "\<lambda>b c y x. if dimensionFormat t = FMT_NHWC then [b, y, x, c] else [b, c, y, x]"
  have i: "list_all2 (\<lambda>x n. 0 \<le> x \<and> x < n) (?f b c y x) (shape t)" if "coords_in t b c y x" for b c y x
    using that by (auto simp: four_axes [OF assms(1)] coords_in_def)
  have e: "dot (?f b c y x) (suffix_products (shape t)) = dot (?f b' c' y' x') (suffix_products (shape t))"
    using assms(4) by (simp only: element_place_def row_offset_def computeStride_eq fst_conv)
  have "unravelIndexHelper (suffix_products (shape t)) (dot (?f b c y x) (suffix_products (shape t))) = ?f b c y x"
    using unravel_dot [OF i [OF assms(2)]] by blast
  moreover have "unravelIndexHelper (suffix_products (shape t)) (dot (?f b' c' y' x') (suffix_products (shape t))) = ?f b' c' y' x'"
    using unravel_dot [OF i [OF assms(3)]] by blast
  ultimately have "?f b c y x = ?f b' c' y' x'" unfolding e by simp
  then show ?thesis by (cases "dimensionFormat t = FMT_NHWC") simp_all
qed

section \<open>The first and the last block\<close>

text \<open>The first block, of those with the given position in a block, that starts behind the padding; the first that
  starts behind the image.\<close>

definition first_block :: "int \<Rightarrow> int \<Rightarrow> int \<Rightarrow> int" where
  "first_block pad pos block = max 0 ((pad - pos + block - 1) div block)"

definition end_block :: "int \<Rightarrow> int \<Rightarrow> int \<Rightarrow> int \<Rightarrow> int \<Rightarrow> int" where
  "end_block blocks len pad pos block = min blocks ((len + pad - pos + block - 1) div block)"

lemma le_block_iff: "(a + b - 1) div b \<le> y \<longleftrightarrow> a \<le> y * b" if "0 < b" for a b y :: int
proof -
  define q m where "q = (a + b - 1) div b" and "m = (a + b - 1) mod b"
  have d: "a = q * b + m - b + 1" "0 \<le> m" "m < b" using that by (simp_all add: q_def m_def)
  show ?thesis
  proof (cases "q \<le> y")
    case True
    then have "q * b \<le> y * b" using that by simp
    then show ?thesis using True d unfolding q_def [symmetric] by linarith
  next
    case False
    then have "(y + 1) * b \<le> q * b" using that by (intro mult_right_mono) simp_all
    then show ?thesis using False d unfolding q_def [symmetric] by (simp add: distrib_right)
  qed
qed

lemma block_range:
  assumes "0 < block"
  shows "first_block pad pos block \<le> y \<and> y < end_block blocks len pad pos block \<longleftrightarrow>
    0 \<le> y \<and> y < blocks \<and> 0 \<le> y * block + pos - pad \<and> y * block + pos - pad < len"
  using le_block_iff [OF assms, of "pad - pos" y] le_block_iff [OF assms, of "len + pad - pos" y]
  by (auto simp: first_block_def end_block_def algebra_simps not_le)

lemma first_block_multiple: "0 < block \<Longrightarrow> 0 \<le> a \<Longrightarrow> 0 \<le> pos \<Longrightarrow> pos < block \<Longrightarrow> first_block (a * block) pos block = a"
proof -
  assume b: "0 < block" "0 \<le> a" "0 \<le> pos" "pos < block"
  have "(a * block - pos + block - 1) div block = a"
    by (rule int_div_pos_eq [of _ _ _ "block - 1 - pos"]) (use b in \<open>simp_all add: algebra_simps\<close>)
  then show ?thesis using b by (simp add: first_block_def)
qed

section \<open>The pairs of the regions\<close>

text \<open>How far the columns are off: the start of the columns is computed from the first row of blocks.\<close>

definition column_shift :: "int \<Rightarrow> int \<Rightarrow> int \<Rightarrow> int \<Rightarrow> int \<Rightarrow> int" where
  "column_shift bh bw pt pl r = bw * (first_block pt (r div bw) bh - first_block pl (r mod bw) bw)"

abbreviation space_blocks :: "int \<Rightarrow> int \<Rightarrow> int \<Rightarrow> int \<Rightarrow> int \<Rightarrow> int \<Rightarrow> SpaceBatch" where
  "space_blocks bh bw pt pb pl pr \<equiv> \<lparr>blockCount = 2, blockShape = [bh, bw], sbPadding = [pt, pb, pl, pr]\<rparr>"

text \<open>Offsets into the batch side and the space side, for the channels of all images counted as one axis.\<close>

definition sb_pairs :: "Tensor \<Rightarrow> Tensor \<Rightarrow> int \<Rightarrow> int \<Rightarrow> int \<Rightarrow> int \<Rightarrow> (int \<times> int) set" where
  "sb_pairs t u bh bw pt pl =
     (let i = image_strides (dimensionFormat t = FMT_NHWC) (height t) (width t) (channel u);
          o' = image_strides (dimensionFormat t = FMT_NHWC) (height u) (width u) (channel u)
      in {(p, q). \<exists>r z y x. 0 \<le> r \<and> r < bh * bw \<and> 0 \<le> z \<and> z < batch t * channel u \<and>
        first_block pt (r div bw) bh \<le> y \<and> y < end_block (height u) (height t) pt (r div bw) bh \<and>
        first_block pl (r mod bw) bw \<le> x \<and> x < end_block (width u) (width t) pl (r mod bw) bw \<and>
        p = r * batch t * o' ! 0 + z * o' ! 1 + y * o' ! 2 + x * o' ! 3 \<and>
        q = z * i ! 1 + (y * bh + r div bw - pt) * i ! 2 + (x * bw + r mod bw - pl + column_shift bh bw pt pl r) * i ! 3})"

lemma ex_from: "(\<exists>y. 0 \<le> y \<and> y < e - s \<and> P (s + y)) \<longleftrightarrow> (\<exists>y. s \<le> y \<and> y < e \<and> P y)" for s e :: int
proof
  assume "\<exists>y. 0 \<le> y \<and> y < e - s \<and> P (s + y)"
  then obtain y where "0 \<le> y" "y < e - s" "P (s + y)" by blast
  then show "\<exists>y. s \<le> y \<and> y < e \<and> P y" by (intro exI [of _ "s + y"]) simp
next
  assume "\<exists>y. s \<le> y \<and> y < e \<and> P y"
  then obtain y where "s \<le> y" "y < e" "P y" by blast
  then show "\<exists>y. 0 \<le> y \<and> y < e - s \<and> P (s + y)" by (intro exI [of _ "y - s"]) simp
qed

text \<open>The region of a position in the block.\<close>

definition sb_region :: "bool \<Rightarrow> Tensor \<Rightarrow> Tensor \<Rightarrow> int \<Rightarrow> int \<Rightarrow> int \<Rightarrow> int \<Rightarrow> nat \<Rightarrow> int \<Rightarrow> Region" where
  "sb_region turned t u bh bw pt pl k r =
     (let i = image_strides (dimensionFormat t = FMT_NHWC) (height t) (width t) (channel u);
          o' = image_strides (dimensionFormat t = FMT_NHWC) (height u) (width u) (channel u);
          hs = first_block pt (r div bw) bh; he = end_block (height u) (height t) pt (r div bw) bh;
          ws = first_block pl (r mod bw) bw; we = end_block (width u) (width t) pl (r mod bw) bw;
          src = \<lparr>voffset = (hs * bh + r div bw - pt) * i ! 2 + (hs * bw + r mod bw - pl) * i ! 3,
            vstride = [i ! 1, bh * i ! 2, bw * i ! 3]\<rparr>;
          dst = \<lparr>voffset = o' ! 2 * hs + o' ! 3 * ws + r * batch t * o' ! 0, vstride = [o' ! 1, o' ! 2, o' ! 3]\<rparr>
      in \<lparr>rsrc = if turned then dst else src, rdst = if turned then src else dst,
          rsize = [batch t * channel u, he - hs, we - ws], rorigin = Some k\<rparr>)"

lemma block_pos:
  fixes r bh bw :: int
  assumes "0 < bw" and "0 \<le> r" and "r < bh * bw"
  shows "0 \<le> r div bw" "r div bw < bh" "0 \<le> r mod bw" "r mod bw < bw"
  using assms by (simp_all add: pos_imp_zdiv_nonneg_iff div_less_of_mult)

lemma space_batch_regions:
  assumes b: "0 < bh" "0 < bw" and p: "0 \<le> pt" "0 \<le> pl" and n: "0 < batch t" "batch u = batch t * (bh * bw)"
    and f: "dimensionFormat u = dimensionFormat t" and h: "0 \<le> height t" "0 \<le> width t"
  shows "regions (GeometrySpaceToBatchND False (space_blocks bh bw pt pb pl pr) k [t] u des) = map (sb_region False t u bh bw pt pl k) [0..bh * bw - 1]"
    and "regions (GeometrySpaceToBatchND True (space_blocks bh bw pt pb pl pr) k [u] t des) = map (sb_region True t u bh bw pt pl k) [0..bh * bw - 1]"
proof -
  have R: "cdiv (batch u) (batch t) = bh * bw" using n b by (simp add: cdiv_nonneg)
  have c: "crem r bw = r mod bw" "cdiv r bw = r div bw" "cdiv (pt - r div bw + bh - 1) bh = (pt - r div bw + bh - 1) div bh"
    "cdiv (height t + pt - r div bw + bh - 1) bh = (height t + pt - r div bw + bh - 1) div bh"
    "cdiv (pl - r mod bw + bw - 1) bw = (pl - r mod bw + bw - 1) div bw"
    "cdiv (width t + pl - r mod bw + bw - 1) bw = (width t + pl - r mod bw + bw - 1) div bw" if r: "0 \<le> r" "r < bh * bw" for r
  proof -
    show m: "crem r bw = r mod bw" "cdiv r bw = r div bw" using r(1) b(2) by (simp_all add: crem_nonneg cdiv_nonneg)
    note q = block_pos [OF b(2) r]
    show "cdiv (pt - r div bw + bh - 1) bh = (pt - r div bw + bh - 1) div bh"
      "cdiv (height t + pt - r div bw + bh - 1) bh = (height t + pt - r div bw + bh - 1) div bh"
      "cdiv (pl - r mod bw + bw - 1) bw = (pl - r mod bw + bw - 1) div bw"
      "cdiv (width t + pl - r mod bw + bw - 1) bw = (width t + pl - r mod bw + bw - 1) div bw"
      by (rule cdiv_nonneg; use q b p h in linarith)+
  qed
  have sb: "space_batch (space_blocks bh bw pt pb pl pr) [x] = (2, \<lambda>i. [bh, bw] ! nat i, \<lambda>i. [pt, pb, pl, pr] ! nat i)" for x
    by (simp add: space_batch_def)
  show "regions (GeometrySpaceToBatchND False (space_blocks bh bw pt pb pl pr) k [t] u des) = map (sb_region False t u bh bw pt pl k) [0..bh * bw - 1]"
    "regions (GeometrySpaceToBatchND True (space_blocks bh bw pt pb pl pr) k [u] t des) = map (sb_region True t u bh bw pt pl k) [0..bh * bw - 1]"
    unfolding GeometrySpaceToBatchND_def sb Let_def prod.case
    by (simp_all add: R f c sb_region_def first_block_def end_block_def Let_def cong: map_cong)
qed

lemma sb_region_elements:
  assumes "(turned, d, s) \<in> {(False, p, q), (True, q, p)}"
  shows "(d, s) \<in> set (region_elements (sb_region turned t u bh bw pt pl k r)) \<longleftrightarrow>
    (\<exists>z y x. 0 \<le> z \<and> z < batch t * channel u \<and>
        first_block pt (r div bw) bh \<le> y \<and> y < end_block (height u) (height t) pt (r div bw) bh \<and>
        first_block pl (r mod bw) bw \<le> x \<and> x < end_block (width u) (width t) pl (r mod bw) bw \<and>
        (let i = image_strides (dimensionFormat t = FMT_NHWC) (height t) (width t) (channel u);
             o' = image_strides (dimensionFormat t = FMT_NHWC) (height u) (width u) (channel u)
         in p = r * batch t * o' ! 0 + z * o' ! 1 + y * o' ! 2 + x * o' ! 3 \<and>
            q = z * i ! 1 + (y * bh + r div bw - pt) * i ! 2 + (x * bw + r mod bw - pl + column_shift bh bw pt pl r) * i ! 3))"
proof -
  have st: "\<exists>d0 d1 d2 d3. image_strides n h w c = [d0, d1, d2, d3]" for n h w c by (simp add: image_strides_def)
  obtain i0 i1 i2 i3 where i: "image_strides (dimensionFormat t = FMT_NHWC) (height t) (width t) (channel u) = [i0, i1, i2, i3]" using st by blast
  obtain o0 o1 o2 o3 where o': "image_strides (dimensionFormat t = FMT_NHWC) (height u) (width u) (channel u) = [o0, o1, o2, o3]" using st by blast
  let ?hs = "first_block pt (r div bw) bh" and ?he = "end_block (height u) (height t) pt (r div bw) bh"
    and ?ws = "first_block pl (r mod bw) bw" and ?we = "end_block (width u) (width t) pl (r mod bw) bw"
  let ?P = "\<lambda>z y x. p = r * batch t * o0 + z * o1 + y * o2 + x * o3 \<and>
            q = z * i1 + (y * bh + r div bw - pt) * i2 + (x * bw + r mod bw - pl + column_shift bh bw pt pl r) * i3"
  have "(d, s) \<in> set (region_elements (sb_region turned t u bh bw pt pl k r)) \<longleftrightarrow>
      (\<exists>z y x. 0 \<le> z \<and> z < batch t * channel u \<and> 0 \<le> y \<and> y < ?he - ?hs \<and> 0 \<le> x \<and> x < ?we - ?ws \<and> ?P z (?hs + y) (?ws + x))"
    using assms unfolding region_elements_iff sb_region_def Let_def i o' 
    by (auto simp: algebra_simps column_shift_def)
  also have "\<dots> \<longleftrightarrow> (\<exists>z. 0 \<le> z \<and> z < batch t * channel u \<and> (\<exists>y. 0 \<le> y \<and> y < ?he - ?hs \<and> (\<exists>x. 0 \<le> x \<and> x < ?we - ?ws \<and> ?P z (?hs + y) (?ws + x))))" by blast
  also have "\<dots> \<longleftrightarrow> (\<exists>z y x. 0 \<le> z \<and> z < batch t * channel u \<and> ?hs \<le> y \<and> y < ?he \<and> ?ws \<le> x \<and> x < ?we \<and> ?P z y x)"
    unfolding ex_from [of ?we ?ws "\<lambda>x. ?P _ _ x"] ex_from [of ?he ?hs "\<lambda>y. \<exists>x. ?ws \<le> x \<and> x < ?we \<and> ?P _ y x"] by blast
  finally show ?thesis unfolding Let_def i o' by simp
qed

text \<open>The shapes of the two sides; a batch of more than one image is laid out as the regions take it only when the
  channel comes first.\<close>

definition space_shapes :: "Tensor \<Rightarrow> Tensor \<Rightarrow> int \<Rightarrow> int \<Rightarrow> bool" where
  "space_shapes t u bh bw \<longleftrightarrow> dimensions t = 4 \<and> dimensions u = 4 \<and> dimensionFormat u = dimensionFormat t \<and> channel u = channel t \<and>
     batch u = batch t * (bh * bw) \<and> 0 < batch t \<and> 0 \<le> height t \<and> 0 \<le> width t \<and> 0 < bh \<and> 0 < bw \<and>
     (dimensionFormat t = FMT_NHWC \<longrightarrow> batch t = 1)"

lemma space_shapesD:
  assumes "space_shapes t u bh bw"
  shows "dimensions t = 4" "dimensions u = 4" "dimensionFormat u = dimensionFormat t" "channel u = channel t"
    "batch u = batch t * (bh * bw)" "0 < batch t" "0 \<le> height t" "0 \<le> width t" "0 < bh" "0 < bw" "dimensionFormat t = FMT_NHWC \<Longrightarrow> batch t = 1"
  using assms by (simp_all add: space_shapes_def)

lemma space_batch_copies:
  assumes s: "space_shapes t u bh bw" and p: "0 \<le> pt" "0 \<le> pl"
  shows "copies (regions (GeometrySpaceToBatchND False (space_blocks bh bw pt pb pl pr) k [t] u des)) = sb_pairs t u bh bw pt pl"
    and "copies (regions (GeometrySpaceToBatchND True (space_blocks bh bw pt pb pl pr) k [u] t des)) = (sb_pairs t u bh bw pt pl)\<inverse>"
proof -
  note S = space_shapesD [OF s]
  note r = space_batch_regions [OF S(9,10) p S(6,5,3,7,8)]
  have "(a, b) \<in> copies (map (sb_region False t u bh bw pt pl k) [0..bh * bw - 1]) \<longleftrightarrow> (a, b) \<in> sb_pairs t u bh bw pt pl"
    "(b, a) \<in> copies (map (sb_region True t u bh bw pt pl k) [0..bh * bw - 1]) \<longleftrightarrow> (a, b) \<in> sb_pairs t u bh bw pt pl" for a b
    by (simp_all add: copies_def sb_region_elements [of _ _ _ a b] sb_pairs_def Let_def Bex_def)
  then show "copies (regions (GeometrySpaceToBatchND False (space_blocks bh bw pt pb pl pr) k [t] u des)) = sb_pairs t u bh bw pt pl"
    "copies (regions (GeometrySpaceToBatchND True (space_blocks bh bw pt pb pl pr) k [u] t des)) = (sb_pairs t u bh bw pt pl)\<inverse>"
    unfolding r by auto
qed

lemma space_batch_origin: "r \<in> set (regions (GeometrySpaceToBatchND turned p k ins out des)) \<Longrightarrow> rorigin r = Some k"
  unfolding GeometrySpaceToBatchND_def Let_def by (auto split: prod.splits)

text \<open>In coordinates: the element \<open>(b, c, y, x)\<close> of the batch side belongs to the row and column where its block
  has its position.\<close>

definition image_row :: "int \<Rightarrow> int \<Rightarrow> int \<Rightarrow> int \<Rightarrow> int \<Rightarrow> int" where
  "image_row bh bw pt r y = y * bh + r div bw - pt"

definition image_column :: "int \<Rightarrow> int \<Rightarrow> int \<Rightarrow> int \<Rightarrow> int" where
  "image_column bw pl r x = x * bw + r mod bw - pl"

definition in_image :: "Tensor \<Rightarrow> int \<Rightarrow> int \<Rightarrow> bool" where
  "in_image t y x \<longleftrightarrow> 0 \<le> y \<and> y < height t \<and> 0 \<le> x \<and> x < width t"

lemma image_channels:
  assumes s: "space_shapes t u bh bw" and z: "z = n * channel t + c" and n: "dimensionFormat t = FMT_NHWC \<longrightarrow> n = 0"
  shows "(r * batch t + n) * image_strides (dimensionFormat t = FMT_NHWC) h w (channel t) ! 0 + c * image_strides (dimensionFormat t = FMT_NHWC) h w (channel t) ! 1 =
    r * batch t * image_strides (dimensionFormat t = FMT_NHWC) h w (channel t) ! 0 + z * image_strides (dimensionFormat t = FMT_NHWC) h w (channel t) ! 1"
  using n by (cases "dimensionFormat t = FMT_NHWC") (simp_all add: z image_strides_def algebra_simps)

lemma sb_pairs_coords:
  assumes s: "space_shapes t u bh bw"
  shows "(p, q) \<in> sb_pairs t u bh bw pt pl \<longleftrightarrow> (\<exists>b c y x. coords_in u b c y x \<and>
    in_image t (image_row bh bw pt (b div batch t) y) (image_column bw pl (b div batch t) x) \<and> p = element_place u b c y x \<and>
    q = element_place t (b mod batch t) c (image_row bh bw pt (b div batch t) y) (image_column bw pl (b div batch t) x + column_shift bh bw pt pl (b div batch t)))"
    (is "?L \<longleftrightarrow> ?R")
proof -
  note S = space_shapesD [OF s]
  let ?N = "batch t" and ?C = "channel t"
  let ?i = "image_strides (dimensionFormat t = FMT_NHWC) (height t) (width t) ?C" and ?o = "image_strides (dimensionFormat t = FMT_NHWC) (height u) (width u) ?C"
  have pl: "element_place t b c y x = b * ?i ! 0 + c * ?i ! 1 + y * ?i ! 2 + x * ?i ! 3"
    "element_place u b c y x = b * ?o ! 0 + c * ?o ! 1 + y * ?o ! 2 + x * ?o ! 3" for b c y x
    using element_place_strides [OF S(1)] element_place_strides [OF S(2)] by (simp_all add: S(3,4))
  note range = block_range [OF S(9)] block_range [OF S(10)]
  have pairs: "?L \<longleftrightarrow> (\<exists>r z y x. 0 \<le> r \<and> r < bh * bw \<and> 0 \<le> z \<and> z < ?N * ?C \<and> 0 \<le> y \<and> y < height u \<and> 0 \<le> x \<and> x < width u \<and>
      in_image t (image_row bh bw pt r y) (image_column bw pl r x) \<and>
      p = r * ?N * ?o ! 0 + z * ?o ! 1 + y * ?o ! 2 + x * ?o ! 3 \<and>
      q = z * ?i ! 1 + image_row bh bw pt r y * ?i ! 2 + (image_column bw pl r x + column_shift bh bw pt pl r) * ?i ! 3)"
    unfolding sb_pairs_def Let_def S(4) in_image_def image_row_def image_column_def mem_Collect_eq prod.case
    using range by (intro ex_cong1) blast
  show ?thesis
  proof
    assume ?L
    then obtain r z y x where a: "0 \<le> r" "r < bh * bw" "0 \<le> z" "z < ?N * ?C" "0 \<le> y" "y < height u" "0 \<le> x" "x < width u"
      "in_image t (image_row bh bw pt r y) (image_column bw pl r x)" "p = r * ?N * ?o ! 0 + z * ?o ! 1 + y * ?o ! 2 + x * ?o ! 3"
      "q = z * ?i ! 1 + image_row bh bw pt r y * ?i ! 2 + (image_column bw pl r x + column_shift bh bw pt pl r) * ?i ! 3"
      unfolding pairs by blast
    have C: "0 < ?C" using a(3,4) S(6) by (smt (verit) mult_nonneg_nonpos mult_nonneg_nonneg)
    define n c where "n = z div ?C" and "c = z mod ?C"
    have n: "0 \<le> n" "n < ?N" "0 \<le> c" "c < ?C" "z = n * ?C + c"
      using C a(3,4) by (simp_all add: n_def c_def pos_imp_zdiv_nonneg_iff div_less_of_mult)
    have n0: "dimensionFormat t = FMT_NHWC \<longrightarrow> n = 0" using S(11) n(1,2) by auto
    have b: "(r * ?N + n) div ?N = r" "(r * ?N + n) mod ?N = n" using n(1,2) by simp_all
    have "r * ?N + n < batch u"
    proof -
      have "r * ?N + n < (r + 1) * ?N" using n(2) by (simp add: algebra_simps)
      also have "\<dots> \<le> bh * bw * ?N" using a(2) S(6) by (intro mult_right_mono) simp_all
      finally show ?thesis by (simp add: S(5) mult.commute)
    qed
    then have "coords_in u (r * ?N + n) c y x" using a n S(4,6) by (simp add: coords_in_def)
    moreover have "p = element_place u (r * ?N + n) c y x" 
      unfolding pl a(10) image_channels [OF s n(5) n0] by (rule refl)
    moreover have "q = element_place t n c (image_row bh bw pt r y) (image_column bw pl r x + column_shift bh bw pt pl r)"
      unfolding pl a(11) using image_channels [OF s n(5) n0, of 0] by simp
    ultimately show ?R using a(9) b by (intro exI [of _ "r * ?N + n"] exI [of _ c] exI [of _ y] exI [of _ x]) simp
  next
    assume ?R
    then obtain b c y x where a: "coords_in u b c y x" "in_image t (image_row bh bw pt (b div ?N) y) (image_column bw pl (b div ?N) x)"
      "p = element_place u b c y x"
      "q = element_place t (b mod ?N) c (image_row bh bw pt (b div ?N) y) (image_column bw pl (b div ?N) x + column_shift bh bw pt pl (b div ?N))" by blast
    define r n z where "r = b div ?N" and "n = b mod ?N" and "z = n * ?C + c"
    have b: "0 \<le> b" "b < ?N * (bh * bw)" "0 \<le> c" "c < ?C" "0 \<le> y" "y < height u" "0 \<le> x" "x < width u"
      using a(1) S by (simp_all add: coords_in_def)
    have r: "0 \<le> r" "r < bh * bw" "0 \<le> n" "n < ?N" "b = r * ?N + n"
      using b(1,2) S(6) by (simp_all add: r_def n_def pos_imp_zdiv_nonneg_iff div_less_of_mult mult.commute)
    have n0: "dimensionFormat t = FMT_NHWC \<longrightarrow> n = 0" using S(11) r(3,4) by auto
    have "z < (n + 1) * ?C" using b(4) by (simp add: z_def algebra_simps)
    also have "\<dots> \<le> ?N * ?C" using r(4) b(3,4) by (intro mult_right_mono) simp_all
    finally have z: "z < ?N * ?C" .
    moreover have "0 \<le> z" using r(3) b(3,4) by (simp add: z_def)
    moreover have "p = r * ?N * ?o ! 0 + z * ?o ! 1 + y * ?o ! 2 + x * ?o ! 3"
      unfolding a(3) pl r(5) image_channels [OF s z_def n0] by (rule refl)
    moreover have "q = z * ?i ! 1 + image_row bh bw pt r y * ?i ! 2 + (image_column bw pl r x + column_shift bh bw pt pl r) * ?i ! 3"
      unfolding a(4) pl r_def [symmetric] n_def [symmetric] using image_channels [OF s z_def n0, of 0] by simp
    ultimately show ?L unfolding pairs using r b a(2) unfolding r_def [symmetric] by blast
  qed
qed

section \<open>The data\<close>

text \<open>Into the batch: every element of the batch side is read from its row and column, the latter with the shift, or
  left alone where these lie in the padding.\<close>

lemma space_to_batch_reads:
  assumes s: "space_shapes t u bh bw" and p: "0 \<le> pt" "0 \<le> pl" and c: "coords_in u b c y x"
  defines "r \<equiv> b div batch t"
  shows "raster mem (regions (GeometrySpaceToBatchND False (space_blocks bh bw pt pb pl pr) k [t] u des)) out (element_place u b c y x) =
    (if in_image t (image_row bh bw pt r y) (image_column bw pl r x)
     then mem k (element_place t (b mod batch t) c (image_row bh bw pt r y) (image_column bw pl r x + column_shift bh bw pt pl r))
     else out (element_place u b c y x))"
proof -
  let ?rs = "regions (GeometrySpaceToBatchND False (space_blocks bh bw pt pb pl pr) k [t] u des)"
  note C = space_batch_copies(1) [OF s p, of pb pr k des] and P = sb_pairs_coords [OF s]
  note inj = element_place_inj [OF space_shapesD(2) [OF s]]
  show ?thesis
  proof (cases "in_image t (image_row bh bw pt r y) (image_column bw pl r x)")
    case True
    let ?s = "element_place t (b mod batch t) c (image_row bh bw pt r y) (image_column bw pl r x + column_shift bh bw pt pl r)"
    have "raster mem ?rs out (element_place u b c y x) = mem k ?s"
    proof (rule raster_copies [OF space_batch_origin])
      show "(element_place u b c y x, ?s) \<in> copies ?rs" unfolding C P using c True unfolding r_def by blast
      show "q = ?s" if "(element_place u b c y x, q) \<in> copies ?rs" for q
        using that inj [OF c] unfolding C P r_def by blast
    qed
    then show ?thesis using True by simp
  next
    case False
    have "raster mem ?rs out (element_place u b c y x) = out (element_place u b c y x)"
    proof (rule raster_keep, rule notI)
      fix g assume "g \<in> set ?rs" "element_place u b c y x \<in> fst ` set (region_elements g)"
      then have "\<exists>q. (element_place u b c y x, q) \<in> copies ?rs" by (force simp: copies_def)
      then obtain q where "(element_place u b c y x, q) \<in> copies ?rs" by blast
      then show False using inj [OF c] False unfolding C P r_def by blast
    qed
    then show ?thesis using False by simp
  qed
qed

lemma column_shift_0:
  assumes "0 < bh" "0 < bw" "0 \<le> a" "0 \<le> r" "r < bh * bw"
  shows "column_shift bh bw (a * bh) (a * bw) r = 0"
  using block_pos [OF assms(2,4,5)] first_block_multiple [OF assms(1,3)] first_block_multiple [OF assms(2,3)]
  by (simp add: column_shift_def)

text \<open>Without shift the element of the space side at \<open>(n, c, row, column)\<close> has one place in the batch side.\<close>

lemma sb_pairs_exact:
  assumes s: "space_shapes t u bh bw" and a: "0 \<le> a" and pt: "pt = a * bh" and pl: "pl = a * bw"
    and q: "(p, q) \<in> sb_pairs t u bh bw pt pl" "(p', q) \<in> sb_pairs t u bh bw pt pl"
  shows "p = p'"
proof -
  note S = space_shapesD [OF s]
  have place: "\<exists>n c row col. coords_in t n c row col \<and> q = element_place t n c row col \<and>
      p = element_place u (((row + pt) mod bh * bw + (col + pl) mod bw) * batch t + n) c ((row + pt) div bh) ((col + pl) div bw)"
    if h: "(p, q) \<in> sb_pairs t u bh bw pt pl" for p
  proof -
    obtain b c y x where e: "coords_in u b c y x" "in_image t (image_row bh bw pt (b div batch t) y) (image_column bw pl (b div batch t) x)"
      "p = element_place u b c y x" "q = element_place t (b mod batch t) c (image_row bh bw pt (b div batch t) y)
        (image_column bw pl (b div batch t) x + column_shift bh bw pt pl (b div batch t))"
      using h unfolding sb_pairs_coords [OF s] by blast
    define r where "r = b div batch t"
    have r: "0 \<le> r" "r < bh * bw" using e(1) S(5,6) by (simp_all add: coords_in_def r_def pos_imp_zdiv_nonneg_iff div_less_of_mult mult.commute)
    note bp = block_pos [OF S(10) r]
    have sh: "column_shift bh bw pt pl r = 0" unfolding pt pl by (rule column_shift_0 [OF S(9,10) a r])
    let ?row = "image_row bh bw pt r y" and ?col = "image_column bw pl r x"
    have "?row + pt = y * bh + r div bw" "?col + pl = x * bw + r mod bw" by (simp_all add: image_row_def image_column_def)
    then have "(?row + pt) mod bh = r div bw" "(?row + pt) div bh = y" "(?col + pl) mod bw = r mod bw" "(?col + pl) div bw = x"
      using bp by simp_all
    moreover have "(r div bw * bw + r mod bw) * batch t + b mod batch t = b" by (simp add: r_def)
    ultimately have "p = element_place u (((?row + pt) mod bh * bw + (?col + pl) mod bw) * batch t + b mod batch t) c ((?row + pt) div bh) ((?col + pl) div bw)"
      using e(3) by (simp only:)
    moreover have "coords_in t (b mod batch t) c ?row ?col" using e(1,2) S(4,6) unfolding r_def [symmetric] by (simp add: coords_in_def in_image_def)
    moreover have "q = element_place t (b mod batch t) c ?row ?col" using e(4) sh unfolding r_def [symmetric] by simp
    ultimately show ?thesis by blast
  qed
  show ?thesis using place [OF q(1)] place [OF q(2)] element_place_inj [OF S(1)] by blast
qed

text \<open>The number of a position in the block.\<close>

lemma block_index:
  fixes bh bw row col :: int
  assumes "0 < bh" "0 < bw"
  shows "0 \<le> row mod bh * bw + col mod bw" "row mod bh * bw + col mod bw < bh * bw"
    "(row mod bh * bw + col mod bw) div bw = row mod bh" "(row mod bh * bw + col mod bw) mod bw = col mod bw"
proof -
  have m: "0 \<le> row mod bh" "row mod bh < bh" "0 \<le> col mod bw" "col mod bw < bw" using assms by simp_all
  show "0 \<le> row mod bh * bw + col mod bw" using m assms(2) by simp
  have "row mod bh * bw + col mod bw < (row mod bh + 1) * bw" using m by (simp add: algebra_simps)
  also have "\<dots> \<le> bh * bw" using m assms(2) by (intro mult_right_mono) simp_all
  finally show "row mod bh * bw + col mod bw < bh * bw" .
  show "(row mod bh * bw + col mod bw) div bw = row mod bh" "(row mod bh * bw + col mod bw) mod bw = col mod bw" using m by simp_all
qed

lemma image_back: "r div bw = (row + pt) mod bh \<Longrightarrow> image_row bh bw pt r ((row + pt) div bh) = row"
    "r mod bw = (col + pl) mod bw \<Longrightarrow> image_column bw pl r ((col + pl) div bw) = col"
  by (simp_all add: image_row_def image_column_def)

text \<open>Out of the batch.\<close>

lemma batch_to_space_reads:
  assumes s: "space_shapes t u bh bw" and a: "0 \<le> a" and pt: "pt = a * bh" and pl: "pl = a * bw" and c: "coords_in t n c row col"
    and y: "(row + pt) div bh < height u" and x: "(col + pl) div bw < width u"
  shows "raster mem (regions (GeometrySpaceToBatchND True (space_blocks bh bw pt pb pl pr) k [u] t des)) out (element_place t n c row col) =
    mem k (element_place u (((row + pt) mod bh * bw + (col + pl) mod bw) * batch t + n) c ((row + pt) div bh) ((col + pl) div bw))"
proof -
  note S = space_shapesD [OF s]
  let ?rs = "regions (GeometrySpaceToBatchND True (space_blocks bh bw pt pb pl pr) k [u] t des)"
  let ?r = "(row + pt) mod bh * bw + (col + pl) mod bw" and ?y = "(row + pt) div bh" and ?x = "(col + pl) div bw"
  have p: "0 \<le> pt" "0 \<le> pl" using a S(9,10) by (simp_all add: pt pl)
  have C: "(q, p) \<in> copies ?rs \<longleftrightarrow> (p, q) \<in> sb_pairs t u bh bw pt pl" for p q
    unfolding space_batch_copies(2) [OF s p, of pb pr k des] by simp
  have i: "0 \<le> n" "n < batch t" "0 \<le> row" "row < height t" "0 \<le> col" "col < width t" "0 \<le> c" "c < channel t"
    using c by (simp_all add: coords_in_def)
  have r: "0 \<le> ?r" "?r < bh * bw" "?r div bw = (row + pt) mod bh" "?r mod bw = (col + pl) mod bw"
    by (rule block_index [OF S(9,10)])+
  have b: "(?r * batch t + n) div batch t = ?r" "(?r * batch t + n) mod batch t = n" using i by simp_all
  have "?r * batch t + n < (?r + 1) * batch t" using i by (simp add: algebra_simps)
  also have "\<dots> \<le> bh * bw * batch t" using r S(6) by (intro mult_right_mono) simp_all
  finally have "?r * batch t + n < batch u" by (simp add: S(5) mult.commute)
  then have u: "coords_in u (?r * batch t + n) c ?y ?x"
    using i r p x y S by (simp add: coords_in_def pos_imp_zdiv_nonneg_iff)
  have rc: "image_row bh bw pt ?r ?y = row" "image_column bw pl ?r ?x = col" by (rule image_back(1) [OF r(3)], rule image_back(2) [OF r(4)])
  have sh: "column_shift bh bw pt pl ?r = 0" unfolding pt pl by (rule column_shift_0 [OF S(9,10) a r(1,2) [unfolded pt pl]])
  have e: "(element_place u (?r * batch t + n) c ?y ?x, element_place t n c row col) \<in> sb_pairs t u bh bw pt pl"
    unfolding sb_pairs_coords [OF s]
    by (intro exI conjI, rule u) (use i rc sh b in \<open>simp_all add: in_image_def\<close>)
  show ?thesis
  proof (rule raster_copies [OF space_batch_origin])
    show "(element_place t n c row col, element_place u (?r * batch t + n) c ?y ?x) \<in> copies ?rs" unfolding C by (rule e)
    show "q = element_place u (?r * batch t + n) c ?y ?x" if "(element_place t n c row col, q) \<in> copies ?rs" for q
      using that sb_pairs_exact [OF s a pt pl _ e] unfolding C by blast
  qed
qed

section \<open>The shapes\<close>

lemma dot_unravel: "list_all (\<lambda>n. 0 < n) ns \<Longrightarrow> 0 \<le> i \<Longrightarrow> i < prod_list ns \<Longrightarrow> dot (unravelIndexHelper (suffix_products ns) i) (suffix_products ns) = i"
proof (induction ns arbitrary: i)
  case (Cons n ns)
  have p: "0 < prod_list ns" using Cons.prems(1) by (induction ns) simp_all
  then show ?case using Cons by (simp add: cdiv_nonneg crem_nonneg)
qed simp

lemma element_place_cover:
  assumes d: "dimensions t = 4" and n: "\<forall>n\<in>set (shape t). 0 \<le> n" and i: "0 \<le> i" "i < prod_list (shape t)"
  shows "\<exists>b c y x. coords_in t b c y x \<and> i = element_place t b c y x"
proof -
  have "0 \<notin> set (shape t)" using i by (metis not_less prod_list_zero_iff)
  then have pos: "list_all (\<lambda>n. 0 < n) (shape t)" using n unfolding list_all_iff by (metis order_le_less)
  define xs where "xs = unravelIndexHelper (suffix_products (shape t)) i"
  have xs: "list_all2 (\<lambda>x n. 0 \<le> x \<and> x < n) xs (shape t)" "i = dot xs (suffix_products (shape t))"
    using unravel_bound [OF pos i] dot_unravel [OF pos i] by (simp_all add: xs_def)
  then have "length xs = 4" using d by (auto dest: list_all2_lengthD)
  then obtain x0 x1 x2 x3 where x: "xs = [x0, x1, x2, x3]" by (auto simp: numeral_eq_Suc length_Suc_conv)
  show ?thesis
  proof (cases "dimensionFormat t = FMT_NHWC")
    case True
    then have "coords_in t x0 x3 x1 x2 \<and> i = element_place t x0 x3 x1 x2" using xs unfolding x
      by (simp add: four_axes [OF d] coords_in_def element_place_def row_offset_def computeStride_eq)
    then show ?thesis by blast
  next
    case False
    then have "coords_in t x0 x1 x2 x3 \<and> i = element_place t x0 x1 x2 x3" using xs unfolding x
      by (simp add: four_axes [OF d] coords_in_def element_place_def row_offset_def computeStride_eq)
    then show ?thesis by blast
  qed
qed

lemma two_steps: "[0..2 - 1] = [0, 1 :: int]" "[0..1] = [0, 1 :: int]"
  by (simp_all add: upto_rec1)

lemma space_batch_computes: "\<exists>u. SpaceToBatchNDSizeComputer p [t] [o'] = Some [u]" "\<exists>v. BatchToSpaceNDSizeComputer p [u] [o'] = Some [v]"
  by (cases "space_batch p [t]", simp add: SpaceToBatchNDSizeComputer_def Let_def)
    (cases "space_batch p [u]", simp add: BatchToSpaceNDSizeComputer_def Let_def)

lemma space_to_batch_shape:
  assumes "dimensions t = 4" and "0 < bh" "0 < bw" and "0 \<le> height t + pt + pb" "0 \<le> width t + pl + pr"
    and "SpaceToBatchNDSizeComputer (space_blocks bh bw pt pb pl pr) [t] [o'] = Some [u]"
  shows "dimensions u = 4" "dimensionFormat u = dimensionFormat t" "channel u = channel t" "batch u = batch t * (bh * bw)"
    "height u = (height t + pt + pb) div bh" "width u = (width t + pl + pr) div bw"
proof -
  have sb: "space_batch (space_blocks bh bw pt pb pl pr) [t] = (2, \<lambda>i. [bh, bw] ! nat i, \<lambda>i. [pt, pb, pl, pr] ! nat i)"
    by (simp add: space_batch_def)
  note r = assms(6) [unfolded SpaceToBatchNDSizeComputer_def sb Let_def for_loop_def two_steps prod.case]
  show "dimensions u = 4" "dimensionFormat u = dimensionFormat t" using r assms(1) by (auto split: if_splits)
  show "channel u = channel t" "batch u = batch t * (bh * bw)" using r by (auto simp: channel_def batch_def split: if_splits)
  show "height u = (height t + pt + pb) div bh" "width u = (width t + pl + pr) div bw"
    using r assms(2-5) by (auto simp: height_def width_def cdiv_nonneg split: if_splits)
qed

lemma batch_to_space_shape:
  assumes "dimensions u = 4" and "0 < bh" "0 < bw" and "batch u = n * (bh * bw)" and "0 \<le> n"
    and "BatchToSpaceNDSizeComputer (space_blocks bh bw pt pb pl pr) [u] [o'] = Some [v]"
  shows "dimensions v = 4" "dimensionFormat v = dimensionFormat u" "channel v = channel u" "batch v = n"
    "height v = height u * bh - pt - pb" "width v = width u * bw - pl - pr"
proof -
  have sb: "space_batch (space_blocks bh bw pt pb pl pr) [u] = (2, \<lambda>i. [bh, bw] ! nat i, \<lambda>i. [pt, pb, pl, pr] ! nat i)"
    by (simp add: space_batch_def)
  have "n * (bh * bw) div bh div bw = n" using assms(2,3) by (simp add: zdiv_zmult2_eq [symmetric] mult.assoc)
  then have c: "cdiv (cdiv (batch u) bh) bw = n" using assms(2-5) by (simp add: cdiv_nonneg pos_imp_zdiv_nonneg_iff)
  note r = assms(6) [unfolded BatchToSpaceNDSizeComputer_def sb Let_def for_loop_def two_steps prod.case]
  show "dimensions v = 4" "dimensionFormat v = dimensionFormat u" using r assms(1) by (auto split: if_splits)
  show "channel v = channel u" using r by (auto simp: channel_def split: if_splits)
  show "batch v = n" using r c by (auto simp: batch_def split: if_splits)
  show "height v = height u * bh - pt - pb" "width v = width u * bw - pl - pr"
    using r by (auto simp: height_def width_def split: if_splits)
qed

end
