(* ===== verification/Geo_Props.thy ===== *)
theory Geo_Props
  imports Geo_Concat Geo_Tile Geo_Space Roundtrip_Props Blocks_Props
begin

text \<open>
  What the geometry computers do to the data, together with the shape computers of the same ops: the output has the
  extents that shape inference gives, and copying the regions puts every element where the op's definition has it.
\<close>

section \<open>Permutations\<close>

text \<open>
  C16. Transpose by a permutation: the output's extents are the input's in that order, and the element of the input at
  the coordinates \<open>y\<close> is copied to the coordinates in that order, whatever axes the regions have fused, left out, moved
  to the end or split off.
\<close>

theorem transpose_moves:
  assumes "int (length p) = dimensions t" and "distinct p" and "\<forall>d\<in>set p. 0 \<le> d \<and> d < dimensions t"
    and "\<forall>a. 0 \<le> a \<and> a < dimensions t \<longrightarrow> 0 \<le> y a \<and> y a < extent t a"
  shows "\<exists>u. TransposeComputer [t, int_tensor p] [o'] = Some [u] \<and> shape u = map (extent t) p \<and>
    raster mem (regions (GeometryPermute OpType_Transpose k [t, int_tensor p] des)) out (row_offset (shape u) (map y p)) =
    mem k (row_offset (shape t) (map y [0..dimensions t - 1]))"
proof -
  have d: "dimensions t = int (length p)" using assms(1) by simp
  obtain u where u: "TransposeComputer [t, int_tensor p] [o'] = Some [u]" "shape u = map (extent t) p"
    using transpose_permutes [OF assms(1), of o'] assms(3) by (force split: option.splits)
  have m: "mset p = mset [0..dimensions t - 1]"
    using mset_upto_perm [OF assms(2) assms(3)] assms(1) by simp
  have "map (host_int (int_tensor p)) [0..dimensions t - 1] = p"
    by (rule nth_equalityI) (simp_all add: d host_int_def nth_upto)
  then have g: "GeometryPermute OpType_Transpose k [t, int_tensor p] des = ComputePermuteRegion k t (Some p) des"
    by (simp add: GeometryPermute_def permute_order_def Let_def)
  show ?thesis using u permute_moves [OF m, of y] assms(4) by (auto simp: g shape_def)
qed

theorem transpose_moves_witness:
  "\<exists>u. TransposeComputer [tensor_of FMT_NHWC [2, 3, 5], int_tensor [2, 0, 1]] [tensor_of FMT_NCHW []] = Some [u] \<and> shape u = [5, 2, 3] \<and>
    raster (\<lambda>k i. i) (regions (GeometryPermute OpType_Transpose 0 [tensor_of FMT_NHWC [2, 3, 5], int_tensor [2, 0, 1]] \<lparr>memory_virtual = False, regions = []\<rparr>))
      (\<lambda>i. 0) (row_offset [5, 2, 3] [4, 1, 2]) = row_offset [2, 3, 5] [1, 2, 4]"
proof -
  have e: "\<forall>a. 0 \<le> a \<and> a < dimensions (tensor_of FMT_NHWC [2, 3, 5]) \<longrightarrow>
      0 \<le> ([1, 2, 4] :: int list) ! nat a \<and> ([1, 2, 4] :: int list) ! nat a < extent (tensor_of FMT_NHWC [2, 3, 5]) a"
  proof (intro allI impI)
    fix a :: int assume "0 \<le> a \<and> a < dimensions (tensor_of FMT_NHWC [2, 3, 5])"
    then have "a = 0 \<or> a = 1 \<or> a = 2" by (auto simp: tensor_of_def)
    then show "0 \<le> ([1, 2, 4] :: int list) ! nat a \<and> ([1, 2, 4] :: int list) ! nat a < extent (tensor_of FMT_NHWC [2, 3, 5]) a" by (auto simp: tensor_of_def)
  qed
  have u: "[0..2] = [0, 1, 2 :: int]" by (simp add: upto_rec1)
  show ?thesis
    using transpose_moves [of "[2, 0, 1]" "tensor_of FMT_NHWC [2, 3, 5]" "\<lambda>a. ([1, 2, 4] :: int list) ! nat a" "tensor_of FMT_NCHW []" "\<lambda>k i. i" 0 "\<lparr>memory_virtual = False, regions = []\<rparr>" "\<lambda>i. 0"] e
    by (auto simp: tensor_of_def shape_def u)
qed

section \<open>Conversion\<close>

text \<open>
  C22. Converting a 4-dimensional tensor from channel-first to channel-last and back gives every element back,
  between the shapes the conversion's shape inference gives.
\<close>

theorem convert_data_round_trip:
  assumes "dimensions t = 4" and "dimensionFormat t \<in> {FMT_NCHW, FMT_NC4HW4}" and "\<forall>n\<in>set (shape t). 0 \<le> n"
    and "TensorConvertSizeComputer FMT_NHWC [t] [o1] = Some [u]" and "TensorConvertSizeComputer (dimensionFormat t) [u] [o2] = Some [v]"
    and "mem' k' = raster mem (regions (GeometryConvert k [t] u des)) out" and "0 \<le> i" and "i < prod_list (shape t)"
  shows "shape v = shape t \<and> raster mem' (regions (GeometryConvert k' [u] v des')) out' i = mem k i"
proof -
  have c: "caffe t" using assms(2) by (auto simp: caffe_def)
  have sh: "shape t = [extent t 0, extent t 1, extent t 2, extent t 3]" using assms(1) by (simp add: shape4)
  have e: "dimensions u = 4" "dimensionFormat u = FMT_NHWC" "batch u = batch t" "plane u = plane t" "channel u = channel t"
    using convert_extents [OF assms(1) c assms(4)] by simp_all
  have f: "3 \<le> dimensions t" using assms(1) by simp
  have v: "caffe v" "shape v = shape t"
    using convert_round_trip [OF assms(2) f, of o1 o2] assms(2,4,5) by (auto simp: caffe_def)
  have pos: "0 \<le> batch t" "0 \<le> plane t" "0 \<le> channel t" "prod_list (shape t) = batch t * plane t * channel t"
    using assms(3) c by (auto simp: sh batch_def plane_def channel_def width_def height_def caffe_def)
  show ?thesis using convert_there_and_back [OF assms(1) c e(1,2) v(1) e(3-5) pos(1-3) assms(7)] assms(6,8) v(2) pos(4)
    by (simp add: GeometryConvert_def)
qed

theorem convert_data_round_trip_witness:
  "\<exists>u v. TensorConvertSizeComputer FMT_NHWC [tensor_of FMT_NCHW [1, 3, 2, 2]] [tensor_of FMT_NCHW []] = Some [u] \<and>
    TensorConvertSizeComputer FMT_NCHW [u] [tensor_of FMT_NCHW []] = Some [v] \<and>
    raster (\<lambda>_. raster (\<lambda>k i. i) (regions (GeometryConvert 0 [tensor_of FMT_NCHW [1, 3, 2, 2]] u \<lparr>memory_virtual = False, regions = []\<rparr>)) (\<lambda>i. 0))
      (regions (GeometryConvert 1 [u] v \<lparr>memory_virtual = False, regions = []\<rparr>)) (\<lambda>i. 0) 7 = (7 :: int)"
proof -
  let ?t = "tensor_of FMT_NCHW [1, 3, 2, 2]" and ?o = "tensor_of FMT_NCHW []"
  obtain u v where uv: "TensorConvertSizeComputer FMT_NHWC [?t] [?o] = Some [u]" "TensorConvertSizeComputer FMT_NCHW [u] [?o] = Some [v]"
    using convert_round_trip [of ?t ?o ?o] by (auto simp: tensor_of_def)
  have t: "dimensions ?t = 4" "dimensionFormat ?t = FMT_NCHW" "shape ?t = [1, 3, 2, 2]" by (simp_all add: shape4 tensor_of_def)
  have "raster (\<lambda>_. raster (\<lambda>k i. i) (regions (GeometryConvert 0 [?t] u \<lparr>memory_virtual = False, regions = []\<rparr>)) (\<lambda>i. 0))
      (regions (GeometryConvert 1 [u] v \<lparr>memory_virtual = False, regions = []\<rparr>)) (\<lambda>i. 0) 7 = (7 :: int)"
    by (rule convert_data_round_trip [of ?t ?o u ?o v, THEN conjunct2]) (simp_all add: t uv)
  then show ?thesis using uv by blast
qed

section \<open>Blocks\<close>

lemma block_shapes_computed:
  assumes "dimensions t = 4" "0 < b" "b dvd height t" "b dvd width t" "SpaceToDepthSizeComputer b [t] [o1] = Some [u]"
  shows "block_shapes b u t \<and> dimensions u = 4"
proof -
  obtain h w where hw: "height t = b * h" "width t = b * w" using assms(3,4) by (auto elim!: dvdE)
  have c: "cdiv (b * h) b = h" "cdiv (b * w) b = w" using cdiv_mult_self [of b] assms(2) by simp_all
  show ?thesis
  proof (cases "dimensionFormat t = FMT_NHWC")
    case True
    then have "extent t 1 = b * h" "extent t 2 = b * w" using hw by (simp_all add: height_def width_def)
    then show ?thesis using True assms(1,5) hw c
      by (auto simp: SpaceToDepthSizeComputer_def Let_def block_shapes_def height_def width_def channel_def batch_def mult.commute)
  next
    case False
    then have "extent t 2 = b * h" "extent t 3 = b * w" using hw by (simp_all add: height_def width_def)
    then show ?thesis using False assms(1,5) hw c
      by (auto simp: SpaceToDepthSizeComputer_def Let_def block_shapes_def height_def width_def channel_def batch_def mult.commute)
  qed
qed

lemma block_shapes_back:
  assumes "0 < b" "channel u = c * (b * b)" "DepthToSpaceSizeComputer b [u] [o2] = Some [v]"
  shows "block_shapes b u v"
proof -
  have "cdiv (channel u) (b * b) = c" unfolding assms(2) using cdiv_mult_self [of "b * b" c] assms(1) by (simp add: mult.commute)
  then show ?thesis using assms(2,3)
    by (auto simp: DepthToSpaceSizeComputer_def Let_def block_shapes_def height_def width_def channel_def batch_def split: if_splits)
qed

text \<open>
  C19. Moving \<open>b * b\<close> blocks of a 4-dimensional tensor into the channel and back, in either layout and either order of
  the channels, gives the shape back and every element.
\<close>

theorem space_to_depth_data_round_trip:
  assumes "dimensions t = 4" and "0 < b" and "b dvd height t" and "b dvd width t" and "\<forall>n\<in>set (shape t). 0 \<le> n"
    and "SpaceToDepthSizeComputer b [t] [o1] = Some [u]" and "DepthToSpaceSizeComputer b [u] [o2] = Some [v]"
    and "mem' k' = raster mem (regions (GeometryDepthToSpace True mode b k t u des)) out" and "0 \<le> i" and "i < prod_list (shape t)"
  shows "shape v = shape t \<and> raster mem' (regions (GeometryDepthToSpace False mode b k' u v des')) out' i = mem k i"
proof -
  have s: "shape v = shape t" "prod_list (shape u) = prod_list (shape t)"
    using space_to_depth_round_trip [OF assms(1-4), of o1 o2] assms(6,7) by auto
  have b: "block_shapes b u t" "dimensions u = 4" using block_shapes_computed [OF assms(1-4,6)] by simp_all
  then have c: "channel u = channel t * (b * b)" by (simp add: block_shapes_def)
  have bv: "block_shapes b u v" by (rule block_shapes_back [OF assms(2) c assms(7)])
  have "0 \<le> height u" "0 \<le> width u" if "0 \<le> height t" "0 \<le> width t"
    using that b(1) assms(2) by (auto simp: block_shapes_def zero_le_mult_iff)
  moreover have "0 \<le> batch t" "0 \<le> channel t" "0 \<le> height t" "0 \<le> width t"
    using assms(5) by (simp_all add: shape4 [OF assms(1)] batch_def channel_def height_def width_def)
  ultimately have pos: "extents_pos u" using b(1) c by (simp add: extents_pos_def block_shapes_def)
  have "prod_list (shape u) = batch u * channel u * (height u * width u)"
    using shape4 [OF b(2)] by (simp add: batch_def channel_def height_def width_def mult_ac')
  then have i: "i < batch u * channel u * (height u * width u)" using assms(10) s(2) by simp
  show ?thesis using blocks_there_and_back [of b u t v] b(1) bv assms(2,8,9) pos i s(1) by blast
qed

theorem space_to_depth_data_round_trip_witness:
  "\<exists>u v. SpaceToDepthSizeComputer 2 [tensor_of FMT_NCHW [1, 3, 4, 6]] [tensor_of FMT_NCHW []] = Some [u] \<and>
    DepthToSpaceSizeComputer 2 [u] [tensor_of FMT_NCHW []] = Some [v] \<and>
    raster (\<lambda>_. raster (\<lambda>k i. i) (regions (GeometryDepthToSpace True DepthToSpaceMode_DCR 2 0 (tensor_of FMT_NCHW [1, 3, 4, 6]) u \<lparr>memory_virtual = False, regions = []\<rparr>)) (\<lambda>i. 0))
      (regions (GeometryDepthToSpace False DepthToSpaceMode_DCR 2 1 u v \<lparr>memory_virtual = False, regions = []\<rparr>)) (\<lambda>i. 0) 70 = (70 :: int)"
proof -
  let ?t = "tensor_of FMT_NCHW [1, 3, 4, 6]" and ?o = "tensor_of FMT_NCHW []"
  have t: "dimensions ?t = 4" "height ?t = 4" "width ?t = 6" "shape ?t = [1, 3, 4, 6]"
    by (simp_all add: shape4 tensor_of_def height_def width_def)
  obtain u v where uv: "SpaceToDepthSizeComputer 2 [?t] [?o] = Some [u]" "DepthToSpaceSizeComputer 2 [u] [?o] = Some [v]"
    using space_to_depth_round_trip [of ?t 2 ?o ?o] t by auto
  have "raster (\<lambda>_. raster (\<lambda>k i. i) (regions (GeometryDepthToSpace True DepthToSpaceMode_DCR 2 0 ?t u \<lparr>memory_virtual = False, regions = []\<rparr>)) (\<lambda>i. 0))
      (regions (GeometryDepthToSpace False DepthToSpaceMode_DCR 2 1 u v \<lparr>memory_virtual = False, regions = []\<rparr>)) (\<lambda>i. 0) 70 = (70 :: int)"
    by (rule space_to_depth_data_round_trip [of ?t 2 ?o u ?o v, THEN conjunct2]) (simp_all add: t uv)
  then show ?thesis using uv by blast
qed

section \<open>Cutting and joining\<close>

lemma shape_split:
  assumes "0 \<le> axis" "axis < dimensions t"
  shows "prod_list (shape t) = extents_product t 0 axis * extent t axis * extents_product t (axis + 1) (dimensions t)"
proof -
  have "extents_product t 0 (dimensions t) = extents_product t 0 axis * extents_product t axis (dimensions t)"
    by (rule extents_product_split) (use assms in simp_all)
  then show ?thesis using extents_product_step [of axis "dimensions t" t] assms by (simp add: shape_def extents_product_eq)
qed

lemma extents_product_nonneg: "(\<And>i. a \<le> i \<Longrightarrow> i < b \<Longrightarrow> 0 \<le> extent t i) \<Longrightarrow> 0 \<le> extents_product t a b"
  unfolding extents_product_eq by (rule prod_list_nonneg) auto

lemma extents_product_cong: "(\<And>i. a \<le> i \<Longrightarrow> i < b \<Longrightarrow> extent t i = extent u i) \<Longrightarrow> extents_product t a b = extents_product u a b"
  unfolding extents_product_eq by (rule arg_cong [of _ _ prod_list]) simp

lemma slice_regions:
  assumes "0 \<le> axis" "0 < elementSize t"
  shows "map regions (GeometrySlice fix axis k t outs) =
    map (\<lambda>r. [r]) (slice_at fix axis (extents_product t 0 axis) (extents_product t (axis + 1) (dimensions t)) (extent t axis) k 0 (map fst outs))"
proof -
  have "GeometrySlice fix axis k t outs = snd (fold (\<lambda>(output, des) (offset, dess). let n = (if fix then 1 else extent output axis)
      in (offset + n, dess @ [describe [slice_region (extents_product t 0 axis) (extents_product t (axis + 1) (dimensions t)) (extent t axis) k offset n] des])) outs (0, []))"
    using assms unfolding GeometrySlice_def Let_def by (simp add: not_le)
  then show ?thesis by (simp add: slice_fold)
qed

lemma same_shape:
  assumes "shape v = shape t" "0 < dimensions t"
  shows "dimensions v = dimensions t" "0 \<le> i \<Longrightarrow> i < dimensions t \<Longrightarrow> extent v i = extent t i"
proof -
  have "nat (dimensions v) = nat (dimensions t)" using arg_cong [OF assms(1), of length] by simp
  then show d: "dimensions v = dimensions t" using assms(2) by simp
  show "extent v i = extent t i" if "0 \<le> i" "i < dimensions t"
    using nth_shape [of i v] nth_shape [of i t] that assms(1) d by simp
qed

lemma length_slice_at [simp]: "length (slice_at fix axis outside inside len k off ts) = length ts"
  by (induction ts arbitrary: off) (simp_all add: Let_def)

text \<open>The pieces of a tensor along an axis: everything but the axis extent is the tensor's.\<close>

definition piece_of :: "int \<Rightarrow> Tensor \<Rightarrow> Tensor \<Rightarrow> bool" where
  "piece_of axis t p \<longleftrightarrow> dimensions p = dimensions t \<and> ttype p = ttype t \<and> dimensionFormat p = dimensionFormat t \<and>
     0 \<le> extent p axis \<and> (\<forall>i. 0 \<le> i \<and> i < dimensions t \<and> i \<noteq> axis \<longrightarrow> extent p i = extent t i)"

lemma piece_elements:
  assumes a: "0 \<le> axis" "axis < dimensions t" and f: "dimensionFormat t \<noteq> FMT_NC4HW4" "0 < type_bytes (ttype t)" and p: "piece_of axis t p"
  shows "elementSize p = extents_product t 0 axis * extent p axis * extents_product t (axis + 1) (dimensions t)"
proof -
  have "elementSize p = prod_list (shape p)" using p f by (intro elementSize_prod) (auto simp: piece_of_def)
  also have "\<dots> = extents_product p 0 axis * extent p axis * extents_product p (axis + 1) (dimensions p)"
    by (rule shape_split) (use a p in \<open>simp_all add: piece_of_def\<close>)
  also have "extents_product p 0 axis = extents_product t 0 axis" by (rule extents_product_cong) (use a p in \<open>auto simp: piece_of_def\<close>)
  also have "extents_product p (axis + 1) (dimensions p) = extents_product t (axis + 1) (dimensions t)"
    using extents_product_cong [of "axis + 1" "dimensions t" p t] a p by (auto simp: piece_of_def)
  finally show ?thesis .
qed

lemma pieces_held:
  assumes a: "0 \<le> axis" "0 < elementSize t" and l: "length ks = length parts" "length dess = length parts"
    and m: "\<And>j. j < length parts \<Longrightarrow> \<exists>out. mem (ks ! j) = raster mem0 (regions (GeometrySlice False axis k t (zip parts dess) ! j)) out"
  shows "pieces_of mem mem0 (zip ks parts) (slice_at False axis (extents_product t 0 axis) (extents_product t (axis + 1) (dimensions t)) (extent t axis) k 0 parts)"
proof -
  let ?rs = "slice_at False axis (extents_product t 0 axis) (extents_product t (axis + 1) (dimensions t)) (extent t axis) k 0 parts"
  have r: "map regions (GeometrySlice False axis k t (zip parts dess)) = map (\<lambda>r. [r]) ?rs"
    using slice_regions [OF a, of False k "zip parts dess"] l by simp
  have "length (map regions (GeometrySlice False axis k t (zip parts dess))) = length parts" unfolding r by simp
  then have len: "length (GeometrySlice False axis k t (zip parts dess)) = length parts" by simp
  have "regions (GeometrySlice False axis k t (zip parts dess) ! j) = [?rs ! j]" if "j < length parts" for j
    using arg_cong [OF r, of "\<lambda>xs. xs ! j"] that len by simp
  then show ?thesis unfolding pieces_of_def using m l by (simp add: list_all2_conv_all_nth)
qed

lemma concat_joins:
  assumes a: "0 \<le> axis" "axis < dimensions t" and f: "dimensionFormat t \<noteq> FMT_NC4HW4" "0 < type_bytes (ttype t)"
    and ext: "\<And>i. 0 \<le> i \<Longrightarrow> i < dimensions t \<Longrightarrow> 0 \<le> extent t i"
    and p: "\<And>p. p \<in> set parts \<Longrightarrow> piece_of axis t p" and sum: "sum_list (map (\<lambda>p. extent p axis) parts) = extent t axis"
    and v: "shape v = shape t" and l: "length ks = length parts" "length dess = length parts"
    and m: "\<And>j. j < length parts \<Longrightarrow> \<exists>out. mem (ks ! j) = raster mem0 (regions (GeometrySlice False axis k t (zip parts dess) ! j)) out"
    and i: "0 \<le> i" "i < prod_list (shape t)"
  shows "raster mem (regions (GeometryConcat False axis (zip ks parts) v des)) out i = mem0 k i"
proof -
  let ?out = "extents_product t 0 axis" and ?in = "extents_product t (axis + 1) (dimensions t)" and ?len = "extent t axis"
  have d: "dimensions v = dimensions t" and e: "\<And>i. 0 \<le> i \<Longrightarrow> i < dimensions t \<Longrightarrow> extent v i = extent t i"
    using same_shape [OF v] a by simp_all
  have sp: "prod_list (shape t) = ?out * ?len * ?in" by (rule shape_split [OF a])
  have "0 \<le> ?out" "0 \<le> ?in" "0 \<le> ?len" by (rule extents_product_nonneg, rule ext; use a in simp)+ (rule ext [OF a])
  moreover have "?out \<noteq> 0" "?in \<noteq> 0" "?len \<noteq> 0" using i unfolding sp by auto
  ultimately have pos: "0 < ?out" "0 < ?in" "0 < ?len" by simp_all
  have "elementSize t = prod_list (shape t)" using f by (intro elementSize_prod) simp_all
  then have el: "0 < elementSize t" using i by simp
  have ev: "extents_product v 0 axis = ?out" "extents_product v (axis + 1) (dimensions v) = ?in" "extent v axis = ?len"
    using extents_product_cong [of 0 axis v t] extents_product_cong [of "axis + 1" "dimensions t" v t] a e d by simp_all
  have na: "(if axis < 0 then dimensions v + axis else axis) = axis" "(?out \<le> 0 \<or> ?in \<le> 0 \<or> ?len \<le> 0) = False" using a pos by simp_all
  have c: "regions (GeometryConcat False axis (zip ks parts) v des) = concat_at False axis ?out ?in ?len 0 (zip ks parts)"
    unfolding GeometryConcat_def Let_def na(1) ev na(2) if_False regions_describe concat_fold [unfolded Let_def] append_Nil ..
  have "0 \<le> extent q axis \<and> (elementSize q = 0 \<longrightarrow> extent q axis = 0)" if "q \<in> set parts" for q
    using piece_elements [OF a f p [OF that]] p [OF that] pos by (auto simp: piece_of_def)
  then have z: "\<forall>(k, q)\<in>set (zip ks parts). 0 \<le> step_of False axis q \<and> (elementSize q = 0 \<longrightarrow> step_of False axis q = 0)"
    by (auto dest: set_zip_rightD)
  have "sum_list (map (\<lambda>(k, q). step_of False axis q) (zip ks parts)) = sum_list (map (\<lambda>p. extent p axis) (map snd (zip ks parts)))"
    by (simp add: comp_def split_def)
  then have s: "sum_list (map (\<lambda>(k, q). step_of False axis q) (zip ks parts)) = ?len" using sum l by simp
  show ?thesis unfolding c
    by (rule concat_of_slices [OF _ _ z s]) (use pos pieces_held [OF a(1) el l m] l i in \<open>simp_all add: sp less_imp_le\<close>)
qed

text \<open>
  C14. Cutting a tensor along an axis into pieces that add up to its extent and joining the pieces: shape inference
  gives the pieces' shapes and the shape back, and copying the regions of the slices and then those of the
  concatenation gives every element back, wherever the pieces' memory comes from.
\<close>

theorem slice_then_concat_data:
  assumes "0 \<le> axis" and "axis < dimensions t" and "\<forall>p\<in>set points. 0 \<le> p"
    and "sum_list points = extent t axis" and "2 \<le> length points" and "length outs = length points"
    and "dimensionFormat t \<noteq> FMT_NC4HW4" and "0 < type_bytes (ttype t)" and "\<forall>n\<in>set (shape t). 0 \<le> n"
  shows "\<exists>parts v. SliceComputer \<lparr>slice_axis = axis, slicePoints = Some points, sourceType = NetSource_ONNX\<rparr> [t] outs = Some parts \<and>
    ConcatSizeComputer axis parts [o'] = Some [v] \<and> shape v = shape t \<and>
    (\<forall>ks dess. length ks = length parts \<and> length dess = length parts \<and>
      (\<forall>j<length parts. \<exists>out. mem (ks ! j) = raster mem0 (regions (GeometrySlice False axis k t (zip parts dess) ! j)) out) \<longrightarrow>
      (\<forall>i. 0 \<le> i \<and> i < prod_list (shape t) \<longrightarrow>
        raster mem (regions (GeometryConcat False axis (zip ks parts) v des)) out i = mem0 k i))"
proof -
  obtain parts v where s: "SliceComputer \<lparr>slice_axis = axis, slicePoints = Some points, sourceType = NetSource_ONNX\<rparr> [t] outs = Some parts"
    and sh: "map shape parts = map (\<lambda>p. (shape t)[nat axis := p]) points"
    and ty: "\<forall>p\<in>set parts. dimensions p = dimensions t \<and> ttype p = ttype t \<and> dimensionFormat p = dimensionFormat t"
    and c: "ConcatSizeComputer axis parts [o'] = Some [v]" "shape v = shape t"
    using slice_then_concat [OF assms(1-6), of o'] by blast
  have ext: "0 \<le> extent t i" if "0 \<le> i" "i < dimensions t" for i using assms(9) that by (auto simp: shape_def)
  have len: "length parts = length points" using arg_cong [OF sh, of length] by simp
  have pe: "shape (parts ! j) = (shape t)[nat axis := points ! j]" if "j < length parts" for j
    using arg_cong [OF sh, of "\<lambda>xs. xs ! j"] that len by simp
  have ax: "extent (parts ! j) axis = points ! j" if "j < length parts" for j
    using nth_shape [of axis "parts ! j"] pe [OF that] assms(1,2) ty that by simp
  have p: "piece_of axis t q" if q: "q \<in> set parts" for q
  proof -
    obtain j where j: "j < length parts" "q = parts ! j" using q by (auto simp: in_set_conv_nth)
    have "extent q i = extent t i" if "0 \<le> i" "i < dimensions t" "i \<noteq> axis" for i
      using nth_shape [of i q] nth_shape [of i t] pe [OF j(1)] ty j that assms(1) by simp
    then show ?thesis using ty q ax [OF j(1)] assms(3) j len by (auto simp: piece_of_def)
  qed
  have "map (\<lambda>p. extent p axis) parts = points" by (rule nth_equalityI) (simp_all add: len ax)
  then have "sum_list (map (\<lambda>p. extent p axis) parts) = extent t axis" using assms(4) by simp
  from concat_joins [OF assms(1,2,7,8) ext p this c(2)] show ?thesis using s c by blast
qed

theorem slice_then_concat_data_witness:
  "\<exists>parts v. SliceComputer \<lparr>slice_axis = 1, slicePoints = Some [1, 3], sourceType = NetSource_ONNX\<rparr> [tensor_of FMT_NCHW [2, 4]]
      [tensor_of FMT_NCHW [], tensor_of FMT_NCHW []] = Some parts \<and>
    ConcatSizeComputer 1 parts [tensor_of FMT_NCHW []] = Some [v] \<and> shape v = [2, 4] \<and>
    raster (\<lambda>j. raster (\<lambda>k i. i) (regions (GeometrySlice False 1 9 (tensor_of FMT_NCHW [2, 4])
        (zip parts (replicate 2 \<lparr>memory_virtual = False, regions = []\<rparr>)) ! j)) (\<lambda>i. 0))
      (regions (GeometryConcat False 1 (zip [0, 1] parts) v \<lparr>memory_virtual = False, regions = []\<rparr>)) (\<lambda>i. 0) 6 = (6 :: int)"
proof -
  let ?t = "tensor_of FMT_NCHW [2, 4]" and ?o = "tensor_of FMT_NCHW []" and ?d = "\<lparr>memory_virtual = False, regions = []\<rparr>"
  let ?mem = "\<lambda>parts j. raster (\<lambda>k i. i :: int) (regions (GeometrySlice False 1 9 ?t (zip parts (replicate 2 ?d)) ! j)) (\<lambda>i. 0)"
  have t: "dimensions ?t = 2" "extent ?t 1 = 4" "dimensionFormat ?t = FMT_NCHW" "shape ?t = [2, 4]" 
    by (simp_all add: tensor_of_def shape_def upto.simps)
  have b: "0 < type_bytes type_float" by code_simp
  obtain parts where p: "SliceComputer \<lparr>slice_axis = 1, slicePoints = Some [1, 3], sourceType = NetSource_ONNX\<rparr> [?t] [?o, ?o] = Some parts"
    "map shape parts = [[2, 1], [2, 3]]"
    using slice_then_concat [of 1 ?t "[1, 3]" "[?o, ?o]" ?o] by (auto simp: t)
  have l: "length parts = 2" using arg_cong [OF p(2), of length] by simp
  have "\<exists>parts' v. SliceComputer \<lparr>slice_axis = 1, slicePoints = Some [1, 3], sourceType = NetSource_ONNX\<rparr> [?t] [?o, ?o] = Some parts' \<and>
    ConcatSizeComputer 1 parts' [?o] = Some [v] \<and> shape v = shape ?t \<and>
    (\<forall>ks dess. length ks = length parts' \<and> length dess = length parts' \<and>
      (\<forall>j<length parts'. \<exists>out. ?mem parts (ks ! j) = raster (\<lambda>k i. i) (regions (GeometrySlice False 1 9 ?t (zip parts' dess) ! j)) out) \<longrightarrow>
      (\<forall>i. 0 \<le> i \<and> i < prod_list (shape ?t) \<longrightarrow>
        raster (?mem parts) (regions (GeometryConcat False 1 (zip ks parts') v ?d)) (\<lambda>i. 0) i = i))"
    by (rule slice_then_concat_data) (simp_all add: t b)
  then obtain v where v: "ConcatSizeComputer 1 parts [?o] = Some [v]" "shape v = [2, 4]"
    and r: "\<forall>ks dess. length ks = 2 \<and> length dess = 2 \<and>
      (\<forall>j<2. \<exists>out. ?mem parts (ks ! j) = raster (\<lambda>k i. i) (regions (GeometrySlice False 1 9 ?t (zip parts dess) ! j)) out) \<longrightarrow>
      (\<forall>i. 0 \<le> i \<and> i < prod_list [2, 4] \<longrightarrow> raster (?mem parts) (regions (GeometryConcat False 1 (zip ks parts) v ?d)) (\<lambda>i. 0) i = i)"
    unfolding p(1) t(4) using l by auto
  have "\<forall>j<2. \<exists>out. ?mem parts ([0, 1] ! j) = raster (\<lambda>k i. i) (regions (GeometrySlice False 1 9 ?t (zip parts (replicate 2 ?d)) ! j)) out"
    by (metis less_2_cases_iff nth_Cons_0 nth_Cons_Suc One_nat_def)
  then have "raster (?mem parts) (regions (GeometryConcat False 1 (zip [0, 1] parts) v ?d)) (\<lambda>i. 0) 6 = 6"
    using r [rule_format, of "[0, 1]" "replicate 2 ?d" 6] by simp
  then show ?thesis using p(1) v by blast
qed

section \<open>Repeating\<close>



text \<open>
  C23. Tiling a tensor without zero extents by positive multiples: shape inference multiplies the extents; when the
  numbers of axes above 1 and of multiples above 1 add up to at most \<open>MNN_MAX_TENSOR_DIM\<close>, no entry is written behind
  the arrays of the axes; and unless one is, the element of the output at any coordinates is the input's at the
  coordinates modulo the input's extents, whatever the status machine has joined.
\<close>

theorem tile_repeats:
  assumes "0 \<le> dimensions t" and "\<forall>i. 0 \<le> i \<and> i < dimensions t \<longrightarrow> 0 < extent t i \<and> 0 < host_int m i"
  shows "\<exists>u. TileComputer [t, m] [o'] = Some [u] \<and> shape u = map (\<lambda>i. extent t i * host_int m i) [0..dimensions t - 1] \<and>
    (case GeometryTile k [t, m] u des of
       None \<Rightarrow> MNN_MAX_TENSOR_DIM < int (axis_entries t (host_int m) [0..dimensions t - 1])
     | Some des' \<Rightarrow> \<forall>xs. list_all2 (\<lambda>x n. 0 \<le> x \<and> x < n) xs (shape u) \<longrightarrow>
         raster mem (regions des') out (row_offset (shape u) xs) =
         mem k (row_offset (shape t) (map2 (\<lambda>n x. x mod n) (shape t) xs)))"
proof -
  obtain u where u: "TileComputer [t, m] [o'] = Some [u]" "dimensions u = dimensions t"
    "\<And>i. 0 \<le> i \<Longrightarrow> i < dimensions t \<Longrightarrow> extent u i = extent t i * host_int m i"
    by (simp add: TileComputer_def Let_def)
  have "tiled t (host_int m) u" using assms u(2,3) by (simp add: tiled_def)
  moreover have "shape u = map (\<lambda>i. extent t i * host_int m i) [0..dimensions t - 1]" by (simp add: shape_def u(2,3))
  ultimately show ?thesis using u(1) tile_reads [of t m u, where k = k and des = des and mem = mem and out = out] unfolding wrap_def by blast
qed

theorem tile_repeats_witness:
  "\<exists>u des'. TileComputer [tensor_of FMT_NCHW [2, 1, 3], int_tensor [1, 4, 2]] [tensor_of FMT_NCHW []] = Some [u] \<and> shape u = [2, 4, 6] \<and>
    GeometryTile 0 [tensor_of FMT_NCHW [2, 1, 3], int_tensor [1, 4, 2]] u \<lparr>memory_virtual = False, regions = []\<rparr> = Some des' \<and>
    raster (\<lambda>k i. i) (regions des') (\<lambda>i. 0) (row_offset [2, 4, 6] [1, 3, 5]) = row_offset [2, 1, 3] [1, 0, 2]"
proof -
  let ?t = "tensor_of FMT_NCHW [2, 1, 3]" and ?m = "int_tensor [1, 4, 2]" and ?d = "\<lparr>memory_virtual = False, regions = []\<rparr>"
  have t: "dimensions ?t = 3" "shape ?t = [2, 1, 3]" by (simp_all add: tensor_of_def shape_def upto.simps)
  have "0 < extent ?t i \<and> 0 < host_int ?m i" if i: "0 \<le> i" "i < 3" for i
  proof -
    have "i = 0 \<or> i = 1 \<or> i = 2" using i by auto
    then show ?thesis by (auto simp: tensor_of_def host_int_def)
  qed
  then obtain u where u: "TileComputer [?t, ?m] [tensor_of FMT_NCHW []] = Some [u]"
      "shape u = map (\<lambda>i. extent ?t i * host_int ?m i) [0..dimensions ?t - 1]"
      "case GeometryTile 0 [?t, ?m] u ?d of
         None \<Rightarrow> MNN_MAX_TENSOR_DIM < int (axis_entries ?t (host_int ?m) [0..dimensions ?t - 1])
       | Some des' \<Rightarrow> \<forall>xs. list_all2 (\<lambda>x n. 0 \<le> x \<and> x < n) xs (shape u) \<longrightarrow>
           raster (\<lambda>k i. i) (regions des') (\<lambda>i. 0) (row_offset (shape u) xs) =
           row_offset (shape ?t) (map2 (\<lambda>n x. x mod n) (shape ?t) xs)"
    using tile_repeats [of ?t ?m, where o' = "tensor_of FMT_NCHW []" and k = 0 and des = ?d and mem = "\<lambda>k i. i" and out = "\<lambda>i. 0"] by (auto simp: t)
  have s: "shape u = [2, 4, 6]" unfolding u(2) by code_simp
  have "int (axis_entries ?t (host_int ?m) [0..dimensions ?t - 1]) = 4" by code_simp
  then obtain des' where "GeometryTile 0 [?t, ?m] u ?d = Some des'" using u(3) by (cases "GeometryTile 0 [?t, ?m] u ?d") (simp_all add: MNN_MAX_TENSOR_DIM_def)
  then show ?thesis using u(1,3) s by (auto simp: t dest!: spec [of _ "[1, 3, 5]"])
qed

section \<open>Space and batch\<close>

lemma space_shapes_computed:
  assumes "dimensions t = 4" and "dimensionFormat t = FMT_NHWC \<longrightarrow> batch t = 1" and "0 < batch t" and "\<forall>n\<in>set (shape t). 0 \<le> n"
    and "0 < bh" and "0 < bw" and "0 \<le> pt" "0 \<le> pb" "0 \<le> pl" "0 \<le> pr"
    and "SpaceToBatchNDSizeComputer (space_blocks bh bw pt pb pl pr) [t] [o'] = Some [u]"
  shows "space_shapes t u bh bw" "height u = (height t + pt + pb) div bh" "width u = (width t + pl + pr) div bw" "0 \<le> height t" "0 \<le> width t"
proof -
  show h: "0 \<le> height t" "0 \<le> width t" using assms(4) by (simp_all add: shape4 [OF assms(1)] height_def width_def)
  note S = space_to_batch_shape [OF assms(1,5,6) _ _ assms(11)]
  show "space_shapes t u bh bw" using S h assms by (simp add: space_shapes_def)
  show "height u = (height t + pt + pb) div bh" "width u = (width t + pl + pr) div bw" using S h assms by simp_all
qed

text \<open>
  C7. Space to batch with blocks of \<open>bh * bw\<close>, of a tensor whose channels come first or of one image in any layout:
  the batch is multiplied by the size of a block, height and width are the padded ones divided by the block. The
  element \<open>(b, c, y, x)\<close> of the output, with \<open>r = b div batch t\<close>, is the input's of the image \<open>b mod batch t\<close> in
  the row \<open>y * bh + r div bw - pt\<close> and the column \<open>x * bw + r mod bw - pl\<close> plus a shift; where row and column
  (without the shift) lie outside of the image, nothing is written. The shift, which comes from a start of the
  columns that is computed from the rows, is 0 when the paddings above and on the left are the same multiple of
  the blocks, so without paddings.
\<close>

theorem space_to_batch_elements:
  assumes "dimensions t = 4" and "dimensionFormat t = FMT_NHWC \<longrightarrow> batch t = 1" and "0 < batch t" and "\<forall>n\<in>set (shape t). 0 \<le> n"
    and "0 < bh" and "0 < bw" and "0 \<le> pt" "0 \<le> pb" "0 \<le> pl" "0 \<le> pr"
    and "SpaceToBatchNDSizeComputer (space_blocks bh bw pt pb pl pr) [t] [o'] = Some [u]"
  shows "batch u = batch t * (bh * bw) \<and> height u = (height t + pt + pb) div bh \<and> width u = (width t + pl + pr) div bw \<and> channel u = channel t \<and>
    (\<forall>b c y x. coords_in u b c y x \<longrightarrow>
      (let r = b div batch t; row = image_row bh bw pt r y; col = image_column bw pl r x; shift = column_shift bh bw pt pl r
       in raster mem (regions (GeometrySpaceToBatchND False (space_blocks bh bw pt pb pl pr) k [t] u des)) out (element_place u b c y x) =
            (if in_image t row col then mem k (element_place t (b mod batch t) c row (col + shift)) else out (element_place u b c y x)) \<and>
          (\<forall>a\<ge>0. pt = a * bh \<and> pl = a * bw \<longrightarrow> shift = 0)))"
proof -
  note S = space_shapes_computed [OF assms]
  note D = space_shapesD [OF S(1)]
  have "column_shift bh bw pt pl (b div batch t) = 0"
    if "coords_in u b c y x" "0 \<le> a" "pt = a * bh" "pl = a * bw" for a b c y x
  proof -
    have "0 \<le> b div batch t" "b div batch t < bh * bw"
      using that(1) D(5,6) by (simp_all add: coords_in_def pos_imp_zdiv_nonneg_iff div_less_of_mult mult.commute)
    then show ?thesis using column_shift_0 [OF assms(5,6) that(2)] that(3,4) by simp
  qed
  then show ?thesis unfolding Let_def using space_to_batch_reads [OF S(1) assms(7,9)] S(2,3) D(4,5) by blast
qed

theorem space_to_batch_elements_witness:
  "\<exists>u. SpaceToBatchNDSizeComputer (space_blocks 2 2 2 0 2 0) [tensor_of FMT_NCHW [1, 1, 2, 4]] [tensor_of FMT_NCHW []] = Some [u] \<and>
    batch u = 4 \<and> height u = 2 \<and> width u = 3 \<and>
    raster (\<lambda>k i. i) (regions (GeometrySpaceToBatchND False (space_blocks 2 2 2 0 2 0) 0 [tensor_of FMT_NCHW [1, 1, 2, 4]] u \<lparr>memory_virtual = False, regions = []\<rparr>))
      (\<lambda>i. -1) (element_place u 3 0 1 2) = element_place (tensor_of FMT_NCHW [1, 1, 2, 4]) 0 0 1 3"
proof -
  let ?t = "tensor_of FMT_NCHW [1, 1, 2, 4]" and ?sb = "space_blocks 2 2 2 0 2 0" and ?d = "\<lparr>memory_virtual = False, regions = []\<rparr>"
  obtain u where u: "SpaceToBatchNDSizeComputer ?sb [?t] [tensor_of FMT_NCHW []] = Some [u]"
    using space_batch_computes(1) by blast
  have t: "dimensions ?t = 4" "dimensionFormat ?t = FMT_NCHW" "batch ?t = 1" "height ?t = 2" "width ?t = 4" "channel ?t = 1" "shape ?t = [1, 1, 2, 4]"
    by (simp_all add: shape4 tensor_of_def batch_def height_def width_def channel_def)
  have e: "batch u = batch ?t * (2 * 2) \<and> height u = (height ?t + 2 + 0) div 2 \<and> width u = (width ?t + 2 + 0) div 2 \<and> channel u = channel ?t \<and>
    (\<forall>b c y x. coords_in u b c y x \<longrightarrow>
      (let r = b div batch ?t; row = image_row 2 2 2 r y; col = image_column 2 2 r x; shift = column_shift 2 2 2 2 r
       in raster (\<lambda>k i. i) (regions (GeometrySpaceToBatchND False ?sb 0 [?t] u ?d)) (\<lambda>i. -1) (element_place u b c y x) =
            (if in_image ?t row col then element_place ?t (b mod batch ?t) c row (col + shift) else -1) \<and>
          (\<forall>a\<ge>0 :: int. 2 = a * 2 \<and> 2 = a * 2 \<longrightarrow> shift = 0)))"
    by (rule space_to_batch_elements [OF _ _ _ _ _ _ _ _ _ _ u]) (simp_all add: t)
  have c: "coords_in u 3 0 1 2" using e by (simp add: coords_in_def t)
  have "raster (\<lambda>k i. i) (regions (GeometrySpaceToBatchND False ?sb 0 [?t] u ?d)) (\<lambda>i. -1) (element_place u 3 0 1 2) =
      element_place ?t 0 0 1 (3 + column_shift 2 2 2 2 3)" and "column_shift 2 2 2 2 3 = 0"
    using conjunct2 [OF conjunct2 [OF conjunct2 [OF conjunct2 [OF e]]], rule_format, OF c]
    by (simp_all add: Let_def t image_row_def image_column_def in_image_def)
  then show ?thesis using u e by (simp add: t)
qed

text \<open>
  C30. Into the batch and out of it again, with paddings above and on the left that are the same multiple of the
  blocks and with the padded height and width divided by them: the shape and every element come back.
\<close>

theorem space_to_batch_round_trip:
  assumes "dimensions t = 4" and "dimensionFormat t = FMT_NHWC \<longrightarrow> batch t = 1" and "0 < batch t" and "\<forall>n\<in>set (shape t). 0 \<le> n"
    and "0 < bh" and "0 < bw" and "0 \<le> a" and "0 \<le> pb" "0 \<le> pr"
    and "bh dvd height t + a * bh + pb" and "bw dvd width t + a * bw + pr"
    and "SpaceToBatchNDSizeComputer (space_blocks bh bw (a * bh) pb (a * bw) pr) [t] [o1] = Some [u]"
    and "BatchToSpaceNDSizeComputer (space_blocks bh bw (a * bh) pb (a * bw) pr) [u] [o2] = Some [v]"
    and "mem' k' = raster mem (regions (GeometrySpaceToBatchND False (space_blocks bh bw (a * bh) pb (a * bw) pr) k [t] u des)) out"
    and "0 \<le> i" and "i < prod_list (shape t)"
  shows "shape v = shape t \<and>
    raster mem' (regions (GeometrySpaceToBatchND True (space_blocks bh bw (a * bh) pb (a * bw) pr) k' [u] v des')) out' i = mem k i"
proof -
  let ?pt = "a * bh" and ?pl = "a * bw"
  have p: "0 \<le> ?pt" "0 \<le> ?pl" using assms(5-7) by simp_all
  note S = space_shapes_computed [OF assms(1-6) p(1) assms(8) p(2) assms(9,12)]
  note D = space_shapesD [OF S(1)]
  have hu: "height u * bh = height t + ?pt + pb" "width u * bw = width t + ?pl + pr"
    using S(2,3) assms(10,11) by simp_all
  note V = batch_to_space_shape [OF D(2,9,10,5) less_imp_le [OF D(6)] assms(13)]
  have e: "dimensionFormat v = dimensionFormat t" "channel v = channel t" "batch v = batch t" "height v = height t" "width v = width t"
    using V D(3,4) hu by simp_all
  have sv: "shape v = shape t" unfolding four_axes [OF V(1)] four_axes [OF assms(1)] e by (rule refl)
  have sp: "space_shapes v u bh bw" using S(1) V(1) unfolding space_shapes_def e by simp
  have ev: "element_place v = element_place t" by (simp add: element_place_def fun_eq_iff sv e)
  obtain n c row col where i: "coords_in t n c row col" "i = element_place t n c row col"
    using element_place_cover [OF assms(1,4,15,16)] by blast
  then have iv: "coords_in v n c row col" by (simp add: coords_in_def e)
  let ?r = "(row + ?pt) mod bh * bw + (col + ?pl) mod bw" and ?y = "(row + ?pt) div bh" and ?x = "(col + ?pl) div bw"
  have c: "0 \<le> n" "n < batch t" "0 \<le> c" "c < channel t" "0 \<le> row" "row < height t" "0 \<le> col" "col < width t" using i(1) by (simp_all add: coords_in_def)
  have y: "0 \<le> ?y" "?y < height u" "0 \<le> ?x" "?x < width u"
  proof -
    have g: "0 \<le> row + ?pt" "row + ?pt < height u * bh" "0 \<le> col + ?pl" "col + ?pl < width u * bw" using c hu p assms(8,9) by linarith+
    show "0 \<le> ?y" "0 \<le> ?x" using g pos_imp_zdiv_nonneg_iff [OF assms(5)] pos_imp_zdiv_nonneg_iff [OF assms(6)] by blast+
    show "?y < height u" "?x < width u" by (intro div_less_of_mult g assms(5,6))+
  qed
  have r: "0 \<le> ?r" "?r < bh * bw" "?r div bw = (row + ?pt) mod bh" "?r mod bw = (col + ?pl) mod bw"
    using block_index [OF assms(5,6), of "row + ?pt" "col + ?pl"] by simp_all
  have b: "(?r * batch t + n) div batch t = ?r" "(?r * batch t + n) mod batch t = n" using c by simp_all
  have "?r * batch t + n < (?r + 1) * batch t" using c by (simp add: algebra_simps)
  also have "\<dots> \<le> bh * bw * batch t" using r D(6) by (intro mult_right_mono) simp_all
  finally have u: "coords_in u (?r * batch t + n) c ?y ?x" using c r y D(4,5,6) by (simp add: coords_in_def mult.commute)
  have rc: "image_row bh bw ?pt ?r ?y = row" "image_column bw ?pl ?r ?x = col" by (rule image_back(1) [OF r(3)], rule image_back(2) [OF r(4)])
  have sh: "column_shift bh bw ?pt ?pl ?r = 0" by (rule column_shift_0 [OF assms(5-7) r(1,2)])
  have "raster mem' (regions (GeometrySpaceToBatchND True (space_blocks bh bw ?pt pb ?pl pr) k' [u] v des')) out' i =
      mem' k' (element_place u (?r * batch t + n) c ?y ?x)"
    using batch_to_space_reads [OF sp assms(7) refl refl iv, where pb = pb and pr = pr and k = k' and des = des' and mem = mem' and out = out'] y by (simp add: i(2) ev e)
  also have "\<dots> = mem k (element_place t n c row col)"
    unfolding assms(14) space_to_batch_reads [OF S(1) p u] b rc sh using c by (simp add: in_image_def)
  finally show ?thesis using sv i(2) by simp
qed

theorem space_to_batch_round_trip_witness:
  "\<exists>u v. SpaceToBatchNDSizeComputer (space_blocks 2 2 2 0 2 0) [tensor_of FMT_NCHW [1, 1, 2, 4]] [tensor_of FMT_NCHW []] = Some [u] \<and>
    BatchToSpaceNDSizeComputer (space_blocks 2 2 2 0 2 0) [u] [tensor_of FMT_NCHW []] = Some [v] \<and>
    raster (\<lambda>_. raster (\<lambda>k i. i) (regions (GeometrySpaceToBatchND False (space_blocks 2 2 2 0 2 0) 0 [tensor_of FMT_NCHW [1, 1, 2, 4]] u \<lparr>memory_virtual = False, regions = []\<rparr>)) (\<lambda>i. -1))
      (regions (GeometrySpaceToBatchND True (space_blocks 2 2 2 0 2 0) 1 [u] v \<lparr>memory_virtual = False, regions = []\<rparr>)) (\<lambda>i. -1) 7 = 7"
proof -
  let ?t = "tensor_of FMT_NCHW [1, 1, 2, 4]" and ?sb = "space_blocks 2 2 2 0 2 0" and ?d = "\<lparr>memory_virtual = False, regions = []\<rparr>"
  obtain u where u: "SpaceToBatchNDSizeComputer ?sb [?t] [tensor_of FMT_NCHW []] = Some [u]"
    using space_batch_computes(1) by blast
  obtain v where v: "BatchToSpaceNDSizeComputer ?sb [u] [tensor_of FMT_NCHW []] = Some [v]"
    using space_batch_computes(2) by blast
  have t: "dimensions ?t = 4" "dimensionFormat ?t = FMT_NCHW" "batch ?t = 1" "height ?t = 2" "width ?t = 4" "channel ?t = 1" "shape ?t = [1, 1, 2, 4]"
    by (simp_all add: shape4 tensor_of_def batch_def height_def width_def channel_def)
  have "raster (\<lambda>_. raster (\<lambda>k i. i) (regions (GeometrySpaceToBatchND False ?sb 0 [?t] u ?d)) (\<lambda>i. -1)) (regions (GeometrySpaceToBatchND True ?sb 1 [u] v ?d)) (\<lambda>i. -1) 7 = 7"
    by (rule conjunct2, rule space_to_batch_round_trip [where t = ?t and bh = 2 and bw = 2 and a = 1 and pb = 0 and pr = 0 and u = u and v = v and k = 0, simplified])
      (use u v in \<open>simp_all add: t\<close>)
  then show ?thesis using u v by blast
qed

section \<open>A wrong start of the columns\<close>

text \<open>
  Space to batch with padding above but not on the left: shape inference gives four batches of 2 x 1 for an input
  of 2 x 2, and the region of the last batch reads the element 5 of the input's 4. The column where a source starts is
  computed from the row where the target starts.
\<close>

lemma space_to_batch_reads_outside:
  "\<exists>u. SpaceToBatchNDSizeComputer \<lparr>blockCount = 2, blockShape = [2, 2], sbPadding = [2, 0, 0, 0]\<rparr> [tensor_of FMT_NCHW [1, 1, 2, 2]] [tensor_of FMT_NCHW []] = Some [u] \<and>
    shape u = [4, 1, 2, 1] \<and>
    (7, 5) \<in> copies (regions (GeometrySpaceToBatchND False \<lparr>blockCount = 2, blockShape = [2, 2], sbPadding = [2, 0, 0, 0]\<rparr> 0
      [tensor_of FMT_NCHW [1, 1, 2, 2]] u \<lparr>memory_virtual = False, regions = []\<rparr>)) \<and>
    prod_list (shape (tensor_of FMT_NCHW [1, 1, 2, 2])) = 4"
proof -
  let ?sb = "\<lparr>blockCount = 2, blockShape = [2, 2], sbPadding = [2, 0, 0, 0]\<rparr>" and ?t = "tensor_of FMT_NCHW [1, 1, 2, 2]" and ?o = "tensor_of FMT_NCHW []"
  let ?u = "the (SpaceToBatchNDSizeComputer ?sb [?t] [?o]) ! 0" and ?d = "\<lparr>memory_virtual = False, regions = []\<rparr>"
  have "SpaceToBatchNDSizeComputer ?sb [?t] [?o] = Some [?u]" by (simp add: SpaceToBatchNDSizeComputer_def Let_def split: prod.splits)
  moreover have "shape ?u = [4, 1, 2, 1]" by code_simp
  moreover have "(7, 5) \<in> set (concat (map region_elements (regions (GeometrySpaceToBatchND False ?sb 0 [?t] ?u ?d))))" by code_simp
  then have "(7, 5) \<in> copies (regions (GeometrySpaceToBatchND False ?sb 0 [?t] ?u ?d))" by (simp only: copies_def set_concat set_map image_image)
  moreover have "prod_list (shape ?t) = 4" by code_simp
  ultimately show ?thesis by blast
qed

text \<open>
  In a batch of two images whose channel comes last, the second image's first element is read from the second
  column of the first image: batch and channel are one axis, of the channel's stride.
\<close>

lemma space_to_batch_mixes_images:
  "(1, 1) \<in> copies (regions (GeometrySpaceToBatchND False (space_blocks 2 2 0 0 0 0) 0
     [tensor_of FMT_NHWC [2, 2, 2, 1]] (tensor_of FMT_NHWC [8, 1, 1, 1]) \<lparr>memory_virtual = False, regions = []\<rparr>)) \<and>
   element_place (tensor_of FMT_NHWC [8, 1, 1, 1]) 1 0 0 0 = 1 \<and> element_place (tensor_of FMT_NHWC [2, 2, 2, 1]) 1 0 0 0 = 4"
proof -
  let ?rs = "regions (GeometrySpaceToBatchND False (space_blocks 2 2 0 0 0 0) 0
     [tensor_of FMT_NHWC [2, 2, 2, 1]] (tensor_of FMT_NHWC [8, 1, 1, 1]) \<lparr>memory_virtual = False, regions = []\<rparr>)"
  have "(1, 1) \<in> set (concat (map region_elements ?rs))" by code_simp
  then have "(1, 1) \<in> copies ?rs" by (simp only: copies_def set_concat set_map image_image)
  moreover have "element_place (tensor_of FMT_NHWC [8, 1, 1, 1]) 1 0 0 0 = 1" "element_place (tensor_of FMT_NHWC [2, 2, 2, 1]) 1 0 0 0 = 4" by code_simp+
  ultimately show ?thesis by blast
qed

end
