(* ===== verification/Token_Model.thy ===== *)
theory Token_Model
  imports Prelude "HOL-Library.Word"
begin

text \<open>
  The tokenizers of the LLM runtime: transformers/llm/engine/src/tokenizer.hpp (\<open>Trie\<close>) and tokenizer.cpp.
  \<open>std::string\<close> is a list of bytes, \<open>std::wstring\<close> a list of code points, an \<open>unordered_map\<close> a map; the
  lines of the vocabulary file are given as a list. \<open>encode\<close> that appends to \<open>ids\<close> gives what it appends.
\<close>

unbundle bit_operations_syntax

type_synonym byte = "8 word"
type_synonym bytes = "byte list"
type_synonym wstring = "nat list"

abbreviation bytes_of :: "string \<Rightarrow> bytes" where
  "bytes_of s \<equiv> map of_char s"

lemma filter_single_upt: "k < n \<Longrightarrow> (\<And>j. j < n \<Longrightarrow> P j \<longleftrightarrow> j = k) \<Longrightarrow> filter P [0..<n] = [k]"
  by (induction n) (auto simp: less_Suc_eq filter_empty_conv)

text \<open>\<open>insert\<close> of an \<open>unordered_map\<close>: a key that is there keeps its value.\<close>

definition insert_new :: "'k \<Rightarrow> 'v \<Rightarrow> ('k \<Rightarrow> 'v option) \<Rightarrow> 'k \<Rightarrow> 'v option" where
  "insert_new k v m = (case m k of None \<Rightarrow> m(k \<mapsto> v) | Some _ \<Rightarrow> m)"

lemma insert_new_first: "insert_new k v m x = (if x = k \<and> m k = None then Some v else m x)"
  by (auto simp: insert_new_def split: option.split)

section \<open>Character classes of the C locale, base64\<close>

definition isdigit :: "byte \<Rightarrow> bool" where
  "isdigit c \<longleftrightarrow> 48 \<le> c \<and> c \<le> 57"

definition isupper :: "byte \<Rightarrow> bool" where
  "isupper c \<longleftrightarrow> 65 \<le> c \<and> c \<le> 90"

definition islower :: "byte \<Rightarrow> bool" where
  "islower c \<longleftrightarrow> 97 \<le> c \<and> c \<le> 122"

definition isalnum :: "byte \<Rightarrow> bool" where
  "isalnum c \<longleftrightarrow> isdigit c \<or> isupper c \<or> islower c"

definition isspace :: "byte \<Rightarrow> bool" where
  "isspace c \<longleftrightarrow> c = 32 \<or> 9 \<le> c \<and> c \<le> 13"

definition ispunct :: "byte \<Rightarrow> bool" where
  "ispunct c \<longleftrightarrow> 33 \<le> c \<and> c \<le> 126 \<and> \<not> isalnum c"

definition tolower :: "byte \<Rightarrow> byte" where
  "tolower c = (if isupper c then c + 32 else c)"

definition base64_chars :: bytes where
  "base64_chars = bytes_of ''ABCDEFGHIJKLMNOPQRSTUVWXYZabcdefghijklmnopqrstuvwxyz0123456789+/''"

definition is_base64 :: "byte \<Rightarrow> bool" where
  "is_base64 c \<longleftrightarrow> isalnum c \<or> c = 43 \<or> c = 47"

text \<open>\<open>base64_chars.find(c)\<close>, stored into an \<open>unsigned char\<close>: \<open>npos\<close> becomes 255.\<close>

definition base64_find :: "byte \<Rightarrow> byte" where
  "base64_find c = (case filter (\<lambda>i. base64_chars ! i = c) [0..<64] of i # _ \<Rightarrow> of_nat i | [] \<Rightarrow> 255)"

definition char_array_3 :: "bytes \<Rightarrow> bytes" where
  "char_array_3 a =
     [push_bit 2 (a ! 0) + drop_bit 4 (a ! 1 AND 0x30),
      push_bit 4 (a ! 1 AND 0xf) + drop_bit 2 (a ! 2 AND 0x3c),
      push_bit 6 (a ! 2 AND 0x3) + a ! 3]"

fun base64_loop :: "bytes \<Rightarrow> bytes \<Rightarrow> bytes \<Rightarrow> bytes \<times> bytes" where
  "base64_loop [] pending ret = (pending, ret)"
| "base64_loop (c # cs) pending ret =
     (if c \<noteq> 61 \<and> is_base64 c then
        let pending = pending @ [c]
        in if length pending = 4 then base64_loop cs [] (ret @ char_array_3 (map base64_find pending))
           else base64_loop cs pending ret
      else (pending, ret))"

definition base64_decode :: "bytes \<Rightarrow> bytes" where
  "base64_decode str =
     (let (pending, ret) = base64_loop str [] []
      in if pending \<noteq> [] then
           ret @ take (length pending - 1) (char_array_3 (map base64_find (pending @ replicate (4 - length pending) 0)))
         else ret)"

section \<open>\<open>Trie\<close>\<close>

record TrieNode =
  children :: "byte \<Rightarrow> nat option"
  node_id :: int

record Trie =
  tlist :: "TrieNode list"
  tsize :: nat

definition new_TrieNode :: TrieNode where
  "new_TrieNode = \<lparr>children = (\<lambda>_. None), node_id = -1\<rparr>"

definition new_Trie :: "nat \<Rightarrow> Trie" where
  "new_Trie initial_size = \<lparr>tlist = replicate initial_size new_TrieNode, tsize = 1\<rparr>"

definition getFree :: "Trie \<Rightarrow> nat \<times> Trie" where
  "getFree t =
     (if tsize t < length (tlist t) then (tsize t, t\<lparr>tsize := tsize t + 1\<rparr>)
      else (tsize t, t\<lparr>tlist := tlist t @ replicate (length (tlist t)) new_TrieNode, tsize := tsize t + 1\<rparr>))"

definition set_node :: "nat \<Rightarrow> TrieNode \<Rightarrow> Trie \<Rightarrow> Trie" where
  "set_node n x t = t\<lparr>tlist := (tlist t)[n := x]\<rparr>"

primrec trie_insert :: "bytes \<Rightarrow> nat \<Rightarrow> int \<Rightarrow> Trie \<Rightarrow> Trie" where
  "trie_insert [] nid token_id t =
     (let node = tlist t ! nid in if node_id node = -1 then set_node nid (node\<lparr>node_id := token_id\<rparr>) t else t)"
| "trie_insert (c # cs) nid token_id t =
     (case children (tlist t ! nid) c of
        None \<Rightarrow>
          (let (new_id, t) = getFree t;
               node = tlist t ! nid
           in trie_insert cs new_id token_id (set_node nid (node\<lparr>children := (children node)(c \<mapsto> new_id)\<rparr>) t))
      | Some cid \<Rightarrow> trie_insert cs cid token_id t)"

text \<open>
  \<open>find\<close> compares no iterator with the end: at the end \<open>*it\<close> is the byte 0 that ends every string, and
  behind it there is nothing to read (\<open>None\<close>). The iterators are positions.
\<close>

function trie_find :: "Trie \<Rightarrow> bytes \<Rightarrow> nat \<Rightarrow> int \<Rightarrow> nat \<Rightarrow> nat \<Rightarrow> (int \<times> nat) option" where
  "trie_find t str nid current_matched current_it it =
     (if it > length str then None
      else
        let node = tlist t ! nid;
            (current_matched, current_it) = (if node_id node \<noteq> -1 then (node_id node, it) else (current_matched, current_it))
        in case children node (if it < length str then str ! it else 0) of
             Some cid \<Rightarrow> trie_find t str cid current_matched current_it (it + 1)
           | None \<Rightarrow> if node_id node \<noteq> -1 then Some (node_id node, it) else Some (current_matched, current_it))"
  by auto
termination by (relation "measure (\<lambda>(t, str, nid, m, c, it). Suc (length str) - it)") auto

declare trie_find.simps [simp del]

definition Trie_find :: "Trie \<Rightarrow> bytes \<Rightarrow> nat \<Rightarrow> (int \<times> nat) option" where
  "Trie_find t str it = (if it = length str then Some (-1, it) else trie_find t str 0 (-1) (it + 1) it)"

section \<open>\<open>Tiktoken\<close>\<close>

record Tiktoken =
  encoder :: Trie
  decoder :: "bytes list"

definition Tiktoken_load_vocab :: "bytes list \<Rightarrow> Tiktoken" where
  "Tiktoken_load_vocab lines =
     fold (\<lambda>i k. let token = base64_decode (lines ! i)
            in k\<lparr>encoder := trie_insert token 0 (int i) (encoder k), decoder := (decoder k)[i := token]\<rparr>)
       [0..<length lines] \<lparr>encoder = new_Trie 10000, decoder = replicate (length lines) []\<rparr>"

text \<open>The loop of \<open>encode\<close>: it may not end (\<open>None\<close>).\<close>

partial_function (option) Tiktoken_loop :: "Trie \<Rightarrow> bytes \<Rightarrow> nat \<Rightarrow> int list \<Rightarrow> int list option" where
  "Tiktoken_loop t str it ids =
     (if it = length str then Some ids
      else case Trie_find t str it of None \<Rightarrow> None
         | Some (token_id, it) \<Rightarrow> Tiktoken_loop t str it (if token_id \<ge> 0 then ids @ [token_id] else ids))"

definition Tiktoken_encode :: "Tiktoken \<Rightarrow> bytes \<Rightarrow> int list option" where
  "Tiktoken_encode k str = (if str = [] then Some [] else Tiktoken_loop (encoder k) str 0 [])"

definition Tiktoken_decode :: "Tiktoken \<Rightarrow> int \<Rightarrow> bytes" where
  "Tiktoken_decode k i = (if i < 0 \<or> nat i \<ge> length (decoder k) then [] else decoder k ! nat i)"

end
