(* ===== verification/Token_Trie.thy ===== *)
theory Token_Trie
  imports Token_Model
begin

text \<open>
  The trie of token strings: its nodes are reached by exactly one string each, \<open>insert\<close> adds one string
  to the map the trie stands for, and \<open>find\<close> gives the longest token the text starts with.
\<close>

section \<open>The map a trie stands for\<close>

primrec walk :: "Trie \<Rightarrow> nat \<Rightarrow> bytes \<Rightarrow> nat option" where
  "walk t n [] = Some n"
| "walk t n (c # cs) = (case children (tlist t ! n) c of None \<Rightarrow> None | Some m \<Rightarrow> walk t m cs)"

definition lookup :: "Trie \<Rightarrow> bytes \<Rightarrow> int option" where
  "lookup t w = (case walk t 0 w of None \<Rightarrow> None | Some n \<Rightarrow> if node_id (tlist t ! n) = -1 then None else Some (node_id (tlist t ! n)))"

lemma walk_append: "walk t n (u @ v) = (case walk t n u of None \<Rightarrow> None | Some m \<Rightarrow> walk t m v)"
  by (induction u arbitrary: n) (simp_all split: option.split)

lemma walk_snoc: "walk t n (u @ [c]) = (case walk t n u of None \<Rightarrow> None | Some m \<Rightarrow> children (tlist t ! m) c)"
  unfolding walk_append by (simp split: option.split)

text \<open>Different strings lead to different nodes, all below \<open>size\<close>; the nodes from there on are unused.\<close>

definition trie_ok :: "Trie \<Rightarrow> bool" where
  "trie_ok t \<longleftrightarrow> 0 < tsize t \<and> tsize t \<le> length (tlist t) \<and> (\<forall>n<length (tlist t). tsize t \<le> n \<longrightarrow> tlist t ! n = new_TrieNode) \<and>
     (\<forall>u n. walk t 0 u = Some n \<longrightarrow> n < tsize t) \<and> (\<forall>u v n. walk t 0 u = Some n \<longrightarrow> walk t 0 v = Some n \<longrightarrow> u = v)"

lemma walk_same: "trie_ok t \<Longrightarrow> walk t 0 u = Some n \<Longrightarrow> walk t 0 v = Some n \<longleftrightarrow> v = u"
  unfolding trie_ok_def by blast

lemma walk_less: "trie_ok t \<Longrightarrow> walk t 0 u = Some n \<Longrightarrow> n < tsize t \<and> n < length (tlist t)"
  unfolding trie_ok_def by (meson order_less_le_trans)

lemma new_Trie_walk: "0 < k \<Longrightarrow> walk (new_Trie k) 0 w = (if w = [] then Some 0 else None)"
  by (cases w) (simp_all add: new_Trie_def new_TrieNode_def)

lemma new_Trie_ok: "0 < k \<Longrightarrow> trie_ok (new_Trie k) \<and> lookup (new_Trie k) w = None"
  unfolding trie_ok_def lookup_def new_Trie_walk by (auto simp: new_Trie_def new_TrieNode_def)

section \<open>Insertion\<close>

text \<open>A new node behind \<open>nid\<close>.\<close>

definition add_child :: "nat \<Rightarrow> byte \<Rightarrow> Trie \<Rightarrow> Trie" where
  "add_child nid c t =
     (let (new_id, t) = getFree t; node = tlist t ! nid in set_node nid (node\<lparr>children := (children node)(c \<mapsto> new_id)\<rparr>) t)"

lemma getFree_ok:
  assumes "trie_ok t"
  shows "fst (getFree t) = tsize t" "tsize (snd (getFree t)) = tsize t + 1" "tsize t < length (tlist (snd (getFree t)))"
    "n < length (tlist t) \<Longrightarrow> tlist (snd (getFree t)) ! n = tlist t ! n"
    "tsize t \<le> n \<Longrightarrow> n < length (tlist (snd (getFree t))) \<Longrightarrow> tlist (snd (getFree t)) ! n = new_TrieNode"
  using assms by (auto simp: getFree_def trie_ok_def nth_append)

lemma add_child_nodes:
  assumes t: "trie_ok t" and w: "walk t 0 u = Some nid"
  shows "tsize (add_child nid c t) = tsize t + 1" "tsize t < length (tlist (add_child nid c t))"
    "tlist (add_child nid c t) ! nid = (tlist t ! nid)\<lparr>children := (children (tlist t ! nid))(c \<mapsto> tsize t)\<rparr>"
    "n < tsize t \<Longrightarrow> n \<noteq> nid \<Longrightarrow> tlist (add_child nid c t) ! n = tlist t ! n"
    "tsize t \<le> n \<Longrightarrow> n < length (tlist (add_child nid c t)) \<Longrightarrow> tlist (add_child nid c t) ! n = new_TrieNode"
proof -
  have l: "nid < length (tlist t)" "nid < tsize t" "tsize t \<le> length (tlist t)" using walk_less [OF t w] t by (auto simp: trie_ok_def)
  have e: "add_child nid c t = set_node nid ((tlist t ! nid)\<lparr>children := (children (tlist t ! nid))(c \<mapsto> tsize t)\<rparr>) (snd (getFree t))"
    using getFree_ok(1) [OF t] getFree_ok(4) [OF t l(1)] by (simp add: add_child_def case_prod_beta Let_def)
  show "tsize (add_child nid c t) = tsize t + 1" "tsize t < length (tlist (add_child nid c t))"
    "tlist (add_child nid c t) ! nid = (tlist t ! nid)\<lparr>children := (children (tlist t ! nid))(c \<mapsto> tsize t)\<rparr>"
    "n < tsize t \<Longrightarrow> n \<noteq> nid \<Longrightarrow> tlist (add_child nid c t) ! n = tlist t ! n"
    "tsize t \<le> n \<Longrightarrow> n < length (tlist (add_child nid c t)) \<Longrightarrow> tlist (add_child nid c t) ! n = new_TrieNode"
    unfolding e using getFree_ok [OF t] l by (simp_all add: set_node_def)
qed

lemma add_child_walk:
  assumes t: "trie_ok t" and w: "walk t 0 u = Some nid" and none: "children (tlist t ! nid) c = None"
  shows "walk (add_child nid c t) 0 v = (if v = u @ [c] then Some (tsize t) else walk t 0 v)"
proof (induction v rule: rev_induct)
  case (snoc d v)
  note n = add_child_nodes [OF t w, where c = c]
  have uc: "walk t 0 (u @ [c]) = None" unfolding walk_snoc w using none by simp
  show ?case
  proof (cases "v = u @ [c]")
    case True
    have "children (tlist (add_child nid c t) ! tsize t) d = None" using n(2) n(5) [of "tsize t"] by (simp add: new_TrieNode_def)
    then show ?thesis unfolding walk_snoc snoc.IH using True uc by simp
  next
    case False
    show ?thesis
    proof (cases "walk t 0 v")
      case (Some m)
      have m: "m < tsize t" "m = nid \<longleftrightarrow> v = u" using walk_less [OF t Some] walk_same [OF t w, of v] Some by auto
      have "children (tlist (add_child nid c t) ! m) d = (if v = u \<and> d = c then Some (tsize t) else children (tlist t ! m) d)"
        using m n(3) n(4) [of m] by (cases "v = u") simp_all
      then show ?thesis unfolding walk_snoc snoc.IH using False Some by simp
    qed (use False w in \<open>auto simp: walk_snoc snoc.IH\<close>)
  qed
qed simp

lemma add_child_ok:
  assumes t: "trie_ok t" and w: "walk t 0 u = Some nid" and none: "children (tlist t ! nid) c = None"
  shows "trie_ok (add_child nid c t)" "lookup (add_child nid c t) v = lookup t v"
proof -
  note n = add_child_nodes [OF t w, where c = c] and wk = add_child_walk [OF assms]
  have less: "m < tsize t" if "walk t 0 v = Some m" for v m using walk_less [OF t that] by simp
  show "trie_ok (add_child nid c t)"
    unfolding trie_ok_def wk
  proof (intro conjI allI impI)
    show "0 < tsize (add_child nid c t)" "tsize (add_child nid c t) \<le> length (tlist (add_child nid c t))" using n(1,2) by simp_all
    show "tlist (add_child nid c t) ! m = new_TrieNode" if "m < length (tlist (add_child nid c t))" "tsize (add_child nid c t) \<le> m" for m
      using n(1) n(5) [of m] that by simp
    show "m < tsize (add_child nid c t)" if "(if v = u @ [c] then Some (tsize t) else walk t 0 v) = Some m" for v m
      using that less n(1) by (auto split: if_splits intro: less_SucI)
    show "v = v'" if "(if v = u @ [c] then Some (tsize t) else walk t 0 v) = Some m" "(if v' = u @ [c] then Some (tsize t) else walk t 0 v') = Some m" for v v' m
      using that less t by (auto simp: trie_ok_def split: if_splits)
  qed
  have "walk t 0 (u @ [c]) = None" unfolding walk_snoc w using none by simp
  moreover have "node_id (tlist (add_child nid c t) ! m) = node_id (tlist t ! m)" if "m < tsize t" for m
    using n(3) n(4) [of m] that by (cases "m = nid") simp_all
  moreover have "node_id (tlist (add_child nid c t) ! tsize t) = -1" using n(2) n(5) [of "tsize t"] by (simp add: new_TrieNode_def)
  ultimately show "lookup (add_child nid c t) v = lookup t v"
    unfolding lookup_def wk using less by (auto split: option.split)
qed

lemma trie_insert_ok:
  "trie_ok t \<Longrightarrow> walk t 0 u = Some nid \<Longrightarrow> i \<noteq> -1 \<Longrightarrow>
   trie_ok (trie_insert w nid i t) \<and>
   (\<forall>v. lookup (trie_insert w nid i t) v = (if v = u @ w \<and> lookup t v = None then Some i else lookup t v)) \<and>
   (\<forall>v. walk (trie_insert w nid i t) 0 v \<noteq> None \<longrightarrow> walk t 0 v \<noteq> None \<or> (\<exists>p q. w = p @ q \<and> v = u @ p))"
proof (induction w arbitrary: t u nid)
  case Nil
  let ?t = "trie_insert [] nid i t"
  have l: "nid < length (tlist t)" using walk_less [OF Nil(1,2)] by simp
  have n: "children (tlist ?t ! m) = children (tlist t ! m)" for m
    using l by (cases "m = nid") (simp_all add: set_node_def Let_def)
  have wk: "walk ?t m v = walk t m v" for m v by (induction v arbitrary: m) (simp_all only: walk.simps n split: option.split)
  have "trie_ok ?t"
    using Nil(1) walk_less [OF Nil(1,2)] unfolding trie_ok_def wk by (auto simp: set_node_def Let_def nth_list_update)
  moreover have "lookup ?t v = (if v = u @ [] \<and> lookup t v = None then Some i else lookup t v)" for v
    unfolding lookup_def wk using l walk_same [OF Nil(1,2), of v] Nil(2,3)
    by (auto simp: set_node_def Let_def nth_list_update split: option.split)
  ultimately show ?case unfolding wk by blast
next
  case (Cons c w)
  have longer: "walk t 0 v \<noteq> None \<or> (\<exists>p q. c # w = p @ q \<and> v = u @ p)"
    if "walk t 0 v \<noteq> None \<or> (\<exists>p q. w = p @ q \<and> v = (u @ [c]) @ p)" for v
    using that by (metis append.assoc append_Cons append_Nil)
  show ?case
  proof (cases "children (tlist t ! nid) c")
    case (Some m)
    have "walk t 0 (u @ [c]) = Some m" unfolding walk_snoc Cons.prems(2) using Some by simp
    note IH = Cons.IH [OF Cons.prems(1) this Cons.prems(3)]
    have e: "trie_insert (c # w) nid i t = trie_insert w m i t" using Some by simp
    have "walk t 0 v \<noteq> None \<or> (\<exists>p q. c # w = p @ q \<and> v = u @ p)" if "walk (trie_insert w m i t) 0 v \<noteq> None" for v
      by (rule longer) (use IH that in blast)
    moreover have "trie_ok (trie_insert w m i t)" using IH by (rule conjunct1)
    moreover have "\<forall>v. lookup (trie_insert w m i t) v = (if v = u @ c # w \<and> lookup t v = None then Some i else lookup t v)"
      using IH [THEN conjunct2, THEN conjunct1] by simp
    ultimately show ?thesis unfolding e by blast
  next
    case None
    let ?t = "add_child nid c t"
    have e: "trie_insert (c # w) nid i t = trie_insert w (tsize t) i ?t"
      using None getFree_ok(1) [OF Cons.prems(1)] by (simp add: add_child_def case_prod_beta Let_def)
    note a = add_child_walk [OF Cons.prems(1,2) None] add_child_ok [OF Cons.prems(1,2) None]
    have "walk ?t 0 (u @ [c]) = Some (tsize t)" unfolding a(1) by simp
    note IH = Cons.IH [OF a(2) this Cons.prems(3)]
    have "walk t 0 v \<noteq> None \<or> (\<exists>p q. c # w = p @ q \<and> v = u @ p)" if "walk (trie_insert w (tsize t) i ?t) 0 v \<noteq> None" for v
    proof -
      have "walk ?t 0 v \<noteq> None \<or> (\<exists>p q. w = p @ q \<and> v = (u @ [c]) @ p)" using IH that by blast
      moreover have "v = u @ [c] \<or> walk t 0 v \<noteq> None" if "walk ?t 0 v \<noteq> None" using that unfolding a(1) by presburger
      ultimately have "walk t 0 v \<noteq> None \<or> (\<exists>p q. w = p @ q \<and> v = (u @ [c]) @ p)" by (metis append.right_neutral append_Nil)
      then show ?thesis by (rule longer)
    qed
    moreover have "trie_ok (trie_insert w (tsize t) i ?t)" using IH by (rule conjunct1)
    moreover have "\<forall>v. lookup (trie_insert w (tsize t) i ?t) v = (if v = u @ c # w \<and> lookup t v = None then Some i else lookup t v)"
      using IH [THEN conjunct2, THEN conjunct1] unfolding a(3) by simp
    ultimately show ?thesis unfolding e by blast
  qed
qed

end
