(* ===== verification/Token_Tiktoken.thy ===== *)
theory Token_Tiktoken
  imports Token_Trie "HOL-Library.Sublist"
begin

text \<open>\<open>find\<close> against a reference on the list of tokens, and the encoding loop of \<open>Tiktoken\<close>.\<close>

section \<open>Finding the longest token\<close>

text \<open>What is found among the first \<open>l\<close> prefixes (lengths below \<open>l\<close>) of the text \<open>w\<close> read from position \<open>s\<close>.\<close>

definition best :: "Trie \<Rightarrow> bytes \<Rightarrow> nat \<Rightarrow> nat \<Rightarrow> int \<times> nat \<Rightarrow> bool" where
  "best t w s l r \<longleftrightarrow>
     (\<exists>k<l. lookup t (take k w) = Some (fst r) \<and> snd r = s + k \<and> (\<forall>j<l. k < j \<longrightarrow> lookup t (take j w) = None)) \<or>
     r = (-1, s + 1) \<and> (\<forall>j<l. lookup t (take j w) = None)"

lemma best_Suc:
  "best t w s l r \<Longrightarrow> best t w s (Suc l) (case lookup t (take l w) of None \<Rightarrow> r | Some i \<Rightarrow> (i, s + l))"
  unfolding best_def by (cases "lookup t (take l w)") (auto simp: less_Suc_eq)

lemma best_extend:
  assumes "best t w s l r" and "l \<le> m" and none: "\<And>j. l \<le> j \<Longrightarrow> j < m \<Longrightarrow> lookup t (take j w) = None"
  shows "best t w s m r"
  using assms(1) unfolding best_def
proof (elim disjE exE conjE)
  fix k assume k: "k < l" "lookup t (take k w) = Some (fst r)" "snd r = s + k" "\<forall>j<l. k < j \<longrightarrow> lookup t (take j w) = None"
  have "lookup t (take j w) = None" if "j < m" "k < j" for j using k(4) none that by (cases "j < l") auto
  then show "(\<exists>k<m. lookup t (take k w) = Some (fst r) \<and> snd r = s + k \<and> (\<forall>j<m. k < j \<longrightarrow> lookup t (take j w) = None)) \<or>
     r = (-1, s + 1) \<and> (\<forall>j<m. lookup t (take j w) = None)" using k assms(2) by (intro disjI1 exI [of _ k]) auto
next
  assume r: "r = (-1, s + 1)" "\<forall>j<l. lookup t (take j w) = None"
  have "lookup t (take j w) = None" if "j < m" for j using r(2) none that by (cases "j < l") auto
  then show "(\<exists>k<m. lookup t (take k w) = Some (fst r) \<and> snd r = s + k \<and> (\<forall>j<m. k < j \<longrightarrow> lookup t (take j w) = None)) \<or>
     r = (-1, s + 1) \<and> (\<forall>j<m. lookup t (take j w) = None)" using r(1) by blast
qed

lemma walk_longer: "walk t 0 (take l w) = None \<Longrightarrow> l \<le> j \<Longrightarrow> lookup t (take j w) = None"
proof -
  assume n: "walk t 0 (take l w) = None" and j: "l \<le> j"
  have "take j w = take l w @ drop l (take j w)" using j by (metis append_take_drop_id min.absorb1 take_take)
  then have "walk t 0 (take j w) = None" using n by (metis walk_append option.simps(4))
  then show ?thesis by (simp add: lookup_def)
qed

text \<open>No token has a byte 0 behind its first byte, so that the end of the text stops the search.\<close>

definition no_inner_nul :: "Trie \<Rightarrow> bool" where
  "no_inner_nul t \<longleftrightarrow> (\<forall>w. walk t 0 w \<noteq> None \<longrightarrow> 0 \<notin> set (tl w))"

lemma trie_find_best:
  assumes nul: "no_inner_nul t" and s: "s < length str"
  shows "s \<le> it \<Longrightarrow> it \<le> length str \<Longrightarrow> walk t 0 (take (it - s) (drop s str)) = Some nid \<Longrightarrow>
     best t (drop s str) s (it - s) (m, c) \<Longrightarrow>
     \<exists>r. trie_find t str nid m c it = Some r \<and> best t (drop s str) s (Suc (length str - s)) r"
proof (induction "length str - it" arbitrary: it nid m c)
  case (0 it)
  then have it: "it = length str" by simp
  let ?w = "take (it - s) (drop s str)"
  have ne: "?w \<noteq> []" using s it by simp
  have "walk t 0 (?w @ [0]) = None"
  proof (rule ccontr)
    assume "walk t 0 (?w @ [0]) \<noteq> None"
    then have "0 \<notin> set (tl (?w @ [0]))" using nul unfolding no_inner_nul_def by blast
    then show False using ne by (cases ?w) auto
  qed
  then have c: "children (tlist t ! nid) 0 = None" unfolding walk_snoc 0(4) by simp
  let ?r = "if node_id (tlist t ! nid) \<noteq> -1 then (node_id (tlist t ! nid), it) else (m, c)"
  have "best t (drop s str) s (Suc (it - s)) ?r"
    using best_Suc [OF 0(5)] 0(4) 0(2) by (auto simp: lookup_def split: if_splits)
  moreover have "trie_find t str nid m c it = Some ?r" using c it by (subst trie_find.simps) simp
  ultimately show ?case unfolding it by blast
next
  case (Suc d it)
  then have it: "it < length str" by simp
  let ?w = "take (it - s) (drop s str)" and ?r = "if node_id (tlist t ! nid) \<noteq> -1 then (node_id (tlist t ! nid), it) else (m, c)"
  have w: "take (Suc it - s) (drop s str) = ?w @ [str ! it]"
    using Suc(3) it by (simp add: Suc_diff_le take_Suc_conv_app_nth)
  have b: "best t (drop s str) s (Suc it - s) ?r"
    using best_Suc [OF Suc(6)] Suc(5,3) by (auto simp: lookup_def Suc_diff_le split: if_splits)
  show ?case
  proof (cases "children (tlist t ! nid) (str ! it)")
    case None
    have "walk t 0 (take (Suc it - s) (drop s str)) = None" unfolding w walk_snoc Suc(5) using None by simp
    then have "best t (drop s str) s (Suc (length str - s)) ?r"
      using it Suc(3) by (intro best_extend [OF b] walk_longer) auto
    moreover have "trie_find t str nid m c it = Some ?r" using None it by (subst trie_find.simps) simp
    ultimately show ?thesis by blast
  next
    case (Some cid)
    have "walk t 0 (take (Suc it - s) (drop s str)) = Some cid" unfolding w walk_snoc Suc(5) using Some by simp
    moreover have "d = length str - Suc it" "s \<le> Suc it" "Suc it \<le> length str" using Suc(2,3) it by simp_all
    moreover have "best t (drop s str) s (Suc it - s) (fst ?r, snd ?r)" using b by simp
    ultimately obtain r where "trie_find t str cid (fst ?r) (snd ?r) (Suc it) = Some r" "best t (drop s str) s (Suc (length str - s)) r"
      using Suc(1) by blast
    moreover have "trie_find t str nid m c it = trie_find t str cid (fst ?r) (snd ?r) (Suc it)"
      using Some it by (subst trie_find.simps) (simp add: Let_def)
    ultimately show ?thesis by auto
  qed
qed

lemma Trie_find_best:
  assumes "no_inner_nul t" and "s < length str"
  shows "\<exists>r. Trie_find t str s = Some r \<and> best t (drop s str) s (Suc (length str - s)) r"
  unfolding Trie_find_def using assms trie_find_best [OF assms, of s 0 "-1" "s + 1"] by (simp add: best_def)

section \<open>The vocabulary\<close>

text \<open>The reference: the longest prefix of the text that is a token, and the first place it has in the vocabulary.\<close>

definition first_index :: "bytes list \<Rightarrow> bytes \<Rightarrow> nat option" where
  "first_index tokens w = (case filter (\<lambda>i. tokens ! i = w) [0..<length tokens] of i # _ \<Rightarrow> Some i | [] \<Rightarrow> None)"

definition hits :: "bytes list \<Rightarrow> bytes \<Rightarrow> nat list" where
  "hits tokens w = filter (\<lambda>k. take k w \<in> set tokens) (rev [0..<Suc (length w)])"

definition longest_token :: "bytes list \<Rightarrow> bytes \<Rightarrow> (nat \<times> nat) option" where
  "longest_token tokens w =
     (case hits tokens w of
        [] \<Rightarrow> None
      | k # _ \<Rightarrow> map_option (\<lambda>i. (i, k)) (first_index tokens (take k w)))"

definition insert_all :: "bytes list \<Rightarrow> Trie \<Rightarrow> Trie" where
  "insert_all tokens t = fold (\<lambda>i t. trie_insert (tokens ! i) 0 (int i) t) [0..<length tokens] t"

lemma first_index_snoc: "first_index (tokens @ [x]) w =
    (case first_index tokens w of Some i \<Rightarrow> Some i | None \<Rightarrow> if x = w then Some (length tokens) else None)"
proof -
  have "filter (\<lambda>i. (tokens @ [x]) ! i = w) [0..<length tokens] = filter (\<lambda>i. tokens ! i = w) [0..<length tokens]"
    by (rule filter_cong) (simp_all add: nth_append)
  then show ?thesis by (simp add: first_index_def nth_append split: list.split)
qed

lemma insert_all_ok:
  "trie_ok (insert_all tokens (new_Trie 10000)) \<and>
   (\<forall>w. lookup (insert_all tokens (new_Trie 10000)) w = map_option int (first_index tokens w)) \<and>
   (\<forall>w. walk (insert_all tokens (new_Trie 10000)) 0 w \<noteq> None \<longrightarrow> w = [] \<or> (\<exists>x\<in>set tokens. prefix w x))"
proof (induction tokens rule: rev_induct)
  case Nil
  show ?case using new_Trie_ok [of 10000] by (simp add: insert_all_def first_index_def new_Trie_walk)
next
  case (snoc x tokens)
  let ?t = "insert_all tokens (new_Trie 10000)"
  have e: "insert_all (tokens @ [x]) (new_Trie 10000) = trie_insert x 0 (int (length tokens)) ?t"
  proof -
    have "fold (\<lambda>i t. trie_insert ((tokens @ [x]) ! i) 0 (int i) t) [0..<length tokens] t = insert_all tokens t" for t
      unfolding insert_all_def by (rule fold_cong) (simp_all add: nth_append)
    then show ?thesis by (simp add: insert_all_def)
  qed
  have ok: "trie_ok ?t" using snoc.IH by blast
  have "int (length tokens) \<noteq> -1" by simp
  note i = trie_insert_ok [OF ok _ this, of "[]" 0 x, unfolded append_Nil, OF walk.simps(1)]
  have "lookup (trie_insert x 0 (int (length tokens)) ?t) w = map_option int (first_index (tokens @ [x]) w)" for w
    using i snoc.IH by (auto simp: first_index_snoc split: option.split)
  moreover have "w = [] \<or> (\<exists>y\<in>set (tokens @ [x]). prefix w y)" if "walk (trie_insert x 0 (int (length tokens)) ?t) 0 w \<noteq> None" for w
  proof -
    have "walk ?t 0 w \<noteq> None \<or> (\<exists>p q. x = p @ q \<and> w = p)" using i that by blast
    then show ?thesis using snoc.IH by (auto simp: prefix_def)
  qed
  ultimately show ?case unfolding e using i by blast
qed

lemma load_vocab: "encoder (Tiktoken_load_vocab lines) = insert_all (map base64_decode lines) (new_Trie 10000) \<and>
    decoder (Tiktoken_load_vocab lines) = map base64_decode lines"
proof -
  let ?step = "\<lambda>i k. let token = base64_decode (lines ! i)
            in k\<lparr>encoder := trie_insert token 0 (int i) (encoder k), decoder := (decoder k)[i := token]\<rparr>"
  have "m \<le> length lines \<Longrightarrow> fold ?step [0..<m] k =
      k\<lparr>encoder := fold (\<lambda>i t. trie_insert (map base64_decode lines ! i) 0 (int i) t) [0..<m] (encoder k),
        decoder := map base64_decode (take m lines) @ drop m (decoder k)\<rparr>" if "length (decoder k) = length lines" for m k
  proof (induction m)
    case (Suc m)
    then have "(map base64_decode (take m lines) @ drop m (decoder k))[m := base64_decode (lines ! m)] =
        map base64_decode (take (Suc m) lines) @ drop (Suc m) (decoder k)"
      using that by (simp add: list_update_append take_Suc_conv_app_nth Cons_nth_drop_Suc [symmetric])
    then show ?case using Suc by (simp add: Let_def)
  qed simp
  from this [of "\<lparr>encoder = new_Trie 10000, decoder = replicate (length lines) []\<rparr>" "length lines"] show ?thesis
    by (simp add: Tiktoken_load_vocab_def insert_all_def)
qed

lemma first_index_Some: "first_index tokens w = Some i \<Longrightarrow> i < length tokens \<and> tokens ! i = w"
proof -
  assume "first_index tokens w = Some i"
  then obtain js where "filter (\<lambda>i. tokens ! i = w) [0..<length tokens] = i # js" by (auto simp: first_index_def split: list.splits)
  then have "i \<in> set (filter (\<lambda>i. tokens ! i = w) [0..<length tokens])" by simp
  then show ?thesis by simp
qed

lemma first_index_None: "first_index tokens w = None \<longleftrightarrow> w \<notin> set tokens"
proof -
  have "first_index tokens w = None \<longleftrightarrow> filter (\<lambda>i. tokens ! i = w) [0..<length tokens] = []"
    by (simp add: first_index_def split: list.split)
  then show ?thesis by (auto simp: filter_empty_conv in_set_conv_nth)
qed

lemma set_hits: "set (hits tokens w) = {k. k \<le> length w \<and> take k w \<in> set tokens}"
  unfolding hits_def set_filter set_rev set_upt by auto

lemma filter_rev_upt:
  "P k \<Longrightarrow> k \<le> n \<Longrightarrow> (\<And>j. k < j \<Longrightarrow> j \<le> n \<Longrightarrow> \<not> P j) \<Longrightarrow> \<exists>ks. filter P (rev [0..<Suc n]) = k # ks"
proof (induction n)
  case (Suc n)
  show ?case
  proof (cases "k = Suc n")
    case False
    then have "\<exists>ks. filter P (rev [0..<Suc n]) = k # ks" using Suc by auto
    then show ?thesis using Suc.prems(2) Suc.prems(3) [of "Suc n"] False by simp
  qed (use Suc.prems in simp)
qed auto

text \<open>A vocabulary whose tokens are not empty and have no byte 0 behind the first byte.\<close>

definition vocab_ok :: "bytes list \<Rightarrow> bool" where
  "vocab_ok tokens \<longleftrightarrow> list_all (\<lambda>x. x \<noteq> [] \<and> 0 \<notin> set (tl x)) tokens"

lemma vocab_no_inner_nul: "vocab_ok tokens \<Longrightarrow> no_inner_nul (insert_all tokens (new_Trie 10000))"
  unfolding no_inner_nul_def
proof (intro allI impI)
  fix w assume v: "vocab_ok tokens" and w: "walk (insert_all tokens (new_Trie 10000)) 0 w \<noteq> None"
  show "0 \<notin> set (tl w)"
  proof (cases w)
    case (Cons c u)
    obtain x where x: "x \<in> set tokens" "prefix w x" using insert_all_ok [of tokens] w Cons by blast
    then have "set (tl w) \<subseteq> set (tl x)" using Cons by (auto simp: prefix_def)
    then show ?thesis using v x(1) unfolding vocab_ok_def list_all_iff by blast
  qed simp
qed

lemma Trie_find_longest:
  assumes v: "vocab_ok tokens" and s: "s < length str"
  shows "Trie_find (insert_all tokens (new_Trie 10000)) str s =
    Some (case longest_token tokens (drop s str) of None \<Rightarrow> (-1, s + 1) | Some (i, k) \<Rightarrow> (int i, s + k))"
proof -
  let ?t = "insert_all tokens (new_Trie 10000)" and ?w = "drop s str"
  have look: "lookup ?t w = map_option int (first_index tokens w)" for w using insert_all_ok by blast
  obtain r where r: "Trie_find ?t str s = Some r" "best ?t ?w s (Suc (length str - s)) r"
    using Trie_find_best [OF vocab_no_inner_nul [OF v] s] by blast
  from r(2) have "r = (case longest_token tokens ?w of None \<Rightarrow> (-1, s + 1) | Some (i, k) \<Rightarrow> (int i, s + k))"
    unfolding best_def
  proof (elim disjE exE conjE)
    fix k assume k: "k < Suc (length str - s)" "lookup ?t (take k ?w) = Some (fst r)" "snd r = s + k"
      "\<forall>j<Suc (length str - s). k < j \<longrightarrow> lookup ?t (take j ?w) = None"
    obtain i where i: "first_index tokens (take k ?w) = Some i" "fst r = int i"
      using k(2) unfolding look by (cases "first_index tokens (take k ?w)") simp_all
    have "take k ?w \<in> set tokens" using i(1) first_index_None by (metis option.distinct(1))
    moreover have "take j ?w \<notin> set tokens" if "k < j" "j \<le> length ?w" for j
      using k(4) that unfolding look by (simp add: first_index_None)
    ultimately obtain ks where "hits tokens ?w = k # ks"
      unfolding hits_def using filter_rev_upt [of "\<lambda>k. take k ?w \<in> set tokens" k "length ?w"] k(1) by auto
    then have "longest_token tokens ?w = Some (i, k)" using i(1) unfolding longest_token_def by simp
    then show ?thesis using i(2) k(3) by (simp add: prod_eq_iff)
  next
    assume n: "r = (-1, s + 1)" "\<forall>j<Suc (length str - s). lookup ?t (take j ?w) = None"
    have "take j ?w \<notin> set tokens" if "j < Suc (length ?w)" for j using n(2) that unfolding look by (simp add: first_index_None)
    then have "set (hits tokens ?w) = {}" unfolding set_hits by (auto simp: less_Suc_eq_le)
    then have "longest_token tokens ?w = None" unfolding longest_token_def by simp
    then show ?thesis using n(1) by simp
  qed
  then show ?thesis using r(1) by simp
qed

lemma longest_token_Some:
  assumes "vocab_ok tokens" and "longest_token tokens w = Some (i, k)"
  shows "0 < k \<and> k \<le> length w \<and> i < length tokens \<and> tokens ! i = take k w"
proof -
  obtain ks where f: "hits tokens w = k # ks" and i: "first_index tokens (take k w) = Some i"
    using assms(2) unfolding longest_token_def by (auto split: list.splits)
  have "k \<in> set (hits tokens w)" unfolding f by simp
  then have "k \<le> length w" "take k w \<in> set tokens" unfolding set_hits by auto
  moreover have "take k w \<noteq> []" using assms(1) \<open>take k w \<in> set tokens\<close> unfolding vocab_ok_def list_all_iff by blast
  ultimately show ?thesis using first_index_Some [OF i] by auto
qed

lemma longest_token_byte: "w \<noteq> [] \<Longrightarrow> [hd w] \<in> set tokens \<Longrightarrow> longest_token tokens w \<noteq> None"
proof
  assume w: "w \<noteq> []" "[hd w] \<in> set tokens" and n: "longest_token tokens w = None"
  have "take 1 w = [hd w]" using w(1) by (cases w) auto
  then have "1 \<in> set (hits tokens w)" unfolding set_hits using w by (cases w) auto
  then obtain k ks where f: "hits tokens w = k # ks" by (cases "hits tokens w") auto
  then have "k \<in> set (hits tokens w)" by simp
  then have "take k w \<in> set tokens" unfolding set_hits by simp
  then have "first_index tokens (take k w) \<noteq> None" unfolding first_index_None by simp
  then show False using n unfolding longest_token_def f by auto
qed

section \<open>The encoding loop\<close>

lemma Tiktoken_loop_ends:
  assumes v: "vocab_ok tokens"
  defines "t \<equiv> insert_all tokens (new_Trie 10000)"
  shows "s \<le> length str \<Longrightarrow> \<exists>new. Tiktoken_loop t str s ids = Some (ids @ new) \<and> (\<forall>i\<in>set new. 0 \<le> i \<and> nat i < length tokens) \<and>
     (list_all (\<lambda>c. [c] \<in> set tokens) (drop s str) \<longrightarrow> concat (map (\<lambda>i. tokens ! nat i) new) = drop s str)"
proof (induction "length str - s" arbitrary: s ids rule: less_induct)
  case less
  show ?case
  proof (cases "s = length str")
    case True
    then show ?thesis by (subst Tiktoken_loop.simps) simp
  next
    case False
    then have s: "s < length str" using less.prems by simp
    note find = Trie_find_longest [OF v s, folded t_def]
    show ?thesis
    proof (cases "longest_token tokens (drop s str)")
      case None
      have "length str - (s + 1) < length str - s" "s + 1 \<le> length str" using s by simp_all
      from less.hyps [OF this, of ids] obtain new where "Tiktoken_loop t str (s + 1) ids = Some (ids @ new)"
        "\<forall>i\<in>set new. 0 \<le> i \<and> nat i < length tokens" by blast
      moreover have "Tiktoken_loop t str s ids = Tiktoken_loop t str (s + 1) ids"
        using False None by (subst Tiktoken_loop.simps) (simp add: find)
      moreover have "\<not> list_all (\<lambda>c. [c] \<in> set tokens) (drop s str)"
      proof
        assume "list_all (\<lambda>c. [c] \<in> set tokens) (drop s str)"
        then have "[hd (drop s str)] \<in> set tokens" using s by (cases "drop s str") auto
        then show False using longest_token_byte [of "drop s str" tokens] s None by simp
      qed
      ultimately show ?thesis by auto
    next
      case (Some ik)
      obtain i k where ik: "longest_token tokens (drop s str) = Some (i, k)" using Some by (cases ik) simp
      note k = longest_token_Some [OF v ik]
      have "length str - (s + k) < length str - s" "s + k \<le> length str" using s k [unfolded length_drop] by linarith+
      from less.hyps [OF this, of "ids @ [int i]"] obtain new where new: "Tiktoken_loop t str (s + k) (ids @ [int i]) = Some ((ids @ [int i]) @ new)"
        "\<forall>i\<in>set new. 0 \<le> i \<and> nat i < length tokens"
        "list_all (\<lambda>c. [c] \<in> set tokens) (drop (s + k) str) \<longrightarrow> concat (map (\<lambda>i. tokens ! nat i) new) = drop (s + k) str" by blast
      have d: "drop s str = take k (drop s str) @ drop (s + k) str" by (metis append_take_drop_id drop_drop add.commute)
      have "Tiktoken_loop t str s ids = Tiktoken_loop t str (s + k) (ids @ [int i])"
        using False by (subst Tiktoken_loop.simps) (simp add: find ik)
      moreover have "list_all (\<lambda>c. [c] \<in> set tokens) (drop (s + k) str)" if "list_all (\<lambda>c. [c] \<in> set tokens) (drop s str)"
        using that by (subst (asm) d) simp
      then have "concat (map (\<lambda>i. tokens ! nat i) (int i # new)) = drop s str" if "list_all (\<lambda>c. [c] \<in> set tokens) (drop s str)"
        using new(3) that k by (subst d) simp
      ultimately show ?thesis using new(1,2) k by (intro exI [of _ "int i # new"]) simp
    qed
  qed
qed

end
