(* ===== verification/Token_Base64.thy ===== *)
theory Token_Base64
  imports Token_Model
begin

text \<open>Base64 as RFC 4648 writes it, and that \<open>base64_decode\<close> reads it back.\<close>

definition b64 :: "byte \<Rightarrow> byte" where
  "b64 v = base64_chars ! unat v"

fun base64_encode :: "bytes \<Rightarrow> bytes" where
  "base64_encode [] = []"
| "base64_encode [a] = [b64 (drop_bit 2 a), b64 (push_bit 4 (a AND 3)), 61, 61]"
| "base64_encode [a, b] = [b64 (drop_bit 2 a), b64 (push_bit 4 (a AND 3) OR drop_bit 4 b), b64 (push_bit 2 (b AND 15)), 61]"
| "base64_encode (a # b # c # xs) =
     b64 (drop_bit 2 a) # b64 (push_bit 4 (a AND 3) OR drop_bit 4 b) # b64 (push_bit 2 (b AND 15) OR drop_bit 6 c) # b64 (c AND 63) # base64_encode xs"

lemma base64_chars_codes: "base64_chars = [65, 66, 67, 68, 69, 70, 71, 72, 73, 74, 75, 76, 77, 78, 79, 80, 81, 82, 83, 84, 85, 86, 87, 88, 89, 90, 97, 98, 99, 100, 101, 102, 103, 104, 105, 106, 107, 108, 109, 110, 111, 112, 113, 114, 115, 116, 117, 118, 119, 120, 121, 122, 48, 49, 50, 51, 52, 53, 54, 55, 56, 57, 43, 47]"
  by (simp add: base64_chars_def)

lemma base64_chars_props: "length base64_chars = 64" "distinct base64_chars" "list_all (\<lambda>c. is_base64 c \<and> c \<noteq> 61) base64_chars"
  unfolding base64_chars_codes by (simp_all add: is_base64_def isalnum_def isdigit_def isupper_def islower_def)

lemma b64_value: "v < 64 \<Longrightarrow> base64_find (b64 v) = v \<and> is_base64 (b64 v) \<and> b64 v \<noteq> 61"
proof -
  assume "v < 64"
  then have v: "unat v < 64" by (simp add: word_less_nat_alt)
  have "filter (\<lambda>i. base64_chars ! i = b64 v) [0..<64] = [unat v]"
    by (rule filter_single_upt [OF v]) (use v base64_chars_props(1,2) in \<open>simp add: b64_def nth_eq_iff_index_eq\<close>)
  moreover have "b64 v \<in> set base64_chars" using v base64_chars_props(1) by (simp add: b64_def)
  ultimately show ?thesis using base64_chars_props(3) by (simp add: base64_find_def list_all_iff)
qed

lemma byte_eqI: "(\<forall>n<8. bit (x :: byte) n = bit y n) \<Longrightarrow> x = y"
  by (rule bit_word_eqI) simp

lemma all8: "(\<forall>n<8. P n) \<longleftrightarrow> P 0 \<and> P 1 \<and> P 2 \<and> P 3 \<and> P 4 \<and> P 5 \<and> P 6 \<and> P (7 :: nat)"
  by (simp add: eval_nat_numeral All_less_Suc conj_ac)

lemma quad_bytes:
  fixes a b c :: byte
  shows "push_bit 2 (drop_bit 2 a) + drop_bit 4 ((push_bit 4 (a AND 3) OR drop_bit 4 b) AND 0x30) = a"
    "push_bit 4 ((push_bit 4 (a AND 3) OR drop_bit 4 b) AND 0xf) + drop_bit 2 ((push_bit 2 (b AND 15) OR drop_bit 6 c) AND 0x3c) = b"
    "push_bit 6 ((push_bit 2 (b AND 15) OR drop_bit 6 c) AND 0x3) + (c AND 63) = c"
  by (subst disjunctive_add_eq_or; rule byte_eqI; simp add: all8 bit_simps; simp add: numeral_2_eq_2 numeral_3_eq_3)+

lemma unat_numeral_64: "unat (64 :: byte) = 64"
  by simp

lemma bit_beyond: "8 \<le> n \<Longrightarrow> \<not> bit (x :: byte) n"
  by (auto dest: bit_imp_le_length)

lemma below_64: "(\<forall>n<8. n \<ge> 6 \<longrightarrow> \<not> bit (x :: byte) n) \<Longrightarrow> x < 64"
proof -
  assume b: "\<forall>n<8. n \<ge> 6 \<longrightarrow> \<not> bit x n"
  then have "x = take_bit 6 x" by (intro byte_eqI) (auto simp: bit_simps)
  then have "x = x mod 64" by (simp add: take_bit_eq_mod)
  then have "unat x = unat x mod 64" by (metis unat_mod unat_numeral_64)
  then show ?thesis unfolding word_less_nat_alt by (metis mod_less_divisor unat_numeral_64 zero_less_numeral)
qed

lemma sextets:
  fixes a b c :: byte
  shows "drop_bit 2 a < 64" "push_bit 4 (a AND 3) OR drop_bit 4 b < 64" "push_bit 2 (b AND 15) OR drop_bit 6 c < 64" "c AND 63 < 64"
    "push_bit 4 (a AND 3) < 64" "push_bit 2 (b AND 15) < 64"
  by (rule below_64; simp add: all8 bit_simps bit_beyond)+

lemma char_array_3_quad: "char_array_3 [p, q, r, s] =
    [push_bit 2 p + drop_bit 4 (q AND 0x30), push_bit 4 (q AND 0xf) + drop_bit 2 (r AND 0x3c), push_bit 6 (r AND 0x3) + s]"
  unfolding char_array_3_def by (simp only: nth_Cons_0 nth_Cons_Suc numeral_2_eq_2 numeral_3_eq_3 One_nat_def)

lemma rest_bytes:
  fixes a b :: byte
  shows "push_bit 2 (drop_bit 2 a) + drop_bit 4 (push_bit 4 (a AND 3) AND 0x30) = a"
    "push_bit 4 ((push_bit 4 (a AND 3) OR drop_bit 4 b) AND 0xf) + drop_bit 2 (push_bit 2 (b AND 15) AND 0x3c) = b"
  by (subst disjunctive_add_eq_or; rule byte_eqI; simp add: all8 bit_simps; simp add: numeral_2_eq_2 numeral_3_eq_3)+

text \<open>Three bytes at a time, and what is left at the end.\<close>

definition finish :: "bytes \<times> bytes \<Rightarrow> bytes" where
  "finish r = (if fst r \<noteq> [] then
     snd r @ take (length (fst r) - 1) (char_array_3 (map base64_find (fst r @ replicate (4 - length (fst r)) 0))) else snd r)"

lemma base64_decode_finish: "base64_decode str = finish (base64_loop str [] [])"
  by (simp add: base64_decode_def finish_def case_prod_beta)

lemma base64_loop_parts:
  "p < 64 \<Longrightarrow> q < 64 \<Longrightarrow> base64_loop [b64 p, b64 q, 61, 61] [] ret = ([b64 p, b64 q], ret)"
  "p < 64 \<Longrightarrow> q < 64 \<Longrightarrow> r < 64 \<Longrightarrow> base64_loop [b64 p, b64 q, b64 r, 61] [] ret = ([b64 p, b64 q, b64 r], ret)"
  "p < 64 \<Longrightarrow> q < 64 \<Longrightarrow> r < 64 \<Longrightarrow> s < 64 \<Longrightarrow>
     base64_loop (b64 p # b64 q # b64 r # b64 s # cs) [] ret = base64_loop cs [] (ret @ char_array_3 [p, q, r, s])"
  by (simp_all add: b64_value)

lemma finish_parts:
  "p < 64 \<Longrightarrow> q < 64 \<Longrightarrow> finish ([b64 p, b64 q], ret) = ret @ [push_bit 2 p + drop_bit 4 (q AND 0x30)]"
  "p < 64 \<Longrightarrow> q < 64 \<Longrightarrow> r < 64 \<Longrightarrow> finish ([b64 p, b64 q, b64 r], ret) =
     ret @ [push_bit 2 p + drop_bit 4 (q AND 0x30), push_bit 4 (q AND 0xf) + drop_bit 2 (r AND 0x3c)]"
  by (simp_all add: finish_def b64_value char_array_3_def)

lemma finish_loop: "finish (base64_loop (base64_encode bs) [] ret) = ret @ bs"
proof (induction bs arbitrary: ret rule: base64_encode.induct)
  case 1
  show ?case by (simp add: finish_def)
next
  case (2 a)
  show ?case unfolding base64_encode.simps base64_loop_parts(1) [OF sextets(1,5)] finish_parts(1) [OF sextets(1,5)] rest_bytes(1) ..
next
  case (3 a b)
  show ?case
    unfolding base64_encode.simps base64_loop_parts(2) [OF sextets(1,2,6)] finish_parts(2) [OF sextets(1,2,6)] rest_bytes(2) quad_bytes(1) ..
next
  case (4 a b c xs)
  show ?case
    unfolding base64_encode.simps base64_loop_parts(3) [OF sextets(1-4)] char_array_3_quad quad_bytes "4.IH" by simp
qed

lemma base64_decode_encode: "base64_decode (base64_encode bs) = bs"
  unfolding base64_decode_finish finish_loop by simp

end
