(* ===== verification/Token_Bpe.thy ===== *)
theory Token_Bpe
  imports Token_Model
begin

text \<open>
  Byte pair encoding of \<open>HuggingfaceTokenizer\<close> (tokenizer.cpp): \<open>bpe\<close> keeps the pairs of neighbours in a
  vector and the indices of merged pairs in a set. It refines the textbook algorithm, which replaces the
  first best pair of neighbours in the list of pieces by its concatenation until no pair has a rank.
\<close>

section \<open>The code\<close>

type_synonym ranks = "wstring \<times> wstring \<Rightarrow> int option"

definition INT_MAX :: int where
  "INT_MAX = 2147483647"

fun get_pairs :: "wstring \<Rightarrow> (wstring \<times> wstring) list" where
  "get_pairs (c # d # w) = ([c], [d]) # get_pairs (d # w)"
| "get_pairs w = []"

text \<open>\<open>_left\<close> (\<open>None\<close> for -1) and \<open>_right\<close>: the next pairs that are not merged.\<close>

definition bpe_left :: "nat \<Rightarrow> nat set \<Rightarrow> nat option" where
  "bpe_left i merged = (case filter (\<lambda>j. j \<notin> merged) (rev [0..<i]) of j # _ \<Rightarrow> Some j | [] \<Rightarrow> None)"

definition bpe_right :: "nat \<Rightarrow> nat \<Rightarrow> nat set \<Rightarrow> nat" where
  "bpe_right i cap merged = (case filter (\<lambda>j. j \<notin> merged) [Suc i..<cap] of j # _ \<Rightarrow> j | [] \<Rightarrow> cap)"

definition score :: "ranks \<Rightarrow> wstring \<times> wstring \<Rightarrow> int" where
  "score ranks p = (case ranks p of Some r \<Rightarrow> r | None \<Rightarrow> INT_MAX)"

definition to_merge :: "ranks \<Rightarrow> (wstring \<times> wstring) list \<Rightarrow> nat set \<Rightarrow> nat option" where
  "to_merge ranks pairs merged =
     snd (fold (\<lambda>i (min_score, best).
        if i \<notin> merged \<and> score ranks (pairs ! i) < min_score then (score ranks (pairs ! i), Some i) else (min_score, best))
       [0..<length pairs] (INT_MAX, None))"

definition bpe_merge :: "nat \<Rightarrow> (wstring \<times> wstring) list \<Rightarrow> nat set \<Rightarrow> (wstring \<times> wstring) list" where
  "bpe_merge k pairs merged =
     (let merge_into = fst (pairs ! k) @ snd (pairs ! k);
          pairs = (case bpe_left k merged of Some l \<Rightarrow> pairs[l := (fst (pairs ! l), merge_into)] | None \<Rightarrow> pairs);
          r = bpe_right k (length pairs) merged
      in if r < length pairs then pairs[r := (merge_into, snd (pairs ! r))] else pairs)"

lemma to_merge_range: "to_merge ranks pairs merged = Some k \<Longrightarrow> k < length pairs \<and> k \<notin> merged"
proof -
  let ?f = "\<lambda>i (min_score, best). if i \<notin> merged \<and> score ranks (pairs ! i) < min_score then (score ranks (pairs ! i), Some i) else (min_score, best)"
  have "snd (fold ?f is (m, None)) = Some k \<Longrightarrow> k \<in> set is \<and> k \<notin> merged" for "is" m
  proof (induction "is" rule: rev_induct)
    case (snoc i "is")
    then show ?case by (auto simp: case_prod_beta split: if_splits)
  qed simp
  then show "to_merge ranks pairs merged = Some k \<Longrightarrow> k < length pairs \<and> k \<notin> merged" unfolding to_merge_def by fastforce
qed

lemma bpe_merge_length [simp]: "length (bpe_merge k pairs merged) = length pairs"
  by (simp add: bpe_merge_def Let_def split: option.split)

function bpe_loop :: "ranks \<Rightarrow> (wstring \<times> wstring) list \<Rightarrow> nat set \<Rightarrow> (wstring \<times> wstring) list \<times> nat set" where
  "bpe_loop ranks pairs merged =
     (case to_merge ranks pairs merged of
        None \<Rightarrow> (pairs, merged)
      | Some k \<Rightarrow> bpe_loop ranks (bpe_merge k pairs (insert k merged)) (insert k merged))"
  by auto
termination
proof (relation "measure (\<lambda>(ranks, pairs, merged). card ({..<length pairs} - merged))")
  fix ranks pairs merged k
  assume "to_merge ranks pairs merged = Some k"
  from to_merge_range [OF this] have "{..<length pairs} - insert k merged \<subset> {..<length pairs} - merged" by auto
  then show "((ranks, bpe_merge k pairs (insert k merged), insert k merged), ranks, pairs, merged)
      \<in> measure (\<lambda>(ranks, pairs, merged). card ({..<length pairs} - merged))"
    by (simp add: psubset_card_mono)
qed simp

declare bpe_loop.simps [simp del]

definition bpe :: "ranks \<Rightarrow> wstring \<Rightarrow> wstring list" where
  "bpe ranks token =
     (let (pairs, merged) = bpe_loop ranks (get_pairs token) {}
      in if card merged = length pairs then [token]
         else concat (map (\<lambda>i. if i \<in> merged then []
              else (if bpe_left i merged = None then [fst (pairs ! i)] else []) @ [snd (pairs ! i)]) [0..<length pairs]))"

section \<open>The list of pieces\<close>

text \<open>The reference: the first pair of neighbours with the least rank is joined, until none has a rank.\<close>

definition best_pair :: "ranks \<Rightarrow> (wstring \<times> wstring) list \<Rightarrow> nat option" where
  "best_pair ranks ps =
     snd (fold (\<lambda>j (m, best). if score ranks (ps ! j) < m then (score ranks (ps ! j), Some j) else (m, best)) [0..<length ps] (INT_MAX, None))"

definition neighbours :: "wstring list \<Rightarrow> (wstring \<times> wstring) list" where
  "neighbours pieces = zip pieces (tl pieces)"

lemma best_pair_range: "best_pair ranks ps = Some j \<Longrightarrow> j < length ps"
  using to_merge_range [of ranks ps "{}" j] by (simp add: to_merge_def best_pair_def)

function bpe_pieces :: "ranks \<Rightarrow> wstring list \<Rightarrow> wstring list" where
  "bpe_pieces ranks pieces =
     (case best_pair ranks (neighbours pieces) of
        None \<Rightarrow> pieces
      | Some j \<Rightarrow> bpe_pieces ranks (take j pieces @ (pieces ! j @ pieces ! Suc j) # drop (Suc (Suc j)) pieces))"
  by auto
termination
  by (relation "measure (\<lambda>(ranks, pieces). length pieces)") (auto dest!: best_pair_range simp: neighbours_def)

declare bpe_pieces.simps [simp del]

section \<open>The pairs that are left\<close>

definition live :: "'a list \<Rightarrow> nat set \<Rightarrow> nat list" where
  "live pairs merged = filter (\<lambda>j. j \<notin> merged) [0..<length pairs]"

text \<open>Neighbouring pairs share a piece; the pieces are the first pair's left one and all right ones.\<close>

fun linked :: "('a \<times> 'a) list \<Rightarrow> bool" where
  "linked (p # q # ps) \<longleftrightarrow> snd p = fst q \<and> linked (q # ps)"
| "linked ps \<longleftrightarrow> True"

definition pieces_of :: "wstring \<Rightarrow> (wstring \<times> wstring) list \<Rightarrow> wstring list" where
  "pieces_of token ps = (if ps = [] then [token] else fst (hd ps) # map snd ps)"

lemma neighbours_linked: "linked ps \<Longrightarrow> neighbours (pieces_of token ps) = ps"
proof -
  have "linked ps \<Longrightarrow> ps \<noteq> [] \<Longrightarrow> zip (fst (hd ps) # map snd ps) (map snd ps) = ps" for ps :: "(wstring \<times> wstring) list"
    by (induction ps rule: linked.induct) auto
  then show "linked ps \<Longrightarrow> neighbours (pieces_of token ps) = ps" by (simp add: neighbours_def pieces_of_def)
qed

lemma linked_append: "linked (xs @ ys) \<longleftrightarrow> linked xs \<and> linked ys \<and> (xs \<noteq> [] \<longrightarrow> ys \<noteq> [] \<longrightarrow> snd (last xs) = fst (hd ys))"
proof (induction xs)
  case (Cons x xs)
  then show ?case by (cases xs; cases ys) auto
qed simp

definition set_right :: "'a \<Rightarrow> ('a \<times> 'a) list \<Rightarrow> ('a \<times> 'a) list" where
  "set_right w ps = (if ps = [] then [] else butlast ps @ [(fst (last ps), w)])"

definition set_left :: "'a \<Rightarrow> ('a \<times> 'a) list \<Rightarrow> ('a \<times> 'a) list" where
  "set_left w ps = (case ps of [] \<Rightarrow> [] | p # ps \<Rightarrow> (w, snd p) # ps)"

lemma linked_join: "linked (A @ (a, b) # B) \<Longrightarrow> linked (set_right (w :: 'a) A @ set_left w B)"
proof -
  assume l: "linked (A @ (a, b) # B)"
  have "linked (set_right w A)" if "linked A" for A :: "('a \<times> 'a) list"
    using that by (cases A rule: rev_cases) (auto simp: set_right_def linked_append)
  moreover have "linked (set_left w B)" if "linked B" for B :: "('a \<times> 'a) list"
    using that by (cases B rule: linked.cases) (auto simp: set_left_def)
  moreover have "linked A" "linked ((a, b) # B)" using l by (simp_all add: linked_append)
  moreover from this(2) have "linked B" by (cases B) simp_all
  ultimately show ?thesis by (auto simp: linked_append set_right_def set_left_def split: list.splits)
qed

lemma pieces_join:
  fixes token :: wstring
  assumes l: "linked (A @ (a, b) # B)" and ne: "A \<noteq> [] \<or> B \<noteq> []"
  defines "P \<equiv> pieces_of token (A @ (a, b) # B)"
  shows "pieces_of token (set_right (a @ b) A @ set_left (a @ b) B) =
    take (length A) P @ (P ! length A @ P ! Suc (length A)) # drop (Suc (Suc (length A))) P"
proof -
  have m: "map snd (set_left (a @ b) B) = map snd B" by (simp add: set_left_def split: list.split)
  show ?thesis
  proof (cases A rule: rev_cases)
    case Nil
    then show ?thesis using ne by (cases B) (simp_all add: P_def pieces_of_def set_right_def set_left_def)
  next
    case (snoc A' p)
    have p: "snd p = a" using l snoc by (simp add: linked_append)
    have P: "P = (fst (hd A) # map snd A') @ a # b # map snd B" using snoc p by (cases A') (simp_all add: P_def pieces_of_def)
    have "length (fst (hd A) # map snd A') = length A" using snoc by simp
    then have "take (length A) P = fst (hd A) # map snd A'" "P ! length A = a" "P ! Suc (length A) = b"
      "drop (Suc (Suc (length A))) P = map snd B"
      unfolding P by (simp_all only: take_append nth_append drop_append) simp_all
    moreover have "pieces_of token (set_right (a @ b) A @ set_left (a @ b) B) = fst (hd A) # map snd A' @ (a @ b) # map snd B"
      using snoc by (cases A') (simp_all add: pieces_of_def set_right_def m)
    ultimately show ?thesis by simp
  qed
qed

section \<open>One merge\<close>

text \<open>The live indices on both sides of one of them.\<close>

lemma live_split:
  assumes "k < length pairs" and "k \<notin> merged"
  shows "live pairs merged = filter (\<lambda>j. j \<notin> merged) [0..<k] @ k # filter (\<lambda>j. j \<notin> merged) [Suc k..<length pairs]"
proof -
  have "[0..<length pairs] = [0..<k] @ [k..<length pairs]" using assms(1) upt_add_eq_append [of 0 k "length pairs - k"] by simp
  also have "[k..<length pairs] = k # [Suc k..<length pairs]" using assms(1) by (rule upt_conv_Cons)
  finally show ?thesis unfolding live_def using assms(2) by simp
qed

lemma live_insert:
  assumes "k < length pairs" and "k \<notin> merged" and "length pairs' = length pairs"
  shows "live pairs' (insert k merged) = filter (\<lambda>j. j \<notin> merged) [0..<k] @ filter (\<lambda>j. j \<notin> merged) [Suc k..<length pairs]"
proof -
  have "live pairs' (insert k merged) = filter (\<lambda>j. j \<noteq> k) (live pairs merged)"
    using assms(3) by (simp add: live_def filter_filter) (metis (mono_tags))
  also have "\<dots> = filter (\<lambda>j. j \<noteq> k) (filter (\<lambda>j. j \<notin> merged) [0..<k]) @ filter (\<lambda>j. j \<noteq> k) (filter (\<lambda>j. j \<notin> merged) [Suc k..<length pairs])"
    unfolding live_split [OF assms(1,2)] by simp
  also have "filter (\<lambda>j. j \<noteq> k) (filter (\<lambda>j. j \<notin> merged) [0..<k]) = filter (\<lambda>j. j \<notin> merged) [0..<k]"
    by (rule filter_True) auto
  also have "filter (\<lambda>j. j \<noteq> k) (filter (\<lambda>j. j \<notin> merged) [Suc k..<length pairs]) = filter (\<lambda>j. j \<notin> merged) [Suc k..<length pairs]"
    by (rule filter_True) auto
  finally show ?thesis .
qed

lemma bpe_left_last: "bpe_left k (insert k merged) =
    (if filter (\<lambda>j. j \<notin> merged) [0..<k] = [] then None else Some (last (filter (\<lambda>j. j \<notin> merged) [0..<k])))"
proof -
  have "filter (\<lambda>j. j \<notin> insert k merged) (rev [0..<k]) = rev (filter (\<lambda>j. j \<notin> merged) [0..<k])"
    unfolding rev_filter [symmetric] by (rule arg_cong [where f = rev], rule filter_cong) auto
  then show ?thesis unfolding bpe_left_def by (cases "filter (\<lambda>j. j \<notin> merged) [0..<k]" rule: rev_cases) simp_all
qed

lemma bpe_right_hd: "bpe_right k n (insert k merged) =
    (case filter (\<lambda>j. j \<notin> merged) [Suc k..<n] of [] \<Rightarrow> n | j # _ \<Rightarrow> j)"
proof -
  have "filter (\<lambda>j. j \<notin> insert k merged) [Suc k..<n] = filter (\<lambda>j. j \<notin> merged) [Suc k..<n]" by (rule filter_cong) auto
  then show ?thesis unfolding bpe_right_def by (simp split: list.split)
qed

lemma map_nth_set_right:
  assumes "distinct (xs @ ys)" and "\<forall>i\<in>set xs. i < length ps" and "xs \<noteq> []"
  shows "map ((!) (ps[last xs := (fst (ps ! last xs), w)])) xs = set_right w (map ((!) ps) xs)"
    "map ((!) (ps[last xs := (fst (ps ! last xs), w)])) ys = map ((!) ps) ys"
  using assms by (cases xs rule: rev_cases; auto simp: set_right_def nth_list_update)+

lemma map_nth_set_left:
  assumes "distinct (xs @ y # ys)" and "y < length ps"
  shows "map ((!) (ps[y := (w, snd (ps ! y))])) (y # ys) = set_left w (map ((!) ps) (y # ys))"
    "map ((!) (ps[y := (w, snd (ps ! y))])) xs = map ((!) ps) xs"
  using assms by (auto simp: set_left_def nth_list_update)

lemma bpe_merge_live:
  fixes pairs :: "(wstring \<times> wstring) list"
  assumes k: "k < length pairs" "k \<notin> merged"
  defines "xs \<equiv> filter (\<lambda>j. j \<notin> merged) [0..<k]" and "ys \<equiv> filter (\<lambda>j. j \<notin> merged) [Suc k..<length pairs]"
  defines "pairs' \<equiv> bpe_merge k pairs (insert k merged)" and "w \<equiv> fst (pairs ! k) @ snd (pairs ! k)"
  shows "map ((!) pairs') (live pairs' (insert k merged)) = set_right w (map ((!) pairs) xs) @ set_left w (map ((!) pairs) ys)"
proof -
  define p1 where "p1 = (if xs = [] then pairs else pairs[last xs := (fst (pairs ! last xs), w)])"
  have d: "distinct (xs @ ys)" "\<forall>i\<in>set xs. i < length pairs" "\<forall>i\<in>set ys. i < length pairs"
    unfolding xs_def ys_def using k(1) by auto
  have len: "length p1 = length pairs" by (simp add: p1_def)
  have p1: "map ((!) p1) xs = set_right w (map ((!) pairs) xs)" "map ((!) p1) ys = map ((!) pairs) ys"
    using map_nth_set_right [OF d(1,2), of w] by (simp_all add: p1_def set_right_def)
  have e: "pairs' = (case ys of [] \<Rightarrow> p1 | y # _ \<Rightarrow> p1[y := (w, snd (p1 ! y))])"
    using d(3) unfolding pairs'_def bpe_merge_def Let_def bpe_left_last bpe_right_hd xs_def [symmetric] w_def [symmetric]
    by (auto simp: p1_def ys_def [symmetric] split: list.split)
  have "length pairs' = length pairs" by (simp add: pairs'_def)
  from live_insert [OF k this] have l: "live pairs' (insert k merged) = xs @ ys" by (simp add: xs_def ys_def)
  show ?thesis
  proof (cases ys)
    case Nil
    then show ?thesis unfolding l unfolding e by (simp add: p1 set_left_def)
  next
    case (Cons y zs)
    have "y < length p1" using d(3) Cons len by simp
    from map_nth_set_left [OF d(1) [unfolded Cons] this, of w] show ?thesis
      unfolding l map_append unfolding e Cons list.case p1(1) p1(2) [unfolded Cons] by (simp only: p1(1))
  qed
qed

section \<open>The refinement\<close>

lemma fold_filter: "fold (\<lambda>i. if P i then f i else id) xs = fold f (filter P xs)"
  by (induction xs) auto

lemma to_merge_live:
  "to_merge ranks pairs merged = map_option ((!) (live pairs merged)) (best_pair ranks (map ((!) pairs) (live pairs merged)))"
proof -
  let ?us = "live pairs merged"
  let ?f = "\<lambda>i (m, best). if score ranks (pairs ! i) < m then (score ranks (pairs ! i), Some i) else (m, best)"
  let ?g = "\<lambda>j (m, best). if score ranks (map ((!) pairs) ?us ! j) < m then (score ranks (map ((!) pairs) ?us ! j), Some j) else (m, best)"
  have "(\<lambda>i (m, best). if i \<notin> merged \<and> score ranks (pairs ! i) < m then (score ranks (pairs ! i), Some i) else (m, best)) =
      (\<lambda>i. if i \<notin> merged then ?f i else id)" by (auto simp: fun_eq_iff)
  then have a: "to_merge ranks pairs merged = snd (fold ?f ?us (INT_MAX, None))"
    unfolding to_merge_def live_def by (simp only: fold_filter)
  have "n \<le> length ?us \<Longrightarrow> fold ?f (take n ?us) (m, None) = map_prod id (map_option ((!) ?us)) (fold ?g [0..<n] (m, None))" for n m
  proof (induction n)
    case (Suc n)
    then have n: "n < length ?us" by simp
    have "fold ?f (take (Suc n) ?us) (m, None) = ?f (?us ! n) (fold ?f (take n ?us) (m, None))"
      by (simp add: take_Suc_conv_app_nth [OF n])
    also have "fold ?f (take n ?us) (m, None) = map_prod id (map_option ((!) ?us)) (fold ?g [0..<n] (m, None))"
      by (rule Suc.IH) (use Suc.prems in simp)
    also have "?f (?us ! n) (map_prod id (map_option ((!) ?us)) x) = map_prod id (map_option ((!) ?us)) (?g n x)" for x
      using n by (cases x) simp
    also have "?g n (fold ?g [0..<n] (m, None)) = fold ?g [0..<Suc n] (m, None)" by simp
    finally show ?case .
  qed simp
  from this [of "length ?us" INT_MAX] have "fold ?f ?us (INT_MAX, None) = map_prod id (map_option ((!) ?us)) (fold ?g [0..<length ?us] (INT_MAX, None))" by simp
  then show ?thesis unfolding a best_pair_def by (simp add: map_prod_def case_prod_beta)
qed

lemma concat_join: "Suc n < length xs \<Longrightarrow> concat (take n xs @ (xs ! n @ xs ! Suc n) # drop (Suc (Suc n)) xs) = concat xs"
proof -
  assume n: "Suc n < length xs"
  have "xs = take n xs @ xs ! n # xs ! Suc n # drop (Suc (Suc n)) xs"
    using n by (simp add: Cons_nth_drop_Suc)
  then have "concat xs = concat (take n xs @ xs ! n # xs ! Suc n # drop (Suc (Suc n)) xs)" by (rule arg_cong)
  then show ?thesis by simp
qed

lemma bpe_loop_pieces:
  "linked (map ((!) pairs) (live pairs merged)) \<Longrightarrow> concat (pieces_of token (map ((!) pairs) (live pairs merged))) = token \<Longrightarrow>
   (case bpe_loop ranks pairs merged of (pairs', merged') \<Rightarrow>
      length pairs' = length pairs \<and> merged' - merged \<subseteq> {..<length pairs} \<and>
      pieces_of token (map ((!) pairs') (live pairs' merged')) = bpe_pieces ranks (pieces_of token (map ((!) pairs) (live pairs merged))))"
proof (induction ranks pairs merged rule: bpe_loop.induct)
  case (1 ranks pairs merged)
  let ?P = "map ((!) pairs) (live pairs merged)"
  show ?case
  proof (cases "to_merge ranks pairs merged")
    case None
    then have "best_pair ranks (neighbours (pieces_of token ?P)) = None"
      unfolding neighbours_linked [OF 1(2)] to_merge_live by simp
    then have "bpe_pieces ranks (pieces_of token ?P) = pieces_of token ?P" by (subst bpe_pieces.simps) simp
    then show ?thesis using None by (subst bpe_loop.simps) simp
  next
    case (Some k)
    note k = to_merge_range [OF Some]
    define xs ys where "xs = filter (\<lambda>j. j \<notin> merged) [0..<k]" and "ys = filter (\<lambda>j. j \<notin> merged) [Suc k..<length pairs]"
    obtain a b where ab: "pairs ! k = (a, b)" by (cases "pairs ! k")
    let ?A = "map ((!) pairs) xs" and ?B = "map ((!) pairs) ys" and ?pairs' = "bpe_merge k pairs (insert k merged)"
    have split: "live pairs merged = xs @ k # ys" unfolding xs_def ys_def using k by (intro live_split) auto
    have P: "?P = ?A @ (a, b) # ?B" unfolding split using ab by simp
    have P': "map ((!) ?pairs') (live ?pairs' (insert k merged)) = set_right (a @ b) ?A @ set_left (a @ b) ?B"
      using bpe_merge_live [of k pairs merged] k ab by (simp add: xs_def ys_def)
    obtain j where j: "best_pair ranks ?P = Some j" "live pairs merged ! j = k" using Some unfolding to_merge_live by auto
    have "distinct (live pairs merged)" by (simp add: live_def)
    moreover have "live pairs merged ! length xs = k" "length xs < length (live pairs merged)" unfolding split by simp_all
    ultimately have "j = length ?A"
      using j(2) best_pair_range [OF j(1)] nth_eq_iff_index_eq [of "live pairs merged" j "length xs"] by simp
    then have step: "bpe_pieces ranks (pieces_of token ?P) = bpe_pieces ranks (take (length ?A) (pieces_of token ?P) @
        (pieces_of token ?P ! length ?A @ pieces_of token ?P ! Suc (length ?A)) # drop (Suc (Suc (length ?A))) (pieces_of token ?P))"
      using j(1) neighbours_linked [OF 1(2)] by (subst bpe_pieces.simps) simp
    let ?J = "take (length ?A) (pieces_of token ?P) @
        (pieces_of token ?P ! length ?A @ pieces_of token ?P ! Suc (length ?A)) # drop (Suc (Suc (length ?A))) (pieces_of token ?P)"
    have "Suc (length ?A) < length (pieces_of token ?P)" unfolding P by (simp add: pieces_of_def)
    then have "concat ?J = concat (pieces_of token ?P)" by (rule concat_join)
    then have tok: "concat ?J = token" using 1(3) by simp
    have J: "pieces_of token (set_right (a @ b) ?A @ set_left (a @ b) ?B) = ?J"
    proof (cases "?A = [] \<and> ?B = []")
      case True
      then have "?J = [a @ b]" unfolding P by (simp add: pieces_of_def)
      then show ?thesis using tok True by (simp add: set_right_def set_left_def pieces_of_def)
    next
      case False
      then show ?thesis using pieces_join [of ?A a b ?B token] 1(2) unfolding P by blast
    qed
    have "linked (map ((!) ?pairs') (live ?pairs' (insert k merged)))"
      unfolding P' by (rule linked_join) (use 1(2) in \<open>simp only: P\<close>)
    moreover have "concat (pieces_of token (map ((!) ?pairs') (live ?pairs' (insert k merged)))) = token" unfolding P' J by (rule tok)
    ultimately have IH: "case bpe_loop ranks ?pairs' (insert k merged) of (pairs'', merged'') \<Rightarrow>
      length pairs'' = length ?pairs' \<and> merged'' - insert k merged \<subseteq> {..<length ?pairs'} \<and>
      pieces_of token (map ((!) pairs'') (live pairs'' merged'')) = bpe_pieces ranks (pieces_of token (map ((!) ?pairs') (live ?pairs' (insert k merged))))"
      by (rule "1.IH" [OF Some])
    have "bpe_loop ranks pairs merged = bpe_loop ranks ?pairs' (insert k merged)" using Some by (subst bpe_loop.simps) simp
    then show ?thesis using IH k unfolding step P' J by auto
  qed
qed

lemma get_pairs_pieces:
  "linked (get_pairs token)" "2 \<le> length token \<Longrightarrow> pieces_of t (get_pairs token) = map (\<lambda>c. [c]) token"
  "length token < 2 \<Longrightarrow> get_pairs token = []"
proof -
  show "linked (get_pairs token)"
  proof (induction token rule: get_pairs.induct)
    case (1 c d w)
    then show ?case by (cases w) simp_all
  qed simp_all
  have hd: "w \<noteq> [] \<Longrightarrow> fst (hd (get_pairs (c # w))) = [c]" for c w by (cases w) simp_all
  have snd: "map snd (get_pairs (c # w)) = map (\<lambda>c. [c]) w" for c w by (induction w arbitrary: c) simp_all
  show "pieces_of t (get_pairs token) = map (\<lambda>c. [c]) token" if "2 \<le> length token"
    using that hd snd by (cases token rule: get_pairs.cases) (simp_all add: pieces_of_def)
  show "length token < 2 \<Longrightarrow> get_pairs token = []" by (cases token rule: get_pairs.cases) simp_all
qed

lemma bpe_left_none: "bpe_left i merged = None \<longleftrightarrow> filter (\<lambda>j. j \<notin> merged) [0..<i] = []"
  unfolding bpe_left_def rev_filter [symmetric] by (simp split: list.split)

definition bpe_out :: "(wstring \<times> wstring) list \<Rightarrow> nat set \<Rightarrow> nat \<Rightarrow> wstring list" where
  "bpe_out pairs merged i = (if i \<in> merged then [] else (if bpe_left i merged = None then [fst (pairs ! i)] else []) @ [snd (pairs ! i)])"

lemma bpe_output:
  "concat (map (bpe_out pairs merged) [0..<m]) =
   (let P = map ((!) pairs) (filter (\<lambda>j. j \<notin> merged) [0..<m]) in if P = [] then [] else fst (hd P) # map snd P)"
proof (induction m)
  case (Suc m)
  have e: "concat (map (bpe_out pairs merged) [0..<Suc m]) = concat (map (bpe_out pairs merged) [0..<m]) @ bpe_out pairs merged m" by simp
  show ?case unfolding e Suc.IH unfolding bpe_out_def bpe_left_none
    by (cases "filter (\<lambda>j. j \<notin> merged) [0..<m]") simp_all
qed simp

text \<open>\<open>bpe\<close> computes the pieces of the reference; only the empty word gives one empty piece.\<close>

lemma bpe_refines: "bpe ranks token = (if token = [] then [[]] else bpe_pieces ranks (map (\<lambda>c. [c]) token))"
proof (cases "length token < 2")
  case True
  have e: "bpe ranks token = [token]"
    using get_pairs_pieces(3) [OF True] by (simp add: bpe_def bpe_loop.simps to_merge_def)
  have "bpe_pieces ranks [x] = [x]" for x by (simp add: bpe_pieces.simps neighbours_def best_pair_def)
  then show ?thesis using True unfolding e by (cases token) auto
next
  case False
  let ?pairs = "get_pairs token"
  have l: "map ((!) ?pairs) (live ?pairs {}) = ?pairs" by (simp add: live_def map_nth)
  have p: "pieces_of token ?pairs = map (\<lambda>c. [c]) token" using get_pairs_pieces(2) False by simp
  obtain pairs' merged' where r: "bpe_loop ranks ?pairs {} = (pairs', merged')" by (metis prod.exhaust)
  have "concat (pieces_of token (map ((!) ?pairs) (live ?pairs {}))) = token" unfolding l p by (induction token) simp_all
  from bpe_loop_pieces [OF _ this, of ranks] have b: "length pairs' = length ?pairs" "merged' \<subseteq> {..<length ?pairs}"
      "pieces_of token (map ((!) pairs') (live pairs' merged')) = bpe_pieces ranks (map (\<lambda>c. [c]) token)"
    unfolding l r p using get_pairs_pieces(1) by simp_all
  have full: "card merged' = length pairs' \<longleftrightarrow> live pairs' merged' = []"
  proof -
    have "card merged' = length pairs' \<longleftrightarrow> merged' = {..<length pairs'}"
      using b(1,2) by (metis card_lessThan card_subset_eq finite_lessThan)
    also have "\<dots> \<longleftrightarrow> (\<forall>j<length pairs'. j \<in> merged')" using b(1,2) by auto
    also have "\<dots> \<longleftrightarrow> live pairs' merged' = []" by (auto simp: live_def filter_empty_conv)
    finally show ?thesis .
  qed
  have "bpe ranks token = pieces_of token (map ((!) pairs') (live pairs' merged'))"
    unfolding bpe_def r Let_def prod.case full bpe_out_def [symmetric] bpe_output by (simp add: pieces_of_def live_def)
  then show ?thesis using False b(3) by auto
qed

section \<open>Facts on the reference\<close>

lemma best_pair_ranked: "best_pair ranks ps = Some j \<Longrightarrow> j < length ps \<and> ranks (ps ! j) \<noteq> None"
proof -
  let ?f = "\<lambda>j (m, best). if score ranks (ps ! j) < m then (score ranks (ps ! j), Some j) else (m, best)"
  have "m \<le> INT_MAX \<Longrightarrow> fst (fold ?f js (m, None)) \<le> INT_MAX \<and> (snd (fold ?f js (m, None)) = Some j \<longrightarrow> ranks (ps ! j) \<noteq> None)" for js m
  proof (induction js rule: rev_induct)
    case (snoc i js)
    have "ranks (ps ! i) \<noteq> None" if "score ranks (ps ! i) < INT_MAX" using that by (cases "ranks (ps ! i)") (simp_all add: score_def)
    then show ?case using snoc by (auto simp: case_prod_beta)
  qed simp
  from this [of INT_MAX "[0..<length ps]"] show "best_pair ranks ps = Some j \<Longrightarrow> j < length ps \<and> ranks (ps ! j) \<noteq> None"
    using best_pair_range [of ranks ps j] by (simp add: best_pair_def)
qed

lemma neighbours_nth: "j < length (neighbours ps) \<Longrightarrow> Suc j < length ps \<and> neighbours ps ! j = (ps ! j, ps ! Suc j)"
  by (simp add: neighbours_def nth_tl)

lemma bpe_pieces_concat: "concat (bpe_pieces ranks ps) = concat ps"
proof (induction ranks ps rule: bpe_pieces.induct)
  case (1 ranks ps)
  show ?case
  proof (cases "best_pair ranks (neighbours ps)")
    case (Some j)
    have "Suc j < length ps" using best_pair_range [OF Some] neighbours_nth by blast
    from concat_join [OF this] show ?thesis using 1 [OF Some] Some by (subst bpe_pieces.simps) simp
  qed (subst bpe_pieces.simps, simp)
qed

lemma bpe_pieces_closed:
  "list_all Q ps \<Longrightarrow> (\<And>a b. ranks (a, b) \<noteq> None \<Longrightarrow> Q (a @ b)) \<Longrightarrow> list_all Q (bpe_pieces ranks ps)"
proof (induction ranks ps rule: bpe_pieces.induct)
  case (1 ranks ps)
  show ?case
  proof (cases "best_pair ranks (neighbours ps)")
    case None
    then show ?thesis using 1(2) by (subst bpe_pieces.simps) simp
  next
    case (Some j)
    note j = best_pair_ranked [OF Some] 
    have "Q (ps ! j @ ps ! Suc j)" by (rule 1(3)) (use j neighbours_nth [of j ps] in simp)
    moreover have "list_all Q (take j ps)" "list_all Q (drop (Suc (Suc j)) ps)"
      using 1(2) by (auto simp: list_all_iff dest: in_set_takeD in_set_dropD)
    ultimately show ?thesis using 1(1) [OF Some _ 1(3)] Some by (subst bpe_pieces.simps) simp
  qed
qed

end
