(* ===== verification/Token_Hf.thy ===== *)
theory Token_Hf
  imports Token_Bpe
begin

text \<open>
  \<open>HuggingfaceTokenizer\<close> (tokenizer.cpp): bytes as code points, the pre-tokens of its regular expression,
  byte pair encoding of each, and back. \<open>encoder_.at\<close> and the UTF-8 conversions throw, which is \<open>None\<close>.
\<close>

section \<open>Bytes as code points\<close>

text \<open>\<open>b2u_\<close>: printable bytes stand for themselves, the others for the code points from 256 on, in order.\<close>

definition in_range :: "nat \<Rightarrow> bool" where
  "in_range c \<longleftrightarrow> 33 \<le> c \<and> c \<le> 126 \<or> 161 \<le> c \<and> c \<le> 172 \<or> 174 \<le> c \<and> c \<le> 255"

definition b2u :: "byte \<Rightarrow> nat" where
  "b2u c = (let b = unat c in if in_range b then b else 256 + length (filter (\<lambda>c. \<not> in_range c) [0..<b]))"

definition u2b :: "nat \<Rightarrow> byte option" where
  "u2b w = (case filter (\<lambda>b. b2u (of_nat b) = w) [0..<256] of b # _ \<Rightarrow> Some (of_nat b) | [] \<Rightarrow> None)"

text \<open>\<open>std::codecvt_utf8\<close>.\<close>

definition utf8_char :: "nat \<Rightarrow> bytes" where
  "utf8_char c =
     (if c < 0x80 then [of_nat c]
      else if c < 0x800 then [of_nat (0xC0 + c div 64), of_nat (0x80 + c mod 64)]
      else if c < 0x10000 then [of_nat (0xE0 + c div 4096), of_nat (0x80 + c div 64 mod 64), of_nat (0x80 + c mod 64)]
      else [of_nat (0xF0 + c div 262144), of_nat (0x80 + c div 4096 mod 64), of_nat (0x80 + c div 64 mod 64), of_nat (0x80 + c mod 64)])"

definition wstring_to_utf8 :: "wstring \<Rightarrow> bytes" where
  "wstring_to_utf8 w = concat (map utf8_char w)"

definition follows :: "nat \<Rightarrow> bool" where
  "follows b \<longleftrightarrow> 0x80 \<le> b \<and> b < 0xC0"

fun utf8_codes :: "nat list \<Rightarrow> wstring option" where
  "utf8_codes [] = Some []"
| "utf8_codes (b # bs) =
     (if b < 0x80 then map_option ((#) b) (utf8_codes bs)
      else if 0xC2 \<le> b \<and> b < 0xE0 then
        (case bs of c # bs' \<Rightarrow> if follows c then map_option ((#) ((b - 0xC0) * 64 + (c - 0x80))) (utf8_codes bs') else None | [] \<Rightarrow> None)
      else if 0xE0 \<le> b \<and> b < 0xF0 then
        (case bs of c # d # bs' \<Rightarrow>
           if follows c \<and> follows d \<and> (b = 0xE0 \<longrightarrow> 0xA0 \<le> c) then
             map_option ((#) ((b - 0xE0) * 4096 + (c - 0x80) * 64 + (d - 0x80))) (utf8_codes bs') else None
         | _ \<Rightarrow> None)
      else if 0xF0 \<le> b \<and> b < 0xF5 then
        (case bs of c # d # e # bs' \<Rightarrow>
           if follows c \<and> follows d \<and> follows e \<and> (b = 0xF0 \<longrightarrow> 0x90 \<le> c) \<and> (b = 0xF4 \<longrightarrow> c < 0x90) then
             map_option ((#) ((b - 0xF0) * 262144 + (c - 0x80) * 4096 + (d - 0x80) * 64 + (e - 0x80))) (utf8_codes bs') else None
         | _ \<Rightarrow> None)
      else None)"

definition utf8_to_wstring :: "bytes \<Rightarrow> wstring option" where
  "utf8_to_wstring s = utf8_codes (map unat s)"

section \<open>The regular expression\<close>

definition isalpha :: "byte \<Rightarrow> bool" where
  "isalpha c \<longleftrightarrow> isupper c \<or> islower c"

definition isnewline :: "byte \<Rightarrow> bool" where
  "isnewline c \<longleftrightarrow> c = 13 \<or> c = 10"

text \<open>How much of the text each alternative matches at its start, 0 where it does not: contractions, words,
  one digit, symbols, white space up to the last line end, white space up to the character before the next
  word, white space.\<close>

definition re_contraction :: "bytes \<Rightarrow> nat" where
  "re_contraction s =
     (case s of c # d # rest \<Rightarrow>
        if c \<noteq> 39 then 0
        else if tolower d \<in> {115, 116, 109, 100} then 2
        else (case rest of e # _ \<Rightarrow> if (tolower d, tolower e) \<in> {(114, 101), (118, 101), (108, 108)} then 3 else 0 | [] \<Rightarrow> 0)
      | _ \<Rightarrow> 0)"

definition re_word :: "bytes \<Rightarrow> nat" where
  "re_word s =
     (case s of [] \<Rightarrow> 0
      | c # rest \<Rightarrow>
          if \<not> isalnum c \<and> \<not> isnewline c \<and> takeWhile isalpha rest \<noteq> [] then 1 + length (takeWhile isalpha rest)
          else length (takeWhile isalpha s))"

definition re_digit :: "bytes \<Rightarrow> nat" where
  "re_digit s = (case s of c # _ \<Rightarrow> if isdigit c then 1 else 0 | [] \<Rightarrow> 0)"

definition re_symbols :: "bytes \<Rightarrow> nat" where
  "re_symbols s =
     (let sp = (case s of c # _ \<Rightarrow> if c = 32 then 1 else 0 | [] \<Rightarrow> 0);
          n = length (takeWhile (\<lambda>c. \<not> isspace c \<and> \<not> isalnum c) (drop sp s))
      in if n = 0 then 0 else sp + n + length (takeWhile isnewline (drop (sp + n) s)))"

definition re_newlines :: "bytes \<Rightarrow> nat" where
  "re_newlines s = length (dropWhile (\<lambda>c. \<not> isnewline c) (rev (takeWhile isspace s)))"

definition re_space_before :: "bytes \<Rightarrow> nat" where
  "re_space_before s = (let n = length (takeWhile isspace s) in if n = length s then n else n - 1)"

definition re_space :: "bytes \<Rightarrow> nat" where
  "re_space s = length (takeWhile isspace s)"

definition re_match :: "bytes \<Rightarrow> nat" where
  "re_match s = (case filter ((\<noteq>) 0) [re_contraction s, re_word s, re_digit s, re_symbols s, re_newlines s, re_space_before s, re_space s] of
     n # _ \<Rightarrow> n | [] \<Rightarrow> 0)"

text \<open>The first place that matches: the match and what follows it.\<close>

definition regex_search :: "bytes \<Rightarrow> (bytes \<times> bytes) option" where
  "regex_search s = (case filter (\<lambda>p. re_match (drop p s) \<noteq> 0) [0..<length s] of
     [] \<Rightarrow> None | p # _ \<Rightarrow> let n = re_match (drop p s) in Some (take n (drop p s), drop (p + n) s))"

lemma regex_search_shorter: "regex_search s = Some (m, rest) \<Longrightarrow> length rest < length s"
proof -
  assume r: "regex_search s = Some (m, rest)"
  then obtain p ps where f: "filter (\<lambda>p. re_match (drop p s) \<noteq> 0) [0..<length s] = p # ps" and "rest = drop (p + re_match (drop p s)) s"
    by (auto simp: regex_search_def Let_def split: list.splits)
  moreover have "p \<in> set (filter (\<lambda>p. re_match (drop p s) \<noteq> 0) [0..<length s])" unfolding f by simp
  then have "p < length s" "re_match (drop p s) \<noteq> 0" by simp_all
  ultimately show ?thesis by simp
qed

function pretokens :: "bytes \<Rightarrow> bytes list" where
  "pretokens input = (case regex_search input of None \<Rightarrow> [] | Some (token, rest) \<Rightarrow> token # pretokens rest)"
  by auto
termination by (relation "measure length") (auto dest: regex_search_shorter)

declare pretokens.simps [simp del]

section \<open>\<open>HuggingfaceTokenizer\<close>\<close>

record Huggingface =
  bpe_ranks :: ranks
  hf_encoder :: "bytes \<Rightarrow> int option"
  hf_decoder :: "bytes list"

definition split_merge :: "bytes \<Rightarrow> (wstring \<times> wstring) option" where
  "split_merge line =
     (let (a, b) = (if 32 \<in> set line then (takeWhile ((\<noteq>) 32) line, tl (dropWhile ((\<noteq>) 32) line)) else (line, line))
      in case utf8_to_wstring a of None \<Rightarrow> None | Some u \<Rightarrow> map_option (Pair u) (utf8_to_wstring b))"

definition Huggingface_load_vocab :: "bytes list \<Rightarrow> bytes list \<Rightarrow> Huggingface option" where
  "Huggingface_load_vocab vocab merges =
     (let enc = fold (\<lambda>i. insert_new (vocab ! i) (int i)) [0..<length vocab] (\<lambda>_. None)
      in map_option (\<lambda>ranks. \<lparr>bpe_ranks = ranks, hf_encoder = enc, hf_decoder = vocab\<rparr>)
           (fold (\<lambda>i r. case r of None \<Rightarrow> None | Some m \<Rightarrow> map_option (\<lambda>p. insert_new p (int i) m) (split_merge (merges ! i)))
              [0..<length merges] (Some (\<lambda>_. None))))"

definition Huggingface_encode :: "Huggingface \<Rightarrow> bytes \<Rightarrow> int list option" where
  "Huggingface_encode k str =
     (let result = concat (map (\<lambda>token. map wstring_to_utf8 (bpe (bpe_ranks k) (map b2u token))) (pretokens str))
      in those (map (hf_encoder k) result))"

definition Huggingface_decode :: "Huggingface \<Rightarrow> int \<Rightarrow> bytes option" where
  "Huggingface_decode k i =
     (if i < 0 \<or> nat i \<ge> length (hf_decoder k) then Some []
      else map_option (\<lambda>w. concat (map (\<lambda>c. case u2b c of Some b \<Rightarrow> [b] | None \<Rightarrow> []) w)) (utf8_to_wstring (hf_decoder k ! nat i)))"

section \<open>Nothing is lost\<close>

lemma re_match_pos: "s \<noteq> [] \<Longrightarrow> re_match s \<noteq> 0"
proof -
  assume s: "s \<noteq> []"
  let ?ms = "[re_contraction s, re_word s, re_digit s, re_symbols s, re_newlines s, re_space_before s, re_space s]"
  have "list_ex ((\<noteq>) 0) ?ms"
  proof (cases s)
    case (Cons c rest)
    consider "isalpha c" | "isdigit c" | "isspace c" | "\<not> isalnum c" "\<not> isspace c" by (auto simp: isalnum_def isalpha_def)
    then show ?thesis
    proof cases
      case 1
      then have "re_word s \<noteq> 0" using Cons by (simp add: re_word_def isalpha_def isalnum_def)
      then show ?thesis by simp
    next
      case 2
      then have "re_digit s \<noteq> 0" using Cons by (simp add: re_digit_def)
      then show ?thesis by simp
    next
      case 3
      then have "re_space s \<noteq> 0" using Cons by (simp add: re_space_def)
      then show ?thesis by simp
    next
      case 4
      then have "re_symbols s \<noteq> 0" using Cons by (auto simp: re_symbols_def isspace_def)
      then show ?thesis by simp
    qed
  qed (use s in simp)
  then have "filter ((\<noteq>) 0) ?ms \<noteq> []" by (auto simp: filter_empty_conv list_ex_iff)
  then obtain n ns where f: "filter ((\<noteq>) 0) ?ms = n # ns" by (cases "filter ((\<noteq>) 0) ?ms") simp_all
  then have "n \<in> set (filter ((\<noteq>) 0) ?ms)" by simp
  then have "n \<noteq> 0" by (simp only: set_filter mem_Collect_eq) simp
  then show ?thesis unfolding re_match_def f by simp
qed

lemma pretokens_concat: "concat (pretokens s) = s"
proof (induction s rule: pretokens.induct)
  case (1 s)
  show ?case
  proof (cases "s = []")
    case True
    then show ?thesis by (simp add: pretokens.simps regex_search_def)
  next
    case False
    then have "[0..<length s] = 0 # [1..<length s]" by (simp add: upt_rec)
    then obtain ps where "filter (\<lambda>p. re_match (drop p s) \<noteq> 0) [0..<length s] = 0 # ps" using re_match_pos [OF False] by simp
    then have r: "regex_search s = Some (take (re_match s) s, drop (re_match s) s)" by (simp add: regex_search_def Let_def)
    show ?thesis using 1 [OF r refl] by (subst pretokens.simps) (simp add: r)
  qed
qed

lemma b2u_inj: "b2u c = b2u d \<Longrightarrow> c = d"
proof -
  have count: "length (filter (\<lambda>c. \<not> in_range c) [0..<a]) < length (filter (\<lambda>c. \<not> in_range c) [0..<b])" if "a < b" "\<not> in_range a" for a b
  proof -
    have "[0..<b] = [0..<a] @ a # [Suc a..<b]" using that(1) by (metis less_imp_add_positive upt_add_eq_append upt_conv_Cons zero_le)
    then show ?thesis using that(2) by simp
  qed
  have small: "in_range a \<Longrightarrow> a < 256" for a by (auto simp: in_range_def)
  assume "b2u c = b2u d"
  then have "unat c = unat d"
    using count [of "unat c" "unat d"] count [of "unat d" "unat c"] small
    by (fastforce simp: b2u_def Let_def split: if_splits intro: linorder_cases [of "unat c" "unat d"])
  then show ?thesis by (simp add: word_unat_eq_iff)
qed

lemma u2b_b2u: "u2b (b2u c) = Some c"
proof -
  have c: "unat c < 256" using unsigned_less [of c] by simp
  have "filter (\<lambda>b. b2u (of_nat b) = b2u c) [0..<256] = [unat c]"
  proof -
    have "b2u (of_nat b) = b2u c \<longleftrightarrow> b = unat c" if "b < 256" for b
    proof
      assume "b2u (of_nat b) = b2u c"
      then have "of_nat b = c" by (rule b2u_inj)
      then show "b = unat c" using that by (auto simp: unat_of_nat)
    qed simp
    then show ?thesis by (rule filter_single_upt [OF c])
  qed
  then show ?thesis by (simp add: u2b_def)
qed

lemma b2u_small: "b2u c < 0x800"
proof -
  have "length (filter (\<lambda>c. \<not> in_range c) [0..<unat c]) \<le> unat c" using length_filter_le [of _ "[0..<unat c]"] by simp
  moreover have "unat c < 256" using unsigned_less [of c] by simp
  ultimately show ?thesis by (simp add: b2u_def Let_def)
qed

lemma utf8_char_codes: "c < 0x800 \<Longrightarrow> utf8_codes (map unat (utf8_char c) @ bs) = map_option ((#) c) (utf8_codes bs)"
proof -
  assume c: "c < 0x800"
  show ?thesis
  proof (cases "c < 0x80")
    case True
    then show ?thesis by (simp add: utf8_char_def unat_of_nat)
  next
    case False
    have d: "c div 64 < 32" "2 \<le> c div 64" using c False by auto
    then have "unat (of_nat (0xC0 + c div 64) :: byte) = 0xC0 + c div 64" "unat (of_nat (0x80 + c mod 64) :: byte) = 0x80 + c mod 64"
      unfolding unat_of_nat using d by simp_all
    moreover have "c mod 64 < 64" by simp
    ultimately show ?thesis using False c d by (simp add: utf8_char_def follows_def)
  qed
qed

lemma utf8_round_trip: "list_all (\<lambda>c. c < 0x800) w \<Longrightarrow> utf8_to_wstring (wstring_to_utf8 w) = Some w"
  unfolding utf8_to_wstring_def wstring_to_utf8_def
  by (induction w) (simp_all add: utf8_char_codes)

section \<open>Encoding and decoding\<close>

lemma load_encoder:
  "fold (\<lambda>i. insert_new (vocab ! i) (int i)) [0..<m] (\<lambda>_. None) x = Some i \<Longrightarrow> 0 \<le> i \<and> nat i < m \<and> vocab ! nat i = x"
proof (induction m)
  case (Suc m)
  then show ?case by (auto simp: insert_new_first less_Suc_eq split: if_splits)
qed simp

lemma load_encoder_all: "j < m \<Longrightarrow> fold (\<lambda>i. insert_new (vocab ! i) (int i)) [0..<m] (\<lambda>_. None) (vocab ! j) \<noteq> None"
  by (induction m) (auto simp: insert_new_first less_Suc_eq)

lemma load_vocab_fields:
  "Huggingface_load_vocab vocab merges = Some k \<Longrightarrow>
   hf_decoder k = vocab \<and> hf_encoder k = fold (\<lambda>i. insert_new (vocab ! i) (int i)) [0..<length vocab] (\<lambda>_. None)"
  by (auto simp: Huggingface_load_vocab_def Let_def)

lemma those_map_Some: "those (map f xs) = Some ys \<longleftrightarrow> length ys = length xs \<and> (\<forall>i<length xs. f (xs ! i) = Some (ys ! i))"
proof (induction xs arbitrary: ys)
  case (Cons x xs)
  then show ?case by (cases ys) (auto simp: All_less_Suc2 split: option.split)
qed auto

text \<open>A piece made of code points of bytes is decoded to these bytes.\<close>

lemma decode_piece:
  assumes k: "Huggingface_load_vocab vocab merges = Some k" and i: "hf_encoder k (wstring_to_utf8 (map b2u w)) = Some i"
  shows "Huggingface_decode k i = Some w"
proof -
  have e: "0 \<le> i" "nat i < length vocab" "vocab ! nat i = wstring_to_utf8 (map b2u w)"
    using load_encoder [of vocab "length vocab" _ i] i load_vocab_fields [OF k] by auto
  have "list_all (\<lambda>c. c < 0x800) (map b2u w)" using b2u_small by (simp add: list_all_iff)
  then have "utf8_to_wstring (vocab ! nat i) = Some (map b2u w)" unfolding e(3) by (rule utf8_round_trip)
  moreover have "concat (map (\<lambda>c. case u2b c of Some b \<Rightarrow> [b] | None \<Rightarrow> []) (map b2u w)) = w" by (induction w) (simp_all add: u2b_b2u)
  ultimately show ?thesis using e(1,2) load_vocab_fields [OF k] by (simp add: Huggingface_decode_def)
qed

text \<open>The pieces of a text: lists of bytes whose concatenation is the text.\<close>

lemma pieces_bytes:
  obtains ws where "concat (map (\<lambda>token. map wstring_to_utf8 (bpe ranks (map b2u token))) (pretokens str)) = map (wstring_to_utf8 \<circ> map b2u) ws"
    "concat ws = str"
proof -
  have "concat (bpe ranks w) = w" for w
    unfolding bpe_refines by (induction w) (simp_all add: bpe_pieces_concat)
  moreover have "\<exists>ws. pieces = map (map f) ws \<and> concat ws = u" if "concat pieces = map f u" for pieces :: "wstring list" and f :: "byte \<Rightarrow> nat" and u
    using that
  proof (induction pieces arbitrary: u)
    case (Cons p pieces)
    then have "map f (take (length p) u) = p" "concat pieces = map f (drop (length p) u)"
      by (metis append_eq_conv_conj concat.simps(2) take_map, metis append_eq_conv_conj concat.simps(2) drop_map)
    moreover obtain ws where "pieces = map (map f) ws" "concat ws = drop (length p) u" using Cons.IH [OF calculation(2)] by blast
    ultimately show ?case by (intro exI [of _ "take (length p) u # ws"]) simp
  qed simp
  ultimately have "\<exists>ws. bpe ranks (map b2u t) = map (map b2u) ws \<and> concat ws = t" for t by blast
  then obtain W where W: "\<And>t. bpe ranks (map b2u t) = map (map b2u) (W t) \<and> concat (W t) = t" by metis
  have "concat (map W ts) = concat (map W ts) \<and> concat (concat (map W ts)) = concat ts" for ts
    using W by (induction ts) simp_all
  moreover have "concat (map (\<lambda>token. map wstring_to_utf8 (bpe ranks (map b2u token))) ts) = map (wstring_to_utf8 \<circ> map b2u) (concat (map W ts))" for ts
    using W by (induction ts) simp_all
  ultimately show thesis using that pretokens_concat by metis
qed

lemma encode_decode:
  assumes k: "Huggingface_load_vocab vocab merges = Some k" and e: "Huggingface_encode k str = Some ids"
  shows "map_option concat (those (map (Huggingface_decode k) ids)) = Some str"
proof -
  obtain ws where ws: "concat (map (\<lambda>token. map wstring_to_utf8 (bpe (bpe_ranks k) (map b2u token))) (pretokens str)) = map (wstring_to_utf8 \<circ> map b2u) ws"
    "concat ws = str" by (rule pieces_bytes)
  have "those (map (hf_encoder k) (map (wstring_to_utf8 \<circ> map b2u) ws)) = Some ids" using e unfolding Huggingface_encode_def Let_def ws(1) .
  then have l: "length ids = length ws" "\<forall>i<length ws. hf_encoder k (wstring_to_utf8 (map b2u (ws ! i))) = Some (ids ! i)"
    unfolding those_map_Some by simp_all
  then have "those (map (Huggingface_decode k) ids) = Some ws" unfolding those_map_Some using decode_piece [OF k] by simp
  then show ?thesis using ws(2) by simp
qed

text \<open>A vocabulary that has every byte and the result of every merge.\<close>

definition vocab_closed :: "Huggingface \<Rightarrow> bool" where
  "vocab_closed k \<longleftrightarrow> (\<forall>c. hf_encoder k (utf8_char (b2u c)) \<noteq> None) \<and>
     (\<forall>a b. bpe_ranks k (a, b) \<noteq> None \<longrightarrow> hf_encoder k (wstring_to_utf8 (a @ b)) \<noteq> None)"

lemma encode_total:
  assumes "vocab_closed k"
  shows "Huggingface_encode k str \<noteq> None"
proof -
  have single: "hf_encoder k (wstring_to_utf8 [b2u c]) \<noteq> None" for c using assms by (simp add: vocab_closed_def wstring_to_utf8_def)
  have all: "list_all (\<lambda>w. hf_encoder k (wstring_to_utf8 w) \<noteq> None) (bpe (bpe_ranks k) (map b2u t))" if "t \<noteq> []" for t
  proof -
    have "list_all (\<lambda>w. hf_encoder k (wstring_to_utf8 w) \<noteq> None) (map (\<lambda>c. [c]) (map b2u t))"
      unfolding list_all_iff using single by auto
    then have "list_all (\<lambda>w. hf_encoder k (wstring_to_utf8 w) \<noteq> None) (bpe_pieces (bpe_ranks k) (map (\<lambda>c. [c]) (map b2u t)))"
      by (rule bpe_pieces_closed) (use assms in \<open>simp add: vocab_closed_def\<close>)
    then show ?thesis unfolding bpe_refines using that by simp
  qed
  have ne: "t \<noteq> []" if "t \<in> set (pretokens str)" for t
    using that
  proof (induction str rule: pretokens.induct)
    case (1 s)
    show ?case
    proof (cases "regex_search s")
      case None
      then show ?thesis using 1(2) by (subst (asm) pretokens.simps) simp
    next
      case (Some r)
      obtain m rest where r: "regex_search s = Some (m, rest)" using Some by (cases r) simp
      then obtain p ps where f: "filter (\<lambda>p. re_match (drop p s) \<noteq> 0) [0..<length s] = p # ps" and m: "m = take (re_match (drop p s)) (drop p s)"
        by (auto simp: regex_search_def Let_def split: list.splits)
      have "p \<in> set (filter (\<lambda>p. re_match (drop p s) \<noteq> 0) [0..<length s])" unfolding f by simp
      then have "p < length s" "re_match (drop p s) \<noteq> 0" by simp_all
      then have "m \<noteq> []" using m by simp
      then show ?thesis using 1(1) [OF r refl] 1(2) r by (subst (asm) pretokens.simps) auto
    qed
  qed
  have "hf_encoder k x \<noteq> None" if x: "x \<in> set (concat (map (\<lambda>token. map wstring_to_utf8 (bpe (bpe_ranks k) (map b2u token))) (pretokens str)))" for x
  proof -
    obtain t w where "t \<in> set (pretokens str)" "w \<in> set (bpe (bpe_ranks k) (map b2u t))" "x = wstring_to_utf8 w"
      using x by auto
    then show ?thesis using all [OF ne] unfolding list_all_iff by blast
  qed
  moreover have "(\<forall>x\<in>set xs. f x \<noteq> None) \<Longrightarrow> those (map f xs) \<noteq> None" for f :: "bytes \<Rightarrow> int option" and xs
    by (induction xs) (auto split: option.splits)
  ultimately show ?thesis unfolding Huggingface_encode_def Let_def by blast
qed

end
