(* ===== verification/Token_Codec.thy ===== *)
theory Token_Codec
  imports Token_Tiktoken Token_Base64 Token_Hf
begin

text \<open>
  \<open>Tokenizer::encode\<close>, which cuts a text at its special tokens and leaves the rest to the tokenizer's own
  \<open>encode\<close>, and the tokenizers as codecs: what is encoded is decoded to the same text.
\<close>

section \<open>\<open>Tokenizer\<close>\<close>

record Tokenizer =
  special_tokens :: "int list"
  stop_tokens :: "int list"
  prefix_tokens :: "int list"

definition is_stop :: "Tokenizer \<Rightarrow> int \<Rightarrow> bool" where
  "is_stop k token \<longleftrightarrow> token \<in> set (stop_tokens k)"

definition is_special :: "Tokenizer \<Rightarrow> int \<Rightarrow> bool" where
  "is_special k token \<longleftrightarrow> token \<in> set (special_tokens k)"

text \<open>\<open>load_special\<close> from the numbers of the two lines; ids that the second line lacks stay 0.\<close>

definition load_special :: "nat \<Rightarrow> nat \<Rightarrow> nat \<Rightarrow> int list \<Rightarrow> Tokenizer" where
  "load_special special_num stop_num prefix_num nums =
     (let nums = nums @ replicate (special_num + stop_num + prefix_num) 0
      in \<lparr>special_tokens = take special_num nums, stop_tokens = take stop_num (drop special_num nums),
          prefix_tokens = take prefix_num (drop (special_num + stop_num) nums)\<rparr>)"

text \<open>The first special token found at the start of a text. \<open>None\<close>: \<open>decode\<close> threw.\<close>

fun special_at :: "(int \<Rightarrow> bytes option) \<Rightarrow> int list \<Rightarrow> bytes \<Rightarrow> (int \<times> nat) option option" where
  "special_at dec [] str = Some None"
| "special_at dec (special_id # ids) str =
     (case dec special_id of None \<Rightarrow> None
      | Some token \<Rightarrow>
          if token \<noteq> [] \<and> length token \<le> length str \<and> take (length token) str = token then Some (Some (special_id, length token))
          else special_at dec ids str)"

definition put_text :: "(bytes \<Rightarrow> int list option) \<Rightarrow> bytes \<Rightarrow> int list \<Rightarrow> int list option" where
  "put_text enc part ids = (if part = [] then Some ids else map_option ((@) ids) (enc part))"

lemma special_at_pos: "special_at dec specials str = Some (Some (i, n)) \<Longrightarrow> 0 < n \<and> n \<le> length str \<and> dec i = Some (take n str)"
  by (induction dec specials str rule: special_at.induct) (auto split: option.splits if_splits)

function special_loop ::
  "(bytes \<Rightarrow> int list option) \<Rightarrow> (int \<Rightarrow> bytes option) \<Rightarrow> int list \<Rightarrow> bytes \<Rightarrow> nat \<Rightarrow> nat \<Rightarrow> int list \<Rightarrow> (nat \<times> int list) option" where
  "special_loop enc dec specials str start i ids =
     (if i \<ge> length str then Some (start, ids)
      else case special_at dec specials (drop i str) of
        None \<Rightarrow> None
      | Some None \<Rightarrow> special_loop enc dec specials str start (i + 1) ids
      | Some (Some (special_id, len)) \<Rightarrow>
          (case put_text enc (drop start (take i str)) ids of
             None \<Rightarrow> None
           | Some ids \<Rightarrow> special_loop enc dec specials str (i + len) (i + len) (ids @ [special_id])))"
  by auto
termination
  by (relation "measure (\<lambda>(enc, dec, specials, str, start, i, ids). length str - i)") (auto dest!: special_at_pos)

declare special_loop.simps [simp del]

definition Tokenizer_encode :: "(bytes \<Rightarrow> int list option) \<Rightarrow> (int \<Rightarrow> bytes option) \<Rightarrow> Tokenizer \<Rightarrow> bytes \<Rightarrow> int list option" where
  "Tokenizer_encode enc dec k str =
     (if special_tokens k \<noteq> [] then
        case special_loop enc dec (special_tokens k) str 0 0 (prefix_tokens k) of None \<Rightarrow> None
        | Some (start, ids) \<Rightarrow> put_text enc (drop start str) ids
      else map_option ((@) (prefix_tokens k)) (enc str))"

section \<open>Codecs\<close>

definition decodes :: "(int \<Rightarrow> bytes option) \<Rightarrow> int list \<Rightarrow> bytes \<Rightarrow> bool" where
  "decodes dec ids str \<longleftrightarrow> map_option concat (those (map dec ids)) = Some str"

lemma decodes_Nil [simp]: "decodes dec [] str \<longleftrightarrow> str = []"
  by (auto simp: decodes_def)

lemma decodes_one: "dec i = Some x \<Longrightarrow> decodes dec [i] x"
  by (simp add: decodes_def)

lemma decodes_append: "decodes dec xs s \<Longrightarrow> decodes dec ys t \<Longrightarrow> decodes dec (xs @ ys) (s @ t)"
proof (induction xs arbitrary: s)
  case (Cons x xs)
  then obtain u where u: "dec x = Some u" "\<exists>v. decodes dec xs v \<and> s = u @ v" by (auto simp: decodes_def split: option.splits)
  then obtain v where v: "decodes dec xs v" "s = u @ v" by blast
  from Cons.IH [OF v(1) Cons.prems(2)] show ?case using u(1) v(2) by (auto simp: decodes_def)
qed simp

lemma drop_take_split:
  assumes "s \<le> i" "i + n \<le> e" "e \<le> length xs"
  shows "drop s (take e xs) = drop s (take i xs) @ take n (drop i xs) @ drop (i + n) (take e xs)"
proof -
  have "take e xs = take i (take e xs) @ take n (drop i (take e xs)) @ drop n (drop i (take e xs))"
    unfolding append_take_drop_id ..
  also have "take i (take e xs) = take i xs" using assms by (simp add: min_def)
  also have "take n (drop i (take e xs)) = take n (drop i xs)" using assms by (simp add: drop_take min_def)
  also have "drop n (drop i (take e xs)) = drop (i + n) (take e xs)" by (simp add: add.commute)
  finally have "drop s (take e xs) = drop s (take i xs @ take n (drop i xs) @ drop (i + n) (take e xs))" by (rule arg_cong)
  then show ?thesis using assms by simp
qed

text \<open>The interface: a tokenizer \<open>k\<close> that is set up (\<open>good\<close>) decodes what it encodes.\<close>

locale text_codec =
  fixes enc :: "'k \<Rightarrow> bytes \<Rightarrow> int list option" and dec :: "'k \<Rightarrow> int \<Rightarrow> bytes option" and good :: "'k \<Rightarrow> bool"
  assumes decode_encode: "good k \<Longrightarrow> enc k str = Some ids \<Longrightarrow> decodes (dec k) ids str"
begin

lemma put_text_decodes: "good k \<Longrightarrow> put_text (enc k) part ids = Some ids' \<Longrightarrow> \<exists>new. ids' = ids @ new \<and> decodes (dec k) new part"
  by (auto simp: put_text_def decode_encode split: if_splits)

lemma special_loop_decodes:
  assumes k: "good k"
  shows "special_loop (enc k) (dec k) specials str start i ids = Some (start', ids') \<Longrightarrow> start \<le> i \<Longrightarrow> i \<le> length str \<Longrightarrow>
    start' \<le> length str \<and> start \<le> start' \<and> (\<exists>new. ids' = ids @ new \<and> decodes (dec k) new (drop start (take start' str)))"
proof (induction "enc k" "dec k" specials str start i ids rule: special_loop.induct)
  case (1 specials str start i ids)
  show ?case
  proof (cases "i \<ge> length str")
    case True
    then show ?thesis using "1.prems" by (subst (asm) special_loop.simps) simp
  next
    case False
    then have i: "\<not> length str \<le> i" by simp
    obtain r where r: "special_at (dec k) specials (drop i str) = Some r"
      using "1.prems"(1) False by (subst (asm) special_loop.simps) (auto split: option.splits)
    show ?thesis
    proof (cases r)
      case None
      have "special_loop (enc k) (dec k) specials str start (i + 1) ids = Some (start', ids')"
        using "1.prems"(1) False r None by (subst (asm) special_loop.simps) simp
      then show ?thesis using "1.hyps"(1) [OF i r None] "1.prems"(2) False by simp
    next
      case (Some sn)
      obtain s n where sn: "special_at (dec k) specials (drop i str) = Some (Some (s, n))" using r Some by (cases sn) simp
      note n = special_at_pos [OF sn]
      obtain ids1 where p: "put_text (enc k) (drop start (take i str)) ids = Some ids1"
        and l: "special_loop (enc k) (dec k) specials str (i + n) (i + n) (ids1 @ [s]) = Some (start', ids')"
        using "1.prems"(1) False sn by (subst (asm) special_loop.simps) (auto split: option.splits)
      obtain new1 where new1: "ids1 = ids @ new1" "decodes (dec k) new1 (drop start (take i str))"
        using put_text_decodes [OF k p] by blast
      have "i + n \<le> length str" using n [unfolded length_drop] i by linarith
      from "1.hyps"(2) [OF i sn refl refl p l order_refl this] obtain new2 where new2: "ids' = (ids1 @ [s]) @ new2"
        "decodes (dec k) new2 (drop (i + n) (take start' str))" "start' \<le> length str" "i + n \<le> start'" by blast
      have "drop start (take start' str) = drop start (take i str) @ take n (drop i str) @ drop (i + n) (take start' str)"
        by (rule drop_take_split) (use "1.prems"(2) new2(3,4) in simp_all)
      moreover have "decodes (dec k) (new1 @ [s] @ new2) (drop start (take i str) @ take n (drop i str) @ drop (i + n) (take start' str))"
        using new1(2) new2(2) n by (intro decodes_append decodes_one) simp_all
      ultimately show ?thesis using new1(1) new2(1,3,4) "1.prems"(2) by auto
    qed
  qed
qed

text \<open>So does the public \<open>encode\<close>, behind the prefix tokens.\<close>

lemma Tokenizer_encode_decodes:
  assumes k: "good k" and e: "Tokenizer_encode (enc k) (dec k) T str = Some ids"
  shows "\<exists>new. ids = prefix_tokens T @ new \<and> decodes (dec k) new str"
proof (cases "special_tokens T = []")
  case True
  then show ?thesis using e decode_encode [OF k] by (auto simp: Tokenizer_encode_def)
next
  case False
  then obtain start ids1 where l: "special_loop (enc k) (dec k) (special_tokens T) str 0 0 (prefix_tokens T) = Some (start, ids1)"
    and p: "put_text (enc k) (drop start str) ids1 = Some ids"
    using e by (auto simp: Tokenizer_encode_def split: option.splits)
  from special_loop_decodes [OF k l] obtain new1 where new1: "ids1 = prefix_tokens T @ new1" "decodes (dec k) new1 (take start str)" by auto
  obtain new2 where new2: "ids = ids1 @ new2" "decodes (dec k) new2 (drop start str)" using put_text_decodes [OF k p] by blast
  have "decodes (dec k) (new1 @ new2) str" using decodes_append [OF new1(2) new2(2)] by simp
  then show ?thesis using new1(1) new2(1) by auto
qed

end

text \<open>A tokenizer that never fails: then \<open>encode\<close> does not fail either.\<close>

locale total_codec = text_codec enc dec good
  for enc :: "'k \<Rightarrow> bytes \<Rightarrow> int list option" and dec good +
  assumes encodes: "good k \<Longrightarrow> \<exists>ids. enc k str = Some ids" and decodes_id: "good k \<Longrightarrow> dec k i \<noteq> None"
begin

lemma special_at_total: "good k \<Longrightarrow> special_at (dec k) specials str \<noteq> None"
  by (induction specials) (use decodes_id in \<open>auto split: option.split\<close>)

lemma put_text_total: "good k \<Longrightarrow> put_text (enc k) part ids \<noteq> None"
  using encodes [of k part] by (auto simp: put_text_def)

lemma special_loop_total:
  assumes k: "good k"
  shows "special_loop (enc k) (dec k) specials str start i ids \<noteq> None"
proof (induction "enc k" "dec k" specials str start i ids rule: special_loop.induct)
  case (1 specials str start i ids)
  show ?case
  proof (cases "length str \<le> i")
    case True
    then show ?thesis by (subst special_loop.simps) simp
  next
    case False
    obtain r where r: "special_at (dec k) specials (drop i str) = Some r" using special_at_total [OF k] by blast
    obtain ids1 where p: "put_text (enc k) (drop start (take i str)) ids = Some ids1" using put_text_total [OF k] by blast
    show ?thesis
    proof (cases r)
      case None
      then show ?thesis using 1(1) [OF False r None] r False by (subst special_loop.simps) simp
    next
      case (Some sn)
      obtain s n where sn: "r = Some (s, n)" using Some by (cases sn) simp
      then show ?thesis using 1(2) [OF False r sn refl p] r p False by (subst special_loop.simps) simp
    qed
  qed
qed

lemma round_trip:
  assumes k: "good k"
  shows "\<exists>new. Tokenizer_encode (enc k) (dec k) T str = Some (prefix_tokens T @ new) \<and> decodes (dec k) new str"
proof -
  have "Tokenizer_encode (enc k) (dec k) T str \<noteq> None"
  proof (cases "special_tokens T = []")
    case True
    then show ?thesis using encodes [OF k, of str] by (auto simp: Tokenizer_encode_def)
  next
    case False
    obtain start ids where "special_loop (enc k) (dec k) (special_tokens T) str 0 0 (prefix_tokens T) = Some (start, ids)"
      using special_loop_total [OF k] by (metis option.exhaust prod.exhaust)
    then show ?thesis using False put_text_total [OF k] by (simp add: Tokenizer_encode_def)
  qed
  then show ?thesis using Tokenizer_encode_decodes [OF k] by blast
qed

end

section \<open>The tokenizers\<close>

definition Huggingface_good :: "Huggingface \<Rightarrow> bool" where
  "Huggingface_good k \<longleftrightarrow> (\<exists>vocab merges. Huggingface_load_vocab vocab merges = Some k)"

definition Tiktoken_good :: "Tiktoken \<Rightarrow> bool" where
  "Tiktoken_good k \<longleftrightarrow> (\<exists>tokens. k = Tiktoken_load_vocab (map base64_encode tokens) \<and> vocab_ok tokens \<and> (\<forall>c. [c] \<in> set tokens))"

definition Tiktoken_dec :: "Tiktoken \<Rightarrow> int \<Rightarrow> bytes option" where
  "Tiktoken_dec k i = Some (Tiktoken_decode k i)"

lemma decodes_total: "decodes (\<lambda>i. Some (f i)) ids str \<longleftrightarrow> concat (map f ids) = str"
proof -
  have "those (map (\<lambda>i. Some (f i)) ids) = Some (map f ids)" by (induction ids) simp_all
  then show ?thesis by (simp add: decodes_def)
qed

lemma Tiktoken_encode_ends:
  assumes "vocab_ok tokens"
  defines "k \<equiv> Tiktoken_load_vocab (map base64_encode tokens)"
  shows "\<exists>ids. Tiktoken_encode k str = Some ids \<and> (list_all (\<lambda>c. [c] \<in> set tokens) str \<longrightarrow> decodes (Tiktoken_dec k) ids str)"
proof -
  have t: "map base64_decode (map base64_encode tokens) = tokens" by (induction tokens) (simp_all add: base64_decode_encode)
  have k: "encoder k = insert_all tokens (new_Trie 10000)" "decoder k = tokens"
    using load_vocab [of "map base64_encode tokens"] unfolding k_def t by simp_all
  obtain ids where ids: "Tiktoken_loop (encoder k) str 0 [] = Some ids" "\<forall>i\<in>set ids. 0 \<le> i \<and> nat i < length tokens"
    "list_all (\<lambda>c. [c] \<in> set tokens) str \<longrightarrow> concat (map (\<lambda>i. tokens ! nat i) ids) = str"
    using Tiktoken_loop_ends [OF assms(1), of 0 str "[]"] unfolding k by auto
  have "Tiktoken_encode k str = Some ids" using ids(1) by (auto simp: Tiktoken_encode_def Tiktoken_loop.simps)
  moreover have "map (Tiktoken_decode k) ids = map (\<lambda>i. tokens ! nat i) ids" using ids(2) k(2) by (auto simp: Tiktoken_decode_def)
  ultimately show ?thesis using ids(3) unfolding Tiktoken_dec_def decodes_total by metis
qed

interpretation hf: text_codec Huggingface_encode Huggingface_decode Huggingface_good
  by unfold_locales (auto simp: Huggingface_good_def decodes_def dest: encode_decode)

definition Huggingface_total :: "Huggingface \<Rightarrow> bool" where
  "Huggingface_total k \<longleftrightarrow> Huggingface_good k \<and> vocab_closed k \<and> list_all (\<lambda>line. utf8_to_wstring line \<noteq> None) (hf_decoder k)"

interpretation hf_total: total_codec Huggingface_encode Huggingface_decode Huggingface_total
proof unfold_locales
  fix k str ids assume k: "Huggingface_total k"
  then show "Huggingface_encode k str = Some ids \<Longrightarrow> decodes (Huggingface_decode k) ids str"
    by (simp add: Huggingface_total_def hf.decode_encode)
  show "\<exists>ids. Huggingface_encode k str = Some ids" using k encode_total by (auto simp: Huggingface_total_def)
  show "Huggingface_decode k i \<noteq> None" for i
    using k by (auto simp: Huggingface_total_def Huggingface_decode_def list_all_length nat_less_iff not_le)
qed

interpretation tiktoken: total_codec Tiktoken_encode Tiktoken_dec Tiktoken_good
proof unfold_locales
  fix k str ids i
  assume "Tiktoken_good k"
  then obtain tokens where k: "k = Tiktoken_load_vocab (map base64_encode tokens)" "vocab_ok tokens" "\<forall>c. [c] \<in> set tokens"
    unfolding Tiktoken_good_def by blast
  have all: "list_all (\<lambda>c. [c] \<in> set tokens) str" using k(3) by (simp add: list_all_iff)
  note e = Tiktoken_encode_ends [OF k(2), of str, folded k(1)]
  show "decodes (Tiktoken_dec k) ids str" if "Tiktoken_encode k str = Some ids" using e all that by auto
  show "\<exists>ids. Tiktoken_encode k str = Some ids" using e by blast
  show "Tiktoken_dec k i \<noteq> None" by (simp add: Tiktoken_dec_def)
qed

end
