(* ===== verification/Token_Bert.thy ===== *)
theory Token_Bert
  imports Token_Model
begin

text \<open>\<open>BertTokenizer\<close> (tokenizer.cpp): words, then the longest pieces of a word from the left.\<close>

record Bert =
  bert_encoder :: "bytes \<Rightarrow> int option"
  bert_decoder :: "bytes list"

definition Bert_load_vocab :: "bytes list \<Rightarrow> Bert" where
  "Bert_load_vocab lines =
     fold (\<lambda>i k. let token = base64_decode (lines ! i)
            in k\<lparr>bert_encoder := (case bert_encoder k token of None \<Rightarrow> (bert_encoder k)(token \<mapsto> int i) | Some _ \<Rightarrow> bert_encoder k),
                 bert_decoder := (bert_decoder k)[i := token]\<rparr>)
       [0..<length lines] \<lparr>bert_encoder = (\<lambda>_. None), bert_decoder = replicate (length lines) []\<rparr>"

definition Bert_decode :: "Bert \<Rightarrow> int \<Rightarrow> bytes" where
  "Bert_decode k i = (if i < 0 \<or> nat i \<ge> length (bert_decoder k) then [] else bert_decoder k ! nat i)"

text \<open>The candidate of a length; all but the first piece are written with two hash signs.\<close>

definition candidate :: "bool \<Rightarrow> nat \<Rightarrow> bytes \<Rightarrow> bytes" where
  "candidate first len current = (if first then [] else [35, 35]) @ take len current"

definition piece_lengths :: "Bert \<Rightarrow> bool \<Rightarrow> bytes \<Rightarrow> nat list" where
  "piece_lengths k first current = filter (\<lambda>len. bert_encoder k (candidate first len current) \<noteq> None) (rev [1..<Suc (length current)])"

function word_piece_loop :: "Bert \<Rightarrow> bytes \<Rightarrow> int list \<Rightarrow> int list" where
  "word_piece_loop k current ids =
     (if current = [] then ids
      else case piece_lengths k (ids = []) current of
        [] \<Rightarrow> ids @ [100]
      | len # _ \<Rightarrow> word_piece_loop k (drop len current) (ids @ [the (bert_encoder k (candidate (ids = []) len current))]))"
  by auto
termination
proof (relation "measure (\<lambda>(k, current, ids). length current)")
  fix k len xs and ids :: "int list" and current :: bytes
  assume "current \<noteq> []" "piece_lengths k (ids = []) current = len # xs"
  then have "len \<in> set (piece_lengths k (ids = []) current)" by simp
  then have "1 \<le> len" by (auto simp: piece_lengths_def)
  then show "((k, drop len current, ids @ [the (bert_encoder k (candidate (ids = []) len current))]), k, current, ids)
      \<in> measure (\<lambda>(k, current, ids). length current)"
    using \<open>current \<noteq> []\<close> by simp
qed simp

declare word_piece_loop.simps [simp del]

definition word_piece :: "Bert \<Rightarrow> bytes \<Rightarrow> int list" where
  "word_piece k token = (case bert_encoder k token of Some i \<Rightarrow> [i] | None \<Rightarrow> word_piece_loop k token [])"

function bert_tokens :: "bytes \<Rightarrow> bytes list" where
  "bert_tokens [] = []"
| "bert_tokens (c # s) =
     (if c AND 0x80 \<noteq> 0 then (if c AND 0xE0 = 0xE0 then take 3 (c # s) # bert_tokens (drop 2 s) else bert_tokens s)
      else if isalnum c then map tolower (takeWhile isalnum (c # s)) # bert_tokens (dropWhile isalnum s)
      else if ispunct c then [c] # bert_tokens s
      else if isspace c then bert_tokens s
      else [c] # bert_tokens s)"
  by pat_completeness auto
termination by (relation "measure length") (simp_all add: length_dropWhile_le le_imp_less_Suc)

definition Bert_encode :: "Bert \<Rightarrow> bytes \<Rightarrow> int list" where
  "Bert_encode k str = concat (map (word_piece k) (bert_tokens str))"

section \<open>The pieces of a word\<close>

text \<open>What a piece stands for: without the hash signs, except for the first.\<close>

primrec unhash :: "bool \<Rightarrow> bytes list \<Rightarrow> bytes" where
  "unhash first [] = []"
| "unhash first (x # xs) = (if first then x else drop 2 x) @ unhash False xs"

lemma piece_lengths_hd:
  assumes "piece_lengths k first current = len # xs"
  shows "0 < len" "len \<le> length current" "bert_encoder k (candidate first len current) \<noteq> None"
    "len < j \<Longrightarrow> j \<le> length current \<Longrightarrow> bert_encoder k (candidate first j current) = None"
proof -
  have "len \<in> set (piece_lengths k first current)" using assms by simp
  then show "0 < len" "len \<le> length current" "bert_encoder k (candidate first len current) \<noteq> None" by (auto simp: piece_lengths_def)
  have "sorted_wrt (>) (rev [1..<Suc (length current)])" unfolding sorted_wrt_rev by (rule sorted_wrt_upt)
  then have "sorted_wrt (>) (piece_lengths k first current)" unfolding piece_lengths_def by (rule sorted_wrt_filter)
  then have less: "\<forall>j\<in>set xs. j < len" unfolding assms by simp
  show "bert_encoder k (candidate first j current) = None" if "len < j" "j \<le> length current"
  proof (rule ccontr)
    assume "bert_encoder k (candidate first j current) \<noteq> None"
    then have "j \<in> set (piece_lengths k first current)"
      unfolding piece_lengths_def set_filter set_rev set_upt using that by (simp add: less_Suc_eq_le)
    then show False unfolding assms using less that by auto
  qed
qed

text \<open>The ids of a word are those of pieces that give the word back, or end with the unknown token.\<close>

lemma word_piece_loop_pieces:
  "\<exists>ws unk. word_piece_loop k current ids = ids @ map (\<lambda>w. the (bert_encoder k w)) ws @ (if unk then [100] else []) \<and>
     list_all (\<lambda>w. bert_encoder k w \<noteq> None) ws \<and> (\<not> unk \<longrightarrow> unhash (ids = []) ws = current)"
proof (induction k current ids rule: word_piece_loop.induct)
  case (1 k current ids)
  show ?case
  proof (cases "current = []")
    case True
    then show ?thesis by (intro exI [of _ "[]"] exI [of _ False]) (simp add: word_piece_loop.simps)
  next
    case False
    show ?thesis
    proof (cases "piece_lengths k (ids = []) current")
      case Nil
      then show ?thesis using False by (intro exI [of _ "[]"] exI [of _ True]) (simp add: word_piece_loop.simps)
    next
      case (Cons len xs)
      let ?w = "candidate (ids = []) len current"
      obtain ws unk where ws: "word_piece_loop k (drop len current) (ids @ [the (bert_encoder k ?w)]) =
          (ids @ [the (bert_encoder k ?w)]) @ map (\<lambda>w. the (bert_encoder k w)) ws @ (if unk then [100] else [])"
        "list_all (\<lambda>w. bert_encoder k w \<noteq> None) ws" "\<not> unk \<longrightarrow> unhash False ws = drop len current"
        using "1.IH" [OF False Cons] by auto
      have "word_piece_loop k current ids = word_piece_loop k (drop len current) (ids @ [the (bert_encoder k ?w)])"
        using False Cons by (subst word_piece_loop.simps) simp
      moreover have "\<not> unk \<longrightarrow> unhash (ids = []) (?w # ws) = current" using ws(3) by (simp add: candidate_def)
      moreover have "list_all (\<lambda>w. bert_encoder k w \<noteq> None) (?w # ws)" using ws(2) piece_lengths_hd(3) [OF Cons] by simp
      ultimately show ?thesis using ws(1) by (intro exI [of _ "?w # ws"] exI [of _ unk]) simp
    qed
  qed
qed

text \<open>Characters that take two bytes in UTF-8 (accented Latin, Greek, Cyrillic letters) are dropped.\<close>

lemma bert_drops_two_byte_characters:
  "c AND 0xE0 = 0xC0 \<Longrightarrow> d AND 0xC0 = 0x80 \<Longrightarrow> bert_tokens (c # d # s) = bert_tokens s"
proof -
  assume c: "c AND 0xE0 = 0xC0" and d: "d AND 0xC0 = 0x80"
  have "bit (c AND 0xE0) 7" "bit (d AND 0xC0) 7" "\<not> bit (d AND 0xC0) 6" unfolding c d by simp_all
  then have "bit c 7" "bit d 7" "\<not> bit d 6" by (simp_all add: bit_simps)
  then have "bit (c AND 0x80) 7" "bit (d AND 0x80) 7" "\<not> bit (d AND 0xE0) 6" by (simp_all add: bit_simps)
  moreover have "bit (0xE0 :: byte) 6" "\<not> bit (0 :: byte) 7" by simp_all
  ultimately have "c AND 0x80 \<noteq> 0" "d AND 0x80 \<noteq> 0" "d AND 0xE0 \<noteq> 0xE0" by metis+
  moreover have "c AND 0xE0 \<noteq> 0xE0" unfolding c by simp
  ultimately show ?thesis by simp
qed

end
