(* ===== verification/Token_Spm_Model.thy ===== *)
theory Token_Spm_Model
  imports Token_Model Complex_Main
begin

text \<open>
  \<open>Sentencepiece\<close> (tokenizer.cpp): byte pair encoding with a linked list of symbols and a priority queue of
  pairs. A \<open>string_view_\<close> is a place in the text and a length. The text is given apart from the state; the
  index -1 of a missing neighbour is \<open>None\<close>. Scores are the values of \<open>float\<close>s; \<open>alpha\<close>, the dropout, is 0 as
  in every call. Where the code reads outside of a vector, the result is \<open>None\<close>, or the lemmas exclude it.
\<close>

section \<open>The vocabulary\<close>

text \<open>The enum, and any other number that a file has for it.\<close>

datatype PieceType = NORMAL | UNKNOWN | CONTROL | USER_DEFINED | UNUSED | BYTE | OTHER_TYPE int

record SentencePiece =
  piece :: bytes
  piece_score :: rat
  piece_type :: PieceType

record Sentencepiece =
  byte_fall_back :: bool
  unk_id :: int
  sentence_pieces :: "SentencePiece list"
  pieces :: "bytes \<Rightarrow> int option"
  reserved_id_map :: "bytes \<Rightarrow> int option"

text \<open>A line of the vocabulary file: the token in base64, its score and its type.\<close>

type_synonym piece_line = "bytes \<times> rat \<times> PieceType"

definition load_piece :: "piece_line \<Rightarrow> nat \<Rightarrow> Sentencepiece \<Rightarrow> Sentencepiece" where
  "load_piece line index k =
     (case line of (token, score, type) \<Rightarrow>
        let token = base64_decode token;
            k = k\<lparr>sentence_pieces := (sentence_pieces k)[index := \<lparr>piece = token, piece_score = score, piece_type = type\<rparr>]\<rparr>
        in if type = NORMAL then k\<lparr>pieces := insert_new token (int index) (pieces k)\<rparr>
           else
             let k = k\<lparr>reserved_id_map := insert_new token (int index) (reserved_id_map k)\<rparr>
             in if type = UNKNOWN then k\<lparr>unk_id := int index\<rparr> else k)"

definition Sentencepiece_load_vocab :: "piece_line list \<Rightarrow> Sentencepiece" where
  "Sentencepiece_load_vocab lines =
     fold (\<lambda>index. load_piece (lines ! index) index) [0..<length lines]
       \<lparr>byte_fall_back = True, unk_id = 0,
        sentence_pieces = replicate (length lines) \<lparr>piece = [], piece_score = 0, piece_type = NORMAL\<rparr>,
        pieces = (\<lambda>_. None), reserved_id_map = (\<lambda>_. None)\<rparr>"

definition piece_to_id :: "Sentencepiece \<Rightarrow> bytes \<Rightarrow> int" where
  "piece_to_id k p =
     (case reserved_id_map k p of Some i \<Rightarrow> i
      | None \<Rightarrow> (case pieces k p of Some i \<Rightarrow> i | None \<Rightarrow> unk_id k))"

text \<open>\<open>snprintf\<close> with \<open><0x%02X>\<close>\<close>

definition hex_digit :: "byte \<Rightarrow> byte" where
  "hex_digit n = (if n < 10 then 48 + n else 55 + n)"

definition byte_to_piece :: "byte \<Rightarrow> bytes" where
  "byte_to_piece c = bytes_of ''<0x'' @ [hex_digit (drop_bit 4 c), hex_digit (c AND 15)] @ bytes_of ''>''"

definition get_score :: "Sentencepiece \<Rightarrow> int \<Rightarrow> rat" where
  "get_score k i = piece_score (sentence_pieces k ! nat i)"

definition is_unused :: "Sentencepiece \<Rightarrow> int \<Rightarrow> bool" where
  "is_unused k i \<longleftrightarrow> piece_type (sentence_pieces k ! nat i) = UNUSED"

definition is_control :: "Sentencepiece \<Rightarrow> int \<Rightarrow> bool" where
  "is_control k i \<longleftrightarrow> piece_type (sentence_pieces k ! nat i) = CONTROL"

section \<open>Symbols and pairs\<close>

type_synonym view = "nat \<times> nat"

definition view_str :: "bytes \<Rightarrow> view \<Rightarrow> bytes" where
  "view_str str v = take (snd v) (drop (fst v) str)"

record SymbolPair =
  pleft :: nat
  pright :: nat
  pscore :: rat
  psize :: nat

record Symbol =
  sprev :: "nat option"
  snext :: "nat option"
  sfreeze :: bool
  sview :: view

record bpe_state =
  symbols :: "Symbol list"
  agenda :: "SymbolPair list"
  rev_merge :: "bytes \<Rightarrow> (view \<times> view) option"

text \<open>\<open>SymbolPairComparator\<close>: the pair that is popped first has the best score, then the least place.\<close>

definition below :: "SymbolPair \<Rightarrow> SymbolPair \<Rightarrow> bool" where
  "below h1 h2 \<longleftrightarrow> pscore h1 < pscore h2 \<or> pscore h1 = pscore h2 \<and> pleft h1 > pleft h2"

definition MaybeAddNewSymbolPair :: "Sentencepiece \<Rightarrow> bytes \<Rightarrow> nat option \<Rightarrow> nat option \<Rightarrow> bpe_state \<Rightarrow> bpe_state" where
  "MaybeAddNewSymbolPair k str left right s =
     (case (left, right) of
        (Some l, Some r) \<Rightarrow>
          if sfreeze (symbols s ! l) \<or> sfreeze (symbols s ! r) then s
          else
            let p = (fst (sview (symbols s ! l)), snd (sview (symbols s ! l)) + snd (sview (symbols s ! r)))
            in (case pieces k (view_str str p) of
                  None \<Rightarrow> s
                | Some i \<Rightarrow>
                    let s = s\<lparr>agenda := agenda s @ [\<lparr>pleft = l, pright = r, pscore = get_score k i, psize = snd p\<rparr>]\<rparr>
                    in if is_unused k i
                       then s\<lparr>rev_merge := (rev_merge s)(view_str str p \<mapsto> (sview (symbols s ! l), sview (symbols s ! r)))\<rparr>
                       else s)
      | _ \<Rightarrow> s)"

definition one_char_len :: "byte \<Rightarrow> nat" where
  "one_char_len c = [1, 1, 1, 1, 1, 1, 1, 1, 1, 1, 1, 1, 2, 2, 3, 4] ! unat (drop_bit 4 c)"

lemma one_char_len_pos: "0 < one_char_len c"
proof -
  have "unat (drop_bit 4 c) = unat c div 16" by (simp add: drop_bit_eq_div unat_div)
  then have "unat (drop_bit 4 c) < 16" using unsigned_less [of c, where 'a = nat] by simp
  then have "\<forall>x\<in>set [1, 1, 1, 1, 1, 1, 1, 1, 1, 1, 1, 1, 2, 2, 3, 4 :: nat]. 0 < x" "unat (drop_bit 4 c) < length [1, 1, 1, 1, 1, 1, 1, 1, 1, 1, 1, 1, 2, 2, 3, 4 :: nat]"
    by simp_all
  then show ?thesis unfolding one_char_len_def by (rule bspec [OF _ nth_mem])
qed

text \<open>The characters of the text from a place on.\<close>

function char_views :: "bytes \<Rightarrow> nat \<Rightarrow> view list" where
  "char_views str d =
     (if d \<ge> length str then []
      else let mblen = min (length str - d) (one_char_len (str ! d)) in (d, mblen) # char_views str (d + mblen))"
  by auto
termination
proof (relation "measure (\<lambda>(str, d). length str - d)")
  fix str :: bytes and d x
  assume "\<not> length str \<le> d" "x = min (length str - d) (one_char_len (str ! d))"
  then show "((str, d + x), str, d) \<in> measure (\<lambda>(str, d). length str - d)"
    using one_char_len_pos [of "str ! d"] by (simp add: min_def) linarith
qed simp

declare char_views.simps [simp del]

definition char_symbols :: "view list \<Rightarrow> Symbol list" where
  "char_symbols vs =
     map (\<lambda>i. \<lparr>sprev = if i = 0 then None else Some (i - 1), snext = if i + 1 = length vs then None else Some (i + 1),
               sfreeze = False, sview = vs ! i\<rparr>) [0..<length vs]"

definition bpe_start :: "Sentencepiece \<Rightarrow> bytes \<Rightarrow> bpe_state" where
  "bpe_start k str =
     (let syms = char_symbols (char_views str 0)
      in fold (\<lambda>i. MaybeAddNewSymbolPair k str (Some (i - 1)) (Some i)) [1..<length syms]
           \<lparr>symbols = syms, agenda = [], rev_merge = (\<lambda>_. None)\<rparr>)"

section \<open>The main loop\<close>

text \<open>One round: the pair at the place \<open>i\<close> of the queue is taken out. A pair whose symbols have changed is dropped.\<close>

definition set_symbol :: "nat \<Rightarrow> (Symbol \<Rightarrow> Symbol) \<Rightarrow> bpe_state \<Rightarrow> bpe_state" where
  "set_symbol i f s = s\<lparr>symbols := (symbols s)[i := f (symbols s ! i)]\<rparr>"

definition available :: "bpe_state \<Rightarrow> SymbolPair \<Rightarrow> bool" where
  "available s h \<longleftrightarrow> snd (sview (symbols s ! pleft h)) \<noteq> 0 \<and> snd (sview (symbols s ! pright h)) \<noteq> 0 \<and>
     snd (sview (symbols s ! pleft h)) + snd (sview (symbols s ! pright h)) = psize h"

definition merge_symbols :: "Sentencepiece \<Rightarrow> bytes \<Rightarrow> SymbolPair \<Rightarrow> bpe_state \<Rightarrow> bpe_state" where
  "merge_symbols k str h s =
     (let l = pleft h;
          r = pright h;
          s = set_symbol l (\<lambda>x. x\<lparr>sview := (fst (sview x), snd (sview x) + snd (sview (symbols s ! r)))\<rparr>) s;
          s = set_symbol l (\<lambda>x. x\<lparr>snext := snext (symbols s ! r)\<rparr>) s;
          s = (case snext (symbols s ! r) of Some j \<Rightarrow> set_symbol j (\<lambda>x. x\<lparr>sprev := Some l\<rparr>) s | None \<Rightarrow> s);
          s = set_symbol r (\<lambda>x. x\<lparr>sview := (0, 0)\<rparr>) s;
          s = MaybeAddNewSymbolPair k str (sprev (symbols s ! l)) (Some l) s
      in MaybeAddNewSymbolPair k str (Some l) (snext (symbols s ! l)) s)"

definition bpe_round :: "Sentencepiece \<Rightarrow> bytes \<Rightarrow> nat \<Rightarrow> bpe_state \<Rightarrow> bpe_state" where
  "bpe_round k str i s =
     (let h = agenda s ! i;
          s = s\<lparr>agenda := take i (agenda s) @ drop (Suc i) (agenda s)\<rparr>
      in if available s h then merge_symbols k str h s else s)"

text \<open>\<open>std::priority_queue\<close> pops a pair no other is above of; which of several is left open.\<close>

definition is_top :: "SymbolPair list \<Rightarrow> nat \<Rightarrow> bool" where
  "is_top hs i \<longleftrightarrow> i < length hs \<and> list_all (\<lambda>h. \<not> below (hs ! i) h) hs"

inductive bpe_step :: "Sentencepiece \<Rightarrow> bytes \<Rightarrow> bpe_state \<Rightarrow> bpe_state \<Rightarrow> bool" for k str where
  pop: "is_top (agenda s) i \<Longrightarrow> bpe_step k str s (bpe_round k str i s)"

text \<open>The executable loop takes the first of them. It may not end (\<open>None\<close>).\<close>

definition first_top :: "SymbolPair list \<Rightarrow> nat option" where
  "first_top hs = List.find (is_top hs) [0..<length hs]"

partial_function (option) bpe_main :: "Sentencepiece \<Rightarrow> bytes \<Rightarrow> bpe_state \<Rightarrow> bpe_state option" where
  "bpe_main k str s = (case first_top (agenda s) of None \<Rightarrow> Some s | Some i \<Rightarrow> bpe_main k str (bpe_round k str i s))"

section \<open>The output\<close>

partial_function (option) resegment ::
  "Sentencepiece \<Rightarrow> bytes \<Rightarrow> (bytes \<Rightarrow> (view \<times> view) option) \<Rightarrow> view \<Rightarrow> (view \<times> int) list option" where
  "resegment k str rm w =
     (let id = piece_to_id k (view_str str w)
      in if id = -1 \<or> \<not> is_unused k id then Some [(w, id)]
         else case rm (view_str str w) of
             None \<Rightarrow> Some [(w, id)]
           | Some (a, b) \<Rightarrow>
               Option.bind (resegment k str rm a) (\<lambda>xs. Option.bind (resegment k str rm b) (\<lambda>ys. Some (xs @ ys))))"

partial_function (option) bpe_output :: "Sentencepiece \<Rightarrow> bytes \<Rightarrow> bpe_state \<Rightarrow> nat option \<Rightarrow> (view \<times> int) list option" where
  "bpe_output k str s index =
     (if index = None then Some []
      else
        let x = symbols s ! the index
        in Option.bind (resegment k str (rev_merge s) (sview x))
             (\<lambda>xs. Option.bind (bpe_output k str s (snext x)) (\<lambda>ys. Some (xs @ ys))))"

definition bpe_encode :: "Sentencepiece \<Rightarrow> bytes \<Rightarrow> (view \<times> int) list option" where
  "bpe_encode k str =
     (if symbols (bpe_start k str) = [] then Some []
      else case bpe_main k str (bpe_start k str) of None \<Rightarrow> None | Some s \<Rightarrow> bpe_output k str s (Some 0))"

definition put_piece :: "Sentencepiece \<Rightarrow> bytes \<Rightarrow> view \<times> int \<Rightarrow> int list" where
  "put_piece k str p =
     (if snd p = unk_id k \<and> byte_fall_back k then map (\<lambda>b. piece_to_id k (byte_to_piece b)) (view_str str (fst p))
      else [snd p])"

definition Sentencepiece_encode :: "Sentencepiece \<Rightarrow> bytes \<Rightarrow> int list option" where
  "Sentencepiece_encode k str = map_option (\<lambda>result. concat (map (put_piece k str) result)) (bpe_encode k str)"

text \<open>\<open>decode\<close> looks for U+2581, which stands for a blank. \<open>replace\<close> takes the length \<open>pos + 3\<close>.\<close>

definition blank_mark :: bytes where
  "blank_mark = [0xE2, 0x96, 0x81]"

definition find_mark :: "bytes \<Rightarrow> nat option" where
  "find_mark p = List.find (\<lambda>i. take 3 (drop i p) = blank_mark) [0..<length p]"

definition Sentencepiece_decode :: "Sentencepiece \<Rightarrow> int \<Rightarrow> bytes option" where
  "Sentencepiece_decode k i =
     (if i < 0 \<or> nat i \<ge> length (sentence_pieces k) then None
      else
        let p = piece (sentence_pieces k ! nat i)
        in Some (case find_mark p of None \<Rightarrow> p | Some pos \<Rightarrow> take pos p @ [32] @ drop (pos + (pos + 3)) p))"

end
