(* ===== verification/Token_Spm.thy ===== *)
theory Token_Spm
  imports Token_Spm_Model
begin

text \<open>
  The vocabulary that \<open>Sentencepiece\<close> loads, and its byte pair encoding: the linked list of symbols with its
  queue of pairs, some of them out of date, computes what the list algorithm does that joins the pair of
  neighbours with the best score, the first of them, until none is in the vocabulary.
\<close>

section \<open>The vocabulary\<close>

definition line_piece :: "piece_line \<Rightarrow> SentencePiece" where
  "line_piece line = (case line of (token, score, type) \<Rightarrow> \<lparr>piece = base64_decode token, piece_score = score, piece_type = type\<rparr>)"

text \<open>A map has the pieces of the first \<open>m\<close> lines whose type is in \<open>P\<close>.\<close>

definition map_loaded :: "(PieceType \<Rightarrow> bool) \<Rightarrow> piece_line list \<Rightarrow> nat \<Rightarrow> (bytes \<Rightarrow> int option) \<Rightarrow> bool" where
  "map_loaded P lines m f \<longleftrightarrow>
     (\<forall>p i. f p = Some i \<longrightarrow> 0 \<le> i \<and> nat i < m \<and> piece (line_piece (lines ! nat i)) = p \<and> P (piece_type (line_piece (lines ! nat i)))) \<and>
     (\<forall>i<m. P (piece_type (line_piece (lines ! i))) \<longrightarrow> f (piece (line_piece (lines ! i))) \<noteq> None)"

lemma map_loaded_insert:
  assumes "map_loaded P lines m f" and "P (piece_type (line_piece (lines ! m)))"
  shows "map_loaded P lines (Suc m) (insert_new (piece (line_piece (lines ! m))) (int m) f)"
  unfolding map_loaded_def
proof (intro conjI allI impI)
  let ?p = "piece (line_piece (lines ! m))"
  fix p i assume "insert_new ?p (int m) f p = Some i"
  then have "p = ?p \<and> i = int m \<or> f p = Some i" unfolding insert_new_first by (metis option.inject)
  then consider "p = ?p" "i = int m" | "f p = Some i" by blast
  then have "0 \<le> i \<and> nat i < Suc m \<and> piece (line_piece (lines ! nat i)) = p \<and> P (piece_type (line_piece (lines ! nat i)))"
  proof cases
    case 1
    then show ?thesis using assms(2) by simp
  next
    case 2
    then have "0 \<le> i" "nat i < m" "piece (line_piece (lines ! nat i)) = p" "P (piece_type (line_piece (lines ! nat i)))"
      using assms(1) unfolding map_loaded_def by blast+
    then show ?thesis by simp
  qed
  then show "0 \<le> i" "nat i < Suc m" "piece (line_piece (lines ! nat i)) = p" "P (piece_type (line_piece (lines ! nat i)))" by blast+
next
  fix i assume "i < Suc m" "P (piece_type (line_piece (lines ! i)))"
  then show "insert_new (piece (line_piece (lines ! m))) (int m) f (piece (line_piece (lines ! i))) \<noteq> None"
    using assms(1) by (cases "i = m") (auto simp: map_loaded_def insert_new_first)
qed

lemma map_loaded_skip: "map_loaded P lines m f \<Longrightarrow> \<not> P (piece_type (line_piece (lines ! m))) \<Longrightarrow> map_loaded P lines (Suc m) f"
  unfolding map_loaded_def by (metis less_Suc_eq)

definition unk_loaded :: "piece_line list \<Rightarrow> nat \<Rightarrow> int \<Rightarrow> bool" where
  "unk_loaded lines m u \<longleftrightarrow>
     u = 0 \<and> (\<forall>i<m. piece_type (line_piece (lines ! i)) \<noteq> UNKNOWN) \<or>
     0 \<le> u \<and> nat u < m \<and> piece_type (line_piece (lines ! nat u)) = UNKNOWN"

definition loaded :: "piece_line list \<Rightarrow> nat \<Rightarrow> Sentencepiece \<Rightarrow> bool" where
  "loaded lines m k \<longleftrightarrow> byte_fall_back k \<and> length (sentence_pieces k) = length lines \<and>
     (\<forall>i<m. sentence_pieces k ! i = line_piece (lines ! i)) \<and> map_loaded (\<lambda>t. t = NORMAL) lines m (pieces k) \<and>
     map_loaded (\<lambda>t. t \<noteq> NORMAL) lines m (reserved_id_map k) \<and> unk_loaded lines m (unk_id k)"

lemma loaded_step: "loaded lines m k \<Longrightarrow> m < length lines \<Longrightarrow> loaded lines (Suc m) (load_piece (lines ! m) m k)"
proof -
  assume k: "loaded lines m k" and m: "m < length lines"
  let ?l = "line_piece (lines ! m)" and ?k' = "load_piece (lines ! m) m k"
  obtain token sc ty where line: "lines ! m = (token, sc, ty)" by (metis prod_cases3)
  have f: "byte_fall_back ?k' = byte_fall_back k" "sentence_pieces ?k' = (sentence_pieces k)[m := ?l]"
    "pieces ?k' = (if piece_type ?l = NORMAL then insert_new (piece ?l) (int m) (pieces k) else pieces k)"
    "reserved_id_map ?k' = (if piece_type ?l = NORMAL then reserved_id_map k else insert_new (piece ?l) (int m) (reserved_id_map k))"
    "unk_id ?k' = (if piece_type ?l = UNKNOWN then int m else unk_id k)"
    unfolding load_piece_def line line_piece_def prod.case Let_def by (cases ty; simp)+
  have "map_loaded (\<lambda>t. t = NORMAL) lines (Suc m) (pieces ?k')" "map_loaded (\<lambda>t. t \<noteq> NORMAL) lines (Suc m) (reserved_id_map ?k')"
    using k unfolding f loaded_def
    by (cases "piece_type ?l = NORMAL"; simp add: map_loaded_insert map_loaded_skip)+
  moreover have "unk_loaded lines (Suc m) (unk_id ?k')"
    using k unfolding f loaded_def unk_loaded_def by (auto simp: less_Suc_eq)
  moreover have "\<forall>i<Suc m. sentence_pieces ?k' ! i = line_piece (lines ! i)"
    using k m unfolding f loaded_def by (simp add: less_Suc_eq nth_list_update)
  ultimately show ?thesis using k unfolding loaded_def f(1) by (simp add: f(2))
qed

lemma loaded_load_vocab: "loaded lines (length lines) (Sentencepiece_load_vocab lines)"
proof -
  let ?k0 = "\<lparr>byte_fall_back = True, unk_id = 0, sentence_pieces = replicate (length lines) \<lparr>piece = [], piece_score = 0, piece_type = NORMAL\<rparr>,
     pieces = (\<lambda>_. None), reserved_id_map = (\<lambda>_. None)\<rparr>"
  have "m \<le> length lines \<Longrightarrow> loaded lines m (fold (\<lambda>index. load_piece (lines ! index) index) [0..<m] ?k0)" for m
  proof (induction m)
    case 0
    then show ?case by (simp add: loaded_def map_loaded_def unk_loaded_def)
  next
    case (Suc m)
    then show ?case using loaded_step by simp
  qed
  from this [of "length lines"] show ?thesis by (simp add: Sentencepiece_load_vocab_def)
qed

text \<open>What the proofs use of a vocabulary.\<close>

definition vocab_good :: "Sentencepiece \<Rightarrow> bool" where
  "vocab_good k \<longleftrightarrow> byte_fall_back k \<and>
     (\<forall>p i. pieces k p = Some i \<longrightarrow> 0 \<le> i \<and> nat i < length (sentence_pieces k) \<and>
        piece (sentence_pieces k ! nat i) = p \<and> piece_type (sentence_pieces k ! nat i) = NORMAL) \<and>
     (\<forall>p i. reserved_id_map k p = Some i \<longrightarrow> 0 \<le> i \<and> nat i < length (sentence_pieces k) \<and>
        piece (sentence_pieces k ! nat i) = p \<and> piece_type (sentence_pieces k ! nat i) \<noteq> NORMAL) \<and>
     0 \<le> unk_id k \<and> nat (unk_id k) < length (sentence_pieces k)"

lemma vocab_good_load: "lines \<noteq> [] \<Longrightarrow> vocab_good (Sentencepiece_load_vocab lines)"
  using loaded_load_vocab [of lines] unfolding loaded_def vocab_good_def map_loaded_def unk_loaded_def by auto

lemma piece_to_id_range: "vocab_good k \<Longrightarrow> 0 \<le> piece_to_id k p \<and> nat (piece_to_id k p) < length (sentence_pieces k)"
  by (auto simp: vocab_good_def piece_to_id_def split: option.split)

lemma piece_to_id_piece: "vocab_good k \<Longrightarrow> piece_to_id k p \<noteq> unk_id k \<Longrightarrow> piece (sentence_pieces k ! nat (piece_to_id k p)) = p"
  by (auto simp: vocab_good_def piece_to_id_def split: option.splits)

lemma pieces_used: "vocab_good k \<Longrightarrow> pieces k p = Some i \<Longrightarrow> \<not> is_unused k i"
  by (simp add: vocab_good_def is_unused_def)

section \<open>The list algorithm\<close>

definition pair_score :: "Sentencepiece \<Rightarrow> bytes list \<Rightarrow> nat \<Rightarrow> rat option" where
  "pair_score k ps j = (if Suc j < length ps then map_option (get_score k) (pieces k (ps ! j @ ps ! Suc j)) else None)"

definition best_score :: "Sentencepiece \<Rightarrow> bytes list \<Rightarrow> nat \<Rightarrow> bool" where
  "best_score k ps j \<longleftrightarrow>
     (case pair_score k ps j of None \<Rightarrow> False
      | Some x \<Rightarrow> list_all (\<lambda>i. case pair_score k ps i of None \<Rightarrow> True | Some y \<Rightarrow> y \<le> x) [0..<length ps])"

definition spm_best :: "Sentencepiece \<Rightarrow> bytes list \<Rightarrow> nat option" where
  "spm_best k ps = List.find (best_score k ps) [0..<length ps]"

definition join_at :: "nat \<Rightarrow> 'a list list \<Rightarrow> 'a list list" where
  "join_at j ps = take j ps @ (ps ! j @ ps ! Suc j) # drop (Suc (Suc j)) ps"

lemma spm_best_range: "spm_best k ps = Some j \<Longrightarrow> Suc j < length ps \<and> best_score k ps j"
  by (auto simp: spm_best_def find_Some_iff best_score_def pair_score_def split: if_splits option.splits)

function spm_pieces :: "Sentencepiece \<Rightarrow> bytes list \<Rightarrow> bytes list" where
  "spm_pieces k ps = (case spm_best k ps of None \<Rightarrow> ps | Some j \<Rightarrow> spm_pieces k (join_at j ps))"
  by auto
termination by (relation "measure (\<lambda>(k, ps). length ps)") (auto dest!: spm_best_range simp: join_at_def)

declare spm_pieces.simps [simp del]

lemma spm_best_None: "(\<And>j. pair_score k ps j = None) \<Longrightarrow> spm_best k ps = None"
  by (simp add: spm_best_def find_None_iff best_score_def)

text \<open>A pair that no pair is above of is the one the list algorithm joins.\<close>

lemma spm_bestI:
  assumes "pair_score k ps j = Some x"
    and "\<And>i y. pair_score k ps i = Some y \<Longrightarrow> y < x \<or> y = x \<and> j \<le> i"
  shows "spm_best k ps = Some j"
proof -
  have j: "j < length ps" using assms(1) by (simp add: pair_score_def split: if_splits)
  have "best_score k ps j" using assms by (fastforce simp: best_score_def list_all_iff split: option.split)
  moreover have "\<not> best_score k ps i" if "i < j" for i
  proof
    assume b: "best_score k ps i"
    then obtain y where y: "pair_score k ps i = Some y" by (auto simp: best_score_def split: option.splits)
    then have "y < x" using assms(2) [OF y] that by auto
    moreover have "x \<le> y" using b y assms(1) j by (auto simp: best_score_def list_all_iff dest!: bspec [of _ _ j])
    ultimately show False by simp
  qed
  ultimately show ?thesis unfolding spm_best_def find_Some_iff using j by (intro exI [of _ j]) simp
qed

lemma join_at_split: "length A = j \<Longrightarrow> join_at j (A @ x # y # B) = A @ (x @ y) # B"
  by (auto simp: join_at_def nth_append)

end
