(* ===== verification/Token_Spm_Links.thy ===== *)
theory Token_Spm_Links
  imports Token_Spm
begin

text \<open>
  The linked list of symbols of \<open>bpe_encode\<close>: the live symbols, in order, cover the text without a gap, the
  others are empty. A merge takes one out; the queue has every pair of neighbours that is in the vocabulary,
  and a pair of it that is still available is one of neighbours.
\<close>

section \<open>Views\<close>

lemma view_str_split: "view_str str (d, m + n) = view_str str (d, m) @ view_str str (d + m, n)"
  by (simp add: view_str_def take_add add.commute)

lemma length_view_str: "d + m \<le> length str \<Longrightarrow> length (view_str str (d, m)) = m"
  by (simp add: view_str_def)

section \<open>Chains of symbols\<close>

definition first_of :: "nat list \<Rightarrow> nat option \<Rightarrow> nat option" where
  "first_of is nx = (case is of [] \<Rightarrow> nx | i # _ \<Rightarrow> Some i)"

lemma first_of_simps [simp]: "first_of [] nx = nx" "first_of (i # is) nx = Some i"
  by (simp_all add: first_of_def)

text \<open>The symbols \<open>is\<close>, from the place \<open>d\<close> of the text to \<open>e\<close>, between the symbols \<open>p\<close> and \<open>nx\<close>.\<close>

fun chain :: "Symbol list \<Rightarrow> nat option \<Rightarrow> nat \<Rightarrow> nat list \<Rightarrow> nat option \<Rightarrow> nat \<Rightarrow> bool" where
  "chain syms p d [] nx e \<longleftrightarrow> d = e"
| "chain syms p d (i # is) nx e \<longleftrightarrow>
     i < length syms \<and> sprev (syms ! i) = p \<and> snext (syms ! i) = first_of is nx \<and> \<not> sfreeze (syms ! i) \<and>
     fst (sview (syms ! i)) = d \<and> 0 < snd (sview (syms ! i)) \<and> chain syms (Some i) (d + snd (sview (syms ! i))) is nx e"

definition last_of :: "nat option \<Rightarrow> nat list \<Rightarrow> nat option" where
  "last_of p is = (if is = [] then p else Some (last is))"

lemma last_of_simps [simp]: "last_of p [] = p" "last_of p (i # is) = last_of (Some i) is"
  by (simp_all add: last_of_def)

lemma chain_append:
  "chain syms p d (xs @ ys) nx e \<longleftrightarrow> (\<exists>m. chain syms p d xs (first_of ys nx) m \<and> chain syms (last_of p xs) m ys nx e)"
proof (induction xs arbitrary: p d)
  case (Cons x xs)
  have "first_of (xs @ ys) nx = first_of xs (first_of ys nx)" by (cases xs) simp_all
  then show ?case using Cons.IH by simp
qed simp

lemma chain_cong: "(\<And>i. i \<in> set is \<Longrightarrow> syms' ! i = syms ! i) \<Longrightarrow> length syms' = length syms \<Longrightarrow>
    chain syms' p d is nx e \<longleftrightarrow> chain syms p d is nx e"
  by (induction "is" arbitrary: p d) simp_all

lemma chain_prev:
  assumes "chain syms p d ys nx e" and "distinct ys"
  shows "chain (case ys of [] \<Rightarrow> syms | y # _ \<Rightarrow> syms[y := (syms ! y)\<lparr>sprev := p'\<rparr>]) p' d ys nx e"
proof (cases ys)
  case (Cons y zs)
  then have "chain (syms[y := (syms ! y)\<lparr>sprev := p'\<rparr>]) (Some y) (d + snd (sview (syms ! y))) zs nx e"
    using assms by (subst chain_cong [where syms = syms]) (auto simp: nth_list_update_if)
  then show ?thesis using assms Cons by simp
qed (use assms in simp)

lemma chain_end: "chain syms p d is nx e \<Longrightarrow> d \<le> e"
  by (induction "is" arbitrary: p d) (auto intro: add_leD1)

definition texts :: "bytes \<Rightarrow> Symbol list \<Rightarrow> nat list \<Rightarrow> bytes list" where
  "texts str syms is = map (\<lambda>i. view_str str (sview (syms ! i))) is"

lemma texts_simps [simp]: "texts str syms [] = []"
    "texts str syms (i # is) = view_str str (sview (syms ! i)) # texts str syms is"
    "texts str syms (xs @ ys) = texts str syms xs @ texts str syms ys" "length (texts str syms is) = length is"
  by (simp_all add: texts_def)

lemma texts_cong: "(\<And>i. i \<in> set is \<Longrightarrow> sview (syms' ! i) = sview (syms ! i)) \<Longrightarrow> texts str syms' is = texts str syms is"
  by (simp add: texts_def)

lemma chain_texts: "chain syms p d is nx e \<Longrightarrow> concat (texts str syms is) = take (e - d) (drop d str)"
proof (induction "is" arbitrary: p d)
  case (Cons i "is")
  let ?m = "snd (sview (syms ! i))"
  have c: "chain syms (Some i) (d + ?m) is nx e" "sview (syms ! i) = (d, ?m)" using Cons.prems by (auto simp: prod_eq_iff)
  have "e - d = ?m + (e - (d + ?m))" using chain_end [OF c(1)] by simp
  then have "take (e - d) (drop d str) = view_str str (d, ?m) @ take (e - (d + ?m)) (drop (d + ?m) str)"
    by (simp only: view_str_def fst_conv snd_conv take_add drop_drop add.commute)
  then show ?case using Cons.IH [OF c(1)] c(2) by simp
qed simp

section \<open>A merge\<close>

definition merged_links :: "nat \<Rightarrow> nat \<Rightarrow> Symbol list \<Rightarrow> Symbol list" where
  "merged_links l r syms =
     (let syms1 = syms[l := (syms ! l)\<lparr>sview := (fst (sview (syms ! l)), snd (sview (syms ! l)) + snd (sview (syms ! r))), snext := snext (syms ! r)\<rparr>];
          syms2 = (case snext (syms ! r) of None \<Rightarrow> syms1 | Some j \<Rightarrow> syms1[j := (syms1 ! j)\<lparr>sprev := Some l\<rparr>])
      in syms2[r := (syms2 ! r)\<lparr>sview := (0, 0)\<rparr>])"

lemma merge_symbols_links:
  assumes "pleft h \<noteq> pright h" and "pleft h < length (symbols s)"
  shows "merge_symbols k str h s =
    (let s = s\<lparr>symbols := merged_links (pleft h) (pright h) (symbols s)\<rparr>;
         s = MaybeAddNewSymbolPair k str (sprev (symbols s ! pleft h)) (Some (pleft h)) s
     in MaybeAddNewSymbolPair k str (Some (pleft h)) (snext (symbols s ! pleft h)) s)"
proof -
  have e: "s\<lparr>symbols := x, symbols := y\<rparr> = s\<lparr>symbols := y\<rparr>" for x y by simp
  show ?thesis
    unfolding merge_symbols_def set_symbol_def merged_links_def Let_def using assms
    by (cases "snext (symbols s ! pright h)") simp_all
qed

lemma length_merged_links [simp]: "length (merged_links l r syms) = length syms"
  by (simp add: merged_links_def Let_def split: option.split)

lemma merged_links_other:
  "i \<noteq> l \<Longrightarrow> i \<noteq> r \<Longrightarrow> snext (syms ! r) \<noteq> Some i \<Longrightarrow> merged_links l r syms ! i = syms ! i"
  by (auto simp: merged_links_def Let_def split: option.split)

lemma chain_merged:
  assumes c: "chain syms p d (xs @ l # r # ys) nx e" and dist: "distinct (xs @ l # r # ys)" and nx: "nx = None"
  defines "syms' \<equiv> merged_links l r syms"
  shows "chain syms' p d (xs @ l # ys) nx e" "sview (syms' ! l) = (fst (sview (syms ! l)), snd (sview (syms ! l)) + snd (sview (syms ! r)))"
    "snd (sview (syms' ! r)) = 0" "\<And>i. i \<noteq> l \<Longrightarrow> i \<noteq> r \<Longrightarrow> sview (syms' ! i) = sview (syms ! i)"
proof -
  from c obtain m where m: "chain syms p d xs (Some l) m" "chain syms (last_of p xs) m (l # r # ys) nx e"
    unfolding chain_append by auto
  let ?a = "snd (sview (syms ! l))" and ?b = "snd (sview (syms ! r))"
  have l: "l < length syms" "r < length syms" "snext (syms ! r) = first_of ys nx" "fst (sview (syms ! l)) = m" "0 < ?a"
    and ys: "chain syms (Some r) (m + ?a + ?b) ys nx e" using m(2) by auto
  have yr: "snext (syms ! r) \<noteq> Some i" if "i \<notin> set ys" for i using that l(3) nx by (cases ys) auto
  have i: "syms' ! i = syms ! i" if "i \<in> set xs" for i
    unfolding syms'_def using that dist yr [of i] by (intro merged_links_other) auto
  have sl: "syms' ! l = (syms ! l)\<lparr>sview := (m, ?a + ?b), snext := first_of ys nx\<rparr>"
    unfolding syms'_def merged_links_def Let_def using l dist yr [of l] by (auto split: option.split)
  show v: "sview (syms' ! l) = (fst (sview (syms ! l)), ?a + ?b)" unfolding sl using l(4) by simp
  show "snd (sview (syms' ! r)) = 0" unfolding syms'_def merged_links_def Let_def using l(2) by (auto split: option.split)
  show "sview (syms' ! i) = sview (syms ! i)" if "i \<noteq> l" "i \<noteq> r" for i
    unfolding syms'_def merged_links_def Let_def using that by (auto simp: nth_list_update_if split: option.split)
  have "chain syms' (Some l) (m + ?a + ?b) ys nx e"
  proof -
    have "syms' ! i = (case ys of [] \<Rightarrow> syms | y # _ \<Rightarrow> syms[y := (syms ! y)\<lparr>sprev := Some l\<rparr>]) ! i" if "i \<in> set ys" for i
      unfolding syms'_def merged_links_def Let_def l(3) using that dist nx by (cases ys) (auto simp: nth_list_update_if)
    moreover have "length syms' = length (case ys of [] \<Rightarrow> syms | y # _ \<Rightarrow> syms[y := (syms ! y)\<lparr>sprev := Some l\<rparr>])"
      unfolding syms'_def by (cases ys) simp_all
    ultimately show ?thesis using chain_prev [OF ys, of "Some l"] dist by (subst chain_cong) auto
  qed
  moreover have "chain syms' p d xs (Some l) m" using m(1) i by (subst chain_cong [where syms = syms]) (auto simp: syms'_def)
  moreover have "length syms' = length syms" by (simp add: syms'_def)
  ultimately show "chain syms' p d (xs @ l # ys) nx e"
    unfolding chain_append using l m(2) sl by (intro exI [of _ m]) (simp add: add.assoc)
qed

end
