(* ===== verification/Token_Spm_Bpe.thy ===== *)
theory Token_Spm_Bpe
  imports Token_Spm_Links
begin

text \<open>
  The rounds of \<open>bpe_encode\<close> against the list algorithm \<open>spm_pieces\<close>: whichever of the best pairs the queue
  gives, a round drops a pair that is out of date or joins the pair the list algorithm joins.
\<close>

section \<open>Pairs\<close>

definition pair_of :: "Sentencepiece \<Rightarrow> bytes \<Rightarrow> Symbol list \<Rightarrow> nat \<Rightarrow> nat \<Rightarrow> SymbolPair option" where
  "pair_of k str syms l r =
     (let n = snd (sview (syms ! l)) + snd (sview (syms ! r))
      in map_option (\<lambda>i. \<lparr>pleft = l, pright = r, pscore = get_score k i, psize = n\<rparr>)
           (pieces k (view_str str (fst (sview (syms ! l)), n))))"

lemma pair_of_fields: "pair_of k str syms l r = Some h \<Longrightarrow> pleft h = l \<and> pright h = r \<and>
    psize h = snd (sview (syms ! l)) + snd (sview (syms ! r)) \<and>
    (\<exists>i. pieces k (view_str str (fst (sview (syms ! l)), psize h)) = Some i \<and> pscore h = get_score k i)"
  by (auto simp: pair_of_def Let_def)

lemma pair_of_cong: "sview (syms' ! l) = sview (syms ! l) \<Longrightarrow> sview (syms' ! r) = sview (syms ! r) \<Longrightarrow>
    pair_of k str syms' l r = pair_of k str syms l r"
  by (simp add: pair_of_def)

definition new_pairs :: "Sentencepiece \<Rightarrow> bytes \<Rightarrow> Symbol list \<Rightarrow> nat option \<Rightarrow> nat option \<Rightarrow> SymbolPair list" where
  "new_pairs k str syms lo ro =
     (case (lo, ro) of (Some l, Some r) \<Rightarrow> (case pair_of k str syms l r of None \<Rightarrow> [] | Some h \<Rightarrow> [h]) | _ \<Rightarrow> [])"

lemma in_new_pairs: "h \<in> set (new_pairs k str syms lo ro) \<longleftrightarrow> (\<exists>l r. lo = Some l \<and> ro = Some r \<and> pair_of k str syms l r = Some h)"
  by (auto simp: new_pairs_def split: option.splits)

lemma MaybeAdd_symbols [simp]: "symbols (MaybeAddNewSymbolPair k str lo ro s) = symbols s"
  by (simp add: MaybeAddNewSymbolPair_def Let_def split: option.split)

lemma MaybeAdd_pairs:
  assumes "vocab_good k" and "\<And>l. lo = Some l \<Longrightarrow> \<not> sfreeze (symbols s ! l)" and "\<And>r. ro = Some r \<Longrightarrow> \<not> sfreeze (symbols s ! r)"
  shows "MaybeAddNewSymbolPair k str lo ro s = s\<lparr>agenda := agenda s @ new_pairs k str (symbols s) lo ro\<rparr>"
  using assms pieces_used [OF assms(1)]
  by (auto simp: MaybeAddNewSymbolPair_def new_pairs_def pair_of_def Let_def split: option.split)

section \<open>The state of the loop\<close>

definition pair_ok :: "Sentencepiece \<Rightarrow> bytes \<Rightarrow> Symbol list \<Rightarrow> nat list \<Rightarrow> SymbolPair \<Rightarrow> bool" where
  "pair_ok k str syms is h \<longleftrightarrow> pleft h < pright h \<and> pright h < length syms \<and>
     (pleft h \<in> set is \<longrightarrow> pright h \<in> set is \<longrightarrow>
        (\<forall>i\<in>set is. \<not> (pleft h < i \<and> i < pright h)) \<and>
        (\<exists>i. pieces k (view_str str (fst (sview (syms ! pleft h)), psize h)) = Some i \<and> pscore h = get_score k i))"

definition queued :: "Sentencepiece \<Rightarrow> bytes \<Rightarrow> Symbol list \<Rightarrow> nat list \<Rightarrow> SymbolPair list \<Rightarrow> bool" where
  "queued k str syms is hs \<longleftrightarrow> (\<forall>xs l r ys h. is = xs @ l # r # ys \<longrightarrow> pair_of k str syms l r = Some h \<longrightarrow> h \<in> set hs)"

lemma queuedD: "queued k str syms (xs @ l # r # ys) hs \<Longrightarrow> pair_of k str syms l r = Some h \<Longrightarrow> h \<in> set hs"
  by (simp only: queued_def)

definition spm_state :: "Sentencepiece \<Rightarrow> bytes \<Rightarrow> bpe_state \<Rightarrow> nat list \<Rightarrow> bool" where
  "spm_state k str s is \<longleftrightarrow> is \<noteq> [] \<and> hd is = 0 \<and> sorted_wrt (<) is \<and>
     chain (symbols s) None 0 is None (length str) \<and>
     (\<forall>i<length (symbols s). i \<notin> set is \<longrightarrow> snd (sview (symbols s ! i)) = 0) \<and>
     (\<forall>h\<in>set (agenda s). pair_ok k str (symbols s) is h) \<and>
     queued k str (symbols s) is (agenda s) \<and> rev_merge s = (\<lambda>_. None)"

lemma spm_stateD:
  assumes "spm_state k str s is"
  shows "is \<noteq> []" "hd is = 0" "sorted_wrt (<) is" "chain (symbols s) None 0 is None (length str)" "rev_merge s = (\<lambda>_. None)"
    "i < length (symbols s) \<Longrightarrow> i \<notin> set is \<Longrightarrow> snd (sview (symbols s ! i)) = 0"
    "h \<in> set (agenda s) \<Longrightarrow> pair_ok k str (symbols s) is h"
    "queued k str (symbols s) is (agenda s)"
  using assms unfolding spm_state_def by simp_all

lemma chain_cells: "chain syms p d is nx e \<Longrightarrow> i \<in> set is \<Longrightarrow> i < length syms \<and> \<not> sfreeze (syms ! i) \<and> 0 < snd (sview (syms ! i))"
  by (induction "is" arbitrary: p d) auto

lemma sorted_mid: "sorted_wrt (<) (xs @ l # r # ys) \<Longrightarrow> i \<in> set (xs @ l # r # ys) \<Longrightarrow> \<not> (l < i \<and> i < (r :: nat))"
  by (auto simp: sorted_wrt_append dest: less_asym)

lemma pair_ok_neighbours:
  assumes "is = xs @ l # r # ys" and "sorted_wrt (<) is" and "chain syms p d is nx e" and "pair_of k str syms l r = Some h"
  shows "pair_ok k str syms is h"
proof -
  have "l < r" "r < length syms" using assms(1,2) chain_cells [OF assms(3), of r] by (auto simp: sorted_wrt_append)
  then show ?thesis
    using sorted_mid [of xs l r ys] assms(1,2) pair_of_fields [OF assms(4)] unfolding pair_ok_def by auto
qed

text \<open>A pair that is available is one of neighbours.\<close>

lemma available_neighbours:
  assumes s: "spm_state k str s is" and h: "h \<in> set (agenda s)" and a: "available s h"
  obtains xs ys where "is = xs @ pleft h # pright h # ys" "pair_of k str (symbols s) (pleft h) (pright h) = Some h"
proof -
  have ok: "pair_ok k str (symbols s) is h" and srt: "sorted_wrt (<) is" using s h by (auto simp: spm_state_def)
  have lt: "pleft h < pright h" "pright h < length (symbols s)" using ok by (auto simp: pair_ok_def)
  have "i \<in> set is" if "i < length (symbols s)" "snd (sview (symbols s ! i)) \<noteq> 0" for i
    using spm_stateD(6) [OF s that(1)] that(2) by blast
  then have live: "pleft h \<in> set is" "pright h \<in> set is" using a lt unfolding available_def by auto
  then obtain xs zs where xs: "is = xs @ pleft h # zs" by (meson split_list)
  have r: "pright h \<in> set zs" using live(2) lt srt unfolding xs by (auto simp: sorted_wrt_append)
  then obtain j ys where zs: "zs = j # ys" by (cases zs) auto
  have "j = pright h"
  proof (rule ccontr)
    assume "j \<noteq> pright h"
    then have "pleft h < j" "j < pright h" using srt r unfolding xs zs by (auto simp: sorted_wrt_append)
    then show False using ok live unfolding pair_ok_def xs zs by auto
  qed
  moreover have "pair_of k str (symbols s) (pleft h) (pright h) = Some h"
    using ok live a by (auto simp: pair_ok_def available_def pair_of_def)
  ultimately show thesis using that xs zs by blast
qed

lemma neighbours_available:
  "chain (symbols s) p d (xs @ l # r # ys) nx e \<Longrightarrow> pair_of k str (symbols s) l r = Some h \<Longrightarrow> available s h"
  using chain_cells [of "symbols s" p d "xs @ l # r # ys" nx e] by (auto simp: available_def dest!: pair_of_fields)

text \<open>The pairs of neighbours are the pairs of pieces that the list algorithm looks at.\<close>

lemma pair_score_pair_of:
  assumes "chain syms p d (xs @ l # r # ys) nx e"
  shows "pair_score k (texts str syms (xs @ l # r # ys)) (length xs) = map_option pscore (pair_of k str syms l r)"
proof -
  from assms obtain m where "chain syms (last_of p xs) m (l # r # ys) nx e" unfolding chain_append by blast
  then have "fst (sview (syms ! r)) = fst (sview (syms ! l)) + snd (sview (syms ! l))" by simp
  then have "view_str str (sview (syms ! l)) @ view_str str (sview (syms ! r)) =
      view_str str (fst (sview (syms ! l)), snd (sview (syms ! l)) + snd (sview (syms ! r)))"
    unfolding view_str_split by (metis prod.collapse)
  then show ?thesis by (simp add: pair_score_def pair_of_def Let_def nth_append option.map_comp o_def)
qed

lemma pair_score_Some:
  assumes c: "chain syms p d is nx e" and y: "pair_score k (texts str syms is) j = Some y"
  obtains xs l r ys h where "is = xs @ l # r # ys" "length xs = j" "pair_of k str syms l r = Some h" "pscore h = y" "pleft h = l"
proof -
  have j: "Suc j < length is" using y by (simp add: pair_score_def split: if_splits)
  let ?xs = "take j is" and ?ys = "drop (Suc (Suc j)) is"
  have e: "is = ?xs @ is ! j # is ! Suc j # ?ys" using j by (simp add: Cons_nth_drop_Suc)
  have "length ?xs = j" using j by simp
  moreover have "chain syms p d (?xs @ is ! j # is ! Suc j # ?ys) nx e" using c unfolding e [symmetric] .
  note pair_score_pair_of [OF this, of k str, unfolded e [symmetric]]
  ultimately obtain h where h: "pair_of k str syms (is ! j) (is ! Suc j) = Some h" "pscore h = y"
    using y by (cases "pair_of k str syms (is ! j) (is ! Suc j)") auto
  show thesis using that [OF e] h j pair_of_fields [OF h(1)] by simp
qed

lemma top_is_best:
  assumes s: "spm_state k str s is" and top: "is_top (agenda s) i"
    and e: "is = xs @ l # r # ys" and h: "pair_of k str (symbols s) l r = Some (agenda s ! i)"
  shows "spm_best k (texts str (symbols s) is) = Some (length xs)"
proof (rule spm_bestI)
  have c: "chain (symbols s) None 0 is None (length str)" and srt: "sorted_wrt (<) is" using s by (simp_all add: spm_state_def)
  show "pair_score k (texts str (symbols s) is) (length xs) = Some (pscore (agenda s ! i))"
    using pair_score_pair_of [OF c [unfolded e], of k str] h unfolding e by simp
  fix j y assume "pair_score k (texts str (symbols s) is) j = Some y"
  then obtain xs' l' r' ys' h' where h': "is = xs' @ l' # r' # ys'" "length xs' = j" "pair_of k str (symbols s) l' r' = Some h'"
    "pscore h' = y" "pleft h' = l'" by (rule pair_score_Some [OF c])
  then have "h' \<in> set (agenda s)" using queuedD spm_stateD(8) [OF s] by blast
  then have nb: "\<not> below (agenda s ! i) h'" using top by (simp add: is_top_def list_all_iff)
  have "\<not> j < length xs" if "l \<le> l'"
  proof
    assume j: "j < length xs"
    have "is ! j = l'" "is ! length xs = l" using h'(1,2) e by (metis nth_append_length)+
    then have "l' < l" using sorted_wrt_nth_less [OF srt j] e by simp
    then show False using that by simp
  qed
  then show "y < pscore (agenda s ! i) \<or> y = pscore (agenda s ! i) \<and> length xs \<le> j"
    using nb h'(4,5) pair_of_fields [OF h] by (auto simp: below_def not_less)
qed

section \<open>The rounds\<close>

lemma in_drop_nth: "h \<in> set hs \<Longrightarrow> h \<noteq> hs ! i \<Longrightarrow> h \<in> set (take i hs @ drop (Suc i) hs)"
proof -
  assume h: "h \<in> set hs" "h \<noteq> hs ! i"
  have "hs = take i hs @ hs ! i # drop (Suc i) hs \<or> take i hs = hs" by (cases "i < length hs") (simp_all add: id_take_nth_drop)
  then show ?thesis using h by (metis Un_iff set_ConsD set_append)
qed

lemma take_drop_sub: "h \<in> set (take i hs @ drop n hs) \<Longrightarrow> h \<in> set hs"
  by (auto dest: in_set_takeD in_set_dropD)

text \<open>A pair out of date is dropped.\<close>

lemma drop_round:
  assumes s: "spm_state k str s is" and a: "\<not> available s (agenda s ! i)"
  shows "spm_state k str (bpe_round k str i s) is" "symbols (bpe_round k str i s) = symbols s"
proof -
  let ?hs = "take i (agenda s) @ drop (Suc i) (agenda s)"
  have e: "bpe_round k str i s = s\<lparr>agenda := ?hs\<rparr>" using a by (auto simp: bpe_round_def Let_def available_def)
  then show "symbols (bpe_round k str i s) = symbols s" by simp
  have "queued k str (symbols s) is ?hs" unfolding queued_def
  proof (intro allI impI)
    fix xs l r ys h assume h: "is = xs @ l # r # ys" "pair_of k str (symbols s) l r = Some h"
    then have "h \<in> set (agenda s)" using queuedD spm_stateD(8) [OF s] by blast
    moreover have "available s h" by (rule neighbours_available [OF spm_stateD(4) [OF s, unfolded h(1)] h(2)])
    ultimately show "h \<in> set ?hs" using a by (intro in_drop_nth) auto
  qed
  moreover have "\<forall>h\<in>set ?hs. pair_ok k str (symbols s) is h" using spm_stateD(7) [OF s] take_drop_sub by fast
  ultimately show "spm_state k str (bpe_round k str i s) is" using s unfolding e spm_state_def by simp
qed

text \<open>The neighbours after a merge: the merged symbol and those before and behind it, and old neighbours.\<close>

lemma neighbours_merged:
  assumes "distinct (xs @ l # r # ys)" and "xs @ l # ys = us @ a # b # vs"
  obtains "a = l" "first_of ys None = Some b" | "b = l" "last_of None xs = Some a"
    | us' vs' where "xs @ l # r # ys = us' @ a # b # vs'" "a \<noteq> l" "b \<noteq> l" "a \<noteq> r" "b \<noteq> r"
proof -
  from assms(2) consider zs where "xs = us @ zs" "zs @ l # ys = a # b # vs" | zs where "l # ys = zs @ a # b # vs"
    by (auto simp: append_eq_append_conv2)
  then show thesis
  proof cases
    case (1 zs)
    consider "zs = []" | "zs = [a]" | zs' where "zs = a # b # zs'"
      using 1(2) by (cases zs; cases "tl zs") auto
    then show ?thesis
    proof cases
      case 3
      then have "xs @ l # r # ys = us @ a # b # (zs' @ l # r # ys)" using 1(1) by simp
      from that(3) [OF this] show ?thesis using assms(1) unfolding 1(1) 3 by auto
    qed (use 1 that(1,2) in \<open>simp_all add: last_of_def\<close>)
  next
    case (2 zs)
    show ?thesis
    proof (cases zs)
      case Nil
      then show ?thesis using 2 that(1) by simp
    next
      case (Cons z zs')
      then have ys: "ys = zs' @ a # b # vs" using 2 by simp
      then have "xs @ l # r # ys = (xs @ l # r # zs') @ a # b # vs" by simp
      from that(3) [OF this] show ?thesis using assms(1) unfolding ys by auto
    qed
  qed
qed

text \<open>A merge in closed form: the links, and the pairs of the merged symbol with its neighbours.\<close>

lemma merge_round_eq:
  assumes good: "vocab_good k" and c: "chain (symbols s) None 0 (xs @ l # r # ys) None e" and dist: "distinct (xs @ l # r # ys)"
    and a: "available s (agenda s ! i)" and lr: "pleft (agenda s ! i) = l" "pright (agenda s ! i) = r"
  defines "syms \<equiv> merged_links l r (symbols s)"
  shows "bpe_round k str i s = s\<lparr>symbols := syms, agenda := (take i (agenda s) @ drop (Suc i) (agenda s)) @
    new_pairs k str syms (last_of None xs) (Some l) @ new_pairs k str syms (Some l) (first_of ys None)\<rparr>"
proof -
  let ?s = "s\<lparr>agenda := take i (agenda s) @ drop (Suc i) (agenda s)\<rparr>"
  have c': "chain syms None 0 (xs @ l # ys) None e" unfolding syms_def by (rule chain_merged(1) [OF c dist refl])
  then obtain m where m: "chain syms (last_of None xs) m (l # ys) None e" unfolding chain_append by blast
  have live: "\<not> sfreeze (syms ! j)" if "j \<in> set (xs @ l # ys)" for j using chain_cells [OF c' that] by blast
  have links: "sprev (syms ! l) = last_of None xs" "snext (syms ! l) = first_of ys None" using m by auto
  have ll: "l < length (symbols s)" "l \<noteq> r" using chain_cells [OF c, of l] dist by auto
  have "available ?s (agenda s ! i)" using a by (simp add: available_def)
  then have "bpe_round k str i s = merge_symbols k str (agenda s ! i) ?s" by (simp add: bpe_round_def Let_def)
  also have "\<dots> = MaybeAddNewSymbolPair k str (Some l) (first_of ys None)
      (MaybeAddNewSymbolPair k str (last_of None xs) (Some l) (?s\<lparr>symbols := syms\<rparr>))"
    using ll links by (subst merge_symbols_links) (simp_all add: lr Let_def syms_def [symmetric])
  also have "\<dots> = ?s\<lparr>symbols := syms, agenda := (take i (agenda s) @ drop (Suc i) (agenda s)) @
    new_pairs k str syms (last_of None xs) (Some l) @ new_pairs k str syms (Some l) (first_of ys None)\<rparr>"
  proof -
    have "\<not> sfreeze (syms ! j)" if "last_of None xs = Some j" for j using that live by (auto simp: last_of_def split: if_splits)
    then have A: "MaybeAddNewSymbolPair k str (last_of None xs) (Some l) (?s\<lparr>symbols := syms\<rparr>) =
      ?s\<lparr>symbols := syms, agenda := (take i (agenda s) @ drop (Suc i) (agenda s)) @ new_pairs k str syms (last_of None xs) (Some l)\<rparr>"
      using live by (subst MaybeAdd_pairs [OF good]) auto
    have "\<not> sfreeze (syms ! j)" if "first_of ys None = Some j" for j using that live by (auto simp: first_of_def split: list.splits)
    then show ?thesis unfolding A using live by (subst MaybeAdd_pairs [OF good]) auto
  qed
  finally show ?thesis by simp
qed

text \<open>What a merge changes of the symbols and of the pairs in the queue.\<close>

lemma pair_ok_merged:
  assumes c: "chain syms None 0 (xs @ l # r # ys) None e" and dist: "distinct (xs @ l # r # ys)"
    and ok: "pair_ok k str syms (xs @ l # r # ys) h"
  shows "pair_ok k str (merged_links l r syms) (xs @ l # ys) h"
proof -
  let ?syms' = "merged_links l r syms"
  have v: "fst (sview (?syms' ! j)) = fst (sview (syms ! j))" if "j \<in> set (xs @ l # ys)" for j
    using chain_merged(2,4) [OF c dist refl] that dist by (cases "j = l") (auto simp: prod_eq_iff)
  show ?thesis using ok v [of "pleft h"] unfolding pair_ok_def by auto
qed

lemma queued_merged:
  assumes c: "chain syms None 0 (xs @ l # r # ys) None e" and dist: "distinct (xs @ l # r # ys)"
    and q: "queued k str syms (xs @ l # r # ys) hs" and hs: "\<And>h. h \<in> set hs \<Longrightarrow> pleft h \<noteq> l \<Longrightarrow> h \<in> set hs'"
  defines "syms' \<equiv> merged_links l r syms"
  shows "queued k str syms' (xs @ l # ys) (hs' @ new_pairs k str syms' (last_of None xs) (Some l) @ new_pairs k str syms' (Some l) (first_of ys None))"
  unfolding queued_def
proof (intro allI impI)
  fix us a b vs h assume e: "xs @ l # ys = us @ a # b # vs" and h: "pair_of k str syms' a b = Some h"
  show "h \<in> set (hs' @ new_pairs k str syms' (last_of None xs) (Some l) @ new_pairs k str syms' (Some l) (first_of ys None))"
  proof (rule neighbours_merged [OF dist e])
    assume "a = l" "first_of ys None = Some b"
    then show ?thesis using h by (simp add: in_new_pairs)
  next
    assume "b = l" "last_of None xs = Some a"
    then show ?thesis using h by (simp add: in_new_pairs)
  next
    fix us' vs' assume n: "xs @ l # r # ys = us' @ a # b # vs'" "a \<noteq> l" "b \<noteq> l" "a \<noteq> r" "b \<noteq> r"
    then have "pair_of k str syms a b = Some h"
      using h pair_of_cong [of syms' a syms b k str] chain_merged(4) [OF c dist refl] by (simp add: syms'_def)
    then have "h \<in> set hs" "pleft h = a" using queuedD [OF q [unfolded n(1)]] pair_of_fields by blast+
    then show ?thesis using hs n(2) by simp
  qed
qed

lemma merge_round:
  assumes good: "vocab_good k" and s: "spm_state k str s (xs @ l # r # ys)" and i: "i < length (agenda s)"
    and a: "available s (agenda s ! i)" and lr: "pleft (agenda s ! i) = l" "pright (agenda s ! i) = r"
  shows "spm_state k str (bpe_round k str i s) (xs @ l # ys)"
    "texts str (symbols (bpe_round k str i s)) (xs @ l # ys) = join_at (length xs) (texts str (symbols s) (xs @ l # r # ys))"
    "length (agenda (bpe_round k str i s)) \<le> length (agenda s) + 1"
proof -
  let ?is = "xs @ l # r # ys" and ?syms = "merged_links l r (symbols s)" and ?hs = "take i (agenda s) @ drop (Suc i) (agenda s)"
  note D = spm_stateD [OF s]
  have dist: "distinct ?is" using D(3) by (simp add: strict_sorted_iff)
  have c: "chain (symbols s) None 0 ?is None (length str)" by (rule D(4))
  note e = merge_round_eq [OF good c dist a lr] and m = chain_merged [OF c dist refl]
  let ?A = "new_pairs k str ?syms (last_of None xs) (Some l)" and ?B = "new_pairs k str ?syms (Some l) (first_of ys None)"
  have srt: "sorted_wrt (<) (xs @ l # ys)" using D(3) by (auto simp: sorted_wrt_append)
  have new: "pair_ok k str ?syms (xs @ l # ys) h" if h: "h \<in> set ?A \<or> h \<in> set ?B" for h
  proof -
    obtain us a' b' vs where "xs @ l # ys = us @ a' # b' # vs" "pair_of k str ?syms a' b' = Some h"
    proof (cases "h \<in> set ?A")
      case True
      then obtain a' where "last_of None xs = Some a'" "pair_of k str ?syms a' l = Some h" by (auto simp: in_new_pairs)
      then show ?thesis using that [of "butlast xs" a' l ys] by (auto simp: last_of_def split: if_splits)
    next
      case False
      then obtain b' where "first_of ys None = Some b'" "pair_of k str ?syms l b' = Some h" using h by (auto simp: in_new_pairs)
      then show ?thesis using that [of xs l b' "tl ys"] by (auto simp: first_of_def split: list.splits)
    qed
    then show ?thesis using pair_ok_neighbours srt m(1) by blast
  qed
  have old: "pair_ok k str ?syms (xs @ l # ys) h" if "h \<in> set ?hs" for h
    using pair_ok_merged [OF c dist D(7)] take_drop_sub [OF that] by blast
  have q: "queued k str ?syms (xs @ l # ys) (?hs @ ?A @ ?B)"
    by (rule queued_merged [OF c dist D(8)], rule in_drop_nth) (use lr in auto)
  have dead: "snd (sview (?syms ! j)) = 0" if "j < length (symbols s)" "j \<notin> set (xs @ l # ys)" for j
    using m(3) m(4) [of j] D(6) [of j] that by (cases "j = r") auto
  show "spm_state k str (bpe_round k str i s) (xs @ l # ys)"
    unfolding e spm_state_def using D(2,5) srt m(1) dead old new q by (auto simp: hd_append split: if_splits)
  obtain d where "chain (symbols s) (last_of None xs) d (l # r # ys) None (length str)" using c unfolding chain_append by blast
  then have "view_str str (sview (?syms ! l)) = view_str str (sview (symbols s ! l)) @ view_str str (sview (symbols s ! r))"
    unfolding m(2) by (metis chain.simps(2) prod.collapse view_str_split)
  moreover have "texts str ?syms zs = texts str (symbols s) zs" if "set zs \<subseteq> set xs \<union> set ys" for zs
    using dist that by (intro texts_cong m(4)) auto
  ultimately show "texts str (symbols (bpe_round k str i s)) (xs @ l # ys) = join_at (length xs) (texts str (symbols s) ?is)"
    unfolding e by (simp add: join_at_split)
  have "length ?A \<le> 1" "length ?B \<le> 1" by (auto simp: new_pairs_def split: option.split)
  then show "length (agenda (bpe_round k str i s)) \<le> length (agenda s) + 1" unfolding e using i by simp
qed

section \<open>The loop\<close>

lemma top_exists: "hs \<noteq> [] \<Longrightarrow> \<exists>i. is_top hs i"
proof (induction hs)
  case (Cons h hs)
  show ?case
  proof (cases "hs = []")
    case True
    then show ?thesis by (intro exI [of _ 0]) (simp add: is_top_def below_def)
  next
    case False
    then obtain i where i: "is_top hs i" using Cons.IH by blast
    show ?thesis
    proof (cases "below (hs ! i) h")
      case True
      then have "\<not> below h x" if "\<not> below (hs ! i) x" for x using that by (auto simp: below_def)
      then show ?thesis using i True by (intro exI [of _ 0]) (auto simp: is_top_def list_all_iff below_def)
    next
      case False
      then show ?thesis using i by (intro exI [of _ "Suc i"]) (simp add: is_top_def)
    qed
  qed
qed simp

lemma first_top_None: "first_top hs = None \<longleftrightarrow> hs = []"
  using top_exists [of hs] by (auto simp: first_top_def find_None_iff is_top_def)

lemma first_top_Some: "first_top hs = Some i \<Longrightarrow> is_top hs i"
  by (auto simp: first_top_def find_Some_iff)

lemma bpe_round_refines:
  assumes good: "vocab_good k" and s: "spm_state k str s is" and top: "is_top (agenda s) i"
  obtains is' where "spm_state k str (bpe_round k str i s) is'"
    "spm_pieces k (texts str (symbols (bpe_round k str i s)) is') = spm_pieces k (texts str (symbols s) is)"
    "length (agenda (bpe_round k str i s)) + 2 * length is' < length (agenda s) + 2 * length is"
proof (cases "available s (agenda s ! i)")
  case False
  have "length (agenda (bpe_round k str i s)) < length (agenda s)"
    using top False by (auto simp: bpe_round_def Let_def available_def is_top_def)
  then show thesis using that [of "is"] drop_round [OF s False] by simp
next
  case True
  have i: "i < length (agenda s)" using top by (simp add: is_top_def)
  obtain xs ys where e: "is = xs @ pleft (agenda s ! i) # pright (agenda s ! i) # ys"
    and h: "pair_of k str (symbols s) (pleft (agenda s ! i)) (pright (agenda s ! i)) = Some (agenda s ! i)"
    using available_neighbours [OF s nth_mem [OF i] True] by blast
  note m = merge_round [OF good s [unfolded e] i True refl refl]
  have "spm_best k (texts str (symbols s) is) = Some (length xs)" by (rule top_is_best [OF s top e h])
  then have "spm_pieces k (texts str (symbols s) is) = spm_pieces k (join_at (length xs) (texts str (symbols s) is))"
    by (subst spm_pieces.simps) simp
  then show thesis using that [OF m(1)] m(2,3) e by simp
qed

lemma empty_agenda_done:
  assumes s: "spm_state k str s is" and "agenda s = []"
  shows "spm_pieces k (texts str (symbols s) is) = texts str (symbols s) is"
proof -
  have "pair_score k (texts str (symbols s) is) j = None" for j
  proof (cases "pair_score k (texts str (symbols s) is) j")
    case (Some y)
    then obtain xs l r ys h where "is = xs @ l # r # ys" "pair_of k str (symbols s) l r = Some h"
      by (rule pair_score_Some [OF spm_stateD(4) [OF s]])
    then have "h \<in> set (agenda s)" using queuedD spm_stateD(8) [OF s] by blast
    then show ?thesis using assms(2) by simp
  qed
  then show ?thesis by (subst spm_pieces.simps) (simp add: spm_best_None)
qed

lemma bpe_main_refines:
  assumes good: "vocab_good k"
  shows "spm_state k str s is \<Longrightarrow> \<exists>s' is'. bpe_main k str s = Some s' \<and> spm_state k str s' is' \<and> agenda s' = [] \<and>
    spm_pieces k (texts str (symbols s') is') = spm_pieces k (texts str (symbols s) is)"
proof (induction "length (agenda s) + 2 * length is" arbitrary: s "is" rule: less_induct)
  case less
  show ?case
  proof (cases "first_top (agenda s)")
    case None
    then have "bpe_main k str s = Some s" by (subst bpe_main.simps) simp
    then show ?thesis using less.prems None unfolding first_top_None by blast
  next
    case (Some i)
    obtain is' where r: "spm_state k str (bpe_round k str i s) is'"
      "spm_pieces k (texts str (symbols (bpe_round k str i s)) is') = spm_pieces k (texts str (symbols s) is)"
      "length (agenda (bpe_round k str i s)) + 2 * length is' < length (agenda s) + 2 * length is"
      by (rule bpe_round_refines [OF good less.prems first_top_Some [OF Some]])
    show ?thesis using less.hyps [OF r(3,1)] r(2) Some by (subst bpe_main.simps) simp
  qed
qed

text \<open>Whatever pairs the queue gives.\<close>

lemma bpe_steps_refine:
  assumes good: "vocab_good k" and steps: "(bpe_step k str)\<^sup>*\<^sup>* s0 s"
  shows "spm_state k str s0 is0 \<Longrightarrow> \<exists>is. spm_state k str s is \<and>
    spm_pieces k (texts str (symbols s) is) = spm_pieces k (texts str (symbols s0) is0)"
  using steps
proof (induction rule: rtranclp_induct)
  case (step s s')
  then obtain "is" where s: "spm_state k str s is" "spm_pieces k (texts str (symbols s) is) = spm_pieces k (texts str (symbols s0) is0)" by blast
  from step.hyps(2) obtain i where i: "is_top (agenda s) i" "s' = bpe_round k str i s" by cases
  show ?case by (rule bpe_round_refines [OF good s(1) i(1)]) (use s(2) i(2) in auto)
qed blast

section \<open>The output\<close>

lemma resegment_plain: "resegment k str (\<lambda>_. None) w = Some [(w, piece_to_id k (view_str str w))]"
  by (subst resegment.simps) (simp add: Let_def)

lemma bpe_output_chain:
  assumes "rev_merge s = (\<lambda>_. None)"
  shows "chain (symbols s) p d is None e \<Longrightarrow> \<exists>out. bpe_output k str s (first_of is None) = Some out \<and>
    map (\<lambda>(w, i). (view_str str w, i)) out = map (\<lambda>w. (w, piece_to_id k w)) (texts str (symbols s) is)"
proof (induction "is" arbitrary: p d)
  case Nil
  show ?case by (subst bpe_output.simps) simp
next
  case (Cons i "is")
  then obtain out where out: "bpe_output k str s (first_of is None) = Some out"
    "map (\<lambda>(w, i). (view_str str w, i)) out = map (\<lambda>w. (w, piece_to_id k w)) (texts str (symbols s) is)" by auto
  have "snext (symbols s ! i) = first_of is None" using Cons.prems by simp
  then show ?case using out assms by (subst bpe_output.simps) (simp add: resegment_plain Let_def)
qed

section \<open>The start\<close>

definition utf8_chars :: "bytes \<Rightarrow> bytes list" where
  "utf8_chars str = map (view_str str) (char_views str 0)"

fun views_from :: "nat \<Rightarrow> view list \<Rightarrow> nat \<Rightarrow> bool" where
  "views_from d [] e \<longleftrightarrow> d = e"
| "views_from d ((a, m) # vs) e \<longleftrightarrow> a = d \<and> 0 < m \<and> views_from (d + m) vs e"

lemma char_views_from: "d \<le> length str \<Longrightarrow> views_from d (char_views str d) (length str)"
proof (induction str d rule: char_views.induct)
  case (1 str d)
  show ?case
  proof (cases "d = length str")
    case True
    then show ?thesis by (simp add: char_views.simps)
  next
    case False
    then have d: "\<not> length str \<le> d" using "1.prems" by simp
    have "views_from (d + min (length str - d) (one_char_len (str ! d))) (char_views str (d + min (length str - d) (one_char_len (str ! d)))) (length str)"
      by (rule "1.IH" [OF d refl]) (use d in simp)
    then show ?thesis using d one_char_len_pos by (subst char_views.simps) (simp add: Let_def)
  qed
qed

lemma char_symbols_nth: "i < length vs \<Longrightarrow> char_symbols vs ! i =
    \<lparr>sprev = if i = 0 then None else Some (i - 1), snext = if i + 1 = length vs then None else Some (i + 1), sfreeze = False, sview = vs ! i\<rparr>"
  by (simp add: char_symbols_def)

lemma chain_char_symbols:
  "vs = pre @ suf \<Longrightarrow> views_from d suf e \<Longrightarrow>
    chain (char_symbols vs) (if pre = [] then None else Some (length pre - 1)) d [length pre..<length vs] None e"
proof (induction suf arbitrary: pre d)
  case (Cons v suf)
  obtain m where v: "v = (d, m)" "0 < m" "views_from (d + m) suf e" using Cons.prems(2) by (cases v) auto
  let ?i = "length pre"
  have i: "?i < length vs" using Cons.prems(1) by simp
  have u: "[?i..<length vs] = ?i # [Suc ?i..<length vs]" using i by (rule upt_conv_Cons)
  have "vs ! ?i = v" using Cons.prems(1) by simp
  note x = char_symbols_nth [OF i, unfolded this]
  have "chain (char_symbols vs) (Some ?i) (d + m) [Suc ?i..<length vs] None e"
    using Cons.IH [of "pre @ [v]" "d + m"] Cons.prems(1) v(3) by simp
  moreover have "first_of [Suc ?i..<length vs] None = (if Suc ?i = length vs then None else Some (Suc ?i))"
    using i by (auto simp: upt_conv_Cons)
  ultimately show ?case unfolding u using v i x by (simp add: char_symbols_def)
qed simp

lemma fold_MaybeAdd:
  assumes good: "vocab_good k" and live: "\<And>i. i < n \<Longrightarrow> \<not> sfreeze (symbols s ! i)"
  shows "m \<le> n \<Longrightarrow> \<exists>hs. fold (\<lambda>i. MaybeAddNewSymbolPair k str (Some (i - 1)) (Some i)) [1..<m] s = s\<lparr>agenda := agenda s @ hs\<rparr> \<and>
    set hs = {h. \<exists>i. Suc i < m \<and> pair_of k str (symbols s) i (Suc i) = Some h}"
proof (induction m)
  case (Suc m)
  then obtain hs where hs: "fold (\<lambda>i. MaybeAddNewSymbolPair k str (Some (i - 1)) (Some i)) [1..<m] s = s\<lparr>agenda := agenda s @ hs\<rparr>"
    "set hs = {h. \<exists>i. Suc i < m \<and> pair_of k str (symbols s) i (Suc i) = Some h}" by auto
  show ?case
  proof (cases m)
    case 0
    then show ?thesis by (intro exI [of _ "[]"]) simp
  next
    case (Suc j)
    let ?new = "new_pairs k str (symbols s) (Some j) (Some m)"
    have "MaybeAddNewSymbolPair k str (Some j) (Some m) (s\<lparr>agenda := agenda s @ hs\<rparr>) = s\<lparr>agenda := agenda s @ hs @ ?new\<rparr>"
      using live [of j] live [of m] Suc.prems Suc by (subst MaybeAdd_pairs [OF good]) auto
    then have "fold (\<lambda>i. MaybeAddNewSymbolPair k str (Some (i - 1)) (Some i)) [1..<Suc m] s = s\<lparr>agenda := agenda s @ hs @ ?new\<rparr>"
      using hs(1) Suc by simp
    moreover have "set (hs @ ?new) = {h. \<exists>i. Suc i < Suc m \<and> pair_of k str (symbols s) i (Suc i) = Some h}"
      using hs(2) Suc by (auto simp: in_new_pairs less_Suc_eq)
    ultimately show ?thesis by blast
  qed
qed simp

lemma bpe_start_state:
  assumes good: "vocab_good k" and ne: "str \<noteq> []"
  defines "n \<equiv> length (char_views str 0)"
  shows "spm_state k str (bpe_start k str) [0..<n]" "texts str (symbols (bpe_start k str)) [0..<n] = utf8_chars str" "0 < n"
    "length (symbols (bpe_start k str)) = n"
proof -
  let ?syms = "char_symbols (char_views str 0)"
  have len: "length ?syms = n" by (simp add: char_symbols_def n_def)
  have c: "chain ?syms None 0 [0..<n] None (length str)"
    using chain_char_symbols [OF append_Nil [symmetric] char_views_from [of 0 str]] by (simp add: n_def)
  show n: "0 < n" using ne unfolding n_def by (subst char_views.simps) (simp add: Let_def)
  have "\<not> sfreeze (?syms ! i)" if "i < n" for i using chain_cells [OF c, of i] that by simp
  then obtain hs where hs: "bpe_start k str = \<lparr>symbols = ?syms, agenda = hs, rev_merge = (\<lambda>_. None)\<rparr>"
    "set hs = {h. \<exists>i. Suc i < n \<and> pair_of k str ?syms i (Suc i) = Some h}"
    using fold_MaybeAdd [OF good, of n "\<lparr>symbols = ?syms, agenda = [], rev_merge = (\<lambda>_. None)\<rparr>" n str]
    unfolding bpe_start_def Let_def len by auto
  show "length (symbols (bpe_start k str)) = n" unfolding hs(1) using len by simp
  have nb: "[0..<n] = [0..<i] @ i # Suc i # [Suc (Suc i)..<n]" if "Suc i < n" for i
    using that by (metis Suc_lessD le_add1 less_imp_le_nat plus_nat.add_0 upt_add_eq_append upt_conv_Cons le_add_diff_inverse)
  have srt: "sorted_wrt (<) [0..<n]" by simp
  have "\<forall>h\<in>set hs. pair_ok k str ?syms [0..<n] h" using hs(2) pair_ok_neighbours [OF nb srt c] by blast
  moreover have "queued k str ?syms [0..<n] hs" unfolding queued_def
  proof (intro allI impI)
    fix xs l r ys h assume e: "[0..<n] = xs @ l # r # ys" and h: "pair_of k str ?syms l r = Some h"
    have "length xs < n" "Suc (length xs) < n" using arg_cong [OF e, of length] by simp_all
    moreover from this have "l = length xs" "r = Suc (length xs)"
      using arg_cong [OF e, of "\<lambda>x. x ! length xs"] arg_cong [OF e, of "\<lambda>x. x ! Suc (length xs)"] by (simp_all add: nth_append)
    ultimately show "h \<in> set hs" using h hs(2) by blast
  qed
  ultimately show "spm_state k str (bpe_start k str) [0..<n]" unfolding hs(1) spm_state_def using c n len by (simp add: hd_upt)
  have "map (\<lambda>i. view_str str (sview (?syms ! i))) [0..<n] = map (view_str str) (map ((!) (char_views str 0)) [0..<n])"
    by (simp add: char_symbols_def n_def)
  then show "texts str (symbols (bpe_start k str)) [0..<n] = utf8_chars str" unfolding hs(1) by (simp add: texts_def utf8_chars_def n_def map_nth)
qed

end
