(* ===== verification/Token_Spm_Codec.thy ===== *)
theory Token_Spm_Codec
  imports Token_Spm_Bpe Token_Codec
begin

text \<open>
  \<open>Sentencepiece::encode\<close> and \<open>decode\<close>: the ids of the pieces, the bytes of an unknown piece as pieces of their
  own, and what decoding makes of both.
\<close>

section \<open>Pieces\<close>

definition named :: "bytes \<Rightarrow> (view \<times> int) list \<Rightarrow> (bytes \<times> int) list" where
  "named str out = map (\<lambda>(w, i). (view_str str w, i)) out"

definition with_ids :: "Sentencepiece \<Rightarrow> bytes list \<Rightarrow> (bytes \<times> int) list" where
  "with_ids k ps = map (\<lambda>w. (w, piece_to_id k w)) ps"

lemma bpe_output_final:
  assumes s: "spm_state k str s is" and fin: "agenda s = []"
  shows "\<exists>out. bpe_output k str s (Some 0) = Some out \<and> named str out = with_ids k (spm_pieces k (texts str (symbols s) is))"
proof -
  have "first_of is None = Some 0" using spm_stateD(1,2) [OF s] by (cases "is") simp_all
  then show ?thesis
    using bpe_output_chain [OF spm_stateD(5) [OF s] spm_stateD(4) [OF s]] empty_agenda_done [OF s fin]
    by (simp add: named_def with_ids_def)
qed

lemma bpe_encode_pieces:
  assumes good: "vocab_good k"
  shows "\<exists>out. bpe_encode k str = Some out \<and> named str out = with_ids k (spm_pieces k (utf8_chars str))"
proof (cases "str = []")
  case True
  then have e: "utf8_chars str = []" "symbols (bpe_start k str) = []"
    by (simp_all add: utf8_chars_def char_views.simps bpe_start_def char_symbols_def)
  have "spm_pieces k [] = []" by (simp add: spm_pieces.simps spm_best_def)
  then show ?thesis using e by (simp add: bpe_encode_def named_def with_ids_def)
next
  case False
  note st = bpe_start_state [OF good False]
  obtain s' is' where r: "bpe_main k str (bpe_start k str) = Some s'" "spm_state k str s' is'" "agenda s' = []"
    "spm_pieces k (texts str (symbols s') is') = spm_pieces k (utf8_chars str)"
    using bpe_main_refines [OF good st(1)] st(2) by auto
  have "symbols (bpe_start k str) \<noteq> []" using st(3,4) by auto
  then show ?thesis using bpe_output_final [OF r(2,3)] r(1,4) by (simp add: bpe_encode_def)
qed

lemma bpe_run_pieces:
  assumes good: "vocab_good k" and ne: "str \<noteq> []" and "(bpe_step k str)\<^sup>*\<^sup>* (bpe_start k str) s" and "agenda s = []"
  shows "\<exists>out. bpe_output k str s (Some 0) = Some out \<and> named str out = with_ids k (spm_pieces k (utf8_chars str))"
proof -
  note st = bpe_start_state [OF good ne]
  obtain "is" where "spm_state k str s is" "spm_pieces k (texts str (symbols s) is) = spm_pieces k (utf8_chars str)"
    using bpe_steps_refine [OF good assms(3) st(1)] st(2) by auto
  then show ?thesis using bpe_output_final assms(4) by metis
qed

text \<open>No piece is ever taken apart again: the pairs that make unused pieces are not in \<open>pieces_\<close>.\<close>

lemma no_resegmentation:
  "vocab_good k \<Longrightarrow> str \<noteq> [] \<Longrightarrow> (bpe_step k str)\<^sup>*\<^sup>* (bpe_start k str) s \<Longrightarrow> rev_merge s = (\<lambda>_. None)"
  using bpe_steps_refine [OF _ _ bpe_start_state(1)] spm_stateD(5) by metis

lemma concat_join_at: "Suc j < length ps \<Longrightarrow> concat (join_at j ps) = concat ps"
proof -
  assume j: "Suc j < length ps"
  have "ps = take j ps @ ps ! j # ps ! Suc j # drop (Suc (Suc j)) ps" using j by (simp add: Cons_nth_drop_Suc)
  then have "concat ps = concat (take j ps @ ps ! j # ps ! Suc j # drop (Suc (Suc j)) ps)" by (rule arg_cong)
  then show ?thesis by (simp add: join_at_def)
qed

lemma spm_pieces_concat: "concat (spm_pieces k ps) = concat ps"
proof (induction k ps rule: spm_pieces.induct)
  case (1 k ps)
  then show ?case
    by (subst spm_pieces.simps) (auto dest: spm_best_range simp: concat_join_at split: option.split)
qed

lemma spm_pieces_closed:
  "list_all Q ps \<Longrightarrow> (\<And>w. pieces k w \<noteq> None \<Longrightarrow> Q w) \<Longrightarrow> list_all Q (spm_pieces k ps)"
proof (induction k ps rule: spm_pieces.induct)
  case (1 k ps)
  show ?case
  proof (cases "spm_best k ps")
    case None
    then show ?thesis using "1.prems" by (subst spm_pieces.simps) simp
  next
    case (Some j)
    have j: "Suc j < length ps" "pieces k (ps ! j @ ps ! Suc j) \<noteq> None"
      using spm_best_range [OF Some] by (auto simp: best_score_def pair_score_def split: option.splits)
    have "list_all Q (join_at j ps)"
      using "1.prems"(1) "1.prems"(2) [OF j(2)] by (auto simp: join_at_def list_all_iff dest: in_set_takeD in_set_dropD)
    from "1.IH" [OF Some this "1.prems"(2)] show ?thesis using Some by (subst spm_pieces.simps) simp
  qed
qed

lemma concat_utf8_chars: "concat (utf8_chars str) = str"
proof -
  have "views_from d vs (length str) \<Longrightarrow> d \<le> length str \<Longrightarrow> concat (map (view_str str) vs) = drop d str" for d vs
  proof (induction d vs "length str" rule: views_from.induct)
    case (2 d a m vs)
    have "d + m \<le> length str"
    proof -
      have "views_from d vs e \<Longrightarrow> d \<le> e" for d vs e by (induction d vs e rule: views_from.induct) auto
      from this [of "d + m" vs "length str"] show ?thesis using "2.prems"(1) by simp
    qed
    then have "concat (map (view_str str) vs) = drop (d + m) str" using 2 by simp
    then show ?case using "2.prems"(1) append_take_drop_id [of m "drop d str"] by (simp add: view_str_def add.commute)
  qed simp
  from this [OF char_views_from] show ?thesis by (simp add: utf8_chars_def)
qed

section \<open>Ids\<close>

definition piece_ids :: "Sentencepiece \<Rightarrow> bytes \<Rightarrow> int list" where
  "piece_ids k w = (if piece_to_id k w = unk_id k then map (\<lambda>b. piece_to_id k (byte_to_piece b)) w else [piece_to_id k w])"

lemma encode_ids:
  assumes good: "vocab_good k"
  shows "Sentencepiece_encode k str = Some (concat (map (piece_ids k) (spm_pieces k (utf8_chars str))))"
proof -
  obtain out where out: "bpe_encode k str = Some out" "named str out = with_ids k (spm_pieces k (utf8_chars str))"
    using bpe_encode_pieces [OF good] by blast
  have fb: "byte_fall_back k" using good by (simp add: vocab_good_def)
  have "map (put_piece k str) out = map (\<lambda>(w, i). if i = unk_id k then map (\<lambda>b. piece_to_id k (byte_to_piece b)) w else [i]) (named str out)"
    by (auto simp: named_def put_piece_def fb)
  also have "\<dots> = map (piece_ids k) (spm_pieces k (utf8_chars str))" unfolding out(2) by (auto simp: with_ids_def piece_ids_def)
  finally show ?thesis using out(1) by (simp add: Sentencepiece_encode_def)
qed

lemma piece_ids_range: "vocab_good k \<Longrightarrow> i \<in> set (piece_ids k w) \<Longrightarrow> 0 \<le> i \<and> nat i < length (sentence_pieces k)"
  using piece_to_id_range by (auto simp: piece_ids_def split: if_splits)

lemma decode_defined: "Sentencepiece_decode k i \<noteq> None \<longleftrightarrow> 0 \<le> i \<and> nat i < length (sentence_pieces k)"
  by (auto simp: Sentencepiece_decode_def Let_def)

text \<open>What decoding makes of a piece: an unknown one comes back as the names of its bytes.\<close>

definition spelled :: "Sentencepiece \<Rightarrow> bytes \<Rightarrow> bytes" where
  "spelled k w = (if piece_to_id k w = unk_id k then concat (map byte_to_piece w) else w)"

definition unmarked :: "Sentencepiece \<Rightarrow> bool" where
  "unmarked k \<longleftrightarrow> list_all (\<lambda>x. find_mark (piece x) = None) (sentence_pieces k)"

lemma decode_known:
  assumes "vocab_good k" and "unmarked k" and "piece_to_id k w \<noteq> unk_id k"
  shows "Sentencepiece_decode k (piece_to_id k w) = Some w"
  using piece_to_id_range [OF assms(1), of w] piece_to_id_piece [OF assms(1,3)] assms(2)
  by (auto simp: Sentencepiece_decode_def Let_def unmarked_def list_all_length)

lemma decodes_concat: "(\<And>w. w \<in> set ws \<Longrightarrow> decodes dec (f w) (g w)) \<Longrightarrow> decodes dec (concat (map f ws)) (concat (map g ws))"
  by (induction ws) (auto intro: decodes_append)

lemma decode_piece_ids:
  assumes "vocab_good k" and "unmarked k" and "\<forall>b\<in>set w. piece_to_id k (byte_to_piece b) \<noteq> unk_id k"
  shows "decodes (Sentencepiece_decode k) (piece_ids k w) (spelled k w)"
proof (cases "piece_to_id k w = unk_id k")
  case True
  have "decodes (Sentencepiece_decode k) (concat (map (\<lambda>b. [piece_to_id k (byte_to_piece b)]) w)) (concat (map byte_to_piece w))"
    by (rule decodes_concat, rule decodes_one, rule decode_known) (use assms in auto)
  moreover have "concat (map (\<lambda>b. [piece_to_id k (byte_to_piece b)]) w) = map (\<lambda>b. piece_to_id k (byte_to_piece b)) w" by (induction w) simp_all
  ultimately show ?thesis using True by (simp add: piece_ids_def spelled_def)
next
  case False
  then show ?thesis using decode_known [OF assms(1,2)] by (simp add: piece_ids_def spelled_def decodes_one)
qed

text \<open>A mark behind the start of a piece: \<open>replace\<close> takes as many bytes too much as the mark is from the start.\<close>

lemma decode_mark_inside:
  assumes "length (sentence_pieces k) = 1" and "piece (sentence_pieces k ! 0) = [97, 0xE2, 0x96, 0x81, 98, 99]"
  shows "Sentencepiece_decode k 0 = Some [97, 32, 99]"
proof -
  have "find_mark [97, 0xE2, 0x96, 0x81, 98, 99] = Some 1" by (simp add: find_mark_def blank_mark_def upt_rec)
  then show ?thesis using assms by (simp add: Sentencepiece_decode_def)
qed

text \<open>An unused piece that is a single character is put out, which the code says cannot happen.\<close>

lemma unused_piece_is_put_out:
  assumes good: "vocab_good k" and c: "reserved_id_map k [c] = Some i" "is_unused k i" and ascii: "one_char_len c = 1"
  shows "\<exists>w. bpe_encode k [c] = Some [(w, i)]"
proof -
  have "char_views [c] 0 = [(0, 1)]" using ascii by (simp add: char_views.simps Let_def)
  then have u: "utf8_chars [c] = [[c]]" by (simp add: utf8_chars_def view_str_def)
  have "spm_best k [[c]] = None" by (rule spm_best_None) (simp add: pair_score_def)
  then have "spm_pieces k [[c]] = [[c]]" by (subst spm_pieces.simps) simp
  moreover have "piece_to_id k [c] = i" using c(1) by (simp add: piece_to_id_def)
  ultimately show ?thesis using bpe_encode_pieces [OF good, of "[c]"] unfolding u
    by (auto simp: named_def with_ids_def map_eq_Cons_conv)
qed

section \<open>A sample vocabulary\<close>

text \<open>Loading line by line, for vocabularies in base64.\<close>

primrec load_from :: "piece_line list \<Rightarrow> nat \<Rightarrow> Sentencepiece \<Rightarrow> Sentencepiece" where
  "load_from [] i k = k"
| "load_from (l # ls) i k = load_from ls (Suc i) (load_piece l i k)"

lemma fold_load: "fold (\<lambda>index. load_piece (lines ! index) index) [i..<length lines] k = load_from (drop i lines) i k"
proof (induction "length lines - i" arbitrary: i k)
  case (Suc n)
  then have "i < length lines" by simp
  then show ?case using Suc(1) [of "Suc i"] Suc(2) by (simp add: upt_conv_Cons Cons_nth_drop_Suc [symmetric])
qed simp


lemma load_literal: "load_piece (base64_encode t, x, ty) i \<lparr>byte_fall_back = b, unk_id = u, sentence_pieces = sp, pieces = m, reserved_id_map = r\<rparr> =
   \<lparr>byte_fall_back = b, unk_id = if ty = UNKNOWN then int i else u, sentence_pieces = sp[i := \<lparr>piece = t, piece_score = x, piece_type = ty\<rparr>],
    pieces = if ty = NORMAL then insert_new t (int i) m else m, reserved_id_map = if ty = NORMAL then r else insert_new t (int i) r\<rparr>"
  by (cases ty) (simp_all add: load_piece_def base64_decode_encode)

definition spm_sample :: "piece_line list" where
  "spm_sample = map (\<lambda>(t, x, ty). (base64_encode (bytes_of t), x, ty))
     [(''<unk>'', 0, UNKNOWN), (''<0x61>'', 0, BYTE), (''<0x62>'', 0, BYTE), (''<0x63>'', 0, BYTE),
      (''a'', -1, NORMAL), (''b'', -2, NORMAL), (''ab'', -3, NORMAL)]"

definition spm_sample_k :: Sentencepiece where
  "spm_sample_k = \<lparr>byte_fall_back = True, unk_id = 0,
     sentence_pieces = map (\<lambda>(t, x, ty). \<lparr>piece = bytes_of t, piece_score = x, piece_type = ty\<rparr>)
       [(''<unk>'', 0, UNKNOWN), (''<0x61>'', 0, BYTE), (''<0x62>'', 0, BYTE), (''<0x63>'', 0, BYTE),
        (''a'', -1, NORMAL), (''b'', -2, NORMAL), (''ab'', -3, NORMAL)],
     pieces = [bytes_of ''a'' \<mapsto> 4, bytes_of ''b'' \<mapsto> 5, bytes_of ''ab'' \<mapsto> 6],
     reserved_id_map = [bytes_of ''<unk>'' \<mapsto> 0, bytes_of ''<0x61>'' \<mapsto> 1, bytes_of ''<0x62>'' \<mapsto> 2, bytes_of ''<0x63>'' \<mapsto> 3]\<rparr>"

lemma spm_sample_load: "Sentencepiece_load_vocab spm_sample = spm_sample_k"
  unfolding Sentencepiece_load_vocab_def fold_load unfolding spm_sample_def list.map prod.case drop_0 load_from.simps load_literal
  unfolding spm_sample_k_def PieceType.simps if_True if_False simp_thms
  by (rule arg_cong2 [where f = "\<lambda>(sp, u) (m, r). \<lparr>byte_fall_back = True, unk_id = u, sentence_pieces = sp, pieces = m, reserved_id_map = r\<rparr>", of "(_, _)" "(_, _)" "(_, _)" "(_, _)", unfolded prod.case]; simp add: insert_new_def)

lemma spm_sample_chars:
  "utf8_chars (bytes_of ''abc'') = [bytes_of ''a'', bytes_of ''b'', bytes_of ''c'']"
  by (simp add: utf8_chars_def char_views.simps Let_def one_char_len_def view_str_def)

lemma spm_sample_pieces: "spm_pieces spm_sample_k [bytes_of ''a'', bytes_of ''b'', bytes_of ''c''] = [bytes_of ''ab'', bytes_of ''c'']"
  by (simp add: spm_pieces.simps spm_best_def best_score_def pair_score_def spm_sample_k_def join_at_def get_score_def)

lemma spm_sample_ids:
  "piece_to_id spm_sample_k (bytes_of ''ab'') = 6" "piece_to_id spm_sample_k (bytes_of ''c'') = 0" "unk_id spm_sample_k = 0"
  "\<forall>b\<in>set (bytes_of ''abc''). piece_to_id spm_sample_k (byte_to_piece b) \<noteq> 0"
  by (simp_all add: piece_to_id_def spm_sample_k_def byte_to_piece_def hex_digit_def)

lemma spm_sample_unmarked: "unmarked spm_sample_k"
  by (simp add: unmarked_def spm_sample_k_def find_mark_def blank_mark_def upt_rec)

end
