(* ===== verification/Token_File.thy ===== *)
theory Token_File
  imports Token_Codec Token_Bert Token_Spm_Codec Float32
begin

text \<open>
  \<open>Tokenizer::createTokenizer\<close> (tokenizer.cpp): the tokenizer file, as the list of its lines, is read line by
  line; the header says which tokenizer it is, each has its own \<open>load_vocab\<close>. The result \<open>None\<close> is an
  exception of the library or a number the header lacks, \<open>Some None\<close> the null pointer.
\<close>

section \<open>Reading\<close>

text \<open>\<open>std::getline\<close>: behind the last line the string keeps what it has.\<close>

definition getline :: "bytes \<Rightarrow> bytes list \<Rightarrow> bytes \<times> bytes list" where
  "getline line file = (case file of [] \<Rightarrow> (line, []) | l # ls \<Rightarrow> (l, ls))"

primrec getlines :: "nat \<Rightarrow> bytes \<Rightarrow> bytes list \<Rightarrow> bytes list \<times> bytes \<times> bytes list" where
  "getlines 0 line file = ([], line, file)"
| "getlines (Suc n) line file =
     (let (line, file) = getline line file; (ls, rest) = getlines n line file in (line # ls, rest))"

fun read_digits :: "bytes \<Rightarrow> nat \<Rightarrow> nat \<times> bytes" where
  "read_digits [] acc = (acc, [])"
| "read_digits (c # cs) acc = (if isdigit c then read_digits cs (acc * 10 + unat (c - 48)) else (acc, c # cs))"

text \<open>A sign and digits: the number and what is left.\<close>

definition read_number :: "bytes \<Rightarrow> (int \<times> bytes) option" where
  "read_number s =
     (let body = (case s of c # cs \<Rightarrow> if c = 43 \<or> c = 45 then cs else s | [] \<Rightarrow> [])
      in case body of [] \<Rightarrow> None
         | d # _ \<Rightarrow>
             if isdigit d then
               let (n, rest) = read_digits body 0 in Some (if hd s = 45 then - int n else int n, rest)
             else None)"

lemma read_digits_rest: "length (snd (read_digits s acc)) \<le> length s"
  by (induction s acc rule: read_digits.induct) auto

lemma read_number_rest: "read_number s = Some (n, rest) \<Longrightarrow> length rest < length s"
proof -
  assume n: "read_number s = Some (n, rest)"
  have "length (snd (read_digits (d # cs) 0)) < length (d # cs)" if "isdigit d" for d cs
    using that read_digits_rest [of cs "unat (d - 48)"] by simp
  then show ?thesis using n by (auto simp: read_number_def Let_def case_prod_beta split: list.splits if_splits dest: less_trans)
qed

text \<open>The values that \<open>>> int\<close> gives one after the other; one that fails stores 0 or a bound and ends it.\<close>

definition INT_MIN :: int where
  "INT_MIN = -2147483648"

function read_ints :: "bytes \<Rightarrow> int list" where
  "read_ints s =
     (let s = dropWhile isspace s
      in if s = [] then []
         else case read_number s of
             None \<Rightarrow> [0]
           | Some (n, rest) \<Rightarrow> if n > INT_MAX then [INT_MAX] else if n < INT_MIN then [INT_MIN] else n # read_ints rest)"
  by auto
termination
  by (relation "measure length") (auto dest!: read_number_rest intro: less_le_trans length_dropWhile_le)

declare read_ints.simps [simp del]

text \<open>\<open>std::stoi\<close> throws where no number is, or one that is out of range.\<close>

definition stoi :: "bytes \<Rightarrow> int option" where
  "stoi s =
     (case read_number (dropWhile isspace s) of None \<Rightarrow> None
      | Some (n, _) \<Rightarrow> if n > INT_MAX \<or> n < INT_MIN then None else Some n)"

text \<open>A decimal, rounded to a \<open>float\<close>.\<close>

definition read_float :: "bytes \<Rightarrow> rat option" where
  "read_float s =
     (let body = (case s of c # cs \<Rightarrow> if c = 43 \<or> c = 45 then cs else s | [] \<Rightarrow> []);
          (whole, rest) = (takeWhile isdigit body, dropWhile isdigit body);
          (frac, rest) = (case rest of c # cs \<Rightarrow> if c = 46 then (takeWhile isdigit cs, dropWhile isdigit cs) else ([], rest) | [] \<Rightarrow> ([], []));
          mant = of_nat (fst (read_digits (whole @ frac) 0)) / 10 ^ length frac;
          scale = (case rest of [] \<Rightarrow> Some 0
                   | c # cs \<Rightarrow> if c = 69 \<or> c = 101 then (case read_number cs of Some (n, []) \<Rightarrow> Some n | _ \<Rightarrow> None) else None)
      in if whole = [] \<and> frac = [] then None
         else map_option (\<lambda>n. let x = (if n < 0 then mant / 10 ^ nat (- n) else mant * 10 ^ nat n)
                              in f32 (if s \<noteq> [] \<and> hd s = 45 then - x else x)) scale)"

text \<open>\<open>static_cast<PieceType>\<close>\<close>

definition piece_type_of :: "int \<Rightarrow> PieceType" where
  "piece_type_of n =
     (if n = 1 then NORMAL else if n = 2 then UNKNOWN else if n = 3 then CONTROL
      else if n = 4 then USER_DEFINED else if n = 5 then UNUSED else if n = 6 then BYTE else OTHER_TYPE n)"

text \<open>\<open>line_str >> token >> score >> type\<close>; \<open>None\<close> for a line that has not the three of them.\<close>

definition next_word :: "bytes \<Rightarrow> bytes \<times> bytes" where
  "next_word s = (let s = dropWhile isspace s in (takeWhile (\<lambda>c. \<not> isspace c) s, dropWhile (\<lambda>c. \<not> isspace c) s))"

definition read_piece_line :: "bytes \<Rightarrow> piece_line option" where
  "read_piece_line line =
     (let (token, s) = next_word line; (score, s) = next_word s
      in case (read_float score, read_ints s) of
           (Some x, n # _) \<Rightarrow> if token = [] then None else Some (token, x, piece_type_of n)
         | _ \<Rightarrow> None)"

section \<open>Loading\<close>

definition read_special :: "bytes list \<Rightarrow> (Tokenizer \<times> bytes list) option" where
  "read_special file =
     (let (line, file) = getline [] file; nums = read_ints line; (line, file) = getline line file
      in case nums of
           special_num # stop_num # prefix_num # _ \<Rightarrow>
             if special_num < 0 \<or> stop_num < 0 \<or> prefix_num < 0 then None
             else Some (load_special (nat special_num) (nat stop_num) (nat prefix_num) (read_ints line), file)
         | _ \<Rightarrow> None)"

text \<open>The lines of a vocabulary whose number stands before them.\<close>

definition read_vocab :: "bytes list \<Rightarrow> bytes list option" where
  "read_vocab file =
     (let (line, file) = getline [] file
      in case stoi line of None \<Rightarrow> None
         | Some vocab_len \<Rightarrow> if vocab_len < 0 then None else Some (fst (getlines (nat vocab_len) line file)))"

definition Huggingface_read :: "bytes list \<Rightarrow> Huggingface option" where
  "Huggingface_read file =
     (let (line, file) = getline [] file
      in case read_ints line of
           vocab_len # merge_len # _ \<Rightarrow>
             if vocab_len < 0 then None
             else let (vocab, line, file) = getlines (nat vocab_len) line file
                  in Huggingface_load_vocab vocab (fst (getlines (nat merge_len) line file))
         | _ \<Rightarrow> None)"

datatype AnyTokenizer = SENTENCEPIECE Sentencepiece | TIKTOIKEN Tiktoken | BERT Bert | HUGGINGFACE Huggingface

definition MAGIC_NUMBER :: int where
  "MAGIC_NUMBER = 430"

definition createTokenizer :: "bytes list option \<Rightarrow> (Tokenizer \<times> AnyTokenizer) option option" where
  "createTokenizer tok_file =
     (case tok_file of None \<Rightarrow> Some None
      | Some file \<Rightarrow>
          let (line, file) = getline [] file
          in case read_ints line of
               [] \<Rightarrow> None
             | magic_number # nums \<Rightarrow>
                 if magic_number \<noteq> MAGIC_NUMBER then Some None
                 else case nums of
                     [] \<Rightarrow> None
                   | tokenizer_type # _ \<Rightarrow>
                       if tokenizer_type \<notin> {0, 1, 2, 3} then Some None
                       else case read_special file of
                           None \<Rightarrow> None
                         | Some (T, file) \<Rightarrow>
                             map_option (\<lambda>k. Some (T, k))
                               (if tokenizer_type = 0 then
                                  map_option (SENTENCEPIECE \<circ> Sentencepiece_load_vocab)
                                    (Option.bind (read_vocab file) (\<lambda>ls. those (map read_piece_line ls)))
                                else if tokenizer_type = 1 then map_option (TIKTOIKEN \<circ> Tiktoken_load_vocab) (read_vocab file)
                                else if tokenizer_type = 2 then map_option (BERT \<circ> Bert_load_vocab) (read_vocab file)
                                else map_option HUGGINGFACE (Huggingface_read file)))"

text \<open>The virtual \<open>encode\<close> and \<open>decode\<close>, and the public ones.\<close>

definition any_encode :: "AnyTokenizer \<Rightarrow> bytes \<Rightarrow> int list option" where
  "any_encode k str =
     (case k of SENTENCEPIECE k \<Rightarrow> Sentencepiece_encode k str | TIKTOIKEN k \<Rightarrow> Tiktoken_encode k str
      | BERT k \<Rightarrow> Some (Bert_encode k str) | HUGGINGFACE k \<Rightarrow> Huggingface_encode k str)"

definition any_decode :: "AnyTokenizer \<Rightarrow> int \<Rightarrow> bytes option" where
  "any_decode k i =
     (case k of SENTENCEPIECE k \<Rightarrow> Sentencepiece_decode k i | TIKTOIKEN k \<Rightarrow> Some (Tiktoken_decode k i)
      | BERT k \<Rightarrow> Some (Bert_decode k i) | HUGGINGFACE k \<Rightarrow> Huggingface_decode k i)"

section \<open>What the exporter writes\<close>

function decimal :: "nat \<Rightarrow> bytes" where
  "decimal n = (if n < 10 then [48 + of_nat n] else decimal (n div 10) @ [48 + of_nat (n mod 10)])"
  by auto
termination by (relation "measure id") auto

declare decimal.simps [simp del]

lemma digit: "n < 10 \<Longrightarrow> isdigit (48 + of_nat n) \<and> unat (48 + of_nat n - 48 :: byte) = n"
proof -
  assume n: "n < 10"
  then have u: "unat (of_nat n :: byte) = n" by (simp add: unsigned_of_nat take_bit_nat_eq_self)
  have "unat (48 + of_nat n :: byte) = 48 + n" using n u by (subst unat_add_lem [THEN iffD1]) simp_all
  then have "isdigit (48 + of_nat n)" using n by (simp add: isdigit_def word_le_nat_alt)
  then show ?thesis using u by simp
qed

lemma read_digits_decimal: "read_digits (decimal n @ s) acc = read_digits s (acc * 10 ^ length (decimal n) + n)"
proof (induction n arbitrary: acc s rule: decimal.induct)
  case (1 n)
  show ?case
  proof (cases "n < 10")
    case True
    then show ?thesis using digit [OF True] by (subst (1 2) decimal.simps) simp
  next
    case False
    have "n mod 10 < 10" by simp
    note d = digit [OF this]
    have e: "decimal n = decimal (n div 10) @ [48 + of_nat (n mod 10)]" using False by (subst decimal.simps) simp
    show ?thesis unfolding e append_assoc "1.IH" [OF False] using d by (simp add: algebra_simps)
  qed
qed

lemma decimal_head: obtains d ds where "decimal n = d # ds" "isdigit d"
proof (induction n arbitrary: thesis rule: decimal.induct)
  case (1 n)
  show ?case
  proof (cases "n < 10")
    case True
    then show ?thesis using 1(2) [of "48 + of_nat n" "[]"] digit [OF True] by (simp add: decimal.simps)
  next
    case False
    obtain d ds where "decimal (n div 10) = d # ds" "isdigit d" using 1(1) [OF False] by blast
    then show ?thesis using 1(2) [of d "ds @ [48 + of_nat (n mod 10)]"] False by (simp add: decimal.simps [of n])
  qed
qed

lemma read_number_decimal: "s = [] \<or> \<not> isdigit (hd s) \<Longrightarrow> read_number (decimal n @ s) = Some (int n, s)"
proof -
  assume s: "s = [] \<or> \<not> isdigit (hd s)"
  obtain d ds where d: "decimal n = d # ds" "isdigit d" by (rule decimal_head)
  have "read_digits (decimal n @ s) 0 = (n, s)" using s read_digits_decimal [of n s 0] by (cases s) simp_all
  moreover have "d \<noteq> 43" "d \<noteq> 45" using d(2) by (auto simp: isdigit_def)
  ultimately show ?thesis using d by (simp add: read_number_def Let_def)
qed

lemma dropWhile_decimal: "dropWhile isspace (decimal n @ s) = decimal n @ s"
proof -
  obtain d ds where d: "decimal n = d # ds" "isdigit d" by (rule decimal_head)
  have "\<not> isspace d" using d(2) by (auto simp: isdigit_def isspace_def word_le_nat_alt)
  then show ?thesis using d(1) by simp
qed

definition INT_MAX_nat :: nat where
  "INT_MAX_nat = 2147483647"

lemma read_ints_decimal:
  assumes "n \<le> INT_MAX_nat"
  shows "read_ints (decimal n @ 32 # s) = int n # read_ints s" "read_ints (decimal n) = [int n]"
proof -
  have n: "\<not> int n > INT_MAX" "\<not> int n < INT_MIN" using assms by (simp_all add: INT_MAX_nat_def INT_MAX_def INT_MIN_def)
  have e: "read_ints (decimal n @ r) = int n # read_ints r" if "r = [] \<or> \<not> isdigit (hd r)" for r
  proof -
    have "decimal n @ r \<noteq> []" using decimal_head [of n] by (metis append_is_Nil_conv list.distinct(1))
    then show ?thesis unfolding read_ints.simps [of "decimal n @ r"] dropWhile_decimal Let_def
      using n read_number_decimal [OF that] by simp
  qed
  have blank: "read_ints (32 # s) = read_ints s" by (subst (1 2) read_ints.simps) (simp add: isspace_def)
  show "read_ints (decimal n @ 32 # s) = int n # read_ints s" using e [of "32 # s"] blank by (simp add: isdigit_def)
  show "read_ints (decimal n) = [int n]" using e [of "[]"] by (simp add: read_ints.simps)
qed

text \<open>What the exporter writes (transformers/llm/export/llmexport.py: \<open>write_line\<close>, \<open>write_header\<close> and the
  tiktoken branch of \<open>export_tokenizer\<close>): the ids of a line, each with a blank behind it; the header; the
  lines of the file of a tiktoken tokenizer.\<close>

definition ids_line :: "nat list \<Rightarrow> bytes" where
  "ids_line ns = concat (map (\<lambda>n. decimal n @ [32]) ns)"

definition write_header :: "nat \<Rightarrow> nat list \<Rightarrow> nat list \<Rightarrow> nat list \<Rightarrow> bytes list" where
  "write_header type specials stops firsts =
     [decimal 430 @ 32 # decimal type, decimal (length specials) @ 32 # decimal (length stops) @ 32 # decimal (length firsts),
      ids_line (specials @ stops @ firsts)]"

definition tiktoken_file :: "nat list \<Rightarrow> nat list \<Rightarrow> nat list \<Rightarrow> bytes list \<Rightarrow> bytes list" where
  "tiktoken_file specials stops firsts tokens =
     write_header 1 specials stops firsts @ [decimal (length tokens)] @ map base64_encode tokens"

lemma read_ids_line: "list_all (\<lambda>n. n \<le> INT_MAX_nat) ns \<Longrightarrow> read_ints (ids_line ns) = map int ns"
  by (induction ns) (simp_all add: ids_line_def read_ints_decimal read_ints.simps [of "[]"])

lemma getlines_all: "fst (getlines (length ls) line (ls @ rest)) = ls"
  by (induction ls arbitrary: line) (simp_all add: getline_def case_prod_beta Let_def)

lemma load_special_split: "load_special (length a) (length b) (length c) (map int (a @ b @ c)) =
    \<lparr>special_tokens = map int a, stop_tokens = map int b, prefix_tokens = map int c\<rparr>"
  by (simp add: load_special_def Let_def)

lemma createTokenizer_tiktoken_file:
  assumes "list_all (\<lambda>n. n \<le> INT_MAX_nat) (specials @ stops @ firsts)"
    and "length specials \<le> INT_MAX_nat" "length stops \<le> INT_MAX_nat" "length firsts \<le> INT_MAX_nat" "length tokens \<le> INT_MAX_nat"
  shows "createTokenizer (Some (tiktoken_file specials stops firsts tokens)) =
    Some (Some (\<lparr>special_tokens = map int specials, stop_tokens = map int stops, prefix_tokens = map int firsts\<rparr>,
      TIKTOIKEN (Tiktoken_load_vocab (map base64_encode tokens))))"
proof -
  let ?l2 = "decimal (length specials) @ 32 # decimal (length stops) @ 32 # decimal (length firsts)"
  have h: "read_ints (decimal 430 @ 32 # decimal 1) = [430, 1]" by (simp add: read_ints_decimal INT_MAX_nat_def)
  have h2: "read_ints ?l2 = [int (length specials), int (length stops), int (length firsts)]" using assms by (simp add: read_ints_decimal)
  have n: "stoi (decimal (length tokens)) = Some (int (length tokens))"
    using assms(5) read_number_decimal [of "[]" "length tokens"] dropWhile_decimal [of "length tokens" "[]"]
    by (simp add: stoi_def INT_MAX_nat_def INT_MAX_def INT_MIN_def)
  have s: "read_special (?l2 # ids_line (specials @ stops @ firsts) # rest) =
      Some (\<lparr>special_tokens = map int specials, stop_tokens = map int stops, prefix_tokens = map int firsts\<rparr>, rest)" for rest
    using h2 read_ids_line [OF assms(1)] load_special_split [of specials stops firsts] by (simp add: read_special_def getline_def Let_def)
  have v: "read_vocab (decimal (length tokens) # map base64_encode tokens) = Some (map base64_encode tokens)"
    using n getlines_all [of "map base64_encode tokens" _ "[]"] by (simp add: read_vocab_def getline_def)
  show ?thesis
    by (simp add: createTokenizer_def tiktoken_file_def write_header_def getline_def h [unfolded One_nat_def] MAGIC_NUMBER_def s [unfolded append_assoc] v)
qed

text \<open>No tokenizer: no file, another magic number or a type the code does not know.\<close>

lemma createTokenizer_null:
  "createTokenizer tok_file = Some None \<longleftrightarrow>
    (case tok_file of None \<Rightarrow> True
     | Some file \<Rightarrow>
         (case read_ints (fst (getline [] file)) of [] \<Rightarrow> False
          | magic # nums \<Rightarrow> magic \<noteq> 430 \<or> (case nums of [] \<Rightarrow> False | ty # _ \<Rightarrow> ty < 0 \<or> 3 < ty)))"
  by (auto simp: createTokenizer_def MAGIC_NUMBER_def split: option.split list.split prod.split)

end
