(* ===== verification/Token_Props.thy ===== *)
theory Token_Props
  imports Token_File
begin

text \<open>The properties of the tokenizers: C10 to C13, C24, C26 and C28.\<close>

definition ascii_vocab :: "bytes list" where
  "ascii_vocab = map (\<lambda>i. [of_nat i]) [0..<256] @ [[97, 98], [97, 98, 99, 100]]"

lemma ascii_vocab_ok: "vocab_ok ascii_vocab" "\<forall>c. [c] \<in> set ascii_vocab"
proof -
  show "vocab_ok ascii_vocab" by (auto simp: vocab_ok_def ascii_vocab_def list_all_iff)
  show "\<forall>c. [c] \<in> set ascii_vocab"
  proof
    fix c :: byte
    have c: "[c] = (\<lambda>i. [of_nat i]) (unat c)" by simp
    have "unat c \<in> set [0..<256]" using unsigned_less [of c] by simp
    then have "[c] \<in> (\<lambda>i. [of_nat i]) ` set [0..<256]" unfolding c by (rule imageI)
    then show "[c] \<in> set ascii_vocab" unfolding ascii_vocab_def set_append set_map by (rule UnI1)
  qed
qed

text \<open>C10: on the vocabulary of a file of base64 lines, without an empty token and without a 0 byte behind the first
  byte of a token, the trie search from any place of a text gives the
  longest token the text goes on with, by the number of its first line, and the place behind it; where no
  token fits it gives -1 and skips one byte.\<close>

theorem trie_finds_longest_token:
  assumes "vocab_ok tokens" and "it < length str"
  shows "Trie_find (encoder (Tiktoken_load_vocab (map base64_encode tokens))) str it =
    Some (case longest_token tokens (drop it str) of None \<Rightarrow> (-1, it + 1) | Some (i, k) \<Rightarrow> (int i, it + k))"
proof -
  have "map base64_decode (map base64_encode tokens) = tokens" by (induction tokens) (simp_all add: base64_decode_encode)
  then have "encoder (Tiktoken_load_vocab (map base64_encode tokens)) = insert_all tokens (new_Trie 10000)"
    using load_vocab [of "map base64_encode tokens"] by simp
  then show ?thesis using Trie_find_longest [OF assms] by simp
qed

lemma trie_finds_longest_token_witness:
  "Trie_find (encoder (Tiktoken_load_vocab (map base64_encode [[97], [97, 98], [97, 98, 99, 100]]))) [120, 97, 98, 99] 1 = Some (1, 3)"
proof -
  have "longest_token [[97], [97, 98], [97, 98, 99, 100]] (drop 1 [120, 97, 98, 99]) = Some (1, 2)"
    by (simp add: longest_token_def hits_def first_index_def upt_rec)
  then show ?thesis
    using trie_finds_longest_token [of "[[97], [97, 98], [97, 98, 99, 100]]" 1 "[120, 97, 98, 99]"] by (simp add: vocab_ok_def)
qed

text \<open>With a vocabulary that has all single bytes, \<open>encode\<close> of a tiktoken tokenizer ends on every
  text, special tokens included, and decoding the ids behind the prefix gives the text.\<close>

theorem tiktoken_round_trip:
  assumes "vocab_ok tokens" and "\<forall>c. [c] \<in> set tokens"
  defines "k \<equiv> Tiktoken_load_vocab (map base64_encode tokens)"
  shows "\<exists>new. Tokenizer_encode (Tiktoken_encode k) (Tiktoken_dec k) T str = Some (prefix_tokens T @ new) \<and>
    concat (map (Tiktoken_decode k) new) = str"
proof -
  have "Tiktoken_good k" using assms by (auto simp: Tiktoken_good_def)
  from tiktoken.round_trip [OF this] show ?thesis
    unfolding Tiktoken_dec_def decodes_total [symmetric] .
qed

lemma tiktoken_round_trip_witness:
  "\<forall>str. \<exists>new. Tokenizer_encode (Tiktoken_encode (Tiktoken_load_vocab (map base64_encode ascii_vocab)))
      (Tiktoken_dec (Tiktoken_load_vocab (map base64_encode ascii_vocab)))
      \<lparr>special_tokens = [257], stop_tokens = [257], prefix_tokens = [7]\<rparr> str = Some ([7] @ new) \<and>
    concat (map (Tiktoken_decode (Tiktoken_load_vocab (map base64_encode ascii_vocab))) new) = str"
  using tiktoken_round_trip [OF ascii_vocab_ok, of "\<lparr>special_tokens = [257], stop_tokens = [257], prefix_tokens = [7]\<rparr>"] by simp

text \<open>C12: the file that the exporter writes for a tiktoken tokenizer is loaded by \<open>createTokenizer\<close>; when its
  vocabulary has all single bytes, no empty token and no 0 byte behind the first byte of a token, and its ids
  and counts are \<open>int\<close>s, the loaded tokenizer's \<open>encode\<close> ends on every text, special tokens
  included, puts the prefix tokens first, and decoding the ids behind them gives the text.\<close>

theorem tiktoken_file_round_trip:
  assumes "vocab_ok tokens" and "\<forall>c. [c] \<in> set tokens"
    and "list_all (\<lambda>n. n \<le> INT_MAX_nat) (specials @ stops @ firsts)"
    and "length specials \<le> INT_MAX_nat" "length stops \<le> INT_MAX_nat" "length firsts \<le> INT_MAX_nat" "length tokens \<le> INT_MAX_nat"
  shows "\<exists>T k. createTokenizer (Some (tiktoken_file specials stops firsts tokens)) = Some (Some (T, k)) \<and>
    (\<forall>str. \<exists>new. Tokenizer_encode (any_encode k) (any_decode k) T str = Some (map int firsts @ new) \<and>
      map_option concat (those (map (any_decode k) new)) = Some str)"
proof -
  let ?T = "\<lparr>special_tokens = map int specials, stop_tokens = map int stops, prefix_tokens = map int firsts\<rparr>"
  let ?k = "Tiktoken_load_vocab (map base64_encode tokens)"
  have fns: "any_encode (TIKTOIKEN ?k) = Tiktoken_encode ?k" "any_decode (TIKTOIKEN ?k) = Tiktoken_dec ?k"
    by (simp_all add: any_encode_def any_decode_def Tiktoken_dec_def fun_eq_iff)
  have "\<exists>new. Tokenizer_encode (any_encode (TIKTOIKEN ?k)) (any_decode (TIKTOIKEN ?k)) ?T str = Some (map int firsts @ new) \<and>
      map_option concat (those (map (any_decode (TIKTOIKEN ?k)) new)) = Some str" for str
  proof -
    obtain new where "Tokenizer_encode (Tiktoken_encode ?k) (Tiktoken_dec ?k) ?T str = Some (prefix_tokens ?T @ new)"
      "concat (map (Tiktoken_decode ?k) new) = str" using tiktoken_round_trip [OF assms(1,2)] by blast
    then show ?thesis
      unfolding fns decodes_def [symmetric] decodes_total [of "Tiktoken_decode ?k", folded Tiktoken_dec_def] by auto
  qed
  then show ?thesis using createTokenizer_tiktoken_file [OF assms(3-7)] by blast
qed

lemma tiktoken_file_round_trip_witness:
  "\<exists>T k. createTokenizer (Some (tiktoken_file [257] [257] [7] ascii_vocab)) = Some (Some (T, k)) \<and>
    (\<forall>str. \<exists>new. Tokenizer_encode (any_encode k) (any_decode k) T str = Some (7 # new) \<and>
      map_option concat (those (map (any_decode k) new)) = Some str)"
proof -
  have len: "length ascii_vocab \<le> INT_MAX_nat" "list_all (\<lambda>n. n \<le> INT_MAX_nat) ([257] @ [257] @ [7 :: nat])"
    "length [257 :: nat] \<le> INT_MAX_nat" "length [7 :: nat] \<le> INT_MAX_nat"
    by (simp_all add: ascii_vocab_def INT_MAX_nat_def)
  show ?thesis
    using tiktoken_file_round_trip [OF ascii_vocab_ok len(2) len(3) len(3) len(4) len(1)] by simp
qed

text \<open>C24: \<open>bpe\<close>, which marks merged pairs in a set and patches their neighbours in place, computes what the
  list algorithm computes that joins the first pair of least rank until no pair of neighbours has one; its
  pieces put together give the word, and each is a single character or a merge rule's result.\<close>

theorem bpe_joins_best_pairs:
  assumes "token \<noteq> []"
  shows "bpe ranks token = bpe_pieces ranks (map (\<lambda>c. [c]) token) \<and> concat (bpe ranks token) = token \<and>
    list_all (\<lambda>w. length w = 1 \<or> (\<exists>a b. w = a @ b \<and> ranks (a, b) \<noteq> None)) (bpe ranks token)"
proof -
  have e: "bpe ranks token = bpe_pieces ranks (map (\<lambda>c. [c]) token)" using bpe_refines assms by simp
  have "list_all (\<lambda>w. length w = 1 \<or> (\<exists>a b. w = a @ b \<and> ranks (a, b) \<noteq> None)) (bpe_pieces ranks (map (\<lambda>c. [c]) token))"
    by (rule bpe_pieces_closed) (auto simp: list_all_iff)
  moreover have "concat (bpe_pieces ranks (map (\<lambda>c. [c]) token)) = token" unfolding bpe_pieces_concat by (induction token) simp_all
  ultimately show ?thesis unfolding e by blast
qed

lemma bpe_joins_best_pairs_witness:
  "bpe ((\<lambda>_. None)(([2], [3]) \<mapsto> 0, ([1], [2, 3]) \<mapsto> 1, ([1], [2]) \<mapsto> 2)) [1, 2, 3, 3] =
     bpe_pieces ((\<lambda>_. None)(([2], [3]) \<mapsto> 0, ([1], [2, 3]) \<mapsto> 1, ([1], [2]) \<mapsto> 2)) [[1], [2], [3], [3]] \<and>
   concat (bpe ((\<lambda>_. None)(([2], [3]) \<mapsto> 0, ([1], [2, 3]) \<mapsto> 1, ([1], [2]) \<mapsto> 2)) [1, 2, 3, 3]) = [1, 2, 3, 3]"
proof -
  let ?r = "(\<lambda>_. None)(([2], [3]) \<mapsto> 0, ([1], [2, 3]) \<mapsto> 1, ([1], [2]) \<mapsto> 2) :: ranks"
  have "map (\<lambda>c. [c]) [1, 2, 3, 3 :: nat] = [[1], [2], [3], [3]]" "[1, 2, 3, 3 :: nat] \<noteq> []" by simp_all
  with bpe_joins_best_pairs [OF this(2), of ?r, unfolded this(1)] show ?thesis by blast
qed

text \<open>C26: with a vocabulary that has every byte and every merge's result, \<open>encode\<close> of a Hugging Face
  tokenizer gives ids for every text, through the regular expression, the byte alphabet, the merges and
  UTF-8, and decoding the ids behind the prefix gives the text.\<close>

theorem huggingface_round_trip:
  assumes "Huggingface_load_vocab vocab merges = Some k" and "vocab_closed k"
    and "list_all (\<lambda>line. utf8_to_wstring line \<noteq> None) vocab"
  shows "\<exists>new. Tokenizer_encode (Huggingface_encode k) (Huggingface_decode k) T str = Some (prefix_tokens T @ new) \<and>
    map_option concat (those (map (Huggingface_decode k) new)) = Some str"
proof -
  have "Huggingface_total k"
    using assms load_vocab_fields [OF assms(1)] by (auto simp: Huggingface_total_def Huggingface_good_def)
  from hf_total.round_trip [OF this] show ?thesis unfolding decodes_def .
qed

definition byte_vocab :: "bytes list" where
  "byte_vocab = map (\<lambda>i. utf8_char (b2u (of_nat i))) [0..<256] @ [wstring_to_utf8 [97, 98]]"

lemma byte_vocab_ok:
  obtains k where "Huggingface_load_vocab byte_vocab [[97, 32, 98]] = Some k" "vocab_closed k"
    "list_all (\<lambda>line. utf8_to_wstring line \<noteq> None) byte_vocab"
proof -
  define ranks :: ranks where "ranks = insert_new ([97], [98]) 0 (\<lambda>_. None)"
  define enc where "enc = fold (\<lambda>i. insert_new (byte_vocab ! i) (int i)) [0..<length byte_vocab] (\<lambda>_. None)"
  let ?k = "\<lparr>bpe_ranks = ranks, hf_encoder = enc, hf_decoder = byte_vocab\<rparr>"
  have "split_merge [97, 32, 98] = Some ([97], [98])" by (simp add: split_merge_def utf8_to_wstring_def)
  then have load: "Huggingface_load_vocab byte_vocab [[97, 32, 98]] = Some ?k"
    by (simp add: Huggingface_load_vocab_def enc_def ranks_def)
  have has: "enc x \<noteq> None" if "x \<in> set byte_vocab" for x
    using that load_encoder_all unfolding in_set_conv_nth enc_def by blast
  have byte: "utf8_char (b2u c) \<in> set byte_vocab" for c
  proof -
    have c: "utf8_char (b2u c) = (\<lambda>i. utf8_char (b2u (of_nat i))) (unat c)" by simp
    have "unat c \<in> set [0..<256]" using unsigned_less [of c] by simp
    then have "utf8_char (b2u c) \<in> (\<lambda>i. utf8_char (b2u (of_nat i))) ` set [0..<256]" unfolding c by (rule imageI)
    then show ?thesis unfolding byte_vocab_def set_append set_map by (rule UnI1)
  qed
  have pair: "wstring_to_utf8 [97, 98] \<in> set byte_vocab" by (simp add: byte_vocab_def)
  have closed: "vocab_closed ?k"
    unfolding vocab_closed_def using has [OF byte] has [OF pair] by (auto simp: ranks_def insert_new_def split: if_splits)
  have "utf8_to_wstring (wstring_to_utf8 w) \<noteq> None" if "list_all (\<lambda>c. c < 0x800) w" for w using utf8_round_trip [OF that] by simp
  from this [of "[b2u _]"] this [of "[97, 98]"] have "list_all (\<lambda>line. utf8_to_wstring line \<noteq> None) byte_vocab"
    by (auto simp: byte_vocab_def list_all_iff wstring_to_utf8_def b2u_small)
  with that load closed show thesis by blast
qed

lemma huggingface_round_trip_witness:
  "\<exists>k. Huggingface_load_vocab byte_vocab [[97, 32, 98]] = Some k \<and>
    (\<forall>str. \<exists>new. Tokenizer_encode (Huggingface_encode k) (Huggingface_decode k)
        \<lparr>special_tokens = [256], stop_tokens = [256], prefix_tokens = [7]\<rparr> str = Some ([7] @ new) \<and>
      map_option concat (those (map (Huggingface_decode k) new)) = Some str)"
proof -
  obtain k where k: "Huggingface_load_vocab byte_vocab [[97, 32, 98]] = Some k" "vocab_closed k"
    "list_all (\<lambda>line. utf8_to_wstring line \<noteq> None) byte_vocab" by (rule byte_vocab_ok)
  show ?thesis
    using k(1) huggingface_round_trip [OF k, of "\<lparr>special_tokens = [256], stop_tokens = [256], prefix_tokens = [7]\<rparr>"]
    by (intro exI [of _ k]) simp
qed

text \<open>C28: whichever of the best pairs the priority queue gives, the loop of \<open>bpe_encode\<close> over the linked list
  of symbols, with pairs in the queue that are out of date, ends with the pieces of the list algorithm that
  joins the two neighbours whose text has the best score, the first of them, until none is in the
  vocabulary; it gives them with their ids, and together they are the text.\<close>

theorem sentencepiece_joins_best_pairs:
  assumes "lines \<noteq> []"
  defines "k \<equiv> Sentencepiece_load_vocab lines"
  shows "(\<exists>out. bpe_encode k str = Some out \<and> named str out = with_ids k (spm_pieces k (utf8_chars str))) \<and>
    (\<forall>s. str \<noteq> [] \<longrightarrow> (bpe_step k str)\<^sup>*\<^sup>* (bpe_start k str) s \<longrightarrow> agenda s = [] \<longrightarrow>
       (\<exists>out. bpe_output k str s (Some 0) = Some out \<and> named str out = with_ids k (spm_pieces k (utf8_chars str)))) \<and>
    concat (spm_pieces k (utf8_chars str)) = str"
proof -
  have good: "vocab_good k" unfolding k_def by (rule vocab_good_load [OF assms(1)])
  show ?thesis
    using bpe_encode_pieces [OF good] bpe_run_pieces [OF good] unfolding spm_pieces_concat concat_utf8_chars by blast
qed

lemma sentencepiece_joins_best_pairs_witness:
  "\<exists>out. bpe_encode (Sentencepiece_load_vocab spm_sample) (bytes_of ''abc'') = Some out \<and>
    named (bytes_of ''abc'') out = [(bytes_of ''ab'', 6), (bytes_of ''c'', 0)]"
proof -
  have "spm_sample \<noteq> []" by (simp add: spm_sample_def)
  from sentencepiece_joins_best_pairs [OF this, of "bytes_of ''abc''", unfolded spm_sample_load spm_sample_chars spm_sample_pieces]
  show ?thesis using spm_sample_ids by (auto simp: with_ids_def spm_sample_load)
qed

text \<open>C11: when no piece has the mark of a blank (U+2581) and every byte of the text has its byte piece, encoding gives
  ids for the text, and decoding them gives it back with the bytes of each unknown piece spelled out as
  \<open><0xXX>\<close>; when all characters of the text and all joined pieces are known, that is the text itself.\<close>

theorem sentencepiece_decodes_to_spelling:
  assumes "lines \<noteq> []"
  defines "k \<equiv> Sentencepiece_load_vocab lines"
  assumes "unmarked k" and "\<forall>b\<in>set str. piece_to_id k (byte_to_piece b) \<noteq> unk_id k"
  shows "\<exists>ids. Sentencepiece_encode k str = Some ids \<and>
    decodes (Sentencepiece_decode k) ids (concat (map (spelled k) (spm_pieces k (utf8_chars str)))) \<and>
    ((\<forall>w. w \<in> set (utf8_chars str) \<or> pieces k w \<noteq> None \<longrightarrow> piece_to_id k w \<noteq> unk_id k) \<longrightarrow> decodes (Sentencepiece_decode k) ids str)"
proof -
  let ?ws = "spm_pieces k (utf8_chars str)"
  have good: "vocab_good k" unfolding k_def by (rule vocab_good_load [OF assms(1)])
  have str: "concat ?ws = str" unfolding spm_pieces_concat by (rule concat_utf8_chars)
  have d: "decodes (Sentencepiece_decode k) (concat (map (piece_ids k) ?ws)) (concat (map (spelled k) ?ws))"
  proof (rule decodes_concat, rule decode_piece_ids [OF good assms(3)])
    fix w assume "w \<in> set ?ws"
    then have "set w \<subseteq> set (concat ?ws)" by auto
    then show "\<forall>b\<in>set w. piece_to_id k (byte_to_piece b) \<noteq> unk_id k" using assms(4) unfolding str by blast
  qed
  moreover have "concat (map (spelled k) ?ws) = str"
    if known: "\<forall>w. w \<in> set (utf8_chars str) \<or> pieces k w \<noteq> None \<longrightarrow> piece_to_id k w \<noteq> unk_id k"
  proof -
    have "list_all (\<lambda>w. piece_to_id k w \<noteq> unk_id k) ?ws" by (rule spm_pieces_closed) (use known in \<open>auto simp: list_all_iff\<close>)
    then have "map (spelled k) ?ws = ?ws" by (auto simp: list_all_iff spelled_def intro: map_idI)
    then show ?thesis using str by simp
  qed
  ultimately show ?thesis using encode_ids [OF good, of str] by auto
qed

lemma sentencepiece_decodes_to_spelling_witness:
  "\<exists>ids. Sentencepiece_encode (Sentencepiece_load_vocab spm_sample) (bytes_of ''abc'') = Some ids \<and>
    decodes (Sentencepiece_decode (Sentencepiece_load_vocab spm_sample)) ids (bytes_of ''ab<0x63>'')"
proof -
  have "spm_sample \<noteq> []" by (simp add: spm_sample_def)
  moreover have "concat (map (spelled spm_sample_k) [bytes_of ''ab'', bytes_of ''c'']) = bytes_of ''ab<0x63>''"
    using spm_sample_ids by (simp add: spelled_def byte_to_piece_def hex_digit_def)
  ultimately show ?thesis
    using sentencepiece_decodes_to_spelling [of spm_sample "bytes_of ''abc''", unfolded spm_sample_load spm_sample_chars spm_sample_pieces]
      spm_sample_unmarked spm_sample_ids(3,4) unfolding spm_sample_load by auto
qed

text \<open>C13: every id that \<open>encode\<close> of a \<open>Sentencepiece\<close> tokenizer gives is the number of a piece, for every text
  and every vocabulary that is not empty, so that \<open>decode\<close> never reads outside of its pieces.\<close>

theorem sentencepiece_ids_are_pieces:
  assumes "lines \<noteq> []"
  defines "k \<equiv> Sentencepiece_load_vocab lines"
  shows "\<exists>ids. Sentencepiece_encode k str = Some ids \<and>
    list_all (\<lambda>i. 0 \<le> i \<and> nat i < length lines \<and> Sentencepiece_decode k i \<noteq> None) ids"
proof -
  have good: "vocab_good k" unfolding k_def by (rule vocab_good_load [OF assms(1)])
  have len: "length (sentence_pieces k) = length lines" using loaded_load_vocab [of lines] by (simp add: k_def loaded_def)
  have "list_all (\<lambda>i. 0 \<le> i \<and> nat i < length lines \<and> Sentencepiece_decode k i \<noteq> None) (concat (map (piece_ids k) ps))" for ps
    unfolding decode_defined using piece_ids_range [OF good] by (auto simp: list_all_iff len)
  then show ?thesis using encode_ids [OF good, of str] by blast
qed

lemma sentencepiece_ids_are_pieces_witness:
  "\<forall>str. \<exists>ids. Sentencepiece_encode (Sentencepiece_load_vocab spm_sample) str = Some ids \<and> list_all (\<lambda>i. 0 \<le> i \<and> nat i < 7) ids"
proof
  fix str
  have "spm_sample \<noteq> []" "length spm_sample = 7" by (simp_all add: spm_sample_def)
  with sentencepiece_ids_are_pieces [OF this(1), of str] show
    "\<exists>ids. Sentencepiece_encode (Sentencepiece_load_vocab spm_sample) str = Some ids \<and> list_all (\<lambda>i. 0 \<le> i \<and> nat i < 7) ids"
    by (auto simp: list_all_iff)
qed

end
