(* ===== verification/Fair_Steps.thy ===== *)
theory Fair_Steps
  imports Main
begin

text \<open>
  Steps of several threads under a fair schedule: what leads to what. A thread's step is a function on the
  state that may leave it as it is (the thread is blocked). The rules are those of the logic of UNITY.
\<close>

primrec run :: "('x \<Rightarrow> 's \<Rightarrow> 's) \<Rightarrow> (nat \<Rightarrow> 'x) \<Rightarrow> 's \<Rightarrow> nat \<Rightarrow> 's" where
  "run step sched s 0 = s"
| "run step sched s (Suc m) = step (sched m) (run step sched s m)"

text \<open>Every thread gets infinitely many steps.\<close>

definition fair :: "(nat \<Rightarrow> 'x) \<Rightarrow> bool" where
  "fair sched \<longleftrightarrow> (\<forall>x m. \<exists>k\<ge>m. sched k = x)"

definition leads_to :: "('x \<Rightarrow> 's \<Rightarrow> 's) \<Rightarrow> ('s \<Rightarrow> bool) \<Rightarrow> ('s \<Rightarrow> bool) \<Rightarrow> ('s \<Rightarrow> bool) \<Rightarrow> bool" where
  "leads_to step good P Q \<longleftrightarrow> (\<forall>sched s. fair sched \<longrightarrow> good s \<longrightarrow> P s \<longrightarrow> (\<exists>m. Q (run step sched s m)))"

lemma run_shift: "run step sched s (m + k) = run step (\<lambda>i. sched (m + i)) (run step sched s m) k"
  by (induction k) simp_all

lemma fair_shift: "fair sched \<Longrightarrow> fair (\<lambda>i. sched (m + i))"
  unfolding fair_def
proof (intro allI)
  fix x j
  assume "\<forall>x m. \<exists>k\<ge>m. sched k = x"
  then obtain k where "m + j \<le> k" "sched k = x" by blast
  then show "\<exists>k\<ge>j. sched (m + k) = x" by (intro exI [of _ "k - m"]) auto
qed

locale fair_system =
  fixes step :: "'x \<Rightarrow> 's \<Rightarrow> 's" and good :: "'s \<Rightarrow> bool"
  assumes good_step: "good s \<Longrightarrow> good (step x s)"
begin

lemma good_run: "good s \<Longrightarrow> good (run step sched s m)"
  by (induction m) (simp_all add: good_step)

lemma unless_run:
  assumes unless: "\<And>s y. good s \<Longrightarrow> P s \<Longrightarrow> \<not> Q s \<Longrightarrow> P (step y s) \<or> Q (step y s)" and "good s" "P s"
  shows "P (run step sched s m) \<or> (\<exists>j\<le>m. Q (run step sched s j))"
proof (induction m)
  case (Suc m)
  show ?case
  proof (cases "\<exists>j\<le>m. Q (run step sched s j)")
    case True
    then show ?thesis using le_SucI by blast
  next
    case False
    then have "P (run step sched s m)" "\<not> Q (run step sched s m)" using Suc by blast+
    then have "P (run step sched s (Suc m)) \<or> Q (run step sched s (Suc m))"
      using unless [OF good_run [OF assms(2)]] by simp
    then show ?thesis by blast
  qed
qed (use assms(3) in simp)

lemma leads_toI: "(\<And>sched s. fair sched \<Longrightarrow> good s \<Longrightarrow> P s \<Longrightarrow> \<exists>m. Q (run step sched s m)) \<Longrightarrow> leads_to step good P Q"
  unfolding leads_to_def by blast

lemma leads_toD: "leads_to step good P Q \<Longrightarrow> fair sched \<Longrightarrow> good s \<Longrightarrow> P s \<Longrightarrow> \<exists>m. Q (run step sched s m)"
  unfolding leads_to_def by blast

lemma leads_imp:
  assumes "\<And>s. good s \<Longrightarrow> P s \<Longrightarrow> Q s"
  shows "leads_to step good P Q"
proof (rule leads_toI)
  fix sched :: "nat \<Rightarrow> 'x" and s assume "good s" "P s"
  then have "Q (run step sched s 0)" using assms by simp
  then show "\<exists>m. Q (run step sched s m)" ..
qed

lemma leads_trans:
  assumes "leads_to step good P Q" and "leads_to step good Q R"
  shows "leads_to step good P R"
proof (rule leads_toI)
  fix sched :: "nat \<Rightarrow> 'x" and s assume f: "fair sched" and i: "good s" and p: "P s"
  obtain m where "Q (run step sched s m)" using leads_toD [OF assms(1) f i p] ..
  from leads_toD [OF assms(2) fair_shift [OF f] good_run [OF i] this] obtain k
    where "R (run step (\<lambda>i. sched (m + i)) (run step sched s m) k)" ..
  then show "\<exists>m. R (run step sched s m)" unfolding run_shift [symmetric] ..
qed

lemma leads_weaken:
  assumes "leads_to step good P Q" and "\<And>s. good s \<Longrightarrow> P' s \<Longrightarrow> P s" and "\<And>s. good s \<Longrightarrow> Q s \<Longrightarrow> Q' s"
  shows "leads_to step good P' Q'"
  using assms leads_trans leads_imp by metis

lemma leads_cases:
  assumes "leads_to step good (\<lambda>s. P s \<and> R s) Q" and "leads_to step good (\<lambda>s. P s \<and> \<not> R s) Q"
  shows "leads_to step good P Q"
  using assms unfolding leads_to_def by blast

lemma leads_ex:
  assumes "\<And>v. leads_to step good (P v) Q"
  shows "leads_to step good (\<lambda>s. \<exists>v. P v s) Q"
  using assms unfolding leads_to_def by blast

text \<open>One step of a thread does it, and until then nothing else spoils it.\<close>

lemma ensures:
  assumes unless: "\<And>s y. good s \<Longrightarrow> P s \<Longrightarrow> \<not> Q s \<Longrightarrow> P (step y s) \<or> Q (step y s)"
    and helpful: "\<And>s. good s \<Longrightarrow> P s \<Longrightarrow> \<not> Q s \<Longrightarrow> Q (step x s)"
  shows "leads_to step good P Q"
proof (rule leads_toI)
  fix sched :: "nat \<Rightarrow> 'x" and s assume f: "fair sched" and i: "good s" and p: "P s"
  have keep: "P (run step sched s m) \<or> (\<exists>j\<le>m. Q (run step sched s j))" for m by (rule unless_run [OF unless i p])
  obtain k where k: "sched k = x" using f unfolding fair_def by blast
  show "\<exists>m. Q (run step sched s m)"
  proof (rule ccontr)
    assume n: "\<not> ?thesis"
    then have "Q (run step sched s (Suc k))" using keep [of k] helpful [OF good_run [OF i], of sched k] k by auto
    then show False using n by blast
  qed
qed

text \<open>A measure that falls until it is done.\<close>

lemma leads_wf:
  assumes "wf r" and "\<And>v. leads_to step good (\<lambda>s. P s \<and> f s = v) (\<lambda>s. P s \<and> (f s, v) \<in> r \<or> Q s)"
  shows "leads_to step good P Q"
proof -
  have "leads_to step good (\<lambda>s. P s \<and> f s = v) Q" for v
    using assms(1)
  proof (induction v rule: wf_induct_rule)
    case (less v)
    have "leads_to step good (\<lambda>s. P s \<and> (f s, v) \<in> r \<or> Q s) Q"
      unfolding leads_to_def
    proof (intro allI impI)
      fix sched :: "nat \<Rightarrow> 'x" and s assume f: "fair sched" and i: "good s" and "P s \<and> (f s, v) \<in> r \<or> Q s"
      then consider "P s" "(f s, v) \<in> r" | "Q (run step sched s 0)" by auto
      then show "\<exists>m. Q (run step sched s m)"
      proof cases
        case 1
        then show ?thesis using leads_toD [OF less.IH [OF 1(2)] f i] by blast
      next
        case 2
        then show ?thesis by blast
      qed
    qed
    then show ?case by (rule leads_trans [OF assms(2)])
  qed
  then have "leads_to step good (\<lambda>s. \<exists>v. P s \<and> f s = v) Q" by (rule leads_ex)
  then show ?thesis by simp
qed

lemma ensures_wf:
  assumes "wf r"
    and unless: "\<And>s y. good s \<Longrightarrow> P s \<Longrightarrow> \<not> Q s \<Longrightarrow> \<not> Q (step y s) \<Longrightarrow> P (step y s) \<and> (f (step y s) = f s \<or> (f (step y s), f s) \<in> r)"
    and helpful: "\<And>s. good s \<Longrightarrow> P s \<Longrightarrow> \<not> Q s \<Longrightarrow> Q (step x s) \<or> (f (step x s), f s) \<in> r"
  shows "leads_to step good P Q"
proof (rule leads_wf [OF assms(1)])
  fix v
  show "leads_to step good (\<lambda>s. P s \<and> f s = v) (\<lambda>s. P s \<and> (f s, v) \<in> r \<or> Q s)"
  proof (rule ensures [where x = x])
    fix s y assume s: "good s" "P s \<and> f s = v" "\<not> (P s \<and> (f s, v) \<in> r \<or> Q s)"
    then show "(P (step y s) \<and> f (step y s) = v) \<or> P (step y s) \<and> (f (step y s), v) \<in> r \<or> Q (step y s)"
      using unless [of s y] by blast
    show "P (step x s) \<and> (f (step x s), v) \<in> r \<or> Q (step x s)"
      using s unless [of s x] helpful [of s] by blast
  qed
qed

text \<open>What holds unless \<open>B\<close> happens still holds when the goal is reached.\<close>

lemma leads_unless:
  assumes "leads_to step good P Q" and "\<And>s y. good s \<Longrightarrow> R s \<Longrightarrow> \<not> B s \<Longrightarrow> R (step y s) \<or> B (step y s)"
  shows "leads_to step good (\<lambda>s. P s \<and> R s) (\<lambda>s. Q s \<and> R s \<or> B s)"
proof (rule leads_toI)
  fix sched :: "nat \<Rightarrow> 'x" and s assume f: "fair sched" and i: "good s" and p: "P s \<and> R s"
  have keep: "R (run step sched s m) \<or> (\<exists>j\<le>m. B (run step sched s j))" for m
    by (rule unless_run [OF assms(2) i conjunct2 [OF p]])
  obtain m where "Q (run step sched s m)" using leads_toD [OF assms(1) f i] p by blast
  then show "\<exists>m. Q (run step sched s m) \<and> R (run step sched s m) \<or> B (run step sched s m)" using keep [of m] by blast
qed

text \<open>Finitely many things that each come about and stay come about together.\<close>

lemma leads_all:
  fixes n :: nat
  assumes "\<And>j. j < n \<Longrightarrow> leads_to step good P (Q j)" and "\<And>s y. good s \<Longrightarrow> P s \<Longrightarrow> P (step y s)"
    and "\<And>j s y. j < n \<Longrightarrow> good s \<Longrightarrow> P s \<Longrightarrow> Q j s \<Longrightarrow> Q j (step y s)"
  shows "leads_to step good P (\<lambda>s. P s \<and> (\<forall>j<n. Q j s))"
  using assms
proof (induction n)
  case 0
  show ?case by (rule leads_imp) simp
next
  case (Suc n)
  have 1: "leads_to step good P (\<lambda>s. P s \<and> (\<forall>j<n. Q j s))" using Suc.IH Suc.prems by simp
  have "leads_to step good (\<lambda>s. P s \<and> (P s \<and> (\<forall>j<n. Q j s))) (\<lambda>s. Q n s \<and> (P s \<and> (\<forall>j<n. Q j s)) \<or> False)"
    by (rule leads_unless) (use Suc.prems in auto)
  then have "leads_to step good (\<lambda>s. P s \<and> (\<forall>j<n. Q j s)) (\<lambda>s. P s \<and> (\<forall>j<Suc n. Q j s))"
    by (rule leads_weaken) (auto simp: less_Suc_eq)
  then show ?case by (rule leads_trans [OF 1])
qed

end

end
