(* ===== verification/Pool_Model.thy ===== *)
theory Pool_Model
  imports Prelude Fair_Steps
begin

text \<open>
  The thread pool of the CPU backend: backend/cpu/ThreadPool.hpp and ThreadPool.cpp, and the \<open>CPURuntime\<close>s
  that use it (backend/cpu/CPUBackend.cpp, \<open>onConcurrencyBegin\<close> and \<open>onConcurrencyEnd\<close>). A thread is a
  program counter; a step makes at most one access to the shared state (what a mutex guards is one step), and
  the threads' steps interleave in any order. What runs is kept in a log: which call of \<open>enqueue\<close> of which
  client, and the index the task was called with.
\<close>

section \<open>The state\<close>

text \<open>\<open>TASK\<close>: the client's function as it is, or the closure that strides over the indices.\<close>

datatype task_fn =
  Direct nat nat
| Strided nat nat nat nat

primrec caller :: "task_fn \<Rightarrow> nat \<times> nat" where
  "caller (Direct c e) = (c, e)"
| "caller (Strided c e workSize n) = (c, e)"

function stride_loop :: "nat \<Rightarrow> nat \<Rightarrow> nat \<Rightarrow> nat list" where
  "stride_loop n workSize v = (if v < workSize \<and> 0 < n then v # stride_loop n workSize (v + n) else [])"
  by auto
termination by (relation "measure (\<lambda>(n, workSize, v). workSize - v)") auto

declare stride_loop.simps [simp del]

primrec calls :: "task_fn \<Rightarrow> nat \<Rightarrow> nat list" where
  "calls (Direct c e) tId = [tId]"
| "calls (Strided c e workSize n) tId = stride_loop n workSize tId"

text \<open>Where a worker is: the tests of the two loops, the task of a slot, the wait, asleep in it, returned.\<close>

datatype worker_pc =
  WStopTest
| WActiveTest
| WTest nat
| WRun nat "nat list"
| WClear nat
| WWait
| WSleep
| WDone

datatype command = Begin | Enqueue nat | End

text \<open>Where a client is: between commands, in \<open>onConcurrencyBegin\<close> (2), \<open>onConcurrencyEnd\<close>, \<open>enqueue\<close> (6).\<close>

datatype client_pc =
  CIdle
| CBegin
| CNotify
| CDeactive
| CSeq nat nat
| CTest nat
| CStore nat
| CSet nat nat
| CRun "nat list" nat
| CPoll nat nat

datatype destroy_pc = DWait | DNotify | DJoin nat | DDone

record CPURuntime =
  mTaskIndex :: "nat option"
  mThreadOpen :: nat
  commands :: "command list"
  call_no :: nat
  cpc :: client_pc

record ThreadPool =
  mNumberThread :: nat
  mStop :: bool
  mActiveCount :: int
  mTaskAvailable :: "nat \<Rightarrow> bool"
  mTaskFn :: "nat \<Rightarrow> task_fn"
  mFlag :: "nat \<Rightarrow> nat \<Rightarrow> bool"
  workers :: "nat \<Rightarrow> worker_pc"
  nclients :: nat
  clients :: "nat \<Rightarrow> CPURuntime"
  destroyer :: destroy_pc
  ran :: "(nat \<times> nat \<times> nat) list"

definition MAX_TASKS :: nat where
  "MAX_TASKS = 2"

definition new_Runtime :: "command list \<Rightarrow> CPURuntime" where
  "new_Runtime cs = \<lparr>mTaskIndex = None, mThreadOpen = 0, commands = cs, call_no = 0, cpc = CIdle\<rparr>"

text \<open>The pool with the commands its clients are going to give.\<close>

definition new_ThreadPool :: "nat \<Rightarrow> command list list \<Rightarrow> ThreadPool" where
  "new_ThreadPool numberThread scripts =
     \<lparr>mNumberThread = numberThread, mStop = False, mActiveCount = 0, mTaskAvailable = (\<lambda>_. True),
      mTaskFn = (\<lambda>_. Direct 0 0), mFlag = (\<lambda>_ _. False), workers = (\<lambda>_. WStopTest),
      nclients = length scripts, clients = (\<lambda>c. new_Runtime (if c < length scripts then scripts ! c else [])),
      destroyer = DWait, ran = []\<rparr>"

text \<open>\<open>init\<close>: one pool for each set of cores, with at least one thread; the number of threads the caller gets.\<close>

definition ThreadPool_init :: "int \<Rightarrow> nat \<Rightarrow> (nat \<Rightarrow> ThreadPool option) \<Rightarrow> int \<times> ThreadPool \<times> (nat \<Rightarrow> ThreadPool option)" where
  "ThreadPool_init numberThread cpuMask instances =
     (let numberThread = (if 1 \<ge> numberThread then 1 else numberThread);
          instances = (if instances cpuMask = None then instances(cpuMask \<mapsto> new_ThreadPool (nat numberThread) []) else instances);
          pool = the (instances cpuMask)
      in (if int (mNumberThread pool) < numberThread then int (mNumberThread pool) else numberThread, pool, instances))"

section \<open>Operations\<close>

abbreviation put :: "nat \<Rightarrow> CPURuntime \<Rightarrow> ThreadPool \<Rightarrow> ThreadPool" where
  "put c r s \<equiv> s\<lparr>clients := (clients s)(c := r)\<rparr>"

abbreviation goto :: "nat \<Rightarrow> worker_pc \<Rightarrow> ThreadPool \<Rightarrow> ThreadPool" where
  "goto t pc s \<equiv> s\<lparr>workers := (workers s)(t := pc)\<rparr>"

definition log_call :: "nat \<times> nat \<Rightarrow> nat \<Rightarrow> ThreadPool \<Rightarrow> ThreadPool" where
  "log_call ce v s = s\<lparr>ran := ran s @ [(fst ce, snd ce, v)]\<rparr>"

definition acquireWorkIndex :: "ThreadPool \<Rightarrow> nat option \<times> ThreadPool" where
  "acquireWorkIndex s =
     (case filter (mTaskAvailable s) [0..<MAX_TASKS] of
        [] \<Rightarrow> (None, s)
      | i # _ \<Rightarrow> (Some i, s\<lparr>mTaskAvailable := (mTaskAvailable s)(i := False)\<rparr>))"

definition releaseWorkIndex :: "nat \<Rightarrow> ThreadPool \<Rightarrow> ThreadPool" where
  "releaseWorkIndex index s =
     (if index \<ge> MAX_TASKS then s else s\<lparr>mTaskAvailable := (mTaskAvailable s)(index := True)\<rparr>)"

definition active :: "ThreadPool \<Rightarrow> ThreadPool" where
  "active s = s\<lparr>mActiveCount := mActiveCount s + 1\<rparr>"

definition deactive :: "ThreadPool \<Rightarrow> ThreadPool" where
  "deactive s = s\<lparr>mActiveCount := mActiveCount s - 1\<rparr>"

text \<open>\<open>notify_all\<close> of \<open>active\<close> and the destructor: who waits tests its condition again.\<close>

definition notify_all :: "ThreadPool \<Rightarrow> ThreadPool" where
  "notify_all s = s\<lparr>workers := (\<lambda>t. if workers s t = WSleep then WWait else workers s t)\<rparr>"

section \<open>Workers\<close>

definition worker_step :: "nat \<Rightarrow> ThreadPool \<Rightarrow> ThreadPool" where
  "worker_step t s =
     (case workers s t of
        WStopTest \<Rightarrow> goto t (if mStop s then WDone else WActiveTest) s
      | WActiveTest \<Rightarrow> goto t (if mActiveCount s > 0 then WTest 0 else WWait) s
      | WTest i \<Rightarrow>
          (if i < MAX_TASKS then (if mFlag s i t then goto t (WRun i (calls (mTaskFn s i) t)) s else goto t (WTest (i + 1)) s)
           else goto t WActiveTest s)
      | WRun i js \<Rightarrow>
          (case js of [] \<Rightarrow> goto t (WClear i) s | v # js \<Rightarrow> goto t (WRun i js) (log_call (caller (mTaskFn s i)) v s))
      | WClear i \<Rightarrow> goto t (WTest (i + 1)) (s\<lparr>mFlag := (mFlag s)(i := (mFlag s i)(t := False))\<rparr>)
      | WWait \<Rightarrow> goto t (if mStop s \<or> mActiveCount s > 0 then WStopTest else WSleep) s
      | WSleep \<Rightarrow> s
      | WDone \<Rightarrow> s)"

section \<open>Clients\<close>

definition onConcurrencyBegin :: "nat \<Rightarrow> ThreadPool \<Rightarrow> ThreadPool" where
  "onConcurrencyBegin c s =
     (let r = (clients s c)\<lparr>cpc := CBegin\<rparr>
      in if mTaskIndex r = None then let (i, s) = acquireWorkIndex s in put c (r\<lparr>mTaskIndex := i\<rparr>) s
         else put c r s)"

definition onConcurrencyBegin_open :: "nat \<Rightarrow> ThreadPool \<Rightarrow> ThreadPool" where
  "onConcurrencyBegin_open c s =
     (let r = clients s c
      in if mTaskIndex r = None then put c (r\<lparr>cpc := CIdle\<rparr>) s
         else if mThreadOpen r = 0 then put c (r\<lparr>cpc := CNotify\<rparr>) (active s)
         else put c (r\<lparr>mThreadOpen := mThreadOpen r + 1, cpc := CIdle\<rparr>) s)"

definition onConcurrencyEnd :: "nat \<Rightarrow> ThreadPool \<Rightarrow> ThreadPool" where
  "onConcurrencyEnd c s =
     (let r = clients s c
      in case mTaskIndex r of
           None \<Rightarrow> s
         | Some index \<Rightarrow>
             (let r = r\<lparr>mThreadOpen := mThreadOpen r - 1\<rparr>
              in if mThreadOpen r = 0 then put c (r\<lparr>cpc := CDeactive\<rparr>) (releaseWorkIndex index s) else put c r s))"

definition enqueue :: "nat \<Rightarrow> nat \<Rightarrow> ThreadPool \<Rightarrow> ThreadPool" where
  "enqueue c n s =
     (let r = clients s c in put c (r\<lparr>cpc := (if 1 \<ge> n \<or> mTaskIndex r = None then CSeq 0 n else CTest n)\<rparr>) s)"

text \<open>The steps of \<open>enqueueInternal\<close> on slot \<open>index\<close>: the function, the flags, the own part, the wait.\<close>

definition store_task :: "nat \<Rightarrow> nat \<Rightarrow> nat \<Rightarrow> ThreadPool \<Rightarrow> ThreadPool" where
  "store_task c n index s =
     (let r = clients s c; e = call_no r
      in if n > mNumberThread s then
           put c (r\<lparr>cpc := CSet 1 (mNumberThread s)\<rparr>)
             (s\<lparr>mTaskFn := (mTaskFn s)(index := Strided c e n (mNumberThread s))\<rparr>)
         else put c (r\<lparr>cpc := CSet 1 n\<rparr>) (s\<lparr>mTaskFn := (mTaskFn s)(index := Direct c e)\<rparr>))"

definition finish_call :: "CPURuntime \<Rightarrow> CPURuntime" where
  "finish_call r = r\<lparr>call_no := call_no r + 1, cpc := CIdle\<rparr>"

definition enqueue_step :: "nat \<Rightarrow> ThreadPool \<Rightarrow> ThreadPool" where
  "enqueue_step c s =
     (let r = clients s c; index = the (mTaskIndex r)
      in case cpc r of
           CSeq v n \<Rightarrow>
             (if v < n then put c (r\<lparr>cpc := CSeq (v + 1) n\<rparr>) (log_call (c, call_no r) v s) else put c (finish_call r) s)
         | CTest n \<Rightarrow> put c (r\<lparr>cpc := (if mActiveCount s = 0 then CSeq 0 n else CStore n)\<rparr>) s
         | CStore n \<Rightarrow> store_task c n index s
         | CSet i workSize \<Rightarrow>
             (if i < workSize then
                put c (r\<lparr>cpc := CSet (i + 1) workSize\<rparr>) (s\<lparr>mFlag := (mFlag s)(index := (mFlag s index)(i := True))\<rparr>)
              else put c (r\<lparr>cpc := CRun (calls (mTaskFn s index) 0) workSize\<rparr>) s)
         | CRun js workSize \<Rightarrow>
             (case js of
                [] \<Rightarrow> put c (r\<lparr>cpc := CPoll 1 workSize\<rparr>) s
              | v # js \<Rightarrow> put c (r\<lparr>cpc := CRun js workSize\<rparr>) (log_call (caller (mTaskFn s index)) v s))
         | CPoll i workSize \<Rightarrow>
             (if i < workSize then put c (r\<lparr>cpc := (if mFlag s index i then CPoll 1 workSize else CPoll (i + 1) workSize)\<rparr>) s
              else put c (finish_call r) s)
         | _ \<Rightarrow> s)"

definition command_step :: "nat \<Rightarrow> ThreadPool \<Rightarrow> ThreadPool" where
  "command_step c s =
     (let r = clients s c
      in case commands r of
           [] \<Rightarrow> s
         | x # cs \<Rightarrow>
             (let s = put c (r\<lparr>commands := cs\<rparr>) s
              in case x of Begin \<Rightarrow> onConcurrencyBegin c s | Enqueue n \<Rightarrow> enqueue c n s | End \<Rightarrow> onConcurrencyEnd c s))"

definition client_step :: "nat \<Rightarrow> ThreadPool \<Rightarrow> ThreadPool" where
  "client_step c s =
     (let r = clients s c
      in case cpc r of
           CIdle \<Rightarrow> command_step c s
         | CBegin \<Rightarrow> onConcurrencyBegin_open c s
         | CNotify \<Rightarrow> put c (r\<lparr>mThreadOpen := mThreadOpen r + 1, cpc := CIdle\<rparr>) (notify_all s)
         | CDeactive \<Rightarrow> put c (r\<lparr>mTaskIndex := None, cpc := CIdle\<rparr>) (deactive s)
         | _ \<Rightarrow> enqueue_step c s)"

section \<open>The destructor\<close>

definition client_done :: "CPURuntime \<Rightarrow> bool" where
  "client_done r \<longleftrightarrow> commands r = [] \<and> cpc r = CIdle"

text \<open>\<open>~ThreadPool\<close>, called when the last client has ended: stop, wake, join.\<close>

definition destroy_step :: "ThreadPool \<Rightarrow> ThreadPool" where
  "destroy_step s =
     (case destroyer s of
        DWait \<Rightarrow> (if list_all (\<lambda>c. client_done (clients s c)) [0..<nclients s] then s\<lparr>mStop := True, destroyer := DNotify\<rparr> else s)
      | DNotify \<Rightarrow> (notify_all s)\<lparr>destroyer := DJoin 1\<rparr>
      | DJoin i \<Rightarrow>
          (if i < mNumberThread s then (if workers s i = WDone then s\<lparr>destroyer := DJoin (i + 1)\<rparr> else s)
           else s\<lparr>destroyer := DDone\<rparr>)
      | DDone \<Rightarrow> s)"

section \<open>Interleaving\<close>

datatype thread = Client nat | Worker nat | Destroyer

primrec pool_step :: "thread \<Rightarrow> ThreadPool \<Rightarrow> ThreadPool" where
  "pool_step (Client c) s = (if c < nclients s then client_step c s else s)"
| "pool_step (Worker t) s = (if 1 \<le> t \<and> t < mNumberThread s then worker_step t s else s)"
| "pool_step Destroyer s = destroy_step s"

inductive pool_reach :: "ThreadPool \<Rightarrow> ThreadPool \<Rightarrow> bool" for s0 where
  start: "pool_reach s0 s0"
| move: "pool_reach s0 s \<Longrightarrow> pool_reach s0 (pool_step x s)"

lemma pool_run_reach: "pool_reach s0 (run pool_step sched s0 m)"
  by (induction m) (auto intro: pool_reach.intros)

end
