(* ===== verification/Pool_Inv.thy ===== *)
theory Pool_Inv
  imports Pool_Model
begin

text \<open>What holds in every state of the pool: who owns a slot, who counts as active, who may be asleep.\<close>

lemmas client_defs = client_step_def command_step_def onConcurrencyBegin_def onConcurrencyBegin_open_def onConcurrencyEnd_def
  enqueue_def enqueue_step_def store_task_def finish_call_def releaseWorkIndex_def log_call_def notify_all_def active_def deactive_def Let_def

section \<open>Clients and slots\<close>

definition slot_of :: "CPURuntime \<Rightarrow> nat option" where
  "slot_of r = (if cpc r = CDeactive then None else mTaskIndex r)"

definition is_active :: "CPURuntime \<Rightarrow> bool" where
  "is_active r \<longleftrightarrow> 0 < mThreadOpen r \<or> cpc r = CNotify \<or> cpc r = CDeactive"

text \<open>The flags a client in \<open>enqueue\<close> may have set.\<close>

fun started :: "client_pc \<Rightarrow> nat \<Rightarrow> bool" where
  "started (CSet i w) t \<longleftrightarrow> 1 \<le> t \<and> t < i"
| "started (CRun js w) t \<longleftrightarrow> 1 \<le> t \<and> t < w"
| "started (CPoll i w) t \<longleftrightarrow> 1 \<le> t \<and> t < w"
| "started _ t \<longleftrightarrow> False"

fun in_call :: "client_pc \<Rightarrow> bool" where
  "in_call (CSet i w) \<longleftrightarrow> True"
| "in_call (CRun js w) \<longleftrightarrow> True"
| "in_call (CPoll i w) \<longleftrightarrow> True"
| "in_call _ \<longleftrightarrow> False"

fun pc_ok :: "nat \<Rightarrow> client_pc \<Rightarrow> nat option \<Rightarrow> nat \<Rightarrow> bool" where
  "pc_ok N CIdle ix op \<longleftrightarrow> (ix = None \<longleftrightarrow> op = 0)"
| "pc_ok N CBegin ix op \<longleftrightarrow> (ix = None \<longrightarrow> op = 0)"
| "pc_ok N CNotify ix op \<longleftrightarrow> ix \<noteq> None \<and> op = 0"
| "pc_ok N CDeactive ix op \<longleftrightarrow> ix \<noteq> None \<and> op = 0"
| "pc_ok N (CSeq v n) ix op \<longleftrightarrow> (ix = None \<longleftrightarrow> op = 0)"
| "pc_ok N (CTest n) ix op \<longleftrightarrow> ix \<noteq> None \<and> 0 < op \<and> 1 < n"
| "pc_ok N (CStore n) ix op \<longleftrightarrow> ix \<noteq> None \<and> 0 < op \<and> 1 < n"
| "pc_ok N (CSet i w) ix op \<longleftrightarrow> ix \<noteq> None \<and> 0 < op \<and> 1 \<le> i \<and> i \<le> w \<and> w \<le> N"
| "pc_ok N (CRun js w) ix op \<longleftrightarrow> ix \<noteq> None \<and> 0 < op \<and> 1 \<le> w \<and> w \<le> N"
| "pc_ok N (CPoll i w) ix op \<longleftrightarrow> ix \<noteq> None \<and> 0 < op \<and> 1 \<le> i \<and> 1 \<le> w \<and> w \<le> N"

definition inv_client :: "ThreadPool \<Rightarrow> bool" where
  "inv_client s \<longleftrightarrow> 1 \<le> mNumberThread s \<and>
     (\<forall>c<nclients s. pc_ok (mNumberThread s) (cpc (clients s c)) (mTaskIndex (clients s c)) (mThreadOpen (clients s c)))"

definition inv_slot :: "ThreadPool \<Rightarrow> bool" where
  "inv_slot s \<longleftrightarrow> (\<forall>c<nclients s. \<forall>k. slot_of (clients s c) = Some k \<longrightarrow>
     k < MAX_TASKS \<and> \<not> mTaskAvailable s k \<and> (\<forall>d<nclients s. slot_of (clients s d) = Some k \<longrightarrow> d = c))"

lemma inv_clientD:
  "inv_client s \<Longrightarrow> c < nclients s \<Longrightarrow> pc_ok (mNumberThread s) (cpc (clients s c)) (mTaskIndex (clients s c)) (mThreadOpen (clients s c))"
  by (simp add: inv_client_def)

lemma inv_slotD:
  "inv_slot s \<Longrightarrow> d < nclients s \<Longrightarrow> slot_of (clients s d) = Some k \<Longrightarrow>
   k < MAX_TASKS \<and> \<not> mTaskAvailable s k \<and> (\<forall>e<nclients s. slot_of (clients s e) = Some k \<longrightarrow> e = d)"
  unfolding inv_slot_def by (elim allE impE) assumption+

definition inv_count :: "ThreadPool \<Rightarrow> bool" where
  "inv_count s \<longleftrightarrow> mActiveCount s = int (card {c. c < nclients s \<and> is_active (clients s c)})"

section \<open>Slots and workers\<close>

text \<open>A flag that is set was set by the client that owns the slot and is in \<open>enqueue\<close>; a worker that runs a
  task has its flag still set; the flags a client has seen cleared stay so.\<close>

definition inv_flag :: "ThreadPool \<Rightarrow> bool" where
  "inv_flag s \<longleftrightarrow> (\<forall>k t. mFlag s k t \<longrightarrow> (\<exists>c<nclients s. slot_of (clients s c) = Some k \<and> started (cpc (clients s c)) t))"

definition inv_work :: "ThreadPool \<Rightarrow> bool" where
  "inv_work s \<longleftrightarrow> (\<forall>t k. (\<exists>js. workers s t = WRun k js) \<or> workers s t = WClear k \<longrightarrow> mFlag s k t)"

definition inv_poll :: "ThreadPool \<Rightarrow> bool" where
  "inv_poll s \<longleftrightarrow> (\<forall>c<nclients s. \<forall>k i w t. slot_of (clients s c) = Some k \<longrightarrow> cpc (clients s c) = CPoll i w \<longrightarrow> 1 \<le> t \<longrightarrow> t < i \<longrightarrow> \<not> mFlag s k t)"

definition inv_fn :: "ThreadPool \<Rightarrow> bool" where
  "inv_fn s \<longleftrightarrow> (\<forall>c<nclients s. \<forall>k. slot_of (clients s c) = Some k \<longrightarrow> in_call (cpc (clients s c)) \<longrightarrow>
     caller (mTaskFn s k) = (c, call_no (clients s c)))"

lemma inv_fnD:
  "inv_fn s \<Longrightarrow> c < nclients s \<Longrightarrow> slot_of (clients s c) = Some k \<Longrightarrow> in_call (cpc (clients s c)) \<Longrightarrow>
   caller (mTaskFn s k) = (c, call_no (clients s c))"
  by (simp add: inv_fn_def)

definition inv_stop :: "ThreadPool \<Rightarrow> bool" where
  "inv_stop s \<longleftrightarrow> (mStop s \<longleftrightarrow> destroyer s \<noteq> DWait) \<and> (mStop s \<longrightarrow> (\<forall>c<nclients s. client_done (clients s c))) \<and>
     (\<forall>t. workers s t = WDone \<longrightarrow> mStop s) \<and> (\<forall>i. destroyer s = DJoin i \<longrightarrow> 1 \<le> i)"

definition inv_sleep :: "ThreadPool \<Rightarrow> bool" where
  "inv_sleep s \<longleftrightarrow> (\<forall>t. workers s t = WSleep \<longrightarrow>
     (0 < mActiveCount s \<longrightarrow> (\<exists>c<nclients s. cpc (clients s c) = CNotify)) \<and> (mStop s \<longrightarrow> destroyer s = DNotify))"

section \<open>Every step keeps it\<close>

lemma acquire_cases:
  obtains (none) "acquireWorkIndex s = (None, s)"
  | (some) k where "k < MAX_TASKS" "mTaskAvailable s k"
      "acquireWorkIndex s = (Some k, s\<lparr>mTaskAvailable := (mTaskAvailable s)(k := False)\<rparr>)"
proof (cases "filter (mTaskAvailable s) [0..<MAX_TASKS]")
  case (Cons k ks)
  then have "k \<in> set (filter (mTaskAvailable s) [0..<MAX_TASKS])" by simp
  then have "k < MAX_TASKS" "mTaskAvailable s k" unfolding set_filter by simp_all
  then show thesis using that(2) [of k] Cons by (simp add: acquireWorkIndex_def)
qed (simp add: that(1) acquireWorkIndex_def)

lemma acquire_simps [simp]:
  "clients (snd (acquireWorkIndex s)) = clients s" "nclients (snd (acquireWorkIndex s)) = nclients s"
  "mNumberThread (snd (acquireWorkIndex s)) = mNumberThread s" "mActiveCount (snd (acquireWorkIndex s)) = mActiveCount s"
  "mFlag (snd (acquireWorkIndex s)) = mFlag s" "mTaskFn (snd (acquireWorkIndex s)) = mTaskFn s" "workers (snd (acquireWorkIndex s)) = workers s"
  "mStop (snd (acquireWorkIndex s)) = mStop s" "destroyer (snd (acquireWorkIndex s)) = destroyer s" "ran (snd (acquireWorkIndex s)) = ran s"
  by (cases s rule: acquire_cases; simp)+

text \<open>A step of another client or thread does not touch a client; the number of clients and threads is fixed.\<close>

lemma client_step_other: "d \<noteq> c \<Longrightarrow> clients (client_step c s) d = clients s d"
  by (auto simp: client_defs case_prod_beta split: client_pc.split list.split command.split option.split)

lemma client_step_const [simp]:
  "nclients (client_step c s) = nclients s" "mNumberThread (client_step c s) = mNumberThread s"
  "mStop (client_step c s) = mStop s" "destroyer (client_step c s) = destroyer s"
  by (auto simp: client_defs case_prod_beta split: client_pc.split list.split command.split option.split)

lemma worker_step_const [simp]:
  "nclients (worker_step t s) = nclients s" "mNumberThread (worker_step t s) = mNumberThread s"
  "mStop (worker_step t s) = mStop s" "destroyer (worker_step t s) = destroyer s" "clients (worker_step t s) = clients s"
  "mActiveCount (worker_step t s) = mActiveCount s" "mTaskAvailable (worker_step t s) = mTaskAvailable s" "mTaskFn (worker_step t s) = mTaskFn s"
  by (auto simp: worker_step_def log_call_def split: worker_pc.split list.split)

lemma destroy_step_const [simp]:
  "nclients (destroy_step s) = nclients s" "mNumberThread (destroy_step s) = mNumberThread s" "clients (destroy_step s) = clients s"
  "mActiveCount (destroy_step s) = mActiveCount s" "mTaskAvailable (destroy_step s) = mTaskAvailable s" "mTaskFn (destroy_step s) = mTaskFn s"
  "mFlag (destroy_step s) = mFlag s" "ran (destroy_step s) = ran s"
  by (auto simp: destroy_step_def notify_all_def split: destroy_pc.split)

lemma client_step_pc_ok:
  assumes "1 \<le> mNumberThread s" "pc_ok (mNumberThread s) (cpc (clients s c)) (mTaskIndex (clients s c)) (mThreadOpen (clients s c))"
  shows "pc_ok (mNumberThread s) (cpc (clients (client_step c s) c)) (mTaskIndex (clients (client_step c s) c)) (mThreadOpen (clients (client_step c s) c))"
  using assms
  by (auto simp: client_defs case_prod_beta split: client_pc.split list.split command.split option.split)

lemma inv_client_step:
  assumes "inv_client s"
  shows "inv_client (pool_step x s)"
proof (cases x)
  case (Client c)
  have "pc_ok (mNumberThread s) (cpc (clients (client_step c s) d)) (mTaskIndex (clients (client_step c s) d)) (mThreadOpen (clients (client_step c s) d))"
    if "d < nclients s" for d
    using that assms client_step_pc_ok [of s c] by (cases "d = c") (auto simp: inv_client_def client_step_other)
  then show ?thesis using Client assms by (simp add: inv_client_def)
qed (use assms in \<open>auto simp: inv_client_def\<close>)

text \<open>Slots: a step keeps or gives up the client's slot, or takes one that is free.\<close>

lemma client_step_slot:
  assumes "pc_ok (mNumberThread s) (cpc (clients s c)) (mTaskIndex (clients s c)) (mThreadOpen (clients s c))"
  shows "slot_of (clients (client_step c s) c) = slot_of (clients s c) \<and> mTaskAvailable (client_step c s) = mTaskAvailable s \<or>
    slot_of (clients (client_step c s) c) = None \<and>
      (slot_of (clients s c) = None \<and> mTaskAvailable (client_step c s) = mTaskAvailable s \<or>
       (\<exists>k. slot_of (clients s c) = Some k \<and> (\<forall>j. j \<noteq> k \<longrightarrow> mTaskAvailable (client_step c s) j = mTaskAvailable s j))) \<or>
    slot_of (clients s c) = None \<and>
      (\<exists>k<MAX_TASKS. mTaskAvailable s k \<and> slot_of (clients (client_step c s) c) = Some k \<and> mTaskAvailable (client_step c s) = (mTaskAvailable s)(k := False))"
proof (cases "cpc (clients s c) = CIdle \<and> commands (clients s c) \<noteq> [] \<and> hd (commands (clients s c)) = Begin \<and> mTaskIndex (clients s c) = None")
  case True
  then show ?thesis
    by (cases "put c ((clients s c)\<lparr>commands := tl (commands (clients s c))\<rparr>) s" rule: acquire_cases)
      (auto simp: client_defs slot_of_def split: list.split)
next
  case False
  then show ?thesis
    using assms by (auto simp: client_defs slot_of_def case_prod_beta split: client_pc.split list.split command.split option.split)
qed

lemma inv_slot_step:
  assumes "inv_client s" "inv_slot s"
  shows "inv_slot (pool_step x s)"
proof (cases x)
  case (Client c)
  show ?thesis
  proof (cases "c < nclients s")
    case True
    then have p: "pc_ok (mNumberThread s) (cpc (clients s c)) (mTaskIndex (clients s c)) (mThreadOpen (clients s c))"
      using assms(1) by (simp add: inv_client_def)
    have other: "slot_of (clients (client_step c s) d) = slot_of (clients s d)" if "d \<noteq> c" for d
      using client_step_other [OF that] by simp
    have old: "k < MAX_TASKS" "\<not> mTaskAvailable s k" "e < nclients s \<Longrightarrow> slot_of (clients s e) = Some k \<Longrightarrow> e = d"
      if "d < nclients s" "slot_of (clients s d) = Some k" for d k e
      using inv_slotD [OF assms(2) that] by blast+
    let ?s = "client_step c s"
    have "k < MAX_TASKS \<and> \<not> mTaskAvailable ?s k \<and> (\<forall>e<nclients s. slot_of (clients ?s e) = Some k \<longrightarrow> e = d)"
      if d: "d < nclients s" "slot_of (clients ?s d) = Some k" for d k
      using client_step_slot [OF p]
    proof (elim disjE conjE exE)
      assume "slot_of (clients ?s c) = slot_of (clients s c)" "mTaskAvailable ?s = mTaskAvailable s"
      moreover from this have "slot_of (clients ?s e) = slot_of (clients s e)" for e using other by (cases "e = c") simp_all
      ultimately show ?thesis using old [OF d(1)] d(2) by simp
    next
      assume n: "slot_of (clients ?s c) = None" "slot_of (clients s c) = None" "mTaskAvailable ?s = mTaskAvailable s"
      then have "slot_of (clients ?s e) = slot_of (clients s e)" for e using other by (cases "e = c") simp_all
      then show ?thesis using old [OF d(1)] d(2) n(3) by simp
    next
      fix j assume n: "slot_of (clients ?s c) = None" "slot_of (clients s c) = Some j" "\<forall>i. i \<noteq> j \<longrightarrow> mTaskAvailable ?s i = mTaskAvailable s i"
      then have "d \<noteq> c" using d(2) by auto
      then have dc: "d \<noteq> c" "slot_of (clients s d) = Some k" using d(2) other [of d] by simp_all
      then have "k \<noteq> j" using old(3) [OF d(1) dc(2) True] n(2) by auto
      moreover have "e = d" if "e < nclients s" "slot_of (clients ?s e) = Some k" for e
        using that old(3) [OF d(1) dc(2)] n(1) other [of e] by (cases "e = c") simp_all
      ultimately show ?thesis using old(1,2) [OF d(1) dc(2)] n(3) by auto
    next
      fix j assume n: "slot_of (clients s c) = None" "j < MAX_TASKS" "mTaskAvailable s j" "slot_of (clients ?s c) = Some j"
        "mTaskAvailable ?s = (mTaskAvailable s)(j := False)"
      show ?thesis
      proof (cases "d = c")
        case True
        then have "k = j" using d(2) n(4) by simp
        moreover have "e = c" if "e < nclients s" "slot_of (clients ?s e) = Some j" for e
          using that old(2) [of e j] n(3) other [of e] by (cases "e = c") simp_all
        ultimately show ?thesis using True n(2,5) by auto
      next
        case False
        then have dk: "slot_of (clients s d) = Some k" using d(2) other by simp
        then have "k \<noteq> j" using old(2) [OF d(1)] n(3) by auto
        moreover have "e = d" if "e < nclients s" "slot_of (clients ?s e) = Some k" for e
          using that old(3) [OF d(1) dk] n(4) \<open>k \<noteq> j\<close> other [of e] by (cases "e = c") simp_all
        ultimately show ?thesis using old(1,2) [OF d(1) dk] n(5) by auto
      qed
    qed
    then show ?thesis unfolding inv_slot_def Client pool_step.simps if_P [OF True] client_step_const by blast
  qed (use Client assms in simp)
next
  case (Worker t)
  have "inv_slot (worker_step t s) = inv_slot s" by (simp add: inv_slot_def)
  then show ?thesis using Worker assms(2) by simp
next
  case Destroyer
  have "inv_slot (destroy_step s) = inv_slot s" by (simp add: inv_slot_def)
  then show ?thesis using Destroyer assms(2) by simp
qed

text \<open>The count of active clients.\<close>

lemma card_update:
  assumes "c < n" "\<And>d. d \<noteq> c \<Longrightarrow> P d \<longleftrightarrow> Q d"
  shows "int (card {d. d < n \<and> Q d}) = int (card {d. d < (n::nat) \<and> P d}) + (of_bool (Q c) - of_bool (P c))"
proof -
  have split: "int (card {d. d < n \<and> R d}) = int (card {d. d < n \<and> d \<noteq> c \<and> R d}) + of_bool (R c)" for R
  proof (cases "R c")
    case True
    then have e: "{d. d < n \<and> R d} = insert c {d. d < n \<and> d \<noteq> c \<and> R d}" using assms(1) by auto
    show ?thesis unfolding e using True by simp
  next
    case False
    then have "d < n \<and> R d \<longleftrightarrow> d < n \<and> d \<noteq> c \<and> R d" for d by auto
    then show ?thesis using False by simp
  qed
  have same: "{d. d < n \<and> d \<noteq> c \<and> P d} = {d. d < n \<and> d \<noteq> c \<and> Q d}" using assms(2) by auto
  show ?thesis unfolding split [of P] split [of Q] same by simp
qed

lemma client_step_count:
  assumes "pc_ok (mNumberThread s) (cpc (clients s c)) (mTaskIndex (clients s c)) (mThreadOpen (clients s c))"
  shows "mActiveCount (client_step c s) =
    mActiveCount s + (of_bool (is_active (clients (client_step c s) c)) - of_bool (is_active (clients s c)))"
proof (cases "cpc (clients s c)")
  case CIdle
  then show ?thesis
    using assms by (auto simp: client_defs is_active_def case_prod_beta split: list.split command.split option.split)
next
  case CBegin
  then show ?thesis using assms by (simp add: client_defs is_active_def)
next
  case CNotify
  then show ?thesis using assms by (simp add: client_defs is_active_def)
next
  case CDeactive
  then show ?thesis using assms by (simp add: client_defs is_active_def)
qed (use assms in \<open>simp_all add: client_defs is_active_def split: list.split\<close>)

lemma inv_count_step:
  assumes "inv_client s" "inv_count s"
  shows "inv_count (pool_step x s)"
proof (cases x)
  case (Client c)
  show ?thesis
  proof (cases "c < nclients s")
    case True
    then have "pc_ok (mNumberThread s) (cpc (clients s c)) (mTaskIndex (clients s c)) (mThreadOpen (clients s c))"
      using assms(1) by (simp add: inv_client_def)
    moreover have "int (card {d. d < nclients s \<and> is_active (clients (client_step c s) d)}) =
        int (card {d. d < nclients s \<and> is_active (clients s d)}) + (of_bool (is_active (clients (client_step c s) c)) - of_bool (is_active (clients s c)))"
      by (rule card_update [OF True]) (simp add: client_step_other)
    ultimately show ?thesis using Client True assms(2) client_step_count [of s c] by (simp add: inv_count_def)
  qed (use Client assms in simp)
qed (use assms in \<open>simp_all add: inv_count_def\<close>)

text \<open>Flags.\<close>

lemma client_step_flag:
  "mFlag (client_step c s) = mFlag s \<or>
   (\<exists>i w. cpc (clients s c) = CSet i w \<and> i < w \<and> clients (client_step c s) c = (clients s c)\<lparr>cpc := CSet (i + 1) w\<rparr> \<and>
     mFlag (client_step c s) = (mFlag s)(the (mTaskIndex (clients s c)) := (mFlag s (the (mTaskIndex (clients s c))))(i := True)))"
  by (auto simp: client_defs case_prod_beta split: client_pc.split list.split command.split option.split)

lemma client_step_workers:
  "workers (client_step c s) t = workers s t \<or> cpc (clients s c) = CNotify \<and> workers s t = WSleep \<and> workers (client_step c s) t = WWait"
  by (auto simp: client_defs case_prod_beta split: client_pc.split list.split command.split option.split)

lemma client_step_started:
  assumes "started (cpc (clients s c)) t" "slot_of (clients s c) = Some k"
    "pc_ok (mNumberThread s) (cpc (clients s c)) (mTaskIndex (clients s c)) (mThreadOpen (clients s c))"
  shows "slot_of (clients (client_step c s) c) = Some k \<and> started (cpc (clients (client_step c s) c)) t \<or>
    (\<exists>i w. cpc (clients s c) = CPoll i w \<and> w \<le> i)"
  using assms by (cases "cpc (clients s c)") (auto simp: client_defs slot_of_def split: list.split)

lemma worker_step_flag:
  "mFlag (worker_step t s) = mFlag s \<or>
   (\<exists>k. workers s t = WClear k \<and> workers (worker_step t s) t = WTest (k + 1) \<and> mFlag (worker_step t s) = (mFlag s)(k := (mFlag s k)(t := False)))"
  by (auto simp: worker_step_def log_call_def split: worker_pc.split list.split)

lemma worker_step_other: "u \<noteq> t \<Longrightarrow> workers (worker_step t s) u = workers s u"
  by (auto simp: worker_step_def log_call_def split: worker_pc.split list.split)

lemma worker_step_run:
  "(\<exists>js. workers (worker_step t s) t = WRun k js) \<or> workers (worker_step t s) t = WClear k \<Longrightarrow>
   mFlag s k t \<or> (\<exists>js. workers s t = WRun k js)"
  by (auto simp: worker_step_def log_call_def split: worker_pc.splits list.splits if_splits)

lemma destroy_step_workers: "workers (destroy_step s) t = workers s t \<or> destroyer s = DNotify \<and> workers s t = WSleep \<and> workers (destroy_step s) t = WWait"
  by (auto simp: destroy_step_def notify_all_def split: destroy_pc.split)

lemma inv_flag_step:
  assumes "inv_client s" "inv_slot s" "inv_flag s" "inv_poll s"
  shows "inv_flag (pool_step x s)"
proof (cases x)
  case (Client c)
  show ?thesis
  proof (cases "c < nclients s")
    case True
    let ?s = "client_step c s"
    have "\<exists>d<nclients s. slot_of (clients ?s d) = Some k \<and> started (cpc (clients ?s d)) t" if f: "mFlag ?s k t" for k t
    proof (cases "mFlag s k t")
      case old: True
      then obtain d where d: "d < nclients s" "slot_of (clients s d) = Some k" "started (cpc (clients s d)) t"
        using assms(3) unfolding inv_flag_def by blast
      show ?thesis
      proof (cases "d = c")
        case True
        have "\<not> (\<exists>i w. cpc (clients s c) = CPoll i w \<and> w \<le> i)"
        proof
          assume "\<exists>i w. cpc (clients s c) = CPoll i w \<and> w \<le> i"
          then obtain i w where p: "cpc (clients s c) = CPoll i w" "w \<le> i" by blast
          then have "1 \<le> t" "t < i" using d(3) True by simp_all
          then show False using assms(4) d(1,2) p(1) old True unfolding inv_poll_def by blast
        qed
        then show ?thesis using client_step_started [of s c t k] d True inv_clientD [OF assms(1) d(1)] by blast
      next
        case False
        then show ?thesis using d client_step_other [of d c s] by (intro exI [of _ d]) simp
      qed
    next
      case False
      then obtain i w where n: "cpc (clients s c) = CSet i w" "clients ?s c = (clients s c)\<lparr>cpc := CSet (i + 1) w\<rparr>"
        "k = the (mTaskIndex (clients s c))" "t = i"
        using client_step_flag [of c s] f by (auto split: if_splits)
      moreover have "pc_ok (mNumberThread s) (cpc (clients s c)) (mTaskIndex (clients s c)) (mThreadOpen (clients s c))"
        using assms(1) True by (simp add: inv_client_def)
      ultimately show ?thesis using True by (intro exI [of _ c]) (auto simp: slot_of_def)
    qed
    then show ?thesis using Client True by (simp add: inv_flag_def)
  qed (use Client assms in simp)
next
  case (Worker t)
  have "mFlag (worker_step t s) k u \<Longrightarrow> mFlag s k u" for k u using worker_step_flag [of t s] by (auto split: if_splits)
  then have "inv_flag (worker_step t s)" using assms(3) unfolding inv_flag_def worker_step_const by blast
  then show ?thesis using Worker assms(3) by simp
next
  case Destroyer
  have "inv_flag (destroy_step s) = inv_flag s" by (simp add: inv_flag_def)
  then show ?thesis using Destroyer assms(3) by simp
qed

lemma inv_work_step:
  assumes "inv_work s"
  shows "inv_work (pool_step x s)"
proof (cases x)
  case (Client c)
  have "inv_work (client_step c s)"
    unfolding inv_work_def
  proof (intro allI impI)
    fix t k assume "(\<exists>js. workers (client_step c s) t = WRun k js) \<or> workers (client_step c s) t = WClear k"
    then have "(\<exists>js. workers s t = WRun k js) \<or> workers s t = WClear k" using client_step_workers [of c s t] by auto
    then have "mFlag s k t" using assms unfolding inv_work_def by blast
    then show "mFlag (client_step c s) k t" using client_step_flag [of c s] by auto
  qed
  then show ?thesis using Client assms by simp
next
  case (Worker u)
  have "inv_work (worker_step u s)"
    unfolding inv_work_def
  proof (intro allI impI)
    fix t k assume r: "(\<exists>js. workers (worker_step u s) t = WRun k js) \<or> workers (worker_step u s) t = WClear k"
    have "mFlag s k t"
    proof (cases "t = u")
      case True
      then show ?thesis using worker_step_run [of u s k] r assms unfolding inv_work_def by blast
    next
      case False
      then show ?thesis using worker_step_other [OF False, of s] r assms unfolding inv_work_def by metis
    qed
    then show "mFlag (worker_step u s) k t" using worker_step_flag [of u s] r by auto
  qed
  then show ?thesis using Worker assms by simp
next
  case Destroyer
  have "inv_work (destroy_step s)"
    unfolding inv_work_def
  proof (intro allI impI)
    fix t k assume "(\<exists>js. workers (destroy_step s) t = WRun k js) \<or> workers (destroy_step s) t = WClear k"
    then have "(\<exists>js. workers s t = WRun k js) \<or> workers s t = WClear k" using destroy_step_workers [of s t] by auto
    then have "mFlag s k t" using assms unfolding inv_work_def by blast
    then show "mFlag (destroy_step s) k t" by simp
  qed
  then show ?thesis using Destroyer by simp
qed

lemma client_step_poll:
  assumes "cpc (clients (client_step c s) c) = CPoll i w" "slot_of (clients (client_step c s) c) = Some k"
  shows "mFlag (client_step c s) = mFlag s \<and> slot_of (clients s c) = Some k \<and>
    (i \<le> 1 \<or> (\<exists>j. cpc (clients s c) = CPoll j w \<and> i = j + 1 \<and> \<not> mFlag s k j))"
  using assms
  by (auto simp: client_defs slot_of_def case_prod_beta split: client_pc.splits list.splits command.splits option.splits if_splits)

text \<open>Only its owner sets a slot's flags.\<close>

lemma client_step_flag_slot:
  assumes "inv_client s" "inv_slot s" "c < nclients s" "d < nclients s" "slot_of (clients s d) = Some k" "\<not> mFlag s k t" "mFlag (client_step c s) k t"
  shows "c = d \<and> (\<exists>i w. cpc (clients s c) = CSet i w)"
proof -
  obtain i w where n: "cpc (clients s c) = CSet i w" "k = the (mTaskIndex (clients s c))"
    using client_step_flag [of c s] assms(6,7) by (auto split: if_splits)
  then have "slot_of (clients s c) = Some k" using inv_clientD [OF assms(1,3)] by (auto simp: slot_of_def)
  then show ?thesis using inv_slotD [OF assms(2,4,5)] assms(3) n(1) by blast
qed

lemma inv_poll_step:
  assumes "inv_client s" "inv_slot s" "inv_poll s"
  shows "inv_poll (pool_step x s)"
proof (cases x)
  case (Client c)
  show ?thesis
  proof (cases "c < nclients s")
    case c: True
    let ?s = "client_step c s"
    have "\<not> mFlag ?s k t"
      if d: "d < nclients s" and k: "slot_of (clients ?s d) = Some k" and p: "cpc (clients ?s d) = CPoll i w" and t: "1 \<le> t" "t < i" for d k i w t
    proof (cases "d = c")
      case True
      then have p': "mFlag ?s = mFlag s" "slot_of (clients s c) = Some k" "i \<le> 1 \<or> (\<exists>j. cpc (clients s c) = CPoll j w \<and> i = j + 1 \<and> \<not> mFlag s k j)"
        using client_step_poll [of c s i w k] k p by simp_all
      then obtain j where j: "cpc (clients s c) = CPoll j w" "i = j + 1" "\<not> mFlag s k j" using t by auto
      have "\<not> mFlag s k t" if "t < j" using assms(3) c p'(2) j(1) t(1) that unfolding inv_poll_def by blast
      then show ?thesis using p'(1) j(2,3) t(2) by (cases "t = j") simp_all
    next
      case False
      then have e: "slot_of (clients s d) = Some k" "cpc (clients s d) = CPoll i w" using k p client_step_other [OF False, of s] by simp_all
      then have "\<not> mFlag s k t" using assms(3) d t unfolding inv_poll_def by blast
      then show ?thesis using client_step_flag_slot [OF assms(1,2) c d e(1)] False by auto
    qed
    then show ?thesis using Client c unfolding inv_poll_def by simp
  qed (use Client assms in simp)
next
  case (Worker t)
  have "\<not> mFlag s k u \<Longrightarrow> \<not> mFlag (worker_step t s) k u" for k u using worker_step_flag [of t s] by (auto split: if_splits)
  then have "inv_poll (worker_step t s)" using assms(3) unfolding inv_poll_def worker_step_const by blast
  then show ?thesis using Worker assms(3) by simp
next
  case Destroyer
  have "inv_poll (destroy_step s) = inv_poll s" by (simp add: inv_poll_def)
  then show ?thesis using Destroyer assms(3) by simp
qed

text \<open>The function of a slot.\<close>

lemma client_step_fn:
  "mTaskFn (client_step c s) = mTaskFn s \<and>
     (\<not> in_call (cpc (clients (client_step c s) c)) \<or> in_call (cpc (clients s c)) \<and> slot_of (clients (client_step c s) c) = slot_of (clients s c) \<and>
       call_no (clients (client_step c s) c) = call_no (clients s c)) \<or>
   (\<exists>n. cpc (clients s c) = CStore n \<and> caller (mTaskFn (client_step c s) (the (mTaskIndex (clients s c)))) = (c, call_no (clients s c)) \<and>
     (\<forall>j. j \<noteq> the (mTaskIndex (clients s c)) \<longrightarrow> mTaskFn (client_step c s) j = mTaskFn s j) \<and>
     call_no (clients (client_step c s) c) = call_no (clients s c) \<and> slot_of (clients (client_step c s) c) = mTaskIndex (clients s c))"
  by (auto simp: client_defs slot_of_def case_prod_beta split: client_pc.split list.split command.split option.split)

lemma inv_fn_step:
  assumes "inv_client s" "inv_slot s" "inv_fn s"
  shows "inv_fn (pool_step x s)"
proof (cases x)
  case (Client c)
  show ?thesis
  proof (cases "c < nclients s")
    case c: True
    let ?s = "client_step c s"
    have "caller (mTaskFn ?s k) = (d, call_no (clients ?s d))"
      if d: "d < nclients s" and k: "slot_of (clients ?s d) = Some k" and p: "in_call (cpc (clients ?s d))" for d k
    proof (cases "d = c")
      case True
      then show ?thesis using client_step_fn [of c s] c k p assms(3) inv_clientD [OF assms(1) c] unfolding inv_fn_def by auto
    next
      case False
      then have e: "slot_of (clients s d) = Some k" "in_call (cpc (clients s d))" using k p client_step_other [OF False, of s] by simp_all
      have "mTaskFn ?s k = mTaskFn s k"
      proof (rule ccontr)
        assume "mTaskFn ?s k \<noteq> mTaskFn s k"
        then obtain n where n: "cpc (clients s c) = CStore n" "k = the (mTaskIndex (clients s c))"
          using client_step_fn [of c s] by (auto split: if_splits)
        then have "slot_of (clients s c) = Some k" using inv_clientD [OF assms(1) c] by (auto simp: slot_of_def)
        then show False using inv_slotD [OF assms(2) d e(1)] c False by blast
      qed
      moreover have "caller (mTaskFn s k) = (d, call_no (clients s d))" using assms(3) d e unfolding inv_fn_def by blast
      ultimately show ?thesis using client_step_other [OF False, of s] by simp
    qed
    then show ?thesis using Client c unfolding inv_fn_def by simp
  qed (use Client assms in simp)
next
  case (Worker t)
  have "inv_fn (worker_step t s) = inv_fn s" by (simp add: inv_fn_def)
  then show ?thesis using Worker assms(3) by simp
next
  case Destroyer
  have "inv_fn (destroy_step s) = inv_fn s" by (simp add: inv_fn_def)
  then show ?thesis using Destroyer assms(3) by simp
qed

text \<open>Stopping and sleeping.\<close>

lemma client_done_step: "client_done (clients s c) \<Longrightarrow> client_step c s = s"
  by (simp add: client_done_def client_step_def command_step_def)

lemma worker_step_done: "workers (worker_step t s) u = WDone \<Longrightarrow> workers s u = WDone \<or> mStop s"
  by (cases "u = t") (auto simp: worker_step_other worker_step_def log_call_def split: worker_pc.splits list.splits if_splits)

lemma inv_stop_step:
  assumes "inv_stop s"
  shows "inv_stop (pool_step x s)"
proof (cases x)
  case (Client c)
  show ?thesis
  proof (cases "c < nclients s \<and> \<not> mStop s")
    case True
    have "workers (client_step c s) t = WDone \<Longrightarrow> workers s t = WDone" for t using client_step_workers [of c s t] by auto
    then have "workers (client_step c s) t \<noteq> WDone" for t using assms True unfolding inv_stop_def by blast
    then show ?thesis using Client True assms unfolding inv_stop_def by simp
  next
    case False
    then have "pool_step x s = s" using Client assms client_done_step [of s c] by (auto simp: inv_stop_def)
    then show ?thesis using assms by simp
  qed
next
  case (Worker t)
  have "inv_stop (worker_step t s)"
    using assms worker_step_done [of t s] unfolding inv_stop_def worker_step_const by blast
  then show ?thesis using Worker assms by simp
next
  case Destroyer
  have d: "workers (destroy_step s) t = WDone \<Longrightarrow> workers s t = WDone" for t using destroy_step_workers [of s t] by auto
  have "(mStop (destroy_step s) \<longleftrightarrow> destroyer (destroy_step s) \<noteq> DWait) \<and> (mStop s \<longrightarrow> mStop (destroy_step s)) \<and>
    (mStop (destroy_step s) \<longrightarrow> (\<forall>c<nclients s. client_done (clients s c))) \<and> (\<forall>i. destroyer (destroy_step s) = DJoin i \<longrightarrow> 1 \<le> i)"
    using assms by (auto simp: inv_stop_def destroy_step_def notify_all_def list_all_iff split: destroy_pc.split)
  moreover have "workers (destroy_step s) t = WDone \<Longrightarrow> mStop s" for t using d assms unfolding inv_stop_def by blast
  ultimately show ?thesis unfolding Destroyer pool_step.simps inv_stop_def destroy_step_const by blast
qed

lemma client_step_sleep:
  "workers (client_step c s) t = WSleep \<Longrightarrow> workers s t = WSleep \<and> cpc (clients s c) \<noteq> CNotify"
  by (auto simp: client_defs case_prod_beta split: client_pc.splits list.splits command.splits option.splits if_splits)

lemma client_step_wakes:
  "mActiveCount s < mActiveCount (client_step c s) \<Longrightarrow> cpc (clients (client_step c s) c) = CNotify"
  by (auto simp: client_defs case_prod_beta split: client_pc.splits list.splits command.splits option.splits if_splits)

lemma worker_step_sleep: "workers (worker_step t s) u = WSleep \<Longrightarrow> workers s u = WSleep \<or> \<not> mStop s \<and> mActiveCount s \<le> 0"
  by (cases "u = t") (auto simp: worker_step_other worker_step_def log_call_def split: worker_pc.splits list.splits if_splits)

lemma destroy_step_sleep:
  "workers (destroy_step s) t = WSleep \<Longrightarrow> workers s t = WSleep \<and> destroyer s \<noteq> DNotify \<and> (destroyer s = DWait \<longrightarrow> mStop (destroy_step s) \<longrightarrow> mStop s \<or> destroyer (destroy_step s) = DNotify)
    \<and> (destroyer s \<noteq> DWait \<longrightarrow> mStop (destroy_step s) = mStop s)"
  by (auto simp: destroy_step_def notify_all_def split: destroy_pc.splits if_splits)

lemma inv_sleep_step:
  assumes "inv_stop s" "inv_sleep s"
  shows "inv_sleep (pool_step x s)"
proof (cases x)
  case (Client c)
  show ?thesis
  proof (cases "c < nclients s")
    case True
    have "(0 < mActiveCount (client_step c s) \<longrightarrow> (\<exists>d<nclients s. cpc (clients (client_step c s) d) = CNotify)) \<and> (mStop s \<longrightarrow> destroyer s = DNotify)"
      if w: "workers (client_step c s) t = WSleep" for t
    proof (intro conjI impI)
      note old = client_step_sleep [OF w]
      show "destroyer s = DNotify" if "mStop s" using old that assms(2) unfolding inv_sleep_def by blast
      assume a: "0 < mActiveCount (client_step c s)"
      show "\<exists>d<nclients s. cpc (clients (client_step c s) d) = CNotify"
      proof (cases "0 < mActiveCount s")
        case True
        then obtain d where d: "d < nclients s" "cpc (clients s d) = CNotify" using old assms(2) unfolding inv_sleep_def by blast
        then have "d \<noteq> c" using old by auto
        then show ?thesis using d client_step_other [of d c s] by auto
      next
        case False
        then show ?thesis using a client_step_wakes [of s c] True by auto
      qed
    qed
    then show ?thesis using Client True unfolding inv_sleep_def by simp
  qed (use Client assms in simp)
next
  case (Worker t)
  have "inv_sleep (worker_step t s)"
    unfolding inv_sleep_def worker_step_const
  proof (intro allI impI)
    fix u assume "workers (worker_step t s) u = WSleep"
    then consider "workers s u = WSleep" | "\<not> mStop s" "mActiveCount s \<le> 0" using worker_step_sleep by blast
    then show "(0 < mActiveCount s \<longrightarrow> (\<exists>c<nclients s. cpc (clients s c) = CNotify)) \<and> (mStop s \<longrightarrow> destroyer s = DNotify)"
      using assms(2) unfolding inv_sleep_def by cases (blast, simp)
  qed
  then show ?thesis using Worker assms by simp
next
  case Destroyer
  have "inv_sleep (destroy_step s)"
    unfolding inv_sleep_def destroy_step_const
  proof (intro allI impI)
    fix u assume "workers (destroy_step s) u = WSleep"
    note w = destroy_step_sleep [OF this]
    then have o: "0 < mActiveCount s \<longrightarrow> (\<exists>c<nclients s. cpc (clients s c) = CNotify)" "mStop s \<longrightarrow> destroyer s = DNotify"
      using assms(2) unfolding inv_sleep_def by blast+
    moreover have "mStop (destroy_step s) \<longrightarrow> destroyer (destroy_step s) = DNotify"
      using w o(2) assms(1) by (cases "destroyer s = DWait") (auto simp: inv_stop_def)
    ultimately show "(0 < mActiveCount s \<longrightarrow> (\<exists>c<nclients s. cpc (clients s c) = CNotify)) \<and>
      (mStop (destroy_step s) \<longrightarrow> destroyer (destroy_step s) = DNotify)" by blast
  qed
  then show ?thesis using Destroyer by simp
qed

section \<open>The invariant\<close>

definition pool_inv :: "ThreadPool \<Rightarrow> bool" where
  "pool_inv s \<longleftrightarrow> inv_client s \<and> inv_slot s \<and> inv_count s \<and> inv_flag s \<and> inv_work s \<and> inv_poll s \<and> inv_fn s \<and> inv_stop s \<and> inv_sleep s"

lemma pool_invD:
  assumes "pool_inv s"
  shows "inv_client s" "inv_slot s" "inv_count s" "inv_flag s" "inv_work s" "inv_poll s" "inv_fn s" "inv_stop s" "inv_sleep s"
  using assms unfolding pool_inv_def by blast+

lemma pool_inv_step: "pool_inv s \<Longrightarrow> pool_inv (pool_step x s)"
  unfolding pool_inv_def
  by (intro conjI inv_client_step inv_slot_step inv_count_step inv_flag_step inv_work_step inv_poll_step inv_fn_step inv_stop_step inv_sleep_step)
    simp_all

lemma pool_inv_start: "0 < n \<Longrightarrow> pool_inv (new_ThreadPool n scripts)"
proof -
  assume n: "0 < n"
  show ?thesis
    unfolding pool_inv_def
  proof (intro conjI)
    let ?s = "new_ThreadPool n scripts"
    show "inv_client ?s" using n by (simp add: inv_client_def new_ThreadPool_def new_Runtime_def)
    show "inv_slot ?s" by (simp add: inv_slot_def new_ThreadPool_def new_Runtime_def slot_of_def)
    show "inv_count ?s" by (simp add: inv_count_def new_ThreadPool_def new_Runtime_def is_active_def)
    show "inv_flag ?s" by (simp add: inv_flag_def new_ThreadPool_def)
    show "inv_work ?s" by (simp add: inv_work_def new_ThreadPool_def)
    show "inv_poll ?s" by (simp add: inv_poll_def new_ThreadPool_def)
    show "inv_fn ?s" by (simp add: inv_fn_def new_ThreadPool_def new_Runtime_def)
    show "inv_stop ?s" by (simp add: inv_stop_def new_ThreadPool_def)
    show "inv_sleep ?s" by (simp add: inv_sleep_def new_ThreadPool_def)
  qed
qed

interpretation pool: fair_system pool_step pool_inv
  by unfold_locales (rule pool_inv_step)

lemma pool_reach_inv: "pool_reach (new_ThreadPool n scripts) s \<Longrightarrow> 0 < n \<Longrightarrow> pool_inv s"
  by (induction rule: pool_reach.induct) (simp_all add: pool_inv_start pool_inv_step)

end
