(* ===== verification/Pool_Log.thy ===== *)
theory Pool_Log
  imports Pool_Inv "HOL-Library.Multiset"
begin

text \<open>
  What \<open>enqueue\<close> runs: the calls in the log and those that are still owed make up the indices of the task, in
  every state; when \<open>enqueue\<close> returns nothing is owed.
\<close>

declare mset_upt [simp del]

section \<open>Striding\<close>

lemma filter_mod_skip:
  assumes "0 < (n::nat)"
  shows "filter (\<lambda>u. u mod n = v mod n) [Suc v..<w] = filter (\<lambda>u. u mod n = v mod n) [v + n..<w]"
proof -
  have "filter (\<lambda>u. u mod n = v mod n) [Suc v..<min w (v + n)] = []"
  proof -
    have "u mod n \<noteq> v mod n" if "v < u" "u < v + n" for u
    proof
      assume "u mod n = v mod n"
      then have "(u - v) mod n = 0" using that(1) by (simp add: mod_eq_dvd_iff_nat)
      then show False using that by (auto simp: dvd_eq_mod_eq_0 [symmetric] dest: dvd_imp_le)
    qed
    then show ?thesis by (auto simp: filter_empty_conv)
  qed
  moreover have "[Suc v..<w] = [Suc v..<min w (v + n)] @ [v + n..<w]"
  proof (cases "v + n \<le> w")
    case True
    then have "[Suc v..<v + n + (w - (v + n))] = [Suc v..<v + n] @ [v + n..<v + n + (w - (v + n))]" using assms by (intro upt_add_eq_append) simp
    then show ?thesis using True by (simp add: min_def)
  qed simp
  ultimately show ?thesis by simp
qed

lemma stride_loop_filter: "0 < n \<Longrightarrow> stride_loop n w v = filter (\<lambda>u. u mod n = v mod n) [v..<w]"
proof (induction n w v rule: stride_loop.induct)
  case (1 n w v)
  show ?case
  proof (cases "v < w")
    case True
    then have "stride_loop n w (v + n) = filter (\<lambda>u. u mod n = v mod n) [v + n..<w]" using 1 by simp
    then show ?thesis
      using True 1(2) filter_mod_skip [OF 1(2), of v w] by (subst stride_loop.simps) (simp add: upt_conv_Cons)
  qed (simp add: stride_loop.simps)
qed

lemma stride_start: "t < n \<Longrightarrow> stride_loop n w t = filter (\<lambda>u. u mod n = t) [0..<w]"
proof -
  assume t: "t < n"
  have none: "filter (\<lambda>u. u mod n = t) [0..<min w t] = []" using t by (auto simp: filter_empty_conv)
  have "[0..<w] = [0..<min w t] @ [t..<w]"
  proof (cases "t \<le> w")
    case True
    then show ?thesis using upt_add_eq_append [of 0 t "w - t"] by (simp add: min_def)
  qed simp
  then show ?thesis using t none stride_loop_filter [of n w t] by simp
qed

lemma sum_filter_mod: "0 < (n::nat) \<Longrightarrow> (\<Sum>t<n. mset (filter (\<lambda>u. u mod n = t) xs)) = mset xs"
proof (induction xs)
  case (Cons x xs)
  have "(\<Sum>t<n. mset (filter (\<lambda>u. u mod n = t) (x # xs))) = (\<Sum>t<n. (if t = x mod n then {#x#} else {#}) + mset (filter (\<lambda>u. u mod n = t) xs))"
    by (rule sum.cong) auto
  also have "\<dots> = {#x#} + mset xs" using Cons by (simp add: sum.distrib)
  finally show ?case by simp
qed simp

text \<open>The parts of the threads together are all indices.\<close>

lemma sum_calls_strided: "0 < n \<Longrightarrow> (\<Sum>t<n. mset (calls (Strided c e w n) t)) = mset [0..<w]"
  unfolding sum_filter_mod [of n "[0..<w]", symmetric] by (rule sum.cong) (simp_all add: stride_start)

lemma sum_calls_direct: "(\<Sum>t<n. mset (calls (Direct c e) t)) = mset [0..<n]"
  by (simp add: mset_upt lessThan_atLeast0)

section \<open>What is owed\<close>

fun sizes :: "command list \<Rightarrow> nat list" where
  "sizes [] = []"
| "sizes (Enqueue n # cs) = n # sizes cs"
| "sizes (_ # cs) = sizes cs"

definition logged :: "ThreadPool \<Rightarrow> nat \<Rightarrow> nat \<Rightarrow> nat multiset" where
  "logged s c e = mset (map (\<lambda>(c, e, v). v) (filter (\<lambda>(d, i, v). d = c \<and> i = e) (ran s)))"

text \<open>What the worker still has to call for a slot.\<close>

fun left_pc :: "nat \<Rightarrow> worker_pc \<Rightarrow> nat list \<Rightarrow> nat list" where
  "left_pc k (WRun i js) vs = (if i = k then js else vs)"
| "left_pc k (WClear i) vs = (if i = k then [] else vs)"
| "left_pc k _ vs = vs"

definition left_for :: "ThreadPool \<Rightarrow> nat \<Rightarrow> nat \<Rightarrow> nat list" where
  "left_for s k t = (if mFlag s k t then left_pc k (workers s t) (calls (mTaskFn s k) t) else [])"

fun owed_of :: "client_pc \<Rightarrow> task_fn \<Rightarrow> (nat \<Rightarrow> nat list) \<Rightarrow> nat multiset" where
  "owed_of (CSeq v n) f W = mset [v..<n]"
| "owed_of (CTest n) f W = mset [0..<n]"
| "owed_of (CStore n) f W = mset [0..<n]"
| "owed_of (CSet i w) f W = mset (calls f 0) + (\<Sum>t\<in>{1..<i}. mset (W t)) + (\<Sum>t\<in>{i..<w}. mset (calls f t))"
| "owed_of (CRun js w) f W = mset js + (\<Sum>t\<in>{1..<w}. mset (W t))"
| "owed_of (CPoll i w) f W = (\<Sum>t\<in>{1..<w}. mset (W t))"
| "owed_of _ f W = {#}"

fun busy :: "client_pc \<Rightarrow> bool" where
  "busy (CSeq v n) \<longleftrightarrow> True"
| "busy (CTest n) \<longleftrightarrow> True"
| "busy (CStore n) \<longleftrightarrow> True"
| "busy pc \<longleftrightarrow> in_call pc"

abbreviation index_of :: "ThreadPool \<Rightarrow> nat \<Rightarrow> nat" where
  "index_of s c \<equiv> the (mTaskIndex (clients s c))"

definition owed :: "ThreadPool \<Rightarrow> nat \<Rightarrow> nat multiset" where
  "owed s c = owed_of (cpc (clients s c)) (mTaskFn s (index_of s c)) (left_for s (index_of s c))"

lemma owed_of_cong:
  "(in_call pc \<Longrightarrow> f = g) \<Longrightarrow> (\<And>t. started pc t \<Longrightarrow> W t = V t) \<Longrightarrow> owed_of pc f W = owed_of pc g V"
  by (cases pc) (auto intro!: sum.cong)

lemma sum_take:
  assumes "t \<in> A" "finite A" "W t = v # js"
  shows "(\<Sum>u\<in>A. mset (W u)) = add_mset v (\<Sum>u\<in>A. mset ((W(t := js)) u))"
proof -
  have "(\<Sum>u\<in>A. mset (W u)) = mset (W t) + (\<Sum>u\<in>A - {t}. mset (W u))" using assms(1,2) by (rule sum.remove [rotated])
  moreover have "(\<Sum>u\<in>A. mset ((W(t := js)) u)) = mset js + (\<Sum>u\<in>A - {t}. mset ((W(t := js)) u))"
    using sum.remove [OF assms(2,1), of "\<lambda>u. mset ((W(t := js)) u)"] by simp
  moreover have "(\<Sum>u\<in>A - {t}. mset ((W(t := js)) u)) = (\<Sum>u\<in>A - {t}. mset (W u))" by (rule sum.cong) auto
  ultimately show ?thesis using assms(3) by simp
qed

lemma owed_of_take: "started pc t \<Longrightarrow> W t = v # js \<Longrightarrow> owed_of pc f W = add_mset v (owed_of pc f (W(t := js)))"
proof (cases pc)
  case (CSet i w)
  assume "started pc t" "W t = v # js"
  then show ?thesis using CSet sum_take [of t "{1..<i}" W v js] by simp
next
  case (CRun ks w)
  assume "started pc t" "W t = v # js"
  then show ?thesis using CRun sum_take [of t "{1..<w}" W v js] by simp
next
  case (CPoll i w)
  assume "started pc t" "W t = v # js"
  then show ?thesis using CPoll sum_take [of t "{1..<w}" W v js] by simp
qed simp_all

section \<open>The account\<close>

definition account :: "command list list \<Rightarrow> ThreadPool \<Rightarrow> nat \<Rightarrow> bool" where
  "account scripts s c \<longleftrightarrow>
     (let e = call_no (clients s c); b = busy (cpc (clients s c)); total = sizes (scripts ! c)
      in (\<forall>i<e. logged s c i = mset [0..<total ! i]) \<and> (\<forall>i>e. logged s c i = {#}) \<and>
         (if b then logged s c e + owed s c = mset [0..<total ! e] else logged s c e = {#}) \<and>
         e \<le> length total \<and> (b \<longrightarrow> e < length total) \<and> sizes (commands (clients s c)) = drop (if b then e + 1 else e) total)"

lemma logged_same: "ran s' = ran s \<Longrightarrow> logged s' c e = logged s c e"
  by (simp add: logged_def)

lemma logged_snoc: "ran s' = ran s @ [(d, i, v)] \<Longrightarrow> logged s' c e = logged s c e + (if d = c \<and> i = e then {#v#} else {#})"
  by (simp add: logged_def)

lemma left_for_put [simp]: "left_for (s\<lparr>clients := x\<rparr>) = left_for s" "left_for (s\<lparr>ran := y\<rparr>) = left_for s"
  by (simp_all add: left_for_def fun_eq_iff)

lemma left_for_cong:
  "mFlag s' k t = mFlag s k t \<Longrightarrow> mTaskFn s' k = mTaskFn s k \<Longrightarrow>
   workers s' t = workers s t \<or> workers s t = WSleep \<and> workers s' t = WWait \<Longrightarrow> left_for s' k t = left_for s k t"
  by (auto simp: left_for_def)

text \<open>An account depends on the client, the log of its calls and, while it is in \<open>enqueue\<close>, on its slot.\<close>

lemma account_same:
  assumes "account scripts s c" "clients s' c = clients s c" "\<And>e. logged s' c e = logged s c e"
    and "in_call (cpc (clients s c)) \<Longrightarrow> mTaskFn s' (index_of s c) = mTaskFn s (index_of s c)"
    and "\<And>t. started (cpc (clients s c)) t \<Longrightarrow> left_for s' (index_of s c) t = left_for s (index_of s c) t"
  shows "account scripts s' c"
proof -
  have e: "owed s' c = owed s c" unfolding owed_def assms(2) by (rule owed_of_cong) (use assms(4,5) in simp_all)
  show ?thesis using assms(1) unfolding account_def assms(2,3) e .
qed

section \<open>A worker's step\<close>

lemma worker_step_left:
  assumes "inv_work s"
  shows "(ran (worker_step t s) = ran s \<and> (\<forall>k u. left_for (worker_step t s) k u = left_for s k u)) \<or>
    (\<exists>i v js. workers s t = WRun i (v # js) \<and> mFlag s i t \<and> left_for s i t = v # js \<and>
      ran (worker_step t s) = ran s @ [(fst (caller (mTaskFn s i)), snd (caller (mTaskFn s i)), v)] \<and>
      left_for (worker_step t s) i = (left_for s i)(t := js) \<and> (\<forall>k. k \<noteq> i \<longrightarrow> left_for (worker_step t s) k = left_for s k))"
proof (cases "workers s t")
  case (WTest i)
  then show ?thesis by (auto simp: worker_step_def left_for_def fun_eq_iff)
next
  case (WRun i js)
  then have f: "mFlag s i t" using assms unfolding inv_work_def by blast
  show ?thesis using WRun f by (cases js) (auto simp: worker_step_def left_for_def log_call_def fun_eq_iff)
next
  case (WClear i)
  then show ?thesis by (auto simp: worker_step_def left_for_def fun_eq_iff)
qed (auto simp: worker_step_def left_for_def fun_eq_iff)

lemma account_worker:
  assumes "pool_inv s" "c < nclients s" "account scripts s c"
  shows "account scripts (worker_step t s) c"
  using worker_step_left [OF pool_invD(5) [OF assms(1)], of t]
proof (elim disjE conjE exE)
  assume "ran (worker_step t s) = ran s" "\<forall>k u. left_for (worker_step t s) k u = left_for s k u"
  then show ?thesis by (intro account_same [OF assms(3)]) (simp_all add: logged_def)
next
  fix i v js
  assume w: "mFlag s i t" "left_for s i t = v # js" "ran (worker_step t s) = ran s @ [(fst (caller (mTaskFn s i)), snd (caller (mTaskFn s i)), v)]"
    "left_for (worker_step t s) i = (left_for s i)(t := js)" "\<forall>k. k \<noteq> i \<longrightarrow> left_for (worker_step t s) k = left_for s k"
  note inv = pool_invD [OF assms(1)]
  obtain d where d: "d < nclients s" "slot_of (clients s d) = Some i" "started (cpc (clients s d)) t"
    using inv(4) w(1) unfolding inv_flag_def by blast
  then have b: "in_call (cpc (clients s d))" "busy (cpc (clients s d))" by (cases "cpc (clients s d)"; simp)+
  have f: "caller (mTaskFn s i) = (d, call_no (clients s d))" using inv(7) d(1,2) b(1) unfolding inv_fn_def by blast
  have l: "logged (worker_step t s) x e = logged s x e + (if d = x \<and> call_no (clients s d) = e then {#v#} else {#})" for x e
    using logged_snoc [OF w(3)] f by simp
  show ?thesis
  proof (cases "c = d")
    case True
    have i: "index_of s c = i" using d(2) True by (auto simp: slot_of_def split: if_splits)
    have "owed s c = add_mset v (owed (worker_step t s) c)"
      unfolding owed_def worker_step_const i w(4) using owed_of_take [of "cpc (clients s c)" t "left_for s i" v js "mTaskFn s i"] d(3) w(2) True by simp
    then have "logged (worker_step t s) c (call_no (clients s c)) + owed (worker_step t s) c = logged s c (call_no (clients s c)) + owed s c"
      using l True by simp
    moreover have "logged (worker_step t s) c e = logged s c e" if "e \<noteq> call_no (clients s c)" for e using l that True by simp
    ultimately show ?thesis using assms(3) b(2) True unfolding account_def Let_def worker_step_const by simp
  next
    case False
    have "left_for (worker_step t s) (index_of s c) = left_for s (index_of s c)" if "started (cpc (clients s c)) u" for u
    proof -
      have "slot_of (clients s c) = Some (index_of s c)"
        using that inv_clientD [OF inv(1) assms(2)] by (cases "cpc (clients s c)") (auto simp: slot_of_def)
      then have "index_of s c \<noteq> i" using inv_slotD [OF inv(2) d(1,2)] assms(2) False by auto
      then show ?thesis using w(5) by simp
    qed
    then show ?thesis using l False by (intro account_same [OF assms(3)]) simp_all
  qed
qed

section \<open>A client's step\<close>

lemma account_idle:
  assumes "account scripts s c" "\<not> busy (cpc (clients s c))" "\<not> busy (cpc (clients s' c))" "ran s' = ran s"
    "call_no (clients s' c) = call_no (clients s c)" "sizes (commands (clients s' c)) = sizes (commands (clients s c))"
  shows "account scripts s' c"
  using assms unfolding account_def Let_def logged_def by simp

lemma account_start:
  assumes "account scripts s c" "\<not> busy (cpc (clients s c))" "commands (clients s c) = Enqueue n # cs" "ran s' = ran s"
    "clients s' c = (clients s c)\<lparr>commands := cs, cpc := pc\<rparr>" "pc = CSeq 0 n \<or> pc = CTest n"
  shows "account scripts s' c"
proof -
  have d: "n # sizes cs = drop (call_no (clients s c)) (sizes (scripts ! c))" using assms(1-3) by (simp add: account_def Let_def)
  then have l: "call_no (clients s c) < length (sizes (scripts ! c))" by (metis drop_all list.distinct(1) not_le)
  then have e: "sizes (scripts ! c) ! call_no (clients s c) = n" "sizes cs = drop (call_no (clients s c) + 1) (sizes (scripts ! c))"
    using d [folded Cons_nth_drop_Suc [OF l]] by simp_all
  have "busy pc" "owed s' c = mset [0..<n]" using assms(5,6) by (auto simp: owed_def)
  then show ?thesis using assms(1,2,4,5) l e unfolding account_def Let_def logged_def by simp
qed

lemma account_busy:
  assumes "account scripts s c" "busy (cpc (clients s c))" "clients s' c = (clients s c)\<lparr>cpc := pc\<rparr>" "busy pc"
    "\<And>e. e \<noteq> call_no (clients s c) \<Longrightarrow> logged s' c e = logged s c e"
    "logged s' c (call_no (clients s c)) + owed s' c = logged s c (call_no (clients s c)) + owed s c"
  shows "account scripts s' c"
  using assms unfolding account_def Let_def by simp

lemma account_finish:
  assumes "account scripts s c" "busy (cpc (clients s c))" "owed s c = {#}" "clients s' c = finish_call (clients s c)" "ran s' = ran s"
  shows "account scripts s' c"
proof -
  have "logged s c i = mset [0..<sizes (scripts ! c) ! i]" if "i < call_no (clients s c) + 1" for i
    using that assms(1-3) unfolding account_def Let_def by (cases "i = call_no (clients s c)") simp_all
  moreover have "logged s' c = logged s c" using assms(5) by (simp add: logged_def fun_eq_iff)
  moreover have "\<not> busy (cpc (clients s' c))" "call_no (clients s' c) = call_no (clients s c) + 1"
    "commands (clients s' c) = commands (clients s c)" unfolding assms(4) by (simp_all add: finish_call_def)
  ultimately show ?thesis using assms(1,2) unfolding account_def Let_def by simp
qed

lemma account_client_idle:
  assumes "c < nclients s" "account scripts s c" "\<not> busy (cpc (clients s c))"
  shows "account scripts (client_step c s) c"
proof (cases "cpc (clients s c) = CIdle \<and> (\<exists>n cs. commands (clients s c) = Enqueue n # cs)")
  case True
  then obtain n cs where cs: "commands (clients s c) = Enqueue n # cs" by blast
  show ?thesis
    by (rule account_start [OF assms(2,3) cs, where pc = "if 1 \<ge> n \<or> mTaskIndex (clients s c) = None then CSeq 0 n else CTest n"])
      (use True cs in \<open>simp_all add: client_step_def command_step_def enqueue_def Let_def\<close>)
next
  case False
  show ?thesis
  proof (rule account_idle [OF assms(2,3)])
    have b: "cpc (clients s c) \<in> {CIdle, CBegin, CNotify, CDeactive}" using assms(3) by (cases "cpc (clients s c)") simp_all
    show "\<not> busy (cpc (clients (client_step c s) c))" "ran (client_step c s) = ran s"
      "call_no (clients (client_step c s) c) = call_no (clients s c)" "sizes (commands (clients (client_step c s) c)) = sizes (commands (clients s c))"
      using b False by (auto simp: client_defs case_prod_beta split: list.splits command.splits option.splits if_splits)
  qed
qed

lemma left_for_set:
  assumes "inv_work s" "\<not> mFlag s k i"
  shows "left_for (put c r (s\<lparr>mFlag := (mFlag s)(k := (mFlag s k)(i := True))\<rparr>)) k = (left_for s k)(i := calls (mTaskFn s k) i)"
proof -
  have "workers s i \<noteq> WRun k js" "workers s i \<noteq> WClear k" for js using assms unfolding inv_work_def by blast+
  then have "left_pc k (workers s i) vs = vs" for vs by (cases "workers s i") auto
  then show ?thesis by (auto simp: left_for_def fun_eq_iff)
qed

lemma owed_store:
  assumes "1 \<le> mNumberThread s" "1 < n" "mTaskIndex (clients s c) = Some k" "cpc (clients s c) = CStore n"
  shows "owed (store_task c n k s) c = mset [0..<n]"
proof -
  have "{..<Suc m} = insert 0 {1..<Suc m}" for m by auto
  then have first: "(\<Sum>t<Suc m. F t) = F 0 + (\<Sum>t\<in>{1..<Suc m}. F t)" for F :: "nat \<Rightarrow> nat multiset" and m by simp
  have whole: "0 < w \<Longrightarrow> F 0 + (\<Sum>t\<in>{1..<w}. F t) = (\<Sum>t<w. F t)" for F :: "nat \<Rightarrow> nat multiset" and w
    using first [of F "w - 1"] by simp
  let ?e = "call_no (clients s c)" and ?N = "mNumberThread s"
  have "mset (calls (Strided c ?e n ?N) 0) + (\<Sum>t\<in>{1..<?N}. mset (calls (Strided c ?e n ?N) t)) = mset [0..<n]"
    using assms(1) whole [of ?N "\<lambda>t. mset (calls (Strided c ?e n ?N) t)"] sum_calls_strided [of ?N c ?e n] by simp
  moreover have "mset (calls (Direct c ?e) 0) + (\<Sum>t\<in>{1..<n}. mset (calls (Direct c ?e) t)) = mset [0..<n]"
    unfolding sum_calls_direct [of c ?e n, symmetric] by (rule whole) (use assms(2) in simp)
  ultimately show ?thesis
    using assms(3,4) by (simp add: owed_def store_task_def Let_def del: calls.simps sum_multiset_singleton)
qed

lemma account_client:
  assumes "pool_inv s" "c < nclients s" "account scripts s c"
  shows "account scripts (client_step c s) c"
proof (cases "busy (cpc (clients s c))")
  case False
  then show ?thesis by (rule account_client_idle [OF assms(2,3)])
next
  case b: True
  note inv = pool_invD [OF assms(1)]
  note ok = inv_clientD [OF inv(1) assms(2)]
  let ?s = "client_step c s" and ?e = "call_no (clients s c)" and ?k = "index_of s c"
  have step: "?s = enqueue_step c s" using b by (cases "cpc (clients s c)") (simp_all add: client_step_def)
  have slot: "slot_of (clients s c) = Some ?k" if "mTaskIndex (clients s c) \<noteq> None" using that b by (cases "cpc (clients s c)") (auto simp: slot_of_def)
  have other: "logged ?s c e = logged s c e" if "ran ?s = ran s \<or> (\<exists>v. ran ?s = ran s @ [(c, ?e, v)])" "e \<noteq> ?e" for e
    using that logged_snoc [of ?s s] by (auto simp: logged_def)
  have none: "\<not> mFlag s ?k t" if "mTaskIndex (clients s c) \<noteq> None" "\<not> started (cpc (clients s c)) t" for t
  proof
    assume "mFlag s ?k t"
    then obtain d where d: "d < nclients s" "slot_of (clients s d) = Some ?k" "started (cpc (clients s d)) t"
      using inv(4) unfolding inv_flag_def by blast
    then show False using inv_slotD [OF inv(2) d(1,2)] assms(2) slot [OF that(1)] that(2) by blast
  qed
  show ?thesis
  proof (cases "cpc (clients s c)")
    case (CSeq v n)
    show ?thesis
    proof (cases "v < n")
      case True
      have "mset [v..<n] = add_mset v (mset [Suc v..<n])" using True by (simp add: upt_conv_Cons)
      moreover have r: "ran ?s = ran s @ [(c, ?e, v)]" using CSeq True by (simp add: step enqueue_step_def log_call_def Let_def)
      ultimately show ?thesis
        using CSeq True other logged_snoc [OF r, of c ?e]
        by (intro account_busy [OF assms(3) b, where pc = "CSeq (v + 1) n"]) (simp_all add: step enqueue_step_def owed_def log_call_def Let_def)
    next
      case False
      then show ?thesis
        using CSeq by (intro account_finish [OF assms(3) b]) (simp_all add: step enqueue_step_def owed_def Let_def)
    qed
  next
    case (CTest n)
    then show ?thesis
      using other by (intro account_busy [OF assms(3) b, where pc = "if mActiveCount s = 0 then CSeq 0 n else CStore n"])
        (simp_all add: step enqueue_step_def owed_def logged_def Let_def)
  next
    case (CStore n)
    then have i: "mTaskIndex (clients s c) = Some ?k" "1 < n" using ok by auto
    have "owed (store_task c n ?k s) c = mset [0..<n]"
      using inv(1) CStore i by (intro owed_store) (simp_all add: inv_client_def)
    moreover have "ran ?s = ran s" using CStore by (simp add: step enqueue_step_def store_task_def Let_def)
    ultimately show ?thesis
      using CStore i other by (intro account_busy [OF assms(3) b, where pc = "CSet 1 (if n > mNumberThread s then mNumberThread s else n)"])
        (simp_all add: step enqueue_step_def store_task_def Let_def owed_def logged_def)
  next
    case (CSet i w)
    then have k: "mTaskIndex (clients s c) = Some ?k" "i \<le> w" "1 \<le> i" using ok by auto
    show ?thesis
    proof (cases "i < w")
      case True
      have "\<not> mFlag s ?k i" by (rule none) (use ok CSet in auto)
      note set = left_for_set [OF inv(5) this]
      have f: "?s = put c ((clients s c)\<lparr>cpc := CSet (i + 1) w\<rparr>) (s\<lparr>mFlag := (mFlag s)(?k := (mFlag s ?k)(i := True))\<rparr>)"
        using CSet True by (simp add: step enqueue_step_def Let_def)
      have "(\<Sum>t\<in>{1..<Suc i}. mset (((left_for s ?k)(i := calls (mTaskFn s ?k) i)) t)) = (\<Sum>t\<in>{1..<i}. mset (left_for s ?k t)) + mset (calls (mTaskFn s ?k) i)"
      proof -
        have "{1..<Suc i} = insert i {1..<i}" using k(3) by auto
        then show ?thesis by (simp add: add.commute)
      qed
      moreover have "(\<Sum>t\<in>{i..<w}. mset (calls (mTaskFn s ?k) t)) = mset (calls (mTaskFn s ?k) i) + (\<Sum>t\<in>{Suc i..<w}. mset (calls (mTaskFn s ?k) t))"
        using True by (simp add: sum.atLeast_Suc_lessThan)
      ultimately have "owed ?s c = owed s c"
        unfolding owed_def f using CSet k set by simp
      then show ?thesis
        using CSet other by (intro account_busy [OF assms(3) b, where pc = "CSet (i + 1) w"]) (simp_all add: f logged_def)
    next
      case False
      then have "i = w" using k(2) by simp
      then show ?thesis
        using CSet by (intro account_busy [OF assms(3) b, where pc = "CRun (calls (mTaskFn s ?k) 0) w"])
          (simp_all add: step enqueue_step_def owed_def logged_def Let_def)
    qed
  next
    case (CRun js w)
    have "slot_of (clients s c) = Some ?k" by (rule slot) (use ok CRun in auto)
    then have f: "caller (mTaskFn s ?k) = (c, ?e)" by (rule inv_fnD [OF inv(7) assms(2)]) (simp add: CRun)
    show ?thesis
    proof (cases js)
      case Nil
      then show ?thesis
        using CRun by (intro account_busy [OF assms(3) b, where pc = "CPoll 1 w"])
          (simp_all add: step enqueue_step_def owed_def logged_def Let_def)
    next
      case (Cons v vs)
      have r: "ran ?s = ran s @ [(c, ?e, v)]" using CRun Cons f by (simp add: step enqueue_step_def log_call_def Let_def)
      then show ?thesis
        using CRun Cons other logged_snoc [OF r, of c ?e]
        by (intro account_busy [OF assms(3) b, where pc = "CRun vs w"])
          (simp_all add: step enqueue_step_def owed_def log_call_def Let_def)
    qed
  next
    case (CPoll i w)
    then have k: "mTaskIndex (clients s c) = Some ?k" "1 \<le> i" using ok by auto
    show ?thesis
    proof (cases "i < w")
      case True
      then show ?thesis
        using CPoll by (intro account_busy [OF assms(3) b, where pc = "if mFlag s ?k i then CPoll 1 w else CPoll (i + 1) w"])
          (simp_all add: step enqueue_step_def owed_def logged_def Let_def)
    next
      case False
      have "left_for s ?k t = []" if "t \<in> {1..<w}" for t
      proof -
        have "\<not> mFlag s ?k t" using inv(6) assms(2) slot k(1) CPoll that False unfolding inv_poll_def by force
        then show ?thesis by (simp add: left_for_def)
      qed
      then have "owed s c = {#}" using CPoll by (simp add: owed_def)
      then show ?thesis
        using CPoll False by (intro account_finish [OF assms(3) b]) (simp_all add: step enqueue_step_def Let_def)
    qed
  qed (use b in simp_all)
qed

lemma client_step_ran:
  assumes "inv_client s" "inv_fn s" "c < nclients s"
  shows "ran (client_step c s) = ran s \<or> (\<exists>v. ran (client_step c s) = ran s @ [(c, call_no (clients s c), v)])"
proof (cases "\<exists>v js w. cpc (clients s c) = CRun (v # js) w")
  case True
  then obtain v js w where r: "cpc (clients s c) = CRun (v # js) w" by blast
  moreover have "caller (mTaskFn s (index_of s c)) = (c, call_no (clients s c))"
    using assms(2,3) inv_clientD [OF assms(1,3)] r unfolding inv_fn_def by (auto simp: slot_of_def)
  ultimately show ?thesis by (simp add: client_step_def enqueue_step_def log_call_def Let_def)
next
  case False
  then show ?thesis by (auto simp: client_defs case_prod_beta split: client_pc.split list.split command.split option.split)
qed

text \<open>A client's step does not touch another one's account: their slots differ.\<close>

lemma account_client_other:
  assumes "pool_inv s" "c < nclients s" "d < nclients s" "d \<noteq> c" "account scripts s d"
  shows "account scripts (client_step c s) d"
proof (rule account_same [OF assms(5)])
  note inv = pool_invD [OF assms(1)]
  have slot: "slot_of (clients s d) = Some (index_of s d)" if "in_call (cpc (clients s d))"
    using that inv_clientD [OF inv(1) assms(3)] by (cases "cpc (clients s d)") (auto simp: slot_of_def)
  have apart: "slot_of (clients s c) \<noteq> Some (index_of s d)" if "in_call (cpc (clients s d))"
    using inv_slotD [OF inv(2) assms(3) slot [OF that]] assms(2,4) by blast
  show "clients (client_step c s) d = clients s d" by (rule client_step_other [OF assms(4)])
  show "logged (client_step c s) d e = logged s d e" for e
    using client_step_ran [OF inv(1,7) assms(2)] logged_snoc [of "client_step c s" s] assms(4) by (auto simp: logged_def)
  show fn: "mTaskFn (client_step c s) (index_of s d) = mTaskFn s (index_of s d)" if "in_call (cpc (clients s d))"
    using client_step_fn [of c s] apart [OF that] inv_clientD [OF inv(1) assms(2)] by (auto simp: slot_of_def)
  fix t assume t: "started (cpc (clients s d)) t"
  then have i: "in_call (cpc (clients s d))" by (cases "cpc (clients s d)") simp_all
  have "mFlag (client_step c s) (index_of s d) t = mFlag s (index_of s d) t"
    using client_step_flag [of c s] apart [OF i] inv_clientD [OF inv(1) assms(2)] by (auto simp: slot_of_def)
  then show "left_for (client_step c s) (index_of s d) t = left_for s (index_of s d) t"
    using fn [OF i] client_step_workers [of c s t] by (intro left_for_cong) auto
qed

section \<open>In every state\<close>

lemma account_step:
  assumes "pool_inv s" "c < nclients s" "account scripts s c"
  shows "account scripts (pool_step x s) c"
proof (cases x)
  case (Client d)
  then show ?thesis
    using account_client [OF assms] account_client_other [OF assms(1) _ assms(2) _ assms(3), of d] assms(3) by (cases "c = d") auto
next
  case (Worker t)
  then show ?thesis using account_worker [OF assms] assms(3) by simp
next
  case Destroyer
  have "left_for (destroy_step s) k t = left_for s k t" for k t using destroy_step_workers [of s t] by (intro left_for_cong) auto
  then show ?thesis using Destroyer by (intro account_same [OF assms(3)]) (simp_all add: logged_def)
qed

lemma account_start_state: "c < length scripts \<Longrightarrow> account scripts (new_ThreadPool n scripts) c"
  by (simp add: account_def new_ThreadPool_def new_Runtime_def logged_def)

lemma pool_reach_nclients: "pool_reach (new_ThreadPool n scripts) s \<Longrightarrow> nclients s = length scripts"
proof (induction rule: pool_reach.induct)
  case (move s x)
  then show ?case by (cases x) simp_all
qed (simp add: new_ThreadPool_def)

lemma pool_reach_account:
  "pool_reach (new_ThreadPool n scripts) s \<Longrightarrow> 0 < n \<Longrightarrow> c < length scripts \<Longrightarrow> account scripts s c"
proof (induction rule: pool_reach.induct)
  case (move s x)
  then show ?case using account_step [OF pool_reach_inv [OF move(1,3)]] pool_reach_nclients [OF move(1)] by simp
qed (simp add: account_start_state)

lemma finished_calls:
  assumes "pool_reach (new_ThreadPool n scripts) s" "0 < n" "c < length scripts" "e < call_no (clients s c)"
  shows "e < length (sizes (scripts ! c))" "logged s c e = mset [0..<sizes (scripts ! c) ! e]"
  using pool_reach_account [OF assms(1-3)] assms(4) unfolding account_def Let_def by auto

lemma all_calls_finished:
  assumes "pool_reach (new_ThreadPool n scripts) s" "0 < n" "c < length scripts" "client_done (clients s c)"
  shows "call_no (clients s c) = length (sizes (scripts ! c))"
  using pool_reach_account [OF assms(1-3)] assms(4) unfolding account_def Let_def client_done_def by auto

end
