(* ===== verification/Pool_Fair.thy ===== *)
theory Pool_Fair
  imports Pool_Inv
begin

text \<open>
  Under a fair schedule every call of \<open>enqueue\<close> returns, every client ends, and the destructor returns with
  all workers gone. The argument: a flag that is set is cleared by its worker, who is not asleep for good;
  so a client that waits for the flags goes on; when the last client has ended the workers see the stop.
\<close>

lemma pool_step_const [simp]: "nclients (pool_step y s) = nclients s" "mNumberThread (pool_step y s) = mNumberThread s"
  by (cases y; simp)+

lemma pool_step_client: "y \<noteq> Client c \<Longrightarrow> clients (pool_step y s) c = clients s c"
  by (cases y) (auto simp: client_step_other)

section \<open>A flag that is set is cleared\<close>

lemma flagged:
  assumes "pool_inv s" "mFlag s k t"
  shows "k < MAX_TASKS" "1 \<le> t" "t < mNumberThread s" "0 < mActiveCount s" "\<not> mStop s"
proof -
  note i = pool_invD [OF assms(1)]
  obtain c where c: "c < nclients s" "slot_of (clients s c) = Some k" "started (cpc (clients s c)) t"
    using i(4) assms(2) unfolding inv_flag_def by blast
  show "k < MAX_TASKS" using inv_slotD [OF i(2) c(1,2)] by simp
  note p = inv_clientD [OF i(1) c(1)]
  show "1 \<le> t" "t < mNumberThread s" using c(3) p by (cases "cpc (clients s c)"; simp)+
  have "is_active (clients s c)" using c(3) p by (cases "cpc (clients s c)") (simp_all add: is_active_def)
  then have "{c. c < nclients s \<and> is_active (clients s c)} \<noteq> {}" using c(1) by blast
  then show "0 < mActiveCount s" using i(3) by (simp add: inv_count_def card_gt_0_iff)
  have "\<not> client_done (clients s c)" using c(3) by (cases "cpc (clients s c)") (simp_all add: client_done_def)
  then show "\<not> mStop s" using i(8) c(1) unfolding inv_stop_def by blast
qed

lemma pool_step_workers:
  assumes "y \<noteq> Worker t"
  shows "workers (pool_step y s) t = workers s t \<or> workers s t = WSleep \<and> workers (pool_step y s) t = WWait"
proof (cases y)
  case (Worker u)
  then show ?thesis using assms worker_step_other [of t u s] by auto
qed (use client_step_workers [of _ s t] destroy_step_workers [of s t] in auto)

lemma flag_awake: "leads_to pool_step pool_inv (\<lambda>s. mFlag s k t) (\<lambda>s. mFlag s k t \<and> workers s t \<noteq> WSleep \<or> \<not> mFlag s k t)"
proof (rule pool.leads_cases [where R = "\<lambda>s. workers s t = WSleep"])
  let ?Q = "\<lambda>s. mFlag s k t \<and> workers s t \<noteq> WSleep \<or> \<not> mFlag s k t"
  have "leads_to pool_step pool_inv (\<lambda>s. c < nclients s \<and> cpc (clients s c) = CNotify) ?Q" for c
  proof (rule pool.ensures [where x = "Client c"])
    fix s y assume s: "pool_inv s" "c < nclients s \<and> cpc (clients s c) = CNotify"
    have q: "?Q (pool_step (Client c) s)" using s by (auto simp: client_step_def notify_all_def Let_def)
    then show "?Q (pool_step (Client c) s)" .
    show "(c < nclients (pool_step y s) \<and> cpc (clients (pool_step y s) c) = CNotify) \<or> ?Q (pool_step y s)"
      using q s pool_step_client [of y c s] by (cases "y = Client c") auto
  qed
  then have "leads_to pool_step pool_inv (\<lambda>s. \<exists>c. c < nclients s \<and> cpc (clients s c) = CNotify) ?Q" by (rule pool.leads_ex)
  then show "leads_to pool_step pool_inv (\<lambda>s. mFlag s k t \<and> workers s t = WSleep) ?Q"
  proof (rule pool.leads_weaken)
    fix s assume s: "pool_inv s" "mFlag s k t \<and> workers s t = WSleep"
    then show "\<exists>c. c < nclients s \<and> cpc (clients s c) = CNotify"
      using flagged(4) [of s k t] pool_invD(9) [OF s(1)] unfolding inv_sleep_def by blast
  qed
  show "leads_to pool_step pool_inv (\<lambda>s. mFlag s k t \<and> \<not> workers s t = WSleep) ?Q" by (rule pool.leads_imp) simp
qed

text \<open>How far a worker is from clearing its flag of slot \<open>k\<close>.\<close>

definition ahead :: "nat \<Rightarrow> nat \<Rightarrow> nat" where
  "ahead k i = (if i \<le> k then 3 * (k - i) else 3 * (k + 3 - i) + 3 * k + 3)"

fun worker_rank :: "nat \<Rightarrow> worker_pc \<Rightarrow> nat \<times> nat" where
  "worker_rank k WStopTest = (3 * k + 4, 0)"
| "worker_rank k WActiveTest = (3 * k + 3, 0)"
| "worker_rank k (WTest i) = (ahead k i + 2, 0)"
| "worker_rank k (WRun i js) = (ahead k i + 1, length js)"
| "worker_rank k (WClear i) = (ahead k i, 0)"
| "worker_rank k WWait = (3 * k + 5, 0)"
| "worker_rank k WSleep = (0, 0)"
| "worker_rank k WDone = (0, 0)"

abbreviation rank_less :: "((nat \<times> nat) \<times> nat \<times> nat) set" where
  "rank_less \<equiv> less_than <*lex*> less_than"

lemma ahead_next: "i \<noteq> k \<Longrightarrow> i < MAX_TASKS \<Longrightarrow> k < MAX_TASKS \<Longrightarrow> ahead k (Suc i) + 2 < ahead k i"
  by (auto simp: ahead_def MAX_TASKS_def)

lemma worker_step_rank:
  assumes s: "pool_inv s" and f: "mFlag s k t" and w: "workers s t \<noteq> WSleep"
  shows "\<not> mFlag (pool_step (Worker t) s) k t \<or>
    mFlag (pool_step (Worker t) s) k t \<and> workers (pool_step (Worker t) s) t \<noteq> WSleep \<and>
      (worker_rank k (workers (pool_step (Worker t) s) t), worker_rank k (workers s t)) \<in> rank_less"
proof -
  note fl = flagged [OF s f] and i = pool_invD [OF s]
  have step: "pool_step (Worker t) s = worker_step t s" using fl by simp
  have task: "j < MAX_TASKS \<and> mFlag s j t" if "workers s t = WRun j js \<or> workers s t = WClear j" for j js
    using that i(5) flagged(1) [OF s] unfolding inv_work_def by blast
  have d: "workers s t \<noteq> WDone" using fl(5) i(8) unfolding inv_stop_def by blast
  show ?thesis
  proof (cases "workers s t")
    case (WTest j)
    then show ?thesis
      using fl(1) f ahead_next [of j k] unfolding step
      by (cases "j = k") (auto simp: worker_step_def ahead_def MAX_TASKS_def)
  next
    case (WRun j js)
    then show ?thesis using f unfolding step by (cases js) (auto simp: worker_step_def log_call_def)
  next
    case (WClear j)
    then have "j < MAX_TASKS" using task by blast
    then show ?thesis
      using WClear fl(1) f ahead_next [of j k] unfolding step by (cases "j = k") (auto simp: worker_step_def)
  qed (use fl f w d in \<open>auto simp: worker_step_def ahead_def\<close>)
qed

lemma flag_cleared: "leads_to pool_step pool_inv (\<lambda>s. mFlag s k t) (\<lambda>s. \<not> mFlag s k t)"
proof -
  let ?P = "\<lambda>s. mFlag s k t \<and> workers s t \<noteq> WSleep" and ?f = "\<lambda>s. worker_rank k (workers s t)"
  have "leads_to pool_step pool_inv ?P (\<lambda>s. \<not> mFlag s k t)"
  proof (rule pool.ensures_wf [where f = ?f and r = rank_less and x = "Worker t"])
    show "wf rank_less" by (intro wf_lex_prod wf_less_than)
    fix s y assume s: "pool_inv s" "?P s"
    note w = worker_step_rank [OF s(1) conjunct1 [OF s(2)] conjunct2 [OF s(2)]]
    then show "\<not> mFlag (pool_step (Worker t) s) k t \<or> (?f (pool_step (Worker t) s), ?f s) \<in> rank_less" by blast
    assume "\<not> \<not> mFlag (pool_step y s) k t"
    then show "?P (pool_step y s) \<and> (?f (pool_step y s) = ?f s \<or> (?f (pool_step y s), ?f s) \<in> rank_less)"
      using w s(2) pool_step_workers [of y t s] by (cases "y = Worker t") auto
  qed
  moreover have "leads_to pool_step pool_inv (\<lambda>s. \<not> mFlag s k t) (\<lambda>s. \<not> mFlag s k t)" by (rule pool.leads_imp)
  ultimately have "leads_to pool_step pool_inv (\<lambda>s. ?P s \<or> \<not> mFlag s k t) (\<lambda>s. \<not> mFlag s k t)"
    unfolding leads_to_def by blast
  then show ?thesis by (rule pool.leads_trans [OF flag_awake])
qed

section \<open>A client that waits goes on\<close>

definition polls :: "nat \<Rightarrow> nat \<Rightarrow> nat \<Rightarrow> ThreadPool \<Rightarrow> bool" where
  "polls c k w s \<longleftrightarrow> c < nclients s \<and> slot_of (clients s c) = Some k \<and> (\<exists>i. cpc (clients s c) = CPoll i w)"

definition clear_below :: "nat \<Rightarrow> nat \<Rightarrow> ThreadPool \<Rightarrow> bool" where
  "clear_below k j s \<longleftrightarrow> (\<forall>t. 1 \<le> t \<longrightarrow> t < j \<longrightarrow> \<not> mFlag s k t)"

definition waits :: "nat \<Rightarrow> ThreadPool \<Rightarrow> bool" where
  "waits c s \<longleftrightarrow> (\<exists>i w. cpc (clients s c) = CPoll i w)"

lemma polls_step:
  assumes "polls c k w s"
  shows "polls c k w (pool_step y s) \<or> \<not> waits c (pool_step y s)"
proof (cases "y = Client c")
  case True
  then show ?thesis
    using assms by (auto simp: polls_def waits_def client_step_def enqueue_step_def finish_call_def slot_of_def Let_def split: if_splits)
next
  case False
  then show ?thesis using assms pool_step_client [OF False] by (simp add: polls_def)
qed

lemma clear_step:
  assumes "pool_inv s" "polls c k w s" "clear_below k j s"
  shows "clear_below k j (pool_step y s)"
proof -
  note i = pool_invD [OF assms(1)]
  have c: "c < nclients s" "slot_of (clients s c) = Some k" "\<nexists>i w. cpc (clients s c) = CSet i w" using assms(2) by (auto simp: polls_def)
  have "\<not> mFlag (pool_step y s) k t" if "\<not> mFlag s k t" for t
  proof (cases y)
    case (Client d)
    then show ?thesis using client_step_flag_slot [OF i(1,2) _ c(1,2) that, of d] c(3) that by auto
  next
    case (Worker u)
    then show ?thesis using worker_step_flag [of u s] that by (auto split: if_splits)
  qed (use that in simp)
  then show ?thesis using assms(3) unfolding clear_below_def by blast
qed

lemma poll_clears:
  "leads_to pool_step pool_inv (polls c k w) (\<lambda>s. polls c k w s \<and> clear_below k j s \<or> \<not> waits c s)"
proof (induction j)
  case 0
  show ?case by (rule pool.leads_imp) (simp add: clear_below_def)
next
  case (Suc j)
  let ?P = "\<lambda>j s. polls c k w s \<and> clear_below k j s" and ?W = "\<lambda>s. \<not> waits c s"
  have keep: "?P j (pool_step y s) \<or> ?W (pool_step y s)" if "pool_inv s" "?P j s" for s y
    using polls_step [of c k w s y] clear_step [OF that(1), of c k w j y] that(2) by blast
  have "leads_to pool_step pool_inv (\<lambda>s. mFlag s k j \<and> ?P j s) (\<lambda>s. \<not> mFlag s k j \<and> ?P j s \<or> ?W s)"
    by (rule pool.leads_unless [OF flag_cleared]) (use keep in blast)
  then have 1: "leads_to pool_step pool_inv (\<lambda>s. ?P j s \<and> mFlag s k j) (\<lambda>s. ?P (Suc j) s \<or> ?W s)"
    by (rule pool.leads_weaken) (auto simp: clear_below_def less_Suc_eq)
  have "leads_to pool_step pool_inv (?P j) (\<lambda>s. ?P (Suc j) s \<or> ?W s)"
    by (rule pool.leads_cases [OF 1], rule pool.leads_imp) (auto simp: clear_below_def less_Suc_eq)
  moreover have "leads_to pool_step pool_inv ?W (\<lambda>s. ?P (Suc j) s \<or> ?W s)" by (rule pool.leads_imp) blast
  ultimately have "leads_to pool_step pool_inv (\<lambda>s. ?P j s \<or> ?W s) (\<lambda>s. ?P (Suc j) s \<or> ?W s)" unfolding leads_to_def by blast
  then show ?case by (rule pool.leads_trans [OF Suc.IH])
qed

definition to_poll :: "client_pc \<Rightarrow> nat" where
  "to_poll pc = (case pc of CPoll i w \<Rightarrow> w - i | _ \<Rightarrow> 0)"

lemma poll_ends: "leads_to pool_step pool_inv (polls c k w) (\<lambda>s. \<not> waits c s)"
proof -
  let ?P = "\<lambda>s. polls c k w s \<and> clear_below k w s" and ?W = "\<lambda>s. \<not> waits c s" and ?f = "\<lambda>s. to_poll (cpc (clients s c))"
  have "leads_to pool_step pool_inv ?P ?W"
  proof (rule pool.ensures_wf [where f = ?f and r = less_than and x = "Client c"])
    show "wf less_than" by simp
    fix s y assume s: "pool_inv s" "?P s" "\<not> ?W s"
    obtain i where i: "c < nclients s" "slot_of (clients s c) = Some k" "cpc (clients s c) = CPoll i w" using s(2) by (auto simp: polls_def)
    have p: "1 \<le> i" "mTaskIndex (clients s c) = Some k"
      using inv_clientD [OF pool_invD(1) [OF s(1)] i(1)] i(2,3) by (auto simp: slot_of_def)
    have "i < w \<Longrightarrow> \<not> mFlag s k i" using p(1) s(2) by (simp add: clear_below_def)
    then show h: "?W (pool_step (Client c) s) \<or> (?f (pool_step (Client c) s), ?f s) \<in> less_than"
      using i p by (auto simp: waits_def to_poll_def client_step_def enqueue_step_def finish_call_def Let_def)
    assume w: "\<not> ?W (pool_step y s)"
    have "?P (pool_step y s)" using w polls_step [of c k w s y] clear_step [OF s(1), of c k w w y] s(2) by blast
    moreover have "?f (pool_step y s) = ?f s \<or> (?f (pool_step y s), ?f s) \<in> less_than"
      using h w pool_step_client [of y c s] by (cases "y = Client c") auto
    ultimately show "?P (pool_step y s) \<and> (?f (pool_step y s) = ?f s \<or> (?f (pool_step y s), ?f s) \<in> less_than)" ..
  qed
  moreover have "leads_to pool_step pool_inv ?W ?W" by (rule pool.leads_imp)
  ultimately have "leads_to pool_step pool_inv (\<lambda>s. ?P s \<or> ?W s) ?W" unfolding leads_to_def by blast
  then show ?thesis by (rule pool.leads_trans [OF poll_clears])
qed

section \<open>Every client ends\<close>

fun pc_rank :: "client_pc \<Rightarrow> nat \<times> nat" where
  "pc_rank CIdle = (0, 0)"
| "pc_rank CBegin = (2, 0)"
| "pc_rank CNotify = (1, 0)"
| "pc_rank CDeactive = (1, 0)"
| "pc_rank (CSeq v n) = (1, Suc n - v)"
| "pc_rank (CTest n) = (6, 0)"
| "pc_rank (CStore n) = (5, 0)"
| "pc_rank (CSet i w) = (4, Suc w - i)"
| "pc_rank (CRun js w) = (3, length js)"
| "pc_rank (CPoll i w) = (2, 0)"

definition client_rank :: "CPURuntime \<Rightarrow> nat \<times> nat \<times> nat" where
  "client_rank r = (length (commands r), pc_rank (cpc r))"

abbreviation client_less :: "((nat \<times> nat \<times> nat) \<times> nat \<times> nat \<times> nat) set" where
  "client_less \<equiv> less_than <*lex*> less_than <*lex*> less_than"

lemma client_step_rank:
  "\<not> client_done (clients s c) \<Longrightarrow> \<not> waits c s \<Longrightarrow> (client_rank (clients (client_step c s) c), client_rank (clients s c)) \<in> client_less"
  by (cases "cpc (clients s c)")
    (auto simp: client_defs client_rank_def client_done_def waits_def case_prod_beta split: list.split command.split option.split)

lemma client_step_waits:
  "waits c s \<Longrightarrow> client_rank (clients (client_step c s) c) = client_rank (clients s c) \<or>
    (client_rank (clients (client_step c s) c), client_rank (clients s c)) \<in> client_less"
  by (auto simp: client_defs client_rank_def waits_def split: if_splits)

lemma client_ends: "leads_to pool_step pool_inv (\<lambda>s. c < nclients s) (\<lambda>s. client_done (clients s c))"
proof (rule pool.leads_wf [where f = "\<lambda>s. client_rank (clients s c)" and r = client_less])
  show "wf client_less" by (intro wf_lex_prod wf_less_than)
  fix v
  let ?P = "\<lambda>s. c < nclients s \<and> client_rank (clients s c) = v"
    and ?Q = "\<lambda>s. c < nclients s \<and> (client_rank (clients s c), v) \<in> client_less \<or> client_done (clients s c)"
  have own: "?P (pool_step (Client c) s) \<or> ?Q (pool_step (Client c) s)" "\<not> waits c s \<Longrightarrow> ?Q (pool_step (Client c) s)" if "?P s" for s
    using that client_step_rank [of s c] client_step_waits [of c s] client_done_step [of s c]
    by (cases "waits c s"; cases "client_done (clients s c)"; auto)+
  have step: "?P (pool_step y s) \<or> ?Q (pool_step y s)" if "?P s" for y s
    using own(1) [OF that] that pool_step_client [of y c s] by (cases "y = Client c") auto
  have 1: "leads_to pool_step pool_inv (\<lambda>s. ?P s \<and> \<not> waits c s) ?Q"
  proof (rule pool.ensures [where x = "Client c"])
    fix s y assume s: "pool_inv s" "?P s \<and> \<not> waits c s"
    then show q: "?Q (pool_step (Client c) s)" using own(2) by blast
    have "?P (pool_step y s) \<and> \<not> waits c (pool_step y s)" if "y \<noteq> Client c"
      using s(2) pool_step_client [OF that, of s] by (simp add: waits_def)
    then show "(?P (pool_step y s) \<and> \<not> waits c (pool_step y s)) \<or> ?Q (pool_step y s)" using q by blast
  qed
  have "leads_to pool_step pool_inv (\<lambda>s. polls c k w s \<and> ?P s) (\<lambda>s. \<not> waits c s \<and> ?P s \<or> ?Q s)" for k w
    by (rule pool.leads_unless [OF poll_ends]) (use step in blast)
  then have "leads_to pool_step pool_inv (\<lambda>s. \<exists>k w. polls c k w s \<and> ?P s) (\<lambda>s. \<not> waits c s \<and> ?P s \<or> ?Q s)"
    by (intro pool.leads_ex)
  moreover have "leads_to pool_step pool_inv (\<lambda>s. \<not> waits c s \<and> ?P s \<or> ?Q s) ?Q"
    using 1 pool.leads_imp [of ?Q ?Q] unfolding leads_to_def by blast
  ultimately have "leads_to pool_step pool_inv (\<lambda>s. \<exists>k w. polls c k w s \<and> ?P s) ?Q" by (rule pool.leads_trans)
  then have 2: "leads_to pool_step pool_inv (\<lambda>s. ?P s \<and> waits c s) ?Q"
  proof (rule pool.leads_weaken)
    fix s assume s: "pool_inv s" "?P s \<and> waits c s"
    then show "\<exists>k w. polls c k w s \<and> ?P s"
      using inv_clientD [OF pool_invD(1) [OF s(1)], of c] by (auto simp: polls_def waits_def slot_of_def)
  qed
  show "leads_to pool_step pool_inv ?P ?Q" by (rule pool.leads_cases [OF 2 1])
qed

lemma clients_end:
  "leads_to pool_step pool_inv (\<lambda>s. nclients s = n) (\<lambda>s. nclients s = n \<and> (\<forall>c<n. client_done (clients s c)))"
proof (rule pool.leads_all)
  show "leads_to pool_step pool_inv (\<lambda>s. nclients s = n) (\<lambda>s. client_done (clients s c))" if "c < n" for c
    by (rule pool.leads_weaken [OF client_ends [of c]]) (use that in simp_all)
  show "client_done (clients (pool_step y s) c)" if "client_done (clients s c)" for c s y
    using that client_done_step [OF that] pool_step_client [of y c s] by (cases "y = Client c") auto
qed simp

section \<open>The destructor\<close>

text \<open>Commands in which every \<open>Begin\<close> is closed by an \<open>End\<close>.\<close>

fun closes :: "nat \<Rightarrow> command list \<Rightarrow> bool" where
  "closes d [] \<longleftrightarrow> d = 0"
| "closes d (Begin # cs) \<longleftrightarrow> closes (d + 1) cs"
| "closes d (End # cs) \<longleftrightarrow> closes (d - 1) cs"
| "closes d (Enqueue n # cs) \<longleftrightarrow> closes d cs"

lemma closes_mono: "closes d cs \<Longrightarrow> e \<le> d \<Longrightarrow> closes e cs"
proof (induction d cs arbitrary: e rule: closes.induct)
  case (3 d cs)
  then show ?case by (metis closes.simps(3) diff_le_mono)
qed auto

definition open_of :: "CPURuntime \<Rightarrow> nat" where
  "open_of r = mThreadOpen r + (if cpc r = CBegin \<or> cpc r = CNotify then 1 else 0)"

lemma client_step_closes:
  assumes "pc_ok (mNumberThread s) (cpc (clients s c)) (mTaskIndex (clients s c)) (mThreadOpen (clients s c))"
    and "closes (open_of (clients s c)) (commands (clients s c))"
  shows "closes (open_of (clients (client_step c s) c)) (commands (clients (client_step c s) c))"
proof (cases "cpc (clients s c)")
  case CIdle
  then show ?thesis
    using assms by (auto simp: client_defs open_of_def case_prod_beta split: list.split command.split option.split)
next
  case CBegin
  then show ?thesis
    using assms closes_mono [of 1 "commands (clients s c)" 0] by (auto simp: client_defs open_of_def split: option.split)
qed (use assms in \<open>auto simp: client_defs open_of_def split: list.split\<close>)

definition all_close :: "ThreadPool \<Rightarrow> bool" where
  "all_close s \<longleftrightarrow> (\<forall>c<nclients s. closes (open_of (clients s c)) (commands (clients s c)))"

lemma all_close_step: "pool_inv s \<Longrightarrow> all_close s \<Longrightarrow> all_close (pool_step y s)"
proof -
  assume s: "pool_inv s" "all_close s"
  have "closes (open_of (clients (pool_step y s) c)) (commands (clients (pool_step y s) c))" if "c < nclients s" for c
  proof (cases "y = Client c")
    case True
    then show ?thesis
      using that s client_step_closes [OF inv_clientD [OF pool_invD(1) [OF s(1)] that]] by (simp add: all_close_def)
  next
    case False
    then show ?thesis using that s pool_step_client [OF False, of s] by (simp add: all_close_def)
  qed
  then show ?thesis unfolding all_close_def by simp
qed

text \<open>All clients have ended, and closed what they opened: then nobody is active and no flag is set.\<close>

definition quiet :: "nat \<Rightarrow> ThreadPool \<Rightarrow> bool" where
  "quiet N s \<longleftrightarrow> mNumberThread s = N \<and> (\<forall>c<nclients s. client_done (clients s c) \<and> mThreadOpen (clients s c) = 0)"

lemma quiet_step: "quiet N s \<Longrightarrow> quiet N (pool_step y s)"
proof -
  assume q: "quiet N s"
  have "clients (pool_step y s) c = clients s c" if "c < nclients s" for c
    using q that client_done_step [of s c] pool_step_client [of y c s] by (cases "y = Client c") (simp_all add: quiet_def)
  then show ?thesis using q by (simp add: quiet_def)
qed

lemma quiet_facts:
  assumes "pool_inv s" "quiet N s"
  shows "mActiveCount s = 0" "\<not> mFlag s k t" "workers s t \<noteq> WRun k js" "workers s t \<noteq> WClear k"
proof -
  note i = pool_invD [OF assms(1)]
  have "{c. c < nclients s \<and> is_active (clients s c)} = {}" using assms(2) by (auto simp: quiet_def is_active_def client_done_def)
  then show "mActiveCount s = 0" using i(3) unfolding inv_count_def by (simp only: card.empty)
  then show f: "\<not> mFlag s k t" for k using flagged(4) [OF assms(1)] by fastforce
  show "workers s t \<noteq> WRun k js" "workers s t \<noteq> WClear k" using i(5) f unfolding inv_work_def by blast+
qed

definition past :: "ThreadPool \<Rightarrow> bool" where
  "past s \<longleftrightarrow> destroyer s = DDone \<or> (\<exists>i. destroyer s = DJoin i)"

lemma destroyer_step: "y \<noteq> Destroyer \<Longrightarrow> destroyer (pool_step y s) = destroyer s"
  by (cases y) simp_all

lemma past_step: "past s \<Longrightarrow> past (pool_step y s)"
  using destroyer_step [of y s] by (cases "y = Destroyer") (auto simp: past_def destroy_step_def split: if_splits)

lemma destroyer_starts: "leads_to pool_step pool_inv (quiet N) (\<lambda>s. quiet N s \<and> past s)"
proof (rule pool.ensures_wf [where x = Destroyer and r = less_than and f = "\<lambda>s. case destroyer s of DWait \<Rightarrow> 2 | DNotify \<Rightarrow> 1 | _ \<Rightarrow> (0 :: nat)"])
  show "wf less_than" by simp
  let ?f = "\<lambda>s. case destroyer s of DWait \<Rightarrow> 2 | DNotify \<Rightarrow> 1 | _ \<Rightarrow> (0 :: nat)"
  fix s y assume s: "pool_inv s" "quiet N s" "\<not> (quiet N s \<and> past s)"
  show h: "(quiet N (pool_step Destroyer s) \<and> past (pool_step Destroyer s)) \<or> (?f (pool_step Destroyer s), ?f s) \<in> less_than"
    using s quiet_step [OF s(2), of Destroyer]
    by (cases "destroyer s") (auto simp: past_def destroy_step_def notify_all_def list_all_iff quiet_def)
  assume "\<not> (quiet N (pool_step y s) \<and> past (pool_step y s))"
  then show "quiet N (pool_step y s) \<and> (?f (pool_step y s) = ?f s \<or> (?f (pool_step y s), ?f s) \<in> less_than)"
    using h quiet_step [OF s(2), of y] destroyer_step [of y s] by (cases "y = Destroyer") auto
qed

fun quit_rank :: "worker_pc \<Rightarrow> nat" where
  "quit_rank WStopTest = 1"
| "quit_rank WWait = 2"
| "quit_rank WActiveTest = 3"
| "quit_rank (WTest i) = 4 + (MAX_TASKS - i)"
| "quit_rank _ = 0"

lemma worker_quits:
  assumes "1 \<le> t" "t < N"
  shows "leads_to pool_step pool_inv (\<lambda>s. quiet N s \<and> past s) (\<lambda>s. workers s t = WDone)"
proof (rule pool.ensures_wf [where x = "Worker t" and r = less_than and f = "\<lambda>s. quit_rank (workers s t)"])
  show "wf less_than" by simp
  fix s y assume s: "pool_inv s" "quiet N s \<and> past s" "workers s t \<noteq> WDone"
  note q = quiet_facts [OF s(1) conjunct1 [OF s(2)]]
  have stop: "mStop s" using s(2) pool_invD(8) [OF s(1)] by (auto simp: inv_stop_def past_def)
  then have awake: "workers s t \<noteq> WSleep" using s(2) pool_invD(9) [OF s(1)] by (auto simp: inv_sleep_def past_def)
  have step: "pool_step (Worker t) s = worker_step t s" using assms s(2) by (simp add: quiet_def)
  show h: "workers (pool_step (Worker t) s) t = WDone \<or> (quit_rank (workers (pool_step (Worker t) s) t), quit_rank (workers s t)) \<in> less_than"
    using s(3) awake stop q unfolding step by (cases "workers s t") (auto simp: worker_step_def MAX_TASKS_def)
  assume "workers (pool_step y s) t \<noteq> WDone"
  moreover have "quiet N (pool_step y s) \<and> past (pool_step y s)" using s(2) quiet_step past_step by blast
  ultimately show "(quiet N (pool_step y s) \<and> past (pool_step y s)) \<and>
      (quit_rank (workers (pool_step y s) t) = quit_rank (workers s t) \<or> (quit_rank (workers (pool_step y s) t), quit_rank (workers s t)) \<in> less_than)"
    using h awake pool_step_workers [of y t s] by (cases "y = Worker t") auto
qed

definition joined :: "nat \<Rightarrow> ThreadPool \<Rightarrow> bool" where
  "joined N s \<longleftrightarrow> (quiet N s \<and> past s) \<and> (\<forall>t<N. 1 \<le> t \<longrightarrow> workers s t = WDone)"

lemma worker_done_step: "workers s t = WDone \<Longrightarrow> workers (pool_step y s) t = WDone"
  using pool_step_workers [of y t s] by (cases "y = Worker t") (auto simp: worker_step_def)

lemma workers_quit: "leads_to pool_step pool_inv (\<lambda>s. quiet N s \<and> past s) (joined N)"
  unfolding joined_def
proof (rule pool.leads_all)
  show "leads_to pool_step pool_inv (\<lambda>s. quiet N s \<and> past s) (\<lambda>s. 1 \<le> t \<longrightarrow> workers s t = WDone)" if "t < N" for t
  proof (cases "1 \<le> t")
    case True
    show ?thesis by (rule pool.leads_weaken [OF worker_quits [OF True that]]) simp_all
  next
    case False
    then show ?thesis by (intro pool.leads_imp) simp
  qed
  show "quiet N (pool_step y s) \<and> past (pool_step y s)" if "quiet N s \<and> past s" for s y using that quiet_step past_step by simp
  show "1 \<le> t \<longrightarrow> workers (pool_step y s) t = WDone" if "1 \<le> t \<longrightarrow> workers s t = WDone" for t s y using that worker_done_step by simp
qed

lemma joined_step: "joined N s \<Longrightarrow> joined N (pool_step y s)"
  unfolding joined_def using quiet_step past_step worker_done_step by simp

lemma destroyer_returns: "leads_to pool_step pool_inv (joined N) (\<lambda>s. joined N s \<and> destroyer s = DDone)"
proof (rule pool.ensures_wf [where x = Destroyer and r = less_than and f = "\<lambda>s. case destroyer s of DJoin i \<Rightarrow> Suc N - i | _ \<Rightarrow> 0"])
  show "wf less_than" by simp
  let ?f = "\<lambda>s. case destroyer s of DJoin i \<Rightarrow> Suc N - i | _ \<Rightarrow> 0"
  fix s y assume s: "pool_inv s" "joined N s" "\<not> (joined N s \<and> destroyer s = DDone)"
  then obtain i where i: "1 \<le> i" "destroyer s = DJoin i"
    using pool_invD(8) [OF s(1)] by (auto simp: joined_def past_def inv_stop_def)
  show h: "(joined N (pool_step Destroyer s) \<and> destroyer (pool_step Destroyer s) = DDone) \<or> (?f (pool_step Destroyer s), ?f s) \<in> less_than"
    using s i joined_step [OF s(2), of Destroyer] by (auto simp: destroy_step_def joined_def quiet_def)
  assume "\<not> (joined N (pool_step y s) \<and> destroyer (pool_step y s) = DDone)"
  then show "joined N (pool_step y s) \<and> (?f (pool_step y s) = ?f s \<or> (?f (pool_step y s), ?f s) \<in> less_than)"
    using h joined_step [OF s(2), of y] destroyer_step [of y s] by (cases "y = Destroyer") auto
qed

lemma pool_ends:
  "leads_to pool_step pool_inv (\<lambda>s. nclients s = n \<and> mNumberThread s = N \<and> all_close s) (\<lambda>s. joined N s \<and> destroyer s = DDone)"
proof -
  let ?R = "\<lambda>s. mNumberThread s = N \<and> all_close s"
  have "leads_to pool_step pool_inv (\<lambda>s. nclients s = n \<and> ?R s) (\<lambda>s. (nclients s = n \<and> (\<forall>c<n. client_done (clients s c))) \<and> ?R s \<or> False)"
    by (rule pool.leads_unless [OF clients_end]) (use all_close_step in auto)
  then have "leads_to pool_step pool_inv (\<lambda>s. nclients s = n \<and> ?R s) (quiet N)"
    by (rule pool.leads_weaken) (auto simp: quiet_def all_close_def client_done_def open_of_def)
  from pool.leads_trans [OF pool.leads_trans [OF pool.leads_trans [OF this destroyer_starts] workers_quit] destroyer_returns]
  show ?thesis .
qed

end
