(* ===== verification/Pool_Props.thy ===== *)
theory Pool_Props
  imports Pool_Log Pool_Fair "HOL-Library.Countable"
begin

text \<open>The properties of the thread pool: C5, C17 and C18.\<close>

lemma init_threads:
  assumes "\<forall>p. instances cpuMask = Some p \<longrightarrow> 0 < mNumberThread p"
  shows "case ThreadPool_init numberThread cpuMask instances of (k, pool, instances') \<Rightarrow>
    1 \<le> k \<and> k \<le> int (mNumberThread pool) \<and> instances' cpuMask = Some pool \<and> ThreadPool_init numberThread cpuMask instances' = (k, pool, instances')"
  using assms by (cases "instances cpuMask") (auto simp: ThreadPool_init_def new_ThreadPool_def Let_def)

text \<open>C5: under every interleaving, a call of \<open>enqueue\<close> that has returned has called its task exactly once for
  each index below the size, whether it ran in the caller's thread or on the workers, with more indices than
  threads or fewer.\<close>

theorem enqueue_calls_each_index_once:
  assumes "pool_reach (new_ThreadPool n scripts) s" and "0 < n" and "c < length scripts" and "e < call_no (clients s c)"
  shows "logged s c e = mset [0..<sizes (scripts ! c) ! e]"
  by (rule finished_calls(2) [OF assms])

definition two_clients :: "command list list" where
  "two_clients = [[Begin, Enqueue 3, End], [Enqueue 2]]"

definition two_steps :: "thread list" where
  "two_steps = replicate 7 (Client 0) @ replicate 6 (Worker 1) @ replicate 2 (Client 1) @ replicate 10 (Client 0)"

lemma enqueue_calls_each_index_once_witness:
  "call_no (clients (run pool_step ((!) two_steps) (new_ThreadPool 2 two_clients) (length two_steps)) 0) = 1 \<and>
   logged (run pool_step ((!) two_steps) (new_ThreadPool 2 two_clients) (length two_steps)) 0 0 = mset [0..<3]"
proof -
  let ?s = "run pool_step ((!) two_steps) (new_ThreadPool 2 two_clients) (length two_steps)"
  have r: "pool_reach (new_ThreadPool 2 two_clients) ?s" by (rule pool_run_reach)
  have "call_no (clients ?s 0) = 1" by code_simp
  moreover have "sizes (two_clients ! 0) ! 0 = 3" "0 < length two_clients" by (simp_all add: two_clients_def)
  ultimately show ?thesis
    using enqueue_calls_each_index_once [OF r, of 0 0] by simp
qed

text \<open>C17: a worker that runs a task runs the one of a client whose call of \<open>enqueue\<close> has not returned, so the
  task, which the closure refers to, exists; no other client uses the slot.\<close>

theorem running_task_is_alive:
  assumes "pool_reach (new_ThreadPool n scripts) s" and "0 < n" and "workers s t = WRun k js"
  shows "\<exists>c<length scripts. in_call (cpc (clients s c)) \<and> mTaskIndex (clients s c) = Some k \<and>
    caller (mTaskFn s k) = (c, call_no (clients s c)) \<and> (\<forall>d<length scripts. slot_of (clients s d) = Some k \<longrightarrow> d = c)"
proof -
  note inv = pool_invD [OF pool_reach_inv [OF assms(1,2)]]
  have n: "nclients s = length scripts" by (rule pool_reach_nclients [OF assms(1)])
  have "mFlag s k t" using inv(5) assms(3) unfolding inv_work_def by blast
  then obtain c where c: "c < nclients s" "slot_of (clients s c) = Some k" "started (cpc (clients s c)) t"
    using inv(4) unfolding inv_flag_def by blast
  then have i: "in_call (cpc (clients s c))" "mTaskIndex (clients s c) = Some k"
    by (cases "cpc (clients s c)"; simp add: slot_of_def)+
  have "\<forall>d<nclients s. slot_of (clients s d) = Some k \<longrightarrow> d = c" using inv_slotD [OF inv(2) c(1,2)] by blast
  then show ?thesis using c(1) i inv_fnD [OF inv(7) c(1,2) i(1)] unfolding n by blast
qed

lemma running_task_is_alive_witness:
  "workers (run pool_step ((!) two_steps) (new_ThreadPool 2 two_clients) 10) 1 = WRun 0 [1] \<and>
   (\<exists>c<2. in_call (cpc (clients (run pool_step ((!) two_steps) (new_ThreadPool 2 two_clients) 10) c)))"
proof -
  let ?s = "run pool_step ((!) two_steps) (new_ThreadPool 2 two_clients) 10"
  have w: "workers ?s 1 = WRun 0 [1]" by code_simp
  moreover have "length two_clients = 2" by (simp add: two_clients_def)
  ultimately show ?thesis using running_task_is_alive [OF pool_run_reach _ w] by auto
qed

text \<open>C18: under every fair schedule every call of \<open>enqueue\<close> returns, every client ends, and then the
  destructor returns with all workers gone, when each \<open>onConcurrencyBegin\<close> is closed by an
  \<open>onConcurrencyEnd\<close>; by then all tasks have been called for all their indices.\<close>

theorem pool_terminates:
  assumes "fair sched" and "0 < n" and "\<forall>cs\<in>set scripts. closes 0 cs"
  shows "\<exists>m. let s = run pool_step sched (new_ThreadPool n scripts) m in
    destroyer s = DDone \<and> (\<forall>t. 1 \<le> t \<and> t < n \<longrightarrow> workers s t = WDone) \<and>
    (\<forall>c<length scripts. client_done (clients s c) \<and>
      (\<forall>e<length (sizes (scripts ! c)). logged s c e = mset [0..<sizes (scripts ! c) ! e]))"
proof -
  let ?s0 = "new_ThreadPool n scripts"
  have close: "all_close ?s0" using assms(3) by (simp add: all_close_def open_of_def new_ThreadPool_def new_Runtime_def)
  have "nclients ?s0 = length scripts \<and> mNumberThread ?s0 = n \<and> all_close ?s0" using close by (simp add: new_ThreadPool_def)
  from pool.leads_toD [OF pool_ends assms(1) pool_inv_start [OF assms(2)] this]
  obtain m where m: "joined n (run pool_step sched ?s0 m)" "destroyer (run pool_step sched ?s0 m) = DDone" by blast
  define s where "s = run pool_step sched ?s0 m"
  have r: "pool_reach ?s0 s" unfolding s_def by (rule pool_run_reach)
  have "\<forall>c<length scripts. client_done (clients s c)"
    using m(1) pool_reach_nclients [OF r] unfolding s_def [symmetric] by (simp add: joined_def quiet_def)
  then have "client_done (clients s c) \<and> (\<forall>e<length (sizes (scripts ! c)). logged s c e = mset [0..<sizes (scripts ! c) ! e])"
    if "c < length scripts" for c
    using finished_calls(2) [OF r assms(2) that] all_calls_finished [OF r assms(2) that] that by simp
  moreover have "\<forall>t. 1 \<le> t \<and> t < n \<longrightarrow> workers s t = WDone" using m(1) unfolding s_def [symmetric] by (simp add: joined_def)
  ultimately show ?thesis using m(2) unfolding s_def [symmetric] Let_def by (intro exI [of _ m]) (simp add: s_def)
qed

instance thread :: countable
  by countable_datatype

definition round_sched :: "nat \<Rightarrow> thread" where
  "round_sched m = from_nat (fst (prod_decode m))"

lemma round_sched_fair: "fair round_sched"
  unfolding fair_def
proof (intro allI)
  fix x :: thread and m
  show "\<exists>k\<ge>m. round_sched k = x"
    by (intro exI [of _ "prod_encode (to_nat x, m)"]) (simp add: round_sched_def le_prod_encode_2)
qed

lemma pool_terminates_witness:
  "\<exists>m. destroyer (run pool_step round_sched (new_ThreadPool 2 [[Begin, Enqueue 5, End], [Begin, Enqueue 2, End, Enqueue 3]]) m) = DDone"
  using pool_terminates [OF round_sched_fair, of 2 "[[Begin, Enqueue 5, End], [Begin, Enqueue 2, End, Enqueue 3]]"]
  by (auto simp: Let_def)

end
