(* ===== verification/Sched_Model.thy ===== *)
theory Sched_Model
  imports Shape_Suite
begin

text \<open>
  Which ops of a net a session runs: source/core/Schedule.cpp (\<open>generateScheduleGraph\<close>, \<open>schedule\<close>,
  \<open>getAppropriateType\<close>) and source/utils/InitNet.cpp. A net is the list of its ops and the names of its
  tensors, as far as scheduling reads them; tensors are named by their index.
\<close>

section \<open>Nets\<close>

datatype NodeType = Node_Input | Node_Const | Node_TrainableParam | Node_Other

text \<open>The parameter of an op, as far as scheduling reads it: a constant's blob, with whether it has \<open>uint8s\<close>, and
  an input's \<open>dims\<close>, \<open>dtype\<close> and \<open>dformat\<close>.\<close>

datatype NodeMain = NM_Blob Blob bool | NM_Input "int list option" DataType MNN_DATA_FORMAT | NM_None

record NetOp =
  op_name :: "string option"
  op_kind :: NodeType
  op_main :: NodeMain
  inputIndexes :: "nat list option"
  outputIndexes :: "nat list option"

datatype NetUsage = Usage_INFERENCE | Usage_TRAIN | Usage_INFERENCE_STATIC

text \<open>\<open>TensorDescribe\<close>: the tensor, its blob, the origins of its regions. Quantization is left out.\<close>

record TensorDescribe =
  des_index :: nat
  des_blob :: "Blob option"
  des_regions :: "nat list option"

record Net =
  oplists :: "NetOp list"
  tensorName :: "string list"
  net_usage :: NetUsage
  outputName :: "string list option"
  extraTensorDescribe :: "TensorDescribe list option"

definition index_list :: "nat list option \<Rightarrow> nat list" where
  "index_list is = (case is of None \<Rightarrow> [] | Some is \<Rightarrow> is)"

abbreviation op_ins :: "NetOp \<Rightarrow> nat list" where
  "op_ins x \<equiv> index_list (inputIndexes x)"

abbreviation op_outs :: "NetOp \<Rightarrow> nat list" where
  "op_outs x \<equiv> index_list (outputIndexes x)"

definition needComputeOp :: "NetOp \<Rightarrow> bool" where
  "needComputeOp x \<longleftrightarrow> op_kind x \<noteq> Node_Input \<and> op_kind x \<noteq> Node_Const \<and> op_kind x \<noteq> Node_TrainableParam"

section \<open>\<open>generateScheduleGraph\<close>\<close>

datatype PathMode = Mode_Op | Mode_Tensor

record Path =
  path_inputs :: "string list"
  path_outputs :: "string list"
  path_mode :: PathMode

text \<open>\<open>tensorMask\<close>: 0 not set, 1 output, 2 input; \<open>opMask\<close>: 1 for an op that is used.\<close>

record masks =
  tensorMask :: "nat list"
  opMask :: "nat list"

definition mask_output :: "nat \<Rightarrow> masks \<Rightarrow> masks" where
  "mask_output t m = (if tensorMask m ! t \<noteq> 2 then m\<lparr>tensorMask := (tensorMask m)[t := 1]\<rparr> else m)"

definition mask_input :: "nat \<Rightarrow> masks \<Rightarrow> masks" where
  "mask_input t m = m\<lparr>tensorMask := (tensorMask m)[t := 2]\<rparr>"

definition mask_op :: "nat \<Rightarrow> masks \<Rightarrow> masks" where
  "mask_op i m = m\<lparr>opMask := (opMask m)[i := 1]\<rparr>"

definition start_tensor_mode :: "Path \<Rightarrow> Net \<Rightarrow> masks \<Rightarrow> masks" where
  "start_tensor_mode p net =
     fold (\<lambda>i m.
        let name = tensorName net ! i;
            m = (if name \<in> set (path_outputs p) then m\<lparr>tensorMask := (tensorMask m)[i := 1]\<rparr> else m)
        in if name \<in> set (path_inputs p) then mask_input i m else m) [0..<length (tensorName net)]"

definition start_op_mode :: "Path \<Rightarrow> Net \<Rightarrow> masks \<Rightarrow> masks" where
  "start_op_mode p net =
     fold (\<lambda>i m.
        let x = oplists net ! i
        in case op_name x of None \<Rightarrow> m
           | Some name \<Rightarrow>
               let m = (if name \<in> set (path_outputs p)
                        then fold mask_output (op_ins x) (fold mask_output (op_outs x) (mask_op i m)) else m)
               in if name \<in> set (path_inputs p) then fold mask_input (op_outs x) (mask_op i m) else m)
       [0..<length (oplists net)]"

text \<open>One pass over the ops; the first component is \<open>change\<close>.\<close>

definition visit_op :: "Net \<Rightarrow> nat \<Rightarrow> bool \<times> masks \<Rightarrow> bool \<times> masks" where
  "visit_op net i cm =
     (case cm of (change, m) \<Rightarrow>
        if opMask m ! i > 0 then (change, m)
        else
          let x = oplists net ! i;
              hit = list_ex (\<lambda>t. tensorMask m ! t = 1) (op_outs x);
              (change, m) = (if hit then (True, mask_op i m) else (change, m))
          in (change, if opMask m ! i \<noteq> 0 then fold mask_output (op_ins x) m else m))"

definition graph_pass :: "Net \<Rightarrow> masks \<Rightarrow> bool \<times> masks" where
  "graph_pass net m = fold (visit_op net) [0..<length (opMask m)] (False, m)"

definition unused :: "masks \<Rightarrow> nat" where
  "unused m = length (filter (\<lambda>x. x = 0) (opMask m))"

lemma opMask_mask [simp]: "opMask (mask_output t m) = opMask m" "opMask (mask_input t m) = opMask m"
    "opMask (mask_op i m) = (opMask m)[i := 1]" "tensorMask (mask_op i m) = tensorMask m"
  by (simp_all add: mask_output_def mask_input_def mask_op_def)

lemma opMask_fold [simp]: "opMask (fold mask_output ts m) = opMask m" "opMask (fold mask_input ts m) = opMask m"
  by (induction ts arbitrary: m) simp_all

lemma unused_mask: "i < length (opMask m) \<Longrightarrow> opMask m ! i = 0 \<Longrightarrow> unused (mask_op i m) < unused m"
proof -
  assume i: "i < length (opMask m)" "opMask m ! i = 0"
  have "opMask m = take i (opMask m) @ 0 # drop (Suc i) (opMask m)" using i by (metis id_take_nth_drop)
  then have u: "unused m = length (filter (\<lambda>x. x = 0) (take i (opMask m) @ 0 # drop (Suc i) (opMask m)))" unfolding unused_def by (rule arg_cong)
  show ?thesis unfolding u using i by (simp add: unused_def mask_op_def upd_conv_take_nth_drop)
qed

lemma graph_pass_unused:
  assumes "graph_pass net m = (change, m')"
  shows "length (opMask m') = length (opMask m) \<and> unused m' \<le> unused m \<and> (change \<longrightarrow> unused m' < unused m)"
proof -
  have step: "length (opMask m') = length (opMask m) \<and> unused m' \<le> unused m \<and> (c' \<and> \<not> c \<longrightarrow> unused m' < unused m)"
    if "visit_op net i (c, m) = (c', m')" "i < length (opMask m)" for i c c' m m'
  proof (cases "opMask m ! i > 0")
    case True
    then show ?thesis using that(1) by (auto simp: visit_op_def)
  next
    case False
    then show ?thesis using that unused_mask [of i m] by (auto simp: visit_op_def Let_def unused_def split: if_splits)
  qed
  have "fold (visit_op net) is (c, m) = (c', m') \<Longrightarrow> \<forall>i\<in>set is. i < length (opMask m) \<Longrightarrow>
      length (opMask m') = length (opMask m) \<and> unused m' \<le> unused m \<and> (c' \<and> \<not> c \<longrightarrow> unused m' < unused m)" for "is" c c' m m'
  proof (induction "is" arbitrary: c m)
    case (Cons i "is")
    obtain c1 m1 where s: "visit_op net i (c, m) = (c1, m1)" by (metis prod.exhaust)
    from step [OF s] Cons.prems(2) have a: "length (opMask m1) = length (opMask m)" "unused m1 \<le> unused m" "c1 \<and> \<not> c \<Longrightarrow> unused m1 < unused m"
      by simp_all
    from Cons.IH [of c1 m1] Cons.prems s a(1) have b: "length (opMask m') = length (opMask m1)" "unused m' \<le> unused m1"
      "c' \<and> \<not> c1 \<Longrightarrow> unused m' < unused m1" by simp_all
    show ?case using a b by (cases c1) (auto intro: le_less_trans less_le_trans)
  qed simp
  from this [of "[0..<length (opMask m)]" False m change m'] assms show ?thesis unfolding graph_pass_def by simp
qed

function graph_loop :: "Net \<Rightarrow> masks \<Rightarrow> masks" where
  "graph_loop net m = (case graph_pass net m of (change, m') \<Rightarrow> if change then graph_loop net m' else m')"
  by auto
termination by (relation "measure (\<lambda>(net, m). unused m)") (auto dest: graph_pass_unused [OF sym])

declare graph_loop.simps [simp del]

definition start_masks :: "Path \<Rightarrow> Net \<Rightarrow> masks" where
  "start_masks p net =
     (let m = \<lparr>tensorMask = replicate (length (tensorName net)) 0, opMask = replicate (length (oplists net)) 0\<rparr>
      in if path_mode p = Mode_Tensor then start_tensor_mode p net m else start_op_mode p net m)"

definition generateScheduleGraph :: "Path \<Rightarrow> Net \<Rightarrow> NetOp list" where
  "generateScheduleGraph p net =
     (if path_inputs p = [] \<and> path_outputs p = [] then oplists net
      else
        let m = graph_loop net (start_masks p net)
        in map (\<lambda>i. oplists net ! i) (filter (\<lambda>i. opMask m ! i > 0) [0..<length (opMask m)]))"

end
