(* ===== verification/Sched_Graph.thy ===== *)
theory Sched_Graph
  imports Sched_Model
begin

text \<open>
  What \<open>generateScheduleGraph\<close> selects: the ops that lead to a wanted tensor, traced back through the ops
  that make what they read, up to the given tensors.
\<close>

section \<open>Tracing back\<close>

definition net_ok :: "Net \<Rightarrow> bool" where
  "net_ok net \<longleftrightarrow> list_all (\<lambda>x. list_all (\<lambda>t. t < length (tensorName net)) (op_ins x @ op_outs x)) (oplists net)"

inductive traced :: "Net \<Rightarrow> (nat \<Rightarrow> bool) \<Rightarrow> (nat \<Rightarrow> bool) \<Rightarrow> (nat \<Rightarrow> bool) \<Rightarrow> nat \<Rightarrow> bool" for net wanted given start where
  makes_goal: "i < length (oplists net) \<Longrightarrow> \<not> start i \<Longrightarrow> t \<in> set (op_outs (oplists net ! i)) \<Longrightarrow> wanted t \<Longrightarrow> traced net wanted given start i"
| makes_input: "traced net wanted given start j \<Longrightarrow> t \<in> set (op_ins (oplists net ! j)) \<Longrightarrow> \<not> given t \<Longrightarrow>
    i < length (oplists net) \<Longrightarrow> \<not> start i \<Longrightarrow> t \<in> set (op_outs (oplists net ! i)) \<Longrightarrow> traced net wanted given start i"

lemma traced_op: "traced net wanted given start i \<Longrightarrow> i < length (oplists net) \<and> \<not> start i"
  by (induction rule: traced.induct) simp_all

section \<open>The masks\<close>

lemma mask_output_nth: "t < length (tensorMask m) \<Longrightarrow>
    tensorMask (mask_output t m) ! u = (if u = t \<and> tensorMask m ! t \<noteq> 2 then 1 else tensorMask m ! u)"
  by (auto simp: mask_output_def)

lemma length_mask [simp]: "length (tensorMask (mask_output t m)) = length (tensorMask m)"
    "length (tensorMask (mask_input t m)) = length (tensorMask m)"
  by (simp_all add: mask_output_def mask_input_def)

lemma length_fold_mask [simp]: "length (tensorMask (fold mask_output ts m)) = length (tensorMask m)"
    "length (tensorMask (fold mask_input ts m)) = length (tensorMask m)"
  by (induction ts arbitrary: m) simp_all

lemma fold_mask_output_nth: "\<forall>t\<in>set ts. t < length (tensorMask m) \<Longrightarrow>
    tensorMask (fold mask_output ts m) ! u = (if u \<in> set ts \<and> tensorMask m ! u \<noteq> 2 then 1 else tensorMask m ! u)"
  by (induction ts arbitrary: m) (auto simp: mask_output_nth)

lemma fold_mask_input_nth: "\<forall>t\<in>set ts. t < length (tensorMask m) \<Longrightarrow>
    tensorMask (fold mask_input ts m) ! u = (if u \<in> set ts then 2 else tensorMask m ! u)"
  by (induction ts arbitrary: m) (auto simp: mask_input_def)

definition mask_inv :: "Net \<Rightarrow> (nat \<Rightarrow> bool) \<Rightarrow> (nat \<Rightarrow> bool) \<Rightarrow> (nat \<Rightarrow> bool) \<Rightarrow> masks \<Rightarrow> bool" where
  "mask_inv net wanted given start m \<longleftrightarrow>
     length (tensorMask m) = length (tensorName net) \<and> length (opMask m) = length (oplists net) \<and>
     (\<forall>t<length (tensorName net). tensorMask m ! t \<le> 2 \<and> (tensorMask m ! t = 2 \<longleftrightarrow> given t) \<and> (wanted t \<longrightarrow> tensorMask m ! t = 1) \<and>
        (tensorMask m ! t = 1 \<longrightarrow> wanted t \<or> (\<exists>j. traced net wanted given start j \<and> t \<in> set (op_ins (oplists net ! j))))) \<and>
     (\<forall>i<length (oplists net). (start i \<longrightarrow> 0 < opMask m ! i) \<and> (0 < opMask m ! i \<longrightarrow> start i \<or> traced net wanted given start i) \<and>
        (0 < opMask m ! i \<longrightarrow> \<not> start i \<longrightarrow> (\<forall>t\<in>set (op_ins (oplists net ! i)). tensorMask m ! t \<noteq> 0)))"

lemma net_okD: "net_ok net \<Longrightarrow> i < length (oplists net) \<Longrightarrow> t \<in> set (op_ins (oplists net ! i)) \<or> t \<in> set (op_outs (oplists net ! i)) \<Longrightarrow>
    t < length (tensorName net)"
  using nth_mem [of i "oplists net"] unfolding net_ok_def list_all_iff set_append by blast

text \<open>A visit that finds nothing changes nothing; one that finds a wanted tensor takes the op in.\<close>

lemma visit_op_cases:
  assumes "visit_op net i (c, m) = (c', m')" and "i < length (opMask m)"
  obtains (idle) "c' = c" "m' = m" "opMask m ! i > 0 \<or> (\<forall>t\<in>set (op_outs (oplists net ! i)). tensorMask m ! t \<noteq> 1)"
    | (taken) t where "opMask m ! i = 0" "t \<in> set (op_outs (oplists net ! i))" "tensorMask m ! t = 1" "c'"
        "m' = fold mask_output (op_ins (oplists net ! i)) (mask_op i m)"
proof (cases "opMask m ! i > 0")
  case True
  then show thesis using assms(1) idle by (simp add: visit_op_def)
next
  case False
  let ?outs = "op_outs (oplists net ! i)"
  show thesis
  proof (cases "\<exists>t\<in>set ?outs. tensorMask m ! t = 1")
    case True
    then obtain t where t: "t \<in> set ?outs" "tensorMask m ! t = 1" by blast
    have "list_ex (\<lambda>t. tensorMask m ! t = 1) ?outs" using True by (simp add: list_ex_iff)
    then have "c' \<and> m' = fold mask_output (op_ins (oplists net ! i)) (mask_op i m)"
      using assms False by (auto simp: visit_op_def Let_def)
    then show thesis using taken [of t] t False by simp
  next
    case nohit: False
    then have "\<not> list_ex (\<lambda>t. tensorMask m ! t = 1) ?outs" by (simp add: list_ex_iff)
    then have "c' = c" "m' = m" using assms(1) False by (auto simp: visit_op_def Let_def)
    then show thesis using idle nohit by blast
  qed
qed

lemma visit_op_inv:
  assumes ok: "net_ok net" and I: "mask_inv net wanted given start m" and v: "visit_op net i (c, m) = (c', m')" and i: "i < length (oplists net)"
  shows "mask_inv net wanted given start m'"
proof -
  have len: "length (tensorMask m) = length (tensorName net)" "length (opMask m) = length (oplists net)"
    using I by (simp_all add: mask_inv_def)
  have im: "i < length (opMask m)" using i len by simp
  show ?thesis
  proof (rule visit_op_cases [OF v im])
    assume "m' = m"
    then show ?thesis using I by simp
  next
    fix t assume t: "opMask m ! i = 0" "t \<in> set (op_outs (oplists net ! i))" "tensorMask m ! t = 1"
      "m' = fold mask_output (op_ins (oplists net ! i)) (mask_op i m)"
    have tl: "t < length (tensorName net)" using net_okD [OF ok i] t(2) by blast
    have ns: "\<not> start i" using I i t(1) by (auto simp: mask_inv_def)
    have nc: "\<not> given t" using I tl t(3) by (auto simp: mask_inv_def)
    have tr: "traced net wanted given start i"
    proof -
      have "wanted t \<or> (\<exists>j. traced net wanted given start j \<and> t \<in> set (op_ins (oplists net ! j)))"
        using I tl t(3) by (simp add: mask_inv_def)
      then show ?thesis using makes_goal [of i net start t wanted given] makes_input [of net wanted given start _ t i] i ns nc t(2) by blast
    qed
    have ins: "\<forall>u\<in>set (op_ins (oplists net ! i)). u < length (tensorMask (mask_op i m))" using net_okD [OF ok i] len by simp
    have T: "tensorMask m' ! u = (if u \<in> set (op_ins (oplists net ! i)) \<and> tensorMask m ! u \<noteq> 2 then 1 else tensorMask m ! u)" for u
      unfolding t(4) fold_mask_output_nth [OF ins] by simp
    have O: "opMask m' ! j = (if j = i then 1 else opMask m ! j)" for j unfolding t(4) using im by simp
    have "length (tensorMask m') = length (tensorName net)" "length (opMask m') = length (oplists net)" unfolding t(4) using len by simp_all
    then show ?thesis using I tr unfolding mask_inv_def T O by auto
  qed
qed

lemma pass_inv:
  assumes ok: "net_ok net"
  shows "fold (visit_op net) is (c, m) = (c', m') \<Longrightarrow> mask_inv net wanted given start m \<Longrightarrow> \<forall>i\<in>set is. i < length (oplists net) \<Longrightarrow>
    mask_inv net wanted given start m' \<and> (c \<longrightarrow> c') \<and>
    (\<not> c' \<longrightarrow> m' = m \<and> (\<forall>i\<in>set is. opMask m ! i > 0 \<or> (\<forall>t\<in>set (op_outs (oplists net ! i)). tensorMask m ! t \<noteq> 1)))"
proof (induction "is" arbitrary: c m)
  case (Cons i "is")
  obtain c1 m1 where v: "visit_op net i (c, m) = (c1, m1)" by (metis prod.exhaust)
  have i: "i < length (oplists net)" "i < length (opMask m)" using Cons.prems(2,3) by (simp_all add: mask_inv_def)
  have I1: "mask_inv net wanted given start m1" by (rule visit_op_inv [OF ok Cons.prems(2) v i(1)])
  have rest: "fold (visit_op net) is (c1, m1) = (c', m')" using Cons.prems(1) v by simp
  have all: "\<forall>i\<in>set is. i < length (oplists net)" using Cons.prems(3) by simp
  note IH = Cons.IH [OF rest I1 all]
  show ?case by (rule visit_op_cases [OF v i(2)]) (use IH in auto)
qed simp

lemma graph_loop_inv:
  "net_ok net \<Longrightarrow> mask_inv net wanted given start m \<Longrightarrow> mask_inv net wanted given start (graph_loop net m) \<and>
    (\<forall>i<length (oplists net). opMask (graph_loop net m) ! i > 0 \<or> (\<forall>t\<in>set (op_outs (oplists net ! i)). tensorMask (graph_loop net m) ! t \<noteq> 1))"
proof (induction net m rule: graph_loop.induct)
  case (1 net m)
  obtain c m' where p: "graph_pass net m = (c, m')" by (metis prod.exhaust)
  have len: "length (opMask m) = length (oplists net)" using "1.prems"(2) by (simp add: mask_inv_def)
  have r: "mask_inv net wanted given start m'"
    "\<not> c \<Longrightarrow> m' = m \<and> (\<forall>i<length (oplists net). opMask m ! i > 0 \<or> (\<forall>t\<in>set (op_outs (oplists net ! i)). tensorMask m ! t \<noteq> 1))"
    using pass_inv [OF "1.prems"(1) p [unfolded graph_pass_def] "1.prems"(2)] len by auto
  show ?case
  proof (cases c)
    case True
    have "graph_loop net m = graph_loop net m'" using p True by (subst graph_loop.simps) simp
    then show ?thesis using "1.IH" [OF p [symmetric] True "1.prems"(1) r(1)] by simp
  next
    case False
    have "graph_loop net m = m'" using p False by (subst graph_loop.simps) simp
    then show ?thesis using r False by simp
  qed
qed

text \<open>The ops that are used in the end: those that are at the start, and the traced ones.\<close>

lemma graph_loop_traced:
  assumes ok: "net_ok net" and I: "mask_inv net wanted given start m" and i: "i < length (oplists net)"
  shows "opMask (graph_loop net m) ! i > 0 \<longleftrightarrow> start i \<or> traced net wanted given start i"
proof -
  let ?m = "graph_loop net m"
  note fin = graph_loop_inv [OF ok I]
  have J: "mask_inv net wanted given start ?m" using fin by blast
  have closed: "0 < opMask ?m ! i" if "i < length (oplists net)" "t \<in> set (op_outs (oplists net ! i))" "tensorMask ?m ! t = 1" for i t
    using fin that by blast
  have "traced net wanted given start i \<Longrightarrow> 0 < opMask ?m ! i" for i
  proof (induction rule: traced.induct)
    case (makes_goal i t)
    have "t < length (tensorName net)" using net_okD [OF ok makes_goal(1)] makes_goal(3) by blast
    then have "tensorMask ?m ! t = 1" using J makes_goal(4) by (simp add: mask_inv_def)
    then show ?case using closed makes_goal(1,3) by blast
  next
    case (makes_input j t i)
    have t: "t < length (tensorName net)" using net_okD [OF ok makes_input(4)] makes_input(6) by blast
    have j: "j < length (oplists net)" "\<not> start j" using traced_op [OF makes_input(1)] by simp_all
    have "tensorMask ?m ! t \<noteq> 0" "tensorMask ?m ! t \<noteq> 2"
      using J makes_input(2,3) makes_input.IH t j unfolding mask_inv_def by auto
    moreover have "tensorMask ?m ! t \<le> 2" using J t by (simp add: mask_inv_def)
    ultimately have "tensorMask ?m ! t = 1" by simp
    then show ?case using closed makes_input(4,6) by blast
  qed
  then show ?thesis using J i unfolding mask_inv_def by blast
qed

section \<open>The start\<close>

definition named_op :: "Net \<Rightarrow> string list \<Rightarrow> nat \<Rightarrow> bool" where
  "named_op net ns i \<longleftrightarrow> (case op_name (oplists net ! i) of None \<Rightarrow> False | Some name \<Rightarrow> name \<in> set ns)"

text \<open>The tensors where tracing stops, those it starts from, and the ops that are taken by name.\<close>

definition given_tensor :: "Path \<Rightarrow> Net \<Rightarrow> nat \<Rightarrow> bool" where
  "given_tensor p net t \<longleftrightarrow>
     (if path_mode p = Mode_Tensor then tensorName net ! t \<in> set (path_inputs p)
      else \<exists>i<length (oplists net). named_op net (path_inputs p) i \<and> t \<in> set (op_outs (oplists net ! i)))"

definition wanted_tensor :: "Path \<Rightarrow> Net \<Rightarrow> nat \<Rightarrow> bool" where
  "wanted_tensor p net t \<longleftrightarrow> \<not> given_tensor p net t \<and>
     (if path_mode p = Mode_Tensor then tensorName net ! t \<in> set (path_outputs p)
      else \<exists>i<length (oplists net). named_op net (path_outputs p) i \<and>
             t \<in> set (op_ins (oplists net ! i) @ op_outs (oplists net ! i)))"

definition start_op :: "Path \<Rightarrow> Net \<Rightarrow> nat \<Rightarrow> bool" where
  "start_op p net i \<longleftrightarrow> path_mode p = Mode_Op \<and> (named_op net (path_inputs p) i \<or> named_op net (path_outputs p) i)"

abbreviation traced_op_of :: "Path \<Rightarrow> Net \<Rightarrow> nat \<Rightarrow> bool" where
  "traced_op_of p net \<equiv> traced net (wanted_tensor p net) (given_tensor p net) (start_op p net)"

definition no_masks :: "Net \<Rightarrow> masks" where
  "no_masks net = \<lparr>tensorMask = replicate (length (tensorName net)) 0, opMask = replicate (length (oplists net)) 0\<rparr>"

lemma start_tensor_mode_masks:
  "opMask (start_tensor_mode p net (no_masks net)) = replicate (length (oplists net)) 0 \<and>
   length (tensorMask (start_tensor_mode p net (no_masks net))) = length (tensorName net) \<and>
   (\<forall>t<length (tensorName net). tensorMask (start_tensor_mode p net (no_masks net)) ! t =
      (if tensorName net ! t \<in> set (path_inputs p) then 2 else if tensorName net ! t \<in> set (path_outputs p) then 1 else 0))"
proof -
  let ?f = "\<lambda>i m. let name = tensorName net ! i;
            m = (if name \<in> set (path_outputs p) then m\<lparr>tensorMask := (tensorMask m)[i := 1]\<rparr> else m)
        in if name \<in> set (path_inputs p) then mask_input i m else m"
  define Q where "Q n m \<longleftrightarrow> opMask m = replicate (length (oplists net)) 0 \<and> length (tensorMask m) = length (tensorName net) \<and>
        (\<forall>t<length (tensorName net). tensorMask m ! t =
          (if t \<ge> n then 0 else if tensorName net ! t \<in> set (path_inputs p) then 2 else if tensorName net ! t \<in> set (path_outputs p) then 1 else 0))"
    for n and m :: masks
  have "n \<le> length (tensorName net) \<Longrightarrow> Q n (fold ?f [0..<n] (no_masks net))" for n
  proof (induction n)
    case 0
    then show ?case by (simp add: no_masks_def Q_def)
  next
    case (Suc n)
    define m where "m = fold ?f [0..<n] (no_masks net)"
    have "fold ?f [0..<Suc n] (no_masks net) = ?f n m" unfolding m_def by simp
    moreover have "Q n m" using Suc unfolding m_def by simp
    then have "Q (Suc n) (?f n m)" using Suc.prems unfolding Q_def Let_def
      by (auto simp: mask_input_def nth_list_update less_Suc_eq_le not_le)
    ultimately show ?case by simp
  qed
  from this [of "length (tensorName net)"] have "Q (length (tensorName net)) (start_tensor_mode p net (no_masks net))"
    unfolding start_tensor_mode_def by blast
  then show ?thesis unfolding Q_def by simp
qed

lemma start_op_mode_masks:
  assumes ok: "net_ok net"
  shows "length (opMask (start_op_mode p net (no_masks net))) = length (oplists net) \<and>
   length (tensorMask (start_op_mode p net (no_masks net))) = length (tensorName net) \<and>
   (\<forall>i<length (oplists net). opMask (start_op_mode p net (no_masks net)) ! i =
      (if named_op net (path_inputs p) i \<or> named_op net (path_outputs p) i then 1 else 0)) \<and>
   (\<forall>t<length (tensorName net). tensorMask (start_op_mode p net (no_masks net)) ! t =
      (if \<exists>i<length (oplists net). named_op net (path_inputs p) i \<and> t \<in> set (op_outs (oplists net ! i)) then 2
       else if \<exists>i<length (oplists net). named_op net (path_outputs p) i \<and> t \<in> set (op_ins (oplists net ! i) @ op_outs (oplists net ! i)) then 1
       else 0))"
proof -
  let ?f = "\<lambda>i m. let x = oplists net ! i
        in case op_name x of None \<Rightarrow> m
           | Some name \<Rightarrow>
               let m = (if name \<in> set (path_outputs p)
                        then fold mask_output (op_ins x) (fold mask_output (op_outs x) (mask_op i m)) else m)
               in if name \<in> set (path_inputs p) then fold mask_input (op_outs x) (mask_op i m) else m"
  let ?O = "\<lambda>n i. i < n \<and> (named_op net (path_inputs p) i \<or> named_op net (path_outputs p) i)"
  let ?T2 = "\<lambda>n t. \<exists>i<n. named_op net (path_inputs p) i \<and> t \<in> set (op_outs (oplists net ! i))"
  let ?T1 = "\<lambda>n t. \<exists>i<n. named_op net (path_outputs p) i \<and> t \<in> set (op_ins (oplists net ! i) @ op_outs (oplists net ! i))"
  define Q where "Q n m \<longleftrightarrow> length (opMask m) = length (oplists net) \<and> length (tensorMask m) = length (tensorName net) \<and>
        (\<forall>i<length (oplists net). opMask m ! i = (if ?O n i then 1 else 0)) \<and>
        (\<forall>t<length (tensorName net). tensorMask m ! t = (if ?T2 n t then 2 else if ?T1 n t then 1 else 0))" for n and m :: masks
  have "n \<le> length (oplists net) \<Longrightarrow> Q n (fold ?f [0..<n] (no_masks net))" for n
  proof (induction n)
    case 0
    then show ?case by (simp add: no_masks_def Q_def)
  next
    case (Suc n)
    define m where "m = fold ?f [0..<n] (no_masks net)"
    have n: "n < length (oplists net)" using Suc.prems by simp
    have IH: "length (opMask m) = length (oplists net)" "length (tensorMask m) = length (tensorName net)"
      "\<forall>i<length (oplists net). opMask m ! i = (if ?O n i then 1 else 0)"
      "\<forall>t<length (tensorName net). tensorMask m ! t = (if ?T2 n t then 2 else if ?T1 n t then 1 else 0)"
      using Suc unfolding m_def [symmetric] Q_def by simp_all
    have e: "fold ?f [0..<Suc n] (no_masks net) = ?f n m" unfolding m_def by simp
    let ?ins = "op_ins (oplists net ! n)" and ?outs = "op_outs (oplists net ! n)"
    have lt: "\<forall>t\<in>set ?ins. t < length (tensorMask m)" "\<forall>t\<in>set ?outs. t < length (tensorMask m)"
      using net_okD [OF ok n] IH(2) by simp_all
    define m1 where "m1 = (if named_op net (path_outputs p) n then fold mask_output ?ins (fold mask_output ?outs (mask_op n m)) else m)"
    define m2 where "m2 = (if named_op net (path_inputs p) n then fold mask_input ?outs (mask_op n m1) else m1)"
    have f: "?f n m = m2" unfolding m2_def m1_def named_op_def Let_def by (simp split: option.split)
    have T1: "tensorMask m1 ! t = (if named_op net (path_outputs p) n \<and> t \<in> set (?ins @ ?outs) \<and> tensorMask m ! t \<noteq> 2 then 1 else tensorMask m ! t)" for t
      unfolding m1_def using lt by (auto simp: fold_mask_output_nth)
    have T2: "tensorMask m2 ! t = (if named_op net (path_inputs p) n \<and> t \<in> set ?outs then 2 else tensorMask m1 ! t)" for t
      unfolding m2_def m1_def using lt by (auto simp: fold_mask_input_nth)
    have O: "opMask m2 ! i = (if i = n \<and> (named_op net (path_inputs p) n \<or> named_op net (path_outputs p) n) then 1 else opMask m ! i)" for i
      unfolding m2_def m1_def using n IH(1) by auto
    have len: "length (opMask m2) = length (oplists net)" "length (tensorMask m2) = length (tensorName net)"
      unfolding m2_def m1_def using IH(1,2) by simp_all
    show ?case unfolding e f Q_def
    proof (intro conjI allI impI)
      show "length (opMask m2) = length (oplists net)" "length (tensorMask m2) = length (tensorName net)" by (rule len)+
      fix i assume "i < length (oplists net)"
      then show "opMask m2 ! i = (if ?O (Suc n) i then 1 else 0)" unfolding O using IH(3) by (auto simp: less_Suc_eq)
    next
      fix t assume "t < length (tensorName net)"
      then have m: "tensorMask m ! t = (if ?T2 n t then 2 else if ?T1 n t then 1 else 0)" using IH(4) by blast
      have "?T2 (Suc n) t \<longleftrightarrow> ?T2 n t \<or> named_op net (path_inputs p) n \<and> t \<in> set ?outs"
        "?T1 (Suc n) t \<longleftrightarrow> ?T1 n t \<or> named_op net (path_outputs p) n \<and> t \<in> set (?ins @ ?outs)"
        unfolding less_Suc_eq by blast+
      then show "tensorMask m2 ! t = (if ?T2 (Suc n) t then 2 else if ?T1 (Suc n) t then 1 else 0)"
        unfolding T2 T1 by (simp only: m split: if_split) simp
    qed
  qed
  from this [of "length (oplists net)"] have "Q (length (oplists net)) (start_op_mode p net (no_masks net))"
    unfolding start_op_mode_def by blast
  then have Q: "length (opMask (start_op_mode p net (no_masks net))) = length (oplists net)"
    "length (tensorMask (start_op_mode p net (no_masks net))) = length (tensorName net)"
    "\<forall>i<length (oplists net). opMask (start_op_mode p net (no_masks net)) ! i = (if ?O (length (oplists net)) i then 1 else 0)"
    "\<forall>t<length (tensorName net). tensorMask (start_op_mode p net (no_masks net)) ! t =
       (if ?T2 (length (oplists net)) t then 2 else if ?T1 (length (oplists net)) t then 1 else 0)" unfolding Q_def by blast+
  from Q(3) have "\<forall>i<length (oplists net). opMask (start_op_mode p net (no_masks net)) ! i =
      (if named_op net (path_inputs p) i \<or> named_op net (path_outputs p) i then 1 else 0)" by simp
  with Q(1,2,4) show ?thesis by blast
qed

lemma start_masks_inv:
  assumes ok: "net_ok net"
  shows "mask_inv net (wanted_tensor p net) (given_tensor p net) (start_op p net) (start_masks p net)"
proof (cases "path_mode p")
  case Mode_Op
  then have e: "start_masks p net = start_op_mode p net (no_masks net)" by (simp add: start_masks_def no_masks_def)
  show ?thesis unfolding e mask_inv_def using start_op_mode_masks [OF ok, of p] Mode_Op
    by (simp add: wanted_tensor_def given_tensor_def start_op_def) blast
next
  case Mode_Tensor
  then have e: "start_masks p net = start_tensor_mode p net (no_masks net)" by (simp add: start_masks_def no_masks_def)
  show ?thesis unfolding e mask_inv_def using start_tensor_mode_masks [of p net] Mode_Tensor
    by (simp add: wanted_tensor_def given_tensor_def start_op_def)
qed

definition scheduled :: "Path \<Rightarrow> Net \<Rightarrow> nat \<Rightarrow> bool" where
  "scheduled p net i \<longleftrightarrow> path_inputs p = [] \<and> path_outputs p = [] \<or> start_op p net i \<or> traced_op_of p net i"

theorem generateScheduleGraph_scheduled:
  assumes ok: "net_ok net"
  shows "\<exists>is. generateScheduleGraph p net = map (\<lambda>i. oplists net ! i) is \<and> sorted_wrt (<) is \<and>
    set is = {i. i < length (oplists net) \<and> scheduled p net i}"
proof (cases "path_inputs p = [] \<and> path_outputs p = []")
  case True
  then show ?thesis
    by (intro exI [of _ "[0..<length (oplists net)]"]) (auto simp: generateScheduleGraph_def scheduled_def map_nth)
next
  case False
  let ?m = "graph_loop net (start_masks p net)"
  note I = start_masks_inv [OF ok, of p]
  have len: "length (opMask ?m) = length (oplists net)" using graph_loop_inv [OF ok I] by (simp add: mask_inv_def)
  have "0 < opMask ?m ! i \<longleftrightarrow> scheduled p net i" if "i < length (oplists net)" for i
    using graph_loop_traced [OF ok I that] False by (auto simp: scheduled_def)
  then have "set (filter (\<lambda>i. opMask ?m ! i > 0) [0..<length (opMask ?m)]) = {i. i < length (oplists net) \<and> scheduled p net i}"
    unfolding len by auto
  moreover have "sorted_wrt (<) (filter (\<lambda>i. opMask ?m ! i > 0) [0..<length (opMask ?m)])"
    by (rule sorted_wrt_filter) simp
  ultimately show ?thesis using False
    by (intro exI [of _ "filter (\<lambda>i. opMask ?m ! i > 0) [0..<length (opMask ?m)]"]) (auto simp: generateScheduleGraph_def Let_def)
qed

end
