(* ===== verification/Sched_Init.thy ===== *)
theory Sched_Init
  imports Sched_Graph
begin

text \<open>
  source/utils/InitNet.cpp and \<open>Schedule::schedule\<close>: the tensors of a net and their usage, the ops of each
  pipeline, the inputs and outputs of the session. Loading the content of constants, quantization and
  \<open>buildConstantTensors\<close> are left out.
\<close>

section \<open>Tensors\<close>

datatype TensorUsage = TU_NORMAL | TU_INPUT | TU_OUTPUT | TU_CONSTANT | TU_TRAINABLE

record NetTensor =
  net_tensor :: Tensor
  tensor_usage :: TensorUsage
  isMutable :: bool
  region_origins :: "nat list"

type_synonym NetTensors = "NetTensor option list"

definition fresh_tensor :: NetTensor where
  "fresh_tensor = \<lparr>net_tensor = \<lparr>dimensions = 0, extent = (\<lambda>_. 0), stride = (\<lambda>_. 0), ttype = type_float, dimensionFormat = FMT_NCHW,
     ihost = None, fhost = None, tensorArrayAttr = None\<rparr>, tensor_usage = TU_NORMAL, isMutable = True, region_origins = []\<rparr>"

definition set_usage :: "nat \<Rightarrow> TensorUsage \<Rightarrow> NetTensors \<Rightarrow> NetTensors" where
  "set_usage i u ts = (case ts ! i of None \<Rightarrow> ts | Some t \<Rightarrow> ts[i := Some (t\<lparr>tensor_usage := u\<rparr>)])"

definition usage_of :: "NetTensors \<Rightarrow> nat \<Rightarrow> TensorUsage option" where
  "usage_of ts i = map_option tensor_usage (ts ! i)"

text \<open>\<open>initConstTensors\<close>; the parameter says whether the backend has memory for a tensor.\<close>

definition make_trainable :: "NetOp \<Rightarrow> NetTensors \<Rightarrow> NetTensors" where
  "make_trainable x ts =
     fold (\<lambda>index ts. if usage_of ts index = Some TU_CONSTANT then set_usage index TU_TRAINABLE ts else ts) (op_outs x) ts"

definition init_const :: "(nat \<Rightarrow> bool) \<Rightarrow> NetOp \<Rightarrow> NetTensors \<Rightarrow> ErrorCode + NetTensors" where
  "init_const acquire x ts =
     (if op_kind x = Node_Const \<or> op_kind x = Node_TrainableParam then
        let index = op_outs x ! 0
        in case op_main x of
             NM_Blob parameter has_uint8s \<Rightarrow>
               let (zeroShape, output) = computeShapeForBlob parameter (net_tensor fresh_tensor);
                   ts = ts[index := Some (fresh_tensor\<lparr>net_tensor := output, tensor_usage := TU_CONSTANT, isMutable := False\<rparr>)]
               in if zeroShape then Inr ts
                  else if \<not> acquire index then Inl OUT_OF_MEMORY
                  else if dataType parameter = DT_HALF \<and> \<not> has_uint8s then Inl INVALID_VALUE
                  else Inr ts
           | _ \<Rightarrow> Inl INVALID_VALUE
      else Inr (make_trainable x ts))"

primrec init_consts :: "(nat \<Rightarrow> bool) \<Rightarrow> NetOp list \<Rightarrow> NetTensors \<Rightarrow> ErrorCode + NetTensors" where
  "init_consts acquire [] ts = Inr ts"
| "init_consts acquire (x # xs) ts =
     (case init_const acquire x ts of Inl code \<Rightarrow> Inl code | Inr ts \<Rightarrow> init_consts acquire xs ts)"

definition initConstTensors :: "(nat \<Rightarrow> bool) \<Rightarrow> Net \<Rightarrow> ErrorCode + NetTensors" where
  "initConstTensors acquire net = init_consts acquire (oplists net) (replicate (length (tensorName net)) None)"

definition createTensor :: "nat \<Rightarrow> NetTensors \<Rightarrow> NetTensors" where
  "createTensor i ts = (if ts ! i = None then ts[i := Some fresh_tensor] else ts)"

definition input_dims :: "int list option \<Rightarrow> Tensor \<Rightarrow> bool \<times> Tensor" where
  "input_dims idims t =
     (case idims of
        None \<Rightarrow> (True, setDimensions 0 t)
      | Some ds \<Rightarrow>
          let (valid, t) = for_loop 0 (int (length ds))
                (\<lambda>i (valid, t). let ext = (if i = 0 \<and> ds ! nat i = -1 then 1 else ds ! nat i)
                   in (valid \<and> \<not> ext < 0, setLength i ext t)) (True, t)
          in (valid, setDimensions (int (length ds)) t))"

definition init_input :: "NetOp \<Rightarrow> bool \<times> NetTensors \<Rightarrow> bool \<times> NetTensors" where
  "init_input x vts =
     (case vts of (valid, ts) \<Rightarrow>
        if op_kind x \<noteq> Node_Input then (valid, ts)
        else
          let index = op_outs x ! 0
          in case (ts ! index, op_main x) of
               (Some t, NM_Input idims dtype dformat) \<Rightarrow>
                 let (ok, tensor) = input_dims idims (net_tensor t)
                 in (valid \<and> ok,
                     ts[index := Some (t\<lparr>net_tensor := setLinearLayout (setFormat dformat (setType dtype tensor))\<rparr>)])
             | _ \<Rightarrow> (valid, ts))"

definition init_static :: "TensorDescribe \<Rightarrow> NetTensors \<Rightarrow> NetTensors" where
  "init_static des ts =
     (case (ts ! des_index des, des_blob des) of
        (Some t, Some blob) \<Rightarrow>
          if tensor_usage t \<noteq> TU_NORMAL then ts
          else
            let tensor = (case blobDims blob of
                    Some ds \<Rightarrow> setDimensions (int (length ds)) (for_loop 0 (int (length ds)) (\<lambda>i t. setLength i (ds ! nat i) t) (net_tensor t))
                  | None \<Rightarrow> setDimensions 0 (net_tensor t));
                t = t\<lparr>net_tensor := setFormat (dataFormat blob) (setType (dataType blob) tensor)\<rparr>;
                t = (case des_regions des of None \<Rightarrow> t | Some rs \<Rightarrow> t\<lparr>region_origins := rs\<rparr>)
            in ts[des_index des := Some t]
      | _ \<Rightarrow> ts)"

text \<open>\<open>initTensors\<close>, for all tensors or those of the listed ops.\<close>

definition initTensors :: "NetTensors \<Rightarrow> Net \<Rightarrow> nat list option \<Rightarrow> bool \<times> NetTensors" where
  "initTensors ts net opList =
     (let ts = (case opList of
            Some is \<Rightarrow> fold (\<lambda>i ts. fold createTensor (op_ins (oplists net ! i) @ op_outs (oplists net ! i)) ts) is ts
          | None \<Rightarrow> fold createTensor [0..<length ts] ts);
          (valid, ts) = fold init_input (oplists net) (True, ts)
      in if net_usage net \<noteq> Usage_INFERENCE_STATIC then (valid, ts)
         else (valid, fold init_static (case extraTensorDescribe net of None \<Rightarrow> [] | Some ds \<Rightarrow> ds) ts))"

section \<open>Pipelines, inputs and outputs\<close>

record OpCacheInfo =
  info_op :: NetOp
  info_inputs :: "nat list"
  info_outputs :: "nat list"

definition initPipelineInfosFromOps :: "NetOp list \<Rightarrow> OpCacheInfo list" where
  "initPipelineInfosFromOps ops =
     map (\<lambda>x. \<lparr>info_op = x, info_inputs = op_ins x, info_outputs = op_outs x\<rparr>) (filter needComputeOp ops)"

text \<open>\<open>setInputOutputForOps\<close>: the sets of indices, then their differences.\<close>

definition region_indexes :: "NetTensors \<Rightarrow> nat set \<times> nat set" where
  "region_indexes ts =
     fold (\<lambda>index (inputs, outputs).
        case ts ! index of None \<Rightarrow> (inputs, outputs)
        | Some t \<Rightarrow> fold (\<lambda>x (inputs, outputs). (insert x inputs, insert index outputs)) (region_origins t) (inputs, outputs))
       [0..<length ts] ({}, {})"

definition op_indexes :: "NetOp list \<Rightarrow> nat set \<times> nat set \<Rightarrow> nat set \<times> nat set" where
  "op_indexes ops io = fold (\<lambda>x (inputs, outputs). (inputs \<union> set (op_ins x), outputs \<union> set (op_outs x))) ops io"

definition mark_usage :: "nat set \<Rightarrow> nat set \<Rightarrow> NetTensors \<Rightarrow> NetTensors" where
  "mark_usage inputs outputs ts =
     (let ts = fold (\<lambda>i ts. if i \<in> inputs - outputs \<and> usage_of ts i \<noteq> Some TU_CONSTANT \<and> usage_of ts i \<noteq> Some TU_TRAINABLE
                            then set_usage i TU_INPUT ts else ts) [0..<length ts] ts
      in fold (\<lambda>i ts. if i \<in> outputs - inputs \<and> usage_of ts i = Some TU_NORMAL then set_usage i TU_OUTPUT ts else ts) [0..<length ts] ts)"

definition setInputOutputForOps :: "NetTensors \<Rightarrow> NetOp list \<Rightarrow> bool \<Rightarrow> NetTensors" where
  "setInputOutputForOps ts ops isStatic =
     (let (inputs, outputs) = op_indexes ops (if isStatic then region_indexes ts else ({}, {}))
      in mark_usage inputs outputs ts)"

section \<open>\<open>Schedule\<close>\<close>

datatype ForwardType = MNN_FORWARD_CPU | MNN_FORWARD_AUTO | MNN_FORWARD_METAL | MNN_FORWARD_CUDA | MNN_FORWARD_OPENCL
  | MNN_FORWARD_OPENGL | MNN_FORWARD_VULKAN | MNN_FORWARD_NN | MNN_FORWARD_USER nat

record ScheduleConfig =
  saveTensors :: "string list"
  forward_type :: ForwardType
  numThread :: int
  sched_path :: Path
  backupType :: ForwardType
  power_low :: bool

text \<open>The registered runtimes, and whether the OpenCL runtime can be made and supports low power.\<close>

record Runtimes =
  has_creator :: "ForwardType \<Rightarrow> bool"
  opencl_low_power :: "bool option"

definition getAppropriateType :: "Runtimes \<Rightarrow> ScheduleConfig \<Rightarrow> ForwardType" where
  "getAppropriateType rts config =
     (let type = (if forward_type config = MNN_FORWARD_AUTO then
                    case filter (has_creator rts)
                           [MNN_FORWARD_USER 0, MNN_FORWARD_NN, MNN_FORWARD_USER 1, MNN_FORWARD_CUDA, MNN_FORWARD_OPENCL,
                            MNN_FORWARD_METAL, MNN_FORWARD_VULKAN, MNN_FORWARD_CPU] of
                      [] \<Rightarrow> MNN_FORWARD_AUTO | bn # _ \<Rightarrow> bn
                  else forward_type config)
      in if \<not> has_creator rts type then backupType config
         else if type = MNN_FORWARD_OPENCL \<and> power_low config \<and> opencl_low_power rts \<noteq> Some True then backupType config
         else type)"

record ScheduleInfo =
  pipelineInfo :: "((ForwardType \<times> int) \<times> OpCacheInfo list) list"
  inputTensors :: "string \<Rightarrow> nat option"
  outputTensor :: "string \<Rightarrow> nat option"
  allTensors :: NetTensors
  validForResize :: bool

definition map_insert :: "'k \<Rightarrow> 'v \<Rightarrow> ('k \<Rightarrow> 'v option) \<Rightarrow> 'k \<Rightarrow> 'v option" where
  "map_insert k v m = (if m k = None then m(k \<mapsto> v) else m)"

definition tensorNameIndexMap :: "Net \<Rightarrow> string \<Rightarrow> nat option" where
  "tensorNameIndexMap net = fold (\<lambda>i m. m(tensorName net ! i \<mapsto> i)) [0..<length (tensorName net)] (\<lambda>_. None)"

definition add_output :: "Net \<Rightarrow> string \<Rightarrow> NetTensors \<times> (string \<Rightarrow> nat option) \<Rightarrow> NetTensors \<times> (string \<Rightarrow> nat option)" where
  "add_output net name so =
     (case so of (ts, outs) \<Rightarrow>
        case tensorNameIndexMap net name of
          None \<Rightarrow> (ts, outs)
        | Some i \<Rightarrow> (if usage_of ts i = Some TU_NORMAL then set_usage i TU_OUTPUT ts else ts, map_insert name i outs))"

definition pipeline_of :: "Runtimes \<Rightarrow> Net \<Rightarrow> ScheduleConfig \<Rightarrow> (ForwardType \<times> int) \<times> OpCacheInfo list" where
  "pipeline_of rts net config =
     (let type = getAppropriateType rts config;
          threads = (if forward_type config = MNN_FORWARD_AUTO \<and> (type = MNN_FORWARD_OPENCL \<or> type = MNN_FORWARD_METAL)
                     then 16 else numThread config)
      in ((type, threads), initPipelineInfosFromOps (generateScheduleGraph (sched_path config) net)))"

text \<open>\<open>consts\<close> are the constants when they are there already. \<open>None\<close>: \<open>schedule\<close> returns false.\<close>

definition schedule :: "(nat \<Rightarrow> bool) \<Rightarrow> Runtimes \<Rightarrow> NetTensors option \<Rightarrow> Net \<Rightarrow> ScheduleConfig list \<Rightarrow> ScheduleInfo option" where
  "schedule acquire rts consts net configs =
     (case (case consts of Some ts \<Rightarrow> Inr ts | None \<Rightarrow> initConstTensors acquire net) of
        Inl _ \<Rightarrow> None
      | Inr ts \<Rightarrow>
          let (valid, ts) = initTensors ts net None;
              result = map (pipeline_of rts net) configs;
              ts = setInputOutputForOps ts (concat (map (\<lambda>(_, infos). map info_op infos) result)) (net_usage net = Usage_INFERENCE_STATIC);
              names = concat (map saveTensors configs) @ (case outputName net of None \<Rightarrow> [] | Some ns \<Rightarrow> ns);
              (ts, outs) = fold (add_output net) names (ts, \<lambda>_. None);
              userSetOutput = (names \<noteq> [] \<and> (\<exists>name\<in>set names. outs name \<noteq> None));
              inputs = fold (\<lambda>i m. if usage_of ts i = Some TU_INPUT then map_insert (tensorName net ! i) i m else m) [0..<length ts] (\<lambda>_. None);
              outs = fold (\<lambda>i m. if usage_of ts i = Some TU_OUTPUT \<and> \<not> userSetOutput then map_insert (tensorName net ! i) i m else m) [0..<length ts] outs
          in Some \<lparr>pipelineInfo = result, inputTensors = inputs, outputTensor = outs, allTensors = ts, validForResize = valid\<rparr>)"

end
