(* ===== verification/Sched_Usage.thy ===== *)
theory Sched_Usage
  imports Sched_Init
begin

text \<open>
  What \<open>Schedule::schedule\<close> makes of the tensors: their usage after each step, and the maps of the session's
  inputs and outputs.
\<close>

section \<open>Usage\<close>

lemma none_iff: "(\<And>i. x = Some i \<longleftrightarrow> P i) \<Longrightarrow> x = None \<longleftrightarrow> (\<forall>i. \<not> P i)"
  by (cases x) auto

lemma length_set_usage [simp]: "length (set_usage i u ts) = length ts"
  by (simp add: set_usage_def split: option.split)

lemma usage_set_usage: "i < length ts \<Longrightarrow> usage_of (set_usage i u ts) j = (if i = j then map_option (\<lambda>_. u) (usage_of ts i) else usage_of ts j)"
  by (auto simp: set_usage_def usage_of_def nth_list_update_if split: option.split)

text \<open>The tensors that hold constants, by the ops that make them.\<close>

definition makes_const :: "NetOp \<Rightarrow> nat \<Rightarrow> bool" where
  "makes_const x i \<longleftrightarrow> (op_kind x = Node_Const \<or> op_kind x = Node_TrainableParam) \<and> op_outs x ! 0 = i"

definition const_tensor :: "Net \<Rightarrow> nat \<Rightarrow> bool" where
  "const_tensor net i \<longleftrightarrow> (\<exists>x\<in>set (oplists net). makes_const x i)"

definition const_usage :: "TensorUsage option \<Rightarrow> bool" where
  "const_usage u \<longleftrightarrow> u = Some TU_CONSTANT \<or> u = Some TU_TRAINABLE"

definition only_consts :: "(nat \<Rightarrow> bool) \<Rightarrow> NetTensors \<Rightarrow> bool" where
  "only_consts C ts \<longleftrightarrow> (\<forall>i<length ts. if C i then const_usage (usage_of ts i) else usage_of ts i = None)"

lemma only_consts_trainable:
  assumes "only_consts C ts" and "list_all (\<lambda>i. i < length ts) is"
  shows "only_consts C (fold (\<lambda>index ts. if usage_of ts index = Some TU_CONSTANT then set_usage index TU_TRAINABLE ts else ts) is ts) \<and>
    length (fold (\<lambda>index ts. if usage_of ts index = Some TU_CONSTANT then set_usage index TU_TRAINABLE ts else ts) is ts) = length ts"
  using assms
proof (induction "is" arbitrary: ts)
  case (Cons i "is")
  let ?ts = "if usage_of ts i = Some TU_CONSTANT then set_usage i TU_TRAINABLE ts else ts"
  have "only_consts C ?ts" "length ?ts = length ts"
    using Cons.prems by (auto simp: only_consts_def usage_set_usage const_usage_def split: if_splits)
  then show ?case using Cons.IH [of ?ts] Cons.prems(2) by simp
qed simp

lemma init_const_consts:
  assumes "init_const acquire x ts = Inr ts'" and "only_consts C ts" and "list_all (\<lambda>i. i < length ts) (op_outs x)"
  shows "only_consts (\<lambda>i. C i \<or> makes_const x i) ts' \<and> length ts' = length ts"
proof (cases "op_kind x = Node_Const \<or> op_kind x = Node_TrainableParam")
  case True
  then obtain t where "ts' = ts[op_outs x ! 0 := Some t]" "tensor_usage t = TU_CONSTANT"
    using assms(1) by (auto simp: init_const_def Let_def split: NodeMain.splits prod.splits if_splits)
  then have "i < length ts \<Longrightarrow> usage_of ts' i = (if op_outs x ! 0 = i then Some TU_CONSTANT else usage_of ts i)" "length ts' = length ts" for i
    by (simp_all add: usage_of_def nth_list_update_if)
  then show ?thesis using assms(2) True by (auto simp: only_consts_def makes_const_def const_usage_def)
next
  case False
  then have "ts' = fold (\<lambda>index ts. if usage_of ts index = Some TU_CONSTANT then set_usage index TU_TRAINABLE ts else ts) (op_outs x) ts"
    using assms(1) by (simp add: init_const_def make_trainable_def)
  moreover have "(\<lambda>i. C i \<or> makes_const x i) = C" using False by (simp add: makes_const_def)
  ultimately show ?thesis using only_consts_trainable [OF assms(2,3)] by simp
qed

lemma init_consts_consts:
  "init_consts acquire xs ts = Inr ts' \<Longrightarrow> only_consts C ts \<Longrightarrow> list_all (\<lambda>x. list_all (\<lambda>i. i < length ts) (op_outs x)) xs \<Longrightarrow>
   only_consts (\<lambda>i. C i \<or> (\<exists>x\<in>set xs. makes_const x i)) ts' \<and> length ts' = length ts"
proof (induction xs arbitrary: ts C)
  case (Cons x xs)
  obtain t1 where t1: "init_const acquire x ts = Inr t1" "init_consts acquire xs t1 = Inr ts'"
    using Cons.prems(1) by (auto split: sum.splits)
  have a: "only_consts (\<lambda>i. C i \<or> makes_const x i) t1" "length t1 = length ts"
    using init_const_consts [OF t1(1) Cons.prems(2)] Cons.prems(3) by simp_all
  have "(\<lambda>i. (C i \<or> makes_const x i) \<or> (\<exists>y\<in>set xs. makes_const y i)) = (\<lambda>i. C i \<or> (\<exists>y\<in>set (x # xs). makes_const y i))" by auto
  then show ?case using Cons.IH [OF t1(2) a(1)] Cons.prems(3) a(2) by simp
qed simp

lemma initConstTensors_consts:
  assumes "initConstTensors acquire net = Inr ts" and "net_ok net"
  shows "only_consts (const_tensor net) ts \<and> length ts = length (tensorName net)"
proof -
  let ?ts = "replicate (length (tensorName net)) (None :: NetTensor option)"
  have "only_consts (\<lambda>_. False) ?ts" by (simp add: only_consts_def usage_of_def)
  moreover have "list_all (\<lambda>x. list_all (\<lambda>i. i < length ?ts) (op_outs x)) (oplists net)"
    using assms(2) by (auto simp: net_ok_def list_all_iff)
  ultimately have "only_consts (\<lambda>i. False \<or> (\<exists>x\<in>set (oplists net). makes_const x i)) ts \<and> length ts = length ?ts"
    using init_consts_consts [of acquire "oplists net" ?ts ts "\<lambda>_. False"] assms(1) unfolding initConstTensors_def by blast
  then show ?thesis unfolding const_tensor_def [abs_def] by simp
qed

lemma createTensor_usage: "i < length ts \<Longrightarrow> usage_of (createTensor i ts) j = (if j = i \<and> usage_of ts j = None then Some TU_NORMAL else usage_of ts j)"
    "length (createTensor i ts) = length ts"
  by (auto simp: createTensor_def usage_of_def fresh_tensor_def nth_list_update_if)

lemma create_all_usage: "n \<le> length ts \<Longrightarrow> length (fold createTensor [0..<n] ts) = length ts \<and>
    usage_of (fold createTensor [0..<n] ts) j = (if j < n \<and> usage_of ts j = None then Some TU_NORMAL else usage_of ts j)"
  by (induction n) (auto simp: createTensor_usage less_Suc_eq)

lemma init_input_usage: "length (snd (init_input x (v, ts))) = length ts \<and> usage_of (snd (init_input x (v, ts))) j = usage_of ts j"
  by (auto simp: init_input_def Let_def usage_of_def nth_list_update_if split: option.split NodeMain.split prod.split)

lemma init_inputs_usage: "length (snd (fold init_input xs vts)) = length (snd vts) \<and> usage_of (snd (fold init_input xs vts)) j = usage_of (snd vts) j"
proof (induction xs arbitrary: vts)
  case (Cons x xs)
  then show ?case using init_input_usage [of x "fst vts" "snd vts" j] by simp
qed simp

lemma initTensors_usage:
  assumes "net_usage net \<noteq> Usage_INFERENCE_STATIC" and "initTensors ts net None = (valid, ts')"
  shows "length ts' = length ts" and "j < length ts \<Longrightarrow> usage_of ts' j = Some (case usage_of ts j of None \<Rightarrow> TU_NORMAL | Some u \<Rightarrow> u)"
proof -
  have e: "ts' = snd (fold init_input (oplists net) (True, fold createTensor [0..<length ts] ts))"
    using assms unfolding initTensors_def by (simp split: prod.splits)
  show "length ts' = length ts" unfolding e using init_inputs_usage create_all_usage [of "length ts" ts] by simp
  show "usage_of ts' j = Some (case usage_of ts j of None \<Rightarrow> TU_NORMAL | Some u \<Rightarrow> u)" if "j < length ts"
    unfolding e using that init_inputs_usage create_all_usage [of "length ts" ts j] by (auto split: option.split)
qed

text \<open>A loop over all tensors that changes the usage of those with a property.\<close>

lemma usage_loop:
  "n \<le> length ts \<Longrightarrow>
   length (fold (\<lambda>i ts. if C i (usage_of ts i) then set_usage i u ts else ts) [0..<n] ts) = length ts \<and>
   usage_of (fold (\<lambda>i ts. if C i (usage_of ts i) then set_usage i u ts else ts) [0..<n] ts) j =
     (if j < n \<and> C j (usage_of ts j) then map_option (\<lambda>_. u) (usage_of ts j) else usage_of ts j)"
proof (induction n arbitrary: j)
  case (Suc n)
  then show ?case by (auto simp: usage_set_usage less_Suc_eq)
qed simp

lemma fold_skip [simp]: "fold (\<lambda>i m. m) xs m = m"
  by (induction xs) simp_all

lemma length_fold: "(\<And>i ts. length (f i ts) = length ts) \<Longrightarrow> length (fold f is ts) = length ts"
  by (induction "is" arbitrary: ts) simp_all

lemma length_mark_usage [simp]: "length (mark_usage inputs outputs ts) = length ts"
  unfolding mark_usage_def Let_def by (subst length_fold, simp, subst length_fold) simp_all

lemma mark_usage_usage:
  assumes "j < length ts" and "usage_of ts j = Some v"
  shows "usage_of (mark_usage inputs outputs ts) j = Some
      (if j \<in> inputs - outputs \<and> v \<noteq> TU_CONSTANT \<and> v \<noteq> TU_TRAINABLE then TU_INPUT
       else if j \<in> outputs - inputs \<and> v = TU_NORMAL then TU_OUTPUT else v)"
proof -
  let ?C1 = "\<lambda>i w. i \<in> inputs - outputs \<and> w \<noteq> Some TU_CONSTANT \<and> w \<noteq> Some TU_TRAINABLE"
  let ?C2 = "\<lambda>i w. i \<in> outputs - inputs \<and> w = Some TU_NORMAL"
  define t1 where "t1 = fold (\<lambda>i ts. if ?C1 i (usage_of ts i) then set_usage i TU_INPUT ts else ts) [0..<length ts] ts"
  have l: "length t1 = length ts" "usage_of t1 j = (if ?C1 j (Some v) then Some TU_INPUT else Some v)"
    using usage_loop [of "length ts" ts ?C1 TU_INPUT j] assms unfolding t1_def by simp_all
  have m: "mark_usage inputs outputs ts = fold (\<lambda>i ts. if ?C2 i (usage_of ts i) then set_usage i TU_OUTPUT ts else ts) [0..<length t1] t1"
    unfolding mark_usage_def t1_def Let_def by simp
  have "usage_of (mark_usage inputs outputs ts) j = (if ?C2 j (usage_of t1 j) then Some TU_OUTPUT else usage_of t1 j)"
    unfolding m using usage_loop [of "length t1" t1 ?C2 TU_OUTPUT j] l assms(1) by auto
  then show "usage_of (mark_usage inputs outputs ts) j = Some
      (if j \<in> inputs - outputs \<and> v \<noteq> TU_CONSTANT \<and> v \<noteq> TU_TRAINABLE then TU_INPUT
       else if j \<in> outputs - inputs \<and> v = TU_NORMAL then TU_OUTPUT else v)"
    using l(2) by (auto split: if_splits)
qed

lemma op_indexes_sets: "op_indexes ops (a, b) = (a \<union> (\<Union>x\<in>set ops. set (op_ins x)), b \<union> (\<Union>x\<in>set ops. set (op_outs x)))"
  unfolding op_indexes_def by (induction ops arbitrary: a b) auto

section \<open>The maps\<close>

lemma map_insert_loop:
  assumes "distinct ns" and "n \<le> length ns"
  shows "fold (\<lambda>i m. if P i then map_insert (ns ! i) i m else m) [0..<n] m k = Some i \<longleftrightarrow>
    m k = Some i \<or> m k = None \<and> i < n \<and> P i \<and> ns ! i = k"
  using assms(2)
proof (induction n arbitrary: i)
  case (Suc n)
  let ?m = "fold (\<lambda>i m. if P i then map_insert (ns ! i) i m else m) [0..<n] m"
  have none: "?m k = None \<longleftrightarrow> m k = None \<and> (\<forall>i<n. P i \<longrightarrow> ns ! i \<noteq> k)"
    using none_iff [OF Suc.IH [OF Suc_leD [OF Suc.prems]]] by (cases "m k") auto
  have new: "\<forall>i<n. ns ! i \<noteq> ns ! n" using Suc.prems assms(1) by (simp add: nth_eq_iff_index_eq)
  have s: "fold (\<lambda>i m. if P i then map_insert (ns ! i) i m else m) [0..<Suc n] m = (if P n then map_insert (ns ! n) n ?m else ?m)" by simp
  show ?case
  proof (cases "P n \<and> ns ! n = k")
    case True
    have "map_insert k n ?m k = Some i \<longleftrightarrow> ?m k = Some i \<or> ?m k = None \<and> i = n" by (auto simp: map_insert_def)
    then show ?thesis unfolding s using True none new Suc by (auto simp: less_Suc_eq)
  next
    case False
    then have "(if P n then map_insert (ns ! n) n ?m else ?m) k = ?m k" by (auto simp: map_insert_def)
    then show ?thesis unfolding s using False Suc by (auto simp: less_Suc_eq)
  qed
qed simp

lemma tensorNameIndexMap_Some:
  assumes "distinct (tensorName net)"
  shows "tensorNameIndexMap net k = Some i \<longleftrightarrow> i < length (tensorName net) \<and> tensorName net ! i = k"
proof -
  have "n \<le> length (tensorName net) \<Longrightarrow> fold (\<lambda>i m. m(tensorName net ! i \<mapsto> i)) [0..<n] (\<lambda>_. None) k = Some i \<longleftrightarrow>
      i < n \<and> tensorName net ! i = k" for n
  proof (induction n arbitrary: i)
    case (Suc n)
    have "\<forall>i<n. tensorName net ! i \<noteq> tensorName net ! n" using Suc.prems assms by (simp add: nth_eq_iff_index_eq)
    then show ?case using Suc by (auto simp: less_Suc_eq)
  qed simp
  then show ?thesis unfolding tensorNameIndexMap_def by blast
qed

lemma add_outputs:
  assumes "distinct (tensorName net)" and "fold (add_output net) names (ts, outs) = (ts', outs')" and "length ts = length (tensorName net)"
  shows "(outs' k = Some i \<longleftrightarrow> outs k = Some i \<or> outs k = None \<and> k \<in> set names \<and> i < length (tensorName net) \<and> tensorName net ! i = k) \<and>
    length ts' = length ts \<and> (j < length ts \<longrightarrow> usage_of ts' j =
      (if usage_of ts j = Some TU_NORMAL \<and> tensorName net ! j \<in> set names then Some TU_OUTPUT else usage_of ts j))"
  using assms(2,3)
proof (induction names arbitrary: ts outs)
  case Nil
  then show ?case by simp
next
  case (Cons name names)
  note N = tensorNameIndexMap_Some [OF assms(1)]
  obtain t1 o1 where one: "add_output net name (ts, outs) = (t1, o1)" by fastforce
  have rest: "fold (add_output net) names (t1, o1) = (ts', outs')" using Cons.prems(1) one by simp
  show ?case
  proof (cases "tensorNameIndexMap net name")
    case None
    then have "t1 = ts" "o1 = outs" using one by (simp_all add: add_output_def)
    moreover have "\<not> (i < length (tensorName net) \<and> tensorName net ! i = name)" for i using N [of name i] None by simp
    ultimately show ?thesis using Cons.IH [OF rest] Cons.prems(2) by auto
  next
    case (Some n)
    then have n: "n < length (tensorName net)" "tensorName net ! n = name" using N by blast+
    have u: "i < length (tensorName net) \<and> tensorName net ! i = name \<longleftrightarrow> i = n" for i
      using n assms(1) by (auto simp: nth_eq_iff_index_eq)
    have e: "t1 = (if usage_of ts n = Some TU_NORMAL then set_usage n TU_OUTPUT ts else ts)" "o1 = map_insert name n outs"
      using one Some by (simp_all add: add_output_def)
    have o: "o1 k = Some i \<longleftrightarrow> outs k = Some i \<or> outs k = None \<and> k = name \<and> i = n" for k i
      unfolding e(2) by (auto simp: map_insert_def)
    then have oN: "o1 k = None \<longleftrightarrow> outs k = None \<and> k \<noteq> name" for k
      using none_iff [OF o] by (cases "outs k") auto
    have t: "length t1 = length ts" "usage_of t1 j = (if usage_of ts j = Some TU_NORMAL \<and> j = n then Some TU_OUTPUT else usage_of ts j)"
      unfolding e(1) using n(1) Cons.prems(2) by (auto simp: usage_set_usage)
    from Cons.IH [OF rest] t(1) Cons.prems(2)
    have "outs' k = Some i \<longleftrightarrow> o1 k = Some i \<or> o1 k = None \<and> k \<in> set names \<and> i < length (tensorName net) \<and> tensorName net ! i = k"
      and "length ts' = length ts" and "j < length ts \<longrightarrow> usage_of ts' j =
        (if usage_of t1 j = Some TU_NORMAL \<and> tensorName net ! j \<in> set names then Some TU_OUTPUT else usage_of t1 j)" by simp_all
    moreover have "o1 k = Some i \<or> o1 k = None \<and> k \<in> set names \<and> i < length (tensorName net) \<and> tensorName net ! i = k \<longleftrightarrow>
        outs k = Some i \<or> outs k = None \<and> k \<in> set (name # names) \<and> i < length (tensorName net) \<and> tensorName net ! i = k"
      unfolding o oN using u by auto
    moreover have "j < length ts \<longrightarrow> (if usage_of t1 j = Some TU_NORMAL \<and> tensorName net ! j \<in> set names then Some TU_OUTPUT else usage_of t1 j) =
        (if usage_of ts j = Some TU_NORMAL \<and> tensorName net ! j \<in> set (name # names) then Some TU_OUTPUT else usage_of ts j)"
      unfolding t(2) using u Cons.prems(2) by auto
    ultimately show ?thesis using t(1) by simp
  qed
qed

end
