(* ===== verification/Sched_Props.thy ===== *)
theory Sched_Props
  imports Sched_Usage
begin

text \<open>
  The properties of scheduling: which ops \<open>generateScheduleGraph\<close> selects, and which tensors are the inputs and
  outputs of the session that \<open>Schedule::schedule\<close> makes.
\<close>

section \<open>The selected ops\<close>

text \<open>A set of ops that has the ops taken by name and every op that makes a tensor which is wanted, or which an
  op of the set reads and which is not given.\<close>

definition path_closed :: "Path \<Rightarrow> Net \<Rightarrow> nat set \<Rightarrow> bool" where
  "path_closed p net S \<longleftrightarrow> (\<forall>i<length (oplists net).
     (start_op p net i \<longrightarrow> i \<in> S) \<and>
     (\<not> start_op p net i \<longrightarrow> (\<exists>t\<in>set (op_outs (oplists net ! i)). wanted_tensor p net t \<or>
        \<not> given_tensor p net t \<and> (\<exists>j\<in>S. j < length (oplists net) \<and> \<not> start_op p net j \<and> t \<in> set (op_ins (oplists net ! j)))) \<longrightarrow> i \<in> S))"

lemma path_closed_least:
  assumes "path_closed p net S" and "traced_op_of p net i"
  shows "i \<in> S"
  using assms(2)
proof (induction rule: traced.induct)
  case (makes_goal i t)
  then show ?case using assms(1) unfolding path_closed_def by blast
next
  case (makes_input j t i)
  then show ?case using assms(1) traced_op [OF makes_input(1)] unfolding path_closed_def by blast
qed

lemma path_closed_scheduled:
  assumes "path_inputs p \<noteq> [] \<or> path_outputs p \<noteq> []"
  shows "path_closed p net {i. i < length (oplists net) \<and> scheduled p net i}"
  unfolding path_closed_def
proof (intro allI impI conjI)
  fix i assume i: "i < length (oplists net)"
  { assume "start_op p net i"
    then show "i \<in> {i. i < length (oplists net) \<and> scheduled p net i}" using i by (simp add: scheduled_def) }
  { assume n: "\<not> start_op p net i" and "\<exists>t\<in>set (op_outs (oplists net ! i)). wanted_tensor p net t \<or>
        \<not> given_tensor p net t \<and> (\<exists>j\<in>{i. i < length (oplists net) \<and> scheduled p net i}.
           j < length (oplists net) \<and> \<not> start_op p net j \<and> t \<in> set (op_ins (oplists net ! j)))"
    then obtain t where t: "t \<in> set (op_outs (oplists net ! i))" "wanted_tensor p net t \<or>
        \<not> given_tensor p net t \<and> (\<exists>j. scheduled p net j \<and> \<not> start_op p net j \<and> t \<in> set (op_ins (oplists net ! j)))" by blast
    have "traced_op_of p net i" using t(2)
    proof (elim disjE conjE exE)
      assume "wanted_tensor p net t" then show ?thesis using i n t(1) by (blast intro: traced.makes_goal)
    next
      fix j assume j: "scheduled p net j" "\<not> start_op p net j" "t \<in> set (op_ins (oplists net ! j))" and g: "\<not> given_tensor p net t"
      have "traced_op_of p net j" using j(1,2) assms by (auto simp: scheduled_def)
      then show ?thesis using j(3) g i n t(1) by (blast intro: traced.makes_input)
    qed
    then show "i \<in> {i. i < length (oplists net) \<and> scheduled p net i}" using i by (simp add: scheduled_def) }
qed

text \<open>The selected ops, in the order of the net and each once. In op mode this takes in the ops named as outputs.\<close>

lemma selected_ops_least:
  assumes "net_ok net" and "path_inputs p \<noteq> [] \<or> path_outputs p \<noteq> []"
  shows "\<exists>S. generateScheduleGraph p net = map (\<lambda>i. oplists net ! i) (filter (\<lambda>i. i \<in> S) [0..<length (oplists net)]) \<and>
    path_closed p net S \<and> (\<forall>S'. path_closed p net S' \<longrightarrow> S \<subseteq> S')"
proof -
  let ?S = "{i. i < length (oplists net) \<and> scheduled p net i}"
  obtain "is" where "is": "generateScheduleGraph p net = map (\<lambda>i. oplists net ! i) is" "sorted_wrt (<) is" "set is = ?S"
    using generateScheduleGraph_scheduled [OF assms(1)] by blast
  have "sorted_wrt (<) (filter (\<lambda>i. i \<in> ?S) [0..<length (oplists net)])" by (rule sorted_wrt_filter) simp
  then have "is = filter (\<lambda>i. i \<in> ?S) [0..<length (oplists net)]"
    using "is"(2,3) by (intro strict_sorted_equal) auto
  moreover have "?S \<subseteq> S'" if "path_closed p net S'" for S'
    using path_closed_least [OF that] that assms(2) unfolding scheduled_def path_closed_def by blast
  ultimately show ?thesis using "is"(1) path_closed_scheduled [OF assms(2)] by blast
qed

text \<open>In tensor mode: every op that makes a tensor which is not given and is wanted, or read by an op of the set.\<close>

definition tensor_closed :: "Path \<Rightarrow> Net \<Rightarrow> nat set \<Rightarrow> bool" where
  "tensor_closed p net S \<longleftrightarrow> (\<forall>i<length (oplists net).
     (\<exists>t\<in>set (op_outs (oplists net ! i)). tensorName net ! t \<notin> set (path_inputs p) \<and>
        (tensorName net ! t \<in> set (path_outputs p) \<or> (\<exists>j\<in>S. j < length (oplists net) \<and> t \<in> set (op_ins (oplists net ! j))))) \<longrightarrow> i \<in> S)"

lemma path_closed_tensor: "path_mode p = Mode_Tensor \<Longrightarrow> path_closed p net S \<longleftrightarrow> tensor_closed p net S"
  unfolding path_closed_def tensor_closed_def start_op_def wanted_tensor_def given_tensor_def by auto

text \<open>
  C9. With a path in tensor mode, the ops that a pipeline runs are the computed ones (no inputs, no constants) of the
  least set of ops that makes the tensors named as outputs and everything that its members read, going back
  up to the tensors named as inputs; in the order of the net and each once.
\<close>

theorem schedule_graph_least:
  assumes "net_ok net" and "path_mode (sched_path config) = Mode_Tensor"
    and "path_inputs (sched_path config) \<noteq> [] \<or> path_outputs (sched_path config) \<noteq> []"
  shows "\<exists>S. tensor_closed (sched_path config) net S \<and> (\<forall>S'. tensor_closed (sched_path config) net S' \<longrightarrow> S \<subseteq> S') \<and>
    map info_op (snd (pipeline_of rts net config)) =
      map (\<lambda>i. oplists net ! i) (filter (\<lambda>i. i \<in> S \<and> needComputeOp (oplists net ! i)) [0..<length (oplists net)])"
proof -
  obtain S where S: "generateScheduleGraph (sched_path config) net = map (\<lambda>i. oplists net ! i) (filter (\<lambda>i. i \<in> S) [0..<length (oplists net)])"
    "path_closed (sched_path config) net S" "\<forall>S'. path_closed (sched_path config) net S' \<longrightarrow> S \<subseteq> S'"
    using selected_ops_least [OF assms(1,3)] by blast
  have "map info_op (snd (pipeline_of rts net config)) = filter needComputeOp (generateScheduleGraph (sched_path config) net)"
    by (simp add: pipeline_of_def initPipelineInfosFromOps_def Let_def comp_def)
  also have "\<dots> = map (\<lambda>i. oplists net ! i) (filter (\<lambda>i. i \<in> S \<and> needComputeOp (oplists net ! i)) [0..<length (oplists net)])"
    unfolding S(1) by (simp add: filter_map comp_def conj_commute)
  finally show ?thesis using S(2,3) unfolding path_closed_tensor [OF assms(2)] by blast
qed

definition demo_net :: Net where
  "demo_net = \<lparr>oplists = [
       \<lparr>op_name = Some ''x'', op_kind = Node_Input, op_main = NM_Input (Some [-1, 3]) DT_FLOAT FMT_NCHW, inputIndexes = None, outputIndexes = Some [0]\<rparr>,
       \<lparr>op_name = Some ''w'', op_kind = Node_Const, op_main = NM_Blob \<lparr>blobDims = Some [0], dataType = DT_FLOAT, dataFormat = FMT_NCHW\<rparr> False, inputIndexes = None, outputIndexes = Some [1]\<rparr>,
       \<lparr>op_name = Some ''a'', op_kind = Node_Other, op_main = NM_None, inputIndexes = Some [0, 1], outputIndexes = Some [2]\<rparr>,
       \<lparr>op_name = Some ''b'', op_kind = Node_Other, op_main = NM_None, inputIndexes = Some [2], outputIndexes = Some [3]\<rparr>,
       \<lparr>op_name = Some ''c'', op_kind = Node_Other, op_main = NM_None, inputIndexes = Some [2], outputIndexes = Some [4]\<rparr>],
     tensorName = [''x'', ''w'', ''a'', ''b'', ''c''], net_usage = Usage_INFERENCE, outputName = None, extraTensorDescribe = None\<rparr>"

lemma demo_net_ok: "net_ok demo_net"
  by (simp add: net_ok_def demo_net_def index_list_def)

definition demo_path :: ScheduleConfig where
  "demo_path = \<lparr>saveTensors = [], forward_type = MNN_FORWARD_CPU, numThread = 4,
     sched_path = \<lparr>path_inputs = [''x''], path_outputs = [''b''], path_mode = Mode_Tensor\<rparr>, backupType = MNN_FORWARD_CPU, power_low = False\<rparr>"

definition demo_runtimes :: Runtimes where
  "demo_runtimes = \<lparr>has_creator = (\<lambda>t. t = MNN_FORWARD_CPU), opencl_low_power = None\<rparr>"

theorem schedule_graph_least_witness:
  "\<exists>S. tensor_closed (sched_path demo_path) demo_net S \<and> (\<forall>S'. tensor_closed (sched_path demo_path) demo_net S' \<longrightarrow> S \<subseteq> S') \<and>
     map info_op (snd (pipeline_of demo_runtimes demo_net demo_path)) =
       map (\<lambda>i. oplists demo_net ! i) (filter (\<lambda>i. i \<in> S \<and> needComputeOp (oplists demo_net ! i)) [0..<length (oplists demo_net)])"
  by (rule schedule_graph_least [OF demo_net_ok]) (simp_all add: demo_path_def)

text \<open>The constant is traced but not run, \<open>x\<close> is given, \<open>c\<close> is not needed.\<close>

lemma demo_schedule:
  "map op_name (generateScheduleGraph (sched_path demo_path) demo_net) = [Some ''w'', Some ''a'', Some ''b''] \<and>
   map (op_name \<circ> info_op) (snd (pipeline_of demo_runtimes demo_net demo_path)) = [Some ''a'', Some ''b'']"
  by code_simp

text \<open>In op mode an op named as an output is scheduled itself, and with no outputs only the ops named as inputs are.\<close>

lemma op_mode_sinks_scheduled:
  assumes "net_ok net" and "path_mode p = Mode_Op" and "i < length (oplists net)" and "named_op net (path_outputs p) i"
  shows "oplists net ! i \<in> set (generateScheduleGraph p net)"
proof -
  obtain "is" where "is": "generateScheduleGraph p net = map (\<lambda>i. oplists net ! i) is"
    "set is = {i. i < length (oplists net) \<and> scheduled p net i}" using generateScheduleGraph_scheduled [OF assms(1)] by blast
  have "scheduled p net i" using assms(2,4) by (simp add: scheduled_def start_op_def)
  then show ?thesis using "is" assms(3) by simp
qed

lemma op_mode_no_sinks:
  assumes "net_ok net" and "path_mode p = Mode_Op" and "path_outputs p = []" and "path_inputs p \<noteq> []"
  shows "set (generateScheduleGraph p net) = {oplists net ! i | i. i < length (oplists net) \<and> named_op net (path_inputs p) i}"
proof -
  obtain "is" where "is": "generateScheduleGraph p net = map (\<lambda>i. oplists net ! i) is"
    "set is = {i. i < length (oplists net) \<and> scheduled p net i}" using generateScheduleGraph_scheduled [OF assms(1)] by blast
  have no: "\<not> named_op net (path_outputs p) i" for i using assms(3) by (simp add: named_op_def split: option.split)
  have "\<not> traced_op_of p net i" for i
  proof
    assume "traced_op_of p net i"
    then show False by (induction rule: traced.induct) (use no assms(2) in \<open>simp_all add: wanted_tensor_def\<close>)
  qed
  then have "scheduled p net i \<longleftrightarrow> named_op net (path_inputs p) i" for i
    using assms(2,4) no by (simp add: scheduled_def start_op_def)
  then show ?thesis using "is" by auto
qed

section \<open>The session's inputs and outputs\<close>

definition run_ops :: "ScheduleInfo \<Rightarrow> NetOp list" where
  "run_ops info = concat (map (\<lambda>(_, infos). map info_op infos) (pipelineInfo info))"

text \<open>A tensor that a run op reads and none makes; one that a run op makes and none reads.\<close>

definition only_read :: "ScheduleInfo \<Rightarrow> nat \<Rightarrow> bool" where
  "only_read info i \<longleftrightarrow> (\<exists>x\<in>set (run_ops info). i \<in> set (op_ins x)) \<and> (\<forall>x\<in>set (run_ops info). i \<notin> set (op_outs x))"

definition only_made :: "ScheduleInfo \<Rightarrow> nat \<Rightarrow> bool" where
  "only_made info i \<longleftrightarrow> (\<exists>x\<in>set (run_ops info). i \<in> set (op_outs x)) \<and> (\<forall>x\<in>set (run_ops info). i \<notin> set (op_ins x))"

definition asked_names :: "Net \<Rightarrow> ScheduleConfig list \<Rightarrow> string list" where
  "asked_names net configs = concat (map saveTensors configs) @ (case outputName net of None \<Rightarrow> [] | Some ns \<Rightarrow> ns)"

lemma usage_after_marks:
  assumes "only_consts C ts0" and "net_usage net \<noteq> Usage_INFERENCE_STATIC" and "initTensors ts0 net None = (valid, ts1)" and "j < length ts0"
  shows "\<exists>u. usage_of (setInputOutputForOps ts1 ops False) j = Some u \<and>
      (u = TU_INPUT \<longleftrightarrow> \<not> C j \<and> (\<exists>x\<in>set ops. j \<in> set (op_ins x)) \<and> (\<forall>x\<in>set ops. j \<notin> set (op_outs x))) \<and>
      (u = TU_OUTPUT \<longleftrightarrow> \<not> C j \<and> (\<exists>x\<in>set ops. j \<in> set (op_outs x)) \<and> (\<forall>x\<in>set ops. j \<notin> set (op_ins x)))"
proof -
  note I = initTensors_usage [OF assms(2,3)]
  define v where "v = (case usage_of ts0 j of None \<Rightarrow> TU_NORMAL | Some u \<Rightarrow> u)"
  have v: "usage_of ts1 j = Some v" "j < length ts1" using I assms(4) by (simp_all add: v_def)
  have c: "if C j then v = TU_CONSTANT \<or> v = TU_TRAINABLE else v = TU_NORMAL"
    using assms(1,4) by (cases "usage_of ts0 j") (auto simp: only_consts_def v_def const_usage_def split: if_splits)
  let ?ins = "\<Union>x\<in>set ops. set (op_ins x)" and ?outs = "\<Union>x\<in>set ops. set (op_outs x)"
  have m: "setInputOutputForOps ts1 ops False = mark_usage ?ins ?outs ts1"
    by (simp add: setInputOutputForOps_def op_indexes_sets)
  show "\<exists>u. usage_of (setInputOutputForOps ts1 ops False) j = Some u \<and>
      (u = TU_INPUT \<longleftrightarrow> \<not> C j \<and> (\<exists>x\<in>set ops. j \<in> set (op_ins x)) \<and> (\<forall>x\<in>set ops. j \<notin> set (op_outs x))) \<and>
      (u = TU_OUTPUT \<longleftrightarrow> \<not> C j \<and> (\<exists>x\<in>set ops. j \<in> set (op_outs x)) \<and> (\<forall>x\<in>set ops. j \<notin> set (op_ins x)))"
    unfolding m mark_usage_usage [OF v(2,1)] using c by (auto split: if_splits)
qed

text \<open>
  C27. In a net with distinct tensor names that is not static (no \<open>Usage_INFERENCE_STATIC\<close>), the inputs of the session are exactly the tensors that an op of a
  pipeline reads, none makes and no constant op fills. When no outputs are asked for (\<open>saveTensors\<close>,
  \<open>outputName\<close>) its outputs are exactly those that an op makes, none reads and no constant op
  fills; when outputs are asked for and one of them is there, they are the named tensors.
\<close>

theorem session_inputs_and_outputs:
  assumes "schedule acquire rts None net configs = Some info" and "net_ok net" and "distinct (tensorName net)"
    and "net_usage net \<noteq> Usage_INFERENCE_STATIC"
  shows "(inputTensors info name = Some i \<longleftrightarrow>
      i < length (tensorName net) \<and> tensorName net ! i = name \<and> only_read info i \<and> \<not> const_tensor net i) \<and>
    (outputTensor info name = Some i \<longleftrightarrow> i < length (tensorName net) \<and> tensorName net ! i = name \<and>
      (if set (asked_names net configs) \<inter> set (tensorName net) = {} then only_made info i \<and> \<not> const_tensor net i
       else name \<in> set (asked_names net configs)))"
proof -
  let ?names = "asked_names net configs" and ?n = "length (tensorName net)"
  obtain ts0 where ts0: "initConstTensors acquire net = Inr ts0"
    using assms(1) unfolding schedule_def by (auto split: sum.splits)
  obtain valid ts1 where ts1: "initTensors ts0 net None = (valid, ts1)" by fastforce
  define result where "result = map (pipeline_of rts net) configs"
  define ops where "ops = concat (map (\<lambda>(_, infos). map info_op infos) result)"
  define ts2 where "ts2 = setInputOutputForOps ts1 ops False"
  obtain ts3 outs where ts3: "fold (add_output net) ?names (ts2, \<lambda>_. None) = (ts3, outs)" by fastforce
  define user where "user = (?names \<noteq> [] \<and> (\<exists>name\<in>set ?names. outs name \<noteq> None))"
  have static: "(net_usage net = Usage_INFERENCE_STATIC) = False" using assms(4) by simp
  note raw = assms(1) [unfolded schedule_def option.case ts0 sum.case Let_def ts1 prod.case static asked_names_def [symmetric]
      result_def [symmetric] ops_def [symmetric] ts2_def [symmetric] ts3 user_def [symmetric]]
  note fields = option.inject [THEN iffD1, OF raw]
  have info: "pipelineInfo info = result"
    "inputTensors info = fold (\<lambda>i m. if usage_of ts3 i = Some TU_INPUT then map_insert (tensorName net ! i) i m else m) [0..<length ts3] (\<lambda>_. None)"
    "outputTensor info = fold (\<lambda>i m. if usage_of ts3 i = Some TU_OUTPUT \<and> \<not> user then map_insert (tensorName net ! i) i m else m) [0..<length ts3] outs"
    unfolding fields [symmetric] ScheduleInfo.simps by (rule refl)+
  have run: "run_ops info = ops" by (simp add: run_ops_def info ops_def)
  note C = initConstTensors_consts [OF ts0 assms(2)]
  note U = usage_after_marks [OF conjunct1 [OF C] assms(4) ts1, of _ ops, folded ts2_def]
  have len: "length ts2 = ?n" using C initTensors_usage(1) [OF assms(4) ts1] by (simp add: ts2_def setInputOutputForOps_def split: prod.split)
  note O = add_outputs [OF assms(3) ts3 len]
  have len3: "length ts3 = ?n" using O [of name i 0] len by simp
  have u2: "\<exists>u. usage_of ts2 j = Some u \<and> (u = TU_INPUT \<longleftrightarrow> \<not> const_tensor net j \<and> only_read info j) \<and>
      (u = TU_OUTPUT \<longleftrightarrow> \<not> const_tensor net j \<and> only_made info j)" if "j < ?n" for j
    using U [of j] that C unfolding only_read_def only_made_def run by simp
  have u3: "usage_of ts3 j = (if usage_of ts2 j = Some TU_NORMAL \<and> tensorName net ! j \<in> set ?names then Some TU_OUTPUT else usage_of ts2 j)"
    if "j < ?n" for j using O [of name i j] that len by simp
  have u3_in: "usage_of ts3 j = Some TU_INPUT \<longleftrightarrow> \<not> const_tensor net j \<and> only_read info j" if "j < ?n" for j
    using u2 [OF that] u3 [OF that] by auto
  note loop = map_insert_loop [OF assms(3), of "length ts3"]
  have ins: "inputTensors info name = Some i \<longleftrightarrow>
      i < ?n \<and> tensorName net ! i = name \<and> only_read info i \<and> \<not> const_tensor net i"
    unfolding info(2) using loop [of "\<lambda>i. usage_of ts3 i = Some TU_INPUT" "\<lambda>_. None" name i] u3_in [of i] by (auto simp: len3)
  have outs: "outs k = Some i \<longleftrightarrow> k \<in> set ?names \<and> i < ?n \<and> tensorName net ! i = k" for k i using O [of k i] by simp
  show ?thesis
  proof (cases "set ?names \<inter> set (tensorName net) = {}")
    case True
    have none: "outs k = None" for k using outs True by (cases "outs k") (auto dest: nth_mem)
    have "\<not> user" using none by (simp add: user_def)
    moreover have "usage_of ts3 i = usage_of ts2 i" if "i < ?n" using u3 [OF that] True that by (auto dest: nth_mem)
    ultimately have "outputTensor info name = Some i \<longleftrightarrow>
        i < ?n \<and> tensorName net ! i = name \<and> only_made info i \<and> \<not> const_tensor net i"
      unfolding info(3) using loop [of "\<lambda>i. usage_of ts3 i = Some TU_OUTPUT \<and> \<not> user" outs name i] none u2 [of i] by (auto simp: len3)
    then show ?thesis using ins True by simp
  next
    case False
    then obtain k where k: "k \<in> set ?names" "k \<in> set (tensorName net)" by blast
    then obtain n where "n < ?n" "tensorName net ! n = k" by (auto simp: in_set_conv_nth)
    note n = k(1) this
    have "user" using n outs [of k n] unfolding user_def by (metis empty_iff empty_set option.distinct(1))
    then have "outputTensor info = outs" unfolding info(3) by simp
    then show ?thesis using ins outs False by auto
  qed
qed

definition demo_config :: ScheduleConfig where
  "demo_config = \<lparr>saveTensors = [], forward_type = MNN_FORWARD_CPU, numThread = 4,
     sched_path = \<lparr>path_inputs = [], path_outputs = [], path_mode = Mode_Op\<rparr>, backupType = MNN_FORWARD_CPU, power_low = False\<rparr>"

definition demo_info :: ScheduleInfo where
  "demo_info = the (schedule (\<lambda>_. True) demo_runtimes None demo_net [demo_config])"

lemma demo_init: "\<exists>ts. initConstTensors (\<lambda>_. True) demo_net = Inr ts"
  by (simp add: initConstTensors_def demo_net_def init_const_def index_list_def Let_def split: prod.split)

lemma demo_info: "schedule (\<lambda>_. True) demo_runtimes None demo_net [demo_config] = Some demo_info"
  using demo_init unfolding demo_info_def by (auto simp: schedule_def Let_def split: prod.split)

lemma demo_names: "distinct (tensorName demo_net)" "net_usage demo_net \<noteq> Usage_INFERENCE_STATIC"
  by (simp_all add: demo_net_def)

lemma schedule_pipelines: "schedule acquire rts consts net configs = Some info \<Longrightarrow> pipelineInfo info = map (pipeline_of rts net) configs"
  by (auto simp: schedule_def Let_def split: sum.splits prod.splits)

lemma demo_scheduled_ops: "run_ops demo_info = drop 2 (oplists demo_net)"
proof -
  have "concat (map (\<lambda>(_, infos). map info_op infos) (map (pipeline_of demo_runtimes demo_net) [demo_config])) = drop 2 (oplists demo_net)"
    by code_simp
  then show ?thesis unfolding run_ops_def schedule_pipelines [OF demo_info] .
qed

lemma demo_reads: "only_read demo_info 0" "\<not> const_tensor demo_net 0" "only_made demo_info 3" "\<not> const_tensor demo_net 3"
  unfolding only_read_def only_made_def demo_scheduled_ops
  by (simp_all add: demo_net_def index_list_def const_tensor_def makes_const_def)

text \<open>The session of the net has the input \<open>x\<close> and the output \<open>b\<close>.\<close>

theorem session_inputs_and_outputs_witness:
  "inputTensors demo_info ''x'' = Some 0 \<and> outputTensor demo_info ''b'' = Some 3"
  using session_inputs_and_outputs [OF demo_info demo_net_ok demo_names, of "''x''" 0]
    session_inputs_and_outputs [OF demo_info demo_net_ok demo_names, of "''b''" 3] demo_reads
  by (simp add: demo_net_def demo_config_def asked_names_def)

end
