(* ===== verification/Spec2Isabelle.thy ===== *)
theory Spec2Isabelle
  imports Defer_Props Broadcast_Props Layout_Props Roundtrip_Props Units_Props Blocks_Props
    Window_Props Index_Props Dispatch_Props Eager_Props Region_Props Geo_Props Token_Props
    Pool_Props Sched_Props
    Shape_Index Shape_Conv Shape_Strided Shape_TensorArray Shape_Suite
begin

text \<open>
  A verification library for MNN, the mobile inference engine (C++, under src/).

  \<^bold>\<open>The program.\<close> A model is a graph of ops over tensors. Before a session can run it,
  every op's output shapes are inferred from its input shapes (source/shape, driven by
  \<open>SizeComputer::computeOutputSize\<close>), then memory for all tensors is planned
  (source/core/BufferAllocator.cpp), then backends execute kernels. On the way ops that only
  move elements are rewritten into regions (source/geometry), which one raster kernel copies.
  This library covers the shape inference of (nearly) all ops with its dispatcher, the
  deferred allocator that lays tensors out in one buffer, and below it the eager allocator
  that splits and merges blocks of a parent, down to the aligned \<open>malloc\<close>; the regions, their
  fusion and the geometry computers of the ops that only move elements; the thread pool of the
  CPU backend; which ops of a net a session runs, and which tensors are its inputs and outputs;
  the tokenizers of the language model runtime.

  \<^bold>\<open>Theories and the code they model.\<close>
  \<^item> \<open>Prelude\<close>: source/core/Macro.h (\<open>UP_DIV\<close>, \<open>ROUND_UP\<close>), C's truncating division
    (\<open>cdiv\<close>, \<open>crem\<close>), the error codes, generic lemmas.
  \<^item> \<open>Defer_Model\<close>: \<open>DeferBufferAllocator\<close>, \<open>MemNode\<close>, \<open>MemChunk\<close> and the single buffer
    it fills (source/core/BufferAllocator.hpp and .cpp), as records over an explicit
    store of nodes, one definition per method. \<open>Defer_Chain\<close> and \<open>Defer_Refine\<close>: the
    doubly linked chain of chunks as a list, each method refining a list operation, the
    invariant kept by all of them. \<open>Defer_Compute\<close>: the layout pass. \<open>Defer_Runs\<close>: runs of
    client calls as a step relation. \<open>Defer_Props\<close>: what clients may rely on.
  \<^item> \<open>Memory_Source\<close>: the contract of \<open>BufferAllocator::Allocator\<close> as the locale
    \<open>memory_source\<close>. \<open>Memory_Align\<close>: source/core/MNNMemoryUtils.cpp on 64-bit words and
    \<open>DefaultAllocator\<close>, a source over \<open>malloc\<close> and \<open>free\<close> (the parameter \<open>Libc\<close>).
  \<^item> \<open>Eager_Model\<close>: \<open>EagerBufferAllocator\<close> and \<open>RecurseAllocator\<close>
    (source/core/BufferAllocator.cpp), nodes as indices into a growing store.
    \<open>Eager_Forest\<close>: the partition of the blocks into parts, use counts, and what each
    step does to them; \<open>Eager_Steps\<close>: taking, splitting, giving back and merging on the
    allocator's state; \<open>Eager_Refine\<close>: \<open>alloc\<close> and \<open>free\<close> against the contract;
    \<open>Eager_Source\<close>: an eager allocator is a source again, groups, release;
    \<open>Eager_Runs\<close>: runs as a step relation and an instance of the C library for the
    witnesses; \<open>Eager_Nodes\<close>: alignment and the end of the merging loop; \<open>Eager_Props\<close>.
  \<^item> \<open>Float32\<close>: IEEE single precision rounding as the shape code uses it
    (\<open>ceil((float) a / (float) b)\<close>), exact below \<open>2 ^ 24\<close>.
  \<^item> \<open>Tensor_Model\<close>: a tensor's shape state (include/MNN/Tensor.hpp, HalideRuntime.h) and
    the shape utilities of source/core/TensorUtils.cpp and Tensor.cpp; \<open>for\<close> loops.
  \<^item> \<open>Shape_Broadcast\<close>, \<open>Shape_Layout\<close>, \<open>Shape_Index\<close>, \<open>Shape_Conv\<close>, \<open>Shape_Strided\<close>,
    \<open>Shape_TensorArray\<close>: the \<open>onComputeSize\<close> methods of source/shape/Shape*.cpp, one
    definition per class, named as the class. \<open>Shape_Suite\<close>: the registry and dispatcher
    of source/shape/SizeComputer.cpp and \<open>computeShapeForBlob\<close>.
  \<^item> \<open>Region_Model\<close>: regions (boxes of elements of another tensor) and \<open>FuseRegionStatus\<close>
    of source/core/TensorUtils.cpp, whose members outlive a call. \<open>Region_Fuse\<close>: regions as
    boxes with two linear maps, reindexing and composition; \<open>Region_Steps\<close>: fusing by moving
    the source; \<open>Region_Gather\<close>, \<open>Region_Compute\<close>, \<open>Region_Compose\<close>: the steps of \<open>match\<close> for
    regions that meet in the same strides; \<open>Region_Props\<close>.
  \<^item> \<open>Geo_Model\<close>, \<open>Geo_Ops\<close>: the geometry computers of source/geometry (GeometryPermute, Concat,
    Slice, Convert, Reshape, BroadcastTo, Tile, DepthToSpace, SpaceToBatchND), one definition per
    class, over tensors with the numbers that regions name as origin. \<open>Geo_Nest\<close>: loop nests
    (count, target stride, source stride) and what may be exchanged, dropped or fused in them;
    \<open>Geo_Split\<close>, \<open>Geo_Raster\<close>: row-major nests, unravelled indices, what copying a list of regions
    leaves in the target; \<open>Geo_Permute\<close>, \<open>Geo_Inverse\<close>, \<open>Geo_Concat\<close>, \<open>Geo_Repeat\<close>, \<open>Geo_Tile\<close>,
    \<open>Geo_Space\<close>: the regions of each computer as nests (tiling writes its axes into arrays of 9 entries:
    \<open>None\<close> is a write behind them); \<open>Geo_Props\<close>: where the elements go, on shapes that shape
    inference gives.
  \<^item> \<open>Broadcast_Props\<close>, \<open>Layout_Props\<close>, \<open>Roundtrip_Props\<close>, \<open>Units_Props\<close>, \<open>Blocks_Props\<close>,
    \<open>Window_Props\<close>, \<open>Index_Props\<close>, \<open>Dispatch_Props\<close>: the properties of the computers
    and of the dispatcher, with the helper lemmas they share.

  \<^item> \<open>Token_Model\<close>: base64, the trie and the tiktoken tokenizer of the language model runtime
    (transformers/llm/engine/src/tokenizer.cpp and .hpp); \<open>Token_Trie\<close>, \<open>Token_Tiktoken\<close>: what is
    found in a trie, the longest token, the end of \<open>encode\<close>; \<open>Token_Base64\<close>: the encoder the
    vocabulary files are written with, and the round trip; \<open>Token_Bpe\<close>: \<open>bpe\<close> against the list
    algorithm; \<open>Token_Hf\<close>: the Hugging Face tokenizer; \<open>Token_Bert\<close>: the Bert tokenizer;
    \<open>Token_Codec\<close>: \<open>Tokenizer::encode\<close> over any tokenizer that decodes what it encodes, as the
    locales \<open>text_codec\<close> and \<open>total_codec\<close>. \<open>Token_Spm_Model\<close>: the Sentencepiece tokenizer, its
    symbols as a linked list over a vector, its priority queue as the list of its pairs of which
    any best one may be popped (\<open>bpe_step\<close>; \<open>bpe_main\<close> pops the first of them); \<open>Token_Spm\<close>: the
    vocabulary and the list algorithm; \<open>Token_Spm_Links\<close>, \<open>Token_Spm_Bpe\<close>: the live symbols cover the
    text and each round joins what the list algorithm joins; \<open>Token_Spm_Codec\<close>: ids and spelling.
    \<open>Token_File\<close>: \<open>createTokenizer\<close> on the lines of a file; \<open>Token_Props\<close>.

  \<^item> \<open>Fair_Steps\<close>: threads that step under a fair schedule and what leads to what, as the locale
    \<open>fair_system\<close>. \<open>Pool_Model\<close>: backend/cpu/ThreadPool.cpp and the \<open>CPURuntime\<close>s that use it
    (backend/cpu/CPUBackend.cpp) as threads with program counters; \<open>Pool_Inv\<close>: the invariant of
    the slots, flags, counts and sleepers; \<open>Pool_Log\<close>: which calls were made and which are owed;
    \<open>Pool_Fair\<close>: progress; \<open>Pool_Props\<close>.

  \<^item> \<open>Sched_Model\<close>: \<open>generateScheduleGraph\<close> of source/core/Schedule.cpp on nets (flatbuffers tables
    as records, tensors named by index), its loop with the termination proof; \<open>Sched_Graph\<close>: the
    masks against tracing back from the wanted tensors (\<open>traced\<close>; what is claimed is the tensor mode, the
    comment on op mode says something else than the code does); \<open>Sched_Init\<close>:
    source/utils/InitNet.cpp, \<open>getAppropriateType\<close> and \<open>schedule\<close>; \<open>Sched_Usage\<close>: the usage of each
    tensor after each step and the maps by name; \<open>Sched_Props\<close>.

  \<^bold>\<open>Conventions.\<close> A shape computer takes the op's parameters, the inputs and the outputs
  as they are before the call, and gives the outputs after it, or \<open>None\<close> where the code
  returns false. An output keeps whatever the code does not write, so that a forgotten
  assignment is visible. C's \<open>int\<close> is \<open>int\<close>: extents and element counts are taken to
  fit, as signed overflow is undefined in C++. \<open>MNN_ASSERT\<close> is a no-op in a release
  build and is not modelled: what the code does without it is. A pointer that may be
  null is an option.

  The allocators' \<open>size_t\<close> is \<open>nat\<close>: offsets and sizes are bounded by blocks that exist;
  the two subtractions that may go below 0 are written modulo \<open>2 ^ 64\<close>, and the aligned
  \<open>malloc\<close> computes on \<open>64 word\<close>. The contract asks for requests of 1 to \<open>2 ^ 63 - 1\<close>
  bytes; the eager allocator keeps it with minimal block size 0, the default (with
  another one it does not: \<open>min_size_group_hands_out_twice\<close>).

  The thread pool's atomics are sequentially consistent, as in the code, and what a mutex guards is one
  step; a worker that waits wakes up only when it is notified. A schedule is a sequence of thread names;
  it is fair when every name comes up again and again.

  \<^bold>\<open>Fuel.\<close> Two loops follow pointers and take fuel. The layout pass (\<open>visiChildren\<close> of
  \<open>Defer_Model\<close>): \<open>Defer_Compute\<close> shows that the number of nodes of the store is enough in
  every reachable state. The merging loop of \<open>returnMemory\<close> (\<open>merge_up\<close>): the number of
  nodes is enough, as \<open>return_memory_loop_ends\<close> shows.

  \<^bold>\<open>Not modelled.\<close> The allocator over mapped files and \<open>sync\<close> (file system calls). Prior box (float tolerance) and plugin computers; the flops
  estimates; backends and kernels; the session, the interpreter and the pipeline; of the schedule
  \<open>buildConstantTensors\<close>, the shape cache, loading constants and quantization; the geometry
  computers that leave commands, gather, crop, strided slice and reverse sequence, and the making of raster
  commands; the expression API; the converter; the rest of the language model
  runtime; vendored code.
\<close>

end
